(* ===== verification/Prelude.thy ===== *)
theory Prelude
  imports Main "HOL-Library.Word" "HOL-Library.Sublist"
begin

text \<open>
  What the components of the development share: the machine types of the code
  (\<open>size_t\<close>, \<open>PAGEID\<close> and pointers are 64-bit words on the LP64 targets the code is built
  for, \<open>int\<close> is a signed 32-bit word), the faults a run can end in, and the generic lemmas on
  words, lists and function updates that the component proofs use.
\<close>

unbundle bit_operations_syntax

section \<open>Machine types\<close>

type_synonym u64 = "64 word"
type_synonym u32 = "32 word"
type_synonym i32 = "32 word"
type_synonym addr = "64 word"

abbreviation nullptr :: addr where
  "nullptr \<equiv> 0"

section \<open>Faults\<close>

text \<open>
  A fault is a way in which the code stops: a failed \<open>assert\<close>, a \<open>std::bad_alloc\<close>, a
  \<open>std::runtime_error\<close> of \<open>munmap\<close>, another exception of the standard library, a call of
  \<open>exit(-1)\<close>, a division by zero, or a memory access the C++ standard leaves undefined
  (a null pointer is dereferenced, an array is indexed out of its bounds).
  A fallible operation returns \<open>Inl\<close> of the fault or \<open>Inr\<close> of its result.
  A loop whose end depends on the shape of a heap takes fuel and ends in \<open>NoFuel\<close> when it is
  spent: such a run does not return, and every theorem that a routine returns excludes it.
\<close>

datatype fault =
    AssertFailed
  | BadAlloc
  | RuntimeError
  | NullDeref
  | OutOfBounds
  | StdException
  | ExitProcess
  | DivByZero
  | NoFuel

type_synonym 'a res = "fault + 'a"

definition rbind :: "'a res \<Rightarrow> ('a \<Rightarrow> 'b res) \<Rightarrow> 'b res" where
  "rbind r f = (case r of Inl e \<Rightarrow> Inl e | Inr x \<Rightarrow> f x)"

lemma rbind_Inl [simp]: "rbind (Inl e) f = Inl e"
  by (simp add: rbind_def)

lemma rbind_Inr [simp]: "rbind (Inr x) f = f x"
  by (simp add: rbind_def)

lemma rbind_eq_Inr: "rbind r f = Inr y \<longleftrightarrow> (\<exists>x. r = Inr x \<and> f x = Inr y)"
  by (cases r) auto

lemma rbind_split: "P (rbind r f) \<longleftrightarrow> (\<forall>e. r = Inl e \<longrightarrow> P (Inl e)) \<and> (\<forall>x. r = Inr x \<longrightarrow> P (f x))"
  by (cases r) auto

text \<open>Enough fuel for a loop that visits distinct addresses.\<close>

definition walk_fuel :: nat where
  "walk_fuel = 2 ^ 64"

lemma walk_fuel_Suc: "walk_fuel = Suc 18446744073709551615"
  by (simp add: walk_fuel_def)

section \<open>Hint collections\<close>

named_theorems unat_simps
named_theorems frame_simps
named_theorems inv_intros

section \<open>Words read as natural numbers\<close>

lemma unat_add_nowrap [unat_simps]:
  fixes a b :: u64
  assumes "unat a + unat b < 18446744073709551616"
  shows "unat (a + b) = unat a + unat b"
  using assms unat_add_lem [of a b] by simp

lemma unat_mult_nowrap [unat_simps]:
  fixes a b :: u64
  assumes "unat a * unat b < 18446744073709551616"
  shows "unat (a * b) = unat a * unat b"
  using assms unat_mult_lem [of a b] by simp

lemma unat_minus_nowrap [unat_simps]:
  fixes a b :: u64
  assumes "unat b \<le> unat a"
  shows "unat (a - b) = unat a - unat b"
  using assms by (simp add: unat_sub word_le_nat_alt)

lemma unat_of_nat_small [unat_simps]:
  assumes "n < 18446744073709551616"
  shows "unat (of_nat n :: u64) = n"
  using assms by (simp add: unat_of_nat)

lemma unat_u64_less: "unat (x :: u64) < 18446744073709551616"
  using unsigned_less [of x] by simp

lemma u64_eq_iff_unat: "(a :: u64) = b \<longleftrightarrow> unat a = unat b"
  by (simp add: word_unat_eq_iff)

lemma unat_inj_u64: "unat (a :: u64) = unat b \<Longrightarrow> a = b"
  by (simp add: u64_eq_iff_unat)

text \<open>Clearing the low \<open>k\<close> bits is rounding down to a multiple of \<open>2 ^ k\<close>.\<close>

lemma and_not_mask_eq:
  fixes w :: u64
  shows "w AND NOT (mask k) = push_bit k (drop_bit k w)"
  by (rule bit_eqI) (auto simp: bit_simps)

lemma unat_drop_bit_u64 [unat_simps]: "unat (drop_bit k (w :: u64)) = unat w div 2 ^ k"
  by (simp only: unat_drop_bit_eq) (simp add: drop_bit_eq_div)

lemma unat_push_bit_u64 [unat_simps]:
  fixes w :: u64
  assumes "unat w * 2 ^ k < 18446744073709551616"
  shows "unat (push_bit k w) = unat w * 2 ^ k"
proof -
  have "push_bit k w = of_nat (push_bit k (unat w))"
    by (simp flip: push_bit_of_nat)
  also have "\<dots> = of_nat (unat w * 2 ^ k)"
    by (simp only: push_bit_eq_mult)
  finally show ?thesis
    using assms by (simp only: unat_of_nat_small)
qed

text \<open>Narrowing a small \<open>size_t\<close> to \<open>int\<close> and widening it back.\<close>

lemma sint_ucast_i32:
  fixes w :: u64
  assumes "unat w < 2147483648"
  shows "sint (ucast w :: i32) = int (unat w)"
proof -
  have b: "uint w < 2147483648"
    unfolding uint_nat using assms by linarith
  have t: "take_bit 32 (uint w) = uint w"
    using b by (intro take_bit_int_eq_self) simp_all
  have s: "signed_take_bit 31 (uint w) = uint w"
    using b by (intro signed_take_bit_int_eq_self) (simp_all add: order_trans [of "- 2147483648" 0])
  have "uint (ucast w :: i32) = uint w"
    using t by (simp only: unsigned_ucast_eq) simp
  then have "sint (ucast w :: i32) = signed_take_bit 31 (uint w)"
    by (simp only: sint_uint) simp
  then show ?thesis
    using s by (simp only: uint_nat)
qed

lemma sint_of_int_i32:
  assumes "- 2147483648 \<le> z" "z < 2147483648"
  shows "sint (word_of_int z :: i32) = z"
  using assms by (simp add: signed_of_int signed_take_bit_int_eq_self)

lemma sint_of_nat_i32: "n < 2147483648 \<Longrightarrow> sint (of_nat n :: i32) = int n"
  using sint_of_int_i32 [of "int n"] by simp

lemma unat_scast_ucast_i32:
  fixes w :: u64
  assumes "unat w < 2147483648"
  shows "unat (scast (ucast w :: i32) :: u64) = unat w"
proof -
  have "(scast (ucast w :: i32) :: u64) = word_of_int (int (unat w))"
    by (simp only: scast_eq sint_ucast_i32 [OF assms])
  then show ?thesis
    by simp
qed

end
