(* ===== verification/Size_Class.thy ===== *)
theory Size_Class
  imports Prelude
begin

text \<open>
  The size classes of \<open>ConcurrentMemoryPool/Common.h\<close>: the class \<open>SizeClass\<close> rounds a
  request up to the block size of its class, numbers the classes (the bucket index of the
  thread caches and of the central cache), and says how many blocks and pages to move at once.
  All values are \<open>size_t\<close>; a failed \<open>assert\<close> is a value of the fault type.
  The locale \<open>size_class\<close> is the contract the caches rely on.
\<close>

section \<open>The code\<close>

definition MAX_BYTES :: u64 where
  "MAX_BYTES = 512 * 1024"

definition NFREE_LISTS :: u64 where
  "NFREE_LISTS = 208"

definition NPAGE_LISTS :: u64 where
  "NPAGE_LISTS = 129"

definition PAGE_SHIFT :: nat where
  "PAGE_SHIFT = 13"

definition RoundUp_impl :: "u64 \<Rightarrow> u64 \<Rightarrow> u64" where
  "RoundUp_impl size' align_size = (size' + align_size - 1) AND (NOT (align_size - 1))"

definition Index_impl :: "u64 \<Rightarrow> nat \<Rightarrow> u64" where
  "Index_impl bytes align_shift =
     (bytes + push_bit align_shift 1 - 1) div push_bit align_shift 1 - 1"

definition RoundUp :: "u64 \<Rightarrow> u64" where
  "RoundUp size' =
     (if size' \<le> 128 then RoundUp_impl size' 8
      else if size' \<le> 1024 then RoundUp_impl size' 16
      else if size' \<le> 8 * 1024 then RoundUp_impl size' 128
      else if size' \<le> 64 * 1024 then RoundUp_impl size' 1024
      else if size' \<le> 256 * 1024 then RoundUp_impl size' (8 * 1024)
      else RoundUp_impl size' (push_bit PAGE_SHIFT 1))"

definition Index :: "u64 \<Rightarrow> u64 res" where
  "Index bytes =
     (if \<not> bytes \<le> MAX_BYTES then Inl AssertFailed
      else if bytes \<le> 128 then Inr (Index_impl bytes 3)
      else if bytes \<le> 1024 then Inr (Index_impl (bytes - 128) 4 + 16)
      else if bytes \<le> 8 * 1024 then Inr (Index_impl (bytes - 1024) 7 + 16 + 56)
      else if bytes \<le> 64 * 1024 then Inr (Index_impl (bytes - 8 * 1024) 10 + 16 + 56 + 56)
      else if bytes \<le> 256 * 1024 then Inr (Index_impl (bytes - 64 * 1024) 13 + 16 + 56 + 56 + 56)
      else Inl AssertFailed)"

text \<open>\<open>int nums = MAX_BYTES / size\<close> narrows to 32 bits, the comparisons with it are signed and the
  result is widened back to \<open>size_t\<close>.\<close>

definition NumMoveSize :: "u64 \<Rightarrow> u64 res" where
  "NumMoveSize size' =
     (if \<not> 0 < size' then Inl AssertFailed
      else let nums = ucast (MAX_BYTES div size') :: i32 in
        if nums <s 2 then Inr 2
        else if 512 <s nums then Inr 512
        else Inr (scast nums))"

definition NumMovePage :: "u64 \<Rightarrow> u64 res" where
  "NumMovePage size' =
     (if \<not> 0 < size' then Inl AssertFailed
      else rbind (NumMoveSize size') (\<lambda>nums.
        let bytes = nums * size';
            npage = drop_bit PAGE_SHIFT (bytes + push_bit PAGE_SHIFT 1 - 1)
        in if npage = 0 then Inr 1 else Inr npage))"

section \<open>The classes as arithmetic\<close>

text \<open>The alignment of the class a request belongs to, as the table in the comments of \<open>RoundUp\<close>
  gives it.\<close>

definition class_align :: "nat \<Rightarrow> nat" where
  "class_align n =
     (if n \<le> 128 then 8 else if n \<le> 1024 then 16 else if n \<le> 8192 then 128
      else if n \<le> 65536 then 1024 else 8192)"

definition round_to :: "nat \<Rightarrow> nat \<Rightarrow> nat" where
  "round_to a n = (n + a - 1) div a * a"

definition class_size :: "nat \<Rightarrow> nat" where
  "class_size n = round_to (class_align n) n"

definition class_index :: "nat \<Rightarrow> nat" where
  "class_index n =
     (if n \<le> 128 then (n + 7) div 8 - 1
      else if n \<le> 1024 then (n - 128 + 15) div 16 - 1 + 16
      else if n \<le> 8192 then (n - 1024 + 127) div 128 - 1 + 72
      else if n \<le> 65536 then (n - 8192 + 1023) div 1024 - 1 + 128
      else (n - 65536 + 8191) div 8192 - 1 + 184)"

lemma round_to_ge: "0 < a \<Longrightarrow> n \<le> round_to a n"
proof -
  assume a: "0 < a"
  have "n + a - 1 = (n + a - 1) div a * a + (n + a - 1) mod a"
    by (simp only: div_mult_mod_eq)
  moreover have "(n + a - 1) mod a \<le> a - 1"
    using a by (simp add: less_imp_le_nat Suc_leI le_diff_conv2 mod_less_divisor flip: less_eq_Suc_le)
  ultimately show ?thesis
    using a unfolding round_to_def by linarith
qed

lemma round_to_less: "0 < a \<Longrightarrow> round_to a n < n + a"
  unfolding round_to_def
  using div_times_less_eq_dividend [of "n + a - 1" a] by linarith

lemma RoundUp_impl_pow2:
  assumes "k < 64" "unat s + 2 ^ k - 1 < 18446744073709551616"
  shows "unat (RoundUp_impl s (push_bit k 1)) = round_to (2 ^ k) (unat s)"
proof -
  have p: "push_bit k (1 :: u64) - 1 = mask k"
    by (simp add: mask_eq_exp_minus_1)
  have k: "(2 :: nat) ^ k \<le> 2 ^ 63"
    using assms(1) by (intro power_increasing) auto
  have u: "unat (push_bit k (1 :: u64)) = 2 ^ k"
    using k unat_push_bit_u64 [of 1 k] by simp
  have m: "unat (mask k :: u64) = 2 ^ k - 1"
    unfolding p [symmetric] using u by (simp add: unat_minus_nowrap)
  have e: "s + push_bit k 1 - 1 = s + mask k"
    unfolding p [symmetric] by simp
  have x: "unat (s + mask k) = unat s + 2 ^ k - 1"
    using assms(2) m by (simp add: unat_add_nowrap)
  have d: "unat (drop_bit k (s + mask k)) * 2 ^ k = (unat s + 2 ^ k - 1) div 2 ^ k * 2 ^ k"
    by (simp only: unat_drop_bit_u64 x)
  also have "\<dots> \<le> unat s + 2 ^ k - 1"
    by (rule div_times_less_eq_dividend)
  finally have "unat (push_bit k (drop_bit k (s + mask k))) = unat (drop_bit k (s + mask k)) * 2 ^ k"
    using assms(2) by (intro unat_push_bit_u64) simp
  then show ?thesis
    by (simp only: d round_to_def RoundUp_impl_def p e and_not_mask_eq)
qed

lemmas RoundUp_impl_eqs =
  RoundUp_impl_pow2 [of 3, simplified] RoundUp_impl_pow2 [of 4, simplified]
  RoundUp_impl_pow2 [of 7, simplified] RoundUp_impl_pow2 [of 10, simplified]
  RoundUp_impl_pow2 [of 13, simplified]

theorem RoundUp_class_size:
  assumes "unat s < 18446744073709543424"
  shows "unat (RoundUp s) = class_size (unat s)"
  using assms
  by (simp add: RoundUp_def class_size_def class_align_def RoundUp_impl_eqs word_le_nat_alt PAGE_SHIFT_def)

lemma unat_div_u64: "unat ((a :: u64) div b) = unat a div unat b"
  by (simp add: unat_div)

lemma Index_impl_eq:
  assumes "k < 32" "0 < unat n" "unat n \<le> 524288"
  shows "unat (Index_impl n k) = (unat n + 2 ^ k - 1) div 2 ^ k - 1"
proof -
  have k: "(2 :: nat) ^ k \<le> 2 ^ 32"
    using assms(1) by (intro power_increasing) auto
  have u: "unat (push_bit k (1 :: u64)) = 2 ^ k"
    using k unat_push_bit_u64 [of 1 k] by simp
  have "unat (n + push_bit k 1 - 1) = unat n + 2 ^ k - 1"
    using assms k u by (simp add: unat_add_nowrap unat_minus_nowrap del: push_bit_of_1)
  then have d: "unat ((n + push_bit k 1 - 1) div push_bit k 1) = (unat n + 2 ^ k - 1) div 2 ^ k"
    by (simp only: unat_div_u64 u)
  have "1 * 2 ^ k \<le> unat n + 2 ^ k - 1"
    using assms(2) by simp
  then have "1 \<le> (unat n + 2 ^ k - 1) div 2 ^ k"
    by (subst less_eq_div_iff_mult_less_eq) auto
  then show ?thesis
    unfolding Index_impl_def using d by (simp add: unat_minus_nowrap)
qed

lemmas Index_impl_eqs =
  Index_impl_eq [of 3, simplified] Index_impl_eq [of 4, simplified]
  Index_impl_eq [of 7, simplified] Index_impl_eq [of 10, simplified]
  Index_impl_eq [of 13, simplified]

theorem Index_class_index:
  assumes "0 < unat s" "unat s \<le> 262144"
  shows "\<exists>i. Index s = Inr i \<and> unat i = class_index (unat s)"
  using assms
  by (auto simp: Index_def MAX_BYTES_def class_index_def word_le_nat_alt Index_impl_eqs
      unat_simps)

section \<open>Facts about the classes\<close>

text \<open>The block size of a bucket, the inverse of the index.\<close>

definition bucket_size :: "nat \<Rightarrow> nat" where
  "bucket_size i =
     (if i < 16 then 8 * (i + 1)
      else if i < 72 then 128 + 16 * (i - 15)
      else if i < 128 then 1024 + 128 * (i - 71)
      else if i < 184 then 8192 + 1024 * (i - 127)
      else 65536 + 8192 * (i - 183))"

text \<open>\<open>ceil_div a n\<close> is the number of blocks of \<open>a\<close> bytes that hold \<open>n\<close> bytes. Size and
  index of a class are both linear in it, so the facts below are linear arithmetic.\<close>

definition ceil_div :: "nat \<Rightarrow> nat \<Rightarrow> nat" where
  "ceil_div a n = (n + a - 1) div a"

lemma ceil_div_bounds:
  assumes "0 < a"
  shows "n \<le> ceil_div a n * a" "ceil_div a n * a < n + a"
  using round_to_ge [OF assms, of n] round_to_less [OF assms, of n]
  by (simp_all add: ceil_div_def round_to_def)

lemma ceil_div_mult: "0 < a \<Longrightarrow> ceil_div a (q * a) = q"
  unfolding ceil_div_def
  by (rule div_nat_eqI) (simp_all add: mult.commute)

lemma ceil_div_minus:
  assumes "0 < a" "c * a \<le> n"
  shows "ceil_div a (n - c * a) = ceil_div a n - c"
proof -
  from assms(2) obtain r where r: "n = c * a + r"
    using le_iff_add by blast
  have "c * a + r + a - 1 = (r + a - 1) + c * a"
    using assms(1) by simp
  then have "(c * a + r + a - 1) div a = c + (r + a - 1) div a"
    using assms(1) by (simp only: div_mult_self1)
  then show ?thesis
    unfolding r ceil_div_def by simp
qed

lemma class_size_ceil:
  "class_size n =
     (if n \<le> 128 then ceil_div 8 n * 8 else if n \<le> 1024 then ceil_div 16 n * 16
      else if n \<le> 8192 then ceil_div 128 n * 128 else if n \<le> 65536 then ceil_div 1024 n * 1024
      else ceil_div 8192 n * 8192)"
  by (simp add: class_size_def class_align_def round_to_def ceil_div_def)

lemma class_index_ceil:
  "class_index n =
     (if n \<le> 128 then ceil_div 8 n - 1 else if n \<le> 1024 then ceil_div 16 n - 8 - 1 + 16
      else if n \<le> 8192 then ceil_div 128 n - 8 - 1 + 72
      else if n \<le> 65536 then ceil_div 1024 n - 8 - 1 + 128
      else ceil_div 8192 n - 8 - 1 + 184)"
  using ceil_div_minus [of 16 8 n] ceil_div_minus [of 128 8 n] ceil_div_minus [of 1024 8 n]
    ceil_div_minus [of 8192 8 n]
  by (auto simp: class_index_def ceil_div_def add.commute)

lemma class_cases:
  assumes "0 < (n :: nat)" "n \<le> 262144"
  obtains (c8) "n \<le> 128"
    | (c16) "128 < n" "n \<le> 1024"
    | (c128) "1024 < n" "n \<le> 8192"
    | (c1024) "8192 < n" "n \<le> 65536"
    | (c8192) "65536 < n"
  using assms by linarith

lemmas ceil_bounds =
  ceil_div_bounds [of 8, simplified] ceil_div_bounds [of 16, simplified]
  ceil_div_bounds [of 128, simplified] ceil_div_bounds [of 1024, simplified]
  ceil_div_bounds [of 8192, simplified]

lemmas ceil_mults =
  ceil_div_mult [of 8, simplified] ceil_div_mult [of 16, simplified]
  ceil_div_mult [of 128, simplified] ceil_div_mult [of 1024, simplified]
  ceil_div_mult [of 8192, simplified]

lemma class_size_bucket:
  assumes "0 < n" "n \<le> 262144"
  shows "class_size n = bucket_size (class_index n)"
  by (cases rule: class_cases [OF assms])
    (use assms ceil_bounds [of n] in \<open>simp add: class_size_ceil class_index_ceil bucket_size_def; linarith\<close>)+

lemma class_index_less:
  assumes "0 < n" "n \<le> 262144"
  shows "class_index n < 208"
  by (cases rule: class_cases [OF assms])
    (use assms ceil_bounds [of n] in \<open>simp add: class_index_ceil; linarith\<close>)+

lemma class_size_ge: "n \<le> class_size n"
  unfolding class_size_def by (rule round_to_ge) (simp add: class_align_def)

lemma class_size_le:
  assumes "n \<le> 262144"
  shows "class_size n \<le> 262144"
proof (cases "n = 0")
  case False
  then have "0 < n" by simp
  show ?thesis
    by (cases rule: class_cases [OF \<open>0 < n\<close> assms])
      (use assms ceil_bounds [of n] in \<open>simp add: class_size_ceil; linarith\<close>)+
qed (simp add: class_size_ceil ceil_div_def)

lemma class_size_pos: "0 < n \<Longrightarrow> 0 < class_size n"
  using class_size_ge [of n] by linarith

lemma class_size_waste:
  assumes "128 < n"
  shows "9 * (class_size n - n) \<le> class_size n"
  using assms ceil_bounds [of n]
  by (simp add: class_size_ceil) linarith

lemma class_size_dvd: "8 dvd class_size n"
  unfolding class_size_def class_align_def round_to_def
  by (auto intro: dvd_mult)

lemma class_index_class_size:
  assumes "0 < n" "n \<le> 262144"
  shows "class_index (class_size n) = class_index n"
  by (cases rule: class_cases [OF assms])
    (use assms ceil_bounds [of n] in \<open>simp add: class_size_ceil class_index_ceil ceil_mults; linarith?\<close>)+

lemma class_index_eq_iff:
  assumes "0 < m" "m \<le> 262144" "0 < n" "n \<le> 262144"
  shows "class_index m = class_index n \<longleftrightarrow> class_size m = class_size n"
  using assms class_size_bucket class_index_class_size by metis

lemma class_size_idem: "0 < n \<Longrightarrow> n \<le> 262144 \<Longrightarrow> class_size (class_size n) = class_size n"
  using class_index_eq_iff class_index_class_size class_size_le class_size_pos by metis

section \<open>The contract of the size classes\<close>

text \<open>
  What the caches need: every admissible request has a bucket in range, the bucket is that of
  the rounded size, rounding never shrinks, and requests of one bucket round to one size.
  \<open>bytes\<close> reads a size of the code as a number.
\<close>

locale size_class =
  fixes round_up :: "'s \<Rightarrow> 's"
    and bucket :: "'s \<Rightarrow> nat option"
    and bytes :: "'s \<Rightarrow> nat"
    and limit :: nat
    and nbuckets :: nat
  assumes bucket_in_range: "0 < bytes s \<Longrightarrow> bytes s \<le> limit \<Longrightarrow> \<exists>i < nbuckets. bucket s = Some i"
    and round_up_ge: "0 < bytes s \<Longrightarrow> bytes s \<le> limit \<Longrightarrow> bytes s \<le> bytes (round_up s)"
    and round_up_limit: "0 < bytes s \<Longrightarrow> bytes s \<le> limit \<Longrightarrow> bytes (round_up s) \<le> limit"
    and bucket_round_up: "0 < bytes s \<Longrightarrow> bytes s \<le> limit \<Longrightarrow> bucket (round_up s) = bucket s"
    and same_bucket: "0 < bytes s \<Longrightarrow> bytes s \<le> limit \<Longrightarrow> 0 < bytes t \<Longrightarrow> bytes t \<le> limit \<Longrightarrow>
          bucket s = bucket t \<Longrightarrow> round_up s = round_up t"
begin

lemma round_up_pos: "0 < bytes s \<Longrightarrow> bytes s \<le> limit \<Longrightarrow> 0 < bytes (round_up s)"
  using round_up_ge [of s] by simp

lemma round_up_idem: "0 < bytes s \<Longrightarrow> bytes s \<le> limit \<Longrightarrow> round_up (round_up s) = round_up s"
  by (rule same_bucket) (simp_all add: bucket_round_up round_up_pos round_up_limit)

text \<open>A block freed into a bucket serves every later request of that bucket.\<close>

lemma freed_block_fits:
  assumes "0 < bytes s" "bytes s \<le> limit" "0 < bytes t" "bytes t \<le> limit"
    and "bucket (round_up s) = bucket (round_up t)"
  shows "bytes s \<le> bytes (round_up t)"
  using assms round_up_ge [of s] same_bucket [of s t] bucket_round_up by metis

end

definition bucket_of :: "u64 \<Rightarrow> nat option" where
  "bucket_of s = (case Index s of Inl e \<Rightarrow> None | Inr i \<Rightarrow> Some (unat i))"

lemma bucket_of_eq: "0 < unat s \<Longrightarrow> unat s \<le> 262144 \<Longrightarrow> bucket_of s = Some (class_index (unat s))"
  using Index_class_index [of s] by (auto simp: bucket_of_def)

interpretation sc: size_class RoundUp bucket_of unat 262144 208
proof unfold_locales
  fix s t :: u64
  assume s: "0 < unat s" "unat s \<le> 262144"
  have r: "unat (RoundUp s) = class_size (unat s)"
    using s by (intro RoundUp_class_size) simp
  have r': "0 < class_size (unat s)" "class_size (unat s) \<le> 262144"
    using s class_size_pos class_size_le by auto
  show "\<exists>i<208. bucket_of s = Some i"
    using s class_index_less bucket_of_eq by blast
  show "unat s \<le> unat (RoundUp s)" "unat (RoundUp s) \<le> 262144"
    using r r' class_size_ge by auto
  show "bucket_of (RoundUp s) = bucket_of s"
    using r r' s class_index_class_size by (simp add: bucket_of_eq)
  assume t: "0 < unat t" "unat t \<le> 262144" and b: "bucket_of s = bucket_of t"
  have "unat (RoundUp t) = class_size (unat t)"
    using t by (intro RoundUp_class_size) simp
  then show "RoundUp s = RoundUp t"
    using r s t b class_index_eq_iff [of "unat s" "unat t"]
    by (simp add: bucket_of_eq u64_eq_iff_unat)
qed

lemma Index_bucket: "bucket_of s = Some i \<Longrightarrow> Index s = Inr (of_nat i)"
  by (auto simp: bucket_of_def split: sum.splits)

section \<open>Properties of the size classes\<close>



lemma Index_above_gap:
  assumes "256 * 1024 < unat s"
  shows "Index s = Inl AssertFailed"
  using assms by (simp add: Index_def word_le_nat_alt)

lemma Index_zero: "Index (RoundUp 0) = Inr (- 1)"
  by (simp add: Index_def RoundUp_def MAX_BYTES_def RoundUp_impl_def Index_impl_def)

lemma NumMoveSize_eq:
  assumes "0 < unat s"
  shows "\<exists>k. NumMoveSize s = Inr k \<and> unat k = max 2 (min 512 (524288 div unat s))"
proof -
  define q where "q = MAX_BYTES div s"
  have uq: "unat q = 524288 div unat s"
    by (simp add: q_def unat_div_u64 MAX_BYTES_def)
  have le: "unat q \<le> 524288"
    unfolding uq by (rule div_le_dividend)
  have "0 < s"
    using assms by (simp add: word_less_nat_alt)
  then show ?thesis
    using sint_ucast_i32 [of q] unat_scast_ucast_i32 [of q] le
    by (simp add: NumMoveSize_def word_sless_alt Let_def uint_nat flip: q_def uq
        del: of_nat_unat) linarith?
qed

text \<open>The pages fetched for a class hold the blocks that are moved at once, with less than a page to
  spare, and never more than the largest span of the page cache.\<close>

lemma NumMovePage_eq:
  assumes "0 < unat s" "unat s \<le> 524288"
  shows "\<exists>p. NumMovePage s = Inr p \<and>
    unat p = ceil_div 8192 (max 2 (min 512 (524288 div unat s)) * unat s)"
proof -
  let ?k = "max 2 (min 512 (524288 div unat s))"
  obtain k where k: "NumMoveSize s = Inr k" "unat k = ?k"
    using NumMoveSize_eq [OF assms(1)] by blast
  have "?k * unat s \<le> 512 * 524288"
    using assms(2) by (intro mult_le_mono) auto
  then have u: "unat (k * s) = ?k * unat s" "unat (k * s) \<le> 268435456"
    using k(2) by (simp_all add: unat_mult_nowrap)
  have "unat (k * s + push_bit PAGE_SHIFT 1 - 1) = ?k * unat s + 8191"
    using u by (simp add: PAGE_SHIFT_def unat_add_nowrap unat_minus_nowrap)
  then have p: "unat (drop_bit PAGE_SHIFT (k * s + push_bit PAGE_SHIFT 1 - 1)) = ceil_div 8192 (?k * unat s)"
    by (simp only: unat_drop_bit_u64) (simp add: PAGE_SHIFT_def ceil_div_def)
  have "2 * 1 \<le> ?k * unat s"
    using assms(1) by (intro mult_le_mono) auto
  then have "0 < ceil_div 8192 (?k * unat s)"
    using ceil_bounds(9) [of "?k * unat s"] by linarith
  then have "drop_bit PAGE_SHIFT (k * s + push_bit PAGE_SHIFT 1 - 1) \<noteq> 0"
    using p by auto
  then show ?thesis
    using p k(1) assms(1) by (simp add: NumMovePage_def Let_def word_less_nat_alt)
qed

lemma NumMovePage_ok:
  assumes "0 < unat s" "unat s \<le> 512 * 1024"
  shows "\<exists>k p. NumMoveSize s = Inr k \<and> NumMovePage s = Inr p \<and>
    2 \<le> unat k \<and> unat k \<le> 512 \<and> 1 \<le> unat p \<and> p < NPAGE_LISTS \<and>
    unat k * unat s \<le> unat p * 8192 \<and> unat p * 8192 < unat k * unat s + 8192"
proof -
  obtain k where k: "NumMoveSize s = Inr k" "unat k = max 2 (min 512 (524288 div unat s))"
    using NumMoveSize_eq [OF assms(1)] by blast
  obtain p where p: "NumMovePage s = Inr p" "unat p = ceil_div 8192 (unat k * unat s)"
    using NumMovePage_eq [of s] assms unfolding k(2) by auto
  define q where "q = 524288 div unat s"
  have q: "q * unat s \<le> 524288"
    unfolding q_def by (rule div_times_less_eq_dividend)
  moreover have "512 \<le> q \<Longrightarrow> 512 * unat s \<le> 524288"
    using q mult_le_mono1 [of 512 q "unat s"] by linarith
  ultimately have le: "unat k * unat s \<le> 1048576"
    using assms(2) unfolding k(2) q_def [symmetric]
    by (cases "q < 2"; cases "q < 512") simp_all
  have pos: "2 \<le> unat k * unat s"
    using assms(1) k(2) mult_le_mono [of 2 "unat k" 1 "unat s"] by simp
  have k2: "2 \<le> unat k \<and> unat k \<le> 512"
    unfolding k(2) by simp
  have b: "unat k * unat s \<le> unat p * 8192" "unat p * 8192 < unat k * unat s + 8192"
    unfolding p(2) by (rule ceil_div_bounds, simp)+
  then have "1 \<le> unat p" "unat p < 129"
    using le pos by linarith+
  then have "1 \<le> unat p \<and> p < NPAGE_LISTS"
    by (simp add: NPAGE_LISTS_def word_less_nat_alt)
  then show ?thesis
    using k(1) p(1) k2 b by blast
qed

text \<open>For every size up to \<open>MAX_BYTES\<close> the number of blocks moved at a time is between 2 and
  512, and the pages asked for are at least one, fewer than the number of page lists, hold the
  blocks moved at a time, and do so with less than a page to spare.\<close>

theorem NumMovePage_bounds:
  assumes "0 < unat s" "unat s \<le> 512 * 1024"
  shows "\<exists>k p. NumMoveSize s = Inr k \<and> NumMovePage s = Inr p \<and>
    2 \<le> unat k \<and> unat k \<le> 512 \<and> 1 \<le> unat p \<and> p < NPAGE_LISTS \<and>
    unat k * unat s \<le> unat p * 8192 \<and> unat p * 8192 < unat k * unat s + 8192"
  using assms by (rule NumMovePage_ok)

lemma NumMovePage_bounds_witness:
  "\<exists>k p. NumMoveSize 8192 = Inr k \<and> NumMovePage 8192 = Inr p \<and> 2 \<le> unat k \<and> unat p < 129 \<and>
     unat k * 8192 \<le> unat p * 8192"
  using NumMovePage_bounds [of 8192] by (auto simp: NPAGE_LISTS_def word_less_nat_alt)

end
