(* ===== verification/Page_Map.thy ===== *)
theory Page_Map
  imports Prelude
begin

text \<open>
  The three-level radix tree of \<open>ConcurrentMemoryPool/PageMap.h\<close>
  (\<open>TCMalloc_PageMap3<51>\<close>, the instance the page cache uses: 64-bit page ids less the 13
  bits of the page offset), which maps a page number to the span that owns the page.
  An array of node pointers is a function from indices to optional nodes, \<open>None\<close> for
  \<open>nullptr\<close>; \<open>memset\<close> to zero gives the empty node. The nodes come from object pools
  over \<open>malloc\<close>; a \<open>malloc\<close> that fails is outside this model.
  The locale \<open>page_table\<close> is the contract the page cache relies on, with its lemmas about
  mapping and unmapping a range of pages.
\<close>

section \<open>The code\<close>

definition BITS :: nat where "BITS = 64 - 13"
definition INTERIOR_BITS :: nat where "INTERIOR_BITS = (BITS + 2) div 3"
definition INTERIOR_LENGTH :: u64 where "INTERIOR_LENGTH = push_bit INTERIOR_BITS 1"
definition LEAF_BITS :: nat where "LEAF_BITS = BITS - 2 * INTERIOR_BITS"
definition LEAF_LENGTH :: u64 where "LEAF_LENGTH = push_bit LEAF_BITS 1"

type_synonym leaf = "u64 \<Rightarrow> addr"
type_synonym node = "u64 \<Rightarrow> leaf option"

record pagemap =
  root :: "u64 \<Rightarrow> node option"

definition NewNode :: "u64 \<Rightarrow> 'a option" where
  "NewNode = (\<lambda>_. None)"

definition NewLeaf :: leaf where
  "NewLeaf = (\<lambda>_. nullptr)"

definition pm_new :: pagemap where
  "pm_new = \<lparr>root = NewNode\<rparr>"

definition pm_i1 :: "u64 \<Rightarrow> u64" where
  "pm_i1 k = drop_bit (LEAF_BITS + INTERIOR_BITS) k"

definition pm_i2 :: "u64 \<Rightarrow> u64" where
  "pm_i2 k = drop_bit LEAF_BITS k AND (INTERIOR_LENGTH - 1)"

definition pm_i3 :: "u64 \<Rightarrow> u64" where
  "pm_i3 k = k AND (LEAF_LENGTH - 1)"

text \<open>\<open>EnsureLeaf\<close> creates the missing nodes on the path of \<open>k\<close>; with it, \<open>set\<close> stores
  through the leaf pointer it returns.\<close>

definition EnsureLeaf :: "pagemap \<Rightarrow> u64 \<Rightarrow> (pagemap \<times> leaf) res" where
  "EnsureLeaf m k =
     (if drop_bit BITS k \<noteq> 0 then Inl AssertFailed
      else
        let m1 = (case root m (pm_i1 k) of
                    None \<Rightarrow> m\<lparr>root := (root m)(pm_i1 k := Some NewNode)\<rparr>
                  | Some _ \<Rightarrow> m);
            second = the (root m1 (pm_i1 k));
            m2 = (case second (pm_i2 k) of
                    None \<Rightarrow> m1\<lparr>root := (root m1)(pm_i1 k := Some (second(pm_i2 k := Some NewLeaf)))\<rparr>
                  | Some _ \<Rightarrow> m1)
        in Inr (m2, the (the (root m2 (pm_i1 k)) (pm_i2 k))))"

definition pm_store :: "pagemap \<Rightarrow> u64 \<Rightarrow> leaf \<Rightarrow> pagemap" where
  "pm_store m k leaf =
     m\<lparr>root := (root m)(pm_i1 k := Some ((the (root m (pm_i1 k)))(pm_i2 k := Some leaf)))\<rparr>"

definition pm_set :: "pagemap \<Rightarrow> u64 \<Rightarrow> addr \<Rightarrow> pagemap res" where
  "pm_set m k v =
     rbind (EnsureLeaf m k) (\<lambda>(m', leaf). Inr (pm_store m' k (leaf(pm_i3 k := v))))"

definition pm_get :: "pagemap \<Rightarrow> u64 \<Rightarrow> addr" where
  "pm_get m k =
     (if drop_bit BITS k \<noteq> 0 then nullptr
      else case root m (pm_i1 k) of
        None \<Rightarrow> nullptr
      | Some second \<Rightarrow> (case second (pm_i2 k) of
          None \<Rightarrow> nullptr
        | Some leaf \<Rightarrow> leaf (pm_i3 k)))"

definition pm_erase :: "pagemap \<Rightarrow> u64 \<Rightarrow> pagemap" where
  "pm_erase m k =
     (if drop_bit BITS k \<noteq> 0 then m
      else case root m (pm_i1 k) of
        None \<Rightarrow> m
      | Some second \<Rightarrow> (case second (pm_i2 k) of
          None \<Rightarrow> m
        | Some leaf \<Rightarrow> pm_store m k (leaf(pm_i3 k := nullptr))))"

section \<open>The indices identify the page\<close>

definition page_ok :: "u64 \<Rightarrow> bool" where
  "page_ok k \<longleftrightarrow> drop_bit BITS k = 0"

lemma page_ok_iff: "page_ok k \<longleftrightarrow> unat k < 2251799813685248"
proof -
  have "drop_bit BITS k = 0 \<longleftrightarrow> unat k div 2 ^ 51 = 0"
    by (simp add: u64_eq_iff_unat unat_drop_bit_u64 BITS_def del: div_eq_0_iff)
  then show ?thesis
    by (simp add: page_ok_def div_eq_0_iff)
qed

lemmas pm_consts = BITS_def INTERIOR_BITS_def LEAF_BITS_def

lemma pm_indices_eq:
  assumes "pm_i1 j = pm_i1 k" "pm_i2 j = pm_i2 k" "pm_i3 j = pm_i3 k"
  shows "j = k"
proof (rule bit_eqI)
  fix n
  have m: "INTERIOR_LENGTH - 1 = mask 17" "LEAF_LENGTH - 1 = mask 17"
    by (simp_all add: INTERIOR_LENGTH_def LEAF_LENGTH_def pm_consts mask_eq_exp_minus_1)
  have 1: "bit j (34 + i) = bit k (34 + i)" for i
    using arg_cong [OF assms(1), of "\<lambda>w. bit w i"] by (simp add: pm_i1_def pm_consts bit_drop_bit_eq)
  have 2: "i < 17 \<Longrightarrow> bit j (17 + i) = bit k (17 + i)" for i
    using arg_cong [OF assms(2), of "\<lambda>w. bit w i"]
    by (simp add: pm_i2_def m pm_consts bit_drop_bit_eq bit_and_iff bit_mask_iff)
  have 3: "i < 17 \<Longrightarrow> bit j i = bit k i" for i
    using arg_cong [OF assms(3), of "\<lambda>w. bit w i"]
    by (simp add: pm_i3_def m bit_and_iff bit_mask_iff)
  show "bit j n = bit k n"
    using 1 [of "n - 34"] 2 [of "n - 17"] 3 [of n] by (cases "n < 17"; cases "n < 34") simp_all
qed

lemma pm_get_bad: "\<not> page_ok k \<Longrightarrow> pm_get m k = nullptr"
  by (simp add: pm_get_def page_ok_def)

lemma pm_get_new [simp]: "pm_get pm_new k = nullptr"
  by (simp add: pm_get_def pm_new_def NewNode_def)

lemma pm_set_ok: "page_ok k \<Longrightarrow> \<exists>m'. pm_set m k v = Inr m'"
  by (auto simp: pm_set_def EnsureLeaf_def page_ok_def Let_def split: option.splits)

lemma pm_set_bad: "\<not> page_ok k \<Longrightarrow> pm_set m k v = Inl AssertFailed"
  by (simp add: pm_set_def EnsureLeaf_def page_ok_def)

text \<open>The leaf at a pair of upper indices; the operations in terms of it.\<close>

definition leaf_at :: "pagemap \<Rightarrow> u64 \<Rightarrow> u64 \<Rightarrow> leaf option" where
  "leaf_at m a b = (case root m a of None \<Rightarrow> None | Some second \<Rightarrow> second b)"

lemma pm_get_leaf_at:
  "pm_get m k = (if page_ok k then case leaf_at m (pm_i1 k) (pm_i2 k) of
     None \<Rightarrow> nullptr | Some leaf \<Rightarrow> leaf (pm_i3 k) else nullptr)"
  by (simp add: pm_get_def leaf_at_def page_ok_def split: option.split)

lemma leaf_at_store:
  assumes "root m (pm_i1 k) \<noteq> None"
  shows "leaf_at (pm_store m k leaf) a b =
    (if a = pm_i1 k \<and> b = pm_i2 k then Some leaf else leaf_at m a b)"
  using assms by (auto simp: leaf_at_def pm_store_def)

lemma EnsureLeaf_leaf_at:
  assumes "EnsureLeaf m k = Inr (m', leaf)"
  shows "root m' (pm_i1 k) \<noteq> None"
    and "leaf = (case leaf_at m (pm_i1 k) (pm_i2 k) of None \<Rightarrow> NewLeaf | Some l \<Rightarrow> l)"
    and "leaf_at m' a b = (if a = pm_i1 k \<and> b = pm_i2 k then Some leaf else leaf_at m a b)"
  using assms
  by (cases "root m (pm_i1 k)"; cases "leaf_at m (pm_i1 k) (pm_i2 k)";
      auto simp: EnsureLeaf_def leaf_at_def NewNode_def Let_def split: if_splits)+

lemma leaf_at_pm_set:
  assumes "pm_set m k v = Inr m'"
  shows "leaf_at m' a b =
    (if a = pm_i1 k \<and> b = pm_i2 k
     then Some ((case leaf_at m a b of None \<Rightarrow> NewLeaf | Some l \<Rightarrow> l)(pm_i3 k := v))
     else leaf_at m a b)"
proof -
  obtain m1 leaf where e: "EnsureLeaf m k = Inr (m1, leaf)" and m': "m' = pm_store m1 k (leaf(pm_i3 k := v))"
    using assms by (auto simp: pm_set_def rbind_eq_Inr)
  show ?thesis
    unfolding m' using EnsureLeaf_leaf_at [OF e] by (simp add: leaf_at_store)
qed

lemma pm_get_set:
  assumes "pm_set m k v = Inr m'"
  shows "pm_get m' j = (if j = k then v else pm_get m j)"
proof -
  have ok: "page_ok k"
    using assms pm_set_bad by (cases "page_ok k") auto
  show ?thesis
  proof (cases "j = k")
    case True
    then show ?thesis using ok by (simp add: pm_get_leaf_at leaf_at_pm_set [OF assms])
  next
    case False
    then show ?thesis
      using pm_indices_eq [of j k]
      by (auto simp: pm_get_leaf_at leaf_at_pm_set [OF assms] NewLeaf_def split: option.split)
  qed
qed

lemma pm_get_erase: "pm_get (pm_erase m k) j = (if j = k then nullptr else pm_get m j)"
proof (cases "page_ok k \<and> leaf_at m (pm_i1 k) (pm_i2 k) \<noteq> None")
  case True
  then obtain leaf where l: "leaf_at m (pm_i1 k) (pm_i2 k) = Some leaf" and ok: "page_ok k"
    by auto
  then have e: "pm_erase m k = pm_store m k (leaf(pm_i3 k := nullptr))" and r: "root m (pm_i1 k) \<noteq> None"
    by (auto simp: pm_erase_def leaf_at_def page_ok_def split: option.splits)
  then show ?thesis
    using l ok pm_indices_eq [of j k]
    by (auto simp: pm_get_leaf_at leaf_at_store split: option.split)
next
  case False
  then have "pm_erase m k = m" "pm_get m k = nullptr"
    by (auto simp: pm_erase_def pm_get_leaf_at leaf_at_def page_ok_def split: option.splits)
  then show ?thesis by simp
qed

section \<open>The contract of a page table\<close>

text \<open>A page table maps the admissible page numbers to span pointers. \<open>iter_set\<close> and
  \<open>iter_erase\<close> are the loops of the page caches over the pages of a span.\<close>

fun iter_set :: "('m \<Rightarrow> u64 \<Rightarrow> 'v \<Rightarrow> 'm res) \<Rightarrow> 'm \<Rightarrow> u64 \<Rightarrow> nat \<Rightarrow> 'v \<Rightarrow> 'm res" where
  "iter_set f m start 0 v = Inr m"
| "iter_set f m start (Suc n) v = rbind (f m start v) (\<lambda>m'. iter_set f m' (start + 1) n v)"

fun iter_erase :: "('m \<Rightarrow> u64 \<Rightarrow> 'm) \<Rightarrow> 'm \<Rightarrow> u64 \<Rightarrow> nat \<Rightarrow> 'm" where
  "iter_erase f m start 0 = m"
| "iter_erase f m start (Suc n) = iter_erase f (f m start) (start + 1) n"

text \<open>The pages of a range that stays below the bound of the table.\<close>

definition in_range :: "u64 \<Rightarrow> nat \<Rightarrow> u64 \<Rightarrow> bool" where
  "in_range start n k \<longleftrightarrow> unat start \<le> unat k \<and> unat k < unat start + n"

definition range_ok :: "u64 \<Rightarrow> nat \<Rightarrow> bool" where
  "range_ok start n \<longleftrightarrow> unat start + n \<le> 2251799813685248"

lemma in_range_0 [simp]: "\<not> in_range start 0 k"
  by (simp add: in_range_def)

lemma range_ok_Suc:
  assumes "range_ok start (Suc n)"
  shows "page_ok start" "range_ok (start + 1) n" "unat (start + 1) = unat start + 1"
proof -
  show u: "unat (start + 1) = unat start + 1"
    using assms by (simp add: range_ok_def unat_add_nowrap)
  show "page_ok start" "range_ok (start + 1) n"
    using assms u by (simp_all add: range_ok_def page_ok_iff)
qed

lemma in_range_Suc:
  assumes "range_ok start (Suc n)"
  shows "in_range start (Suc n) k \<longleftrightarrow> k = start \<or> in_range (start + 1) n k"
  using range_ok_Suc(3) [OF assms] by (auto simp: in_range_def u64_eq_iff_unat)

locale page_table =
  fixes get :: "'m \<Rightarrow> u64 \<Rightarrow> addr"
    and set :: "'m \<Rightarrow> u64 \<Rightarrow> addr \<Rightarrow> 'm res"
  assumes set_total: "page_ok k \<Longrightarrow> \<exists>m'. set m k v = Inr m'"
    and get_set: "set m k v = Inr m' \<Longrightarrow> get m' j = (if j = k then v else get m j)"
    and get_bad: "\<not> page_ok k \<Longrightarrow> get m k = nullptr"
begin

lemma iter_set_total: "range_ok start n \<Longrightarrow> \<exists>m'. iter_set set m start n v = Inr m'"
proof (induction n arbitrary: m start)
  case (Suc n)
  then obtain m1 where "set m start v = Inr m1"
    using set_total range_ok_Suc(1) by blast
  then show ?case
    using Suc.IH [OF range_ok_Suc(2) [OF Suc.prems]] by simp
qed simp

lemma get_iter_set:
  "iter_set set m start n v = Inr m' \<Longrightarrow> range_ok start n \<Longrightarrow>
    get m' j = (if in_range start n j then v else get m j)"
proof (induction n arbitrary: m start)
  case (Suc n)
  from Suc.prems(1) obtain m1 where m1: "set m start v = Inr m1"
    and i: "iter_set set m1 (start + 1) n v = Inr m'"
    by (auto simp: rbind_eq_Inr)
  have "get m' j = (if in_range (start + 1) n j then v else get m1 j)"
    using i Suc.prems(2) by (intro Suc.IH range_ok_Suc)
  then show ?case
    using get_set [OF m1] in_range_Suc [OF Suc.prems(2)] by auto
qed simp

lemma iter_set_ex:
  assumes "range_ok start n"
  obtains m' where "iter_set set m start n v = Inr m'"
    and "\<And>j. get m' j = (if in_range start n j then v else get m j)"
  using iter_set_total [OF assms] get_iter_set [OF _ assms] by metis

lemma set_ex:
  assumes "page_ok k"
  obtains m' where "set m k v = Inr m'" and "\<And>j. get m' j = (if j = k then v else get m j)"
  using set_total [OF assms] get_set by metis

end

locale erasable_page_table = page_table +
  fixes erase :: "'m \<Rightarrow> u64 \<Rightarrow> 'm"
  assumes get_erase: "get (erase m k) j = (if j = k then nullptr else get m j)"
begin

lemma get_iter_erase:
  "range_ok start n \<Longrightarrow> get (iter_erase erase m start n) j = (if in_range start n j then nullptr else get m j)"
proof (induction n arbitrary: m start)
  case (Suc n)
  then show ?case
    using Suc.IH [OF range_ok_Suc(2)] in_range_Suc [OF Suc.prems] by (auto simp: get_erase)
qed simp

end

interpretation pm: erasable_page_table pm_get pm_set pm_erase
  by unfold_locales (simp_all add: pm_set_ok pm_get_set pm_get_bad pm_get_erase)

end
