(* ===== verification/Object_Pool.thy ===== *)
theory Object_Pool
  imports Prelude
begin

text \<open>
  Two of the three fixed-size object pools of the repository, each a template class
  \<open>ObjectPool<T>\<close> with \<open>New\<close> and \<open>Delete\<close>:
  \<open>ConcurrentMemoryPool/FixedMemoryPool.h\<close> and \<open>Fixed_Memory_Pool/FixedSizePool.h\<close> (the third is in
  \<open>Pool_Object\<close>).  \<open>sz\<close> is \<open>sizeof(T)\<close>.  The state is the pool object, the words
  the pool keeps in the first eight bytes of its free slots (\<open>op_link\<close>), and the addresses that
  the coming calls of \<open>malloc\<close> (or of \<open>mmap\<close>) return: the allocator of the platform is a
  parameter, a run consumes its results in order, 0 stands for a failed call.
  The locale \<open>object_pool\<close> is the contract: a pool is a stack of free slots.
\<close>

section \<open>Free slots\<close>

text \<open>A null-terminated list through the first word of each slot.\<close>

primrec chain :: "(addr \<Rightarrow> addr) \<Rightarrow> addr \<Rightarrow> addr list \<Rightarrow> bool" where
  "chain lk p [] \<longleftrightarrow> p = nullptr"
| "chain lk p (x # xs) \<longleftrightarrow> p = x \<and> x \<noteq> nullptr \<and> chain lk (lk x) xs"

lemma chain_null [simp]: "chain lk 0 xs \<longleftrightarrow> xs = []"
  by (cases xs) auto

lemma chain_Cons: "p \<noteq> nullptr \<Longrightarrow> chain lk p xs \<longleftrightarrow> (\<exists>ys. xs = p # ys \<and> chain lk (lk p) ys)"
  by (cases xs) auto

lemma chain_frame [simp]: "x \<notin> set xs \<Longrightarrow> chain (lk(x := v)) p xs = chain lk p xs"
  by (induction xs arbitrary: p) auto

lemma chain_cong: "(\<And>x. x \<in> set xs \<Longrightarrow> lk x = lk' x) \<Longrightarrow> chain lk p xs = chain lk' p xs"
  by (induction xs arbitrary: p) auto

lemma chain_unique: "chain lk p xs \<Longrightarrow> chain lk p ys \<Longrightarrow> xs = ys"
proof (induction xs arbitrary: p ys)
  case (Cons x xs)
  then show ?case by (cases ys) auto
qed auto

text \<open>The slots of \<open>step\<close> bytes carved one after the other from an address.\<close>

primrec slots :: "addr \<Rightarrow> u64 \<Rightarrow> nat \<Rightarrow> addr list" where
  "slots base step 0 = []"
| "slots base step (Suc n) = base # slots (base + step) step n"

lemma length_slots [simp]: "length (slots base step n) = n"
  by (induction n arbitrary: base) auto

lemma slots_eq_Nil [simp]: "slots base step n = [] \<longleftrightarrow> n = 0"
  by (cases n) auto

lemma slots_nth: "i < n \<Longrightarrow> slots base step n ! i = base + of_nat i * step"
proof (induction n arbitrary: base i)
  case (Suc n)
  then show ?case by (cases i) (simp_all add: algebra_simps)
qed simp

section \<open>The pool of the concurrent memory pool\<close>

record objpool =
  op_memory :: addr
  op_free_list :: addr
  op_remain :: u64
  op_link :: "addr \<Rightarrow> addr"
  op_mallocs :: "addr list"

definition obj_size :: "u64 \<Rightarrow> u64" where
  "obj_size sz = (if sz > 8 then sz else 8)"

definition block_size :: "u64 \<Rightarrow> u64" where
  "block_size sz = max (4 * 1024) (obj_size sz)"

definition op_refill :: "u64 \<Rightarrow> objpool \<Rightarrow> objpool res" where
  "op_refill sz p =
     (if op_remain p < obj_size sz then
        case op_mallocs p of
          [] \<Rightarrow> Inl BadAlloc
        | tmp # rest \<Rightarrow>
            if tmp = nullptr then Inl BadAlloc
            else Inr (p\<lparr>op_memory := tmp, op_remain := block_size sz, op_mallocs := rest\<rparr>)
      else Inr p)"

definition op_New :: "u64 \<Rightarrow> objpool \<Rightarrow> (addr \<times> objpool) res" where
  "op_New sz p =
     (if op_free_list p \<noteq> nullptr then
        Inr (op_free_list p, p\<lparr>op_free_list := op_link p (op_free_list p)\<rparr>)
      else rbind (op_refill sz p) (\<lambda>q.
        Inr (op_memory q,
             q\<lparr>op_memory := op_memory q + obj_size sz, op_remain := op_remain q - obj_size sz\<rparr>)))"

definition op_Delete :: "objpool \<Rightarrow> addr \<Rightarrow> objpool" where
  "op_Delete p ptr = p\<lparr>op_link := (op_link p)(ptr := op_free_list p), op_free_list := ptr\<rparr>"

section \<open>The contract of an object pool\<close>

text \<open>The free slots are distinct, not null, and none of them is in use.\<close>

definition pool_inv :: "('p \<Rightarrow> addr list \<Rightarrow> bool) \<Rightarrow> 'p \<Rightarrow> addr set \<Rightarrow> bool" where
  "pool_inv rep p live \<longleftrightarrow>
     (\<exists>xs. rep p xs \<and> distinct xs \<and> nullptr \<notin> set xs \<and> nullptr \<notin> live \<and> set xs \<inter> live = {})"

locale object_pool =
  fixes rep :: "'p \<Rightarrow> addr list \<Rightarrow> bool"
    and new :: "'p \<Rightarrow> (addr \<times> 'p) res"
    and delete :: "'p \<Rightarrow> addr \<Rightarrow> 'p"
  assumes new_pop: "rep p (x # xs) \<Longrightarrow> \<exists>p'. new p = Inr (x, p') \<and> rep p' xs"
    and new_empty: "rep p [] \<Longrightarrow> new p = Inl BadAlloc"
    and delete_push: "rep p xs \<Longrightarrow> x \<noteq> nullptr \<Longrightarrow> x \<notin> set xs \<Longrightarrow> rep (delete p x) (x # xs)"
begin

lemma new_fresh:
  assumes "pool_inv rep p live" "new p = Inr (x, p')"
  shows "x \<noteq> nullptr" "x \<notin> live" "pool_inv rep p' (insert x live)"
proof -
  obtain xs where xs: "rep p xs" "distinct xs" "nullptr \<notin> set xs" "nullptr \<notin> live" "set xs \<inter> live = {}"
    using assms(1) by (auto simp: pool_inv_def)
  show "x \<noteq> nullptr" "x \<notin> live" "pool_inv rep p' (insert x live)"
    using xs assms(2) new_empty new_pop
    by (cases xs; fastforce simp: pool_inv_def)+
qed

lemma delete_live:
  assumes "pool_inv rep p live" "x \<in> live"
  shows "pool_inv rep (delete p x) (live - {x})"
proof -
  obtain xs where xs: "rep p xs" "distinct xs" "nullptr \<notin> set xs" "nullptr \<notin> live" "set xs \<inter> live = {}"
    using assms(1) by (auto simp: pool_inv_def)
  then have "x \<noteq> nullptr" "x \<notin> set xs"
    using assms(2) by auto
  then show ?thesis
    unfolding pool_inv_def using xs delete_push [of p xs x] by (intro exI [of _ "x # xs"]) auto
qed

text \<open>A slot that was just returned is the next one handed out.\<close>

lemma new_delete:
  assumes "pool_inv rep p live" "x \<in> live"
  shows "\<exists>p'. new (delete p x) = Inr (x, p') \<and> pool_inv rep p' live"
proof -
  obtain xs where xs: "rep p xs" "distinct xs" "nullptr \<notin> set xs" "nullptr \<notin> live" "set xs \<inter> live = {}"
    using assms(1) by (auto simp: pool_inv_def)
  then have "rep (delete p x) (x # xs)"
    using assms(2) by (intro delete_push) auto
  then show ?thesis
    using new_pop xs unfolding pool_inv_def by blast
qed

end

section \<open>The pool keeps the contract\<close>

definition op_rep :: "u64 \<Rightarrow> objpool \<Rightarrow> addr list \<Rightarrow> bool" where
  "op_rep sz p xs \<longleftrightarrow> nullptr \<notin> set (op_mallocs p) \<and>
     (\<exists>fs. chain (op_link p) (op_free_list p) fs \<and>
       xs = fs @ slots (op_memory p) (obj_size sz) (unat (op_remain p) div unat (obj_size sz)) @
         concat (map (\<lambda>b. slots b (obj_size sz) (unat (block_size sz) div unat (obj_size sz))) (op_mallocs p)))"

lemma obj_size_pos: "8 \<le> unat (obj_size sz)"
  by (simp add: obj_size_def word_less_nat_alt)

lemma block_size_ge: "unat (obj_size sz) \<le> unat (block_size sz)"
  by (simp add: block_size_def max_def word_le_nat_alt)

lemma div_step: "0 < a \<Longrightarrow> a \<le> (n :: nat) \<Longrightarrow> n div a = Suc ((n - a) div a)"
  by (simp add: le_div_geq)

lemma slots_step:
  fixes n a :: u64
  assumes "0 < unat a" "unat a \<le> unat n"
  shows "slots m a (unat n div unat a) = m # slots (m + a) a (unat (n - a) div unat a)"
  using div_step [OF assms] assms by (simp add: unat_minus_nowrap)

lemma op_refill_ok:
  assumes "op_rep sz p (x # xs)" "op_free_list p = nullptr"
  shows "\<exists>q. op_refill sz p = Inr q \<and> op_rep sz q (x # xs) \<and> op_free_list q = nullptr \<and>
    unat (obj_size sz) \<le> unat (op_remain q)"
proof (cases "op_remain p < obj_size sz")
  case True
  then have 0: "unat (op_remain p) div unat (obj_size sz) = 0"
    by (simp add: word_less_nat_alt div_eq_0_iff)
  with assms obtain b bs where b: "op_mallocs p = b # bs" "b \<noteq> nullptr"
    by (cases "op_mallocs p") (auto simp: op_rep_def)
  then show ?thesis
    using True assms 0 block_size_ge [of sz]
    by (auto simp: op_refill_def op_rep_def)
next
  case False
  then show ?thesis
    using assms by (auto simp: op_refill_def word_less_nat_alt)
qed

lemma op_New_pop:
  assumes "op_rep sz p (x # xs)"
  shows "\<exists>p'. op_New sz p = Inr (x, p') \<and> op_rep sz p' xs"
proof (cases "op_free_list p = nullptr")
  case True
  obtain q where q: "op_refill sz p = Inr q" "op_rep sz q (x # xs)" "op_free_list q = nullptr"
      "unat (obj_size sz) \<le> unat (op_remain q)"
    using op_refill_ok [OF assms True] by blast
  have "slots (op_memory q) (obj_size sz) (unat (op_remain q) div unat (obj_size sz)) =
      op_memory q # slots (op_memory q + obj_size sz) (obj_size sz)
        (unat (op_remain q - obj_size sz) div unat (obj_size sz))"
    using q(4) obj_size_pos [of sz] by (intro slots_step) auto
  then show ?thesis
    using True q by (auto simp: op_New_def op_rep_def)
next
  case False
  then show ?thesis
    using assms by (auto simp: op_New_def op_rep_def chain_Cons)
qed

lemma op_New_empty:
  assumes "op_rep sz p []"
  shows "op_New sz p = Inl BadAlloc"
proof -
  from assms have f: "op_free_list p = nullptr"
    and 0: "unat (op_remain p) div unat (obj_size sz) = 0"
    and m: "\<forall>b \<in> set (op_mallocs p). unat (block_size sz) div unat (obj_size sz) = 0"
    unfolding op_rep_def by auto
  have "0 < unat (block_size sz) div unat (obj_size sz)"
    using block_size_ge [of sz] obj_size_pos [of sz] by (simp add: div_greater_zero_iff)
  then have "op_mallocs p = []"
    using m by (cases "op_mallocs p") auto
  moreover have "op_remain p < obj_size sz"
    using 0 obj_size_pos [of sz] by (simp add: word_less_nat_alt div_eq_0_iff)
  ultimately show ?thesis
    using f by (simp add: op_New_def op_refill_def)
qed

lemma op_Delete_push:
  assumes "op_rep sz p xs" "x \<noteq> nullptr" "x \<notin> set xs"
  shows "op_rep sz (op_Delete p x) (x # xs)"
proof -
  obtain fs where "chain (op_link p) (op_free_list p) fs" "set fs \<subseteq> set xs"
    using assms(1) by (auto simp: op_rep_def)
  then show ?thesis
    using assms by (fastforce simp: op_rep_def op_Delete_def)
qed

lemma op_rep_unique: "op_rep sz p xs \<Longrightarrow> op_rep sz p ys \<Longrightarrow> xs = ys"
  using chain_unique unfolding op_rep_def by blast

interpretation op: object_pool "op_rep sz" "op_New sz" op_Delete for sz
  by unfold_locales (simp_all add: op_New_pop op_New_empty op_Delete_push)

section \<open>The pool of \<open>Fixed_Memory_Pool\<close>\<close>

text \<open>
  The first version of the pool: the block is always 4096 bytes, the remaining size is an
  \<open>int\<close> (converted to \<open>size_t\<close> in the comparison with \<open>sizeof(T)\<close>), and the
  object size is an \<open>int\<close> too.
\<close>

record fixpool =
  fx_memory :: addr
  fx_free_list :: addr
  fx_remain :: i32
  fx_link :: "addr \<Rightarrow> addr"
  fx_mallocs :: "addr list"

definition fx_obj_size :: "u64 \<Rightarrow> i32" where
  "fx_obj_size sz = ucast (if sz > 8 then sz else 8)"

definition fx_refill :: "u64 \<Rightarrow> fixpool \<Rightarrow> fixpool res" where
  "fx_refill sz p =
     (if (scast (fx_remain p) :: u64) < sz then
        case fx_mallocs p of
          [] \<Rightarrow> Inl BadAlloc
        | tmp # rest \<Rightarrow>
            if tmp = nullptr then Inl BadAlloc
            else Inr (p\<lparr>fx_memory := tmp, fx_remain := 4 * 1024, fx_mallocs := rest\<rparr>)
      else Inr p)"

definition fx_New :: "u64 \<Rightarrow> fixpool \<Rightarrow> (addr \<times> fixpool) res" where
  "fx_New sz p =
     (if fx_free_list p \<noteq> nullptr then
        Inr (fx_free_list p, p\<lparr>fx_free_list := fx_link p (fx_free_list p)\<rparr>)
      else rbind (fx_refill sz p) (\<lambda>q.
        Inr (fx_memory q,
             q\<lparr>fx_memory := fx_memory q + scast (fx_obj_size sz),
               fx_remain := fx_remain q - fx_obj_size sz\<rparr>)))"

definition fx_Delete :: "fixpool \<Rightarrow> addr \<Rightarrow> fixpool" where
  "fx_Delete p ptr = p\<lparr>fx_link := (fx_link p)(ptr := fx_free_list p), fx_free_list := ptr\<rparr>"

text \<open>For objects of at most 4096 bytes the \<open>int\<close> fields hold small numbers. A type of fewer
  than eight bytes is tested with its own size but carved with eight, which is safe because eight
  divides the block.\<close>

definition fx_step :: "u64 \<Rightarrow> nat" where
  "fx_step sz = (if 8 < unat sz then unat sz else 8)"

definition fx_carve :: "u64 \<Rightarrow> fixpool \<Rightarrow> addr list \<Rightarrow> bool" where
  "fx_carve sz p ys \<longleftrightarrow> 0 < unat sz \<and> unat sz \<le> 4096 \<and> nullptr \<notin> set (fx_mallocs p) \<and>
     (\<exists>r. fx_remain p = of_nat r \<and> r \<le> 4096 \<and> (unat sz \<le> 8 \<longrightarrow> 8 dvd r) \<and>
       ys = slots (fx_memory p) (of_nat (fx_step sz)) (r div fx_step sz) @
         concat (map (\<lambda>b. slots b (of_nat (fx_step sz)) (4096 div fx_step sz)) (fx_mallocs p)))"

definition fx_rep :: "u64 \<Rightarrow> fixpool \<Rightarrow> addr list \<Rightarrow> bool" where
  "fx_rep sz p xs \<longleftrightarrow>
     (\<exists>fs ys. chain (fx_link p) (fx_free_list p) fs \<and> fx_carve sz p ys \<and> xs = fs @ ys)"

lemma fx_carve_cong:
  "fx_memory p = fx_memory q \<Longrightarrow> fx_remain p = fx_remain q \<Longrightarrow> fx_mallocs p = fx_mallocs q \<Longrightarrow>
    fx_carve sz p ys = fx_carve sz q ys"
  by (simp add: fx_carve_def)

lemma scast_of_nat_i32:
  assumes "r < 2147483648"
  shows "(scast (of_nat r :: i32) :: u64) = of_nat r"
proof -
  have u: "unat (of_nat r :: u64) = r"
    using assms by (simp add: unat_of_nat_small)
  have "(ucast (of_nat r :: u64) :: i32) = of_nat r"
    using assms by (simp add: unsigned_of_nat take_bit_nat_eq_self)
  then have "unat (scast (of_nat r :: i32) :: u64) = r"
    using unat_scast_ucast_i32 [of "of_nat r"] assms u by simp
  then show ?thesis
    using u by (simp add: u64_eq_iff_unat)
qed

lemma fx_obj_size_eq:
  assumes "unat sz \<le> 4096"
  shows "fx_obj_size sz = of_nat (fx_step sz)"
proof -
  have "(ucast sz :: i32) = of_nat (unat sz)"
    by (rule of_nat_unat [symmetric])
  then show ?thesis
    using assms by (auto simp: fx_obj_size_def fx_step_def word_less_nat_alt)
qed

lemma fx_refill_ok:
  assumes "fx_carve sz p (x # xs)"
  shows "\<exists>q. fx_refill sz p = Inr q \<and> fx_free_list q = fx_free_list p \<and> set (fx_mallocs q) \<subseteq> set (fx_mallocs p) \<and>
    (\<exists>r. fx_remain q = of_nat r \<and> fx_step sz \<le> r \<and> r \<le> 4096 \<and> (unat sz \<le> 8 \<longrightarrow> 8 dvd r) \<and>
       x # xs = slots (fx_memory q) (of_nat (fx_step sz)) (r div fx_step sz) @
         concat (map (\<lambda>b. slots b (of_nat (fx_step sz)) (4096 div fx_step sz)) (fx_mallocs q)))"
proof -
  obtain r where r: "fx_remain p = of_nat r" "r \<le> 4096" "unat sz \<le> 8 \<longrightarrow> 8 dvd r"
    and x: "x # xs = slots (fx_memory p) (of_nat (fx_step sz)) (r div fx_step sz) @
         concat (map (\<lambda>b. slots b (of_nat (fx_step sz)) (4096 div fx_step sz)) (fx_mallocs p))"
    using assms by (auto simp: fx_carve_def)
  have sz: "0 < unat sz" "unat sz \<le> 4096" "nullptr \<notin> set (fx_mallocs p)"
    using assms by (auto simp: fx_carve_def)
  have c: "(scast (fx_remain p) :: u64) < sz \<longleftrightarrow> r < unat sz"
    using r by (simp add: scast_of_nat_i32 word_less_nat_alt unat_of_nat_small)
  show ?thesis
  proof (cases "r < unat sz")
    case True
    then have 0: "r < fx_step sz"
      by (simp add: fx_step_def)
    with x obtain b bs where b: "fx_mallocs p = b # bs" "b \<noteq> nullptr"
      using sz(3) by (cases "fx_mallocs p") auto
    have "fx_step sz \<le> 4096"
      using sz by (simp add: fx_step_def)
    then show ?thesis
      using True c b x 0
      by (auto simp: fx_refill_def intro!: exI [of _ "4096 :: nat"])
  next
    case False
    then have "fx_step sz \<le> r"
      using r(3) sz(1) by (auto simp: fx_step_def dest: dvd_imp_le)
    then show ?thesis
      using False c r x by (auto simp: fx_refill_def)
  qed
qed

lemma fx_New_pop:
  assumes "fx_rep sz p (x # xs)"
  shows "\<exists>p'. fx_New sz p = Inr (x, p') \<and> fx_rep sz p' xs"
proof (cases "fx_free_list p = nullptr")
  case True
  have carve: "fx_carve sz p (x # xs)"
    using assms True by (auto simp: fx_rep_def)
  then obtain q r where q: "fx_refill sz p = Inr q" "fx_free_list q = fx_free_list p"
      "set (fx_mallocs q) \<subseteq> set (fx_mallocs p)"
    and r: "fx_remain q = of_nat r" "fx_step sz \<le> r" "r \<le> 4096" "unat sz \<le> 8 \<longrightarrow> 8 dvd r"
    and x: "x # xs = slots (fx_memory q) (of_nat (fx_step sz)) (r div fx_step sz) @
         concat (map (\<lambda>b. slots b (of_nat (fx_step sz)) (4096 div fx_step sz)) (fx_mallocs q))"
    using fx_refill_ok by blast
  have sz: "0 < unat sz" "unat sz \<le> 4096" "0 < fx_step sz" "nullptr \<notin> set (fx_mallocs q)"
    using carve q(3) by (auto simp: fx_carve_def fx_step_def)
  let ?p' = "q\<lparr>fx_memory := fx_memory q + scast (fx_obj_size sz), fx_remain := fx_remain q - fx_obj_size sz\<rparr>"
  have s: "slots (fx_memory q) (of_nat (fx_step sz)) (r div fx_step sz) =
      fx_memory q # slots (fx_memory q + of_nat (fx_step sz)) (of_nat (fx_step sz)) ((r - fx_step sz) div fx_step sz)"
    using div_step [OF sz(3) r(2)] by simp
  have "fx_remain ?p' = of_nat (r - fx_step sz)"
    using r sz(2) by (simp add: fx_obj_size_eq of_nat_diff)
  moreover have "fx_memory ?p' = fx_memory q + of_nat (fx_step sz)"
    using sz(2) by (simp add: fx_obj_size_eq scast_of_nat_i32 fx_step_def)
  moreover have "unat sz \<le> 8 \<longrightarrow> 8 dvd r - fx_step sz"
    using r(4) by (auto simp: fx_step_def)
  ultimately have "fx_carve sz ?p' xs"
    unfolding fx_carve_def using sz r(3) x s
    by (intro conjI exI [of _ "r - fx_step sz"]) auto
  moreover have "x = fx_memory q"
    using x s by simp
  ultimately show ?thesis
    using True q by (auto simp: fx_New_def fx_rep_def)
next
  case False
  then obtain fs ys where f: "chain (fx_link p) (fx_link p (fx_free_list p)) fs" "fx_carve sz p ys"
      "x = fx_free_list p" "xs = fs @ ys"
    using assms by (auto simp: fx_rep_def chain_Cons)
  have "fx_carve sz (p\<lparr>fx_free_list := fx_link p (fx_free_list p)\<rparr>) ys"
    using f(2) by (simp add: fx_carve_def)
  then show ?thesis
    using False f by (auto simp: fx_New_def fx_rep_def)
qed

lemma fx_New_empty:
  assumes "fx_rep sz p []"
  shows "fx_New sz p = Inl BadAlloc"
proof -
  obtain r where r: "fx_remain p = of_nat r" "r \<le> 4096" "unat sz \<le> 8 \<longrightarrow> 8 dvd r"
      "r div fx_step sz = 0"
    and f: "fx_free_list p = nullptr"
    and m: "\<forall>b \<in> set (fx_mallocs p). 4096 div fx_step sz = 0"
    and sz: "0 < unat sz" "unat sz \<le> 4096"
    using assms by (auto simp: fx_rep_def fx_carve_def)
  have st: "0 < fx_step sz" "fx_step sz \<le> 4096"
    using sz by (simp_all add: fx_step_def)
  have "fx_mallocs p = []"
    using m st by (cases "fx_mallocs p") (auto simp: div_eq_0_iff)
  moreover have "r < unat sz"
    using r(3,4) st sz by (auto simp: div_eq_0_iff fx_step_def split: if_splits dest: dvd_imp_le)
  ultimately show ?thesis
    using f r by (simp add: fx_New_def fx_refill_def scast_of_nat_i32 word_less_nat_alt unat_of_nat_small)
qed

lemma fx_Delete_push:
  assumes "fx_rep sz p xs" "x \<noteq> nullptr" "x \<notin> set xs"
  shows "fx_rep sz (fx_Delete p x) (x # xs)"
proof -
  obtain fs ys where f: "chain (fx_link p) (fx_free_list p) fs" "fx_carve sz p ys" "xs = fs @ ys"
    using assms(1) by (auto simp: fx_rep_def)
  have "fx_carve sz (fx_Delete p x) ys"
    using f(2) by (simp add: fx_carve_def fx_Delete_def)
  moreover have "chain (fx_link (fx_Delete p x)) (fx_free_list (fx_Delete p x)) (x # fs)"
    using f(1,3) assms by (simp add: fx_Delete_def)
  ultimately show ?thesis
    using f(3) unfolding fx_rep_def by (metis append_Cons)
qed

interpretation fx: object_pool "fx_rep sz" "fx_New sz" fx_Delete for sz
  by unfold_locales (simp_all add: fx_New_pop fx_New_empty fx_Delete_push)

section \<open>Slots of separate blocks\<close>

text \<open>The allocator of the platform returns blocks that do not overlap. Then no two slots carved
  from them overlap either.\<close>

definition apart :: "nat \<Rightarrow> addr \<Rightarrow> addr \<Rightarrow> bool" where
  "apart n a b \<longleftrightarrow> unat a + n \<le> unat b \<or> unat b + n \<le> unat a"

lemma apart_sym: "apart n a b \<longleftrightarrow> apart n b a"
  by (auto simp: apart_def)

definition blocks_ok :: "nat \<Rightarrow> addr list \<Rightarrow> bool" where
  "blocks_ok n bs \<longleftrightarrow> sorted_wrt (apart n) bs \<and>
     (\<forall>b \<in> set bs. b \<noteq> nullptr \<and> unat b + n < 18446744073709551616)"

lemma unat_slot:
  fixes b step :: u64
  assumes "unat b + n * unat step < 18446744073709551616" "i < n"
  shows "unat (b + of_nat i * step) = unat b + i * unat step"
proof -
  have "Suc i * unat step \<le> n * unat step"
    using assms(2) by (intro mult_le_mono1) simp
  then have i: "i * unat step + unat step \<le> n * unat step"
    by simp
  show ?thesis
  proof (cases "unat step = 0")
    case True
    then show ?thesis by (simp add: unat_eq_0)
  next
    case False
    then have "i \<le> i * unat step"
      by (cases "unat step") simp_all
    then have u: "unat (of_nat i :: u64) = i"
      using i assms(1) by (intro unat_of_nat_small) linarith
    have "i * unat step < 18446744073709551616"
      using i assms(1) by linarith
    then have "unat (of_nat i * step) = i * unat step"
      using unat_mult_nowrap [of "of_nat i" step] by (simp only: u)
    then show ?thesis
      using i assms(1) unat_add_nowrap [of b "of_nat i * step"] by linarith
  qed
qed

lemma slots_in_block:
  assumes "unat b + n * unat step < 18446744073709551616" "x \<in> set (slots b step n)"
  shows "unat b \<le> unat x" "unat x + unat step \<le> unat b + n * unat step"
proof -
  obtain i where i: "i < n" "x = b + of_nat i * step"
    using assms(2) by (auto simp: in_set_conv_nth slots_nth)
  have "Suc i * unat step \<le> n * unat step"
    using i(1) by (intro mult_le_mono1) simp
  then show "unat b \<le> unat x" "unat x + unat step \<le> unat b + n * unat step"
    using unat_slot [OF assms(1) i(1)] i(2) by simp_all
qed

lemma distinct_slots:
  assumes "unat b + n * unat step < 18446744073709551616" "0 < unat step"
  shows "distinct (slots b step n)"
proof -
  have "slots b step n ! i \<noteq> slots b step n ! j" if ij: "i < n" "j < n" "i \<noteq> j" for i j
  proof
    assume "slots b step n ! i = slots b step n ! j"
    then have "unat (b + of_nat i * step) = unat (b + of_nat j * step)"
      using ij by (simp add: slots_nth)
    then show False
      using unat_slot [OF assms(1) ij(1)] unat_slot [OF assms(1) ij(2)] ij(3) assms(2) by simp
  qed
  then show ?thesis
    by (simp add: distinct_conv_nth)
qed

lemma distinct_block_slots:
  assumes "blocks_ok n bs" "k * unat step \<le> n" "0 < unat step"
  shows "distinct (concat (map (\<lambda>b. slots b step k) bs))" (is ?d)
    and "nullptr \<notin> set (concat (map (\<lambda>b. slots b step k) bs))" (is ?z)
proof -
  have "?d \<and> ?z"
    using assms(1)
  proof (induction bs)
    case (Cons b bs)
    have b: "unat b + k * unat step < 18446744073709551616" "b \<noteq> nullptr"
      and ap: "\<And>c. c \<in> set bs \<Longrightarrow> apart n b c"
      and c: "\<And>c. c \<in> set bs \<Longrightarrow> unat c + k * unat step < 18446744073709551616"
      using Cons.prems assms(2) by (auto simp: blocks_ok_def dest: bspec)
    have "blocks_ok n bs"
      using Cons.prems by (auto simp: blocks_ok_def)
    then have IH: "distinct (concat (map (\<lambda>b. slots b step k) bs))"
        "nullptr \<notin> set (concat (map (\<lambda>b. slots b step k) bs))"
      using Cons.IH by auto
    have "0 < unat b"
      using b(2) by (simp add: unat_gt_0)
    then have z: "nullptr \<notin> set (slots b step k)"
      using slots_in_block(1) [OF b(1)] by fastforce
    have "x \<notin> set (slots c step k)" if "x \<in> set (slots b step k)" "c \<in> set bs" for x c
      using slots_in_block [OF b(1) that(1)] slots_in_block [OF c [OF that(2)], of x] ap [OF that(2)]
        assms(2,3) by (auto simp: apart_def)
    then show ?case
      using IH z distinct_slots [OF b(1) assms(3)] by auto
  qed simp
  then show ?d ?z by simp_all
qed

definition op_new :: "addr list \<Rightarrow> objpool" where
  "op_new mallocs = \<lparr>op_memory = nullptr, op_free_list = nullptr, op_remain = 0,
     op_link = (\<lambda>_. nullptr), op_mallocs = mallocs\<rparr>"

lemma op_new_inv:
  assumes "blocks_ok (unat (block_size sz)) mallocs"
  shows "pool_inv (op_rep sz) (op_new mallocs) {}"
proof -
  let ?k = "unat (block_size sz) div unat (obj_size sz)"
  have le: "?k * unat (obj_size sz) \<le> unat (block_size sz)"
    by (rule div_times_less_eq_dividend)
  have "nullptr \<notin> set mallocs"
    using assms by (auto simp: blocks_ok_def)
  then have "op_rep sz (op_new mallocs) (concat (map (\<lambda>b. slots b (obj_size sz) ?k) mallocs))"
    by (simp add: op_rep_def op_new_def)
  then show ?thesis
    using distinct_block_slots [OF assms le] obj_size_pos [of sz] unfolding pool_inv_def by auto
qed

section \<open>Where the slots lie\<close>

text \<open>The slots of all blocks. Two of them never share a byte, and each lies inside its block.\<close>

definition op_grid :: "u64 \<Rightarrow> addr list \<Rightarrow> addr list" where
  "op_grid sz bs =
     concat (map (\<lambda>b. slots b (obj_size sz) (unat (block_size sz) div unat (obj_size sz))) bs)"

lemma op_grid_simps [simp]:
  "op_grid sz [] = []"
  "op_grid sz (b # bs) =
     slots b (obj_size sz) (unat (block_size sz) div unat (obj_size sz)) @ op_grid sz bs"
  "op_grid sz (bs @ cs) = op_grid sz bs @ op_grid sz cs"
  by (simp_all add: op_grid_def)

lemma slots_apart:
  assumes "unat b + n * unat step < 18446744073709551616"
    and "x \<in> set (slots b step n)" "y \<in> set (slots b step n)" "x \<noteq> y"
  shows "apart (unat step) x y"
proof -
  obtain i j where i: "i < n" "x = b + of_nat i * step" and j: "j < n" "y = b + of_nat j * step"
    using assms(2,3) by (auto simp: in_set_conv_nth slots_nth)
  have "Suc i * unat step \<le> j * unat step \<or> Suc j * unat step \<le> i * unat step"
    using i j assms(4) by (metis Suc_leI linorder_neqE_nat mult_le_mono1)
  then show ?thesis
    using unat_slot [OF assms(1) i(1)] unat_slot [OF assms(1) j(1)] i(2) j(2)
    by (auto simp: apart_def)
qed

lemma op_grid_in_block:
  assumes "blocks_ok (unat (block_size sz)) bs" "x \<in> set (op_grid sz bs)"
  shows "\<exists>b \<in> set bs. x \<in> set (slots b (obj_size sz) (unat (block_size sz) div unat (obj_size sz))) \<and>
    unat b \<le> unat x \<and> unat x + unat (obj_size sz) \<le> unat b + unat (block_size sz)"
proof -
  let ?k = "unat (block_size sz) div unat (obj_size sz)"
  obtain b where b: "b \<in> set bs" "x \<in> set (slots b (obj_size sz) ?k)"
    using assms(2) by (auto simp: op_grid_def)
  have le: "?k * unat (obj_size sz) \<le> unat (block_size sz)"
    by (rule div_times_less_eq_dividend)
  have "unat b + unat (block_size sz) < 18446744073709551616"
    using assms(1) b(1) by (auto simp: blocks_ok_def)
  then have "unat b + ?k * unat (obj_size sz) < 18446744073709551616"
    using le by linarith
  from slots_in_block [OF this b(2)]
  have "unat b \<le> unat x" "unat x + unat (obj_size sz) \<le> unat b + unat (block_size sz)"
    using le by linarith+
  then show ?thesis
    using b by blast
qed

lemma op_grid_apart:
  assumes ok: "blocks_ok (unat (block_size sz)) bs"
    and xy: "x \<in> set (op_grid sz bs)" "y \<in> set (op_grid sz bs)" "x \<noteq> y"
  shows "apart (unat (obj_size sz)) x y"
proof -
  let ?k = "unat (block_size sz) div unat (obj_size sz)"
  obtain b where b: "b \<in> set bs" "x \<in> set (slots b (obj_size sz) ?k)" "unat b \<le> unat x"
      "unat x + unat (obj_size sz) \<le> unat b + unat (block_size sz)"
    using op_grid_in_block [OF ok xy(1)] by blast
  obtain c where c: "c \<in> set bs" "y \<in> set (slots c (obj_size sz) ?k)" "unat c \<le> unat y"
      "unat y + unat (obj_size sz) \<le> unat c + unat (block_size sz)"
    using op_grid_in_block [OF ok xy(2)] by blast
  show ?thesis
  proof (cases "b = c")
    case True
    have "unat b + unat (block_size sz) < 18446744073709551616"
      using ok b(1) by (auto simp: blocks_ok_def)
    moreover have "?k * unat (obj_size sz) \<le> unat (block_size sz)"
      by (rule div_times_less_eq_dividend)
    ultimately have "unat b + ?k * unat (obj_size sz) < 18446744073709551616"
      by linarith
    then show ?thesis
      using slots_apart b(2) c(2) xy(3) True by blast
  next
    case False
    then have "apart (unat (block_size sz)) b c"
      using ok b(1) c(1) apart_sym by (auto simp: blocks_ok_def sorted_wrt_iff_nth_less in_set_conv_nth)
        (metis linorder_neqE_nat)
    then show ?thesis
      using b(3,4) c(3,4) by (auto simp: apart_def)
  qed
qed

text \<open>The pool that has used up the blocks \<open>taken\<close>: its slots, free, not yet carved or in use,
  are slots of these blocks, and all blocks of the run are apart.\<close>

definition op_inv :: "u64 \<Rightarrow> addr list \<Rightarrow> objpool \<Rightarrow> addr set \<Rightarrow> bool" where
  "op_inv sz taken p live \<longleftrightarrow> pool_inv (op_rep sz) p live \<and>
     blocks_ok (unat (block_size sz)) (taken @ op_mallocs p) \<and>
     (\<exists>fs. chain (op_link p) (op_free_list p) fs \<and>
        set fs \<union> set (slots (op_memory p) (obj_size sz) (unat (op_remain p) div unat (obj_size sz))) \<union> live
          \<subseteq> set (op_grid sz taken))"

lemma op_inv_new:
  assumes "blocks_ok (unat (block_size sz)) mallocs"
  shows "op_inv sz [] (op_new mallocs) {}"
  using op_new_inv [OF assms] assms by (auto simp: op_inv_def op_new_def)

lemma op_inv_Delete:
  assumes "op_inv sz taken p live" "x \<in> live"
  shows "op_inv sz taken (op_Delete p x) (live - {x})"
proof -
  obtain fs where f: "chain (op_link p) (op_free_list p) fs"
      "set fs \<union> set (slots (op_memory p) (obj_size sz) (unat (op_remain p) div unat (obj_size sz))) \<union> live
         \<subseteq> set (op_grid sz taken)"
    using assms(1) by (auto simp: op_inv_def)
  obtain xs where xs: "op_rep sz p xs" "set xs \<inter> live = {}" "nullptr \<notin> live"
    using assms(1) by (auto simp: op_inv_def pool_inv_def)
  then have "set fs \<subseteq> set xs"
    using f(1) chain_unique by (fastforce simp: op_rep_def)
  then have "x \<notin> set fs" "x \<noteq> nullptr"
    using xs assms(2) by auto
  then show ?thesis
    using assms f op.delete_live [of sz p live x] unfolding op_inv_def
    by (intro conjI exI [of _ "x # fs"]) (auto simp: op_Delete_def)
qed

lemma op_inv_New:
  assumes inv: "op_inv sz taken p live" and new: "op_New sz p = Inr (x, p')"
  shows "\<exists>taken'. taken' @ op_mallocs p' = taken @ op_mallocs p \<and> op_inv sz taken' p' (insert x live)"
proof -
  have P: "pool_inv (op_rep sz) p' (insert x live)"
    using op.new_fresh(3) new inv by (auto simp: op_inv_def)
  obtain fs where f: "chain (op_link p) (op_free_list p) fs"
      "set fs \<union> set (slots (op_memory p) (obj_size sz) (unat (op_remain p) div unat (obj_size sz))) \<union> live
         \<subseteq> set (op_grid sz taken)"
    and ok: "blocks_ok (unat (block_size sz)) (taken @ op_mallocs p)"
    using inv by (auto simp: op_inv_def)
  show ?thesis
  proof (cases "op_free_list p = nullptr")
    case False
    with f(1) obtain gs where g: "fs = op_free_list p # gs" "chain (op_link p) (op_link p (op_free_list p)) gs"
      by (auto simp: chain_Cons)
    have p': "x = op_free_list p" "p' = p\<lparr>op_free_list := op_link p (op_free_list p)\<rparr>"
      using new False by (auto simp: op_New_def)
    show ?thesis
      using P f(2) g ok p' unfolding op_inv_def
      by (intro exI [of _ taken] conjI exI [of _ gs]) auto
  next
    case True
    with f(1) have fs: "fs = []" by simp
    obtain q where q: "op_refill sz p = Inr q" "x = op_memory q"
        "p' = q\<lparr>op_memory := op_memory q + obj_size sz, op_remain := op_remain q - obj_size sz\<rparr>"
      using new True by (auto simp: op_New_def rbind_def split: sum.splits)
    have q': "\<exists>taken'. taken' @ op_mallocs q = taken @ op_mallocs p \<and> unat (obj_size sz) \<le> unat (op_remain q) \<and>
        op_free_list q = nullptr \<and>
        set (slots (op_memory q) (obj_size sz) (unat (op_remain q) div unat (obj_size sz))) \<union> live
          \<subseteq> set (op_grid sz taken')"
    proof (cases "op_remain p < obj_size sz")
      case True
      then obtain b bs where b: "op_mallocs p = b # bs"
          "q = p\<lparr>op_memory := b, op_remain := block_size sz, op_mallocs := bs\<rparr>"
        using q(1) by (auto simp: op_refill_def split: list.splits if_splits)
      then show ?thesis
        using f(2) \<open>op_free_list p = nullptr\<close> block_size_ge [of sz]
        by (intro exI [of _ "taken @ [b]"]) auto
    next
      case False
      then show ?thesis
        using q(1) f(2) \<open>op_free_list p = nullptr\<close>
        by (intro exI [of _ taken]) (auto simp: op_refill_def word_less_nat_alt)
    qed
    then obtain taken' where t: "taken' @ op_mallocs q = taken @ op_mallocs p"
        "unat (obj_size sz) \<le> unat (op_remain q)" "op_free_list q = nullptr"
        "set (slots (op_memory q) (obj_size sz) (unat (op_remain q) div unat (obj_size sz))) \<union> live
          \<subseteq> set (op_grid sz taken')"
      by blast
    have "slots (op_memory q) (obj_size sz) (unat (op_remain q) div unat (obj_size sz)) =
      op_memory q # slots (op_memory q + obj_size sz) (obj_size sz)
        (unat (op_remain q - obj_size sz) div unat (obj_size sz))"
      using t(2) obj_size_pos [of sz] by (intro slots_step) auto
    then show ?thesis
      using P t q(2,3) ok unfolding op_inv_def
      by (intro exI [of _ taken'] conjI exI [of _ "[]"]) auto
  qed
qed

section \<open>Properties\<close>

text \<open>C6: the object pool gives every object memory of its own. Along any sequence of \<open>New\<close> and
  \<open>Delete\<close>, the object \<open>New\<close> returns is not null and not in use, its bytes (the size of the type, at
  least the eight of the link) lie inside a block that \<open>malloc\<close> returned and overlap no object in use,
  and an object given back is the next one handed out. The blocks of \<open>malloc\<close> do not overlap
  (\<open>blocks_ok\<close>).\<close>

theorem op_New_fresh_reuse:
  assumes "op_inv sz taken p live" "op_New sz p = Inr (x, p')"
  shows "x \<noteq> nullptr \<and> x \<notin> live \<and> (\<forall>y \<in> live. apart (max 8 (unat sz)) x y) \<and>
    (\<exists>taken'. taken' @ op_mallocs p' = taken @ op_mallocs p \<and> op_inv sz taken' p' (insert x live) \<and>
       (\<exists>b \<in> set taken'. unat b \<le> unat x \<and> unat x + max 8 (unat sz) \<le> unat b + unat (block_size sz)) \<and>
       (\<forall>y \<in> insert x live. op_inv sz taken' (op_Delete p' y) (insert x live - {y}) \<and>
          (\<exists>p2. op_New sz (op_Delete p' y) = Inr (y, p2))))"
proof -
  have P: "pool_inv (op_rep sz) p live"
    using assms(1) by (simp add: op_inv_def)
  obtain taken' where t: "taken' @ op_mallocs p' = taken @ op_mallocs p" "op_inv sz taken' p' (insert x live)"
    using op_inv_New [OF assms] by blast
  have g: "blocks_ok (unat (block_size sz)) taken'" "insert x live \<subseteq> set (op_grid sz taken')"
    using t(2) by (auto simp: op_inv_def blocks_ok_def sorted_wrt_append)
  have m: "max 8 (unat sz) = unat (obj_size sz)"
    by (auto simp: obj_size_def max_def word_less_nat_alt)
  have fresh: "x \<noteq> nullptr" "x \<notin> live"
    using op.new_fresh [OF P assms(2)] by auto
  then have ap: "\<forall>y \<in> live. apart (unat (obj_size sz)) x y"
    using op_grid_apart [OF g(1), of x] g(2) by auto
  obtain b where b: "b \<in> set taken'" "unat b \<le> unat x"
      "unat x + unat (obj_size sz) \<le> unat b + unat (block_size sz)"
    using op_grid_in_block [OF g(1), of x] g(2) by auto
  have "\<exists>p2. op_New sz (op_Delete p' y) = Inr (y, p2)" if "y \<in> insert x live" for y
    using op.new_delete [of sz p' "insert x live" y] t(2) that by (auto simp: op_inv_def)
  then show ?thesis
    unfolding m using fresh ap t b op_inv_Delete [OF t(2)] by blast
qed

lemma op_New_fresh_reuse_witness:
  "\<exists>p2. op_New 16 (op_new [65536]) = Inr (65536, snd (projr (op_New 16 (op_new [65536])))) \<and>
     op_New 16 (snd (projr (op_New 16 (op_new [65536])))) = Inr (65552, p2) \<and>
     apart 16 65552 65536"
proof -
  let ?p = "snd (projr (op_New 16 (op_new [65536])))"
  have b: "blocks_ok (unat (block_size 16)) [65536 :: addr]"
    by (simp add: blocks_ok_def block_size_def obj_size_def)
  have e: "op_New 16 (op_new [65536]) = Inr (65536, ?p)"
    by (simp add: op_New_def op_new_def op_refill_def block_size_def obj_size_def)
  obtain taken' where i: "op_inv 16 taken' ?p {65536}"
    using op_New_fresh_reuse [OF op_inv_new [OF b] e] by blast
  have "op_New 16 ?p = Inr (65552, snd (projr (op_New 16 ?p)))"
    by (simp add: op_New_def op_new_def op_refill_def block_size_def obj_size_def)
  from op_New_fresh_reuse [OF i this] e this show ?thesis
    by auto
qed

text \<open>The fixed-size pool of \<open>FixedSizePool.h\<close> keeps the same contract while the object fits the
  4096 bytes the refill asks for.\<close>

theorem fx_New_fresh_reuse:
  assumes "pool_inv (fx_rep sz) p live" "fx_New sz p = Inr (x, p')"
  shows "x \<noteq> nullptr \<and> x \<notin> live \<and> pool_inv (fx_rep sz) p' (insert x live) \<and>
    (\<exists>p2. fx_New sz (fx_Delete p' x) = Inr (x, p2) \<and> pool_inv (fx_rep sz) p2 (insert x live))"
  using fx.new_fresh [OF assms] fx.new_delete [OF fx.new_fresh(3) [OF assms], of x] by auto

definition fx_new :: "addr list \<Rightarrow> fixpool" where
  "fx_new mallocs = \<lparr>fx_memory = nullptr, fx_free_list = nullptr, fx_remain = 0,
     fx_link = (\<lambda>_. nullptr), fx_mallocs = mallocs\<rparr>"

lemma fx_New_fresh_reuse_witness:
  "fx_New 16 (fx_new [65536]) = Inr (65536, snd (projr (fx_New 16 (fx_new [65536])))) \<and>
   pool_inv (fx_rep 16) (snd (projr (fx_New 16 (fx_new [65536])))) {65536}"
proof -
  have b: "blocks_ok 4096 [65536 :: addr]"
    by (simp add: blocks_ok_def)
  have e: "fx_New 16 (fx_new [65536]) = Inr (65536, snd (projr (fx_New 16 (fx_new [65536]))))"
    by (simp add: fx_New_def fx_new_def fx_refill_def fx_obj_size_def)
  have "fx_carve 16 (fx_new [65536]) (slots 65536 16 256)"
    unfolding fx_carve_def by (intro conjI exI [of _ 0]) (simp_all add: fx_new_def fx_step_def)
  then have "fx_rep 16 (fx_new [65536]) (slots 65536 16 256)"
    by (simp add: fx_rep_def fx_new_def)
  moreover have "distinct (slots 65536 16 256) \<and> nullptr \<notin> set (slots 65536 16 256)"
    using distinct_block_slots [OF b, where k = 256 and step = 16] by simp
  ultimately have "pool_inv (fx_rep 16) (fx_new [65536]) {}"
    unfolding pool_inv_def by blast
  from fx_New_fresh_reuse [OF this e] e
  show ?thesis by blast
qed

end
