(* ===== verification/Span_List.thy ===== *)
theory Span_List
  imports Prelude
begin

text \<open>
  \<open>struct Span\<close> and the circular doubly linked list \<open>SpanList\<close> of
  \<open>ConcurrentMemoryPool/Common.h\<close>. The spans live on a heap with one function per field from
  the address of the span to the field's value; a list is the address of its sentinel.
  A write through a null pointer is the fault \<open>NullDeref\<close>.
  The locale \<open>intrusive_list\<close> is the contract: the operations act on the sequence of spans
  that the links spell out, and leave every other list alone.
\<close>

section \<open>The code\<close>

record span_heap =
  s_page_id :: "addr \<Rightarrow> u64"
  s_npage :: "addr \<Rightarrow> u64"
  s_free_lists :: "addr \<Rightarrow> addr"
  s_prev :: "addr \<Rightarrow> addr"
  s_next :: "addr \<Rightarrow> addr"
  s_use_count :: "addr \<Rightarrow> i32"
  s_obj_size :: "addr \<Rightarrow> u64"
  s_is_used :: "addr \<Rightarrow> bool"

definition sl_init :: "span_heap \<Rightarrow> addr \<Rightarrow> span_heap" where
  "sl_init h head = h\<lparr>s_prev := (s_prev h)(head := head), s_next := (s_next h)(head := head)\<rparr>"

definition sl_Begin :: "span_heap \<Rightarrow> addr \<Rightarrow> addr" where
  "sl_Begin h head = s_next h head"

definition sl_End :: "addr \<Rightarrow> addr" where
  "sl_End head = head"

definition sl_Empty :: "span_heap \<Rightarrow> addr \<Rightarrow> bool" where
  "sl_Empty h head \<longleftrightarrow> s_next h head = head"

definition sl_Insert :: "span_heap \<Rightarrow> addr \<Rightarrow> addr \<Rightarrow> span_heap res" where
  "sl_Insert h pos new_span =
     (if new_span = nullptr then Inl AssertFailed
      else if pos = nullptr then Inl NullDeref
      else
        let prev = s_prev h pos in
        if prev = nullptr then Inl NullDeref
        else
          let h1 = h\<lparr>s_next := (s_next h)(prev := new_span)\<rparr>;
              h2 = h1\<lparr>s_prev := (s_prev h1)(new_span := prev)\<rparr>;
              h3 = h2\<lparr>s_prev := (s_prev h2)(pos := new_span)\<rparr>
          in Inr (h3\<lparr>s_next := (s_next h3)(new_span := pos)\<rparr>))"

definition sl_Erase :: "span_heap \<Rightarrow> addr \<Rightarrow> addr \<Rightarrow> span_heap res" where
  "sl_Erase h head pos =
     (if pos = nullptr then Inl AssertFailed
      else if head = pos then Inl AssertFailed
      else
        let prev = s_prev h pos; next' = s_next h pos in
        if prev = nullptr \<or> next' = nullptr then Inl NullDeref
        else
          let h1 = h\<lparr>s_next := (s_next h)(prev := next')\<rparr>
          in Inr (h1\<lparr>s_prev := (s_prev h1)(next' := prev)\<rparr>))"

definition sl_Push_Front :: "span_heap \<Rightarrow> addr \<Rightarrow> addr \<Rightarrow> span_heap res" where
  "sl_Push_Front h head new_span = sl_Insert h (sl_Begin h head) new_span"

definition sl_Pop_Front :: "span_heap \<Rightarrow> addr \<Rightarrow> (addr \<times> span_heap) res" where
  "sl_Pop_Front h head =
     rbind (sl_Erase h head (sl_Begin h head)) (\<lambda>h'. Inr (sl_Begin h head, h'))"

definition sl_Push_Back :: "span_heap \<Rightarrow> addr \<Rightarrow> addr \<Rightarrow> span_heap res" where
  "sl_Push_Back h head new_span = sl_Insert h (sl_End head) new_span"

section \<open>The sequence a ring of links spells out\<close>

primrec dseg :: "(addr \<Rightarrow> addr) \<Rightarrow> (addr \<Rightarrow> addr) \<Rightarrow> addr \<Rightarrow> addr list \<Rightarrow> addr \<Rightarrow> bool" where
  "dseg nx pv a [] b \<longleftrightarrow> nx a = b \<and> pv b = a"
| "dseg nx pv a (x # xs) b \<longleftrightarrow> nx a = x \<and> pv x = a \<and> dseg nx pv x xs b"

definition ring :: "(addr \<Rightarrow> addr) \<Rightarrow> (addr \<Rightarrow> addr) \<Rightarrow> addr \<Rightarrow> addr list \<Rightarrow> bool" where
  "ring nx pv head xs \<longleftrightarrow> distinct (head # xs) \<and> nullptr \<notin> set (head # xs) \<and> dseg nx pv head xs head"

lemma dseg_append:
  "dseg nx pv a (xs @ y # ys) b \<longleftrightarrow> dseg nx pv a xs y \<and> dseg nx pv y ys b"
  by (induction xs arbitrary: a) auto

lemma dseg_next_frame [simp]:
  "c \<notin> insert a (set xs) \<Longrightarrow> dseg (nx(c := v)) pv a xs b = dseg nx pv a xs b"
  by (induction xs arbitrary: a) auto

lemma dseg_prev_frame [simp]:
  "c \<notin> insert b (set xs) \<Longrightarrow> dseg nx (pv(c := v)) a xs b = dseg nx pv a xs b"
  by (induction xs arbitrary: a) auto

lemma dseg_start_eq: "dseg nx pv a xs b \<Longrightarrow> nx a = (if xs = [] then b else hd xs)"
  by (cases xs) auto

lemma dseg_end_eq: "dseg nx pv a xs b \<Longrightarrow> pv b = (if xs = [] then a else last xs)"
  by (induction xs arbitrary: a) auto

lemma ring_next_frame [simp]:
  "c \<notin> insert h (set xs) \<Longrightarrow> ring (nx(c := v)) pv h xs = ring nx pv h xs"
  by (auto simp: ring_def)

lemma ring_prev_frame [simp]:
  "c \<notin> insert h (set xs) \<Longrightarrow> ring nx (pv(c := v)) h xs = ring nx pv h xs"
  by (auto simp: ring_def)

lemma ring_unique: "ring nx pv h xs \<Longrightarrow> ring nx pv h ys \<Longrightarrow> xs = ys"
proof -
  have "dseg nx pv a xs h \<Longrightarrow> dseg nx pv a ys h \<Longrightarrow> h \<notin> set xs \<Longrightarrow> h \<notin> set ys \<Longrightarrow> xs = ys" for a
  proof (induction xs arbitrary: a ys)
    case Nil
    then show ?case by (cases ys) auto
  next
    case (Cons x xs)
    then show ?case by (cases ys) auto
  qed
  then show "ring nx pv h xs \<Longrightarrow> ring nx pv h ys \<Longrightarrow> xs = ys"
    by (auto simp: ring_def)
qed

lemma dseg_cong:
  "(\<And>z. z \<in> insert a (set xs) \<Longrightarrow> nx' z = nx z) \<Longrightarrow> (\<And>z. z \<in> insert b (set xs) \<Longrightarrow> pv' z = pv z) \<Longrightarrow>
    dseg nx' pv' a xs b = dseg nx pv a xs b"
  by (induction xs arbitrary: a) auto

section \<open>The operations act on the sequence\<close>

text \<open>\<open>same_data A h h'\<close>: only links changed, and only links of the nodes in \<open>A\<close>.\<close>

definition same_data :: "addr set \<Rightarrow> span_heap \<Rightarrow> span_heap \<Rightarrow> bool" where
  "same_data A h h' \<longleftrightarrow> (\<exists>nx pv. h' = h\<lparr>s_next := nx, s_prev := pv\<rparr> \<and>
     (\<forall>z. z \<notin> A \<longrightarrow> nx z = s_next h z \<and> pv z = s_prev h z))"

definition sl_rep :: "span_heap \<Rightarrow> addr \<Rightarrow> addr list \<Rightarrow> bool" where
  "sl_rep h head xs \<longleftrightarrow> ring (s_next h) (s_prev h) head xs"

lemma same_dataI:
  assumes "\<And>z. z \<notin> A \<Longrightarrow> nx z = s_next h z \<and> pv z = s_prev h z"
  shows "same_data A h (h\<lparr>s_next := nx, s_prev := pv\<rparr>)"
  using assms unfolding same_data_def by blast

lemma same_data_mono: "same_data A h h' \<Longrightarrow> A \<subseteq> B \<Longrightarrow> same_data B h h'"
  unfolding same_data_def by blast

lemma sl_rep_cong:
  assumes "\<And>z. z \<in> insert g (set ys) \<Longrightarrow> s_next h' z = s_next h z \<and> s_prev h' z = s_prev h z"
  shows "sl_rep h' g ys = sl_rep h g ys"
  using dseg_cong [of g ys "s_next h'" "s_next h" g "s_prev h'" "s_prev h"] assms
  by (simp add: sl_rep_def ring_def)

lemma same_data_frame:
  assumes "same_data A h h'" "sl_rep h g ys" "insert g (set ys) \<inter> A = {}"
  shows "sl_rep h' g ys"
proof -
  have "s_next h' z = s_next h z \<and> s_prev h' z = s_prev h z" if "z \<in> insert g (set ys)" for z
    using assms(1,3) that by (auto simp: same_data_def)
  then show ?thesis
    using assms(2) sl_rep_cong by blast
qed

text \<open>Insertion before \<open>q\<close>, the first node after \<open>as\<close>, and erasure of \<open>x\<close>.\<close>

lemma dseg_insert:
  assumes "dseg nx pv a (as @ bs) b" "new \<notin> set (as @ bs)" "new \<noteq> a" "new \<noteq> b"
    "a \<notin> set (as @ bs)" "b \<notin> set (as @ bs)" "distinct (as @ bs)"
    "p = (if as = [] then a else last as)" "q = (if bs = [] then b else hd bs)"
  shows "dseg (nx(p := new, new := q)) (pv(new := p, q := new)) a (as @ new # bs) b"
  using assms
proof (induction as arbitrary: a)
  case Nil
  then have pa: "p = a" by simp
  show ?case
  proof (cases bs)
    case (Cons c cs)
    with Nil have "dseg nx pv c cs b" "c \<noteq> a" "c \<noteq> new" "c \<noteq> b"
        "a \<notin> set cs" "new \<notin> set cs" "b \<notin> set cs" "c \<notin> set cs" "new \<noteq> a" "new \<noteq> b" "q = c"
      by auto
    then have "dseg (nx(a := new, new := c)) (pv(new := a, c := new)) a (new # c # cs) b"
      by simp
    then show ?thesis
      by (simp only: Cons \<open>q = c\<close> pa append_Nil)
  qed (use Nil in auto)
next
  case (Cons x as)
  have p: "p = (if as = [] then x else last as)"
    using Cons.prems(8) by simp
  have IH: "dseg (nx(p := new, new := q)) (pv(new := p, q := new)) x (as @ new # bs) b"
    using Cons.prems p by (intro Cons.IH) auto
  have "p \<in> set (x # as)" "q \<in> insert b (set bs)"
    using p Cons.prems(9) by auto
  then have "a \<noteq> p" "a \<noteq> new" "x \<noteq> new" "x \<noteq> q"
    using Cons.prems by auto
  moreover have "nx a = x" "pv x = a"
    using Cons.prems(1) by auto
  ultimately have "(nx(p := new, new := q)) a = x" "(pv(new := p, q := new)) x = a"
    by auto
  then show ?case
    using IH by (simp only: append_Cons dseg.simps)
qed

lemma dseg_erase:
  assumes "dseg nx pv a (as @ x # bs) b"
    "a \<notin> set (as @ x # bs)" "b \<notin> set (as @ x # bs)" "distinct (as @ x # bs)"
    "p = pv x" "q = nx x"
  shows "dseg (nx(p := q)) (pv(q := p)) a (as @ bs) b"
  using assms
proof (induction as arbitrary: a)
  case Nil
  then have pa: "p = a" by simp
  show ?case
  proof (cases bs)
    case (Cons c cs)
    with Nil have "dseg nx pv c cs b" "q = c" "c \<noteq> a" "c \<noteq> x" "c \<noteq> b" "x \<noteq> a"
        "a \<notin> set cs" "x \<notin> set cs" "b \<notin> set cs" "c \<notin> set cs"
      by auto
    then have "dseg (nx(a := c)) (pv(c := a)) a (c # cs) b"
      by simp
    then show ?thesis
      by (simp only: Cons \<open>q = c\<close> pa append_Nil)
  qed (use Nil in auto)
next
  case (Cons y as)
  have IH: "dseg (nx(p := q)) (pv(q := p)) y (as @ bs) b"
    using Cons.prems by (intro Cons.IH) auto
  have d: "dseg nx pv y as x" "dseg nx pv x bs b"
    using Cons.prems(1) by (simp_all add: dseg_append)
  have "p = (if as = [] then y else last as)" "q = (if bs = [] then b else hd bs)"
    using dseg_end_eq [OF d(1)] dseg_start_eq [OF d(2)] Cons.prems(5,6) by simp_all
  then have "p \<in> set (y # as)" "q \<in> insert b (set bs)"
    by auto
  then have "a \<noteq> p" "y \<noteq> q"
    using Cons.prems by auto
  moreover have "nx a = y" "pv y = a"
    using Cons.prems(1) by auto
  ultimately have "(nx(p := q)) a = y" "(pv(q := p)) y = a"
    by auto
  then show ?case
    using IH by (simp only: append_Cons dseg.simps)
qed

lemma ring_ends:
  assumes "ring nx pv h (as @ bs)"
  shows "bs \<noteq> [] \<Longrightarrow> pv (hd bs) = (if as = [] then h else last as)"
    and "bs = [] \<Longrightarrow> pv h = (if as = [] then h else last as)"
  using assms dseg_end_eq [of nx pv h as "hd bs"] dseg_end_eq [of nx pv h as h]
  by (cases bs; auto simp: ring_def dseg_append)+

lemma ring_insert:
  assumes "ring nx pv h (as @ bs)" "new \<notin> insert h (set (as @ bs))" "new \<noteq> nullptr"
    and "pos = (if bs = [] then h else hd bs)"
  shows "ring (nx(pv pos := new, new := pos)) (pv(new := pv pos, pos := new)) h (as @ new # bs)"
proof -
  have "pv pos = (if as = [] then h else last as)"
    using ring_ends [OF assms(1)] assms(4) by auto
  then have "dseg (nx(pv pos := new, new := pos)) (pv(new := pv pos, pos := new)) h (as @ new # bs) h"
    using assms by (intro dseg_insert) (auto simp: ring_def)
  then show ?thesis
    using assms(1-3) by (auto simp add: ring_def)
qed

lemma ring_erase:
  assumes "ring nx pv h (as @ x # bs)"
  shows "ring (nx(pv x := nx x)) (pv(nx x := pv x)) h (as @ bs)"
proof -
  have "dseg (nx(pv x := nx x)) (pv(nx x := pv x)) h (as @ bs) h"
    using assms by (intro dseg_erase [of _ _ _ _ x]) (auto simp: ring_def)
  then show ?thesis
    using assms by (simp add: ring_def)
qed

lemma ring_neighbours:
  assumes "ring nx pv h (as @ x # bs)"
  shows "pv x \<in> insert h (set as)" "nx x \<in> insert h (set bs)"
  using assms dseg_end_eq [of nx pv h as x] dseg_start_eq [of nx pv x bs h]
  by (auto simp: ring_def dseg_append)

lemma ring_head_neighbours:
  assumes "ring nx pv h xs"
  shows "pv h \<in> insert h (set xs)" "nx h \<in> insert h (set xs)"
  using assms dseg_end_eq [of nx pv h xs h] dseg_start_eq [of nx pv h xs h]
  by (auto simp: ring_def)

lemma sl_Insert_ring:
  assumes "sl_rep h head (as @ bs)" "new \<notin> insert head (set (as @ bs))" "new \<noteq> nullptr"
    and "pos = (if bs = [] then head else hd bs)"
  shows "\<exists>h'. sl_Insert h pos new = Inr h' \<and> same_data (insert new (insert head (set (as @ bs)))) h h' \<and>
    sl_rep h' head (as @ new # bs)"
proof -
  have pos: "pos \<in> insert head (set bs)"
    using assms(4) by auto
  have nz: "nullptr \<notin> insert head (set (as @ bs))"
    using assms(1) by (simp add: sl_rep_def ring_def)
  then have pos0: "pos \<noteq> nullptr"
    using pos by auto
  have "s_prev h pos = (if as = [] then head else last as)"
    using ring_ends [of "s_next h" "s_prev h" head as bs] assms by (auto simp: sl_rep_def)
  then have prev: "s_prev h pos \<in> insert head (set (as @ bs))"
    by simp
  then have prev0: "s_prev h pos \<noteq> nullptr"
    using nz by auto
  have nw: "new \<noteq> s_prev h pos" "new \<noteq> pos"
    using assms(2) pos prev by auto
  let ?h' = "h\<lparr>s_next := (s_next h)(s_prev h pos := new, new := pos),
               s_prev := (s_prev h)(new := s_prev h pos, pos := new)\<rparr>"
  have "sl_Insert h pos new = Inr ?h'"
    using assms(3) pos0 prev0 by (simp add: sl_Insert_def Let_def)
  moreover have "same_data (insert new (insert head (set (as @ bs)))) h ?h'"
    using pos prev by (intro same_dataI) auto
  moreover have "sl_rep ?h' head (as @ new # bs)"
    using ring_insert [OF _ assms(2,3,4)] assms(1) by (simp add: sl_rep_def)
  ultimately show ?thesis by blast
qed

lemma sl_Erase_ring:
  assumes "sl_rep h head (as @ x # bs)"
  shows "\<exists>h'. sl_Erase h head x = Inr h' \<and> same_data (insert head (set (as @ x # bs))) h h' \<and>
    sl_rep h' head (as @ bs)"
proof -
  have nb: "s_prev h x \<in> insert head (set as)" "s_next h x \<in> insert head (set bs)"
    using ring_neighbours assms by (auto simp: sl_rep_def)
  have nz: "x \<noteq> nullptr" "head \<noteq> x" "s_prev h x \<noteq> nullptr" "s_next h x \<noteq> nullptr"
    using assms nb by (auto simp: sl_rep_def ring_def)
  let ?h' = "h\<lparr>s_next := (s_next h)(s_prev h x := s_next h x),
               s_prev := (s_prev h)(s_next h x := s_prev h x)\<rparr>"
  have "sl_Erase h head x = Inr ?h'"
    using nz by (simp add: sl_Erase_def Let_def)
  moreover have "same_data (insert head (set (as @ x # bs))) h ?h'"
    using nb by (intro same_dataI) auto
  moreover have "sl_rep ?h' head (as @ bs)"
    using ring_erase assms by (simp add: sl_rep_def)
  ultimately show ?thesis by blast
qed

lemma sl_Begin_rep: "sl_rep h head xs \<Longrightarrow> sl_Begin h head = (if xs = [] then head else hd xs)"
  using dseg_start_eq [of "s_next h" "s_prev h" head xs head]
  by (simp add: sl_Begin_def sl_rep_def ring_def)

lemma sl_Empty_rep: "sl_rep h head xs \<Longrightarrow> sl_Empty h head \<longleftrightarrow> xs = []"
  using dseg_start_eq [of "s_next h" "s_prev h" head xs head]
  by (cases xs) (auto simp: sl_Empty_def sl_rep_def ring_def)

lemma sl_Push_Front_ring:
  assumes "sl_rep h head xs" "new \<notin> insert head (set xs)" "new \<noteq> nullptr"
  shows "\<exists>h'. sl_Push_Front h head new = Inr h' \<and> same_data (insert new (insert head (set xs))) h h' \<and>
    sl_rep h' head (new # xs)"
  using sl_Insert_ring [of h head "[]" xs new "sl_Begin h head"] assms sl_Begin_rep [OF assms(1)]
  by (simp add: sl_Push_Front_def)

lemma sl_Push_Back_ring:
  assumes "sl_rep h head xs" "new \<notin> insert head (set xs)" "new \<noteq> nullptr"
  shows "\<exists>h'. sl_Push_Back h head new = Inr h' \<and> same_data (insert new (insert head (set xs))) h h' \<and>
    sl_rep h' head (xs @ [new])"
  using sl_Insert_ring [of h head xs "[]" new head] assms
  by (simp add: sl_Push_Back_def sl_End_def)

section \<open>The contract of intrusive lists\<close>

text \<open>An array of lists: bucket \<open>i\<close> holds the sequence \<open>L i\<close>, and no node is in two of them.\<close>

definition buckets_ok :: "('h \<Rightarrow> addr \<Rightarrow> addr list \<Rightarrow> bool) \<Rightarrow> 'h \<Rightarrow> (nat \<Rightarrow> addr) \<Rightarrow>
    (nat \<Rightarrow> addr list) \<Rightarrow> nat \<Rightarrow> bool" where
  "buckets_ok rep h heads L n \<longleftrightarrow> (\<forall>i < n. rep h (heads i) (L i)) \<and>
     (\<forall>i < n. \<forall>j < n. i \<noteq> j \<longrightarrow>
        insert (heads i) (set (L i)) \<inter> insert (heads j) (set (L j)) = {})"

locale intrusive_list =
  fixes rep :: "'h \<Rightarrow> addr \<Rightarrow> addr list \<Rightarrow> bool"
    and begin' :: "'h \<Rightarrow> addr \<Rightarrow> addr"
    and push_front :: "'h \<Rightarrow> addr \<Rightarrow> addr \<Rightarrow> 'h res"
    and erase :: "'h \<Rightarrow> addr \<Rightarrow> addr \<Rightarrow> 'h res"
    and same :: "addr set \<Rightarrow> 'h \<Rightarrow> 'h \<Rightarrow> bool"
  assumes rep_distinct: "rep h g xs \<Longrightarrow> distinct xs \<and> g \<notin> set xs \<and> nullptr \<notin> set (g # xs)"
    and begin_rep: "rep h g xs \<Longrightarrow> begin' h g = (if xs = [] then g else hd xs)"
    and push_front_rep: "rep h g xs \<Longrightarrow> new \<notin> insert g (set xs) \<Longrightarrow> new \<noteq> nullptr \<Longrightarrow>
      \<exists>h'. push_front h g new = Inr h' \<and> same (insert new (insert g (set xs))) h h' \<and> rep h' g (new # xs)"
    and erase_rep: "rep h g (as @ x # bs) \<Longrightarrow>
      \<exists>h'. erase h g x = Inr h' \<and> same (insert g (set (as @ x # bs))) h h' \<and> rep h' g (as @ bs)"
    and same_frame: "same A h h' \<Longrightarrow> rep h k ys \<Longrightarrow> insert k (set ys) \<inter> A = {} \<Longrightarrow> rep h' k ys"
begin

lemma push_front_buckets:
  assumes "buckets_ok rep h heads L n" "i < n" "new \<noteq> nullptr"
    "\<And>j. j < n \<Longrightarrow> new \<notin> insert (heads j) (set (L j))"
  obtains h' where "push_front h (heads i) new = Inr h'" "same (insert new (insert (heads i) (set (L i)))) h h'"
    "buckets_ok rep h' heads (L(i := new # L i)) n"
proof -
  have r: "rep h (heads i) (L i)"
    using assms(1,2) by (simp add: buckets_ok_def)
  obtain h' where h': "push_front h (heads i) new = Inr h'"
      "same (insert new (insert (heads i) (set (L i)))) h h'" "rep h' (heads i) (new # L i)"
    using push_front_rep [OF r assms(4) [OF assms(2)] assms(3)] by blast
  have o: "rep h' (heads j) (L j)" if "j < n" "j \<noteq> i" for j
  proof (rule same_frame [OF h'(2)])
    show "rep h (heads j) (L j)"
      using assms(1) that by (simp add: buckets_ok_def)
    have "insert (heads j) (set (L j)) \<inter> insert (heads i) (set (L i)) = {}"
      using assms(1,2) that unfolding buckets_ok_def by blast
    then show "insert (heads j) (set (L j)) \<inter> insert new (insert (heads i) (set (L i))) = {}"
      using assms(4) [OF that(1)] by auto
  qed
  have "insert (heads j) (set ((L(i := new # L i)) j)) \<inter> insert (heads k) (set ((L(i := new # L i)) k)) = {}"
    if jk: "j < n" "k < n" "j \<noteq> k" for j k
  proof -
    have "insert (heads j) (set (L j)) \<inter> insert (heads k) (set (L k)) = {}"
      using assms(1) jk unfolding buckets_ok_def by blast
    then show ?thesis
      using assms(4) [OF jk(1)] assms(4) [OF jk(2)] jk(3) by auto
  qed
  then have "buckets_ok rep h' heads (L(i := new # L i)) n"
    using h'(3) o by (simp add: buckets_ok_def)
  then show thesis
    using that h' by blast
qed

lemma erase_buckets:
  assumes "buckets_ok rep h heads L n" "i < n" "x \<in> set (L i)"
  obtains h' where "erase h (heads i) x = Inr h'" "same (insert (heads i) (set (L i))) h h'"
    "buckets_ok rep h' heads (L(i := remove1 x (L i))) n"
proof -
  have r: "rep h (heads i) (L i)"
    using assms(1,2) by (simp add: buckets_ok_def)
  obtain as bs where ab: "L i = as @ x # bs"
    using assms(3) by (meson split_list)
  then have rm: "remove1 x (L i) = as @ bs"
    using rep_distinct [OF r] by (simp add: remove1_append)
  obtain h' where h': "erase h (heads i) x = Inr h'" "same (insert (heads i) (set (L i))) h h'"
      "rep h' (heads i) (as @ bs)"
    using erase_rep r unfolding ab by blast
  have o: "rep h' (heads j) (L j)" if "j < n" "j \<noteq> i" for j
  proof (rule same_frame [OF h'(2)])
    show "rep h (heads j) (L j)"
      using assms(1) that by (simp add: buckets_ok_def)
    show "insert (heads j) (set (L j)) \<inter> insert (heads i) (set (L i)) = {}"
      using assms(1,2) that unfolding buckets_ok_def by blast
  qed
  have "insert (heads j) (set ((L(i := as @ bs)) j)) \<inter> insert (heads k) (set ((L(i := as @ bs)) k)) = {}"
    if jk: "j < n" "k < n" "j \<noteq> k" for j k
  proof -
    have "insert (heads j) (set (L j)) \<inter> insert (heads k) (set (L k)) = {}"
      using assms(1) jk unfolding buckets_ok_def by blast
    moreover have "set (as @ bs) \<subseteq> set (L i)"
      by (auto simp: ab)
    ultimately show ?thesis
      using jk(3) by auto
  qed
  then have "buckets_ok rep h' heads (L(i := as @ bs)) n"
    using h'(3) o by (simp add: buckets_ok_def)
  then show thesis
    using that h' rm by simp
qed

lemma begin_buckets:
  assumes "buckets_ok rep h heads L n" "i < n"
  shows "begin' h (heads i) = (if L i = [] then heads i else hd (L i))"
  using assms begin_rep by (simp add: buckets_ok_def)

lemma buckets_distinct:
  assumes "buckets_ok rep h heads L n" "i < n"
  shows "distinct (L i)" "heads i \<notin> set (L i)" "nullptr \<notin> insert (heads i) (set (L i))"
  using assms rep_distinct [of h "heads i" "L i"] by (simp_all add: buckets_ok_def)

end

interpretation sl: intrusive_list sl_rep sl_Begin sl_Push_Front sl_Erase same_data
proof unfold_locales
  show "sl_rep h g xs \<Longrightarrow> distinct xs \<and> g \<notin> set xs \<and> nullptr \<notin> set (g # xs)" for h g xs
    by (simp add: sl_rep_def ring_def)
qed (rule sl_Begin_rep sl_Push_Front_ring sl_Erase_ring same_data_frame; assumption)+

end
