(* ===== verification/Page_Cache.thy ===== *)
theory Page_Cache
  imports Size_Class Page_Map Object_Pool Span_List
begin

text \<open>
  The page cache of \<open>ConcurrentMemoryPool/PageCache.cpp\<close>: 129 lists of free spans by
  their number of pages, the page map, and the object pool of the \<open>Span\<close> structures.
  \<open>NewSpan\<close> hands out a span of a given number of pages, \<open>ReleaseSpanToPageCache\<close> takes one
  back and merges it with its free neighbours.
  The results of \<open>mmap\<close> are an input of the run (\<open>pc_mmaps\<close>, consumed in order, all ones
  for \<open>MAP_FAILED\<close>), and so is which calls of \<open>munmap\<close> succeed.
  The operations run under \<open>_page_mutex\<close>, so each is one step of the model.
\<close>

section \<open>The state\<close>

record pcache =
  pc_heads :: "nat \<Rightarrow> addr"
  pc_spans :: span_heap
  pc_pool :: objpool
  pc_map :: pagemap
  pc_mmaps :: "addr list"
  pc_munmap_ok :: "addr \<Rightarrow> u64 \<Rightarrow> bool"

definition MAP_FAILED :: addr where
  "MAP_FAILED = - 1"

definition SPAN_SIZE :: u64 where
  "SPAN_SIZE = 64"

definition SystemAlloc :: "u64 \<Rightarrow> pcache \<Rightarrow> (addr \<times> pcache) res" where
  "SystemAlloc kpage s =
     (if kpage = 0 then Inr (nullptr, s)
      else case pc_mmaps s of
        [] \<Rightarrow> Inl BadAlloc
      | ptr # rest \<Rightarrow>
          if ptr = MAP_FAILED then Inl BadAlloc else Inr (ptr, s\<lparr>pc_mmaps := rest\<rparr>))"

definition SystemFree :: "addr \<Rightarrow> u64 \<Rightarrow> pcache \<Rightarrow> pcache res" where
  "SystemFree ptr kpage s =
     (if ptr = nullptr \<or> kpage = 0 then Inr s
      else if pc_munmap_ok s ptr (push_bit 13 kpage) then Inr s
      else Inl RuntimeError)"

section \<open>\<open>NewSpan\<close>\<close>

text \<open>The assignments that follow each \<open>_obj_pool.New()\<close>.\<close>

definition span_clear :: "span_heap \<Rightarrow> addr \<Rightarrow> span_heap" where
  "span_clear h x =
     h\<lparr>s_free_lists := (s_free_lists h)(x := nullptr), s_prev := (s_prev h)(x := nullptr),
       s_next := (s_next h)(x := nullptr), s_use_count := (s_use_count h)(x := 0),
       s_obj_size := (s_obj_size h)(x := 0), s_is_used := (s_is_used h)(x := False)\<rparr>"

definition set_range :: "span_heap \<Rightarrow> addr \<Rightarrow> u64 \<Rightarrow> u64 \<Rightarrow> span_heap" where
  "set_range h x page_id npage =
     h\<lparr>s_page_id := (s_page_id h)(x := page_id), s_npage := (s_npage h)(x := npage)\<rparr>"

text \<open>A request of more than 128 pages goes to the system.\<close>

definition NewSpan_big :: "pcache \<Rightarrow> u64 \<Rightarrow> (addr \<times> pcache) res" where
  "NewSpan_big s npage =
     rbind (SystemAlloc npage s) (\<lambda>(ptr, s).
     rbind (op_New SPAN_SIZE (pc_pool s)) (\<lambda>(span, pool).
       let h = set_range (span_clear (pc_spans s) span) span (drop_bit PAGE_SHIFT ptr) npage in
       rbind (iter_set pm_set (pc_map s) (s_page_id h span) (unat npage) span) (\<lambda>m.
         Inr (span, s\<lparr>pc_pool := pool, pc_spans := h, pc_map := m\<rparr>))))"

text \<open>The bucket of the wanted size holds a span.\<close>

definition NewSpan_pop :: "pcache \<Rightarrow> u64 \<Rightarrow> (addr \<times> pcache) res" where
  "NewSpan_pop s npage =
     rbind (sl_Pop_Front (pc_spans s) (pc_heads s (unat npage))) (\<lambda>(span, h).
       let m1 = pm_erase (pc_map s) (s_page_id h span);
           m2 = pm_erase m1 (s_page_id h span + s_npage h span - 1)
       in rbind (iter_set pm_set m2 (s_page_id h span) (unat npage) span) (\<lambda>m.
            Inr (span, s\<lparr>pc_spans := h, pc_map := m\<rparr>)))"

text \<open>A span of the larger bucket \<open>i\<close> is cut: its front is handed out, the rest goes to the
  bucket of its new size.\<close>

definition NewSpan_split :: "pcache \<Rightarrow> nat \<Rightarrow> u64 \<Rightarrow> (addr \<times> pcache) res" where
  "NewSpan_split s i npage =
     rbind (op_New SPAN_SIZE (pc_pool s)) (\<lambda>(kSpan, pool).
     rbind (sl_Pop_Front (span_clear (pc_spans s) kSpan) (pc_heads s i)) (\<lambda>(nSpan, h1).
       let h2 = set_range h1 kSpan (s_page_id h1 nSpan) npage;
           h3 = set_range h2 nSpan (s_page_id h2 nSpan + npage) (s_npage h2 nSpan - npage)
       in
     rbind (sl_Push_Front h3 (pc_heads s (unat (s_npage h3 nSpan))) nSpan) (\<lambda>h4.
     rbind (pm_set (pc_map s) (s_page_id h4 nSpan) nSpan) (\<lambda>m1.
     rbind (pm_set m1 (s_page_id h4 nSpan + s_npage h4 nSpan - 1) nSpan) (\<lambda>m2.
     rbind (iter_set pm_set m2 (s_page_id h4 kSpan) (unat npage) kSpan) (\<lambda>m3.
       Inr (kSpan, s\<lparr>pc_pool := pool, pc_spans := h4, pc_map := m3\<rparr>)))))))"

text \<open>No bucket has a span: a span of 128 pages is made from 129 pages of the system.\<close>

definition NewSpan_refill :: "pcache \<Rightarrow> pcache res" where
  "NewSpan_refill s =
     rbind (op_New SPAN_SIZE (pc_pool s)) (\<lambda>(span, pool).
     rbind (SystemAlloc NPAGE_LISTS s) (\<lambda>(ptr, s).
       let h = set_range (span_clear (pc_spans s) span) span (drop_bit PAGE_SHIFT ptr) (NPAGE_LISTS - 1) in
     rbind (sl_Push_Front h (pc_heads s (unat (NPAGE_LISTS - 1))) span) (\<lambda>h'.
       Inr (s\<lparr>pc_pool := pool, pc_spans := h'\<rparr>))))"

function find_bucket :: "pcache \<Rightarrow> nat \<Rightarrow> nat option" where
  "find_bucket s i =
     (if i < unat NPAGE_LISTS then
        if \<not> sl_Empty (pc_spans s) (pc_heads s i) then Some i else find_bucket s (Suc i)
      else None)"
  by pat_completeness auto
termination
  by (relation "measure (\<lambda>(s, i). unat NPAGE_LISTS - i)") auto

declare find_bucket.simps [simp del]

primrec NewSpan_rec :: "nat \<Rightarrow> pcache \<Rightarrow> u64 \<Rightarrow> (addr \<times> pcache) res" where
  "NewSpan_rec 0 s npage = Inl NoFuel"
| "NewSpan_rec (Suc fuel) s npage =
     (if npage > NPAGE_LISTS - 1 then NewSpan_big s npage
      else if \<not> sl_Empty (pc_spans s) (pc_heads s (unat npage)) then NewSpan_pop s npage
      else case find_bucket s (Suc (unat npage)) of
        Some i \<Rightarrow> NewSpan_split s i npage
      | None \<Rightarrow> rbind (NewSpan_refill s) (\<lambda>s'. NewSpan_rec fuel s' npage))"

definition NewSpan :: "pcache \<Rightarrow> u64 \<Rightarrow> (addr \<times> pcache) res" where
  "NewSpan s npage = NewSpan_rec walk_fuel s npage"

section \<open>\<open>PageToSpan\<close> and \<open>ReleaseSpanToPageCache\<close>\<close>

definition PageToSpan :: "pcache \<Rightarrow> addr \<Rightarrow> addr res" where
  "PageToSpan s obj =
     (let span = pm_get (pc_map s) (drop_bit PAGE_SHIFT obj)
      in if span \<noteq> nullptr then Inr span else Inl AssertFailed)"

text \<open>One round of the loop that merges with the span before; \<open>None\<close> is its \<open>break\<close>.\<close>

definition merge_prev_step :: "pcache \<Rightarrow> addr \<Rightarrow> pcache option res" where
  "merge_prev_step s span =
     (let h = pc_spans s;
          prev_span = pm_get (pc_map s) (s_page_id h span - 1)
      in if prev_span = nullptr then Inr None
         else if s_is_used h prev_span then Inr None
         else if s_npage h span + s_npage h prev_span > NPAGE_LISTS - 1 then Inr None
         else
           let h1 = set_range h span (s_page_id h prev_span) (s_npage h span + s_npage h prev_span) in
           rbind (sl_Erase h1 (pc_heads s (unat (s_npage h1 prev_span))) prev_span) (\<lambda>h2.
             let m1 = pm_erase (pc_map s) (s_page_id h2 prev_span);
                 m2 = pm_erase m1 (s_page_id h2 prev_span + s_npage h2 prev_span - 1)
             in Inr (Some (s\<lparr>pc_spans := h2, pc_map := m2, pc_pool := op_Delete (pc_pool s) prev_span\<rparr>))))"

definition merge_next_step :: "pcache \<Rightarrow> addr \<Rightarrow> pcache option res" where
  "merge_next_step s span =
     (let h = pc_spans s;
          next_span = pm_get (pc_map s) (s_page_id h span + s_npage h span)
      in if next_span = nullptr then Inr None
         else if s_is_used h next_span then Inr None
         else if s_npage h span + s_npage h next_span > NPAGE_LISTS - 1 then Inr None
         else
           let h1 = set_range h span (s_page_id h span) (s_npage h span + s_npage h next_span) in
           rbind (sl_Erase h1 (pc_heads s (unat (s_npage h1 next_span))) next_span) (\<lambda>h2.
             let m1 = pm_erase (pc_map s) (s_page_id h2 next_span);
                 m2 = pm_erase m1 (s_page_id h2 next_span + s_npage h2 next_span - 1)
             in Inr (Some (s\<lparr>pc_spans := h2, pc_map := m2, pc_pool := op_Delete (pc_pool s) next_span\<rparr>))))"

primrec while_merge :: "('s \<Rightarrow> addr \<Rightarrow> 's option res) \<Rightarrow> nat \<Rightarrow> 's \<Rightarrow> addr \<Rightarrow> 's res" where
  "while_merge step 0 s span = Inl NoFuel"
| "while_merge step (Suc fuel) s span =
     rbind (step s span) (\<lambda>r. case r of None \<Rightarrow> Inr s | Some s' \<Rightarrow> while_merge step fuel s' span)"

definition Release_big :: "pcache \<Rightarrow> addr \<Rightarrow> pcache res" where
  "Release_big s span =
     (let h = pc_spans s;
          m = iter_erase pm_erase (pc_map s) (s_page_id h span) (unat (s_npage h span));
          ptr = push_bit PAGE_SHIFT (s_page_id h span)
      in rbind (SystemFree ptr (s_npage h span) s) (\<lambda>s'.
           Inr (s'\<lparr>pc_map := m, pc_pool := op_Delete (pc_pool s') span\<rparr>)))"

definition Release_finish :: "pcache \<Rightarrow> addr \<Rightarrow> pcache res" where
  "Release_finish s span =
     rbind (sl_Push_Front (pc_spans s) (pc_heads s (unat (s_npage (pc_spans s) span))) span) (\<lambda>h.
       let h' = h\<lparr>s_is_used := (s_is_used h)(span := False)\<rparr> in
     rbind (pm_set (pc_map s) (s_page_id h' span) span) (\<lambda>m1.
     rbind (pm_set m1 (s_page_id h' span + s_npage h' span - 1) span) (\<lambda>m2.
       Inr (s\<lparr>pc_spans := h', pc_map := m2\<rparr>))))"

definition ReleaseSpanToPageCache :: "pcache \<Rightarrow> addr \<Rightarrow> pcache res" where
  "ReleaseSpanToPageCache s span =
     (if s_npage (pc_spans s) span > NPAGE_LISTS - 1 then Release_big s span
      else
        let m = iter_erase pm_erase (pc_map s) (s_page_id (pc_spans s) span)
                  (unat (s_npage (pc_spans s) span)) in
        rbind (while_merge merge_prev_step walk_fuel (s\<lparr>pc_map := m\<rparr>) span) (\<lambda>s1.
        rbind (while_merge merge_next_step walk_fuel s1 span) (\<lambda>s2.
          Release_finish s2 span)))"

end
