(* ===== verification/Page_Cache_Inv.thy ===== *)
theory Page_Cache_Inv
  imports Page_Cache
begin

text \<open>
  The invariant of the page cache and its preservation by \<open>NewSpan\<close> and
  \<open>ReleaseSpanToPageCache\<close>. \<open>L\<close> lists the spans of each bucket, \<open>U\<close> is the set of
  spans handed out, \<open>X\<close> the span a release is working on, and \<open>N\<close> the span fresh from the
  system that no page maps to yet.
\<close>

section \<open>The invariant\<close>

definition lo :: "span_heap \<Rightarrow> addr \<Rightarrow> nat" where
  "lo h x = unat (s_page_id h x)"

definition np :: "span_heap \<Rightarrow> addr \<Rightarrow> nat" where
  "np h x = unat (s_npage h x)"

definition owns :: "span_heap \<Rightarrow> addr \<Rightarrow> u64 \<Rightarrow> bool" where
  "owns h x p \<longleftrightarrow> lo h x \<le> unat p \<and> unat p < lo h x + np h x"

definition at_end :: "span_heap \<Rightarrow> addr \<Rightarrow> u64 \<Rightarrow> bool" where
  "at_end h x p \<longleftrightarrow> unat p = lo h x \<or> unat p = lo h x + np h x - 1"

definition free_spans :: "(nat \<Rightarrow> addr list) \<Rightarrow> addr set" where
  "free_spans L = (\<Union>i<129. set (L i))"

definition layout_ok :: "span_heap \<Rightarrow> addr set \<Rightarrow> bool" where
  "layout_ok h A \<longleftrightarrow>
     (\<forall>x \<in> A. 1 \<le> lo h x \<and> 1 \<le> np h x \<and> lo h x + np h x \<le> 1125899906842624) \<and>
     (\<forall>x \<in> A. \<forall>y \<in> A. x \<noteq> y \<longrightarrow> lo h x + np h x \<le> lo h y \<or> lo h y + np h y \<le> lo h x)"

definition map_ok :: "span_heap \<Rightarrow> pagemap \<Rightarrow> addr set \<Rightarrow> addr set \<Rightarrow> addr set \<Rightarrow> bool" where
  "map_ok h m F U N \<longleftrightarrow>
     (\<forall>u \<in> U. \<forall>p. owns h u p \<longrightarrow> pm_get m p = u) \<and>
     (\<forall>x \<in> F - N. \<forall>p. at_end h x p \<longrightarrow> pm_get m p = x) \<and>
     (\<forall>p. pm_get m p \<noteq> nullptr \<longrightarrow>
        (pm_get m p \<in> U \<and> owns h (pm_get m p) p) \<or> (pm_get m p \<in> F \<and> at_end h (pm_get m p) p))"

definition flags_ok :: "span_heap \<Rightarrow> (nat \<Rightarrow> addr list) \<Rightarrow> addr set \<Rightarrow> bool" where
  "flags_ok h L U \<longleftrightarrow>
     (\<forall>i < 129. \<forall>x \<in> set (L i). np h x = i \<and> \<not> s_is_used h x) \<and> (\<forall>u \<in> U. s_is_used h u)"

definition pc_inv :: "pcache \<Rightarrow> (nat \<Rightarrow> addr list) \<Rightarrow> addr set \<Rightarrow> addr set \<Rightarrow> addr set \<Rightarrow> bool" where
  "pc_inv s L U X N \<longleftrightarrow>
     buckets_ok sl_rep (pc_spans s) (pc_heads s) L 129 \<and>
     pool_inv (op_rep SPAN_SIZE) (pc_pool s) (pc_heads s ` {..<129} \<union> free_spans L \<union> U \<union> X) \<and>
     pc_heads s ` {..<129} \<inter> (U \<union> X) = {} \<and>
     free_spans L \<inter> (U \<union> X) = {} \<and> U \<inter> X = {} \<and>
     flags_ok (pc_spans s) L U \<and>
     layout_ok (pc_spans s) (free_spans L \<union> U \<union> X) \<and>
     map_ok (pc_spans s) (pc_map s) (free_spans L) U N"

section \<open>Ranges of pages\<close>

lemma owns_in_range: "owns h x p \<longleftrightarrow> in_range (s_page_id h x) (unat (s_npage h x)) p"
  by (simp add: owns_def in_range_def lo_def np_def)

lemma layout_range_ok:
  "layout_ok h A \<Longrightarrow> x \<in> A \<Longrightarrow> range_ok (s_page_id h x) (unat (s_npage h x)) \<and> 1 \<le> np h x"
  by (auto simp: layout_ok_def range_ok_def lo_def np_def)

lemma layout_bounds:
  assumes "layout_ok h A" "x \<in> A"
  shows "1 \<le> np h x" "lo h x + np h x \<le> 1125899906842624" "1 \<le> lo h x"
  using assms by (auto simp: layout_ok_def)

lemma layout_apart:
  "layout_ok h A \<Longrightarrow> x \<in> A \<Longrightarrow> y \<in> A \<Longrightarrow> x \<noteq> y \<Longrightarrow>
    lo h x + np h x \<le> lo h y \<or> lo h y + np h y \<le> lo h x"
  by (auto simp: layout_ok_def)

lemma owns_unique:
  "layout_ok h A \<Longrightarrow> x \<in> A \<Longrightarrow> y \<in> A \<Longrightarrow> owns h x p \<Longrightarrow> owns h y p \<Longrightarrow> x = y"
  using layout_apart by (fastforce simp: owns_def)

lemma at_end_owns: "1 \<le> np h x \<Longrightarrow> at_end h x p \<Longrightarrow> owns h x p"
  by (auto simp: at_end_def owns_def)

lemma layout_mono: "layout_ok h A \<Longrightarrow> B \<subseteq> A \<Longrightarrow> layout_ok h B"
  unfolding layout_ok_def by blast

lemma unat_last:
  assumes "1 \<le> np h x" "lo h x + np h x \<le> 1125899906842624"
  shows "unat (s_page_id h x + s_npage h x - 1) = lo h x + np h x - 1"
proof -
  have "unat (s_page_id h x + s_npage h x) = lo h x + np h x"
    using assms by (simp add: lo_def np_def unat_add_nowrap)
  then show ?thesis
    using assms by (simp add: unat_minus_nowrap)
qed

lemma unat_after:
  assumes "lo h x + np h x \<le> 1125899906842624"
  shows "unat (s_page_id h x + s_npage h x) = lo h x + np h x"
  using assms by (simp add: lo_def np_def unat_add_nowrap)

lemma at_end_iff:
  assumes "1 \<le> np h x" "lo h x + np h x \<le> 1125899906842624"
  shows "at_end h x p \<longleftrightarrow> p = s_page_id h x \<or> p = s_page_id h x + s_npage h x - 1"
  using unat_last [OF assms] by (simp add: at_end_def u64_eq_iff_unat lo_def np_def)

text \<open>The heap the operations write: what \<open>same_data\<close> keeps, and the footprint of the page cache,
  the structures only it writes: its sentinels, its free spans and the slots of its pool.\<close>

definition frame_out :: "addr set \<Rightarrow> span_heap \<Rightarrow> span_heap \<Rightarrow> bool" where
  "frame_out A h h' \<longleftrightarrow> (\<forall>z. z \<notin> A \<longrightarrow>
     s_page_id h' z = s_page_id h z \<and> s_npage h' z = s_npage h z \<and> s_free_lists h' z = s_free_lists h z \<and>
     s_prev h' z = s_prev h z \<and> s_next h' z = s_next h z \<and> s_use_count h' z = s_use_count h z \<and>
     s_obj_size h' z = s_obj_size h z \<and> s_is_used h' z = s_is_used h z)"

definition pool_slots :: "objpool \<Rightarrow> addr set" where
  "pool_slots p = {x. \<exists>xs. op_rep SPAN_SIZE p xs \<and> x \<in> set xs}"

definition pc_foot :: "pcache \<Rightarrow> (nat \<Rightarrow> addr list) \<Rightarrow> addr set" where
  "pc_foot s L = pc_heads s ` {..<129} \<union> free_spans L \<union> pool_slots (pc_pool s)"

lemma frame_out_refl [simp]: "frame_out A h h"
  by (simp add: frame_out_def)

lemma frame_out_trans: "frame_out A h h1 \<Longrightarrow> frame_out A h1 h2 \<Longrightarrow> frame_out A h h2"
  by (simp add: frame_out_def)

lemma frame_out_mono: "frame_out A h h1 \<Longrightarrow> A \<subseteq> B \<Longrightarrow> frame_out B h h1"
  unfolding frame_out_def by blast

lemma frame_out_same_data: "same_data A h h' \<Longrightarrow> frame_out A h h'"
  by (auto simp: same_data_def frame_out_def)

lemma frame_out_span_clear [simp]: "k \<in> A \<Longrightarrow> frame_out A h (span_clear h k)"
  by (auto simp: span_clear_def frame_out_def)

lemma frame_out_set_range [simp]: "k \<in> A \<Longrightarrow> frame_out A h (set_range h k a b)"
  by (auto simp: set_range_def frame_out_def)

lemma frame_out_sl_rep:
  assumes "frame_out A h h'" "sl_rep h g ys" "insert g (set ys) \<inter> A = {}"
  shows "sl_rep h' g ys"
proof -
  have "s_next h' z = s_next h z \<and> s_prev h' z = s_prev h z" if "z \<in> insert g (set ys)" for z
  proof -
    have "z \<notin> A"
      using assms(3) that by blast
    then show ?thesis
      using assms(1) by (simp add: frame_out_def)
  qed
  then show ?thesis
    using assms(2) sl_rep_cong by blast
qed

lemma pool_slots_rep: "op_rep SPAN_SIZE p xs \<Longrightarrow> pool_slots p = set xs"
  using op_rep_unique unfolding pool_slots_def by blast

lemma pool_slots_delete:
  assumes "pool_inv (op_rep SPAN_SIZE) p live" "x \<in> live"
  shows "pool_slots (op_Delete p x) = insert x (pool_slots p)"
proof -
  obtain xs where xs: "op_rep SPAN_SIZE p xs" "nullptr \<notin> live" "set xs \<inter> live = {}"
    using assms(1) by (auto simp: pool_inv_def)
  then have "x \<noteq> nullptr" "x \<notin> set xs"
    using assms(2) by auto
  then have "op_rep SPAN_SIZE (op_Delete p x) (x # xs)"
    using xs by (intro op.delete_push)
  then show ?thesis
    using pool_slots_rep xs(1) by simp
qed

lemma pool_slots_new:
  assumes "op_rep SPAN_SIZE p xs" "op_rep SPAN_SIZE p' (tl xs)" "op_New SPAN_SIZE p = Inr (k, p')"
  shows "k \<in> pool_slots p" "pool_slots p' \<subseteq> pool_slots p"
proof -
  obtain ys where xs: "xs = k # ys"
    using assms op.new_empty op.new_pop by (cases xs) fastforce+
  then show "k \<in> pool_slots p" "pool_slots p' \<subseteq> pool_slots p"
    using pool_slots_rep [OF assms(1)] pool_slots_rep [OF assms(2)] by auto
qed

lemma foot_bucket: "i < 129 \<Longrightarrow> insert (pc_heads s i) (set (L i)) \<subseteq> pc_foot s L"
  by (auto simp: pc_foot_def free_spans_def)

lemma same_data_simps:
  assumes "same_data A h h'"
  shows "s_page_id h' = s_page_id h" "s_npage h' = s_npage h" "s_free_lists h' = s_free_lists h"
    "s_use_count h' = s_use_count h" "s_obj_size h' = s_obj_size h" "s_is_used h' = s_is_used h"
    "lo h' = lo h" "np h' = np h" "owns h' = owns h" "at_end h' = at_end h"
    "layout_ok h' = layout_ok h" "map_ok h' = map_ok h" "flags_ok h' = flags_ok h"
proof -
  obtain nx pv where h': "h' = h\<lparr>s_next := nx, s_prev := pv\<rparr>"
    using assms by (auto simp: same_data_def)
  show *: "s_page_id h' = s_page_id h" "s_npage h' = s_npage h" "s_free_lists h' = s_free_lists h"
    "s_use_count h' = s_use_count h" "s_obj_size h' = s_obj_size h" "s_is_used h' = s_is_used h"
    by (simp_all add: h')
  show **: "lo h' = lo h" "np h' = np h"
    by (simp_all add: lo_def np_def fun_eq_iff *)
  show ***: "owns h' = owns h" "at_end h' = at_end h"
    by (simp_all add: owns_def at_end_def fun_eq_iff **)
  show "layout_ok h' = layout_ok h" "map_ok h' = map_ok h" "flags_ok h' = flags_ok h"
    by (simp_all add: layout_ok_def map_ok_def flags_ok_def fun_eq_iff * ** ***)
qed

lemma free_spans_upd:
  "i < 129 \<Longrightarrow> free_spans (L(i := xs)) = (\<Union>j \<in> {..<129} - {i}. set (L j)) \<union> set xs"
  by (auto simp: free_spans_def split: if_splits)

lemma free_spansI: "i < 129 \<Longrightarrow> x \<in> set (L i) \<Longrightarrow> x \<in> free_spans L"
  by (auto simp: free_spans_def)

lemma free_spans_push: "i < 129 \<Longrightarrow> free_spans (L(i := x # L i)) = insert x (free_spans L)"
  unfolding free_spans_def by (auto split: if_splits)

lemma free_spans_remove:
  assumes "buckets_ok sl_rep h heads L 129" "i < 129" "x \<in> set (L i)"
  shows "free_spans (L(i := remove1 x (L i))) = free_spans L - {x}"
proof -
  have d: "distinct (L i)"
    using sl.buckets_distinct assms(1,2) by blast
  have o: "x \<notin> set (L j)" if "j < 129" "j \<noteq> i" for j
    using assms that unfolding buckets_ok_def by blast
  show ?thesis
    using d o assms(2) by (auto simp: free_spans_def split: if_splits)
qed

lemma heads_free:
  assumes "buckets_ok sl_rep h heads L 129"
  shows "heads ` {..<129} \<inter> free_spans L = {}"
proof -
  have "heads i \<notin> set (L j)" if "i < 129" "j < 129" for i j
    using assms that sl.buckets_distinct(2) [OF assms] unfolding buckets_ok_def by (cases "i = j") blast+
  then show ?thesis
    by (auto simp: free_spans_def)
qed

section \<open>\<open>NewSpan\<close>\<close>

text \<open>The caller marks the span it was given as used (\<open>CentralCache::FetchRangeObj\<close> and
  \<open>ConcurrentMalloc\<close> do so); the invariant counts it among the spans in use from then on.\<close>

definition mark_used :: "pcache \<Rightarrow> addr \<Rightarrow> pcache" where
  "mark_used s x = s\<lparr>pc_spans := (pc_spans s)\<lparr>s_is_used := (s_is_used (pc_spans s))(x := True)\<rparr>\<rparr>"

definition new_span_ok :: "pcache \<Rightarrow> (nat \<Rightarrow> addr list) \<Rightarrow> addr set \<Rightarrow> nat \<Rightarrow> (addr \<times> pcache) res \<Rightarrow> bool" where
  "new_span_ok s L U n r \<longleftrightarrow>
     (\<exists>x s' L'. r = Inr (x, s') \<and> x \<notin> U \<and> np (pc_spans s') x = n \<and>
        pc_inv (mark_used s' x) L' (insert x U) {} {} \<and> pc_heads s' = pc_heads s \<and>
        (\<forall>u \<in> U. lo (pc_spans s') u = lo (pc_spans s) u \<and> np (pc_spans s') u = np (pc_spans s) u) \<and>
        frame_out (pc_foot s L) (pc_spans s) (pc_spans s') \<and> insert x (pc_foot s' L') \<subseteq> pc_foot s L)"

lemma mark_used_simps [simp]:
  "pc_heads (mark_used s x) = pc_heads s" "pc_pool (mark_used s x) = pc_pool s"
  "pc_map (mark_used s x) = pc_map s"
  "s_next (pc_spans (mark_used s x)) = s_next (pc_spans s)"
  "s_prev (pc_spans (mark_used s x)) = s_prev (pc_spans s)"
  "s_page_id (pc_spans (mark_used s x)) = s_page_id (pc_spans s)"
  "s_npage (pc_spans (mark_used s x)) = s_npage (pc_spans s)"
  "s_is_used (pc_spans (mark_used s x)) = (s_is_used (pc_spans s))(x := True)"
  "lo (pc_spans (mark_used s x)) = lo (pc_spans s)"
  "np (pc_spans (mark_used s x)) = np (pc_spans s)"
  "owns (pc_spans (mark_used s x)) = owns (pc_spans s)"
  "at_end (pc_spans (mark_used s x)) = at_end (pc_spans s)"
  "sl_rep (pc_spans (mark_used s x)) = sl_rep (pc_spans s)"
  "layout_ok (pc_spans (mark_used s x)) = layout_ok (pc_spans s)"
  "map_ok (pc_spans (mark_used s x)) = map_ok (pc_spans s)"
  by (simp_all add: mark_used_def lo_def np_def owns_def at_end_def sl_rep_def layout_ok_def map_ok_def
      fun_eq_iff)

lemma buckets_mark_used [simp]:
  "buckets_ok sl_rep (pc_spans (mark_used s x)) heads L n = buckets_ok sl_rep (pc_spans s) heads L n"
  by (simp add: buckets_ok_def)

lemma flags_mark_used:
  "flags_ok (pc_spans (mark_used s x)) L (insert x U) \<longleftrightarrow>
     (\<forall>i < 129. \<forall>y \<in> set (L i). np (pc_spans s) y = i \<and> \<not> s_is_used (pc_spans s) y \<and> y \<noteq> x) \<and>
     (\<forall>u \<in> U. u \<noteq> x \<longrightarrow> s_is_used (pc_spans s) u)"
  by (auto simp: flags_ok_def)

lemma pop_front_buckets:
  assumes "buckets_ok sl_rep h heads L 129" "i < 129" "L i = y # ys"
  obtains h' where "sl_Pop_Front h (heads i) = Inr (y, h')" "same_data (insert (heads i) (set (L i))) h h'"
    "buckets_ok sl_rep h' heads (L(i := ys)) 129"
proof -
  obtain h' where "sl_Erase h (heads i) y = Inr h'" "same_data (insert (heads i) (set (L i))) h h'"
      "buckets_ok sl_rep h' heads (L(i := remove1 y (L i))) 129"
    using sl.erase_buckets [OF assms(1,2), of y] assms(3) by auto
  moreover have "sl_Begin h (heads i) = y"
    using sl.begin_buckets [OF assms(1,2)] assms(3) by simp
  ultimately show thesis
    using that assms(3) by (simp add: sl_Pop_Front_def)
qed

lemma Empty_buckets:
  assumes "buckets_ok sl_rep h heads L 129" "i < 129"
  shows "sl_Empty h (heads i) \<longleftrightarrow> L i = []"
  using assms sl_Empty_rep by (auto simp: buckets_ok_def)

text \<open>The map after a span is taken out of the free lists and mapped page by page.\<close>

lemma map_ok_take:
  assumes m: "map_ok h m F U N" and l: "layout_ok h (F \<union> U)" and y: "y \<in> F" and N: "N \<subseteq> {y}"
    and F: "F \<inter> U = {}" and y0: "y \<noteq> nullptr"
    and g: "\<And>p. pm_get m' p = (if owns h y p then y else if at_end h y p then nullptr else pm_get m p)"
  shows "map_ok h m' (F - {y}) (insert y U) {}"
proof -
  have y1: "1 \<le> np h y"
    using layout_bounds [OF l] y by auto
  have g': "pm_get m' p = (if owns h y p then y else pm_get m p)" for p
    using g at_end_owns [OF y1] by auto
  have "pm_get m' p = u" if "u \<in> insert y U" "owns h u p" for u p
  proof (cases "u = y")
    case False
    then have "\<not> owns h y p"
      using owns_unique [OF l] that y by blast
    then show ?thesis
      using False that m by (simp add: g' map_ok_def)
  qed (use that g' in auto)
  moreover have "pm_get m' p = x" if "x \<in> F - {y}" "at_end h x p" for x p
  proof -
    have "owns h x p"
      using at_end_owns layout_bounds [OF l] that by blast
    then have "\<not> owns h y p"
      using owns_unique [OF l] that y by blast
    then show ?thesis
      using that m N by (auto simp: g' map_ok_def)
  qed
  moreover have "(pm_get m' p \<in> insert y U \<and> owns h (pm_get m' p) p) \<or>
      (pm_get m' p \<in> F - {y} \<and> at_end h (pm_get m' p) p)" if "pm_get m' p \<noteq> nullptr" for p
  proof (cases "owns h y p")
    case False
    then have e: "pm_get m' p = pm_get m p" by (simp add: g')
    then have "(pm_get m p \<in> U \<and> owns h (pm_get m p) p) \<or> (pm_get m p \<in> F \<and> at_end h (pm_get m p) p)"
      using m that by (simp add: map_ok_def)
    then show ?thesis
      using e False at_end_owns [OF y1] by auto
  qed (simp add: g')
  ultimately show ?thesis
    unfolding map_ok_def by blast
qed

lemma NewSpan_pop_ok:
  assumes inv: "pc_inv s L U {} N" and n: "n \<le> 128" "unat npage = n" and L: "L n = y # ys" and N: "N \<subseteq> {y}"
  shows "new_span_ok s L U n (NewSpan_pop s npage)"
proof -
  let ?h = "pc_spans s"
  have b: "buckets_ok sl_rep ?h (pc_heads s) L 129" and lay: "layout_ok ?h (free_spans L \<union> U)"
    and m: "map_ok ?h (pc_map s) (free_spans L) U N" and fl: "flags_ok ?h L U"
    and F: "free_spans L \<inter> U = {}"
    using inv by (simp_all add: pc_inv_def)
  have yF: "y \<in> free_spans L"
    using L n by (intro free_spansI [of n]) auto
  have ny: "np ?h y = n"
    using fl L n by (auto simp: flags_ok_def)
  have yb: "1 \<le> np ?h y" "lo ?h y + np ?h y \<le> 1125899906842624"
    using layout_bounds [OF lay] yF by auto
  have y0: "y \<noteq> nullptr"
    using sl.buckets_distinct(3) [OF b, of n] L n by auto
  obtain h' where h': "sl_Pop_Front ?h (pc_heads s n) = Inr (y, h')"
      "same_data (insert (pc_heads s n) (set (L n))) ?h h'"
      "buckets_ok sl_rep h' (pc_heads s) (L(n := ys)) 129"
    using pop_front_buckets [OF b _ L] n by auto
  note d = same_data_simps [OF h'(2)]
  let ?m2 = "pm_erase (pm_erase (pc_map s) (s_page_id ?h y)) (s_page_id ?h y + s_npage ?h y - 1)"
  have ro: "range_ok (s_page_id ?h y) n"
    using yb ny by (simp add: range_ok_def lo_def)
  obtain m' where m': "iter_set pm_set ?m2 (s_page_id ?h y) n y = Inr m'"
    "\<And>p. pm_get m' p = (if in_range (s_page_id ?h y) n p then y else pm_get ?m2 p)"
    using pm.iter_set_ex [OF ro] by blast
  have g: "pm_get m' p = (if owns ?h y p then y else if at_end ?h y p then nullptr else pm_get (pc_map s) p)" for p
    using ny by (auto simp: m'(2) owns_in_range pm_get_erase at_end_iff [OF yb] np_def)
  let ?s' = "s\<lparr>pc_spans := h', pc_map := m'\<rparr>"
  have r: "NewSpan_pop s npage = Inr (y, ?s')"
    using n h'(1) m'(1) by (simp add: NewSpan_pop_def d)
  have fs: "free_spans (L(n := ys)) = free_spans L - {y}"
    using free_spans_remove [OF b, of n y] n L by simp
  have "map_ok ?h m' (free_spans L - {y}) (insert y U) {}"
    by (rule map_ok_take [OF m lay yF N F y0 g])
  moreover have "flags_ok (pc_spans (mark_used ?s' y)) (L(n := ys)) (insert y U)"
  proof -
    have "z \<noteq> y" if "z \<in> set ((L(n := ys)) i)" "i < 129" for z i
      using that fs free_spansI [of i z "L(n := ys)"] by blast
    moreover have "np ?h z = i \<and> \<not> s_is_used ?h z" if "z \<in> set ((L(n := ys)) i)" "i < 129" for z i
      using fl that L unfolding flags_ok_def by (auto split: if_splits)
    ultimately show ?thesis
      using fl by (simp add: flags_mark_used d) (auto simp: flags_ok_def)
  qed
  moreover have "layout_ok ?h (free_spans L - {y} \<union> insert y U)"
    using lay by (rule layout_mono) (use yF in auto)
  moreover have "pc_heads s ` {..<129} \<inter> insert y U = {}"
    using inv heads_free [OF b] yF by (auto simp: pc_inv_def)
  moreover have "pc_heads s ` {..<129} \<union> (free_spans L - {y}) \<union> insert y U =
      pc_heads s ` {..<129} \<union> free_spans L \<union> U"
    using yF by auto
  moreover have "buckets_ok sl_rep (pc_spans (mark_used ?s' y)) (pc_heads s) (L(n := ys)) 129"
    using h'(3) by simp
  moreover have "pool_inv (op_rep SPAN_SIZE) (pc_pool s) (pc_heads s ` {..<129} \<union> free_spans L \<union> U)"
    using inv by (simp add: pc_inv_def)
  ultimately have "pc_inv (mark_used ?s' y) (L(n := ys)) (insert y U) {} {}"
    unfolding pc_inv_def fs using F by (intro conjI) (simp_all add: d, blast)
  moreover have "frame_out (pc_foot s L) ?h h'"
    using frame_out_same_data [OF h'(2)] n by (intro frame_out_mono [OF _ foot_bucket]) auto
  moreover have "insert y (pc_foot ?s' (L(n := ys))) \<subseteq> pc_foot s L"
    using yF by (auto simp: pc_foot_def fs)
  ultimately show ?thesis
    using r ny yF F unfolding new_span_ok_def
    by (intro exI [of _ y] exI [of _ ?s'] exI [of _ "L(n := ys)"] conjI) (auto simp: d)
qed

text \<open>Fresh span structures are in no list, so clearing one changes no list.\<close>

lemma buckets_cong:
  "s_next h' = s_next h \<Longrightarrow> s_prev h' = s_prev h \<Longrightarrow> buckets_ok sl_rep h' heads L n = buckets_ok sl_rep h heads L n"
  by (simp add: buckets_ok_def sl_rep_def)

lemma buckets_span_clear:
  assumes "buckets_ok sl_rep h heads L 129" "k \<notin> heads ` {..<129} \<union> free_spans L"
  shows "buckets_ok sl_rep (span_clear h k) heads L 129"
proof -
  have "sl_rep (span_clear h k) (heads i) (L i) = sl_rep h (heads i) (L i)" if "i < 129" for i
  proof -
    have "k \<notin> insert (heads i) (set (L i))"
      using assms(2) that by (auto simp: free_spans_def)
    then show ?thesis
      by (simp add: sl_rep_def span_clear_def)
  qed
  then show ?thesis
    using assms(1) by (simp add: buckets_ok_def)
qed

lemma span_clear_simps [simp]:
  "s_page_id (span_clear h k) = s_page_id h" "s_npage (span_clear h k) = s_npage h"
  "s_is_used (span_clear h k) = (s_is_used h)(k := False)"
  by (simp_all add: span_clear_def)

lemma set_range_simps [simp]:
  "s_page_id (set_range h x a b) = (s_page_id h)(x := a)"
  "s_npage (set_range h x a b) = (s_npage h)(x := b)"
  "s_is_used (set_range h x a b) = s_is_used h"
  "s_next (set_range h x a b) = s_next h" "s_prev (set_range h x a b) = s_prev h"
  "s_use_count (set_range h x a b) = s_use_count h" "s_obj_size (set_range h x a b) = s_obj_size h"
  "s_free_lists (set_range h x a b) = s_free_lists h"
  by (simp_all add: set_range_def)

lemma lo_np_set_range [simp]:
  "lo (set_range h x a b) = (lo h)(x := unat a)" "np (set_range h x a b) = (np h)(x := unat b)"
  "lo (span_clear h k) = lo h" "np (span_clear h k) = np h"
  by (simp_all add: lo_def np_def fun_eq_iff)

lemma pool_New_avail:
  assumes "pool_inv (op_rep SPAN_SIZE) p live" "op_rep SPAN_SIZE p xs" "1 \<le> length xs"
  obtains k p' where "op_New SPAN_SIZE p = Inr (k, p')" "k \<noteq> nullptr" "k \<notin> live"
    "pool_inv (op_rep SPAN_SIZE) p' (insert k live)" "op_rep SPAN_SIZE p' (tl xs)"
proof -
  obtain k ys where "xs = k # ys"
    using assms(3) by (cases xs) auto
  then obtain p' where "op_New SPAN_SIZE p = Inr (k, p')" "op_rep SPAN_SIZE p' (tl xs)"
    using op.new_pop assms(2) by fastforce
  then show thesis
    using that op.new_fresh [OF assms(1)] by blast
qed

text \<open>The map after the front \<open>k\<close> of the span \<open>y\<close> is mapped page by page and the ends of the
  rest of \<open>y\<close> are mapped. \<open>h\<close> is the heap before, \<open>h'\<close> the heap after the cut.\<close>

lemma map_ok_cut:
  assumes m: "map_ok h m F U N" and l: "layout_ok h (F \<union> U)" and l': "layout_ok h' (F \<union> insert k U)"
    and y: "y \<in> F" and N: "N \<subseteq> {y}" and k: "k \<notin> F \<union> U" and F: "F \<inter> U = {}"
    and o: "\<And>x. x \<noteq> y \<Longrightarrow> x \<noteq> k \<Longrightarrow> lo h' x = lo h x \<and> np h' x = np h x"
    and c: "lo h' k = lo h y" "lo h' y = lo h y + np h' k" "np h' k + np h' y = np h y"
    and g: "\<And>p. pm_get m' p = (if owns h' k p then k else if at_end h' y p then y else pm_get m p)"
  shows "map_ok h' m' F (insert k U) {}"
proof -
  have y1: "1 \<le> np h y" "1 \<le> np h' k" "1 \<le> np h' y"
    using layout_bounds(1) [OF l] layout_bounds(1) [OF l'] y by auto
  have oo: "owns h' x p = owns h x p" "at_end h' x p = at_end h x p" if "x \<noteq> y" "x \<noteq> k" for x p
    using o [OF that] by (simp_all add: owns_def at_end_def)
  have nk: "\<not> owns h' k p" "\<not> at_end h' y p" if "owns h x p" "x \<in> F \<union> U" "x \<noteq> y" for x p
  proof -
    have "x \<noteq> k"
      using k that by auto
    then have "owns h' x p"
      using oo that by simp
    then show "\<not> owns h' k p" "\<not> at_end h' y p"
      using owns_unique [OF l'] at_end_owns [OF y1(3)] that y \<open>x \<noteq> k\<close> by blast+
  qed
  have "pm_get m' p = u" if "u \<in> insert k U" "owns h' u p" for u p
  proof (cases "u = k")
    case False
    then have u: "u \<in> U" "u \<noteq> y"
      using that y F by auto
    then have "owns h u p"
      using that oo False by simp
    then show ?thesis
      using u nk m by (simp add: g map_ok_def)
  qed (use that g in auto)
  moreover have "pm_get m' p = x" if "x \<in> F" "at_end h' x p" for x p
  proof (cases "x = y")
    case True
    then have "\<not> owns h' k p"
      using owns_unique [OF l', of k y p] at_end_owns [OF y1(3)] that k by auto
    then show ?thesis using True that by (simp add: g)
  next
    case False
    have e: "at_end h x p"
      using that oo False k by auto
    then have "owns h x p"
      using at_end_owns layout_bounds(1) [OF l] that by blast
    then show ?thesis
      using that False e nk m N by (auto simp: g map_ok_def)
  qed
  moreover have "(pm_get m' p \<in> insert k U \<and> owns h' (pm_get m' p) p) \<or>
      (pm_get m' p \<in> F \<and> at_end h' (pm_get m' p) p)" if "pm_get m' p \<noteq> nullptr" for p
  proof (cases "owns h' k p \<or> at_end h' y p")
    case False
    then have e: "pm_get m' p = pm_get m p" by (simp add: g)
    then have d: "(pm_get m p \<in> U \<and> owns h (pm_get m p) p) \<or> (pm_get m p \<in> F \<and> at_end h (pm_get m p) p)"
      using m that by (simp add: map_ok_def)
    have "pm_get m p \<noteq> y"
    proof
      assume "pm_get m p = y"
      then have "at_end h y p"
        using d y F by auto
      then show False
        using False c y1 by (auto simp: at_end_def owns_def)
    qed
    moreover have "pm_get m p \<noteq> k"
      using d k by auto
    ultimately show ?thesis
      using d e oo by simp
  qed (use y in \<open>auto simp: g\<close>)
  ultimately show ?thesis
    unfolding map_ok_def by blast
qed

lemma buckets_pop_push:
  assumes "buckets_ok sl_rep h heads L 129" "i < 129" "j < 129" "L i = y # ys" "j \<noteq> i"
    and "k \<notin> heads ` {..<129} \<union> free_spans L"
  obtains h1 h4 where
    "sl_Pop_Front (span_clear h k) (heads i) = Inr (y, h1)"
    "same_data (insert (heads i) (set (L i))) (span_clear h k) h1"
    "sl_Push_Front (set_range (set_range h1 k a b) y c d) (heads j) y = Inr h4"
    "same_data (insert y (insert (heads j) (set (L j)))) (set_range (set_range h1 k a b) y c d) h4"
    "buckets_ok sl_rep h4 heads (L(i := ys, j := y # L j)) 129"
proof -
  have b: "buckets_ok sl_rep (span_clear h k) heads L 129"
    by (rule buckets_span_clear [OF assms(1,6)])
  obtain h1 where h1: "sl_Pop_Front (span_clear h k) (heads i) = Inr (y, h1)"
      "same_data (insert (heads i) (set (L i))) (span_clear h k) h1" "buckets_ok sl_rep h1 heads (L(i := ys)) 129"
    using pop_front_buckets [where h = "span_clear h k"] b assms(2,4) by blast
  let ?h3 = "set_range (set_range h1 k a b) y c d"
  have b3: "buckets_ok sl_rep ?h3 heads (L(i := ys)) 129"
    using h1(3) buckets_cong [of ?h3 h1] by simp
  have y: "y \<in> free_spans L" "y \<noteq> nullptr"
    using assms(2,4) sl.buckets_distinct(3) [OF assms(1,2)] by (auto intro: free_spansI)
  have "free_spans (L(i := ys)) = free_spans L - {y}"
    using free_spans_remove [OF assms(1,2), of y] assms(4) by simp
  then have "y \<notin> insert (heads l) (set ((L(i := ys)) l))" if "l < 129" for l
    using that free_spansI [of l y "L(i := ys)"] heads_free [OF assms(1)] y by auto
  then obtain h4 where "sl_Push_Front ?h3 (heads j) y = Inr h4"
      "same_data (insert y (insert (heads j) (set ((L(i := ys)) j)))) ?h3 h4"
      "buckets_ok sl_rep h4 heads ((L(i := ys))(j := y # (L(i := ys)) j)) 129"
    using sl.push_front_buckets [OF b3 assms(3) y(2)] by blast
  then show thesis
    using that h1 assms(5) by simp
qed

lemma flags_cut:
  assumes "flags_ok h L U" "L i = y # ys" "j < 129" "i < 129" "j \<noteq> i"
    and "k \<notin> free_spans L" "\<And>z. z \<noteq> y \<Longrightarrow> z \<noteq> k \<Longrightarrow> np h' z = np h z" "np h' y = j"
    and "s_is_used h' = (s_is_used h)(k := b)" "z \<in> set ((L(i := ys, j := y # L j)) l)" "l < 129"
    and "y \<notin> set ys" "\<And>l. l < 129 \<Longrightarrow> l \<noteq> i \<Longrightarrow> y \<notin> set (L l)"
  shows "np h' z = l \<and> \<not> s_is_used h' z \<and> z \<noteq> k"
proof (cases "z = y")
  case True
  have "l = j"
    using assms(10-13) True by (auto split: if_splits)
  moreover have "y \<noteq> k" "\<not> s_is_used h y"
    using assms(1,2,4,6) free_spansI [of i y L] by (auto simp: flags_ok_def)
  ultimately show ?thesis
    using True assms(8,9) by simp
next
  case False
  then have "z \<in> set (L l)"
    using assms(2,5,10) by (auto split: if_splits)
  then have "z \<noteq> k" "np h z = l" "\<not> s_is_used h z"
    using assms(1,6,11) free_spansI [of l z L] by (auto simp: flags_ok_def)
  then show ?thesis
    using False assms(7,9) by simp
qed

lemma layout_cut:
  assumes l: "layout_ok h A" and y: "y \<in> A" and k: "k \<notin> A"
    and o: "\<And>x. x \<noteq> y \<Longrightarrow> x \<noteq> k \<Longrightarrow> lo h' x = lo h x \<and> np h' x = np h x"
    and c: "lo h' k = lo h y" "lo h' y = lo h y + np h' k" "np h' k + np h' y = np h y"
    and p: "1 \<le> np h' k" "1 \<le> np h' y"
  shows "layout_ok h' (insert k A)"
proof -
  have yb: "lo h y + np h y \<le> 1125899906842624" "1 \<le> lo h y"
    using layout_bounds [OF l y] by simp_all
  have "1 \<le> lo h' x \<and> 1 \<le> np h' x \<and> lo h' x + np h' x \<le> 1125899906842624" if "x \<in> insert k A" for x
  proof (cases "x = k \<or> x = y")
    case True
    then show ?thesis using yb c p by auto
  next
    case False
    then show ?thesis using layout_bounds [OF l, of x] that o by auto
  qed
  moreover have "lo h' x + np h' x \<le> lo h' z \<or> lo h' z + np h' z \<le> lo h' x"
    if "x \<in> insert k A" "z \<in> insert k A" "x \<noteq> z" for x z
  proof (cases "x = k \<or> x = y"; cases "z = k \<or> z = y")
    assume "x = k \<or> x = y" "z = k \<or> z = y"
    then show ?thesis using c that by auto
  next
    assume "x = k \<or> x = y" "\<not> (z = k \<or> z = y)"
    then show ?thesis using c that o [of z] layout_apart [OF l y, of z] by auto
  next
    assume "\<not> (x = k \<or> x = y)" "z = k \<or> z = y"
    then show ?thesis using c that o [of x] layout_apart [OF l _ y, of x] by auto
  next
    assume "\<not> (x = k \<or> x = y)" "\<not> (z = k \<or> z = y)"
    then show ?thesis using that o layout_apart [OF l, of x z] by auto
  qed
  ultimately show ?thesis
    unfolding layout_ok_def by blast
qed

lemma set2_get:
  assumes "lo h y + np h y \<le> 1125899906842624" "1 \<le> np h y"
  obtains m1 m2 where "pm_set m (s_page_id h y) v = Inr m1"
    "pm_set m1 (s_page_id h y + s_npage h y - 1) v = Inr m2"
    "\<And>p. pm_get m2 p = (if at_end h y p then v else pm_get m p)"
proof -
  have "page_ok (s_page_id h y)" "page_ok (s_page_id h y + s_npage h y - 1)"
    using assms unat_last [OF assms(2,1)] by (simp_all add: page_ok_iff lo_def)
  then obtain m1 m2 where s: "pm_set m (s_page_id h y) v = Inr m1"
      "pm_set m1 (s_page_id h y + s_npage h y - 1) v = Inr m2"
    using pm_set_ok by meson
  have "pm_get m2 p = (if at_end h y p then v else pm_get m p)" for p
    using pm_get_set [OF s(1)] pm_get_set [OF s(2)] at_end_iff [OF assms(2,1)] by simp
  then show thesis
    using that s by blast
qed

lemma NewSpan_split_ok:
  assumes inv: "pc_inv s L U {} N" and n: "1 \<le> n" "n < i" "i \<le> 128" "unat npage = n"
    and L: "L i = y # ys" and N: "N \<subseteq> {y}"
    and pool: "op_rep SPAN_SIZE (pc_pool s) xs" "1 \<le> length xs"
  shows "new_span_ok s L U n (NewSpan_split s i npage)"
proof -
  let ?h = "pc_spans s"
  let ?F = "free_spans L"
  let ?H = "pc_heads s ` {..<129}"
  have b: "buckets_ok sl_rep ?h (pc_heads s) L 129" and lay: "layout_ok ?h (?F \<union> U)"
    and m: "map_ok ?h (pc_map s) ?F U N" and fl: "flags_ok ?h L U" and HU: "?H \<inter> U = {}"
    and F: "?F \<inter> U = {}" and pl: "pool_inv (op_rep SPAN_SIZE) (pc_pool s) (?H \<union> ?F \<union> U)"
    using inv by (simp_all add: pc_inv_def)
  have i: "i < 129" and ij: "i - n < 129" "i - n \<noteq> i"
    using n by auto
  have yF: "y \<in> ?F"
    using L i by (intro free_spansI [of i]) auto
  have yn: "np ?h y = i"
    using fl L i by (auto simp: flags_ok_def)
  have yb: "lo ?h y + np ?h y \<le> 1125899906842624"
    using layout_bounds [OF lay] yF by auto
  obtain k pool' where k: "op_New SPAN_SIZE (pc_pool s) = Inr (k, pool')" "k \<noteq> nullptr"
      "k \<notin> ?H \<union> ?F \<union> U" "pool_inv (op_rep SPAN_SIZE) pool' (insert k (?H \<union> ?F \<union> U))"
      "op_rep SPAN_SIZE pool' (tl xs)"
    using pool_New_avail [OF pl pool] by blast
  note ks = pool_slots_new [OF pool(1) k(5,1)]
  have ky: "k \<noteq> y" "k \<notin> ?H \<union> ?F"
    using k(3) yF by auto
  obtain h1 h4 where h1: "sl_Pop_Front (span_clear ?h k) (pc_heads s i) = Inr (y, h1)"
      "same_data (insert (pc_heads s i) (set (L i))) (span_clear ?h k) h1"
    and h4: "sl_Push_Front (set_range (set_range h1 k (s_page_id ?h y) npage) y
        (s_page_id ?h y + npage) (s_npage ?h y - npage)) (pc_heads s (i - n)) y = Inr h4"
      "same_data (insert y (insert (pc_heads s (i - n)) (set (L (i - n))))) (set_range (set_range h1 k (s_page_id ?h y) npage) y
        (s_page_id ?h y + npage) (s_npage ?h y - npage)) h4"
      "buckets_ok sl_rep h4 (pc_heads s) (L(i := ys, i - n := y # L (i - n))) 129"
    using buckets_pop_push [OF b i ij(1) L ij(2) ky(2)] by blast
  let ?L = "L(i := ys, i - n := y # L (i - n))"
  note d1 = same_data_simps(1-8) [OF h1(2), simplified]
  note d4 = same_data_simps(1-8) [OF h4(2), simplified, unfolded d1]
  have un: "unat (s_npage ?h y - npage) = i - n" "unat (s_page_id ?h y + npage) = lo ?h y + n"
    using yn yb n by (simp_all add: np_def lo_def unat_simps)
  have h4r: "lo h4 k = lo ?h y" "np h4 k = n" "lo h4 y = lo ?h y + n" "np h4 y = i - n"
    "\<And>x. x \<noteq> y \<Longrightarrow> x \<noteq> k \<Longrightarrow> lo h4 x = lo ?h x \<and> np h4 x = np ?h x"
    using ky(1) un n(4) by (simp_all add: d4 lo_def)
  have lay4: "layout_ok h4 (insert k (?F \<union> U))"
    by (rule layout_cut [where h = ?h and y = y, OF lay _ _ h4r(5)]) (use yF k(3) h4r yn n in auto)
  have y4: "lo h4 y + np h4 y \<le> 1125899906842624" "1 \<le> np h4 y"
    using h4r yb yn n by auto
  obtain m1 m2 where m2: "pm_set (pc_map s) (s_page_id h4 y) y = Inr m1"
      "pm_set m1 (s_page_id h4 y + s_npage h4 y - 1) y = Inr m2"
      "\<And>p. pm_get m2 p = (if at_end h4 y p then y else pm_get (pc_map s) p)"
    using set2_get [OF y4] by blast
  have ro: "range_ok (s_page_id h4 k) n"
    using h4r yb yn n by (simp add: range_ok_def lo_def)
  obtain m3 where m3: "iter_set pm_set m2 (s_page_id h4 k) n k = Inr m3"
      "\<And>p. pm_get m3 p = (if in_range (s_page_id h4 k) n p then k else pm_get m2 p)"
    using pm.iter_set_ex [OF ro] by blast
  have g: "pm_get m3 p = (if owns h4 k p then k else if at_end h4 y p then y else pm_get (pc_map s) p)" for p
    using h4r(2) by (simp add: m3(2) m2(3) owns_in_range np_def)
  let ?s' = "s\<lparr>pc_pool := pool', pc_spans := h4, pc_map := m3\<rparr>"
  have r: "NewSpan_split s i npage = Inr (k, ?s')"
    using k(1) h1(1) h4(1) m2(1,2) m3(1) n(4) un(1) ky(1)
    by (simp add: NewSpan_split_def Let_def d1)
  have yL: "y \<notin> set ys" "y \<notin> set (L l)" if "l < 129" "l \<noteq> i" for l
    using sl.buckets_distinct(1) [OF b i] b that L i unfolding buckets_ok_def by auto
  have yys: "y \<notin> set ys"
    using sl.buckets_distinct(1) [OF b i] L by auto
  have fs: "free_spans ?L = ?F"
  proof -
    have "free_spans ((L(i := ys))(i - n := y # (L(i := ys)) (i - n))) = insert y (free_spans (L(i := ys)))"
      by (rule free_spans_push [OF ij(1)])
    moreover have "free_spans (L(i := ys)) = ?F - {y}"
      using free_spans_remove [OF b i, of y] L by simp
    ultimately show ?thesis
      using ij yF by auto
  qed
  have mk: "map_ok h4 m3 ?F (insert k U) {}"
    using h4r yn n
    by (intro map_ok_cut [OF m lay _ yF N _ F h4r(5) _ _ _ g]) (use lay4 k(3) in auto)
  have fl4: "np h4 z = l \<and> \<not> s_is_used h4 z \<and> z \<noteq> k" if "l < 129" "z \<in> set (?L l)" for l z
  proof (rule flags_cut [where y = y, OF fl L ij(1) i ij(2) _ _ h4r(4) _ that(2,1) yys])
    show "s_is_used h4 = (s_is_used ?h)(k := False)"
      by (rule d4)
  qed (use h4r(5) ky yL(2) in auto)
  have fu: "s_is_used h4 u" if "u \<in> U" "u \<noteq> k" for u
    using fl that by (auto simp: flags_ok_def d4)
  have "flags_ok (pc_spans (mark_used ?s' k)) ?L (insert k U)"
    unfolding flags_mark_used using fl4 fu by simp
  then have "pc_inv (mark_used ?s' k) ?L (insert k U) {} {}"
    unfolding pc_inv_def fs using h4(3) k F HU lay4 mk by (intro conjI) (simp_all add: Un_assoc)
  moreover have "lo h4 u = lo ?h u \<and> np h4 u = np ?h u" if "u \<in> U" for u
    using that F yF k(3) by (intro h4r(5)) auto
  moreover have "frame_out (pc_foot s L) ?h h4"
  proof -
    have kf: "k \<in> pc_foot s L" "y \<in> pc_foot s L"
      using ks(1) yF by (simp_all add: pc_foot_def)
    have "frame_out (pc_foot s L) (span_clear ?h k) h1"
      using foot_bucket [OF i, of s L] by (intro frame_out_mono [OF frame_out_same_data [OF h1(2)]])
    moreover have "frame_out (pc_foot s L) (set_range (set_range h1 k (s_page_id ?h y) npage) y
        (s_page_id ?h y + npage) (s_npage ?h y - npage)) h4"
      using foot_bucket [OF ij(1), of s L] kf(2)
      by (intro frame_out_mono [OF frame_out_same_data [OF h4(2)]]) simp
    ultimately show ?thesis
      using kf by (meson frame_out_set_range frame_out_span_clear frame_out_trans)
  qed
  moreover have "insert k (pc_foot ?s' ?L) \<subseteq> pc_foot s L"
    using ks by (auto simp: pc_foot_def fs simp del: fun_upd_apply)
  ultimately show ?thesis
    using r h4r(2) k(3) unfolding new_span_ok_def
    by (intro exI [of _ k] exI [of _ ?s'] exI [of _ ?L] conjI) auto
qed

text \<open>What the code relies on of \<open>mmap\<close>: the region it returns overlaps none in use, lies in the
  user half of the address space, and, which the code does not check, starts on a page of 8192 bytes.\<close>

definition fresh_pages :: "span_heap \<Rightarrow> addr set \<Rightarrow> addr \<Rightarrow> nat \<Rightarrow> bool" where
  "fresh_pages h A ptr n \<longleftrightarrow>
     ptr \<noteq> MAP_FAILED \<and> 8192 \<le> unat ptr \<and> 8192 dvd unat ptr \<and> unat ptr div 8192 + n \<le> 1125899906842624 \<and>
     (\<forall>x \<in> A. lo h x + np h x \<le> unat ptr div 8192 \<or> unat ptr div 8192 + n \<le> lo h x)"

lemma layout_insert:
  assumes "layout_ok h A" "k \<notin> A" "\<And>x. x \<noteq> k \<Longrightarrow> lo h' x = lo h x \<and> np h' x = np h x"
    and "1 \<le> np h' k" "lo h' k + np h' k \<le> 1125899906842624" "1 \<le> lo h' k"
    and "\<And>x. x \<in> A \<Longrightarrow> lo h x + np h x \<le> lo h' k \<or> lo h' k + np h' k \<le> lo h x"
  shows "layout_ok h' (insert k A)"
proof -
  have n: "x \<noteq> k" if "x \<in> A" for x
    using assms(2) that by auto
  have "lo h' x + np h' x \<le> lo h' y \<or> lo h' y + np h' y \<le> lo h' x"
    if "x \<in> insert k A" "y \<in> insert k A" "x \<noteq> y" for x y
  proof (cases "x = k \<or> y = k")
    case True
    then show ?thesis
      using that assms(3,7) n by fastforce
  next
    case False
    then show ?thesis
      using that assms(3) layout_apart [OF assms(1), of x y] by auto
  qed
  moreover have "1 \<le> lo h' x \<and> 1 \<le> np h' x \<and> lo h' x + np h' x \<le> 1125899906842624" if "x \<in> insert k A" for x
    using that assms(3-6) layout_bounds [OF assms(1), of x] by (cases "x = k") auto
  ultimately show ?thesis
    unfolding layout_ok_def by blast
qed

lemma map_ok_frame:
  assumes "map_ok h m F U N" "N \<subseteq> N'"
    and "\<And>x. x \<in> F \<union> U \<Longrightarrow> lo h' x = lo h x \<and> np h' x = np h x" "F \<subseteq> F'" "F' - N' \<subseteq> F"
  shows "map_ok h' m F' U N'"
proof -
  have o: "owns h' x p = owns h x p" "at_end h' x p = at_end h x p" if "x \<in> F \<union> U" for x p
    using assms(3) [OF that] by (simp_all add: owns_def at_end_def)
  have "pm_get m p = u" if "u \<in> U" "owns h' u p" for u p
    using assms(1) that o unfolding map_ok_def by blast
  moreover have "pm_get m p = x" if "x \<in> F' - N'" "at_end h' x p" for x p
    using assms(1,2,5) that o unfolding map_ok_def by blast
  moreover have "(pm_get m p \<in> U \<and> owns h' (pm_get m p) p) \<or> (pm_get m p \<in> F' \<and> at_end h' (pm_get m p) p)"
    if "pm_get m p \<noteq> nullptr" for p
    using assms(1,4) that o unfolding map_ok_def by blast
  ultimately show ?thesis
    unfolding map_ok_def by blast
qed

lemma NewSpan_refill_ok:
  assumes inv: "pc_inv s L U {} {}"
    and pool: "op_rep SPAN_SIZE (pc_pool s) xs" "1 \<le> length xs"
    and mm: "pc_mmaps s = ptr # rest" "fresh_pages (pc_spans s) (free_spans L \<union> U) ptr 129"
  obtains f s' where "NewSpan_refill s = Inr s'" "pc_inv s' (L(128 := f # L 128)) U {} {f}"
    "pc_heads s' = pc_heads s" "pc_mmaps s' = rest" "op_rep SPAN_SIZE (pc_pool s') (tl xs)"
    "\<And>u. u \<in> U \<Longrightarrow> lo (pc_spans s') u = lo (pc_spans s) u \<and> np (pc_spans s') u = np (pc_spans s) u"
    "frame_out (pc_foot s L) (pc_spans s) (pc_spans s')" "pc_foot s' (L(128 := f # L 128)) \<subseteq> pc_foot s L"
proof -
  let ?h = "pc_spans s"
  let ?F = "free_spans L"
  let ?H = "pc_heads s ` {..<129}"
  have b: "buckets_ok sl_rep ?h (pc_heads s) L 129" and lay: "layout_ok ?h (?F \<union> U)"
    and m: "map_ok ?h (pc_map s) ?F U {}" and fl: "flags_ok ?h L U" and HU: "?H \<inter> U = {}"
    and F: "?F \<inter> U = {}" and pl: "pool_inv (op_rep SPAN_SIZE) (pc_pool s) (?H \<union> ?F \<union> U)"
    using inv by (simp_all add: pc_inv_def)
  obtain k pool' where k: "op_New SPAN_SIZE (pc_pool s) = Inr (k, pool')" "k \<noteq> nullptr"
      "k \<notin> ?H \<union> ?F \<union> U" "pool_inv (op_rep SPAN_SIZE) pool' (insert k (?H \<union> ?F \<union> U))"
      "op_rep SPAN_SIZE pool' (tl xs)"
    using pool_New_avail [OF pl pool] by blast
  let ?h1 = "set_range (span_clear ?h k) k (drop_bit PAGE_SHIFT ptr) 128"
  have b1: "buckets_ok sl_rep ?h1 (pc_heads s) L 129"
    using buckets_cong [of ?h1 "span_clear ?h k"] buckets_span_clear [OF b] k(3) by simp
  have "k \<notin> insert (pc_heads s j) (set (L j))" if "j < 129" for j
    using k(3) that free_spansI [of j k L] by auto
  then obtain h4 where h4: "sl_Push_Front ?h1 (pc_heads s 128) k = Inr h4"
      "same_data (insert k (insert (pc_heads s 128) (set (L 128)))) ?h1 h4"
      "buckets_ok sl_rep h4 (pc_heads s) (L(128 := k # L 128)) 129"
    using sl.push_front_buckets [OF b1 _ k(2), of 128] by auto
  note d = same_data_simps(1-8) [OF h4(2), simplified]
  let ?s' = "s\<lparr>pc_mmaps := rest, pc_pool := pool', pc_spans := h4\<rparr>"
  have "NewSpan_refill s = Inr ?s'"
    using k(1) mm h4(1)
    by (simp add: NewSpan_refill_def SystemAlloc_def fresh_pages_def Let_def NPAGE_LISTS_def)
  moreover have o: "lo h4 x = lo ?h x \<and> np h4 x = np ?h x" if "x \<noteq> k" for x
    using that by (simp add: d)
  moreover have "pc_inv ?s' (L(128 := k # L 128)) U {} {k}"
  proof -
    have fs: "free_spans (L(128 := k # L 128)) = insert k ?F"
      by (rule free_spans_push) simp
    have lk: "lo h4 k = unat ptr div 8192" "np h4 k = 128"
      by (simp_all add: d PAGE_SHIFT_def unat_drop_bit_u64)
    have "layout_ok h4 (insert k (?F \<union> U))"
    proof (rule layout_insert [OF lay _ o])
      show "lo ?h x + np ?h x \<le> lo h4 k \<or> lo h4 k + np h4 k \<le> lo ?h x" if "x \<in> ?F \<union> U" for x
        using mm(2) that lk by (fastforce simp: fresh_pages_def)
    qed (use k(3) mm(2) lk in \<open>auto simp: fresh_pages_def\<close>)
    moreover have "map_ok h4 (pc_map s) (insert k ?F) U {k}"
    proof (rule map_ok_frame [OF m])
      show "lo h4 x = lo ?h x \<and> np h4 x = np ?h x" if "x \<in> ?F \<union> U" for x
        using that k(3) by (intro o) auto
    qed auto
    moreover have "np h4 z = l \<and> \<not> s_is_used h4 z" if "l < 129" "z \<in> set ((L(128 := k # L 128)) l)" for l z
    proof (cases "z = k")
      case True
      then have "l = 128"
        using that k(3) free_spansI [of l k L] by (auto split: if_splits)
      then show ?thesis using lk True d by simp
    next
      case False
      then have "z \<in> set (L l)"
        using that by (auto split: if_splits)
      then show ?thesis using that fl False by (auto simp: flags_ok_def d)
    qed
    moreover have "s_is_used h4 u" if "u \<in> U" for u
      using that fl k(3) by (auto simp: flags_ok_def d)
    ultimately show ?thesis
      unfolding pc_inv_def fs flags_ok_def using h4(3) k F HU by (intro conjI) (simp_all add: Un_assoc)
  qed
  moreover have "lo h4 u = lo ?h u \<and> np h4 u = np ?h u" if "u \<in> U" for u
    using that k(3) by (intro o) auto
  moreover have "frame_out (pc_foot s L) ?h h4"
  proof -
    have kf: "k \<in> pc_foot s L"
      using pool_slots_new [OF pool(1) k(5,1)] by (simp add: pc_foot_def)
    have "frame_out (pc_foot s L) ?h1 h4"
      using foot_bucket [of 128 s L] kf by (intro frame_out_mono [OF frame_out_same_data [OF h4(2)]]) simp
    then show ?thesis
      using kf by (meson frame_out_set_range frame_out_span_clear frame_out_trans)
  qed
  moreover have "pc_foot ?s' (L(128 := k # L 128)) \<subseteq> pc_foot s L"
    using pool_slots_new [OF pool(1) k(5,1)] free_spans_push [where i = 128 and x = k and L = L] by (auto simp: pc_foot_def)
  ultimately show thesis
    using that [of ?s' k] k(5) by simp
qed

lemma find_bucket_Some:
  assumes "find_bucket s i = Some j"
  shows "i \<le> j \<and> j < 129 \<and> \<not> sl_Empty (pc_spans s) (pc_heads s j) \<and>
    (\<forall>l. i \<le> l \<and> l < j \<longrightarrow> sl_Empty (pc_spans s) (pc_heads s l))"
  using assms
proof (induction s i rule: find_bucket.induct)
  case (1 s i)
  show ?case
  proof (cases "i < 129 \<and> sl_Empty (pc_spans s) (pc_heads s i)")
    case True
    then have "Suc i \<le> j \<and> j < 129 \<and> \<not> sl_Empty (pc_spans s) (pc_heads s j) \<and>
        (\<forall>l. Suc i \<le> l \<and> l < j \<longrightarrow> sl_Empty (pc_spans s) (pc_heads s l))"
      using 1 find_bucket.simps [of s i] by (simp add: NPAGE_LISTS_def)
    then show ?thesis
      using True by (metis Suc_leI le_neq_implies_less le_trans lessI less_imp_le)
  next
    case False
    then show ?thesis
      using 1(2) find_bucket.simps [of s i] by (auto simp: NPAGE_LISTS_def split: if_splits)
  qed
qed

lemma find_bucket_None:
  assumes "find_bucket s i = None" "i \<le> l" "l < 129"
  shows "sl_Empty (pc_spans s) (pc_heads s l)"
  using assms
proof (induction s i rule: find_bucket.induct)
  case (1 s i)
  then have i: "i < 129" "sl_Empty (pc_spans s) (pc_heads s i)" "find_bucket s (Suc i) = None"
    using find_bucket.simps [of s i] by (auto simp: NPAGE_LISTS_def split: if_splits)
  then show ?case
    using 1 by (cases "l = i") (auto simp: NPAGE_LISTS_def)
qed

lemma NewSpan_nonempty:
  assumes inv: "pc_inv s L U {} N" and n: "1 \<le> n" "n \<le> 128" "unat npage = n"
    and pool: "op_rep SPAN_SIZE (pc_pool s) xs" "1 \<le> length xs"
    and j: "n \<le> j" "j < 129" "L j \<noteq> []" and N: "\<And>i. n \<le> i \<Longrightarrow> i < 129 \<Longrightarrow> L i \<noteq> [] \<Longrightarrow> N \<subseteq> {hd (L i)}"
  shows "new_span_ok s L U n (NewSpan_rec (Suc fuel) s npage)"
proof -
  have b: "buckets_ok sl_rep (pc_spans s) (pc_heads s) L 129"
    using inv by (simp add: pc_inv_def)
  have small: "\<not> npage > NPAGE_LISTS - 1"
    using n by (simp add: word_less_nat_alt NPAGE_LISTS_def)
  show ?thesis
  proof (cases "L n = []")
    case False
    then obtain y ys where "L n = y # ys"
      by (cases "L n") auto
    then show ?thesis
      using NewSpan_pop_ok [OF inv n(2,3)] N [of n] n small False Empty_buckets [OF b, of n] by simp
  next
    case True
    then have "find_bucket s (Suc n) \<noteq> None"
      using find_bucket_None [of s "Suc n" j] Empty_buckets [OF b j(2)] j by (cases "n = j") auto
    then obtain i where i: "find_bucket s (Suc n) = Some i" by auto
    then have i': "n < i" "i \<le> 128" "L i \<noteq> []"
      using find_bucket_Some [OF i] Empty_buckets [OF b, of i] by auto
    then obtain y ys where "L i = y # ys"
      by (cases "L i") auto
    then show ?thesis
      using NewSpan_split_ok [OF inv n(1) i'(1,2) n(3)] N [of i] i' i n small True pool
        Empty_buckets [OF b, of n] by simp
  qed
qed

lemma NewSpan_ok:
  assumes inv: "pc_inv s L U {} {}" and n: "1 \<le> n" "n \<le> 128" "unat npage = n"
    and pool: "op_rep SPAN_SIZE (pc_pool s) xs" "2 \<le> length xs"
    and mm: "(\<forall>l. n \<le> l \<and> l < 129 \<longrightarrow> L l = []) \<Longrightarrow>
      pc_mmaps s = ptr # rest \<and> fresh_pages (pc_spans s) (free_spans L \<union> U) ptr 129"
  shows "new_span_ok s L U n (NewSpan s npage)"
proof (cases "\<exists>l. n \<le> l \<and> l < 129 \<and> L l \<noteq> []")
  case True
  then obtain j where "n \<le> j" "j < 129" "L j \<noteq> []" by blast
  then show ?thesis
    unfolding NewSpan_def walk_fuel_Suc
    using pool(2) by (intro NewSpan_nonempty [OF inv n pool(1)]) auto
next
  case False
  then have mm': "pc_mmaps s = ptr # rest" "fresh_pages (pc_spans s) (free_spans L \<union> U) ptr 129"
    using mm by auto
  have "1 \<le> length xs"
    using pool(2) by simp
  from NewSpan_refill_ok [OF inv pool(1) this mm']
  obtain f s' where f: "NewSpan_refill s = Inr s'" "pc_inv s' (L(128 := f # L 128)) U {} {f}"
      "pc_heads s' = pc_heads s" "op_rep SPAN_SIZE (pc_pool s') (tl xs)"
      "\<And>u. u \<in> U \<Longrightarrow> lo (pc_spans s') u = lo (pc_spans s) u \<and> np (pc_spans s') u = np (pc_spans s) u"
      "frame_out (pc_foot s L) (pc_spans s) (pc_spans s')" "pc_foot s' (L(128 := f # L 128)) \<subseteq> pc_foot s L"
    by metis
  have b: "buckets_ok sl_rep (pc_spans s) (pc_heads s) L 129"
    using inv by (simp add: pc_inv_def)
  have "sl_Empty (pc_spans s) (pc_heads s n)"
    using False n Empty_buckets [OF b, of n] by auto
  moreover have "find_bucket s (Suc n) = None"
  proof (rule ccontr)
    assume "find_bucket s (Suc n) \<noteq> None"
    then obtain i where i: "find_bucket s (Suc n) = Some i" by auto
    show False
      using find_bucket_Some [OF i] Empty_buckets [OF b, of i] False by auto
  qed
  moreover have "\<not> npage > NPAGE_LISTS - 1"
    using n by (simp add: word_less_nat_alt NPAGE_LISTS_def)
  moreover have "new_span_ok s' (L(128 := f # L 128)) U n (NewSpan_rec (Suc 18446744073709551614) s' npage)"
  proof (rule NewSpan_nonempty [OF f(2) n f(4)])
    show "{f} \<subseteq> {hd ((L(128 := f # L 128)) i)}"
      if "n \<le> i" "i < 129" "(L(128 := f # L 128)) i \<noteq> []" for i
      using False that by (cases "i = 128") auto
  qed (use n pool(2) in auto)
  ultimately have "NewSpan s npage = NewSpan_rec (Suc 18446744073709551614) s' npage"
    and ok: "new_span_ok s' (L(128 := f # L 128)) U n (NewSpan_rec (Suc 18446744073709551614) s' npage)"
    using f(1) n(3) unfolding NewSpan_def walk_fuel_Suc NewSpan_rec.simps(2) [of 18446744073709551615] by simp_all
  then obtain x s2 L2 where x: "NewSpan s npage = Inr (x, s2)" "x \<notin> U" "np (pc_spans s2) x = n"
      "pc_inv (mark_used s2 x) L2 (insert x U) {} {}" "pc_heads s2 = pc_heads s'"
      "\<forall>u \<in> U. lo (pc_spans s2) u = lo (pc_spans s') u \<and> np (pc_spans s2) u = np (pc_spans s') u"
      "frame_out (pc_foot s' (L(128 := f # L 128))) (pc_spans s') (pc_spans s2)"
      "insert x (pc_foot s2 L2) \<subseteq> pc_foot s' (L(128 := f # L 128))"
    unfolding new_span_ok_def by auto
  have "frame_out (pc_foot s L) (pc_spans s) (pc_spans s2)"
    using f(6) frame_out_mono [OF x(7) f(7)] by (rule frame_out_trans)
  moreover have "insert x (pc_foot s2 L2) \<subseteq> pc_foot s L"
    using x(8) f(7) by (rule subset_trans)
  ultimately show ?thesis
    unfolding new_span_ok_def using x(1-6) f(3,5)
    by (intro exI [of _ x] exI [of _ s2] exI [of _ L2] conjI) auto
qed

section \<open>The page cache as it starts\<close>

text \<open>Empty lists, no page mapped, no span structure carved yet. \<open>heads\<close> are the addresses of the
  129 sentinels, \<open>mallocs\<close> and \<open>mmaps\<close> what the platform will return.\<close>

definition pc_new :: "(nat \<Rightarrow> addr) \<Rightarrow> addr list \<Rightarrow> addr list \<Rightarrow> (addr \<Rightarrow> u64 \<Rightarrow> bool) \<Rightarrow> pcache" where
  "pc_new heads mallocs mmaps ok = \<lparr>pc_heads = heads,
     pc_spans = \<lparr>s_page_id = (\<lambda>_. 0), s_npage = (\<lambda>_. 0), s_free_lists = (\<lambda>_. nullptr),
       s_prev = id, s_next = id, s_use_count = (\<lambda>_. 0), s_obj_size = (\<lambda>_. 0), s_is_used = (\<lambda>_. False)\<rparr>,
     pc_pool = op_new mallocs, pc_map = pm_new, pc_mmaps = mmaps, pc_munmap_ok = ok\<rparr>"

lemma op_new_rep:
  assumes "nullptr \<notin> set mallocs"
  shows "op_rep sz (op_new mallocs) (concat (map (\<lambda>b. slots b (obj_size sz)
    (unat (block_size sz) div unat (obj_size sz))) mallocs))"
  using assms by (simp add: op_rep_def op_new_def)

lemma pc_new_inv:
  assumes b: "blocks_ok (unat (block_size SPAN_SIZE)) mallocs" and i: "inj_on heads {..<129}"
    and h: "\<And>i j m. i < 129 \<Longrightarrow> m \<in> set mallocs \<Longrightarrow> unat (heads i) + 1 \<le> unat m" "\<And>i. i < 129 \<Longrightarrow> heads i \<noteq> nullptr"
  shows "pc_inv (pc_new heads mallocs mmaps ok) (\<lambda>_. []) {} {} {}"
proof -
  have fs: "free_spans (\<lambda>_. []) = {}"
    by (simp add: free_spans_def)
  let ?xs = "concat (map (\<lambda>b. slots b (obj_size SPAN_SIZE)
    (unat (block_size SPAN_SIZE) div unat (obj_size SPAN_SIZE))) mallocs)"
  have "nullptr \<notin> set mallocs"
    using b by (auto simp: blocks_ok_def)
  then have r: "op_rep SPAN_SIZE (op_new mallocs) ?xs"
    by (rule op_new_rep)
  have z: "obj_size SPAN_SIZE = 64" "block_size SPAN_SIZE = 4096"
    by (simp_all add: obj_size_def block_size_def SPAN_SIZE_def)
  have d: "distinct ?xs" "nullptr \<notin> set ?xs"
    using distinct_block_slots [OF b, of "unat (block_size SPAN_SIZE) div unat (obj_size SPAN_SIZE)" "obj_size SPAN_SIZE"]
    by (simp_all add: z)
  have "heads i \<notin> set ?xs" if i: "i < 129" for i
  proof
    assume "heads i \<in> set ?xs"
    then obtain m where m: "m \<in> set mallocs" "heads i \<in> set (slots m 64 64)"
      by (auto simp: z)
    then have "unat m + 64 * unat (64 :: u64) < 18446744073709551616"
      using b by (auto simp: blocks_ok_def z)
    then have "unat m \<le> unat (heads i)"
      using slots_in_block(1) [OF _ m(2)] by simp
    then show False
      using h(1) [OF i m(1)] by simp
  qed
  then have "pool_inv (op_rep SPAN_SIZE) (op_new mallocs) (heads ` {..<129})"
    unfolding pool_inv_def using r d h(2) by (intro exI [of _ ?xs] conjI) fastforce+
  moreover have "buckets_ok sl_rep (pc_spans (pc_new heads mallocs mmaps ok)) heads (\<lambda>_. []) 129"
    using h(2) i by (auto simp: buckets_ok_def sl_rep_def ring_def pc_new_def inj_on_def)
  ultimately show ?thesis
    by (simp add: pc_inv_def fs flags_ok_def layout_ok_def map_ok_def pc_new_def)
qed

text \<open>A concrete start: sentinels at \<open>64 * (i + 1)\<close>, one block for the span structures, and one
  region of the system at 4 GiB.\<close>

definition pc_demo :: pcache where
  "pc_demo = pc_new (\<lambda>i. of_nat (64 * (i + 1))) [1048576] [4294967296] (\<lambda>_ _. True)"

lemma pc_demo_facts:
  "pc_inv pc_demo (\<lambda>_. []) {} {} {}"
  "pc_mmaps pc_demo = [4294967296]" "fresh_pages (pc_spans pc_demo) {} 4294967296 129"
  "op_rep SPAN_SIZE (pc_pool pc_demo) (slots 1048576 64 64)"
proof -
  have u: "unat (of_nat (64 * (i + 1)) :: u64) = 64 * (i + 1)" if "i < 129" for i
    using that by (intro unat_of_nat_small) simp
  have z: "obj_size SPAN_SIZE = 64" "block_size SPAN_SIZE = 4096"
    by (simp_all add: obj_size_def block_size_def SPAN_SIZE_def)
  show "pc_inv pc_demo (\<lambda>_. []) {} {} {}"
    unfolding pc_demo_def
  proof (rule pc_new_inv)
    show "blocks_ok (unat (block_size SPAN_SIZE)) [1048576]"
      by (simp add: blocks_ok_def z)
    show "inj_on (\<lambda>i. of_nat (64 * (i + 1)) :: u64) {..<129}"
    proof (rule inj_onI)
      fix i j :: nat
      assume a: "i \<in> {..<129}" "j \<in> {..<129}" "(of_nat (64 * (i + 1)) :: u64) = of_nat (64 * (j + 1))"
      then show "i = j"
        using u [of i] u [of j] by simp
    qed
    show "unat (of_nat (64 * (i + 1)) :: u64) + 1 \<le> unat m" if "i < 129" "m \<in> set [1048576]" for i and m :: u64
      using u [OF that(1)] that by simp
    show "(of_nat (64 * (i + 1)) :: u64) \<noteq> nullptr" if "i < 129" for i
      using u [OF that] by (metis add_gr_0 mult_pos_pos less_numeral_extra(1) unat_0 zero_less_numeral less_irrefl)
  qed
  show "op_rep SPAN_SIZE (pc_pool pc_demo) (slots 1048576 64 64)"
    using op_new_rep [of "[1048576]" SPAN_SIZE] by (simp add: pc_demo_def pc_new_def z)
qed (auto simp: pc_demo_def pc_new_def fresh_pages_def MAP_FAILED_def)

section \<open>Properties\<close>

text \<open>C3: \<open>NewSpan\<close> for 1 to 128 pages returns a span of exactly that many pages that was not in
  use. Its pages overlap no other span's, every one of them is mapped to it, and once the caller
  has marked it used the invariant of the page cache holds again: the free lists are intact rings
  of unused spans filed under their sizes, the ends of every free span are mapped, nothing else
  is, and the spans in use kept their pages. The system is asked for pages only where no list
  from \<open>n\<close> on has a span.\<close>

theorem NewSpan_correct:
  assumes "pc_inv s L U {} {}" "1 \<le> n" "n \<le> 128" "unat npage = n"
    and "op_rep SPAN_SIZE (pc_pool s) xs" "2 \<le> length xs"
    and "(\<forall>l. n \<le> l \<and> l < 129 \<longrightarrow> L l = []) \<Longrightarrow>
      pc_mmaps s = ptr # rest \<and> fresh_pages (pc_spans s) (free_spans L \<union> U) ptr 129"
  shows "new_span_ok s L U n (NewSpan s npage)"
  using assms by (rule NewSpan_ok)

lemma NewSpan_correct_witness:
  "new_span_ok pc_demo (\<lambda>_. []) {} 3 (NewSpan pc_demo 3)"
  by (rule NewSpan_correct [where ptr = 4294967296 and rest = "[]", OF pc_demo_facts(1) _ _ _ pc_demo_facts(4)])
    (simp_all add: pc_demo_facts(2,3) free_spans_def)

end
