(* ===== verification/Page_Cache_Release.thy ===== *)
theory Page_Cache_Release
  imports Page_Cache_Inv
begin

text \<open>
  \<open>PageCache::ReleaseSpanToPageCache\<close>: a returned span is merged with its free neighbours as
  long as the result has 128 pages at most, keeps the invariant of the page cache, and ends
  with no free neighbour it could still be merged with.
\<close>

section \<open>\<open>ReleaseSpanToPageCache\<close>\<close>

definition pages :: "span_heap \<Rightarrow> addr set \<Rightarrow> nat set" where
  "pages h A = (\<Union>x \<in> A. {lo h x..<lo h x + np h x})"

lemma pages_cong:
  "(\<And>x. x \<in> A \<Longrightarrow> lo h' x = lo h x \<and> np h' x = np h x) \<Longrightarrow> pages h' A = pages h A"
  by (simp add: pages_def)

text \<open>The free span \<open>y\<close> next to \<open>x\<close> becomes part of \<open>x\<close>.\<close>

lemma layout_join:
  assumes l: "layout_ok h A" and x: "x \<in> A" and y: "y \<in> A" "x \<noteq> y"
    and o: "\<And>z. z \<noteq> x \<Longrightarrow> lo h' z = lo h z \<and> np h' z = np h z"
    and n: "np h' x = np h x + np h y"
    and c: "(lo h' x = lo h y \<and> lo h y + np h y = lo h x) \<or> (lo h' x = lo h x \<and> lo h x + np h x = lo h y)"
  shows "layout_ok h' (A - {y})" "pages h' (A - {y}) = pages h A"
proof -
  have "1 \<le> lo h' z \<and> 1 \<le> np h' z \<and> lo h' z + np h' z \<le> 1125899906842624" if "z \<in> A - {y}" for z
    using that layout_bounds [OF l x] layout_bounds [OF l y(1)] layout_bounds [OF l, of z] o n c
    by (cases "z = x") auto
  moreover have "lo h' z + np h' z \<le> lo h' w \<or> lo h' w + np h' w \<le> lo h' z"
    if zw: "z \<in> A - {y}" "w \<in> A - {y}" "z \<noteq> w" for z w
  proof -
    have x': "lo h' x + np h' x \<le> lo h v \<or> lo h v + np h v \<le> lo h' x" if "v \<in> A" "v \<noteq> x" "v \<noteq> y" for v
      using layout_apart [OF l x, of v] layout_apart [OF l y(1), of v] layout_bounds(1) [OF l]
        that n c by fastforce
    show ?thesis
      using zw x' o layout_apart [OF l, of z w] by (cases "z = x"; cases "w = x") auto
  qed
  ultimately show "layout_ok h' (A - {y})"
    unfolding layout_ok_def by blast
  have "{lo h' x..<lo h' x + np h' x} = {lo h x..<lo h x + np h x} \<union> {lo h y..<lo h y + np h y}"
    using c n by auto
  moreover have "pages h' (A - {y}) = {lo h' x..<lo h' x + np h' x} \<union> pages h' (A - {x, y})"
    using x y(2) by (auto simp: pages_def)
  moreover have "pages h' (A - {x, y}) = pages h (A - {x, y})"
    using o by (intro pages_cong) auto
  ultimately show "pages h' (A - {y}) = pages h A"
    using x y by (auto simp: pages_def)
qed

lemma map_ok_drop:
  assumes m: "map_ok h m F U {}" and l: "layout_ok h (F \<union> U)" and y: "y \<in> F" and F: "F \<inter> U = {}"
    and g: "\<And>p. pm_get m' p = (if at_end h y p then nullptr else pm_get m p)"
    and o: "\<And>z. z \<in> F \<union> U \<Longrightarrow> lo h' z = lo h z \<and> np h' z = np h z"
  shows "map_ok h' m' (F - {y}) U {}"
proof -
  have oo: "owns h' x p = owns h x p" "at_end h' x p = at_end h x p" if "x \<in> F \<union> U" for x p
    using o [OF that] by (simp_all add: owns_def at_end_def)
  have y1: "1 \<le> np h y"
    using layout_bounds [OF l] y by auto
  have ne: "\<not> at_end h y p" if "owns h x p" "x \<in> F \<union> U" "x \<noteq> y" for x p
    using owns_unique [OF l that(2) _ that(1)] at_end_owns [OF y1] y that(3) by blast
  have ow: "owns h x p" if "x \<in> F" "at_end h x p" for x p
    using at_end_owns layout_bounds(1) [OF l] that by blast
  have "pm_get m' p = u" if "u \<in> U" "owns h' u p" for u p
  proof -
    have u: "u \<noteq> y" "owns h u p"
      using that oo y F by auto
    then have "\<not> at_end h y p"
      using ne that by blast
    then show ?thesis
      using that u m by (simp add: g map_ok_def)
  qed
  moreover have "pm_get m' p = x" if "x \<in> F - {y} - {}" "at_end h' x p" for x p
  proof -
    have x: "x \<in> F" "x \<noteq> y" "at_end h x p"
      using that oo by auto
    then have "\<not> at_end h y p"
      using ne ow by blast
    then show ?thesis
      using x m by (simp add: g map_ok_def)
  qed
  moreover have "(pm_get m' p \<in> U \<and> owns h' (pm_get m' p) p) \<or>
      (pm_get m' p \<in> F - {y} \<and> at_end h' (pm_get m' p) p)" if "pm_get m' p \<noteq> nullptr" for p
  proof -
    have e: "\<not> at_end h y p" "pm_get m' p = pm_get m p"
      using that by (auto simp: g split: if_splits)
    then have "(pm_get m p \<in> U \<and> owns h (pm_get m p) p) \<or> (pm_get m p \<in> F \<and> at_end h (pm_get m p) p)"
      using m that by (simp add: map_ok_def)
    then show ?thesis
      using e oo by auto
  qed
  ultimately show ?thesis
    unfolding map_ok_def by blast
qed

text \<open>What a merge with the free span \<open>y\<close> keeps and achieves.\<close>

definition merged :: "pcache \<Rightarrow> (nat \<Rightarrow> addr list) \<Rightarrow> addr set \<Rightarrow> addr \<Rightarrow> pcache \<Rightarrow> (nat \<Rightarrow> addr list) \<Rightarrow> bool" where
  "merged s L U x s' L' \<longleftrightarrow>
     pc_inv s' L' U {x} {} \<and> pc_heads s' = pc_heads s \<and> pc_mmaps s' = pc_mmaps s \<and>
     free_spans L' \<subseteq> free_spans L \<and> np (pc_spans s) x \<le> np (pc_spans s') x \<and> np (pc_spans s') x \<le> 128 \<and>
     lo (pc_spans s') x \<le> lo (pc_spans s) x \<and>
     lo (pc_spans s) x + np (pc_spans s) x \<le> lo (pc_spans s') x + np (pc_spans s') x \<and>
     (\<forall>u. u \<noteq> x \<longrightarrow> lo (pc_spans s') u = lo (pc_spans s) u \<and> np (pc_spans s') u = np (pc_spans s) u) \<and>
     pages (pc_spans s') (free_spans L' \<union> U \<union> {x}) = pages (pc_spans s) (free_spans L \<union> U \<union> {x}) \<and>
     frame_out (insert x (pc_foot s L)) (pc_spans s) (pc_spans s') \<and> pc_foot s' L' \<subseteq> pc_foot s L"

lemma merged_refl: "pc_inv s L U {x} {} \<Longrightarrow> np (pc_spans s) x \<le> 128 \<Longrightarrow> merged s L U x s L"
  by (simp add: merged_def)

lemma merged_trans:
  assumes "merged s L U x s1 L1" "merged s1 L1 U x s2 L2"
  shows "merged s L U x s2 L2"
proof -
  have ft: "insert x (pc_foot s1 L1) \<subseteq> insert x (pc_foot s L)"
    using assms(1) unfolding merged_def by (intro insert_mono) simp
  have f: "frame_out (insert x (pc_foot s1 L1)) (pc_spans s1) (pc_spans s2)"
      "frame_out (insert x (pc_foot s L)) (pc_spans s) (pc_spans s1)"
    using assms by (simp_all add: merged_def)
  have "frame_out (insert x (pc_foot s L)) (pc_spans s) (pc_spans s2)"
    by (rule frame_out_trans [OF f(2) frame_out_mono [OF f(1) ft]])
  moreover have "free_spans L2 \<subseteq> free_spans L" "pc_foot s2 L2 \<subseteq> pc_foot s L"
    using assms unfolding merged_def by (meson subset_trans)+
  ultimately show ?thesis
    using assms unfolding merged_def by (intro conjI) (simp_all del: Un_insert_right Un_insert_left)
qed

lemma merge_tail_ok:
  assumes inv: "pc_inv s L U {x} {}" and y: "y \<in> free_spans L"
    and b: "unat b = np (pc_spans s) x + np (pc_spans s) y" "unat b \<le> 128"
    and c: "(unat a = lo (pc_spans s) y \<and> lo (pc_spans s) y + np (pc_spans s) y = lo (pc_spans s) x) \<or>
      (unat a = lo (pc_spans s) x \<and> lo (pc_spans s) x + np (pc_spans s) x = lo (pc_spans s) y)"
  obtains h2 L' where
    "sl_Erase (set_range (pc_spans s) x a b) (pc_heads s (unat (s_npage (pc_spans s) y))) y = Inr h2"
    "x \<noteq> y" "same_data (insert (pc_heads s (np (pc_spans s) y)) (set (L (np (pc_spans s) y))))
      (set_range (pc_spans s) x a b) h2"
    "merged s L U x (s\<lparr>pc_spans := h2, pc_map := pm_erase (pm_erase (pc_map s) (s_page_id (pc_spans s) y))
       (s_page_id (pc_spans s) y + s_npage (pc_spans s) y - 1), pc_pool := op_Delete (pc_pool s) y\<rparr>) L'"
proof -
  let ?h = "pc_spans s"
  let ?F = "free_spans L"
  let ?H = "pc_heads s ` {..<129}"
  let ?i = "np ?h y"
  let ?L = "L(?i := remove1 y (L ?i))"
  let ?h1 = "set_range ?h x a b"
  have bk: "buckets_ok sl_rep ?h (pc_heads s) L 129" and lay: "layout_ok ?h (?F \<union> U \<union> {x})"
    and m: "map_ok ?h (pc_map s) ?F U {}" and fl: "flags_ok ?h L U" and H: "?H \<inter> (U \<union> {x}) = {}"
    and F: "?F \<inter> (U \<union> {x}) = {}" and xU: "x \<notin> U"
    and pl: "pool_inv (op_rep SPAN_SIZE) (pc_pool s) (?H \<union> ?F \<union> U \<union> {x})"
    using inv by (simp_all add: pc_inv_def)
  have xy: "x \<noteq> y" "y \<notin> U" "y \<notin> ?H"
    using y F heads_free [OF bk] by auto
  obtain j where j: "j < 129" "y \<in> set (L j)"
    using y by (auto simp: free_spans_def)
  then have i: "?i < 129" "y \<in> set (L ?i)"
    using fl by (auto simp: flags_ok_def)
  have b1: "buckets_ok sl_rep ?h1 (pc_heads s) L 129"
    using bk buckets_cong [of ?h1 ?h] by simp
  obtain h2 where h2: "sl_Erase ?h1 (pc_heads s ?i) y = Inr h2"
      "same_data (insert (pc_heads s ?i) (set (L ?i))) ?h1 h2"
      "buckets_ok sl_rep h2 (pc_heads s) ?L 129"
    using sl.erase_buckets [OF b1 i] by blast
  note d = same_data_simps(1-8) [OF h2(2), simplified]
  have fs: "free_spans ?L = ?F - {y}"
    by (rule free_spans_remove [OF bk i])
  have o: "lo h2 z = lo ?h z \<and> np h2 z = np ?h z" if "z \<noteq> x" for z
    using that by (simp add: d)
  have x2: "lo h2 x = unat a" "np h2 x = np ?h x + np ?h y"
    using b by (simp_all add: d)
  have A: "?F \<union> U \<union> {x} - {y} = ?F - {y} \<union> U \<union> {x}"
    using xy by auto
  have xA: "x \<in> ?F \<union> U \<union> {x}" and yA: "y \<in> ?F \<union> U \<union> {x}"
    using y by auto
  have lj: "layout_ok h2 (?F \<union> U \<union> {x} - {y})" "pages h2 (?F \<union> U \<union> {x} - {y}) = pages ?h (?F \<union> U \<union> {x})"
    using layout_join [OF lay xA yA xy(1) o x2(2)] c x2(1) by metis+
  have yb: "1 \<le> np ?h y" "lo ?h y + np ?h y \<le> 1125899906842624"
    using layout_bounds [OF lay yA] by auto
  have lFU: "layout_ok ?h (?F \<union> U)"
    using layout_mono [OF lay] by blast
  let ?m = "pm_erase (pm_erase (pc_map s) (s_page_id ?h y)) (s_page_id ?h y + s_npage ?h y - 1)"
  have g: "pm_get ?m p = (if at_end ?h y p then nullptr else pm_get (pc_map s) p)" for p
    using at_end_iff [OF yb] by (simp add: pm_get_erase)
  have "map_ok h2 ?m (?F - {y}) U {}"
  proof (rule map_ok_drop [OF m lFU y _ g])
    show "lo h2 z = lo ?h z \<and> np h2 z = np ?h z" if "z \<in> ?F \<union> U" for z
      using that F xU by (intro o) auto
  qed (use F in auto)
  moreover have "np h2 z = l \<and> \<not> s_is_used h2 z" if "l < 129" "z \<in> set (?L l)" for l z
  proof -
    have zl: "z \<in> set (L l)"
      using that(2) set_remove1_subset [of y "L l"] by (auto split: if_splits)
    then have "z \<noteq> x"
      using that(1) F free_spansI by blast
    then show ?thesis
      using fl zl that(1) o by (auto simp: flags_ok_def d)
  qed
  moreover have "s_is_used h2 u" if "u \<in> U" for u
    using fl that by (simp add: flags_ok_def d)
  moreover have "pool_inv (op_rep SPAN_SIZE) (op_Delete (pc_pool s) y) (?H \<union> ?F \<union> U \<union> {x} - {y})"
    by (rule op.delete_live [OF pl]) (use y in auto)
  moreover have "?H \<union> ?F \<union> U \<union> {x} - {y} = ?H \<union> (?F - {y}) \<union> U \<union> {x}"
    using xy by auto
  ultimately have "pc_inv (s\<lparr>pc_spans := h2, pc_map := ?m, pc_pool := op_Delete (pc_pool s) y\<rparr>) ?L U {x} {}"
    unfolding pc_inv_def fs flags_ok_def using h2(3) lj(1) A F H xU by (intro conjI) auto
  moreover have pg: "pages (pc_spans (s\<lparr>pc_spans := h2, pc_map := ?m, pc_pool := op_Delete (pc_pool s) y\<rparr>))
      (?F - {y} \<union> U \<union> {x}) = pages ?h (?F \<union> U \<union> {x})"
    using lj(2) unfolding A by simp
  moreover have "frame_out (insert x (pc_foot s L)) ?h h2"
  proof -
    have "frame_out (insert x (pc_foot s L)) ?h1 h2"
      using foot_bucket [OF i(1), of s L] by (intro frame_out_mono [OF frame_out_same_data [OF h2(2)]]) auto
    then show ?thesis
      by (rule frame_out_trans [rotated]) simp
  qed
  moreover have "pc_foot (s\<lparr>pc_spans := h2, pc_map := ?m, pc_pool := op_Delete (pc_pool s) y\<rparr>) ?L \<subseteq> pc_foot s L"
    using pool_slots_delete [OF pl] y by (auto simp: pc_foot_def fs simp del: fun_upd_apply)
  ultimately have "merged s L U x (s\<lparr>pc_spans := h2, pc_map := ?m, pc_pool := op_Delete (pc_pool s) y\<rparr>) ?L"
    unfolding merged_def fs using x2 c b o
    by (intro conjI; (rule pg | (auto simp: d; fail)))
  then show thesis
    using that [of h2 ?L] h2(1,2) xy(1) by (simp add: np_def)
qed

lemma unat_before:
  assumes "pm_get m (s_page_id h x - 1) \<noteq> nullptr"
  shows "1 \<le> lo h x \<and> unat (s_page_id h x - 1) = lo h x - 1"
proof -
  have "s_page_id h x \<noteq> 0"
  proof
    assume "s_page_id h x = 0"
    then have "\<not> page_ok (s_page_id h x - 1)"
      by (simp add: page_ok_iff unsigned_minus_1_eq_mask mask_eq_exp_minus_1)
    then show False
      using assms pm_get_bad by blast
  qed
  then have "1 \<le> lo h x"
    by (simp add: lo_def Suc_le_eq unat_gt_0)
  then show ?thesis
    by (simp add: unat_minus_nowrap lo_def)
qed

lemma unat_sum_npage:
  assumes "np h x \<le> 1125899906842624" "np h y \<le> 1125899906842624"
  shows "unat (s_npage h x + s_npage h y) = np h x + np h y"
    and "s_npage h x + s_npage h y > NPAGE_LISTS - 1 \<longleftrightarrow> 128 < np h x + np h y"
proof -
  show *: "unat (s_npage h x + s_npage h y) = np h x + np h y"
    using assms by (simp add: np_def unat_add_nowrap)
  show "s_npage h x + s_npage h y > NPAGE_LISTS - 1 \<longleftrightarrow> 128 < np h x + np h y"
    unfolding word_less_nat_alt * by (simp add: NPAGE_LISTS_def)
qed

lemma neighbour_free:
  assumes inv: "pc_inv s L U {x} {}" and y: "pm_get (pc_map s) p = y" "y \<noteq> nullptr"
    and u: "\<not> s_is_used (pc_spans s) y"
  shows "y \<in> free_spans L" "at_end (pc_spans s) y p" "x \<noteq> y"
proof -
  have "y \<in> U \<or> (y \<in> free_spans L \<and> at_end (pc_spans s) y p)"
    using inv y by (auto simp: pc_inv_def map_ok_def)
  then show "y \<in> free_spans L" "at_end (pc_spans s) y p"
    using inv u by (auto simp: pc_inv_def flags_ok_def)
  then show "x \<noteq> y"
    using inv by (auto simp: pc_inv_def)
qed

lemma merge_prev_ok:
  assumes inv: "pc_inv s L U {x} {}" and x: "np (pc_spans s) x \<le> 128"
  shows "merge_prev_step s x = Inr None \<or>
    (\<exists>s' L'. merge_prev_step s x = Inr (Some s') \<and> merged s L U x s' L' \<and>
       np (pc_spans s) x < np (pc_spans s') x)"
proof -
  let ?h = "pc_spans s"
  define y where "y = pm_get (pc_map s) (s_page_id ?h x - 1)"
  show ?thesis
  proof (cases "y = nullptr \<or> s_is_used ?h y \<or> s_npage ?h x + s_npage ?h y > NPAGE_LISTS - 1")
    case True
    then show ?thesis
      by (auto simp: merge_prev_step_def Let_def y_def)
  next
    case False
    then have ne: "y \<noteq> nullptr" "\<not> s_is_used ?h y" "\<not> s_npage ?h x + s_npage ?h y > NPAGE_LISTS - 1"
      by auto
    have y: "y \<in> free_spans L" "at_end ?h y (s_page_id ?h x - 1)" "x \<noteq> y"
      using neighbour_free [OF inv y_def [symmetric] ne(1,2)] by auto
    have lay: "layout_ok ?h (free_spans L \<union> U \<union> {x})"
      using inv by (simp add: pc_inv_def)
    have b: "1 \<le> lo ?h x" "unat (s_page_id ?h x - 1) = lo ?h x - 1"
      using unat_before ne(1) y_def by auto
    have yb: "1 \<le> np ?h y" "lo ?h y + np ?h y \<le> 1125899906842624"
      using layout_bounds [OF lay] y by auto
    have x1: "1 \<le> np ?h x"
      using layout_bounds [OF lay] by auto
    have "lo ?h y + np ?h y \<le> lo ?h x \<or> lo ?h x + np ?h x \<le> lo ?h y"
      using layout_apart [OF lay _ _ y(3)] y(1) by auto
    then have c: "lo ?h y + np ?h y = lo ?h x"
      using y(2) b yb x1 by (auto simp: at_end_def)
    have s: "unat (s_npage ?h x + s_npage ?h y) = np ?h x + np ?h y" "np ?h x + np ?h y \<le> 128"
        "unat (s_npage ?h x + s_npage ?h y) \<le> 128"
      using unat_sum_npage [of ?h x y] ne(3) x yb by auto
    have c': "(unat (s_page_id ?h y) = lo ?h y \<and> lo ?h y + np ?h y = lo ?h x) \<or>
        (unat (s_page_id ?h y) = lo ?h x \<and> lo ?h x + np ?h x = lo ?h y)"
      using c by (simp add: lo_def)
    obtain h2 L' where h2: "sl_Erase (set_range ?h x (s_page_id ?h y) (s_npage ?h x + s_npage ?h y))
        (pc_heads s (unat (s_npage ?h y))) y = Inr h2"
      "same_data (insert (pc_heads s (np ?h y)) (set (L (np ?h y)))) (set_range ?h x (s_page_id ?h y) (s_npage ?h x + s_npage ?h y)) h2"
      "merged s L U x (s\<lparr>pc_spans := h2, pc_map := pm_erase (pm_erase (pc_map s) (s_page_id ?h y))
       (s_page_id ?h y + s_npage ?h y - 1), pc_pool := op_Delete (pc_pool s) y\<rparr>) L'"
      using merge_tail_ok [OF inv y(1) s(1) s(3) c'] by blast
    note d = same_data_simps(1-8) [OF h2(2), simplified]
    have "np h2 x = np ?h x + np ?h y"
      using s(1) by (simp add: d)
    then show ?thesis
      using ne h2 y(3) yb
      by (intro disjI2 exI [of _ "s\<lparr>pc_spans := h2, pc_map := pm_erase (pm_erase (pc_map s) (s_page_id ?h y))
       (s_page_id ?h y + s_npage ?h y - 1), pc_pool := op_Delete (pc_pool s) y\<rparr>"] exI [of _ L'])
        (simp add: merge_prev_step_def Let_def d flip: y_def)
  qed
qed

lemma merge_next_ok:
  assumes inv: "pc_inv s L U {x} {}" and x: "np (pc_spans s) x \<le> 128"
  shows "merge_next_step s x = Inr None \<or>
    (\<exists>s' L'. merge_next_step s x = Inr (Some s') \<and> merged s L U x s' L' \<and>
       np (pc_spans s) x < np (pc_spans s') x \<and> lo (pc_spans s') x = lo (pc_spans s) x)"
proof -
  let ?h = "pc_spans s"
  define y where "y = pm_get (pc_map s) (s_page_id ?h x + s_npage ?h x)"
  show ?thesis
  proof (cases "y = nullptr \<or> s_is_used ?h y \<or> s_npage ?h x + s_npage ?h y > NPAGE_LISTS - 1")
    case True
    then show ?thesis
      by (auto simp: merge_next_step_def Let_def y_def)
  next
    case False
    then have ne: "y \<noteq> nullptr" "\<not> s_is_used ?h y" "\<not> s_npage ?h x + s_npage ?h y > NPAGE_LISTS - 1"
      by auto
    have y: "y \<in> free_spans L" "at_end ?h y (s_page_id ?h x + s_npage ?h x)" "x \<noteq> y"
      using neighbour_free [OF inv y_def [symmetric] ne(1,2)] by auto
    have lay: "layout_ok ?h (free_spans L \<union> U \<union> {x})"
      using inv by (simp add: pc_inv_def)
    have xb: "1 \<le> np ?h x" "lo ?h x + np ?h x \<le> 1125899906842624"
      using layout_bounds [OF lay] by auto
    have yb: "1 \<le> np ?h y" "lo ?h y + np ?h y \<le> 1125899906842624"
      using layout_bounds [OF lay] y by auto
    have "lo ?h y + np ?h y \<le> lo ?h x \<or> lo ?h x + np ?h x \<le> lo ?h y"
      using layout_apart [OF lay _ _ y(3)] y(1) by auto
    then have c: "lo ?h x + np ?h x = lo ?h y"
      using y(2) yb xb unat_after [OF xb(2)] by (auto simp: at_end_def)
    have s: "unat (s_npage ?h x + s_npage ?h y) = np ?h x + np ?h y" "np ?h x + np ?h y \<le> 128"
        "unat (s_npage ?h x + s_npage ?h y) \<le> 128"
      using unat_sum_npage [of ?h x y] ne(3) x yb by auto
    have c': "(unat (s_page_id ?h x) = lo ?h y \<and> lo ?h y + np ?h y = lo ?h x) \<or>
        (unat (s_page_id ?h x) = lo ?h x \<and> lo ?h x + np ?h x = lo ?h y)"
      using c by (simp add: lo_def)
    obtain h2 L' where h2: "sl_Erase (set_range ?h x (s_page_id ?h x) (s_npage ?h x + s_npage ?h y))
        (pc_heads s (unat (s_npage ?h y))) y = Inr h2"
      "same_data (insert (pc_heads s (np ?h y)) (set (L (np ?h y)))) (set_range ?h x (s_page_id ?h x) (s_npage ?h x + s_npage ?h y)) h2"
      "merged s L U x (s\<lparr>pc_spans := h2, pc_map := pm_erase (pm_erase (pc_map s) (s_page_id ?h y))
       (s_page_id ?h y + s_npage ?h y - 1), pc_pool := op_Delete (pc_pool s) y\<rparr>) L'"
      using merge_tail_ok [OF inv y(1) s(1) s(3) c'] by blast
    note d = same_data_simps(1-8) [OF h2(2), simplified]
    have "np h2 x = np ?h x + np ?h y" "lo h2 x = lo ?h x"
      using s(1) by (simp_all add: d lo_def)
    then show ?thesis
      using ne h2 y(3) yb
      by (intro disjI2 exI [of _ "s\<lparr>pc_spans := h2, pc_map := pm_erase (pm_erase (pc_map s) (s_page_id ?h y))
       (s_page_id ?h y + s_npage ?h y - 1), pc_pool := op_Delete (pc_pool s) y\<rparr>"] exI [of _ L'])
        (simp add: merge_next_step_def Let_def d flip: y_def)
  qed
qed

text \<open>A loop of merges ends where its step breaks, since every round makes the span larger.\<close>

lemma while_merge_inv:
  fixes \<mu> :: "'s \<Rightarrow> nat"
  assumes step: "\<And>s. I s \<Longrightarrow> step s x = Inr None \<or> (\<exists>s'. step s x = Inr (Some s') \<and> I s' \<and> \<mu> s < \<mu> s')"
    and bound: "\<And>s. I s \<Longrightarrow> \<mu> s \<le> n" and "I s" "n < fuel + \<mu> s"
  shows "\<exists>s'. while_merge step fuel s x = Inr s' \<and> I s' \<and> step s' x = Inr None"
  using assms(3,4)
proof (induction fuel arbitrary: s)
  case 0
  then show ?case
    using bound by fastforce
next
  case (Suc fuel)
  show ?case
  proof (cases "step s x = Inr None")
    case False
    then obtain s1 where s1: "step s x = Inr (Some s1)" "I s1" "\<mu> s < \<mu> s1"
      using step [OF Suc.prems(1)] by blast
    then show ?thesis
      using Suc.IH [OF s1(2)] Suc.prems(2) by simp
  qed (use Suc.prems in simp)
qed

text \<open>The span stays within 128 pages, so 129 rounds are enough.\<close>

lemma while_merge_ok:
  assumes step: "\<And>s L. pc_inv s L U {x} {} \<Longrightarrow> np (pc_spans s) x \<le> 128 \<Longrightarrow>
      step s x = Inr None \<or> (\<exists>s' L'. step s x = Inr (Some s') \<and> merged s L U x s' L' \<and>
        np (pc_spans s) x < np (pc_spans s') x \<and> (keep \<longrightarrow> lo (pc_spans s') x = lo (pc_spans s) x))"
    and inv: "pc_inv s L U {x} {}" "np (pc_spans s) x \<le> 128" "128 < fuel + np (pc_spans s) x"
  shows "\<exists>s' L'. while_merge step fuel s x = Inr s' \<and> merged s L U x s' L' \<and> step s' x = Inr None \<and>
    (keep \<longrightarrow> lo (pc_spans s') x = lo (pc_spans s) x)"
proof -
  define I where "I s' \<longleftrightarrow> (\<exists>L'. merged s L U x s' L' \<and> (keep \<longrightarrow> lo (pc_spans s') x = lo (pc_spans s) x))" for s'
  have "\<exists>s'. while_merge step fuel s x = Inr s' \<and> I s' \<and> step s' x = Inr None"
  proof (rule while_merge_inv [where I = I and \<mu> = "\<lambda>s. np (pc_spans s) x", OF _ _ _ inv(3)])
    fix s1
    assume "I s1"
    then obtain L1 where s1: "merged s L U x s1 L1" "keep \<longrightarrow> lo (pc_spans s1) x = lo (pc_spans s) x"
      by (auto simp: I_def)
    then show "np (pc_spans s1) x \<le> 128"
      by (simp add: merged_def)
    have "pc_inv s1 L1 U {x} {}" "np (pc_spans s1) x \<le> 128"
      using s1(1) by (simp_all add: merged_def)
    from step [OF this] show "step s1 x = Inr None \<or>
        (\<exists>s'. step s1 x = Inr (Some s') \<and> I s' \<and> np (pc_spans s1) x < np (pc_spans s') x)"
      unfolding I_def using merged_trans [OF s1(1)] s1(2) by metis
  next
    show "I s"
      unfolding I_def using merged_refl [OF inv(1,2)] by blast
  qed
  then show ?thesis
    unfolding I_def by blast
qed

text \<open>Where a step breaks, no free span on that side can be merged.\<close>

lemma merge_prev_None:
  assumes inv: "pc_inv s L U {x} {}" and x: "np (pc_spans s) x \<le> 128" and r: "merge_prev_step s x = Inr None"
    and y: "y \<in> free_spans L" "lo (pc_spans s) y + np (pc_spans s) y = lo (pc_spans s) x"
  shows "128 < np (pc_spans s) x + np (pc_spans s) y"
proof -
  let ?h = "pc_spans s"
  have lay: "layout_ok ?h (free_spans L \<union> U \<union> {x})" and m: "map_ok ?h (pc_map s) (free_spans L) U {}"
    and fl: "flags_ok ?h L U" and bk: "buckets_ok sl_rep ?h (pc_heads s) L 129"
    using inv by (simp_all add: pc_inv_def)
  have yb: "1 \<le> np ?h y" "lo ?h y + np ?h y \<le> 1125899906842624"
    using layout_bounds [OF lay] y(1) by auto
  then have "unat (s_page_id ?h x - 1) = lo ?h x - 1"
    using y(2) by (simp add: unat_minus_nowrap lo_def)
  then have "at_end ?h y (s_page_id ?h x - 1)"
    using y(2) yb by (simp add: at_end_def)
  then have g: "pm_get (pc_map s) (s_page_id ?h x - 1) = y"
    using m y(1) by (simp add: map_ok_def)
  obtain j where "j < 129" "y \<in> set (L j)"
    using y(1) by (auto simp: free_spans_def)
  then have yu: "y \<noteq> nullptr" "\<not> s_is_used ?h y"
    using fl sl.buckets_distinct(3) [OF bk, of j] by (auto simp: flags_ok_def)
  have "\<not> np ?h x + np ?h y \<le> 128"
  proof
    assume le: "np ?h x + np ?h y \<le> 128"
    then have n: "\<not> s_npage ?h x + s_npage ?h y > NPAGE_LISTS - 1"
      using unat_sum_npage(2) [of ?h x y] x yb by auto
    obtain s' where "merge_prev_step s x = Inr (Some s')"
      using merge_prev_ok [OF inv x] r yu g n
      by (auto simp: merge_prev_step_def Let_def rbind_def split: sum.splits)
    then show False using r by simp
  qed
  then show ?thesis by simp
qed

lemma merge_next_None:
  assumes inv: "pc_inv s L U {x} {}" and x: "np (pc_spans s) x \<le> 128" and r: "merge_next_step s x = Inr None"
    and y: "y \<in> free_spans L" "lo (pc_spans s) x + np (pc_spans s) x = lo (pc_spans s) y"
  shows "128 < np (pc_spans s) x + np (pc_spans s) y"
proof -
  let ?h = "pc_spans s"
  have lay: "layout_ok ?h (free_spans L \<union> U \<union> {x})" and m: "map_ok ?h (pc_map s) (free_spans L) U {}"
    and fl: "flags_ok ?h L U" and bk: "buckets_ok sl_rep ?h (pc_heads s) L 129"
    using inv by (simp_all add: pc_inv_def)
  have yb: "1 \<le> np ?h y" "lo ?h y + np ?h y \<le> 1125899906842624"
    using layout_bounds [OF lay] y(1) by auto
  have "lo ?h x + np ?h x \<le> 1125899906842624"
    using layout_bounds [OF lay] by auto
  then have "at_end ?h y (s_page_id ?h x + s_npage ?h x)"
    using y(2) unat_after by (simp add: at_end_def)
  then have g: "pm_get (pc_map s) (s_page_id ?h x + s_npage ?h x) = y"
    using m y(1) by (simp add: map_ok_def)
  obtain j where "j < 129" "y \<in> set (L j)"
    using y(1) by (auto simp: free_spans_def)
  then have yu: "y \<noteq> nullptr" "\<not> s_is_used ?h y"
    using fl sl.buckets_distinct(3) [OF bk, of j] by (auto simp: flags_ok_def)
  have "\<not> np ?h x + np ?h y \<le> 128"
  proof
    assume le: "np ?h x + np ?h y \<le> 128"
    then have n: "\<not> s_npage ?h x + s_npage ?h y > NPAGE_LISTS - 1"
      using unat_sum_npage(2) [of ?h x y] x yb by auto
    obtain s' where "merge_next_step s x = Inr (Some s')"
      using merge_next_ok [OF inv x] r yu g n
      by (auto simp: merge_next_step_def Let_def rbind_def split: sum.splits)
    then show False using r by simp
  qed
  then show ?thesis by simp
qed

text \<open>The map once the pages of the span \<open>x\<close> are unmapped.\<close>

lemma map_ok_unmap:
  assumes m: "map_ok h m F U {}" and lay: "layout_ok h (F \<union> U)" and F: "F \<inter> U = {}" and x: "x \<in> U"
    and g: "\<And>p. pm_get m' p = (if owns h x p then nullptr else pm_get m p)"
  shows "map_ok h m' F (U - {x}) {}"
proof -
  have no: "\<not> owns h x p" if "owns h z p" "z \<in> F \<union> U" "z \<noteq> x" for z p
    using owns_unique [OF lay _ _ that(1)] x that(2,3) by blast
  have "pm_get m' p = u" if "u \<in> U - {x}" "owns h u p" for u p
    using that no m by (auto simp: g map_ok_def)
  moreover have "pm_get m' p = z" if "z \<in> F" "at_end h z p" for z p
  proof -
    have "owns h z p" "z \<noteq> x"
      using that at_end_owns layout_bounds(1) [OF lay] F x by blast+
    then show ?thesis
      using that no m by (auto simp: g map_ok_def)
  qed
  moreover have "(pm_get m' p \<in> U - {x} \<and> owns h (pm_get m' p) p) \<or>
      (pm_get m' p \<in> F \<and> at_end h (pm_get m' p) p)" if p: "pm_get m' p \<noteq> nullptr" for p
  proof -
    have e: "\<not> owns h x p" "pm_get m' p = pm_get m p"
      using p by (auto simp: g split: if_splits)
    then have "(pm_get m p \<in> U \<and> owns h (pm_get m p) p) \<or> (pm_get m p \<in> F \<and> at_end h (pm_get m p) p)"
      using m p by (simp add: map_ok_def)
    then show ?thesis
      using e by auto
  qed
  ultimately show ?thesis
    unfolding map_ok_def by blast
qed

text \<open>The map once the ends of the span \<open>x\<close> are mapped and it is free.\<close>

lemma map_ok_file:
  assumes m: "map_ok h m F U {}" and lay: "layout_ok h (F \<union> U \<union> {x})" and x: "x \<notin> F \<union> U"
    and g: "\<And>p. pm_get m' p = (if at_end h x p then x else pm_get m p)"
  shows "map_ok h m' (insert x F) U {}"
proof -
  have xb: "1 \<le> np h x"
    using layout_bounds [OF lay] by auto
  have ne: "\<not> at_end h x p" if "owns h z p" "z \<in> F \<union> U" for z p
  proof
    assume "at_end h x p"
    then have "z = x"
      using owns_unique [OF lay _ _ that(1)] at_end_owns [OF xb] that(2) by simp
    then show False
      using that(2) x by simp
  qed
  have "pm_get m' p = u" if "u \<in> U" "owns h u p" for u p
  proof -
    have "\<not> at_end h x p" "pm_get m p = u"
      using that ne m unfolding map_ok_def by blast+
    then show ?thesis by (simp add: g)
  qed
  moreover have "pm_get m' p = z" if "z \<in> insert x F" "at_end h z p" for z p
  proof (cases "z = x")
    case False
    then have z: "z \<in> F"
      using that by simp
    then have "owns h z p"
      using that(2) at_end_owns layout_bounds(1) [OF lay, of z] by simp
    then have "\<not> at_end h x p" "pm_get m p = z"
      using ne z that(2) m unfolding map_ok_def by blast+
    then show ?thesis by (simp add: g)
  qed (use that g in simp)
  moreover have "(pm_get m' p \<in> U \<and> owns h (pm_get m' p) p) \<or>
      (pm_get m' p \<in> insert x F \<and> at_end h (pm_get m' p) p)" if "pm_get m' p \<noteq> nullptr" for p
  proof (cases "at_end h x p")
    case False
    then have "pm_get m' p = pm_get m p"
      by (simp add: g)
    then show ?thesis
      using that m unfolding map_ok_def by auto
  qed (simp add: g)
  ultimately show ?thesis
    unfolding map_ok_def by blast
qed

text \<open>The start of a release: the pages of the span are unmapped one by one.\<close>

lemma release_unmap:
  assumes inv: "pc_inv s L U {} {}" and x: "x \<in> U"
  shows "pc_inv (s\<lparr>pc_map := iter_erase pm_erase (pc_map s) (s_page_id (pc_spans s) x)
    (unat (s_npage (pc_spans s) x))\<rparr>) L (U - {x}) {x} {}"
proof -
  let ?h = "pc_spans s"
  let ?m = "iter_erase pm_erase (pc_map s) (s_page_id ?h x) (unat (s_npage ?h x))"
  have lay: "layout_ok ?h (free_spans L \<union> U)" and m: "map_ok ?h (pc_map s) (free_spans L) U {}"
    and fl: "flags_ok ?h L U" and F: "free_spans L \<inter> U = {}"
    using inv by (simp_all add: pc_inv_def)
  have g: "pm_get ?m p = (if owns ?h x p then nullptr else pm_get (pc_map s) p)" for p
    using pm.get_iter_erase layout_range_ok [OF lay] x by (simp add: owns_in_range)
  note mk = map_ok_unmap [OF m lay F x g]
  have "flags_ok ?h L (U - {x})"
    using fl by (simp add: flags_ok_def)
  moreover have "free_spans L \<union> (U - {x}) \<union> {x} = free_spans L \<union> U" "U - {x} \<union> {x} = U"
    and "pc_heads s ` {..<129} \<union> free_spans L \<union> (U - {x}) \<union> {x} = pc_heads s ` {..<129} \<union> free_spans L \<union> U"
    using x by auto
  ultimately show ?thesis
    using inv mk by (simp add: pc_inv_def del: Un_insert_right Un_insert_left)
qed

lemma Release_finish_ok:
  assumes inv: "pc_inv s L U {x} {}" and x: "np (pc_spans s) x \<le> 128"
  obtains s' L' where "Release_finish s x = Inr s'" "pc_inv s' L' U {} {}" "pc_heads s' = pc_heads s"
    "free_spans L' = insert x (free_spans L)" "x \<in> set (L' (np (pc_spans s) x))"
    "lo (pc_spans s') = lo (pc_spans s)" "np (pc_spans s') = np (pc_spans s)"
    "pc_mmaps s' = pc_mmaps s" "frame_out (insert x (pc_foot s L)) (pc_spans s) (pc_spans s')"
    "pc_foot s' L' \<subseteq> insert x (pc_foot s L)"
proof -
  let ?h = "pc_spans s"
  let ?F = "free_spans L"
  let ?n = "np ?h x"
  let ?L = "L(?n := x # L ?n)"
  let ?H = "pc_heads s ` {..<129}"
  have bk: "buckets_ok sl_rep ?h (pc_heads s) L 129" and lay: "layout_ok ?h (?F \<union> U \<union> {x})"
    and m: "map_ok ?h (pc_map s) ?F U {}" and fl: "flags_ok ?h L U" and H: "?H \<inter> (U \<union> {x}) = {}"
    and F: "?F \<inter> (U \<union> {x}) = {}" and xU: "x \<notin> U"
    and pl: "pool_inv (op_rep SPAN_SIZE) (pc_pool s) (?H \<union> ?F \<union> U \<union> {x})"
    using inv by (simp_all add: pc_inv_def)
  have x0: "x \<noteq> nullptr"
    using pl by (auto simp: pool_inv_def)
  have "x \<notin> insert (pc_heads s j) (set (L j))" if "j < 129" for j
    using that H F free_spansI [of j x L] by auto
  then obtain h1 where h1: "sl_Push_Front ?h (pc_heads s ?n) x = Inr h1"
      "same_data (insert x (insert (pc_heads s ?n) (set (L ?n)))) ?h h1"
      "buckets_ok sl_rep h1 (pc_heads s) ?L 129"
    using sl.push_front_buckets [OF bk _ x0, of ?n] x by auto
  note d = same_data_simps(1-8) [OF h1(2)]
  let ?h2 = "h1\<lparr>s_is_used := (s_is_used h1)(x := False)\<rparr>"
  have xb: "1 \<le> np ?h x" "lo ?h x + np ?h x \<le> 1125899906842624"
    using layout_bounds [OF lay] by auto
  obtain m1 m2 where m2: "pm_set (pc_map s) (s_page_id ?h x) x = Inr m1"
      "pm_set m1 (s_page_id ?h x + s_npage ?h x - 1) x = Inr m2"
      "\<And>p. pm_get m2 p = (if at_end ?h x p then x else pm_get (pc_map s) p)"
    using set2_get [OF xb(2,1)] by blast
  let ?s' = "s\<lparr>pc_spans := ?h2, pc_map := m2\<rparr>"
  have l2: "lo ?h2 = lo ?h" "np ?h2 = np ?h"
    by (simp_all add: lo_def np_def fun_eq_iff d)
  have oa: "owns ?h2 = owns ?h" "at_end ?h2 = at_end ?h"
    by (simp_all add: owns_def at_end_def fun_eq_iff l2)
  have r: "Release_finish s x = Inr ?s'"
    using h1(1) m2(1,2) by (simp add: Release_finish_def np_def Let_def d)
  have fs: "free_spans ?L = insert x ?F"
    using x by (intro free_spans_push) simp
  have "map_ok ?h m2 (insert x ?F) U {}"
    using F xU by (intro map_ok_file [OF m lay _ m2(3)]) auto
  then have mk: "map_ok ?h2 m2 (insert x ?F) U {}"
    by (simp add: map_ok_def oa)
  have "np ?h z = l \<and> \<not> s_is_used ?h2 z" if "l < 129" "z \<in> set (?L l)" for l z
  proof (cases "z = x")
    case True
    then have "l = ?n"
      using that F free_spansI [of l x L] by (auto split: if_splits)
    then show ?thesis using True by simp
  next
    case False
    then have "z \<in> set (L l)"
      using that(2) by (auto split: if_splits)
    then have "np ?h z = l \<and> \<not> s_is_used ?h z"
      using fl that(1) unfolding flags_ok_def by blast
    then show ?thesis using False by (simp add: d)
  qed
  moreover have "s_is_used ?h2 u" if "u \<in> U" for u
    using fl that xU by (auto simp: flags_ok_def d)
  ultimately have "flags_ok ?h2 ?L U"
    unfolding flags_ok_def l2 by blast
  moreover have "layout_ok ?h2 (insert x ?F \<union> U)"
    using lay by (simp add: layout_ok_def l2)
  moreover have "buckets_ok sl_rep ?h2 (pc_heads s) ?L 129"
    using h1(3) buckets_cong [of ?h2 h1] by simp
  moreover have "?H \<union> insert x ?F \<union> U = ?H \<union> ?F \<union> U \<union> {x}"
    by auto
  ultimately have "pc_inv ?s' ?L U {} {}"
    using mk pl H F xU unfolding pc_inv_def fs by (intro conjI) simp_all
  moreover have "frame_out (insert x (pc_foot s L)) ?h ?h2"
  proof -
    have "frame_out (insert x (pc_foot s L)) ?h h1"
      using foot_bucket [of ?n s L] x by (intro frame_out_mono [OF frame_out_same_data [OF h1(2)]]) auto
    then show ?thesis
      by (simp add: frame_out_def)
  qed
  moreover have "pc_foot ?s' ?L \<subseteq> insert x (pc_foot s L)"
    by (auto simp: pc_foot_def fs simp del: fun_upd_apply)
  ultimately show thesis
    using that [of ?s' ?L] r fs l2 by simp
qed

text \<open>A span of at most 128 pages comes back. \<open>release_ok\<close> collects what then holds.\<close>

definition release_ok :: "pcache \<Rightarrow> (nat \<Rightarrow> addr list) \<Rightarrow> addr set \<Rightarrow> addr \<Rightarrow> pcache \<Rightarrow> bool" where
  "release_ok s L U x s' \<longleftrightarrow>
     (\<exists>L'. pc_inv s' L' (U - {x}) {} {} \<and> pc_heads s' = pc_heads s \<and> pc_mmaps s' = pc_mmaps s \<and>
        x \<in> set (L' (np (pc_spans s') x)) \<and> np (pc_spans s') x \<le> 128 \<and>
        lo (pc_spans s') x \<le> lo (pc_spans s) x \<and>
        lo (pc_spans s) x + np (pc_spans s) x \<le> lo (pc_spans s') x + np (pc_spans s') x \<and>
        pages (pc_spans s') (free_spans L' \<union> (U - {x})) = pages (pc_spans s) (free_spans L \<union> U) \<and>
        (\<forall>u \<in> U - {x}. lo (pc_spans s') u = lo (pc_spans s) u \<and> np (pc_spans s') u = np (pc_spans s) u) \<and>
        (\<forall>y \<in> free_spans L' - {x}.
           lo (pc_spans s') y + np (pc_spans s') y = lo (pc_spans s') x \<or>
           lo (pc_spans s') x + np (pc_spans s') x = lo (pc_spans s') y \<longrightarrow>
           128 < np (pc_spans s') x + np (pc_spans s') y) \<and>
        frame_out (insert x (pc_foot s L)) (pc_spans s) (pc_spans s') \<and> pc_foot s' L' \<subseteq> insert x (pc_foot s L))"

lemma ReleaseSpanToPageCache_ok:
  assumes inv: "pc_inv s L U {} {}" and x: "x \<in> U" "np (pc_spans s) x \<le> 128"
  shows "\<exists>s'. ReleaseSpanToPageCache s x = Inr s' \<and> release_ok s L U x s'"
proof -
  let ?h = "pc_spans s"
  define s0 where "s0 = s\<lparr>pc_map := iter_erase pm_erase (pc_map s) (s_page_id ?h x) (unat (s_npage ?h x))\<rparr>"
  let ?U = "U - {x}"
  have s0: "pc_inv s0 L ?U {x} {}" "pc_spans s0 = ?h" "pc_heads s0 = pc_heads s" "pc_mmaps s0 = pc_mmaps s"
    using release_unmap [OF inv x(1)] by (simp_all add: s0_def)
  have p0: "np (pc_spans s0) x \<le> 128" "128 < walk_fuel + np (pc_spans s0) x"
    using x(2) s0(2) by (simp_all add: walk_fuel_def)
  obtain s1 L1 where s1: "while_merge merge_prev_step walk_fuel s0 x = Inr s1" "merged s0 L ?U x s1 L1"
      "merge_prev_step s1 x = Inr None"
    using while_merge_ok [where step = merge_prev_step and keep = False, OF _ s0(1) p0] merge_prev_ok by blast
  then have p1: "pc_inv s1 L1 ?U {x} {}" "np (pc_spans s1) x \<le> 128" "128 < walk_fuel + np (pc_spans s1) x"
    by (simp_all add: merged_def walk_fuel_def)
  obtain s2 L2 where s2: "while_merge merge_next_step walk_fuel s1 x = Inr s2" "merged s1 L1 ?U x s2 L2"
      "merge_next_step s2 x = Inr None" "lo (pc_spans s2) x = lo (pc_spans s1) x"
    using while_merge_ok [where step = merge_next_step and keep = True, OF _ p1] merge_next_ok by blast
  have m: "merged s0 L ?U x s2 L2"
    using merged_trans s1(2) s2(2) by blast
  then have p2: "pc_inv s2 L2 ?U {x} {}" "np (pc_spans s2) x \<le> 128"
    by (simp_all add: merged_def)
  obtain s' L' where s': "Release_finish s2 x = Inr s'" "pc_inv s' L' ?U {} {}" "pc_heads s' = pc_heads s2"
      "free_spans L' = insert x (free_spans L2)" "x \<in> set (L' (np (pc_spans s2) x))"
      "lo (pc_spans s') = lo (pc_spans s2)" "np (pc_spans s') = np (pc_spans s2)" "pc_mmaps s' = pc_mmaps s2"
      "frame_out (insert x (pc_foot s2 L2)) (pc_spans s2) (pc_spans s')" "pc_foot s' L' \<subseteq> insert x (pc_foot s2 L2)"
    using Release_finish_ok [OF p2] by blast
  have "\<not> s_npage ?h x > NPAGE_LISTS - 1"
    using x(2) by (simp add: np_def word_less_nat_alt NPAGE_LISTS_def)
  then have r: "ReleaseSpanToPageCache s x = Inr s'"
    using s1(1) s2(1) s'(1) by (simp add: ReleaseSpanToPageCache_def flip: s0_def)
  have co: "128 < np (pc_spans s2) x + np (pc_spans s2) y"
    if y: "y \<in> free_spans L2" and c: "lo (pc_spans s2) y + np (pc_spans s2) y = lo (pc_spans s2) x \<or>
      lo (pc_spans s2) x + np (pc_spans s2) x = lo (pc_spans s2) y" for y
    using c
  proof
    assume a: "lo (pc_spans s2) y + np (pc_spans s2) y = lo (pc_spans s2) x"
    have "y \<noteq> x"
      using y p2(1) by (auto simp: pc_inv_def)
    then have e: "y \<in> free_spans L1" "lo (pc_spans s2) y = lo (pc_spans s1) y"
        "np (pc_spans s2) y = np (pc_spans s1) y" "np (pc_spans s1) x \<le> np (pc_spans s2) x"
      using s2(2) y by (auto simp: merged_def)
    then have "128 < np (pc_spans s1) x + np (pc_spans s1) y"
      using merge_prev_None [OF p1(1,2) s1(3) e(1)] a s2(4) by simp
    then show ?thesis using e by simp
  next
    assume "lo (pc_spans s2) x + np (pc_spans s2) x = lo (pc_spans s2) y"
    then show ?thesis
      by (rule merge_next_None [OF p2 s2(3) y])
  qed
  have A: "free_spans L2 \<union> ?U \<union> {x} = free_spans L' \<union> ?U" "free_spans L \<union> ?U \<union> {x} = free_spans L \<union> U"
    using s'(4) x(1) by auto
  have lnp: "\<And>B. pages (pc_spans s') B = pages (pc_spans s2) B"
    using s'(6,7) by (simp add: pages_def)
  have pg: "pages (pc_spans s') (free_spans L' \<union> ?U) = pages ?h (free_spans L \<union> U)"
    using m unfolding merged_def A s0(2) lnp by blast
  have fr: "lo (pc_spans s') u = lo ?h u \<and> np (pc_spans s') u = np ?h u" if "u \<in> ?U" for u
    using m that unfolding merged_def s'(6,7) s0(2) by auto
  have bd: "lo (pc_spans s2) x \<le> lo ?h x" "lo ?h x + np ?h x \<le> lo (pc_spans s2) x + np (pc_spans s2) x"
      "pc_heads s2 = pc_heads s" "pc_mmaps s2 = pc_mmaps s"
    using m s0 by (simp_all add: merged_def)
  have "pc_foot s0 L = pc_foot s L"
    by (simp add: pc_foot_def s0_def)
  then have ft: "insert x (pc_foot s2 L2) \<subseteq> insert x (pc_foot s L)"
      "frame_out (insert x (pc_foot s L)) ?h (pc_spans s2)"
    using m s0(2) unfolding merged_def by auto
  have "frame_out (insert x (pc_foot s L)) ?h (pc_spans s')"
    using ft(2) frame_out_mono [OF s'(9) ft(1)] by (rule frame_out_trans)
  moreover have "pc_foot s' L' \<subseteq> insert x (pc_foot s L)"
    using s'(10) ft(1) by (rule subset_trans)
  ultimately have "release_ok s L U x s'"
    unfolding release_ok_def s'(6,7) using s'(2-5,8) bd p2(2) pg fr co
    by (intro exI [of _ L'] conjI) (auto simp: s'(6,7))
  then show ?thesis
    using r by blast
qed

section \<open>Properties\<close>

text \<open>C4: releasing a span in use of at most 128 pages returns, keeps the invariant, and files the
  span under its new size. The span has grown over its free neighbours: no page is lost or
  gained, the other spans in use keep theirs, and no free span that touches it would fit into
  128 pages together with it.\<close>

theorem Release_correct:
  assumes "pc_inv s L U {} {}" "x \<in> U" "np (pc_spans s) x \<le> 128"
  shows "\<exists>s'. ReleaseSpanToPageCache s x = Inr s' \<and> release_ok s L U x s'"
  using assms by (rule ReleaseSpanToPageCache_ok)

lemma Release_correct_witness:
  "\<exists>x s1 s2 L. NewSpan pc_demo 3 = Inr (x, s1) \<and>
     ReleaseSpanToPageCache (mark_used s1 x) x = Inr s2 \<and> release_ok (mark_used s1 x) L {x} x s2"
proof -
  have "new_span_ok pc_demo (\<lambda>_. []) {} 3 (NewSpan pc_demo 3)"
    by (rule NewSpan_ok [where ptr = 4294967296 and rest = "[]", OF pc_demo_facts(1) _ _ _ pc_demo_facts(4)])
      (simp_all add: pc_demo_facts(2,3) free_spans_def)
  then obtain x s1 L where x: "NewSpan pc_demo 3 = Inr (x, s1)" "np (pc_spans s1) x = 3"
      "pc_inv (mark_used s1 x) L {x} {} {}"
    by (auto simp: new_span_ok_def)
  have "\<exists>s2. ReleaseSpanToPageCache (mark_used s1 x) x = Inr s2 \<and> release_ok (mark_used s1 x) L {x} x s2"
    using x(2) by (intro Release_correct [OF x(3)]) simp_all
  then show ?thesis
    using x(1) by blast
qed

end
