(* ===== verification/Free_List.thy ===== *)
theory Free_List
  imports Object_Pool
begin

text \<open>
  \<open>NextObj\<close> and \<open>class FreeList\<close> of \<open>ConcurrentMemoryPool/Common.h\<close>: a stack of free blocks
  that are linked through their own first eight bytes. The memory of the blocks is a function from the
  address of a block to the pointer stored there; reading or writing the pointer of a null block is
  the fault \<open>NullDeref\<close>.
  The locale \<open>free_list\<close> states the contract the caches rely on.
\<close>

section \<open>The code\<close>

type_synonym links = "addr \<Rightarrow> addr"

definition NextObj :: "links \<Rightarrow> addr \<Rightarrow> addr res" where
  "NextObj m obj = (if obj = nullptr then Inl NullDeref else Inr (m obj))"

definition SetNextObj :: "links \<Rightarrow> addr \<Rightarrow> addr \<Rightarrow> links res" where
  "SetNextObj m obj v = (if obj = nullptr then Inl NullDeref else Inr (m(obj := v)))"

record free_list =
  fl_head :: addr
  fl_max_size :: u64
  fl_size :: u64

definition fl_new :: free_list where
  "fl_new = \<lparr>fl_head = nullptr, fl_max_size = 1, fl_size = 0\<rparr>"

definition fl_Push :: "links \<Rightarrow> free_list \<Rightarrow> addr \<Rightarrow> (links \<times> free_list) res" where
  "fl_Push m l obj =
     (if obj = nullptr then Inl AssertFailed
      else rbind (SetNextObj m obj (fl_head l)) (\<lambda>m'.
        Inr (m', l\<lparr>fl_head := obj, fl_size := fl_size l + 1\<rparr>)))"

definition fl_Pop :: "links \<Rightarrow> free_list \<Rightarrow> (addr \<times> free_list) res" where
  "fl_Pop m l =
     (if fl_head l = nullptr then Inl AssertFailed
      else rbind (NextObj m (fl_head l)) (\<lambda>next'.
        Inr (fl_head l, l\<lparr>fl_head := next', fl_size := fl_size l - 1\<rparr>)))"

definition fl_Push_Range :: "links \<Rightarrow> free_list \<Rightarrow> addr \<Rightarrow> addr \<Rightarrow> u64 \<Rightarrow> (links \<times> free_list) res" where
  "fl_Push_Range m l start end' n =
     (if start = nullptr \<or> end' = nullptr then Inl AssertFailed
      else rbind (SetNextObj m end' (fl_head l)) (\<lambda>m'.
        Inr (m', l\<lparr>fl_head := start, fl_size := fl_size l + n\<rparr>)))"

text \<open>The loop of \<open>Pop_Range\<close> follows \<open>n - 1\<close> links; the subtraction is on \<open>size_t\<close>.\<close>

primrec follow :: "links \<Rightarrow> nat \<Rightarrow> addr \<Rightarrow> addr res" where
  "follow m 0 obj = Inr obj"
| "follow m (Suc n) obj = rbind (NextObj m obj) (follow m n)"

definition fl_Pop_Range :: "links \<Rightarrow> free_list \<Rightarrow> u64 \<Rightarrow> (addr \<times> addr \<times> links \<times> free_list) res" where
  "fl_Pop_Range m l n =
     rbind (follow m (unat (n - 1)) (fl_head l)) (\<lambda>end'.
     rbind (NextObj m end') (\<lambda>rest.
     rbind (SetNextObj m end' nullptr) (\<lambda>m'.
       Inr (fl_head l, end', m', l\<lparr>fl_head := rest, fl_size := fl_size l - n\<rparr>))))"

definition fl_Empty :: "free_list \<Rightarrow> bool" where
  "fl_Empty l \<longleftrightarrow> fl_head l = nullptr"

section \<open>Segments of links\<close>

text \<open>\<open>lseg m p xs q\<close>: from \<open>p\<close> the links run through \<open>xs\<close> and arrive at \<open>q\<close>.\<close>

primrec lseg :: "links \<Rightarrow> addr \<Rightarrow> addr list \<Rightarrow> addr \<Rightarrow> bool" where
  "lseg m p [] q \<longleftrightarrow> p = q"
| "lseg m p (x # xs) q \<longleftrightarrow> p = x \<and> x \<noteq> nullptr \<and> lseg m (m x) xs q"

lemma lseg_append: "lseg m p (xs @ ys) q \<longleftrightarrow> (\<exists>r. lseg m p xs r \<and> lseg m r ys q)"
  by (induction xs arbitrary: p) auto

lemma lseg_frame [simp]: "x \<notin> set xs \<Longrightarrow> lseg (m(x := v)) p xs q = lseg m p xs q"
  by (induction xs arbitrary: p) auto

lemma lseg_start: "lseg m p xs nullptr \<Longrightarrow> p = (if xs = [] then nullptr else hd xs)"
  by (cases xs) auto

lemma lseg_nonnull: "lseg m p xs q \<Longrightarrow> nullptr \<notin> set xs"
  by (induction xs arbitrary: p) auto

lemma lseg_snoc: "lseg m p (xs @ [x]) q \<longleftrightarrow> lseg m p xs x \<and> x \<noteq> nullptr \<and> m x = q"
  by (auto simp: lseg_append)

text \<open>The last link of a segment can be redirected.\<close>

lemma lseg_redirect:
  assumes "lseg m p (xs @ [x]) q" "distinct (xs @ [x])"
  shows "lseg (m(x := r)) p (xs @ [x]) r"
  using assms by (simp add: lseg_snoc)

lemma follow_lseg:
  assumes "lseg m p (xs @ x # ys) q"
  shows "follow m (length xs) p = Inr x \<and> m x = (if ys = [] then q else hd ys)"
  using assms
proof (induction xs arbitrary: p)
  case Nil
  then show ?case by (cases ys) auto
next
  case (Cons a xs)
  then show ?case by (auto simp: NextObj_def)
qed

lemma follow_short:
  assumes "lseg m p xs nullptr" "length xs < n"
  shows "follow m n p = Inl NullDeref"
  using assms
proof (induction xs arbitrary: p n)
  case Nil
  then show ?case by (cases n) (auto simp: NextObj_def)
next
  case (Cons x xs)
  then obtain k where "n = Suc k" "length xs < k" by (cases n) auto
  then show ?case using Cons by (auto simp: NextObj_def)
qed

section \<open>The contract\<close>

locale free_list =
  fixes rep :: "links \<Rightarrow> 'l \<Rightarrow> addr list \<Rightarrow> bool"
    and push :: "links \<Rightarrow> 'l \<Rightarrow> addr \<Rightarrow> (links \<times> 'l) res"
    and pop :: "links \<Rightarrow> 'l \<Rightarrow> (addr \<times> 'l) res"
  assumes rep_distinct: "rep m l xs \<Longrightarrow> distinct xs \<and> nullptr \<notin> set xs"
    and rep_frame: "rep m l xs \<Longrightarrow> (\<And>x. x \<in> set xs \<Longrightarrow> m' x = m x) \<Longrightarrow> rep m' l xs"
    and push_rep: "rep m l xs \<Longrightarrow> x \<noteq> nullptr \<Longrightarrow> x \<notin> set xs \<Longrightarrow> length xs < 18446744073709551615 \<Longrightarrow>
      \<exists>m' l'. push m l x = Inr (m', l') \<and> rep m' l' (x # xs) \<and> (\<forall>y. y \<noteq> x \<longrightarrow> m' y = m y)"
    and pop_rep: "rep m l (x # xs) \<Longrightarrow> \<exists>l'. pop m l = Inr (x, l') \<and> rep m l' xs"
    and pop_nil: "rep m l [] \<Longrightarrow> \<exists>e. pop m l = Inl e"
begin

text \<open>Pushing a block and popping one returns the block and the list as it was.\<close>

lemma push_pop:
  assumes "rep m l xs" "x \<noteq> nullptr" "x \<notin> set xs" "length xs < 18446744073709551615"
  shows "\<exists>m' l1 l2. push m l x = Inr (m', l1) \<and> pop m' l1 = Inr (x, l2) \<and> rep m' l2 xs"
  using push_rep [OF assms] pop_rep by blast

text \<open>Every block of a list comes out once, the last pushed first.\<close>

lemma pop_all:
  assumes "rep m l xs" "i < length xs"
  shows "\<exists>l'. rep m l' (drop (Suc i) xs) \<and> (\<exists>l''. rep m l'' (drop i xs) \<and> pop m l'' = Inr (xs ! i, l'))"
  using assms
proof (induction i)
  case 0
  then show ?case
    using pop_rep by (cases xs) fastforce+
next
  case (Suc i)
  then obtain l1 where "rep m l1 (drop (Suc i) xs)" by auto
  moreover have "drop (Suc i) xs = xs ! Suc i # drop (Suc (Suc i)) xs"
    using Suc.prems(2) Cons_nth_drop_Suc by metis
  ultimately show ?case
    using pop_rep by metis
qed

end

definition fl_rep :: "links \<Rightarrow> free_list \<Rightarrow> addr list \<Rightarrow> bool" where
  "fl_rep m l xs \<longleftrightarrow> lseg m (fl_head l) xs nullptr \<and> distinct xs \<and> unat (fl_size l) = length xs"

lemma lseg_cong: "(\<And>x. x \<in> set xs \<Longrightarrow> m' x = m x) \<Longrightarrow> lseg m' p xs q = lseg m p xs q"
  by (induction xs arbitrary: p) auto

lemma fl_Push_rep:
  assumes "fl_rep m l xs" "x \<noteq> nullptr" "x \<notin> set xs" "length xs < 18446744073709551615"
  shows "\<exists>m' l'. fl_Push m l x = Inr (m', l') \<and> fl_rep m' l' (x # xs) \<and> (\<forall>y. y \<noteq> x \<longrightarrow> m' y = m y)"
  using assms by (auto simp: fl_Push_def SetNextObj_def fl_rep_def unat_add_nowrap)

lemma fl_Pop_rep:
  assumes "fl_rep m l (x # xs)"
  shows "\<exists>l'. fl_Pop m l = Inr (x, l') \<and> fl_rep m l' xs"
  using assms by (auto simp: fl_Pop_def NextObj_def fl_rep_def unat_minus_nowrap)

lemma fl_rep_frame:
  assumes "fl_rep m l xs" "\<And>x. x \<in> set xs \<Longrightarrow> m' x = m x"
  shows "fl_rep m' l xs"
  using assms lseg_cong [of xs m' m] by (simp add: fl_rep_def)

interpretation fl: free_list fl_rep fl_Push fl_Pop
proof unfold_locales
  show "fl_rep m l xs \<Longrightarrow> distinct xs \<and> nullptr \<notin> set xs" for m l xs
    using lseg_nonnull by (auto simp: fl_rep_def)
  show "fl_rep m l xs \<Longrightarrow> (\<And>x. x \<in> set xs \<Longrightarrow> m' x = m x) \<Longrightarrow> fl_rep m' l xs" for m l xs m'
    by (rule fl_rep_frame)
  show "fl_rep m l [] \<Longrightarrow> \<exists>e. fl_Pop m l = Inl e" for m l
    by (simp add: fl_rep_def fl_Pop_def)
qed (fact fl_Push_rep fl_Pop_rep)+

section \<open>Ranges\<close>

lemma fl_Push_Range_rep:
  assumes "fl_rep m l xs" "lseg m start (as @ [e]) q" "distinct (as @ [e])" "set (as @ [e]) \<inter> set xs = {}"
    and "unat n = length as + 1" "length xs + unat n < 18446744073709551616"
  shows "\<exists>m' l'. fl_Push_Range m l start e n = Inr (m', l') \<and> fl_rep m' l' (as @ e # xs) \<and>
    (\<forall>y. y \<noteq> e \<longrightarrow> m' y = m y) \<and> fl_max_size l' = fl_max_size l"
proof -
  have s: "start \<noteq> nullptr" "e \<noteq> nullptr"
    using assms(2) by (cases as; auto simp: lseg_append)+
  have "lseg (m(e := fl_head l)) start (as @ [e]) (fl_head l)"
    by (rule lseg_redirect [OF assms(2,3)])
  moreover have "lseg (m(e := fl_head l)) (fl_head l) xs nullptr"
    using assms(1,4) by (simp add: fl_rep_def)
  ultimately have "lseg (m(e := fl_head l)) start ((as @ [e]) @ xs) nullptr"
    unfolding lseg_append by blast
  then show ?thesis
    using s assms by (auto simp: fl_Push_Range_def SetNextObj_def fl_rep_def unat_add_nowrap)
qed

lemma fl_Pop_Range_rep:
  assumes "fl_rep m l (as @ e # xs)" "unat n = length as + 1"
  shows "\<exists>m' l'. fl_Pop_Range m l n = Inr (hd (as @ [e]), e, m', l') \<and> fl_rep m' l' xs \<and>
    lseg m' (hd (as @ [e])) (as @ [e]) nullptr \<and> (\<forall>y. y \<noteq> e \<longrightarrow> m' y = m y) \<and> fl_max_size l' = fl_max_size l"
proof -
  have l: "lseg m (fl_head l) (as @ e # xs) nullptr" "distinct (as @ e # xs)"
      "unat (fl_size l) = length as + 1 + length xs"
    using assms(1) by (simp_all add: fl_rep_def)
  have n1: "unat (n - 1) = length as"
    using assms(2) by (simp add: unat_minus_nowrap)
  have f: "follow m (length as) (fl_head l) = Inr e"
    using follow_lseg [OF l(1)] by simp
  have e: "e \<noteq> nullptr" "lseg m (m e) xs nullptr" "lseg m (fl_head l) (as @ [e]) (m e)"
    using l(1) by (auto simp: lseg_append)
  have h: "fl_head l = hd (as @ [e])"
    using e(3) by (cases as) auto
  have "lseg (m(e := nullptr)) (m e) xs nullptr"
    using e(2) l(2) by simp
  moreover have "lseg (m(e := nullptr)) (hd (as @ [e])) (as @ [e]) nullptr"
    using lseg_redirect [OF e(3)] l(2) h by simp
  moreover have "unat (fl_size l - n) = length xs"
    using l(3) assms(2) by (simp add: unat_minus_nowrap)
  ultimately show ?thesis
    using f e(1) n1 h l(2) by (simp add: fl_Pop_Range_def NextObj_def SetNextObj_def fl_rep_def)
qed

text \<open>A range longer than the list runs into the null pointer at its end.\<close>

lemma fl_Pop_Range_short:
  assumes "fl_rep m l xs" "length xs < unat n"
  shows "fl_Pop_Range m l n = Inl NullDeref"
proof -
  have n1: "unat (n - 1) = unat n - 1"
    using assms(2) by (simp add: unat_minus_nowrap)
  have s: "lseg m (fl_head l) xs nullptr"
    using assms(1) by (simp add: fl_rep_def)
  show ?thesis
  proof (cases "length xs < unat n - 1")
    case True
    then show ?thesis
      using follow_short [OF s] n1 by (simp add: fl_Pop_Range_def)
  next
    case False
    then have "length xs = unat n - 1"
      using assms(2) by simp
    moreover have "follow m (length xs) (fl_head l) = Inr nullptr"
      using s by (induction xs arbitrary: l) (auto simp: NextObj_def, metis select_convs(1))
    ultimately show ?thesis
      using n1 by (simp add: fl_Pop_Range_def NextObj_def)
  qed
qed

end
