(* ===== verification/Block_Owner.thy ===== *)
theory Block_Owner
  imports Free_List
begin

text \<open>
  Who owns a block, as both allocators keep it: \<open>S x\<close> lists the blocks the span \<open>x\<close> was cut into, \<open>C i\<close> the spans
  of class \<open>i\<close>, and a span keeps its free blocks in a chain \<open>B x\<close> that starts at \<open>fl x\<close> and counts in \<open>use x\<close> the
  blocks that are out. The lemmas say how the invariant moves with the five changes a central cache makes: a batch
  leaves, a block comes back, a span joins, a span leaves, and links of blocks that are out change.
\<close>

section \<open>Cutting a chain\<close>

lemma lseg_cut:
  assumes xs: "lseg m p xs nullptr" "distinct xs" and k: "1 \<le> k" "k \<le> length xs"
  defines "e \<equiv> last (take k xs)"
  shows "e \<noteq> nullptr" "e \<in> set (take k xs)" "lseg (m(e := nullptr)) p (take k xs) nullptr"
    "lseg (m(e := nullptr)) (m e) (drop k xs) nullptr" "p = hd xs"
proof -
  have ne: "take k xs \<noteq> []"
    using k by auto
  then have tk: "take k xs = butlast (take k xs) @ [e]"
    by (simp add: e_def)
  show "e \<in> set (take k xs)"
    using last_in_set [OF ne] by (simp add: e_def)
  have "lseg m p (take k xs @ drop k xs) nullptr"
    using xs(1) by simp
  then obtain r where r: "lseg m p (butlast (take k xs) @ [e]) r" "lseg m r (drop k xs) nullptr"
    unfolding lseg_append [of m p "take k xs"] unfolding tk [symmetric] by blast
  then show "e \<noteq> nullptr"
    by (simp add: lseg_snoc)
  have "distinct ((butlast (take k xs) @ [e]) @ drop k xs)"
    unfolding tk [symmetric] using xs(2) by simp
  then have d: "distinct (butlast (take k xs) @ [e])" "e \<notin> set (drop k xs)"
    by auto
  show "lseg (m(e := nullptr)) p (take k xs) nullptr"
    using lseg_redirect [OF r(1) d(1)] unfolding tk [symmetric] .
  show "lseg (m(e := nullptr)) (m e) (drop k xs) nullptr"
    using r d(2) by (simp add: lseg_snoc)
  show "p = hd xs"
    using lseg_start [OF xs(1)] k by auto
qed

section \<open>The invariant\<close>

definition chain_of :: "links \<Rightarrow> addr \<Rightarrow> 'a::len word \<Rightarrow> addr list \<Rightarrow> addr list \<Rightarrow> bool" where
  "chain_of m f u sl bs \<longleftrightarrow>
     distinct sl \<and> nullptr \<notin> set sl \<and> length sl < 2 ^ LENGTH('a) \<and>
     lseg m f bs nullptr \<and> distinct bs \<and> set bs \<subseteq> set sl \<and> u = of_nat (length sl - length bs)"

definition apart :: "nat \<Rightarrow> (addr \<Rightarrow> addr list) \<Rightarrow> (nat \<Rightarrow> addr list) \<Rightarrow> bool" where
  "apart n S C \<longleftrightarrow>
     (\<forall>i < n. distinct (C i)) \<and>
     (\<forall>i < n. \<forall>j < n. i \<noteq> j \<longrightarrow> set (C i) \<inter> set (C j) = {}) \<and>
     (\<forall>i < n. \<forall>j < n. \<forall>x \<in> set (C i). \<forall>y \<in> set (C j). x \<noteq> y \<longrightarrow> set (S x) \<inter> set (S y) = {})"

definition owned :: "nat \<Rightarrow> (addr \<Rightarrow> addr list) \<Rightarrow> (addr \<Rightarrow> addr) \<Rightarrow> (addr \<Rightarrow> 'a::len word) \<Rightarrow> links \<Rightarrow>
    (nat \<Rightarrow> addr list) \<Rightarrow> (addr \<Rightarrow> addr list) \<Rightarrow> bool" where
  "owned n S fl use m C B \<longleftrightarrow> apart n S C \<and> (\<forall>i < n. \<forall>x \<in> set (C i). chain_of m (fl x) (use x) (S x) (B x))"

text \<open>The blocks of class \<open>i\<close> that are out.\<close>

definition out_of :: "(addr \<Rightarrow> addr list) \<Rightarrow> (nat \<Rightarrow> addr list) \<Rightarrow> (addr \<Rightarrow> addr list) \<Rightarrow> nat \<Rightarrow> addr set" where
  "out_of S C B i = (\<Union>x \<in> set (C i). set (S x) - set (B x))"

lemma ownedD:
  assumes "owned n S fl use m C B" "i < n" "x \<in> set (C i)"
  shows "chain_of m (fl x) (use x) (S x) (B x)" "set (B x) \<subseteq> set (S x)" "distinct (B x)" "distinct (S x)"
    "lseg m (fl x) (B x) nullptr" "nullptr \<notin> set (S x)" "distinct (C i)"
  using assms by (simp_all add: owned_def apart_def chain_of_def)

lemma owned_class:
  assumes "owned n S fl use m C B" "i < n" "j < n" "x \<in> set (C i)" "x \<in> set (C j)"
  shows "i = j"
  using assms unfolding owned_def apart_def by blast

lemma owned_apart:
  assumes "owned n S fl use m C B" "i < n" "j < n" "x \<in> set (C i)" "y \<in> set (C j)" "x \<noteq> y"
  shows "set (S x) \<inter> set (S y) = {}"
  using assms unfolding owned_def apart_def by blast

lemma owned_others:
  assumes "owned n S fl use m C B" "i < n" "x \<in> set (C i)"
  shows "\<And>z. z \<in> set (C i) - {x} \<Longrightarrow> set (S z) \<inter> set (S x) = {}"
  using owned_apart [OF assms(1,2,2) _ assms(3)] by blast

lemma chain_of_frame:
  assumes "chain_of m f u sl bs" "\<And>a. a \<in> set bs \<Longrightarrow> m' a = m a"
  shows "chain_of m' f u sl bs"
  using assms lseg_cong [of bs m' m] by (simp add: chain_of_def)

lemma out_of_cong:
  "(\<And>x. x \<in> set (C i) \<Longrightarrow> set (S' x) - set (B' x) = set (S x) - set (B x)) \<Longrightarrow> out_of S' C B' i = out_of S C B i"
  by (simp add: out_of_def)

lemma out_of_split:
  "x \<in> set (C i) \<Longrightarrow> out_of S C B i = (set (S x) - set (B x)) \<union> (\<Union>z \<in> set (C i) - {x}. set (S z) - set (B z))"
  unfolding out_of_def by auto

lemma out_of_disjoint:
  assumes "owned n S fl use m C B" "i < n" "j < n" "i \<noteq> j"
  shows "out_of S C B i \<inter> out_of S C B j = {}"
proof -
  have "set (S x) \<inter> set (S y) = {}" if "x \<in> set (C i)" "y \<in> set (C j)" for x y
    using owned_apart [OF assms(1-3) that] owned_class [OF assms(1-3)] assms(4) that by blast
  then show ?thesis
    unfolding out_of_def by blast
qed

lemma chain_not_out:
  assumes own: "owned n S fl use m C B" and x: "i < n" "x \<in> set (C i)" and j: "j < n"
  shows "set (B x) \<inter> out_of S C B j = {}"
proof -
  have "set (B x) \<inter> (set (S z) - set (B z)) = {}" if "z \<in> set (C j)" for z
    using owned_apart [OF own x(1) j x(2) that] ownedD(2) [OF own x] by (cases "z = x") auto
  then show ?thesis
    unfolding out_of_def by blast
qed

text \<open>What is said of one span, and of the others.\<close>

lemma owned_upd:
  assumes own: "owned n S fl use m C B" and x: "i < n" "x \<in> set (C i)"
    and new: "chain_of m' (fl' x) (use' x) (S x) (B' x)"
    and old: "\<And>z. z \<noteq> x \<Longrightarrow> fl' z = fl z \<and> use' z = use z \<and> B' z = B z"
    and mem: "\<And>a. a \<notin> set (S x) \<Longrightarrow> m' a = m a"
  shows "owned n S fl' use' m' C B'"
proof -
  have "chain_of m' (fl' z) (use' z) (S z) (B' z)" if z: "j < n" "z \<in> set (C j)" for j z
  proof (cases "z = x")
    case False
    have "set (B z) \<inter> set (S x) = {}"
      using owned_apart [OF own z(1) x(1) z(2) x(2) False] ownedD(2) [OF own z] by blast
    then have "chain_of m' (fl z) (use z) (S z) (B z)"
      by (intro chain_of_frame [OF ownedD(1) [OF own z]] mem) auto
    then show ?thesis
      using old [OF False] by simp
  qed (use new in simp)
  then show ?thesis
    using own by (simp add: owned_def)
qed

lemma out_of_upd:
  assumes own: "owned n S fl use m C B" and x: "i < n" "x \<in> set (C i)" and j: "j < n"
    and old: "\<And>z. z \<noteq> x \<Longrightarrow> B' z = B z"
  shows "out_of S C B' j = (if j = i then (set (S x) - set (B' x)) \<union> (out_of S C B i - set (S x)) else out_of S C B j)"
proof (cases "j = i")
  case True
  have "(\<Union>z \<in> set (C i) - {x}. set (S z) - set (B' z)) = (\<Union>z \<in> set (C i) - {x}. set (S z) - set (B z))"
    using old by (intro SUP_cong) auto
  then show ?thesis
    unfolding True out_of_split [of x C i, OF x(2)] using owned_others [OF own x] by auto
next
  case False
  then have "z \<noteq> x" if "z \<in> set (C j)" for z
    using owned_class [OF own j x(1) _ x(2)] that by blast
  then show ?thesis
    using False old by (simp add: out_of_def)
qed

section \<open>A batch leaves, a block comes back\<close>

lemma owned_take:
  fixes use :: "addr \<Rightarrow> 'a::len word"
  assumes own: "owned n S fl use m C B" and x: "i < n" "x \<in> set (C i)" and k: "1 \<le> k" "k \<le> length (B x)"
    and m': "m' = m(last (take k (B x)) := nullptr)" and rest: "lseg m' rest (drop k (B x)) nullptr"
  shows "owned n S (fl(x := rest)) (use(x := use x + of_nat k)) m' C (B(x := drop k (B x)))"
    and "j < n \<Longrightarrow> out_of S C (B(x := drop k (B x))) j = out_of S C B j \<union> (if j = i then set (take k (B x)) else {})"
    and "j < n \<Longrightarrow> set (take k (B x)) \<inter> out_of S C B j = {}"
proof -
  note ox = ownedD [OF own x]
  have td: "set (B x) = set (take k (B x)) \<union> set (drop k (B x))" "set (take k (B x)) \<inter> set (drop k (B x)) = {}"
    using ox(3) by (metis append_take_drop_id set_append) (metis append_take_drop_id ox(3) distinct_append)
  have "take k (B x) \<noteq> []"
    using k by auto
  then have la: "last (take k (B x)) \<in> set (S x)"
    using td(1) ox(2) last_in_set by blast
  have "length (B x) \<le> length (S x)"
    using ox(2-4) by (metis card_mono distinct_card finite_set)
  then have "use x + of_nat k = of_nat (length (S x) - (length (B x) - k))"
    using ox(1) k by (simp add: chain_of_def flip: of_nat_add)
  then have "chain_of m' rest (use x + of_nat k) (S x) (drop k (B x))"
    using ox(1) rest td(1) by (auto simp: chain_of_def)
  then show "owned n S (fl(x := rest)) (use(x := use x + of_nat k)) m' C (B(x := drop k (B x)))"
    using la by (intro owned_upd [OF own x]) (auto simp: m')
  show nl: "set (take k (B x)) \<inter> out_of S C B j = {}" if "j < n"
    using chain_not_out [OF own x that] td(1) by blast
  show "out_of S C (B(x := drop k (B x))) j = out_of S C B j \<union> (if j = i then set (take k (B x)) else {})" if "j < n"
  proof -
    have "(set (S x) - set (drop k (B x))) \<union> (out_of S C B i - set (S x)) = out_of S C B i \<union> set (take k (B x))"
      unfolding out_of_split [of x C i, OF x(2)] using owned_others [OF own x] td ox(2) by auto
    then show ?thesis
      using out_of_upd [OF own x that, of "B(x := drop k (B x))"] by simp
  qed
qed

lemma owned_give:
  fixes use :: "addr \<Rightarrow> 'a::len word"
  assumes own: "owned n S fl use m C B" and x: "i < n" "x \<in> set (C i)" and a: "a \<in> set (S x) - set (B x)"
  shows "owned n S (fl(x := a)) (use(x := use x - 1)) (m(a := fl x)) C (B(x := a # B x))"
    and "j < n \<Longrightarrow> out_of S C (B(x := a # B x)) j = out_of S C B j - (if j = i then {a} else {})"
    and "use x - 1 = 0 \<Longrightarrow> set (S x) \<subseteq> set (a # B x)"
proof -
  note ox = ownedD [OF own x]
  have d: "distinct (a # B x)" "set (a # B x) \<subseteq> set (S x)"
    using ox(2,3) a by auto
  then have l: "Suc (length (B x)) \<le> length (S x)"
    using card_mono [OF _ d(2)] distinct_card [OF d(1)] distinct_card [OF ox(4)] by simp
  have u: "use x - 1 = of_nat (length (S x) - Suc (length (B x)))"
    using ox(1) l by (simp add: chain_of_def of_nat_diff)
  have "a \<noteq> nullptr"
    using a ox(6) by auto
  then have "chain_of (m(a := fl x)) a (use x - 1) (S x) (a # B x)"
    using ox(1) d u a by (auto simp: chain_of_def)
  then show "owned n S (fl(x := a)) (use(x := use x - 1)) (m(a := fl x)) C (B(x := a # B x))"
    using a by (intro owned_upd [OF own x]) auto
  show "out_of S C (B(x := a # B x)) j = out_of S C B j - (if j = i then {a} else {})" if "j < n"
  proof -
    have "(set (S x) - set (a # B x)) \<union> (out_of S C B i - set (S x)) = out_of S C B i - {a}"
      unfolding out_of_split [of x C i, OF x(2)] using owned_others [OF own x] a by auto
    then show ?thesis
      using out_of_upd [OF own x that, of "B(x := a # B x)"] by simp
  qed
  show "set (S x) \<subseteq> set (a # B x)" if z: "use x - 1 = 0"
  proof -
    have "length (S x) - Suc (length (B x)) < 2 ^ LENGTH('a)"
      using ox(1) by (intro le_less_trans [OF diff_le_self]) (simp add: chain_of_def)
    then have "unat (of_nat (length (S x) - Suc (length (B x))) :: 'a word) = length (S x) - Suc (length (B x))"
      by (simp add: unsigned_of_nat take_bit_nat_eq_self)
    then have "length (S x) = length (a # B x)"
      using z u l by simp
    then show ?thesis
      using card_subset_eq [OF _ d(2)] distinct_card [OF d(1)] distinct_card [OF ox(4)] by simp
  qed
qed

section \<open>A span leaves, a span joins\<close>

lemma owned_drop:
  assumes own: "owned n S fl use m C B" and x: "i < n" "x \<in> set (C i)" and all: "set (S x) \<subseteq> set (B x)"
  shows "owned n S fl use m (C(i := remove1 x (C i))) B"
    and "j < n \<Longrightarrow> out_of S (C(i := remove1 x (C i))) B j = out_of S C B j"
    and "j < n \<Longrightarrow> x \<notin> set ((C(i := remove1 x (C i))) j)"
proof -
  have d: "distinct (C i)"
    by (rule ownedD(7) [OF own x])
  have sub: "set ((C(i := remove1 x (C i))) j) \<subseteq> set (C j)" for j
    by (simp add: set_remove1_subset)
  have "apart n S (C(i := remove1 x (C i)))"
  proof -
    have "apart n S C"
      using own by (simp add: owned_def)
    moreover have "distinct ((C(i := remove1 x (C i))) j)" if "j < n" for j
      using own that by (simp add: owned_def apart_def distinct_remove1)
    ultimately show ?thesis
      using sub unfolding apart_def by (meson disjoint_iff subsetD)
  qed
  then show "owned n S fl use m (C(i := remove1 x (C i))) B"
    using own sub unfolding owned_def by blast
  show "out_of S (C(i := remove1 x (C i))) B j = out_of S C B j" if "j < n"
    using out_of_split [of x C i S B, OF x(2)] all d by (cases "j = i") (auto simp: out_of_def)
  show "x \<notin> set ((C(i := remove1 x (C i))) j)" if "j < n"
    using owned_class [OF own that x(1) _ x(2)] d by (cases "j = i") auto
qed

lemma owned_cong:
  assumes own: "owned n S fl use m C B"
    and eq: "\<And>i x. i < n \<Longrightarrow> x \<in> set (C i) \<Longrightarrow> S' x = S x \<and> fl' x = fl x \<and> use' x = use x"
    and mem: "\<And>i x a. i < n \<Longrightarrow> x \<in> set (C i) \<Longrightarrow> a \<in> set (B x) \<Longrightarrow> m' a = m a"
  shows "owned n S' fl' use' m' C B" and "j < n \<Longrightarrow> out_of S' C B j = out_of S C B j"
proof -
  have "chain_of m' (fl' x) (use' x) (S' x) (B x)" if "i < n" "x \<in> set (C i)" for i x
    using chain_of_frame [OF ownedD(1) [OF own that], of m'] eq [OF that] mem [OF that] by simp
  moreover have "apart n S' C"
    using own eq unfolding owned_def apart_def by metis
  ultimately show "owned n S' fl' use' m' C B"
    by (simp add: owned_def)
  show "out_of S' C B j = out_of S C B j" if "j < n"
    using eq [OF that] by (simp add: out_of_def)
qed

lemma owned_mem:
  assumes own: "owned n S fl use m C B" and i: "i < n" and m: "\<And>a. a \<notin> out_of S C B i \<Longrightarrow> m' a = m a"
  shows "owned n S fl use m' C B"
proof (rule owned_cong(1) [OF own])
  show "m' a = m a" if "j < n" "x \<in> set (C j)" "a \<in> set (B x)" for j x a
    using chain_not_out [OF own that(1,2) i] that(3) by (intro m) auto
qed simp

lemma owned_join:
  assumes own: "owned n S fl use m C B" and i: "i < n" and x: "\<And>j. j < n \<Longrightarrow> x \<notin> set (C j)"
    and new: "chain_of m' (fl' x) (use' x) (S' x) (B' x)" "set (S' x) \<subseteq> set (B' x)"
    and eq: "\<And>j z. j < n \<Longrightarrow> z \<in> set (C j) \<Longrightarrow> S' z = S z \<and> fl' z = fl z \<and> use' z = use z \<and> B' z = B z"
    and ap: "\<And>j z. j < n \<Longrightarrow> z \<in> set (C j) \<Longrightarrow> set (S' x) \<inter> set (S z) = {}"
    and mem: "\<And>a. a \<notin> set (S' x) \<Longrightarrow> m' a = m a"
  shows "owned n S' fl' use' m' (C(i := x # C i)) B'"
    and "j < n \<Longrightarrow> out_of S' (C(i := x # C i)) B' j = out_of S C B j"
proof -
  let ?C = "C(i := x # C i)"
  have xi: "z = x \<and> j = i \<or> z \<noteq> x \<and> z \<in> set (C j)" if "j < n" "z \<in> set (?C j)" for j z
    using that x by (auto split: if_splits)
  have ap': "apart n S C"
    using own by (simp add: owned_def)
  have ne: "z \<noteq> x" if "j < n" "z \<in> set (C j)" for j z
    using that x by blast
  have "apart n S' ?C"
    unfolding apart_def
  proof (intro conjI allI impI ballI)
    fix j :: nat
    assume j: "j < n"
    then show "distinct (?C j)"
      using ap' x [OF i] by (auto simp: apart_def)
    fix k :: nat
    assume k: "k < n"
    show "set (?C j) \<inter> set (?C k) = {}" if "j \<noteq> k"
      using ap' x j k that unfolding apart_def by auto
    fix y z
    assume y: "y \<in> set (?C j)" and z: "z \<in> set (?C k)" and yz: "y \<noteq> z"
    consider "y = x" "z \<in> set (C k)" | "z = x" "y \<in> set (C j)" | "y \<in> set (C j)" "z \<in> set (C k)"
      using xi [OF j y] xi [OF k z] yz by blast
    then show "set (S' y) \<inter> set (S' z) = {}"
    proof cases
      case 1
      then show ?thesis
        using ap [OF k] eq [OF k] by simp
    next
      case 2
      then show ?thesis
        using ap [OF j, of y] eq [OF j, of y] by (simp add: Int_commute)
    next
      case 3
      then show ?thesis
        using owned_apart [OF own j k _ _ yz] eq [OF j, of y] eq [OF k, of z] by simp
    qed
  qed
  moreover have "chain_of m' (fl' z) (use' z) (S' z) (B' z)" if z: "j < n" "z \<in> set (?C j)" for j z
  proof (cases "z = x")
    case False
    then have zC: "z \<in> set (C j)"
      using xi [OF z] by blast
    have "chain_of m' (fl z) (use z) (S z) (B z)"
      using ap [OF z(1) zC] ownedD(2) [OF own z(1) zC] by (intro chain_of_frame [OF ownedD(1) [OF own z(1) zC]] mem) auto
    then show ?thesis
      using eq [OF z(1) zC] by simp
  qed (use new in simp)
  ultimately show "owned n S' fl' use' m' ?C B'"
    by (simp add: owned_def)
  show "out_of S' ?C B' j = out_of S C B j" if "j < n"
    using new(2) eq [OF that] by (cases "j = i") (auto simp: out_of_def)
qed

end
