(* ===== verification/Central_Cache.thy ===== *)
theory Central_Cache
  imports Page_Cache_Release Block_Owner
begin

text \<open>
  The central cache of \<open>ConcurrentMemoryPool/CentralCache.cpp\<close>: 208 lists of spans, one per size
  class, each span carved into a chain of free blocks. \<open>FetchRangeObj\<close> hands a batch of blocks
  to a thread cache, \<open>ReleaseListToSpans\<close> takes a chain of blocks back and returns the spans
  that no block is out of to the page cache.
  The span structures of both caches live in one heap (\<open>pc_spans\<close>), the links of the blocks in
  \<open>cc_mem\<close>. A call is one step of the model, from the state before to the state after: the code takes the
  lock of a bucket and drops it around each call of the page cache, and what other threads do in between is not
  modelled.
\<close>

section \<open>The code\<close>

record central =
  cc_pc :: pcache
  cc_heads :: "nat \<Rightarrow> addr"
  cc_mem :: links

abbreviation cc_spans :: "central \<Rightarrow> span_heap" where
  "cc_spans c \<equiv> pc_spans (cc_pc c)"

definition cc_set_spans :: "central \<Rightarrow> span_heap \<Rightarrow> central" where
  "cc_set_spans c h = c\<lparr>cc_pc := (cc_pc c)\<lparr>pc_spans := h\<rparr>\<rparr>"

primrec FetchOneSpan_loop :: "nat \<Rightarrow> span_heap \<Rightarrow> addr \<Rightarrow> addr \<Rightarrow> addr option res" where
  "FetchOneSpan_loop 0 h head it = Inl NoFuel"
| "FetchOneSpan_loop (Suc fuel) h head it =
     (if it = sl_End head then Inr None
      else if it = nullptr then Inl NullDeref
      else if s_free_lists h it \<noteq> nullptr then Inr (Some it)
      else FetchOneSpan_loop fuel h head (s_next h it))"

definition FetchOneSpan :: "span_heap \<Rightarrow> addr \<Rightarrow> addr option res" where
  "FetchOneSpan h head = FetchOneSpan_loop walk_fuel h head (sl_Begin h head)"

text \<open>The loop that cuts a fresh span into blocks of \<open>sz\<close> bytes.\<close>

primrec carve_loop :: "nat \<Rightarrow> links \<Rightarrow> addr \<Rightarrow> addr \<Rightarrow> addr \<Rightarrow> u64 \<Rightarrow> (links \<times> addr) res" where
  "carve_loop 0 m tail begin' end_bound sz = Inl NoFuel"
| "carve_loop (Suc fuel) m tail begin' end_bound sz =
     (if begin' < end_bound then
        rbind (SetNextObj m tail begin') (\<lambda>m'.
          carve_loop fuel m' begin' (begin' + sz) end_bound sz)
      else Inr (m, tail))"

definition carve :: "links \<Rightarrow> addr \<Rightarrow> u64 \<Rightarrow> u64 \<Rightarrow> links res" where
  "carve m base bytes sz =
     (if \<not> bytes \<ge> sz then Inl AssertFailed
      else if \<not> base < base + bytes then Inl AssertFailed
      else rbind (carve_loop walk_fuel m base (base + sz) (base + bytes) sz) (\<lambda>(m', tail).
        SetNextObj m' tail nullptr))"

text \<open>The part of \<open>FetchRangeObj\<close> that runs where no span of the class has a free block.\<close>

definition fresh_span :: "central \<Rightarrow> nat \<Rightarrow> u64 \<Rightarrow> (addr \<times> central) res" where
  "fresh_span c index sz =
     rbind (NumMovePage sz) (\<lambda>npage.
     rbind (NewSpan (cc_pc c) npage) (\<lambda>(span, pc).
       if span = nullptr then Inl AssertFailed
       else
         let h = (pc_spans pc)\<lparr>s_obj_size := (s_obj_size (pc_spans pc))(span := sz),
                    s_use_count := (s_use_count (pc_spans pc))(span := 0),
                    s_is_used := (s_is_used (pc_spans pc))(span := True)\<rparr>;
             base = push_bit PAGE_SHIFT (s_page_id h span);
             bytes = push_bit PAGE_SHIFT (s_npage h span)
         in
         rbind (carve (cc_mem c) base bytes sz) (\<lambda>m.
         rbind (sl_Push_Front (h\<lparr>s_free_lists := (s_free_lists h)(span := base)\<rparr>) (cc_heads c index) span) (\<lambda>h'.
           Inr (span, c\<lparr>cc_pc := pc\<lparr>pc_spans := h'\<rparr>, cc_mem := m\<rparr>)))))"

text \<open>The loop that walks over at most \<open>n - 1\<close> further blocks of the chain.\<close>

primrec take_range :: "links \<Rightarrow> nat \<Rightarrow> addr \<Rightarrow> u64 \<Rightarrow> (addr \<times> u64) res" where
  "take_range m 0 end' actual_num = Inr (end', actual_num)"
| "take_range m (Suc n) end' actual_num =
     rbind (NextObj m end') (\<lambda>next'.
       if next' = nullptr then Inr (end', actual_num)
       else take_range m n next' (actual_num + 1))"

definition detach_range :: "central \<Rightarrow> addr \<Rightarrow> u64 \<Rightarrow> (u64 \<times> addr \<times> addr \<times> central) res" where
  "detach_range c span distribute_nums =
     (if s_free_lists (cc_spans c) span = nullptr then Inl AssertFailed
      else
        let start = s_free_lists (cc_spans c) span in
        rbind (take_range (cc_mem c) (unat (distribute_nums - 1)) start 1) (\<lambda>(end', actual_num).
        rbind (NextObj (cc_mem c) end') (\<lambda>rest.
        rbind (SetNextObj (cc_mem c) end' nullptr) (\<lambda>m.
          let h = cc_spans c;
              h' = h\<lparr>s_free_lists := (s_free_lists h)(span := rest),
                     s_use_count := (s_use_count h)(span := s_use_count h span + ucast actual_num)\<rparr>
          in Inr (actual_num, start, end', (cc_set_spans c h')\<lparr>cc_mem := m\<rparr>)))))"

definition FetchRangeObj :: "central \<Rightarrow> u64 \<Rightarrow> u64 \<Rightarrow> (u64 \<times> addr \<times> addr \<times> central) res" where
  "FetchRangeObj c distribute_nums sz =
     rbind (Index sz) (\<lambda>index.
       if \<not> index < NFREE_LISTS then Inl OutOfBounds
       else
         rbind (FetchOneSpan (cc_spans c) (cc_heads c (unat index))) (\<lambda>found.
           case found of
             Some span \<Rightarrow> detach_range c span distribute_nums
           | None \<Rightarrow> rbind (fresh_span c (unat index) sz) (\<lambda>(span, c').
               detach_range c' span distribute_nums)))"

text \<open>One block goes back to its span; a span with no block out goes back to the page cache.\<close>

definition release_block :: "central \<Rightarrow> nat \<Rightarrow> addr \<Rightarrow> (addr \<times> central) res" where
  "release_block c index start =
     rbind (NextObj (cc_mem c) start) (\<lambda>next'.
     rbind (PageToSpan (cc_pc c) start) (\<lambda>span.
     rbind (SetNextObj (cc_mem c) start (s_free_lists (cc_spans c) span)) (\<lambda>m.
       let h = cc_spans c;
           h1 = h\<lparr>s_free_lists := (s_free_lists h)(span := start),
                  s_use_count := (s_use_count h)(span := s_use_count h span - 1)\<rparr>;
           c1 = (cc_set_spans c h1)\<lparr>cc_mem := m\<rparr>
       in if s_use_count h1 span = 0 then
            rbind (sl_Erase h1 (cc_heads c index) span) (\<lambda>h2.
              let h3 = h2\<lparr>s_free_lists := (s_free_lists h2)(span := nullptr),
                          s_prev := (s_prev h2)(span := nullptr),
                          s_next := (s_next h2)(span := nullptr)\<rparr>
              in rbind (ReleaseSpanToPageCache ((cc_pc c1)\<lparr>pc_spans := h3\<rparr>) span) (\<lambda>pc.
                   Inr (next', c1\<lparr>cc_pc := pc\<rparr>)))
          else Inr (next', c1))))"

primrec release_loop :: "nat \<Rightarrow> central \<Rightarrow> nat \<Rightarrow> addr \<Rightarrow> central res" where
  "release_loop 0 c index start = Inl NoFuel"
| "release_loop (Suc fuel) c index start =
     (if start = nullptr then Inr c
      else rbind (release_block c index start) (\<lambda>(next', c'). release_loop fuel c' index next'))"

definition ReleaseListToSpans :: "central \<Rightarrow> addr \<Rightarrow> u64 \<Rightarrow> central res" where
  "ReleaseListToSpans c start sz =
     rbind (Index sz) (\<lambda>index.
       if \<not> index < NFREE_LISTS then Inl OutOfBounds
       else release_loop walk_fuel c (unat index) start)"

section \<open>\<open>FetchOneSpan\<close> finds the first span with a free block\<close>

lemma FetchOneSpan_loop_ok:
  assumes "dseg nx pv a xs head" "nx = s_next h" "length xs < fuel" "nullptr \<notin> set xs" "head \<notin> set xs"
  shows "FetchOneSpan_loop fuel h head (nx a) = Inr (find (\<lambda>x. s_free_lists h x \<noteq> nullptr) xs)"
  using assms
proof (induction xs arbitrary: a fuel)
  case Nil
  then show ?case by (cases fuel) (auto simp: sl_End_def)
next
  case (Cons x xs)
  then show ?case by (cases fuel) (auto simp: sl_End_def)
qed

lemma length_distinct_u64: "distinct (xs :: addr list) \<Longrightarrow> length xs \<le> 18446744073709551616"
proof -
  assume "distinct xs"
  then have "length xs = card (set xs)"
    by (simp add: distinct_card)
  also have "\<dots> \<le> card (UNIV :: addr set)"
    by (intro card_mono) simp_all
  also have "\<dots> = 18446744073709551616"
    by (simp add: card_word)
  finally show ?thesis .
qed

lemma FetchOneSpan_ok:
  assumes "sl_rep h head xs"
  shows "FetchOneSpan h head = Inr (find (\<lambda>x. s_free_lists h x \<noteq> nullptr) xs)"
proof -
  have r: "dseg (s_next h) (s_prev h) head xs head" "distinct (head # xs)" "nullptr \<notin> set (head # xs)"
    using assms by (auto simp: sl_rep_def ring_def)
  have "length (head # xs) \<le> 18446744073709551616"
    by (rule length_distinct_u64 [OF r(2)])
  then have "length xs < walk_fuel"
    by (simp add: walk_fuel_def)
  then show ?thesis
    using FetchOneSpan_loop_ok [OF r(1) refl] r(2,3) by (simp add: FetchOneSpan_def sl_Begin_def)
qed

section \<open>Carving\<close>

definition n_blocks :: "nat \<Rightarrow> nat \<Rightarrow> nat" where
  "n_blocks bytes s = (bytes + s - 1) div s"

lemma n_blocks_0 [simp]: "n_blocks 0 s = 0"
  by (cases s) (simp_all add: n_blocks_def)

lemma n_blocks_step:
  assumes "0 < s" "0 < b"
  shows "n_blocks b s = Suc (n_blocks (b - s) s)"
proof (cases "s \<le> b")
  case True
  then have "b + s - 1 = (b - s + s - 1) + s"
    using assms by simp
  then show ?thesis
    using assms(1) by (simp only: n_blocks_def div_add_self2)
next
  case False
  then have "(b + s - 1) div s = 1"
    using assms by (intro div_nat_eqI) simp_all
  then show ?thesis
    using False by (simp add: n_blocks_def)
qed

lemma n_blocks_le: "0 < s \<Longrightarrow> n_blocks b s \<le> b"
proof (induction b rule: less_induct)
  case (less b)
  show ?case
  proof (cases "b = 0")
    case False
    then have "n_blocks (b - s) s \<le> b - s"
      using less by simp
    then show ?thesis
      using n_blocks_step [of s b] less.prems False by simp
  qed simp
qed

lemma carve_loop_ok:
  fixes begin' end_bound sz :: u64
  assumes "unat end_bound + unat sz < 18446744073709551616" "0 < unat sz" "unat begin' < unat end_bound + unat sz"
    and "lseg m p (as @ [tail]) q" "\<And>x. x \<in> set (as @ [tail]) \<Longrightarrow> unat x < unat begin'" "distinct (as @ [tail])"
    and "n_blocks (unat end_bound - unat begin') (unat sz) < fuel"
  shows "\<exists>m' zs t. carve_loop fuel m tail begin' end_bound sz = Inr (m', t) \<and>
    zs @ [t] = as @ tail # slots begin' sz (n_blocks (unat end_bound - unat begin') (unat sz)) \<and>
    (\<exists>q'. lseg m' p (zs @ [t]) q') \<and> distinct (zs @ [t]) \<and>
    (\<forall>y. y \<notin> set (tail # slots begin' sz (n_blocks (unat end_bound - unat begin') (unat sz))) \<longrightarrow> m' y = m y)"
  using assms(3-7)
proof (induction fuel arbitrary: m tail begin' as q)
  case (Suc fuel)
  show ?case
  proof (cases "begin' < end_bound")
    case False
    then have "unat end_bound - unat begin' = 0"
      by (simp add: word_less_nat_alt)
    then show ?thesis
      using False Suc.prems(2,4)
      by (intro exI [of _ m] exI [of _ as] exI [of _ tail] conjI exI [of _ q]) auto
  next
    case True
    then have lt: "unat begin' < unat end_bound"
      by (simp add: word_less_nat_alt)
    have s: "unat (begin' + sz) = unat begin' + unat sz"
      using lt assms(1) by (intro unat_add_nowrap) simp
    let ?m = "m(tail := begin')"
    have tl: "tail \<noteq> nullptr"
      using Suc.prems(2) by (simp add: lseg_snoc)
    have b: "begin' \<noteq> nullptr" "begin' \<notin> set (as @ [tail])"
      using Suc.prems(3) by (auto, fastforce+)
    have n: "n_blocks (unat end_bound - unat begin') (unat sz) =
        Suc (n_blocks (unat end_bound - unat (begin' + sz)) (unat sz))"
      using n_blocks_step [OF assms(2), of "unat end_bound - unat begin'"] lt s by simp
    have "lseg ?m p (as @ [tail]) begin'"
      by (rule lseg_redirect [OF Suc.prems(2,4)])
    then have l: "lseg ?m p ((as @ [tail]) @ [begin']) (?m begin')"
      using b(1) unfolding lseg_snoc [of _ _ "as @ [tail]"] by simp
    have "\<exists>m' zs t. carve_loop fuel ?m begin' (begin' + sz) end_bound sz = Inr (m', t) \<and>
      zs @ [t] = (as @ [tail]) @ begin' # slots (begin' + sz) sz
        (n_blocks (unat end_bound - unat (begin' + sz)) (unat sz)) \<and>
      (\<exists>q'. lseg m' p (zs @ [t]) q') \<and> distinct (zs @ [t]) \<and>
      (\<forall>y. y \<notin> set (begin' # slots (begin' + sz) sz (n_blocks (unat end_bound - unat (begin' + sz)) (unat sz))) \<longrightarrow>
        m' y = ?m y)"
    proof (rule Suc.IH [OF _ l])
      show "unat (begin' + sz) < unat end_bound + unat sz"
        using lt s by simp
      show "unat x < unat (begin' + sz)" if "x \<in> set ((as @ [tail]) @ [begin'])" for x
        using that Suc.prems(3) [of x] s assms(2) by auto
      show "distinct ((as @ [tail]) @ [begin'])"
        using Suc.prems(4) b(2) by auto
      show "n_blocks (unat end_bound - unat (begin' + sz)) (unat sz) < fuel"
        using Suc.prems(5) n by simp
    qed
    then obtain m' zs t q' where r: "carve_loop fuel ?m begin' (begin' + sz) end_bound sz = Inr (m', t)"
      "zs @ [t] = (as @ [tail]) @ begin' # slots (begin' + sz) sz
        (n_blocks (unat end_bound - unat (begin' + sz)) (unat sz))"
      "lseg m' p (zs @ [t]) q'" "distinct (zs @ [t])"
      "\<And>y. y \<notin> set (begin' # slots (begin' + sz) sz (n_blocks (unat end_bound - unat (begin' + sz)) (unat sz))) \<Longrightarrow>
        m' y = ?m y"
      by blast
    have "carve_loop (Suc fuel) m tail begin' end_bound sz = Inr (m', t)"
      using True tl r(1) by (simp add: SetNextObj_def)
    moreover have "m' y = m y"
      if "y \<notin> set (tail # slots begin' sz (n_blocks (unat end_bound - unat begin') (unat sz)))" for y
      using r(5) [of y] that n by simp
    ultimately show ?thesis
      using r(2-4) n by (intro exI [of _ m'] exI [of _ zs] exI [of _ t] conjI exI [of _ q']) auto
  qed
qed simp

text \<open>Carving links all blocks that begin inside the span. The last of them need not end inside it.\<close>

lemma carve_ok:
  fixes base bytes sz :: u64
  assumes "0 < unat sz" "sz \<le> bytes" "base \<noteq> nullptr"
    and "unat base + unat bytes + unat sz < 18446744073709551616"
  obtains m' where "carve m base bytes sz = Inr m'"
    "lseg m' base (slots base sz (n_blocks (unat bytes) (unat sz))) nullptr"
    "distinct (slots base sz (n_blocks (unat bytes) (unat sz)))"
    "\<And>y. y \<notin> set (slots base sz (n_blocks (unat bytes) (unat sz))) \<Longrightarrow> m' y = m y"
proof -
  have u: "unat (base + bytes) = unat base + unat bytes" "unat (base + sz) = unat base + unat sz"
    using assms(4) by (simp_all add: unat_add_nowrap)
  have le: "unat sz \<le> unat bytes"
    using assms(2) by (simp add: word_le_nat_alt)
  then have n: "n_blocks (unat bytes) (unat sz) = Suc (n_blocks (unat (base + bytes) - unat (base + sz)) (unat sz))"
    using n_blocks_step [OF assms(1), of "unat bytes"] assms(1) u by simp
  have "n_blocks (unat (base + bytes) - unat (base + sz)) (unat sz) < 18446744073709551616"
    using n_blocks_le [OF assms(1), of "unat (base + bytes) - unat (base + sz)"] u assms(4) by linarith
  then have "n_blocks (unat (base + bytes) - unat (base + sz)) (unat sz) < walk_fuel"
    by (simp add: walk_fuel_def)
  then have "\<exists>m' zs t. carve_loop walk_fuel m base (base + sz) (base + bytes) sz = Inr (m', t) \<and>
    zs @ [t] = [] @ base # slots (base + sz) sz (n_blocks (unat (base + bytes) - unat (base + sz)) (unat sz)) \<and>
    (\<exists>q'. lseg m' base (zs @ [t]) q') \<and> distinct (zs @ [t]) \<and>
    (\<forall>y. y \<notin> set (base # slots (base + sz) sz (n_blocks (unat (base + bytes) - unat (base + sz)) (unat sz))) \<longrightarrow>
      m' y = m y)"
    using assms u le by (intro carve_loop_ok [where q = "m base"]) auto
  then obtain m' zs t q' where "carve_loop walk_fuel m base (base + sz) (base + bytes) sz = Inr (m', t)"
    "zs @ [t] = [] @ base # slots (base + sz) sz (n_blocks (unat (base + bytes) - unat (base + sz)) (unat sz))"
    "lseg m' base (zs @ [t]) q'" "distinct (zs @ [t])"
    "\<And>y. y \<notin> set (base # slots (base + sz) sz (n_blocks (unat (base + bytes) - unat (base + sz)) (unat sz))) \<Longrightarrow>
      m' y = m y"
    by blast
  moreover have "base # slots (base + sz) sz (n_blocks (unat (base + bytes) - unat (base + sz)) (unat sz)) =
      slots base sz (n_blocks (unat bytes) (unat sz))"
    by (simp only: n slots.simps)
  ultimately have z: "carve_loop walk_fuel m base (base + sz) (base + bytes) sz = Inr (m', t)"
    "zs @ [t] = slots base sz (n_blocks (unat bytes) (unat sz))" "lseg m' base (zs @ [t]) q'" "distinct (zs @ [t])"
    "\<And>y. y \<notin> set (slots base sz (n_blocks (unat bytes) (unat sz))) \<Longrightarrow> m' y = m y"
    by (simp_all only: append_Nil)
  have "t \<noteq> nullptr"
    using z(3) by (simp add: lseg_snoc)
  moreover have "base < base + bytes"
    using u le assms(1) by (simp add: word_less_nat_alt)
  ultimately have "carve m base bytes sz = Inr (m'(t := nullptr))"
    using z(1) assms(2) by (simp add: carve_def SetNextObj_def)
  moreover have "lseg (m'(t := nullptr)) base (zs @ [t]) nullptr"
    by (rule lseg_redirect [OF z(3,4)])
  moreover have "(m'(t := nullptr)) y = m y" if "y \<notin> set (slots base sz (n_blocks (unat bytes) (unat sz)))" for y
  proof -
    have "t \<in> set (zs @ [t])" by simp
    then have "y \<noteq> t"
      using that unfolding z(2) by blast
    then show ?thesis
      using z(5) [OF that] by simp
  qed
  ultimately show thesis
    using that z(2,4) by simp
qed

section \<open>Taking a batch\<close>

lemma take_range_ok:
  assumes "lseg m p (x # xs) nullptr" "unat c + length xs < 18446744073709551616"
  shows "take_range m k x c = Inr (last (take (Suc k) (x # xs)), c + of_nat (min k (length xs)))"
  using assms
proof (induction k arbitrary: p x xs c)
  case (Suc k)
  then have x: "x \<noteq> nullptr" "lseg m (m x) xs nullptr" by auto
  show ?case
  proof (cases xs)
    case Nil
    then show ?thesis using x by (simp add: NextObj_def)
  next
    case (Cons y ys)
    have c: "unat (c + 1) = unat c + 1"
      using Suc.prems(2) Cons by (simp add: unat_add_nowrap)
    have "take_range m k y (c + 1) = Inr (last (take (Suc k) (y # ys)), c + 1 + of_nat (min k (length ys)))"
      using Suc.IH [of "m x" y ys "c + 1"] x(2) Suc.prems(2) c Cons by simp
    moreover have "m x = y" "y \<noteq> nullptr"
      using x(2) Cons by auto
    ultimately show ?thesis
      using x(1) Cons by (simp add: NextObj_def)
  qed
qed simp

text \<open>The chain of one span, its count and the links change, and nothing else.\<close>

definition moved :: "central \<Rightarrow> addr \<Rightarrow> addr \<Rightarrow> i32 \<Rightarrow> links \<Rightarrow> central" where
  "moved c x f u m =
     (cc_set_spans c ((cc_spans c)\<lparr>s_free_lists := (s_free_lists (cc_spans c))(x := f),
        s_use_count := (s_use_count (cc_spans c))(x := u)\<rparr>))\<lparr>cc_mem := m\<rparr>"

text \<open>A batch of \<open>n\<close> blocks from a span whose chain is \<open>xs\<close>: the first \<open>min n (length xs)\<close>
  blocks leave as a chain of their own, the rest stay, and the count of blocks out grows.\<close>

lemma detach_range_ok:
  assumes xs: "lseg (cc_mem c) (s_free_lists (cc_spans c) x) xs nullptr" "distinct xs" "xs \<noteq> []"
    and n: "0 < unat n" and k: "k = min (unat n) (length xs)"
  obtains rest where "detach_range c x n = Inr (of_nat k, hd xs, last (take k xs),
      moved c x rest (s_use_count (cc_spans c) x + of_nat k) ((cc_mem c)(last (take k xs) := nullptr)))"
    "lseg ((cc_mem c)(last (take k xs) := nullptr)) (hd xs) (take k xs) nullptr"
    "lseg ((cc_mem c)(last (take k xs) := nullptr)) rest (drop k xs) nullptr"
proof -
  obtain y ys where y: "xs = y # ys"
    using xs(3) by (cases xs) auto
  let ?e = "last (take k xs)"
  have k1: "1 \<le> k" "k \<le> length xs"
    using n k y by simp_all
  note cut = lseg_cut [OF xs(1,2) k1]
  have len: "length xs < 18446744073709551616"
  proof -
    have "distinct (nullptr # xs)"
      using xs(2) lseg_nonnull [OF xs(1)] by simp
    then show ?thesis
      using length_distinct_u64 [of "nullptr # xs"] by simp
  qed
  have st: "s_free_lists (cc_spans c) x = y" "y \<noteq> nullptr"
    using xs(1) y by auto
  have n1: "unat (n - 1) = unat n - 1"
    using n by (simp add: unat_minus_nowrap)
  have kk: "Suc (unat n - 1) = unat n" "1 + min (unat n - 1) (length ys) = k"
    using n k y by simp_all
  have t1: "take_range (cc_mem c) (unat n - 1) y 1 =
      Inr (last (take (Suc (unat n - 1)) (y # ys)), 1 + of_nat (min (unat n - 1) (length ys)))"
    using len y xs(1) by (intro take_range_ok) auto
  have t2: "take (Suc (unat n - 1)) (y # ys) = take k xs"
    unfolding kk(1) y [symmetric] k by (simp add: min_def)
  have t3: "(1 :: u64) + of_nat (min (unat n - 1) (length ys)) = of_nat k"
    using kk(2) by (metis of_nat_1 of_nat_add)
  have t: "take_range (cc_mem c) (unat (n - 1)) y 1 = Inr (?e, of_nat k)"
    by (simp only: n1 t1 t2 t3)
  have u: "ucast (of_nat k :: u64) = (of_nat k :: i32)"
    by (simp add: unsigned_of_nat word_of_nat_eq_iff)
  have "detach_range c x n = Inr (of_nat k, y, ?e,
      moved c x (cc_mem c ?e) (s_use_count (cc_spans c) x + of_nat k) ((cc_mem c)(?e := nullptr)))"
    unfolding detach_range_def moved_def
    by (simp add: st t cut(1) NextObj_def SetNextObj_def Let_def cc_set_spans_def u)
  then show thesis
    using that cut(3-5) st(1) by simp
qed

end
