(* ===== verification/Central_Inv.thy ===== *)
theory Central_Inv
  imports Central_Cache
begin

text \<open>
  The invariant of the central cache over the page cache, and its preservation by
  \<open>FetchRangeObj\<close> and \<open>ReleaseListToSpans\<close>. \<open>L\<close> and \<open>U\<close> are the free lists and the spans in use
  of the page cache, \<open>C i\<close> the spans of class \<open>i\<close>, and \<open>B x\<close> the chain of free blocks of the
  span \<open>x\<close>. The blocks of a span that are not in its chain are out: with a thread cache or
  with the program.
\<close>

section \<open>Blocks of a span\<close>

definition span_base :: "span_heap \<Rightarrow> addr \<Rightarrow> addr" where
  "span_base h x = push_bit PAGE_SHIFT (s_page_id h x)"

definition blocks :: "span_heap \<Rightarrow> addr \<Rightarrow> addr list" where
  "blocks h x = slots (span_base h x) (s_obj_size h x) (n_blocks (np h x * 8192) (unat (s_obj_size h x)))"

definition is_class :: "u64 \<Rightarrow> nat \<Rightarrow> bool" where
  "is_class sz i \<longleftrightarrow> 0 < unat sz \<and> unat sz \<le> 262144 \<and> RoundUp sz = sz \<and> bucket_of sz = Some i"

lemma is_class_RoundUp:
  assumes "0 < unat s" "unat s \<le> 262144"
  shows "\<exists>i. is_class (RoundUp s) i \<and> i < 208"
proof -
  obtain i where i: "i < 208" "bucket_of s = Some i"
    using sc.bucket_in_range [OF assms] by blast
  then have "is_class (RoundUp s) i"
    unfolding is_class_def
    using sc.round_up_pos [OF assms] sc.round_up_limit [OF assms] sc.round_up_idem [OF assms]
      sc.bucket_round_up [OF assms] by simp
  then show ?thesis using i by blast
qed

lemma is_class_less: "is_class sz i \<Longrightarrow> i < 208"
  using sc.bucket_in_range [of sz] by (auto simp: is_class_def)

lemma is_class_eq: "is_class s i \<Longrightarrow> is_class t i \<Longrightarrow> s = t"
  using sc.same_bucket [of s t] by (simp add: is_class_def)

lemma is_class_Index:
  assumes "is_class sz i"
  shows "Index sz = Inr (of_nat i)" "unat (of_nat i :: u64) = i" "(of_nat i :: u64) < NFREE_LISTS"
proof -
  show "Index sz = Inr (of_nat i)"
    using assms Index_bucket by (simp add: is_class_def)
  show u: "unat (of_nat i :: u64) = i"
    using is_class_less [OF assms] by (intro unat_of_nat_small) simp
  show "(of_nat i :: u64) < NFREE_LISTS"
    using is_class_less [OF assms] u by (simp add: word_less_nat_alt NFREE_LISTS_def)
qed

text \<open>Where a span's pages are, its blocks begin: the page of a block belongs to the span.\<close>

definition span_sane :: "span_heap \<Rightarrow> addr \<Rightarrow> bool" where
  "span_sane h x \<longleftrightarrow> 1 \<le> lo h x \<and> 1 \<le> np h x \<and> lo h x + np h x \<le> 1125899906842624 \<and>
     0 < unat (s_obj_size h x) \<and> unat (s_obj_size h x) \<le> 262144"

lemma n_blocks_mult: "0 < s \<Longrightarrow> n_blocks b s * s < b + s"
  using ceil_div_bounds(2) [of s b] by (simp add: n_blocks_def ceil_div_def)

lemma unat_span_base:
  assumes "span_sane h x"
  shows "unat (span_base h x) = lo h x * 8192"
  using assms unat_push_bit_u64 [of "s_page_id h x" 13]
  by (simp add: span_sane_def span_base_def PAGE_SHIFT_def lo_def)

lemma blocks_fit:
  assumes "span_sane h x"
  shows "unat (span_base h x) + n_blocks (np h x * 8192) (unat (s_obj_size h x)) * unat (s_obj_size h x)
    < 18446744073709551616"
  using n_blocks_mult [of "unat (s_obj_size h x)" "np h x * 8192"] assms unat_span_base [OF assms]
  by (simp add: span_sane_def)

lemma block_start:
  assumes "span_sane h x" "a \<in> set (blocks h x)"
  shows "lo h x * 8192 \<le> unat a" "unat a < (lo h x + np h x) * 8192"
proof -
  let ?s = "unat (s_obj_size h x)"
  let ?n = "n_blocks (np h x * 8192) ?s"
  have s: "0 < ?s"
    using assms(1) by (simp add: span_sane_def)
  obtain i where i: "i < ?n" "a = span_base h x + of_nat i * s_obj_size h x"
    using assms(2) by (auto simp: blocks_def in_set_conv_nth slots_nth)
  have u: "unat a = lo h x * 8192 + i * ?s"
    using unat_slot [OF blocks_fit [OF assms(1)] i(1)] i(2) unat_span_base [OF assms(1)] by simp
  have "Suc i * ?s \<le> ?n * ?s"
    using i(1) by (intro mult_le_mono1) simp
  then have "i * ?s < np h x * 8192"
    using n_blocks_mult [OF s, of "np h x * 8192"] by simp
  then show "lo h x * 8192 \<le> unat a" "unat a < (lo h x + np h x) * 8192"
    using u by (simp_all add: algebra_simps)
qed

lemma block_owner:
  assumes "span_sane h x" "a \<in> set (blocks h x)"
  shows "owns h x (drop_bit PAGE_SHIFT a)" "a \<noteq> nullptr"
proof -
  have "unat (drop_bit PAGE_SHIFT a) = unat a div 8192"
    by (simp add: PAGE_SHIFT_def unat_drop_bit_u64)
  then show "owns h x (drop_bit PAGE_SHIFT a)"
    using block_start [OF assms] by (simp add: owns_def less_eq_div_iff_mult_less_eq div_less_iff_less_mult)
  show "a \<noteq> nullptr"
    using block_start(1) [OF assms] assms(1) by (auto simp: span_sane_def)
qed

lemma distinct_blocks: "span_sane h x \<Longrightarrow> distinct (blocks h x)"
  unfolding blocks_def by (intro distinct_slots blocks_fit) (simp_all add: span_sane_def)

section \<open>The invariant\<close>

definition cc_inv :: "central \<Rightarrow> (nat \<Rightarrow> addr list) \<Rightarrow> addr set \<Rightarrow> (nat \<Rightarrow> addr list) \<Rightarrow>
    (addr \<Rightarrow> addr list) \<Rightarrow> bool" where
  "cc_inv c L U C B \<longleftrightarrow>
     pc_inv (cc_pc c) L U {} {} \<and>
     buckets_ok sl_rep (cc_spans c) (cc_heads c) C 208 \<and>
     cc_heads c ` {..<208} \<inter> (pc_foot (cc_pc c) L \<union> U) = {} \<and>
     (\<forall>i < 208. \<forall>x \<in> set (C i). x \<in> U \<and> np (cc_spans c) x \<le> 128 \<and> is_class (s_obj_size (cc_spans c) x) i) \<and>
     owned 208 (blocks (cc_spans c)) (s_free_lists (cc_spans c)) (s_use_count (cc_spans c)) (cc_mem c) C B"

definition live :: "central \<Rightarrow> (nat \<Rightarrow> addr list) \<Rightarrow> (addr \<Rightarrow> addr list) \<Rightarrow> nat \<Rightarrow> addr set" where
  "live c C B = out_of (blocks (cc_spans c)) C B"

lemma cc_invD:
  assumes "cc_inv c L U C B"
  shows "pc_inv (cc_pc c) L U {} {}" "buckets_ok sl_rep (cc_spans c) (cc_heads c) C 208"
    "cc_heads c ` {..<208} \<inter> (pc_foot (cc_pc c) L \<union> U) = {}"
    "i < 208 \<Longrightarrow> x \<in> set (C i) \<Longrightarrow> x \<in> U \<and> np (cc_spans c) x \<le> 128 \<and> is_class (s_obj_size (cc_spans c) x) i"
    "owned 208 (blocks (cc_spans c)) (s_free_lists (cc_spans c)) (s_use_count (cc_spans c)) (cc_mem c) C B"
  using assms by (simp_all add: cc_inv_def)

lemma pc_inv_foot: "pc_inv s L U {} {} \<Longrightarrow> U \<inter> pc_foot s L = {}"
proof -
  assume inv: "pc_inv s L U {} {}"
  then obtain xs where xs: "op_rep SPAN_SIZE (pc_pool s) xs" "set xs \<inter> (pc_heads s ` {..<129} \<union> free_spans L \<union> U) = {}"
    by (auto simp: pc_inv_def pool_inv_def)
  then show ?thesis
    using inv pool_slots_rep [OF xs(1)] by (auto simp: pc_inv_def pc_foot_def)
qed

text \<open>A span of a class that the layout knows is sane, and its blocks fit the count of 32 bits.\<close>

lemma class_sane:
  assumes "layout_ok h A" "x \<in> A" "is_class (s_obj_size h x) i" "np h x \<le> 128"
  shows "span_sane h x" "distinct (blocks h x)" "nullptr \<notin> set (blocks h x)" "length (blocks h x) < 2 ^ LENGTH(32)"
proof -
  show s: "span_sane h x"
    using layout_bounds [OF assms(1,2)] assms(3) by (simp add: span_sane_def is_class_def)
  then show "distinct (blocks h x)" "nullptr \<notin> set (blocks h x)"
    using distinct_blocks block_owner(2) by blast+
  have "length (blocks h x) \<le> np h x * 8192"
    using n_blocks_le s by (simp add: blocks_def span_sane_def)
  then show "length (blocks h x) < 2 ^ LENGTH(32)"
    using assms(4) by simp
qed

lemma cc_inv_sane:
  assumes "cc_inv c L U C B" "i < 208" "x \<in> set (C i)"
  shows "span_sane (cc_spans c) x" "x \<in> U" "x \<noteq> nullptr"
proof -
  note x = cc_invD(4) [OF assms]
  have "layout_ok (cc_spans c) (free_spans L \<union> U)" "nullptr \<notin> U"
    using cc_invD(1) [OF assms(1)] by (auto simp: pc_inv_def pool_inv_def)
  then show "span_sane (cc_spans c) x" "x \<in> U" "x \<noteq> nullptr"
    using x class_sane(1) [of "cc_spans c" "free_spans L \<union> U" x i] by auto
qed

text \<open>A block leads to its span, and to no other.\<close>

lemma PageToSpan_block:
  assumes "cc_inv c L U C B" "i < 208" "x \<in> set (C i)" "a \<in> set (blocks (cc_spans c) x)"
  shows "PageToSpan (cc_pc c) a = Inr x"
proof -
  have s: "span_sane (cc_spans c) x" "x \<in> U"
    using cc_inv_sane [OF assms(1-3)] by auto
  have "pm_get (pc_map (cc_pc c)) (drop_bit PAGE_SHIFT a) = x"
  proof -
    have "map_ok (cc_spans c) (pc_map (cc_pc c)) (free_spans L) U {}"
      using assms(1) by (simp add: cc_inv_def pc_inv_def)
    then show ?thesis
      using block_owner(1) [OF s(1) assms(4)] s(2) unfolding map_ok_def by simp
  qed
  moreover have "x \<noteq> nullptr"
    using assms(1) s(2) by (auto simp: cc_inv_def pc_inv_def pool_inv_def)
  ultimately show ?thesis
    by (simp add: PageToSpan_def Let_def)
qed

lemma blocks_disjoint:
  assumes "layout_ok h A" "x \<in> A" "y \<in> A" "x \<noteq> y" "span_sane h x" "span_sane h y"
  shows "set (blocks h x) \<inter> set (blocks h y) = {}"
  using owns_unique [OF assms(1-3)] block_owner(1) [OF assms(5)] block_owner(1) [OF assms(6)] assms(4) by blast

section \<open>Changes the page cache does not see\<close>

lemma pc_inv_frame:
  assumes "pc_inv s L U X N"
    and "s_page_id h' = s_page_id (pc_spans s)" "s_npage h' = s_npage (pc_spans s)"
      "s_is_used h' = s_is_used (pc_spans s)"
    and "\<And>z. z \<in> pc_heads s ` {..<129} \<union> free_spans L \<Longrightarrow>
      s_next h' z = s_next (pc_spans s) z \<and> s_prev h' z = s_prev (pc_spans s) z"
  shows "pc_inv (s\<lparr>pc_spans := h'\<rparr>) L U X N"
proof -
  have e: "lo h' = lo (pc_spans s)" "np h' = np (pc_spans s)"
    using assms(2,3) by (simp_all add: lo_def np_def fun_eq_iff)
  have "sl_rep h' (pc_heads s i) (L i) = sl_rep (pc_spans s) (pc_heads s i) (L i)" if "i < 129" for i
    using that assms(5) by (intro sl_rep_cong) (auto simp: free_spans_def)
  then have "buckets_ok sl_rep h' (pc_heads s) L 129"
    using assms(1) by (simp add: pc_inv_def buckets_ok_def)
  moreover have "owns h' = owns (pc_spans s)" "at_end h' = at_end (pc_spans s)"
    by (simp_all add: owns_def at_end_def e fun_eq_iff)
  ultimately show ?thesis
    using assms(1,4) by (simp add: pc_inv_def layout_ok_def map_ok_def flags_ok_def e)
qed

lemma pc_foot_spans [simp]: "pc_foot (s\<lparr>pc_spans := h\<rparr>) L = pc_foot s L"
  by (simp add: pc_foot_def)

lemma blocks_cong:
  "s_page_id h' x = s_page_id h x \<Longrightarrow> s_npage h' x = s_npage h x \<Longrightarrow> s_obj_size h' x = s_obj_size h x \<Longrightarrow>
    blocks h' x = blocks h x"
  by (simp add: blocks_def span_base_def np_def)

lemma central_nodes:
  assumes "cc_inv c L U C B" "i < 208"
  shows "insert (cc_heads c i) (set (C i)) \<inter> pc_foot (cc_pc c) L = {}"
  using cc_invD(3,4) [OF assms(1)] assms(2) pc_inv_foot [OF cc_invD(1) [OF assms(1)]] by blast

lemma moved_fields [simp]:
  "cc_mem (moved c x f u m) = m" "cc_heads (moved c x f u m) = cc_heads c"
  "s_page_id (cc_spans (moved c x f u m)) = s_page_id (cc_spans c)"
  "s_npage (cc_spans (moved c x f u m)) = s_npage (cc_spans c)"
  "s_obj_size (cc_spans (moved c x f u m)) = s_obj_size (cc_spans c)"
  "s_is_used (cc_spans (moved c x f u m)) = s_is_used (cc_spans c)"
  "s_next (cc_spans (moved c x f u m)) = s_next (cc_spans c)"
  "s_prev (cc_spans (moved c x f u m)) = s_prev (cc_spans c)"
  "s_free_lists (cc_spans (moved c x f u m)) = (s_free_lists (cc_spans c))(x := f)"
  "s_use_count (cc_spans (moved c x f u m)) = (s_use_count (cc_spans c))(x := u)"
  by (simp_all add: moved_def cc_set_spans_def)

lemma moved_pc: "cc_pc (moved c x f u m) = (cc_pc c)\<lparr>pc_spans := cc_spans (moved c x f u m)\<rparr>"
  by (simp add: moved_def cc_set_spans_def)

lemma blocks_moved [simp]: "blocks (cc_spans (moved c x f u m)) = blocks (cc_spans c)"
  by (rule ext, rule blocks_cong) simp_all

lemma cc_inv_moved:
  assumes inv: "cc_inv c L U C B"
    and own: "owned 208 (blocks (cc_spans c)) ((s_free_lists (cc_spans c))(x := f)) ((s_use_count (cc_spans c))(x := u)) m C B'"
  shows "cc_inv (moved c x f u m) L U C B'"
proof -
  have "pc_inv (cc_pc (moved c x f u m)) L U {} {}"
    by (subst moved_pc, rule pc_inv_frame [OF cc_invD(1) [OF inv]]) simp_all
  moreover have "buckets_ok sl_rep (cc_spans (moved c x f u m)) (cc_heads c) C 208"
    using cc_invD(2) [OF inv] buckets_cong [of "cc_spans (moved c x f u m)" "cc_spans c"] by simp
  moreover have "pc_foot (cc_pc (moved c x f u m)) L = pc_foot (cc_pc c) L"
    by (subst moved_pc) simp
  ultimately show ?thesis
    using inv own by (simp add: cc_inv_def np_def del: fun_upd_apply)
qed

text \<open>Links of blocks that are out are no concern of the central cache.\<close>

lemma cc_inv_mem:
  assumes inv: "cc_inv c L U C B" and i: "i < 208" and m: "\<And>a. a \<notin> live c C B i \<Longrightarrow> m a = cc_mem c a"
  shows "cc_inv (c\<lparr>cc_mem := m\<rparr>) L U C B"
  using inv owned_mem [OF cc_invD(5) [OF inv] i, of m] m by (simp add: cc_inv_def live_def)

lemma live_mem [simp]: "live (c\<lparr>cc_mem := m\<rparr>) C B = live c C B"
  by (simp add: live_def)

lemma live_disjoint:
  assumes "cc_inv c L U C B" "i < 208" "j < 208" "i \<noteq> j"
  shows "live c C B i \<inter> live c C B j = {}"
  unfolding live_def by (rule out_of_disjoint [OF cc_invD(5) [OF assms(1)] assms(2-4)])

section \<open>A fresh span\<close>

lemma class_pages:
  assumes "is_class sz i"
  obtains p where "NumMovePage sz = Inr p" "1 \<le> unat p" "unat p \<le> 128" "unat sz \<le> unat p * 8192"
proof -
  have s: "0 < unat sz" "unat sz \<le> 512 * 1024"
    using assms by (simp_all add: is_class_def)
  obtain k :: u64 and p where p: "NumMovePage sz = Inr p" "2 \<le> unat k" "1 \<le> unat p" "p < NPAGE_LISTS"
      "unat k * unat sz \<le> unat p * 8192"
    using NumMovePage_ok [OF s] by blast
  have "unat sz \<le> unat k * unat sz"
    using p(2) by simp
  then have "unat sz \<le> unat p * 8192"
    using p(5) by (rule le_trans)
  moreover have "unat p \<le> 128"
    using p(4) by (simp add: word_less_nat_alt NPAGE_LISTS_def)
  ultimately show thesis
    using that p by blast
qed

text \<open>What \<open>FetchRangeObj\<close> does to the span it gets, before it is cut.\<close>

definition init_span :: "span_heap \<Rightarrow> addr \<Rightarrow> u64 \<Rightarrow> span_heap" where
  "init_span h x sz = h\<lparr>s_obj_size := (s_obj_size h)(x := sz), s_use_count := (s_use_count h)(x := 0),
     s_is_used := (s_is_used h)(x := True), s_free_lists := (s_free_lists h)(x := push_bit PAGE_SHIFT (s_page_id h x))\<rparr>"

lemma init_span_simps [simp]:
  "s_page_id (init_span h x sz) = s_page_id h" "s_npage (init_span h x sz) = s_npage h"
  "s_next (init_span h x sz) = s_next h" "s_prev (init_span h x sz) = s_prev h"
  "s_obj_size (init_span h x sz) = (s_obj_size h)(x := sz)"
  "s_use_count (init_span h x sz) = (s_use_count h)(x := 0)"
  "s_is_used (init_span h x sz) = (s_is_used h)(x := True)"
  "s_free_lists (init_span h x sz) = (s_free_lists h)(x := push_bit PAGE_SHIFT (s_page_id h x))"
  by (simp_all add: init_span_def)

text \<open>The span joins the list of its class: the invariants of both caches hold again.\<close>

lemma fresh_inv:
  assumes inv: "cc_inv c L U C B" and cl: "is_class sz i"
    and new: "x \<notin> U" "np (pc_spans pc) x \<le> 128" "pc_inv (mark_used pc x) L' (insert x U) {} {}"
      "frame_out (pc_foot (cc_pc c) L) (cc_spans c) (pc_spans pc)" "insert x (pc_foot pc L') \<subseteq> pc_foot (cc_pc c) L"
    and h': "same_data (insert x (insert (cc_heads c i) (set (C i)))) (init_span (pc_spans pc) x sz) h'"
      "buckets_ok sl_rep h' (cc_heads c) (C(i := x # C i)) 208"
    and c': "c' = c\<lparr>cc_pc := pc\<lparr>pc_spans := h'\<rparr>, cc_mem := m'\<rparr>"
    and m': "lseg m' (span_base (pc_spans pc) x) (blocks h' x) nullptr"
      "\<And>a. a \<notin> set (blocks h' x) \<Longrightarrow> m' a = cc_mem c a"
  shows "cc_inv c' L' (insert x U) (C(i := x # C i)) (B(x := blocks h' x))"
    and "j < 208 \<Longrightarrow> live c' (C(i := x # C i)) (B(x := blocks h' x)) j = live c C B j"
proof -
  have i: "i < 208"
    by (rule is_class_less [OF cl])
  note d = same_data_simps(1-8) [OF h'(1), simplified]
  have UF: "U \<inter> pc_foot (cc_pc c) L = {}"
    by (rule pc_inv_foot [OF cc_invD(1) [OF inv]])
  have C_U: "z \<in> U \<and> z \<noteq> x" if "j < 208" "z \<in> set (C j)" for j z
    using cc_invD(4) [OF inv that] new(1) by auto
  have fr: "s_page_id h' z = s_page_id (cc_spans c) z" "s_npage h' z = s_npage (cc_spans c) z"
      "s_obj_size h' z = s_obj_size (cc_spans c) z" "s_free_lists h' z = s_free_lists (cc_spans c) z"
      "s_use_count h' z = s_use_count (cc_spans c) z" if "z \<in> U" for z
  proof -
    have "z \<notin> pc_foot (cc_pc c) L" "z \<noteq> x"
      using that UF new(5) by auto
    then show "s_page_id h' z = s_page_id (cc_spans c) z" "s_npage h' z = s_npage (cc_spans c) z"
      "s_obj_size h' z = s_obj_size (cc_spans c) z" "s_free_lists h' z = s_free_lists (cc_spans c) z"
      "s_use_count h' z = s_use_count (cc_spans c) z"
      using new(4) by (simp_all add: d frame_out_def)
  qed
  have pci: "pc_inv (pc\<lparr>pc_spans := h'\<rparr>) L' (insert x U) {} {}"
  proof -
    have e: "s_next h' z = s_next (pc_spans pc) z \<and> s_prev h' z = s_prev (pc_spans pc) z"
      if "z \<in> pc_heads pc ` {..<129} \<union> free_spans L'" for z
    proof -
      have "z \<in> pc_foot pc L'" "z \<noteq> x"
        using that new(3) by (auto simp: pc_inv_def pc_foot_def)
      then have "z \<notin> insert x (insert (cc_heads c i) (set (C i)))"
        using new(5) central_nodes [OF inv i] by blast
      then show ?thesis
        using h'(1) by (auto simp: same_data_def)
    qed
    have "pc_inv ((mark_used pc x)\<lparr>pc_spans := h'\<rparr>) L' (insert x U) {} {}"
      by (rule pc_inv_frame [OF new(3)]) (simp_all add: d e)
    then show ?thesis
      by (simp add: mark_used_def)
  qed
  have lay: "layout_ok h' (free_spans L' \<union> insert x U)"
    using pci by (simp add: pc_inv_def)
  have xh: "is_class (s_obj_size h' x) i" "np h' x \<le> 128"
    using cl new(2) by (simp_all add: d np_def)
  have zh: "z \<in> U" "is_class (s_obj_size h' z) j" "np h' z \<le> 128" "blocks h' z = blocks (cc_spans c) z"
    if "j < 208" "z \<in> set (C j)" for j z
    using C_U [OF that] cc_invD(4) [OF inv that] fr [of z] by (auto simp: np_def intro!: blocks_cong)
  note sx = class_sane [OF lay _ xh, simplified]
  have ch: "chain_of m' (s_free_lists h' x) (s_use_count h' x) (blocks h' x) ((B(x := blocks h' x)) x)"
    using sx(2-4) m'(1) by (simp add: chain_of_def d span_base_def)
  have ap: "set (blocks h' x) \<inter> set (blocks (cc_spans c) z) = {}" if "j < 208" "z \<in> set (C j)" for j z
    using blocks_disjoint [OF lay _ _ _ sx(1) class_sane(1) [OF lay _ zh(2,3) [OF that]]] zh [OF that] C_U [OF that] by auto
  have eq: "blocks h' z = blocks (cc_spans c) z \<and> s_free_lists h' z = s_free_lists (cc_spans c) z \<and>
      s_use_count h' z = s_use_count (cc_spans c) z \<and> (B(x := blocks h' x)) z = B z" if "j < 208" "z \<in> set (C j)" for j z
    using zh [OF that] fr [of z] C_U [OF that] by simp
  have xC: "x \<notin> set (C j)" if "j < 208" for j
    using C_U [OF that] by blast
  note oj = owned_join [OF cc_invD(5) [OF inv] i xC ch _ eq ap]
  have "owned 208 (blocks h') (s_free_lists h') (s_use_count h') m' (C(i := x # C i)) (B(x := blocks h' x))"
    by (rule oj(1)) (use m'(2) in simp_all)
  moreover have "z \<in> insert x U \<and> np h' z \<le> 128 \<and> is_class (s_obj_size h' z) j"
    if z: "j < 208" "z \<in> set ((C(i := x # C i)) j)" for j z
  proof (cases "z = x")
    case True
    then have "j = i"
      using z xC [OF z(1)] by (auto split: if_splits)
    then show ?thesis
      using True xh by simp
  next
    case False
    then have "z \<in> set (C j)"
      using z(2) by (auto split: if_splits)
    then show ?thesis
      using zh(1-3) [OF z(1)] by auto
  qed
  moreover have "cc_heads c ` {..<208} \<inter> (pc_foot pc L' \<union> insert x U) = {}"
    using cc_invD(3) [OF inv] new(5) by blast
  ultimately show "cc_inv c' L' (insert x U) (C(i := x # C i)) (B(x := blocks h' x))"
    unfolding cc_inv_def using pci h'(2) by (simp add: c')
  show "live c' (C(i := x # C i)) (B(x := blocks h' x)) j = live c C B j" if "j < 208"
    unfolding live_def c' by (simp, rule oj(2)) (use m'(2) that in simp_all)
qed

lemma fresh_span_ok:
  assumes inv: "cc_inv c L U C B" and cl: "is_class sz i"
    and ns: "\<And>p. NumMovePage sz = Inr p \<Longrightarrow> new_span_ok (cc_pc c) L U (unat p) (NewSpan (cc_pc c) p)"
  obtains x c' L' where "fresh_span c i sz = Inr (x, c')" "x \<notin> U"
    "cc_inv c' L' (insert x U) (C(i := x # C i)) (B(x := blocks (cc_spans c') x))"
    "blocks (cc_spans c') x \<noteq> []" "s_obj_size (cc_spans c') x = sz" "cc_heads c' = cc_heads c"
    "\<And>a. a \<notin> set (blocks (cc_spans c') x) \<Longrightarrow> cc_mem c' a = cc_mem c a"
    "\<And>j. j < 208 \<Longrightarrow> live c' (C(i := x # C i)) (B(x := blocks (cc_spans c') x)) j = live c C B j"
proof -
  have i: "i < 208"
    by (rule is_class_less [OF cl])
  obtain p where p: "NumMovePage sz = Inr p" "1 \<le> unat p" "unat p \<le> 128" "unat sz \<le> unat p * 8192"
    using class_pages [OF cl] by blast
  obtain x pc L' where x: "NewSpan (cc_pc c) p = Inr (x, pc)" "x \<notin> U" "np (pc_spans pc) x = unat p"
      "pc_inv (mark_used pc x) L' (insert x U) {} {}"
      "frame_out (pc_foot (cc_pc c) L) (cc_spans c) (pc_spans pc)" "insert x (pc_foot pc L') \<subseteq> pc_foot (cc_pc c) L"
    using ns [OF p(1)] unfolding new_span_ok_def by auto
  let ?h = "init_span (pc_spans pc) x sz"
  let ?base = "span_base (pc_spans pc) x"
  let ?bytes = "push_bit PAGE_SHIFT (s_npage (pc_spans pc) x)"
  have lay: "layout_ok (pc_spans pc) (free_spans L' \<union> insert x U)"
    using x(4) by (simp add: pc_inv_def)
  have x0: "x \<noteq> nullptr"
    using x(4) by (auto simp: pc_inv_def pool_inv_def)
  have b: "1 \<le> lo (pc_spans pc) x" "lo (pc_spans pc) x + unat p \<le> 1125899906842624"
    using layout_bounds [OF lay, of x] x(3) by auto
  have s: "0 < unat sz" "unat sz \<le> 262144"
    using cl by (simp_all add: is_class_def)
  have ub: "unat ?base = lo (pc_spans pc) x * 8192"
    using b unat_push_bit_u64 [of "s_page_id (pc_spans pc) x" 13] by (simp add: span_base_def PAGE_SHIFT_def lo_def)
  have uy: "unat ?bytes = unat p * 8192"
    using p(3) x(3) unat_push_bit_u64 [of "s_npage (pc_spans pc) x" 13] by (simp add: PAGE_SHIFT_def np_def)
  have bl: "slots ?base sz (n_blocks (unat ?bytes) (unat sz)) = blocks ?h x"
    using x(3) uy by (simp add: blocks_def span_base_def np_def)
  have le: "sz \<le> ?bytes"
    using p(4) uy by (simp add: word_le_nat_alt)
  have ne: "?base \<noteq> nullptr"
    using ub b(1) by (metis mult_is_0 not_one_le_zero unat_0 zero_neq_numeral)
  have fit: "unat ?base + unat ?bytes + unat sz < 18446744073709551616"
    using ub uy b(2) s(2) by simp
  obtain m' where m': "carve (cc_mem c) ?base ?bytes sz = Inr m'" "lseg m' ?base (blocks ?h x) nullptr"
      "\<And>a. a \<notin> set (blocks ?h x) \<Longrightarrow> m' a = cc_mem c a"
    using carve_ok [OF s(1) le ne fit, of "cc_mem c"] unfolding bl by blast
  have nodes: "x \<notin> insert (cc_heads c j) (set (C j))" if "j < 208" for j
    using central_nodes [OF inv that] x(6) by auto
  have "buckets_ok sl_rep (pc_spans pc) (cc_heads c) C 208"
    using inv frame_out_sl_rep [OF x(5)] central_nodes [OF inv] by (simp add: cc_inv_def buckets_ok_def)
  then have b2: "buckets_ok sl_rep ?h (cc_heads c) C 208"
    using buckets_cong [of ?h "pc_spans pc"] by simp
  obtain h' where h': "sl_Push_Front ?h (cc_heads c i) x = Inr h'"
      "same_data (insert x (insert (cc_heads c i) (set (C i)))) ?h h'" "buckets_ok sl_rep h' (cc_heads c) (C(i := x # C i)) 208"
    using sl.push_front_buckets [OF b2 i x0 nodes] by blast
  note d = same_data_simps(1-8) [OF h'(2), simplified]
  have bh: "blocks h' x = blocks ?h x"
    by (rule blocks_cong) (simp_all add: d)
  let ?c = "c\<lparr>cc_pc := pc\<lparr>pc_spans := h'\<rparr>, cc_mem := m'\<rparr>"
  have "fresh_span c i sz = Inr (x, ?c)"
    using p(1) x(1) x0 m'(1) h'(1) unfolding fresh_span_def span_base_def init_span_def
    by (simp add: Let_def)
  moreover have "cc_inv ?c L' (insert x U) (C(i := x # C i)) (B(x := blocks h' x))"
      "\<And>j. j < 208 \<Longrightarrow> live ?c (C(i := x # C i)) (B(x := blocks h' x)) j = live c C B j"
    using fresh_inv [OF inv cl x(2) _ x(4-6) h'(2,3), of ?c m'] m'(2,3) bh x(3) p(3) by simp_all
  moreover have "blocks h' x \<noteq> []"
  proof -
    have "n_blocks (unat p * 8192) (unat sz) \<noteq> 0"
      using n_blocks_step [OF s(1), of "unat p * 8192"] p(2) by simp
    then show ?thesis
      unfolding bh using bl [symmetric] uy by simp
  qed
  moreover have "s_obj_size h' x = sz"
    by (simp add: d)
  ultimately show thesis
    using that [of x ?c L'] x(2) m'(3) bh by simp
qed

section \<open>\<open>FetchRangeObj\<close>\<close>

definition supply_ok :: "pcache \<Rightarrow> (nat \<Rightarrow> addr list) \<Rightarrow> addr set \<Rightarrow> nat \<Rightarrow> bool" where
  "supply_ok s L U n \<longleftrightarrow>
     (\<exists>xs. op_rep SPAN_SIZE (pc_pool s) xs \<and> 2 \<le> length xs) \<and>
     ((\<forall>l. n \<le> l \<and> l < 129 \<longrightarrow> L l = []) \<longrightarrow>
       (\<exists>ptr rest. pc_mmaps s = ptr # rest \<and> fresh_pages (pc_spans s) (free_spans L \<union> U) ptr 129))"

lemma NewSpan_supply:
  assumes "pc_inv s L U {} {}" "1 \<le> unat p" "unat p \<le> 128" "supply_ok s L U (unat p)"
  shows "new_span_ok s L U (unat p) (NewSpan s p)"
proof -
  obtain xs where xs: "op_rep SPAN_SIZE (pc_pool s) xs" "2 \<le> length xs"
    using assms(4) by (auto simp: supply_ok_def)
  show ?thesis
  proof (cases "\<forall>l. unat p \<le> l \<and> l < 129 \<longrightarrow> L l = []")
    case True
    then obtain ptr rest where "pc_mmaps s = ptr # rest \<and> fresh_pages (pc_spans s) (free_spans L \<union> U) ptr 129"
      using assms(4) by (auto simp: supply_ok_def)
    then show ?thesis
      by (intro NewSpan_ok [OF assms(1-3) refl xs])
  next
    case False
    show ?thesis
      by (rule NewSpan_ok [OF assms(1-3) refl xs]) (use False in blast)
  qed
qed

definition fetch_ok :: "central \<Rightarrow> (nat \<Rightarrow> addr list) \<Rightarrow> (addr \<Rightarrow> addr list) \<Rightarrow> nat \<Rightarrow> u64 \<Rightarrow>
    (u64 \<times> addr \<times> addr \<times> central) res \<Rightarrow> bool" where
  "fetch_ok c C B i n r \<longleftrightarrow>
     (\<exists>bs c' L' U' C' B'. r = Inr (of_nat (length bs), hd bs, last bs, c') \<and>
        bs \<noteq> [] \<and> length bs \<le> unat n \<and> distinct bs \<and> lseg (cc_mem c') (hd bs) bs nullptr \<and>
        cc_inv c' L' U' C' B' \<and> cc_heads c' = cc_heads c \<and> (\<forall>j < 208. set bs \<inter> live c C B j = {}) \<and>
        (\<forall>j < 208. live c' C' B' j = live c C B j \<union> (if j = i then set bs else {})) \<and>
        (\<forall>j < 208. \<forall>a \<in> live c C B j. cc_mem c' a = cc_mem c a))"

lemma fetch_from_span:
  assumes inv: "cc_inv c L U C B" and x: "i < 208" "x \<in> set (C i)" and n: "0 < unat n" and B: "B x \<noteq> []"
  shows "fetch_ok c C B i n (detach_range c x n)"
proof -
  let ?k = "min (unat n) (length (B x))"
  let ?bs = "take ?k (B x)"
  note own = cc_invD(5) [OF inv]
  note o = ownedD [OF own x]
  let ?c = "\<lambda>rest. moved c x rest (s_use_count (cc_spans c) x + of_nat ?k) ((cc_mem c)(last ?bs := nullptr))"
  obtain rest where r: "detach_range c x n = Inr (of_nat ?k, hd (B x), last ?bs, ?c rest)"
    "lseg ((cc_mem c)(last ?bs := nullptr)) (hd (B x)) ?bs nullptr"
    "lseg ((cc_mem c)(last ?bs := nullptr)) rest (drop ?k (B x)) nullptr"
    using detach_range_ok [OF o(5,3) B n refl] by blast
  have k: "1 \<le> ?k" "?k \<le> length (B x)"
    using n B by (simp_all add: Suc_le_eq)
  note tk = owned_take [OF own x k refl r(3)]
  have inv': "cc_inv (?c rest) L U C (B(x := drop ?k (B x)))"
    by (rule cc_inv_moved [OF inv tk(1)])
  have bs: "length ?bs = ?k" "?bs \<noteq> []" "hd ?bs = hd (B x)" "distinct ?bs"
    using k B o(3) by auto
  have nl: "set ?bs \<inter> live c C B j = {}" if "j < 208" for j
    using tk(3) [OF that] by (simp add: live_def)
  have "cc_mem (?c rest) a = cc_mem c a" if "j < 208" "a \<in> live c C B j" for a j
  proof -
    have "last ?bs \<in> set ?bs"
      using bs(2) by (rule last_in_set)
    then have "a \<noteq> last ?bs"
      using nl [OF that(1)] that(2) by auto
    then show ?thesis by simp
  qed
  moreover have "live (?c rest) C (B(x := drop ?k (B x))) j = live c C B j \<union> (if j = i then set ?bs else {})" if "j < 208" for j
    using tk(2) [OF that] by (simp add: live_def)
  ultimately show ?thesis
    unfolding fetch_ok_def using r(1,2) bs nl inv'
    by (intro exI [of _ ?bs] exI [of _ "?c rest"] exI [of _ L] exI [of _ U] exI [of _ C]
        exI [of _ "B(x := drop ?k (B x))"] conjI) (simp_all del: take_take)
qed

lemma FetchRangeObj_ok:
  assumes inv: "cc_inv c L U C B" and cl: "is_class sz i" and n: "0 < unat n"
    and sup: "\<And>p. (\<forall>x \<in> set (C i). B x = []) \<Longrightarrow> NumMovePage sz = Inr p \<Longrightarrow> supply_ok (cc_pc c) L U (unat p)"
  shows "fetch_ok c C B i n (FetchRangeObj c n sz)"
proof -
  have i: "i < 208"
    by (rule is_class_less [OF cl])
  let ?f = "find (\<lambda>x. s_free_lists (cc_spans c) x \<noteq> nullptr) (C i)"
  have "sl_rep (cc_spans c) (cc_heads c i) (C i)"
    using inv i by (simp add: cc_inv_def buckets_ok_def)
  then have "FetchOneSpan (cc_spans c) (cc_heads c i) = Inr ?f"
    by (rule FetchOneSpan_ok)
  then have r: "FetchRangeObj c n sz = (case ?f of Some x \<Rightarrow> detach_range c x n
      | None \<Rightarrow> rbind (fresh_span c i sz) (\<lambda>(x, c'). detach_range c' x n))"
    using is_class_Index [OF cl] by (simp add: FetchRangeObj_def)
  have bx: "B x = [] \<longleftrightarrow> s_free_lists (cc_spans c) x = nullptr" if "x \<in> set (C i)" for x
    using ownedD(5) [OF cc_invD(5) [OF inv] i that] by (cases "B x") auto
  show ?thesis
  proof (cases ?f)
    case (Some x)
    then have "x \<in> set (C i)" "s_free_lists (cc_spans c) x \<noteq> nullptr"
      by (auto simp: find_Some_iff)
    then show ?thesis
      using fetch_from_span [OF inv i _ n] bx r Some by simp
  next
    case None
    then have e: "\<forall>x \<in> set (C i). B x = []"
      using bx by (simp add: find_None_iff)
    have ns: "new_span_ok (cc_pc c) L U (unat p) (NewSpan (cc_pc c) p)" if "NumMovePage sz = Inr p" for p
      using NewSpan_supply [of "cc_pc c" L U p] class_pages [OF cl] sup [OF e that] that inv
      by (metis Inr_inject cc_inv_def)
    obtain x c' L' where x: "fresh_span c i sz = Inr (x, c')" "x \<notin> U"
      "cc_inv c' L' (insert x U) (C(i := x # C i)) (B(x := blocks (cc_spans c') x))"
      "blocks (cc_spans c') x \<noteq> []" "cc_heads c' = cc_heads c"
      "\<And>a. a \<notin> set (blocks (cc_spans c') x) \<Longrightarrow> cc_mem c' a = cc_mem c a"
      "\<And>j. j < 208 \<Longrightarrow> live c' (C(i := x # C i)) (B(x := blocks (cc_spans c') x)) j = live c C B j"
      using fresh_span_ok [OF inv cl ns] by blast
    let ?C = "C(i := x # C i)" and ?B = "B(x := blocks (cc_spans c') x)"
    have "fetch_ok c' ?C ?B i n (detach_range c' x n)"
      using x(4) by (intro fetch_from_span [OF x(3) i _ n]) simp_all
    moreover have "cc_mem c' a = cc_mem c a" if "j < 208" "a \<in> live c C B j" for j a
    proof (rule x(6))
      have "a \<in> live c' ?C ?B j"
        using x(7) that by simp
      then show "a \<notin> set (blocks (cc_spans c') x)"
        using chain_not_out [OF cc_invD(5) [OF x(3)] i _ that(1), of x] unfolding live_def by auto
    qed
    ultimately have "fetch_ok c C B i n (detach_range c' x n)"
      unfolding fetch_ok_def x(5) by (simp add: x(7))
    then show ?thesis
      using r None x(1) by simp
  qed
qed

section \<open>A block comes back\<close>

text \<open>A span whose blocks are all in leaves its list and goes to the page cache.\<close>

definition unlinked :: "span_heap \<Rightarrow> addr \<Rightarrow> span_heap" where
  "unlinked h x = h\<lparr>s_free_lists := (s_free_lists h)(x := nullptr), s_prev := (s_prev h)(x := nullptr),
     s_next := (s_next h)(x := nullptr)\<rparr>"

lemma unlinked_simps [simp]:
  "s_page_id (unlinked h x) = s_page_id h" "s_npage (unlinked h x) = s_npage h"
  "s_obj_size (unlinked h x) = s_obj_size h" "s_use_count (unlinked h x) = s_use_count h"
  "s_is_used (unlinked h x) = s_is_used h" "s_next (unlinked h x) = (s_next h)(x := nullptr)"
  "s_prev (unlinked h x) = (s_prev h)(x := nullptr)" "s_free_lists (unlinked h x) = (s_free_lists h)(x := nullptr)"
  by (simp_all add: unlinked_def)

lemma retire_inv:
  assumes inv: "cc_inv c L U C B" and x: "i < 208" "x \<in> set (C i)"
    and all: "set (blocks (cc_spans c) x) \<subseteq> set (B x)"
  obtains h2 pc L' where "sl_Erase (cc_spans c) (cc_heads c i) x = Inr h2"
    "ReleaseSpanToPageCache ((cc_pc c)\<lparr>pc_spans := unlinked h2 x\<rparr>) x = Inr pc"
    "cc_inv (c\<lparr>cc_pc := pc\<rparr>) L' (U - {x}) (C(i := remove1 x (C i))) B"
    "\<And>j. j < 208 \<Longrightarrow> live (c\<lparr>cc_pc := pc\<rparr>) (C(i := remove1 x (C i))) B j = live c C B j"
proof -
  let ?C = "C(i := remove1 x (C i))"
  note sx = cc_invD(4) [OF inv x]
  note dr = owned_drop [OF cc_invD(5) [OF inv] x all]
  obtain h2 where h2: "sl_Erase (cc_spans c) (cc_heads c i) x = Inr h2"
      "same_data (insert (cc_heads c i) (set (C i))) (cc_spans c) h2" "buckets_ok sl_rep h2 (cc_heads c) ?C 208"
    using sl.erase_buckets [OF cc_invD(2) [OF inv] x] by blast
  note d = same_data_simps(1-8) [OF h2(2)]
  let ?h3 = "unlinked h2 x"
  let ?s = "(cc_pc c)\<lparr>pc_spans := ?h3\<rparr>"
  have UF: "U \<inter> pc_foot (cc_pc c) L = {}"
    by (rule pc_inv_foot [OF cc_invD(1) [OF inv]])
  have subC: "set (?C j) \<subseteq> set (C j)" for j
    by (simp add: set_remove1_subset)
  have hd: "cc_heads c j \<notin> pc_foot (cc_pc c) L" "cc_heads c j \<notin> U" if "j < 208" for j
    using cc_invD(3) [OF inv] that by auto
  have "sl_rep ?h3 (cc_heads c j) (?C j)" if "j < 208" for j
  proof -
    have "x \<noteq> cc_heads c j"
      using sx hd(2) [OF that] by auto
    then have "sl_rep ?h3 (cc_heads c j) (?C j) = sl_rep h2 (cc_heads c j) (?C j)"
      using dr(3) [OF that] by (intro sl_rep_cong) auto
    then show ?thesis
      using h2(3) that by (simp add: buckets_ok_def)
  qed
  then have b3: "buckets_ok sl_rep ?h3 (cc_heads c) ?C 208"
    using h2(3) by (simp add: buckets_ok_def)
  have pci: "pc_inv ?s L U {} {}"
  proof (rule pc_inv_frame [OF cc_invD(1) [OF inv]])
    show "s_next ?h3 z = s_next (cc_spans c) z \<and> s_prev ?h3 z = s_prev (cc_spans c) z"
      if "z \<in> pc_heads (cc_pc c) ` {..<129} \<union> free_spans L" for z
    proof -
      have "z \<in> pc_foot (cc_pc c) L"
        using that by (auto simp: pc_foot_def)
      then have "z \<notin> insert (cc_heads c i) (set (C i))"
        using central_nodes [OF inv x(1)] by blast
      then show ?thesis
        using h2(2) x(2) by (auto simp: same_data_def)
    qed
  qed (simp_all add: d)
  have "np (pc_spans ?s) x \<le> 128"
    using sx by (simp add: np_def d)
  from ReleaseSpanToPageCache_ok [OF pci _ this]
  obtain pc L' where pc: "ReleaseSpanToPageCache ?s x = Inr pc" "pc_inv pc L' (U - {x}) {} {}"
      "frame_out (insert x (pc_foot (cc_pc c) L)) ?h3 (pc_spans pc)" "pc_foot pc L' \<subseteq> insert x (pc_foot (cc_pc c) L)"
    using sx unfolding release_ok_def by auto
  have "insert (cc_heads c j) (set (?C j)) \<inter> insert x (pc_foot (cc_pc c) L) = {}" if "j < 208" for j
    using central_nodes [OF inv that] dr(3) [OF that] hd [OF that] sx subC [of j] by blast
  then have bk: "buckets_ok sl_rep (pc_spans pc) (cc_heads c) ?C 208"
    using b3 frame_out_sl_rep [OF pc(3)] by (simp add: buckets_ok_def)
  have zU: "z \<in> U \<and> z \<noteq> x \<and> np (cc_spans c) z \<le> 128 \<and> is_class (s_obj_size (cc_spans c) z) j"
    if "j < 208" "z \<in> set (?C j)" for j z
    using cc_invD(4) [OF inv that(1)] subC [of j] dr(3) [OF that(1)] that(2) by blast
  have fr: "s_page_id (pc_spans pc) z = s_page_id (cc_spans c) z" "s_npage (pc_spans pc) z = s_npage (cc_spans c) z"
      "s_obj_size (pc_spans pc) z = s_obj_size (cc_spans c) z" "s_free_lists (pc_spans pc) z = s_free_lists (cc_spans c) z"
      "s_use_count (pc_spans pc) z = s_use_count (cc_spans c) z" if "z \<in> U" "z \<noteq> x" for z
  proof -
    have "z \<notin> insert x (pc_foot (cc_pc c) L)"
      using that UF by auto
    then show "s_page_id (pc_spans pc) z = s_page_id (cc_spans c) z" "s_npage (pc_spans pc) z = s_npage (cc_spans c) z"
      "s_obj_size (pc_spans pc) z = s_obj_size (cc_spans c) z" "s_free_lists (pc_spans pc) z = s_free_lists (cc_spans c) z"
      "s_use_count (pc_spans pc) z = s_use_count (cc_spans c) z"
      using pc(3) that(2) by (simp_all add: frame_out_def d)
  qed
  have eq: "blocks (pc_spans pc) z = blocks (cc_spans c) z \<and> s_free_lists (pc_spans pc) z = s_free_lists (cc_spans c) z \<and>
      s_use_count (pc_spans pc) z = s_use_count (cc_spans c) z" if "j < 208" "z \<in> set (?C j)" for j z
    using zU [OF that] fr [of z] by (auto intro!: blocks_cong)
  have oc: "owned 208 (blocks (pc_spans pc)) (s_free_lists (pc_spans pc)) (s_use_count (pc_spans pc)) (cc_mem c) ?C B"
      "j < 208 \<Longrightarrow> out_of (blocks (pc_spans pc)) ?C B j = out_of (blocks (cc_spans c)) ?C B j" for j
    by (rule owned_cong [OF dr(1) eq refl]; assumption)+
  have "np (pc_spans pc) z \<le> 128 \<and> is_class (s_obj_size (pc_spans pc) z) j \<and> z \<in> U - {x}"
    if "j < 208" "z \<in> set (?C j)" for j z
    using zU [OF that] fr [of z] by (auto simp: np_def)
  moreover have "cc_heads c ` {..<208} \<inter> (pc_foot pc L' \<union> (U - {x})) = {}"
    using hd sx pc(4) by blast
  ultimately have "cc_inv (c\<lparr>cc_pc := pc\<rparr>) L' (U - {x}) ?C B"
    unfolding cc_inv_def using pc(2) bk oc(1) by simp
  moreover have "live (c\<lparr>cc_pc := pc\<rparr>) ?C B j = live c C B j" if "j < 208" for j
    unfolding live_def using oc(2) [OF that] dr(2) [OF that] by simp
  ultimately show thesis
    using that h2(1) pc(1) by blast
qed

text \<open>What \<open>release_block\<close> and the loop over a chain keep.\<close>

definition gave_back :: "central \<Rightarrow> (nat \<Rightarrow> addr list) \<Rightarrow> (addr \<Rightarrow> addr list) \<Rightarrow> nat \<Rightarrow> addr set \<Rightarrow> central \<Rightarrow> bool" where
  "gave_back c C B i A c' \<longleftrightarrow>
     (\<exists>L' U' C' B'. cc_inv c' L' U' C' B' \<and> cc_heads c' = cc_heads c \<and>
        (\<forall>j < 208. live c' C' B' j = live c C B j - (if j = i then A else {})) \<and>
        (\<forall>a. a \<notin> A \<longrightarrow> cc_mem c' a = cc_mem c a))"

lemma release_block_ok:
  assumes inv: "cc_inv c L U C B" and i: "i < 208" and a: "a \<in> live c C B i"
  shows "\<exists>c'. release_block c i a = Inr (cc_mem c a, c') \<and> gave_back c C B i {a} c'"
proof -
  obtain x where x: "x \<in> set (C i)" "a \<in> set (blocks (cc_spans c) x) - set (B x)"
    using a by (auto simp: live_def out_of_def)
  have a0: "a \<noteq> nullptr"
    using block_owner(2) [OF cc_inv_sane(1) [OF inv i x(1)]] x(2) by simp
  have ps: "PageToSpan (cc_pc c) a = Inr x"
    using PageToSpan_block [OF inv i x(1)] x(2) by simp
  note gv = owned_give [OF cc_invD(5) [OF inv] i x]
  let ?B = "B(x := a # B x)"
  let ?c1 = "moved c x a (s_use_count (cc_spans c) x - 1) ((cc_mem c)(a := s_free_lists (cc_spans c) x))"
  have inv1: "cc_inv ?c1 L U C ?B"
    by (rule cc_inv_moved [OF inv gv(1)])
  have lv: "live ?c1 C ?B j = live c C B j - (if j = i then {a} else {})" if "j < 208" for j
    using gv(2) [OF that] by (simp add: live_def)
  have r: "release_block c i a = (if s_use_count (cc_spans ?c1) x = 0 then
        rbind (sl_Erase (cc_spans ?c1) (cc_heads c i) x) (\<lambda>h2.
        rbind (ReleaseSpanToPageCache ((cc_pc ?c1)\<lparr>pc_spans := unlinked h2 x\<rparr>) x) (\<lambda>pc.
          Inr (cc_mem c a, ?c1\<lparr>cc_pc := pc\<rparr>)))
      else Inr (cc_mem c a, ?c1))"
    using a0 ps unfolding release_block_def moved_def unlinked_def
    by (simp add: NextObj_def SetNextObj_def Let_def cc_set_spans_def)
  show ?thesis
  proof (cases "s_use_count (cc_spans ?c1) x = 0")
    case False
    then show ?thesis
      using r inv1 lv unfolding gave_back_def by (intro exI [of _ ?c1] conjI exI) auto
  next
    case True
    then have "set (blocks (cc_spans ?c1) x) \<subseteq> set (?B x)"
      using gv(3) by simp
    from retire_inv [OF inv1 i x(1) this]
    obtain h2 pc L' where h2: "sl_Erase (cc_spans ?c1) (cc_heads c i) x = Inr h2"
      "ReleaseSpanToPageCache ((cc_pc ?c1)\<lparr>pc_spans := unlinked h2 x\<rparr>) x = Inr pc"
      "cc_inv (?c1\<lparr>cc_pc := pc\<rparr>) L' (U - {x}) (C(i := remove1 x (C i))) ?B"
      "\<And>j. j < 208 \<Longrightarrow> live (?c1\<lparr>cc_pc := pc\<rparr>) (C(i := remove1 x (C i))) ?B j = live ?c1 C ?B j"
      by (metis moved_fields(2))
    then have "release_block c i a = Inr (cc_mem c a, ?c1\<lparr>cc_pc := pc\<rparr>)"
      using r True by simp
    moreover have "gave_back c C B i {a} (?c1\<lparr>cc_pc := pc\<rparr>)"
      unfolding gave_back_def using h2(3) lv h2(4)
      by (intro exI [of _ L'] exI [of _ "U - {x}"] exI [of _ "C(i := remove1 x (C i))"] exI [of _ ?B] conjI) auto
    ultimately show ?thesis by blast
  qed
qed

section \<open>\<open>ReleaseListToSpans\<close>\<close>

lemma release_loop_ok:
  assumes "cc_inv c L U C B" "i < 208" "lseg (cc_mem c) start xs nullptr" "distinct xs"
    and "set xs \<subseteq> live c C B i" "length xs < fuel"
  shows "\<exists>c'. release_loop fuel c i start = Inr c' \<and> gave_back c C B i (set xs) c'"
  using assms
proof (induction xs arbitrary: c L U C B start fuel)
  case Nil
  have "gave_back c C B i {} c"
    unfolding gave_back_def using Nil.prems(1) by (intro exI conjI) auto
  then show ?case
    using Nil.prems(3,6) by (cases fuel) auto
next
  case (Cons a xs)
  obtain f where f: "fuel = Suc f" "length xs < f"
    using Cons.prems(6) by (cases fuel) auto
  have a: "start = a" "a \<noteq> nullptr" "lseg (cc_mem c) (cc_mem c a) xs nullptr" "a \<notin> set xs"
    using Cons.prems(3,4) by auto
  obtain c1 where c1: "release_block c i a = Inr (cc_mem c a, c1)" "gave_back c C B i {a} c1"
    using release_block_ok [OF Cons.prems(1,2), of a] Cons.prems(5) by auto
  then obtain L1 U1 C1 B1 where i1: "cc_inv c1 L1 U1 C1 B1" "cc_heads c1 = cc_heads c"
      "\<And>j. j < 208 \<Longrightarrow> live c1 C1 B1 j = live c C B j - (if j = i then {a} else {})"
      "\<And>b. b \<noteq> a \<Longrightarrow> cc_mem c1 b = cc_mem c b"
    unfolding gave_back_def by auto
  have "cc_mem c1 b = cc_mem c b" if "b \<in> set xs" for b
    using a(4) that by (intro i1(4)) auto
  then have l1: "lseg (cc_mem c1) (cc_mem c a) xs nullptr"
    using a(3) lseg_cong by metis
  have s1: "set xs \<subseteq> live c1 C1 B1 i"
    using i1(3) [OF Cons.prems(2)] Cons.prems(5) a(4) by auto
  have d1: "distinct xs"
    using Cons.prems(4) by simp
  obtain c' where c': "release_loop f c1 i (cc_mem c a) = Inr c'" "gave_back c1 C1 B1 i (set xs) c'"
    using Cons.IH [OF i1(1) Cons.prems(2) l1 d1 s1 f(2)] by blast
  obtain L2 U2 C2 B2 where i2: "cc_inv c' L2 U2 C2 B2" "cc_heads c' = cc_heads c1"
      "\<And>j. j < 208 \<Longrightarrow> live c' C2 B2 j = live c1 C1 B1 j - (if j = i then set xs else {})"
      "\<And>b. b \<notin> set xs \<Longrightarrow> cc_mem c' b = cc_mem c1 b"
    using c'(2) unfolding gave_back_def by auto
  have "live c' C2 B2 j = live c C B j - (if j = i then set (a # xs) else {})" if "j < 208" for j
    using i1(3) i2(3) that by auto
  moreover have "cc_mem c' b = cc_mem c b" if "b \<notin> set (a # xs)" for b
    using i1(4) i2(4) that by auto
  ultimately have "gave_back c C B i (set (a # xs)) c'"
    unfolding gave_back_def using i1(2) i2(1,2) by (intro exI conjI) auto
  then show ?case
    using f(1) a(1,2) c1(1) c'(1) by auto
qed

lemma ReleaseListToSpans_ok:
  assumes "cc_inv c L U C B" and cl: "is_class sz i" and "lseg (cc_mem c) start xs nullptr" "distinct xs"
    and "set xs \<subseteq> live c C B i"
  shows "\<exists>c'. ReleaseListToSpans c start sz = Inr c' \<and> gave_back c C B i (set xs) c'"
proof -
  have "distinct (nullptr # xs)"
    using assms(4) lseg_nonnull [OF assms(3)] by simp
  then have "length xs < walk_fuel"
    using length_distinct_u64 [of "nullptr # xs"] by (simp add: walk_fuel_def)
  from release_loop_ok [OF assms(1) is_class_less [OF cl] assms(3-5) this]
  show ?thesis
    using is_class_Index [OF cl] by (simp add: ReleaseListToSpans_def)
qed

section \<open>The central cache as it starts\<close>

lemma cc_inv_init:
  assumes pc: "pc_inv pc L {} {} {}" and i: "inj_on heads {..<208}"
    and h: "\<And>i. i < 208 \<Longrightarrow> heads i \<notin> pc_foot pc L \<and> heads i \<noteq> nullptr \<and>
      s_next (pc_spans pc) (heads i) = heads i \<and> s_prev (pc_spans pc) (heads i) = heads i"
  shows "cc_inv \<lparr>cc_pc = pc, cc_heads = heads, cc_mem = m\<rparr> L {} (\<lambda>_. []) B"
proof -
  have "buckets_ok sl_rep (pc_spans pc) heads (\<lambda>_. []) 208"
    using i h by (auto simp: buckets_ok_def sl_rep_def ring_def inj_on_def)
  moreover have "heads ` {..<208} \<inter> pc_foot pc L = {}"
    using h by auto
  ultimately show ?thesis
    using pc by (simp add: cc_inv_def owned_def apart_def)
qed

definition cc_demo :: central where
  "cc_demo = \<lparr>cc_pc = pc_demo, cc_heads = (\<lambda>i. of_nat (64 * (i + 200))), cc_mem = (\<lambda>_. nullptr)\<rparr>"

lemma cc_demo_inv: "cc_inv cc_demo (\<lambda>_. []) {} (\<lambda>_. []) B"
  unfolding cc_demo_def
proof (rule cc_inv_init [OF pc_demo_facts(1)])
  have u: "unat (of_nat (64 * k) :: u64) = 64 * k" if "k < 1000" for k
    using that by (intro unat_of_nat_small) simp
  show "inj_on (\<lambda>i. of_nat (64 * (i + 200)) :: u64) {..<208}"
  proof (rule inj_onI)
    fix i j :: nat
    assume a: "i \<in> {..<208}" "j \<in> {..<208}" "(of_nat (64 * (i + 200)) :: u64) = of_nat (64 * (j + 200))"
    then show "i = j"
      using u [of "i + 200"] u [of "j + 200"] by simp
  qed
  fix i :: nat
  assume i: "i < 208"
  define g where "g = (of_nat (64 * (i + 200)) :: addr)"
  have ug: "unat g = 64 * (i + 200)"
    using u [of "i + 200"] i by (simp add: g_def)
  have "g \<noteq> of_nat (64 * (j + 1))" if "j < 129" for j
  proof
    assume "g = of_nat (64 * (j + 1))"
    then have "64 * (i + 200) = 64 * (j + 1)"
      using ug u [of "j + 1"] that by simp
    then show False using that by simp
  qed
  moreover have "g \<notin> set (slots 1048576 64 64)"
  proof
    assume "g \<in> set (slots 1048576 64 64)"
    then have "unat (1048576 :: addr) \<le> unat g"
      by (intro slots_in_block(1) [of _ 64 64]) simp_all
    then show False using ug i by simp
  qed
  moreover have "pc_heads pc_demo = (\<lambda>i. of_nat (64 * (i + 1)))" "s_next (pc_spans pc_demo) = id"
      "s_prev (pc_spans pc_demo) = id"
    by (simp_all add: pc_demo_def pc_new_def)
  moreover have "g \<noteq> nullptr"
    using ug by auto
  ultimately show "of_nat (64 * (i + 200)) \<notin> pc_foot pc_demo (\<lambda>_. []) \<and> of_nat (64 * (i + 200)) \<noteq> nullptr \<and>
      s_next (pc_spans pc_demo) (of_nat (64 * (i + 200))) = of_nat (64 * (i + 200)) \<and>
      s_prev (pc_spans pc_demo) (of_nat (64 * (i + 200))) = of_nat (64 * (i + 200))"
    unfolding g_def [symmetric]
    by (simp add: pc_foot_def free_spans_def pool_slots_rep [OF pc_demo_facts(4)] del: of_nat_mult of_nat_add) blast
qed

lemma cc_demo_supply:
  assumes "1 \<le> n"
  shows "supply_ok (cc_pc cc_demo) (\<lambda>_. []) {} n"
  unfolding supply_ok_def
proof (intro conjI impI)
  show "\<exists>xs. op_rep SPAN_SIZE (pc_pool (cc_pc cc_demo)) xs \<and> 2 \<le> length xs"
    using pc_demo_facts(4) by (intro exI [of _ "slots 1048576 64 64"]) (simp add: cc_demo_def)
  show "\<exists>ptr rest. pc_mmaps (cc_pc cc_demo) = ptr # rest \<and>
      fresh_pages (cc_spans cc_demo) (free_spans (\<lambda>_. []) \<union> {}) ptr 129"
    using pc_demo_facts(2,3) by (simp add: cc_demo_def free_spans_def)
qed

lemma is_class_32: "is_class 32 3"
  by (simp add: is_class_def RoundUp_def RoundUp_impl_def bucket_of_def Index_def MAX_BYTES_def Index_impl_def)

section \<open>Properties\<close>

text \<open>\<open>FetchRangeObj\<close> for a size class returns a chain of at least one and at most \<open>n\<close>
  distinct blocks, linked to each other and ended by a null pointer, none of which was out
  before. They are out afterwards, no other block is, the links of the blocks that were out
  are untouched, and the invariants of the central and of the page cache hold again. The page
  cache is asked only where no span of the class has a free block.\<close>

theorem FetchRangeObj_correct:
  assumes "cc_inv c L U C B" "is_class sz i" "0 < unat n"
    and "\<And>p. (\<forall>x \<in> set (C i). B x = []) \<Longrightarrow> NumMovePage sz = Inr p \<Longrightarrow> supply_ok (cc_pc c) L U (unat p)"
  shows "fetch_ok c C B i n (FetchRangeObj c n sz)"
  using assms by (rule FetchRangeObj_ok)

lemma FetchRangeObj_correct_witness:
  "fetch_ok cc_demo (\<lambda>_. []) (\<lambda>_. []) 3 5 (FetchRangeObj cc_demo 5 32)"
proof (rule FetchRangeObj_correct [OF cc_demo_inv is_class_32])
  fix p
  assume "NumMovePage 32 = Inr p"
  then have "1 \<le> unat p"
    using class_pages [OF is_class_32] by (metis Inr_inject)
  then show "supply_ok (cc_pc cc_demo) (\<lambda>_. []) {} (unat p)"
    by (rule cc_demo_supply)
qed simp

text \<open>\<open>ReleaseListToSpans\<close> on a chain of distinct blocks that are out takes every one of them
  back into the span it was cut from: the loop ends, exactly those blocks stop being out, spans
  with no block out have gone to the page cache, no link outside the chain is written, and both
  invariants hold again.\<close>

theorem ReleaseListToSpans_correct:
  assumes "cc_inv c L U C B" "is_class sz i" "lseg (cc_mem c) start xs nullptr" "distinct xs"
    and "set xs \<subseteq> live c C B i"
  shows "\<exists>c'. ReleaseListToSpans c start sz = Inr c' \<and> gave_back c C B i (set xs) c'"
  using assms by (rule ReleaseListToSpans_ok)

lemma ReleaseListToSpans_correct_witness:
  "\<exists>n start end' c1 C B xs c2. FetchRangeObj cc_demo 5 32 = Inr (n, start, end', c1) \<and> xs \<noteq> [] \<and>
     ReleaseListToSpans c1 start 32 = Inr c2 \<and> gave_back c1 C B 3 (set xs) c2"
proof -
  have "fetch_ok cc_demo (\<lambda>_. []) (\<lambda>_. []) 3 5 (FetchRangeObj cc_demo 5 32)"
  proof (rule FetchRangeObj_ok [OF cc_demo_inv is_class_32])
    fix p
    assume "NumMovePage 32 = Inr p"
    then have "1 \<le> unat p"
      using class_pages [OF is_class_32] by (metis Inr_inject)
    then show "supply_ok (cc_pc cc_demo) (\<lambda>_. []) {} (unat p)"
      by (rule cc_demo_supply)
  qed simp
  then obtain bs c1 L U C B where b: "FetchRangeObj cc_demo 5 32 = Inr (of_nat (length bs), hd bs, last bs, c1)"
    "bs \<noteq> []" "distinct bs" "lseg (cc_mem c1) (hd bs) bs nullptr" "cc_inv c1 L U C B"
    "\<forall>j < 208. live c1 C B j = live cc_demo (\<lambda>_. []) (\<lambda>_. []) j \<union> (if j = 3 then set bs else {})"
    unfolding fetch_ok_def by auto
  have "set bs \<subseteq> live c1 C B 3"
    using b(6) by simp
  from ReleaseListToSpans_correct [OF b(5) is_class_32 b(4,3) this]
  show ?thesis
    using b(1,2) by blast
qed

section \<open>The cutting loop\<close>

text \<open>The loop cuts as many blocks as begin inside the bytes, so it stays inside them exactly where
  the block size divides them.\<close>

lemma n_blocks_fits_iff:
  assumes "0 < s"
  shows "n_blocks b s * s \<le> b \<longleftrightarrow> s dvd b"
proof
  assume "n_blocks b s * s \<le> b"
  moreover have "b \<le> n_blocks b s * s"
    using ceil_div_bounds(1) [OF assms, of b] by (simp add: n_blocks_def ceil_div_def)
  ultimately show "s dvd b"
    by (metis dvd_triv_right le_antisym)
next
  assume "s dvd b"
  then obtain q where "b = q * s"
    by (metis dvd_def mult.commute)
  then show "n_blocks b s * s \<le> b"
    using ceil_div_mult [OF assms, of q] by (simp add: n_blocks_def ceil_div_def)
qed

lemma all_blocks_fit_iff:
  assumes "0 < n"
  shows "(\<forall>i < n. a + i * s + s \<le> a + b) \<longleftrightarrow> n * s \<le> (b :: nat)"
proof
  assume "\<forall>i < n. a + i * s + s \<le> a + b"
  then have "a + (n - 1) * s + s \<le> a + b"
    using assms by simp
  then show "n * s \<le> b"
    using assms by (cases n) simp_all
next
  assume le: "n * s \<le> b"
  show "\<forall>i < n. a + i * s + s \<le> a + b"
  proof (intro allI impI)
    fix i
    assume "i < n"
    then have "Suc i * s \<le> n * s"
      by (intro mult_le_mono1) simp
    then show "a + i * s + s \<le> a + b"
      using le by simp
  qed
qed

text \<open>C7: what the cutting loop does to the bytes of a span. It ends, links the blocks one after
  the other from the start of the span in one null-terminated list, writes no other word, and cuts
  every block that begins inside the bytes. So all blocks also end inside them exactly where the
  block size divides the bytes. Where it does not, as for the blocks of 24 bytes in the two pages
  the code gives that class, the last block reaches into the pages behind the span.\<close>

theorem carve_inside_iff:
  fixes base bytes sz :: u64
  assumes "0 < sz" "sz \<le> bytes" "base \<noteq> nullptr"
    and "unat base + unat bytes + unat sz < 18446744073709551616"
  shows "\<exists>m' xs. carve m base bytes sz = Inr m' \<and> lseg m' base xs nullptr \<and>
    (\<forall>y. y \<notin> set xs \<longrightarrow> m' y = m y) \<and>
    (\<forall>i < length xs. unat (xs ! i) = unat base + i * unat sz) \<and>
    unat bytes \<le> length xs * unat sz \<and> (length xs - 1) * unat sz < unat bytes \<and>
    ((\<forall>x \<in> set xs. unat x + unat sz \<le> unat base + unat bytes) \<longleftrightarrow> unat sz dvd unat bytes)"
proof -
  let ?s = "unat sz" and ?b = "unat bytes"
  let ?n = "n_blocks ?b ?s"
  have s: "0 < ?s" "?s \<le> ?b"
    using assms(1,2) by (simp_all add: word_less_nat_alt word_le_nat_alt)
  obtain m' where m': "carve m base bytes sz = Inr m'" "lseg m' base (slots base sz ?n) nullptr"
      "\<And>y. y \<notin> set (slots base sz ?n) \<Longrightarrow> m' y = m y"
    using carve_ok [OF s(1) assms(2-4)] by blast
  have n: "0 < ?n"
    using n_blocks_step [of ?s ?b] s by simp
  have up: "?b \<le> ?n * ?s" "?n * ?s < ?b + ?s"
    using ceil_div_bounds [OF s(1), of ?b] by (simp_all add: n_blocks_def ceil_div_def)
  then have fit: "unat base + ?n * ?s < 18446744073709551616"
    using assms(4) by linarith
  have nth: "unat (slots base sz ?n ! i) = unat base + i * ?s" if "i < ?n" for i
    using unat_slot [OF fit that] that by (simp add: slots_nth)
  have last: "(?n - 1) * ?s < ?b"
    using up(2) n by (cases ?n) simp_all
  have "(\<forall>x \<in> set (slots base sz ?n). unat x + ?s \<le> unat base + ?b) \<longleftrightarrow>
      (\<forall>i < ?n. unat base + i * ?s + ?s \<le> unat base + ?b)"
    using nth by (simp add: all_set_conv_all_nth)
  also have "\<dots> \<longleftrightarrow> ?s dvd ?b"
    using all_blocks_fit_iff [OF n] n_blocks_fits_iff [OF s(1)] by simp
  finally show ?thesis
    using m' nth up(1) last by (intro exI [of _ m'] exI [of _ "slots base sz ?n"]) simp
qed

lemma carve_inside_iff_witness:
  "NumMovePage 24 = Inr 2 \<and>
   (\<exists>m xs. carve (\<lambda>_. nullptr) 1048576 (2 * 8192) 24 = Inr m \<and> lseg m 1048576 xs nullptr \<and>
      (\<exists>x \<in> set xs. 1048576 + 2 * 8192 < unat x + 24))"
proof -
  have "NumMovePage 24 = Inr 2"
    by (simp add: NumMovePage_def NumMoveSize_def MAX_BYTES_def PAGE_SHIFT_def word_sless_alt word_sle_eq)
  moreover obtain m xs where c: "carve (\<lambda>_. nullptr) 1048576 (2 * 8192) 24 = Inr m" "lseg m 1048576 xs nullptr"
      "(\<forall>x \<in> set xs. unat x + 24 \<le> 1048576 + 16384) \<longleftrightarrow> 24 dvd (16384 :: nat)"
    using carve_inside_iff [of 24 "2 * 8192" 1048576 "\<lambda>_. nullptr"] by auto
  have "\<not> 24 dvd (16384 :: nat)"
    by presburger
  then have "\<exists>x \<in> set xs. 1048576 + 2 * 8192 < unat x + 24"
    using c(3) by (auto simp: not_le)
  ultimately show ?thesis
    using c(1,2) by blast
qed

end
