(* ===== verification/Thread_Lists.thy ===== *)
theory Thread_Lists
  imports Block_Owner
begin

text \<open>
  The lists of the threads over a central cache, as both allocators keep them: \<open>out i\<close> are the blocks of class \<open>i\<close>
  that are out of the central cache, \<open>T t i\<close> the list of class \<open>i\<close> of thread \<open>t\<close>, and what is out and in no list is
  held by the program. The locale \<open>thread_lists\<close> asks only that a list depends on the links of its own blocks.
\<close>

section \<open>The invariant\<close>

definition lists_ok :: "(links \<Rightarrow> 'l \<Rightarrow> addr list \<Rightarrow> bool) \<Rightarrow> ('l \<Rightarrow> addr list \<Rightarrow> bool) \<Rightarrow> nat \<Rightarrow> (nat \<Rightarrow> addr set) \<Rightarrow>
    links \<Rightarrow> (nat \<Rightarrow> 'l) \<Rightarrow> (nat \<Rightarrow> addr list) \<Rightarrow> bool" where
  "lists_ok rep lim n out m tc T \<longleftrightarrow>
     (\<forall>i < n. rep m (tc i) (T i) \<and> set (T i) \<subseteq> out i \<and> lim (tc i) (T i))"

definition threads_ok :: "(links \<Rightarrow> 'l \<Rightarrow> addr list \<Rightarrow> bool) \<Rightarrow> ('l \<Rightarrow> addr list \<Rightarrow> bool) \<Rightarrow> nat \<Rightarrow> (nat \<Rightarrow> addr set) \<Rightarrow>
    links \<Rightarrow> (nat \<Rightarrow> (nat \<Rightarrow> 'l) option) \<Rightarrow> (nat \<Rightarrow> nat \<Rightarrow> addr list) \<Rightarrow> bool" where
  "threads_ok rep lim n out m th T \<longleftrightarrow>
     (\<forall>t tc. th t = Some tc \<longrightarrow> lists_ok rep lim n out m tc (T t)) \<and>
     (\<forall>t. th t = None \<longrightarrow> T t = (\<lambda>_. [])) \<and>
     (\<forall>t t' i. t \<noteq> t' \<longrightarrow> i < n \<longrightarrow> set (T t i) \<inter> set (T t' i) = {})"

definition held_of :: "(nat \<Rightarrow> addr set) \<Rightarrow> (nat \<Rightarrow> nat \<Rightarrow> addr list) \<Rightarrow> nat \<Rightarrow> addr set" where
  "held_of out T i = out i - (\<Union>t. set (T t i))"

text \<open>A block \<open>p\<close> of class \<open>i\<close> goes to the program, out of the list of a thread or out of the central cache, whose
  other blocks then join the list.\<close>

definition took :: "nat \<Rightarrow> (nat \<Rightarrow> addr set) \<Rightarrow> links \<Rightarrow> (nat \<Rightarrow> addr list) \<Rightarrow> nat \<Rightarrow> addr \<Rightarrow>
    (nat \<Rightarrow> addr set) \<Rightarrow> links \<Rightarrow> (nat \<Rightarrow> addr list) \<Rightarrow> bool" where
  "took n out m T i p out' m' T' \<longleftrightarrow>
     p \<in> out' i \<and> p \<notin> set (T' i) \<and> p \<notin> out i - set (T i) \<and>
     (\<forall>j < n. out j \<subseteq> out' j) \<and>
     (\<forall>j < n. out' j - set (T' j) = (out j - set (T j)) \<union> (if j = i then {p} else {})) \<and>
     (\<forall>j < n. set (T' j) \<subseteq> set (T j) \<union> (out' j - out j)) \<and>
     (\<forall>j < n. \<forall>a \<in> out j. m' a = m a)"

text \<open>The block \<open>p\<close> of class \<open>i\<close> comes back: it alone stops being the program's.\<close>

definition gave :: "nat \<Rightarrow> (nat \<Rightarrow> addr set) \<Rightarrow> links \<Rightarrow> (nat \<Rightarrow> addr list) \<Rightarrow> nat \<Rightarrow> addr \<Rightarrow>
    (nat \<Rightarrow> addr set) \<Rightarrow> links \<Rightarrow> (nat \<Rightarrow> addr list) \<Rightarrow> bool" where
  "gave n out m T i p out' m' T' \<longleftrightarrow>
     (\<forall>j < n. out' j - set (T' j) = (out j - set (T j)) - (if j = i then {p} else {})) \<and>
     (\<forall>j < n. out' j \<subseteq> out j \<and> set (T' j) \<subseteq> set (T j) \<union> {p}) \<and>
     (\<forall>a. a \<notin> insert p (set (T i)) \<longrightarrow> m' a = m a)"

lemma lists_okD:
  assumes "lists_ok rep lim n out m tc T" "i < n"
  shows "rep m (tc i) (T i)" "set (T i) \<subseteq> out i" "lim (tc i) (T i)"
  using assms by (simp_all add: lists_ok_def)

lemma threads_okD:
  assumes "threads_ok rep lim n out m th T"
  shows "th t = Some tc \<Longrightarrow> lists_ok rep lim n out m tc (T t)" "th t = None \<Longrightarrow> T t = (\<lambda>_. [])"
    "t \<noteq> t' \<Longrightarrow> i < n \<Longrightarrow> set (T t i) \<inter> set (T t' i) = {}"
  using assms by (simp_all add: threads_ok_def)

lemma threads_lists:
  assumes "threads_ok rep lim n out m th T" "i < n"
  shows "set (T t i) \<subseteq> out i"
  using threads_okD(1,2) [OF assms(1), of t] lists_okD(2) [OF _ assms(2), of rep lim out m _ "T t"]
  by (cases "th t") simp_all

text \<open>The cache of the calling thread, made on its first call.\<close>

lemma own_lists:
  assumes "threads_ok rep lim n out m th T" "lists_ok rep lim n out m new (\<lambda>_. [])"
  shows "lists_ok rep lim n out m (case th t of None \<Rightarrow> new | Some tc \<Rightarrow> tc) (T t)"
  using threads_okD(1,2) [OF assms(1), of t] assms(2) by (cases "th t") simp_all

lemma Union_upd: "(\<Union>t'. set ((T(t := T1)) t' j)) = set (T1 j) \<union> (\<Union>t' \<in> - {t}. set (T t' j))"
proof -
  have "set ((T(t := T1)) t' j) = (if t' = t then set (T1 j) else set (T t' j))" for t'
    by simp
  then show ?thesis
    by (auto split: if_splits)
qed

lemma held_of_upd:
  assumes "out' j - set (T1 j) = (out j - set (T t j)) \<union> A - R" "A \<inter> (\<Union>t' \<in> - {t}. set (T t' j)) = {}"
  shows "held_of out' (T(t := T1)) j = held_of out T j \<union> A - R"
proof -
  have "held_of out' (T(t := T1)) j = (out' j - set (T1 j)) - (\<Union>t' \<in> - {t}. set (T t' j))"
    unfolding held_of_def Union_upd by auto
  also have "\<dots> = ((out j - set (T t j)) \<union> A - R) - (\<Union>t' \<in> - {t}. set (T t' j))"
    by (simp only: assms(1))
  also have "\<dots> = held_of out T j \<union> A - R"
  proof -
    have "(\<Union>t'. set (T t' j)) = set (T t j) \<union> (\<Union>t' \<in> - {t}. set (T t' j))"
      by auto
    then show ?thesis
      unfolding held_of_def using assms(2) by auto
  qed
  finally show ?thesis .
qed

section \<open>The contract\<close>

locale thread_lists =
  fixes rep :: "links \<Rightarrow> 'l \<Rightarrow> addr list \<Rightarrow> bool"
    and lim :: "'l \<Rightarrow> addr list \<Rightarrow> bool"
    and n :: nat
  assumes rep_frame: "rep m l xs \<Longrightarrow> (\<And>x. x \<in> set xs \<Longrightarrow> m' x = m x) \<Longrightarrow> rep m' l xs"
    and rep_distinct: "rep m l xs \<Longrightarrow> distinct xs \<and> nullptr \<notin> set xs"
begin

text \<open>One list changes, and the links of its blocks with it.\<close>

lemma lists_upd:
  assumes tc: "lists_ok rep lim n out m tc T" and i: "i < n"
    and l: "rep m' l xs" "set xs \<subseteq> out' i" "lim l xs"
    and o: "\<And>j. j < n \<Longrightarrow> j \<noteq> i \<Longrightarrow> out j \<subseteq> out' j"
    and mem: "\<And>j a. j < n \<Longrightarrow> j \<noteq> i \<Longrightarrow> a \<in> set (T j) \<Longrightarrow> m' a = m a"
  shows "lists_ok rep lim n out' m' (tc(i := l)) (T(i := xs))"
  unfolding lists_ok_def
proof (intro allI impI)
  fix j :: nat
  assume j: "j < n"
  show "rep m' ((tc(i := l)) j) ((T(i := xs)) j) \<and> set ((T(i := xs)) j) \<subseteq> out' j \<and> lim ((tc(i := l)) j) ((T(i := xs)) j)"
  proof (cases "j = i")
    case False
    note t = lists_okD [OF tc j]
    have "rep m' (tc j) (T j)"
      using mem [OF j False] by (intro rep_frame [OF t(1)]) blast
    then show ?thesis
      using False t(2,3) o [OF j False] by auto
  qed (use l in simp)
qed

lemma lists_pop:
  assumes tc: "lists_ok rep lim n out m tc T" and i: "i < n" and T: "T i = p # ys" and l: "rep m l ys" "lim l ys"
  shows "lists_ok rep lim n out m (tc(i := l)) (T(i := ys))" "took n out m T i p out m (T(i := ys))"
proof -
  note t = lists_okD [OF tc i]
  have "p \<notin> set ys" "p \<in> out i" "set ys \<subseteq> out i"
    using rep_distinct [OF t(1)] t(2) T by auto
  then show "lists_ok rep lim n out m (tc(i := l)) (T(i := ys))" "took n out m T i p out m (T(i := ys))"
    using T l by (auto simp: took_def intro!: lists_upd [OF tc i])
qed

text \<open>A batch from the central cache: its first block is for the program.\<close>

lemma lists_batch:
  assumes tc: "lists_ok rep lim n out m tc T" and i: "i < n" and T: "T i = []"
    and b: "distinct (p # ys)" "set (p # ys) \<inter> out i = {}"
    and out': "\<And>j. j < n \<Longrightarrow> out' j = out j \<union> (if j = i then set (p # ys) else {})"
    and l: "rep m' l ys" "lim l ys"
    and mem: "\<And>j a. j < n \<Longrightarrow> a \<in> out j \<Longrightarrow> m' a = m a"
  shows "lists_ok rep lim n out' m' (tc(i := l)) (T(i := ys))" "took n out m T i p out' m' (T(i := ys))"
proof -
  show "lists_ok rep lim n out' m' (tc(i := l)) (T(i := ys))"
  proof (rule lists_upd [OF tc i l(1) _ l(2)])
    show "m' a = m a" if "j < n" "a \<in> set (T j)" for j a
      using lists_okD(2) [OF tc that(1)] that(2) by (intro mem [OF that(1)]) blast
  qed (use out' i in auto)
  have "out' j - set ((T(i := ys)) j) = (out j - set (T j)) \<union> (if j = i then {p} else {})" if "j < n" for j
    using out' [OF that] T b by (cases "j = i") auto
  moreover have "set ((T(i := ys)) j) \<subseteq> set (T j) \<union> (out' j - out j)" if "j < n" for j
    using out' [OF that] b by (cases "j = i") auto
  ultimately show "took n out m T i p out' m' (T(i := ys))"
    unfolding took_def using out' i b T mem by simp
qed

text \<open>A block is pushed; the blocks \<open>as\<close> at the front of the list may leave for the central cache.\<close>

lemma lists_push:
  assumes tc: "lists_ok rep lim n out m tc T" and i: "i < n" and p: "p \<in> out i" "p \<notin> set (T i)"
    and dis: "\<And>j. j < n \<Longrightarrow> j \<noteq> i \<Longrightarrow> out j \<inter> out i = {}"
    and sp: "p # T i = as @ xs" and out': "\<And>j. j < n \<Longrightarrow> out' j = out j - (if j = i then set as else {})"
    and l: "rep m' l xs" "lim l xs"
    and mem: "\<And>a. a \<notin> insert p (set (T i)) \<Longrightarrow> m' a = m a"
  shows "lists_ok rep lim n out' m' (tc(i := l)) (T(i := xs))" "gave n out m T i p out' m' (T(i := xs))"
proof -
  note t = lists_okD [OF tc i]
  have s: "set as \<union> set xs = insert p (set (T i))" "distinct (as @ xs)"
    unfolding set_append [symmetric] sp [symmetric] using rep_distinct [OF t(1)] p(2) by simp_all
  have ti: "insert p (set (T i)) \<subseteq> out i"
    using t(2) p(1) by blast
  show "lists_ok rep lim n out' m' (tc(i := l)) (T(i := xs))"
  proof (rule lists_upd [OF tc i l(1) _ l(2)])
    show "set xs \<subseteq> out' i"
      using out' [OF i] s ti by auto
    show "m' a = m a" if "j < n" "j \<noteq> i" "a \<in> set (T j)" for j a
      using lists_okD(2) [OF tc that(1)] dis [OF that(1,2)] ti that(3) by (intro mem) blast
  qed (use out' in simp)
  have "out' j - set ((T(i := xs)) j) = out j - set (T j) - (if j = i then {p} else {})" if "j < n" for j
    using out' [OF that] s by (cases "j = i") auto
  moreover have "out' j \<subseteq> out j \<and> set ((T(i := xs)) j) \<subseteq> set (T j) \<union> {p}" if "j < n" for j
    using out' [OF that] s by (cases "j = i") auto
  ultimately show "gave n out m T i p out' m' (T(i := xs))"
    unfolding gave_def using mem by blast
qed

text \<open>A new state of one thread's lists and of the central cache is a new state of all threads.\<close>

lemma threads_upd:
  assumes th: "threads_ok rep lim n out m th T" and tc: "lists_ok rep lim n out' m' tc T1"
    and keep: "\<And>t' j. t' \<noteq> t \<Longrightarrow> j < n \<Longrightarrow> set (T t' j) \<subseteq> out' j \<and> set (T1 j) \<inter> set (T t' j) = {}"
    and mem: "\<And>t' j a. t' \<noteq> t \<Longrightarrow> j < n \<Longrightarrow> a \<in> set (T t' j) \<Longrightarrow> m' a = m a"
  shows "threads_ok rep lim n out' m' (th(t := Some tc)) (T(t := T1))"
proof -
  have "lists_ok rep lim n out' m' tc2 (T t')" if t': "t' \<noteq> t" "th t' = Some tc2" for t' tc2
    unfolding lists_ok_def
  proof (intro allI impI)
    fix j :: nat
    assume j: "j < n"
    note o = lists_okD [OF threads_okD(1) [OF th t'(2)] j]
    have "rep m' (tc2 j) (T t' j)"
      using mem [OF t'(1) j] by (intro rep_frame [OF o(1)]) simp
    then show "rep m' (tc2 j) (T t' j) \<and> set (T t' j) \<subseteq> out' j \<and> lim (tc2 j) (T t' j)"
      using o(3) keep [OF t'(1) j] by simp
  qed
  moreover have "set ((T(t := T1)) t1 j) \<inter> set ((T(t := T1)) t2 j) = {}" if "t1 \<noteq> t2" "j < n" for t1 t2 j
    using keep [of t2 j] keep [of t1 j] threads_okD(3) [OF th that] that by (cases "t1 = t"; cases "t2 = t") auto
  ultimately show ?thesis
    using tc threads_okD(2) [OF th] by (simp add: threads_ok_def)
qed

lemma threads_take:
  assumes th: "threads_ok rep lim n out m th T" and tc: "lists_ok rep lim n out' m' tc T1" and i: "i < n"
    and tk: "took n out m (T t) i p out' m' T1" and dis: "\<And>j. j < n \<Longrightarrow> j \<noteq> i \<Longrightarrow> out' j \<inter> out' i = {}"
  shows "threads_ok rep lim n out' m' (th(t := Some tc)) (T(t := T1))"
    and "\<And>j. j < n \<Longrightarrow> held_of out' (T(t := T1)) j = held_of out T j \<union> (if j = i then {p} else {})"
    and "\<And>j. j < n \<Longrightarrow> p \<notin> held_of out T j"
proof -
  note a = tk [unfolded took_def]
  show "threads_ok rep lim n out' m' (th(t := Some tc)) (T(t := T1))"
  proof (rule threads_upd [OF th tc])
    fix t' j
    assume t': "t' \<noteq> t" "j < n"
    have d: "set (T t j) \<inter> set (T t' j) = {}" "set (T t' j) \<subseteq> out j"
      using threads_okD(3) [OF th, of t t' j] threads_lists [OF th t'(2)] t' by auto
    then show "set (T t' j) \<subseteq> out' j \<and> set (T1 j) \<inter> set (T t' j) = {}"
      using a t'(2) by blast
    show "m' x = m x" if "x \<in> set (T t' j)" for x
      using a d(2) t'(2) that by blast
  qed
  have pT: "p \<notin> set (T t' i)" if "t' \<noteq> t" for t'
  proof
    assume "p \<in> set (T t' i)"
    then have "p \<in> out i" "p \<notin> set (T t i)"
      using threads_lists [OF th i] threads_okD(3) [OF th that i] by blast+
    then show False
      using a by blast
  qed
  show "held_of out' (T(t := T1)) j = held_of out T j \<union> (if j = i then {p} else {})" if "j < n" for j
    using held_of_upd [where R = "{}" and A = "if j = i then {p} else {}", of out' j T1 out T t] a that pT by auto
  show "p \<notin> held_of out T j" if j: "j < n" for j
  proof (cases "j = i")
    case True
    then show ?thesis
      using a unfolding held_of_def by blast
  next
    case False
    then have "p \<notin> out' j"
      using dis [OF j False] a by blast
    then show ?thesis
      using a j unfolding held_of_def by blast
  qed
qed

lemma threads_give:
  assumes th: "threads_ok rep lim n out m th T" and tc: "lists_ok rep lim n out' m' tc T1" and i: "i < n"
    and gv: "gave n out m (T t) i p out' m' T1" and p: "p \<in> held_of out T i"
    and dis: "\<And>j. j < n \<Longrightarrow> j \<noteq> i \<Longrightarrow> out j \<inter> out i = {}"
  shows "threads_ok rep lim n out' m' (th(t := Some tc)) (T(t := T1))"
    and "\<And>j. j < n \<Longrightarrow> held_of out' (T(t := T1)) j = held_of out T j - (if j = i then {p} else {})"
proof -
  note a = gv [unfolded gave_def]
  have pl: "p \<in> out i" "p \<notin> set (T t' i)" for t'
    using p by (auto simp: held_of_def)
  have np: "p \<notin> set (T t' j)" if "j < n" for t' j
    using threads_lists [OF th that, of t'] dis [OF that] pl by (cases "j = i") auto
  show "threads_ok rep lim n out' m' (th(t := Some tc)) (T(t := T1))"
  proof (rule threads_upd [OF th tc])
    fix t' j
    assume t': "t' \<noteq> t" "j < n"
    have d: "set (T t j) \<inter> set (T t' j) = {}"
      using threads_okD(3) [OF th, of t t' j] t' by auto
    have "out' j - set (T1 j) = (out j - set (T t j)) - (if j = i then {p} else {})"
      using a t'(2) by blast
    then show "set (T t' j) \<subseteq> out' j \<and> set (T1 j) \<inter> set (T t' j) = {}"
      using threads_lists [OF th t'(2), of t'] d np [OF t'(2), of t'] by (auto split: if_splits)
    show "m' b = m b" if b: "b \<in> set (T t' j)" for b
    proof -
      have "b \<notin> set (T t i)"
        using d b threads_lists [OF th t'(2), of t'] threads_lists [OF th i, of t] dis [OF t'(2)]
        by (cases "j = i") auto
      then have "b \<notin> insert p (set (T t i))"
        using b np [OF t'(2), of t'] by auto
      then show ?thesis
        using a by blast
    qed
  qed
  show "held_of out' (T(t := T1)) j = held_of out T j - (if j = i then {p} else {})" if "j < n" for j
    using held_of_upd [where A = "{}" and R = "if j = i then {p} else {}", of out' j T1 out T t] a that by auto
qed

end

end
