(* ===== verification/Thread_Cache.thy ===== *)
theory Thread_Cache
  imports Central_Inv Thread_Lists
begin

text \<open>
  The thread caches of \<open>ConcurrentMemoryPool/ThreadCache.cc\<close> and the entry points
  \<open>ConcurrentMalloc\<close> and \<open>ConcurrentDelete\<close> of \<open>ConCurrent.h\<close>: every thread keeps one
  \<open>FreeList\<close> per size class, fills it in batches from the central cache and gives a batch
  back when it is too long. The pointer \<open>pTLSThreadCache\<close> of thread \<open>t\<close> is \<open>cm_threads s t\<close>.
\<close>

section \<open>The code\<close>

type_synonym thread_cache = "nat \<Rightarrow> free_list"

record cmp =
  cm_central :: central
  cm_threads :: "nat \<Rightarrow> thread_cache option"

definition new_thread_cache :: thread_cache where
  "new_thread_cache = (\<lambda>_. fl_new)"

text \<open>The bucket of a request: rounding, \<open>Index\<close>, and the bound of the array it subscripts.\<close>

definition bucket_index :: "u64 \<Rightarrow> nat res" where
  "bucket_index osz =
     rbind (Index osz) (\<lambda>i. if i < NFREE_LISTS then Inr (unat i) else Inl OutOfBounds)"

text \<open>\<open>distribute_nums\<close> is an \<open>int\<close>; \<open>Push_Range\<close> gets the link of \<open>start\<close> by reference, which its
  one write, to the link of \<open>end\<close>, leaves as it is because \<open>end\<close> is a later block.\<close>

definition FetchFromCentralCache :: "central \<Rightarrow> thread_cache \<Rightarrow> u64 \<Rightarrow> (addr \<times> central \<times> thread_cache) res" where
  "FetchFromCentralCache c tc bytes =
     (let osz = RoundUp bytes in
      rbind (bucket_index osz) (\<lambda>index.
      rbind (NumMoveSize osz) (\<lambda>nums.
        let distribute_nums = ucast (min nums (fl_max_size (tc index))) :: i32;
            n = scast distribute_nums :: u64;
            tc1 = (if n = fl_max_size (tc index)
                   then tc(index := (tc index)\<lparr>fl_max_size := fl_max_size (tc index) + 1\<rparr>) else tc)
        in rbind (FetchRangeObj c n osz) (\<lambda>(actual_num, start, end', c1).
             if \<not> actual_num \<ge> 1 then Inl AssertFailed
             else if actual_num = 1 then Inr (start, c1, tc1)
             else
               rbind (NextObj (cc_mem c1) start) (\<lambda>rest.
               rbind (fl_Push_Range (cc_mem c1) (tc1 index) rest end' (actual_num - 1)) (\<lambda>(m, l).
                 Inr (start, c1\<lparr>cc_mem := m\<rparr>, tc1(index := l))))))))"

definition Allocate :: "central \<Rightarrow> thread_cache \<Rightarrow> u64 \<Rightarrow> (addr \<times> central \<times> thread_cache) res" where
  "Allocate c tc bytes =
     rbind (bucket_index (RoundUp bytes)) (\<lambda>index.
       if \<not> fl_Empty (tc index) then
         rbind (fl_Pop (cc_mem c) (tc index)) (\<lambda>(obj, l). Inr (obj, c, tc(index := l)))
       else FetchFromCentralCache c tc bytes)"

definition ListTooLong :: "central \<Rightarrow> free_list \<Rightarrow> u64 \<Rightarrow> (central \<times> free_list) res" where
  "ListTooLong c l sz =
     rbind (fl_Pop_Range (cc_mem c) l (fl_max_size l)) (\<lambda>(start, end', m, l').
     rbind (ReleaseListToSpans (c\<lparr>cc_mem := m\<rparr>) start sz) (\<lambda>c'.
       Inr (c', l')))"

definition DeAllocate :: "central \<Rightarrow> thread_cache \<Rightarrow> addr \<Rightarrow> u64 \<Rightarrow> (central \<times> thread_cache) res" where
  "DeAllocate c tc ptr sz =
     (if ptr = nullptr then Inl AssertFailed
      else if \<not> sz < MAX_BYTES then Inl AssertFailed
      else
        let osz = RoundUp sz in
        rbind (bucket_index osz) (\<lambda>index.
        rbind (fl_Push (cc_mem c) (tc index) ptr) (\<lambda>(m, l).
          if fl_size l \<ge> fl_max_size l then
            rbind (ListTooLong (c\<lparr>cc_mem := m\<rparr>) l osz) (\<lambda>(c', l'). Inr (c', tc(index := l')))
          else Inr (c\<lparr>cc_mem := m\<rparr>, tc(index := l)))))"

text \<open>More than \<open>MAX_BYTES\<close> is a span of its own.\<close>

definition malloc_big :: "cmp \<Rightarrow> u64 \<Rightarrow> (addr \<times> cmp) res" where
  "malloc_big s sz =
     (let c = cm_central s; k_page = drop_bit PAGE_SHIFT (RoundUp sz) in
      rbind (NewSpan (cc_pc c) k_page) (\<lambda>(x, pc).
        if x = nullptr then Inl NullDeref
        else
          let h = (pc_spans pc)\<lparr>s_obj_size := (s_obj_size (pc_spans pc))(x := sz),
                s_use_count := (s_use_count (pc_spans pc))(x := 1),
                s_is_used := (s_is_used (pc_spans pc))(x := True),
                s_free_lists := (s_free_lists (pc_spans pc))(x := nullptr)\<rparr>
          in Inr (push_bit PAGE_SHIFT (s_page_id h x), s\<lparr>cm_central := c\<lparr>cc_pc := pc\<lparr>pc_spans := h\<rparr>\<rparr>\<rparr>)))"

definition ConcurrentMalloc :: "cmp \<Rightarrow> nat \<Rightarrow> u64 \<Rightarrow> (addr \<times> cmp) res" where
  "ConcurrentMalloc s t sz =
     (if sz > MAX_BYTES then malloc_big s sz
      else
        let tc = (case cm_threads s t of None \<Rightarrow> new_thread_cache | Some tc \<Rightarrow> tc) in
        rbind (Allocate (cm_central s) tc sz) (\<lambda>(p, c, tc').
          Inr (p, s\<lparr>cm_central := c, cm_threads := (cm_threads s)(t := Some tc')\<rparr>)))"

definition ConcurrentDelete :: "cmp \<Rightarrow> nat \<Rightarrow> addr \<Rightarrow> cmp res" where
  "ConcurrentDelete s t ptr =
     (let c = cm_central s in
      rbind (PageToSpan (cc_pc c) ptr) (\<lambda>x.
        let sz = s_obj_size (cc_spans c) x in
        if sz > MAX_BYTES then
          rbind (ReleaseSpanToPageCache (cc_pc c) x) (\<lambda>pc. Inr (s\<lparr>cm_central := c\<lparr>cc_pc := pc\<rparr>\<rparr>))
        else case cm_threads s t of
          None \<Rightarrow> Inl AssertFailed
        | Some tc \<Rightarrow> rbind (DeAllocate c tc ptr sz) (\<lambda>(c', tc').
            Inr (s\<lparr>cm_central := c', cm_threads := (cm_threads s)(t := Some tc')\<rparr>))))"

section \<open>One thread cache\<close>

text \<open>The lists of a thread hold blocks that are out, and their limits stay small.\<close>

definition fl_lim :: "free_list \<Rightarrow> addr list \<Rightarrow> bool" where
  "fl_lim l xs \<longleftrightarrow> 1 \<le> unat (fl_max_size l) \<and> unat (fl_max_size l) \<le> 513"

interpretation ctl: thread_lists fl_rep fl_lim 208
  by unfold_locales (fact fl.rep_frame fl.rep_distinct)+

definition tc_ok :: "central \<Rightarrow> (nat \<Rightarrow> addr list) \<Rightarrow> (addr \<Rightarrow> addr list) \<Rightarrow> thread_cache \<Rightarrow> (nat \<Rightarrow> addr list) \<Rightarrow> bool" where
  "tc_ok c C B = lists_ok fl_rep fl_lim 208 (live c C B) (cc_mem c)"

lemma bucket_index_class: "is_class sz i \<Longrightarrow> bucket_index sz = Inr i"
  using is_class_Index [of sz i] by (simp add: bucket_index_def)

lemma fl_Empty_rep: "fl_rep m l xs \<Longrightarrow> fl_Empty l \<longleftrightarrow> xs = []"
  by (cases xs) (auto simp: fl_rep_def fl_Empty_def)

text \<open>A block \<open>p\<close> of class \<open>i\<close> was taken for the program. What the program held before it holds
  still, and the lists of the thread gained blocks that nobody had.\<close>

definition alloc_ok :: "central \<Rightarrow> (nat \<Rightarrow> addr list) \<Rightarrow> (addr \<Rightarrow> addr list) \<Rightarrow> (nat \<Rightarrow> addr list) \<Rightarrow> nat \<Rightarrow>
    (addr \<times> central \<times> thread_cache) res \<Rightarrow> bool" where
  "alloc_ok c C B T i r \<longleftrightarrow>
     (\<exists>p c' tc' L' U' C' B' T'. r = Inr (p, c', tc') \<and> cc_inv c' L' U' C' B' \<and> tc_ok c' C' B' tc' T' \<and>
        took 208 (live c C B) (cc_mem c) T i p (live c' C' B') (cc_mem c') T')"

lemma tc_okD:
  assumes "tc_ok c C B tc T" "i < 208"
  shows "fl_rep (cc_mem c) (tc i) (T i)" "set (T i) \<subseteq> live c C B i"
    "1 \<le> unat (fl_max_size (tc i))" "unat (fl_max_size (tc i)) \<le> 513"
  using lists_okD [OF assms(1) [unfolded tc_ok_def] assms(2)] by (simp_all add: fl_lim_def)

lemma Allocate_pop_ok:
  assumes inv: "cc_inv c L U C B" and tc: "tc_ok c C B tc T" and i: "i < 208" and T: "T i = p # ys"
  obtains l where "fl_Pop (cc_mem c) (tc i) = Inr (p, l)" "alloc_ok c C B T i (Inr (p, c, tc(i := l)))"
proof -
  note t = tc_okD [OF tc i]
  obtain l where l: "fl_Pop (cc_mem c) (tc i) = Inr (p, l)" "fl_rep (cc_mem c) l ys"
    using fl.pop_rep [of "cc_mem c" "tc i" p ys] t(1) T by auto
  have "fl_max_size l = fl_max_size (tc i)"
    using l(1) by (auto simp: fl_Pop_def NextObj_def split: if_splits)
  then have "fl_lim l ys"
    using t(3,4) by (simp add: fl_lim_def)
  from ctl.lists_pop [OF tc [unfolded tc_ok_def] i T l(2) this] show thesis
    using that [OF l(1)] inv unfolding alloc_ok_def tc_ok_def by blast
qed

text \<open>The size of the next batch: at least one, and the limit grows by one at most.\<close>

lemma batch_size:
  assumes "is_class sz i" "1 \<le> unat mx" "unat mx \<le> 513"
  obtains k where "NumMoveSize sz = Inr k" "0 < unat (scast (ucast (min k mx) :: i32) :: u64)"
    "scast (ucast (min k mx) :: i32) = min k mx" "min k mx = mx \<Longrightarrow> unat mx \<le> 512"
proof -
  have s: "0 < unat sz" "unat sz \<le> 512 * 1024"
    using assms by (simp_all add: is_class_def)
  obtain k where k: "NumMoveSize sz = Inr k" "2 \<le> unat k" "unat k \<le> 512"
    using NumMovePage_ok [OF s] by blast
  have m: "unat (min k mx) = min (unat k) (unat mx)"
    by (simp add: min_def word_le_nat_alt)
  then have u: "unat (scast (ucast (min k mx) :: i32) :: u64) = unat (min k mx)"
    using k(3) by (intro unat_scast_ucast_i32) simp
  then have e: "scast (ucast (min k mx) :: i32) = min k mx"
    by (rule unat_inj_u64)
  show thesis
  proof (rule that [OF k(1) _ e])
    show "0 < unat (scast (ucast (min k mx) :: i32) :: u64)"
      using u m k(2) assms(2) by simp
    show "unat mx \<le> 512" if "min k mx = mx"
      using that m k(3) by (metis min.bounded_iff min.cobounded1 le_trans)
  qed
qed

lemma FetchFromCentralCache_ok:
  assumes inv: "cc_inv c L U C B" and tc: "tc_ok c C B tc T" and cl: "is_class (RoundUp bytes) i" and T: "T i = []"
    and sup: "\<And>p. (\<forall>x \<in> set (C i). B x = []) \<Longrightarrow> NumMovePage (RoundUp bytes) = Inr p \<Longrightarrow>
      supply_ok (cc_pc c) L U (unat p)"
  shows "alloc_ok c C B T i (FetchFromCentralCache c tc bytes)"
proof -
  have i: "i < 208"
    by (rule is_class_less [OF cl])
  have ti: "fl_rep (cc_mem c) (tc i) []" "1 \<le> unat (fl_max_size (tc i))" "unat (fl_max_size (tc i)) \<le> 513"
    using tc_okD [OF tc i] T by auto
  obtain k where k: "NumMoveSize (RoundUp bytes) = Inr k"
      "0 < unat (scast (ucast (min k (fl_max_size (tc i))) :: i32) :: u64)"
      "scast (ucast (min k (fl_max_size (tc i))) :: i32) = min k (fl_max_size (tc i))"
      "min k (fl_max_size (tc i)) = fl_max_size (tc i) \<Longrightarrow> unat (fl_max_size (tc i)) \<le> 512"
    using batch_size [OF cl ti(2,3)] by blast
  define n where "n = min k (fl_max_size (tc i))"
  define l1 where "l1 = (if n = fl_max_size (tc i) then (tc i)\<lparr>fl_max_size := fl_max_size (tc i) + 1\<rparr> else tc i)"
  define tc1 where "tc1 = (if n = fl_max_size (tc i)
     then tc(i := (tc i)\<lparr>fl_max_size := fl_max_size (tc i) + 1\<rparr>) else tc)"
  have tc1: "tc1 = tc(i := l1)"
    by (simp add: tc1_def l1_def)
  have l1: "fl_rep m l1 []" "fl_lim l1 xs" for m xs
    using ti k(4) by (auto simp: l1_def n_def fl_lim_def fl_rep_def unat_add_nowrap)
  have "fetch_ok c C B i n (FetchRangeObj c n (RoundUp bytes))"
    using k(2,3) by (intro FetchRangeObj_ok [OF inv cl _ sup]) (simp_all add: n_def)
  then obtain bs c1 L1 U1 C1 B1 where f: "FetchRangeObj c n (RoundUp bytes) = Inr (of_nat (length bs), hd bs, last bs, c1)"
      "bs \<noteq> []" "length bs \<le> unat n" "distinct bs" "lseg (cc_mem c1) (hd bs) bs nullptr" "cc_inv c1 L1 U1 C1 B1"
      "\<And>j. j < 208 \<Longrightarrow> set bs \<inter> live c C B j = {}"
      "\<And>j. j < 208 \<Longrightarrow> live c1 C1 B1 j = live c C B j \<union> (if j = i then set bs else {})"
      "\<And>j a. j < 208 \<Longrightarrow> a \<in> live c C B j \<Longrightarrow> cc_mem c1 a = cc_mem c a"
    unfolding fetch_ok_def by metis
  obtain p ys where bs: "bs = p # ys"
    using f(2) by (cases bs) auto
  have un: "unat (of_nat (length bs) :: u64) = length bs"
    using f(3) unat_u64_less [of n] by (intro unat_of_nat_small) simp
  have fin: "alloc_ok c C B T i (Inr (p, c1\<lparr>cc_mem := m\<rparr>, tc(i := l)))"
    if "fl_rep m l ys" "fl_lim l ys" "\<And>j a. j < 208 \<Longrightarrow> a \<in> live c C B j \<Longrightarrow> m a = cc_mem c a"
      "cc_inv (c1\<lparr>cc_mem := m\<rparr>) L1 U1 C1 B1" for m l
  proof -
    have d: "distinct (p # ys)" "set (p # ys) \<inter> live c C B i = {}"
      using f(4,7) i bs by simp_all
    have o: "live (c1\<lparr>cc_mem := m\<rparr>) C1 B1 j = live c C B j \<union> (if j = i then set (p # ys) else {})" if "j < 208" for j
      using f(8) [OF that] bs by simp
    have "tc_ok (c1\<lparr>cc_mem := m\<rparr>) C1 B1 (tc(i := l)) (T(i := ys))"
        "took 208 (live c C B) (cc_mem c) T i p (live (c1\<lparr>cc_mem := m\<rparr>) C1 B1) m (T(i := ys))"
      using ctl.lists_batch [OF tc [unfolded tc_ok_def] i T d o that(1,2,3)] by (simp_all add: tc_ok_def)
    then show ?thesis
      unfolding alloc_ok_def using that(4)
      by (intro exI [of _ p] exI [of _ "c1\<lparr>cc_mem := m\<rparr>"] exI [of _ "tc(i := l)"] exI [of _ L1] exI [of _ U1]
          exI [of _ C1] exI [of _ B1] exI [of _ "T(i := ys)"]) simp
  qed
  show ?thesis
  proof (cases ys)
    case Nil
    have "FetchFromCentralCache c tc bytes = Inr (p, c1, tc1)"
      using bucket_index_class [OF cl] k(1,3) f(1) bs Nil
      by (simp add: FetchFromCentralCache_def Let_def tc1_def flip: n_def)
    moreover have "alloc_ok c C B T i (Inr (p, c1\<lparr>cc_mem := cc_mem c1\<rparr>, tc(i := l1)))"
      using f(6,9) l1 Nil by (intro fin) simp_all
    ultimately show ?thesis
      by (simp add: tc1)
  next
    case (Cons y zs)
    have e: "ys = butlast ys @ [last ys]" "last bs = last ys" "last ys \<in> set bs"
      using bs Cons by simp_all
    have ln: "length bs = length (butlast ys) + 2"
      using bs Cons by simp
    have p0: "p \<noteq> nullptr" "lseg (cc_mem c1) (cc_mem c1 p) (butlast ys @ [last ys]) nullptr"
      using f(5) bs unfolding e(1) [symmetric] by auto
    have un1: "unat (of_nat (length bs) - 1 :: u64) = length (butlast ys) + 1"
    proof -
      have "unat (of_nat (length bs) - 1 :: u64) = unat (of_nat (length bs) :: u64) - unat (1 :: u64)"
        by (rule unat_minus_nowrap) (subst un, simp add: ln)
      then show ?thesis
        unfolding un by (simp add: ln)
    qed
    obtain m l where l: "fl_Push_Range (cc_mem c1) l1 (cc_mem c1 p) (last ys) (of_nat (length bs) - 1) = Inr (m, l)"
        "fl_rep m l (butlast ys @ [last ys])" "\<forall>y. y \<noteq> last ys \<longrightarrow> m y = cc_mem c1 y" "fl_max_size l = fl_max_size l1"
      using fl_Push_Range_rep [OF l1(1) p0(2), of "of_nat (length bs) - 1"] un1 f(3,4) bs unat_u64_less [of n] ln
      unfolding e(1) [symmetric] by auto
    have n1: "(1 :: u64) \<le> of_nat (length bs)" "of_nat (length bs) \<noteq> (1 :: u64)"
      using un ln by (auto simp: word_le_nat_alt u64_eq_iff_unat)
    have r: "FetchFromCentralCache c tc bytes = Inr (p, c1\<lparr>cc_mem := m\<rparr>, tc(i := l))"
      using bucket_index_class [OF cl] k(1,3) f(1) l(1) n1 e(2) p0(1) bs tc1
      by (simp add: FetchFromCentralCache_def Let_def tc1_def NextObj_def del: of_nat_Suc length_Cons flip: n_def)
    have mf: "m a = cc_mem c a" if "j < 208" "a \<in> live c C B j" for j a
    proof -
      have "a \<noteq> last ys"
        using f(7) [OF that(1)] e(3) that(2) by blast
      then show ?thesis
        using l(3) f(9) [OF that] by simp
    qed
    have "cc_inv (c1\<lparr>cc_mem := m\<rparr>) L1 U1 C1 B1"
    proof (rule cc_inv_mem [OF f(6) i])
      show "m a = cc_mem c1 a" if "a \<notin> live c1 C1 B1 i" for a
      proof -
        have "a \<noteq> last ys"
          using that f(8) [OF i] e(3) by auto
        then show ?thesis
          using l(3) by blast
      qed
    qed
    then show ?thesis
      unfolding r using l(2) l1(2) l(4) mf unfolding e(1) [symmetric] by (intro fin) (simp_all add: fl_lim_def)
  qed
qed

lemma Allocate_ok:
  assumes inv: "cc_inv c L U C B" and tc: "tc_ok c C B tc T" and cl: "is_class (RoundUp bytes) i"
    and sup: "\<And>p. T i = [] \<Longrightarrow> (\<forall>x \<in> set (C i). B x = []) \<Longrightarrow> NumMovePage (RoundUp bytes) = Inr p \<Longrightarrow>
      supply_ok (cc_pc c) L U (unat p)"
  shows "alloc_ok c C B T i (Allocate c tc bytes)"
proof -
  have i: "i < 208"
    by (rule is_class_less [OF cl])
  have e: "fl_Empty (tc i) \<longleftrightarrow> T i = []"
    by (rule fl_Empty_rep [OF tc_okD(1) [OF tc i]])
  show ?thesis
  proof (cases "T i")
    case Nil
    then have "Allocate c tc bytes = FetchFromCentralCache c tc bytes"
      using e bucket_index_class [OF cl] by (simp add: Allocate_def)
    moreover have "alloc_ok c C B T i (FetchFromCentralCache c tc bytes)"
      by (rule FetchFromCentralCache_ok [OF inv tc cl Nil sup [OF Nil]])
    ultimately show ?thesis by simp
  next
    case (Cons p ys)
    obtain l where "fl_Pop (cc_mem c) (tc i) = Inr (p, l)" "alloc_ok c C B T i (Inr (p, c, tc(i := l)))"
      using Allocate_pop_ok [OF inv tc i Cons] .
    then show ?thesis
      using e bucket_index_class [OF cl] Cons by (simp add: Allocate_def)
  qed
qed

text \<open>The block \<open>p\<close> of class \<open>i\<close> comes back from the program: it alone stops being the program's.\<close>

definition free_ok :: "central \<Rightarrow> (nat \<Rightarrow> addr list) \<Rightarrow> (addr \<Rightarrow> addr list) \<Rightarrow> (nat \<Rightarrow> addr list) \<Rightarrow> nat \<Rightarrow> addr \<Rightarrow>
    (central \<times> thread_cache) res \<Rightarrow> bool" where
  "free_ok c C B T i p r \<longleftrightarrow>
     (\<exists>c' tc' L' U' C' B' T'. r = Inr (c', tc') \<and> cc_inv c' L' U' C' B' \<and> tc_ok c' C' B' tc' T' \<and>
        gave 208 (live c C B) (cc_mem c) T i p (live c' C' B') (cc_mem c') T')"

lemma fl_Push_max: "fl_Push m l x = Inr (m', l') \<Longrightarrow> fl_max_size l' = fl_max_size l"
  by (auto simp: fl_Push_def SetNextObj_def split: if_splits)

lemma ListTooLong_ok:
  assumes inv: "cc_inv c L U C B" and cl: "is_class sz i" and l: "fl_rep (cc_mem c) l (as @ e # xs)"
    and n: "unat (fl_max_size l) = length as + 1" and sub: "set (as @ e # xs) \<subseteq> live c C B i"
  shows "\<exists>c' l' L' U' C' B'. ListTooLong c l sz = Inr (c', l') \<and> cc_inv c' L' U' C' B' \<and>
    fl_rep (cc_mem c') l' xs \<and> fl_max_size l' = fl_max_size l \<and>
    (\<forall>j < 208. live c' C' B' j = live c C B j - (if j = i then set (as @ [e]) else {})) \<and>
    (\<forall>a. a \<notin> set (as @ [e]) \<longrightarrow> cc_mem c' a = cc_mem c a)"
proof -
  have i: "i < 208"
    by (rule is_class_less [OF cl])
  have d: "distinct (as @ e # xs)"
    using l by (simp add: fl_rep_def)
  obtain m' l' where p: "fl_Pop_Range (cc_mem c) l (fl_max_size l) = Inr (hd (as @ [e]), e, m', l')"
      "fl_rep m' l' xs" "lseg m' (hd (as @ [e])) (as @ [e]) nullptr" "\<forall>y. y \<noteq> e \<longrightarrow> m' y = cc_mem c y"
      "fl_max_size l' = fl_max_size l"
    using fl_Pop_Range_rep [OF l n] by blast
  have inv': "cc_inv (c\<lparr>cc_mem := m'\<rparr>) L U C B"
    using p(4) sub by (intro cc_inv_mem [OF inv i]) auto
  have "\<exists>c'. ReleaseListToSpans (c\<lparr>cc_mem := m'\<rparr>) (hd (as @ [e])) sz = Inr c' \<and>
      gave_back (c\<lparr>cc_mem := m'\<rparr>) C B i (set (as @ [e])) c'"
    by (rule ReleaseListToSpans_ok [OF inv' cl]) (use p(3) d sub in auto)
  then obtain c' L' U' C' B' where r: "ReleaseListToSpans (c\<lparr>cc_mem := m'\<rparr>) (hd (as @ [e])) sz = Inr c'"
      "cc_inv c' L' U' C' B'"
      "\<And>j. j < 208 \<Longrightarrow> live c' C' B' j = live c C B j - (if j = i then set (as @ [e]) else {})"
      "\<And>a. a \<notin> set (as @ [e]) \<Longrightarrow> cc_mem c' a = m' a"
    unfolding gave_back_def by (auto simp del: set_append)
  have "fl_rep (cc_mem c') l' xs"
    using d by (intro fl_rep_frame [OF p(2)] r(4)) auto
  moreover have "cc_mem c' a = cc_mem c a" if "a \<notin> set (as @ [e])" for a
    using r(4) [OF that] p(4) that by auto
  ultimately show ?thesis
    unfolding ListTooLong_def using p(1,5) r(1-3)
    by (intro exI [of _ c'] exI [of _ l'] exI [of _ L'] exI [of _ U'] exI [of _ C'] exI [of _ B'] conjI)
      simp_all
qed

lemma DeAllocate_ok:
  assumes inv: "cc_inv c L U C B" and tc: "tc_ok c C B tc T" and cl: "is_class sz i"
    and p: "p \<in> live c C B i" "p \<notin> set (T i)" "p \<noteq> nullptr"
  shows "free_ok c C B T i p (DeAllocate c tc p sz)"
proof -
  have i: "i < 208"
    by (rule is_class_less [OF cl])
  note ti = tc_okD [OF tc i]
  have len: "length (T i) < 18446744073709551615"
  proof -
    have "distinct (nullptr # p # T i)"
      using ti(1) p fl.rep_distinct by auto
    then show ?thesis
      using length_distinct_u64 [of "nullptr # p # T i"] by simp
  qed
  obtain m l where l: "fl_Push (cc_mem c) (tc i) p = Inr (m, l)" "fl_rep m l (p # T i)"
      "\<forall>y. y \<noteq> p \<longrightarrow> m y = cc_mem c y"
    using fl.push_rep [OF ti(1) p(3,2) len] by blast
  have ms: "fl_max_size l = fl_max_size (tc i)"
    by (rule fl_Push_max [OF l(1)])
  let ?c = "c\<lparr>cc_mem := m\<rparr>"
  have inv1: "cc_inv ?c L U C B"
  proof (rule cc_inv_mem [OF inv i])
    show "m a = cc_mem c a" if "a \<notin> live c C B i" for a
      using l(3) p(1) that by metis
  qed
  have sz: "\<not> p = nullptr" "sz < MAX_BYTES" "RoundUp sz = sz"
    using cl p(3) by (simp_all add: is_class_def word_less_nat_alt MAX_BYTES_def)
  have r: "DeAllocate c tc p sz = (if fl_size l \<ge> fl_max_size l
      then rbind (ListTooLong ?c l sz) (\<lambda>(c', l'). Inr (c', tc(i := l'))) else Inr (?c, tc(i := l)))"
    using sz l(1) bucket_index_class [OF cl] by (simp add: DeAllocate_def Let_def)
  have dis: "\<And>j. j < 208 \<Longrightarrow> j \<noteq> i \<Longrightarrow> live c C B j \<inter> live c C B i = {}"
    using live_disjoint [OF inv _ i] by blast
  have fin: "free_ok c C B T i p (Inr (c', tc(i := l')))"
    if "cc_inv c' L' U' C' B'" "fl_rep (cc_mem c') l' xs" "fl_max_size l' = fl_max_size (tc i)" "p # T i = as @ xs"
      "\<And>j. j < 208 \<Longrightarrow> live c' C' B' j = live c C B j - (if j = i then set as else {})"
      "\<And>a. a \<notin> insert p (set (T i)) \<Longrightarrow> cc_mem c' a = cc_mem c a" for c' l' L' U' C' B' as xs
  proof -
    have "fl_lim l' xs"
      using that(3) ti(3,4) by (simp add: fl_lim_def)
    from ctl.lists_push [OF tc [unfolded tc_ok_def] i p(1,2) dis that(4,5,2) this that(6)] show ?thesis
      unfolding free_ok_def tc_ok_def using that(1) by blast
  qed
  show ?thesis
  proof (cases "fl_size l \<ge> fl_max_size l")
    case False
    have "free_ok c C B T i p (Inr (?c, tc(i := l)))"
      by (rule fin [OF inv1 _ ms, of "p # T i" "[]"]) (use l(2,3) in simp_all)
    then show ?thesis
      using r False by simp
  next
    case True
    let ?k = "unat (fl_max_size l)"
    have k: "1 \<le> ?k" "?k \<le> length (p # T i)"
      using True ti(3) ms l(2) by (simp_all add: fl_rep_def word_le_nat_alt)
    define ft where "ft = take ?k (p # T i)"
    define xs where "xs = drop ?k (p # T i)"
    have ft: "ft = butlast ft @ [last ft]" "length ft = ?k"
      using k by (auto simp: ft_def intro: append_butlast_last_id [symmetric])
    have sp: "p # T i = butlast ft @ last ft # xs"
      using ft(1) by (metis append.assoc append_Cons append_Nil append_take_drop_id ft_def xs_def)
    have sub: "set (butlast ft @ last ft # xs) \<subseteq> live ?c C B i"
      unfolding sp [symmetric] using ti(2) p(1) by simp
    have rep: "fl_rep (cc_mem ?c) l (butlast ft @ last ft # xs)"
      using l(2) unfolding sp by simp
    have n: "?k = length (butlast ft) + 1"
      using ft(2) k(1) by simp
    obtain c' l' L' U' C' B' where lt: "ListTooLong ?c l sz = Inr (c', l')" "cc_inv c' L' U' C' B'"
        "fl_rep (cc_mem c') l' xs" "fl_max_size l' = fl_max_size l"
        "\<And>j. j < 208 \<Longrightarrow> live c' C' B' j = live ?c C B j - (if j = i then set (butlast ft @ [last ft]) else {})"
        "\<And>a. a \<notin> set (butlast ft @ [last ft]) \<Longrightarrow> cc_mem c' a = cc_mem ?c a"
      using ListTooLong_ok [OF inv1 cl rep n sub] by blast
    have "free_ok c C B T i p (Inr (c', tc(i := l')))"
    proof (rule fin [OF lt(2,3)])
      show "p # T i = (butlast ft @ [last ft]) @ xs"
        using sp by simp
      show "cc_mem c' a = cc_mem c a" if "a \<notin> insert p (set (T i))" for a
      proof -
        have "set (butlast ft @ [last ft]) \<subseteq> insert p (set (T i))"
          using arg_cong [OF sp, of set] by auto
        then have "a \<notin> set (butlast ft @ [last ft])" "a \<noteq> p"
          using that by blast+
        then show ?thesis
          using lt(6) l(3) by simp
      qed
    qed (use lt(4,5) ms in simp_all)
    then show ?thesis
      using r True lt(1) by simp
  qed
qed

end
