(* ===== verification/Concurrent_Pool.thy ===== *)
theory Concurrent_Pool
  imports Thread_Cache
begin

text \<open>
  The whole pool: any number of threads, each with its cache, over one central cache and one page
  cache. \<open>T t i\<close> is the list of class \<open>i\<close> of thread \<open>t\<close>, and what the program holds is what is out
  of the central cache and in no thread's list. A call of any thread is one step from one state of the pool to the
  next: what another thread sees between the locks of a call is not modelled here.
\<close>

definition cmp_inv :: "cmp \<Rightarrow> (nat \<Rightarrow> addr list) \<Rightarrow> addr set \<Rightarrow> (nat \<Rightarrow> addr list) \<Rightarrow> (addr \<Rightarrow> addr list) \<Rightarrow>
    (nat \<Rightarrow> nat \<Rightarrow> addr list) \<Rightarrow> bool" where
  "cmp_inv s L U C B T \<longleftrightarrow>
     cc_inv (cm_central s) L U C B \<and>
     threads_ok fl_rep fl_lim 208 (live (cm_central s) C B) (cc_mem (cm_central s)) (cm_threads s) T"

definition held :: "cmp \<Rightarrow> (nat \<Rightarrow> addr list) \<Rightarrow> (addr \<Rightarrow> addr list) \<Rightarrow> (nat \<Rightarrow> nat \<Rightarrow> addr list) \<Rightarrow> nat \<Rightarrow> addr set" where
  "held s C B T = held_of (live (cm_central s) C B) T"

lemma cmp_invD:
  assumes "cmp_inv s L U C B T"
  shows "cc_inv (cm_central s) L U C B"
    "threads_ok fl_rep fl_lim 208 (live (cm_central s) C B) (cc_mem (cm_central s)) (cm_threads s) T"
  using assms by (simp_all add: cmp_inv_def)

lemma new_tc_ok: "tc_ok c C B new_thread_cache (\<lambda>_. [])"
  by (simp add: tc_ok_def lists_ok_def new_thread_cache_def fl_new_def fl_rep_def fl_lim_def)

section \<open>\<open>ConcurrentMalloc\<close>\<close>

definition malloc_ok :: "cmp \<Rightarrow> (nat \<Rightarrow> addr list) \<Rightarrow> (addr \<Rightarrow> addr list) \<Rightarrow> (nat \<Rightarrow> nat \<Rightarrow> addr list) \<Rightarrow> nat \<Rightarrow>
    (addr \<times> cmp) res \<Rightarrow> bool" where
  "malloc_ok s C B T i r \<longleftrightarrow>
     (\<exists>p s' L' U' C' B' T'. r = Inr (p, s') \<and> cmp_inv s' L' U' C' B' T' \<and>
        (\<forall>j < 208. p \<notin> held s C B T j) \<and>
        (\<forall>j < 208. held s' C' B' T' j = held s C B T j \<union> (if j = i then {p} else {})))"

lemma ConcurrentMalloc_ok:
  assumes inv: "cmp_inv s L U C B T" and sz: "0 < unat sz" "unat sz \<le> 262144" and cl: "is_class (RoundUp sz) i"
    and sup: "\<And>p. T t i = [] \<Longrightarrow> (\<forall>x \<in> set (C i). B x = []) \<Longrightarrow> NumMovePage (RoundUp sz) = Inr p \<Longrightarrow>
      supply_ok (cc_pc (cm_central s)) L U (unat p)"
  shows "malloc_ok s C B T i (ConcurrentMalloc s t sz)"
proof -
  let ?c = "cm_central s"
  have i: "i < 208"
    by (rule is_class_less [OF cl])
  note cc = cmp_invD(1) [OF inv] and th = cmp_invD(2) [OF inv]
  let ?tc = "case cm_threads s t of None \<Rightarrow> new_thread_cache | Some tc \<Rightarrow> tc"
  have "tc_ok ?c C B ?tc (T t)"
    unfolding tc_ok_def by (rule own_lists [OF th new_tc_ok [unfolded tc_ok_def]])
  then have "alloc_ok ?c C B (T t) i (Allocate ?c ?tc sz)"
    by (rule Allocate_ok [OF cc _ cl sup])
  then obtain p c' tc' L' U' C' B' T1 where a: "Allocate ?c ?tc sz = Inr (p, c', tc')" "cc_inv c' L' U' C' B'"
      "tc_ok c' C' B' tc' T1" "took 208 (live ?c C B) (cc_mem ?c) (T t) i p (live c' C' B') (cc_mem c') T1"
    unfolding alloc_ok_def by blast
  let ?s' = "s\<lparr>cm_central := c', cm_threads := (cm_threads s)(t := Some tc')\<rparr>"
  have r: "ConcurrentMalloc s t sz = Inr (p, ?s')"
    using a(1) sz(2) by (simp add: ConcurrentMalloc_def MAX_BYTES_def word_less_nat_alt Let_def)
  have dis: "\<And>j. j < 208 \<Longrightarrow> j \<noteq> i \<Longrightarrow> live c' C' B' j \<inter> live c' C' B' i = {}"
    using live_disjoint [OF a(2) _ i] by blast
  note tk = ctl.threads_take [OF th a(3) [unfolded tc_ok_def] i a(4) dis]
  show ?thesis
    unfolding malloc_ok_def cmp_inv_def held_def using r a(2) tk
    by (intro exI [of _ p] exI [of _ ?s'] exI [of _ L'] exI [of _ U'] exI [of _ C'] exI [of _ B'] exI [of _ "T(t := T1)"]) simp
qed

section \<open>\<open>ConcurrentDelete\<close>\<close>

definition delete_ok :: "cmp \<Rightarrow> (nat \<Rightarrow> addr list) \<Rightarrow> (addr \<Rightarrow> addr list) \<Rightarrow> (nat \<Rightarrow> nat \<Rightarrow> addr list) \<Rightarrow> nat \<Rightarrow> addr \<Rightarrow>
    cmp res \<Rightarrow> bool" where
  "delete_ok s C B T i p r \<longleftrightarrow>
     (\<exists>s' L' U' C' B' T'. r = Inr s' \<and> cmp_inv s' L' U' C' B' T' \<and>
        (\<forall>j < 208. held s' C' B' T' j = held s C B T j - (if j = i then {p} else {})))"

lemma ConcurrentDelete_ok:
  assumes inv: "cmp_inv s L U C B T" and i: "i < 208" and p: "p \<in> held s C B T i" and t: "cm_threads s t = Some tc"
  shows "delete_ok s C B T i p (ConcurrentDelete s t p)"
proof -
  let ?c = "cm_central s"
  note cc = cmp_invD(1) [OF inv] and th = cmp_invD(2) [OF inv]
  have pl: "p \<in> live ?c C B i" "p \<notin> set (T t i)"
    using p by (auto simp: held_def held_of_def)
  obtain x where x: "x \<in> set (C i)" "p \<in> set (blocks (cc_spans ?c) x)"
    using pl(1) by (auto simp: live_def out_of_def)
  have cl: "is_class (s_obj_size (cc_spans ?c) x) i"
    using cc_invD(4) [OF cc i x(1)] by simp
  have p0: "p \<noteq> nullptr"
    by (rule block_owner(2) [OF cc_inv_sane(1) [OF cc i x(1)] x(2)])
  have "tc_ok ?c C B tc (T t)"
    using threads_okD(1) [OF th t] by (simp add: tc_ok_def)
  from DeAllocate_ok [OF cc this cl pl p0]
  obtain c' tc' L' U' C' B' T1 where a: "DeAllocate ?c tc p (s_obj_size (cc_spans ?c) x) = Inr (c', tc')"
      "cc_inv c' L' U' C' B'" "tc_ok c' C' B' tc' T1"
      "gave 208 (live ?c C B) (cc_mem ?c) (T t) i p (live c' C' B') (cc_mem c') T1"
    unfolding free_ok_def by blast
  let ?s' = "s\<lparr>cm_central := c', cm_threads := (cm_threads s)(t := Some tc')\<rparr>"
  have r: "ConcurrentDelete s t p = Inr ?s'"
    using a(1) t cl PageToSpan_block [OF cc i x]
    by (simp add: ConcurrentDelete_def is_class_def MAX_BYTES_def word_less_nat_alt Let_def)
  have dis: "\<And>j. j < 208 \<Longrightarrow> j \<noteq> i \<Longrightarrow> live ?c C B j \<inter> live ?c C B i = {}"
    using live_disjoint [OF cc _ i] by blast
  note gv = ctl.threads_give [OF th a(3) [unfolded tc_ok_def] i a(4) p [unfolded held_def] dis]
  show ?thesis
    unfolding delete_ok_def cmp_inv_def held_def using r a(2) gv
    by (intro exI [of _ ?s'] exI [of _ L'] exI [of _ U'] exI [of _ C'] exI [of _ B'] exI [of _ "T(t := T1)"]) simp
qed

section \<open>Properties\<close>

definition cmp_demo :: cmp where
  "cmp_demo = \<lparr>cm_central = cc_demo, cm_threads = (\<lambda>_. None)\<rparr>"

lemma cmp_demo_inv: "cmp_inv cmp_demo (\<lambda>_. []) {} (\<lambda>_. []) (\<lambda>_. []) (\<lambda>_ _. [])"
  by (simp add: cmp_inv_def threads_ok_def cmp_demo_def cc_demo_inv)

lemma is_class_round_32: "is_class (RoundUp 30) 3"
proof -
  have "RoundUp 30 = 32"
    by (simp add: RoundUp_def RoundUp_impl_def MAX_BYTES_def)
  then show ?thesis
    using is_class_32 by simp
qed

lemma cmp_demo_supply:
  assumes "NumMovePage (RoundUp 30) = Inr p"
  shows "supply_ok (cc_pc (cm_central cmp_demo)) (\<lambda>_. []) {} (unat p)"
proof -
  have "1 \<le> unat p"
    using class_pages [OF is_class_round_32] assms by (metis Inr_inject)
  then show ?thesis
    unfolding cmp_demo_def by (simp add: cc_demo_supply)
qed

text \<open>C1: \<open>ConcurrentMalloc\<close> of at most 256 KB, called by any thread in any reachable state of the
  pool, returns a block of the right class that the program does not hold, in no class; afterwards
  the program holds that block and what it held before, nothing else, and the invariant of the
  pool (every thread's cache, the central cache and the page cache) holds again. The operating
  system is asked for pages only where the thread's list and every span of the class are empty.\<close>

theorem ConcurrentMalloc_correct:
  assumes "cmp_inv s L U C B T" "0 < unat sz" "unat sz \<le> 262144" "is_class (RoundUp sz) i"
    and "\<And>p. T t i = [] \<Longrightarrow> (\<forall>x \<in> set (C i). B x = []) \<Longrightarrow> NumMovePage (RoundUp sz) = Inr p \<Longrightarrow>
      supply_ok (cc_pc (cm_central s)) L U (unat p)"
  shows "malloc_ok s C B T i (ConcurrentMalloc s t sz)"
  using assms by (rule ConcurrentMalloc_ok)

lemma ConcurrentMalloc_correct_witness:
  "malloc_ok cmp_demo (\<lambda>_. []) (\<lambda>_. []) (\<lambda>_ _. []) 3 (ConcurrentMalloc cmp_demo 1 30)"
  by (rule ConcurrentMalloc_correct [OF cmp_demo_inv _ _ is_class_round_32])
    (simp_all add: cmp_demo_supply)

text \<open>C2: \<open>ConcurrentDelete\<close> of a block the program holds, called by a thread that has allocated
  before, returns; the class of the block is found from its address alone, exactly that block
  stops being held, in its own class, and the invariant of the pool holds again, whichever thread
  allocated the block.\<close>

theorem ConcurrentDelete_correct:
  assumes "cmp_inv s L U C B T" "i < 208" "p \<in> held s C B T i" "cm_threads s t = Some tc"
  shows "delete_ok s C B T i p (ConcurrentDelete s t p)"
  using assms by (rule ConcurrentDelete_ok)

lemma ConcurrentMalloc_thread:
  "ConcurrentMalloc s t sz = Inr (p, s') \<Longrightarrow> unat sz \<le> 262144 \<Longrightarrow> cm_threads s' t \<noteq> None"
  by (auto simp: ConcurrentMalloc_def MAX_BYTES_def word_less_nat_alt Let_def rbind_def split: sum.splits)

lemma ConcurrentDelete_correct_witness:
  "\<exists>p s1 C B T. ConcurrentMalloc cmp_demo 1 30 = Inr (p, s1) \<and> p \<in> held s1 C B T 3 \<and>
     delete_ok s1 C B T 3 p (ConcurrentDelete s1 1 p)"
proof -
  have "malloc_ok cmp_demo (\<lambda>_. []) (\<lambda>_. []) (\<lambda>_ _. []) 3 (ConcurrentMalloc cmp_demo 1 30)"
    by (rule ConcurrentMalloc_ok [OF cmp_demo_inv _ _ is_class_round_32]) (simp_all add: cmp_demo_supply)
  then obtain p s1 L U C B T where m: "ConcurrentMalloc cmp_demo 1 30 = Inr (p, s1)" "cmp_inv s1 L U C B T"
      "p \<in> held s1 C B T 3"
    unfolding malloc_ok_def by auto
  obtain tc where "cm_threads s1 1 = Some tc"
    using ConcurrentMalloc_thread [OF m(1)] by auto
  from ConcurrentDelete_correct [OF m(2) _ m(3) this]
  show ?thesis
    using m(1,3) by (intro exI [of _ p] exI [of _ s1] exI [of _ C] exI [of _ B] exI [of _ T]) simp
qed

end
