(* ===== verification/Allocator_Client.thy ===== *)
theory Allocator_Client
  imports Prelude
begin

text \<open>
  Programs of several threads over an allocator, and the contract between the two. A program keeps the blocks of each
  thread in a vector, as the tests of both allocators do; a request asks for a block or gives one back, of the
  thread's own vector or of another's. Calls are served one after the other, each as a whole, so that a run is a list
  of requests and the program of a thread is what the list has of it: the order of the calls of the threads is
  arbitrary, what they do to each other inside a call is not covered. The specification runs the same requests on
  vectors of classes, with no memory at all.
\<close>

section \<open>Programs\<close>

text \<open>\<open>Ask t z\<close>: thread \<open>t\<close> asks for \<open>z\<close> bytes and appends the block to its vector. \<open>Give t u k\<close>: thread \<open>t\<close> gives
  back the block at \<open>k\<close> of the vector of \<open>u\<close>.\<close>

datatype 'z request = Ask nat 'z | Give nat nat nat

primrec by_thread :: "'z request \<Rightarrow> nat" where
  "by_thread (Ask t z) = t"
| "by_thread (Give t u k) = t"

type_synonym vectors = "nat \<Rightarrow> addr list"

fun serve :: "('s \<Rightarrow> nat \<Rightarrow> 'z \<Rightarrow> (addr \<times> 's) res) \<Rightarrow> ('s \<Rightarrow> nat \<Rightarrow> addr \<Rightarrow> 's res) \<Rightarrow> 'z request \<Rightarrow> 's \<times> vectors \<Rightarrow>
    ('s \<times> vectors) res" where
  "serve alloc release (Ask t z) (s, v) = rbind (alloc s t z) (\<lambda>(p, s'). Inr (s', v(t := v t @ [p])))"
| "serve alloc release (Give t u k) (s, v) =
     (if k < length (v u) then rbind (release s t (v u ! k)) (\<lambda>s'. Inr (s', v)) else Inl OutOfBounds)"

primrec serve_all :: "('s \<Rightarrow> nat \<Rightarrow> 'z \<Rightarrow> (addr \<times> 's) res) \<Rightarrow> ('s \<Rightarrow> nat \<Rightarrow> addr \<Rightarrow> 's res) \<Rightarrow> 'z request list \<Rightarrow>
    's \<times> vectors \<Rightarrow> ('s \<times> vectors) res" where
  "serve_all alloc release [] x = Inr x"
| "serve_all alloc release (r # rs) x = rbind (serve alloc release r x) (serve_all alloc release rs)"

text \<open>The specification: a vector holds the class of each block, or \<open>None\<close> once it is given back. A request is proper
  where its size has a class, or the block is still out and the thread has asked before.\<close>

type_synonym classes = "nat \<Rightarrow> nat option list"

fun want :: "('z \<Rightarrow> nat option) \<Rightarrow> 'z request \<Rightarrow> classes \<Rightarrow> classes option" where
  "want class_of (Ask t z) c = (case class_of z of None \<Rightarrow> None | Some i \<Rightarrow> Some (c(t := c t @ [Some i])))"
| "want class_of (Give t u k) c =
     (if k < length (c u) \<and> c u ! k \<noteq> None \<and> c t \<noteq> [] then Some (c(u := (c u)[k := None])) else None)"

primrec want_all :: "('z \<Rightarrow> nat option) \<Rightarrow> 'z request list \<Rightarrow> classes \<Rightarrow> classes option" where
  "want_all class_of [] c = Some c"
| "want_all class_of (r # rs) c = (case want class_of r c of None \<Rightarrow> None | Some c' \<Rightarrow> want_all class_of rs c')"

text \<open>Where a run may need pages, the system has them.\<close>

primrec supplied_all :: "('s \<Rightarrow> nat \<Rightarrow> 'z \<Rightarrow> bool) \<Rightarrow> ('s \<Rightarrow> nat \<Rightarrow> 'z \<Rightarrow> (addr \<times> 's) res) \<Rightarrow>
    ('s \<Rightarrow> nat \<Rightarrow> addr \<Rightarrow> 's res) \<Rightarrow> 'z request list \<Rightarrow> 's \<times> vectors \<Rightarrow> bool" where
  "supplied_all supplied alloc release [] x = True"
| "supplied_all supplied alloc release (r # rs) x =
     ((case r of Ask t z \<Rightarrow> supplied (fst x) t z | Give t u k \<Rightarrow> True) \<and>
      (case serve alloc release r x of Inl _ \<Rightarrow> True | Inr x' \<Rightarrow> supplied_all supplied alloc release rs x'))"

definition out_blocks :: "classes \<Rightarrow> nat \<Rightarrow> (nat \<times> nat) set" where
  "out_blocks c i = {(u, k). k < length (c u) \<and> c u ! k = Some i}"

definition block_at :: "vectors \<Rightarrow> nat \<times> nat \<Rightarrow> addr" where
  "block_at v uk = v (fst uk) ! snd uk"

text \<open>The vectors agree with their classes: the blocks out are distinct, and they are all that the allocator has
  handed out.\<close>

definition agree :: "(nat \<Rightarrow> addr set) \<Rightarrow> vectors \<Rightarrow> classes \<Rightarrow> bool" where
  "agree H v c \<longleftrightarrow> (\<forall>u. length (v u) = length (c u)) \<and> (\<forall>i. H i = block_at v ` out_blocks c i) \<and>
     inj_on (block_at v) (\<Union>i. out_blocks c i)"

lemma out_blocks_Ask:
  "out_blocks (c(t := c t @ [Some i])) j = (if j = i then insert (t, length (c t)) (out_blocks c j) else out_blocks c j)"
  by (auto simp: out_blocks_def nth_append split: if_splits)

lemma out_blocks_Give:
  "k < length (c u) \<Longrightarrow> c u ! k = Some i \<Longrightarrow>
   out_blocks (c(u := (c u)[k := None])) j = (if j = i then out_blocks c j - {(u, k)} else out_blocks c j)"
  by (auto simp: out_blocks_def nth_list_update split: if_splits)

lemma agreeD:
  assumes "agree H v c"
  shows "length (v u) = length (c u)" "H i = block_at v ` out_blocks c i" "inj_on (block_at v) (\<Union>i. out_blocks c i)"
  using assms unfolding agree_def by blast+

lemma agree_Ask:
  assumes "agree H v c" "\<And>j. p \<notin> H j"
  shows "agree (H(i := insert p (H i))) (v(t := v t @ [p])) (c(t := c t @ [Some i]))"
proof -
  let ?v = "v(t := v t @ [p])"
  note a = agreeD [OF assms(1)]
  note len = a(1) [of t]
  have old: "block_at ?v x = block_at v x" if "x \<in> out_blocks c j" for x j
    using that len by (auto simp: out_blocks_def block_at_def nth_append)
  have new: "block_at ?v (t, length (c t)) = p"
    by (simp add: block_at_def len [symmetric])
  have im: "block_at ?v ` out_blocks c j = H j" for j
    unfolding a(2) by (rule image_cong) (simp_all add: old)
  have "inj_on (block_at ?v) (insert (t, length (c t)) (\<Union>j. out_blocks c j))"
  proof (subst inj_on_insert, intro conjI)
    show "inj_on (block_at ?v) (\<Union>j. out_blocks c j)"
      using a(3) by (subst inj_on_cong [of _ _ "block_at v"]) (auto simp: old)
    have "p \<notin> block_at ?v ` (\<Union>j. out_blocks c j)"
      using im assms(2) by (simp add: image_UN)
    then show "block_at ?v (t, length (c t)) \<notin> block_at ?v ` ((\<Union>j. out_blocks c j) - {(t, length (c t))})"
      using new by auto
  qed
  moreover have "(\<Union>j. out_blocks (c(t := c t @ [Some i])) j) = insert (t, length (c t)) (\<Union>j. out_blocks c j)"
    by (auto simp: out_blocks_Ask)
  moreover have "length (?v u) = length ((c(t := c t @ [Some i])) u)" for u
    using a(1) by simp
  moreover have "(H(i := insert p (H i))) j = block_at ?v ` out_blocks (c(t := c t @ [Some i])) j" for j
    using im new by (simp add: out_blocks_Ask)
  ultimately show ?thesis
    by (simp only: agree_def) blast
qed

lemma agree_Give:
  assumes "agree H v c" "k < length (c u)" "c u ! k = Some i"
  shows "agree (H(i := H i - {v u ! k})) v (c(u := (c u)[k := None]))" "v u ! k \<in> H i"
proof -
  note a = agreeD [OF assms(1)] and og = out_blocks_Give [of k c u i, OF assms(2,3)]
  have uk: "(u, k) \<in> out_blocks c i"
    using assms(2,3) by (simp add: out_blocks_def)
  have b: "block_at v (u, k) = v u ! k"
    by (simp add: block_at_def)
  show "v u ! k \<in> H i"
    unfolding a(2) using uk b by force
  have inj: "inj_on (block_at v) (out_blocks c i)"
    using a(3) by (rule inj_on_subset) blast
  have "block_at v ` (out_blocks c i - {(u, k)}) = H i - {v u ! k}"
    using inj_on_image_set_diff [OF inj, of "out_blocks c i" "{(u, k)}"] uk b by (simp add: a(2))
  then have "(H(i := H i - {v u ! k})) j = block_at v ` out_blocks (c(u := (c u)[k := None])) j" for j
    using a(2) by (simp add: og)
  moreover have "(\<Union>j. out_blocks (c(u := (c u)[k := None])) j) \<subseteq> (\<Union>j. out_blocks c j)"
    by (auto simp: og split: if_splits)
  then have "inj_on (block_at v) (\<Union>j. out_blocks (c(u := (c u)[k := None])) j)"
    by (rule inj_on_subset [OF a(3)])
  moreover have "length (v w) = length ((c(u := (c u)[k := None])) w)" for w
    using a(1) by simp
  ultimately show "agree (H(i := H i - {v u ! k})) v (c(u := (c u)[k := None]))"
    by (simp only: agree_def) blast
qed

section \<open>The contract of an allocator\<close>

text \<open>\<open>good s H\<close>: the state is sound and the program holds the blocks \<open>H i\<close> of class \<open>i\<close>. A block handed out is not one
  that is held, and giving one back needs nothing but that the thread has a cache.\<close>

locale allocator =
  fixes alloc :: "'s \<Rightarrow> nat \<Rightarrow> 'z \<Rightarrow> (addr \<times> 's) res"
    and release :: "'s \<Rightarrow> nat \<Rightarrow> addr \<Rightarrow> 's res"
    and good :: "'s \<Rightarrow> (nat \<Rightarrow> addr set) \<Rightarrow> bool"
    and has_cache :: "'s \<Rightarrow> nat \<Rightarrow> bool"
    and class_of :: "'z \<Rightarrow> nat option"
    and supplied :: "'s \<Rightarrow> nat \<Rightarrow> 'z \<Rightarrow> bool"
  assumes alloc_law: "good s H \<Longrightarrow> class_of z = Some i \<Longrightarrow> supplied s t z \<Longrightarrow>
      \<exists>p s'. alloc s t z = Inr (p, s') \<and> good s' (H(i := insert p (H i))) \<and> (\<forall>j. p \<notin> H j) \<and>
        has_cache s' t \<and> (\<forall>u. has_cache s u \<longrightarrow> has_cache s' u)"
    and release_law: "good s H \<Longrightarrow> p \<in> H i \<Longrightarrow> has_cache s t \<Longrightarrow>
      \<exists>s'. release s t p = Inr s' \<and> good s' (H(i := H i - {p})) \<and> (\<forall>u. has_cache s u \<longrightarrow> has_cache s' u)"
begin

definition sound :: "'s \<times> vectors \<Rightarrow> classes \<Rightarrow> bool" where
  "sound x c \<longleftrightarrow> (\<exists>H. good (fst x) H \<and> agree H (snd x) c) \<and> (\<forall>t. c t \<noteq> [] \<longrightarrow> has_cache (fst x) t)"

lemma serve_sound:
  assumes "sound x c" "want class_of r c = Some c'"
    and "\<And>t z. r = Ask t z \<Longrightarrow> supplied (fst x) t z"
  shows "\<exists>x'. serve alloc release r x = Inr x' \<and> sound x' c'"
proof -
  obtain s v where x: "x = (s, v)"
    by (cases x)
  obtain H where H: "good s H" "agree H v c" "\<And>t. c t \<noteq> [] \<Longrightarrow> has_cache s t"
    using assms(1) x by (auto simp: sound_def)
  show ?thesis
  proof (cases r)
    case (Ask t z)
    then obtain i where i: "class_of z = Some i" "c' = c(t := c t @ [Some i])"
      using assms(2) by (auto split: option.splits)
    have "supplied s t z"
      using assms(3) [OF Ask] x by simp
    from alloc_law [OF H(1) i(1) this] obtain p s' where p: "alloc s t z = Inr (p, s')"
        "good s' (H(i := insert p (H i)))" "\<And>j. p \<notin> H j" "has_cache s' t" "\<And>u. has_cache s u \<Longrightarrow> has_cache s' u"
      by blast
    have "sound (s', v(t := v t @ [p])) c'"
      using agree_Ask [OF H(2) p(3), of i t] p(2,4,5) H(3) i(2) by (auto simp: sound_def)
    then show ?thesis
      using p(1) x Ask by simp
  next
    case (Give t u k)
    then have g: "k < length (c u)" "c t \<noteq> []" "c' = c(u := (c u)[k := None])" "c u ! k \<noteq> None"
      using assms(2) by (auto split: if_splits)
    then obtain i where i: "c u ! k = Some i"
      by blast
    note ag = agree_Give [OF H(2) g(1) i]
    obtain s' where s': "release s t (v u ! k) = Inr s'" "good s' (H(i := H i - {v u ! k}))"
        "\<And>u. has_cache s u \<Longrightarrow> has_cache s' u"
      using release_law [OF H(1) ag(2) H(3) [OF g(2)]] by blast
    have "sound (s', v) c'"
      using ag(1) s'(2,3) H(3) g(1,3) by (auto simp: sound_def)
    moreover have "length (v u) = length (c u)"
      using H(2) by (simp add: agree_def)
    ultimately show ?thesis
      using s'(1) x Give g(1) by simp
  qed
qed

text \<open>A program that is proper on the classes runs on the allocator, and its blocks agree with the classes.\<close>

lemma serve_all_sound:
  assumes "sound x c" "want_all class_of rs c = Some c'" "supplied_all supplied alloc release rs x"
  shows "\<exists>x'. serve_all alloc release rs x = Inr x' \<and> sound x' c'"
  using assms
proof (induction rs arbitrary: x c)
  case (Cons r rs)
  obtain c1 where c1: "want class_of r c = Some c1" "want_all class_of rs c1 = Some c'"
    using Cons.prems(2) by (auto split: option.splits)
  have "supplied (fst x) t z" if "r = Ask t z" for t z
    using Cons.prems(3) that by simp
  from serve_sound [OF Cons.prems(1) c1(1) this] obtain x1 where x1: "serve alloc release r x = Inr x1" "sound x1 c1"
    by blast
  then show ?case
    using Cons.IH [OF x1(2) c1(2)] Cons.prems(3) by simp
qed simp

lemma serve_program:
  assumes "good s (\<lambda>_. {})" "want_all class_of rs (\<lambda>_. []) = Some c" "supplied_all supplied alloc release rs (s, \<lambda>_. [])"
  shows "\<exists>s' v H. serve_all alloc release rs (s, \<lambda>_. []) = Inr (s', v) \<and> good s' H \<and> agree H v c"
proof -
  have "sound (s, \<lambda>_. []) (\<lambda>_. [])"
    using assms(1) by (auto simp: sound_def agree_def out_blocks_def intro!: exI [of _ "\<lambda>_. {}"])
  from serve_all_sound [OF this assms(2,3)] show ?thesis
    unfolding sound_def by fastforce
qed

end

section \<open>Interleavings of programs that keep to their own vectors\<close>

definition own :: "'z request \<Rightarrow> bool" where
  "own r = (case r of Ask t z \<Rightarrow> True | Give t u k \<Rightarrow> t = u)"

definition program_of :: "nat \<Rightarrow> 'z request list \<Rightarrow> 'z request list" where
  "program_of t rs = filter (\<lambda>r. by_thread r = t) rs"

primrec want_own :: "('z \<Rightarrow> nat option) \<Rightarrow> 'z request \<Rightarrow> nat option list \<Rightarrow> nat option list option" where
  "want_own class_of (Ask t z) l = (case class_of z of None \<Rightarrow> None | Some i \<Rightarrow> Some (l @ [Some i]))"
| "want_own class_of (Give t u k) l = (if k < length l \<and> l ! k \<noteq> None then Some (l[k := None]) else None)"

primrec wants_own :: "('z \<Rightarrow> nat option) \<Rightarrow> 'z request list \<Rightarrow> nat option list \<Rightarrow> nat option list option" where
  "wants_own class_of [] l = Some l"
| "wants_own class_of (r # rs) l = (case want_own class_of r l of None \<Rightarrow> None | Some l' \<Rightarrow> wants_own class_of rs l')"

lemma wants_own_append:
  "wants_own class_of (rs @ rs') l = (case wants_own class_of rs l of None \<Rightarrow> None | Some l' \<Rightarrow> wants_own class_of rs' l')"
  by (induction rs arbitrary: l) (simp_all split: option.split)

text \<open>Whatever the order of the calls, each thread's vector is what its own program makes of it.\<close>

lemma want_interleaved:
  assumes "\<forall>r \<in> set rs. own r" "\<And>t. wants_own class_of (program_of t rs) (c t) = Some (l t)"
  shows "want_all class_of rs c = Some l"
  using assms
proof (induction rs arbitrary: c)
  case Nil
  then show ?case
    by (auto simp: program_of_def)
next
  case (Cons r rs)
  define t where "t = by_thread r"
  have w: "wants_own class_of (r # program_of t rs) (c t) = Some (l t)"
    using Cons.prems(2) [of t] by (simp add: program_of_def t_def)
  then obtain m where m: "want_own class_of r (c t) = Some m" "wants_own class_of (program_of t rs) m = Some (l t)"
    by (auto split: option.splits)
  have "want class_of r c = Some (c(t := m))"
    using m(1) Cons.prems(1) by (cases r) (auto simp: t_def own_def split: option.splits if_splits)
  moreover have "wants_own class_of (program_of u rs) ((c(t := m)) u) = Some (l u)" for u
    using m(2) Cons.prems(2) [of u] by (cases "u = t") (auto simp: program_of_def t_def)
  then have "want_all class_of rs (c(t := m)) = Some l"
    using Cons.prems(1) by (intro Cons.IH) simp_all
  ultimately show ?case
    by simp
qed

section \<open>The shapes of the tests\<close>

text \<open>Ask for \<open>n\<close> blocks, then give them all back in order; or give each back at once.\<close>

definition ask_all_give_all :: "nat \<Rightarrow> 'z list \<Rightarrow> 'z request list" where
  "ask_all_give_all t zs = map (Ask t) zs @ map (Give t t) [0..<length zs]"

definition ask_give_each :: "nat \<Rightarrow> 'z list \<Rightarrow> 'z request list" where
  "ask_give_each t zs = concat (map (\<lambda>k. [Ask t (zs ! k), Give t t k]) [0..<length zs])"

lemma wants_asks:
  assumes "\<And>z. z \<in> set zs \<Longrightarrow> class_of z \<noteq> None"
  shows "wants_own class_of (map (Ask t) zs) l = Some (l @ map class_of zs)"
  using assms
proof (induction zs arbitrary: l)
  case (Cons z zs)
  then obtain i where "class_of z = Some i"
    by fastforce
  then show ?case
    using Cons.IH [of "l @ [Some i]"] Cons.prems by simp
qed simp

lemma wants_gives:
  "wants_own class_of (map (Give t u) [length xs..<length xs + length ys]) (xs @ map Some ys) =
   Some (xs @ replicate (length ys) None)"
proof (induction ys arbitrary: xs)
  case (Cons y ys)
  have "[length xs..<length xs + length (y # ys)] = length xs # [Suc (length xs)..<Suc (length xs) + length ys]"
    by (simp add: upt_conv_Cons del: upt_Suc)
  then show ?case
    using Cons.IH [of "xs @ [None]"] by (simp del: upt_Suc)
qed simp

lemma ask_all_give_all_wants:
  assumes "\<And>z. z \<in> set zs \<Longrightarrow> class_of z \<noteq> None"
  shows "wants_own class_of (ask_all_give_all t zs) [] = Some (replicate (length zs) None)"
proof -
  have m: "map class_of zs = map Some (map (the \<circ> class_of) zs)"
    using assms by auto
  have "wants_own class_of (map (Ask t) zs) [] = Some (map Some (map (the \<circ> class_of) zs))"
    using wants_asks [of zs class_of t "[]"] assms m by simp
  then show ?thesis
    using wants_gives [of class_of t t "[]" "map (the \<circ> class_of) zs"]
    unfolding ask_all_give_all_def wants_own_append by simp
qed

lemma ask_give_each_wants:
  assumes "\<And>z. z \<in> set zs \<Longrightarrow> class_of z \<noteq> None"
  shows "wants_own class_of (ask_give_each t zs) [] = Some (replicate (length zs) None)"
proof -
  have "n \<le> length zs \<Longrightarrow> wants_own class_of (concat (map (\<lambda>k. [Ask t (zs ! k), Give t t k]) [0..<n])) [] =
      Some (replicate n None)" for n
  proof (induction n)
    case (Suc n)
    obtain i where "class_of (zs ! n) = Some i"
      using assms [of "zs ! n"] Suc.prems by auto
    moreover have "(replicate n None @ [Some i]) ! n = Some i"
      "(replicate n None @ [Some i])[n := None] = replicate (Suc n) None"
      by (simp_all add: nth_append list_update_append replicate_append_same)
    ultimately show ?case
      using Suc by (simp add: wants_own_append)
  qed simp
  then show ?thesis
    by (simp add: ask_give_each_def)
qed

lemma own_programs [simp]:
  "r \<in> set (ask_all_give_all t zs) \<Longrightarrow> own r" "r \<in> set (ask_give_each t zs) \<Longrightarrow> own r"
  by (auto simp: ask_all_give_all_def ask_give_each_def own_def)

end
