(* ===== verification/Concurrent_Programs.thy ===== *)
theory Concurrent_Programs
  imports Concurrent_Pool Allocator_Client
begin

text \<open>
  Programs of several threads over the first allocator, whose calls are served one after the other, each as a whole:
  \<open>ConcurrentMalloc\<close> and \<open>ConcurrentDelete\<close> meet the contract \<open>allocator\<close>, so that every program that is
  proper on the classes of its blocks runs. The tests of \<open>ConcurrentMemoryPool/unit_test.cpp\<close> are such programs.
\<close>

section \<open>The contract\<close>

definition cmp_class :: "u64 \<Rightarrow> nat option" where
  "cmp_class sz = (if 0 < unat sz \<and> unat sz \<le> 262144 then bucket_of sz else None)"

definition cmp_good :: "cmp \<Rightarrow> (nat \<Rightarrow> addr set) \<Rightarrow> bool" where
  "cmp_good s H \<longleftrightarrow>
     (\<exists>L U C B T. cmp_inv s L U C B T \<and> (\<forall>i. H i = (if i < 208 then held s C B T i else {})))"

definition cmp_has_cache :: "cmp \<Rightarrow> nat \<Rightarrow> bool" where
  "cmp_has_cache s t \<longleftrightarrow> cm_threads s t \<noteq> None"

text \<open>The object pool has room for two spans, and a mapping returns fresh pages, where the request needs a new span.\<close>

definition cmp_supplied :: "cmp \<Rightarrow> nat \<Rightarrow> u64 \<Rightarrow> bool" where
  "cmp_supplied s t sz \<longleftrightarrow>
     (\<forall>L U C B T i p. cmp_inv s L U C B T \<longrightarrow> is_class (RoundUp sz) i \<longrightarrow> T t i = [] \<longrightarrow> (\<forall>x \<in> set (C i). B x = []) \<longrightarrow>
        NumMovePage (RoundUp sz) = Inr p \<longrightarrow> supply_ok (cc_pc (cm_central s)) L U (unat p))"

lemma cmp_class_is_class:
  assumes "cmp_class sz = Some i"
  shows "0 < unat sz" "unat sz \<le> 262144" "is_class (RoundUp sz) i"
proof -
  show s: "0 < unat sz" "unat sz \<le> 262144"
    using assms by (simp_all add: cmp_class_def split: if_splits)
  show "is_class (RoundUp sz) i"
    using assms s sc.round_up_pos [OF s] sc.round_up_limit [OF s] sc.round_up_idem [OF s] sc.bucket_round_up [OF s]
    by (simp add: is_class_def cmp_class_def)
qed

lemma ConcurrentMalloc_threads:
  assumes "ConcurrentMalloc s t sz = Inr (p, s')" "unat sz \<le> 262144" "cm_threads s u \<noteq> None"
  shows "cm_threads s' u \<noteq> None"
  using assms by (auto simp: ConcurrentMalloc_def MAX_BYTES_def word_less_nat_alt Let_def rbind_eq_Inr)

lemma ConcurrentDelete_threads:
  assumes "ConcurrentDelete s t p = Inr s'" "cm_threads s u \<noteq> None"
  shows "cm_threads s' u \<noteq> None"
  using assms by (auto simp: ConcurrentDelete_def Let_def rbind_eq_Inr split: if_splits option.splits)

interpretation cpa: allocator ConcurrentMalloc ConcurrentDelete cmp_good cmp_has_cache cmp_class cmp_supplied
proof unfold_locales
  fix s H z i t
  assume g: "cmp_good s H" and c: "cmp_class z = Some i" and sup: "cmp_supplied s t z"
  obtain L U C B T where inv: "cmp_inv s L U C B T" and H: "\<And>i. H i = (if i < 208 then held s C B T i else {})"
    using g by (auto simp: cmp_good_def)
  note cl = cmp_class_is_class [OF c]
  have i: "i < 208"
    by (rule is_class_less [OF cl(3)])
  have "malloc_ok s C B T i (ConcurrentMalloc s t z)"
    using sup inv cl(3) by (intro ConcurrentMalloc_ok [OF inv cl]) (auto simp: cmp_supplied_def)
  then obtain p s' L' U' C' B' T' where m: "ConcurrentMalloc s t z = Inr (p, s')" "cmp_inv s' L' U' C' B' T'"
      "\<And>j. j < 208 \<Longrightarrow> p \<notin> held s C B T j"
      "\<And>j. j < 208 \<Longrightarrow> held s' C' B' T' j = held s C B T j \<union> (if j = i then {p} else {})"
    unfolding malloc_ok_def by blast
  have "cmp_good s' (H(i := insert p (H i)))"
    unfolding cmp_good_def using m(2,4) H i
    by (intro exI [of _ L'] exI [of _ U'] exI [of _ C'] exI [of _ B'] exI [of _ T']) auto
  moreover have "p \<notin> H j" for j
    using m(3) H by simp
  moreover have "cmp_has_cache s' t"
    using ConcurrentMalloc_thread [OF m(1) cl(2)] by (simp add: cmp_has_cache_def)
  moreover have "cmp_has_cache s u \<longrightarrow> cmp_has_cache s' u" for u
    using ConcurrentMalloc_threads [OF m(1) cl(2)] by (simp add: cmp_has_cache_def)
  ultimately show "\<exists>p s'. ConcurrentMalloc s t z = Inr (p, s') \<and> cmp_good s' (H(i := insert p (H i))) \<and> (\<forall>j. p \<notin> H j) \<and>
      cmp_has_cache s' t \<and> (\<forall>u. cmp_has_cache s u \<longrightarrow> cmp_has_cache s' u)"
    using m(1) by blast
next
  fix s H p i t
  assume g: "cmp_good s H" and p: "p \<in> H i" and t: "cmp_has_cache s t"
  obtain L U C B T where inv: "cmp_inv s L U C B T" and H: "\<And>i. H i = (if i < 208 then held s C B T i else {})"
    using g by (auto simp: cmp_good_def)
  obtain tc where tc: "cm_threads s t = Some tc"
    using t by (auto simp: cmp_has_cache_def)
  have i: "i < 208" "p \<in> held s C B T i"
    using p H [of i] by (auto split: if_splits)
  obtain s' L' U' C' B' T' where d: "ConcurrentDelete s t p = Inr s'" "cmp_inv s' L' U' C' B' T'"
      "\<And>j. j < 208 \<Longrightarrow> held s' C' B' T' j = held s C B T j - (if j = i then {p} else {})"
    using ConcurrentDelete_ok [OF inv i tc] unfolding delete_ok_def by blast
  have "cmp_good s' (H(i := H i - {p}))"
    unfolding cmp_good_def using d(2,3) H i(1)
    by (intro exI [of _ L'] exI [of _ U'] exI [of _ C'] exI [of _ B'] exI [of _ T']) auto
  then show "\<exists>s'. ConcurrentDelete s t p = Inr s' \<and> cmp_good s' (H(i := H i - {p})) \<and>
      (\<forall>u. cmp_has_cache s u \<longrightarrow> cmp_has_cache s' u)"
    using d(1) ConcurrentDelete_threads [OF d(1)] by (auto simp: cmp_has_cache_def)
qed

section \<open>The tests\<close>

definition Alloc1 :: "nat \<Rightarrow> u64 request list" where
  "Alloc1 t = ask_all_give_all t (replicate 17 (110 * 1024))"

definition Alloc2 :: "nat \<Rightarrow> u64 request list" where
  "Alloc2 t = ask_all_give_all t (replicate 15 7)"

text \<open>\<open>TLSTest\<close>: threads 1 and 2 run \<open>Alloc1\<close> and \<open>Alloc2\<close> at the same time.\<close>

definition TLSTest :: "u64 request list \<Rightarrow> bool" where
  "TLSTest rs \<longleftrightarrow> program_of 1 rs = Alloc1 1 \<and> program_of 2 rs = Alloc2 2 \<and> (\<forall>r \<in> set rs. by_thread r \<in> {1, 2})"

definition TestConCurrentAlloc1 :: "u64 request list" where
  "TestConCurrentAlloc1 = ask_all_give_all 0 [6, 8, 1, 7, 8, 2, 5]"

definition TestConCurrentAlloc2 :: "u64 request list" where
  "TestConCurrentAlloc2 = map (Ask 0) (replicate 512 6) @ [Ask 0 6]"

definition TestConCurrentDeAlloc :: "u64 request list" where
  "TestConCurrentDeAlloc = ask_all_give_all 0 [6]"

lemma cmp_class_Some: "0 < unat sz \<Longrightarrow> unat sz \<le> 262144 \<Longrightarrow> cmp_class sz \<noteq> None"
  by (simp add: cmp_class_def bucket_of_eq)

lemma TLSTest_wants:
  assumes "TLSTest rs"
  shows "want_all cmp_class rs (\<lambda>_. []) =
    Some (\<lambda>t. if t = 1 then replicate 17 None else if t = 2 then replicate 15 None else [])"
proof (rule want_interleaved)
  have "own r" if r: "r \<in> set rs" for r
  proof -
    have "by_thread r \<in> {1, 2}" "r \<in> set (program_of (by_thread r) rs)"
      using assms r by (auto simp: TLSTest_def program_of_def)
    then have "r \<in> set (Alloc1 1) \<or> r \<in> set (Alloc2 2)"
      using assms unfolding TLSTest_def by auto
    then show ?thesis
      unfolding Alloc1_def Alloc2_def using own_programs(1) by blast
  qed
  then show "\<forall>r \<in> set rs. own r"
    by blast
  show "wants_own cmp_class (program_of t rs) [] =
      Some (if t = 1 then replicate 17 None else if t = 2 then replicate 15 None else [])" for t
  proof -
    consider "t = 1" | "t = 2" | "t \<noteq> 1" "t \<noteq> 2"
      by blast
    then show ?thesis
    proof cases
      case 1
      have "wants_own cmp_class (ask_all_give_all t (replicate 17 (110 * 1024))) [] = Some (replicate 17 None)"
        using ask_all_give_all_wants [of "replicate 17 (110 * 1024)" cmp_class t] cmp_class_Some [of "110 * 1024"] by simp
      then show ?thesis
        using assms 1 by (simp add: TLSTest_def Alloc1_def)
    next
      case 2
      have "wants_own cmp_class (ask_all_give_all t (replicate 15 7)) [] = Some (replicate 15 None)"
        using ask_all_give_all_wants [of "replicate 15 7" cmp_class t] cmp_class_Some [of "7"] by simp
      then show ?thesis
        using assms 2 by (simp add: TLSTest_def Alloc2_def)
    next
      case 3
      then have "program_of t rs = []"
        using assms by (auto simp: TLSTest_def program_of_def filter_empty_conv)
      then show ?thesis
        using 3 by simp
    qed
  qed
qed

text \<open>The start of the pool has no span, so that what its pages owe is known.\<close>

lemma cmp_demo_supplied: "cmp_supplied cmp_demo t 30"
  unfolding cmp_supplied_def
proof (intro allI impI)
  fix L U C B T i p
  assume inv: "cmp_inv cmp_demo L U C B T" and p: "NumMovePage (RoundUp 30) = Inr p"
  have pc: "pc_inv pc_demo L U {} {}"
    using inv by (simp add: cmp_inv_def cc_inv_def cmp_demo_def cc_demo_def)
  have L: "L i = []" if "i < 129" for i
  proof (cases "L i")
    case (Cons y ys)
    then have "sl_rep (pc_spans pc_demo) (pc_heads pc_demo i) (y # ys)"
      using pc that by (auto simp: pc_inv_def buckets_ok_def)
    then show ?thesis
      by (auto simp: sl_rep_def ring_def pc_demo_def pc_new_def)
  qed
  have "U = {}"
  proof (rule ccontr)
    assume "U \<noteq> {}"
    then obtain u where u: "u \<in> U"
      by blast
    have "layout_ok (pc_spans pc_demo) (free_spans L \<union> U)"
      using pc by (simp add: pc_inv_def)
    then have "np (pc_spans pc_demo) u \<noteq> 0"
      using u by (force simp: layout_ok_def)
    moreover have "np (pc_spans pc_demo) u = 0"
      by (simp add: pc_demo_def pc_new_def np_def)
    ultimately show False
      by simp
  qed
  moreover have "free_spans L = {}"
    using L by (auto simp: free_spans_def)
  moreover have "supply_ok (cc_pc (cm_central cmp_demo)) (\<lambda>_. []) {} (unat p)"
    by (rule cmp_demo_supply [OF p])
  ultimately show "supply_ok (cc_pc (cm_central cmp_demo)) L U (unat p)"
    using L unfolding supply_ok_def by (auto simp: free_spans_def)
qed

lemma cmp_demo_good: "cmp_good cmp_demo (\<lambda>_. {})"
  unfolding cmp_good_def
proof (intro exI conjI allI)
  show "cmp_inv cmp_demo (\<lambda>_. []) {} (\<lambda>_. []) (\<lambda>_. []) (\<lambda>_ _. [])"
    by (rule cmp_demo_inv)
qed (simp add: held_def held_of_def live_def out_of_def)

section \<open>The tests run\<close>

text \<open>The tests of the repository are such programs: in every order in which the calls of the two threads of
  \<open>TLSTest\<close> are served, each as a whole, they run and give every block back.\<close>

theorem TLSTest_passes:
  assumes "TLSTest rs" "cmp_good s (\<lambda>_. {})"
    and "supplied_all cmp_supplied ConcurrentMalloc ConcurrentDelete rs (s, \<lambda>_. [])"
  shows "\<exists>s' v. serve_all ConcurrentMalloc ConcurrentDelete rs (s, \<lambda>_. []) = Inr (s', v) \<and> cmp_good s' (\<lambda>_. {})"
proof -
  obtain s' v H where r: "serve_all ConcurrentMalloc ConcurrentDelete rs (s, \<lambda>_. []) = Inr (s', v)" "cmp_good s' H"
      "agree H v (\<lambda>t. if t = 1 then replicate 17 None else if t = 2 then replicate 15 None else [])"
    using cpa.serve_program [OF assms(2) TLSTest_wants [OF assms(1)] assms(3)] by blast
  have "H = (\<lambda>_. {})"
    using agreeD(2) [OF r(3)] by (auto simp: out_blocks_def fun_eq_iff split: if_splits)
  then show ?thesis
    using r(1,2) by blast
qed

end
