(* ===== verification/Radix_Tree.thy ===== *)
theory Radix_Tree
  imports Page_Map
begin

text \<open>
  The radix tree of the second allocator, \<open>src/Pool/RadixTree.h\<close>, at the instance
  \<open>TCMalloc_PageMap3<64 - PAGE_SHIFT>\<close> the page cache uses. Its nodes are laid out as in the
  first allocator, so the state and the three indices of a page are those of \<open>Page_Map\<close>; \<open>get\<close>,
  \<open>set\<close> and the loop \<open>Ensure\<close> that makes the nodes for a range of pages are its own. The nodes come from
  \<open>SystemAlloc\<close>, which throws when the system has no memory; such a run is outside this model.
\<close>

section \<open>The code\<close>

definition rt_get :: "pagemap \<Rightarrow> u64 \<Rightarrow> addr" where
  "rt_get m k =
     (if drop_bit BITS k > 0 then nullptr
      else case root m (pm_i1 k) of
        None \<Rightarrow> nullptr
      | Some node \<Rightarrow> (case node (pm_i2 k) of
          None \<Rightarrow> nullptr
        | Some leaf \<Rightarrow> leaf (pm_i3 k)))"

text \<open>One round of \<open>Ensure\<close>: the missing nodes on the path of a page.\<close>

definition rt_path :: "pagemap \<Rightarrow> u64 \<Rightarrow> pagemap" where
  "rt_path m key =
     (let m1 = (case root m (pm_i1 key) of
                  None \<Rightarrow> m\<lparr>root := (root m)(pm_i1 key := Some NewNode)\<rparr>
                | Some _ \<Rightarrow> m);
          node = the (root m1 (pm_i1 key))
      in case node (pm_i2 key) of
           None \<Rightarrow> m1\<lparr>root := (root m1)(pm_i1 key := Some (node(pm_i2 key := Some NewLeaf)))\<rparr>
         | Some _ \<Rightarrow> m1)"

definition next_leaf :: "u64 \<Rightarrow> u64" where
  "next_leaf key = push_bit LEAF_BITS (drop_bit LEAF_BITS key + 1)"

lemma pm_i1_less_iff: "pm_i1 key < INTERIOR_LENGTH \<longleftrightarrow> page_ok key"
proof -
  have "pm_i1 key < INTERIOR_LENGTH \<longleftrightarrow> unat key div 2 ^ 34 < 2 ^ 17"
    by (simp add: pm_i1_def INTERIOR_LENGTH_def pm_consts word_less_nat_alt unat_drop_bit_u64)
  also have "\<dots> \<longleftrightarrow> unat key < 2251799813685248"
    by (simp add: div_less_iff_less_mult)
  finally show ?thesis
    by (simp add: page_ok_iff)
qed

lemma unat_next_leaf:
  assumes "page_ok key"
  shows "unat (next_leaf key) = (unat key div 131072 + 1) * 131072"
proof -
  have d: "unat (drop_bit 17 key) = unat key div 131072"
    by (simp add: unat_drop_bit_u64)
  have b: "unat key div 131072 < 17179869184"
    using assms by (simp add: page_ok_iff div_less_iff_less_mult)
  then have "unat (drop_bit 17 key + 1) = unat key div 131072 + 1"
    using d by (simp add: unat_add_nowrap)
  then show ?thesis
    using b unat_push_bit_u64 [of "drop_bit 17 key + 1" 17] by (simp add: next_leaf_def pm_consts)
qed

lemma next_leaf_greater:
  assumes "page_ok key"
  shows "unat key < unat (next_leaf key)"
  using unat_next_leaf [OF assms] div_mult_mod_eq [of "unat key" 131072] mod_less_divisor [of 131072 "unat key"]
  by simp

function rt_Ensure_loop :: "pagemap \<Rightarrow> u64 \<Rightarrow> u64 \<Rightarrow> bool \<times> pagemap" where
  "rt_Ensure_loop m key until =
     (if key \<le> until then
        (if pm_i1 key \<ge> INTERIOR_LENGTH \<or> pm_i2 key \<ge> INTERIOR_LENGTH then (False, m)
         else rt_Ensure_loop (rt_path m key) (next_leaf key) until)
      else (True, m))"
  by pat_completeness auto

termination
proof (relation "measure (\<lambda>(m, key, until). 2251799813685248 - unat key)")
  fix m :: pagemap and key until :: u64
  assume "\<not> (INTERIOR_LENGTH \<le> pm_i1 key \<or> INTERIOR_LENGTH \<le> pm_i2 key)"
  then have "page_ok key"
    using pm_i1_less_iff [of key] by auto
  then show "((rt_path m key, next_leaf key, until), m, key, until) \<in> measure (\<lambda>(m, key, until). 2251799813685248 - unat key)"
    using next_leaf_greater [of key] by (simp add: page_ok_iff)
qed simp

declare rt_Ensure_loop.simps [simp del]

definition rt_Ensure :: "pagemap \<Rightarrow> u64 \<Rightarrow> u64 \<Rightarrow> bool \<times> pagemap" where
  "rt_Ensure m start n = rt_Ensure_loop m start (start + n - 1)"

text \<open>\<open>set\<close> ignores the result of \<open>Ensure\<close> and follows the two pointers.\<close>

definition rt_set :: "pagemap \<Rightarrow> u64 \<Rightarrow> addr \<Rightarrow> pagemap res" where
  "rt_set m k v =
     (if \<not> drop_bit BITS k = 0 then Inl AssertFailed
      else let m' = snd (rt_Ensure m k 1)
        in case root m' (pm_i1 k) of
             None \<Rightarrow> Inl NullDeref
           | Some node \<Rightarrow> (case node (pm_i2 k) of
               None \<Rightarrow> Inl NullDeref
             | Some leaf \<Rightarrow> Inr (m'\<lparr>root := (root m')(pm_i1 k := Some (node(pm_i2 k := Some (leaf(pm_i3 k := v)))))\<rparr>)))"

section \<open>What the nodes hold\<close>

lemma rt_get_leaf_at:
  "rt_get m k = (if page_ok k then case leaf_at m (pm_i1 k) (pm_i2 k) of
     None \<Rightarrow> nullptr | Some leaf \<Rightarrow> leaf (pm_i3 k) else nullptr)"
  by (auto simp: rt_get_def leaf_at_def page_ok_def word_gt_0 split: option.split)

lemma rt_get_pm_get: "rt_get = pm_get"
  by (intro ext) (simp add: rt_get_leaf_at pm_get_leaf_at)

lemma leaf_at_path:
  "leaf_at (rt_path m k) a b =
     (if a = pm_i1 k \<and> b = pm_i2 k then Some (case leaf_at m a b of None \<Rightarrow> NewLeaf | Some l \<Rightarrow> l) else leaf_at m a b)"
  by (cases "root m (pm_i1 k)"; cases "leaf_at m (pm_i1 k) (pm_i2 k)";
      auto simp: rt_path_def leaf_at_def NewNode_def Let_def)

lemma rt_get_path: "rt_get (rt_path m k) j = rt_get m j"
  by (auto simp: rt_get_leaf_at leaf_at_path NewLeaf_def split: option.split)

lemma pm_i2_less: "pm_i2 k < INTERIOR_LENGTH"
proof -
  have m: "INTERIOR_LENGTH - 1 = mask 17"
    by (simp add: INTERIOR_LENGTH_def pm_consts mask_eq_exp_minus_1)
  have "unat (pm_i2 k) \<le> unat (mask 17 :: u64)"
    unfolding pm_i2_def m by (simp add: word_and_le1 flip: word_le_nat_alt)
  then show ?thesis
    by (simp add: word_less_nat_alt INTERIOR_LENGTH_def pm_consts mask_eq_exp_minus_1)
qed

text \<open>The pages from a page to the next leaf share their leaf.\<close>

lemma same_leaf:
  assumes "page_ok key" "key \<le> j" "j < next_leaf key"
  shows "pm_i1 j = pm_i1 key" "pm_i2 j = pm_i2 key"
proof -
  have "unat j div 131072 = unat key div 131072"
  proof (rule antisym)
    show "unat key div 131072 \<le> unat j div 131072"
      using assms(2) by (intro div_le_mono) (simp add: word_le_nat_alt)
    show "unat j div 131072 \<le> unat key div 131072"
      using assms(3) unat_next_leaf [OF assms(1)] by (simp add: word_less_nat_alt less_Suc_eq_le flip: div_less_iff_less_mult)
  qed
  then have d: "drop_bit 17 j = drop_bit 17 key"
    by (simp add: u64_eq_iff_unat unat_drop_bit_u64)
  have e: "drop_bit 34 j = drop_bit 34 key"
    using arg_cong [OF d, of "drop_bit 17"] by simp
  show "pm_i1 j = pm_i1 key"
    using e by (simp add: pm_i1_def pm_consts)
  show "pm_i2 j = pm_i2 key"
    using d by (simp add: pm_i2_def pm_consts)
qed

lemma rt_Ensure_loop_ok:
  "rt_Ensure_loop m key until = (b, m') \<Longrightarrow>
     (\<forall>j. rt_get m' j = rt_get m j) \<and> (\<forall>a c l. leaf_at m a c = Some l \<longrightarrow> leaf_at m' a c = Some l) \<and>
     (b \<longrightarrow> (\<forall>j. key \<le> j \<and> j \<le> until \<longrightarrow> leaf_at m' (pm_i1 j) (pm_i2 j) \<noteq> None))"
proof (induction m key until arbitrary: b m' rule: rt_Ensure_loop.induct)
  case (1 m key until)
  consider (stop) "\<not> key \<le> until" | (bad) "key \<le> until" "\<not> page_ok key" | (go) "key \<le> until" "page_ok key"
    by blast
  then show ?case
  proof cases
    case stop
    then show ?thesis
      using "1.prems" by (subst (asm) rt_Ensure_loop.simps) auto
  next
    case bad
    then have "INTERIOR_LENGTH \<le> pm_i1 key"
      using pm_i1_less_iff [of key] by auto
    then show ?thesis
      using "1.prems" bad by (subst (asm) rt_Ensure_loop.simps) auto
  next
    case go
    then have ok: "\<not> (INTERIOR_LENGTH \<le> pm_i1 key \<or> INTERIOR_LENGTH \<le> pm_i2 key)"
      using pm_i1_less_iff [of key] pm_i2_less [of key] by auto
    have r: "rt_Ensure_loop (rt_path m key) (next_leaf key) until = (b, m')"
      using "1.prems" go ok by (subst (asm) rt_Ensure_loop.simps) simp
    note IH = "1.IH" [OF go(1) ok r]
    have keep: "leaf_at m' a c = Some l" if "leaf_at m a c = Some l" for a c l
    proof -
      have "leaf_at (rt_path m key) a c = Some l"
        using that by (auto simp: leaf_at_path)
      then show ?thesis
        using IH by blast
    qed
    have all: "leaf_at m' (pm_i1 j) (pm_i2 j) \<noteq> None" if "b" "key \<le> j" "j \<le> until" for j
    proof (cases "j < next_leaf key")
      case True
      obtain l where "leaf_at (rt_path m key) (pm_i1 key) (pm_i2 key) = Some l"
        by (simp add: leaf_at_path)
      then have "leaf_at m' (pm_i1 key) (pm_i2 key) = Some l"
        using IH by blast
      then show ?thesis
        using same_leaf [OF go(2) that(2) True] by simp
    next
      case False
      then have "next_leaf key \<le> j"
        by simp
      then show ?thesis
        using IH that by blast
    qed
    show ?thesis
      using IH keep all rt_get_path by simp
  qed
qed

text \<open>\<open>Ensure\<close> succeeds when the range stays below the bound.\<close>

lemma rt_Ensure_loop_True:
  "unat until < 2251799813685248 \<Longrightarrow> fst (rt_Ensure_loop m key until)"
proof (induction m key until rule: rt_Ensure_loop.induct)
  case (1 m key until)
  show ?case
  proof (cases "key \<le> until")
    case True
    then have "page_ok key"
      using "1.prems" by (simp add: page_ok_iff word_le_nat_alt)
    then have ok: "\<not> (INTERIOR_LENGTH \<le> pm_i1 key \<or> INTERIOR_LENGTH \<le> pm_i2 key)"
      using pm_i1_less_iff [of key] pm_i2_less [of key] by auto
    then show ?thesis
      using True "1.IH" [OF True ok "1.prems"] by (subst rt_Ensure_loop.simps) simp
  qed (subst rt_Ensure_loop.simps, simp)
qed

lemma rt_Ensure_ok:
  assumes "range_ok start (unat n)" "0 < n"
  shows "fst (rt_Ensure m start n)"
    and "rt_get (snd (rt_Ensure m start n)) j = rt_get m j"
    and "leaf_at m a c = Some l \<Longrightarrow> leaf_at (snd (rt_Ensure m start n)) a c = Some l"
    and "in_range start (unat n) j \<Longrightarrow> leaf_at (snd (rt_Ensure m start n)) (pm_i1 j) (pm_i2 j) \<noteq> None"
proof -
  have n: "0 < unat n"
    using assms(2) by (simp add: word_less_nat_alt)
  have u: "unat (start + n - 1) = unat start + unat n - 1"
    using assms(1) n by (simp add: range_ok_def unat_add_nowrap unat_minus_nowrap)
  show t: "fst (rt_Ensure m start n)"
    unfolding rt_Ensure_def using assms(1) n u by (intro rt_Ensure_loop_True) (simp add: range_ok_def)
  obtain m' where m': "rt_Ensure_loop m start (start + n - 1) = (True, m')"
    using t by (cases "rt_Ensure_loop m start (start + n - 1)") (simp add: rt_Ensure_def)
  note ok = rt_Ensure_loop_ok [OF m']
  show "rt_get (snd (rt_Ensure m start n)) j = rt_get m j"
    using ok by (simp add: rt_Ensure_def m')
  show "leaf_at m a c = Some l \<Longrightarrow> leaf_at (snd (rt_Ensure m start n)) a c = Some l"
    using ok by (simp add: rt_Ensure_def m')
  show "in_range start (unat n) j \<Longrightarrow> leaf_at (snd (rt_Ensure m start n)) (pm_i1 j) (pm_i2 j) \<noteq> None"
  proof -
    assume "in_range start (unat n) j"
    then have "start \<le> j \<and> j \<le> start + n - 1"
      using n u by (simp add: in_range_def word_le_nat_alt) linarith
    then show ?thesis
      using ok by (simp add: rt_Ensure_def m')
  qed
qed

section \<open>The tree is a page table\<close>

lemma rt_set_cases:
  assumes "page_ok k"
  obtains m' l where "rt_set m k v = Inr (pm_store m' k (l(pm_i3 k := v)))" "leaf_at m' (pm_i1 k) (pm_i2 k) = Some l"
    "\<And>j. rt_get m' j = rt_get m j"
proof -
  have r: "range_ok k (unat (1 :: u64))" "(0 :: u64) < 1" "in_range k (unat (1 :: u64)) k"
    using assms by (simp_all add: range_ok_def page_ok_iff in_range_def)
  let ?m = "snd (rt_Ensure m k 1)"
  obtain l where l: "leaf_at ?m (pm_i1 k) (pm_i2 k) = Some l"
    using rt_Ensure_ok(4) [OF r] by blast
  then obtain node where "root ?m (pm_i1 k) = Some node" "node (pm_i2 k) = Some l"
    by (auto simp: leaf_at_def split: option.splits)
  then have "rt_set m k v = Inr (pm_store ?m k (l(pm_i3 k := v)))"
    using assms by (simp add: rt_set_def page_ok_def pm_store_def Let_def)
  then show thesis
    using l rt_Ensure_ok(2) [OF r(1,2)] by (rule that)
qed

lemma rt_get_set:
  assumes s: "rt_set m k v = Inr m'"
  shows "rt_get m' j = (if j = k then v else rt_get m j)"
proof -
  have ok: "page_ok k"
    using s by (auto simp: rt_set_def page_ok_def split: if_splits)
  obtain m1 l where m': "m' = pm_store m1 k (l(pm_i3 k := v))" and l: "leaf_at m1 (pm_i1 k) (pm_i2 k) = Some l"
    and g: "\<And>j. rt_get m1 j = rt_get m j"
    using rt_set_cases [OF ok, of m v] s by (metis Inr_inject)
  have r: "root m1 (pm_i1 k) \<noteq> None"
    using l by (auto simp: leaf_at_def split: option.splits)
  have "rt_get m' j = (if j = k then v else rt_get m1 j)"
    unfolding m' using ok l pm_indices_eq [of j k] by (auto simp: rt_get_leaf_at leaf_at_store [OF r])
  then show ?thesis
    using g by simp
qed

lemma rt_set_total: "page_ok k \<Longrightarrow> \<exists>m'. rt_set m k v = Inr m'"
  using rt_set_cases by metis

lemma rt_get_bad: "\<not> page_ok k \<Longrightarrow> rt_get m k = nullptr"
  by (simp add: rt_get_leaf_at)

interpretation rt: page_table rt_get rt_set
  by unfold_locales (simp_all add: rt_set_total rt_get_set rt_get_bad)

text \<open>\<open>MapSpanRange\<close> of \<open>PageCache.cpp\<close> sets every page of a range, and \<open>MapFreeSpan\<close> the first and the
  last page of a span that is otherwise unmapped. The loop of the first counts the page number up to \<open>start + pages\<close>,
  so that it does nothing where that sum wraps.\<close>

definition MapSpanRange :: "pagemap \<Rightarrow> u64 \<Rightarrow> u64 \<Rightarrow> addr \<Rightarrow> pagemap res" where
  "MapSpanRange tree start pages span = iter_set rt_set tree start (unat (start + pages) - unat start) span"

definition MapFreeSpan :: "pagemap \<Rightarrow> u64 \<Rightarrow> u64 \<Rightarrow> addr \<Rightarrow> pagemap res" where
  "MapFreeSpan tree id' n_pages span =
     rbind (MapSpanRange tree id' n_pages nullptr) (\<lambda>t1.
     rbind (rt_set t1 id' span) (\<lambda>t2.
       rt_set t2 (id' + n_pages - 1) span))"

lemma MapSpanRange_ex:
  assumes r: "range_ok start (unat n)"
  obtains t where "MapSpanRange tree start n span = Inr t"
    "\<And>j. rt_get t j = (if in_range start (unat n) j then span else rt_get tree j)"
proof -
  have "unat (start + n) - unat start = unat n"
    using r by (simp add: range_ok_def unat_add_nowrap)
  then show thesis
    using that rt.iter_set_ex [OF r] unfolding MapSpanRange_def by metis
qed

lemma MapFreeSpan_ex:
  assumes r: "range_ok start (unat n)" and n: "0 < n"
  obtains t where "MapFreeSpan tree start n span = Inr t"
    "\<And>j. rt_get t j = (if j = start \<or> j = start + n - 1 then span
        else if in_range start (unat n) j then nullptr else rt_get tree j)"
proof -
  obtain u0 where u0: "MapSpanRange tree start n nullptr = Inr u0"
    "\<And>j. rt_get u0 j = (if in_range start (unat n) j then nullptr else rt_get tree j)"
    using MapSpanRange_ex [OF r] by metis
  have pos: "0 < unat n"
    using n by (simp add: word_less_nat_alt)
  have u: "unat (start + n - 1) = unat start + unat n - 1"
    using r pos by (simp add: range_ok_def unat_add_nowrap unat_minus_nowrap)
  have ok: "page_ok start" "page_ok (start + n - 1)"
    using r pos u by (simp_all add: range_ok_def page_ok_iff)
  obtain u1 where u1: "rt_set u0 start span = Inr u1" "\<And>j. rt_get u1 j = (if j = start then span else rt_get u0 j)"
    using rt.set_ex [OF ok(1)] by metis
  obtain t2 where t2: "rt_set u1 (start + n - 1) span = Inr t2"
    "\<And>j. rt_get t2 j = (if j = start + n - 1 then span else rt_get u1 j)"
    using rt.set_ex [OF ok(2)] by metis
  have "MapFreeSpan tree start n span = Inr t2"
    by (simp add: MapFreeSpan_def u0(1) u1(1) t2(1))
  then show thesis
    using that t2(2) u1(2) u0(2) by auto
qed

text \<open>C26: the radix tree is a map from pages to spans: mapping the pages of a span changes exactly them, a free span
  is known by its first and last page only, and no operation fails below the bound of the tree.\<close>

theorem radix_tree_maps:
  assumes r: "range_ok start (unat n)" and n: "0 < n"
  shows "\<exists>t1 t2. MapSpanRange tree start n span = Inr t1 \<and> MapFreeSpan tree start n span = Inr t2 \<and>
    (\<forall>j. rt_get t1 j = (if in_range start (unat n) j then span else rt_get tree j)) \<and>
    (\<forall>j. rt_get t2 j = (if j = start \<or> j = start + n - 1 then span
        else if in_range start (unat n) j then nullptr else rt_get tree j))"
proof -
  obtain t1 where "MapSpanRange tree start n span = Inr t1"
    "\<And>j. rt_get t1 j = (if in_range start (unat n) j then span else rt_get tree j)"
    using MapSpanRange_ex [OF r] by metis
  moreover obtain t2 where "MapFreeSpan tree start n span = Inr t2"
    "\<And>j. rt_get t2 j = (if j = start \<or> j = start + n - 1 then span
        else if in_range start (unat n) j then nullptr else rt_get tree j)"
    using MapFreeSpan_ex [OF r n] by metis
  ultimately show ?thesis
    by blast
qed

lemma radix_tree_maps_witness:
  "\<exists>t1 t2. MapSpanRange pm_new 10 3 64 = Inr t1 \<and> MapFreeSpan t1 10 3 64 = Inr t2 \<and>
     rt_get t1 11 = 64 \<and> rt_get t1 13 = nullptr \<and> rt_get t2 11 = nullptr \<and> rt_get t2 12 = 64"
proof -
  have r: "range_ok 10 (unat (3 :: u64))" "(0 :: u64) < 3"
    by (simp_all add: range_ok_def)
  obtain t1 where t1: "MapSpanRange pm_new 10 3 64 = Inr t1"
    "\<And>j. rt_get t1 j = (if in_range 10 (unat (3 :: u64)) j then 64 else rt_get pm_new j)"
    using radix_tree_maps [OF r, of pm_new 64] by blast
  obtain t2 where t2: "MapFreeSpan t1 10 3 64 = Inr t2"
    "\<And>j. rt_get t2 j = (if j = 10 \<or> j = 10 + 3 - 1 then 64 else if in_range 10 (unat (3 :: u64)) j then nullptr
       else rt_get t1 j)"
    using radix_tree_maps [OF r, of t1 64] by blast
  show ?thesis
    using t1 t2 by (simp add: in_range_def rt_get_pm_get)
qed

end
