(* ===== verification/Pool_Object.thy ===== *)
theory Pool_Object
  imports Object_Pool
begin

text \<open>
  The object pool of the second allocator, \<open>src/Pool/ObjectPool.h\<close>. Its blocks are single pages of 8192 bytes
  from \<open>SystemAlloc\<close>, which throws when \<open>mmap\<close> fails; the coming results of \<open>mmap\<close> are part of the state,
  0 stands for a failed call. The remaining size is an \<open>int\<close> that is compared with a \<open>size_t\<close>, so that a
  negative one counts as very large. The pool keeps the contract of the pools for objects of 8 to 8192 bytes. It is used for a
  larger class too: the central cache has 209 lists of 48 bytes.
\<close>

section \<open>The code\<close>

record ppool =
  pp_freelist :: addr
  pp_memory :: addr
  pp_remain :: i32
  pp_link :: "addr \<Rightarrow> addr"
  pp_mmaps :: "addr list"

definition pp_refill :: "u64 \<Rightarrow> ppool \<Rightarrow> ppool res" where
  "pp_refill sz p =
     (let obj_size' = if sz < 8 then 8 else sz
      in if (scast (pp_remain p) :: u64) < obj_size' then
           case pp_mmaps p of
             [] \<Rightarrow> Inl BadAlloc
           | ptr # rest \<Rightarrow>
               if ptr = nullptr then Inl BadAlloc
               else Inr (p\<lparr>pp_remain := push_bit 13 1, pp_memory := ptr, pp_mmaps := rest\<rparr>)
         else Inr p)"

definition pp_New :: "u64 \<Rightarrow> ppool \<Rightarrow> (addr \<times> ppool) res" where
  "pp_New sz p =
     (if pp_freelist p \<noteq> nullptr then
        Inr (pp_freelist p, p\<lparr>pp_freelist := pp_link p (pp_freelist p)\<rparr>)
      else rbind (pp_refill sz p) (\<lambda>q.
        Inr (pp_memory q,
             q\<lparr>pp_remain := ucast ((scast (pp_remain q) :: u64) - sz), pp_memory := pp_memory q + sz\<rparr>)))"

definition pp_Delete :: "ppool \<Rightarrow> addr \<Rightarrow> ppool res" where
  "pp_Delete p ptr =
     (if ptr = nullptr then Inl AssertFailed
      else Inr (p\<lparr>pp_link := (pp_link p)(ptr := pp_freelist p), pp_freelist := ptr\<rparr>))"

section \<open>The contract, for objects that fit a page\<close>

definition pp_carve :: "u64 \<Rightarrow> ppool \<Rightarrow> addr list \<Rightarrow> bool" where
  "pp_carve sz p ys \<longleftrightarrow> 8 \<le> unat sz \<and> unat sz \<le> 8192 \<and> nullptr \<notin> set (pp_mmaps p) \<and>
     (\<exists>r. pp_remain p = of_nat r \<and> r \<le> 8192 \<and>
       ys = slots (pp_memory p) sz (r div unat sz) @
         concat (map (\<lambda>b. slots b sz (8192 div unat sz)) (pp_mmaps p)))"

definition pp_rep :: "u64 \<Rightarrow> ppool \<Rightarrow> addr list \<Rightarrow> bool" where
  "pp_rep sz p xs \<longleftrightarrow>
     (\<exists>fs ys. chain (pp_link p) (pp_freelist p) fs \<and> pp_carve sz p ys \<and> xs = fs @ ys)"

lemma pp_refill_ok:
  assumes c: "pp_carve sz p (x # xs)"
  obtains q r where "pp_refill sz p = Inr q" "pp_freelist q = pp_freelist p" "set (pp_mmaps q) \<subseteq> set (pp_mmaps p)"
    "pp_remain q = of_nat r" "unat sz \<le> r" "r \<le> 8192"
    "x # xs = slots (pp_memory q) sz (r div unat sz) @ concat (map (\<lambda>b. slots b sz (8192 div unat sz)) (pp_mmaps q))"
proof -
  obtain r where r: "pp_remain p = of_nat r" "r \<le> 8192"
    and x: "x # xs = slots (pp_memory p) sz (r div unat sz) @ concat (map (\<lambda>b. slots b sz (8192 div unat sz)) (pp_mmaps p))"
    using c by (auto simp: pp_carve_def)
  have sz: "8 \<le> unat sz" "unat sz \<le> 8192" "nullptr \<notin> set (pp_mmaps p)"
    using c by (auto simp: pp_carve_def)
  have o: "(if sz < 8 then 8 else sz) = sz"
    using sz(1) by (simp add: word_less_nat_alt)
  have cmp: "(scast (pp_remain p) :: u64) < sz \<longleftrightarrow> r < unat sz"
    using r by (simp add: scast_of_nat_i32 word_less_nat_alt unat_of_nat_small)
  show thesis
  proof (cases "r < unat sz")
    case True
    then obtain b bs where b: "pp_mmaps p = b # bs" "b \<noteq> nullptr"
      using x sz(3) by (cases "pp_mmaps p") auto
    let ?q = "p\<lparr>pp_remain := push_bit 13 1, pp_memory := b, pp_mmaps := bs\<rparr>"
    show thesis
    proof (rule that)
      show "pp_refill sz p = Inr ?q"
        unfolding pp_refill_def o using True cmp b by simp
      show "pp_remain ?q = of_nat 8192"
        by simp
      show "x # xs = slots (pp_memory ?q) sz (8192 div unat sz) @
          concat (map (\<lambda>b. slots b sz (8192 div unat sz)) (pp_mmaps ?q))"
        using x b True by simp
    qed (use b sz in auto)
  next
    case False
    show thesis
    proof (rule that)
      show "pp_refill sz p = Inr p"
        unfolding pp_refill_def o using False cmp by simp
      show "unat sz \<le> r"
        using False by simp
    qed (use r x in simp_all)
  qed
qed

lemma pp_remain_minus:
  assumes "unat sz \<le> r" "r \<le> 8192"
  shows "(ucast ((scast (of_nat r :: i32) :: u64) - sz) :: i32) = of_nat (r - unat sz)"
proof -
  have "(scast (of_nat r :: i32) :: u64) - sz = of_nat (r - unat sz)"
    using assms by (simp add: scast_of_nat_i32 of_nat_diff)
  then have "(ucast ((scast (of_nat r :: i32) :: u64) - sz) :: i32) = ucast (of_nat (r - unat sz) :: u64)"
    by simp
  also have "\<dots> = of_nat (unat (of_nat (r - unat sz) :: u64))"
    by (rule of_nat_unat [symmetric])
  also have "unat (of_nat (r - unat sz) :: u64) = r - unat sz"
    using assms by (intro unat_of_nat_small) simp
  finally show ?thesis .
qed

lemma pp_New_pop:
  assumes "pp_rep sz p (x # xs)"
  shows "\<exists>p'. pp_New sz p = Inr (x, p') \<and> pp_rep sz p' xs"
proof (cases "pp_freelist p = nullptr")
  case True
  have carve: "pp_carve sz p (x # xs)"
    using assms True by (auto simp: pp_rep_def)
  then obtain q r where q: "pp_refill sz p = Inr q" "pp_freelist q = pp_freelist p"
      "set (pp_mmaps q) \<subseteq> set (pp_mmaps p)"
    and r: "pp_remain q = of_nat r" "unat sz \<le> r" "r \<le> 8192"
    and x: "x # xs = slots (pp_memory q) sz (r div unat sz) @ concat (map (\<lambda>b. slots b sz (8192 div unat sz)) (pp_mmaps q))"
    by (rule pp_refill_ok)
  have sz: "8 \<le> unat sz" "unat sz \<le> 8192" "nullptr \<notin> set (pp_mmaps q)"
    using carve q(3) by (auto simp: pp_carve_def)
  let ?p' = "q\<lparr>pp_remain := ucast ((scast (pp_remain q) :: u64) - sz), pp_memory := pp_memory q + sz\<rparr>"
  have s: "slots (pp_memory q) sz (r div unat sz) = pp_memory q # slots (pp_memory q + sz) sz ((r - unat sz) div unat sz)"
    using div_step [of "unat sz" r] sz r(2) by simp
  have "pp_remain ?p' = of_nat (r - unat sz)"
    using r pp_remain_minus by simp
  then have "pp_carve sz ?p' xs"
    unfolding pp_carve_def using sz r(3) x s by (intro conjI exI [of _ "r - unat sz"]) auto
  moreover have "x = pp_memory q"
    using x s by simp
  ultimately show ?thesis
    using True q by (auto simp: pp_New_def pp_rep_def)
next
  case False
  then obtain fs ys where f: "chain (pp_link p) (pp_link p (pp_freelist p)) fs" "pp_carve sz p ys"
      "x = pp_freelist p" "xs = fs @ ys"
    using assms by (auto simp: pp_rep_def chain_Cons)
  have "pp_carve sz (p\<lparr>pp_freelist := pp_link p (pp_freelist p)\<rparr>) ys"
    using f(2) by (simp add: pp_carve_def)
  then show ?thesis
    using False f by (auto simp: pp_New_def pp_rep_def)
qed

lemma pp_New_empty:
  assumes "pp_rep sz p []"
  shows "pp_New sz p = Inl BadAlloc"
proof -
  obtain r where r: "pp_remain p = of_nat r" "r \<le> 8192" "r div unat sz = 0" and f: "pp_freelist p = nullptr"
    and m: "\<forall>b \<in> set (pp_mmaps p). 8192 div unat sz = 0" and sz: "8 \<le> unat sz" "unat sz \<le> 8192"
    using assms by (auto simp: pp_rep_def pp_carve_def)
  have "pp_mmaps p = []"
    using m sz by (cases "pp_mmaps p") (auto simp: div_eq_0_iff)
  moreover have "r < unat sz" "\<not> sz < 8"
    using r(3) sz by (auto simp: div_eq_0_iff word_less_nat_alt)
  ultimately show ?thesis
    using f r by (simp add: pp_New_def pp_refill_def Let_def scast_of_nat_i32 word_less_nat_alt unat_of_nat_small)
qed

definition pp_delete :: "ppool \<Rightarrow> addr \<Rightarrow> ppool" where
  "pp_delete p x = (case pp_Delete p x of Inl e \<Rightarrow> p | Inr q \<Rightarrow> q)"

lemma pp_Delete_push:
  assumes "pp_rep sz p xs" "x \<noteq> nullptr" "x \<notin> set xs"
  shows "pp_rep sz (pp_delete p x) (x # xs)"
proof -
  obtain fs ys where f: "chain (pp_link p) (pp_freelist p) fs" "pp_carve sz p ys" "xs = fs @ ys"
    using assms(1) by (auto simp: pp_rep_def)
  have "pp_carve sz (pp_delete p x) ys"
    using f(2) assms(2) by (simp add: pp_carve_def pp_delete_def pp_Delete_def)
  moreover have "chain (pp_link (pp_delete p x)) (pp_freelist (pp_delete p x)) (x # fs)"
    using f(1,3) assms by (simp add: pp_delete_def pp_Delete_def)
  ultimately show ?thesis
    using f(3) unfolding pp_rep_def by (metis append_Cons)
qed

interpretation pp: object_pool "pp_rep sz" "pp_New sz" pp_delete for sz
  by unfold_locales (simp_all add: pp_New_pop pp_New_empty pp_Delete_push)

section \<open>An object larger than a page\<close>

definition pp_new :: "addr list \<Rightarrow> ppool" where
  "pp_new mmaps = \<lparr>pp_freelist = nullptr, pp_memory = nullptr, pp_remain = 0, pp_link = (\<lambda>_. nullptr), pp_mmaps = mmaps\<rparr>"

lemma ucast_of_int_i32: "(ucast (word_of_int z :: u64) :: i32) = word_of_int z"
  by (rule bit_word_eqI) (auto simp: bit_simps)

lemma scast_of_int_i32:
  assumes "- 2147483648 \<le> z" "z < 2147483648"
  shows "(scast (word_of_int z :: i32) :: u64) = word_of_int z"
  unfolding scast_eq sint_of_int_i32 [OF assms] ..

lemma uint_of_negative:
  assumes "- 18446744073709551616 \<le> z" "z < 0"
  shows "uint (word_of_int z :: u64) = z + 18446744073709551616"
proof -
  have "uint (word_of_int z :: u64) = z mod 18446744073709551616"
    by (simp add: uint_word_of_int)
  also have "\<dots> = (z + 18446744073709551616) mod 18446744073709551616"
    by simp
  also have "\<dots> = z + 18446744073709551616"
    using assms by (intro mod_pos_pos_trivial) simp_all
  finally show ?thesis .
qed

text \<open>The pool hands out an object of more than 8192 bytes in a block of 8192: the object ends past the block, the
  remaining size becomes negative, and the next object is placed behind the first without a new block.\<close>

theorem pool_overruns_block:
  assumes "8192 < unat sz" "unat sz < 1073741824" "b \<noteq> nullptr"
  shows "\<exists>p1 p2. pp_New sz (pp_new (b # bs)) = Inr (b, p1) \<and> sint (pp_remain p1) < 0 \<and>
    pp_New sz p1 = Inr (b + sz, p2) \<and> pp_mmaps p2 = bs"
proof -
  let ?z = "8192 - int (unat sz)"
  let ?p1 = "(pp_new (b # bs))\<lparr>pp_remain := word_of_int ?z, pp_memory := b + sz, pp_mmaps := bs\<rparr>"
  have n: "\<not> sz < 8" "0 < sz"
    using assms(1) by (auto simp: word_less_nat_alt)
  have "8192 < uint sz" "uint sz < 1073741824"
    unfolding uint_nat using assms by linarith+
  then have z: "- 1073741824 \<le> ?z" "?z < 0"
    by simp_all
  have m: "8192 - sz = word_of_int ?z"
    by simp
  have u: "(ucast (8192 - sz) :: i32) = word_of_int ?z"
    unfolding m by (rule ucast_of_int_i32)
  have p1: "pp_New sz (pp_new (b # bs)) = Inr (b, ?p1)"
    using n assms(3) by (simp add: pp_New_def pp_refill_def pp_new_def Let_def u)
  have neg: "sint (pp_remain ?p1) < 0"
    using z sint_of_int_i32 [of ?z] by simp
  have "uint (word_of_int ?z :: u64) = ?z + 18446744073709551616"
    using z by (intro uint_of_negative) simp_all
  then have big: "\<not> (word_of_int ?z :: u64) < sz"
    unfolding word_less_def using z uint_nat [of sz] by linarith
  have "(scast (pp_remain ?p1) :: u64) = word_of_int ?z"
    using z scast_of_int_i32 [of ?z] by simp
  then have "pp_refill sz ?p1 = Inr ?p1"
    unfolding pp_refill_def Let_def using n big by simp
  then have "\<exists>p2. pp_New sz ?p1 = Inr (b + sz, p2) \<and> pp_mmaps p2 = bs"
    by (simp add: pp_New_def pp_new_def)
  then show ?thesis
    using p1 neg by blast
qed

lemma pool_overruns_block_witness:
  "\<exists>p1. pp_New 10032 (pp_new [65536]) = Inr (65536, p1) \<and> sint (pp_remain p1) < 0"
  using pool_overruns_block [of 10032 65536 "[]"] by auto

end
