(* ===== verification/Pool_Lists.thy ===== *)
theory Pool_Lists
  imports Span_List
begin

text \<open>
  The class \<open>SpanList\<close> of the second allocator, \<open>src/Pool/Common.h\<close>: the list pops at its back, and a span
  that leaves a list has its own links set to null. The heap is that of \<open>Span_List\<close>.
\<close>

section \<open>The code\<close>

definition ps_init :: "span_heap \<Rightarrow> addr \<Rightarrow> span_heap" where
  "ps_init h head = h\<lparr>s_prev := (s_prev h)(head := head), s_next := (s_next h)(head := head)\<rparr>"

definition ps_begin :: "span_heap \<Rightarrow> addr \<Rightarrow> addr" where
  "ps_begin h head = s_next h head"

definition ps_end :: "addr \<Rightarrow> addr" where
  "ps_end head = head"

definition ps_empty :: "span_heap \<Rightarrow> addr \<Rightarrow> bool" where
  "ps_empty h head \<longleftrightarrow> s_next h head = head"

definition ps_push_front :: "span_heap \<Rightarrow> addr \<Rightarrow> addr \<Rightarrow> span_heap res" where
  "ps_push_front h head new_span =
     (let next' = s_next h head in
      if new_span = nullptr \<or> next' = nullptr then Inl NullDeref
      else
        let h1 = h\<lparr>s_next := (s_next h)(new_span := next')\<rparr>;
            h2 = h1\<lparr>s_prev := (s_prev h1)(new_span := head)\<rparr>;
            h3 = h2\<lparr>s_prev := (s_prev h2)(next' := new_span)\<rparr>
        in Inr (h3\<lparr>s_next := (s_next h3)(head := new_span)\<rparr>))"

definition ps_pop_back :: "span_heap \<Rightarrow> addr \<Rightarrow> (addr \<times> span_heap) res" where
  "ps_pop_back h head =
     (let tail = s_prev h head; tail_prev = s_prev h tail in
      if tail = nullptr \<or> tail_prev = nullptr then Inl NullDeref
      else
        let h1 = h\<lparr>s_next := (s_next h)(tail_prev := head)\<rparr>;
            h2 = h1\<lparr>s_prev := (s_prev h1)(head := tail_prev)\<rparr>;
            h3 = h2\<lparr>s_next := (s_next h2)(tail := nullptr)\<rparr>
        in Inr (tail, h3\<lparr>s_prev := (s_prev h3)(tail := nullptr)\<rparr>))"

definition ps_erase :: "span_heap \<Rightarrow> addr \<Rightarrow> addr \<Rightarrow> span_heap res" where
  "ps_erase h head span =
     (if span = nullptr then Inl AssertFailed
      else if span = head then Inl AssertFailed
      else
        let prev = s_prev h span; next' = s_next h span in
        if prev = nullptr \<or> next' = nullptr then Inl NullDeref
        else
          let h1 = h\<lparr>s_next := (s_next h)(prev := next')\<rparr>;
              h2 = h1\<lparr>s_prev := (s_prev h1)(next' := prev)\<rparr>;
              h3 = h2\<lparr>s_prev := (s_prev h2)(span := nullptr)\<rparr>
          in Inr (h3\<lparr>s_next := (s_next h3)(span := nullptr)\<rparr>))"

section \<open>The operations act on the sequence\<close>

lemma ps_begin_rep: "sl_rep h head xs \<Longrightarrow> ps_begin h head = (if xs = [] then head else hd xs)"
  using sl_Begin_rep by (simp add: ps_begin_def sl_Begin_def)

lemma ps_empty_rep: "sl_rep h head xs \<Longrightarrow> ps_empty h head \<longleftrightarrow> xs = []"
  using sl_Empty_rep by (simp add: ps_empty_def sl_Empty_def)

lemma ps_push_front_ring:
  assumes r: "sl_rep h head xs" and new: "new \<notin> insert head (set xs)" "new \<noteq> nullptr"
  shows "\<exists>h'. ps_push_front h head new = Inr h' \<and> same_data (insert new (insert head (set xs))) h h' \<and>
    sl_rep h' head (new # xs)"
proof -
  let ?n = "s_next h head"
  have ring: "ring (s_next h) (s_prev h) head xs"
    using r by (simp add: sl_rep_def)
  have n: "?n = (if xs = [] then head else hd xs)"
    using sl_Begin_rep [OF r] by (simp add: sl_Begin_def)
  have p: "s_prev h ?n = head"
    using ring dseg_start_eq [of "s_next h" "s_prev h" head xs head] by (cases xs) (auto simp: ring_def)
  have n0: "?n \<noteq> nullptr" "?n \<in> insert head (set xs)"
    using ring n by (cases xs; auto simp: ring_def)+
  then have ne: "?n \<noteq> new" "head \<noteq> new"
    using new by auto
  let ?h' = "h\<lparr>s_next := (s_next h)(head := new, new := ?n), s_prev := (s_prev h)(new := head, ?n := new)\<rparr>"
  have "ps_push_front h head new = Inr ?h'"
    using new n0 ne by (simp add: ps_push_front_def Let_def fun_upd_twist)
  moreover have "same_data (insert new (insert head (set xs))) h ?h'"
    using n0 by (intro same_dataI) auto
  moreover have "sl_rep ?h' head (new # xs)"
    using ring_insert [of "s_next h" "s_prev h" head "[]" xs new ?n] ring new n p by (simp add: sl_rep_def)
  ultimately show ?thesis by blast
qed

lemma ps_erase_ring:
  assumes "sl_rep h head (as @ x # bs)"
  shows "\<exists>h'. ps_erase h head x = Inr h' \<and> same_data (insert head (set (as @ x # bs))) h h' \<and>
    sl_rep h' head (as @ bs)"
proof -
  have nb: "s_prev h x \<in> insert head (set as)" "s_next h x \<in> insert head (set bs)"
    using ring_neighbours assms by (auto simp: sl_rep_def)
  have nz: "x \<noteq> nullptr" "head \<noteq> x" "s_prev h x \<noteq> nullptr" "s_next h x \<noteq> nullptr"
    using assms nb by (auto simp: sl_rep_def ring_def)
  have nx: "x \<notin> insert head (set (as @ bs))"
    using assms by (auto simp: sl_rep_def ring_def)
  let ?h' = "h\<lparr>s_next := ((s_next h)(s_prev h x := s_next h x))(x := nullptr),
               s_prev := ((s_prev h)(s_next h x := s_prev h x))(x := nullptr)\<rparr>"
  have "ps_erase h head x = Inr ?h'"
    using nz by (simp add: ps_erase_def Let_def)
  moreover have "same_data (insert head (set (as @ x # bs))) h ?h'"
    using nb by (intro same_dataI) auto
  moreover have "ring ((s_next h)(s_prev h x := s_next h x)) ((s_prev h)(s_next h x := s_prev h x)) head (as @ bs)"
    using ring_erase assms by (simp add: sl_rep_def)
  then have "sl_rep ?h' head (as @ bs)"
    using nx by (simp add: sl_rep_def)
  ultimately show ?thesis by blast
qed

interpretation psl: intrusive_list sl_rep ps_begin ps_push_front ps_erase same_data
proof unfold_locales
  show "sl_rep h g xs \<Longrightarrow> distinct xs \<and> g \<notin> set xs \<and> nullptr \<notin> set (g # xs)" for h g xs
    by (simp add: sl_rep_def ring_def)
qed (rule ps_begin_rep ps_push_front_ring ps_erase_ring same_data_frame; assumption)+

text \<open>Popping at the back erases the last span.\<close>

lemma ps_pop_back_erase:
  assumes "sl_rep h head (as @ [x])" "ps_erase h head x = Inr h'"
  shows "ps_pop_back h head = Inr (x, h')"
proof -
  have ring: "ring (s_next h) (s_prev h) head (as @ [x])"
    using assms(1) by (simp add: sl_rep_def)
  then have d: "dseg (s_next h) (s_prev h) head as x" "dseg (s_next h) (s_prev h) x [] head"
    by (simp_all add: ring_def dseg_append)
  then have e: "s_prev h head = x" "s_next h x = head" "x \<noteq> nullptr" "x \<noteq> head" "head \<noteq> nullptr"
    using ring by (auto simp: ring_def)
  have p: "s_prev h x \<noteq> nullptr"
    using assms(2) e by (simp add: ps_erase_def Let_def split: if_splits)
  have h': "h' = h\<lparr>s_next := (s_next h)(s_prev h x := head, x := nullptr),
      s_prev := (s_prev h)(head := s_prev h x, x := nullptr)\<rparr>"
    using assms(2) e p by (auto simp: ps_erase_def Let_def)
  show ?thesis
    unfolding h' using e p by (simp add: ps_pop_back_def Let_def)
qed

lemma pop_back_buckets:
  assumes "buckets_ok sl_rep h heads L n" "i < n" "L i = ys @ [y]"
  obtains h' where "ps_pop_back h (heads i) = Inr (y, h')" "same_data (insert (heads i) (set (L i))) h h'"
    "buckets_ok sl_rep h' heads (L(i := ys)) n"
proof -
  have r: "sl_rep h (heads i) (ys @ [y])"
    using assms by (auto simp: buckets_ok_def)
  then have "y \<notin> set ys"
    by (auto simp: sl_rep_def ring_def)
  then have "remove1 y (L i) = ys"
    using assms(3) by (simp add: remove1_append)
  moreover obtain h' where h': "ps_erase h (heads i) y = Inr h'" "same_data (insert (heads i) (set (L i))) h h'"
      "buckets_ok sl_rep h' heads (L(i := remove1 y (L i))) n"
    using psl.erase_buckets [OF assms(1,2), of y] assms(3) by auto
  ultimately show thesis
    using that [of h'] ps_pop_back_erase [OF r h'(1)] by simp
qed

lemma ps_empty_buckets:
  assumes "buckets_ok sl_rep h heads L n" "i < n"
  shows "ps_empty h (heads i) \<longleftrightarrow> L i = []"
  using assms ps_empty_rep by (auto simp: buckets_ok_def)

end
