(* ===== verification/Pool_Page_Cache.thy ===== *)
theory Pool_Page_Cache
  imports Page_Cache_Release Radix_Tree Pool_Object Pool_Lists
begin

text \<open>
  The page cache of the second allocator, \<open>src/Pool/PageCache.cpp\<close>: 129 lists of free spans, the radix
  tree, and the pool of the \<open>Span\<close> structures. \<open>_use_count\<close> is a \<open>size_t\<close> and \<open>_obj_size\<close> an \<open>int\<close> in
  this allocator; they are kept beside the heap of the other fields, whose own two components of that
  meaning are not used. The results of \<open>mmap\<close> are an input of the run (all ones for \<open>MAP_FAILED\<close>); those that
  serve the pool of span structures are in the pool. \<open>GetNewSpan\<close> is called with \<open>_mtx\<close> held and
  \<open>ReleaseSpanToPageCache\<close> takes it; here each is a function of the state. \<open>Pool_Pages_Shared\<close> runs their parts under the mutex, with other
  threads in between.
\<close>

section \<open>The state\<close>

record pqcache =
  pq_heads :: "nat \<Rightarrow> addr"
  pq_spans :: span_heap
  pq_use :: "addr \<Rightarrow> u64"
  pq_obj :: "addr \<Rightarrow> i32"
  pq_pool :: ppool
  pq_map :: pagemap
  pq_mmaps :: "addr list"

definition p_NPAGE_LIST :: i32 where
  "p_NPAGE_LIST = 129"

definition p_SPAN_SIZE :: u64 where
  "p_SPAN_SIZE = 56"

text \<open>The list of the spans of \<open>n\<close> pages: an array of 129 elements is indexed.\<close>

definition bucket :: "pqcache \<Rightarrow> u64 \<Rightarrow> addr res" where
  "bucket s n = (if n < 129 then Inr (pq_heads s (unat n)) else Inl OutOfBounds)"

definition p_SystemAlloc :: "u64 \<Rightarrow> pqcache \<Rightarrow> (addr \<times> pqcache) res" where
  "p_SystemAlloc kpage s =
     (if kpage = 0 then Inr (nullptr, s)
      else case pq_mmaps s of
        [] \<Rightarrow> Inl BadAlloc
      | ptr # rest \<Rightarrow>
          if ptr = MAP_FAILED then Inl BadAlloc else Inr (ptr, s\<lparr>pq_mmaps := rest\<rparr>))"

text \<open>The constructor of \<open>Span\<close>, and \<open>pool.New(sizeof(Span))\<close>, which runs it.\<close>

definition span_zero :: "span_heap \<Rightarrow> addr \<Rightarrow> span_heap" where
  "span_zero h x =
     h\<lparr>s_prev := (s_prev h)(x := nullptr), s_next := (s_next h)(x := nullptr),
       s_free_lists := (s_free_lists h)(x := nullptr), s_page_id := (s_page_id h)(x := 0),
       s_npage := (s_npage h)(x := 0), s_is_used := (s_is_used h)(x := False)\<rparr>"

definition p_Span :: "pqcache \<Rightarrow> addr \<Rightarrow> pqcache" where
  "p_Span s x = s\<lparr>pq_spans := span_zero (pq_spans s) x, pq_use := (pq_use s)(x := 0), pq_obj := (pq_obj s)(x := 0)\<rparr>"

definition p_new_span :: "pqcache \<Rightarrow> (addr \<times> pqcache) res" where
  "p_new_span s = rbind (pp_New p_SPAN_SIZE (pq_pool s)) (\<lambda>(x, pool). Inr (x, p_Span (s\<lparr>pq_pool := pool\<rparr>) x))"

section \<open>\<open>GetNewSpan\<close>\<close>

definition set_used :: "span_heap \<Rightarrow> addr \<Rightarrow> bool \<Rightarrow> span_heap" where
  "set_used h x b = h\<lparr>s_is_used := (s_is_used h)(x := b)\<rparr>"

text \<open>The bucket of the wanted size holds a span.\<close>

definition GetNewSpan_pop :: "pqcache \<Rightarrow> i32 \<Rightarrow> (addr \<times> pqcache) res" where
  "GetNewSpan_pop s page_num =
     rbind (ps_pop_back (pq_spans s) (pq_heads s (nat (sint page_num)))) (\<lambda>(span, h1).
       let h = set_used h1 span True in
     rbind (MapSpanRange (pq_map s) (s_page_id h span) (s_npage h span) span) (\<lambda>m.
       Inr (span, s\<lparr>pq_spans := h, pq_map := m\<rparr>)))"

text \<open>A span of the larger bucket \<open>i\<close> is cut.\<close>

definition GetNewSpan_split :: "pqcache \<Rightarrow> nat \<Rightarrow> i32 \<Rightarrow> (addr \<times> pqcache) res" where
  "GetNewSpan_split s i page_num =
     rbind (ps_pop_back (pq_spans s) (pq_heads s i)) (\<lambda>(npage, h1).
     rbind (p_new_span (s\<lparr>pq_spans := h1\<rparr>)) (\<lambda>(kpage, s2).
       let h2 = pq_spans s2;
           h3 = set_used (set_range h2 kpage (s_page_id h2 npage) (scast page_num)) kpage True;
           h4 = set_used (set_range h3 npage (s_page_id h3 npage + scast page_num) (s_npage h3 npage - scast page_num))
                  npage False
       in
     rbind (bucket s2 (s_npage h4 npage)) (\<lambda>head.
     rbind (ps_push_front h4 head npage) (\<lambda>h5.
     rbind (MapSpanRange (pq_map s2) (s_page_id h5 kpage) (s_npage h5 kpage) kpage) (\<lambda>m1.
     rbind (MapFreeSpan m1 (s_page_id h5 npage) (s_npage h5 npage) npage) (\<lambda>m2.
       Inr (kpage, s2\<lparr>pq_spans := h5, pq_map := m2\<rparr>)))))))"

text \<open>A span of 128 pages is made from pages of the system.\<close>

definition GetNewSpan_refill :: "pqcache \<Rightarrow> pqcache res" where
  "GetNewSpan_refill s =
     rbind (p_new_span s) (\<lambda>(new_span, s1).
       let h1 = pq_spans s1;
           h2 = set_used (h1\<lparr>s_npage := (s_npage h1)(new_span := scast (p_NPAGE_LIST - 1))\<rparr>) new_span False in
     rbind (p_SystemAlloc (s_npage h2 new_span) (s1\<lparr>pq_spans := h2\<rparr>)) (\<lambda>(ptr, s2).
       let h3 = h2\<lparr>s_page_id := (s_page_id h2)(new_span := drop_bit 13 ptr)\<rparr> in
     rbind (bucket s2 (s_npage h3 new_span)) (\<lambda>head.
     rbind (ps_push_front h3 head new_span) (\<lambda>h4.
       Inr (s2\<lparr>pq_spans := h4\<rparr>)))))"

function p_find_bucket :: "pqcache \<Rightarrow> nat \<Rightarrow> nat option" where
  "p_find_bucket s i =
     (if i < 129 then
        if \<not> ps_empty (pq_spans s) (pq_heads s i) then Some i else p_find_bucket s (Suc i)
      else None)"
  by pat_completeness auto
termination
  by (relation "measure (\<lambda>(s, i). 129 - i)") auto

declare p_find_bucket.simps [simp del]

primrec GetNewSpan_rec :: "nat \<Rightarrow> pqcache \<Rightarrow> i32 \<Rightarrow> (addr \<times> pqcache) res" where
  "GetNewSpan_rec 0 s page_num = Inl NoFuel"
| "GetNewSpan_rec (Suc fuel) s page_num =
     (if \<not> sint page_num < sint p_NPAGE_LIST then Inl AssertFailed
      else if sint page_num < 0 then Inl OutOfBounds
      else if \<not> ps_empty (pq_spans s) (pq_heads s (nat (sint page_num))) then GetNewSpan_pop s page_num
      else case p_find_bucket s (Suc (nat (sint page_num))) of
        Some i \<Rightarrow> GetNewSpan_split s i page_num
      | None \<Rightarrow> rbind (GetNewSpan_refill s) (\<lambda>s'. GetNewSpan_rec fuel s' page_num))"

definition GetNewSpan :: "pqcache \<Rightarrow> i32 \<Rightarrow> (addr \<times> pqcache) res" where
  "GetNewSpan s page_num = GetNewSpan_rec walk_fuel s page_num"

section \<open>\<open>AddrToSpan\<close> and \<open>ReleaseSpanToPageCache\<close>\<close>

definition AddrToSpan :: "pqcache \<Rightarrow> addr \<Rightarrow> addr" where
  "AddrToSpan s addr = rt_get (pq_map s) (drop_bit 13 addr)"

text \<open>One round of each loop; \<open>None\<close> is its \<open>break\<close>.\<close>

definition p_merge_prev :: "pqcache \<Rightarrow> addr \<Rightarrow> pqcache option res" where
  "p_merge_prev s span =
     (let h = pq_spans s;
          prev_span = rt_get (pq_map s) (s_page_id h span - 1)
      in if prev_span = nullptr then Inr None
         else if s_is_used h prev_span then Inr None
         else if s_npage h prev_span + s_npage h span > 128 then Inr None
         else
           let old_id = s_page_id h span;
               h1 = set_range h span (s_page_id h prev_span) (s_npage h span + s_npage h prev_span) in
           rbind (bucket s (s_npage h1 prev_span)) (\<lambda>head.
           rbind (ps_erase h1 head prev_span) (\<lambda>h2.
           rbind (MapSpanRange (pq_map s) (s_page_id h2 prev_span) (s_npage h2 prev_span) nullptr) (\<lambda>m1.
           rbind (MapSpanRange m1 old_id (s_npage h2 span - s_npage h2 prev_span) nullptr) (\<lambda>m2.
           rbind (pp_Delete (pq_pool s) prev_span) (\<lambda>pool.
             Inr (Some (s\<lparr>pq_spans := h2, pq_map := m2, pq_pool := pool\<rparr>))))))))"

definition p_merge_next :: "pqcache \<Rightarrow> addr \<Rightarrow> pqcache option res" where
  "p_merge_next s span =
     (let h = pq_spans s;
          next_span = rt_get (pq_map s) (s_page_id h span + s_npage h span)
      in if next_span = nullptr then Inr None
         else if s_is_used h next_span then Inr None
         else if s_npage h next_span + s_npage h span > 128 then Inr None
         else
           let old_pages = s_npage h span;
               h1 = set_range h span (s_page_id h span) (s_npage h span + s_npage h next_span) in
           rbind (bucket s (s_npage h1 next_span)) (\<lambda>head.
           rbind (ps_erase h1 head next_span) (\<lambda>h2.
           rbind (MapSpanRange (pq_map s) (s_page_id h2 next_span) (s_npage h2 next_span) nullptr) (\<lambda>m1.
           rbind (MapSpanRange m1 (s_page_id h2 span) old_pages nullptr) (\<lambda>m2.
           rbind (pp_Delete (pq_pool s) next_span) (\<lambda>pool.
             Inr (Some (s\<lparr>pq_spans := h2, pq_map := m2, pq_pool := pool\<rparr>))))))))"

definition p_Release_finish :: "pqcache \<Rightarrow> addr \<Rightarrow> pqcache res" where
  "p_Release_finish s span =
     rbind (bucket s (s_npage (pq_spans s) span)) (\<lambda>head.
     rbind (ps_push_front (pq_spans s) head span) (\<lambda>h1.
       let h = set_used h1 span False in
     rbind (MapFreeSpan (pq_map s) (s_page_id h span) (s_npage h span) span) (\<lambda>m.
       Inr (s\<lparr>pq_spans := h, pq_map := m\<rparr>))))"

definition p_ReleaseSpan :: "pqcache \<Rightarrow> addr \<Rightarrow> pqcache res" where
  "p_ReleaseSpan s span =
     rbind (while_merge p_merge_prev walk_fuel s span) (\<lambda>s1.
     rbind (while_merge p_merge_next walk_fuel s1 span) (\<lambda>s2.
       p_Release_finish s2 span))"

end
