(* ===== verification/Pool_Page_Inv.thy ===== *)
theory Pool_Page_Inv
  imports Pool_Page_Cache
begin

text \<open>
  The invariant of the second page cache and its preservation by \<open>GetNewSpan\<close> and
  \<open>ReleaseSpanToPageCache\<close>. The pages of the two allocators obey the same laws, so that layout, map and
  flags are those of \<open>Page_Cache_Inv\<close>: \<open>L\<close> lists the spans of each bucket, \<open>U\<close> the spans handed out, \<open>X\<close> the
  span a release works on, \<open>N\<close> a span fresh from the system that no page maps to.
\<close>

section \<open>The invariant\<close>

definition pq_inv :: "pqcache \<Rightarrow> (nat \<Rightarrow> addr list) \<Rightarrow> addr set \<Rightarrow> addr set \<Rightarrow> addr set \<Rightarrow> bool" where
  "pq_inv s L U X N \<longleftrightarrow>
     buckets_ok sl_rep (pq_spans s) (pq_heads s) L 129 \<and>
     pool_inv (pp_rep p_SPAN_SIZE) (pq_pool s) (pq_heads s ` {..<129} \<union> free_spans L \<union> U \<union> X) \<and>
     pq_heads s ` {..<129} \<inter> (U \<union> X) = {} \<and>
     free_spans L \<inter> (U \<union> X) = {} \<and> U \<inter> X = {} \<and>
     flags_ok (pq_spans s) L U \<and>
     layout_ok (pq_spans s) (free_spans L \<union> U \<union> X) \<and>
     map_ok (pq_spans s) (pq_map s) (free_spans L) U N"

lemma pq_invD:
  assumes "pq_inv s L U X N"
  shows "buckets_ok sl_rep (pq_spans s) (pq_heads s) L 129"
    "pool_inv (pp_rep p_SPAN_SIZE) (pq_pool s) (pq_heads s ` {..<129} \<union> free_spans L \<union> U \<union> X)"
    "pq_heads s ` {..<129} \<inter> (U \<union> X) = {}" "free_spans L \<inter> (U \<union> X) = {}" "U \<inter> X = {}"
    "flags_ok (pq_spans s) L U" "layout_ok (pq_spans s) (free_spans L \<union> U \<union> X)"
    "map_ok (pq_spans s) (pq_map s) (free_spans L) U N"
  using assms by (simp_all add: pq_inv_def)

text \<open>What the page cache writes: its sentinels, its free spans and the slots of its pool.\<close>

definition pq_slots :: "ppool \<Rightarrow> addr set" where
  "pq_slots p = {x. \<exists>xs. pp_rep p_SPAN_SIZE p xs \<and> x \<in> set xs}"

definition pq_foot :: "pqcache \<Rightarrow> (nat \<Rightarrow> addr list) \<Rightarrow> addr set" where
  "pq_foot s L = pq_heads s ` {..<129} \<union> free_spans L \<union> pq_slots (pq_pool s)"

definition pq_frame :: "addr set \<Rightarrow> pqcache \<Rightarrow> pqcache \<Rightarrow> bool" where
  "pq_frame A s s' \<longleftrightarrow> frame_out A (pq_spans s) (pq_spans s') \<and>
     (\<forall>z. z \<notin> A \<longrightarrow> pq_use s' z = pq_use s z \<and> pq_obj s' z = pq_obj s z)"

lemma pq_frame_refl [simp]: "pq_frame A s s"
  by (simp add: pq_frame_def)

lemma pq_frame_trans: "pq_frame A s s1 \<Longrightarrow> pq_frame A s1 s2 \<Longrightarrow> pq_frame A s s2"
  unfolding pq_frame_def using frame_out_trans by auto

lemma pq_frame_mono: "pq_frame A s s1 \<Longrightarrow> A \<subseteq> B \<Longrightarrow> pq_frame B s s1"
  unfolding pq_frame_def using frame_out_mono by blast

lemma pp_rep_unique:
  assumes "pp_rep sz p xs" "pp_rep sz p ys"
  shows "xs = ys"
proof -
  have r: "r = r'" if "(of_nat r :: i32) = of_nat r'" "r \<le> 8192" "r' \<le> 8192" for r r' :: nat
  proof -
    have "(of_nat r :: u64) = of_nat r'"
      using that scast_of_nat_i32 [of r] scast_of_nat_i32 [of r'] by simp
    then have "unat (of_nat r :: u64) = unat (of_nat r' :: u64)"
      by (rule arg_cong)
    then show ?thesis
      using that(2,3) by (simp only: unat_of_nat_small)
  qed
  obtain fs as where a: "chain (pp_link p) (pp_freelist p) fs" "pp_carve sz p as" "xs = fs @ as"
    using assms(1) by (auto simp: pp_rep_def)
  obtain gs bs where b: "chain (pp_link p) (pp_freelist p) gs" "pp_carve sz p bs" "ys = gs @ bs"
    using assms(2) by (auto simp: pp_rep_def)
  obtain n where n: "pp_remain p = of_nat n" "n \<le> 8192" "as = slots (pp_memory p) sz (n div unat sz) @
      concat (map (\<lambda>b. slots b sz (8192 div unat sz)) (pp_mmaps p))"
    using a(2) by (auto simp: pp_carve_def)
  obtain k where k: "pp_remain p = of_nat k" "k \<le> 8192" "bs = slots (pp_memory p) sz (k div unat sz) @
      concat (map (\<lambda>b. slots b sz (8192 div unat sz)) (pp_mmaps p))"
    using b(2) by (auto simp: pp_carve_def)
  have "n = k"
    using n(1,2) k(1,2) by (intro r) simp_all
  then have "as = bs"
    using n(3) k(3) by simp
  then show ?thesis
    using a b chain_unique [OF a(1) b(1)] by simp
qed

lemma pq_slots_rep: "pp_rep p_SPAN_SIZE p xs \<Longrightarrow> pq_slots p = set xs"
  using pp_rep_unique unfolding pq_slots_def by blast

lemma pq_slots_delete:
  assumes "pool_inv (pp_rep p_SPAN_SIZE) p live" "x \<in> live"
  obtains p' where "pp_Delete p x = Inr p'" "pool_inv (pp_rep p_SPAN_SIZE) p' (live - {x})"
    "pq_slots p' = insert x (pq_slots p)"
proof -
  obtain xs where xs: "pp_rep p_SPAN_SIZE p xs" "nullptr \<notin> live" "set xs \<inter> live = {}"
    using assms(1) by (auto simp: pool_inv_def)
  then have x: "x \<noteq> nullptr" "x \<notin> set xs"
    using assms(2) by auto
  then have "pp_rep p_SPAN_SIZE (pp_delete p x) (x # xs)"
    using xs by (intro pp_Delete_push)
  then have "pq_slots (pp_delete p x) = insert x (pq_slots p)"
    using pq_slots_rep xs(1) by simp
  moreover have "pp_Delete p x = Inr (pp_delete p x)"
    using x by (simp add: pp_delete_def pp_Delete_def)
  ultimately show thesis
    using that pp.delete_live [OF assms] by blast
qed

lemma pq_foot_bucket: "i < 129 \<Longrightarrow> insert (pq_heads s i) (set (L i)) \<subseteq> pq_foot s L"
  by (auto simp: pq_foot_def free_spans_def)

section \<open>Small steps\<close>

lemma set_used_simps [simp]:
  "s_page_id (set_used h x b) = s_page_id h" "s_npage (set_used h x b) = s_npage h"
  "s_free_lists (set_used h x b) = s_free_lists h"
  "s_prev (set_used h x b) = s_prev h" "s_next (set_used h x b) = s_next h"
  "s_is_used (set_used h x b) = (s_is_used h)(x := b)"
  "lo (set_used h x b) = lo h" "np (set_used h x b) = np h"
  "owns (set_used h x b) = owns h" "at_end (set_used h x b) = at_end h"
  "layout_ok (set_used h x b) = layout_ok h" "map_ok (set_used h x b) = map_ok h"
  "sl_rep (set_used h x b) = sl_rep h"
  by (simp_all add: set_used_def lo_def np_def owns_def at_end_def layout_ok_def map_ok_def sl_rep_def fun_eq_iff)

lemma buckets_set_used [simp]: "buckets_ok sl_rep (set_used h x b) heads L n = buckets_ok sl_rep h heads L n"
  by (simp add: buckets_ok_def)

lemma frame_out_set_used [simp]: "k \<in> A \<Longrightarrow> frame_out A h (set_used h k b)"
  by (auto simp: set_used_def frame_out_def)

lemma int_pages:
  fixes page_num :: i32
  assumes "page_num = of_nat n" "n \<le> 128"
  shows "sint page_num = int n" "(scast page_num :: u64) = of_nat n" "unat (scast page_num :: u64) = n"
proof -
  show s: "sint page_num = int n"
    using assms sint_of_int_i32 [of "int n"] by simp
  show u: "(scast page_num :: u64) = of_nat n"
    unfolding scast_eq s by simp
  show "unat (scast page_num :: u64) = n"
    unfolding u using assms(2) by (intro unat_of_nat_small) simp
qed

text \<open>In a free span only the two ends are mapped.\<close>

lemma free_inner_null:
  assumes m: "map_ok h m F U N" and l: "layout_ok h (F \<union> U)" and y: "y \<in> F" "y \<notin> U"
    and p: "owns h y p" "\<not> at_end h y p"
  shows "pm_get m p = nullptr"
proof (rule ccontr)
  assume "pm_get m p \<noteq> nullptr"
  then consider "pm_get m p \<in> U" "owns h (pm_get m p) p" | "pm_get m p \<in> F" "at_end h (pm_get m p) p"
    using m unfolding map_ok_def by blast
  then show False
  proof cases
    case 1
    then show False
      using owns_unique [OF l _ _ _ p(1)] y by blast
  next
    case 2
    then have "owns h (pm_get m p) p"
      using at_end_owns layout_bounds(1) [OF l] by blast
    then show False
      using owns_unique [OF l _ _ _ p(1)] y 2 p(2) by blast
  qed
qed

section \<open>\<open>GetNewSpan\<close>\<close>

definition pq_new_ok :: "pqcache \<Rightarrow> (nat \<Rightarrow> addr list) \<Rightarrow> addr set \<Rightarrow> nat \<Rightarrow> (addr \<times> pqcache) res \<Rightarrow> bool" where
  "pq_new_ok s L U n r \<longleftrightarrow>
     (\<exists>x s' L'. r = Inr (x, s') \<and> x \<notin> U \<and> np (pq_spans s') x = n \<and>
        pq_inv s' L' (insert x U) {} {} \<and> pq_heads s' = pq_heads s \<and>
        (\<forall>u \<in> U. lo (pq_spans s') u = lo (pq_spans s) u \<and> np (pq_spans s') u = np (pq_spans s) u) \<and>
        pq_frame (pq_foot s L) s s' \<and> insert x (pq_foot s' L') \<subseteq> pq_foot s L)"

lemma GetNewSpan_pop_ok:
  assumes inv: "pq_inv s L U {} N" and n: "n \<le> 128" "page_num = of_nat n" and L: "L n = ys @ [y]" and N: "N \<subseteq> {y}"
  shows "pq_new_ok s L U n (GetNewSpan_pop s page_num)"
proof -
  let ?h = "pq_spans s"
  have b: "buckets_ok sl_rep ?h (pq_heads s) L 129" and lay: "layout_ok ?h (free_spans L \<union> U)"
    and m: "map_ok ?h (pq_map s) (free_spans L) U N" and fl: "flags_ok ?h L U"
    and F: "free_spans L \<inter> U = {}"
    using pq_invD [OF inv] by simp_all
  have yF: "y \<in> free_spans L"
    using L n by (intro free_spansI [of n]) auto
  have ny: "np ?h y = n"
    using fl L n by (auto simp: flags_ok_def)
  have y0: "y \<noteq> nullptr"
    using sl.buckets_distinct(3) [OF b, of n] L n by auto
  obtain h' where h': "ps_pop_back ?h (pq_heads s n) = Inr (y, h')"
      "same_data (insert (pq_heads s n) (set (L n))) ?h h'"
      "buckets_ok sl_rep h' (pq_heads s) (L(n := ys)) 129"
    using pop_back_buckets [OF b _ L] n by auto
  note d = same_data_simps [OF h'(2)]
  have ro: "range_ok (s_page_id ?h y) (unat (s_npage ?h y))"
    using layout_range_ok [OF lay] yF by simp
  obtain m' where m': "MapSpanRange (pq_map s) (s_page_id ?h y) (s_npage ?h y) y = Inr m'"
    "\<And>p. rt_get m' p = (if in_range (s_page_id ?h y) (unat (s_npage ?h y)) p then y else rt_get (pq_map s) p)"
    using MapSpanRange_ex [OF ro] by blast
  have g: "pm_get m' p = (if owns ?h y p then y else if at_end ?h y p then nullptr else pm_get (pq_map s) p)" for p
    using m'(2) [of p] at_end_owns [of ?h y p] layout_bounds(1) [OF lay, of y] yF
    by (simp add: owns_in_range rt_get_pm_get)
  let ?s' = "s\<lparr>pq_spans := set_used h' y True, pq_map := m'\<rparr>"
  have r: "GetNewSpan_pop s page_num = Inr (y, ?s')"
    using n h'(1) m'(1) int_pages [OF n(2,1)] by (simp add: GetNewSpan_pop_def d)
  have fs: "free_spans (L(n := ys)) = free_spans L - {y}"
  proof -
    have "y \<notin> set ys"
      using sl.buckets_distinct(1) [OF b, of n] n L by simp
    then show ?thesis
      using free_spans_remove [OF b, of n y] n L by (simp add: remove1_append)
  qed
  have "map_ok ?h m' (free_spans L - {y}) (insert y U) {}"
    by (rule map_ok_take [OF m lay yF N F y0 g])
  moreover have "flags_ok (pq_spans ?s') (L(n := ys)) (insert y U)"
  proof -
    have "np ?h z = i \<and> \<not> s_is_used ?h z \<and> z \<noteq> y" if "z \<in> set ((L(n := ys)) i)" "i < 129" for z i
    proof -
      have "z \<in> free_spans (L(n := ys))"
        using that free_spansI by blast
      then have "z \<noteq> y"
        unfolding fs by blast
      moreover have "z \<in> set (L i)"
        using that(1) L by (auto split: if_splits)
      ultimately show ?thesis
        using fl that(2) unfolding flags_ok_def by blast
    qed
    moreover have "s_is_used (pq_spans ?s') u" if "u \<in> insert y U" for u
      using that fl by (auto simp: flags_ok_def d)
    ultimately show ?thesis
      unfolding flags_ok_def by (simp add: d)
  qed
  moreover have "layout_ok ?h (free_spans L - {y} \<union> insert y U)"
    using lay by (rule layout_mono) (use yF in auto)
  moreover have "pq_heads s ` {..<129} \<inter> insert y U = {}"
    using pq_invD(3) [OF inv] heads_free [OF b] yF by auto
  moreover have "pq_heads s ` {..<129} \<union> (free_spans L - {y}) \<union> insert y U =
      pq_heads s ` {..<129} \<union> free_spans L \<union> U"
    using yF by auto
  moreover have "pool_inv (pp_rep p_SPAN_SIZE) (pq_pool s) (pq_heads s ` {..<129} \<union> free_spans L \<union> U)"
    using pq_invD(2) [OF inv] by simp
  ultimately have "pq_inv ?s' (L(n := ys)) (insert y U) {} {}"
    unfolding pq_inv_def fs using F h'(3) by (intro conjI) (simp_all add: d, blast)
  moreover have "pq_frame (pq_foot s L) s ?s'"
  proof -
    have "frame_out (pq_foot s L) ?h h'"
      using frame_out_same_data [OF h'(2)] n by (intro frame_out_mono [OF _ pq_foot_bucket]) auto
    moreover have "y \<in> pq_foot s L"
      using yF by (simp add: pq_foot_def)
    ultimately show ?thesis
      unfolding pq_frame_def using frame_out_set_used frame_out_trans by auto
  qed
  moreover have "insert y (pq_foot ?s' (L(n := ys))) \<subseteq> pq_foot s L"
    using yF by (auto simp: pq_foot_def fs)
  ultimately show ?thesis
    using r ny yF F unfolding pq_new_ok_def
    by (intro exI [of _ y] exI [of _ ?s'] exI [of _ "L(n := ys)"] conjI) (auto simp: d)
qed

text \<open>A structure fresh from the pool is in no list.\<close>

lemma span_zero_simps [simp]:
  "s_page_id (span_zero h k) = (s_page_id h)(k := 0)" "s_npage (span_zero h k) = (s_npage h)(k := 0)"
  "s_is_used (span_zero h k) = (s_is_used h)(k := False)"
  "s_next (span_zero h k) = (s_next h)(k := nullptr)" "s_prev (span_zero h k) = (s_prev h)(k := nullptr)"
  "lo (span_zero h k) = (lo h)(k := 0)" "np (span_zero h k) = (np h)(k := 0)"
  by (simp_all add: span_zero_def lo_def np_def fun_eq_iff)

lemma frame_out_span_zero [simp]: "k \<in> A \<Longrightarrow> frame_out A h (span_zero h k)"
  by (auto simp: span_zero_def frame_out_def)

lemma buckets_span_zero:
  assumes "buckets_ok sl_rep h heads L 129" "k \<notin> heads ` {..<129} \<union> free_spans L"
  shows "buckets_ok sl_rep (span_zero h k) heads L 129"
proof -
  have "sl_rep (span_zero h k) (heads i) (L i) = sl_rep h (heads i) (L i)" if "i < 129" for i
  proof -
    have "k \<notin> insert (heads i) (set (L i))"
      using assms(2) that by (auto simp: free_spans_def)
    then show ?thesis
      by (simp add: sl_rep_def)
  qed
  then show ?thesis
    using assms(1) by (simp add: buckets_ok_def)
qed

lemma p_new_span_ok:
  assumes "pool_inv (pp_rep p_SPAN_SIZE) (pq_pool s) live" "pp_rep p_SPAN_SIZE (pq_pool s) xs" "1 \<le> length xs"
  obtains k p' where "\<And>h. p_new_span (s\<lparr>pq_spans := h\<rparr>) = Inr (k, p_Span (s\<lparr>pq_spans := h, pq_pool := p'\<rparr>) k)" "k \<noteq> nullptr" "k \<notin> live"
    "pool_inv (pp_rep p_SPAN_SIZE) p' (insert k live)" "pp_rep p_SPAN_SIZE p' (tl xs)"
    "k \<in> pq_slots (pq_pool s)" "pq_slots p' \<subseteq> pq_slots (pq_pool s)"
proof -
  obtain k ys where xs: "xs = k # ys"
    using assms(3) by (cases xs) auto
  then obtain p' where p': "pp_New p_SPAN_SIZE (pq_pool s) = Inr (k, p')" "pp_rep p_SPAN_SIZE p' ys"
    using pp_New_pop assms(2) by blast
  have "k \<in> pq_slots (pq_pool s)" "pq_slots p' \<subseteq> pq_slots (pq_pool s)"
    using pq_slots_rep [OF assms(2)] pq_slots_rep [OF p'(2)] xs by auto
  then show thesis
    using that pp.new_fresh [OF assms(1) p'(1)] p' xs by (simp add: p_new_span_def)
qed

lemma bucket_ok: "unat n < 129 \<Longrightarrow> bucket s n = Inr (pq_heads s (unat n))"
  by (simp add: bucket_def word_less_nat_alt)

lemma p_Span_simps [simp]:
  "pq_spans (p_Span s x) = span_zero (pq_spans s) x" "pq_heads (p_Span s x) = pq_heads s"
  "pq_pool (p_Span s x) = pq_pool s" "pq_map (p_Span s x) = pq_map s" "pq_mmaps (p_Span s x) = pq_mmaps s"
  "pq_use (p_Span s x) = (pq_use s)(x := 0)" "pq_obj (p_Span s x) = (pq_obj s)(x := 0)"
  by (simp_all add: p_Span_def)

text \<open>The lists after a span of bucket \<open>i\<close> is cut and its rest is filed under \<open>j\<close>.\<close>

lemma pop_cut_buckets:
  assumes b: "buckets_ok sl_rep h heads L 129" and i: "i < 129" "j < 129" "L i = ys @ [y]" "j \<noteq> i"
    and k: "k \<notin> heads ` {..<129} \<union> free_spans L"
  obtains h1 where "ps_pop_back h (heads i) = Inr (y, h1)" "same_data (insert (heads i) (set (L i))) h h1"
    "\<And>h4. s_next h4 = s_next (span_zero h1 k) \<Longrightarrow> s_prev h4 = s_prev (span_zero h1 k) \<Longrightarrow>
      \<exists>h5. ps_push_front h4 (heads j) y = Inr h5 \<and> same_data (insert y (insert (heads j) (set (L j)))) h4 h5 \<and>
        buckets_ok sl_rep h5 heads (L(i := ys, j := y # L j)) 129"
proof -
  obtain h1 where h1: "ps_pop_back h (heads i) = Inr (y, h1)"
      "same_data (insert (heads i) (set (L i))) h h1" "buckets_ok sl_rep h1 heads (L(i := ys)) 129"
    using pop_back_buckets [OF b i(1,3)] by blast
  have y: "y \<in> free_spans L" "y \<noteq> nullptr" "y \<notin> set ys"
    using i(1,3) sl.buckets_distinct(1,3) [OF b i(1)] by (auto intro: free_spansI)
  have fs: "free_spans (L(i := ys)) = free_spans L - {y}"
    using free_spans_remove [OF b i(1), of y] i(3) y(3) by (simp add: remove1_append)
  have b2: "buckets_ok sl_rep (span_zero h1 k) heads (L(i := ys)) 129"
    using k by (intro buckets_span_zero [OF h1(3)]) (simp add: fs)
  have n: "y \<notin> insert (heads l) (set ((L(i := ys)) l))" if "l < 129" for l
    using that free_spansI [of l y "L(i := ys)"] heads_free [OF b] y fs by auto
  have "\<exists>h5. ps_push_front h4 (heads j) y = Inr h5 \<and> same_data (insert y (insert (heads j) (set (L j)))) h4 h5 \<and>
      buckets_ok sl_rep h5 heads (L(i := ys, j := y # L j)) 129"
    if "s_next h4 = s_next (span_zero h1 k)" "s_prev h4 = s_prev (span_zero h1 k)" for h4
  proof -
    have b4: "buckets_ok sl_rep h4 heads (L(i := ys)) 129"
      using b2 buckets_cong [OF that] by simp
    obtain h5 where "ps_push_front h4 (heads j) y = Inr h5"
        "same_data (insert y (insert (heads j) (set ((L(i := ys)) j)))) h4 h5"
        "buckets_ok sl_rep h5 heads ((L(i := ys))(j := y # (L(i := ys)) j)) 129"
      using psl.push_front_buckets [OF b4 i(2) y(2) n] by blast
    then show ?thesis
      using i(4) by auto
  qed
  then show thesis
    using that h1(1,2) by blast
qed

text \<open>The map after the pages of the front \<open>k\<close> are mapped and those of the rest of \<open>y\<close> unmapped but for its ends.\<close>

lemma cut_map_agree:
  assumes m: "map_ok h m F U N" and l: "layout_ok h (F \<union> U)" and y: "y \<in> F" "y \<notin> U"
    and c: "lo h' y = lo h y + n" "n + np h' y = np h y" "1 \<le> n" and p: "owns h' y p" "\<not> at_end h' y p"
  shows "pm_get m p = nullptr"
proof (rule free_inner_null [OF m l y])
  show "owns h y p" "\<not> at_end h y p"
    using c p by (auto simp: owns_def at_end_def)
qed

lemma GetNewSpan_split_ok:
  assumes inv: "pq_inv s L U {} N" and n: "1 \<le> n" "n < i" "i \<le> 128" "page_num = of_nat n"
    and L: "L i = ys @ [y]" and N: "N \<subseteq> {y}"
    and pool: "pp_rep p_SPAN_SIZE (pq_pool s) xs" "1 \<le> length xs"
  shows "pq_new_ok s L U n (GetNewSpan_split s i page_num)"
proof -
  let ?h = "pq_spans s"
  let ?F = "free_spans L"
  let ?H = "pq_heads s ` {..<129}"
  let ?n = "scast page_num :: u64"
  have b: "buckets_ok sl_rep ?h (pq_heads s) L 129" and lay: "layout_ok ?h (?F \<union> U)"
    and m: "map_ok ?h (pq_map s) ?F U N" and fl: "flags_ok ?h L U" and HU: "?H \<inter> U = {}"
    and F: "?F \<inter> U = {}" and pl: "pool_inv (pp_rep p_SPAN_SIZE) (pq_pool s) (?H \<union> ?F \<union> U)"
    using pq_invD [OF inv] by simp_all
  have i: "i < 129" and ij: "i - n < 129" "i - n \<noteq> i" and n128: "n \<le> 128"
    using n by auto
  note pn = int_pages(3) [OF n(4) n128]
  have yF: "y \<in> ?F" "y \<notin> U"
    using L i F free_spansI [of i y L] by auto
  have yn: "np ?h y = i"
    using fl L i by (auto simp: flags_ok_def)
  have yb: "lo ?h y + np ?h y \<le> 1125899906842624"
    using layout_bounds [OF lay] yF by auto
  obtain k p' where k: "\<And>h. p_new_span (s\<lparr>pq_spans := h\<rparr>) = Inr (k, p_Span (s\<lparr>pq_spans := h, pq_pool := p'\<rparr>) k)"
      "k \<noteq> nullptr" "k \<notin> ?H \<union> ?F \<union> U" "pool_inv (pp_rep p_SPAN_SIZE) p' (insert k (?H \<union> ?F \<union> U))"
      "pp_rep p_SPAN_SIZE p' (tl xs)" "k \<in> pq_slots (pq_pool s)" "pq_slots p' \<subseteq> pq_slots (pq_pool s)"
    using p_new_span_ok [OF pl pool] by metis
  have ky: "k \<noteq> y" "k \<notin> ?H \<union> ?F"
    using k(3) yF by auto
  obtain h1 where h1: "ps_pop_back ?h (pq_heads s i) = Inr (y, h1)"
      "same_data (insert (pq_heads s i) (set (L i))) ?h h1"
    and push: "\<And>h4. s_next h4 = s_next (span_zero h1 k) \<Longrightarrow> s_prev h4 = s_prev (span_zero h1 k) \<Longrightarrow>
      \<exists>h5. ps_push_front h4 (pq_heads s (i - n)) y = Inr h5 \<and>
        same_data (insert y (insert (pq_heads s (i - n)) (set (L (i - n))))) h4 h5 \<and>
        buckets_ok sl_rep h5 (pq_heads s) (L(i := ys, i - n := y # L (i - n))) 129"
    using pop_cut_buckets [OF b i ij(1) L ij(2) ky(2)] by blast
  let ?L = "L(i := ys, i - n := y # L (i - n))"
  note d1 = same_data_simps(1-8) [OF h1(2)]
  define h4 where "h4 = set_used (set_range (set_used (set_range (span_zero h1 k) k (s_page_id ?h y) ?n) k True) y
      (s_page_id ?h y + ?n) (s_npage ?h y - ?n)) y False"
  obtain h5 where h5: "ps_push_front h4 (pq_heads s (i - n)) y = Inr h5"
      "same_data (insert y (insert (pq_heads s (i - n)) (set (L (i - n))))) h4 h5"
      "buckets_ok sl_rep h5 (pq_heads s) ?L 129"
    using push [of h4] by (auto simp: h4_def)
  note d5 = same_data_simps(1-8) [OF h5(2), unfolded h4_def, simplified, unfolded d1]
  have un: "unat (s_npage ?h y - ?n) = i - n" "unat (s_page_id ?h y + ?n) = lo ?h y + n"
    using yn yb n pn by (simp_all add: np_def lo_def unat_simps)
  have h5r: "lo h5 k = lo ?h y" "np h5 k = n" "lo h5 y = lo ?h y + n" "np h5 y = i - n"
    "\<And>x. x \<noteq> y \<Longrightarrow> x \<noteq> k \<Longrightarrow> lo h5 x = lo ?h x \<and> np h5 x = np ?h x"
    using ky(1) un pn by (simp_all add: d5 lo_def)
  have lay5: "layout_ok h5 (insert k (?F \<union> U))"
    by (rule layout_cut [where h = ?h and y = y, OF lay _ _ h5r(5)]) (use yF k(3) h5r yn n in auto)
  have rk: "range_ok (s_page_id h5 k) (unat (s_npage h5 k))" "range_ok (s_page_id h5 y) (unat (s_npage h5 y))"
    using layout_range_ok [OF lay5] yF by blast+
  have y5: "0 < s_npage h5 y" "1 \<le> np h5 y" "lo h5 y + np h5 y \<le> 1125899906842624"
    using h5r(3,4) n yb yn by (simp_all add: np_def word_less_nat_alt)
  obtain m1 where m1: "MapSpanRange (pq_map s) (s_page_id h5 k) (s_npage h5 k) k = Inr m1"
      "\<And>p. rt_get m1 p = (if in_range (s_page_id h5 k) (unat (s_npage h5 k)) p then k else rt_get (pq_map s) p)"
    using MapSpanRange_ex [OF rk(1)] by blast
  obtain m2 where m2: "MapFreeSpan m1 (s_page_id h5 y) (s_npage h5 y) y = Inr m2"
      "\<And>p. rt_get m2 p = (if p = s_page_id h5 y \<or> p = s_page_id h5 y + s_npage h5 y - 1 then y
         else if in_range (s_page_id h5 y) (unat (s_npage h5 y)) p then nullptr else rt_get m1 p)"
    using MapFreeSpan_ex [OF rk(2) y5(1)] by blast
  have g: "pm_get m2 p = (if owns h5 k p then k else if at_end h5 y p then y else pm_get (pq_map s) p)" for p
  proof -
    have a: "\<not> owns h5 k p" if "owns h5 y p"
      using owns_unique [OF lay5 _ _ that] yF ky by blast
    have e: "owns h5 y p" if "at_end h5 y p"
      by (rule at_end_owns [OF y5(2) that])
    have z: "pm_get (pq_map s) p = nullptr" if "owns h5 y p" "\<not> at_end h5 y p"
      using h5r n yn by (intro cut_map_agree [OF m lay yF, where h' = h5 and n = n] that) simp_all
    show ?thesis
      using m2(2) [of p] m1(2) [of p] a e z at_end_iff [OF y5(2,3), of p]
      by (auto simp: rt_get_pm_get owns_in_range split: if_splits)
  qed
  let ?s' = "(p_Span (s\<lparr>pq_spans := h1, pq_pool := p'\<rparr>) k)\<lparr>pq_spans := h5, pq_map := m2\<rparr>"
  have "bucket (p_Span (s\<lparr>pq_spans := h1, pq_pool := p'\<rparr>) k) (s_npage ?h y - ?n) = Inr (pq_heads s (i - n))"
    using un ij by (simp add: bucket_ok)
  then have r: "GetNewSpan_split s i page_num = Inr (k, ?s')"
    using h1(1) k(1) h5(1) m1(1) m2(1) ky(1)
    by (simp add: GetNewSpan_split_def Let_def d1 h4_def)
  have yys: "y \<notin> set ys"
    using sl.buckets_distinct(1) [OF b i] L by auto
  have fs: "free_spans ?L = ?F"
  proof -
    have "free_spans ((L(i := ys))(i - n := y # (L(i := ys)) (i - n))) = insert y (free_spans (L(i := ys)))"
      by (rule free_spans_push [OF ij(1)])
    moreover have "free_spans (L(i := ys)) = ?F - {y}"
      using free_spans_remove [OF b i, of y] L yys by (simp add: remove1_append)
    ultimately show ?thesis
      using ij yF by auto
  qed
  have mk: "map_ok h5 m2 ?F (insert k U) {}"
    using h5r yn n
    by (intro map_ok_cut [OF m lay _ yF(1) N _ F h5r(5) _ _ _ g]) (use lay5 k(3) in auto)
  have used: "s_is_used h5 = (s_is_used ?h)(k := True, y := False)"
    by (simp add: d5 fun_eq_iff)
  have fl5: "np h5 z = l \<and> \<not> s_is_used h5 z" if z: "l < 129" "z \<in> set (?L l)" for l z
  proof (cases "z = y")
    case True
    have "y \<notin> set (L j)" if "j < 129" "j \<noteq> i" for j
      using b that L i unfolding buckets_ok_def by auto
    then have "l = i - n"
      using z True yys by (auto split: if_splits)
    then show ?thesis
      using True h5r(4) used by simp
  next
    case False
    then have zl: "z \<in> set (L l)"
      using z(2) L ij(2) by (auto split: if_splits)
    then have "z \<noteq> k"
      using ky(2) z(1) zl free_spansI [of l z L] by auto
    then show ?thesis
      using fl z(1) zl False h5r(5) used by (auto simp: flags_ok_def)
  qed
  have fu: "s_is_used h5 u" if "u \<in> insert k U" for u
    using fl that ky(1) yF(2) by (auto simp: flags_ok_def used)
  have "flags_ok h5 ?L (insert k U)"
    unfolding flags_ok_def using fl5 fu by blast
  moreover have "layout_ok h5 (?F \<union> insert k U)"
    using lay5 by simp
  moreover have "pool_inv (pp_rep p_SPAN_SIZE) p' (?H \<union> ?F \<union> insert k U)"
    using k(4) by (simp add: Un_assoc)
  ultimately have "pq_inv ?s' ?L (insert k U) {} {}"
    unfolding pq_inv_def fs using h5(3) k(3) F HU mk by (intro conjI) simp_all
  moreover have "lo h5 u = lo ?h u \<and> np h5 u = np ?h u" if "u \<in> U" for u
    using that F yF k(3) by (intro h5r(5)) auto
  moreover have "pq_frame (pq_foot s L) s ?s'"
  proof -
    have kf: "k \<in> pq_foot s L" "y \<in> pq_foot s L"
      using k(6) yF by (simp_all add: pq_foot_def)
    have "frame_out (pq_foot s L) ?h h1"
      using pq_foot_bucket [OF i, of s L] by (intro frame_out_mono [OF frame_out_same_data [OF h1(2)]])
    moreover have "frame_out (pq_foot s L) h1 h4"
      unfolding h4_def using kf
      by (meson frame_out_set_range frame_out_span_zero frame_out_set_used frame_out_trans)
    moreover have "frame_out (pq_foot s L) h4 h5"
      using pq_foot_bucket [OF ij(1), of s L] kf(2)
      by (intro frame_out_mono [OF frame_out_same_data [OF h5(2)]]) simp
    ultimately have "frame_out (pq_foot s L) ?h h5"
      by (meson frame_out_trans)
    then show ?thesis
      using kf(1) by (auto simp: pq_frame_def)
  qed
  moreover have "insert k (pq_foot ?s' ?L) \<subseteq> pq_foot s L"
    using k(6,7) by (auto simp: pq_foot_def fs simp del: fun_upd_apply)
  ultimately show ?thesis
    using r h5r(2) k(3) unfolding pq_new_ok_def
    by (intro exI [of _ k] exI [of _ ?s'] exI [of _ ?L] conjI) auto
qed

lemma GetNewSpan_refill_ok:
  assumes inv: "pq_inv s L U {} {}"
    and pool: "pp_rep p_SPAN_SIZE (pq_pool s) xs" "1 \<le> length xs"
    and mm: "pq_mmaps s = ptr # rest" "fresh_pages (pq_spans s) (free_spans L \<union> U) ptr 128"
  obtains f s' where "GetNewSpan_refill s = Inr s'" "pq_inv s' (L(128 := f # L 128)) U {} {f}"
    "pq_heads s' = pq_heads s" "pq_mmaps s' = rest" "pp_rep p_SPAN_SIZE (pq_pool s') (tl xs)"
    "\<And>u. u \<in> U \<Longrightarrow> lo (pq_spans s') u = lo (pq_spans s) u \<and> np (pq_spans s') u = np (pq_spans s) u"
    "pq_frame (pq_foot s L) s s'" "pq_foot s' (L(128 := f # L 128)) \<subseteq> pq_foot s L"
proof -
  let ?h = "pq_spans s"
  let ?F = "free_spans L"
  let ?H = "pq_heads s ` {..<129}"
  have b: "buckets_ok sl_rep ?h (pq_heads s) L 129" and lay: "layout_ok ?h (?F \<union> U)"
    and m: "map_ok ?h (pq_map s) ?F U {}" and fl: "flags_ok ?h L U" and HU: "?H \<inter> U = {}"
    and F: "?F \<inter> U = {}" and pl: "pool_inv (pp_rep p_SPAN_SIZE) (pq_pool s) (?H \<union> ?F \<union> U)"
    using pq_invD [OF inv] by simp_all
  obtain k p' where k: "\<And>h. p_new_span (s\<lparr>pq_spans := h\<rparr>) = Inr (k, p_Span (s\<lparr>pq_spans := h, pq_pool := p'\<rparr>) k)"
      "k \<noteq> nullptr" "k \<notin> ?H \<union> ?F \<union> U" "pool_inv (pp_rep p_SPAN_SIZE) p' (insert k (?H \<union> ?F \<union> U))"
      "pp_rep p_SPAN_SIZE p' (tl xs)" "k \<in> pq_slots (pq_pool s)" "pq_slots p' \<subseteq> pq_slots (pq_pool s)"
    using p_new_span_ok [OF pl pool] by metis
  define h3 where "h3 = set_used (set_range (span_zero ?h k) k (drop_bit 13 ptr) 128) k False"
  have b3: "buckets_ok sl_rep h3 (pq_heads s) L 129"
    using buckets_cong [of h3 "span_zero ?h k"] buckets_span_zero [OF b] k(3) by (simp add: h3_def)
  have kl: "k \<notin> insert (pq_heads s j) (set (L j))" if "j < 129" for j
    using k(3) that free_spansI [of j k L] by auto
  obtain h4 where h4: "ps_push_front h3 (pq_heads s 128) k = Inr h4"
      "same_data (insert k (insert (pq_heads s 128) (set (L 128)))) h3 h4"
      "buckets_ok sl_rep h4 (pq_heads s) (L(128 := k # L 128)) 129"
    using psl.push_front_buckets [where i = 128, OF b3 _ k(2) kl] by auto
  note d = same_data_simps(1-8) [OF h4(2), unfolded h3_def, simplified]
  let ?s1 = "p_Span (s\<lparr>pq_pool := p'\<rparr>) k"
  let ?s' = "?s1\<lparr>pq_mmaps := rest, pq_spans := h4\<rparr>"
  have n: "p_new_span s = Inr (k, ?s1)"
    using k(1) [of ?h] by simp
  have h3': "(set_used ((span_zero ?h k)\<lparr>s_npage := (s_npage (span_zero ?h k))(k := 128)\<rparr>) k False)\<lparr>s_page_id :=
      (s_page_id (span_zero ?h k))(k := drop_bit 13 ptr)\<rparr> = h3"
    by (simp add: h3_def set_used_def set_range_def)
  have "GetNewSpan_refill s = Inr ?s'"
    using n mm h4(1) h3'
    by (simp add: GetNewSpan_refill_def p_SystemAlloc_def fresh_pages_def Let_def p_NPAGE_LIST_def bucket_def set_used_def)
  moreover have o: "lo h4 x = lo ?h x \<and> np h4 x = np ?h x" if "x \<noteq> k" for x
    using that by (simp add: d)
  moreover have "pq_inv ?s' (L(128 := k # L 128)) U {} {k}"
  proof -
    have fs: "free_spans (L(128 := k # L 128)) = insert k ?F"
      by (rule free_spans_push) simp
    have lk: "lo h4 k = unat ptr div 8192" "np h4 k = 128"
      by (simp_all add: d unat_drop_bit_u64)
    have "layout_ok h4 (insert k (?F \<union> U))"
    proof (rule layout_insert [OF lay _ o])
      show "lo ?h x + np ?h x \<le> lo h4 k \<or> lo h4 k + np h4 k \<le> lo ?h x" if "x \<in> ?F \<union> U" for x
        using mm(2) that lk by (fastforce simp: fresh_pages_def)
    qed (use k(3) mm(2) lk in \<open>auto simp: fresh_pages_def\<close>)
    moreover have "map_ok h4 (pq_map s) (insert k ?F) U {k}"
    proof (rule map_ok_frame [OF m])
      show "lo h4 x = lo ?h x \<and> np h4 x = np ?h x" if "x \<in> ?F \<union> U" for x
        using that k(3) by (intro o) auto
    qed auto
    moreover have "np h4 z = l \<and> \<not> s_is_used h4 z" if "l < 129" "z \<in> set ((L(128 := k # L 128)) l)" for l z
    proof (cases "z = k")
      case True
      then have "l = 128"
        using that kl [of l] by (auto split: if_splits)
      then show ?thesis using lk True d by simp
    next
      case False
      then have "z \<in> set (L l)"
        using that by (auto split: if_splits)
      then show ?thesis using that fl False by (auto simp: flags_ok_def d)
    qed
    moreover have "s_is_used h4 u" if "u \<in> U" for u
      using that fl k(3) by (auto simp: flags_ok_def d)
    ultimately show ?thesis
      unfolding pq_inv_def fs flags_ok_def using h4(3) k F HU by (intro conjI) (simp_all add: Un_assoc)
  qed
  moreover have "pq_frame (pq_foot s L) s ?s'"
  proof -
    have kf: "k \<in> pq_foot s L"
      using k(6) by (simp add: pq_foot_def)
    have "frame_out (pq_foot s L) ?h h3"
      unfolding h3_def using kf by (meson frame_out_set_range frame_out_span_zero frame_out_set_used frame_out_trans)
    moreover have "frame_out (pq_foot s L) h3 h4"
      using pq_foot_bucket [of 128 s L] kf by (intro frame_out_mono [OF frame_out_same_data [OF h4(2)]]) simp
    ultimately have "frame_out (pq_foot s L) ?h h4"
      by (meson frame_out_trans)
    then show ?thesis
      using kf by (auto simp: pq_frame_def)
  qed
  moreover have "pq_foot ?s' (L(128 := k # L 128)) \<subseteq> pq_foot s L"
    using k(6,7) free_spans_push [where i = 128 and x = k and L = L] by (auto simp: pq_foot_def)
  moreover have "lo h4 u = lo ?h u \<and> np h4 u = np ?h u" if "u \<in> U" for u
    using that k(3) by (intro o) auto
  ultimately show thesis
    using that [of ?s' k] k(5) by simp
qed

lemma p_find_bucket_cases:
  "case p_find_bucket s i of
     None \<Rightarrow> \<forall>l. i \<le> l \<and> l < 129 \<longrightarrow> ps_empty (pq_spans s) (pq_heads s l)
   | Some j \<Rightarrow> i \<le> j \<and> j < 129 \<and> \<not> ps_empty (pq_spans s) (pq_heads s j)"
proof (induction s i rule: p_find_bucket.induct)
  case (1 s i)
  show ?case
  proof (cases "i < 129 \<and> ps_empty (pq_spans s) (pq_heads s i)")
    case True
    then have e: "p_find_bucket s i = p_find_bucket s (Suc i)"
      using p_find_bucket.simps [of s i] by simp
    show ?thesis
    proof (cases "p_find_bucket s (Suc i)")
      case None
      then have "\<forall>l. Suc i \<le> l \<and> l < 129 \<longrightarrow> ps_empty (pq_spans s) (pq_heads s l)"
        using 1 True by simp
      then show ?thesis
        using e None True by simp (metis Suc_leI le_neq_implies_less)
    next
      case (Some j)
      then show ?thesis
        using 1 True e by simp
    qed
  next
    case False
    then show ?thesis
      using p_find_bucket.simps [of s i] by auto
  qed
qed

lemma GetNewSpan_nonempty:
  assumes inv: "pq_inv s L U {} N" and n: "1 \<le> n" "n \<le> 128" "page_num = of_nat n"
    and pool: "pp_rep p_SPAN_SIZE (pq_pool s) xs" "1 \<le> length xs"
    and j: "n \<le> j" "j < 129" "L j \<noteq> []"
    and N: "\<And>i. n \<le> i \<Longrightarrow> i < 129 \<Longrightarrow> L i \<noteq> [] \<Longrightarrow> N \<subseteq> {last (L i)}"
  shows "pq_new_ok s L U n (GetNewSpan_rec (Suc fuel) s page_num)"
proof -
  note b = pq_invD(1) [OF inv]
  have e: "ps_empty (pq_spans s) (pq_heads s i) \<longleftrightarrow> L i = []" if "i < 129" for i
    using ps_empty_buckets [OF b that] .
  have small: "sint page_num < sint p_NPAGE_LIST" "\<not> sint page_num < 0" "nat (sint page_num) = n"
    using n int_pages(1) [OF n(3,2)] by (simp_all add: p_NPAGE_LIST_def)
  show ?thesis
  proof (cases "L n = []")
    case False
    then have c: "L n = butlast (L n) @ [last (L n)]"
      by simp
    have "N \<subseteq> {last (L n)}"
      using N [of n] n False by simp
    then show ?thesis
      using GetNewSpan_pop_ok [OF inv n(2,3) c] n small False e [of n] by simp
  next
    case True
    have "p_find_bucket s (Suc n) \<noteq> None"
    proof
      assume "p_find_bucket s (Suc n) = None"
      then have "Suc n \<le> l \<Longrightarrow> l < 129 \<Longrightarrow> L l = []" for l
        using p_find_bucket_cases [of "Suc n" s] e by simp
      then show False
        using j True by (cases "n = j") auto
    qed
    then obtain i where i: "p_find_bucket s (Suc n) = Some i" by auto
    then have i': "n < i" "i \<le> 128" "L i \<noteq> []"
      using p_find_bucket_cases [of "Suc n" s] e [of i] by auto
    then have c: "L i = butlast (L i) @ [last (L i)]"
      by simp
    have "N \<subseteq> {last (L i)}"
      using N [of i] i' by simp
    then show ?thesis
      using GetNewSpan_split_ok [OF inv n(1) i'(1,2) n(3) c _ pool] i n small True e [of n] by simp
  qed
qed

lemma GetNewSpan_ok:
  assumes inv: "pq_inv s L U {} {}" and n: "1 \<le> n" "n \<le> 128" "page_num = of_nat n"
    and pool: "pp_rep p_SPAN_SIZE (pq_pool s) xs" "2 \<le> length xs"
    and mm: "(\<forall>l. n \<le> l \<and> l < 129 \<longrightarrow> L l = []) \<Longrightarrow>
      pq_mmaps s = ptr # rest \<and> fresh_pages (pq_spans s) (free_spans L \<union> U) ptr 128"
  shows "pq_new_ok s L U n (GetNewSpan s page_num)"
proof (cases "\<exists>l. n \<le> l \<and> l < 129 \<and> L l \<noteq> []")
  case True
  then obtain j where "n \<le> j" "j < 129" "L j \<noteq> []" by blast
  then show ?thesis
    unfolding GetNewSpan_def walk_fuel_Suc
    using pool(2) by (intro GetNewSpan_nonempty [OF inv n pool(1)]) auto
next
  case False
  then have mm': "pq_mmaps s = ptr # rest" "fresh_pages (pq_spans s) (free_spans L \<union> U) ptr 128"
    using mm by auto
  have "1 \<le> length xs"
    using pool(2) by simp
  from GetNewSpan_refill_ok [OF inv pool(1) this mm']
  obtain f s' where f: "GetNewSpan_refill s = Inr s'" "pq_inv s' (L(128 := f # L 128)) U {} {f}"
      "pq_heads s' = pq_heads s" "pp_rep p_SPAN_SIZE (pq_pool s') (tl xs)"
      "\<And>u. u \<in> U \<Longrightarrow> lo (pq_spans s') u = lo (pq_spans s) u \<and> np (pq_spans s') u = np (pq_spans s) u"
      "pq_frame (pq_foot s L) s s'" "pq_foot s' (L(128 := f # L 128)) \<subseteq> pq_foot s L"
    by metis
  note b = pq_invD(1) [OF inv]
  have emp: "ps_empty (pq_spans s) (pq_heads s l)" if "n \<le> l" "l < 129" for l
    using False that ps_empty_buckets [OF b, of l] by auto
  have "p_find_bucket s (Suc n) = None"
    using p_find_bucket_cases [of "Suc n" s] emp by (auto split: option.splits)
  moreover have "sint page_num < sint p_NPAGE_LIST" "\<not> sint page_num < 0" "nat (sint page_num) = n"
    using n int_pages(1) [OF n(3,2)] by (simp_all add: p_NPAGE_LIST_def)
  moreover have ok: "pq_new_ok s' (L(128 := f # L 128)) U n (GetNewSpan_rec (Suc 18446744073709551614) s' page_num)"
  proof (rule GetNewSpan_nonempty [OF f(2) n f(4)])
    show "{f} \<subseteq> {last ((L(128 := f # L 128)) i)}"
      if "n \<le> i" "i < 129" "(L(128 := f # L 128)) i \<noteq> []" for i
      using False that by (cases "i = 128") auto
  qed (use n pool(2) in auto)
  ultimately have "GetNewSpan s page_num = GetNewSpan_rec (Suc 18446744073709551614) s' page_num"
    using f(1) n emp [of n] unfolding GetNewSpan_def walk_fuel_Suc GetNewSpan_rec.simps(2) [where fuel = 18446744073709551615] by simp
  then obtain x s2 L2 where x: "GetNewSpan s page_num = Inr (x, s2)" "x \<notin> U" "np (pq_spans s2) x = n"
      "pq_inv s2 L2 (insert x U) {} {}" "pq_heads s2 = pq_heads s'"
      "\<forall>u \<in> U. lo (pq_spans s2) u = lo (pq_spans s') u \<and> np (pq_spans s2) u = np (pq_spans s') u"
      "pq_frame (pq_foot s' (L(128 := f # L 128))) s' s2"
      "insert x (pq_foot s2 L2) \<subseteq> pq_foot s' (L(128 := f # L 128))"
    using ok unfolding pq_new_ok_def by auto
  have "pq_frame (pq_foot s L) s s2"
    using f(6) pq_frame_mono [OF x(7) f(7)] by (rule pq_frame_trans)
  moreover have "insert x (pq_foot s2 L2) \<subseteq> pq_foot s L"
    using x(8) f(7) by (rule subset_trans)
  ultimately show ?thesis
    unfolding pq_new_ok_def using x(1-6) f(3,5)
    by (intro exI [of _ x] exI [of _ s2] exI [of _ L2] conjI) auto
qed

section \<open>The page cache as it starts\<close>

definition pq_new :: "(nat \<Rightarrow> addr) \<Rightarrow> addr list \<Rightarrow> addr list \<Rightarrow> pqcache" where
  "pq_new heads blocks mmaps = \<lparr>pq_heads = heads,
     pq_spans = \<lparr>s_page_id = (\<lambda>_. 0), s_npage = (\<lambda>_. 0), s_free_lists = (\<lambda>_. nullptr),
       s_prev = id, s_next = id, s_use_count = (\<lambda>_. 0), s_obj_size = (\<lambda>_. 0), s_is_used = (\<lambda>_. False)\<rparr>,
     pq_use = (\<lambda>_. 0), pq_obj = (\<lambda>_. 0), pq_pool = pp_new blocks, pq_map = pm_new, pq_mmaps = mmaps\<rparr>"

lemma pp_new_rep:
  assumes "nullptr \<notin> set blocks"
  shows "pp_rep p_SPAN_SIZE (pp_new blocks) (concat (map (\<lambda>b. slots b 56 146) blocks))"
proof -
  have "pp_carve p_SPAN_SIZE (pp_new blocks) (concat (map (\<lambda>b. slots b 56 146) blocks))"
    using assms by (auto simp: pp_carve_def pp_new_def p_SPAN_SIZE_def intro!: exI [of _ 0])
  then show ?thesis
    by (simp add: pp_rep_def pp_new_def)
qed

lemma pq_new_inv:
  assumes b: "blocks_ok 8192 blocks" and i: "inj_on heads {..<129}"
    and h: "\<And>i m. i < 129 \<Longrightarrow> m \<in> set blocks \<Longrightarrow> unat (heads i) + 1 \<le> unat m" "\<And>i. i < 129 \<Longrightarrow> heads i \<noteq> nullptr"
  shows "pq_inv (pq_new heads blocks mmaps) (\<lambda>_. []) {} {} {}"
proof -
  have fs: "free_spans (\<lambda>_. []) = {}"
    by (simp add: free_spans_def)
  let ?xs = "concat (map (\<lambda>b. slots b 56 146) blocks)"
  have "nullptr \<notin> set blocks"
    using b by (auto simp: blocks_ok_def)
  note r = pp_new_rep [OF this]
  have d: "distinct ?xs" "nullptr \<notin> set ?xs"
    using distinct_block_slots [OF b, of 146 56] by simp_all
  have "heads i \<notin> set ?xs" if i: "i < 129" for i
  proof
    assume "heads i \<in> set ?xs"
    then obtain m where m: "m \<in> set blocks" "heads i \<in> set (slots m 56 146)"
      by auto
    then have "unat m + 146 * unat (56 :: u64) < 18446744073709551616"
      using b by (auto simp: blocks_ok_def)
    then have "unat m \<le> unat (heads i)"
      using slots_in_block(1) [OF _ m(2)] by simp
    then show False
      using h(1) [OF i m(1)] by simp
  qed
  then have "pool_inv (pp_rep p_SPAN_SIZE) (pp_new blocks) (heads ` {..<129})"
    unfolding pool_inv_def using r d h(2) by (intro exI [of _ ?xs] conjI) fastforce+
  moreover have "buckets_ok sl_rep (pq_spans (pq_new heads blocks mmaps)) heads (\<lambda>_. []) 129"
    using h(2) i by (auto simp: buckets_ok_def sl_rep_def ring_def pq_new_def inj_on_def)
  ultimately show ?thesis
    by (simp add: pq_inv_def fs flags_ok_def layout_ok_def map_ok_def pq_new_def)
qed

definition pq_demo :: pqcache where
  "pq_demo = pq_new (\<lambda>i. of_nat (64 * (i + 1))) [1048576] [4294967296]"

lemma pq_demo_facts:
  "pq_inv pq_demo (\<lambda>_. []) {} {} {}"
  "pq_mmaps pq_demo = [4294967296]" "fresh_pages (pq_spans pq_demo) {} 4294967296 128"
  "pp_rep p_SPAN_SIZE (pq_pool pq_demo) (slots 1048576 56 146)"
proof -
  have u: "unat (of_nat (64 * (i + 1)) :: u64) = 64 * (i + 1)" if "i < 129" for i
    using that by (intro unat_of_nat_small) simp
  show "pq_inv pq_demo (\<lambda>_. []) {} {} {}"
    unfolding pq_demo_def
  proof (rule pq_new_inv)
    show "blocks_ok 8192 [1048576]"
      by (simp add: blocks_ok_def)
    show "inj_on (\<lambda>i. of_nat (64 * (i + 1)) :: u64) {..<129}"
    proof (rule inj_onI)
      fix i j :: nat
      assume a: "i \<in> {..<129}" "j \<in> {..<129}" "(of_nat (64 * (i + 1)) :: u64) = of_nat (64 * (j + 1))"
      then show "i = j"
        using u [of i] u [of j] by simp
    qed
    show "unat (of_nat (64 * (i + 1)) :: u64) + 1 \<le> unat m" if "i < 129" "m \<in> set [1048576]" for i and m :: u64
      using u [OF that(1)] that by simp
    show "(of_nat (64 * (i + 1)) :: u64) \<noteq> nullptr" if "i < 129" for i
      using u [OF that] by (metis add_gr_0 mult_pos_pos less_numeral_extra(1) unat_0 zero_less_numeral less_irrefl)
  qed
  show "pp_rep p_SPAN_SIZE (pq_pool pq_demo) (slots 1048576 56 146)"
    using pp_new_rep [of "[1048576]"] by (simp add: pq_demo_def pq_new_def)
qed (auto simp: pq_demo_def pq_new_def fresh_pages_def MAP_FAILED_def)

section \<open>Property\<close>

text \<open>C27: \<open>GetNewSpan\<close> for 1 to 128 pages returns a span of exactly that many pages that was not in use: its
  pages overlap no other span's and are all mapped to it, the free lists are intact rings of unused spans filed
  under their sizes whose ends and nothing else are mapped, and the spans in use kept their pages.\<close>

theorem GetNewSpan_correct:
  assumes "pq_inv s L U {} {}" "1 \<le> n" "n \<le> 128" "page_num = of_nat n"
    and "pp_rep p_SPAN_SIZE (pq_pool s) xs" "2 \<le> length xs"
    and "(\<forall>l. n \<le> l \<and> l < 129 \<longrightarrow> L l = []) \<Longrightarrow>
      pq_mmaps s = ptr # rest \<and> fresh_pages (pq_spans s) (free_spans L \<union> U) ptr 128"
  shows "pq_new_ok s L U n (GetNewSpan s page_num)"
  using assms by (rule GetNewSpan_ok)

lemma GetNewSpan_correct_witness:
  "pq_new_ok pq_demo (\<lambda>_. []) {} 3 (GetNewSpan pq_demo 3)"
  by (rule GetNewSpan_correct [where ptr = 4294967296 and rest = "[]", OF pq_demo_facts(1) _ _ _ pq_demo_facts(4)])
    (simp_all add: pq_demo_facts(2,3) free_spans_def)

end
