(* ===== verification/Pool_Page_Release.thy ===== *)
theory Pool_Page_Release
  imports Pool_Page_Inv
begin

text \<open>
  \<open>PageCache::ReleaseSpanToPageCache\<close> of the second allocator. The returned span stays mapped and marked as
  used until its first merge or the end, so during the loops the map may still lead from the pages of the span to
  it; apart from such entries the map is one that the invariant allows.
\<close>

section \<open>The state inside the loops\<close>

definition pq_rel :: "pqcache \<Rightarrow> (nat \<Rightarrow> addr list) \<Rightarrow> addr set \<Rightarrow> addr \<Rightarrow> bool" where
  "pq_rel s L U x \<longleftrightarrow> (\<exists>m. pq_inv (s\<lparr>pq_map := m\<rparr>) L U {x} {} \<and>
     (\<forall>p. pm_get (pq_map s) p = pm_get m p \<or> (pm_get (pq_map s) p = x \<and> owns (pq_spans s) x p)))"

lemma pq_relI: "pq_inv s L U {x} {} \<Longrightarrow> pq_rel s L U x"
  unfolding pq_rel_def by (intro exI [of _ "pq_map s"]) simp

lemma pq_relE:
  assumes "pq_rel s L U x"
  obtains m where "pq_inv (s\<lparr>pq_map := m\<rparr>) L U {x} {}" "map_ok (pq_spans s) m (free_spans L) U {}"
    "\<And>p. \<not> owns (pq_spans s) x p \<Longrightarrow> pm_get (pq_map s) p = pm_get m p"
    "\<And>p. owns (pq_spans s) x p \<Longrightarrow> pm_get m p = nullptr"
proof -
  obtain m where inv: "pq_inv (s\<lparr>pq_map := m\<rparr>) L U {x} {}"
    and m: "\<And>p. pm_get (pq_map s) p = pm_get m p \<or> (pm_get (pq_map s) p = x \<and> owns (pq_spans s) x p)"
    using assms by (auto simp: pq_rel_def)
  note d = pq_invD [OF inv, simplified]
  have lay: "layout_ok (pq_spans s) (free_spans L \<union> U \<union> {x})" and mk: "map_ok (pq_spans s) m (free_spans L) U {}"
    using d by simp_all
  have n: "pm_get m p = nullptr" if "owns (pq_spans s) x p" for p
  proof (rule ccontr)
    assume "pm_get m p \<noteq> nullptr"
    then have "(pm_get m p \<in> U \<and> owns (pq_spans s) (pm_get m p) p) \<or>
        (pm_get m p \<in> free_spans L \<and> at_end (pq_spans s) (pm_get m p) p)"
      using mk unfolding map_ok_def by blast
    then have z: "pm_get m p \<in> free_spans L \<union> U" "owns (pq_spans s) (pm_get m p) p"
      using at_end_owns layout_bounds(1) [OF lay] by blast+
    then have "pm_get m p = x"
      using owns_unique [OF lay _ _ z(2) that] by blast
    then show False
      using z(1) d(4,5) by auto
  qed
  show thesis
    using that [OF inv mk _ n] m by blast
qed

lemma pq_relD:
  assumes "pq_rel s L U x"
  shows "buckets_ok sl_rep (pq_spans s) (pq_heads s) L 129"
    "pool_inv (pp_rep p_SPAN_SIZE) (pq_pool s) (pq_heads s ` {..<129} \<union> free_spans L \<union> U \<union> {x})"
    "pq_heads s ` {..<129} \<inter> (U \<union> {x}) = {}" "free_spans L \<inter> (U \<union> {x}) = {}" "x \<notin> U"
    "flags_ok (pq_spans s) L U" "layout_ok (pq_spans s) (free_spans L \<union> U \<union> {x})"
proof -
  obtain m where "pq_inv (s\<lparr>pq_map := m\<rparr>) L U {x} {}"
    using assms by (auto simp: pq_rel_def)
  then show "buckets_ok sl_rep (pq_spans s) (pq_heads s) L 129"
    "pool_inv (pp_rep p_SPAN_SIZE) (pq_pool s) (pq_heads s ` {..<129} \<union> free_spans L \<union> U \<union> {x})"
    "pq_heads s ` {..<129} \<inter> (U \<union> {x}) = {}" "free_spans L \<inter> (U \<union> {x}) = {}" "x \<notin> U"
    "flags_ok (pq_spans s) L U" "layout_ok (pq_spans s) (free_spans L \<union> U \<union> {x})"
    by (simp_all add: pq_inv_def)
qed

lemma pq_rel_start:
  assumes inv: "pq_inv s L U {} {}" and x: "x \<in> U"
  shows "pq_rel s L (U - {x}) x"
proof -
  let ?h = "pq_spans s"
  let ?F = "free_spans L"
  have lay: "layout_ok ?h (?F \<union> U)" and m: "map_ok ?h (pq_map s) ?F U {}" and fl: "flags_ok ?h L U"
    and F: "?F \<inter> U = {}"
    using pq_invD [OF inv] by simp_all
  have ro: "range_ok (s_page_id ?h x) (unat (s_npage ?h x))"
    using layout_range_ok [OF lay] x by simp
  define m' where "m' = iter_erase pm_erase (pq_map s) (s_page_id ?h x) (unat (s_npage ?h x))"
  have g: "pm_get m' p = (if owns ?h x p then nullptr else pm_get (pq_map s) p)" for p
    using pm.get_iter_erase [OF ro] by (simp add: m'_def owns_in_range)
  note mk = map_ok_unmap [OF m lay F x g]
  have own: "pm_get (pq_map s) p = x" if "owns ?h x p" for p
    using m x that unfolding map_ok_def by blast
  have "flags_ok ?h L (U - {x})"
    using fl by (simp add: flags_ok_def)
  moreover have "?F \<union> (U - {x}) \<union> {x} = ?F \<union> U" "U - {x} \<union> {x} = U"
    and "pq_heads s ` {..<129} \<union> ?F \<union> (U - {x}) \<union> {x} = pq_heads s ` {..<129} \<union> ?F \<union> U"
    using x by auto
  ultimately have "pq_inv (s\<lparr>pq_map := m'\<rparr>) L (U - {x}) {x} {}"
    using inv mk by (simp add: pq_inv_def del: Un_insert_right Un_insert_left)
  moreover have "pm_get (pq_map s) p = pm_get m' p \<or> (pm_get (pq_map s) p = x \<and> owns ?h x p)" for p
    using g [of p] own [of p] by auto
  ultimately show ?thesis
    unfolding pq_rel_def by blast
qed

section \<open>A merge\<close>

definition pq_merged :: "pqcache \<Rightarrow> (nat \<Rightarrow> addr list) \<Rightarrow> addr set \<Rightarrow> addr \<Rightarrow> pqcache \<Rightarrow> (nat \<Rightarrow> addr list) \<Rightarrow> bool" where
  "pq_merged s L U x s' L' \<longleftrightarrow>
     pq_rel s' L' U x \<and> pq_heads s' = pq_heads s \<and> pq_mmaps s' = pq_mmaps s \<and>
     free_spans L' \<subseteq> free_spans L \<and> np (pq_spans s) x \<le> np (pq_spans s') x \<and> np (pq_spans s') x \<le> 128 \<and>
     lo (pq_spans s') x \<le> lo (pq_spans s) x \<and>
     lo (pq_spans s) x + np (pq_spans s) x \<le> lo (pq_spans s') x + np (pq_spans s') x \<and>
     (\<forall>u. u \<noteq> x \<longrightarrow> lo (pq_spans s') u = lo (pq_spans s) u \<and> np (pq_spans s') u = np (pq_spans s) u) \<and>
     pages (pq_spans s') (free_spans L' \<union> U \<union> {x}) = pages (pq_spans s) (free_spans L \<union> U \<union> {x}) \<and>
     pq_frame (insert x (pq_foot s L)) s s' \<and> pq_foot s' L' \<subseteq> pq_foot s L"

lemma pq_merged_refl: "pq_rel s L U x \<Longrightarrow> np (pq_spans s) x \<le> 128 \<Longrightarrow> pq_merged s L U x s L"
  by (simp add: pq_merged_def)

lemma pq_merged_trans:
  assumes "pq_merged s L U x s1 L1" "pq_merged s1 L1 U x s2 L2"
  shows "pq_merged s L U x s2 L2"
proof -
  have ft: "insert x (pq_foot s1 L1) \<subseteq> insert x (pq_foot s L)"
    using assms(1) unfolding pq_merged_def by (intro insert_mono) simp
  have f: "pq_frame (insert x (pq_foot s1 L1)) s1 s2" "pq_frame (insert x (pq_foot s L)) s s1"
    using assms by (simp_all add: pq_merged_def)
  have "pq_frame (insert x (pq_foot s L)) s s2"
    by (rule pq_frame_trans [OF f(2) pq_frame_mono [OF f(1) ft]])
  moreover have "free_spans L2 \<subseteq> free_spans L" "pq_foot s2 L2 \<subseteq> pq_foot s L"
    using assms unfolding pq_merged_def by (meson subset_trans)+
  ultimately show ?thesis
    using assms unfolding pq_merged_def by (intro conjI) (simp_all del: Un_insert_right Un_insert_left)
qed

lemma p_merge_tail:
  assumes rel: "pq_rel s L U x" and y: "y \<in> free_spans L"
    and b: "unat b = np (pq_spans s) x + np (pq_spans s) y" "unat b \<le> 128"
    and c: "(unat a = lo (pq_spans s) y \<and> lo (pq_spans s) y + np (pq_spans s) y = lo (pq_spans s) x) \<or>
      (unat a = lo (pq_spans s) x \<and> lo (pq_spans s) x + np (pq_spans s) x = lo (pq_spans s) y)"
  obtains h2 L' m1 m2 p' where
    "x \<noteq> y" "bucket s (s_npage (pq_spans s) y) = Inr (pq_heads s (np (pq_spans s) y))"
    "ps_erase (set_range (pq_spans s) x a b) (pq_heads s (np (pq_spans s) y)) y = Inr h2"
    "same_data (insert (pq_heads s (np (pq_spans s) y)) (set (L (np (pq_spans s) y)))) (set_range (pq_spans s) x a b) h2"
    "MapSpanRange (pq_map s) (s_page_id (pq_spans s) y) (s_npage (pq_spans s) y) nullptr = Inr m1"
    "MapSpanRange m1 (s_page_id (pq_spans s) x) (s_npage (pq_spans s) x) nullptr = Inr m2"
    "pp_Delete (pq_pool s) y = Inr p'"
    "pq_merged s L U x (s\<lparr>pq_spans := h2, pq_map := m2, pq_pool := p'\<rparr>) L'"
proof -
  let ?h = "pq_spans s"
  let ?F = "free_spans L"
  let ?H = "pq_heads s ` {..<129}"
  let ?i = "np ?h y"
  let ?L = "L(?i := remove1 y (L ?i))"
  let ?h1 = "set_range ?h x a b"
  note d0 = pq_relD [OF rel]
  obtain m0 where m0: "map_ok ?h m0 ?F U {}" "\<And>p. \<not> owns ?h x p \<Longrightarrow> pm_get (pq_map s) p = pm_get m0 p"
      "\<And>p. owns ?h x p \<Longrightarrow> pm_get m0 p = nullptr"
    using pq_relE [OF rel] by blast
  have bk: "buckets_ok sl_rep ?h (pq_heads s) L 129" and lay: "layout_ok ?h (?F \<union> U \<union> {x})"
    and fl: "flags_ok ?h L U" and H: "?H \<inter> (U \<union> {x}) = {}"
    and F: "?F \<inter> (U \<union> {x}) = {}" and xU: "x \<notin> U"
    and pl: "pool_inv (pp_rep p_SPAN_SIZE) (pq_pool s) (?H \<union> ?F \<union> U \<union> {x})"
    using d0 by blast+
  have xy: "x \<noteq> y" "y \<notin> U" "y \<notin> ?H"
    using y F heads_free [OF bk] by auto
  obtain j where j: "j < 129" "y \<in> set (L j)"
    using y by (auto simp: free_spans_def)
  then have i: "?i < 129" "y \<in> set (L ?i)"
    using fl by (auto simp: flags_ok_def)
  have b1: "buckets_ok sl_rep ?h1 (pq_heads s) L 129"
    using bk buckets_cong [of ?h1 ?h] by simp
  obtain h2 where h2: "ps_erase ?h1 (pq_heads s ?i) y = Inr h2"
      "same_data (insert (pq_heads s ?i) (set (L ?i))) ?h1 h2"
      "buckets_ok sl_rep h2 (pq_heads s) ?L 129"
    using psl.erase_buckets [OF b1 i] by blast
  note d = same_data_simps(1-8) [OF h2(2), simplified]
  have fs: "free_spans ?L = ?F - {y}"
    by (rule free_spans_remove [OF bk i])
  have o: "lo h2 z = lo ?h z \<and> np h2 z = np ?h z" if "z \<noteq> x" for z
    using that by (simp add: d)
  have x2: "lo h2 x = unat a" "np h2 x = np ?h x + np ?h y"
    using b by (simp_all add: d)
  have A: "?F \<union> U \<union> {x} - {y} = ?F - {y} \<union> U \<union> {x}"
    using xy by auto
  have xA: "x \<in> ?F \<union> U \<union> {x}" and yA: "y \<in> ?F \<union> U \<union> {x}"
    using y by auto
  have lj: "layout_ok h2 (?F \<union> U \<union> {x} - {y})" "pages h2 (?F \<union> U \<union> {x} - {y}) = pages ?h (?F \<union> U \<union> {x})"
    using layout_join [OF lay xA yA xy(1) o x2(2)] c x2(1) by metis+
  have yb: "1 \<le> np ?h y" "lo ?h y + np ?h y \<le> 1125899906842624"
    using layout_bounds [OF lay yA] by auto
  have lFU: "layout_ok ?h (?F \<union> U)"
    using layout_mono [OF lay] by blast
  obtain m1 where m1: "MapSpanRange (pq_map s) (s_page_id ?h y) (s_npage ?h y) nullptr = Inr m1"
      "\<And>p. rt_get m1 p = (if owns ?h y p then nullptr else pm_get (pq_map s) p)"
    using MapSpanRange_ex [where span = nullptr and tree = "pq_map s"] layout_range_ok [OF lay yA]
    unfolding owns_in_range rt_get_pm_get by blast
  obtain m2 where m2: "MapSpanRange m1 (s_page_id ?h x) (s_npage ?h x) nullptr = Inr m2"
      "\<And>p. rt_get m2 p = (if owns ?h x p then nullptr else pm_get m1 p)"
    using MapSpanRange_ex [where span = nullptr and tree = m1] layout_range_ok [OF lay xA]
    unfolding owns_in_range rt_get_pm_get by blast
  obtain p' where p': "pp_Delete (pq_pool s) y = Inr p'" "pool_inv (pp_rep p_SPAN_SIZE) p' (?H \<union> ?F \<union> U \<union> {x} - {y})"
      "pq_slots p' = insert y (pq_slots (pq_pool s))"
    using pq_slots_delete [OF pl] y by blast
  have g: "pm_get m2 p = (if at_end ?h y p then nullptr else pm_get m0 p)" for p
  proof -
    have "pm_get m0 p = nullptr" if "owns ?h y p" "\<not> at_end ?h y p"
      using free_inner_null [OF m0(1) lFU y xy(2) that] .
    then show ?thesis
      using m2(2) [of p] m1(2) [of p] m0(2,3) [of p] at_end_owns [OF yb(1), of p] by (auto simp: rt_get_pm_get)
  qed
  have "map_ok h2 m2 (?F - {y}) U {}"
  proof (rule map_ok_drop [OF m0(1) lFU y _ g])
    show "lo h2 z = lo ?h z \<and> np h2 z = np ?h z" if "z \<in> ?F \<union> U" for z
      using that F xU by (intro o) auto
  qed (use F in auto)
  moreover have "np h2 z = l \<and> \<not> s_is_used h2 z" if "l < 129" "z \<in> set (?L l)" for l z
  proof -
    have zl: "z \<in> set (L l)"
      using that(2) set_remove1_subset [of y "L l"] by (auto split: if_splits)
    then have "z \<noteq> x"
      using that(1) F free_spansI by blast
    then show ?thesis
      using fl zl that(1) o by (auto simp: flags_ok_def d)
  qed
  moreover have "s_is_used h2 u" if "u \<in> U" for u
    using fl that by (simp add: flags_ok_def d)
  moreover have "?H \<union> ?F \<union> U \<union> {x} - {y} = ?H \<union> (?F - {y}) \<union> U \<union> {x}"
    using xy by auto
  ultimately have "pq_inv (s\<lparr>pq_spans := h2, pq_map := m2, pq_pool := p'\<rparr>) ?L U {x} {}"
    unfolding pq_inv_def fs flags_ok_def using h2(3) lj(1) A F H xU p'(2) by (intro conjI) auto
  then have "pq_rel (s\<lparr>pq_spans := h2, pq_map := m2, pq_pool := p'\<rparr>) ?L U x"
    by (rule pq_relI)
  moreover have pg: "pages (pq_spans (s\<lparr>pq_spans := h2, pq_map := m2, pq_pool := p'\<rparr>)) (?F - {y} \<union> U \<union> {x}) =
      pages ?h (?F \<union> U \<union> {x})"
    using lj(2) unfolding A by simp
  moreover have "pq_frame (insert x (pq_foot s L)) s (s\<lparr>pq_spans := h2, pq_map := m2, pq_pool := p'\<rparr>)"
  proof -
    have "frame_out (insert x (pq_foot s L)) ?h1 h2"
      using pq_foot_bucket [OF i(1), of s L] by (intro frame_out_mono [OF frame_out_same_data [OF h2(2)]]) auto
    then have "frame_out (insert x (pq_foot s L)) ?h h2"
      by (rule frame_out_trans [rotated]) simp
    then show ?thesis
      by (simp add: pq_frame_def)
  qed
  moreover have "pq_foot (s\<lparr>pq_spans := h2, pq_map := m2, pq_pool := p'\<rparr>) ?L \<subseteq> pq_foot s L"
    using p'(3) y by (auto simp: pq_foot_def fs simp del: fun_upd_apply)
  ultimately have "pq_merged s L U x (s\<lparr>pq_spans := h2, pq_map := m2, pq_pool := p'\<rparr>) ?L"
    unfolding pq_merged_def fs using x2 c b o
    by (intro conjI; (rule pg | (auto simp: d; fail)))
  moreover have "bucket s (s_npage ?h y) = Inr (pq_heads s (np ?h y))"
    using bucket_ok i(1) by (simp add: np_def)
  ultimately show thesis
    using that [of h2 m1 m2 p' ?L] h2(1,2) xy(1) m1(1) m2(1) p'(1) by blast
qed

text \<open>What the lookup of a neighbour returns: the page next to \<open>x\<close> is not one of its own.\<close>

lemma p_neighbour:
  assumes rel: "pq_rel s L U x" and p: "\<not> owns (pq_spans s) x p"
  shows "pm_get (pq_map s) p \<noteq> nullptr \<Longrightarrow> \<not> s_is_used (pq_spans s) (pm_get (pq_map s) p) \<Longrightarrow>
      pm_get (pq_map s) p \<in> free_spans L \<and> at_end (pq_spans s) (pm_get (pq_map s) p) p \<and> x \<noteq> pm_get (pq_map s) p"
    and "y \<in> free_spans L \<Longrightarrow> at_end (pq_spans s) y p \<Longrightarrow>
      pm_get (pq_map s) p = y \<and> y \<noteq> nullptr \<and> \<not> s_is_used (pq_spans s) y"
proof -
  obtain m where m: "map_ok (pq_spans s) m (free_spans L) U {}" "pm_get (pq_map s) p = pm_get m p"
    using pq_relE [OF rel] p by metis
  note d = pq_relD [OF rel]
  show "pm_get (pq_map s) p \<in> free_spans L \<and> at_end (pq_spans s) (pm_get (pq_map s) p) p \<and> x \<noteq> pm_get (pq_map s) p"
    if "pm_get (pq_map s) p \<noteq> nullptr" "\<not> s_is_used (pq_spans s) (pm_get (pq_map s) p)"
  proof -
    have "(pm_get (pq_map s) p \<in> U) \<or>
        (pm_get (pq_map s) p \<in> free_spans L \<and> at_end (pq_spans s) (pm_get (pq_map s) p) p)"
      using m that(1) unfolding map_ok_def by metis
    then have "pm_get (pq_map s) p \<in> free_spans L \<and> at_end (pq_spans s) (pm_get (pq_map s) p) p"
      using d(6) that(2) unfolding flags_ok_def by blast
    then show ?thesis
      using d(4) by auto
  qed
  show "pm_get (pq_map s) p = y \<and> y \<noteq> nullptr \<and> \<not> s_is_used (pq_spans s) y"
    if y: "y \<in> free_spans L" "at_end (pq_spans s) y p"
  proof -
    obtain j where j: "j < 129" "y \<in> set (L j)"
      using y(1) by (auto simp: free_spans_def)
    then have "y \<noteq> nullptr" "\<not> s_is_used (pq_spans s) y"
      using d(6) sl.buckets_distinct(3) [OF d(1) j(1)] by (auto simp: flags_ok_def)
    then show ?thesis
      using m y unfolding map_ok_def by simp
  qed
qed

lemma page_before:
  assumes "1 \<le> lo h x"
  shows "unat (s_page_id h x - 1) = lo h x - 1" "\<not> owns h x (s_page_id h x - 1)"
proof -
  show u: "unat (s_page_id h x - 1) = lo h x - 1"
    using assms by (simp add: unat_minus_nowrap lo_def)
  show "\<not> owns h x (s_page_id h x - 1)"
    using assms unfolding owns_def u by simp
qed

lemma page_after:
  assumes "lo h x + np h x \<le> 1125899906842624"
  shows "\<not> owns h x (s_page_id h x + s_npage h x)"
  using unat_after [OF assms] by (simp add: owns_def)

lemma p_merge_prev_ok:
  assumes rel: "pq_rel s L U x" and x: "np (pq_spans s) x \<le> 128"
  shows "p_merge_prev s x = Inr None \<or>
    (\<exists>s' L'. p_merge_prev s x = Inr (Some s') \<and> pq_merged s L U x s' L' \<and>
       np (pq_spans s) x < np (pq_spans s') x)"
proof -
  let ?h = "pq_spans s"
  define y where "y = pm_get (pq_map s) (s_page_id ?h x - 1)"
  have yr: "rt_get (pq_map s) (s_page_id ?h x - 1) = y"
    by (simp add: y_def rt_get_pm_get)
  note lay = pq_relD(7) [OF rel]
  have xb: "1 \<le> np ?h x" "1 \<le> lo ?h x"
    using layout_bounds [OF lay] by auto
  show ?thesis
  proof (cases "y = nullptr \<or> s_is_used ?h y \<or> s_npage ?h y + s_npage ?h x > 128")
    case True
    then show ?thesis
      by (auto simp: p_merge_prev_def Let_def yr)
  next
    case False
    then have ne: "y \<noteq> nullptr" "\<not> s_is_used ?h y" "\<not> s_npage ?h y + s_npage ?h x > 128"
      by auto
    note b = page_before [OF xb(2)]
    have y: "y \<in> free_spans L" "at_end ?h y (s_page_id ?h x - 1)" "x \<noteq> y"
      using p_neighbour(1) [OF rel b(2)] ne(1,2) y_def by auto
    have yb: "1 \<le> np ?h y" "lo ?h y + np ?h y \<le> 1125899906842624"
      using layout_bounds [OF lay] y by auto
    have "lo ?h y + np ?h y \<le> lo ?h x \<or> lo ?h x + np ?h x \<le> lo ?h y"
      using layout_apart [OF lay _ _ y(3)] y(1) by auto
    then have c: "lo ?h y + np ?h y = lo ?h x"
      using y(2) b(1) yb xb by (auto simp: at_end_def)
    have s: "unat (s_npage ?h x + s_npage ?h y) = np ?h x + np ?h y" "unat (s_npage ?h x + s_npage ?h y) \<le> 128"
      using unat_sum_npage [of ?h x y] ne(3) x yb by (auto simp: add.commute word_less_nat_alt NPAGE_LISTS_def)
    have c': "(unat (s_page_id ?h y) = lo ?h y \<and> lo ?h y + np ?h y = lo ?h x) \<or>
        (unat (s_page_id ?h y) = lo ?h x \<and> lo ?h x + np ?h x = lo ?h y)"
      using c by (simp add: lo_def)
    obtain h2 L' m1 m2 p' where h2: "x \<noteq> y" "bucket s (s_npage ?h y) = Inr (pq_heads s (np ?h y))"
      "ps_erase (set_range ?h x (s_page_id ?h y) (s_npage ?h x + s_npage ?h y)) (pq_heads s (np ?h y)) y = Inr h2"
      "same_data (insert (pq_heads s (np ?h y)) (set (L (np ?h y)))) (set_range ?h x (s_page_id ?h y) (s_npage ?h x + s_npage ?h y)) h2"
      "MapSpanRange (pq_map s) (s_page_id ?h y) (s_npage ?h y) nullptr = Inr m1"
      "MapSpanRange m1 (s_page_id ?h x) (s_npage ?h x) nullptr = Inr m2" "pp_Delete (pq_pool s) y = Inr p'"
      "pq_merged s L U x (s\<lparr>pq_spans := h2, pq_map := m2, pq_pool := p'\<rparr>) L'"
      by (rule p_merge_tail [OF rel y(1) s(1) s(2) c'])
    note d = same_data_simps(1-8) [OF h2(4), simplified]
    have "p_merge_prev s x = Inr (Some (s\<lparr>pq_spans := h2, pq_map := m2, pq_pool := p'\<rparr>))"
      using ne h2(2,3,5-7) y(3) by (simp add: p_merge_prev_def Let_def yr d)
    moreover have "np h2 x = np ?h x + np ?h y"
      using s(1) by (simp add: d)
    ultimately show ?thesis
      using h2(8) yb by auto
  qed
qed

lemma p_merge_next_ok:
  assumes rel: "pq_rel s L U x" and x: "np (pq_spans s) x \<le> 128"
  shows "p_merge_next s x = Inr None \<or>
    (\<exists>s' L'. p_merge_next s x = Inr (Some s') \<and> pq_merged s L U x s' L' \<and>
       np (pq_spans s) x < np (pq_spans s') x \<and> lo (pq_spans s') x = lo (pq_spans s) x)"
proof -
  let ?h = "pq_spans s"
  define y where "y = pm_get (pq_map s) (s_page_id ?h x + s_npage ?h x)"
  have yr: "rt_get (pq_map s) (s_page_id ?h x + s_npage ?h x) = y"
    by (simp add: y_def rt_get_pm_get)
  note lay = pq_relD(7) [OF rel]
  have xb: "1 \<le> np ?h x" "lo ?h x + np ?h x \<le> 1125899906842624"
    using layout_bounds [OF lay] by auto
  show ?thesis
  proof (cases "y = nullptr \<or> s_is_used ?h y \<or> s_npage ?h y + s_npage ?h x > 128")
    case True
    then show ?thesis
      by (auto simp: p_merge_next_def Let_def yr)
  next
    case False
    then have ne: "y \<noteq> nullptr" "\<not> s_is_used ?h y" "\<not> s_npage ?h y + s_npage ?h x > 128"
      by auto
    have y: "y \<in> free_spans L" "at_end ?h y (s_page_id ?h x + s_npage ?h x)" "x \<noteq> y"
      using p_neighbour(1) [OF rel page_after [OF xb(2)]] ne(1,2) y_def by auto
    have yb: "1 \<le> np ?h y" "lo ?h y + np ?h y \<le> 1125899906842624"
      using layout_bounds [OF lay] y by auto
    have "lo ?h y + np ?h y \<le> lo ?h x \<or> lo ?h x + np ?h x \<le> lo ?h y"
      using layout_apart [OF lay _ _ y(3)] y(1) by auto
    then have c: "lo ?h x + np ?h x = lo ?h y"
      using y(2) yb xb unat_after [OF xb(2)] by (auto simp: at_end_def)
    have s: "unat (s_npage ?h x + s_npage ?h y) = np ?h x + np ?h y" "unat (s_npage ?h x + s_npage ?h y) \<le> 128"
      using unat_sum_npage [of ?h x y] ne(3) x yb by (auto simp: add.commute word_less_nat_alt NPAGE_LISTS_def)
    have c': "(unat (s_page_id ?h x) = lo ?h y \<and> lo ?h y + np ?h y = lo ?h x) \<or>
        (unat (s_page_id ?h x) = lo ?h x \<and> lo ?h x + np ?h x = lo ?h y)"
      using c by (simp add: lo_def)
    obtain h2 L' m1 m2 p' where h2: "x \<noteq> y" "bucket s (s_npage ?h y) = Inr (pq_heads s (np ?h y))"
      "ps_erase (set_range ?h x (s_page_id ?h x) (s_npage ?h x + s_npage ?h y)) (pq_heads s (np ?h y)) y = Inr h2"
      "same_data (insert (pq_heads s (np ?h y)) (set (L (np ?h y)))) (set_range ?h x (s_page_id ?h x) (s_npage ?h x + s_npage ?h y)) h2"
      "MapSpanRange (pq_map s) (s_page_id ?h y) (s_npage ?h y) nullptr = Inr m1"
      "MapSpanRange m1 (s_page_id ?h x) (s_npage ?h x) nullptr = Inr m2" "pp_Delete (pq_pool s) y = Inr p'"
      "pq_merged s L U x (s\<lparr>pq_spans := h2, pq_map := m2, pq_pool := p'\<rparr>) L'"
      by (rule p_merge_tail [OF rel y(1) s(1) s(2) c'])
    note d = same_data_simps(1-8) [OF h2(4), simplified]
    have "p_merge_next s x = Inr (Some (s\<lparr>pq_spans := h2, pq_map := m2, pq_pool := p'\<rparr>))"
      using ne h2(2,3,5-7) y(3) by (simp add: p_merge_next_def Let_def yr d)
    moreover have "np h2 x = np ?h x + np ?h y" "lo h2 x = lo ?h x"
      using s(1) by (simp_all add: d lo_def)
    ultimately show ?thesis
      using h2(8) yb by auto
  qed
qed

section \<open>The loops and the end\<close>

text \<open>Where a step breaks, no free span on that side can be merged.\<close>

lemma p_merge_None:
  assumes rel: "pq_rel s L U x" and x: "np (pq_spans s) x \<le> 128" and y: "y \<in> free_spans L"
  shows "p_merge_prev s x = Inr None \<Longrightarrow> lo (pq_spans s) y + np (pq_spans s) y = lo (pq_spans s) x \<Longrightarrow>
      128 < np (pq_spans s) x + np (pq_spans s) y"
    and "p_merge_next s x = Inr None \<Longrightarrow> lo (pq_spans s) x + np (pq_spans s) x = lo (pq_spans s) y \<Longrightarrow>
      128 < np (pq_spans s) x + np (pq_spans s) y"
proof -
  let ?h = "pq_spans s"
  note lay = pq_relD(7) [OF rel]
  have yb: "1 \<le> np ?h y" "lo ?h y + np ?h y \<le> 1125899906842624" and xb: "1 \<le> lo ?h x" "lo ?h x + np ?h x \<le> 1125899906842624"
    using layout_bounds [OF lay] y by auto
  have n: "\<not> s_npage ?h y + s_npage ?h x > 128" if "np ?h x + np ?h y \<le> 128"
    using that unat_sum_npage [of ?h x y] x yb by (simp add: add.commute NPAGE_LISTS_def)
  show "128 < np ?h x + np ?h y" if r: "p_merge_prev s x = Inr None" and c: "lo ?h y + np ?h y = lo ?h x"
  proof (rule ccontr)
    assume "\<not> 128 < np ?h x + np ?h y"
    moreover have "at_end ?h y (s_page_id ?h x - 1)"
      using c yb page_before [OF xb(1)] by (simp add: at_end_def)
    ultimately show False
      using r n p_neighbour(2) [OF rel page_before(2) [OF xb(1)] y]
      by (auto simp: p_merge_prev_def Let_def rbind_def rt_get_pm_get split: sum.splits)
  qed
  show "128 < np ?h x + np ?h y" if r: "p_merge_next s x = Inr None" and c: "lo ?h x + np ?h x = lo ?h y"
  proof (rule ccontr)
    assume "\<not> 128 < np ?h x + np ?h y"
    moreover have "at_end ?h y (s_page_id ?h x + s_npage ?h x)"
      using c unat_after [OF xb(2)] by (simp add: at_end_def)
    ultimately show False
      using r n p_neighbour(2) [OF rel page_after [OF xb(2)] y]
      by (auto simp: p_merge_next_def Let_def rbind_def rt_get_pm_get split: sum.splits)
  qed
qed

lemma p_while_merge_ok:
  assumes step: "\<And>s L. pq_rel s L U x \<Longrightarrow> np (pq_spans s) x \<le> 128 \<Longrightarrow>
      step s x = Inr None \<or> (\<exists>s' L'. step s x = Inr (Some s') \<and> pq_merged s L U x s' L' \<and>
        np (pq_spans s) x < np (pq_spans s') x \<and> (keep \<longrightarrow> lo (pq_spans s') x = lo (pq_spans s) x))"
    and rel: "pq_rel s L U x" "np (pq_spans s) x \<le> 128"
  shows "\<exists>s' L'. while_merge step walk_fuel s x = Inr s' \<and> pq_merged s L U x s' L' \<and> step s' x = Inr None \<and>
    (keep \<longrightarrow> lo (pq_spans s') x = lo (pq_spans s) x)"
proof -
  define I where "I s' \<longleftrightarrow> (\<exists>L'. pq_merged s L U x s' L' \<and> (keep \<longrightarrow> lo (pq_spans s') x = lo (pq_spans s) x))" for s'
  have "\<exists>s'. while_merge step walk_fuel s x = Inr s' \<and> I s' \<and> step s' x = Inr None"
  proof (rule while_merge_inv [where I = I and \<mu> = "\<lambda>s. np (pq_spans s) x"])
    fix s1
    assume "I s1"
    then obtain L1 where s1: "pq_merged s L U x s1 L1" "keep \<longrightarrow> lo (pq_spans s1) x = lo (pq_spans s) x"
      by (auto simp: I_def)
    then show "np (pq_spans s1) x \<le> 128"
      by (simp add: pq_merged_def)
    have "pq_rel s1 L1 U x" "np (pq_spans s1) x \<le> 128"
      using s1(1) by (simp_all add: pq_merged_def)
    from step [OF this] show "step s1 x = Inr None \<or>
        (\<exists>s'. step s1 x = Inr (Some s') \<and> I s' \<and> np (pq_spans s1) x < np (pq_spans s') x)"
      unfolding I_def using pq_merged_trans [OF s1(1)] s1(2) by metis
  next
    show "I s"
      unfolding I_def using pq_merged_refl [OF rel] by blast
    show "128 < walk_fuel + np (pq_spans s) x"
      by (simp add: walk_fuel_def)
  qed
  then show ?thesis
    unfolding I_def by blast
qed

lemma p_Release_finish_ok:
  assumes rel: "pq_rel s L U x" and x: "np (pq_spans s) x \<le> 128"
  obtains s' L' where "p_Release_finish s x = Inr s'" "pq_inv s' L' U {} {}" "pq_heads s' = pq_heads s"
    "free_spans L' = insert x (free_spans L)" "x \<in> set (L' (np (pq_spans s) x))"
    "lo (pq_spans s') = lo (pq_spans s)" "np (pq_spans s') = np (pq_spans s)"
    "pq_mmaps s' = pq_mmaps s" "pq_frame (insert x (pq_foot s L)) s s'"
    "pq_foot s' L' \<subseteq> insert x (pq_foot s L)"
proof -
  let ?h = "pq_spans s"
  let ?F = "free_spans L"
  let ?n = "np ?h x"
  let ?L = "L(?n := x # L ?n)"
  let ?H = "pq_heads s ` {..<129}"
  note d0 = pq_relD [OF rel]
  obtain m0 where m0: "map_ok ?h m0 ?F U {}" "\<And>p. \<not> owns ?h x p \<Longrightarrow> pm_get (pq_map s) p = pm_get m0 p"
      "\<And>p. owns ?h x p \<Longrightarrow> pm_get m0 p = nullptr"
    using pq_relE [OF rel] by blast
  have bk: "buckets_ok sl_rep ?h (pq_heads s) L 129" and lay: "layout_ok ?h (?F \<union> U \<union> {x})"
    and fl: "flags_ok ?h L U" and H: "?H \<inter> (U \<union> {x}) = {}"
    and F: "?F \<inter> (U \<union> {x}) = {}" and xU: "x \<notin> U"
    and pl: "pool_inv (pp_rep p_SPAN_SIZE) (pq_pool s) (?H \<union> ?F \<union> U \<union> {x})"
    using d0 by blast+
  have x0: "x \<noteq> nullptr"
    using pl by (auto simp: pool_inv_def)
  have xl: "x \<notin> insert (pq_heads s j) (set (L j))" if "j < 129" for j
    using that H F free_spansI [of j x L] by auto
  obtain h1 where h1: "ps_push_front ?h (pq_heads s ?n) x = Inr h1"
      "same_data (insert x (insert (pq_heads s ?n) (set (L ?n)))) ?h h1"
      "buckets_ok sl_rep h1 (pq_heads s) ?L 129"
    using psl.push_front_buckets [where i = ?n, OF bk _ x0 xl] x by auto
  note d = same_data_simps [OF h1(2)]
  let ?h2 = "set_used h1 x False"
  have xb: "1 \<le> np ?h x" "lo ?h x + np ?h x \<le> 1125899906842624"
    using layout_bounds [OF lay] by auto
  have ro: "range_ok (s_page_id ?h x) (unat (s_npage ?h x))" and n0: "0 < s_npage ?h x"
    using layout_range_ok [OF lay, of x] by (simp_all add: np_def word_less_nat_alt)
  obtain m2 where m2: "MapFreeSpan (pq_map s) (s_page_id ?h x) (s_npage ?h x) x = Inr m2"
      "\<And>p. rt_get m2 p = (if p = s_page_id ?h x \<or> p = s_page_id ?h x + s_npage ?h x - 1 then x
         else if in_range (s_page_id ?h x) (unat (s_npage ?h x)) p then nullptr else rt_get (pq_map s) p)"
    using MapFreeSpan_ex [OF ro n0] by blast
  have g: "pm_get m2 p = (if at_end ?h x p then x else pm_get m0 p)" for p
    using m2(2) [of p] at_end_iff [OF xb, of p] at_end_owns [OF xb(1), of p] m0(2,3) [of p]
    by (auto simp: rt_get_pm_get owns_in_range)
  let ?s' = "s\<lparr>pq_spans := ?h2, pq_map := m2\<rparr>"
  have "bucket s (s_npage ?h x) = Inr (pq_heads s ?n)"
    using x bucket_ok [of "s_npage ?h x" s] by (simp add: np_def)
  then have r: "p_Release_finish s x = Inr ?s'"
    using h1(1) m2(1) by (simp add: p_Release_finish_def Let_def d)
  have fs: "free_spans ?L = insert x ?F"
    using x by (intro free_spans_push) simp
  have mk: "map_ok ?h m2 (insert x ?F) U {}"
    using F xU by (intro map_ok_file [OF m0(1) lay _ g]) auto
  have "np ?h z = l \<and> \<not> s_is_used ?h2 z" if "l < 129" "z \<in> set (?L l)" for l z
  proof (cases "z = x")
    case True
    then have "l = ?n"
      using that F free_spansI [of l x L] by (auto split: if_splits)
    then show ?thesis using True by simp
  next
    case False
    then have "z \<in> set (L l)"
      using that(2) by (auto split: if_splits)
    then have "np ?h z = l \<and> \<not> s_is_used ?h z"
      using fl that(1) unfolding flags_ok_def by blast
    then show ?thesis using False by (simp add: d)
  qed
  moreover have "s_is_used ?h2 u" if "u \<in> U" for u
    using fl that xU by (auto simp: flags_ok_def d)
  moreover have l2: "lo ?h2 = lo ?h" "np ?h2 = np ?h"
    by (simp_all add: d)
  ultimately have "flags_ok ?h2 ?L U"
    unfolding flags_ok_def l2 by blast
  moreover have "layout_ok ?h (insert x ?F \<union> U)"
    using lay by simp
  moreover have "pool_inv (pp_rep p_SPAN_SIZE) (pq_pool s) (?H \<union> insert x ?F \<union> U \<union> {})"
  proof -
    have "?H \<union> insert x ?F \<union> U \<union> {} = ?H \<union> ?F \<union> U \<union> {x}"
      by auto
    then show ?thesis
      using pl by (rule ssubst)
  qed
  moreover have "?H \<inter> (U \<union> {}) = {}" "insert x ?F \<inter> (U \<union> {}) = {}" "U \<inter> {} = {}"
    using H F xU by auto
  ultimately have "pq_inv ?s' ?L U {} {}"
    using mk h1(3) unfolding pq_inv_def fs by (intro conjI) (simp_all add: d)
  moreover have "pq_frame (insert x (pq_foot s L)) s ?s'"
  proof -
    have "frame_out (insert x (pq_foot s L)) ?h h1"
      using pq_foot_bucket [of ?n s L] x by (intro frame_out_mono [OF frame_out_same_data [OF h1(2)]]) auto
    then show ?thesis
      by (simp add: pq_frame_def frame_out_def set_used_def)
  qed
  moreover have "pq_foot ?s' ?L \<subseteq> insert x (pq_foot s L)"
    by (auto simp: pq_foot_def fs simp del: fun_upd_apply)
  ultimately show thesis
    using that [of ?s' ?L] r fs l2 by simp
qed

section \<open>Property\<close>

definition p_release_ok :: "pqcache \<Rightarrow> (nat \<Rightarrow> addr list) \<Rightarrow> addr set \<Rightarrow> addr \<Rightarrow> pqcache \<Rightarrow> bool" where
  "p_release_ok s L U x s' \<longleftrightarrow>
     (\<exists>L'. pq_inv s' L' (U - {x}) {} {} \<and> pq_heads s' = pq_heads s \<and> pq_mmaps s' = pq_mmaps s \<and>
        x \<in> set (L' (np (pq_spans s') x)) \<and> np (pq_spans s') x \<le> 128 \<and>
        lo (pq_spans s') x \<le> lo (pq_spans s) x \<and>
        lo (pq_spans s) x + np (pq_spans s) x \<le> lo (pq_spans s') x + np (pq_spans s') x \<and>
        pages (pq_spans s') (free_spans L' \<union> (U - {x})) = pages (pq_spans s) (free_spans L \<union> U) \<and>
        (\<forall>u \<in> U - {x}. lo (pq_spans s') u = lo (pq_spans s) u \<and> np (pq_spans s') u = np (pq_spans s) u) \<and>
        (\<forall>y \<in> free_spans L' - {x}.
           lo (pq_spans s') y + np (pq_spans s') y = lo (pq_spans s') x \<or>
           lo (pq_spans s') x + np (pq_spans s') x = lo (pq_spans s') y \<longrightarrow>
           128 < np (pq_spans s') x + np (pq_spans s') y) \<and>
        pq_frame (insert x (pq_foot s L)) s s' \<and> pq_foot s' L' \<subseteq> insert x (pq_foot s L))"

lemma p_ReleaseSpan_ok:
  assumes inv: "pq_inv s L U {} {}" and x: "x \<in> U" "np (pq_spans s) x \<le> 128"
  shows "\<exists>s'. p_ReleaseSpan s x = Inr s' \<and> p_release_ok s L U x s'"
proof -
  let ?U = "U - {x}"
  have p0: "pq_rel s L ?U x"
    by (rule pq_rel_start [OF inv x(1)])
  obtain s1 L1 where s1: "while_merge p_merge_prev walk_fuel s x = Inr s1" "pq_merged s L ?U x s1 L1"
      "p_merge_prev s1 x = Inr None"
    using p_while_merge_ok [where step = p_merge_prev and keep = False, OF _ p0 x(2)] p_merge_prev_ok by blast
  then have p1: "pq_rel s1 L1 ?U x" "np (pq_spans s1) x \<le> 128"
    by (simp_all add: pq_merged_def)
  obtain s2 L2 where s2: "while_merge p_merge_next walk_fuel s1 x = Inr s2" "pq_merged s1 L1 ?U x s2 L2"
      "p_merge_next s2 x = Inr None" "lo (pq_spans s2) x = lo (pq_spans s1) x"
    using p_while_merge_ok [where step = p_merge_next and keep = True, OF _ p1] p_merge_next_ok by blast
  have m: "pq_merged s L ?U x s2 L2"
    using pq_merged_trans s1(2) s2(2) by blast
  then have p2: "pq_rel s2 L2 ?U x" "np (pq_spans s2) x \<le> 128"
    by (simp_all add: pq_merged_def)
  obtain s' L' where s': "p_Release_finish s2 x = Inr s'" "pq_inv s' L' ?U {} {}" "pq_heads s' = pq_heads s2"
      "free_spans L' = insert x (free_spans L2)" "x \<in> set (L' (np (pq_spans s2) x))"
      "lo (pq_spans s') = lo (pq_spans s2)" "np (pq_spans s') = np (pq_spans s2)" "pq_mmaps s' = pq_mmaps s2"
      "pq_frame (insert x (pq_foot s2 L2)) s2 s'" "pq_foot s' L' \<subseteq> insert x (pq_foot s2 L2)"
    using p_Release_finish_ok [OF p2] by blast
  have r: "p_ReleaseSpan s x = Inr s'"
    using s1(1) s2(1) s'(1) by (simp add: p_ReleaseSpan_def)
  have co: "128 < np (pq_spans s2) x + np (pq_spans s2) y"
    if y: "y \<in> free_spans L2" and c: "lo (pq_spans s2) y + np (pq_spans s2) y = lo (pq_spans s2) x \<or>
      lo (pq_spans s2) x + np (pq_spans s2) x = lo (pq_spans s2) y" for y
    using c
  proof
    assume a: "lo (pq_spans s2) y + np (pq_spans s2) y = lo (pq_spans s2) x"
    have "y \<noteq> x"
      using y pq_relD(4) [OF p2(1)] by auto
    then have e: "y \<in> free_spans L1" "lo (pq_spans s2) y = lo (pq_spans s1) y"
        "np (pq_spans s2) y = np (pq_spans s1) y" "np (pq_spans s1) x \<le> np (pq_spans s2) x"
      using s2(2) y by (auto simp: pq_merged_def)
    then have "128 < np (pq_spans s1) x + np (pq_spans s1) y"
      using p_merge_None(1) [OF p1 e(1) s1(3)] a s2(4) by simp
    then show ?thesis using e by simp
  next
    assume "lo (pq_spans s2) x + np (pq_spans s2) x = lo (pq_spans s2) y"
    then show ?thesis
      by (rule p_merge_None(2) [OF p2 y s2(3)])
  qed
  have A: "free_spans L2 \<union> ?U \<union> {x} = free_spans L' \<union> ?U" "free_spans L \<union> ?U \<union> {x} = free_spans L \<union> U"
    using s'(4) x(1) by auto
  have lnp: "\<And>B. pages (pq_spans s') B = pages (pq_spans s2) B"
    using s'(6,7) by (simp add: pages_def)
  have pg: "pages (pq_spans s') (free_spans L' \<union> ?U) = pages (pq_spans s) (free_spans L \<union> U)"
    using m unfolding pq_merged_def A lnp by blast
  have fr: "lo (pq_spans s') u = lo (pq_spans s) u \<and> np (pq_spans s') u = np (pq_spans s) u" if "u \<in> ?U" for u
    using m that unfolding pq_merged_def s'(6,7) by auto
  have bd: "lo (pq_spans s2) x \<le> lo (pq_spans s) x"
      "lo (pq_spans s) x + np (pq_spans s) x \<le> lo (pq_spans s2) x + np (pq_spans s2) x"
      "pq_heads s2 = pq_heads s" "pq_mmaps s2 = pq_mmaps s"
    using m by (simp_all add: pq_merged_def)
  have ft: "insert x (pq_foot s2 L2) \<subseteq> insert x (pq_foot s L)" "pq_frame (insert x (pq_foot s L)) s s2"
    using m unfolding pq_merged_def by auto
  have "pq_frame (insert x (pq_foot s L)) s s'"
    using ft(2) pq_frame_mono [OF s'(9) ft(1)] by (rule pq_frame_trans)
  moreover have "pq_foot s' L' \<subseteq> insert x (pq_foot s L)"
    using s'(10) ft(1) by (rule subset_trans)
  ultimately have "p_release_ok s L U x s'"
    unfolding p_release_ok_def s'(6,7) using s'(2-5,8) bd p2(2) pg fr co
    by (intro exI [of _ L'] conjI) (auto simp: s'(6,7))
  then show ?thesis
    using r by blast
qed

text \<open>C28: Releasing a span in use of at most 128 pages returns, keeps the invariant of the page cache and files
  the span under its new size: it has grown over its free neighbours, no page is lost or gained, the other spans in
  use keep theirs, and no free span that touches it would fit into 128 pages together with it.\<close>

theorem p_Release_correct:
  assumes "pq_inv s L U {} {}" "x \<in> U" "np (pq_spans s) x \<le> 128"
  shows "\<exists>s'. p_ReleaseSpan s x = Inr s' \<and> p_release_ok s L U x s'"
  using assms by (rule p_ReleaseSpan_ok)

lemma p_Release_correct_witness:
  "\<exists>x s1 s2 L. GetNewSpan pq_demo 3 = Inr (x, s1) \<and> p_ReleaseSpan s1 x = Inr s2 \<and> p_release_ok s1 L {x} x s2"
proof -
  have "pq_new_ok pq_demo (\<lambda>_. []) {} 3 (GetNewSpan pq_demo 3)"
    by (rule GetNewSpan_ok [where ptr = 4294967296 and rest = "[]", OF pq_demo_facts(1) _ _ _ pq_demo_facts(4)])
      (simp_all add: pq_demo_facts(2,3) free_spans_def)
  then obtain x s1 L where x: "GetNewSpan pq_demo 3 = Inr (x, s1)" "np (pq_spans s1) x = 3"
      "pq_inv s1 L {x} {} {}"
    by (auto simp: pq_new_ok_def)
  have "\<exists>s2. p_ReleaseSpan s1 x = Inr s2 \<and> p_release_ok s1 L {x} x s2"
    using x(2) by (intro p_Release_correct [OF x(3)]) simp_all
  then show ?thesis
    using x(1) by blast
qed

end
