(* ===== verification/Pool_Free_List.thy ===== *)
theory Pool_Free_List
  imports Free_List Pool_Object
begin

text \<open>
  The class \<open>FreeList\<close> of the second allocator, \<open>src/Pool/Common.h\<close>: a stack of free blocks as in the first,
  without its assertions, so that popping an empty list reads through a null pointer. The counters are \<open>int\<close>.
\<close>

section \<open>The code\<close>

record p_free_list =
  pf_list :: addr
  pf_max :: i32
  pf_size :: i32

definition pf_new :: p_free_list where
  "pf_new = \<lparr>pf_list = nullptr, pf_max = 1, pf_size = 0\<rparr>"

definition pf_push_front :: "links \<Rightarrow> p_free_list \<Rightarrow> addr \<Rightarrow> (links \<times> p_free_list) res" where
  "pf_push_front m l obj =
     rbind (SetNextObj m obj (pf_list l)) (\<lambda>m'.
       Inr (m', l\<lparr>pf_list := obj, pf_size := pf_size l + 1\<rparr>))"

definition pf_pop_front :: "links \<Rightarrow> p_free_list \<Rightarrow> (addr \<times> p_free_list) res" where
  "pf_pop_front m l =
     rbind (NextObj m (pf_list l)) (\<lambda>next'.
       Inr (pf_list l, l\<lparr>pf_list := next', pf_size := pf_size l - 1\<rparr>))"

definition pf_push_range :: "links \<Rightarrow> p_free_list \<Rightarrow> addr \<Rightarrow> addr \<Rightarrow> i32 \<Rightarrow> (links \<times> p_free_list) res" where
  "pf_push_range m l start end' nums =
     rbind (SetNextObj m end' (pf_list l)) (\<lambda>m'.
       Inr (m', l\<lparr>pf_list := start, pf_size := pf_size l + nums\<rparr>))"

text \<open>\<open>while (--n) end = NextObj(end)\<close>.\<close>

primrec pf_walk :: "nat \<Rightarrow> links \<Rightarrow> addr \<Rightarrow> i32 \<Rightarrow> addr res" where
  "pf_walk 0 m end' n = Inl NoFuel"
| "pf_walk (Suc fuel) m end' n =
     (if n - 1 = 0 then Inr end' else rbind (NextObj m end') (\<lambda>next'. pf_walk fuel m next' (n - 1)))"

definition pf_pop_range :: "links \<Rightarrow> p_free_list \<Rightarrow> i32 \<Rightarrow> (addr \<times> addr \<times> links \<times> p_free_list) res" where
  "pf_pop_range m l nums =
     (let start = pf_list l in
      rbind (pf_walk walk_fuel m start nums) (\<lambda>end'.
      rbind (NextObj m end') (\<lambda>rest.
      rbind (SetNextObj m end' nullptr) (\<lambda>m'.
        Inr (start, end', m', l\<lparr>pf_list := rest, pf_size := pf_size l - nums\<rparr>)))))"

definition pf_Empty :: "p_free_list \<Rightarrow> bool" where
  "pf_Empty l \<longleftrightarrow> pf_list l = nullptr"

section \<open>The contract\<close>

definition pf_rep :: "links \<Rightarrow> p_free_list \<Rightarrow> addr list \<Rightarrow> bool" where
  "pf_rep m l xs \<longleftrightarrow> lseg m (pf_list l) xs nullptr \<and> distinct xs \<and> pf_size l = of_nat (length xs)"

lemma pf_push_rep:
  assumes "pf_rep m l xs" "x \<noteq> nullptr" "x \<notin> set xs"
  shows "\<exists>m' l'. pf_push_front m l x = Inr (m', l') \<and> pf_rep m' l' (x # xs) \<and> (\<forall>y. y \<noteq> x \<longrightarrow> m' y = m y)"
  using assms by (auto simp: pf_push_front_def SetNextObj_def pf_rep_def)

lemma pf_pop_rep:
  assumes "pf_rep m l (x # xs)"
  shows "\<exists>l'. pf_pop_front m l = Inr (x, l') \<and> pf_rep m l' xs"
  using assms by (auto simp: pf_pop_front_def NextObj_def pf_rep_def)

interpretation pfl: free_list pf_rep pf_push_front pf_pop_front
proof unfold_locales
  show "pf_rep m l xs \<Longrightarrow> distinct xs \<and> nullptr \<notin> set xs" for m l xs
    using lseg_nonnull by (auto simp: pf_rep_def)
  show "pf_rep m l xs \<Longrightarrow> (\<And>x. x \<in> set xs \<Longrightarrow> m' x = m x) \<Longrightarrow> pf_rep m' l xs" for m l xs m'
    using lseg_cong [of xs m' m] by (simp add: pf_rep_def)
  show "pf_rep m l [] \<Longrightarrow> \<exists>e. pf_pop_front m l = Inl e" for m l
    by (simp add: pf_rep_def pf_pop_front_def NextObj_def)
qed (simp_all add: pf_push_rep pf_pop_rep)

section \<open>Ranges\<close>

lemma pf_push_range_rep:
  assumes "pf_rep m l xs" "lseg m start (as @ [e]) q" "distinct (as @ [e])" "set (as @ [e]) \<inter> set xs = {}"
    and "n = of_nat (length as + 1)"
  shows "\<exists>m' l'. pf_push_range m l start e n = Inr (m', l') \<and> pf_rep m' l' (as @ e # xs) \<and>
    (\<forall>y. y \<noteq> e \<longrightarrow> m' y = m y) \<and> pf_max l' = pf_max l"
proof -
  have s: "e \<noteq> nullptr"
    using assms(2) by (auto simp: lseg_append)
  have "lseg (m(e := pf_list l)) start (as @ [e]) (pf_list l)"
    by (rule lseg_redirect [OF assms(2,3)])
  moreover have "lseg (m(e := pf_list l)) (pf_list l) xs nullptr"
    using assms(1,4) by (simp add: pf_rep_def)
  ultimately have "lseg (m(e := pf_list l)) start ((as @ [e]) @ xs) nullptr"
    unfolding lseg_append by blast
  then show ?thesis
    using s assms by (auto simp: pf_push_range_def SetNextObj_def pf_rep_def)
qed

lemma of_nat_i32_inj:
  assumes "(of_nat a :: i32) = of_nat b" "a < 2147483648" "b < 2147483648"
  shows "a = b"
proof -
  have "sint (word_of_int (int a) :: i32) = int a" "sint (word_of_int (int b) :: i32) = int b"
    using assms(2,3) by (intro sint_of_int_i32; simp)+
  then show ?thesis
    using assms(1) by simp
qed

lemma pf_walk_lseg:
  assumes "lseg m p (as @ e # xs) q" "n = of_nat (length as + 1)" "length as < fuel" "length as < 2147483647"
  shows "pf_walk fuel m p n = Inr e"
  using assms
proof (induction as arbitrary: p n fuel)
  case Nil
  then show ?case by (cases fuel) auto
next
  case (Cons a as)
  obtain f where f: "fuel = Suc f" "length as < f"
    using Cons.prems(3) by (cases fuel) auto
  have n: "n - 1 = of_nat (length as + 1)"
    using Cons.prems(2) by simp
  have "(of_nat (length as + 1) :: i32) \<noteq> of_nat 0"
    using of_nat_i32_inj [of "length as + 1" 0] Cons.prems(4) by auto
  then have "n - 1 \<noteq> 0"
    using n by simp
  then show ?case
    using Cons.IH [OF _ n f(2)] Cons.prems f(1) by (auto simp: NextObj_def)
qed

lemma pf_pop_range_rep:
  assumes "pf_rep m l (as @ e # xs)" "n = of_nat (length as + 1)" "length as < 2147483647"
  shows "\<exists>m' l'. pf_pop_range m l n = Inr (hd (as @ [e]), e, m', l') \<and> pf_rep m' l' xs \<and>
    lseg m' (hd (as @ [e])) (as @ [e]) nullptr \<and> (\<forall>y. y \<noteq> e \<longrightarrow> m' y = m y) \<and> pf_max l' = pf_max l"
proof -
  have l: "lseg m (pf_list l) (as @ e # xs) nullptr" "distinct (as @ e # xs)"
      "pf_size l = of_nat (length as + 1 + length xs)"
    using assms(1) by (simp_all add: pf_rep_def)
  have f: "pf_walk walk_fuel m (pf_list l) n = Inr e"
    using assms(3) by (intro pf_walk_lseg [OF l(1) assms(2)]) (simp_all add: walk_fuel_def)
  have e: "e \<noteq> nullptr" "lseg m (m e) xs nullptr" "lseg m (pf_list l) (as @ [e]) (m e)"
    using l(1) by (auto simp: lseg_append)
  have h: "pf_list l = hd (as @ [e])"
    using e(3) by (cases as) auto
  have "lseg (m(e := nullptr)) (m e) xs nullptr"
    using e(2) l(2) by simp
  moreover have "lseg (m(e := nullptr)) (hd (as @ [e])) (as @ [e]) nullptr"
    using lseg_redirect [OF e(3)] l(2) h by simp
  moreover have "pf_size l - n = of_nat (length xs)"
    using l(3) assms(2) by simp
  ultimately show ?thesis
    using f e(1) h l(2) by (simp add: pf_pop_range_def NextObj_def SetNextObj_def pf_rep_def)
qed

end
