(* ===== verification/Pool_Size.thy ===== *)
theory Pool_Size
  imports Size_Class "HOL-Library.Signed_Division"
begin

text \<open>
  The size classes of the second allocator, \<open>src/Pool/Common.h\<close>. The code computes with \<open>int\<close>; the
  sizes that reach it lie between 1 and 256 KB, so that no operation leaves the 32 bits, and the
  model computes with integers. The classes are those of the first allocator with other indices: the index does not
  subtract the bytes of the classes below, so that the numbers leave gaps and go past the 209 lists.
\<close>

section \<open>The code\<close>

definition p_MAX_BYTES :: int where
  "p_MAX_BYTES = 256 * 1024"

definition p_NFREE_LIST :: int where
  "p_NFREE_LIST = 209"

definition p_RoundUp_impl :: "int \<Rightarrow> int \<Rightarrow> int" where
  "p_RoundUp_impl size' align_num = (size' - 1 + align_num) AND NOT (align_num - 1)"

definition p_Index_impl :: "int \<Rightarrow> nat \<Rightarrow> int" where
  "p_Index_impl size' align_shift = drop_bit align_shift (size' - 1 + push_bit align_shift 1) - 1"

definition p_RoundUp :: "int \<Rightarrow> int" where
  "p_RoundUp size' =
     (if size' \<le> push_bit 7 1 then p_RoundUp_impl size' (push_bit 3 1)
      else if size' \<le> push_bit 10 1 then p_RoundUp_impl size' (push_bit 4 1)
      else if size' \<le> push_bit 13 1 then p_RoundUp_impl size' (push_bit 7 1)
      else if size' \<le> push_bit 16 1 then p_RoundUp_impl size' (push_bit 10 1)
      else if size' \<le> push_bit 18 1 then p_RoundUp_impl size' (push_bit 13 1)
      else 0)"

definition p_Index :: "int \<Rightarrow> int" where
  "p_Index size' =
     (if size' \<le> push_bit 7 1 then p_Index_impl size' 3
      else if size' \<le> push_bit 10 1 then p_Index_impl size' 4 + 16
      else if size' \<le> push_bit 13 1 then p_Index_impl size' 7 + 16 + 56
      else if size' \<le> push_bit 16 1 then p_Index_impl size' 10 + 16 + 56 + 56
      else if size' \<le> push_bit 18 1 then p_Index_impl size' 13 + 16 + 56 + 56 + 56
      else 0)"

definition p_NumsFromCentralCache :: "int \<Rightarrow> int res" where
  "p_NumsFromCentralCache size' =
     (if \<not> size' < p_MAX_BYTES then Inl AssertFailed
      else if size' = 0 then Inl DivByZero
      else let ret = p_MAX_BYTES sdiv size'
        in Inr (if ret > 512 then 512 else if ret < 2 then 2 else ret))"

definition p_NumsFronPageCache :: "int \<Rightarrow> int res" where
  "p_NumsFronPageCache size' =
     rbind (p_NumsFromCentralCache size') (\<lambda>nums.
       let bytes = size' * nums in Inr (drop_bit 13 (bytes - 1 + push_bit 13 1)))"

section \<open>The classes as arithmetic\<close>

definition p_class_index :: "nat \<Rightarrow> nat" where
  "p_class_index n =
     (if n \<le> 128 then ceil_div 8 n - 1 else if n \<le> 1024 then ceil_div 16 n - 1 + 16
      else if n \<le> 8192 then ceil_div 128 n - 1 + 72
      else if n \<le> 65536 then ceil_div 1024 n - 1 + 128
      else ceil_div 8192 n - 1 + 184)"

lemma int_and_not_mask: "(x :: int) AND NOT (2 ^ k - 1) = x div 2 ^ k * 2 ^ k"
proof -
  have "x AND NOT (mask k) = push_bit k (drop_bit k x)"
    by (rule bit_eqI) (auto simp: bit_simps)
  then show ?thesis
    by (simp add: mask_eq_exp_minus_1 push_bit_eq_mult drop_bit_eq_div)
qed

lemma p_RoundUp_impl_eq:
  assumes "0 < n"
  shows "p_RoundUp_impl (int n) (2 ^ k) = int (round_to (2 ^ k) n)"
proof -
  have "int n - 1 + 2 ^ k = int (n + 2 ^ k - 1)"
    using assms by simp
  then show ?thesis
    by (simp only: p_RoundUp_impl_def int_and_not_mask round_to_def) (simp add: zdiv_int)
qed

lemma p_Index_impl_eq:
  assumes "0 < n"
  shows "p_Index_impl (int n) k = int (ceil_div (2 ^ k) n - 1)"
proof -
  have "int n - 1 + 2 ^ k = int (n + 2 ^ k - 1)"
    using assms by simp
  moreover have "1 \<le> ceil_div (2 ^ k) n"
    using ceil_div_bounds(1) [of "2 ^ k" n] assms by (cases "ceil_div (2 ^ k) n") auto
  ultimately show ?thesis
    by (simp only: p_Index_impl_def ceil_div_def push_bit_eq_mult drop_bit_eq_div) (simp add: zdiv_int of_nat_diff)
qed

lemmas p_impl_eqs =
  p_RoundUp_impl_eq [of _ 3, simplified] p_RoundUp_impl_eq [of _ 4, simplified] p_RoundUp_impl_eq [of _ 7, simplified]
  p_RoundUp_impl_eq [of _ 10, simplified] p_RoundUp_impl_eq [of _ 13, simplified]
  p_Index_impl_eq [of _ 3, simplified] p_Index_impl_eq [of _ 4, simplified] p_Index_impl_eq [of _ 7, simplified]
  p_Index_impl_eq [of _ 10, simplified] p_Index_impl_eq [of _ 13, simplified]

lemma p_RoundUp_class:
  assumes "0 < n" "n \<le> 262144"
  shows "p_RoundUp (int n) = int (class_size n)"
  using assms by (simp add: p_RoundUp_def class_size_def class_align_def p_impl_eqs)

lemma p_Index_class:
  assumes "0 < n" "n \<le> 262144"
  shows "p_Index (int n) = int (p_class_index n)"
  using assms by (simp add: p_Index_def p_class_index_def p_impl_eqs)

definition p_bucket_size :: "nat \<Rightarrow> nat" where
  "p_bucket_size i =
     (if i < 16 then 8 * (i + 1) else if i < 80 then 16 * (i - 15) else if i < 136 then 128 * (i - 71)
      else if i < 192 then 1024 * (i - 127) else 8192 * (i - 183))"

lemma p_class_size_bucket:
  assumes "0 < n" "n \<le> 262144"
  shows "class_size n = p_bucket_size (p_class_index n)"
  by (cases rule: class_cases [OF assms])
    (use assms ceil_bounds [of n] in \<open>simp add: class_size_ceil p_class_index_def p_bucket_size_def; linarith\<close>)+

lemma p_class_index_class_size:
  assumes "0 < n" "n \<le> 262144"
  shows "p_class_index (class_size n) = p_class_index n"
  by (cases rule: class_cases [OF assms])
    (use assms ceil_bounds [of n] in \<open>simp add: class_size_ceil p_class_index_def ceil_mults; linarith?\<close>)+

lemma p_class_index_less_iff:
  assumes "0 < n" "n \<le> 262144"
  shows "p_class_index n < 209 \<longleftrightarrow> n \<le> 204800"
  by (cases rule: class_cases [OF assms])
    (use assms ceil_bounds [of n] in \<open>simp add: p_class_index_def; linarith\<close>)+

lemma p_class_size_le:
  assumes "0 < n" "n \<le> 204800"
  shows "class_size n \<le> 204800"
proof -
  have "n \<le> 262144"
    using assms(2) by simp
  from assms(1) this show ?thesis
    by (cases rule: class_cases)
      (use assms ceil_bounds [of n] in \<open>simp add: class_size_ceil; linarith\<close>)+
qed

section \<open>The contract, up to 200 KB\<close>

definition p_bucket_of :: "int \<Rightarrow> nat option" where
  "p_bucket_of s = (if 0 \<le> p_Index s \<and> p_Index s < p_NFREE_LIST then Some (nat (p_Index s)) else None)"

lemma p_bucket_of_eq:
  assumes "0 < n" "n \<le> 204800"
  shows "p_bucket_of (int n) = Some (p_class_index n)"
  using assms p_class_index_less_iff [of n] by (simp add: p_bucket_of_def p_Index_class p_NFREE_LIST_def)

interpretation psc: size_class p_RoundUp p_bucket_of nat 204800 209
proof unfold_locales
  fix s t :: int
  assume s: "0 < nat s" "nat s \<le> 204800"
  obtain m where m: "s = int m" "0 < m" "m \<le> 204800"
    using s by (intro that [of "nat s"]) auto
  have r: "p_RoundUp s = int (class_size m)"
    using m by (simp add: p_RoundUp_class)
  have r': "0 < class_size m" "class_size m \<le> 204800"
    using m class_size_pos p_class_size_le by auto
  show "\<exists>i<209. p_bucket_of s = Some i"
    using m p_bucket_of_eq p_class_index_less_iff by simp
  show "nat s \<le> nat (p_RoundUp s)" "nat (p_RoundUp s) \<le> 204800"
    using r r' m(1) class_size_ge by auto
  show "p_bucket_of (p_RoundUp s) = p_bucket_of s"
    using r r' m by (simp add: p_bucket_of_eq p_class_index_class_size)
  assume t: "0 < nat t" "nat t \<le> 204800" and b: "p_bucket_of s = p_bucket_of t"
  obtain n where n: "t = int n" "0 < n" "n \<le> 204800"
    using t by (intro that [of "nat t"]) auto
  have "p_class_index m = p_class_index n"
    using b m n by (simp add: p_bucket_of_eq)
  then show "p_RoundUp s = p_RoundUp t"
    using m n p_class_size_bucket [of m] p_class_size_bucket [of n] by (simp add: p_RoundUp_class)
qed

section \<open>Properties of the size classes\<close>

text \<open>From 1 byte to 256 KB the size classes of the second allocator round up to a multiple of 8 with
  at most a ninth of waste above 128 bytes, sizes share an index exactly when they share a block size, and
  the index is one of the 209 lists exactly up to 200 KB: above, it is past the end of the arrays.\<close>

theorem pool_size_classes:
  assumes "0 < s" "s \<le> 256 * 1024" "0 < t" "t \<le> 256 * 1024"
  shows "s \<le> p_RoundUp s \<and> 8 dvd p_RoundUp s \<and> (s \<le> 128 \<or> 9 * (p_RoundUp s - s) \<le> p_RoundUp s) \<and>
    p_Index (p_RoundUp s) = p_Index s \<and> (p_Index s = p_Index t \<longleftrightarrow> p_RoundUp s = p_RoundUp t) \<and>
    0 \<le> p_Index s \<and> (p_Index s < p_NFREE_LIST \<longleftrightarrow> s \<le> 200 * 1024)"
proof -
  obtain m n where m: "s = int m" "0 < m" "m \<le> 262144" and n: "t = int n" "0 < n" "n \<le> 262144"
    using assms by (intro that [of "nat s" "nat t"]) auto
  have cs: "0 < class_size m" "class_size m \<le> 262144"
    using m class_size_pos class_size_le by auto
  have waste: "m \<le> 128 \<or> 9 * (int (class_size m) - int m) \<le> int (class_size m)"
    using class_size_waste [of m] class_size_ge [of m] by (cases "m \<le> 128") auto
  have dvd: "8 dvd int (class_size m)"
    using class_size_dvd [of m] int_dvd_int_iff [of 8 "class_size m"] by simp
  have same: "p_class_index m = p_class_index n \<longleftrightarrow> class_size m = class_size n"
    using p_class_size_bucket [of m] p_class_size_bucket [of n] p_class_index_class_size [of m]
      p_class_index_class_size [of n] m n by metis
  show ?thesis
    using m n cs waste dvd same class_size_ge [of m] p_class_index_class_size [of m] p_class_index_less_iff [of m]
    by (simp add: p_RoundUp_class p_Index_class p_NFREE_LIST_def)
qed

lemma pool_size_classes_witness:
  "p_RoundUp 1000 = 1008 \<and> p_Index 1000 < 209 \<and> \<not> p_Index 204801 < 209"
proof -
  have "p_RoundUp 1000 = 1008"
    by (simp add: p_RoundUp_def p_RoundUp_impl_def)
  then show ?thesis
    using pool_size_classes [of 1000 1000] pool_size_classes [of 204801 1000] by (simp add: p_NFREE_LIST_def)
qed

lemma p_NumsFronPageCache_bounds:
  assumes "0 < s" "s < 256 * 1024"
  shows "\<exists>k p. p_NumsFromCentralCache s = Inr k \<and> p_NumsFronPageCache s = Inr p \<and> 2 \<le> k \<and> k \<le> 512 \<and>
    1 \<le> p \<and> p \<le> 64 \<and> s * k \<le> p * 8192 \<and> p * 8192 < s * k + 8192"
proof -
  let ?q = "262144 div s"
  let ?k = "if ?q > 512 then 512 else if ?q < 2 then 2 else ?q"
  have sd: "p_MAX_BYTES sdiv s = ?q"
    using assms(1) by (simp add: p_MAX_BYTES_def signed_divide_int_def)
  have k: "p_NumsFromCentralCache s = Inr ?k"
    using assms by (simp add: p_NumsFromCentralCache_def sd Let_def) (simp add: p_MAX_BYTES_def)
  let ?p = "(s * ?k + 8191) div 8192"
  have p: "p_NumsFronPageCache s = Inr ?p"
    unfolding p_NumsFronPageCache_def k by (simp add: Let_def drop_bit_eq_div)
  have q: "?q * s \<le> 262144"
    using assms(1) div_mult_mod_eq [of 262144 s] pos_mod_sign [of s 262144] by linarith
  have le: "s * ?k \<le> 524288"
  proof -
    have "512 * s \<le> ?q * s" if "?q > 512"
      using assms(1) that by (intro mult_right_mono) auto
    then have "?q > 512 \<Longrightarrow> 512 * s \<le> 262144"
      using q by linarith
    then show ?thesis
      using q assms by (cases "?q > 512"; cases "?q < 2") (simp_all add: mult.commute)
  qed
  have pos: "1 * 2 \<le> s * ?k"
    using assms(1) by (intro mult_mono) auto
  have "s * ?k \<le> ?p * 8192" "?p * 8192 < s * ?k + 8192" "1 \<le> ?p" "?p \<le> 64"
    using le pos by linarith+
  moreover have "2 \<le> ?k" "?k \<le> 512"
    by auto
  ultimately show ?thesis
    using k p by blast
qed

end
