(* ===== verification/Pool_Central.thy ===== *)
theory Pool_Central
  imports Pool_Page_Release Pool_Free_List Pool_Size
begin

text \<open>
  The central cache and the thread caches of the second allocator: \<open>CentralCache.cpp\<close>, \<open>ThreadCache.cpp\<close> and
  \<open>Concurrent.h\<close> of \<open>src/Pool/\<close>. Sizes of blocks are \<open>int\<close>; as in \<open>Pool_Size\<close> they are integers, whose value no
  operation here takes out of the 32 bits for the sizes the pool can serve. Each call under a lock is one step; the
  bucket lock that \<open>FetchRangeObj\<close> and \<open>ReleaseToSpan\<close> drop around the page cache is not modelled. Nor is the
  construction of the singleton of \<open>CentralCache\<close>, which does not fit the block of its object pool
  (\<open>Pool_Object\<close>). \<open>Pool_Pages_Shared\<close> has the threads inside the calls of the page cache.
\<close>

section \<open>\<open>CentralCache\<close>\<close>

record pcentral =
  pk_pages :: pqcache
  pk_heads :: "nat \<Rightarrow> addr"
  pk_mem :: links

abbreviation pk_spans :: "pcentral \<Rightarrow> span_heap" where
  "pk_spans c \<equiv> pq_spans (pk_pages c)"

definition pk_set_spans :: "pcentral \<Rightarrow> span_heap \<Rightarrow> pcentral" where
  "pk_set_spans c h = c\<lparr>pk_pages := (pk_pages c)\<lparr>pq_spans := h\<rparr>\<rparr>"

text \<open>The list of a size: the array of 209 lists is indexed.\<close>

definition p_list_of :: "int \<Rightarrow> nat res" where
  "p_list_of sz = (if 0 \<le> p_Index sz \<and> p_Index sz < p_NFREE_LIST then Inr (nat (p_Index sz)) else Inl OutOfBounds)"

primrec GetOneSpan_loop :: "nat \<Rightarrow> span_heap \<Rightarrow> addr \<Rightarrow> addr \<Rightarrow> addr res" where
  "GetOneSpan_loop 0 h head it = Inl NoFuel"
| "GetOneSpan_loop (Suc fuel) h head it =
     (if it = ps_end head then Inr nullptr
      else if it = nullptr then Inl NullDeref
      else if s_free_lists h it \<noteq> nullptr then Inr it
      else GetOneSpan_loop fuel h head (s_next h it))"

definition GetOneSpan :: "pcentral \<Rightarrow> int \<Rightarrow> addr res" where
  "GetOneSpan c sz =
     rbind (p_list_of sz) (\<lambda>index.
       GetOneSpan_loop walk_fuel (pk_spans c) (pk_heads c index) (ps_begin (pk_spans c) (pk_heads c index)))"

text \<open>The loop that cuts a span into blocks.\<close>

primrec p_cut_loop :: "nat \<Rightarrow> links \<Rightarrow> addr \<Rightarrow> addr \<Rightarrow> u64 \<Rightarrow> (links \<times> addr) res" where
  "p_cut_loop 0 m cur end' sz = Inl NoFuel"
| "p_cut_loop (Suc fuel) m cur end' sz =
     (if cur + sz < end' then
        (let next' = cur + sz in
         rbind (SetNextObj m cur next') (\<lambda>m'. p_cut_loop fuel m' next' end' sz))
      else Inr (m, cur))"

definition FetchFromPageCache :: "pcentral \<Rightarrow> int \<Rightarrow> (addr \<times> pcentral) res" where
  "FetchFromPageCache c sz =
     rbind (p_NumsFronPageCache sz) (\<lambda>apply_page_num.
     rbind (GetNewSpan (pk_pages c) (word_of_int apply_page_num)) (\<lambda>(new_span, pg).
       if new_span = nullptr then Inl AssertFailed
       else
         let h = pq_spans pg;
             start = push_bit 13 (s_page_id h new_span);
             end' = start + push_bit 13 1 * s_npage h new_span;
             pg1 = pg\<lparr>pq_spans := h\<lparr>s_free_lists := (s_free_lists h)(new_span := start)\<rparr>,
                      pq_obj := (pq_obj pg)(new_span := word_of_int sz)\<rparr>
         in
         rbind (p_cut_loop walk_fuel (pk_mem c) start end' (word_of_int sz)) (\<lambda>(m, cur).
         rbind (SetNextObj m cur nullptr) (\<lambda>m'.
           Inr (new_span, c\<lparr>pk_pages := pg1, pk_mem := m'\<rparr>)))))"

text \<open>\<open>while (--obj_num && NextObj(end))\<close>.\<close>

primrec p_take_loop :: "nat \<Rightarrow> links \<Rightarrow> addr \<Rightarrow> i32 \<Rightarrow> i32 \<Rightarrow> (addr \<times> i32) res" where
  "p_take_loop 0 m end' obj_num actual_num = Inl NoFuel"
| "p_take_loop (Suc fuel) m end' obj_num actual_num =
     (if obj_num - 1 = 0 then Inr (end', actual_num)
      else rbind (NextObj m end') (\<lambda>next'.
        if next' = nullptr then Inr (end', actual_num)
        else p_take_loop fuel m next' (obj_num - 1) (actual_num + 1)))"

definition p_detach :: "pcentral \<Rightarrow> addr \<Rightarrow> i32 \<Rightarrow> (i32 \<times> addr \<times> addr \<times> pcentral) res" where
  "p_detach c span obj_num =
     (if s_free_lists (pk_spans c) span = nullptr then Inl AssertFailed
      else
        let start = s_free_lists (pk_spans c) span in
        rbind (p_take_loop walk_fuel (pk_mem c) start obj_num 1) (\<lambda>(end', actual_num).
        rbind (NextObj (pk_mem c) end') (\<lambda>rest.
        rbind (SetNextObj (pk_mem c) end' nullptr) (\<lambda>m.
          let pg = pk_pages c; h = pq_spans pg;
              pg1 = pg\<lparr>pq_use := (pq_use pg)(span := pq_use pg span + scast actual_num),
                       pq_spans := h\<lparr>s_free_lists := (s_free_lists h)(span := rest)\<rparr>\<rparr>
          in Inr (actual_num, start, end', c\<lparr>pk_pages := pg1, pk_mem := m\<rparr>)))))"

definition p_FetchRangeObj :: "pcentral \<Rightarrow> int \<Rightarrow> i32 \<Rightarrow> (i32 \<times> addr \<times> addr \<times> pcentral) res" where
  "p_FetchRangeObj c sz obj_num =
     rbind (p_list_of sz) (\<lambda>index.
     rbind (GetOneSpan c sz) (\<lambda>found.
       if found = nullptr then
         rbind (FetchFromPageCache c sz) (\<lambda>(span, c1).
         rbind (ps_push_front (pk_spans c1) (pk_heads c1 index) span) (\<lambda>h.
           p_detach (pk_set_spans c1 h) span obj_num))
       else p_detach c found obj_num))"

text \<open>One block goes back; the bucket lock is dropped around the call of the page cache.\<close>

definition p_release_block :: "pcentral \<Rightarrow> nat \<Rightarrow> addr \<Rightarrow> (addr \<times> pcentral) res" where
  "p_release_block c index cur =
     rbind (NextObj (pk_mem c) cur) (\<lambda>next'.
       let ret_span = AddrToSpan (pk_pages c) cur in
       if ret_span = nullptr then Inl AssertFailed
       else
     rbind (SetNextObj (pk_mem c) cur (s_free_lists (pk_spans c) ret_span)) (\<lambda>m.
       let pg = pk_pages c; h = pq_spans pg;
           pg1 = pg\<lparr>pq_spans := h\<lparr>s_free_lists := (s_free_lists h)(ret_span := cur)\<rparr>,
                    pq_use := (pq_use pg)(ret_span := pq_use pg ret_span - 1)\<rparr>
       in if pq_use pg1 ret_span = 0 then
            rbind (ps_erase (pq_spans pg1) (pk_heads c index) ret_span) (\<lambda>h2.
            rbind (p_ReleaseSpan (pg1\<lparr>pq_spans := h2\<rparr>) ret_span) (\<lambda>pg2.
              Inr (next', c\<lparr>pk_pages := pg2, pk_mem := m\<rparr>)))
          else Inr (next', c\<lparr>pk_pages := pg1, pk_mem := m\<rparr>)))"

primrec p_release_loop :: "nat \<Rightarrow> pcentral \<Rightarrow> nat \<Rightarrow> addr \<Rightarrow> pcentral res" where
  "p_release_loop 0 c index cur = Inl NoFuel"
| "p_release_loop (Suc fuel) c index cur =
     (if cur = nullptr then Inr c
      else rbind (p_release_block c index cur) (\<lambda>(next', c'). p_release_loop fuel c' index next'))"

definition ReleaseToSpan :: "pcentral \<Rightarrow> addr \<Rightarrow> int \<Rightarrow> pcentral res" where
  "ReleaseToSpan c start sz = rbind (p_list_of sz) (\<lambda>index. p_release_loop walk_fuel c index start)"

section \<open>\<open>ThreadCache\<close>\<close>

type_synonym p_thread_cache = "nat \<Rightarrow> p_free_list"

definition p_new_thread_cache :: p_thread_cache where
  "p_new_thread_cache = (\<lambda>_. pf_new)"

definition p_FetchFromCentral :: "pcentral \<Rightarrow> p_thread_cache \<Rightarrow> int \<Rightarrow> (addr \<times> pcentral \<times> p_thread_cache) res" where
  "p_FetchFromCentral c tc sz =
     rbind (p_list_of sz) (\<lambda>index.
     rbind (p_NumsFromCentralCache sz) (\<lambda>nums.
       let l = tc index;
           obj_num = (if sint (pf_max l) < nums then pf_max l else word_of_int nums);
           l1 = (if obj_num = pf_max l then l\<lparr>pf_max := pf_max l + 1\<rparr> else l)
       in
     rbind (p_FetchRangeObj c sz obj_num) (\<lambda>(actual_num, start, end', c1).
       if sint actual_num > 1 then
         rbind (NextObj (pk_mem c1) start) (\<lambda>second.
         rbind (pf_push_range (pk_mem c1) l1 second end' (actual_num - 1)) (\<lambda>(m, l2).
           Inr (start, c1\<lparr>pk_mem := m\<rparr>, tc(index := l2))))
       else Inr (start, c1, tc(index := l1)))))"

definition p_Allocate :: "pcentral \<Rightarrow> p_thread_cache \<Rightarrow> int \<Rightarrow> (addr \<times> pcentral \<times> p_thread_cache) res" where
  "p_Allocate c tc sz =
     (let align_size = p_RoundUp sz in
      rbind (p_list_of align_size) (\<lambda>index.
        if \<not> pf_Empty (tc index) then
          rbind (pf_pop_front (pk_mem c) (tc index)) (\<lambda>(p, l). Inr (p, c, tc(index := l)))
        else p_FetchFromCentral c tc align_size))"

definition p_ListTooLong :: "pcentral \<Rightarrow> p_free_list \<Rightarrow> int \<Rightarrow> (pcentral \<times> p_free_list) res" where
  "p_ListTooLong c l sz =
     rbind (pf_pop_range (pk_mem c) l (pf_max l)) (\<lambda>(start, end', m, l1).
     rbind (ReleaseToSpan (c\<lparr>pk_mem := m\<rparr>) start sz) (\<lambda>c1.
       Inr (c1, l1)))"

definition p_Deallocate :: "pcentral \<Rightarrow> p_thread_cache \<Rightarrow> addr \<Rightarrow> int \<Rightarrow> (pcentral \<times> p_thread_cache) res" where
  "p_Deallocate c tc ptr size0 =
     (let sz = p_RoundUp size0 in
      rbind (p_list_of sz) (\<lambda>index.
      rbind (pf_push_front (pk_mem c) (tc index) ptr) (\<lambda>(m, l).
        if sint (pf_size l) > sint (pf_max l) then
          rbind (p_ListTooLong (c\<lparr>pk_mem := m\<rparr>) l sz) (\<lambda>(c1, l1). Inr (c1, tc(index := l1)))
        else Inr (c\<lparr>pk_mem := m\<rparr>, tc(index := l)))))"

section \<open>\<open>Alloc\<close> and \<open>Free\<close>\<close>

text \<open>The program: the caches of the threads, made on a first \<open>Alloc\<close> from an object pool of their own; a cache
  has 209 lists of 16 bytes.\<close>

record palloc =
  pa_central :: pcentral
  pa_pool :: ppool
  pa_threads :: "nat \<Rightarrow> p_thread_cache option"

definition p_THREAD_CACHE_SIZE :: u64 where
  "p_THREAD_CACHE_SIZE = 3344"

definition Alloc :: "palloc \<Rightarrow> nat \<Rightarrow> int \<Rightarrow> (addr \<times> palloc) res" where
  "Alloc s t sz =
     rbind (case pa_threads s t of
        Some tc \<Rightarrow> Inr (tc, s)
      | None \<Rightarrow> rbind (pp_New p_THREAD_CACHE_SIZE (pa_pool s)) (\<lambda>(_, pool).
          Inr (p_new_thread_cache, s\<lparr>pa_pool := pool\<rparr>))) (\<lambda>(tc, s1).
     rbind (p_Allocate (pa_central s1) tc sz) (\<lambda>(p, c, tc1).
       Inr (p, s1\<lparr>pa_central := c, pa_threads := (pa_threads s1)(t := Some tc1)\<rparr>)))"

definition Free :: "palloc \<Rightarrow> nat \<Rightarrow> addr \<Rightarrow> palloc res" where
  "Free s t ptr =
     (let pg = pk_pages (pa_central s); span = AddrToSpan pg ptr in
      if span = nullptr then Inl NullDeref
      else
        let sz = p_RoundUp (sint (pq_obj pg span)) in
        case pa_threads s t of
          None \<Rightarrow> Inl AssertFailed
        | Some tc \<Rightarrow> rbind (p_Deallocate (pa_central s) tc ptr sz) (\<lambda>(c, tc1).
            Inr (s\<lparr>pa_central := c, pa_threads := (pa_threads s)(t := Some tc1)\<rparr>)))"

end
