(* ===== verification/Pool_Central_Inv.thy ===== *)
theory Pool_Central_Inv
  imports Pool_Central Central_Inv Thread_Lists
begin

text \<open>
  The invariant of the second central cache and its preservation by \<open>FetchRangeObj\<close> and \<open>ReleaseToSpan\<close>. The
  blocks of a span and who owns them obey the laws of \<open>Block_Owner\<close>; the spans come from the page cache with
  \<open>pq_inv\<close>. A span handed out by the page cache is expected to have no block out: \<open>GetNewSpan\<close> does not reset the
  count of a span it finds in a list, and need not, since a span goes back only when its count is 0.
\<close>

section \<open>Blocks of a span\<close>

definition p_view :: "pqcache \<Rightarrow> span_heap" where
  "p_view pg = (pq_spans pg)\<lparr>s_obj_size := (\<lambda>x. scast (pq_obj pg x))\<rparr>"

definition p_blocks :: "pqcache \<Rightarrow> addr \<Rightarrow> addr list" where
  "p_blocks pg = blocks (p_view pg)"

definition p_class :: "int \<Rightarrow> nat \<Rightarrow> bool" where
  "p_class sz i \<longleftrightarrow> 1 \<le> sz \<and> sz \<le> 204800 \<and> p_RoundUp sz = sz \<and> p_bucket_of sz = Some i"

lemma p_class_RoundUp:
  assumes "1 \<le> s" "s \<le> 204800" "p_bucket_of s = Some i"
  shows "p_class (p_RoundUp s) i"
proof -
  have s: "0 < nat s" "nat s \<le> 204800"
    using assms(1,2) by simp_all
  have "0 < nat (p_RoundUp s)"
    by (rule psc.round_up_pos [OF s])
  then show ?thesis
    using psc.round_up_limit [OF s] psc.round_up_idem [OF s] psc.bucket_round_up [OF s] assms(3) by (simp add: p_class_def)
qed

lemma p_class_less: "p_class sz i \<Longrightarrow> i < 209"
  using psc.bucket_in_range [of sz] by (auto simp: p_class_def)

lemma p_class_list: "p_class sz i \<Longrightarrow> p_list_of sz = Inr i"
  by (auto simp: p_class_def p_list_of_def p_bucket_of_def split: if_splits)

lemma p_class_eq: "p_class s i \<Longrightarrow> p_class t i \<Longrightarrow> s = t"
  using psc.same_bucket [of s t] by (auto simp: p_class_def)

lemma p_class_word:
  assumes "p_class sz i"
  shows "sint (word_of_int sz :: i32) = sz" "scast (word_of_int sz :: i32) = (word_of_int sz :: u64)"
    "unat (word_of_int sz :: u64) = nat sz"
proof -
  have b: "1 \<le> sz" "sz \<le> 204800"
    using assms by (simp_all add: p_class_def)
  then show s: "sint (word_of_int sz :: i32) = sz"
    by (intro sint_of_int_i32) simp_all
  then show "scast (word_of_int sz :: i32) = (word_of_int sz :: u64)"
    by (simp only: scast_eq)
  have "word_of_int sz = (of_nat (nat sz) :: u64)"
    using b by simp
  then show "unat (word_of_int sz :: u64) = nat sz"
    using b unat_of_nat_small [of "nat sz"] by simp
qed

lemma p_view_simps [simp]:
  "s_page_id (p_view pg) = s_page_id (pq_spans pg)" "s_npage (p_view pg) = s_npage (pq_spans pg)"
  "s_obj_size (p_view pg) = (\<lambda>x. scast (pq_obj pg x))" "lo (p_view pg) = lo (pq_spans pg)"
  "np (p_view pg) = np (pq_spans pg)" "owns (p_view pg) = owns (pq_spans pg)"
  "layout_ok (p_view pg) = layout_ok (pq_spans pg)"
  by (simp_all add: p_view_def lo_def np_def owns_def layout_ok_def fun_eq_iff)

lemma p_blocks_cong:
  "s_page_id (pq_spans pg') x = s_page_id (pq_spans pg) x \<Longrightarrow> s_npage (pq_spans pg') x = s_npage (pq_spans pg) x \<Longrightarrow>
    pq_obj pg' x = pq_obj pg x \<Longrightarrow> p_blocks pg' x = p_blocks pg x"
  unfolding p_blocks_def by (rule blocks_cong) simp_all

text \<open>A span of a class that the layout knows is sane, and its blocks fit the count of 64 bits.\<close>

lemma p_sane:
  assumes "layout_ok (pq_spans pg) A" "x \<in> A" "p_class (sint (pq_obj pg x)) i"
  shows "span_sane (p_view pg) x" "distinct (p_blocks pg x)" "nullptr \<notin> set (p_blocks pg x)"
    "length (p_blocks pg x) < 2 ^ LENGTH(64)"
proof -
  have u: "unat (scast (pq_obj pg x) :: u64) = nat (sint (pq_obj pg x))"
    using p_class_word(3) [OF assms(3)] by (simp only: scast_eq)
  moreover have "0 < nat (sint (pq_obj pg x))" "nat (sint (pq_obj pg x)) \<le> 262144"
    using assms(3) by (auto simp: p_class_def)
  ultimately show s: "span_sane (p_view pg) x"
    using layout_bounds [OF assms(1,2)] by (simp add: span_sane_def)
  then show "distinct (p_blocks pg x)"
    unfolding p_blocks_def by (rule distinct_blocks)
  show "nullptr \<notin> set (p_blocks pg x)"
    unfolding p_blocks_def using block_owner(2) [OF s] by blast
  have "length (p_blocks pg x) \<le> np (pq_spans pg) x * 8192"
    using n_blocks_le s by (simp add: p_blocks_def blocks_def span_sane_def)
  moreover have "np (pq_spans pg) x \<le> 1125899906842624"
    using layout_bounds [OF assms(1,2)] by simp
  ultimately show "length (p_blocks pg x) < 2 ^ LENGTH(64)"
    by simp
qed

section \<open>The count of a span outside the central cache\<close>

lemma p_new_span_use:
  "p_new_span s = Inr (k, s') \<Longrightarrow> pq_use s' = (pq_use s)(k := 0)"
  by (auto simp: p_new_span_def p_Span_def rbind_eq_Inr)

lemma GetNewSpan_pop_use: "GetNewSpan_pop s n = Inr (x, s') \<Longrightarrow> pq_use s' = pq_use s"
  by (auto simp: GetNewSpan_pop_def rbind_eq_Inr Let_def)

lemma GetNewSpan_split_use:
  assumes "GetNewSpan_split s i n = Inr (x, s')"
  shows "pq_use s' z = pq_use s z \<or> pq_use s' z = 0"
proof -
  obtain h k s2 h5 m2 where "p_new_span (s\<lparr>pq_spans := h\<rparr>) = Inr (k, s2)" "s' = s2\<lparr>pq_spans := h5, pq_map := m2\<rparr>"
    using assms by (auto simp: GetNewSpan_split_def rbind_eq_Inr Let_def)
  then show ?thesis
    using p_new_span_use by fastforce
qed

lemma GetNewSpan_refill_use:
  assumes "GetNewSpan_refill s = Inr s'"
  shows "pq_use s' z = pq_use s z \<or> pq_use s' z = 0"
proof -
  obtain k s1 where "p_new_span s = Inr (k, s1)" "pq_use s' = pq_use s1"
    using assms by (auto simp: GetNewSpan_refill_def rbind_eq_Inr Let_def p_SystemAlloc_def split: if_splits list.splits)
  then show ?thesis
    using p_new_span_use by fastforce
qed

lemma GetNewSpan_rec_use:
  assumes "GetNewSpan_rec fuel s n = Inr (x, s')"
  shows "pq_use s' z = pq_use s z \<or> pq_use s' z = 0"
  using assms
proof (induction fuel arbitrary: s)
  case (Suc fuel)
  consider "GetNewSpan_pop s n = Inr (x, s')" | i where "GetNewSpan_split s i n = Inr (x, s')"
    | s1 where "GetNewSpan_refill s = Inr s1" "GetNewSpan_rec fuel s1 n = Inr (x, s')"
    using Suc.prems by (auto simp: rbind_eq_Inr split: if_splits option.splits)
  then show ?case
  proof cases
    case 1
    then show ?thesis using GetNewSpan_pop_use by simp
  next
    case 2
    then show ?thesis by (rule GetNewSpan_split_use)
  next
    case 3
    then show ?thesis using GetNewSpan_refill_use [OF 3(1), of z] Suc.IH by metis
  qed
qed simp

lemma GetNewSpan_use: "GetNewSpan s n = Inr (x, s') \<Longrightarrow> pq_use s' z = pq_use s z \<or> pq_use s' z = 0"
  unfolding GetNewSpan_def by (rule GetNewSpan_rec_use)

lemma while_merge_keeps:
  assumes "while_merge step fuel s x = Inr s'" "\<And>s1 s2. step s1 x = Inr (Some s2) \<Longrightarrow> f s2 = f s1"
  shows "f s' = f s"
  using assms(1)
  by (induction fuel arbitrary: s) (auto simp: rbind_eq_Inr assms(2) split: option.splits)

lemma p_merge_use:
  "p_merge_prev s x = Inr (Some s') \<Longrightarrow> pq_use s' = pq_use s"
  "p_merge_next s x = Inr (Some s') \<Longrightarrow> pq_use s' = pq_use s"
  by (auto simp: p_merge_prev_def p_merge_next_def Let_def rbind_eq_Inr split: if_splits)

lemma p_ReleaseSpan_use:
  assumes "p_ReleaseSpan s x = Inr s'"
  shows "pq_use s' = pq_use s"
proof -
  obtain s1 s2 where w: "while_merge p_merge_prev walk_fuel s x = Inr s1" "while_merge p_merge_next walk_fuel s1 x = Inr s2"
      "p_Release_finish s2 x = Inr s'"
    using assms by (auto simp: p_ReleaseSpan_def rbind_eq_Inr simp del: walk_fuel_def)
  have "pq_use s' = pq_use s2"
    using w(3) by (auto simp: p_Release_finish_def Let_def rbind_eq_Inr)
  also have "\<dots> = pq_use s1"
    by (rule while_merge_keeps [OF w(2)]) (rule p_merge_use(2))
  also have "\<dots> = pq_use s"
    by (rule while_merge_keeps [OF w(1)]) (rule p_merge_use(1))
  finally show ?thesis .
qed

section \<open>The invariant\<close>

definition pk_inv :: "pcentral \<Rightarrow> (nat \<Rightarrow> addr list) \<Rightarrow> addr set \<Rightarrow> (nat \<Rightarrow> addr list) \<Rightarrow> (addr \<Rightarrow> addr list) \<Rightarrow> bool" where
  "pk_inv c L U C B \<longleftrightarrow>
     pq_inv (pk_pages c) L U {} {} \<and>
     (\<forall>z \<in> pq_foot (pk_pages c) L. pq_use (pk_pages c) z = 0) \<and>
     buckets_ok sl_rep (pk_spans c) (pk_heads c) C 209 \<and>
     pk_heads c ` {..<209} \<inter> (pq_foot (pk_pages c) L \<union> U) = {} \<and>
     (\<forall>i < 209. \<forall>x \<in> set (C i). x \<in> U \<and> np (pk_spans c) x \<le> 128 \<and> p_class (sint (pq_obj (pk_pages c) x)) i) \<and>
     owned 209 (p_blocks (pk_pages c)) (s_free_lists (pk_spans c)) (pq_use (pk_pages c)) (pk_mem c) C B"

definition p_out :: "pcentral \<Rightarrow> (nat \<Rightarrow> addr list) \<Rightarrow> (addr \<Rightarrow> addr list) \<Rightarrow> nat \<Rightarrow> addr set" where
  "p_out c C B = out_of (p_blocks (pk_pages c)) C B"

lemma pk_invD:
  assumes "pk_inv c L U C B"
  shows "pq_inv (pk_pages c) L U {} {}" "z \<in> pq_foot (pk_pages c) L \<Longrightarrow> pq_use (pk_pages c) z = 0"
    "buckets_ok sl_rep (pk_spans c) (pk_heads c) C 209"
    "pk_heads c ` {..<209} \<inter> (pq_foot (pk_pages c) L \<union> U) = {}"
    "i < 209 \<Longrightarrow> x \<in> set (C i) \<Longrightarrow> x \<in> U \<and> np (pk_spans c) x \<le> 128 \<and> p_class (sint (pq_obj (pk_pages c) x)) i"
    "owned 209 (p_blocks (pk_pages c)) (s_free_lists (pk_spans c)) (pq_use (pk_pages c)) (pk_mem c) C B"
  using assms by (simp_all add: pk_inv_def)

lemma pq_inv_foot: "pq_inv s L U {} {} \<Longrightarrow> U \<inter> pq_foot s L = {}"
proof -
  assume inv: "pq_inv s L U {} {}"
  then obtain xs where xs: "pp_rep p_SPAN_SIZE (pq_pool s) xs" "set xs \<inter> (pq_heads s ` {..<129} \<union> free_spans L \<union> U) = {}"
    by (auto simp: pq_inv_def pool_inv_def)
  then show ?thesis
    using inv pq_slots_rep [OF xs(1)] by (auto simp: pq_inv_def pq_foot_def)
qed

lemma pq_inv_null: "pq_inv s L U X N \<Longrightarrow> nullptr \<notin> U"
  by (auto simp: pq_inv_def pool_inv_def)

text \<open>A block leads to its span, and to no other.\<close>

lemma AddrToSpan_block:
  assumes inv: "pk_inv c L U C B" and x: "i < 209" "x \<in> set (C i)" and a: "a \<in> set (p_blocks (pk_pages c) x)"
  shows "AddrToSpan (pk_pages c) a = x" "x \<noteq> nullptr" "a \<noteq> nullptr"
proof -
  note d = pq_invD [OF pk_invD(1) [OF inv]]
  have xi: "x \<in> U" "p_class (sint (pq_obj (pk_pages c) x)) i"
    using pk_invD(5) [OF inv x] by simp_all
  have s: "span_sane (p_view (pk_pages c)) x"
    by (rule p_sane(1) [OF d(7) _ xi(2)]) (use xi in simp)
  have o: "owns (pk_spans c) x (drop_bit 13 a)" and "a \<noteq> nullptr"
    using block_owner [OF s] a by (simp_all add: p_blocks_def PAGE_SHIFT_def)
  then show "a \<noteq> nullptr" by simp
  show "x \<noteq> nullptr"
    using pq_inv_null [OF pk_invD(1) [OF inv]] xi by auto
  have "pm_get (pq_map (pk_pages c)) (drop_bit 13 a) = x"
    using d(8) xi(1) o unfolding map_ok_def by blast
  then show "AddrToSpan (pk_pages c) a = x"
    by (simp add: AddrToSpan_def rt_get_pm_get)
qed

text \<open>Changes the page cache does not see.\<close>

lemma pq_inv_frame:
  assumes "pq_inv s L U X N"
    and "s_page_id h' = s_page_id (pq_spans s)" "s_npage h' = s_npage (pq_spans s)"
      "s_is_used h' = s_is_used (pq_spans s)"
    and "\<And>z. z \<in> pq_heads s ` {..<129} \<union> free_spans L \<Longrightarrow>
      s_next h' z = s_next (pq_spans s) z \<and> s_prev h' z = s_prev (pq_spans s) z"
  shows "pq_inv (s\<lparr>pq_spans := h', pq_use := u, pq_obj := b\<rparr>) L U X N"
proof -
  have e: "lo h' = lo (pq_spans s)" "np h' = np (pq_spans s)"
    using assms(2,3) by (simp_all add: lo_def np_def fun_eq_iff)
  have "sl_rep h' (pq_heads s i) (L i) = sl_rep (pq_spans s) (pq_heads s i) (L i)" if "i < 129" for i
    using that assms(5) by (intro sl_rep_cong) (auto simp: free_spans_def)
  then have "buckets_ok sl_rep h' (pq_heads s) L 129"
    using assms(1) by (simp add: pq_inv_def buckets_ok_def)
  moreover have "owns h' = owns (pq_spans s)" "at_end h' = at_end (pq_spans s)"
    by (simp_all add: owns_def at_end_def e fun_eq_iff)
  ultimately show ?thesis
    using assms(1,4) by (simp add: pq_inv_def layout_ok_def map_ok_def flags_ok_def e)
qed

lemma pq_foot_fields [simp]: "pq_foot (s\<lparr>pq_spans := h, pq_use := u, pq_obj := b\<rparr>) L = pq_foot s L"
  by (simp add: pq_foot_def)

lemma p_central_nodes:
  assumes "pk_inv c L U C B" "i < 209"
  shows "insert (pk_heads c i) (set (C i)) \<inter> pq_foot (pk_pages c) L = {}"
  using pk_invD(4,5) [OF assms(1)] assms(2) pq_inv_foot [OF pk_invD(1) [OF assms(1)]] by blast

text \<open>The chains, the counts and the links of a state move, and nothing else.\<close>

definition p_moved :: "pcentral \<Rightarrow> addr \<Rightarrow> addr \<Rightarrow> u64 \<Rightarrow> links \<Rightarrow> pcentral" where
  "p_moved c x f u m =
     c\<lparr>pk_pages := (pk_pages c)\<lparr>pq_spans := (pk_spans c)\<lparr>s_free_lists := (s_free_lists (pk_spans c))(x := f)\<rparr>,
        pq_use := (pq_use (pk_pages c))(x := u)\<rparr>, pk_mem := m\<rparr>"

lemma p_moved_fields [simp]:
  "pk_mem (p_moved c x f u m) = m" "pk_heads (p_moved c x f u m) = pk_heads c"
  "pq_use (pk_pages (p_moved c x f u m)) = (pq_use (pk_pages c))(x := u)"
  "pq_obj (pk_pages (p_moved c x f u m)) = pq_obj (pk_pages c)"
  "pq_map (pk_pages (p_moved c x f u m)) = pq_map (pk_pages c)"
  "s_free_lists (pk_spans (p_moved c x f u m)) = (s_free_lists (pk_spans c))(x := f)"
  "s_next (pk_spans (p_moved c x f u m)) = s_next (pk_spans c)"
  "s_prev (pk_spans (p_moved c x f u m)) = s_prev (pk_spans c)"
  "np (pk_spans (p_moved c x f u m)) = np (pk_spans c)"
  "pq_foot (pk_pages (p_moved c x f u m)) L = pq_foot (pk_pages c) L"
  by (simp_all add: p_moved_def np_def fun_eq_iff pq_foot_def)

lemma p_blocks_moved [simp]: "p_blocks (pk_pages (p_moved c x f u m)) = p_blocks (pk_pages c)"
  by (rule ext, rule p_blocks_cong) (simp_all add: p_moved_def)

lemma pk_inv_moved:
  assumes inv: "pk_inv c L U C B" and x: "i < 209" "x \<in> set (C i)"
    and own: "owned 209 (p_blocks (pk_pages c)) ((s_free_lists (pk_spans c))(x := f)) ((pq_use (pk_pages c))(x := u)) m C B'"
  shows "pk_inv (p_moved c x f u m) L U C B'"
proof -
  have "pq_inv ((pk_pages c)\<lparr>pq_spans := (pk_spans c)\<lparr>s_free_lists := (s_free_lists (pk_spans c))(x := f)\<rparr>,
      pq_use := (pq_use (pk_pages c))(x := u), pq_obj := pq_obj (pk_pages c)\<rparr>) L U {} {}"
    by (rule pq_inv_frame [OF pk_invD(1) [OF inv]]) simp_all
  then have "pq_inv (pk_pages (p_moved c x f u m)) L U {} {}"
    by (simp add: p_moved_def)
  moreover have "\<forall>z \<in> pq_foot (pk_pages c) L. ((pq_use (pk_pages c))(x := u)) z = 0"
    using p_central_nodes [OF inv x(1)] x(2) pk_invD(2) [OF inv] by auto
  moreover have "buckets_ok sl_rep (pk_spans (p_moved c x f u m)) (pk_heads c) C 209"
    using pk_invD(3) [OF inv] buckets_cong [of "pk_spans (p_moved c x f u m)" "pk_spans c"] by simp
  ultimately show ?thesis
    using inv own by (simp add: pk_inv_def del: fun_upd_apply)
qed

lemma pk_inv_mem:
  assumes "pk_inv c L U C B" "i < 209" "\<And>a. a \<notin> p_out c C B i \<Longrightarrow> m a = pk_mem c a"
  shows "pk_inv (c\<lparr>pk_mem := m\<rparr>) L U C B"
  using assms(1) owned_mem [OF pk_invD(6) [OF assms(1)] assms(2), of m] assms(3) by (simp add: pk_inv_def p_out_def)

lemma p_out_mem [simp]: "p_out (c\<lparr>pk_mem := m\<rparr>) C B = p_out c C B"
  by (simp add: p_out_def)

section \<open>A batch leaves a span\<close>

lemma p_take_loop_ok:
  assumes "lseg m p (x # xs) nullptr" "n = of_nat (Suc k)" "k < 2147483647" "k < fuel"
  shows "p_take_loop fuel m p n c = Inr (last (take (Suc k) (x # xs)), c + of_nat (min k (length xs)))"
  using assms
proof (induction k arbitrary: p x xs n c fuel)
  case 0
  then show ?case by (cases fuel) auto
next
  case (Suc k)
  obtain f where f: "fuel = Suc f" "k < f"
    using Suc.prems(4) by (cases fuel) auto
  have x: "p = x" "x \<noteq> nullptr" "lseg m (m x) xs nullptr"
    using Suc.prems(1) by auto
  have n: "n - 1 = of_nat (Suc k)"
    using Suc.prems(2) by simp
  have "n - 1 \<noteq> 0"
    unfolding n using of_nat_i32_inj [of "Suc k" 0] Suc.prems(3) by auto
  show ?case
  proof (cases xs)
    case Nil
    then show ?thesis
      using x f(1) \<open>n - 1 \<noteq> 0\<close> by (simp add: NextObj_def)
  next
    case (Cons y ys)
    have "p_take_loop f m y (n - 1) (c + 1) = Inr (last (take (Suc k) (y # ys)), c + 1 + of_nat (min k (length ys)))"
      using Suc.IH [of "m x" y ys "n - 1" f "c + 1"] x(3) n Suc.prems(3) f(2) Cons by simp
    moreover have "m x = y" "y \<noteq> nullptr"
      using x(3) Cons by auto
    ultimately show ?thesis
      using x f(1) Cons \<open>n - 1 \<noteq> 0\<close> by (simp add: NextObj_def)
  qed
qed

lemma p_detach_ok:
  assumes xs: "lseg (pk_mem c) (s_free_lists (pk_spans c) x) xs nullptr" "distinct xs" "xs \<noteq> []"
    and n: "obj_num = of_nat n" "1 \<le> n" "n \<le> 2147483647" and k: "k = min n (length xs)"
  obtains rest where "p_detach c x obj_num = Inr (of_nat k, hd xs, last (take k xs),
      p_moved c x rest (pq_use (pk_pages c) x + of_nat k) ((pk_mem c)(last (take k xs) := nullptr)))"
    "lseg ((pk_mem c)(last (take k xs) := nullptr)) (hd xs) (take k xs) nullptr"
    "lseg ((pk_mem c)(last (take k xs) := nullptr)) rest (drop k xs) nullptr"
proof -
  obtain y ys where y: "xs = y # ys"
    using xs(3) by (cases xs) auto
  have k1: "1 \<le> k" "k \<le> length xs" "k < 2147483648"
    using n k y by simp_all
  note cut = lseg_cut [OF xs(1,2) k1(1,2)]
  have st: "s_free_lists (pk_spans c) x = y" "y \<noteq> nullptr"
    using xs(1) y by auto
  have "p_take_loop walk_fuel (pk_mem c) y obj_num 1 =
      Inr (last (take (Suc (n - 1)) (y # ys)), 1 + of_nat (min (n - 1) (length ys)))"
    using n xs(1) y st by (intro p_take_loop_ok) (auto simp: walk_fuel_def)
  moreover have "take (Suc (n - 1)) (y # ys) = take k xs"
    using n(2) k y by (simp add: min_def)
  moreover have "(1 :: i32) + of_nat (min (n - 1) (length ys)) = of_nat k"
  proof -
    have "k = Suc (min (n - 1) (length ys))"
      using n(2) k y by simp
    then show ?thesis by simp
  qed
  ultimately have t: "p_take_loop walk_fuel (pk_mem c) y obj_num 1 = Inr (last (take k xs), of_nat k)"
    by (simp del: take_Suc_Cons)
  have "(scast (of_nat k :: i32) :: u64) = of_nat k"
    unfolding scast_eq sint_of_nat_i32 [OF k1(3)] by simp
  then have "p_detach c x obj_num = Inr (of_nat k, hd xs, last (take k xs),
      p_moved c x (pk_mem c (last (take k xs))) (pq_use (pk_pages c) x + of_nat k) ((pk_mem c)(last (take k xs) := nullptr)))"
    using st t cut(1) y by (simp add: p_detach_def Let_def NextObj_def SetNextObj_def p_moved_def)
  then show thesis
    using that cut(3-5) by simp
qed

definition p_fetch_ok :: "pcentral \<Rightarrow> (nat \<Rightarrow> addr list) \<Rightarrow> (addr \<Rightarrow> addr list) \<Rightarrow> nat \<Rightarrow> nat \<Rightarrow>
    (i32 \<times> addr \<times> addr \<times> pcentral) res \<Rightarrow> bool" where
  "p_fetch_ok c C B i n r \<longleftrightarrow>
     (\<exists>bs c' L' U' C' B'. r = Inr (of_nat (length bs), hd bs, last bs, c') \<and>
        bs \<noteq> [] \<and> length bs \<le> n \<and> distinct bs \<and> lseg (pk_mem c') (hd bs) bs nullptr \<and>
        pk_inv c' L' U' C' B' \<and> (\<forall>j < 209. set bs \<inter> p_out c C B j = {}) \<and>
        (\<forall>j < 209. p_out c' C' B' j = p_out c C B j \<union> (if j = i then set bs else {})) \<and>
        (\<forall>j < 209. \<forall>a \<in> p_out c C B j. pk_mem c' a = pk_mem c a))"

lemma p_fetch_from_span:
  assumes inv: "pk_inv c L U C B" and x: "i < 209" "x \<in> set (C i)" and B: "B x \<noteq> []"
    and n: "obj_num = of_nat n" "1 \<le> n" "n \<le> 2147483647"
  shows "p_fetch_ok c C B i n (p_detach c x obj_num)"
proof -
  let ?k = "min n (length (B x))"
  let ?bs = "take ?k (B x)"
  note own = pk_invD(6) [OF inv]
  note o = ownedD [OF own x]
  obtain rest where r: "p_detach c x obj_num = Inr (of_nat ?k, hd (B x), last ?bs,
      p_moved c x rest (pq_use (pk_pages c) x + of_nat ?k) ((pk_mem c)(last ?bs := nullptr)))"
    "lseg ((pk_mem c)(last ?bs := nullptr)) (hd (B x)) ?bs nullptr"
    "lseg ((pk_mem c)(last ?bs := nullptr)) rest (drop ?k (B x)) nullptr"
    using p_detach_ok [OF o(5,3) B n refl] by blast
  have k: "1 \<le> ?k" "?k \<le> length (B x)"
    using n B by (simp_all add: Suc_le_eq)
  note tk = owned_take [OF own x k refl r(3)]
  let ?c = "p_moved c x rest (pq_use (pk_pages c) x + of_nat ?k) ((pk_mem c)(last ?bs := nullptr))"
  have inv': "pk_inv ?c L U C (B(x := drop ?k (B x)))"
    by (rule pk_inv_moved [OF inv x tk(1)])
  have bs: "length ?bs = ?k" "?bs \<noteq> []" "hd ?bs = hd (B x)" "distinct ?bs"
    using k B o(3) by auto
  have nl: "set ?bs \<inter> p_out c C B j = {}" if "j < 209" for j
    using tk(3) [OF that] by (simp add: p_out_def)
  have "pk_mem ?c a = pk_mem c a" if "j < 209" "a \<in> p_out c C B j" for a j
  proof -
    have "last ?bs \<in> set ?bs"
      using bs(2) by (rule last_in_set)
    then have "a \<noteq> last ?bs"
      using nl [OF that(1)] that(2) by auto
    then show ?thesis by simp
  qed
  moreover have "p_out ?c C (B(x := drop ?k (B x))) j = p_out c C B j \<union> (if j = i then set ?bs else {})" if "j < 209" for j
    using tk(2) [OF that] by (simp add: p_out_def)
  ultimately show ?thesis
    unfolding p_fetch_ok_def using r(1,2) bs nl inv'
    by (intro exI [of _ ?bs] exI [of _ ?c] exI [of _ L] exI [of _ U] exI [of _ C]
        exI [of _ "B(x := drop ?k (B x))"] conjI) (simp_all del: take_take)
qed

section \<open>A fresh span\<close>

lemma p_cut_loop_carve: "p_cut_loop fuel m cur e sz = carve_loop fuel m cur (cur + sz) e sz"
  by (induction fuel arbitrary: m cur) (simp_all add: Let_def)

lemma p_cut_ok:
  fixes base bytes sz :: u64
  assumes "0 < unat sz" "sz \<le> bytes" "base \<noteq> nullptr" "unat base + unat bytes + unat sz < 18446744073709551616"
  obtains m1 t m' where "p_cut_loop walk_fuel m base (base + bytes) sz = Inr (m1, t)" "SetNextObj m1 t nullptr = Inr m'"
    "lseg m' base (slots base sz (n_blocks (unat bytes) (unat sz))) nullptr"
    "\<And>y. y \<notin> set (slots base sz (n_blocks (unat bytes) (unat sz))) \<Longrightarrow> m' y = m y"
proof -
  obtain m' where m': "carve m base bytes sz = Inr m'" "lseg m' base (slots base sz (n_blocks (unat bytes) (unat sz))) nullptr"
      "\<And>y. y \<notin> set (slots base sz (n_blocks (unat bytes) (unat sz))) \<Longrightarrow> m' y = m y"
    using carve_ok [OF assms] by blast
  then obtain m1 t where "carve_loop walk_fuel m base (base + sz) (base + bytes) sz = Inr (m1, t)" "SetNextObj m1 t nullptr = Inr m'"
    by (auto simp: carve_def rbind_eq_Inr split: if_splits)
  then show thesis
    using that m' by (simp add: p_cut_loop_carve)
qed

lemma p_class_pages:
  assumes "p_class sz i"
  obtains p where "p_NumsFronPageCache sz = Inr (int p)" "1 \<le> p" "p \<le> 64" "nat sz \<le> p * 8192"
proof -
  have s: "0 < sz" "sz < 256 * 1024"
    using assms by (auto simp: p_class_def)
  obtain k p where p: "p_NumsFronPageCache sz = Inr p" "2 \<le> k" "1 \<le> p" "p \<le> 64" "sz * k \<le> p * 8192"
    using p_NumsFronPageCache_bounds [OF s] by blast
  have "sz * 1 \<le> sz * k"
    using s p(2) by (intro mult_left_mono) simp_all
  then have "nat sz \<le> nat p * 8192"
    using p(3,5) by (simp add: nat_le_iff)
  then show thesis
    using that [of "nat p"] p by simp
qed

definition p_supply_ok :: "pqcache \<Rightarrow> (nat \<Rightarrow> addr list) \<Rightarrow> addr set \<Rightarrow> nat \<Rightarrow> bool" where
  "p_supply_ok s L U n \<longleftrightarrow>
     (\<exists>xs. pp_rep p_SPAN_SIZE (pq_pool s) xs \<and> 2 \<le> length xs) \<and>
     ((\<forall>l. n \<le> l \<and> l < 129 \<longrightarrow> L l = []) \<longrightarrow>
       (\<exists>ptr rest. pq_mmaps s = ptr # rest \<and> fresh_pages (pq_spans s) (free_spans L \<union> U) ptr 128))"

lemma GetNewSpan_supply:
  assumes "pq_inv s L U {} {}" "1 \<le> n" "n \<le> 128" "page_num = of_nat n" "p_supply_ok s L U n"
  shows "pq_new_ok s L U n (GetNewSpan s page_num)"
proof -
  obtain xs where xs: "pp_rep p_SPAN_SIZE (pq_pool s) xs" "2 \<le> length xs"
    using assms(5) by (auto simp: p_supply_ok_def)
  show ?thesis
  proof (cases "\<forall>l. n \<le> l \<and> l < 129 \<longrightarrow> L l = []")
    case True
    then obtain ptr rest where "pq_mmaps s = ptr # rest \<and> fresh_pages (pq_spans s) (free_spans L \<union> U) ptr 128"
      using assms(5) by (auto simp: p_supply_ok_def)
    then show ?thesis
      by (intro GetNewSpan_ok [OF assms(1-4) xs])
  next
    case False
    show ?thesis
      by (rule GetNewSpan_ok [OF assms(1-4) xs]) (use False in blast)
  qed
qed

text \<open>The span joins the list of its class: the invariants of both caches hold again.\<close>

definition p_given :: "pcentral \<Rightarrow> pqcache \<Rightarrow> span_heap \<Rightarrow> addr \<Rightarrow> int \<Rightarrow> links \<Rightarrow> pcentral" where
  "p_given c pg h x sz m =
     c\<lparr>pk_pages := pg\<lparr>pq_spans := h, pq_obj := (pq_obj pg)(x := word_of_int sz)\<rparr>, pk_mem := m\<rparr>"

lemma p_fresh_inv:
  assumes inv: "pk_inv c L U C B" and cl: "p_class sz i"
    and new: "x \<notin> U" "np (pq_spans pg) x \<le> 128" "pq_inv pg L' (insert x U) {} {}"
      "pq_frame (pq_foot (pk_pages c) L) (pk_pages c) pg" "insert x (pq_foot pg L') \<subseteq> pq_foot (pk_pages c) L"
      "\<And>z. pq_use pg z = pq_use (pk_pages c) z \<or> pq_use pg z = 0"
    and h: "same_data (insert x (insert (pk_heads c i) (set (C i))))
        ((pq_spans pg)\<lparr>s_free_lists := (s_free_lists (pq_spans pg))(x := f)\<rparr>) h"
      "buckets_ok sl_rep h (pk_heads c) (C(i := x # C i)) 209"
    and c': "c' = p_given c pg h x sz m"
    and m: "lseg m f (p_blocks (pk_pages c') x) nullptr"
      "\<And>a. a \<notin> set (p_blocks (pk_pages c') x) \<Longrightarrow> m a = pk_mem c a"
  shows "pk_inv c' L' (insert x U) (C(i := x # C i)) (B(x := p_blocks (pk_pages c') x))"
    and "j < 209 \<Longrightarrow> p_out c' (C(i := x # C i)) (B(x := p_blocks (pk_pages c') x)) j = p_out c C B j"
proof -
  let ?pg = "pk_pages c'"
  have i: "i < 209"
    by (rule p_class_less [OF cl])
  note d = same_data_simps(1-8) [OF h(1), simplified]
  have f: "pk_mem c' = m" "pk_heads c' = pk_heads c" "pq_spans ?pg = h" "pq_use ?pg = pq_use pg"
      "pq_obj ?pg = (pq_obj pg)(x := word_of_int sz)" "pq_foot ?pg L' = pq_foot pg L'"
    by (simp_all add: c' p_given_def pq_foot_def)
  have UF: "U \<inter> pq_foot (pk_pages c) L = {}"
    by (rule pq_inv_foot [OF pk_invD(1) [OF inv]])
  have zero: "pq_use pg z = 0" if "z \<in> pq_foot (pk_pages c) L" for z
    using new(6) [of z] pk_invD(2) [OF inv that] by auto
  have C_U: "z \<in> U \<and> z \<noteq> x" if "j < 209" "z \<in> set (C j)" for j z
    using pk_invD(5) [OF inv that] new(1) by auto
  have fr: "s_page_id h z = s_page_id (pk_spans c) z" "s_npage h z = s_npage (pk_spans c) z"
      "pq_obj ?pg z = pq_obj (pk_pages c) z" "s_free_lists h z = s_free_lists (pk_spans c) z"
      "pq_use pg z = pq_use (pk_pages c) z" if "z \<in> U" for z
  proof -
    have "z \<notin> pq_foot (pk_pages c) L" "z \<noteq> x"
      using that UF new(1) by auto
    then show "s_page_id h z = s_page_id (pk_spans c) z" "s_npage h z = s_npage (pk_spans c) z"
      "pq_obj ?pg z = pq_obj (pk_pages c) z" "s_free_lists h z = s_free_lists (pk_spans c) z"
      "pq_use pg z = pq_use (pk_pages c) z"
      using new(4) by (simp_all add: f d pq_frame_def frame_out_def)
  qed
  have pqi: "pq_inv ?pg L' (insert x U) {} {}"
  proof -
    have "s_next h z = s_next (pq_spans pg) z \<and> s_prev h z = s_prev (pq_spans pg) z"
      if "z \<in> pq_heads pg ` {..<129} \<union> free_spans L'" for z
    proof -
      have "z \<in> pq_foot pg L'" "z \<noteq> x"
        using that pq_invD(3,4) [OF new(3)] by (auto simp: pq_foot_def)
      then have "z \<notin> insert x (insert (pk_heads c i) (set (C i)))"
        using new(5) p_central_nodes [OF inv i] by blast
      then show ?thesis
        using h(1) by (auto simp: same_data_def)
    qed
    then have "pq_inv (pg\<lparr>pq_spans := h, pq_use := pq_use pg, pq_obj := (pq_obj pg)(x := word_of_int sz)\<rparr>) L' (insert x U) {} {}"
      by (intro pq_inv_frame [OF new(3)]) (simp_all add: d)
    then show ?thesis
      by (simp add: c' p_given_def)
  qed
  have lay: "layout_ok h (free_spans L' \<union> insert x U)"
    using pq_invD(7) [OF pqi] f by simp
  have "p_class (sint (pq_obj ?pg x)) i"
    using cl p_class_word(1) [OF cl] by (simp add: f)
  note sx = p_sane [where pg = ?pg, unfolded f(3), OF lay _ this, simplified]
  have bl: "p_blocks ?pg z = p_blocks (pk_pages c) z" if "z \<in> U" for z
    using fr [OF that] by (intro p_blocks_cong) (simp_all add: f)
  have zs: "span_sane (p_view ?pg) z" if "j < 209" "z \<in> set (C j)" for j z
    using C_U [OF that] pk_invD(5) [OF inv that] fr [of z] by (intro p_sane(1) [where pg = ?pg, unfolded f(3), OF lay]) auto
  have ch: "chain_of (pk_mem c') (s_free_lists h x) (pq_use ?pg x) (p_blocks ?pg x) ((B(x := p_blocks ?pg x)) x)"
    using sx(2-4) m(1) zero [of x] new(5) by (simp add: chain_of_def f d)
  have ap: "set (p_blocks ?pg x) \<inter> set (p_blocks (pk_pages c) z) = {}" if "j < 209" "z \<in> set (C j)" for j z
  proof -
    have "layout_ok (p_view ?pg) (free_spans L' \<union> insert x U)"
      using lay f(3) by simp
    from blocks_disjoint [OF this _ _ _ sx(1) zs [OF that]] show ?thesis
      using C_U [OF that] bl [of z] by (auto simp: p_blocks_def)
  qed
  have eq: "p_blocks ?pg z = p_blocks (pk_pages c) z \<and> s_free_lists h z = s_free_lists (pk_spans c) z \<and>
      pq_use ?pg z = pq_use (pk_pages c) z \<and> (B(x := p_blocks ?pg x)) z = B z" if "j < 209" "z \<in> set (C j)" for j z
    using C_U [OF that] bl [of z] fr [of z] f by simp
  have xC: "x \<notin> set (C j)" if "j < 209" for j
    using C_U [OF that] by blast
  note oj = owned_join [OF pk_invD(6) [OF inv] i xC ch _ eq ap]
  have "owned 209 (p_blocks ?pg) (s_free_lists h) (pq_use ?pg) (pk_mem c') (C(i := x # C i)) (B(x := p_blocks ?pg x))"
    by (rule oj(1)) (use m(2) f(1) in simp_all)
  moreover have "z \<in> insert x U \<and> np h z \<le> 128 \<and> p_class (sint (pq_obj ?pg z)) j"
    if z: "j < 209" "z \<in> set ((C(i := x # C i)) j)" for j z
  proof (cases "z = x")
    case True
    then have "j = i"
      using z xC [OF z(1)] by (auto split: if_splits)
    then show ?thesis
      using True new(2) d(2) \<open>p_class (sint (pq_obj ?pg x)) i\<close> by (simp add: np_def)
  next
    case False
    then have zC: "z \<in> set (C j)"
      using z(2) by (auto split: if_splits)
    then show ?thesis
      using pk_invD(5) [OF inv z(1) zC] fr [of z] by (auto simp: np_def)
  qed
  moreover have "pk_heads c ` {..<209} \<inter> (pq_foot pg L' \<union> insert x U) = {}"
    using pk_invD(4) [OF inv] new(5) by blast
  moreover have "pq_use pg z = 0" if "z \<in> pq_foot pg L'" for z
    using that new(5) by (intro zero) blast
  ultimately show "pk_inv c' L' (insert x U) (C(i := x # C i)) (B(x := p_blocks ?pg x))"
    unfolding pk_inv_def using pqi h(2) f by simp
  show "p_out c' (C(i := x # C i)) (B(x := p_blocks ?pg x)) j = p_out c C B j" if "j < 209"
    unfolding p_out_def by (rule oj(2)) (use m(2) f(1) that in simp_all)
qed

lemma p_fresh_ok:
  assumes inv: "pk_inv c L U C B" and cl: "p_class sz i"
    and sup: "\<And>p. p_NumsFronPageCache sz = Inr (int p) \<Longrightarrow> p_supply_ok (pk_pages c) L U p"
  obtains x c1 h L' where "FetchFromPageCache c sz = Inr (x, c1)" "ps_push_front (pk_spans c1) (pk_heads c1 i) x = Inr h"
    "pk_inv (pk_set_spans c1 h) L' (insert x U) (C(i := x # C i)) (B(x := p_blocks (pk_pages (pk_set_spans c1 h)) x))"
    "p_blocks (pk_pages (pk_set_spans c1 h)) x \<noteq> []"
    "\<And>j. j < 209 \<Longrightarrow> p_out (pk_set_spans c1 h) (C(i := x # C i)) (B(x := p_blocks (pk_pages (pk_set_spans c1 h)) x)) j =
      p_out c C B j"
    "\<And>a. a \<notin> set (p_blocks (pk_pages (pk_set_spans c1 h)) x) \<Longrightarrow> pk_mem c1 a = pk_mem c a"
proof -
  have i: "i < 209"
    by (rule p_class_less [OF cl])
  obtain p where p: "p_NumsFronPageCache sz = Inr (int p)" "1 \<le> p" "p \<le> 64" "nat sz \<le> p * 8192"
    using p_class_pages [OF cl] by blast
  have "pq_new_ok (pk_pages c) L U p (GetNewSpan (pk_pages c) (word_of_int (int p)))"
    using p by (intro GetNewSpan_supply [OF pk_invD(1) [OF inv] _ _ _ sup]) simp_all
  then obtain x pg L' where x: "GetNewSpan (pk_pages c) (word_of_int (int p)) = Inr (x, pg)" "x \<notin> U"
      "np (pq_spans pg) x = p" "pq_inv pg L' (insert x U) {} {}"
      "pq_frame (pq_foot (pk_pages c) L) (pk_pages c) pg" "insert x (pq_foot pg L') \<subseteq> pq_foot (pk_pages c) L"
    unfolding pq_new_ok_def by auto
  let ?h = "pq_spans pg"
  let ?sz = "word_of_int sz :: u64"
  let ?base = "push_bit 13 (s_page_id ?h x)"
  let ?bytes = "push_bit 13 (s_npage ?h x)"
  have lay: "layout_ok ?h (free_spans L' \<union> insert x U)"
    using pq_invD(7) [OF x(4)] by simp
  have x0: "x \<noteq> nullptr"
    using pq_inv_null [OF x(4)] by auto
  have b: "1 \<le> lo ?h x" "lo ?h x + p \<le> 1125899906842624"
    using layout_bounds [OF lay, of x] x(3) by auto
  have s: "1 \<le> sz" "sz \<le> 204800" "unat ?sz = nat sz"
    using cl p_class_word(3) [OF cl] by (simp_all add: p_class_def)
  have ub: "unat ?base = lo ?h x * 8192"
    using b unat_push_bit_u64 [of "s_page_id ?h x" 13] by (simp add: lo_def)
  have uy: "unat ?bytes = p * 8192"
    using p(3) x(3) unat_push_bit_u64 [of "s_npage ?h x" 13] by (simp add: np_def)
  have "?base \<noteq> nullptr"
    using ub b(1) by (metis mult_is_0 not_one_le_zero unat_0 zero_neq_numeral)
  moreover have "?sz \<le> ?bytes"
    using p(4) uy s(3) by (simp add: word_le_nat_alt)
  moreover have "unat ?base + unat ?bytes + unat ?sz < 18446744073709551616"
    using ub uy b(2) s by simp
  ultimately obtain m1 t m where m: "p_cut_loop walk_fuel (pk_mem c) ?base (?base + ?bytes) ?sz = Inr (m1, t)"
      "SetNextObj m1 t nullptr = Inr m"
      "lseg m ?base (slots ?base ?sz (n_blocks (unat ?bytes) (unat ?sz))) nullptr"
      "\<And>a. a \<notin> set (slots ?base ?sz (n_blocks (unat ?bytes) (unat ?sz))) \<Longrightarrow> m a = pk_mem c a"
    using p_cut_ok [of ?sz ?bytes ?base "pk_mem c"] s by auto
  let ?h1 = "?h\<lparr>s_free_lists := (s_free_lists ?h)(x := ?base)\<rparr>"
  let ?c1 = "p_given c pg ?h1 x sz m"
  have e: "?base + push_bit 13 1 * s_npage ?h x = ?base + ?bytes"
    by (simp add: push_bit_eq_mult)
  have r: "FetchFromPageCache c sz = Inr (x, ?c1)"
    using p(1) x(1) x0 m(1,2) unfolding FetchFromPageCache_def e [symmetric]
    by (simp add: Let_def p_given_def)
  have nodes: "x \<notin> insert (pk_heads c j) (set (C j))" if "j < 209" for j
    using p_central_nodes [OF inv that] x(6) by auto
  have "buckets_ok sl_rep ?h (pk_heads c) C 209"
    using pk_invD(3) [OF inv] frame_out_sl_rep p_central_nodes [OF inv] x(5) by (auto simp: pq_frame_def buckets_ok_def)
  then have b1: "buckets_ok sl_rep ?h1 (pk_heads c) C 209"
    using buckets_cong [of ?h1 ?h] by simp
  obtain h where h: "ps_push_front ?h1 (pk_heads c i) x = Inr h"
      "same_data (insert x (insert (pk_heads c i) (set (C i)))) ?h1 h" "buckets_ok sl_rep h (pk_heads c) (C(i := x # C i)) 209"
    using psl.push_front_buckets [OF b1 i x0 nodes] by blast
  let ?c = "pk_set_spans ?c1 h"
  have c: "?c = p_given c pg h x sz m"
    by (simp add: pk_set_spans_def p_given_def)
  note d = same_data_simps(1-8) [OF h(2), simplified]
  have bl: "p_blocks (pk_pages ?c) x = slots ?base ?sz (n_blocks (unat ?bytes) (unat ?sz))"
    using x(3) uy p_class_word(2) [OF cl] unfolding c
    by (simp add: p_given_def p_blocks_def blocks_def p_view_def span_base_def np_def d PAGE_SHIFT_def)
  have use: "\<And>z. pq_use pg z = pq_use (pk_pages c) z \<or> pq_use pg z = 0"
    using GetNewSpan_use [OF x(1)] .
  have "np ?h x \<le> 128"
    using x(3) p(3) by simp
  note fi = p_fresh_inv [OF inv cl x(2) this x(4-6) use h(2,3) c, unfolded bl, OF m(3,4)]
  have "p_blocks (pk_pages ?c) x \<noteq> []"
    using n_blocks_step [of "nat sz" "p * 8192"] s p(2) uy unfolding bl by simp
  moreover have "pk_mem ?c1 = m" "pk_heads ?c1 = pk_heads c" "pk_spans ?c1 = ?h1"
    by (simp_all add: p_given_def)
  ultimately show thesis
    using that [of x ?c1 h L'] r h(1) fi m(4) unfolding bl by simp
qed

section \<open>\<open>FetchRangeObj\<close>\<close>

lemma GetOneSpan_loop_find:
  "GetOneSpan_loop fuel h head it =
     rbind (FetchOneSpan_loop fuel h head it) (\<lambda>r. Inr (case r of None \<Rightarrow> nullptr | Some x \<Rightarrow> x))"
  by (induction fuel arbitrary: it) (simp_all add: ps_end_def sl_End_def)

lemma GetOneSpan_ok:
  assumes inv: "pk_inv c L U C B" and cl: "p_class sz i"
  shows "GetOneSpan c sz =
    Inr (case find (\<lambda>x. s_free_lists (pk_spans c) x \<noteq> nullptr) (C i) of None \<Rightarrow> nullptr | Some x \<Rightarrow> x)"
proof -
  have "sl_rep (pk_spans c) (pk_heads c i) (C i)"
    using pk_invD(3) [OF inv] p_class_less [OF cl] by (simp add: buckets_ok_def)
  from FetchOneSpan_ok [OF this] show ?thesis
    by (simp add: GetOneSpan_def p_class_list [OF cl] GetOneSpan_loop_find FetchOneSpan_def ps_begin_def sl_Begin_def)
qed

lemma p_FetchRangeObj_ok:
  assumes inv: "pk_inv c L U C B" and cl: "p_class sz i" and n: "obj_num = of_nat n" "1 \<le> n" "n \<le> 2147483647"
    and sup: "\<And>p. (\<forall>x \<in> set (C i). B x = []) \<Longrightarrow> p_NumsFronPageCache sz = Inr (int p) \<Longrightarrow> p_supply_ok (pk_pages c) L U p"
  shows "p_fetch_ok c C B i n (p_FetchRangeObj c sz obj_num)"
proof -
  have i: "i < 209"
    by (rule p_class_less [OF cl])
  let ?f = "find (\<lambda>x. s_free_lists (pk_spans c) x \<noteq> nullptr) (C i)"
  note go = GetOneSpan_ok [OF inv cl] p_class_list [OF cl]
  have bx: "B x = [] \<longleftrightarrow> s_free_lists (pk_spans c) x = nullptr" if "x \<in> set (C i)" for x
    using ownedD(5) [OF pk_invD(6) [OF inv] i that] by (cases "B x") auto
  show ?thesis
  proof (cases ?f)
    case (Some x)
    then have x: "x \<in> set (C i)" "s_free_lists (pk_spans c) x \<noteq> nullptr"
      by (auto simp: find_Some_iff)
    then have "x \<noteq> nullptr"
      using pq_inv_null [OF pk_invD(1) [OF inv]] pk_invD(5) [OF inv i x(1)] by auto
    then show ?thesis
      using p_fetch_from_span [OF inv i x(1) _ n] x bx go Some by (simp add: p_FetchRangeObj_def)
  next
    case None
    then have e: "\<forall>x \<in> set (C i). B x = []"
      using bx by (simp add: find_None_iff)
    obtain x c1 h L' where x: "FetchFromPageCache c sz = Inr (x, c1)" "ps_push_front (pk_spans c1) (pk_heads c1 i) x = Inr h"
      "pk_inv (pk_set_spans c1 h) L' (insert x U) (C(i := x # C i)) (B(x := p_blocks (pk_pages (pk_set_spans c1 h)) x))"
      "p_blocks (pk_pages (pk_set_spans c1 h)) x \<noteq> []"
      "\<And>j. j < 209 \<Longrightarrow> p_out (pk_set_spans c1 h) (C(i := x # C i)) (B(x := p_blocks (pk_pages (pk_set_spans c1 h)) x)) j =
        p_out c C B j"
      "\<And>a. a \<notin> set (p_blocks (pk_pages (pk_set_spans c1 h)) x) \<Longrightarrow> pk_mem c1 a = pk_mem c a"
      using p_fresh_ok [OF inv cl sup [OF e]] by blast
    let ?c = "pk_set_spans c1 h" and ?C = "C(i := x # C i)"
    let ?B = "B(x := p_blocks (pk_pages ?c) x)"
    have f: "p_fetch_ok ?c ?C ?B i n (p_detach ?c x obj_num)"
      using x(4) by (intro p_fetch_from_span [OF x(3) i _ _ n]) simp_all
    have "pk_mem ?c a = pk_mem c a" if "j < 209" "a \<in> p_out c C B j" for j a
    proof -
      have "a \<in> p_out ?c ?C ?B j"
        using x(5) that by simp
      then have "a \<notin> set (p_blocks (pk_pages ?c) x)"
        using chain_not_out [OF pk_invD(6) [OF x(3)] i _ that(1), of x] unfolding p_out_def by auto
      then show ?thesis
        using x(6) by (simp add: pk_set_spans_def)
    qed
    then have "p_fetch_ok c C B i n (p_detach ?c x obj_num)"
      using f x(5) unfolding p_fetch_ok_def by simp
    then show ?thesis
      using go None x(1,2) by (simp add: p_FetchRangeObj_def)
  qed
qed

section \<open>\<open>ReleaseToSpan\<close>\<close>

text \<open>A span whose blocks are all in leaves its list and goes to the page cache.\<close>

lemma p_retire_inv:
  assumes inv: "pk_inv c L U C B" and x: "i < 209" "x \<in> set (C i)"
    and all: "set (p_blocks (pk_pages c) x) \<subseteq> set (B x)" and use: "pq_use (pk_pages c) x = 0"
  obtains h2 pg L' where "ps_erase (pk_spans c) (pk_heads c i) x = Inr h2"
    "p_ReleaseSpan ((pk_pages c)\<lparr>pq_spans := h2\<rparr>) x = Inr pg"
    "pk_inv (c\<lparr>pk_pages := pg\<rparr>) L' (U - {x}) (C(i := remove1 x (C i))) B"
    "\<And>j. j < 209 \<Longrightarrow> p_out (c\<lparr>pk_pages := pg\<rparr>) (C(i := remove1 x (C i))) B j = p_out c C B j"
proof -
  let ?C = "C(i := remove1 x (C i))"
  let ?pg = "pk_pages c"
  note sx = pk_invD(5) [OF inv x]
  note dr = owned_drop [OF pk_invD(6) [OF inv] x all]
  obtain h2 where h2: "ps_erase (pk_spans c) (pk_heads c i) x = Inr h2"
      "same_data (insert (pk_heads c i) (set (C i))) (pk_spans c) h2" "buckets_ok sl_rep h2 (pk_heads c) ?C 209"
    using psl.erase_buckets [OF pk_invD(3) [OF inv] x] by blast
  note d = same_data_simps(1-8) [OF h2(2)]
  let ?s = "?pg\<lparr>pq_spans := h2\<rparr>"
  have UF: "U \<inter> pq_foot ?pg L = {}"
    by (rule pq_inv_foot [OF pk_invD(1) [OF inv]])
  have subC: "set (?C j) \<subseteq> set (C j)" for j
    by (simp add: set_remove1_subset)
  have hd: "pk_heads c j \<notin> pq_foot ?pg L" "pk_heads c j \<notin> U" if "j < 209" for j
    using pk_invD(4) [OF inv] that by auto
  have "pq_inv (?pg\<lparr>pq_spans := h2, pq_use := pq_use ?pg, pq_obj := pq_obj ?pg\<rparr>) L U {} {}"
  proof (rule pq_inv_frame [OF pk_invD(1) [OF inv]])
    show "s_next h2 z = s_next (pk_spans c) z \<and> s_prev h2 z = s_prev (pk_spans c) z"
      if "z \<in> pq_heads ?pg ` {..<129} \<union> free_spans L" for z
    proof -
      have "z \<in> pq_foot ?pg L"
        using that by (auto simp: pq_foot_def)
      then have "z \<notin> insert (pk_heads c i) (set (C i))"
        using p_central_nodes [OF inv x(1)] by blast
      then show ?thesis
        using h2(2) by (auto simp: same_data_def)
    qed
  qed (simp_all add: d)
  then have pqi: "pq_inv ?s L U {} {}"
    by simp
  have "np (pq_spans ?s) x \<le> 128" "x \<in> U"
    using sx by (simp_all add: d)
  from p_ReleaseSpan_ok [OF pqi this(2,1)]
  obtain pg L' where pg: "p_ReleaseSpan ?s x = Inr pg" "pq_inv pg L' (U - {x}) {} {}"
      "pq_frame (insert x (pq_foot ?s L)) ?s pg" "pq_foot pg L' \<subseteq> insert x (pq_foot ?s L)"
    unfolding p_release_ok_def by blast
  have ft: "pq_foot ?s L = pq_foot ?pg L"
    by (simp add: pq_foot_def)
  have us: "pq_use pg = pq_use ?pg"
    using p_ReleaseSpan_use [OF pg(1)] by simp
  have zU: "z \<in> U \<and> z \<noteq> x \<and> np (pk_spans c) z \<le> 128 \<and> p_class (sint (pq_obj ?pg z)) j"
    if "j < 209" "z \<in> set (?C j)" for j z
    using pk_invD(5) [OF inv that(1)] subC [of j] dr(3) [OF that(1)] that(2) by blast
  have fr: "s_page_id (pq_spans pg) z = s_page_id (pk_spans c) z" "s_npage (pq_spans pg) z = s_npage (pk_spans c) z"
      "pq_obj pg z = pq_obj ?pg z" "s_free_lists (pq_spans pg) z = s_free_lists (pk_spans c) z" if "z \<in> U" "z \<noteq> x" for z
  proof -
    have "z \<notin> insert x (pq_foot ?s L)"
      using that UF unfolding ft by auto
    then show "s_page_id (pq_spans pg) z = s_page_id (pk_spans c) z" "s_npage (pq_spans pg) z = s_npage (pk_spans c) z"
      "pq_obj pg z = pq_obj ?pg z" "s_free_lists (pq_spans pg) z = s_free_lists (pk_spans c) z"
      using pg(3) by (simp_all add: pq_frame_def frame_out_def d)
  qed
  have eq: "p_blocks pg z = p_blocks ?pg z \<and> s_free_lists (pq_spans pg) z = s_free_lists (pk_spans c) z \<and>
      pq_use pg z = pq_use ?pg z" if "j < 209" "z \<in> set (?C j)" for j z
    using zU [OF that] fr [of z] us by (auto intro!: p_blocks_cong)
  have oc: "owned 209 (p_blocks pg) (s_free_lists (pq_spans pg)) (pq_use pg) (pk_mem c) ?C B"
      "j < 209 \<Longrightarrow> out_of (p_blocks pg) ?C B j = out_of (p_blocks ?pg) ?C B j" for j
    by (rule owned_cong [OF dr(1) eq refl]; assumption)+
  have "sl_rep (pq_spans pg) (pk_heads c j) (?C j)" if "j < 209" for j
  proof (rule frame_out_sl_rep [OF pg(3) [unfolded pq_frame_def, THEN conjunct1]])
    show "sl_rep (pq_spans ?s) (pk_heads c j) (?C j)"
      using h2(3) that by (simp add: buckets_ok_def)
    show "insert (pk_heads c j) (set (?C j)) \<inter> insert x (pq_foot ?s L) = {}"
      using p_central_nodes [OF inv that] dr(3) [OF that] hd [OF that] sx subC [of j] unfolding ft by blast
  qed
  then have bk: "buckets_ok sl_rep (pq_spans pg) (pk_heads c) ?C 209"
    using h2(3) by (simp add: buckets_ok_def)
  have "np (pq_spans pg) z \<le> 128 \<and> p_class (sint (pq_obj pg z)) j \<and> z \<in> U - {x}" if "j < 209" "z \<in> set (?C j)" for j z
    using zU [OF that] fr [of z] by (auto simp: np_def)
  moreover have "pq_use pg z = 0" if "z \<in> pq_foot pg L'" for z
    using that pg(4) pk_invD(2) [OF inv, of z] use unfolding us ft by auto
  moreover have "pk_heads c ` {..<209} \<inter> (pq_foot pg L' \<union> (U - {x})) = {}"
    using hd sx pg(4) unfolding ft by blast
  ultimately have "pk_inv (c\<lparr>pk_pages := pg\<rparr>) L' (U - {x}) ?C B"
    unfolding pk_inv_def using pg(2) bk oc(1) by simp
  moreover have "p_out (c\<lparr>pk_pages := pg\<rparr>) ?C B j = p_out c C B j" if "j < 209" for j
    unfolding p_out_def using oc(2) [OF that] dr(2) [OF that] by simp
  ultimately show thesis
    using that h2(1) pg(1) by blast
qed

lemma pk_upd_commute: "c\<lparr>pk_mem := m, pk_pages := pg\<rparr> = c\<lparr>pk_pages := pg, pk_mem := m\<rparr>"
  by simp

text \<open>What \<open>p_release_block\<close> and the loop over a chain keep.\<close>

definition p_gave_back :: "pcentral \<Rightarrow> (nat \<Rightarrow> addr list) \<Rightarrow> (addr \<Rightarrow> addr list) \<Rightarrow> nat \<Rightarrow> addr set \<Rightarrow> pcentral \<Rightarrow> bool" where
  "p_gave_back c C B i A c' \<longleftrightarrow>
     (\<exists>L' U' C' B'. pk_inv c' L' U' C' B' \<and>
        (\<forall>j < 209. p_out c' C' B' j = p_out c C B j - (if j = i then A else {})) \<and>
        (\<forall>a. a \<notin> A \<longrightarrow> pk_mem c' a = pk_mem c a))"

lemma p_release_block_ok:
  assumes inv: "pk_inv c L U C B" and i: "i < 209" and a: "a \<in> p_out c C B i"
  shows "\<exists>c'. p_release_block c i a = Inr (pk_mem c a, c') \<and> p_gave_back c C B i {a} c'"
proof -
  obtain x where x: "x \<in> set (C i)" "a \<in> set (p_blocks (pk_pages c) x) - set (B x)"
    using a by (auto simp: p_out_def out_of_def)
  have ps: "AddrToSpan (pk_pages c) a = x" "x \<noteq> nullptr" "a \<noteq> nullptr"
    using AddrToSpan_block [OF inv i x(1), of a] x(2) by simp_all
  note gv = owned_give [OF pk_invD(6) [OF inv] i x]
  let ?B = "B(x := a # B x)"
  let ?c1 = "p_moved c x a (pq_use (pk_pages c) x - 1) ((pk_mem c)(a := s_free_lists (pk_spans c) x))"
  have inv1: "pk_inv ?c1 L U C ?B"
    by (rule pk_inv_moved [OF inv i x(1) gv(1)])
  have ov: "p_out ?c1 C ?B j = p_out c C B j - (if j = i then {a} else {})" if "j < 209" for j
    using gv(2) [OF that] by (simp add: p_out_def)
  have r: "p_release_block c i a = (if pq_use (pk_pages ?c1) x = 0 then
        rbind (ps_erase (pk_spans ?c1) (pk_heads c i) x) (\<lambda>h2.
        rbind (p_ReleaseSpan ((pk_pages ?c1)\<lparr>pq_spans := h2\<rparr>) x) (\<lambda>pg.
          Inr (pk_mem c a, ?c1\<lparr>pk_pages := pg\<rparr>)))
      else Inr (pk_mem c a, ?c1))"
    using ps unfolding p_release_block_def p_moved_def by (simp add: NextObj_def SetNextObj_def Let_def pk_upd_commute)
  show ?thesis
  proof (cases "pq_use (pk_pages ?c1) x = 0")
    case False
    then show ?thesis
      using r inv1 ov unfolding p_gave_back_def by (intro exI [of _ ?c1] conjI exI) auto
  next
    case True
    then have "set (p_blocks (pk_pages ?c1) x) \<subseteq> set (?B x)"
      using gv(3) by simp
    from p_retire_inv [OF inv1 i x(1) this True]
    obtain h2 pg L' where h2: "ps_erase (pk_spans ?c1) (pk_heads c i) x = Inr h2"
      "p_ReleaseSpan ((pk_pages ?c1)\<lparr>pq_spans := h2\<rparr>) x = Inr pg"
      "pk_inv (?c1\<lparr>pk_pages := pg\<rparr>) L' (U - {x}) (C(i := remove1 x (C i))) ?B"
      "\<And>j. j < 209 \<Longrightarrow> p_out (?c1\<lparr>pk_pages := pg\<rparr>) (C(i := remove1 x (C i))) ?B j = p_out ?c1 C ?B j"
      by (metis p_moved_fields(2))
    then have "p_release_block c i a = Inr (pk_mem c a, ?c1\<lparr>pk_pages := pg\<rparr>)"
      using r True by simp
    moreover have "p_gave_back c C B i {a} (?c1\<lparr>pk_pages := pg\<rparr>)"
      unfolding p_gave_back_def using h2(3) ov h2(4)
      by (intro exI [of _ L'] exI [of _ "U - {x}"] exI [of _ "C(i := remove1 x (C i))"] exI [of _ ?B] conjI) auto
    ultimately show ?thesis by blast
  qed
qed

lemma p_release_loop_ok:
  assumes "pk_inv c L U C B" "i < 209" "lseg (pk_mem c) start xs nullptr" "distinct xs"
    and "set xs \<subseteq> p_out c C B i" "length xs < fuel"
  shows "\<exists>c'. p_release_loop fuel c i start = Inr c' \<and> p_gave_back c C B i (set xs) c'"
  using assms
proof (induction xs arbitrary: c L U C B start fuel)
  case Nil
  have "p_gave_back c C B i {} c"
    unfolding p_gave_back_def using Nil.prems(1) by (intro exI conjI) auto
  then show ?case
    using Nil.prems(3,6) by (cases fuel) auto
next
  case (Cons a xs)
  obtain f where f: "fuel = Suc f" "length xs < f"
    using Cons.prems(6) by (cases fuel) auto
  have a: "start = a" "a \<noteq> nullptr" "lseg (pk_mem c) (pk_mem c a) xs nullptr" "a \<notin> set xs"
    using Cons.prems(3,4) by auto
  obtain c1 where c1: "p_release_block c i a = Inr (pk_mem c a, c1)" "p_gave_back c C B i {a} c1"
    using p_release_block_ok [OF Cons.prems(1,2), of a] Cons.prems(5) by auto
  then obtain L1 U1 C1 B1 where i1: "pk_inv c1 L1 U1 C1 B1"
      "\<And>j. j < 209 \<Longrightarrow> p_out c1 C1 B1 j = p_out c C B j - (if j = i then {a} else {})"
      "\<And>b. b \<noteq> a \<Longrightarrow> pk_mem c1 b = pk_mem c b"
    unfolding p_gave_back_def by auto
  have "pk_mem c1 b = pk_mem c b" if "b \<in> set xs" for b
    using a(4) that by (intro i1(3)) auto
  then have l1: "lseg (pk_mem c1) (pk_mem c a) xs nullptr"
    using a(3) lseg_cong by metis
  have s1: "set xs \<subseteq> p_out c1 C1 B1 i"
    using i1(2) [OF Cons.prems(2)] Cons.prems(5) a(4) by auto
  have d1: "distinct xs"
    using Cons.prems(4) by simp
  obtain c' where c': "p_release_loop f c1 i (pk_mem c a) = Inr c'" "p_gave_back c1 C1 B1 i (set xs) c'"
    using Cons.IH [OF i1(1) Cons.prems(2) l1 d1 s1 f(2)] by blast
  have "p_gave_back c C B i (set (a # xs)) c'"
  proof -
    obtain L2 U2 C2 B2 where i2: "pk_inv c' L2 U2 C2 B2"
        "\<And>j. j < 209 \<Longrightarrow> p_out c' C2 B2 j = p_out c1 C1 B1 j - (if j = i then set xs else {})"
        "\<And>b. b \<notin> set xs \<Longrightarrow> pk_mem c' b = pk_mem c1 b"
      using c'(2) unfolding p_gave_back_def by auto
    have "p_out c' C2 B2 j = p_out c C B j - (if j = i then set (a # xs) else {})" if "j < 209" for j
      using i1(2) i2(2) that by auto
    moreover have "pk_mem c' b = pk_mem c b" if "b \<notin> set (a # xs)" for b
      using i1(3) i2(3) that by auto
    ultimately show ?thesis
      unfolding p_gave_back_def using i2(1) by (intro exI conjI) auto
  qed
  then show ?case
    using f(1) a(1,2) c1(1) c'(1) by auto
qed

lemma ReleaseToSpan_ok:
  assumes "pk_inv c L U C B" and cl: "p_class sz i" and "lseg (pk_mem c) start xs nullptr" "distinct xs"
    and "set xs \<subseteq> p_out c C B i"
  shows "\<exists>c'. ReleaseToSpan c start sz = Inr c' \<and> p_gave_back c C B i (set xs) c'"
proof -
  have "distinct (nullptr # xs)"
    using assms(4) lseg_nonnull [OF assms(3)] by simp
  then have "length xs < walk_fuel"
    using length_distinct_u64 [of "nullptr # xs"] by (simp add: walk_fuel_def)
  from p_release_loop_ok [OF assms(1) p_class_less [OF cl] assms(3-5) this]
  show ?thesis
    using p_class_list [OF cl] by (simp add: ReleaseToSpan_def)
qed

end
