(* ===== verification/Pool_Thread.thy ===== *)
theory Pool_Thread
  imports Pool_Central_Inv
begin

text \<open>
  The thread caches of the second allocator: \<open>Allocate\<close> and \<open>Deallocate\<close> of \<open>src/Pool/ThreadCache.cpp\<close> keep the
  invariants of their lists and of the central cache. A list never holds more blocks than its limit, and the limit
  never passes 513, so that the counters of type \<open>int\<close> are exact.
\<close>

section \<open>The lists of one thread\<close>

definition pf_lim :: "p_free_list \<Rightarrow> addr list \<Rightarrow> bool" where
  "pf_lim l xs \<longleftrightarrow> 1 \<le> sint (pf_max l) \<and> sint (pf_max l) \<le> 513 \<and> int (length xs) \<le> sint (pf_max l)"

interpretation ptl: thread_lists pf_rep pf_lim 209
  by unfold_locales (fact pfl.rep_frame pfl.rep_distinct)+

definition p_alloc_ok :: "pcentral \<Rightarrow> (nat \<Rightarrow> addr list) \<Rightarrow> (addr \<Rightarrow> addr list) \<Rightarrow> (nat \<Rightarrow> addr list) \<Rightarrow> nat \<Rightarrow>
    (addr \<times> pcentral \<times> p_thread_cache) res \<Rightarrow> bool" where
  "p_alloc_ok c C B T i r \<longleftrightarrow>
     (\<exists>p c' tc' L' U' C' B' T'. r = Inr (p, c', tc') \<and> pk_inv c' L' U' C' B' \<and>
        lists_ok pf_rep pf_lim 209 (p_out c' C' B') (pk_mem c') tc' T' \<and>
        took 209 (p_out c C B) (pk_mem c) T i p (p_out c' C' B') (pk_mem c') T')"

definition p_free_ok :: "pcentral \<Rightarrow> (nat \<Rightarrow> addr list) \<Rightarrow> (addr \<Rightarrow> addr list) \<Rightarrow> (nat \<Rightarrow> addr list) \<Rightarrow> nat \<Rightarrow> addr \<Rightarrow>
    (pcentral \<times> p_thread_cache) res \<Rightarrow> bool" where
  "p_free_ok c C B T i p r \<longleftrightarrow>
     (\<exists>c' tc' L' U' C' B' T'. r = Inr (c', tc') \<and> pk_inv c' L' U' C' B' \<and>
        lists_ok pf_rep pf_lim 209 (p_out c' C' B') (pk_mem c') tc' T' \<and>
        gave 209 (p_out c C B) (pk_mem c) T i p (p_out c' C' B') (pk_mem c') T')"

lemma pf_Empty_rep: "pf_rep m l xs \<Longrightarrow> pf_Empty l \<longleftrightarrow> xs = []"
  by (cases xs) (auto simp: pf_rep_def pf_Empty_def)

lemma p_out_disjoint:
  assumes "pk_inv c L U C B" "i < 209" "j < 209" "i \<noteq> j"
  shows "p_out c C B i \<inter> p_out c C B j = {}"
  unfolding p_out_def by (rule out_of_disjoint [OF pk_invD(6) [OF assms(1)] assms(2-4)])

section \<open>\<open>Allocate\<close>\<close>

lemma pf_pop_max: "pf_pop_front m l = Inr (p, l') \<Longrightarrow> pf_max l' = pf_max l"
  by (auto simp: pf_pop_front_def rbind_eq_Inr)

lemma p_Allocate_pop_ok:
  assumes inv: "pk_inv c L U C B" and tc: "lists_ok pf_rep pf_lim 209 (p_out c C B) (pk_mem c) tc T"
    and i: "i < 209" and T: "T i = p # ys"
  obtains l where "pf_pop_front (pk_mem c) (tc i) = Inr (p, l)" "p_alloc_ok c C B T i (Inr (p, c, tc(i := l)))"
proof -
  note t = lists_okD [OF tc i]
  obtain l where l: "pf_pop_front (pk_mem c) (tc i) = Inr (p, l)" "pf_rep (pk_mem c) l ys"
    using pfl.pop_rep [of "pk_mem c" "tc i" p ys] t(1) T by auto
  have "pf_lim l ys"
    using t(3) T pf_pop_max [OF l(1)] by (simp add: pf_lim_def)
  from ptl.lists_pop [OF tc i T l(2) this] show thesis
    using that [OF l(1)] inv unfolding p_alloc_ok_def by blast
qed

text \<open>The size of the next batch: at least one, at most the limit, and the limit grows by one at most.\<close>

lemma p_batch:
  fixes l :: p_free_list
  assumes "1 \<le> sint (pf_max l)" "sint (pf_max l) \<le> 513" "2 \<le> nums" "nums \<le> 512"
  defines "obj \<equiv> if sint (pf_max l) < nums then pf_max l else word_of_int nums"
  defines "l1 \<equiv> if obj = pf_max l then l\<lparr>pf_max := pf_max l + 1\<rparr> else l"
  obtains n where "obj = of_nat n" "1 \<le> n" "n \<le> 512" "int n \<le> sint (pf_max l)"
    "1 \<le> sint (pf_max l1)" "sint (pf_max l1) \<le> 513" "int n \<le> sint (pf_max l1)"
    "pf_list l1 = pf_list l" "pf_size l1 = pf_size l"
proof -
  let ?m = "sint (pf_max l)"
  define n where "n = nat (min ?m nums)"
  have n: "1 \<le> n" "n \<le> 512" "int n \<le> ?m"
    using assms(1-4) by (auto simp: n_def)
  have mx: "pf_max l = word_of_int ?m"
    by simp
  have obj: "obj = of_nat n"
    using assms(1-4) mx by (auto simp: obj_def n_def min_def)
  have s: "sint (word_of_int (?m + 1) :: i32) = ?m + 1"
    using assms(1,2) by (intro sint_of_int_i32) simp_all
  have "sint (pf_max l + 1) = ?m + 1"
    using s by simp
  moreover have "?m \<le> 512" if "obj = pf_max l"
  proof -
    have "sint obj = int n"
      using n by (simp add: obj sint_of_nat_i32)
    then show ?thesis
      using that n(2) by simp
  qed
  ultimately have "1 \<le> sint (pf_max l1)" "sint (pf_max l1) \<le> 513" "int n \<le> sint (pf_max l1)"
    using assms(1,2) n(3) by (auto simp: l1_def)
  moreover have "pf_list l1 = pf_list l" "pf_size l1 = pf_size l"
    by (simp_all add: l1_def)
  ultimately show thesis
    using that obj n by blast
qed

lemma p_FetchFromCentral_ok:
  assumes inv: "pk_inv c L U C B" and tc: "lists_ok pf_rep pf_lim 209 (p_out c C B) (pk_mem c) tc T"
    and cl: "p_class sz i" and T: "T i = []"
    and sup: "\<And>p. (\<forall>x \<in> set (C i). B x = []) \<Longrightarrow> p_NumsFronPageCache sz = Inr (int p) \<Longrightarrow> p_supply_ok (pk_pages c) L U p"
  shows "p_alloc_ok c C B T i (p_FetchFromCentral c tc sz)"
proof -
  have i: "i < 209"
    by (rule p_class_less [OF cl])
  note t = lists_okD [OF tc i]
  have s: "0 < sz" "sz < 256 * 1024"
    using cl by (auto simp: p_class_def)
  obtain nums where nums: "p_NumsFromCentralCache sz = Inr nums" "2 \<le> nums" "nums \<le> 512"
    using p_NumsFronPageCache_bounds [OF s] by blast
  have mx: "1 \<le> sint (pf_max (tc i))" "sint (pf_max (tc i)) \<le> 513"
    using t(3) by (simp_all add: pf_lim_def)
  define obj where "obj = (if sint (pf_max (tc i)) < nums then pf_max (tc i) else word_of_int nums)"
  define l1 where "l1 = (if obj = pf_max (tc i) then (tc i)\<lparr>pf_max := pf_max (tc i) + 1\<rparr> else tc i)"
  obtain n where n: "obj = of_nat n" "1 \<le> n" "n \<le> 512" "1 \<le> sint (pf_max l1)" "sint (pf_max l1) \<le> 513"
      "int n \<le> sint (pf_max l1)" "pf_list l1 = pf_list (tc i)" "pf_size l1 = pf_size (tc i)"
    using p_batch [OF mx nums(2,3)] unfolding obj_def l1_def by metis
  have l1: "pf_rep m l1 []" for m
    using t(1) T n(7,8) by (simp add: pf_rep_def)
  have "p_fetch_ok c C B i n (p_FetchRangeObj c sz obj)"
    using n by (intro p_FetchRangeObj_ok [OF inv cl _ _ _ sup]) simp_all
  then obtain bs c1 L1 U1 C1 B1 where f: "p_FetchRangeObj c sz obj = Inr (of_nat (length bs), hd bs, last bs, c1)"
      "bs \<noteq> []" "length bs \<le> n" "distinct bs" "lseg (pk_mem c1) (hd bs) bs nullptr" "pk_inv c1 L1 U1 C1 B1"
      "\<And>j. j < 209 \<Longrightarrow> set bs \<inter> p_out c C B j = {}"
      "\<And>j. j < 209 \<Longrightarrow> p_out c1 C1 B1 j = p_out c C B j \<union> (if j = i then set bs else {})"
      "\<And>j a. j < 209 \<Longrightarrow> a \<in> p_out c C B j \<Longrightarrow> pk_mem c1 a = pk_mem c a"
    unfolding p_fetch_ok_def by blast
  obtain p ys where bs: "bs = p # ys"
    using f(2) by (cases bs) auto
  have un: "sint (of_nat (length bs) :: i32) = int (length bs)"
    using f(3) n(3) by (intro sint_of_nat_i32) simp
  have r: "p_FetchFromCentral c tc sz =
      (if sint (of_nat (length bs) :: i32) > 1 then
         rbind (NextObj (pk_mem c1) p) (\<lambda>second.
         rbind (pf_push_range (pk_mem c1) l1 second (last bs) (of_nat (length bs) - 1)) (\<lambda>(m, l2).
           Inr (p, c1\<lparr>pk_mem := m\<rparr>, tc(i := l2))))
       else Inr (p, c1, tc(i := l1)))"
    using p_class_list [OF cl] nums(1) f(1) bs
    by (simp add: p_FetchFromCentral_def Let_def flip: obj_def l1_def)
  have fin: "p_alloc_ok c C B T i (Inr (p, c1\<lparr>pk_mem := m\<rparr>, tc(i := l)))"
    if "pf_rep m l ys" "pf_lim l ys" "\<And>j a. j < 209 \<Longrightarrow> a \<in> p_out c C B j \<Longrightarrow> m a = pk_mem c a"
      "pk_inv (c1\<lparr>pk_mem := m\<rparr>) L1 U1 C1 B1" for m l
  proof -
    have d: "distinct (p # ys)" "set (p # ys) \<inter> p_out c C B i = {}"
      using f(4,7) i bs by simp_all
    have o: "p_out (c1\<lparr>pk_mem := m\<rparr>) C1 B1 j = p_out c C B j \<union> (if j = i then set (p # ys) else {})" if "j < 209" for j
      using f(8) [OF that] bs by simp
    have "lists_ok pf_rep pf_lim 209 (p_out (c1\<lparr>pk_mem := m\<rparr>) C1 B1) m (tc(i := l)) (T(i := ys))"
        "took 209 (p_out c C B) (pk_mem c) T i p (p_out (c1\<lparr>pk_mem := m\<rparr>) C1 B1) m (T(i := ys))"
      using ptl.lists_batch [OF tc i T d o that(1,2,3)] by simp_all
    then show ?thesis
      unfolding p_alloc_ok_def using that(4)
      by (intro exI [of _ p] exI [of _ "c1\<lparr>pk_mem := m\<rparr>"] exI [of _ "tc(i := l)"] exI [of _ L1] exI [of _ U1]
          exI [of _ C1] exI [of _ B1] exI [of _ "T(i := ys)"]) simp
  qed
  have lim: "pf_lim l ys" if "pf_max l = pf_max l1" for l
    using that n(4-6) f(3) bs by (simp add: pf_lim_def)
  show ?thesis
  proof (cases ys)
    case Nil
    have "p_alloc_ok c C B T i (Inr (p, c1\<lparr>pk_mem := pk_mem c1\<rparr>, tc(i := l1)))"
      using f(6,9) l1 lim Nil by (intro fin) simp_all
    then show ?thesis
      using r un bs Nil by simp
  next
    case (Cons y zs)
    have e: "ys = butlast ys @ [last ys]" "last bs = last ys" "last ys \<in> set bs"
      using bs Cons by simp_all
    have p0: "p \<noteq> nullptr" "lseg (pk_mem c1) (pk_mem c1 p) (butlast ys @ [last ys]) nullptr"
      using f(5) bs unfolding e(1) [symmetric] by auto
    have k: "(of_nat (length bs) - 1 :: i32) = of_nat (length (butlast ys) + 1)"
      using bs Cons by simp
    have d: "distinct (butlast ys @ [last ys])"
      using f(4) bs unfolding e(1) [symmetric] by simp
    obtain m l where l: "pf_push_range (pk_mem c1) l1 (pk_mem c1 p) (last ys) (of_nat (length bs) - 1) = Inr (m, l)"
        "pf_rep m l (butlast ys @ [last ys])" "\<forall>y. y \<noteq> last ys \<longrightarrow> m y = pk_mem c1 y" "pf_max l = pf_max l1"
      using pf_push_range_rep [OF l1 p0(2) d _ k] by auto
    have mf: "m a = pk_mem c a" if "j < 209" "a \<in> p_out c C B j" for j a
    proof -
      have "a \<noteq> last ys"
        using f(7) [OF that(1)] e(3) that(2) by blast
      then show ?thesis
        using l(3) f(9) [OF that] by simp
    qed
    have "pk_inv (c1\<lparr>pk_mem := m\<rparr>) L1 U1 C1 B1"
    proof (rule pk_inv_mem [OF f(6) i])
      show "m a = pk_mem c1 a" if "a \<notin> p_out c1 C1 B1 i" for a
      proof -
        have "a \<noteq> last ys"
          using that f(8) [OF i] e(3) by auto
        then show ?thesis
          using l(3) by blast
      qed
    qed
    then have "p_alloc_ok c C B T i (Inr (p, c1\<lparr>pk_mem := m\<rparr>, tc(i := l)))"
      using l(2) lim [OF l(4)] mf unfolding e(1) [symmetric] by (intro fin)
    then show ?thesis
      using r un bs Cons p0(1) l(1) e(2) by (simp add: NextObj_def)
  qed
qed

lemma p_Allocate_ok:
  assumes inv: "pk_inv c L U C B" and tc: "lists_ok pf_rep pf_lim 209 (p_out c C B) (pk_mem c) tc T"
    and cl: "p_class (p_RoundUp sz) i"
    and sup: "\<And>p. T i = [] \<Longrightarrow> (\<forall>x \<in> set (C i). B x = []) \<Longrightarrow> p_NumsFronPageCache (p_RoundUp sz) = Inr (int p) \<Longrightarrow>
      p_supply_ok (pk_pages c) L U p"
  shows "p_alloc_ok c C B T i (p_Allocate c tc sz)"
proof -
  have i: "i < 209"
    by (rule p_class_less [OF cl])
  have e: "pf_Empty (tc i) \<longleftrightarrow> T i = []"
    by (rule pf_Empty_rep [OF lists_okD(1) [OF tc i]])
  show ?thesis
  proof (cases "T i")
    case Nil
    then have "p_Allocate c tc sz = p_FetchFromCentral c tc (p_RoundUp sz)"
      using e p_class_list [OF cl] by (simp add: p_Allocate_def Let_def)
    then show ?thesis
      using p_FetchFromCentral_ok [OF inv tc cl Nil sup [OF Nil]] by simp
  next
    case (Cons p ys)
    obtain l where "pf_pop_front (pk_mem c) (tc i) = Inr (p, l)" "p_alloc_ok c C B T i (Inr (p, c, tc(i := l)))"
      using p_Allocate_pop_ok [OF inv tc i Cons] .
    then show ?thesis
      using e p_class_list [OF cl] Cons by (simp add: p_Allocate_def Let_def)
  qed
qed

section \<open>\<open>Deallocate\<close>\<close>

lemma p_ListTooLong_ok:
  assumes inv: "pk_inv c L U C B" and cl: "p_class sz i" and l: "pf_rep (pk_mem c) l (as @ e # xs)"
    and n: "pf_max l = of_nat (length as + 1)" "length as \<le> 512" and sub: "set (as @ e # xs) \<subseteq> p_out c C B i"
  shows "\<exists>c' l' L' U' C' B'. p_ListTooLong c l sz = Inr (c', l') \<and> pk_inv c' L' U' C' B' \<and>
    pf_rep (pk_mem c') l' xs \<and> pf_max l' = pf_max l \<and>
    (\<forall>j < 209. p_out c' C' B' j = p_out c C B j - (if j = i then set (as @ [e]) else {})) \<and>
    (\<forall>a. a \<notin> set (as @ [e]) \<longrightarrow> pk_mem c' a = pk_mem c a)"
proof -
  have i: "i < 209"
    by (rule p_class_less [OF cl])
  have d: "distinct (as @ e # xs)"
    using pfl.rep_distinct [OF l] by simp
  obtain m' l' where p: "pf_pop_range (pk_mem c) l (pf_max l) = Inr (hd (as @ [e]), e, m', l')"
      "pf_rep m' l' xs" "lseg m' (hd (as @ [e])) (as @ [e]) nullptr" "\<forall>y. y \<noteq> e \<longrightarrow> m' y = pk_mem c y"
      "pf_max l' = pf_max l"
    using pf_pop_range_rep [OF l n(1)] n(2) by auto
  have inv': "pk_inv (c\<lparr>pk_mem := m'\<rparr>) L U C B"
    using p(4) sub by (intro pk_inv_mem [OF inv i]) auto
  have "\<exists>c'. ReleaseToSpan (c\<lparr>pk_mem := m'\<rparr>) (hd (as @ [e])) sz = Inr c' \<and>
      p_gave_back (c\<lparr>pk_mem := m'\<rparr>) C B i (set (as @ [e])) c'"
    by (rule ReleaseToSpan_ok [OF inv' cl]) (use p(3) d sub in auto)
  then obtain c' L' U' C' B' where r: "ReleaseToSpan (c\<lparr>pk_mem := m'\<rparr>) (hd (as @ [e])) sz = Inr c'"
      "pk_inv c' L' U' C' B'"
      "\<And>j. j < 209 \<Longrightarrow> p_out c' C' B' j = p_out c C B j - (if j = i then set (as @ [e]) else {})"
      "\<And>a. a \<notin> set (as @ [e]) \<Longrightarrow> pk_mem c' a = m' a"
    unfolding p_gave_back_def by (auto simp del: set_append)
  have "pf_rep (pk_mem c') l' xs"
    using d by (intro pfl.rep_frame [OF p(2)] r(4)) auto
  moreover have "pk_mem c' a = pk_mem c a" if "a \<notin> set (as @ [e])" for a
    using r(4) [OF that] p(4) that by auto
  ultimately show ?thesis
    unfolding p_ListTooLong_def using p(1,5) r(1-3)
    by (intro exI [of _ c'] exI [of _ l'] exI [of _ L'] exI [of _ U'] exI [of _ C'] exI [of _ B'] conjI)
      simp_all
qed

lemma pf_push_max: "pf_push_front m l x = Inr (m', l') \<Longrightarrow> pf_max l' = pf_max l"
  by (auto simp: pf_push_front_def rbind_eq_Inr)

lemma p_Deallocate_ok:
  assumes inv: "pk_inv c L U C B" and tc: "lists_ok pf_rep pf_lim 209 (p_out c C B) (pk_mem c) tc T"
    and cl: "p_class sz i" and p: "p \<in> p_out c C B i" "p \<notin> set (T i)" "p \<noteq> nullptr"
  shows "p_free_ok c C B T i p (p_Deallocate c tc p sz)"
proof -
  have i: "i < 209"
    by (rule p_class_less [OF cl])
  note t = lists_okD [OF tc i]
  have mx: "1 \<le> sint (pf_max (tc i))" "sint (pf_max (tc i)) \<le> 513" "int (length (T i)) \<le> sint (pf_max (tc i))"
    using t(3) by (simp_all add: pf_lim_def)
  obtain m l where l: "pf_push_front (pk_mem c) (tc i) p = Inr (m, l)" "pf_rep m l (p # T i)"
      "\<forall>y. y \<noteq> p \<longrightarrow> m y = pk_mem c y"
    using pf_push_rep [OF t(1) p(3,2)] by blast
  have ms: "pf_max l = pf_max (tc i)"
    by (rule pf_push_max [OF l(1)])
  have size: "sint (pf_size l) = int (length (p # T i))"
    using l(2) mx sint_of_nat_i32 [of "length (p # T i)"] by (simp add: pf_rep_def)
  let ?c = "c\<lparr>pk_mem := m\<rparr>"
  have inv1: "pk_inv ?c L U C B"
    using l(3) p(1) by (intro pk_inv_mem [OF inv i]) metis
  have "p_RoundUp sz = sz"
    using cl by (simp add: p_class_def)
  then have r: "p_Deallocate c tc p sz = (if sint (pf_size l) > sint (pf_max l)
      then rbind (p_ListTooLong ?c l sz) (\<lambda>(c', l'). Inr (c', tc(i := l'))) else Inr (?c, tc(i := l)))"
    using l(1) p_class_list [OF cl] by (simp add: p_Deallocate_def Let_def)
  have dis: "\<And>j. j < 209 \<Longrightarrow> j \<noteq> i \<Longrightarrow> p_out c C B j \<inter> p_out c C B i = {}"
    using p_out_disjoint [OF inv _ i] by blast
  have fin: "p_free_ok c C B T i p (Inr (c', tc(i := l')))"
    if "pk_inv c' L' U' C' B'" "pf_rep (pk_mem c') l' xs" "pf_lim l' xs" "p # T i = as @ xs"
      "\<And>j. j < 209 \<Longrightarrow> p_out c' C' B' j = p_out c C B j - (if j = i then set as else {})"
      "\<And>a. a \<notin> insert p (set (T i)) \<Longrightarrow> pk_mem c' a = pk_mem c a" for c' l' L' U' C' B' as xs
  proof -
    have "lists_ok pf_rep pf_lim 209 (p_out c' C' B') (pk_mem c') (tc(i := l')) (T(i := xs))"
        "gave 209 (p_out c C B) (pk_mem c) T i p (p_out c' C' B') (pk_mem c') (T(i := xs))"
      using ptl.lists_push [OF tc i p(1,2) dis that(4,5,2,3,6)] by simp_all
    then show ?thesis
      unfolding p_free_ok_def using that(1) by blast
  qed
  show ?thesis
  proof (cases "sint (pf_size l) > sint (pf_max l)")
    case False
    have "p_free_ok c C B T i p (Inr (?c, tc(i := l)))"
      by (rule fin [OF inv1, of l "p # T i" "[]"]) (use l(2,3) mx ms size False in \<open>simp_all add: pf_lim_def\<close>)
    then show ?thesis
      using r False by simp
  next
    case True
    define k where "k = nat (sint (pf_max l))"
    have k: "1 \<le> k" "k \<le> 513" "length (p # T i) = Suc k" "pf_max l = of_nat k"
      using True mx ms size by (simp_all add: k_def)
    define ft where "ft = take k (p # T i)"
    define xs where "xs = drop k (p # T i)"
    have ft: "ft = butlast ft @ [last ft]" "length ft = k"
      using k by (auto simp: ft_def intro: append_butlast_last_id [symmetric])
    have sp: "p # T i = butlast ft @ last ft # xs"
      using ft(1) by (metis append.assoc append_Cons append_Nil append_take_drop_id ft_def xs_def)
    have sub: "set (butlast ft @ last ft # xs) \<subseteq> p_out ?c C B i"
      unfolding sp [symmetric] using t(2) p(1) by simp
    have rep: "pf_rep (pk_mem ?c) l (butlast ft @ last ft # xs)"
      using l(2) unfolding sp by simp
    have n: "pf_max l = of_nat (length (butlast ft) + 1)" "length (butlast ft) \<le> 512"
      using ft(2) k by (simp_all del: of_nat_add)
    obtain c' l' L' U' C' B' where lt: "p_ListTooLong ?c l sz = Inr (c', l')" "pk_inv c' L' U' C' B'"
        "pf_rep (pk_mem c') l' xs" "pf_max l' = pf_max l"
        "\<And>j. j < 209 \<Longrightarrow> p_out c' C' B' j = p_out ?c C B j - (if j = i then set (butlast ft @ [last ft]) else {})"
        "\<And>a. a \<notin> set (butlast ft @ [last ft]) \<Longrightarrow> pk_mem c' a = pk_mem ?c a"
      using p_ListTooLong_ok [OF inv1 cl rep n sub] by blast
    have "p_free_ok c C B T i p (Inr (c', tc(i := l')))"
    proof (rule fin [OF lt(2,3)])
      show "pf_lim l' xs"
        using mx ms lt(4) k(3) by (simp add: pf_lim_def xs_def)
      show "p # T i = (butlast ft @ [last ft]) @ xs"
        using sp by simp
      show "pk_mem c' a = pk_mem c a" if "a \<notin> insert p (set (T i))" for a
      proof -
        have "set (butlast ft @ [last ft]) \<subseteq> insert p (set (T i))"
          using arg_cong [OF sp, of set] by auto
        then have "a \<notin> set (butlast ft @ [last ft])" "a \<noteq> p"
          using that by blast+
        then show ?thesis
          using lt(6) l(3) by simp
      qed
    qed (use lt(5) in simp_all)
    then show ?thesis
      using r True lt(1) by simp
  qed
qed

end
