(* ===== verification/Pool_Alloc.thy ===== *)
theory Pool_Alloc
  imports Pool_Thread
begin

text \<open>
  The second allocator as a whole: any number of threads, each with its cache, over one central cache and one page
  cache. \<open>T t i\<close> is the list of class \<open>i\<close> of thread \<open>t\<close>, and the program holds what is out of the central cache and
  in no list. \<open>Alloc\<close> and \<open>Free\<close> move exactly one block between the two; the theory also gives the limits of the
  allocator: the sizes \<open>Alloc\<close> serves, and what \<open>Free\<close> asks of the calling thread.
\<close>

section \<open>Sizes outside 1 to 200 KB\<close>

lemma p_Index_not_positive:
  assumes "s \<le> 0"
  shows "p_RoundUp s \<le> 0" "p_Index s < 0"
proof -
  have "(s + 7) div 8 \<le> 0"
    using assms by linarith
  moreover have "p_RoundUp s = (s + 7) div 8 * 8"
    using assms int_and_not_mask [of "s + 7" 3] by (simp add: p_RoundUp_def p_RoundUp_impl_def add.commute)
  moreover have "p_Index s = (s + 7) div 8 - 1"
    using assms by (simp add: p_Index_def p_Index_impl_def drop_bit_eq_div)
  ultimately show "p_RoundUp s \<le> 0" "p_Index s < 0"
    by simp_all
qed

lemma p_list_of_bad:
  assumes "\<not> (1 \<le> s \<and> s \<le> 204800)"
  shows "p_list_of (p_RoundUp s) = Inl OutOfBounds"
proof -
  consider "s \<le> 0" | "204800 < s" "s \<le> 262144" | "262144 < s"
    using assms by linarith
  then show ?thesis
  proof cases
    case 1
    then have "p_Index (p_RoundUp s) < 0"
      by (intro p_Index_not_positive)
    then show ?thesis
      by (simp add: p_list_of_def)
  next
    case 2
    then obtain n where n: "s = int n" "0 < n" "n \<le> 262144" "204800 < n"
      by (intro that [of "nat s"]) auto
    have c: "0 < class_size n" "class_size n \<le> 262144"
      using class_size_pos [OF n(2)] class_size_le [OF n(3)] by simp_all
    have "\<not> p_class_index n < 209"
      using p_class_index_less_iff [OF n(2,3)] n(4) by simp
    then have "\<not> p_Index (p_RoundUp s) < p_NFREE_LIST"
      using n c p_class_index_class_size [OF n(2,3)] by (simp add: p_RoundUp_class p_Index_class p_NFREE_LIST_def)
    then show ?thesis
      by (simp add: p_list_of_def)
  next
    case 3
    then have "p_RoundUp s = 0"
      by (simp add: p_RoundUp_def)
    then show ?thesis
      using p_Index_not_positive(2) [of 0] by (simp add: p_list_of_def)
  qed
qed

lemma p_list_of_ok:
  assumes "1 \<le> s" "s \<le> 204800"
  shows "p_list_of (p_RoundUp s) = Inr (p_class_index (nat s))"
proof -
  obtain n where n: "s = int n" "0 < n" "n \<le> 204800"
    using assms by (intro that [of "nat s"]) auto
  then have c: "0 < class_size n" "class_size n \<le> 204800" "n \<le> 262144"
    using class_size_pos p_class_size_le by auto
  then show ?thesis
    using n p_class_index_less_iff [of n] p_class_index_class_size [of n]
    by (simp add: p_list_of_def p_RoundUp_class p_Index_class p_NFREE_LIST_def)
qed

section \<open>Blocks freed by another thread\<close>

lemma Alloc_threads:
  assumes "Alloc s t sz = Inr (p, s')" "u \<noteq> t"
  shows "pa_threads s' u = pa_threads s u"
  using assms by (auto simp: Alloc_def rbind_eq_Inr split: option.splits)

lemma Free_needs_cache:
  assumes "Alloc s t sz = Inr (p, s')" "u \<noteq> t" "pa_threads s u = None"
  shows "\<exists>e. Free s' u p = Inl e"
  using Alloc_threads [OF assms(1,2)] assms(3) by (auto simp: Free_def Let_def)

section \<open>The invariant\<close>

definition pa_inv :: "palloc \<Rightarrow> (nat \<Rightarrow> addr list) \<Rightarrow> addr set \<Rightarrow> (nat \<Rightarrow> addr list) \<Rightarrow> (addr \<Rightarrow> addr list) \<Rightarrow>
    (nat \<Rightarrow> nat \<Rightarrow> addr list) \<Rightarrow> bool" where
  "pa_inv s L U C B T \<longleftrightarrow>
     pk_inv (pa_central s) L U C B \<and>
     threads_ok pf_rep pf_lim 209 (p_out (pa_central s) C B) (pk_mem (pa_central s)) (pa_threads s) T"

definition p_held :: "palloc \<Rightarrow> (nat \<Rightarrow> addr list) \<Rightarrow> (addr \<Rightarrow> addr list) \<Rightarrow> (nat \<Rightarrow> nat \<Rightarrow> addr list) \<Rightarrow> nat \<Rightarrow> addr set" where
  "p_held s C B T = held_of (p_out (pa_central s) C B) T"

definition Alloc_ok :: "palloc \<Rightarrow> (nat \<Rightarrow> addr list) \<Rightarrow> (addr \<Rightarrow> addr list) \<Rightarrow> (nat \<Rightarrow> nat \<Rightarrow> addr list) \<Rightarrow> nat \<Rightarrow> nat \<Rightarrow>
    (addr \<times> palloc) res \<Rightarrow> bool" where
  "Alloc_ok s C B T t i r \<longleftrightarrow>
     (\<exists>p s' L' U' C' B' T'. r = Inr (p, s') \<and> pa_inv s' L' U' C' B' T' \<and> pa_threads s' t \<noteq> None \<and> p \<noteq> nullptr \<and>
        (\<forall>j < 209. p \<notin> p_held s C B T j) \<and>
        (\<forall>j < 209. p_held s' C' B' T' j = p_held s C B T j \<union> (if j = i then {p} else {})))"

definition Free_ok :: "palloc \<Rightarrow> (nat \<Rightarrow> addr list) \<Rightarrow> (addr \<Rightarrow> addr list) \<Rightarrow> (nat \<Rightarrow> nat \<Rightarrow> addr list) \<Rightarrow> nat \<Rightarrow> addr \<Rightarrow>
    palloc res \<Rightarrow> bool" where
  "Free_ok s C B T i p r \<longleftrightarrow>
     (\<exists>s' L' U' C' B' T'. r = Inr s' \<and> pa_inv s' L' U' C' B' T' \<and>
        (\<forall>j < 209. p_held s' C' B' T' j = p_held s C B T j - (if j = i then {p} else {})))"

lemma p_out_block:
  assumes "pk_inv c L U C B" "i < 209" "a \<in> p_out c C B i"
  obtains x where "x \<in> set (C i)" "AddrToSpan (pk_pages c) a = x" "x \<noteq> nullptr" "a \<noteq> nullptr"
    "p_class (sint (pq_obj (pk_pages c) x)) i"
proof -
  obtain x where x: "x \<in> set (C i)" "a \<in> set (p_blocks (pk_pages c) x)"
    using assms(3) by (auto simp: p_out_def out_of_def)
  show thesis
    using that [OF x(1)] AddrToSpan_block [OF assms(1,2) x] pk_invD(5) [OF assms(1,2) x(1)] by blast
qed

lemma p_new_lists: "lists_ok pf_rep pf_lim 209 out m p_new_thread_cache (\<lambda>_. [])"
proof -
  have "sint (1 :: i32) = 1"
    by simp
  then show ?thesis
    by (simp add: lists_ok_def p_new_thread_cache_def pf_new_def pf_rep_def pf_lim_def)
qed

section \<open>\<open>Alloc\<close>\<close>

lemma Alloc_run:
  assumes "pa_threads s t = None \<Longrightarrow> \<exists>x pool. pp_New p_THREAD_CACHE_SIZE (pa_pool s) = Inr (x, pool)"
    and "p_Allocate (pa_central s) (case pa_threads s t of None \<Rightarrow> p_new_thread_cache | Some tc \<Rightarrow> tc) sz = Inr (p, c, tc1)"
  obtains s' where "Alloc s t sz = Inr (p, s')" "pa_central s' = c" "pa_threads s' = (pa_threads s)(t := Some tc1)"
proof (cases "pa_threads s t")
  case None
  then obtain x pool where "pp_New p_THREAD_CACHE_SIZE (pa_pool s) = Inr (x, pool)"
    using assms(1) by blast
  then show thesis
    using that assms(2) None by (simp add: Alloc_def)
next
  case (Some tc)
  then show thesis
    using that assms(2) by (simp add: Alloc_def)
qed

lemma Alloc_keeps:
  assumes inv: "pa_inv s L U C B T" and cl: "p_class (p_RoundUp sz) i"
    and new: "pa_threads s t = None \<Longrightarrow> \<exists>x xs. pp_rep p_THREAD_CACHE_SIZE (pa_pool s) (x # xs)"
    and sup: "\<And>p. T t i = [] \<Longrightarrow> (\<forall>x \<in> set (C i). B x = []) \<Longrightarrow> p_NumsFronPageCache (p_RoundUp sz) = Inr (int p) \<Longrightarrow>
      p_supply_ok (pk_pages (pa_central s)) L U p"
  shows "Alloc_ok s C B T t i (Alloc s t sz)"
proof -
  let ?c = "pa_central s"
  let ?tc = "case pa_threads s t of None \<Rightarrow> p_new_thread_cache | Some tc \<Rightarrow> tc"
  have i: "i < 209"
    by (rule p_class_less [OF cl])
  have pk: "pk_inv ?c L U C B" and th: "threads_ok pf_rep pf_lim 209 (p_out ?c C B) (pk_mem ?c) (pa_threads s) T"
    using inv by (simp_all add: pa_inv_def)
  have "p_alloc_ok ?c C B (T t) i (p_Allocate ?c ?tc sz)"
    by (rule p_Allocate_ok [OF pk own_lists [OF th p_new_lists] cl sup])
  then obtain p c' tc' L' U' C' B' T1 where a: "p_Allocate ?c ?tc sz = Inr (p, c', tc')" "pk_inv c' L' U' C' B'"
      "lists_ok pf_rep pf_lim 209 (p_out c' C' B') (pk_mem c') tc' T1"
      "took 209 (p_out ?c C B) (pk_mem ?c) (T t) i p (p_out c' C' B') (pk_mem c') T1"
    unfolding p_alloc_ok_def by blast
  have np: "\<exists>x pool. pp_New p_THREAD_CACHE_SIZE (pa_pool s) = Inr (x, pool)" if "pa_threads s t = None"
    using new [OF that] pp_New_pop by blast
  obtain s' where s': "Alloc s t sz = Inr (p, s')" "pa_central s' = c'" "pa_threads s' = (pa_threads s)(t := Some tc')"
    by (rule Alloc_run [OF np a(1)]) (assumption, rule that)
  have dis: "\<And>j. j < 209 \<Longrightarrow> j \<noteq> i \<Longrightarrow> p_out c' C' B' j \<inter> p_out c' C' B' i = {}"
    using p_out_disjoint [OF a(2) _ i] by blast
  note tk = ptl.threads_take [OF th a(3) i a(4) dis]
  have "p \<in> p_out c' C' B' i"
    using a(4) by (simp add: took_def)
  then have "p \<noteq> nullptr"
    using p_out_block [OF a(2) i] by blast
  then show ?thesis
    unfolding Alloc_ok_def pa_inv_def p_held_def using s' a(2) tk
    by (intro exI [of _ p] exI [of _ s'] exI [of _ L'] exI [of _ U'] exI [of _ C'] exI [of _ B'] exI [of _ "T(t := T1)"]) simp
qed

section \<open>\<open>Free\<close>\<close>

lemma Free_keeps:
  assumes inv: "pa_inv s L U C B T" and i: "i < 209" and p: "p \<in> p_held s C B T i" and t: "pa_threads s t = Some tc"
  shows "Free_ok s C B T i p (Free s t p)"
proof -
  let ?c = "pa_central s"
  have pk: "pk_inv ?c L U C B" and th: "threads_ok pf_rep pf_lim 209 (p_out ?c C B) (pk_mem ?c) (pa_threads s) T"
    using inv by (simp_all add: pa_inv_def)
  have pl: "p \<in> p_out ?c C B i" "p \<notin> set (T t i)"
    using p by (auto simp: p_held_def held_of_def)
  obtain x where x: "AddrToSpan (pk_pages ?c) p = x" "x \<noteq> nullptr" "p \<noteq> nullptr"
      "p_class (sint (pq_obj (pk_pages ?c) x)) i"
    using p_out_block [OF pk i pl(1)] by blast
  have "p_free_ok ?c C B (T t) i p (p_Deallocate ?c tc p (sint (pq_obj (pk_pages ?c) x)))"
    by (rule p_Deallocate_ok [OF pk threads_okD(1) [OF th t] x(4) pl x(3)])
  then obtain c' tc' L' U' C' B' T1 where a: "p_Deallocate ?c tc p (sint (pq_obj (pk_pages ?c) x)) = Inr (c', tc')"
      "pk_inv c' L' U' C' B'" "lists_ok pf_rep pf_lim 209 (p_out c' C' B') (pk_mem c') tc' T1"
      "gave 209 (p_out ?c C B) (pk_mem ?c) (T t) i p (p_out c' C' B') (pk_mem c') T1"
    unfolding p_free_ok_def by blast
  let ?s' = "s\<lparr>pa_central := c', pa_threads := (pa_threads s)(t := Some tc')\<rparr>"
  have r: "Free s t p = Inr ?s'"
    using a(1) t x(1,2,4) by (simp add: Free_def Let_def p_class_def)
  have dis: "\<And>j. j < 209 \<Longrightarrow> j \<noteq> i \<Longrightarrow> p_out ?c C B j \<inter> p_out ?c C B i = {}"
    using p_out_disjoint [OF pk _ i] by blast
  note gv = ptl.threads_give [OF th a(3) i a(4) p [unfolded p_held_def] dis]
  show ?thesis
    unfolding Free_ok_def pa_inv_def p_held_def using r a(2) gv
    by (intro exI [of _ ?s'] exI [of _ L'] exI [of _ U'] exI [of _ C'] exI [of _ B'] exI [of _ "T(t := T1)"]) simp
qed

section \<open>The allocator as it starts\<close>

lemma pk_inv_init:
  assumes pg: "pq_inv pg L {} {} {}" and z: "\<And>z. z \<in> pq_foot pg L \<Longrightarrow> pq_use pg z = 0" and i: "inj_on heads {..<209}"
    and h: "\<And>i. i < 209 \<Longrightarrow> heads i \<notin> pq_foot pg L \<and> heads i \<noteq> nullptr \<and>
      s_next (pq_spans pg) (heads i) = heads i \<and> s_prev (pq_spans pg) (heads i) = heads i"
  shows "pk_inv \<lparr>pk_pages = pg, pk_heads = heads, pk_mem = m\<rparr> L {} (\<lambda>_. []) B"
proof -
  have "buckets_ok sl_rep (pq_spans pg) heads (\<lambda>_. []) 209"
    using i h by (auto simp: buckets_ok_def sl_rep_def ring_def inj_on_def)
  moreover have "heads ` {..<209} \<inter> pq_foot pg L = {}"
    using h by auto
  ultimately show ?thesis
    using pg z by (simp add: pk_inv_def owned_def apart_def)
qed

definition pa_demo :: palloc where
  "pa_demo = \<lparr>pa_central = \<lparr>pk_pages = pq_demo, pk_heads = (\<lambda>i. of_nat (64 * (i + 200))), pk_mem = (\<lambda>_. nullptr)\<rparr>,
     pa_pool = pp_new [8388608], pa_threads = (\<lambda>_. None)\<rparr>"

lemma pa_demo_inv: "pa_inv pa_demo (\<lambda>_. []) {} (\<lambda>_. []) (\<lambda>_. []) (\<lambda>_ _. [])"
proof -
  have u: "unat (of_nat (64 * k) :: u64) = 64 * k" if "k < 1000" for k
    using that by (intro unat_of_nat_small) simp
  have "pk_inv (pa_central pa_demo) (\<lambda>_. []) {} (\<lambda>_. []) (\<lambda>_. [])"
    unfolding pa_demo_def palloc.simps
  proof (rule pk_inv_init [OF pq_demo_facts(1)])
    show "pq_use pq_demo z = 0" for z
      by (simp add: pq_demo_def pq_new_def)
    show "inj_on (\<lambda>i. of_nat (64 * (i + 200)) :: u64) {..<209}"
    proof (rule inj_onI)
      fix i j :: nat
      assume a: "i \<in> {..<209}" "j \<in> {..<209}" "(of_nat (64 * (i + 200)) :: u64) = of_nat (64 * (j + 200))"
      then show "i = j"
        using u [of "i + 200"] u [of "j + 200"] by simp
    qed
    fix i :: nat
    assume i: "i < 209"
    define g where "g = (of_nat (64 * (i + 200)) :: addr)"
    have ug: "unat g = 64 * (i + 200)"
      using u [of "i + 200"] i by (simp add: g_def)
    have "g \<noteq> of_nat (64 * (j + 1))" if "j < 129" for j
    proof
      assume "g = of_nat (64 * (j + 1))"
      then have "64 * (i + 200) = 64 * (j + 1)"
        using ug u [of "j + 1"] that by simp
      then show False using that by simp
    qed
    moreover have "g \<notin> set (slots 1048576 56 146)"
    proof
      assume "g \<in> set (slots 1048576 56 146)"
      then have "unat (1048576 :: addr) \<le> unat g"
        by (intro slots_in_block(1) [of _ 146 56]) simp_all
      then show False using ug i by simp
    qed
    moreover have "pq_heads pq_demo = (\<lambda>i. of_nat (64 * (i + 1)))" "s_next (pq_spans pq_demo) = id"
        "s_prev (pq_spans pq_demo) = id"
      by (simp_all add: pq_demo_def pq_new_def)
    moreover have "g \<noteq> nullptr"
      using ug by auto
    ultimately show "of_nat (64 * (i + 200)) \<notin> pq_foot pq_demo (\<lambda>_. []) \<and> of_nat (64 * (i + 200)) \<noteq> nullptr \<and>
        s_next (pq_spans pq_demo) (of_nat (64 * (i + 200))) = of_nat (64 * (i + 200)) \<and>
        s_prev (pq_spans pq_demo) (of_nat (64 * (i + 200))) = of_nat (64 * (i + 200))"
      unfolding g_def [symmetric]
      by (simp add: pq_foot_def free_spans_def pq_slots_rep [OF pq_demo_facts(4)] del: of_nat_mult of_nat_add) blast
  qed
  then show ?thesis
    by (simp add: pa_inv_def threads_ok_def pa_demo_def)
qed

lemma pa_demo_new: "\<exists>x xs. pp_rep p_THREAD_CACHE_SIZE (pa_pool pa_demo) (x # xs)"
proof -
  have "pp_carve p_THREAD_CACHE_SIZE (pp_new [8388608]) (slots 8388608 3344 2)"
    by (auto simp: pp_carve_def pp_new_def p_THREAD_CACHE_SIZE_def intro!: exI [of _ 0])
  then have "pp_rep p_THREAD_CACHE_SIZE (pa_pool pa_demo) (slots 8388608 3344 2)"
    by (simp add: pp_rep_def pp_new_def pa_demo_def)
  then show ?thesis
    by (simp add: numeral_2_eq_2) blast
qed

lemma pa_demo_supply:
  assumes "p \<le> 128"
  shows "p_supply_ok (pk_pages (pa_central pa_demo)) (\<lambda>_. []) {} p"
proof -
  have "pp_rep p_SPAN_SIZE (pq_pool (pk_pages (pa_central pa_demo))) (slots 1048576 56 146)"
    using pq_demo_facts(4) by (simp add: pa_demo_def)
  then show ?thesis
    unfolding p_supply_ok_def using pq_demo_facts(2,3)
    by (intro conjI impI exI [of _ "slots 1048576 56 146"] exI [of _ 4294967296] exI [of _ "[]"])
      (simp_all add: pa_demo_def free_spans_def)
qed

lemma p_bucket_30: "p_bucket_of 30 = Some 3"
  by (simp add: p_bucket_of_def p_Index_def p_Index_impl_def p_NFREE_LIST_def)

lemma p_class_30: "p_class (p_RoundUp 30) 3"
  by (rule p_class_RoundUp [OF _ _ p_bucket_30]) simp_all

lemma p_pages_30: "p_NumsFronPageCache (p_RoundUp 30) = Inr (int p) \<Longrightarrow> p \<le> 128"
proof -
  assume a: "p_NumsFronPageCache (p_RoundUp 30) = Inr (int p)"
  obtain q where "p_NumsFronPageCache (p_RoundUp 30) = Inr (int q)" "q \<le> 64"
    using p_class_pages [OF p_class_30] by blast
  then show ?thesis
    using a by simp
qed

lemma pa_demo_Alloc: "Alloc_ok pa_demo (\<lambda>_. []) (\<lambda>_. []) (\<lambda>_ _. []) 1 3 (Alloc pa_demo 1 30)"
proof (rule Alloc_keeps [OF pa_demo_inv p_class_30 pa_demo_new])
  fix p
  assume "p_NumsFronPageCache (p_RoundUp 30) = Inr (int p)"
  then show "p_supply_ok (pk_pages (pa_central pa_demo)) (\<lambda>_. []) {} p"
    using p_pages_30 by (intro pa_demo_supply) blast
qed

section \<open>Properties\<close>

text \<open>C29: \<open>Alloc\<close> of 1 byte to 200 KB, called by any thread in any reachable state of the second allocator,
  returns a block that is not null and that the program does not hold, of the class of the size; afterwards the
  program holds that block and what it held before, nothing else, the thread has a cache, and the invariant of all
  caches holds again. The system is asked for pages only where the thread's list and every span of the class are
  empty.\<close>

theorem Alloc_correct:
  assumes "pa_inv s L U C B T" "1 \<le> sz" "sz \<le> 204800" "p_bucket_of sz = Some i"
    and "pa_threads s t = None \<Longrightarrow> \<exists>x xs. pp_rep p_THREAD_CACHE_SIZE (pa_pool s) (x # xs)"
    and "\<And>p. T t i = [] \<Longrightarrow> (\<forall>x \<in> set (C i). B x = []) \<Longrightarrow> p_NumsFronPageCache (p_RoundUp sz) = Inr (int p) \<Longrightarrow>
      p_supply_ok (pk_pages (pa_central s)) L U p"
  shows "Alloc_ok s C B T t i (Alloc s t sz)"
  using assms(1) p_class_RoundUp [OF assms(2-4)] assms(5,6) by (rule Alloc_keeps)

lemma Alloc_correct_witness:
  "Alloc_ok pa_demo (\<lambda>_. []) (\<lambda>_. []) (\<lambda>_ _. []) 2 3 (Alloc pa_demo 2 30)"
proof (rule Alloc_correct [OF pa_demo_inv _ _ p_bucket_30 pa_demo_new])
  fix p
  assume "p_NumsFronPageCache (p_RoundUp 30) = Inr (int p)"
  then show "p_supply_ok (pk_pages (pa_central pa_demo)) (\<lambda>_. []) {} p"
    using p_pages_30 by (intro pa_demo_supply) blast
qed simp_all

text \<open>C30: \<open>Free\<close> of a block the program holds, called by a thread that has allocated before, returns; the class of
  the block is found from its address alone, exactly that block stops being held, and the invariant of all caches
  holds again, whichever thread allocated the block.\<close>

theorem Free_correct:
  assumes "pa_inv s L U C B T" "i < 209" "p \<in> p_held s C B T i" "pa_threads s t = Some tc"
  shows "Free_ok s C B T i p (Free s t p)"
  using assms by (rule Free_keeps)

lemma Free_correct_witness:
  "\<exists>p s1 C B T. Alloc pa_demo 1 30 = Inr (p, s1) \<and> p \<in> p_held s1 C B T 3 \<and> Free_ok s1 C B T 3 p (Free s1 1 p)"
proof -
  obtain p s1 L U C B T where m: "Alloc pa_demo 1 30 = Inr (p, s1)" "pa_inv s1 L U C B T" "pa_threads s1 1 \<noteq> None"
      "p \<in> p_held s1 C B T 3"
    using pa_demo_Alloc unfolding Alloc_ok_def by auto
  obtain tc where "pa_threads s1 1 = Some tc"
    using m(3) by auto
  from Free_correct [OF m(2) _ m(4) this]
  show ?thesis
    using m(1,4) by (intro exI [of _ p] exI [of _ s1] exI [of _ C] exI [of _ B] exI [of _ T]) simp
qed

section \<open>Sizes that are not served\<close>

text \<open>\<open>Alloc\<close> serves 1 byte to 200 KB only: for any other size a thread with a cache indexes its array of free
  lists outside its bounds, before any state has changed.\<close>

theorem Alloc_out_of_range:
  assumes "pa_threads s t = Some tc" "\<not> (1 \<le> sz \<and> sz \<le> 204800)"
  shows "Alloc s t sz = Inl OutOfBounds"
  using assms p_list_of_bad [OF assms(2)] by (simp add: Alloc_def p_Allocate_def Let_def)

lemma Alloc_out_of_range_witness:
  "Alloc \<lparr>pa_central = \<lparr>pk_pages = pq_demo, pk_heads = (\<lambda>_. 64), pk_mem = (\<lambda>_. nullptr)\<rparr>, pa_pool = pp_new [],
     pa_threads = (\<lambda>_. Some p_new_thread_cache)\<rparr> 0 204801 = Inl OutOfBounds"
  by (rule Alloc_out_of_range [where tc = p_new_thread_cache]) simp_all

end
