(* ===== verification/Pool_Programs.thy ===== *)
theory Pool_Programs
  imports Pool_Alloc Allocator_Client
begin

text \<open>
  Programs of several threads over the second allocator, whose calls are served one after the other, each as a whole:
  \<open>Alloc\<close> and \<open>Free\<close> meet the contract \<open>allocator\<close>, so that every program that is
  proper on the classes of its blocks runs. The tests of \<open>Pool/unitest.cpp\<close> are such programs.
\<close>

section \<open>The contract\<close>

definition pa_class :: "int \<Rightarrow> nat option" where
  "pa_class sz = (if 1 \<le> sz \<and> sz \<le> 204800 then p_bucket_of sz else None)"

definition pa_good :: "palloc \<Rightarrow> (nat \<Rightarrow> addr set) \<Rightarrow> bool" where
  "pa_good s H \<longleftrightarrow>
     (\<exists>L U C B T. pa_inv s L U C B T \<and> (\<forall>i. H i = (if i < 209 then p_held s C B T i else {})))"

definition pa_has_cache :: "palloc \<Rightarrow> nat \<Rightarrow> bool" where
  "pa_has_cache s t \<longleftrightarrow> pa_threads s t \<noteq> None"

text \<open>The object pools have room for a thread's cache and for two spans, and a mapping returns fresh pages, where the
  request needs them.\<close>

definition pa_supplied :: "palloc \<Rightarrow> nat \<Rightarrow> int \<Rightarrow> bool" where
  "pa_supplied s t sz \<longleftrightarrow>
     (pa_threads s t = None \<longrightarrow> (\<exists>x xs. pp_rep p_THREAD_CACHE_SIZE (pa_pool s) (x # xs))) \<and>
     (\<forall>L U C B T i p. pa_inv s L U C B T \<longrightarrow> p_class (p_RoundUp sz) i \<longrightarrow> T t i = [] \<longrightarrow> (\<forall>x \<in> set (C i). B x = []) \<longrightarrow>
        p_NumsFronPageCache (p_RoundUp sz) = Inr (int p) \<longrightarrow> p_supply_ok (pk_pages (pa_central s)) L U p)"

lemma Free_threads:
  assumes "Free s t p = Inr s'" "pa_threads s u \<noteq> None"
  shows "pa_threads s' u \<noteq> None"
  using assms by (auto simp: Free_def Let_def rbind_eq_Inr split: if_splits option.splits)

interpretation pca: allocator Alloc Free pa_good pa_has_cache pa_class pa_supplied
proof unfold_locales
  fix s H z i t
  assume g: "pa_good s H" and c: "pa_class z = Some i" and sup: "pa_supplied s t z"
  obtain L U C B T where inv: "pa_inv s L U C B T" and H: "\<And>i. H i = (if i < 209 then p_held s C B T i else {})"
    using g by (auto simp: pa_good_def)
  have cl: "p_class (p_RoundUp z) i"
    using c by (intro p_class_RoundUp) (simp_all add: pa_class_def split: if_splits)
  have i: "i < 209"
    by (rule p_class_less [OF cl])
  have "Alloc_ok s C B T t i (Alloc s t z)"
    using sup inv cl by (intro Alloc_keeps [OF inv cl]) (auto simp: pa_supplied_def)
  then obtain p s' L' U' C' B' T' where m: "Alloc s t z = Inr (p, s')" "pa_inv s' L' U' C' B' T'"
      "pa_threads s' t \<noteq> None" "\<And>j. j < 209 \<Longrightarrow> p \<notin> p_held s C B T j"
      "\<And>j. j < 209 \<Longrightarrow> p_held s' C' B' T' j = p_held s C B T j \<union> (if j = i then {p} else {})"
    unfolding Alloc_ok_def by blast
  have "pa_good s' (H(i := insert p (H i)))"
    unfolding pa_good_def using m(2,5) H i
    by (intro exI [of _ L'] exI [of _ U'] exI [of _ C'] exI [of _ B'] exI [of _ T']) auto
  moreover have "p \<notin> H j" for j
    using m(4) H by simp
  moreover have "pa_has_cache s u \<longrightarrow> pa_has_cache s' u" for u
    using Alloc_threads [OF m(1), of u] m(3) by (cases "u = t") (simp_all add: pa_has_cache_def)
  ultimately show "\<exists>p s'. Alloc s t z = Inr (p, s') \<and> pa_good s' (H(i := insert p (H i))) \<and> (\<forall>j. p \<notin> H j) \<and>
      pa_has_cache s' t \<and> (\<forall>u. pa_has_cache s u \<longrightarrow> pa_has_cache s' u)"
    using m(1,3) by (auto simp: pa_has_cache_def)
next
  fix s H p i t
  assume g: "pa_good s H" and p: "p \<in> H i" and t: "pa_has_cache s t"
  obtain L U C B T where inv: "pa_inv s L U C B T" and H: "\<And>i. H i = (if i < 209 then p_held s C B T i else {})"
    using g by (auto simp: pa_good_def)
  obtain tc where tc: "pa_threads s t = Some tc"
    using t by (auto simp: pa_has_cache_def)
  have i: "i < 209" "p \<in> p_held s C B T i"
    using p H [of i] by (auto split: if_splits)
  obtain s' L' U' C' B' T' where d: "Free s t p = Inr s'" "pa_inv s' L' U' C' B' T'"
      "\<And>j. j < 209 \<Longrightarrow> p_held s' C' B' T' j = p_held s C B T j - (if j = i then {p} else {})"
    using Free_keeps [OF inv i tc] unfolding Free_ok_def by blast
  have "pa_good s' (H(i := H i - {p}))"
    unfolding pa_good_def using d(2,3) H i(1)
    by (intro exI [of _ L'] exI [of _ U'] exI [of _ C'] exI [of _ B'] exI [of _ T']) auto
  then show "\<exists>s'. Free s t p = Inr s' \<and> pa_good s' (H(i := H i - {p})) \<and> (\<forall>u. pa_has_cache s u \<longrightarrow> pa_has_cache s' u)"
    using d(1) Free_threads [OF d(1)] by (auto simp: pa_has_cache_def)
qed

section \<open>The tests\<close>

definition SingleThreadTest :: "int request list" where
  "SingleThreadTest = ask_give_each 0 (replicate 100000 64)"

definition ConcurrentAlloc :: "nat \<Rightarrow> nat \<Rightarrow> int \<Rightarrow> int request list" where
  "ConcurrentAlloc t n size' = ask_all_give_all t (replicate n size')"

text \<open>Ten threads, 0 to 9, run the same function.\<close>

definition MultiThreadTest :: "int request list \<Rightarrow> bool" where
  "MultiThreadTest rs \<longleftrightarrow>
     (\<forall>t < 10. program_of t rs = ConcurrentAlloc t 100000 64) \<and> (\<forall>r \<in> set rs. by_thread r < 10)"

text \<open>Eight threads; the sizes are those that \<open>rand() % 512 + 1\<close> gives each.\<close>

definition StressTest :: "(nat \<Rightarrow> int list) \<Rightarrow> int request list \<Rightarrow> bool" where
  "StressTest sizes rs \<longleftrightarrow>
     (\<forall>t < 8. length (sizes t) = 1000000 \<and> set (sizes t) \<subseteq> {1..512} \<and> program_of t rs = ask_give_each t (sizes t)) \<and>
     (\<forall>r \<in> set rs. by_thread r < 8)"

lemma pa_class_Some: "1 \<le> sz \<Longrightarrow> sz \<le> 204800 \<Longrightarrow> pa_class sz \<noteq> None"
proof -
  assume "1 \<le> sz" "sz \<le> 204800"
  moreover from this have "0 < nat sz" "nat sz \<le> 204800"
    by linarith+
  ultimately show ?thesis
    using psc.bucket_in_range [of sz] by (auto simp: pa_class_def)
qed

text \<open>Threads that each run a program which gives back what it asked for leave nothing out.\<close>

lemma balanced_wants:
  assumes p: "\<And>t. t < n \<Longrightarrow> program_of t rs = P t" "\<And>r. r \<in> set rs \<Longrightarrow> by_thread r < n"
    and own: "\<And>t r. t < n \<Longrightarrow> r \<in> set (P t) \<Longrightarrow> own r"
    and w: "\<And>t. t < n \<Longrightarrow> wants_own pa_class (P t) [] = Some (replicate (k t) None)"
  shows "want_all pa_class rs (\<lambda>_. []) = Some (\<lambda>t. replicate (if t < n then k t else 0) None)"
proof (rule want_interleaved)
  have "own r" if r: "r \<in> set rs" for r
  proof -
    have "r \<in> set (program_of (by_thread r) rs)"
      using r by (simp add: program_of_def)
    then show ?thesis
      using p(1) [OF p(2) [OF r]] own [OF p(2) [OF r]] by simp
  qed
  then show "\<forall>r \<in> set rs. own r"
    by blast
  show "wants_own pa_class (program_of t rs) [] = Some (replicate (if t < n then k t else 0) None)" for t
  proof (cases "t < n")
    case False
    then have "program_of t rs = []"
      using p(2) by (force simp: program_of_def filter_empty_conv)
    then show ?thesis
      using False by simp
  qed (simp add: p(1) w)
qed

lemma nothing_out:
  assumes "agree H v (\<lambda>t. replicate (k t) None)"
  shows "H = (\<lambda>_. {})"
  using agreeD(2) [OF assms] by (auto simp: out_blocks_def fun_eq_iff)

lemma MultiThreadTest_wants:
  assumes "MultiThreadTest rs"
  shows "want_all pa_class rs (\<lambda>_. []) = Some (\<lambda>t. replicate (if t < 10 then 100000 else 0) None)"
proof (rule balanced_wants [where P = "\<lambda>t. ConcurrentAlloc t 100000 64"])
  show "wants_own pa_class (ConcurrentAlloc t 100000 64) [] = Some (replicate 100000 None)" for t
    using ask_all_give_all_wants [of "replicate 100000 64" pa_class t] pa_class_Some [of 64] by (simp add: ConcurrentAlloc_def)
qed (use assms in \<open>auto simp: MultiThreadTest_def ConcurrentAlloc_def\<close>)

lemma StressTest_wants:
  assumes "StressTest sizes rs"
  shows "want_all pa_class rs (\<lambda>_. []) = Some (\<lambda>t. replicate (if t < 8 then 1000000 else 0) None)"
proof (rule balanced_wants [where P = "\<lambda>t. ask_give_each t (sizes t)"])
  fix t :: nat
  assume t: "t < 8"
  then have s: "length (sizes t) = 1000000" "set (sizes t) \<subseteq> {1..512}"
    using assms by (auto simp: StressTest_def)
  have "pa_class z \<noteq> None" if "z \<in> set (sizes t)" for z
    using s(2) that by (intro pa_class_Some) auto
  then show "wants_own pa_class (ask_give_each t (sizes t)) [] = Some (replicate 1000000 None)"
    using ask_give_each_wants [of "sizes t" pa_class t] s(1) by auto
qed (use assms in \<open>auto simp: StressTest_def\<close>)

lemma SingleThreadTest_wants:
  "want_all pa_class SingleThreadTest (\<lambda>_. []) = Some (\<lambda>t. replicate (if t < 1 then 100000 else 0) None)"
proof (rule balanced_wants [where P = "\<lambda>_. SingleThreadTest"])
  have by0: "by_thread r = 0" if "r \<in> set SingleThreadTest" for r
    using that by (auto simp: SingleThreadTest_def ask_give_each_def)
  then show "r \<in> set SingleThreadTest \<Longrightarrow> by_thread r < 1" for r
    by simp
  show "t < 1 \<Longrightarrow> program_of t SingleThreadTest = SingleThreadTest" for t
    using by0 by (simp add: program_of_def)
  show "wants_own pa_class SingleThreadTest [] = Some (replicate 100000 None)"
    using ask_give_each_wants [of "replicate 100000 64" pa_class 0] pa_class_Some [of 64] by (simp add: SingleThreadTest_def)
qed (simp add: SingleThreadTest_def)

section \<open>A start\<close>

lemma pa_demo_supplied: "pa_supplied pa_demo t 30"
  unfolding pa_supplied_def
proof (intro conjI allI impI)
  show "\<exists>x xs. pp_rep p_THREAD_CACHE_SIZE (pa_pool pa_demo) (x # xs)"
    by (rule pa_demo_new)
  fix L U C B T i p
  assume inv: "pa_inv pa_demo L U C B T" and p: "p_NumsFronPageCache (p_RoundUp 30) = Inr (int p)"
  have pq: "pq_inv pq_demo L U {} {}"
    using inv by (simp add: pa_inv_def pk_inv_def pa_demo_def)
  have L: "L i = []" if "i < 129" for i
  proof (cases "L i")
    case (Cons y ys)
    then have "sl_rep (pq_spans pq_demo) (pq_heads pq_demo i) (y # ys)"
      using pq that by (auto simp: pq_inv_def buckets_ok_def)
    then show ?thesis
      by (auto simp: sl_rep_def ring_def pq_demo_def pq_new_def)
  qed
  have "U = {}"
  proof (rule ccontr)
    assume "U \<noteq> {}"
    then obtain u where u: "u \<in> U"
      by blast
    have "layout_ok (pq_spans pq_demo) (free_spans L \<union> U)"
      using pq by (simp add: pq_inv_def)
    then have "np (pq_spans pq_demo) u \<noteq> 0"
      using u by (force simp: layout_ok_def)
    moreover have "np (pq_spans pq_demo) u = 0"
      by (simp add: pq_demo_def pq_new_def np_def)
    ultimately show False
      by simp
  qed
  moreover have "free_spans L = {}"
    using L by (auto simp: free_spans_def)
  moreover have "p_supply_ok (pk_pages (pa_central pa_demo)) (\<lambda>_. []) {} p"
    by (rule pa_demo_supply [OF p_pages_30 [OF p]])
  ultimately show "p_supply_ok (pk_pages (pa_central pa_demo)) L U p"
    using L unfolding p_supply_ok_def by (auto simp: free_spans_def)
qed

lemma pa_demo_good: "pa_good pa_demo (\<lambda>_. {})"
  unfolding pa_good_def
proof (intro exI conjI allI)
  show "pa_inv pa_demo (\<lambda>_. []) {} (\<lambda>_. []) (\<lambda>_. []) (\<lambda>_ _. [])"
    by (rule pa_demo_inv)
qed (simp add: p_held_def held_of_def p_out_def out_of_def)

section \<open>The tests run\<close>

text \<open>The tests of the repository pass: one thread that takes and gives back 100000 times, ten threads that take
  100000 blocks each, and eight threads with random sizes, run to their end in every order in which their calls are
  served, each as a whole, and leave nothing out.\<close>

theorem unit_tests_pass:
  assumes t: "rs = SingleThreadTest \<or> MultiThreadTest rs \<or> StressTest sizes rs" and g: "pa_good s (\<lambda>_. {})"
    and sup: "supplied_all pa_supplied Alloc Free rs (s, \<lambda>_. [])"
  shows "\<exists>s' v. serve_all Alloc Free rs (s, \<lambda>_. []) = Inr (s', v) \<and> pa_good s' (\<lambda>_. {})"
proof -
  obtain k where "want_all pa_class rs (\<lambda>_. []) = Some (\<lambda>t. replicate (k t) None)"
    using t SingleThreadTest_wants MultiThreadTest_wants StressTest_wants by metis
  from pca.serve_program [OF g this sup] nothing_out show ?thesis
    by metis
qed

end
