(* ===== verification/Pool_Pages_Shared.thy ===== *)
theory Pool_Pages_Shared
  imports Pool_Page_Release
begin

text \<open>
  The page cache of the second allocator under several threads, at the grain of its loops. A thread fetches a span as
  \<open>CentralCache::FetchFromPageCache\<close> does (\<open>src/Pool/CentralCache.cpp\<close>: \<open>lock\<close>, \<open>GetNewSpan\<close>, \<open>unlock\<close>) or returns one
  by \<open>ReleaseSpanToPageCache\<close> (\<open>src/Pool/PageCache.cpp\<close>, a \<open>unique_lock\<close>). The mutex is part of the state and nothing
  else orders the threads: looking for a bucket, taking a span from it, cutting one, asking the system, each round of
  the two merging loops and filing the span are separate steps, and between any two of them every other thread may
  step. \<open>AddrToSpan\<close> takes no mutex, so that it can run in every state in between.
\<close>

section \<open>Threads, the mutex and their steps\<close>

text \<open>Where a thread is. \<open>Wants\<close> and \<open>Returns\<close> wait for the mutex; after an exception a thread is \<open>Broken\<close>.\<close>

datatype page_pc =
  AtRest
| Wants nat | Looks nat | Pops nat | Cuts nat nat | Refills nat | Fetched addr
| Returns addr | MergesPrev addr | MergesNext addr | Files addr | Filed
| Broken fault

record page_threads =
  pt_cache :: pqcache
  pt_mtx :: "nat option"
  pt_pc :: "nat \<Rightarrow> page_pc"
  pt_out :: "addr set"

definition at_pc :: "page_threads \<Rightarrow> nat \<Rightarrow> page_pc \<Rightarrow> page_threads" where
  "at_pc s t p = s\<lparr>pt_pc := (pt_pc s)(t := p)\<rparr>"

definition at_pc_with :: "page_threads \<Rightarrow> nat \<Rightarrow> page_pc \<Rightarrow> pqcache \<Rightarrow> page_threads" where
  "at_pc_with s t p c = s\<lparr>pt_cache := c, pt_pc := (pt_pc s)(t := p)\<rparr>"

text \<open>A thread that has a span keeps it in \<open>pt_out\<close>, from where any thread may return it. An exception leaves
  \<open>FetchFromPageCache\<close> without \<open>unlock\<close>.\<close>

definition got_span :: "page_threads \<Rightarrow> nat \<Rightarrow> (addr \<times> pqcache) res \<Rightarrow> page_threads" where
  "got_span s t r = (case r of
     Inl e \<Rightarrow> at_pc s t (Broken e)
   | Inr (x, c) \<Rightarrow> (at_pc_with s t (Fetched x) c)\<lparr>pt_out := insert x (pt_out s)\<rparr>)"

definition fetch_step :: "nat \<Rightarrow> page_threads \<Rightarrow> page_threads option" where
  "fetch_step t s = (case pt_pc s t of
     Wants n \<Rightarrow> if pt_mtx s = None then Some ((at_pc s t (Looks n))\<lparr>pt_mtx := Some t\<rparr>) else None
   | Looks n \<Rightarrow>
       if \<not> ps_empty (pq_spans (pt_cache s)) (pq_heads (pt_cache s) n) then Some (at_pc s t (Pops n))
       else (case p_find_bucket (pt_cache s) (Suc n) of
         Some i \<Rightarrow> Some (at_pc s t (Cuts n i))
       | None \<Rightarrow> Some (at_pc s t (Refills n)))
   | Pops n \<Rightarrow> Some (got_span s t (GetNewSpan_pop (pt_cache s) (of_nat n)))
   | Cuts n i \<Rightarrow> Some (got_span s t (GetNewSpan_split (pt_cache s) i (of_nat n)))
   | Refills n \<Rightarrow> (case GetNewSpan_refill (pt_cache s) of
       Inl e \<Rightarrow> Some (at_pc s t (Broken e))
     | Inr c \<Rightarrow> Some (at_pc_with s t (Looks n) c))
   | Fetched x \<Rightarrow> Some ((at_pc s t AtRest)\<lparr>pt_mtx := None\<rparr>)
   | _ \<Rightarrow> None)"

text \<open>A round of a merging loop: \<open>break\<close> goes on to \<open>p\<close>.\<close>

definition merge_round :: "page_threads \<Rightarrow> nat \<Rightarrow> page_pc \<Rightarrow> pqcache option res \<Rightarrow> page_threads" where
  "merge_round s t p r = (case r of
     Inl e \<Rightarrow> (at_pc s t (Broken e))\<lparr>pt_mtx := None\<rparr>
   | Inr None \<Rightarrow> at_pc s t p
   | Inr (Some c) \<Rightarrow> s\<lparr>pt_cache := c\<rparr>)"

definition return_step :: "nat \<Rightarrow> page_threads \<Rightarrow> page_threads option" where
  "return_step t s = (case pt_pc s t of
     Returns x \<Rightarrow> if pt_mtx s = None then Some ((at_pc s t (MergesPrev x))\<lparr>pt_mtx := Some t\<rparr>) else None
   | MergesPrev x \<Rightarrow> Some (merge_round s t (MergesNext x) (p_merge_prev (pt_cache s) x))
   | MergesNext x \<Rightarrow> Some (merge_round s t (Files x) (p_merge_next (pt_cache s) x))
   | Files x \<Rightarrow> (case p_Release_finish (pt_cache s) x of
       Inl e \<Rightarrow> Some ((at_pc s t (Broken e))\<lparr>pt_mtx := None\<rparr>)
     | Inr c \<Rightarrow> Some (at_pc_with s t Filed c))
   | Filed \<Rightarrow> Some ((at_pc s t AtRest)\<lparr>pt_mtx := None\<rparr>)
   | _ \<Rightarrow> None)"

definition thread_step :: "nat \<Rightarrow> page_threads \<Rightarrow> page_threads option" where
  "thread_step t s = (case fetch_step t s of Some s' \<Rightarrow> Some s' | None \<Rightarrow> return_step t s)"

text \<open>What the operating system and the pool of the span structures provide when a thread needs them: room for a
  structure, and pages that no span has.\<close>

definition pages_supplied :: "nat \<Rightarrow> page_threads \<Rightarrow> bool" where
  "pages_supplied t s \<longleftrightarrow> (let c = pt_cache s in case pt_pc s t of
     Cuts n i \<Rightarrow> \<exists>xs. pp_rep p_SPAN_SIZE (pq_pool c) xs \<and> 1 \<le> length xs
   | Refills n \<Rightarrow> (\<exists>xs. pp_rep p_SPAN_SIZE (pq_pool c) xs \<and> 1 \<le> length xs) \<and>
       (\<exists>ptr rest. pq_mmaps c = ptr # rest \<and>
          (\<forall>L U. pq_inv c L U {} {} \<longrightarrow> fresh_pages (pq_spans c) (free_spans L \<union> U) ptr 128))
   | _ \<Rightarrow> True)"

text \<open>The runs: a thread at rest may ask for 1 to 128 pages or return a span that is out, and any thread may take its
  next step. The set \<open>ok\<close> restricts the steps.\<close>

inductive page_runs :: "(nat \<Rightarrow> page_threads \<Rightarrow> bool) \<Rightarrow> page_threads \<Rightarrow> page_threads \<Rightarrow> bool"
  for ok :: "nat \<Rightarrow> page_threads \<Rightarrow> bool" and s0 :: page_threads where
  runs_start: "page_runs ok s0 s0"
| runs_fetch: "page_runs ok s0 s \<Longrightarrow> pt_pc s t = AtRest \<Longrightarrow> 1 \<le> n \<Longrightarrow> n \<le> 128 \<Longrightarrow> page_runs ok s0 (at_pc s t (Wants n))"
| runs_return: "page_runs ok s0 s \<Longrightarrow> pt_pc s t = AtRest \<Longrightarrow> x \<in> pt_out s \<Longrightarrow>
    page_runs ok s0 ((at_pc s t (Returns x))\<lparr>pt_out := pt_out s - {x}\<rparr>)"
| runs_step: "page_runs ok s0 s \<Longrightarrow> ok t s \<Longrightarrow> thread_step t s = Some s' \<Longrightarrow> page_runs ok s0 s'"

definition page_start :: "pqcache \<Rightarrow> page_threads" where
  "page_start c = \<lparr>pt_cache = c, pt_mtx = None, pt_pc = (\<lambda>_. AtRest), pt_out = {}\<rparr>"

lemma page_threads_simps [simp]:
  "pt_cache (at_pc s t p) = pt_cache s" "pt_mtx (at_pc s t p) = pt_mtx s" "pt_out (at_pc s t p) = pt_out s"
  "pt_pc (at_pc s t p) = (pt_pc s)(t := p)"
  "pt_cache (at_pc_with s t p c) = c" "pt_mtx (at_pc_with s t p c) = pt_mtx s"
  "pt_out (at_pc_with s t p c) = pt_out s" "pt_pc (at_pc_with s t p c) = (pt_pc s)(t := p)"
  by (simp_all add: at_pc_def at_pc_with_def)

section \<open>The invariant\<close>

definition inside :: "page_pc \<Rightarrow> bool" where
  "inside p \<longleftrightarrow> (case p of AtRest \<Rightarrow> False | Wants n \<Rightarrow> False | Returns x \<Rightarrow> False | _ \<Rightarrow> True)"

definition returning :: "page_threads \<Rightarrow> addr set" where
  "returning s = {x. \<exists>t. pt_pc s t = Returns x}"

text \<open>While a span is looked for, the newest span of 128 pages may not be mapped; it is then the one that is
  found.\<close>

definition can_take :: "pqcache \<Rightarrow> (nat \<Rightarrow> addr list) \<Rightarrow> addr set \<Rightarrow> nat \<Rightarrow> addr set \<Rightarrow> bool" where
  "can_take c L U n N \<longleftrightarrow> pq_inv c L U {} N \<and> (\<forall>i. n \<le> i \<and> i < 129 \<and> L i \<noteq> [] \<longrightarrow> N \<subseteq> {last (L i)}) \<and>
     (N = {} \<or> (\<exists>i. n \<le> i \<and> i < 129 \<and> L i \<noteq> []))"

definition wanted :: "nat \<Rightarrow> bool" where
  "wanted n \<longleftrightarrow> 1 \<le> n \<and> n \<le> 128"

definition holder_ok :: "page_pc \<Rightarrow> pqcache \<Rightarrow> addr set \<Rightarrow> bool" where
  "holder_ok p c U \<longleftrightarrow> (case p of
     Looks n \<Rightarrow> wanted n \<and> (\<exists>L N. can_take c L U n N)
   | Pops n \<Rightarrow> wanted n \<and> (\<exists>L N. can_take c L U n N \<and> L n \<noteq> [])
   | Cuts n i \<Rightarrow> wanted n \<and> n < i \<and> i < 129 \<and> (\<exists>L N. can_take c L U n N \<and> L i \<noteq> [])
   | Refills n \<Rightarrow> wanted n \<and> (\<exists>L. pq_inv c L U {} {} \<and> (\<forall>i. n \<le> i \<and> i < 129 \<longrightarrow> L i = []))
   | Fetched x \<Rightarrow> \<exists>L. pq_inv c L U {} {}
   | MergesPrev x \<Rightarrow> np (pq_spans c) x \<le> 128 \<and> (\<exists>L. pq_rel c L U x)
   | MergesNext x \<Rightarrow> np (pq_spans c) x \<le> 128 \<and> (\<exists>L. pq_rel c L U x)
   | Files x \<Rightarrow> np (pq_spans c) x \<le> 128 \<and> (\<exists>L. pq_rel c L U x)
   | Filed \<Rightarrow> \<exists>L. pq_inv c L U {} {}
   | _ \<Rightarrow> False)"

definition page_threads_ok :: "page_threads \<Rightarrow> bool" where
  "page_threads_ok s \<longleftrightarrow>
     (\<forall>t. inside (pt_pc s t) \<longleftrightarrow> pt_mtx s = Some t) \<and>
     (\<forall>t n. pt_pc s t = Wants n \<longrightarrow> wanted n) \<and>
     (\<forall>t u x. pt_pc s t = Returns x \<longrightarrow> x \<notin> pt_out s \<and> (pt_pc s u = Returns x \<longrightarrow> u = t)) \<and>
     (\<forall>x \<in> pt_out s \<union> returning s. np (pq_spans (pt_cache s)) x \<le> 128)"

definition page_cache_ok :: "page_threads \<Rightarrow> bool" where
  "page_cache_ok s \<longleftrightarrow> (case pt_mtx s of
     None \<Rightarrow> \<exists>L. pq_inv (pt_cache s) L (pt_out s \<union> returning s) {} {}
   | Some t \<Rightarrow> holder_ok (pt_pc s t) (pt_cache s) (pt_out s \<union> returning s))"


section \<open>The steps of the thread that holds the mutex\<close>

lemma holder_looks:
  assumes "holder_ok (Looks n) c U"
  shows "if \<not> ps_empty (pq_spans c) (pq_heads c n) then holder_ok (Pops n) c U
    else case p_find_bucket c (Suc n) of Some i \<Rightarrow> holder_ok (Cuts n i) c U | None \<Rightarrow> holder_ok (Refills n) c U"
proof -
  obtain L N where w: "wanted n" and ct: "can_take c L U n N"
    using assms by (auto simp: holder_ok_def)
  then have inv: "pq_inv c L U {} N" and N: "N = {} \<or> (\<exists>i. n \<le> i \<and> i < 129 \<and> L i \<noteq> [])"
    by (simp_all add: can_take_def)
  have e: "ps_empty (pq_spans c) (pq_heads c i) \<longleftrightarrow> L i = []" if "i < 129" for i
    using ps_empty_buckets [OF pq_invD(1) [OF inv] that] .
  have n: "n < 129"
    using w by (simp add: wanted_def)
  show ?thesis
  proof (cases "L n = []")
    case False
    then show ?thesis
      using w ct e [OF n] by (auto simp: holder_ok_def)
  next
    case True
    note f = p_find_bucket_cases [of "Suc n" c]
    show ?thesis
    proof (cases "p_find_bucket c (Suc n)")
      case None
      have l: "L i = []" if "n \<le> i" "i < 129" for i
        using f None e [OF that(2)] that True by (cases "i = n") auto
      then have "N = {}"
        using N by blast
      then show ?thesis
        using True None e [OF n] w inv l by (auto simp: holder_ok_def)
    next
      case (Some i)
      then have "n < i" "i < 129" "L i \<noteq> []"
        using f e [of i] by auto
      then show ?thesis
        using True Some e [OF n] w ct by (auto simp: holder_ok_def)
    qed
  qed
qed

definition same_range :: "pqcache \<Rightarrow> pqcache \<Rightarrow> addr \<Rightarrow> bool" where
  "same_range c c' u \<longleftrightarrow> lo (pq_spans c') u = lo (pq_spans c) u \<and> np (pq_spans c') u = np (pq_spans c) u"

lemma same_range_refl [simp]: "same_range c c u"
  by (simp add: same_range_def)

lemma same_range_np: "same_range c c' u \<Longrightarrow> np (pq_spans c') u = np (pq_spans c) u"
  by (simp add: same_range_def)

definition span_taken :: "pqcache \<Rightarrow> addr set \<Rightarrow> nat \<Rightarrow> (addr \<times> pqcache) res \<Rightarrow> bool" where
  "span_taken c U n r \<longleftrightarrow> (\<exists>x c' L. r = Inr (x, c') \<and> x \<notin> U \<and> np (pq_spans c') x = n \<and>
     pq_inv c' L (insert x U) {} {} \<and> (\<forall>u \<in> U. same_range c c' u))"

lemma pq_new_taken: "pq_new_ok c L U n r \<Longrightarrow> span_taken c U n r"
  unfolding pq_new_ok_def span_taken_def same_range_def by blast

lemma holder_pops:
  assumes "holder_ok (Pops n) c U"
  shows "span_taken c U n (GetNewSpan_pop c (of_nat n))"
proof -
  obtain L N where w: "wanted n" and ct: "can_take c L U n N" and n: "L n \<noteq> []"
    using assms by (auto simp: holder_ok_def)
  have inv: "pq_inv c L U {} N" and l: "L n = butlast (L n) @ [last (L n)]" "N \<subseteq> {last (L n)}" "n \<le> 128"
    using ct n w by (auto simp: can_take_def wanted_def)
  show ?thesis
    by (rule pq_new_taken [OF GetNewSpan_pop_ok [OF inv l(3) refl l(1,2)]])
qed

lemma holder_cuts:
  assumes "holder_ok (Cuts n i) c U" "pp_rep p_SPAN_SIZE (pq_pool c) xs" "1 \<le> length xs"
  shows "span_taken c U n (GetNewSpan_split c i (of_nat n))"
proof -
  obtain L N where w: "wanted n" "n < i" "i < 129" and ct: "can_take c L U n N" and n: "L i \<noteq> []"
    using assms by (auto simp: holder_ok_def)
  have inv: "pq_inv c L U {} N" and l: "L i = butlast (L i) @ [last (L i)]" "N \<subseteq> {last (L i)}" "1 \<le> n" "i \<le> 128"
    using ct n w by (auto simp: can_take_def wanted_def)
  show ?thesis
    by (rule pq_new_taken [OF GetNewSpan_split_ok [OF inv l(3) w(2) l(4) refl l(1,2) assms(2,3)]])
qed

lemma holder_refills:
  assumes "holder_ok (Refills n) c U" "pp_rep p_SPAN_SIZE (pq_pool c) xs" "1 \<le> length xs"
    and "pq_mmaps c = ptr # rest" "\<And>L U. pq_inv c L U {} {} \<Longrightarrow> fresh_pages (pq_spans c) (free_spans L \<union> U) ptr 128"
  shows "\<exists>c' L f. GetNewSpan_refill c = Inr c' \<and> can_take c' L U n {f} \<and> L 128 \<noteq> [] \<and>
    (\<forall>u \<in> U. same_range c c' u)"
proof -
  obtain L where w: "wanted n" and inv: "pq_inv c L U {} {}" and e: "\<And>i. n \<le> i \<Longrightarrow> i < 129 \<Longrightarrow> L i = []"
    using assms(1) by (auto simp: holder_ok_def)
  obtain f c' where c': "GetNewSpan_refill c = Inr c'" "pq_inv c' (L(128 := f # L 128)) U {} {f}"
      "\<And>u. u \<in> U \<Longrightarrow> lo (pq_spans c') u = lo (pq_spans c) u \<and> np (pq_spans c') u = np (pq_spans c) u"
    using GetNewSpan_refill_ok [OF inv assms(2-4) assms(5) [OF inv]] by metis
  have n: "n \<le> 128" "128 < (129 :: nat)"
    using w by (auto simp: wanted_def)
  have "can_take c' (L(128 := f # L 128)) U n {f}"
    unfolding can_take_def
  proof (intro conjI allI impI)
    show "{f} \<subseteq> {last ((L(128 := f # L 128)) i)}" if "n \<le> i \<and> i < 129 \<and> (L(128 := f # L 128)) i \<noteq> []" for i
      using that e [of i] e [of 128] n by (cases "i = 128") auto
    show "{f} = {} \<or> (\<exists>i. n \<le> i \<and> i < 129 \<and> (L(128 := f # L 128)) i \<noteq> [])"
      using n by (intro disjI2 exI [of _ 128]) simp
  qed (rule c'(2))
  then show ?thesis
    using c'(1,3) by (intro exI [of _ c'] exI [of _ "L(128 := f # L 128)"] exI [of _ f]) (simp add: same_range_def)
qed

definition merged_on :: "pqcache \<Rightarrow> addr set \<Rightarrow> addr \<Rightarrow> pqcache option res \<Rightarrow> bool" where
  "merged_on c U x r \<longleftrightarrow> r = Inr None \<or>
     (\<exists>c' L. r = Inr (Some c') \<and> np (pq_spans c') x \<le> 128 \<and> np (pq_spans c) x < np (pq_spans c') x \<and>
        pq_rel c' L U x \<and> (\<forall>u. u \<noteq> x \<longrightarrow> same_range c c' u))"

lemma pq_merged_on:
  assumes "r = Inr None \<or> (\<exists>c' L'. r = Inr (Some c') \<and> pq_merged c L U x c' L' \<and> np (pq_spans c) x < np (pq_spans c') x)"
  shows "merged_on c U x r"
proof (cases "r = Inr None")
  case False
  then obtain c' L' where m: "r = Inr (Some c')" "pq_merged c L U x c' L'" "np (pq_spans c) x < np (pq_spans c') x"
    using assms by blast
  then show ?thesis
    unfolding merged_on_def by (intro disjI2 exI [of _ c'] exI [of _ L']) (simp add: pq_merged_def same_range_def)
qed (simp add: merged_on_def)

lemma holder_merges:
  assumes x: "np (pq_spans c) x \<le> 128" and rel: "pq_rel c L U x"
  shows "merged_on c U x (p_merge_prev c x)" "merged_on c U x (p_merge_next c x)"
  using p_merge_prev_ok [OF rel x] p_merge_next_ok [OF rel x] by (intro pq_merged_on; blast)+

lemma holder_files:
  assumes "np (pq_spans c) x \<le> 128" "pq_rel c L U x"
  shows "\<exists>c' L'. p_Release_finish c x = Inr c' \<and> pq_inv c' L' U {} {} \<and> (\<forall>u. same_range c c' u)"
proof -
  obtain c' L' where "p_Release_finish c x = Inr c'" "pq_inv c' L' U {} {}" "lo (pq_spans c') = lo (pq_spans c)"
      "np (pq_spans c') = np (pq_spans c)"
    by (rule p_Release_finish_ok [OF assms(2,1)])
  then show ?thesis
    by (intro exI [of _ c'] exI [of _ L']) (simp add: same_range_def)
qed


section \<open>The invariant is kept\<close>

definition pages_ok :: "page_threads \<Rightarrow> bool" where
  "pages_ok s \<longleftrightarrow> page_threads_ok s \<and> page_cache_ok s"

lemma pages_okD:
  assumes "pages_ok s"
  shows "inside (pt_pc s t) \<longleftrightarrow> pt_mtx s = Some t" "pt_pc s t = Wants n \<Longrightarrow> wanted n"
    "pt_pc s t = Returns x \<Longrightarrow> x \<notin> pt_out s" "pt_pc s t = Returns x \<Longrightarrow> pt_pc s u = Returns x \<Longrightarrow> u = t"
    "x \<in> pt_out s \<union> returning s \<Longrightarrow> np (pq_spans (pt_cache s)) x \<le> 128" "pt_out s \<inter> returning s = {}"
    "pt_mtx s = None \<Longrightarrow> \<exists>L. pq_inv (pt_cache s) L (pt_out s \<union> returning s) {} {}"
    "pt_mtx s = Some t \<Longrightarrow> holder_ok (pt_pc s t) (pt_cache s) (pt_out s \<union> returning s)"
  using assms by (auto simp: pages_ok_def page_threads_ok_def page_cache_ok_def returning_def)

lemma pages_okI:
  assumes "\<And>t. inside (pt_pc s t) \<longleftrightarrow> pt_mtx s = Some t" "\<And>t n. pt_pc s t = Wants n \<Longrightarrow> wanted n"
    "\<And>t x. pt_pc s t = Returns x \<Longrightarrow> x \<notin> pt_out s" "\<And>t u x. pt_pc s t = Returns x \<Longrightarrow> pt_pc s u = Returns x \<Longrightarrow> u = t"
    "\<And>x. x \<in> pt_out s \<union> returning s \<Longrightarrow> np (pq_spans (pt_cache s)) x \<le> 128"
    "pt_mtx s = None \<Longrightarrow> \<exists>L. pq_inv (pt_cache s) L (pt_out s \<union> returning s) {} {}"
    "\<And>t. pt_mtx s = Some t \<Longrightarrow> holder_ok (pt_pc s t) (pt_cache s) (pt_out s \<union> returning s)"
  shows "pages_ok s"
proof -
  have "page_cache_ok s"
    using assms(6,7) by (cases "pt_mtx s") (simp_all add: page_cache_ok_def)
  moreover have "page_threads_ok s"
    unfolding page_threads_ok_def using assms(1-5) by (intro conjI allI ballI impI) blast+
  ultimately show ?thesis
    by (simp add: pages_ok_def)
qed

lemma inside_simps [simp]:
  "\<not> inside AtRest" "\<not> inside (Wants n)" "\<not> inside (Returns x)" "inside (Looks n)" "inside (Pops n)"
  "inside (Cuts n i)" "inside (Refills n)" "inside (Fetched x)" "inside (MergesPrev x)" "inside (MergesNext x)"
  "inside (Files x)" "inside Filed" "inside (Broken e)"
  by (simp_all add: inside_def)

lemma returning_upd:
  "(\<And>x. pt_pc s t \<noteq> Returns x) \<Longrightarrow> pt_pc s' = (pt_pc s)(t := p) \<Longrightarrow> (\<And>x. p \<noteq> Returns x) \<Longrightarrow> returning s' = returning s"
  unfolding returning_def by (rule Collect_cong) (metis fun_upd_apply)

lemma holder_moves:
  assumes ok: "pages_ok s" and t: "pt_mtx s = Some t" and p: "inside p" "holder_ok p c (A \<union> returning s)"
    and A: "A \<inter> returning s = {}" "\<And>x. x \<in> A \<union> returning s \<Longrightarrow> np (pq_spans c) x \<le> 128"
    and s': "s' = s\<lparr>pt_cache := c, pt_pc := (pt_pc s)(t := p), pt_out := A\<rparr>"
  shows "pages_ok s'"
proof -
  note d = pages_okD [OF ok]
  have i: "inside (pt_pc s t)"
    using t d(1) by simp
  have f: "pt_cache s' = c" "pt_pc s' = (pt_pc s)(t := p)" "pt_out s' = A" "pt_mtx s' = Some t"
    using t by (simp_all add: s')
  have r: "returning s' = returning s"
    using p(1) i f(2) by (intro returning_upd [where t = t and p = p]) auto
  show ?thesis
  proof (rule pages_okI)
    fix u x
    assume a: "pt_pc s' u = Returns x"
    then have u: "pt_pc s u = Returns x" "u \<noteq> t"
      using p(1) by (auto simp: f split: if_splits)
    then show "x \<notin> pt_out s'"
      using A(1) by (auto simp: f returning_def)
    show "v = u" if "pt_pc s' v = Returns x" for v
      using that u d(4) p(1) by (auto simp: f split: if_splits)
  next
    show "inside (pt_pc s' u) \<longleftrightarrow> pt_mtx s' = Some u" for u
      using d(1) t p(1) by (simp add: f)
    show "wanted n" if "pt_pc s' u = Wants n" for u n
      using that d(2) p(1) by (auto simp: f split: if_splits)
  qed (use p A in \<open>simp_all add: r f\<close>)
qed

lemma holder_unlocks:
  assumes ok: "pages_ok s" and t: "pt_mtx s = Some t" and inv: "pq_inv (pt_cache s) L (pt_out s \<union> returning s) {} {}"
  shows "pages_ok ((at_pc s t AtRest)\<lparr>pt_mtx := None\<rparr>)" (is "pages_ok ?s")
proof -
  note d = pages_okD [OF ok]
  have i: "inside (pt_pc s t)" "\<And>u. u \<noteq> t \<Longrightarrow> \<not> inside (pt_pc s u)"
    using t d(1) by simp_all
  then have r: "returning ?s = returning s"
    by (intro returning_upd [where t = t and p = AtRest]) auto
  show ?thesis
  proof (rule pages_okI)
    fix u v x
    assume a: "pt_pc ?s u = Returns x" "pt_pc ?s v = Returns x"
    then show "v = u"
      using d(4) by (auto split: if_splits)
  qed (use d(2,3,5) i inv in \<open>auto simp: r split: if_splits\<close>)
qed

lemma thread_locks_fetch:
  assumes ok: "pages_ok s" and t: "pt_mtx s = None" "pt_pc s t = Wants n"
  shows "pages_ok ((at_pc s t (Looks n))\<lparr>pt_mtx := Some t\<rparr>)" (is "pages_ok ?s")
proof -
  note d = pages_okD [OF ok]
  have r: "returning ?s = returning s"
    using t(2) by (intro returning_upd [where t = t and p = "Looks n"]) auto
  obtain L where L: "pq_inv (pt_cache s) L (pt_out s \<union> returning s) {} {}"
    using d(7) t(1) by blast
  then have h: "holder_ok (Looks n) (pt_cache s) (pt_out s \<union> returning s)"
    using d(2) [OF t(2)] by (auto simp: holder_ok_def can_take_def intro!: exI [of _ L] exI [of _ "{}"])
  have i: "\<not> inside (pt_pc s u)" for u
    using d(1) t(1) by simp
  show ?thesis
  proof (rule pages_okI)
    show "wanted m" if "pt_pc ?s u = Wants m" for u m
      using that d(2) by (auto split: if_splits)
    show "y \<notin> pt_out ?s" if "pt_pc ?s u = Returns y" for u y
      using that d(3) by (auto split: if_splits)
    show "v = u" if "pt_pc ?s u = Returns y" "pt_pc ?s v = Returns y" for u v y
      using that d(4) by (auto split: if_splits)
    show "np (pq_spans (pt_cache ?s)) y \<le> 128" if "y \<in> pt_out ?s \<union> returning ?s" for y
      using that d(5) [of y] unfolding r by auto
    show "holder_ok (pt_pc ?s u) (pt_cache ?s) (pt_out ?s \<union> returning ?s)" if "pt_mtx ?s = Some u" for u
      using that h unfolding r by simp
  qed (use i in auto)
qed

lemma thread_locks_return:
  assumes ok: "pages_ok s" and t: "pt_mtx s = None" "pt_pc s t = Returns x"
  shows "pages_ok ((at_pc s t (MergesPrev x))\<lparr>pt_mtx := Some t\<rparr>)" (is "pages_ok ?s")
proof -
  note d = pages_okD [OF ok]
  obtain L where L: "pq_inv (pt_cache s) L (pt_out s \<union> returning s) {} {}"
    using d(7) t(1) by blast
  have x: "x \<in> pt_out s \<union> returning s" "x \<notin> pt_out s"
    using t(2) d(3) by (auto simp: returning_def)
  have "(\<exists>u. ((pt_pc s)(t := MergesPrev x)) u = Returns y) \<longleftrightarrow> (\<exists>u. pt_pc s u = Returns y) \<and> y \<noteq> x" for y
  proof
    assume "\<exists>u. ((pt_pc s)(t := MergesPrev x)) u = Returns y"
    then obtain u where u: "u \<noteq> t" "pt_pc s u = Returns y"
      by (auto split: if_splits)
    then show "(\<exists>u. pt_pc s u = Returns y) \<and> y \<noteq> x"
      using d(4) [OF t(2)] by blast
  next
    assume "(\<exists>u. pt_pc s u = Returns y) \<and> y \<noteq> x"
    then obtain u where u: "pt_pc s u = Returns y" "y \<noteq> x"
      by blast
    then have "u \<noteq> t"
      using t(2) by auto
    with u(1) show "\<exists>u. ((pt_pc s)(t := MergesPrev x)) u = Returns y"
      by (intro exI [of _ u]) simp
  qed
  then have r: "returning ?s = returning s - {x}"
    by (auto simp: returning_def)
  have U: "pt_out s \<union> (returning s - {x}) = pt_out s \<union> returning s - {x}"
    using x(2) by auto
  have "pq_rel (pt_cache s) L (pt_out s \<union> (returning s - {x})) x"
    unfolding U by (rule pq_rel_start [OF L x(1)])
  then have h: "holder_ok (MergesPrev x) (pt_cache s) (pt_out s \<union> (returning s - {x}))"
    using d(5) [OF x(1)] by (auto simp: holder_ok_def)
  have i: "\<not> inside (pt_pc s u)" for u
    using d(1) t(1) by simp
  show ?thesis
  proof (rule pages_okI)
    show "wanted m" if "pt_pc ?s u = Wants m" for u m
      using that d(2) by (auto split: if_splits)
    show "y \<notin> pt_out ?s" if "pt_pc ?s u = Returns y" for u y
      using that d(3) by (auto split: if_splits)
    show "v = u" if "pt_pc ?s u = Returns y" "pt_pc ?s v = Returns y" for u v y
      using that d(4) by (auto split: if_splits)
    show "np (pq_spans (pt_cache ?s)) y \<le> 128" if "y \<in> pt_out ?s \<union> returning ?s" for y
      using that d(5) [of y] unfolding r by auto
    show "holder_ok (pt_pc ?s u) (pt_cache ?s) (pt_out ?s \<union> returning ?s)" if "pt_mtx ?s = Some u" for u
      using that h unfolding r by simp
  qed (use i in auto)
qed

text \<open>How many steps the thread that holds the mutex still makes before it lets go of it, at most.\<close>

definition steps_left :: "page_threads \<Rightarrow> nat \<Rightarrow> nat" where
  "steps_left s t = (let c = pt_cache s in case pt_pc s t of
     Looks n \<Rightarrow> if ps_empty (pq_spans c) (pq_heads c n) \<and> p_find_bucket c (Suc n) = None then 5 else 3
   | Pops n \<Rightarrow> 2 | Cuts n i \<Rightarrow> 2 | Refills n \<Rightarrow> 4 | Fetched x \<Rightarrow> 1
   | MergesPrev x \<Rightarrow> 132 - np (pq_spans c) x
   | MergesNext x \<Rightarrow> 131 - np (pq_spans c) x
   | Files x \<Rightarrow> 2 | Filed \<Rightarrow> 1 | _ \<Rightarrow> 0)"

text \<open>The spans that are out keep their pages.\<close>

definition keeps_out :: "page_threads \<Rightarrow> page_threads \<Rightarrow> bool" where
  "keeps_out s s' \<longleftrightarrow> (\<forall>u \<in> pt_out s. same_range (pt_cache s) (pt_cache s') u)"

lemma got_span_ok:
  assumes ok: "pages_ok s" and t: "pt_mtx s = Some t" and w: "n \<le> 128"
    and r: "span_taken (pt_cache s) (pt_out s \<union> returning s) n r"
  shows "pages_ok (got_span s t r)" "steps_left (got_span s t r) t = 1" "keeps_out s (got_span s t r)"
proof -
  obtain x c L where x: "r = Inr (x, c)" "x \<notin> pt_out s \<union> returning s" "np (pq_spans c) x = n"
      "pq_inv c L (insert x (pt_out s \<union> returning s)) {} {}"
      "\<And>u. u \<in> pt_out s \<union> returning s \<Longrightarrow> same_range (pt_cache s) c u"
    using r by (auto simp: span_taken_def)
  have e: "got_span s t r = s\<lparr>pt_cache := c, pt_pc := (pt_pc s)(t := Fetched x), pt_out := insert x (pt_out s)\<rparr>"
    by (simp add: got_span_def x(1) at_pc_with_def)
  show "pages_ok (got_span s t r)"
  proof (rule holder_moves [OF ok t _ _ _ _ e])
    show "holder_ok (Fetched x) c (insert x (pt_out s) \<union> returning s)"
      using x(4) by (auto simp: holder_ok_def)
    show "insert x (pt_out s) \<inter> returning s = {}"
      using x(2) pages_okD(6) [OF ok] by auto
    show "np (pq_spans c) u \<le> 128" if "u \<in> insert x (pt_out s) \<union> returning s" for u
      using that x(3) same_range_np [OF x(5)] w pages_okD(5) [OF ok, of u] by (cases "u = x") auto
  qed simp
  show "steps_left (got_span s t r) t = 1"
    by (simp add: e steps_left_def)
  show "keeps_out s (got_span s t r)"
    using x(5) by (simp add: e keeps_out_def)
qed

lemma at_pc_moves:
  assumes ok: "pages_ok s" and t: "pt_mtx s = Some t" and p: "inside p"
    and h: "holder_ok p (pt_cache s) (pt_out s \<union> returning s)"
  shows "pages_ok (at_pc s t p)"
  by (rule holder_moves [OF ok t p h]) (use pages_okD(5,6) [OF ok] in \<open>auto simp: at_pc_def\<close>)

lemma at_pc_with_moves:
  assumes ok: "pages_ok s" and t: "pt_mtx s = Some t" and p: "inside p"
    and h: "holder_ok p c (pt_out s \<union> returning s)"
    and u: "\<And>x. x \<in> pt_out s \<union> returning s \<Longrightarrow> np (pq_spans c) x \<le> 128"
  shows "pages_ok (at_pc_with s t p c)"
  by (rule holder_moves [OF ok t p h _ u]) (use pages_okD(6) [OF ok] in \<open>auto simp: at_pc_with_def\<close>)

lemma refilled_finds:
  assumes "can_take c L U n N" "wanted n" "L 128 \<noteq> []"
  shows "\<not> (ps_empty (pq_spans c) (pq_heads c n) \<and> p_find_bucket c (Suc n) = None)"
proof
  assume a: "ps_empty (pq_spans c) (pq_heads c n) \<and> p_find_bucket c (Suc n) = None"
  have e: "ps_empty (pq_spans c) (pq_heads c i) \<longleftrightarrow> L i = []" if "i < 129" for i
    using assms(1) ps_empty_buckets [OF pq_invD(1) that] by (auto simp: can_take_def)
  show False
    using a p_find_bucket_cases [of "Suc n" c] e [of 128] e [of n] assms(2,3) by (cases "n = 128") (auto simp: wanted_def)
qed

lemma fetch_step_ok:
  assumes ok: "pages_ok s" and sup: "pages_supplied t s" and st: "fetch_step t s = Some s'"
  shows "pages_ok s' \<and> keeps_out s s' \<and> (pt_mtx s = Some t \<longrightarrow> steps_left s' t < steps_left s t)"
proof (cases "pt_pc s t")
  case (Wants n)
  then have "pt_mtx s = None" "s' = (at_pc s t (Looks n))\<lparr>pt_mtx := Some t\<rparr>"
    using st by (auto simp: fetch_step_def split: if_splits)
  then show ?thesis
    using thread_locks_fetch [OF ok _ Wants] by (simp add: keeps_out_def)
next
  case (Looks n)
  then have t: "pt_mtx s = Some t"
    using pages_okD(1) [OF ok, of t] by simp
  have h: "holder_ok (Looks n) (pt_cache s) (pt_out s \<union> returning s)"
    using pages_okD(8) [OF ok t] Looks by simp
  let ?c = "pt_cache s"
  consider "\<not> ps_empty (pq_spans ?c) (pq_heads ?c n)" "s' = at_pc s t (Pops n)"
    | i where "ps_empty (pq_spans ?c) (pq_heads ?c n)" "p_find_bucket ?c (Suc n) = Some i" "s' = at_pc s t (Cuts n i)"
    | "ps_empty (pq_spans ?c) (pq_heads ?c n)" "p_find_bucket ?c (Suc n) = None" "s' = at_pc s t (Refills n)"
    using st Looks by (auto simp: fetch_step_def split: if_splits option.splits)
  then show ?thesis
  proof cases
    case 1
    then show ?thesis
      using holder_looks [OF h] at_pc_moves [OF ok t, of "Pops n"] Looks by (simp add: steps_left_def keeps_out_def)
  next
    case (2 i)
    then show ?thesis
      using holder_looks [OF h] at_pc_moves [OF ok t, of "Cuts n i"] Looks by (simp add: steps_left_def keeps_out_def)
  next
    case 3
    then show ?thesis
      using holder_looks [OF h] at_pc_moves [OF ok t, of "Refills n"] Looks by (simp add: steps_left_def keeps_out_def)
  qed
next
  case (Pops n)
  then have t: "pt_mtx s = Some t"
    using pages_okD(1) [OF ok, of t] by simp
  have h: "holder_ok (Pops n) (pt_cache s) (pt_out s \<union> returning s)"
    using pages_okD(8) [OF ok t] Pops by simp
  then have "n \<le> 128"
    by (simp add: holder_ok_def wanted_def)
  then show ?thesis
    using got_span_ok [OF ok t _ holder_pops [OF h]] st Pops by (auto simp: fetch_step_def steps_left_def)
next
  case (Cuts n i)
  then have t: "pt_mtx s = Some t"
    using pages_okD(1) [OF ok, of t] by simp
  have h: "holder_ok (Cuts n i) (pt_cache s) (pt_out s \<union> returning s)"
    using pages_okD(8) [OF ok t] Cuts by simp
  then have n: "n \<le> 128"
    by (simp add: holder_ok_def wanted_def)
  obtain xs where "pp_rep p_SPAN_SIZE (pq_pool (pt_cache s)) xs" "1 \<le> length xs"
    using sup Cuts by (auto simp: pages_supplied_def Let_def)
  from holder_cuts [OF h this] show ?thesis
    using got_span_ok [OF ok t n] st Cuts by (auto simp: fetch_step_def steps_left_def)
next
  case (Refills n)
  then have t: "pt_mtx s = Some t"
    using pages_okD(1) [OF ok, of t] by simp
  have h: "holder_ok (Refills n) (pt_cache s) (pt_out s \<union> returning s)"
    using pages_okD(8) [OF ok t] Refills by simp
  then have w: "wanted n"
    by (simp add: holder_ok_def)
  obtain xs ptr rest where sp: "pp_rep p_SPAN_SIZE (pq_pool (pt_cache s)) xs" "1 \<le> length xs"
      "pq_mmaps (pt_cache s) = ptr # rest"
      "\<And>L U. pq_inv (pt_cache s) L U {} {} \<Longrightarrow> fresh_pages (pq_spans (pt_cache s)) (free_spans L \<union> U) ptr 128"
    using sup Refills by (auto simp: pages_supplied_def Let_def)
  obtain c L f where c: "GetNewSpan_refill (pt_cache s) = Inr c" "can_take c L (pt_out s \<union> returning s) n {f}"
      "L 128 \<noteq> []" "\<And>u. u \<in> pt_out s \<union> returning s \<Longrightarrow> same_range (pt_cache s) c u"
    using holder_refills [OF h sp] by blast
  have "holder_ok (Looks n) c (pt_out s \<union> returning s)"
    using c(2) w by (auto simp: holder_ok_def)
  then have "pages_ok (at_pc_with s t (Looks n) c)"
    using same_range_np [OF c(4)] pages_okD(5) [OF ok] by (intro at_pc_with_moves [OF ok t]) auto
  moreover have "s' = at_pc_with s t (Looks n) c"
    using st Refills c(1) by (simp add: fetch_step_def)
  ultimately show ?thesis
    using refilled_finds [OF c(2) w c(3)] Refills c(4) by (auto simp: steps_left_def keeps_out_def)
next
  case (Fetched x)
  then have t: "pt_mtx s = Some t"
    using pages_okD(1) [OF ok, of t] by simp
  then obtain L where "pq_inv (pt_cache s) L (pt_out s \<union> returning s) {} {}"
    using pages_okD(8) [OF ok t] Fetched by (auto simp: holder_ok_def)
  then show ?thesis
    using holder_unlocks [OF ok t] st Fetched by (auto simp: fetch_step_def steps_left_def keeps_out_def)
qed (use st in \<open>simp_all add: fetch_step_def\<close>)

lemma merge_round_ok:
  assumes ok: "pages_ok s" and t: "pt_mtx s = Some t" and x: "pt_pc s t \<in> {MergesPrev x, MergesNext x}"
    and rel: "np (pq_spans (pt_cache s)) x \<le> 128" "pq_rel (pt_cache s) L (pt_out s \<union> returning s) x"
    and r: "merged_on (pt_cache s) (pt_out s \<union> returning s) x r"
    and p: "p \<in> {MergesNext x, Files x}" "(pt_pc s t, p) \<in> {(MergesPrev x, MergesNext x), (MergesNext x, Files x)}"
  shows "pages_ok (merge_round s t p r) \<and> keeps_out s (merge_round s t p r) \<and> steps_left (merge_round s t p r) t < steps_left s t"
proof (cases "r = Inr None")
  case True
  have "holder_ok p (pt_cache s) (pt_out s \<union> returning s)" "inside p"
    using rel p(1) by (auto simp: holder_ok_def)
  then show ?thesis
    using at_pc_moves [OF ok t] True p(2) rel(1) by (auto simp: merge_round_def steps_left_def keeps_out_def)
next
  case False
  then obtain c L' where c: "r = Inr (Some c)" "np (pq_spans c) x \<le> 128" "np (pq_spans (pt_cache s)) x < np (pq_spans c) x"
      "pq_rel c L' (pt_out s \<union> returning s) x" "\<And>u. u \<noteq> x \<Longrightarrow> same_range (pt_cache s) c u"
    using r by (auto simp: merged_on_def)
  have e: "merge_round s t p r = at_pc_with s t (pt_pc s t) c"
    by (simp add: merge_round_def c(1) at_pc_with_def)
  have "np (pq_spans c) u \<le> 128" if "u \<in> pt_out s \<union> returning s" for u
    using c(2) same_range_np [OF c(5)] pages_okD(5) [OF ok that] by (cases "u = x") auto
  moreover have "holder_ok (pt_pc s t) c (pt_out s \<union> returning s)" "inside (pt_pc s t)"
    using c(2,4) x by (auto simp: holder_ok_def)
  ultimately have "pages_ok (merge_round s t p r)"
    unfolding e by (intro at_pc_with_moves [OF ok t])
  moreover have "u \<noteq> x" if "u \<in> pt_out s" for u
    using that pq_relD(5) [OF rel(2)] by blast
  then have "keeps_out s (merge_round s t p r)"
    using c(5) by (simp add: e keeps_out_def)
  ultimately show ?thesis
    using c(2,3) x by (auto simp: e steps_left_def)
qed

lemma return_step_ok:
  assumes ok: "pages_ok s" and st: "return_step t s = Some s'"
  shows "pages_ok s' \<and> keeps_out s s' \<and> (pt_mtx s = Some t \<longrightarrow> steps_left s' t < steps_left s t)"
proof (cases "pt_pc s t")
  case (Returns x)
  then have "pt_mtx s = None" "s' = (at_pc s t (MergesPrev x))\<lparr>pt_mtx := Some t\<rparr>"
    using st by (auto simp: return_step_def split: if_splits)
  then show ?thesis
    using thread_locks_return [OF ok _ Returns] by (simp add: keeps_out_def)
next
  case (MergesPrev x)
  then have t: "pt_mtx s = Some t"
    using pages_okD(1) [OF ok, of t] by simp
  obtain L where l: "np (pq_spans (pt_cache s)) x \<le> 128" "pq_rel (pt_cache s) L (pt_out s \<union> returning s) x"
    using pages_okD(8) [OF ok t] MergesPrev by (auto simp: holder_ok_def)
  show ?thesis
    using merge_round_ok [OF ok t _ l holder_merges(1) [OF l], of "MergesNext x"] st MergesPrev
    by (auto simp: return_step_def)
next
  case (MergesNext x)
  then have t: "pt_mtx s = Some t"
    using pages_okD(1) [OF ok, of t] by simp
  obtain L where l: "np (pq_spans (pt_cache s)) x \<le> 128" "pq_rel (pt_cache s) L (pt_out s \<union> returning s) x"
    using pages_okD(8) [OF ok t] MergesNext by (auto simp: holder_ok_def)
  show ?thesis
    using merge_round_ok [OF ok t _ l holder_merges(2) [OF l], of "Files x"] st MergesNext
    by (auto simp: return_step_def)
next
  case (Files x)
  then have t: "pt_mtx s = Some t"
    using pages_okD(1) [OF ok, of t] by simp
  obtain L where l: "np (pq_spans (pt_cache s)) x \<le> 128" "pq_rel (pt_cache s) L (pt_out s \<union> returning s) x"
    using pages_okD(8) [OF ok t] Files by (auto simp: holder_ok_def)
  obtain c L' where c: "p_Release_finish (pt_cache s) x = Inr c" "pq_inv c L' (pt_out s \<union> returning s) {} {}"
      "\<And>u. same_range (pt_cache s) c u"
    using holder_files [OF l] by blast
  have "holder_ok Filed c (pt_out s \<union> returning s)"
    using c(2) by (auto simp: holder_ok_def)
  then have "pages_ok (at_pc_with s t Filed c)"
    using pages_okD(5) [OF ok] by (intro at_pc_with_moves [OF ok t]) (auto simp: same_range_np [OF c(3)])
  then show ?thesis
    using st Files c(1,3) by (auto simp: return_step_def steps_left_def keeps_out_def)
next
  case Filed
  then have t: "pt_mtx s = Some t"
    using pages_okD(1) [OF ok, of t] by simp
  then obtain L where "pq_inv (pt_cache s) L (pt_out s \<union> returning s) {} {}"
    using pages_okD(8) [OF ok t] Filed by (auto simp: holder_ok_def)
  then show ?thesis
    using holder_unlocks [OF ok t] st Filed by (auto simp: return_step_def steps_left_def keeps_out_def)
qed (use st in \<open>simp_all add: return_step_def\<close>)

lemma thread_step_ok:
  assumes "pages_ok s" "pages_supplied t s" "thread_step t s = Some s'"
  shows "pages_ok s'" "keeps_out s s'" "pt_mtx s = Some t \<Longrightarrow> steps_left s' t < steps_left s t"
  using assms fetch_step_ok [of s t s'] return_step_ok [of s t s'] by (auto simp: thread_step_def split: option.splits)

lemma pages_ok_start: "pq_inv c L {} {} {} \<Longrightarrow> pages_ok (page_start c)"
  by (intro pages_okI) (auto simp: page_start_def returning_def)

lemma ask_fetch_ok:
  assumes ok: "pages_ok s" and t: "pt_pc s t = AtRest" and n: "1 \<le> n" "n \<le> 128"
  shows "pages_ok (at_pc s t (Wants n))" (is "pages_ok ?s")
proof -
  note d = pages_okD [OF ok]
  have r: "returning ?s = returning s"
    using t by (intro returning_upd [where t = t and p = "Wants n"]) auto
  have i: "inside (pt_pc ?s u) \<longleftrightarrow> pt_mtx ?s = Some u" for u
    using d(1) [of u] d(1) [of t] t by auto
  show ?thesis
  proof (rule pages_okI [OF i])
    show "wanted m" if "pt_pc ?s u = Wants m" for u m
      using that d(2) n by (auto simp: wanted_def split: if_splits)
    show "y \<notin> pt_out ?s" if "pt_pc ?s u = Returns y" for u y
      using that d(3) by (auto split: if_splits)
    show "v = u" if "pt_pc ?s u = Returns y" "pt_pc ?s v = Returns y" for u v y
      using that d(4) by (auto split: if_splits)
    show "holder_ok (pt_pc ?s u) (pt_cache ?s) (pt_out ?s \<union> returning ?s)" if "pt_mtx ?s = Some u" for u
      using that d(8) [of u] d(1) [of u] t unfolding r by auto
  qed (use d(5,7) in \<open>auto simp: r\<close>)
qed

lemma ask_return_ok:
  assumes ok: "pages_ok s" and t: "pt_pc s t = AtRest" and x: "x \<in> pt_out s"
  shows "pages_ok ((at_pc s t (Returns x))\<lparr>pt_out := pt_out s - {x}\<rparr>)" (is "pages_ok ?s")
proof -
  note d = pages_okD [OF ok]
  have nx: "pt_pc s u \<noteq> Returns x" for u
    using x d(3) by blast
  have "(\<exists>u. ((pt_pc s)(t := Returns x)) u = Returns y) \<longleftrightarrow> y = x \<or> (\<exists>u. pt_pc s u = Returns y)" for y
  proof
    assume "\<exists>u. ((pt_pc s)(t := Returns x)) u = Returns y"
    then show "y = x \<or> (\<exists>u. pt_pc s u = Returns y)"
      by (auto split: if_splits)
  next
    assume "y = x \<or> (\<exists>u. pt_pc s u = Returns y)"
    then consider "y = x" | u where "pt_pc s u = Returns y"
      by blast
    then show "\<exists>u. ((pt_pc s)(t := Returns x)) u = Returns y"
    proof cases
      case 1
      then show ?thesis
        by (intro exI [of _ t]) simp
    next
      case (2 u)
      then have "u \<noteq> t"
        using t by auto
      then show ?thesis
        using 2 by (intro exI [of _ u]) simp
    qed
  qed
  then have r: "returning ?s = insert x (returning s)"
    by (auto simp: returning_def)
  have U: "pt_out s - {x} \<union> insert x (returning s) = pt_out s \<union> returning s"
    using x by auto
  have i: "inside (pt_pc ?s u) \<longleftrightarrow> pt_mtx ?s = Some u" for u
    using d(1) [of u] d(1) [of t] t by auto
  show ?thesis
  proof (rule pages_okI [OF i])
    show "wanted m" if "pt_pc ?s u = Wants m" for u m
      using that d(2) by (auto split: if_splits)
    show "y \<notin> pt_out ?s" if "pt_pc ?s u = Returns y" for u y
      using that d(3) by (auto split: if_splits)
    show "v = u" if "pt_pc ?s u = Returns y" "pt_pc ?s v = Returns y" for u v y
      using that d(4) nx by (auto split: if_splits)
    show "holder_ok (pt_pc ?s u) (pt_cache ?s) (pt_out ?s \<union> returning ?s)" if "pt_mtx ?s = Some u" for u
      using that d(8) [of u] d(1) [of u] t U unfolding r by auto
  qed (use d(5,7) U in \<open>auto simp: r\<close>)
qed

lemma page_runs_ok:
  assumes "page_runs pages_supplied s0 s" "pages_ok s0"
  shows "pages_ok s"
  using assms by (induction rule: page_runs.induct) (auto intro: ask_fetch_ok ask_return_ok thread_step_ok(1))

section \<open>What every reachable state has\<close>

lemma pq_inv_maps:
  assumes "pq_inv c L U {} N"
  shows "layout_ok (pq_spans c) U" "x \<in> U \<Longrightarrow> owns (pq_spans c) x p \<Longrightarrow> rt_get (pq_map c) p = x"
  using pq_invD(8) [OF assms] layout_mono [OF pq_invD(7) [OF assms], of U] by (auto simp: map_ok_def rt_get_pm_get)

lemma pq_rel_maps:
  assumes rel: "pq_rel c L U z"
  shows "layout_ok (pq_spans c) U" "x \<in> U \<Longrightarrow> owns (pq_spans c) x p \<Longrightarrow> rt_get (pq_map c) p = x"
proof -
  note d = pq_relD [OF rel]
  show "layout_ok (pq_spans c) U"
    using layout_mono [OF d(7), of U] by blast
  obtain m where m: "map_ok (pq_spans c) m (free_spans L) U {}"
      "\<And>p. \<not> owns (pq_spans c) z p \<Longrightarrow> pm_get (pq_map c) p = pm_get m p"
    using pq_relE [OF rel] by metis
  show "rt_get (pq_map c) p = x" if x: "x \<in> U" "owns (pq_spans c) x p"
  proof -
    have "\<not> owns (pq_spans c) z p"
      using owns_unique [OF d(7) _ _ x(2)] x(1) d(5) by blast
    then show ?thesis
      using m x by (auto simp: map_ok_def rt_get_pm_get)
  qed
qed

lemma holder_maps:
  assumes "holder_ok p c U"
  shows "layout_ok (pq_spans c) U" "x \<in> U \<Longrightarrow> owns (pq_spans c) x q \<Longrightarrow> rt_get (pq_map c) q = x"
  using assms pq_inv_maps [of c _ U] pq_rel_maps [of c _ U]
  by (cases p; fastforce simp: holder_ok_def can_take_def)+

lemma pages_ok_maps:
  assumes "pages_ok s"
  shows "layout_ok (pq_spans (pt_cache s)) (pt_out s \<union> returning s)"
    "x \<in> pt_out s \<Longrightarrow> owns (pq_spans (pt_cache s)) x p \<Longrightarrow> rt_get (pq_map (pt_cache s)) p = x"
  using pages_okD(7,8) [OF assms] holder_maps [of _ "pt_cache s" "pt_out s \<union> returning s"]
    pq_inv_maps [of "pt_cache s" _ "pt_out s \<union> returning s"]
  by (cases "pt_mtx s"; fastforce)+

lemma holder_steps:
  assumes "pages_ok s" "pt_mtx s = Some t"
  shows "thread_step t s \<noteq> None" "steps_left s t \<le> 132" "pt_pc s t \<noteq> Broken e"
proof -
  note h = pages_okD(8) [OF assms]
  show "thread_step t s \<noteq> None"
    using h by (cases "pt_pc s t")
      (auto simp: holder_ok_def thread_step_def fetch_step_def return_step_def split: option.splits sum.splits)
  show "steps_left s t \<le> 132"
    by (cases "pt_pc s t") (simp_all add: steps_left_def Let_def)
  show "pt_pc s t \<noteq> Broken e"
    using h by (auto simp: holder_ok_def)
qed

lemma waiting_steps:
  assumes "pages_ok s" "pt_mtx s = None" "pt_pc s t \<noteq> AtRest"
  shows "thread_step t s \<noteq> None"
proof -
  have "\<not> inside (pt_pc s t)"
    using pages_okD(1) [OF assms(1)] assms(2) by simp
  then show ?thesis
    using assms(2,3) by (cases "pt_pc s t") (simp_all add: thread_step_def fetch_step_def return_step_def)
qed

section \<open>A first fetch\<close>

text \<open>The first thread that asks an empty page cache for pages has to ask the system.\<close>

definition first_refill :: "pqcache \<Rightarrow> nat \<Rightarrow> nat \<Rightarrow> page_threads" where
  "first_refill c t n = \<lparr>pt_cache = c, pt_mtx = Some t, pt_pc = (\<lambda>_. AtRest)(t := Refills n), pt_out = {}\<rparr>"

lemma first_refill_runs:
  assumes inv: "pq_inv c (\<lambda>_. []) {} {} {}" and n: "1 \<le> n" "n \<le> 128"
  shows "page_runs pages_supplied (page_start c) (first_refill c t n)"
proof -
  let ?s0 = "page_start c"
  let ?s1 = "at_pc ?s0 t (Wants n)"
  let ?s2 = "(at_pc ?s1 t (Looks n))\<lparr>pt_mtx := Some t\<rparr>"
  have r1: "page_runs pages_supplied ?s0 ?s1"
    by (rule runs_fetch [OF runs_start _ n]) (simp add: page_start_def)
  have "pages_supplied t ?s1" "thread_step t ?s1 = Some ?s2"
    by (simp_all add: thread_step_def fetch_step_def page_start_def at_pc_def pages_supplied_def)
  then have r2: "page_runs pages_supplied ?s0 ?s2"
    by (rule runs_step [OF r1])
  have e: "ps_empty (pq_spans c) (pq_heads c i)" if "i < 129" for i
    using ps_empty_buckets [OF pq_invD(1) [OF inv] that] by simp
  then have "p_find_bucket c (Suc n) = None"
    using p_find_bucket_cases [of "Suc n" c] by (auto split: option.splits)
  then have "thread_step t ?s2 = Some (at_pc ?s2 t (Refills n))"
    using e [of n] n by (simp add: thread_step_def fetch_step_def page_start_def at_pc_def)
  moreover have "pages_supplied t ?s2"
    by (simp add: pages_supplied_def at_pc_def)
  ultimately have "page_runs pages_supplied ?s0 (at_pc ?s2 t (Refills n))"
    by (intro runs_step [OF r2])
  then show ?thesis
    by (simp add: at_pc_def page_start_def first_refill_def)
qed

lemma first_fetch_runs:
  assumes inv: "pq_inv c (\<lambda>_. []) {} {} {}" and n: "1 \<le> (n :: nat)" "n \<le> 128"
    and pool: "pp_rep p_SPAN_SIZE (pq_pool c) xs" "2 \<le> length xs"
    and mm: "pq_mmaps c = ptr # rest" "\<And>L U. pq_inv c L U {} {} \<Longrightarrow> fresh_pages (pq_spans c) (free_spans L \<union> U) ptr 128"
  shows "\<exists>s x. page_runs pages_supplied (page_start c) s \<and> pt_pc s = (\<lambda>_. AtRest)(t := Fetched x) \<and> pt_out s = {x}"
proof -
  let ?s3 = "first_refill c t n"
  note r3 = first_refill_runs [OF inv n, of t]
  have f3: "pt_cache ?s3 = c" "pt_pc ?s3 t = Refills n" "pt_mtx ?s3 = Some t" "pt_out ?s3 = {}" "returning ?s3 = {}"
    by (simp_all add: first_refill_def returning_def)
  have "1 \<le> length xs"
    using pool(2) by simp
  then obtain c1 where c1: "GetNewSpan_refill c = Inr c1" "pp_rep p_SPAN_SIZE (pq_pool c1) (tl xs)"
    using GetNewSpan_refill_ok [OF inv pool(1) _ mm(1) mm(2) [OF inv]] by metis
  have p1: "1 \<le> length (tl xs)"
    using pool(2) by simp
  let ?s4 = "at_pc_with ?s3 t (Looks n) c1"
  have s4: "pages_supplied t ?s3" "thread_step t ?s3 = Some ?s4"
    using pool mm c1(1) by (auto simp: pages_supplied_def f3 thread_step_def fetch_step_def intro!: exI [of _ xs])
  then have r4: "page_runs pages_supplied (page_start c) ?s4"
    by (intro runs_step [OF r3])
  have "steps_left ?s4 t < 4"
    using thread_step_ok(3) [OF page_runs_ok [OF r3 pages_ok_start [OF inv]] s4 f3(3)] by (simp add: steps_left_def f3)
  then have nf: "\<not> (ps_empty (pq_spans c1) (pq_heads c1 n) \<and> p_find_bucket c1 (Suc n) = None)"
    by (auto simp: steps_left_def Let_def split: if_splits)
  obtain p where p: "p = Pops n \<or> (\<exists>i. p = Cuts n i)" "thread_step t ?s4 = Some (at_pc ?s4 t p)"
  proof (cases "ps_empty (pq_spans c1) (pq_heads c1 n)")
    case True
    then obtain i where "p_find_bucket c1 (Suc n) = Some i"
      using nf by auto
    then show thesis
      using True by (intro that [of "Cuts n i"]) (simp_all add: thread_step_def fetch_step_def)
  qed (intro that [of "Pops n"], simp_all add: thread_step_def fetch_step_def)
  let ?s5 = "at_pc ?s4 t p"
  have r5: "page_runs pages_supplied (page_start c) ?s5"
    by (rule runs_step [OF r4 _ p(2)]) (simp add: pages_supplied_def)
  have ok5: "pages_ok ?s5"
    by (rule page_runs_ok [OF r5 pages_ok_start [OF inv]])
  have f5: "pt_mtx ?s5 = Some t" "pt_pc ?s5 = (\<lambda>_. AtRest)(t := p)" "pt_out ?s5 = {}" "pt_cache ?s5 = c1"
    by (simp_all add: f3, simp add: first_refill_def)
  have "returning ?s5 = {}"
    using p(1) by (auto simp: returning_def first_refill_def)
  then have h: "holder_ok p c1 {}"
    using pages_okD(8) [OF ok5 f5(1)] by (simp add: f3 first_refill_def)
  have su: "pages_supplied t ?s5"
    using p(1) c1(2) p1 by (auto simp: pages_supplied_def intro!: exI [of _ "tl xs"])
  obtain r where r: "span_taken c1 {} n r" "thread_step t ?s5 = Some (got_span ?s5 t r)"
    using p(1)
  proof (elim disjE exE)
    assume "p = Pops n"
    then show thesis
      using that [OF holder_pops] h by (simp add: thread_step_def fetch_step_def)
  next
    fix i
    assume "p = Cuts n i"
    then show thesis
      using that [OF holder_cuts [OF _ c1(2) p1]] h by (simp add: thread_step_def fetch_step_def)
  qed
  then obtain x c2 where x: "r = Inr (x, c2)"
    by (auto simp: span_taken_def)
  have "page_runs pages_supplied (page_start c) (got_span ?s5 t r)"
    by (rule runs_step [OF r5 su r(2)])
  then show ?thesis
    by (intro exI [of _ "got_span ?s5 t r"] exI [of _ x]) (simp add: got_span_def x f3 first_refill_def)
qed

section \<open>Properties\<close>

text \<open>C37: several threads share the page cache. In every state that threads which fetch spans of 1 to 128 pages and
  return them reach, at any point inside the calls of the others, as long as the system provides pages and room for
  span structures where they are asked for (not where \<open>mmap\<close> fails, see below): exactly the thread that has the
  mutex is inside a call and none has failed; the spans that are out have pages of their own, and \<open>AddrToSpan\<close>, which
  takes no mutex, finds each of them from every address in its pages; when the mutex is free the page cache has its
  invariant; a thread that waits can go on when the mutex is free, and the thread that has it can always go on and
  lets go of it after at most 132 of its steps; no step of any thread changes the pages of a span that is out.\<close>

theorem pages_shared:
  assumes "pq_inv c L {} {} {}" and "page_runs pages_supplied (page_start c) s"
  shows "(\<forall>t. inside (pt_pc s t) \<longleftrightarrow> pt_mtx s = Some t) \<and> (\<forall>t e. pt_pc s t \<noteq> Broken e) \<and>
    (\<forall>x \<in> pt_out s. \<forall>a. owns (pq_spans (pt_cache s)) x (drop_bit 13 a) \<longrightarrow> AddrToSpan (pt_cache s) a = x) \<and>
    layout_ok (pq_spans (pt_cache s)) (pt_out s \<union> returning s) \<and>
    (pt_mtx s = None \<longrightarrow> (\<exists>L. pq_inv (pt_cache s) L (pt_out s \<union> returning s) {} {})) \<and>
    (\<forall>t. pt_mtx s = Some t \<or> (pt_mtx s = None \<and> pt_pc s t \<noteq> AtRest) \<longrightarrow> thread_step t s \<noteq> None) \<and>
    (\<forall>t. pt_mtx s = Some t \<longrightarrow> steps_left s t \<le> 132) \<and>
    (\<forall>t s'. pages_supplied t s \<and> thread_step t s = Some s' \<longrightarrow>
       keeps_out s s' \<and> (pt_mtx s = Some t \<longrightarrow> steps_left s' t < steps_left s t))"
proof -
  have ok: "pages_ok s"
    by (rule page_runs_ok [OF assms(2) pages_ok_start [OF assms(1)]])
  have b: "pt_pc s t \<noteq> Broken e" for t e
    using holder_steps(3) [OF ok, of t e] pages_okD(1) [OF ok, of t] by (cases "pt_mtx s = Some t") auto
  show ?thesis
    using pages_okD(1,7) [OF ok] b pages_ok_maps [OF ok] holder_steps [OF ok] waiting_steps [OF ok]
      thread_step_ok(2,3) [OF ok] by (intro conjI allI impI ballI) (auto simp: AddrToSpan_def)
qed


lemma pages_shared_witness:
  "\<exists>s x. page_runs pages_supplied (page_start pq_demo) s \<and> pt_out s = {x} \<and> pt_mtx s = Some 0 \<and> pt_pc s 1 = Wants 5 \<and>
    steps_left s 0 = 1 \<and> thread_step 0 s \<noteq> None \<and> thread_step 1 s = None \<and>
    (\<forall>a. owns (pq_spans (pt_cache s)) x (drop_bit 13 a) \<longrightarrow> AddrToSpan (pt_cache s) a = x)"
proof -
  have np0: "np (pq_spans pq_demo) x = 0" for x
    by (simp add: np_def pq_demo_def pq_new_def)
  have e: "free_spans L \<union> U = {}" if "pq_inv pq_demo L U {} {}" for L U
    using layout_bounds(1) [OF pq_invD(7) [OF that]] np0 by fastforce
  have "fresh_pages (pq_spans pq_demo) (free_spans L \<union> U) 4294967296 128" if "pq_inv pq_demo L U {} {}" for L U
    unfolding e [OF that] by (rule pq_demo_facts(3))
  moreover have "2 \<le> length (slots 1048576 56 146)"
    by simp
  ultimately obtain s x where s: "page_runs pages_supplied (page_start pq_demo) s"
      "pt_pc s = (\<lambda>_. AtRest)(0 := Fetched x)" "pt_out s = {x}"
    using first_fetch_runs [OF pq_demo_facts(1) _ _ pq_demo_facts(4) _ pq_demo_facts(2), of 3 0] by auto
  let ?s = "at_pc s 1 (Wants 5)"
  have r: "page_runs pages_supplied (page_start pq_demo) ?s"
    by (rule runs_fetch [OF s(1)]) (simp_all add: s(2))
  note th = pages_shared [OF pq_demo_facts(1) r]
  have f: "pt_pc ?s 0 = Fetched x" "pt_pc ?s 1 = Wants 5" "pt_out ?s = {x}"
    by (simp_all add: s(2,3))
  then have m: "pt_mtx ?s = Some 0"
    using th inside_simps(8) [of x] by metis
  have "thread_step 1 ?s = None"
    using f(2) m by (simp add: thread_step_def fetch_step_def return_step_def)
  moreover have "thread_step 0 ?s \<noteq> None"
    using th m by blast
  moreover have "\<forall>a. owns (pq_spans (pt_cache ?s)) x (drop_bit 13 a) \<longrightarrow> AddrToSpan (pt_cache ?s) a = x"
    using th f(3) by blast
  moreover have "steps_left ?s 0 = 1"
    using f(1) by (simp add: steps_left_def)
  ultimately show ?thesis
    using r m f(2,3) by (intro exI [of _ ?s] exI [of _ x]) simp
qed

text \<open>One thread has the mutex and is gone.\<close>

definition blocked :: "page_threads \<Rightarrow> nat \<Rightarrow> bool" where
  "blocked s t \<longleftrightarrow> pt_mtx s = Some t \<and> pt_pc s t = Broken BadAlloc \<and> (\<forall>u. u \<noteq> t \<longrightarrow> \<not> inside (pt_pc s u))"

lemma blocked_none:
  assumes "blocked s t"
  shows "thread_step u s = None"
proof (cases "u = t")
  case True
  then show ?thesis
    using assms by (simp add: blocked_def thread_step_def fetch_step_def return_step_def)
next
  case False
  then show ?thesis
    using assms by (cases "pt_pc s u") (auto simp: blocked_def thread_step_def fetch_step_def return_step_def)
qed

text \<open>C38: a failed \<open>mmap\<close> blocks the page cache for good. \<open>FetchFromPageCache\<close> takes the mutex by \<open>lock\<close>; when the
  system has no pages \<open>GetNewSpan\<close> throws \<open>std::bad_alloc\<close> out of it before \<open>unlock\<close>. In every state that threads reach
  in which a thread asks the system and \<open>mmap\<close> fails, that thread ends with the exception, and however the others go
  on, the mutex stays taken, no thread can make a step and no span is handed out any more.\<close>

theorem failed_mmap_blocks_pages:
  assumes "pq_inv c L {} {} {}" and "page_runs pages_supplied (page_start c) s" and "pt_pc s t = Refills n"
    and "pp_rep p_SPAN_SIZE (pq_pool (pt_cache s)) (x # xs)" and "pq_mmaps (pt_cache s) = MAP_FAILED # rest"
  shows "\<exists>s1. thread_step t s = Some s1 \<and> pt_pc s1 t = Broken BadAlloc \<and>
    (\<forall>ok s2. page_runs ok s1 s2 \<longrightarrow>
       pt_mtx s2 = Some t \<and> (\<forall>u. thread_step u s2 = None) \<and> pt_out s2 \<subseteq> pt_out s)"
proof -
  have ok: "pages_ok s"
    by (rule page_runs_ok [OF assms(2) pages_ok_start [OF assms(1)]])
  let ?s1 = "at_pc s t (Broken BadAlloc)"
  obtain p' where "pp_New p_SPAN_SIZE (pq_pool (pt_cache s)) = Inr (x, p')"
    using pp_New_pop [OF assms(4)] by blast
  then have "GetNewSpan_refill (pt_cache s) = Inl BadAlloc"
    using assms(5) by (simp add: GetNewSpan_refill_def p_new_span_def Let_def p_SystemAlloc_def p_NPAGE_LIST_def p_Span_def)
  then have st: "thread_step t s = Some ?s1"
    using assms(3) by (simp add: thread_step_def fetch_step_def)
  have "pt_mtx s = Some t" "\<not> inside (pt_pc s u)" if "u \<noteq> t" for u
    using pages_okD(1) [OF ok, of t] pages_okD(1) [OF ok, of u] assms(3) that by simp_all
  then have b: "blocked ?s1 t"
    using pages_okD(1) [OF ok, of t] assms(3) by (simp add: blocked_def)
  have "blocked s2 t \<and> pt_out s2 \<subseteq> pt_out s" if "page_runs ok' ?s1 s2" for ok' s2
    using that
  proof (induction rule: page_runs.induct)
    case runs_start
    show ?case
      using b by simp
  next
    case (runs_step s' u s'')
    then show ?case
      using blocked_none [of s' t u] by simp
  qed (auto simp: blocked_def)
  then have "pt_mtx s2 = Some t \<and> (\<forall>u. thread_step u s2 = None) \<and> pt_out s2 \<subseteq> pt_out s" if "page_runs ok' ?s1 s2" for ok' s2
    using that blocked_none [of s2 t] by (simp add: blocked_def)
  then show ?thesis
    using st by (intro exI [of _ ?s1]) simp
qed

lemma failed_mmap_blocks_pages_witness:
  "let c = pq_demo\<lparr>pq_mmaps := [MAP_FAILED]\<rparr>; s = first_refill c 0 3 in
     page_runs pages_supplied (page_start c) s \<and>
     (\<exists>s1. thread_step 0 s = Some s1 \<and> pt_pc s1 0 = Broken BadAlloc \<and>
       pt_mtx (at_pc s1 1 (Wants 1)) = Some 0 \<and> thread_step 1 (at_pc s1 1 (Wants 1)) = None)"
proof -
  let ?c = "pq_demo\<lparr>pq_mmaps := [MAP_FAILED]\<rparr>"
  let ?s = "first_refill ?c 0 3"
  have inv: "pq_inv ?c (\<lambda>_. []) {} {} {}"
    using pq_demo_facts(1) by (simp add: pq_inv_def)
  have r: "page_runs pages_supplied (page_start ?c) ?s"
    by (rule first_refill_runs [OF inv]) simp_all
  have "slots 1048576 56 146 = 1048576 # slots (1048576 + 56) 56 145"
    using slots.simps(2) [of 1048576 56 145] by simp
  then have "pp_rep p_SPAN_SIZE (pq_pool (pt_cache ?s)) (1048576 # slots (1048576 + 56) 56 145)"
    using pq_demo_facts(4) by (simp add: first_refill_def)
  then obtain s1 where s1: "thread_step 0 ?s = Some s1" "pt_pc s1 0 = Broken BadAlloc"
      "\<And>ok s2. page_runs ok s1 s2 \<Longrightarrow> pt_mtx s2 = Some 0 \<and> (\<forall>u. thread_step u s2 = None)"
    using failed_mmap_blocks_pages [OF inv r, of 0 3 1048576 "slots (1048576 + 56) 56 145" "[]"]
    by (auto simp: first_refill_def)
  have "pt_pc s1 1 = AtRest"
    using s1(1) by (auto simp: thread_step_def fetch_step_def first_refill_def split: sum.splits)
  then have "page_runs pages_supplied s1 (at_pc s1 1 (Wants 1))"
    by (intro runs_fetch [OF runs_start]) simp_all
  then show ?thesis
    using r s1 unfolding Let_def by blast
qed

end
