(* ===== verification/Byte_Buffer.thy ===== *)
theory Byte_Buffer
  imports Prelude
begin

text \<open>
  The class \<open>Buffer\<close> of \<open>muduo/server.hpp\<close>: a vector of bytes with a read and a write index, both
  64-bit words that wrap. The bytes between the two indices are the content. A copy outside the
  vector is the fault \<open>OutOfBounds\<close>, a vector larger than \<open>max_size()\<close> the exception of
  \<open>resize\<close>; a \<open>resize\<close> that finds no memory is outside the model.
  The locale \<open>byte_stream\<close> is the contract the connections rely on: a first-in first-out stream.
\<close>

section \<open>The code\<close>

record buffer =
  bf_data :: string
  bf_write :: u64
  bf_read :: u64

definition default_size :: nat where
  "default_size = 1024"

definition bf_new :: buffer where
  "bf_new = \<lparr>bf_data = replicate default_size (CHR 0x00), bf_write = 0, bf_read = 0\<rparr>"

definition bf_size :: "buffer \<Rightarrow> u64" where
  "bf_size b = of_nat (length (bf_data b))"

definition GetAfterSpace :: "buffer \<Rightarrow> u64" where
  "GetAfterSpace b = bf_size b - bf_write b"

definition GetFrontSpace :: "buffer \<Rightarrow> u64" where
  "GetFrontSpace b = bf_read b"

definition ReadableSize :: "buffer \<Rightarrow> u64" where
  "ReadableSize b = bf_write b - bf_read b"

text \<open>\<open>std::vector<char>::resize\<close>: the new bytes are zero.\<close>

definition vec_resize :: "u64 \<Rightarrow> string \<Rightarrow> string res" where
  "vec_resize n xs =
     (if unat n > 2 ^ 63 - 1 then Inl StdException
      else Inr (take (unat n) xs @ replicate (unat n - length xs) (CHR 0x00)))"

definition EnsureAmpleWriteableSpace :: "buffer \<Rightarrow> u64 \<Rightarrow> buffer res" where
  "EnsureAmpleWriteableSpace b sz =
     (let after = GetAfterSpace b; front = GetFrontSpace b in
      if after \<ge> sz then Inr b
      else if front + after \<ge> sz then
        let origin_read_size = ReadableSize b;
            r = unat (bf_read b); w = unat (bf_write b)
        in if r \<le> w \<and> w \<le> length (bf_data b) then
             Inr (b\<lparr>bf_data := take (w - r) (drop r (bf_data b)) @ drop (w - r) (bf_data b),
                    bf_read := 0, bf_write := origin_read_size\<rparr>)
           else Inl OutOfBounds
      else rbind (vec_resize (bf_size b * 2 + sz) (bf_data b)) (\<lambda>d. Inr (b\<lparr>bf_data := d\<rparr>)))"

definition MoveWriteOffset :: "buffer \<Rightarrow> u64 \<Rightarrow> buffer res" where
  "MoveWriteOffset b sz =
     (if bf_write b + sz \<le> bf_size b then Inr (b\<lparr>bf_write := bf_write b + sz\<rparr>) else Inl AssertFailed)"

definition MoveReadOffset :: "buffer \<Rightarrow> u64 \<Rightarrow> buffer res" where
  "MoveReadOffset b sz =
     (if bf_read b + sz \<le> bf_write b \<and> sz > 0 then Inr (b\<lparr>bf_read := bf_read b + sz\<rparr>) else Inl AssertFailed)"

text \<open>\<open>xs\<close> are the \<open>len\<close> bytes at \<open>data\<close>.\<close>

definition bf_Write :: "buffer \<Rightarrow> string \<Rightarrow> buffer res" where
  "bf_Write b xs =
     rbind (EnsureAmpleWriteableSpace b (of_nat (length xs))) (\<lambda>b.
       let w = unat (bf_write b) in
       if w + length xs \<le> length (bf_data b) then
         Inr (b\<lparr>bf_data := take w (bf_data b) @ xs @ drop (w + length xs) (bf_data b)\<rparr>)
       else Inl OutOfBounds)"

definition WriteAndPush :: "buffer \<Rightarrow> string \<Rightarrow> buffer res" where
  "WriteAndPush b xs = rbind (bf_Write b xs) (\<lambda>b. MoveWriteOffset b (of_nat (length xs)))"

definition WriteString :: "buffer \<Rightarrow> string \<Rightarrow> buffer res" where
  "WriteString b s = bf_Write b s"

definition WriteStringAndPush :: "buffer \<Rightarrow> string \<Rightarrow> buffer res" where
  "WriteStringAndPush b s = WriteAndPush b s"

definition bf_Swap :: "buffer \<Rightarrow> buffer \<Rightarrow> buffer \<times> buffer" where
  "bf_Swap this buf = (buf, this)"

text \<open>The bytes from \<open>ReadIndex()\<close> on; reading past the vector is undefined.\<close>

definition peek :: "buffer \<Rightarrow> u64 \<Rightarrow> string res" where
  "peek b sz =
     (if unat (bf_read b) + unat sz \<le> length (bf_data b)
      then Inr (take (unat sz) (drop (unat (bf_read b)) (bf_data b)))
      else Inl OutOfBounds)"

definition WriteBuffer :: "buffer \<Rightarrow> buffer \<Rightarrow> buffer res" where
  "WriteBuffer b other = rbind (peek other (ReadableSize other)) (bf_Write b)"

definition WriteBufferAndPush :: "buffer \<Rightarrow> buffer \<Rightarrow> buffer res" where
  "WriteBufferAndPush b other = rbind (peek other (ReadableSize other)) (WriteAndPush b)"

definition bf_Read :: "buffer \<Rightarrow> u64 \<Rightarrow> string res" where
  "bf_Read b sz = (if sz \<le> ReadableSize b then peek b sz else Inl AssertFailed)"

definition ReadAndPop :: "buffer \<Rightarrow> u64 \<Rightarrow> (string \<times> buffer) res" where
  "ReadAndPop b sz = rbind (bf_Read b sz) (\<lambda>s. rbind (MoveReadOffset b sz) (\<lambda>b'. Inr (s, b')))"

definition ReadString :: "buffer \<Rightarrow> u64 \<Rightarrow> string res" where
  "ReadString b sz = (if sz \<le> ReadableSize b then bf_Read b sz else Inl AssertFailed)"

definition ReadStringAndPop :: "buffer \<Rightarrow> u64 \<Rightarrow> (string \<times> buffer) res" where
  "ReadStringAndPop b sz = (if sz \<le> ReadableSize b then ReadAndPop b sz else Inl AssertFailed)"

text \<open>\<open>memchr\<close>: the offset of the first newline from \<open>ReadIndex()\<close>, if there is one.\<close>

primrec memchr :: "char \<Rightarrow> string \<Rightarrow> nat option" where
  "memchr c [] = None"
| "memchr c (x # xs) = (if x = c then Some 0 else map_option Suc (memchr c xs))"

definition FindCRLF :: "buffer \<Rightarrow> nat option res" where
  "FindCRLF b = rbind (peek b (ReadableSize b)) (\<lambda>s. Inr (memchr (CHR 0x0A) s))"

definition GetLine :: "buffer \<Rightarrow> string res" where
  "GetLine b =
     rbind (FindCRLF b) (\<lambda>ch. case ch of None \<Rightarrow> Inr [] | Some n \<Rightarrow> ReadString b (of_nat n + 1))"

definition GetLineAndPop :: "buffer \<Rightarrow> (string \<times> buffer) res" where
  "GetLineAndPop b =
     rbind (GetLine b) (\<lambda>ret. rbind (MoveReadOffset b (of_nat (length ret))) (\<lambda>b'. Inr (ret, b')))"

definition bf_clear :: "buffer \<Rightarrow> buffer" where
  "bf_clear b = b\<lparr>bf_write := 0, bf_read := 0\<rparr>"

section \<open>The content of a buffer\<close>

definition content :: "buffer \<Rightarrow> string" where
  "content b = take (unat (bf_write b) - unat (bf_read b)) (drop (unat (bf_read b)) (bf_data b))"

definition bf_inv :: "buffer \<Rightarrow> bool" where
  "bf_inv b \<longleftrightarrow> unat (bf_read b) \<le> unat (bf_write b) \<and> unat (bf_write b) \<le> length (bf_data b) \<and>
     length (bf_data b) < 2 ^ 63"

definition room :: "buffer \<Rightarrow> nat \<Rightarrow> bool" where
  "room b n \<longleftrightarrow> 2 * length (bf_data b) + n < 2 ^ 63"

lemma bf_invD:
  assumes "bf_inv b"
  shows "unat (bf_read b) \<le> unat (bf_write b)" "unat (bf_write b) \<le> length (bf_data b)"
    "length (bf_data b) < 9223372036854775808" "unat (bf_size b) = length (bf_data b)"
    "unat (GetAfterSpace b) = length (bf_data b) - unat (bf_write b)"
    "unat (ReadableSize b) = unat (bf_write b) - unat (bf_read b)"
    "length (content b) = unat (bf_write b) - unat (bf_read b)"
proof -
  show a: "unat (bf_read b) \<le> unat (bf_write b)" "unat (bf_write b) \<le> length (bf_data b)"
    "length (bf_data b) < 9223372036854775808"
    using assms by (simp_all add: bf_inv_def)
  then show s: "unat (bf_size b) = length (bf_data b)"
    by (simp add: bf_size_def unat_of_nat_small)
  show "unat (GetAfterSpace b) = length (bf_data b) - unat (bf_write b)"
    using a s by (simp add: GetAfterSpace_def unat_minus_nowrap)
  show "unat (ReadableSize b) = unat (bf_write b) - unat (bf_read b)"
    using a by (simp add: ReadableSize_def unat_minus_nowrap)
  show "length (content b) = unat (bf_write b) - unat (bf_read b)"
    using a by (simp add: content_def)
qed

lemma ReadableSize_content: "bf_inv b \<Longrightarrow> unat (ReadableSize b) = length (content b)"
  by (simp add: bf_invD)

lemma ReadableSize_of_nat: "bf_inv b \<Longrightarrow> ReadableSize b = of_nat (length (content b))"
  using ReadableSize_content [of b] by (simp flip: ReadableSize_content)

lemma bf_new_inv [simp]: "bf_inv bf_new" "content bf_new = []"
  by (simp_all add: bf_inv_def bf_new_def content_def default_size_def)

lemma bf_clear_inv: "bf_inv b \<Longrightarrow> bf_inv (bf_clear b) \<and> content (bf_clear b) = []"
  by (simp add: bf_inv_def bf_clear_def content_def)

lemma vec_resize_ok: "unat n < 2 ^ 63 \<Longrightarrow> length xs \<le> unat n \<Longrightarrow>
    vec_resize n xs = Inr (xs @ replicate (unat n - length xs) (CHR 0x00))"
  by (simp add: vec_resize_def)

text \<open>Making room keeps the content, whichever of the three ways is taken.\<close>

lemma Ensure_ok:
  assumes inv: "bf_inv b" and rm: "room b (unat sz)"
  shows "\<exists>b'. EnsureAmpleWriteableSpace b sz = Inr b' \<and> bf_inv b' \<and> content b' = content b \<and>
    unat (bf_write b') + unat sz \<le> length (bf_data b') \<and>
    length (bf_data b') \<le> 2 * length (bf_data b) + unat sz"
proof -
  note d = bf_invD [OF inv]
  have rm': "2 * length (bf_data b) + unat sz < 9223372036854775808"
    using rm by (simp add: room_def)
  consider (enough) "unat sz \<le> unat (GetAfterSpace b)"
    | (compact) "unat (GetAfterSpace b) < unat sz" "unat sz \<le> unat (bf_read b) + unat (GetAfterSpace b)"
    | (grow) "unat (GetAfterSpace b) < unat sz" "unat (bf_read b) + unat (GetAfterSpace b) < unat sz"
    by linarith
  then show ?thesis
  proof cases
    case enough
    then have "EnsureAmpleWriteableSpace b sz = Inr b"
      by (simp add: EnsureAmpleWriteableSpace_def Let_def word_le_nat_alt)
    then show ?thesis
      using enough d inv by (intro exI [of _ b]) simp
  next
    case compact
    let ?r = "unat (bf_read b)" and ?w = "unat (bf_write b)"
    let ?b = "b\<lparr>bf_data := take (?w - ?r) (drop ?r (bf_data b)) @ drop (?w - ?r) (bf_data b),
      bf_read := 0, bf_write := ReadableSize b\<rparr>"
    have f: "unat (GetFrontSpace b + GetAfterSpace b) = ?r + unat (GetAfterSpace b)"
      using d by (simp add: GetFrontSpace_def unat_add_nowrap)
    have "EnsureAmpleWriteableSpace b sz = Inr ?b"
      using compact d(1,2) f by (simp add: EnsureAmpleWriteableSpace_def Let_def word_le_nat_alt)
    moreover have "bf_inv ?b" "content ?b = content b" "unat (bf_write ?b) + unat sz \<le> length (bf_data ?b)"
      using d compact(2) by (simp_all add: bf_inv_def content_def)
    ultimately show ?thesis
      using d by (intro exI [of _ ?b]) simp
  next
    case grow
    have f: "unat (GetFrontSpace b + GetAfterSpace b) = unat (bf_read b) + unat (GetAfterSpace b)"
      using d by (simp add: GetFrontSpace_def unat_add_nowrap)
    have m: "unat (bf_size b * 2) = length (bf_data b) * 2"
      using rm' d(4) by (simp add: unat_mult_nowrap)
    have n: "unat (bf_size b * 2 + sz) = 2 * length (bf_data b) + unat sz"
      using rm' m by (simp add: unat_add_nowrap)
    let ?d = "bf_data b @ replicate (2 * length (bf_data b) + unat sz - length (bf_data b)) (CHR 0x00)"
    have "vec_resize (bf_size b * 2 + sz) (bf_data b) = Inr ?d"
      using rm' n by (simp add: vec_resize_def)
    then have "EnsureAmpleWriteableSpace b sz = Inr (b\<lparr>bf_data := ?d\<rparr>)"
      using grow f by (simp add: EnsureAmpleWriteableSpace_def Let_def word_le_nat_alt)
    moreover have "bf_inv (b\<lparr>bf_data := ?d\<rparr>)"
      using d(1-3) rm' by (simp add: bf_inv_def)
    moreover have "content (b\<lparr>bf_data := ?d\<rparr>) = content b"
      using d(1,2) by (simp add: content_def)
    ultimately show ?thesis
      using d rm' by (intro exI [of _ "b\<lparr>bf_data := ?d\<rparr>"]) simp
  qed
qed

lemma WriteAndPush_ok:
  assumes inv: "bf_inv b" and rm: "room b (length xs)"
  shows "\<exists>b'. WriteAndPush b xs = Inr b' \<and> bf_inv b' \<and> content b' = content b @ xs \<and>
    length (bf_data b') \<le> 2 * length (bf_data b) + length xs"
proof -
  have n: "unat (of_nat (length xs) :: u64) = length xs"
    using rm by (intro unat_of_nat_small) (simp add: room_def)
  obtain b1 where b1: "EnsureAmpleWriteableSpace b (of_nat (length xs)) = Inr b1" "bf_inv b1"
      "content b1 = content b" "unat (bf_write b1) + length xs \<le> length (bf_data b1)"
      "length (bf_data b1) \<le> 2 * length (bf_data b) + length xs"
    using Ensure_ok [of b "of_nat (length xs)"] inv rm n by auto
  note d = bf_invD [OF b1(2)]
  let ?w = "unat (bf_write b1)"
  let ?d = "take ?w (bf_data b1) @ xs @ drop (?w + length xs) (bf_data b1)"
  have w: "unat (bf_write b1 + of_nat (length xs)) = ?w + length xs"
    using d b1(4) n by (simp add: unat_add_nowrap)
  have sz: "bf_size (b1\<lparr>bf_data := ?d\<rparr>) = bf_size b1"
    using b1(4) by (simp add: bf_size_def)
  let ?b = "b1\<lparr>bf_data := ?d, bf_write := bf_write b1 + of_nat (length xs)\<rparr>"
  have "WriteAndPush b xs = Inr ?b"
    using b1(1,4) w d(4) sz by (simp add: WriteAndPush_def bf_Write_def MoveWriteOffset_def word_le_nat_alt Let_def)
  moreover have "bf_inv ?b"
    using d b1(4) w by (simp add: bf_inv_def)
  moreover have "content ?b = content b1 @ xs"
    using d b1(4) w by (simp add: content_def drop_take)
  ultimately show ?thesis
    using b1(3-5) by (intro exI [of _ ?b]) simp
qed

lemma peek_ok: "bf_inv b \<Longrightarrow> unat n \<le> length (content b) \<Longrightarrow> peek b n = Inr (take (unat n) (content b))"
  using bf_invD(1,2,7) [of b] by (simp add: peek_def content_def min_def)

lemma bf_Read_ok: "bf_inv b \<Longrightarrow> unat n \<le> length (content b) \<Longrightarrow> bf_Read b n = Inr (take (unat n) (content b))"
  by (simp add: bf_Read_def peek_ok word_le_nat_alt ReadableSize_content)

lemma bf_Read_short: "bf_inv b \<Longrightarrow> length (content b) < unat n \<Longrightarrow> bf_Read b n = Inl AssertFailed"
  by (simp add: bf_Read_def word_le_nat_alt ReadableSize_content)

lemma MoveReadOffset_ok:
  assumes inv: "bf_inv b" and n: "0 < unat n" "unat n \<le> length (content b)"
  shows "\<exists>b'. MoveReadOffset b n = Inr b' \<and> bf_inv b' \<and> content b' = drop (unat n) (content b) \<and> bf_data b' = bf_data b"
proof -
  note d = bf_invD [OF inv]
  have w: "unat (bf_read b + n) = unat (bf_read b) + unat n"
    using d n by (simp add: unat_add_nowrap)
  have "MoveReadOffset b n = Inr (b\<lparr>bf_read := bf_read b + n\<rparr>)"
    using d n w by (simp add: MoveReadOffset_def word_le_nat_alt word_less_nat_alt)
  moreover have "bf_inv (b\<lparr>bf_read := bf_read b + n\<rparr>)"
    using d n w by (simp add: bf_inv_def)
  moreover have "content (b\<lparr>bf_read := bf_read b + n\<rparr>) = drop (unat n) (content b)"
    using d n w by (simp add: content_def drop_take add.commute)
  ultimately show ?thesis by simp
qed

lemma MoveReadOffset_0: "MoveReadOffset b 0 = Inl AssertFailed"
  by (simp add: MoveReadOffset_def)

lemma ReadAndPop_ok:
  assumes "bf_inv b" "0 < unat n" "unat n \<le> length (content b)"
  shows "\<exists>b'. ReadAndPop b n = Inr (take (unat n) (content b), b') \<and> bf_inv b' \<and>
    content b' = drop (unat n) (content b) \<and> bf_data b' = bf_data b"
  using MoveReadOffset_ok [OF assms] bf_Read_ok [of b n] assms by (auto simp: ReadAndPop_def)

lemma ReadStringAndPop_ok:
  assumes "bf_inv b" "0 < unat n" "unat n \<le> length (content b)"
  shows "\<exists>b'. ReadStringAndPop b n = Inr (take (unat n) (content b), b') \<and> bf_inv b' \<and>
    content b' = drop (unat n) (content b) \<and> bf_data b' = bf_data b"
  using ReadAndPop_ok [OF assms] assms by (simp add: ReadStringAndPop_def word_le_nat_alt ReadableSize_content)

section \<open>Lines\<close>

lemma memchr_None: "memchr c xs = None \<longleftrightarrow> c \<notin> set xs"
  by (induction xs) auto

lemma memchr_Some: "memchr c xs = Some n \<longleftrightarrow> n < length xs \<and> xs ! n = c \<and> c \<notin> set (take n xs)"
proof (induction xs arbitrary: n)
  case (Cons x xs)
  then show ?case
    by (cases n) auto
qed simp

definition first_line :: "string \<Rightarrow> string" where
  "first_line s = (case memchr (CHR 0x0A) s of None \<Rightarrow> [] | Some n \<Rightarrow> take (Suc n) s)"

lemma first_line_append:
  assumes "CHR 0x0A \<notin> set l"
  shows "first_line (l @ CHR 0x0A # r) = l @ [CHR 0x0A]"
proof -
  have "memchr (CHR 0x0A) (l @ CHR 0x0A # r) = Some (length l)"
    using assms by (simp add: memchr_Some)
  then show ?thesis
    by (simp add: first_line_def)
qed

lemma first_line_none: "CHR 0x0A \<notin> set s \<Longrightarrow> first_line s = []"
  by (simp add: first_line_def memchr_None [symmetric])

lemma GetLine_ok:
  assumes inv: "bf_inv b"
  shows "GetLine b = Inr (first_line (content b))"
proof -
  have f: "FindCRLF b = Inr (memchr (CHR 0x0A) (content b))"
    using peek_ok [OF inv, of "ReadableSize b"] ReadableSize_content [OF inv] by (simp add: FindCRLF_def)
  show ?thesis
  proof (cases "memchr (CHR 0x0A) (content b)")
    case None
    then show ?thesis using f by (simp add: GetLine_def first_line_def)
  next
    case (Some n)
    then have n: "n < length (content b)"
      by (simp add: memchr_Some)
    then have l: "n < 9223372036854775808"
      using bf_invD(2,3,7) [OF inv] by simp
    have u: "unat (of_nat n + 1 :: u64) = Suc n"
      using l by (simp add: unat_add_nowrap unat_of_nat_small)
    then have "ReadString b (of_nat n + 1) = Inr (take (Suc n) (content b))"
      using n by (simp add: ReadString_def bf_Read_ok [OF inv] word_le_nat_alt ReadableSize_content [OF inv])
    then show ?thesis
      using f Some by (simp add: GetLine_def first_line_def)
  qed
qed

lemma length_first_line: "length (first_line s) \<le> length s"
  by (simp add: first_line_def split: option.split)

lemma first_line_take: "first_line s = take (length (first_line s)) s"
  by (simp add: first_line_def min_def split: option.split)

lemma first_line_pos:
  assumes "CHR 0x0A \<in> set s"
  shows "0 < length (first_line s)"
proof -
  obtain n where n: "memchr (CHR 0x0A) s = Some n"
    using assms memchr_None [of "CHR 0x0A" s] by (cases "memchr (CHR 0x0A) s") simp_all
  then show ?thesis
    by (cases s) (simp_all add: first_line_def)
qed

lemma GetLineAndPop_ok:
  assumes inv: "bf_inv b" and nl: "CHR 0x0A \<in> set (content b)"
  shows "\<exists>b'. GetLineAndPop b = Inr (first_line (content b), b') \<and> bf_inv b' \<and>
    content b' = drop (length (first_line (content b))) (content b) \<and> bf_data b' = bf_data b"
proof -
  let ?l = "first_line (content b)"
  have pos: "0 < length ?l"
    by (rule first_line_pos [OF nl])
  have len: "length ?l \<le> length (content b)"
    by (rule length_first_line)
  then have u: "unat (of_nat (length ?l) :: u64) = length ?l"
    using bf_invD(2,3,7) [OF inv] by (intro unat_of_nat_small) simp
  show ?thesis
    using MoveReadOffset_ok [OF inv, of "of_nat (length ?l)"] u pos len GetLine_ok [OF inv]
    by (auto simp: GetLineAndPop_def)
qed

text \<open>Without a complete line in the buffer the assertion of \<open>MoveReadOffset\<close> fails.\<close>

lemma GetLineAndPop_none:
  assumes inv: "bf_inv b" and nl: "CHR 0x0A \<notin> set (content b)"
  shows "GetLineAndPop b = Inl AssertFailed"
  using GetLine_ok [OF inv] first_line_none [OF nl] by (simp add: GetLineAndPop_def MoveReadOffset_0)

section \<open>The contract of a byte stream\<close>

datatype stream_op = Put string | Get u64

primrec stream_run :: "('b \<Rightarrow> string \<Rightarrow> 'b res) \<Rightarrow> ('b \<Rightarrow> u64 \<Rightarrow> (string \<times> 'b) res) \<Rightarrow> stream_op list \<Rightarrow> 'b \<Rightarrow>
    (string \<times> 'b) res" where
  "stream_run app pop [] b = Inr ([], b)"
| "stream_run app pop (x # ops) b =
     (case x of
        Put xs \<Rightarrow> rbind (app b xs) (stream_run app pop ops)
      | Get n \<Rightarrow> rbind (pop b n) (\<lambda>(s, b'). rbind (stream_run app pop ops b') (\<lambda>(out, b2). Inr (s @ out, b2))))"

definition put_bytes :: "stream_op list \<Rightarrow> string" where
  "put_bytes ops = concat (map (\<lambda>x. case x of Put xs \<Rightarrow> xs | Get _ \<Rightarrow> []) ops)"

primrec admissible :: "('b \<Rightarrow> nat \<Rightarrow> bool) \<Rightarrow> ('b \<Rightarrow> string) \<Rightarrow> ('b \<Rightarrow> string \<Rightarrow> 'b res) \<Rightarrow>
    ('b \<Rightarrow> u64 \<Rightarrow> (string \<times> 'b) res) \<Rightarrow> stream_op list \<Rightarrow> 'b \<Rightarrow> bool" where
  "admissible fits cont app pop [] b = True"
| "admissible fits cont app pop (x # ops) b =
     (case x of
        Put xs \<Rightarrow> fits b (length xs) \<and>
          (case app b xs of Inl _ \<Rightarrow> True | Inr b' \<Rightarrow> admissible fits cont app pop ops b')
      | Get n \<Rightarrow> 0 < unat n \<and> unat n \<le> length (cont b) \<and>
          (case pop b n of Inl _ \<Rightarrow> True | Inr (s, b') \<Rightarrow> admissible fits cont app pop ops b'))"

locale byte_stream =
  fixes inv :: "'b \<Rightarrow> bool"
    and cont :: "'b \<Rightarrow> string"
    and fits :: "'b \<Rightarrow> nat \<Rightarrow> bool"
    and app :: "'b \<Rightarrow> string \<Rightarrow> 'b res"
    and pop :: "'b \<Rightarrow> u64 \<Rightarrow> (string \<times> 'b) res"
  assumes app_ok: "inv b \<Longrightarrow> fits b (length xs) \<Longrightarrow> \<exists>b'. app b xs = Inr b' \<and> inv b' \<and> cont b' = cont b @ xs"
    and pop_ok: "inv b \<Longrightarrow> 0 < unat n \<Longrightarrow> unat n \<le> length (cont b) \<Longrightarrow>
      \<exists>b'. pop b n = Inr (take (unat n) (cont b), b') \<and> inv b' \<and> cont b' = drop (unat n) (cont b)"
begin

lemma stream_fifo:
  assumes "inv b" "admissible fits cont app pop ops b"
  shows "\<exists>out b'. stream_run app pop ops b = Inr (out, b') \<and> inv b' \<and> out @ cont b' = cont b @ put_bytes ops"
  using assms
proof (induction ops arbitrary: b)
  case (Cons x ops)
  show ?case
  proof (cases x)
    case (Put xs)
    then obtain b1 where b1: "app b xs = Inr b1" "inv b1" "cont b1 = cont b @ xs"
      using app_ok [OF Cons.prems(1), of xs] Cons.prems(2) by auto
    then show ?thesis
      using Cons.IH [OF b1(2)] Cons.prems(2) Put by (auto simp: put_bytes_def)
  next
    case (Get n)
    then obtain b1 where b1: "pop b n = Inr (take (unat n) (cont b), b1)" "inv b1" "cont b1 = drop (unat n) (cont b)"
      using pop_ok [OF Cons.prems(1), of n] Cons.prems(2) by auto
    obtain out b2 where "stream_run app pop ops b1 = Inr (out, b2)" "inv b2" "out @ cont b2 = cont b1 @ put_bytes ops"
      using Cons.IH [OF b1(2)] Cons.prems(2) Get b1(1) by auto
    then show ?thesis
      using Get b1 by (simp add: put_bytes_def)
  qed
qed (simp add: put_bytes_def)

end

interpretation bs: byte_stream bf_inv content room WriteAndPush ReadStringAndPop
proof unfold_locales
  show "\<exists>b'. WriteAndPush b xs = Inr b' \<and> bf_inv b' \<and> content b' = content b @ xs"
    if "bf_inv b" "room b (length xs)" for b xs
    using WriteAndPush_ok [OF that] by blast
  show "\<exists>b'. ReadStringAndPop b n = Inr (take (unat n) (content b), b') \<and> bf_inv b' \<and>
      content b' = drop (unat n) (content b)"
    if "bf_inv b" "0 < unat n" "unat n \<le> length (content b)" for b n
    using ReadStringAndPop_ok [OF that] by blast
qed

text \<open>Copying one buffer to the end of another.\<close>

lemma WriteBufferAndPush_ok:
  assumes "bf_inv b" "bf_inv b2" "room b (length (content b2))"
  shows "\<exists>b'. WriteBufferAndPush b b2 = Inr b' \<and> bf_inv b' \<and> content b' = content b @ content b2"
  using bs.app_ok [OF assms(1,3)] peek_ok [OF assms(2), of "ReadableSize b2"] ReadableSize_content [OF assms(2)]
  by (simp add: WriteBufferAndPush_def)

section \<open>Properties\<close>

text \<open>C13: the buffer is a first-in first-out stream: along any sequence of writes that fit and of
  reads of at most what is there, every call returns, and the bytes read followed by the bytes
  left are the bytes first there followed by the bytes written, whether the write indices were
  moved back, the vector grew or neither.\<close>

theorem Buffer_fifo:
  assumes "bf_inv b" "admissible room content WriteAndPush ReadStringAndPop ops b"
  shows "\<exists>out b'. stream_run WriteAndPush ReadStringAndPop ops b = Inr (out, b') \<and> bf_inv b' \<and>
    out @ content b' = content b @ put_bytes ops"
  using assms by (rule bs.stream_fifo)

lemma Buffer_fifo_witness:
  "\<exists>out b'. stream_run WriteAndPush ReadStringAndPop [Put ''hello'', Get 2, Put ''!''] bf_new = Inr (out, b') \<and>
     out @ content b' = ''hello!''"
proof -
  have r: "room bf_new (length ''hello'')"
    by (simp add: room_def bf_new_def default_size_def)
  obtain b1 where b1: "WriteAndPush bf_new ''hello'' = Inr b1" "bf_inv b1" "content b1 = ''hello''"
      "length (bf_data b1) \<le> 2 * length (bf_data bf_new) + 5"
    using WriteAndPush_ok [OF bf_new_inv(1), of "''hello''"] r by auto
  obtain b2 where b2: "ReadStringAndPop b1 2 = Inr (''he'', b2)" "bf_inv b2" "content b2 = ''llo''" "bf_data b2 = bf_data b1"
    using ReadStringAndPop_ok [OF b1(2), of 2] b1(3) by auto
  have l: "length (bf_data b2) \<le> 2053"
    using b1(4) b2(4) by (simp add: bf_new_def default_size_def)
  have "admissible room content WriteAndPush ReadStringAndPop [Put ''hello'', Get 2, Put ''!''] bf_new"
    using b1(1,3) b2(1) l by (simp add: room_def bf_new_def default_size_def split: sum.split)
  from Buffer_fifo [OF bf_new_inv(1) this] show ?thesis
    by (auto simp: put_bytes_def)
qed

text \<open>\<open>GetLineAndPop\<close> on a buffer that holds a line feed returns exactly the bytes up to and with
  the first one and leaves the rest; on a buffer without one the assertion fails, so a caller
  must look for the line first.\<close>

theorem GetLineAndPop_spec:
  assumes "bf_inv b"
  shows "(\<exists>l r b'. content b = l @ CHR 0x0A # r \<and> CHR 0x0A \<notin> set l \<and>
       GetLineAndPop b = Inr (l @ [CHR 0x0A], b') \<and> bf_inv b' \<and> content b' = r) \<or>
    CHR 0x0A \<notin> set (content b) \<and> GetLine b = Inr [] \<and> GetLineAndPop b = Inl AssertFailed"
proof (cases "CHR 0x0A \<in> set (content b)")
  case True
  then obtain l r where c: "content b = l @ CHR 0x0A # r" "CHR 0x0A \<notin> set l"
    using split_list_first by fastforce
  have f: "first_line (content b) = l @ [CHR 0x0A]"
    using first_line_append [OF c(2), of r] c(1) by simp
  obtain b' where "GetLineAndPop b = Inr (l @ [CHR 0x0A], b')" "bf_inv b'" "content b' = r"
    using GetLineAndPop_ok [OF assms True] c(1) f by auto
  then show ?thesis
    using c by blast
next
  case False
  then show ?thesis
    using GetLine_ok [OF assms] GetLineAndPop_none [OF assms] first_line_none by simp
qed

lemma GetLineAndPop_spec_witness:
  "GetLine bf_new = Inr [] \<and> GetLineAndPop bf_new = Inl AssertFailed"
  using GetLineAndPop_spec [of bf_new] by simp

end
