(* ===== verification/Timer_Wheel.thy ===== *)
theory Timer_Wheel
  imports Prelude "HOL-Library.Multiset"
begin

text \<open>
  \<open>TimerTask\<close> and \<open>TimerWheel\<close> of \<open>muduo/server.hpp\<close>. The wheel's slots hold shared pointers to
  the tasks; refreshing a task adds a pointer in a later slot, and the task runs in its
  destructor, when the last pointer goes. A shared pointer is the handle of its task: the task
  is alive while a slot holds the handle, and \<open>lock()\<close> of a weak pointer succeeds while it is.
  What a timer function does is the caller's: a call of it is logged in \<open>tw_fired\<close>.
  The refinement at the end forgets the slots: the ids name tasks, and a task has a number of
  ticks left.
\<close>

section \<open>The code\<close>

record task =
  tt_id :: u64
  tt_timeout :: u32
  tt_cancel :: bool

record wheel =
  tw_tick :: nat
  tw_record :: "u64 \<Rightarrow> nat option"
  tw_wheels :: "nat list list"
  tw_tasks :: "nat \<Rightarrow> task option"
  tw_next :: nat
  tw_fired :: "u64 list"

definition tw_capacity :: nat where
  "tw_capacity = 60"

definition tw_new :: wheel where
  "tw_new = \<lparr>tw_tick = 0, tw_record = Map.empty, tw_wheels = replicate tw_capacity [],
     tw_tasks = Map.empty, tw_next = 0, tw_fired = []\<rparr>"

definition IfExists :: "wheel \<Rightarrow> u64 \<Rightarrow> bool" where
  "IfExists w i = (tw_record w i \<noteq> None)"

definition RemoveFromTimerWheel :: "u64 \<Rightarrow> wheel \<Rightarrow> wheel" where
  "RemoveFromTimerWheel i w = (if IfExists w i then w\<lparr>tw_record := (tw_record w)(i := None)\<rparr> else w)"

text \<open>The destructor of a task: the timer function unless cancelled, then the release function.\<close>

definition destroy_task :: "nat \<Rightarrow> wheel \<Rightarrow> wheel" where
  "destroy_task h w =
     (case tw_tasks w h of
        None \<Rightarrow> w
      | Some t \<Rightarrow>
          let w1 = w\<lparr>tw_tasks := (tw_tasks w)(h := None)\<rparr>;
              w2 = (if \<not> tt_cancel t then w1\<lparr>tw_fired := tw_fired w1 @ [tt_id t]\<rparr> else w1)
          in RemoveFromTimerWheel (tt_id t) w2)"

text \<open>\<open>(_tick + timeout) % _capacity\<close> is unsigned 32-bit arithmetic.\<close>

definition slot_of :: "wheel \<Rightarrow> u32 \<Rightarrow> nat" where
  "slot_of w timeout = unat ((of_nat (tw_tick w) + timeout) mod of_nat tw_capacity)"

definition push_slot :: "wheel \<Rightarrow> nat \<Rightarrow> nat \<Rightarrow> wheel" where
  "push_slot w k h = w\<lparr>tw_wheels := (tw_wheels w)[k := h # (tw_wheels w ! k)]\<rparr>"

definition SetTimerTask :: "wheel \<Rightarrow> u64 \<Rightarrow> u32 \<Rightarrow> wheel" where
  "SetTimerTask w i timeout =
     (if \<not> IfExists w i then
        let h = tw_next w;
            w1 = w\<lparr>tw_tasks := (tw_tasks w)(h := Some \<lparr>tt_id = i, tt_timeout = timeout, tt_cancel = False\<rparr>),
                   tw_next := Suc h\<rparr>;
            w2 = push_slot w1 (slot_of w1 timeout) h
        in w2\<lparr>tw_record := (tw_record w2)(i := Some h)\<rparr>
      else w)"

definition RefreshTimerTask :: "wheel \<Rightarrow> u64 \<Rightarrow> wheel" where
  "RefreshTimerTask w i =
     (case tw_record w i of
        None \<Rightarrow> w
      | Some h \<Rightarrow> (case tw_tasks w h of
          None \<Rightarrow> w
        | Some t \<Rightarrow> push_slot w (slot_of w (tt_timeout t)) h))"

definition RemoveTimerTask :: "wheel \<Rightarrow> u64 \<Rightarrow> wheel" where
  "RemoveTimerTask w i =
     (case tw_record w i of
        None \<Rightarrow> w
      | Some h \<Rightarrow>
          let w1 = (case tw_tasks w h of
                      None \<Rightarrow> w
                    | Some t \<Rightarrow> w\<lparr>tw_tasks := (tw_tasks w)(h := Some (t\<lparr>tt_cancel := True\<rparr>))\<rparr>)
          in w1\<lparr>tw_record := (tw_record w1)(i := None)\<rparr>)"

text \<open>\<open>list::clear\<close> drops the pointers of a slot from the front; a task whose last pointer goes
  is destroyed.\<close>

primrec drop_refs :: "nat list \<Rightarrow> wheel \<Rightarrow> wheel" where
  "drop_refs [] w = w"
| "drop_refs (h # hs) w =
     drop_refs hs (if h \<in> set hs \<or> h \<in> set (concat (tw_wheels w)) then w else destroy_task h w)"

definition Tick1 :: "wheel \<Rightarrow> wheel" where
  "Tick1 w =
     (let t = (tw_tick w + 1) mod tw_capacity
      in drop_refs (tw_wheels w ! t) (w\<lparr>tw_tick := t, tw_wheels := (tw_wheels w)[t := []]\<rparr>))"

text \<open>\<open>while (nums--)\<close> does not end for a negative number.\<close>

definition Tick :: "i32 \<Rightarrow> wheel \<Rightarrow> wheel res" where
  "Tick nums w = (if sint nums < 0 then Inl NoFuel else Inr ((Tick1 ^^ nat (sint nums)) w))"

section \<open>The invariant\<close>

definition tw_inv :: "wheel \<Rightarrow> bool" where
  "tw_inv w \<longleftrightarrow> length (tw_wheels w) = 60 \<and> tw_tick w < 60 \<and>
     set (concat (tw_wheels w)) = dom (tw_tasks w) \<and>
     (\<forall>h \<in> dom (tw_tasks w). h < tw_next w) \<and>
     (\<forall>i h. tw_record w i = Some h \<longrightarrow> (\<exists>t. tw_tasks w h = Some t \<and> tt_id t = i \<and> \<not> tt_cancel t))"

lemma tw_invD:
  assumes "tw_inv w"
  shows "length (tw_wheels w) = 60" "tw_tick w < 60" "set (concat (tw_wheels w)) = dom (tw_tasks w)"
    "h \<in> dom (tw_tasks w) \<Longrightarrow> h < tw_next w"
    "tw_record w i = Some h \<Longrightarrow> \<exists>t. tw_tasks w h = Some t \<and> tt_id t = i \<and> \<not> tt_cancel t"
  using assms by (simp_all add: tw_inv_def)

lemma tw_new_inv: "tw_inv tw_new"
  by (simp add: tw_inv_def tw_new_def tw_capacity_def)

lemma set_concat_update:
  "k < length xss \<Longrightarrow> set (concat (xss[k := h # (xss ! k)])) = insert h (set (concat xss))"
  by (induction xss arbitrary: k) (auto split: nat.split)

lemma slot_of_less: "slot_of w t < 60"
proof -
  have "unat ((of_nat (tw_tick w) + t) mod (60 :: u32)) = unat (of_nat (tw_tick w) + t) mod 60"
    by (simp add: unat_mod)
  then show ?thesis
    by (simp add: slot_of_def tw_capacity_def)
qed

lemma slot_of_eq:
  assumes "tw_tick w < 60" "unat t < 4294967236"
  shows "slot_of w t = (tw_tick w + unat t) mod 60"
proof -
  have n: "unat (of_nat (tw_tick w) :: u32) = tw_tick w"
    using assms(1) by (simp add: unat_of_nat)
  have "unat (of_nat (tw_tick w) + t) = tw_tick w + unat t"
    using assms n unat_add_lem [of "of_nat (tw_tick w) :: u32" t] by simp
  then show ?thesis
    by (simp add: slot_of_def tw_capacity_def unat_mod)
qed

lemma push_slot_inv:
  assumes "tw_inv w" "k < 60" "h \<in> dom (tw_tasks w)"
  shows "tw_inv (push_slot w k h)"
  using assms set_concat_update [of k "tw_wheels w" h]
  by (auto simp: tw_inv_def push_slot_def insert_absorb)

lemma SetTimerTask_inv:
  assumes inv: "tw_inv w"
  shows "tw_inv (SetTimerTask w i timeout)"
proof (cases "IfExists w i")
  case False
  let ?h = "tw_next w"
  let ?ts = "(tw_tasks w)(?h := Some \<lparr>tt_id = i, tt_timeout = timeout, tt_cancel = False\<rparr>)"
  have h: "?h \<notin> dom (tw_tasks w)"
    using tw_invD(4) [OF inv] by blast
  have "set (concat ((tw_wheels w)[slot_of w timeout := ?h # (tw_wheels w ! slot_of w timeout)])) =
      insert ?h (dom (tw_tasks w))"
    using set_concat_update [of "slot_of w timeout" "tw_wheels w" ?h] slot_of_less tw_invD(1,3) [OF inv] by simp
  moreover have "\<forall>h' \<in> insert ?h (dom (tw_tasks w)). h' < Suc ?h"
    using tw_invD(4) [OF inv] less_SucI by blast
  moreover have "\<exists>t. ?ts h' = Some t \<and> tt_id t = j \<and> \<not> tt_cancel t" if "((tw_record w)(i := Some ?h)) j = Some h'" for j h'
  proof (cases "j = i")
    case True
    then show ?thesis using that by auto
  next
    case False
    then have "tw_record w j = Some h'"
      using that by simp
    then show ?thesis
      using tw_invD(5) [OF inv] h by fastforce
  qed
  ultimately show ?thesis
    using tw_invD(1,2) [OF inv] False
    by (simp add: SetTimerTask_def Let_def tw_inv_def push_slot_def slot_of_def)
qed (simp add: SetTimerTask_def inv)

lemma RefreshTimerTask_inv:
  assumes inv: "tw_inv w"
  shows "tw_inv (RefreshTimerTask w i)"
  using inv push_slot_inv [OF inv slot_of_less]
  by (auto simp: RefreshTimerTask_def dom_def split: option.split)

lemma RemoveTimerTask_inv:
  assumes inv: "tw_inv w"
  shows "tw_inv (RemoveTimerTask w i)"
proof (cases "tw_record w i")
  case (Some h)
  then obtain t where t: "tw_tasks w h = Some t" "tt_id t = i"
    using tw_invD(5) [OF inv] by blast
  have "\<exists>t'. ((tw_tasks w)(h := Some (t\<lparr>tt_cancel := True\<rparr>))) h' = Some t' \<and> tt_id t' = j \<and> \<not> tt_cancel t'"
    if j: "((tw_record w)(i := None)) j = Some h'" for j h'
  proof -
    have "j \<noteq> i" "tw_record w j = Some h'"
      using j by (auto split: if_splits)
    then obtain t' where "tw_tasks w h' = Some t'" "tt_id t' = j" "\<not> tt_cancel t'"
      using tw_invD(5) [OF inv] by blast
    moreover have "h' \<noteq> h"
      using calculation t \<open>j \<noteq> i\<close> by auto
    ultimately show ?thesis by simp
  qed
  moreover have "insert h (dom (tw_tasks w)) = dom (tw_tasks w)"
    using t by blast
  ultimately show ?thesis
    using Some t tw_invD(1-4) [OF inv] by (simp add: RemoveTimerTask_def tw_inv_def)
qed (simp add: RemoveTimerTask_def inv)

section \<open>One tick\<close>

lemma destroy_task_wheels [simp]:
  "tw_wheels (destroy_task h w) = tw_wheels w" "tw_tick (destroy_task h w) = tw_tick w"
  "tw_next (destroy_task h w) = tw_next w" "tw_tasks (destroy_task h w) = (tw_tasks w)(h := None)"
  by (auto simp: destroy_task_def RemoveFromTimerWheel_def Let_def split: option.split)

lemma destroy_task_fired:
  "tw_fired (destroy_task h w) = tw_fired w @
     (case tw_tasks w h of None \<Rightarrow> [] | Some t \<Rightarrow> if tt_cancel t then [] else [tt_id t])"
  by (simp add: destroy_task_def RemoveFromTimerWheel_def Let_def split: option.split)

lemma destroy_task_record:
  "tw_record (destroy_task h w) =
     (case tw_tasks w h of None \<Rightarrow> tw_record w | Some t \<Rightarrow> (tw_record w)(tt_id t := None))"
  by (auto simp: destroy_task_def RemoveFromTimerWheel_def IfExists_def Let_def split: option.split)

text \<open>A timer function may remove the timer that is running, as \<open>Connection::ReleaseInLoop\<close> does
  (through \<open>CancelInactiveReleaseInLoop\<close>): its task is gone by then, so that only erases the
  name, which the release function would erase next.\<close>

lemma destroy_task_release:
  assumes "tw_tasks w h = Some t" "\<not> tt_cancel t" "tw_record w (tt_id t) \<in> {None, Some h}"
  shows "destroy_task h w = RemoveFromTimerWheel (tt_id t) (RemoveTimerTask
    (w\<lparr>tw_tasks := (tw_tasks w)(h := None), tw_fired := tw_fired w @ [tt_id t]\<rparr>) (tt_id t))"
  using assms
  by (auto simp: destroy_task_def RemoveFromTimerWheel_def RemoveTimerTask_def IfExists_def Let_def)

definition dying :: "nat list \<Rightarrow> wheel \<Rightarrow> nat list" where
  "dying hs w = filter (\<lambda>h. h \<notin> set (concat (tw_wheels w))) (remdups hs)"

definition fire_ids :: "wheel \<Rightarrow> nat list \<Rightarrow> u64 list" where
  "fire_ids w hs = concat (map (\<lambda>h. case tw_tasks w h of None \<Rightarrow> [] | Some t \<Rightarrow> if tt_cancel t then [] else [tt_id t]) hs)"

lemma drop_refs_fold: "drop_refs hs w = fold destroy_task (dying hs w) w"
  by (induction hs arbitrary: w) (simp_all add: dying_def)

lemma fold_destroy:
  "tw_wheels (fold destroy_task hs w) = tw_wheels w"
  "tw_tick (fold destroy_task hs w) = tw_tick w"
  "tw_next (fold destroy_task hs w) = tw_next w"
  "tw_tasks (fold destroy_task hs w) = (\<lambda>h. if h \<in> set hs then None else tw_tasks w h)"
  by (induction hs arbitrary: w) (auto simp: fun_eq_iff)

lemma fold_destroy_fired:
  "distinct hs \<Longrightarrow> tw_fired (fold destroy_task hs w) = tw_fired w @ fire_ids w hs"
proof (induction hs arbitrary: w)
  case (Cons h hs)
  have "fire_ids (destroy_task h w) hs = fire_ids w hs"
    using Cons.prems by (auto simp: fire_ids_def intro!: arg_cong [of _ _ concat])
  then show ?case
    using Cons by (simp add: destroy_task_fired fire_ids_def)
qed (simp add: fire_ids_def)

lemma fold_destroy_record:
  "distinct hs \<Longrightarrow> tw_record (fold destroy_task hs w) i = Some h \<Longrightarrow>
   tw_record w i = Some h \<and> (\<forall>h' \<in> set hs. \<forall>t. tw_tasks w h' = Some t \<longrightarrow> tt_id t \<noteq> i)"
proof (induction hs arbitrary: w)
  case (Cons a hs)
  have "tw_record (destroy_task a w) i = Some h \<and>
      (\<forall>h' \<in> set hs. \<forall>t. tw_tasks (destroy_task a w) h' = Some t \<longrightarrow> tt_id t \<noteq> i)"
    using Cons by simp
  then show ?case
    using Cons.prems(1) by (auto simp: destroy_task_record split: option.splits if_splits)
qed simp

definition cleared :: "wheel \<Rightarrow> wheel" where
  "cleared w = w\<lparr>tw_tick := (tw_tick w + 1) mod 60, tw_wheels := (tw_wheels w)[(tw_tick w + 1) mod 60 := []]\<rparr>"

definition due_now :: "wheel \<Rightarrow> nat list" where
  "due_now w = dying (tw_wheels w ! ((tw_tick w + 1) mod 60)) (cleared w)"

lemma Tick1_fold: "Tick1 w = fold destroy_task (due_now w) (cleared w)"
  by (simp add: Tick1_def Let_def drop_refs_fold due_now_def cleared_def tw_capacity_def)

lemma due_now_distinct: "distinct (due_now w)"
  by (simp add: due_now_def dying_def)

lemma set_concat_clear:
  "k < length xss \<Longrightarrow> set (concat xss) = set (xss ! k) \<union> set (concat (xss[k := []]))"
  by (induction xss arbitrary: k) (auto split: nat.split)

lemma Tick1_inv:
  assumes inv: "tw_inv w"
  shows "tw_inv (Tick1 w)"
proof -
  note d = tw_invD [OF inv]
  let ?k = "(tw_tick w + 1) mod 60"
  have s: "set (concat (tw_wheels w)) = set (tw_wheels w ! ?k) \<union> set (concat (tw_wheels (cleared w)))"
    using set_concat_clear [of ?k "tw_wheels w"] d(1) by (simp add: cleared_def)
  have "set (concat (tw_wheels (cleared w))) = dom (tw_tasks w) - set (due_now w)"
    using s d(3) by (auto simp: due_now_def dying_def)
  moreover have "dom (tw_tasks (Tick1 w)) = dom (tw_tasks w) - set (due_now w)"
    by (auto simp: Tick1_fold fold_destroy cleared_def split: if_splits)
  moreover have "\<exists>t. tw_tasks (Tick1 w) h = Some t \<and> tt_id t = i \<and> \<not> tt_cancel t"
    if r: "tw_record (Tick1 w) i = Some h" for i h
  proof -
    have o: "tw_record w i = Some h" "\<forall>h' \<in> set (due_now w). \<forall>t. tw_tasks w h' = Some t \<longrightarrow> tt_id t \<noteq> i"
      using fold_destroy_record [OF due_now_distinct r [unfolded Tick1_fold]] by (simp_all add: cleared_def)
    obtain t where t: "tw_tasks w h = Some t" "tt_id t = i" "\<not> tt_cancel t"
      using d(5) [OF o(1)] by blast
    then have "h \<notin> set (due_now w)"
      using o(2) by blast
    then show ?thesis
      using t by (simp add: Tick1_fold fold_destroy cleared_def)
  qed
  moreover have "tw_wheels (Tick1 w) = tw_wheels (cleared w)" "tw_tick (Tick1 w) = ?k" "tw_next (Tick1 w) = tw_next w"
    by (simp_all add: Tick1_fold fold_destroy) (simp_all add: cleared_def)
  ultimately show ?thesis
    using d(1,4) unfolding tw_inv_def by (simp add: cleared_def)
qed

section \<open>The ticks a task has left\<close>

definition in_slot :: "wheel \<Rightarrow> nat \<Rightarrow> nat \<Rightarrow> bool" where
  "in_slot w h d \<longleftrightarrow> h \<in> set (tw_wheels w ! ((tw_tick w + d) mod 60))"

definition ticks_left :: "wheel \<Rightarrow> nat \<Rightarrow> nat" where
  "ticks_left w h = Max (insert 0 (set (filter (in_slot w h) [1..<61])))"

lemma ticks_left_le: "ticks_left w h \<le> n \<longleftrightarrow> (\<forall>d. 1 \<le> d \<and> d \<le> 60 \<and> in_slot w h d \<longrightarrow> d \<le> n)"
  by (auto simp: ticks_left_def)

lemma eq_by_bounds: "(\<And>n :: nat. a \<le> n \<longleftrightarrow> b \<le> n) \<Longrightarrow> a = b"
  by (meson order_antisym order_refl)

lemma slot_distance:
  assumes "k < 60" "t < 60"
  shows "\<exists>d. 1 \<le> d \<and> d \<le> 60 \<and> (t + d) mod 60 = (k :: nat)"
  using assms by (intro exI [of _ "if t < k then k - t else k + 60 - t"]) (auto simp: mod_if)

lemma ticks_left_0:
  assumes "length (tw_wheels w) = 60" "tw_tick w < 60"
  shows "ticks_left w h = 0 \<longleftrightarrow> h \<notin> set (concat (tw_wheels w))"
proof -
  have "ticks_left w h \<le> 0 \<longleftrightarrow> (\<forall>d. 1 \<le> d \<and> d \<le> 60 \<longrightarrow> \<not> in_slot w h d)"
    unfolding ticks_left_le by auto
  also have "\<dots> \<longleftrightarrow> (\<forall>k < 60. h \<notin> set (tw_wheels w ! k))"
    using slot_distance [OF _ assms(2)] unfolding in_slot_def by (metis mod_less_divisor zero_less_numeral)
  also have "\<dots> \<longleftrightarrow> h \<notin> set (concat (tw_wheels w))"
    using assms(1) by (auto simp: set_conv_nth [of "tw_wheels w"])
  finally show ?thesis by simp
qed

lemma ticks_left_cleared:
  assumes "length (tw_wheels w) = 60" "tw_tick w < 60"
  shows "ticks_left (cleared w) h = ticks_left w h - 1"
proof (rule eq_by_bounds)
  fix n
  have s: "in_slot (cleared w) h d \<longleftrightarrow> d \<noteq> 60 \<and> in_slot w h (Suc d)" if d: "1 \<le> d" "d \<le> 60" for d
  proof (cases "d = 60")
    case True
    then show ?thesis
      using assms by (simp add: in_slot_def cleared_def)
  next
    case False
    have "((tw_tick w + 1) mod 60 + d) mod 60 = (tw_tick w + Suc d) mod 60"
      by (simp add: mod_add_left_eq)
    moreover have "(tw_tick w + Suc d) mod 60 \<noteq> (tw_tick w + 1) mod 60"
      using assms(2) d False by (auto simp: mod_if split: if_splits)
    ultimately show ?thesis
      using False by (simp add: in_slot_def cleared_def)
  qed
  have "ticks_left (cleared w) h \<le> n \<longleftrightarrow> (\<forall>d. 1 \<le> d \<and> d \<le> 60 \<and> d \<noteq> 60 \<and> in_slot w h (Suc d) \<longrightarrow> d \<le> n)"
    unfolding ticks_left_le using s by metis
  also have "\<dots> \<longleftrightarrow> (\<forall>e. 1 \<le> e \<and> e \<le> 60 \<and> in_slot w h e \<longrightarrow> e \<le> Suc n)" (is "?l \<longleftrightarrow> ?r")
  proof
    assume l: ?l
    show ?r
    proof (intro allI impI)
      fix e
      assume e: "1 \<le> e \<and> e \<le> 60 \<and> in_slot w h e"
      show "e \<le> Suc n"
      proof (cases "e = 1")
        case False
        then have "1 \<le> e - 1 \<and> e - 1 \<le> 60 \<and> e - 1 \<noteq> 60 \<and> in_slot w h (Suc (e - 1))"
          using e by auto
        then have "e - 1 \<le> n"
          using l by blast
        then show ?thesis by simp
      qed simp
    qed
  next
    assume r: ?r
    show ?l
    proof (intro allI impI)
      fix d
      assume d: "1 \<le> d \<and> d \<le> 60 \<and> d \<noteq> 60 \<and> in_slot w h (Suc d)"
      have "Suc d \<le> Suc n"
        by (rule r [rule_format]) (use d in auto)
      then show "d \<le> n" by simp
    qed
  qed
  also have "\<dots> \<longleftrightarrow> ticks_left w h - 1 \<le> n"
    unfolding ticks_left_le [symmetric] by auto
  finally show "ticks_left (cleared w) h \<le> n \<longleftrightarrow> ticks_left w h - 1 \<le> n" .
qed

lemma ticks_left_push:
  assumes "length (tw_wheels w) = 60" "1 \<le> d" "d \<le> 60" and t: "tw_tick w < 60"
  shows "ticks_left (push_slot w ((tw_tick w + d) mod 60) h) h' =
    (if h' = h then max (ticks_left w h) d else ticks_left w h')"
proof (rule eq_by_bounds)
  fix n
  have m: "(tw_tick w + e) mod 60 = (tw_tick w + d) mod 60 \<longleftrightarrow> e = d" if "1 \<le> e" "e \<le> 60" for e
    using that assms(2,3) t by (auto simp: mod_if split: if_splits)
  have s: "in_slot (push_slot w ((tw_tick w + d) mod 60) h) h' e \<longleftrightarrow> in_slot w h' e \<or> h' = h \<and> e = d"
    if "1 \<le> e" "e \<le> 60" for e
    using m [OF that] assms(1) by (cases "e = d") (auto simp: in_slot_def push_slot_def)
  show "ticks_left (push_slot w ((tw_tick w + d) mod 60) h) h' \<le> n \<longleftrightarrow>
      (if h' = h then max (ticks_left w h) d else ticks_left w h') \<le> n"
  proof (cases "h' = h")
    case True
    have "ticks_left (push_slot w ((tw_tick w + d) mod 60) h) h \<le> n \<longleftrightarrow> ticks_left w h \<le> n \<and> d \<le> n"
      unfolding ticks_left_le using s assms(2,3) True by auto
    then show ?thesis
      using True by simp
  next
    case False
    then show ?thesis
      unfolding if_not_P [OF False] ticks_left_le using s by auto
  qed
qed

section \<open>The abstract timers\<close>

text \<open>An abstract timer set maps a handle to its task and the ticks left, and a timeout counts
  modulo the 60 slots.\<close>

type_synonym timers = "nat \<Rightarrow> (task \<times> nat) option"

definition tw_abs :: "wheel \<Rightarrow> timers" where
  "tw_abs w = (\<lambda>h. map_option (\<lambda>t. (t, ticks_left w h)) (tw_tasks w h))"

definition delay :: "u32 \<Rightarrow> nat" where
  "delay timeout = (if unat timeout mod 60 = 0 then 60 else unat timeout mod 60)"

definition spec_tick :: "timers \<Rightarrow> timers" where
  "spec_tick A = (\<lambda>h. case A h of None \<Rightarrow> None | Some (t, d) \<Rightarrow> if d = 1 then None else Some (t, d - 1))"

lemma delay_bounds: "1 \<le> delay t \<and> delay t \<le> 60"
  by (auto simp: delay_def less_imp_le)

lemma slot_of_delay:
  assumes "tw_tick w < 60" "unat t < 4294967236"
  shows "slot_of w t = (tw_tick w + delay t) mod 60"
proof -
  have "(tw_tick w + unat t) mod 60 = (tw_tick w + unat t mod 60) mod 60"
    by (simp only: mod_add_right_eq)
  then show ?thesis
    unfolding slot_of_eq [OF assms] delay_def by simp
qed

lemma ticks_left_pos:
  assumes "tw_inv w" "tw_tasks w h = Some t"
  shows "1 \<le> ticks_left w h"
proof -
  have "h \<in> set (concat (tw_wheels w))"
    using assms tw_invD(3) by blast
  then have "ticks_left w h \<noteq> 0"
    using ticks_left_0 tw_invD(1,2) [OF assms(1)] by blast
  then show ?thesis by simp
qed

lemma due_now_iff:
  assumes inv: "tw_inv w"
  shows "h \<in> set (due_now w) \<longleftrightarrow> (\<exists>t. tw_abs w h = Some (t, 1))"
proof -
  note d = tw_invD [OF inv]
  let ?k = "(tw_tick w + 1) mod 60"
  have c: "length (tw_wheels (cleared w)) = 60" "tw_tick (cleared w) < 60"
    using d(1) by (simp_all add: cleared_def)
  have s: "set (concat (tw_wheels w)) = set (tw_wheels w ! ?k) \<union> set (concat (tw_wheels (cleared w)))"
    using set_concat_clear [of ?k "tw_wheels w"] d(1) by (simp add: cleared_def)
  have "h \<in> set (due_now w) \<longleftrightarrow> h \<in> set (tw_wheels w ! ?k) \<and> h \<notin> set (concat (tw_wheels (cleared w)))"
    by (auto simp: due_now_def dying_def)
  also have "\<dots> \<longleftrightarrow> h \<in> dom (tw_tasks w) \<and> ticks_left w h - 1 = 0"
    using s d(3) ticks_left_0 [OF c] ticks_left_cleared [OF d(1,2)] by (metis UnE UnI1)
  also have "\<dots> \<longleftrightarrow> (\<exists>t. tw_abs w h = Some (t, 1))"
    using ticks_left_pos [OF inv] by (fastforce simp: tw_abs_def)
  finally show ?thesis .
qed

lemma Tick1_abs:
  assumes inv: "tw_inv w"
  shows "tw_abs (Tick1 w) = spec_tick (tw_abs w)"
proof
  fix h
  note d = tw_invD [OF inv]
  have l: "ticks_left (Tick1 w) h = ticks_left w h - 1"
  proof -
    have "ticks_left (Tick1 w) h = ticks_left (cleared w) h"
      by (simp add: ticks_left_def in_slot_def [abs_def] Tick1_fold fold_destroy)
    then show ?thesis
      using ticks_left_cleared [OF d(1,2)] by simp
  qed
  show "tw_abs (Tick1 w) h = spec_tick (tw_abs w) h"
    using l due_now_iff [OF inv, of h]
    by (auto simp: tw_abs_def spec_tick_def Tick1_fold fold_destroy cleared_def split: option.splits)
qed

lemma Tick1_fired: "tw_fired (Tick1 w) = tw_fired w @ fire_ids w (due_now w)"
proof -
  have "fire_ids (cleared w) (due_now w) = fire_ids w (due_now w)"
    by (simp add: fire_ids_def cleared_def)
  then show ?thesis
    by (simp add: Tick1_fold fold_destroy_fired [OF due_now_distinct]) (simp add: cleared_def)
qed

lemma Set_abs:
  assumes inv: "tw_inv w" and e: "\<not> IfExists w i" and t: "unat timeout < 4294967236"
  shows "tw_abs (SetTimerTask w i timeout) =
    (tw_abs w)(tw_next w \<mapsto> (\<lparr>tt_id = i, tt_timeout = timeout, tt_cancel = False\<rparr>, delay timeout))"
proof
  fix h
  note d = tw_invD [OF inv]
  let ?k = "(tw_tick w + delay timeout) mod 60"
  let ?w1 = "w\<lparr>tw_tasks := (tw_tasks w)(tw_next w := Some \<lparr>tt_id = i, tt_timeout = timeout, tt_cancel = False\<rparr>),
    tw_next := Suc (tw_next w)\<rparr>"
  have n: "ticks_left w (tw_next w) = 0"
    using d(3,4) ticks_left_0 [OF d(1,2)] by blast
  have k: "slot_of ?w1 timeout = ?k"
    using slot_of_delay [of ?w1 timeout] d(2) t by simp
  have "ticks_left (SetTimerTask w i timeout) h = ticks_left (push_slot ?w1 ?k (tw_next w)) h"
    using e k by (simp add: SetTimerTask_def Let_def ticks_left_def in_slot_def [abs_def])
  also have "\<dots> = (if h = tw_next w then max (ticks_left ?w1 h) (delay timeout) else ticks_left ?w1 h)"
    using ticks_left_push [of ?w1 "delay timeout" "tw_next w" h] d(1,2) delay_bounds [of timeout] by simp
  also have "ticks_left ?w1 h = ticks_left w h"
    by (simp add: ticks_left_def in_slot_def [abs_def])
  finally show "tw_abs (SetTimerTask w i timeout) h =
      ((tw_abs w)(tw_next w \<mapsto> (\<lparr>tt_id = i, tt_timeout = timeout, tt_cancel = False\<rparr>, delay timeout))) h"
    using n e by (simp add: tw_abs_def SetTimerTask_def Let_def push_slot_def)
qed

lemma Refresh_abs:
  assumes inv: "tw_inv w" and r: "tw_record w i = Some h" and a: "tw_abs w h = Some (t, d)"
    and t: "unat (tt_timeout t) < 4294967236"
  shows "tw_abs (RefreshTimerTask w i) = (tw_abs w)(h \<mapsto> (t, max d (delay (tt_timeout t))))"
proof
  fix h'
  note v = tw_invD [OF inv]
  have ts: "tw_tasks w h = Some t" "ticks_left w h = d"
    using a by (auto simp: tw_abs_def)
  have "RefreshTimerTask w i = push_slot w ((tw_tick w + delay (tt_timeout t)) mod 60) h"
    using r ts(1) slot_of_delay [OF v(2) t] by (simp add: RefreshTimerTask_def)
  then show "tw_abs (RefreshTimerTask w i) h' = ((tw_abs w)(h \<mapsto> (t, max d (delay (tt_timeout t))))) h'"
    using ticks_left_push [OF v(1) _ _ v(2), of "delay (tt_timeout t)" h h'] delay_bounds [of "tt_timeout t"] ts
    by (simp add: tw_abs_def) (simp add: push_slot_def)
qed

lemma Remove_abs:
  assumes r: "tw_record w i = Some h" and a: "tw_abs w h = Some (t, d)"
  shows "tw_abs (RemoveTimerTask w i) = (tw_abs w)(h \<mapsto> (t\<lparr>tt_cancel := True\<rparr>, d))"
  using r a by (auto simp: fun_eq_iff tw_abs_def RemoveTimerTask_def ticks_left_def in_slot_def [abs_def])

section \<open>The abstract timers\<close>

text \<open>
  What a user of the wheel sees, without slots: the names the ids have (\<open>_timers_record\<close>), the
  tasks with the ticks they have left, the number of tasks made so far and the ids that ran.
  An operation on an id reaches the task the id names. A tick takes one from what every task has left; a
  task that had one left runs unless cancelled, is forgotten, and its id loses its name,
  whichever task the id names by then (the release function erases by id).
\<close>

record timers_state =
  ts_names :: "u64 \<Rightarrow> nat option"
  ts_tasks :: timers
  ts_made :: nat
  ts_ran :: "u64 multiset"

datatype timer_op = OpSet u64 u32 | OpRefresh u64 | OpRemove u64 | OpTick

definition ts_new :: timers_state where
  "ts_new = \<lparr>ts_names = Map.empty, ts_tasks = Map.empty, ts_made = 0, ts_ran = {#}\<rparr>"

definition spec_expired :: "timers \<Rightarrow> u64 \<Rightarrow> bool" where
  "spec_expired A i \<longleftrightarrow> (\<exists>h t. A h = Some (t, 1) \<and> tt_id t = i)"

definition spec_fires :: "timers \<Rightarrow> u64 multiset" where
  "spec_fires A = image_mset (\<lambda>h. tt_id (fst (the (A h)))) (mset_set {h. \<exists>t. A h = Some (t, 1) \<and> \<not> tt_cancel t})"

fun spec_op :: "timer_op \<Rightarrow> timers_state \<Rightarrow> timers_state" where
  "spec_op (OpSet i timeout) s =
     (if ts_names s i \<noteq> None then s
      else s\<lparr>ts_names := (ts_names s)(i \<mapsto> ts_made s),
             ts_tasks := (ts_tasks s)(ts_made s \<mapsto>
               (\<lparr>tt_id = i, tt_timeout = timeout, tt_cancel = False\<rparr>, delay timeout)),
             ts_made := Suc (ts_made s)\<rparr>)"
| "spec_op (OpRefresh i) s =
     (case ts_names s i of
        None \<Rightarrow> s
      | Some h \<Rightarrow> (case ts_tasks s h of
          None \<Rightarrow> s
        | Some (t, _) \<Rightarrow> s\<lparr>ts_tasks := (ts_tasks s)(h \<mapsto> (t, delay (tt_timeout t)))\<rparr>))"
| "spec_op (OpRemove i) s =
     (case ts_names s i of
        None \<Rightarrow> s
      | Some h \<Rightarrow> (case ts_tasks s h of
          None \<Rightarrow> s
        | Some (t, d) \<Rightarrow> s\<lparr>ts_names := (ts_names s)(i := None),
                            ts_tasks := (ts_tasks s)(h \<mapsto> (t\<lparr>tt_cancel := True\<rparr>, d))\<rparr>))"
| "spec_op OpTick s =
     s\<lparr>ts_names := (\<lambda>i. if spec_expired (ts_tasks s) i then None else ts_names s i),
       ts_tasks := spec_tick (ts_tasks s),
       ts_ran := ts_ran s + spec_fires (ts_tasks s)\<rparr>"

fun tw_op :: "timer_op \<Rightarrow> wheel \<Rightarrow> wheel" where
  "tw_op (OpSet i timeout) w = SetTimerTask w i timeout"
| "tw_op (OpRefresh i) w = RefreshTimerTask w i"
| "tw_op (OpRemove i) w = RemoveTimerTask w i"
| "tw_op OpTick w = Tick1 w"

definition tw_timers :: "wheel \<Rightarrow> timers_state" where
  "tw_timers w = \<lparr>ts_names = tw_record w, ts_tasks = tw_abs w, ts_made = tw_next w, ts_ran = mset (tw_fired w)\<rparr>"

text \<open>No task has more ticks left than its timeout gives, and its slot is computed without
  wrap-around.\<close>

definition ts_ok :: "timers_state \<Rightarrow> bool" where
  "ts_ok s \<longleftrightarrow> (\<forall>h t d. ts_tasks s h = Some (t, d) \<longrightarrow> d \<le> delay (tt_timeout t) \<and> unat (tt_timeout t) < 4294967236)"

fun op_ok :: "timer_op \<Rightarrow> bool" where
  "op_ok (OpSet _ timeout) = (unat timeout < 4294967236)"
| "op_ok _ = True"

lemma spec_op_ok: "ts_ok s \<Longrightarrow> op_ok op \<Longrightarrow> ts_ok (spec_op op s)"
  by (cases op) (fastforce simp: ts_ok_def spec_tick_def split: option.splits if_splits)+

lemma tw_op_inv: "tw_inv w \<Longrightarrow> tw_inv (tw_op op w)"
  by (cases op) (simp_all add: SetTimerTask_inv RefreshTimerTask_inv RemoveTimerTask_inv Tick1_inv)

lemma fold_destroy_record_eq:
  "distinct hs \<Longrightarrow> tw_record (fold destroy_task hs w) i =
     (if \<exists>h \<in> set hs. \<exists>t. tw_tasks w h = Some t \<and> tt_id t = i then None else tw_record w i)"
proof (induction hs arbitrary: w)
  case (Cons a hs)
  have "(\<exists>h \<in> set hs. \<exists>t. tw_tasks (destroy_task a w) h = Some t \<and> tt_id t = i) \<longleftrightarrow>
      (\<exists>h \<in> set hs. \<exists>t. tw_tasks w h = Some t \<and> tt_id t = i)"
    using Cons.prems by auto
  then show ?case
    using Cons by (auto simp: destroy_task_record split: option.splits)
qed simp

lemma Tick1_record:
  assumes "tw_inv w"
  shows "tw_record (Tick1 w) = (\<lambda>i. if spec_expired (tw_abs w) i then None else tw_record w i)"
proof
  fix i
  have "tw_record (Tick1 w) i =
      (if \<exists>h \<in> set (due_now w). \<exists>t. tw_tasks w h = Some t \<and> tt_id t = i then None else tw_record w i)"
    unfolding Tick1_fold fold_destroy_record_eq [OF due_now_distinct] by (auto simp: cleared_def)
  moreover have "(\<exists>h \<in> set (due_now w). \<exists>t. tw_tasks w h = Some t \<and> tt_id t = i) \<longleftrightarrow> spec_expired (tw_abs w) i"
    using due_now_iff [OF assms] by (auto simp: spec_expired_def tw_abs_def)
  ultimately show "tw_record (Tick1 w) i = (if spec_expired (tw_abs w) i then None else tw_record w i)"
    by simp
qed

lemma mset_fire_ids:
  "distinct hs \<Longrightarrow> mset (fire_ids w hs) =
     image_mset (\<lambda>h. tt_id (the (tw_tasks w h))) (mset_set {h \<in> set hs. \<exists>t. tw_tasks w h = Some t \<and> \<not> tt_cancel t})"
proof (induction hs)
  case (Cons a hs)
  have e: "{h \<in> set (a # hs). \<exists>t. tw_tasks w h = Some t \<and> \<not> tt_cancel t} =
      (if \<exists>t. tw_tasks w a = Some t \<and> \<not> tt_cancel t then insert a else id)
        {h \<in> set hs. \<exists>t. tw_tasks w h = Some t \<and> \<not> tt_cancel t}"
    by auto
  show ?case
    unfolding e using Cons by (auto simp: fire_ids_def split: option.split)
qed (simp add: fire_ids_def)

lemma Tick1_ran:
  assumes "tw_inv w"
  shows "mset (tw_fired (Tick1 w)) = mset (tw_fired w) + spec_fires (tw_abs w)"
proof -
  have s: "{h \<in> set (due_now w). \<exists>t. tw_tasks w h = Some t \<and> \<not> tt_cancel t} =
      {h. \<exists>t. tw_abs w h = Some (t, 1) \<and> \<not> tt_cancel t}"
    using due_now_iff [OF assms] by (auto simp: tw_abs_def)
  have f: "finite {h. \<exists>t. tw_abs w h = Some (t, 1) \<and> \<not> tt_cancel t}"
    unfolding s [symmetric] by simp
  have "image_mset (\<lambda>h. tt_id (the (tw_tasks w h))) (mset_set {h. \<exists>t. tw_abs w h = Some (t, 1) \<and> \<not> tt_cancel t}) =
      spec_fires (tw_abs w)"
    unfolding spec_fires_def using f by (intro image_mset_cong) (auto simp: tw_abs_def)
  then show ?thesis
    by (simp add: Tick1_fired mset_fire_ids [OF due_now_distinct] s)
qed

lemma tw_op_next_fired:
  "tw_next (RefreshTimerTask w i) = tw_next w" "tw_fired (RefreshTimerTask w i) = tw_fired w"
  "tw_record (RefreshTimerTask w i) = tw_record w"
  "tw_next (RemoveTimerTask w i) = tw_next w" "tw_fired (RemoveTimerTask w i) = tw_fired w"
  "tw_next (Tick1 w) = tw_next w"
  by (auto simp: RefreshTimerTask_def RemoveTimerTask_def push_slot_def Let_def Tick1_fold fold_destroy cleared_def
      split: option.split)

lemma tw_op_refines:
  assumes inv: "tw_inv w" and ok: "ts_ok (tw_timers w)" "op_ok op"
  shows "tw_timers (tw_op op w) = spec_op op (tw_timers w)"
proof (cases op)
  case (OpSet i timeout)
  show ?thesis
  proof (cases "IfExists w i")
    case True
    then show ?thesis
      using OpSet by (simp add: tw_timers_def SetTimerTask_def IfExists_def)
  next
    case False
    then show ?thesis
      using OpSet Set_abs [OF inv False, of timeout] ok(2)
      by (simp add: tw_timers_def) (simp add: SetTimerTask_def IfExists_def Let_def push_slot_def)
  qed
next
  case (OpRefresh i)
  show ?thesis
  proof (cases "tw_record w i")
    case (Some h)
    then obtain t where t: "tw_tasks w h = Some t"
      using tw_invD(5) [OF inv] by blast
    then have a: "tw_abs w h = Some (t, ticks_left w h)"
      by (simp add: tw_abs_def)
    then have d: "ticks_left w h \<le> delay (tt_timeout t)" "unat (tt_timeout t) < 4294967236"
      using ok(1) by (auto simp: ts_ok_def tw_timers_def)
    show ?thesis
      using OpRefresh Some a Refresh_abs [OF inv Some a d(2)] d(1)
      by (simp add: tw_timers_def tw_op_next_fired max_def)
  qed (use OpRefresh in \<open>simp add: tw_timers_def RefreshTimerTask_def\<close>)
next
  case (OpRemove i)
  show ?thesis
  proof (cases "tw_record w i")
    case (Some h)
    then obtain t where t: "tw_tasks w h = Some t"
      using tw_invD(5) [OF inv] by blast
    then have a: "tw_abs w h = Some (t, ticks_left w h)"
      by (simp add: tw_abs_def)
    have "tw_record (RemoveTimerTask w i) = (tw_record w)(i := None)"
      using Some t by (simp add: RemoveTimerTask_def)
    then show ?thesis
      using OpRemove Some a Remove_abs [OF Some a] by (simp add: tw_timers_def tw_op_next_fired)
  qed (use OpRemove in \<open>simp add: tw_timers_def RemoveTimerTask_def\<close>)
next
  case OpTick
  then show ?thesis
    using Tick1_abs [OF inv] Tick1_record [OF inv] Tick1_ran [OF inv]
    by (auto simp: tw_timers_def tw_op_next_fired fun_eq_iff)
qed

section \<open>Properties\<close>

text \<open>C9: the wheel implements timers that count down. After any sequence of setting, refreshing and
  removing timers and of ticks, from the empty wheel, the wheel's record of names, its tasks with the ticks
  they have left and the timers that ran are those of the abstract timers: a new timer has its
  timeout left, a refreshed one its whole timeout again, a removed one is cancelled and loses its
  name; a tick runs exactly the tasks that had one tick left and were not cancelled, each once, and
  erases the names of their ids. A timeout of more than 60 ticks counts modulo 60, timeouts are
  below 4294967236, so that adding the hand does not wrap, and the timer functions do not call the
  wheel, except to remove the timer that is running (\<open>destroy_task_release\<close>).\<close>

theorem TimerWheel_refines:
  assumes "list_all op_ok ops"
  shows "tw_timers (fold tw_op ops tw_new) = fold spec_op ops ts_new"
proof -
  have "tw_inv (fold tw_op ops tw_new) \<and> ts_ok (fold spec_op ops ts_new) \<and>
      tw_timers (fold tw_op ops tw_new) = fold spec_op ops ts_new"
    using assms
  proof (induction ops rule: rev_induct)
    case Nil
    show ?case
      using tw_new_inv by (simp add: ts_ok_def ts_new_def tw_timers_def) (simp add: tw_new_def tw_abs_def)
  next
    case (snoc op ops)
    then show ?case
      using tw_op_refines [of "fold tw_op ops tw_new" op] tw_op_inv spec_op_ok by simp
  qed
  then show ?thesis
    by simp
qed

text \<open>Two timers of two ticks: after one tick the first is refreshed, the second removed. The next
  tick destroys the second without running it, the one after runs the first.\<close>

lemma TimerWheel_refines_witness:
  "let w = fold tw_op [OpSet 7 2, OpSet 8 2, OpTick, OpRefresh 7, OpRemove 8, OpTick, OpTick] tw_new in
     tw_record w 7 = None \<and> tw_tasks w 0 = None \<and> tw_tasks w 1 = None \<and> tw_next w = 2 \<and> mset (tw_fired w) = {#7#}"
proof -
  let ?ops = "[OpSet 7 2, OpSet 8 2, OpTick, OpRefresh 7, OpRemove 8, OpTick, OpTick]"
  let ?a = "\<lambda>d. (\<lparr>tt_id = 7, tt_timeout = 2, tt_cancel = False\<rparr>, d :: nat)"
  let ?b = "\<lambda>c d. (\<lparr>tt_id = 8, tt_timeout = 2, tt_cancel = c\<rparr>, d :: nat)"
  let ?S = "\<lambda>n t r. \<lparr>ts_names = n, ts_tasks = t, ts_made = 2, ts_ran = r\<rparr>"
  have d: "delay 2 = 2"
    by (simp add: delay_def)
  have two: "fold spec_op [OpSet 7 2, OpSet 8 2] ts_new = ?S [7 \<mapsto> 0, 8 \<mapsto> 1] [0 \<mapsto> ?a 2, 1 \<mapsto> ?b False 2] {#}"
    by (simp add: ts_new_def d)
  have f: "{h. \<exists>t. [0 \<mapsto> ?a 2, 1 \<mapsto> ?b False 2] h = Some (t, 1) \<and> \<not> tt_cancel t} = {}"
    "{h. \<exists>t. [0 \<mapsto> ?a 2, 1 \<mapsto> ?b True 1] h = Some (t, 1) \<and> \<not> tt_cancel t} = {}"
    "{h. \<exists>t. [0 \<mapsto> ?a 1] h = Some (t, 1) \<and> \<not> tt_cancel t} = {0}"
    by (auto split: if_splits)
  have tick1: "spec_op OpTick (?S [7 \<mapsto> 0, 8 \<mapsto> 1] [0 \<mapsto> ?a 2, 1 \<mapsto> ?b False 2] {#}) =
      ?S [7 \<mapsto> 0, 8 \<mapsto> 1] [0 \<mapsto> ?a 1, 1 \<mapsto> ?b False 1] {#}"
    unfolding spec_op.simps spec_fires_def timers_state.simps f
    by (auto simp: fun_eq_iff spec_expired_def spec_tick_def split: if_splits)
  have change: "fold spec_op [OpRefresh 7, OpRemove 8] (?S [7 \<mapsto> 0, 8 \<mapsto> 1] [0 \<mapsto> ?a 1, 1 \<mapsto> ?b False 1] {#}) =
      ?S [7 \<mapsto> 0] [0 \<mapsto> ?a 2, 1 \<mapsto> ?b True 1] {#}"
    by (auto simp: d fun_eq_iff)
  have tick2: "spec_op OpTick (?S [7 \<mapsto> 0] [0 \<mapsto> ?a 2, 1 \<mapsto> ?b True 1] {#}) = ?S [7 \<mapsto> 0] [0 \<mapsto> ?a 1] {#}"
    unfolding spec_op.simps spec_fires_def timers_state.simps f
    by (auto simp: fun_eq_iff spec_expired_def spec_tick_def split: if_splits)
  have tick3: "spec_op OpTick (?S [7 \<mapsto> 0] [0 \<mapsto> ?a 1] {#}) = ?S Map.empty Map.empty {#7#}"
    unfolding spec_op.simps spec_fires_def timers_state.simps f
    by (auto simp: fun_eq_iff spec_expired_def spec_tick_def split: if_splits)
  have split: "fold spec_op ?ops ts_new =
      spec_op OpTick (spec_op OpTick (fold spec_op [OpRefresh 7, OpRemove 8]
        (spec_op OpTick (fold spec_op [OpSet 7 2, OpSet 8 2] ts_new))))"
    by (simp only: fold.simps comp_apply id_apply)
  have "tw_timers (fold tw_op ?ops tw_new) = fold spec_op ?ops ts_new"
    by (rule TimerWheel_refines) simp
  then have "tw_timers (fold tw_op ?ops tw_new) = ?S Map.empty Map.empty {#7#}"
    unfolding split two tick1 change tick2 tick3 .
  then show ?thesis
    by (simp add: Let_def tw_timers_def tw_abs_def fun_eq_iff del: fold.simps)
qed

lemma Tick1_pow_inv: "tw_inv w \<Longrightarrow> tw_inv ((Tick1 ^^ n) w)"
  by (induction n) (simp_all add: Tick1_inv)

lemma Tick1_pow_abs:
  assumes inv: "tw_inv w" and a: "tw_abs w h = Some (t, d)"
  shows "n < d \<Longrightarrow> tw_abs ((Tick1 ^^ n) w) h = Some (t, d - n)"
proof (induction n)
  case (Suc n)
  then have "tw_abs ((Tick1 ^^ n) w) h = Some (t, d - n)"
    by simp
  then show ?case
    using Tick1_abs [OF Tick1_pow_inv [OF inv], of n] Suc.prems by (simp add: spec_tick_def)
qed (simp add: a)

lemma fires_at:
  assumes inv: "tw_inv w" and a: "tw_abs w h = Some (t, 1)" and c: "\<not> tt_cancel t"
  shows "\<exists>xs. tw_fired (Tick1 w) = tw_fired w @ xs \<and> tt_id t \<in> set xs" "tw_tasks (Tick1 w) h = None"
proof -
  have h: "h \<in> set (due_now w)" "tw_tasks w h = Some t"
    using due_now_iff [OF inv, of h] a by (auto simp: tw_abs_def)
  then have "tt_id t \<in> set (fire_ids w (due_now w))"
    unfolding fire_ids_def using c by (auto intro!: bexI [of _ h])
  then show "\<exists>xs. tw_fired (Tick1 w) = tw_fired w @ xs \<and> tt_id t \<in> set xs"
    using Tick1_fired by blast
  show "tw_tasks (Tick1 w) h = None"
    using h(1) by (simp add: Tick1_fold fold_destroy)
qed

text \<open>A timer of 1 to 60 seconds set under a new id runs at exactly that tick: through every
  earlier tick its task is alive and uncancelled, and the tick that reaches the timeout runs it and
  destroys the task.\<close>

theorem timer_fires_on_time:
  assumes "tw_inv w" "\<not> IfExists w i" "1 \<le> unat timeout" "unat timeout \<le> 60"
  shows "(\<forall>n < unat timeout. \<exists>t. tw_tasks ((Tick1 ^^ n) (SetTimerTask w i timeout)) (tw_next w) = Some t \<and>
      tt_id t = i \<and> \<not> tt_cancel t) \<and>
    tw_tasks ((Tick1 ^^ unat timeout) (SetTimerTask w i timeout)) (tw_next w) = None \<and>
    (\<exists>xs. tw_fired ((Tick1 ^^ unat timeout) (SetTimerTask w i timeout)) =
       tw_fired ((Tick1 ^^ (unat timeout - 1)) (SetTimerTask w i timeout)) @ xs \<and> i \<in> set xs)"
proof -
  let ?w = "SetTimerTask w i timeout" and ?h = "tw_next w" and ?d = "unat timeout"
  let ?t = "\<lparr>tt_id = i, tt_timeout = timeout, tt_cancel = False\<rparr>"
  have inv: "tw_inv ?w"
    by (rule SetTimerTask_inv [OF assms(1)])
  have d: "delay timeout = ?d"
    using assms(3,4) by (auto simp: delay_def mod_if)
  have a: "tw_abs ?w ?h = Some (?t, ?d)"
    using Set_abs [OF assms(1,2), of timeout] assms(4) d by simp
  have early: "tw_tasks ((Tick1 ^^ n) ?w) ?h = Some ?t" if "n < ?d" for n
    using Tick1_pow_abs [OF inv a that] by (auto simp: tw_abs_def)
  have last: "tw_abs ((Tick1 ^^ (?d - 1)) ?w) ?h = Some (?t, 1)"
    using Tick1_pow_abs [OF inv a, of "?d - 1"] assms(3) by simp
  have e: "(Tick1 ^^ ?d) ?w = Tick1 ((Tick1 ^^ (?d - 1)) ?w)"
    using assms(3) by (cases ?d) simp_all
  show ?thesis
    using early fires_at [OF Tick1_pow_inv [OF inv] last] unfolding e by simp
qed

lemma timer_fires_on_time_witness:
  "tw_tasks ((Tick1 ^^ 30) (SetTimerTask tw_new 7 30)) 0 = None \<and>
   (\<exists>xs. tw_fired ((Tick1 ^^ 30) (SetTimerTask tw_new 7 30)) =
     tw_fired ((Tick1 ^^ 29) (SetTimerTask tw_new 7 30)) @ xs \<and> 7 \<in> set xs)"
proof -
  have "\<not> IfExists tw_new 7" "tw_next tw_new = 0"
    by (simp_all add: IfExists_def tw_new_def)
  then show ?thesis
    using timer_fires_on_time [OF tw_new_inv, of 7 30] by simp
qed

text \<open>Every operation keeps the invariant of the wheel: each task is held by a slot, and a record
  names a task that is alive, has the record's id and is not cancelled. A negative number of
  ticks, which \<open>Tick(int)\<close> gets from a count above 2147483647, does not end.\<close>

theorem TimerWheel_inv:
  assumes "tw_inv w"
  shows "tw_inv (SetTimerTask w i timeout) \<and> tw_inv (RefreshTimerTask w i) \<and> tw_inv (RemoveTimerTask w i) \<and>
    (case Tick nums w of Inl e \<Rightarrow> sint nums < 0 \<and> e = NoFuel | Inr w' \<Rightarrow> tw_inv w')"
  using assms SetTimerTask_inv RefreshTimerTask_inv RemoveTimerTask_inv Tick1_pow_inv by (simp add: Tick_def)

lemma TimerWheel_inv_witness: "tw_inv (SetTimerTask tw_new 7 30)"
  using TimerWheel_inv [OF tw_new_inv, of 7 30] by simp

text \<open>Removing a timer and setting it again under the same id before the old task's slot comes
  round loses the record of the new task: when the old, cancelled task is destroyed its release
  function erases the id. The new task is then alive and will run, but refreshing it has no
  effect, so an active connection is closed by it.\<close>

theorem reset_loses_record:
  "let w = (Tick1 ^^ 10) (SetTimerTask (RemoveTimerTask (SetTimerTask tw_new 7 10) 7) 7 30) in
     tw_tasks w 1 = Some \<lparr>tt_id = 7, tt_timeout = 30, tt_cancel = False\<rparr> \<and>
     \<not> IfExists w 7 \<and> RefreshTimerTask w 7 = w"
proof -
  let ?set = "SetTimerTask tw_new 7 10"
  let ?rem = "RemoveTimerTask ?set 7"
  let ?again = "SetTimerTask ?rem 7 30"
  let ?w = "(Tick1 ^^ 10) ?again"
  have i0: "tw_inv ?set" and i1: "tw_inv ?rem" and i2: "tw_inv ?again"
    using tw_new_inv by (simp_all add: SetTimerTask_inv RemoveTimerTask_inv)
  have a0: "tw_abs ?set 0 = Some (\<lparr>tt_id = 7, tt_timeout = 10, tt_cancel = False\<rparr>, 10)"
    using Set_abs [OF tw_new_inv, of 7 10] by (simp add: IfExists_def tw_new_def delay_def)
  have r0: "tw_record ?set 7 = Some 0"
    by (simp add: SetTimerTask_def IfExists_def tw_new_def Let_def push_slot_def)
  have a1: "tw_abs ?rem 0 = Some (\<lparr>tt_id = 7, tt_timeout = 10, tt_cancel = True\<rparr>, 10)"
    using Remove_abs [OF r0 a0] by simp
  have e1: "\<not> IfExists ?rem 7" "tw_next ?rem = 1"
    by (simp_all add: SetTimerTask_def RemoveTimerTask_def IfExists_def tw_new_def Let_def push_slot_def)
  have a2: "tw_abs ?again 1 = Some (\<lparr>tt_id = 7, tt_timeout = 30, tt_cancel = False\<rparr>, 30)"
    "tw_abs ?again 0 = Some (\<lparr>tt_id = 7, tt_timeout = 10, tt_cancel = True\<rparr>, 10)"
    using Set_abs [OF i1 e1(1), of 30] e1(2) a1 by (simp_all add: delay_def)
  have n1: "tw_tasks ?w 1 = Some \<lparr>tt_id = 7, tt_timeout = 30, tt_cancel = False\<rparr>"
    using Tick1_pow_abs [OF i2 a2(1), of 10] by (auto simp: tw_abs_def)
  let ?nine = "(Tick1 ^^ 9) ?again"
  have i9: "tw_inv ?nine"
    by (rule Tick1_pow_inv [OF i2])
  have a9: "tw_abs ?nine 0 = Some (\<lparr>tt_id = 7, tt_timeout = 10, tt_cancel = True\<rparr>, 1)"
    using Tick1_pow_abs [OF i2 a2(2), of 9] by simp
  have d9: "0 \<in> set (due_now ?nine)" "tw_tasks ?nine 0 = Some \<lparr>tt_id = 7, tt_timeout = 10, tt_cancel = True\<rparr>"
    using due_now_iff [OF i9, of 0] a9 by (auto simp: tw_abs_def)
  have w: "?w = Tick1 ?nine"
    by (simp add: numeral_eq_Suc)
  have "tw_record ?w 7 = None"
  proof (cases "tw_record ?w 7")
    case (Some h)
    then have "\<forall>h' \<in> set (due_now ?nine). \<forall>t. tw_tasks ?nine h' = Some t \<longrightarrow> tt_id t \<noteq> 7"
      using fold_destroy_record [OF due_now_distinct, of ?nine "cleared ?nine" 7 h]
      unfolding w Tick1_fold by (simp add: cleared_def)
    then show ?thesis
      using d9 by force
  qed
  then show ?thesis
    using n1 by (simp add: IfExists_def RefreshTimerTask_def)
qed

end
