(* ===== verification/Event_Loop.thy ===== *)
theory Event_Loop
  imports Prelude
begin

text \<open>
  \<open>Socket\<close>, \<open>Channel\<close>, \<open>Poll\<close> and the task queue of \<open>EventLoop\<close> of \<open>muduo/server.hpp\<close>.
  What a system call returns is an argument of the operation that makes it. The kernel keeps the
  set of open descriptors and the events each is watched for, and \<open>epoll_ctl\<close> fails as documented:
  adding a descriptor that is closed or already watched, changing one that is not watched.
  The last section is the wake-up protocol between the loop's thread and the others, as a step
  relation.
\<close>

section \<open>System calls\<close>

datatype errno = EWOULDBLOCK | EAGAIN | EINTR | OtherErr

datatype recv_result = Got string | RecvErr errno
datatype send_result = Sent nat | SendErr errno
datatype accept_result = Accepted int | AcceptErr errno

definition would_block :: "errno \<Rightarrow> bool" where
  "would_block e \<longleftrightarrow> e \<in> {EWOULDBLOCK, EAGAIN, EINTR}"

record socket =
  sk_fd :: int

text \<open>\<open>size\<close> is the size of the caller's array: after a read of that many bytes \<open>buffer[ret] = 0\<close>
  is out of its bounds.\<close>

definition sk_Recv :: "recv_result \<Rightarrow> nat \<Rightarrow> (int \<times> string) res" where
  "sk_Recv r sz =
     (case r of
        RecvErr e \<Rightarrow> if would_block e then Inr (- 2, []) else Inr (- 1, [])
      | Got xs \<Rightarrow>
          if xs = [] then Inr (0, [])
          else if length xs < sz then Inr (int (length xs), xs) else Inl OutOfBounds)"

definition sk_RecvNonBlock :: "recv_result \<Rightarrow> nat \<Rightarrow> (int \<times> string) res" where
  "sk_RecvNonBlock r sz = sk_Recv r sz"

definition sk_Send :: "send_result \<Rightarrow> int" where
  "sk_Send r = (case r of SendErr e \<Rightarrow> if would_block e then - 2 else - 1 | Sent n \<Rightarrow> int n)"

definition sk_SendNonBlock :: "send_result \<Rightarrow> int" where
  "sk_SendNonBlock r = sk_Send r"

definition sk_Accept :: "accept_result \<Rightarrow> int" where
  "sk_Accept r = (case r of AcceptErr e \<Rightarrow> if would_block e then - 2 else - 1 | Accepted fd \<Rightarrow> fd)"

definition sk_CreateSocket :: "int \<Rightarrow> bool \<times> socket" where
  "sk_CreateSocket ret = (0 \<le> ret, \<lparr>sk_fd = ret\<rparr>)"

definition sk_Bind :: "int \<Rightarrow> bool" where
  "sk_Bind ret = (0 \<le> ret)"

definition sk_Listen :: "int \<Rightarrow> bool" where
  "sk_Listen ret = (0 \<le> ret)"

definition sk_Connect :: "int \<Rightarrow> bool" where
  "sk_Connect ret = (0 \<le> ret)"

definition sk_CreateTcpSocket :: "int \<Rightarrow> int \<Rightarrow> int \<Rightarrow> bool \<times> socket" where
  "sk_CreateTcpSocket sock_ret bind_ret listen_ret =
     (case sk_CreateSocket sock_ret of (ok, s) \<Rightarrow>
        if \<not> ok then (False, s)
        else if \<not> sk_Bind bind_ret then (False, s)
        else if \<not> sk_Listen listen_ret then (False, s)
        else (True, s))"

definition sk_CreateClient :: "int \<Rightarrow> int \<Rightarrow> bool \<times> socket" where
  "sk_CreateClient sock_ret conn_ret =
     (case sk_CreateSocket sock_ret of (ok, s) \<Rightarrow>
        if \<not> ok then (False, s) else if \<not> sk_Connect conn_ret then (False, s) else (True, s))"

section \<open>Channels\<close>

definition EPOLLIN :: u32 where "EPOLLIN = 0x001"
definition EPOLLPRI :: u32 where "EPOLLPRI = 0x002"
definition EPOLLOUT :: u32 where "EPOLLOUT = 0x004"
definition EPOLLERR :: u32 where "EPOLLERR = 0x008"
definition EPOLLHUP :: u32 where "EPOLLHUP = 0x010"

record channel =
  ch_fd :: int
  ch_events :: u32
  ch_revents :: u32

definition ch_new :: "int \<Rightarrow> channel" where
  "ch_new fd = \<lparr>ch_fd = fd, ch_events = 0, ch_revents = 0\<rparr>"

definition SetRevents :: "channel \<Rightarrow> u32 \<Rightarrow> channel" where
  "SetRevents ch r = ch\<lparr>ch_revents := r\<rparr>"

definition Readable :: "channel \<Rightarrow> bool" where
  "Readable ch = (ch_events ch AND EPOLLIN \<noteq> 0)"

definition Writeable :: "channel \<Rightarrow> bool" where
  "Writeable ch = (ch_events ch AND EPOLLOUT \<noteq> 0)"

text \<open>A callback is a fallible change of the state; \<open>None\<close> is an empty \<open>std::function\<close>.\<close>

type_synonym 's callback = "('s \<Rightarrow> 's res) option"

definition call_cb :: "'s callback \<Rightarrow> 's \<Rightarrow> 's res" where
  "call_cb cb s = (case cb of None \<Rightarrow> Inr s | Some f \<Rightarrow> f s)"

record 's callbacks =
  read_cb :: "'s callback"
  write_cb :: "'s callback"
  error_cb :: "'s callback"
  any_event_cb :: "'s callback"
  close_cb :: "'s callback"

definition HandleEvents :: "u32 \<Rightarrow> 's callbacks \<Rightarrow> 's \<Rightarrow> 's res" where
  "HandleEvents revents cbs s =
     rbind (call_cb (any_event_cb cbs) s) (\<lambda>s.
       if revents AND EPOLLHUP \<noteq> 0 then call_cb (close_cb cbs) s
       else if revents AND EPOLLERR \<noteq> 0 then call_cb (error_cb cbs) s
       else if revents AND (EPOLLIN OR EPOLLPRI) \<noteq> 0 then call_cb (read_cb cbs) s
       else if revents AND EPOLLOUT \<noteq> 0 then call_cb (write_cb cbs) s
       else Inr s)"

section \<open>The poller\<close>

record poller =
  po_chans :: "nat \<Rightarrow> channel"
  po_care :: "int \<Rightarrow> nat option"
  po_open :: "int \<Rightarrow> bool"
  po_watch :: "int \<Rightarrow> u32 option"

definition IfExist :: "poller \<Rightarrow> int \<Rightarrow> bool" where
  "IfExist p fd = (po_care p fd \<noteq> None)"

datatype ctl_op = CTL_ADD | CTL_MOD

definition epoll_ctl :: "ctl_op \<Rightarrow> int \<Rightarrow> u32 \<Rightarrow> poller \<Rightarrow> poller option" where
  "epoll_ctl op fd ev p =
     (if \<not> po_open p fd then None
      else if (op = CTL_ADD) = (po_watch p fd \<noteq> None) then None
      else Some (p\<lparr>po_watch := (po_watch p)(fd := Some ev)\<rparr>))"

definition UpdateMonitor :: "poller \<Rightarrow> nat \<Rightarrow> ctl_op \<Rightarrow> poller res" where
  "UpdateMonitor p c flag =
     (case epoll_ctl flag (ch_fd (po_chans p c)) (ch_events (po_chans p c)) p of
        None \<Rightarrow> Inl ExitProcess
      | Some p' \<Rightarrow> Inr p')"

definition UpdateEvent :: "poller \<Rightarrow> nat \<Rightarrow> poller res" where
  "UpdateEvent p c =
     (let fd = ch_fd (po_chans p c) in
      if \<not> IfExist p fd then
        rbind (UpdateMonitor p c CTL_ADD) (\<lambda>p'. Inr (p'\<lparr>po_care := (po_care p')(fd := Some c)\<rparr>))
      else UpdateMonitor p c CTL_MOD)"

definition RemoveEvent :: "poller \<Rightarrow> nat \<Rightarrow> poller" where
  "RemoveEvent p c =
     (let fd = ch_fd (po_chans p c) in
      if IfExist p fd then
        p\<lparr>po_watch := (po_watch p)(fd := None), po_care := (po_care p)(fd := None)\<rparr>
      else p)"

definition set_events :: "poller \<Rightarrow> nat \<Rightarrow> u32 \<Rightarrow> poller" where
  "set_events p c ev = p\<lparr>po_chans := (po_chans p)(c := (po_chans p c)\<lparr>ch_events := ev\<rparr>)\<rparr>"

definition EnableRead :: "poller \<Rightarrow> nat \<Rightarrow> poller res" where
  "EnableRead p c = UpdateEvent (set_events p c (ch_events (po_chans p c) OR EPOLLIN)) c"

definition DisableRead :: "poller \<Rightarrow> nat \<Rightarrow> poller res" where
  "DisableRead p c = UpdateEvent (set_events p c (ch_events (po_chans p c) AND NOT EPOLLIN)) c"

definition EnableWrite :: "poller \<Rightarrow> nat \<Rightarrow> poller res" where
  "EnableWrite p c = UpdateEvent (set_events p c (ch_events (po_chans p c) OR EPOLLOUT)) c"

definition DisableWrite :: "poller \<Rightarrow> nat \<Rightarrow> poller res" where
  "DisableWrite p c = UpdateEvent (set_events p c (ch_events (po_chans p c) AND NOT EPOLLOUT)) c"

definition ch_Remove :: "poller \<Rightarrow> nat \<Rightarrow> poller" where
  "ch_Remove p c = RemoveEvent (set_events p c 0) c"

text \<open>\<open>::close\<close> drops the descriptor from the kernel's interest list, not from the poller's map.\<close>

definition kernel_close :: "poller \<Rightarrow> int \<Rightarrow> poller" where
  "kernel_close p fd = p\<lparr>po_open := (po_open p)(fd := False), po_watch := (po_watch p)(fd := None)\<rparr>"

definition sk_Close :: "socket \<Rightarrow> poller \<Rightarrow> socket \<times> poller" where
  "sk_Close s p = (if sk_fd s > 0 then (s\<lparr>sk_fd := - 1\<rparr>, kernel_close p (sk_fd s)) else (s, p))"

datatype wait_result = Ready "(int \<times> u32) list" | WaitErr errno

primrec collect :: "(int \<times> u32) list \<Rightarrow> poller \<Rightarrow> nat list \<times> poller" where
  "collect [] p = ([], p)"
| "collect (ev # evs) p =
     (case po_care p (fst ev) of
        None \<Rightarrow> collect evs p
      | Some c \<Rightarrow>
          (case collect evs (p\<lparr>po_chans := (po_chans p)(c := SetRevents (po_chans p c) (snd ev))\<rparr>) of
             (cs, p') \<Rightarrow> (c # cs, p')))"

definition Polling :: "wait_result \<Rightarrow> poller \<Rightarrow> (nat list \<times> poller) res" where
  "Polling r p =
     (case r of
        WaitErr e \<Rightarrow> if e = EINTR then Inr ([], p) else Inl ExitProcess
      | Ready evs \<Rightarrow> Inr (collect evs p))"

section \<open>The poller's map and the kernel agree\<close>

definition po_inv :: "poller \<Rightarrow> bool" where
  "po_inv p \<longleftrightarrow>
     (\<forall>fd. case po_care p fd of
        None \<Rightarrow> po_watch p fd = None
      | Some c \<Rightarrow> po_open p fd \<and> ch_fd (po_chans p c) = fd \<and> po_watch p fd = Some (ch_events (po_chans p c)))"

lemma po_inv_Some:
  assumes "po_inv p" "po_care p fd = Some c"
  shows "po_open p fd \<and> ch_fd (po_chans p c) = fd \<and> po_watch p fd = Some (ch_events (po_chans p c))"
  using assms(1) [unfolded po_inv_def, THEN spec, of fd] assms(2) by simp

lemma po_inv_None:
  assumes "po_inv p" "po_care p fd = None"
  shows "po_watch p fd = None"
  using assms(1) [unfolded po_inv_def, THEN spec, of fd] assms(2) by simp

lemma po_invI [inv_intros]:
  assumes "\<And>fd. po_care p fd = None \<Longrightarrow> po_watch p fd = None"
    and "\<And>fd c. po_care p fd = Some c \<Longrightarrow>
      po_open p fd \<and> ch_fd (po_chans p c) = fd \<and> po_watch p fd = Some (ch_events (po_chans p c))"
  shows "po_inv p"
  unfolding po_inv_def using assms by (simp split: option.split)

text \<open>A channel is the poller's own when no other channel is registered under its descriptor.\<close>

definition own_chan :: "poller \<Rightarrow> nat \<Rightarrow> bool" where
  "own_chan p c \<longleftrightarrow> po_open p (ch_fd (po_chans p c)) \<and>
     (\<forall>c'. po_care p (ch_fd (po_chans p c)) = Some c' \<longrightarrow> c' = c)"

lemma update_ok:
  assumes inv: "po_inv p" and own: "own_chan p c"
  shows "\<exists>p'. UpdateEvent (set_events p c ev) c = Inr p' \<and> po_inv p' \<and>
    po_care p' = (po_care p)(ch_fd (po_chans p c) := Some c) \<and>
    po_watch p' (ch_fd (po_chans p c)) = Some ev \<and> po_chans p' = po_chans (set_events p c ev) \<and>
    po_open p' = po_open p"
proof -
  let ?fd = "ch_fd (po_chans p c)"
  let ?p = "set_events p c ev"
  let ?q = "?p\<lparr>po_watch := (po_watch p)(?fd := Some ev), po_care := (po_care p)(?fd := Some c)\<rparr>"
  have o: "po_open p ?fd" "po_care p ?fd = None \<or> po_care p ?fd = Some c"
    using own by (cases "po_care p ?fd"; auto simp: own_chan_def)+
  have "UpdateEvent ?p c = Inr ?q"
  proof (cases "po_care p ?fd")
    case None
    then show ?thesis
      using o po_inv_None [OF inv None]
      by (simp add: UpdateEvent_def UpdateMonitor_def IfExist_def set_events_def epoll_ctl_def Let_def)
  next
    case (Some c')
    then have c: "po_care p ?fd = Some c" "po_watch p ?fd \<noteq> None"
      using o(2) po_inv_Some [OF inv Some] by auto
    then have "(po_care p)(?fd := Some c) = po_care p"
      by (simp add: fun_upd_idem)
    then show ?thesis
      using o c by (simp add: UpdateEvent_def UpdateMonitor_def IfExist_def set_events_def epoll_ctl_def Let_def)
  qed
  moreover have "po_inv ?q"
  proof (rule po_invI)
    show "po_watch ?q fd = None" if "po_care ?q fd = None" for fd
      using that po_inv_None [OF inv, of fd] by (simp add: set_events_def split: if_splits)
    show "po_open ?q fd \<and> ch_fd (po_chans ?q d) = fd \<and> po_watch ?q fd = Some (ch_events (po_chans ?q d))"
      if "po_care ?q fd = Some d" for fd d
    proof (cases "fd = ?fd")
      case True
      then show ?thesis using that o by (simp add: set_events_def)
    next
      case False
      then have s: "po_open p fd \<and> ch_fd (po_chans p d) = fd \<and> po_watch p fd = Some (ch_events (po_chans p d))"
        using that by (intro po_inv_Some [OF inv]) (simp add: set_events_def)
      then have "d \<noteq> c"
        using False by auto
      then show ?thesis
        using s False by (simp add: set_events_def)
    qed
  qed
  ultimately show ?thesis
    by (intro exI [of _ ?q]) (simp add: set_events_def)
qed

lemma remove_fields:
  assumes "po_inv p"
  shows "po_care (ch_Remove p c) = (po_care p)(ch_fd (po_chans p c) := None)"
    "po_watch (ch_Remove p c) = (po_watch p)(ch_fd (po_chans p c) := None)"
    "po_open (ch_Remove p c) = po_open p"
    "po_chans (ch_Remove p c) = (po_chans p)(c := (po_chans p c)\<lparr>ch_events := 0\<rparr>)"
  using po_inv_None [OF assms, of "ch_fd (po_chans p c)"]
  by (auto simp: ch_Remove_def RemoveEvent_def set_events_def IfExist_def Let_def fun_upd_idem)

lemma remove_ok:
  assumes inv: "po_inv p"
  shows "po_inv (ch_Remove p c)"
proof (rule po_invI)
  show "po_watch (ch_Remove p c) fd = None" if "po_care (ch_Remove p c) fd = None" for fd
    using that po_inv_None [OF inv, of fd] by (simp add: remove_fields [OF inv] split: if_splits)
  show "po_open (ch_Remove p c) fd \<and> ch_fd (po_chans (ch_Remove p c) d) = fd \<and>
      po_watch (ch_Remove p c) fd = Some (ch_events (po_chans (ch_Remove p c) d))"
    if "po_care (ch_Remove p c) fd = Some d" for fd d
  proof -
    have f: "fd \<noteq> ch_fd (po_chans p c)" "po_care p fd = Some d"
      using that by (simp_all add: remove_fields [OF inv] split: if_splits)
    note s = po_inv_Some [OF inv f(2)]
    then have "d \<noteq> c"
      using f(1) by auto
    then show ?thesis
      using s f(1) by (simp add: remove_fields [OF inv])
  qed
qed

lemma kernel_close_inv:
  assumes inv: "po_inv p" and n: "po_care p fd = None"
  shows "po_inv (kernel_close p fd)"
proof (rule po_invI)
  show "po_watch (kernel_close p fd) fd2 = None" if "po_care (kernel_close p fd) fd2 = None" for fd2
    using that po_inv_None [OF inv, of fd2] by (simp add: kernel_close_def)
  show "po_open (kernel_close p fd) fd2 \<and> ch_fd (po_chans (kernel_close p fd) d) = fd2 \<and>
      po_watch (kernel_close p fd) fd2 = Some (ch_events (po_chans (kernel_close p fd) d))"
    if "po_care (kernel_close p fd) fd2 = Some d" for fd2 d
    using that n po_inv_Some [OF inv, of fd2 d] by (auto simp: kernel_close_def)
qed

lemma SetRevents_inv:
  assumes inv: "po_inv p"
  shows "po_inv (p\<lparr>po_chans := (po_chans p)(c := SetRevents (po_chans p c) r)\<rparr>)"
proof (rule po_invI)
  let ?p = "p\<lparr>po_chans := (po_chans p)(c := SetRevents (po_chans p c) r)\<rparr>"
  show "po_watch ?p fd = None" if "po_care ?p fd = None" for fd
    using that po_inv_None [OF inv, of fd] by simp
  show "po_open ?p fd \<and> ch_fd (po_chans ?p d) = fd \<and> po_watch ?p fd = Some (ch_events (po_chans ?p d))"
    if "po_care ?p fd = Some d" for fd d
    using that po_inv_Some [OF inv, of fd d] by (auto simp: SetRevents_def)
qed

lemma collect_ok:
  assumes "po_inv p" "collect evs p = (cs, p')"
  shows "po_inv p' \<and> po_care p' = po_care p \<and> po_watch p' = po_watch p \<and> po_open p' = po_open p \<and>
    cs = List.map_filter (\<lambda>ev. po_care p (fst ev)) evs"
  using assms
proof (induction evs arbitrary: p cs p')
  case Nil
  then show ?case by simp
next
  case (Cons ev evs)
  show ?case
  proof (cases "po_care p (fst ev)")
    case None
    then show ?thesis
      using Cons.IH [OF Cons.prems(1), of cs p'] Cons.prems(2) by simp
  next
    case (Some c)
    let ?p = "p\<lparr>po_chans := (po_chans p)(c := SetRevents (po_chans p c) (snd ev))\<rparr>"
    obtain cs2 p2 where c2: "collect evs ?p = (cs2, p2)"
      by (cases "collect evs ?p")
    have "po_inv ?p"
      by (rule SetRevents_inv [OF Cons.prems(1)])
    note ih = Cons.IH [OF this c2]
    have "cs = c # cs2" "p' = p2"
      using Cons.prems(2) Some c2 by simp_all
    then show ?thesis
      using ih Some by simp
  qed
qed

text \<open>A channel whose descriptor has been closed and removed cannot be enabled: \<open>epoll_ctl\<close> fails
  and the process exits.\<close>

lemma update_closed:
  assumes "\<not> po_open p (ch_fd (po_chans p c))"
  shows "UpdateEvent (set_events p c ev) c = Inl ExitProcess"
  using assms by (simp add: UpdateEvent_def UpdateMonitor_def epoll_ctl_def set_events_def Let_def)

section \<open>The task queue\<close>

text \<open>Other threads append a task and then write to the event descriptor; the loop's thread runs the
  tasks. A step is one call under the lock or one system call, so that the calls of the threads
  interleave. \<open>wk_wakers\<close> counts the threads between \<open>QueueInLoop\<close> and
  \<open>WakeUpEpollToDoPending\<close>, and the phase says where \<open>Loop()\<close> is: in \<open>epoll_wait\<close>, in the handlers
  (with or without an event on the event descriptor), before \<open>DoPendingTask\<close>, or in its loop.\<close>

datatype 'a phase = Waiting | Handling bool | Handled | Running "'a list"

record 'a wakeup =
  wk_queue :: "'a list"
  wk_event :: nat
  wk_wakers :: nat
  wk_phase :: "'a phase"
  wk_ran :: "'a list"

definition wk_init :: "'a wakeup" where
  "wk_init = \<lparr>wk_queue = [], wk_event = 0, wk_wakers = 0, wk_phase = Waiting, wk_ran = []\<rparr>"

definition QueueInLoop :: "'a \<Rightarrow> 'a wakeup \<Rightarrow> 'a wakeup" where
  "QueueInLoop x s = s\<lparr>wk_queue := wk_queue s @ [x]\<rparr>"

definition WakeUpEpollToDoPending :: "'a wakeup \<Rightarrow> 'a wakeup" where
  "WakeUpEpollToDoPending s = s\<lparr>wk_event := wk_event s + 1\<rparr>"

definition EventRead :: "'a wakeup \<Rightarrow> 'a wakeup" where
  "EventRead s = s\<lparr>wk_event := 0\<rparr>"

text \<open>\<open>RunInLoop\<close>: in the loop's thread the task runs at once, in another it is queued, then the loop
  is woken.\<close>

definition RunInLoop :: "bool \<Rightarrow> 'a \<Rightarrow> 'a wakeup \<Rightarrow> 'a wakeup" where
  "RunInLoop is_in_loop x s =
     (if is_in_loop then s\<lparr>wk_ran := wk_ran s @ [x]\<rparr> else WakeUpEpollToDoPending (QueueInLoop x s))"

text \<open>\<open>DoPendingTask\<close> swaps the queue out under the lock and then runs its tasks.\<close>

definition swap_pending :: "'a wakeup \<Rightarrow> 'a wakeup" where
  "swap_pending s = s\<lparr>wk_phase := Running (wk_queue s), wk_queue := []\<rparr>"

inductive wk_step :: "'a wakeup \<Rightarrow> 'a list \<Rightarrow> 'a wakeup \<Rightarrow> bool" where
  queue: "wk_step s [x] ((QueueInLoop x s)\<lparr>wk_wakers := wk_wakers s + 1\<rparr>)"
| wake: "0 < wk_wakers s \<Longrightarrow> wk_step s [] ((WakeUpEpollToDoPending s)\<lparr>wk_wakers := wk_wakers s - 1\<rparr>)"
| poll: "wk_phase s = Waiting \<Longrightarrow> wk_step s [] (s\<lparr>wk_phase := Handling (0 < wk_event s)\<rparr>)"
| handle: "wk_phase s = Handling b \<Longrightarrow>
    wk_step s [] ((if b then EventRead s else s)\<lparr>wk_phase := Handled\<rparr>)"
| swap: "wk_phase s = Handled \<Longrightarrow> wk_step s [] (swap_pending s)"
| run: "wk_phase s = Running (x # xs) \<Longrightarrow>
    wk_step s [] (s\<lparr>wk_phase := Running xs, wk_ran := wk_ran s @ [x]\<rparr>)"
| round: "wk_phase s = Running [] \<Longrightarrow> wk_step s [] (s\<lparr>wk_phase := Waiting\<rparr>)"

inductive wk_run :: "'a wakeup \<Rightarrow> 'a list \<Rightarrow> 'a wakeup \<Rightarrow> bool" where
  refl: "wk_run s [] s"
| step: "wk_run s xs s1 \<Longrightarrow> wk_step s1 ys s2 \<Longrightarrow> wk_run s (xs @ ys) s2"

definition in_round :: "'a wakeup \<Rightarrow> 'a list" where
  "in_round s = (case wk_phase s of Running xs \<Rightarrow> xs | _ \<Rightarrow> [])"

lemma wk_step_order: "wk_step s ys s' \<Longrightarrow>
   wk_ran s' @ in_round s' @ wk_queue s' = wk_ran s @ in_round s @ wk_queue s @ ys"
  by (induction rule: wk_step.induct)
    (auto simp: in_round_def QueueInLoop_def WakeUpEpollToDoPending_def EventRead_def swap_pending_def)

text \<open>A queued task is announced, or the loop is on its way to the queue.\<close>

definition announced :: "'a wakeup \<Rightarrow> bool" where
  "announced s \<longleftrightarrow> wk_queue s = [] \<or> 0 < wk_event s \<or> 0 < wk_wakers s \<or>
     wk_phase s = Handling True \<or> wk_phase s = Handled"

lemma wk_step_announced: "wk_step s ys s' \<Longrightarrow> announced s \<Longrightarrow> announced s'"
  by (induction rule: wk_step.induct)
    (auto simp: announced_def QueueInLoop_def WakeUpEpollToDoPending_def EventRead_def swap_pending_def)

lemma wk_run_ok:
  assumes "wk_run s xs s'" "announced s"
  shows "announced s' \<and> wk_ran s' @ in_round s' @ wk_queue s' = wk_ran s @ in_round s @ wk_queue s @ xs"
  using assms
proof (induction rule: wk_run.induct)
  case (step s xs s1 ys s2)
  then show ?case
    using wk_step_announced [OF step.hyps(2)] wk_step_order [OF step.hyps(2)] by simp
qed simp

text \<open>One round of the loop from \<open>epoll_wait\<close> back to it, with no other thread running, runs every
  queued task.\<close>

lemma wk_run_trans: "wk_run s1 ys s2 \<Longrightarrow> wk_run s xs s1 \<Longrightarrow> wk_run s (xs @ ys) s2"
proof (induction rule: wk_run.induct)
  case (step s1 ys s2 zs s3)
  then show ?case
    using wk_run.step [of s "xs @ ys" s2 zs s3] by simp
qed simp

lemma run_tasks:
  "wk_phase s = Running xs \<Longrightarrow> wk_run s [] (s\<lparr>wk_phase := Waiting, wk_ran := wk_ran s @ xs\<rparr>)"
proof (induction xs arbitrary: s)
  case Nil
  then show ?case
    using wk_run.step [OF wk_run.refl wk_step.round [OF Nil]] by simp
next
  case (Cons x xs)
  let ?s = "s\<lparr>wk_phase := Running xs, wk_ran := wk_ran s @ [x]\<rparr>"
  have "wk_run s [] ?s"
    using wk_run.step [OF wk_run.refl wk_step.run [OF Cons.prems]] by simp
  then show ?case
    using wk_run_trans [OF Cons.IH [of ?s], of s "[]"] by simp
qed

lemma one_round:
  assumes "wk_phase s = Waiting"
  shows "wk_run s [] (s\<lparr>wk_event := 0, wk_queue := [], wk_ran := wk_ran s @ wk_queue s\<rparr>)"
proof -
  let ?b = "0 < wk_event s"
  let ?sa = "s\<lparr>wk_phase := Handling ?b\<rparr>"
  let ?sb = "(if ?b then EventRead ?sa else ?sa)\<lparr>wk_phase := Handled\<rparr>"
  let ?sc = "swap_pending ?sb"
  have steps: "wk_step s [] ?sa" "wk_step ?sa [] ?sb" "wk_step ?sb [] ?sc"
    by (rule wk_step.poll [OF assms]) (rule wk_step.handle wk_step.swap; simp)+
  have "wk_run s [] ?sc"
    using wk_run.step [OF wk_run.step [OF wk_run.step [OF wk_run.refl steps(1)] steps(2)] steps(3)] by simp
  moreover have c: "wk_queue ?sb = wk_queue s" "wk_event ?sb = 0" "wk_ran ?sb = wk_ran s" "wk_wakers ?sb = wk_wakers s"
    by (auto simp: EventRead_def)
  moreover have "wk_run ?sc [] (?sc\<lparr>wk_phase := Waiting, wk_ran := wk_ran ?sc @ wk_queue ?sb\<rparr>)"
    by (rule run_tasks) (simp add: swap_pending_def)
  ultimately have "wk_run s [] (?sc\<lparr>wk_phase := Waiting, wk_ran := wk_ran ?sc @ wk_queue ?sb\<rparr>)"
    using wk_run_trans by fastforce
  moreover have "?sc\<lparr>wk_phase := Waiting, wk_ran := wk_ran ?sc @ wk_queue ?sb\<rparr> =
      s\<lparr>wk_event := 0, wk_queue := [], wk_ran := wk_ran s @ wk_queue s\<rparr>"
    using assms c by (cases s) (simp add: swap_pending_def EventRead_def)
  ultimately show ?thesis
    by simp
qed

section \<open>Properties\<close>

text \<open>C16: the poller's map and the kernel's interest list stay in step: from a state where they agree,
  enabling and disabling reading and writing on an open descriptor never fails, registers the
  channel and watches exactly its events; removing a channel and then closing its descriptor, and
  a poll, keep them in step; a poll activates exactly the registered channels, in order.\<close>

theorem poller_in_step:
  assumes "po_inv p" "own_chan p c"
  shows "(\<forall>f \<in> {EnableRead, DisableRead, EnableWrite, DisableWrite}.
      \<exists>p'. f p c = Inr p' \<and> po_inv p' \<and> po_care p' (ch_fd (po_chans p c)) = Some c \<and>
        po_watch p' (ch_fd (po_chans p c)) = Some (ch_events (po_chans p' c))) \<and>
    po_inv (kernel_close (ch_Remove p c) (ch_fd (po_chans p c))) \<and>
    (\<exists>p'. Polling (Ready evs) p = Inr (List.map_filter (\<lambda>ev. po_care p (fst ev)) evs, p') \<and> po_inv p')"
proof (intro conjI)
  have u: "\<exists>p'. UpdateEvent (set_events p c ev) c = Inr p' \<and> po_inv p' \<and> po_care p' (ch_fd (po_chans p c)) = Some c \<and>
      po_watch p' (ch_fd (po_chans p c)) = Some (ch_events (po_chans p' c))" for ev
    using update_ok [OF assms, of ev] by (auto simp: set_events_def)
  show "\<forall>f \<in> {EnableRead, DisableRead, EnableWrite, DisableWrite}.
      \<exists>p'. f p c = Inr p' \<and> po_inv p' \<and> po_care p' (ch_fd (po_chans p c)) = Some c \<and>
        po_watch p' (ch_fd (po_chans p c)) = Some (ch_events (po_chans p' c))"
    using u by (simp add: EnableRead_def DisableRead_def EnableWrite_def DisableWrite_def)
  show "po_inv (kernel_close (ch_Remove p c) (ch_fd (po_chans p c)))"
    by (rule kernel_close_inv [OF remove_ok [OF assms(1)]]) (simp add: remove_fields [OF assms(1)])
  show "\<exists>p'. Polling (Ready evs) p = Inr (List.map_filter (\<lambda>ev. po_care p (fst ev)) evs, p') \<and> po_inv p'"
    using collect_ok [OF assms(1), of evs] by (cases "collect evs p") (simp add: Polling_def)
qed

definition po_demo :: poller where
  "po_demo = \<lparr>po_chans = (\<lambda>_. ch_new 5), po_care = Map.empty, po_open = (\<lambda>fd. fd = 5), po_watch = Map.empty\<rparr>"

lemma poller_in_step_witness:
  "\<exists>p'. EnableRead po_demo 0 = Inr p' \<and> po_inv p' \<and> po_care p' 5 = Some 0"
proof -
  have "po_inv po_demo" "own_chan po_demo 0"
    by (auto simp: po_inv_def own_chan_def po_demo_def ch_new_def)
  from poller_in_step [OF this] show ?thesis
    by (auto simp: po_demo_def ch_new_def)
qed

text \<open>C11: no wake-up is lost and tasks run in the order they were queued. However the calls of the
  threads interleave, the tasks run, those of the current round and those queued are together
  the tasks given to \<open>RunInLoop\<close> from other threads, in order; and while the loop waits in
  \<open>epoll_wait\<close> with a task queued, the event descriptor is readable or a thread is about to write to it.\<close>

theorem no_lost_wakeup:
  assumes "wk_run wk_init xs s"
  shows "wk_ran s @ in_round s @ wk_queue s = xs \<and>
    (wk_phase s = Waiting \<and> wk_queue s \<noteq> [] \<longrightarrow> 0 < wk_event s \<or> 0 < wk_wakers s)"
proof -
  have "announced wk_init"
    by (simp add: announced_def wk_init_def)
  from wk_run_ok [OF assms this] show ?thesis
    by (auto simp: announced_def wk_init_def in_round_def)
qed

lemma no_lost_wakeup_witness:
  "\<exists>s. wk_run wk_init [7 :: nat] s \<and> wk_ran s @ in_round s @ wk_queue s = [7]"
proof -
  have r: "wk_run wk_init [7 :: nat] ((QueueInLoop 7 wk_init)\<lparr>wk_wakers := wk_wakers (wk_init :: nat wakeup) + 1\<rparr>)"
    using wk_run.step [OF wk_run.refl wk_step.queue, of wk_init "7 :: nat"] by simp
  from no_lost_wakeup [OF r] r show ?thesis by blast
qed

text \<open>A queued task does run: from any reachable state in which the loop waits, its next round
  ends back in \<open>epoll_wait\<close> with every task that was queued run, in order, and the queue empty.\<close>

theorem queued_tasks_run:
  assumes "wk_run wk_init xs s" "wk_phase s = Waiting"
  shows "\<exists>s'. wk_run wk_init xs s' \<and> wk_phase s' = Waiting \<and> wk_queue s' = [] \<and> wk_ran s' = xs"
proof -
  let ?s = "s\<lparr>wk_event := 0, wk_queue := [], wk_ran := wk_ran s @ wk_queue s\<rparr>"
  have a: "announced wk_init"
    by (simp add: announced_def wk_init_def)
  have r: "wk_run wk_init xs ?s"
    using wk_run_trans [OF one_round [OF assms(2)] assms(1)] by simp
  have "wk_ran ?s = xs"
    using wk_run_ok [OF r a] assms(2) by (simp add: in_round_def wk_init_def)
  then show ?thesis
    using r assms(2) by (intro exI [of _ ?s]) simp
qed

lemma queued_tasks_run_witness:
  "\<exists>s'. wk_run wk_init [7 :: nat] s' \<and> wk_phase s' = Waiting \<and> wk_queue s' = [] \<and> wk_ran s' = [7]"
proof -
  have r: "wk_run wk_init [7 :: nat] ((QueueInLoop 7 wk_init)\<lparr>wk_wakers := wk_wakers (wk_init :: nat wakeup) + 1\<rparr>)"
    using wk_run.step [OF wk_run.refl wk_step.queue, of wk_init "7 :: nat"] by simp
  from queued_tasks_run [OF r] show ?thesis
    by (simp add: QueueInLoop_def wk_init_def)
qed

end
