(* ===== verification/Connection.thy ===== *)
theory Connection
  imports Byte_Buffer Timer_Wheel Event_Loop
begin

text \<open>
  The class \<open>Connection\<close> of \<open>muduo/server.hpp\<close>, as run by the thread of its loop: the handlers of the
  channel's events and the \<open>...InLoop\<close> tasks, over the poller, the timer wheel and the two
  buffers. The callbacks of the server and of the application are arguments; the bytes the kernel
  has accepted are \<open>w_sent\<close>. A system call's result is an argument of the handler that makes it.
\<close>

section \<open>The state\<close>

datatype conn_status = DISCONNECTED | CONNECTING | CONNECTED | DISCONNECTING

record conn =
  cn_id :: u64
  cn_timer_id :: u64
  cn_enable_release :: bool
  cn_socket :: socket
  cn_channel :: nat
  cn_in :: buffer
  cn_out :: buffer
  cn_status :: conn_status

record world =
  w_conn :: conn
  w_poll :: poller
  w_wheel :: wheel
  w_sent :: string

record conn_cbs =
  conn_cb :: "world callback"
  mess_cb :: "world callback"
  any_cb :: "world callback"
  closed_cb :: "world callback"
  server_close_cb :: "world callback"

definition set_conn :: "world \<Rightarrow> conn \<Rightarrow> world" where
  "set_conn w c = w\<lparr>w_conn := c\<rparr>"

definition set_poll :: "world \<Rightarrow> poller res \<Rightarrow> world res" where
  "set_poll w r = rbind r (\<lambda>p. Inr (w\<lparr>w_poll := p\<rparr>))"

text \<open>The constructor; the callbacks it gives the channel are \<open>conn_handlers\<close> below.\<close>

definition new_conn :: "u64 \<Rightarrow> u64 \<Rightarrow> int \<Rightarrow> nat \<Rightarrow> conn" where
  "new_conn conn_id timer_id sockfd ch =
     \<lparr>cn_id = conn_id, cn_timer_id = timer_id, cn_enable_release = False, cn_socket = \<lparr>sk_fd = sockfd\<rparr>,
      cn_channel = ch, cn_in = bf_new, cn_out = bf_new, cn_status = CONNECTING\<rparr>"

section \<open>The tasks of the loop\<close>

definition EstablishedInLoop :: "conn_cbs \<Rightarrow> world \<Rightarrow> world res" where
  "EstablishedInLoop cbs w =
     (if cn_status (w_conn w) \<noteq> CONNECTING then Inl AssertFailed
      else
        let w = set_conn w ((w_conn w)\<lparr>cn_status := CONNECTED\<rparr>) in
        rbind (set_poll w (EnableRead (w_poll w) (cn_channel (w_conn w)))) (call_cb (conn_cb cbs)))"

definition want_write :: "world \<Rightarrow> world res" where
  "want_write w =
     (let c = cn_channel (w_conn w) in
      if \<not> Writeable (po_chans (w_poll w) c) then set_poll w (EnableWrite (w_poll w) c) else Inr w)"

definition SendInLoop :: "string \<Rightarrow> world \<Rightarrow> world res" where
  "SendInLoop message w =
     (if cn_status (w_conn w) = DISCONNECTED then Inr w
      else rbind (WriteAndPush (cn_out (w_conn w)) message) (\<lambda>b.
        want_write (set_conn w ((w_conn w)\<lparr>cn_out := b\<rparr>))))"

definition CancelInactiveReleaseInLoop :: "world \<Rightarrow> world" where
  "CancelInactiveReleaseInLoop w =
     (let w1 = set_conn w ((w_conn w)\<lparr>cn_enable_release := False\<rparr>);
          i = cn_timer_id (w_conn w)
      in if IfExists (w_wheel w1) i then w1\<lparr>w_wheel := RemoveTimerTask (w_wheel w1) i\<rparr> else w1)"

definition EnableInactiveReleaseInLoop :: "u32 \<Rightarrow> world \<Rightarrow> world" where
  "EnableInactiveReleaseInLoop sec w =
     (let w1 = set_conn w ((w_conn w)\<lparr>cn_enable_release := True\<rparr>);
          i = cn_timer_id (w_conn w)
      in if IfExists (w_wheel w1) i then w1\<lparr>w_wheel := RefreshTimerTask (w_wheel w1) i\<rparr>
         else w1\<lparr>w_wheel := SetTimerTask (w_wheel w1) i sec\<rparr>)"

definition release_state :: "world \<Rightarrow> world" where
  "release_state w =
     (let c = w_conn w;
          p = ch_Remove (w_poll w) (cn_channel c);
          (sk, p') = sk_Close (cn_socket c) p;
          w1 = w\<lparr>w_conn := c\<lparr>cn_status := DISCONNECTED, cn_socket := sk\<rparr>, w_poll := p'\<rparr>
      in if IfExists (w_wheel w1) (cn_timer_id c) then CancelInactiveReleaseInLoop w1 else w1)"

definition ReleaseInLoop :: "conn_cbs \<Rightarrow> world \<Rightarrow> world res" where
  "ReleaseInLoop cbs w =
     rbind (call_cb (closed_cb cbs) (release_state w)) (call_cb (server_close_cb cbs))"

definition deliver :: "conn_cbs \<Rightarrow> world \<Rightarrow> world res" where
  "deliver cbs w = (if ReadableSize (cn_in (w_conn w)) > 0 then call_cb (mess_cb cbs) w else Inr w)"

definition ShutDownInLoop :: "conn_cbs \<Rightarrow> world \<Rightarrow> world res" where
  "ShutDownInLoop cbs w =
     rbind (deliver cbs (set_conn w ((w_conn w)\<lparr>cn_status := DISCONNECTING\<rparr>))) (\<lambda>w.
     rbind (if ReadableSize (cn_out (w_conn w)) > 0 then want_write w else Inr w) (\<lambda>w.
       if ReadableSize (cn_out (w_conn w)) = 0 then ReleaseInLoop cbs w else Inr w))"

section \<open>The handlers of the channel\<close>

definition HandleRead :: "conn_cbs \<Rightarrow> recv_result \<Rightarrow> world \<Rightarrow> world res" where
  "HandleRead cbs r w =
     (if cn_status (w_conn w) = DISCONNECTED then Inr w
      else rbind (sk_RecvNonBlock r 65536) (\<lambda>(ret, xs).
        if ret = - 2 then Inr w
        else if ret = - 1 then ShutDownInLoop cbs w
        else if ret = 0 then ShutDownInLoop cbs w
        else rbind (WriteAndPush (cn_in (w_conn w)) xs) (\<lambda>b.
          deliver cbs (set_conn w ((w_conn w)\<lparr>cn_in := b\<rparr>)))))"

text \<open>What the kernel accepts of the bytes given to \<open>send\<close>.\<close>

definition kernel_took :: "send_result \<Rightarrow> string \<Rightarrow> string" where
  "kernel_took r s = (case r of Sent n \<Rightarrow> take n s | SendErr _ \<Rightarrow> [])"

definition HandleWrite :: "conn_cbs \<Rightarrow> send_result \<Rightarrow> world \<Rightarrow> world res" where
  "HandleWrite cbs r w =
     rbind (ReadStringAndPop (cn_out (w_conn w)) (ReadableSize (cn_out (w_conn w)))) (\<lambda>(str, b).
       let w = (set_conn w ((w_conn w)\<lparr>cn_out := b\<rparr>))\<lparr>w_sent := w_sent w @ kernel_took r str\<rparr> in
     rbind (if sk_SendNonBlock r = - 1 then rbind (deliver cbs w) (ReleaseInLoop cbs) else Inr w) (\<lambda>w.
       if ReadableSize (cn_out (w_conn w)) = 0 then
         rbind (set_poll w (DisableWrite (w_poll w) (cn_channel (w_conn w)))) (\<lambda>w.
           if cn_status (w_conn w) = DISCONNECTING then ReleaseInLoop cbs w else Inr w)
       else Inr w))"

definition HandleClose :: "conn_cbs \<Rightarrow> world \<Rightarrow> world res" where
  "HandleClose cbs w = rbind (deliver cbs w) (ReleaseInLoop cbs)"

definition HandleError :: "conn_cbs \<Rightarrow> world \<Rightarrow> world res" where
  "HandleError cbs w = HandleClose cbs w"

definition HandleAnyEvent :: "conn_cbs \<Rightarrow> world \<Rightarrow> world res" where
  "HandleAnyEvent cbs w =
     rbind (call_cb (any_cb cbs) w) (\<lambda>w.
       Inr (if cn_enable_release (w_conn w)
            then w\<lparr>w_wheel := RefreshTimerTask (w_wheel w) (cn_timer_id (w_conn w))\<rparr> else w))"

definition conn_handlers :: "conn_cbs \<Rightarrow> recv_result \<Rightarrow> send_result \<Rightarrow> world callbacks" where
  "conn_handlers cbs r s =
     \<lparr>read_cb = Some (HandleRead cbs r), write_cb = Some (HandleWrite cbs s), error_cb = Some (HandleError cbs),
      any_event_cb = Some (HandleAnyEvent cbs), close_cb = Some (HandleClose cbs)\<rparr>"

section \<open>The invariant\<close>

text \<open>A connection that is not disconnected has an open socket, and its channel is the one the
  poller may have for it.\<close>

definition conn_open :: "world \<Rightarrow> bool" where
  "conn_open w \<longleftrightarrow> 0 < sk_fd (cn_socket (w_conn w)) \<and>
     ch_fd (po_chans (w_poll w) (cn_channel (w_conn w))) = sk_fd (cn_socket (w_conn w)) \<and>
     own_chan (w_poll w) (cn_channel (w_conn w))"

definition cn_inv :: "world \<Rightarrow> bool" where
  "cn_inv w \<longleftrightarrow> bf_inv (cn_in (w_conn w)) \<and> bf_inv (cn_out (w_conn w)) \<and> po_inv (w_poll w) \<and>
     tw_inv (w_wheel w) \<and> (cn_status (w_conn w) \<noteq> DISCONNECTED \<longrightarrow> conn_open w)"

lemma cn_invD:
  assumes "cn_inv w"
  shows "bf_inv (cn_in (w_conn w))" "bf_inv (cn_out (w_conn w))" "po_inv (w_poll w)" "tw_inv (w_wheel w)"
    "cn_status (w_conn w) \<noteq> DISCONNECTED \<Longrightarrow> conn_open w"
  using assms by (simp_all add: cn_inv_def)

lemma set_conn_simps [simp]:
  "w_conn (set_conn w c) = c" "w_poll (set_conn w c) = w_poll w" "w_wheel (set_conn w c) = w_wheel w"
  "w_sent (set_conn w c) = w_sent w"
  by (simp_all add: set_conn_def)

lemma Cancel_simps [simp]:
  "w_poll (CancelInactiveReleaseInLoop w) = w_poll w" "w_sent (CancelInactiveReleaseInLoop w) = w_sent w"
  "w_conn (CancelInactiveReleaseInLoop w) = (w_conn w)\<lparr>cn_enable_release := False\<rparr>"
  by (simp_all add: CancelInactiveReleaseInLoop_def Let_def set_conn_def)

lemma Cancel_wheel:
  "w_wheel (CancelInactiveReleaseInLoop w) =
     (if IfExists (w_wheel w) (cn_timer_id (w_conn w)) then RemoveTimerTask (w_wheel w) (cn_timer_id (w_conn w))
      else w_wheel w)"
  by (simp add: CancelInactiveReleaseInLoop_def Let_def)

lemma ReadableSize_0:
  assumes "bf_inv b"
  shows "ReadableSize b = 0 \<longleftrightarrow> content b = []"
  using ReadableSize_content [OF assms] by (metis length_0_conv unat_0 unat_eq_zero)

lemma ReadableSize_pos:
  assumes "bf_inv b"
  shows "0 < ReadableSize b \<longleftrightarrow> content b \<noteq> []"
  using ReadableSize_0 [OF assms] by (metis word_gt_0)

text \<open>Watching for output.\<close>

lemma set_poll_events:
  assumes inv: "cn_inv w" and st: "cn_status (w_conn w) \<noteq> DISCONNECTED"
  shows "\<exists>w'. set_poll w (UpdateEvent (set_events (w_poll w) (cn_channel (w_conn w)) ev) (cn_channel (w_conn w))) = Inr w' \<and>
    cn_inv w' \<and> w_conn w' = w_conn w \<and> w_sent w' = w_sent w \<and> w_wheel w' = w_wheel w \<and>
    ch_events (po_chans (w_poll w') (cn_channel (w_conn w))) = ev \<and>
    po_watch (w_poll w') (sk_fd (cn_socket (w_conn w))) = Some ev"
proof -
  note d = cn_invD [OF inv]
  let ?c = "cn_channel (w_conn w)"
  have o: "0 < sk_fd (cn_socket (w_conn w))" "ch_fd (po_chans (w_poll w) ?c) = sk_fd (cn_socket (w_conn w))"
      "own_chan (w_poll w) ?c"
    using d(5) [OF st] by (simp_all add: conn_open_def)
  obtain p' where p': "UpdateEvent (set_events (w_poll w) ?c ev) ?c = Inr p'" "po_inv p'"
      "po_care p' = (po_care (w_poll w))(ch_fd (po_chans (w_poll w) ?c) := Some ?c)"
      "po_watch p' (ch_fd (po_chans (w_poll w) ?c)) = Some ev"
      "po_chans p' = po_chans (set_events (w_poll w) ?c ev)" "po_open p' = po_open (w_poll w)"
    using update_ok [OF d(3) o(3), of ev] by blast
  have "conn_open (w\<lparr>w_poll := p'\<rparr>)"
    using o p' by (simp add: conn_open_def own_chan_def set_events_def)
  then have "cn_inv (w\<lparr>w_poll := p'\<rparr>)"
    using d p'(2) by (simp add: cn_inv_def)
  then show ?thesis
    using p' o(2) by (intro exI [of _ "w\<lparr>w_poll := p'\<rparr>"]) (simp add: set_poll_def set_events_def)
qed

lemma or_bit_Writeable: "(e OR EPOLLOUT) AND EPOLLOUT \<noteq> 0"
proof -
  have "(e OR EPOLLOUT) AND EPOLLOUT = EPOLLOUT"
    by (rule bit_eqI) (auto simp: bit_simps)
  then show ?thesis
    by (simp add: EPOLLOUT_def)
qed

lemma want_write_ok:
  assumes inv: "cn_inv w" and st: "cn_status (w_conn w) \<noteq> DISCONNECTED"
  shows "\<exists>w'. want_write w = Inr w' \<and> cn_inv w' \<and> w_conn w' = w_conn w \<and> w_sent w' = w_sent w \<and>
    w_wheel w' = w_wheel w \<and> Writeable (po_chans (w_poll w') (cn_channel (w_conn w)))"
proof (cases "Writeable (po_chans (w_poll w) (cn_channel (w_conn w)))")
  case True
  then show ?thesis using inv by (simp add: want_write_def)
next
  case False
  then show ?thesis
    using set_poll_events [OF inv st, of "ch_events (po_chans (w_poll w) (cn_channel (w_conn w))) OR EPOLLOUT"]
      or_bit_Writeable
    by (auto simp: want_write_def EnableWrite_def Writeable_def Let_def)
qed

lemma set_out_inv:
  assumes "cn_inv w" "bf_inv b"
  shows "cn_inv (set_conn w ((w_conn w)\<lparr>cn_out := b\<rparr>))"
  using assms by (simp add: cn_inv_def conn_open_def)

lemma set_sent_inv: "cn_inv (w\<lparr>w_sent := s\<rparr>) = cn_inv w"
  by (simp add: cn_inv_def conn_open_def)

lemma SendInLoop_ok:
  assumes inv: "cn_inv w" and st: "cn_status (w_conn w) \<noteq> DISCONNECTED" and rm: "room (cn_out (w_conn w)) (length msg)"
  shows "\<exists>w'. SendInLoop msg w = Inr w' \<and> cn_inv w' \<and> w_sent w' = w_sent w \<and>
    content (cn_out (w_conn w')) = content (cn_out (w_conn w)) @ msg \<and>
    cn_status (w_conn w') = cn_status (w_conn w) \<and> cn_in (w_conn w') = cn_in (w_conn w) \<and>
    Writeable (po_chans (w_poll w') (cn_channel (w_conn w')))"
proof -
  obtain b where b: "WriteAndPush (cn_out (w_conn w)) msg = Inr b" "bf_inv b"
      "content b = content (cn_out (w_conn w)) @ msg"
    using bs.app_ok [OF cn_invD(2) [OF inv] rm] by blast
  let ?w = "set_conn w ((w_conn w)\<lparr>cn_out := b\<rparr>)"
  have i: "cn_inv ?w"
    by (rule set_out_inv [OF inv b(2)])
  obtain w' where "want_write ?w = Inr w'" "cn_inv w'" "w_conn w' = w_conn ?w" "w_sent w' = w_sent ?w"
      "Writeable (po_chans (w_poll w') (cn_channel (w_conn ?w)))"
    using want_write_ok [OF i] st by auto
  then show ?thesis
    using st b by (simp add: SendInLoop_def)
qed

text \<open>Releasing.\<close>

lemma release_state_fields:
  "cn_status (w_conn (release_state w)) = DISCONNECTED"
  "cn_channel (w_conn (release_state w)) = cn_channel (w_conn w)"
  "cn_timer_id (w_conn (release_state w)) = cn_timer_id (w_conn w)"
  "cn_in (w_conn (release_state w)) = cn_in (w_conn w)" "cn_out (w_conn (release_state w)) = cn_out (w_conn w)"
  "w_sent (release_state w) = w_sent w"
  "cn_socket (w_conn (release_state w)) = fst (sk_Close (cn_socket (w_conn w)) (ch_Remove (w_poll w) (cn_channel (w_conn w))))"
  "w_poll (release_state w) = snd (sk_Close (cn_socket (w_conn w)) (ch_Remove (w_poll w) (cn_channel (w_conn w))))"
  by (simp_all add: release_state_def Let_def split: prod.split)

lemma release_state_wheel:
  "w_wheel (release_state w) =
     (if IfExists (w_wheel w) (cn_timer_id (w_conn w)) then RemoveTimerTask (w_wheel w) (cn_timer_id (w_conn w)) else w_wheel w)"
  by (simp add: release_state_def Let_def Cancel_wheel split: prod.split)

lemma Remove_not_exists: "\<not> IfExists (RemoveTimerTask w i) i"
  by (auto simp: IfExists_def RemoveTimerTask_def Let_def split: option.split)

lemma release_state_ok:
  assumes inv: "cn_inv w" and st: "cn_status (w_conn w) \<noteq> DISCONNECTED"
  shows "cn_inv (release_state w) \<and> sk_fd (cn_socket (w_conn (release_state w))) = - 1 \<and>
    \<not> po_open (w_poll (release_state w)) (sk_fd (cn_socket (w_conn w))) \<and>
    po_care (w_poll (release_state w)) (sk_fd (cn_socket (w_conn w))) = None \<and>
    \<not> IfExists (w_wheel (release_state w)) (cn_timer_id (w_conn w))"
proof -
  note d = cn_invD [OF inv]
  have o: "0 < sk_fd (cn_socket (w_conn w))"
      "ch_fd (po_chans (w_poll w) (cn_channel (w_conn w))) = sk_fd (cn_socket (w_conn w))"
    using d(5) [OF st] by (simp_all add: conn_open_def)
  let ?fd = "sk_fd (cn_socket (w_conn w))"
  let ?p = "ch_Remove (w_poll w) (cn_channel (w_conn w))"
  have c: "po_care ?p ?fd = None"
    using remove_fields(1) [OF d(3)] o(2) by simp
  have "po_inv (kernel_close ?p ?fd)"
    by (rule kernel_close_inv [OF remove_ok [OF d(3)] c])
  then have "cn_inv (release_state w)"
    using d o(1) RemoveTimerTask_inv [OF d(4)]
    by (simp add: cn_inv_def release_state_fields release_state_wheel sk_Close_def)
  then show ?thesis
    using o(1) c Remove_not_exists by (simp add: release_state_fields release_state_wheel sk_Close_def kernel_close_def)
qed

lemma HandleWrite_took:
  assumes inv: "cn_inv w" and st: "cn_status (w_conn w) \<noteq> DISCONNECTED" and ne: "content (cn_out (w_conn w)) \<noteq> []"
    and r: "sk_SendNonBlock r \<noteq> - 1"
  shows "\<exists>w1. cn_inv w1 \<and> w_sent w1 = w_sent w @ kernel_took r (content (cn_out (w_conn w))) \<and>
      content (cn_out (w_conn w1)) = [] \<and> cn_in (w_conn w1) = cn_in (w_conn w) \<and>
      cn_status (w_conn w1) = cn_status (w_conn w) \<and> cn_socket (w_conn w1) = cn_socket (w_conn w) \<and>
      HandleWrite cbs r w =
        (if cn_status (w_conn w) = DISCONNECTING then ReleaseInLoop cbs w1 else Inr w1)"
proof -
  note d = cn_invD [OF inv]
  let ?out = "cn_out (w_conn w)"
  have u: "unat (ReadableSize ?out) = length (content ?out)"
    by (rule ReadableSize_content [OF d(2)])
  obtain b where b: "ReadStringAndPop ?out (ReadableSize ?out) = Inr (content ?out, b)" "bf_inv b" "content b = []"
    using bs.pop_ok [OF d(2), of "ReadableSize ?out"] u ne by auto
  let ?w = "(set_conn w ((w_conn w)\<lparr>cn_out := b\<rparr>))\<lparr>w_sent := w_sent w @ kernel_took r (content ?out)\<rparr>"
  have i: "cn_inv ?w"
    unfolding set_sent_inv by (rule set_out_inv [OF inv b(2)])
  let ?c = "cn_channel (w_conn w)"
  obtain w1 where w1: "set_poll ?w (DisableWrite (w_poll ?w) ?c) = Inr w1" "cn_inv w1" "w_conn w1 = w_conn ?w"
      "w_sent w1 = w_sent ?w"
    using set_poll_events [OF i, of "ch_events (po_chans (w_poll w) ?c) AND NOT EPOLLOUT"] st
    by (auto simp: DisableWrite_def)
  have "HandleWrite cbs r w = (if cn_status (w_conn w) = DISCONNECTING then ReleaseInLoop cbs w1 else Inr w1)"
    using b(1) w1(1,3) ReadableSize_0 [OF b(2)] b(3) r by (simp add: HandleWrite_def)
  then show ?thesis
    using w1 b(3) by (intro exI [of _ w1]) simp
qed

lemma sk_Send_kinds:
  "sk_SendNonBlock (Sent n) \<noteq> - 1" "would_block e \<Longrightarrow> sk_SendNonBlock (SendErr e) \<noteq> - 1"
  "kernel_took (Sent n) s = take n s" "kernel_took (SendErr e) s = []"
  by (simp_all add: sk_SendNonBlock_def sk_Send_def kernel_took_def)

lemma HandleWrite_all:
  assumes "cn_inv w" "cn_status (w_conn w) \<noteq> DISCONNECTED" "content (cn_out (w_conn w)) \<noteq> []"
  shows "\<exists>w1. cn_inv w1 \<and> w_sent w1 = w_sent w @ take n (content (cn_out (w_conn w))) \<and>
      content (cn_out (w_conn w1)) = [] \<and> cn_in (w_conn w1) = cn_in (w_conn w) \<and>
      cn_status (w_conn w1) = cn_status (w_conn w) \<and> cn_socket (w_conn w1) = cn_socket (w_conn w) \<and>
      HandleWrite cbs (Sent n) w =
        (if cn_status (w_conn w) = DISCONNECTING then ReleaseInLoop cbs w1 else Inr w1)"
  using HandleWrite_took [OF assms sk_Send_kinds(1) [of n]] by (simp add: sk_Send_kinds)

text \<open>Callbacks that return and leave the poller and the connection's record alone.\<close>

definition quiet :: "world callback \<Rightarrow> bool" where
  "quiet cb \<longleftrightarrow> (\<forall>w. \<exists>w'. call_cb cb w = Inr w' \<and> w_poll w' = w_poll w \<and> w_conn w' = w_conn w)"

lemma quiet_None: "quiet None"
  by (simp add: quiet_def call_cb_def)

lemma quietE:
  assumes "quiet cb"
  obtains w' where "call_cb cb w = Inr w'" "w_poll w' = w_poll w" "w_conn w' = w_conn w"
  using assms unfolding quiet_def by blast

lemma ReleaseInLoop_quiet:
  assumes "quiet (closed_cb cbs)" "quiet (server_close_cb cbs)"
  shows "\<exists>w'. ReleaseInLoop cbs w = Inr w' \<and> w_poll w' = w_poll (release_state w) \<and> w_conn w' = w_conn (release_state w)"
proof -
  obtain wa where a: "call_cb (closed_cb cbs) (release_state w) = Inr wa" "w_poll wa = w_poll (release_state w)"
      "w_conn wa = w_conn (release_state w)"
    using quietE [OF assms(1)] by metis
  obtain wb where b: "call_cb (server_close_cb cbs) wa = Inr wb" "w_poll wb = w_poll wa" "w_conn wb = w_conn wa"
    using quietE [OF assms(2)] by metis
  show ?thesis
    using a b by (simp add: ReleaseInLoop_def)
qed

lemma deliver_empty: "bf_inv (cn_in (w_conn w)) \<Longrightarrow> content (cn_in (w_conn w)) = [] \<Longrightarrow> deliver cbs w = Inr w"
  using ReadableSize_0 [of "cn_in (w_conn w)"] by (simp add: deliver_def)

primrec SendAll :: "string list \<Rightarrow> world \<Rightarrow> world res" where
  "SendAll [] w = Inr w"
| "SendAll (m # ms) w = rbind (SendInLoop m w) (SendAll ms)"

primrec fits_all :: "string list \<Rightarrow> nat \<Rightarrow> bool" where
  "fits_all [] cap = True"
| "fits_all (m # ms) cap \<longleftrightarrow> 2 * cap + length m < 2 ^ 63 \<and> fits_all ms (2 * cap + length m)"

text \<open>The same of the lengths of the messages.\<close>

primrec fits_lens :: "nat list \<Rightarrow> nat \<Rightarrow> bool" where
  "fits_lens [] cap = True"
| "fits_lens (l # ls) cap \<longleftrightarrow> 2 * cap + l < 2 ^ 63 \<and> fits_lens ls (2 * cap + l)"

lemma fits_all_lens: "fits_all ms cap = fits_lens (map length ms) cap"
  by (induction ms arbitrary: cap) simp_all

lemma fits_lens_mono: "fits_lens ls cap \<Longrightarrow> cap' \<le> cap \<Longrightarrow> fits_lens ls cap'"
proof (induction ls arbitrary: cap cap')
  case (Cons l ls)
  have "2 * cap' + l \<le> 2 * cap + l"
    using Cons.prems(2) by simp
  then show ?case
    using Cons.IH [of "2 * cap + l" "2 * cap' + l"] Cons.prems(1) by simp
qed simp

lemma fits_all_mono: "fits_all ms cap \<Longrightarrow> cap' \<le> cap \<Longrightarrow> fits_all ms cap'"
  unfolding fits_all_lens by (rule fits_lens_mono)

lemma SendInLoop_cap:
  assumes inv: "cn_inv w" and rm: "room (cn_out (w_conn w)) (length msg)" and r: "SendInLoop msg w = Inr w'"
    and st: "cn_status (w_conn w) \<noteq> DISCONNECTED"
  shows "length (bf_data (cn_out (w_conn w'))) \<le> 2 * length (bf_data (cn_out (w_conn w))) + length msg"
proof -
  obtain b where b: "WriteAndPush (cn_out (w_conn w)) msg = Inr b" "bf_inv b"
      "length (bf_data b) \<le> 2 * length (bf_data (cn_out (w_conn w))) + length msg"
    using WriteAndPush_ok [OF cn_invD(2) [OF inv] rm] by blast
  let ?w = "set_conn w ((w_conn w)\<lparr>cn_out := b\<rparr>)"
  have "cn_inv ?w"
    by (rule set_out_inv [OF inv b(2)])
  from want_write_ok [OF this] have "w_conn w' = w_conn ?w"
    using r st b(1) by (auto simp: SendInLoop_def)
  then show ?thesis
    using b(3) by simp
qed

lemma SendAll_ok:
  assumes "cn_inv w" "cn_status (w_conn w) \<noteq> DISCONNECTED" "fits_all ms (length (bf_data (cn_out (w_conn w))))"
  shows "\<exists>w'. SendAll ms w = Inr w' \<and> cn_inv w' \<and> w_sent w' = w_sent w \<and>
    content (cn_out (w_conn w')) = content (cn_out (w_conn w)) @ concat ms \<and>
    cn_status (w_conn w') = cn_status (w_conn w)"
  using assms
proof (induction ms arbitrary: w)
  case (Cons m ms)
  have rm: "room (cn_out (w_conn w)) (length m)"
    using Cons.prems(3) by (simp add: room_def)
  obtain w1 where w1: "SendInLoop m w = Inr w1" "cn_inv w1" "w_sent w1 = w_sent w"
      "content (cn_out (w_conn w1)) = content (cn_out (w_conn w)) @ m" "cn_status (w_conn w1) = cn_status (w_conn w)"
    using SendInLoop_ok [OF Cons.prems(1,2) rm] by blast
  have "fits_all ms (length (bf_data (cn_out (w_conn w1))))"
    using fits_all_mono SendInLoop_cap [OF Cons.prems(1) rm w1(1) Cons.prems(2)] Cons.prems(3) by simp blast
  from Cons.IH [OF w1(2) _ this] show ?case
    using w1 Cons.prems(2) by auto
qed simp

section \<open>A first state\<close>

definition w_demo :: world where
  "w_demo = \<lparr>w_conn = (new_conn 1 1 5 0)\<lparr>cn_status := CONNECTED\<rparr>, w_poll = po_demo, w_wheel = tw_new, w_sent = []\<rparr>"

definition no_cbs :: conn_cbs where
  "no_cbs = \<lparr>conn_cb = None, mess_cb = None, any_cb = None, closed_cb = None, server_close_cb = None\<rparr>"

lemma w_demo_inv: "cn_inv w_demo" "cn_status (w_conn w_demo) = CONNECTED" "content (cn_out (w_conn w_demo)) = []"
  "content (cn_in (w_conn w_demo)) = []"
proof -
  have "po_inv po_demo" "own_chan po_demo 0"
    by (auto simp: po_inv_def own_chan_def po_demo_def ch_new_def)
  then show "cn_inv w_demo"
    using tw_new_inv by (simp add: cn_inv_def w_demo_def new_conn_def conn_open_def) (simp add: po_demo_def ch_new_def)
qed (simp_all add: w_demo_def new_conn_def)

lemma w_demo_sent: "\<exists>w. SendAll [''abc''] w_demo = Inr w \<and> cn_inv w \<and> content (cn_out (w_conn w)) = ''abc'' \<and>
   cn_status (w_conn w) = CONNECTED \<and> w_sent w = []"
  using SendAll_ok [OF w_demo_inv(1), of "[''abc'']"] w_demo_inv(2,3)
  by (auto simp: w_demo_def new_conn_def bf_new_def default_size_def)

section \<open>Properties\<close>

text \<open>Messages given to \<open>Send\<close> on an open connection reach the kernel complete and in order: after
  any sequence of them, a write event at which the kernel takes all that is offered leaves the
  output buffer empty and has sent exactly what was pending followed by the messages; the
  connection stays as it was and keeps its invariant.\<close>

theorem sends_arrive_in_order:
  assumes "cn_inv w" "cn_status (w_conn w) = CONNECTED" "fits_all ms (length (bf_data (cn_out (w_conn w))))"
    and "content (cn_out (w_conn w)) @ concat ms \<noteq> []"
    and "length (content (cn_out (w_conn w)) @ concat ms) \<le> n"
  shows "\<exists>w1 w2. SendAll ms w = Inr w1 \<and> HandleWrite cbs (Sent n) w1 = Inr w2 \<and> cn_inv w2 \<and>
    w_sent w2 = w_sent w @ content (cn_out (w_conn w)) @ concat ms \<and> content (cn_out (w_conn w2)) = [] \<and>
    cn_status (w_conn w2) = CONNECTED"
proof -
  obtain w1 where w1: "SendAll ms w = Inr w1" "cn_inv w1" "w_sent w1 = w_sent w"
      "content (cn_out (w_conn w1)) = content (cn_out (w_conn w)) @ concat ms" "cn_status (w_conn w1) = CONNECTED"
    using SendAll_ok [OF assms(1) _ assms(3)] assms(2) by auto
  have "content (cn_out (w_conn w1)) \<noteq> []"
    using w1(4) assms(4) by simp
  then obtain w2 where w2: "cn_inv w2" "w_sent w2 = w_sent w1 @ take n (content (cn_out (w_conn w1)))"
      "content (cn_out (w_conn w2)) = []" "cn_status (w_conn w2) = CONNECTED" "HandleWrite cbs (Sent n) w1 = Inr w2"
    using HandleWrite_all [OF w1(2), of n cbs] w1(5) by auto
  have "take n (content (cn_out (w_conn w1))) = content (cn_out (w_conn w)) @ concat ms"
    using w1(4) assms(5) by simp
  then show ?thesis
    using w1 w2 by (intro exI [of _ w1] exI [of _ w2]) simp
qed

lemma sends_arrive_in_order_witness:
  "\<exists>w1 w2. SendAll [''ab'', ''c''] w_demo = Inr w1 \<and> HandleWrite no_cbs (Sent 3) w1 = Inr w2 \<and> w_sent w2 = ''abc''"
proof -
  have "fits_all [''ab'', ''c''] (length (bf_data (cn_out (w_conn w_demo))))"
    by (simp add: w_demo_def new_conn_def bf_new_def default_size_def)
  from sends_arrive_in_order [OF w_demo_inv(1,2) this, of 3 no_cbs] show ?thesis
    using w_demo_inv(3) by (auto simp: w_demo_def)
qed

text \<open>C14: shutting down waits for one write event and no more. The message callback first gets what
  is in the input buffer and may answer. If no output is pending then, the connection is released
  at once; else it stays open, disconnecting, keeps its output and watches for writing. The next write event
  at which \<open>send\<close> does not fail releases it, whatever the kernel took: all pending output has been sent exactly
  if the kernel took it in that one call, and the rest, or all of it where the call would
  block, is lost. The callback is one that returns and leaves the connection open.\<close>

theorem shutdown_flushes:
  assumes "cn_inv w" "cn_status (w_conn w) \<noteq> DISCONNECTED"
    and "deliver cbs (set_conn w ((w_conn w)\<lparr>cn_status := DISCONNECTING\<rparr>)) = Inr wd"
    and "cn_inv wd" "cn_status (w_conn wd) = DISCONNECTING"
  shows "if content (cn_out (w_conn wd)) = [] then ShutDownInLoop cbs w = ReleaseInLoop cbs wd
    else \<exists>w1. ShutDownInLoop cbs w = Inr w1 \<and> cn_inv w1 \<and> w_conn w1 = w_conn wd \<and> w_sent w1 = w_sent wd \<and>
      Writeable (po_chans (w_poll w1) (cn_channel (w_conn w1))) \<and>
      (\<forall>n. \<exists>w2. HandleWrite cbs (Sent n) w1 = ReleaseInLoop cbs w2 \<and> cn_inv w2 \<and>
         w_sent w2 = w_sent wd @ take n (content (cn_out (w_conn wd))) \<and>
         (w_sent w2 = w_sent wd @ content (cn_out (w_conn wd)) \<longleftrightarrow> length (content (cn_out (w_conn wd))) \<le> n)) \<and>
      (\<forall>e. would_block e \<longrightarrow>
         (\<exists>w2. HandleWrite cbs (SendErr e) w1 = ReleaseInLoop cbs w2 \<and> cn_inv w2 \<and> w_sent w2 = w_sent wd))"
proof -
  note d = cn_invD [OF assms(4)]
  let ?out = "content (cn_out (w_conn wd))"
  have z: "ReadableSize (cn_out (w_conn wd)) = 0 \<longleftrightarrow> ?out = []"
    by (rule ReadableSize_0 [OF d(2)])
  show ?thesis
  proof (cases "?out = []")
    case True
    then show ?thesis
      using assms(3) z by (simp add: ShutDownInLoop_def)
  next
    case False
    obtain w1 where w1: "want_write wd = Inr w1" "cn_inv w1" "w_conn w1 = w_conn wd" "w_sent w1 = w_sent wd"
        "Writeable (po_chans (w_poll w1) (cn_channel (w_conn wd)))"
      using want_write_ok [OF assms(4)] assms(5) by auto
    have s: "ShutDownInLoop cbs w = Inr w1"
      using assms(3) z False w1(1,3) by (simp add: ShutDownInLoop_def word_gt_0)
    have ne: "cn_status (w_conn w1) \<noteq> DISCONNECTED" "content (cn_out (w_conn w1)) \<noteq> []"
      using w1(3) False assms(5) by simp_all
    have h: "\<exists>w2. HandleWrite cbs r w1 = ReleaseInLoop cbs w2 \<and> cn_inv w2 \<and> w_sent w2 = w_sent wd @ kernel_took r ?out"
      if "sk_SendNonBlock r \<noteq> - 1" for r
      using HandleWrite_took [OF w1(2) ne that] w1(3,4) assms(5) by auto
    have t: "take n ?out = ?out \<longleftrightarrow> length ?out \<le> n" for n
      by (rule take_all_iff)
    have S: "\<exists>w2. HandleWrite cbs (Sent n) w1 = ReleaseInLoop cbs w2 \<and> cn_inv w2 \<and> w_sent w2 = w_sent wd @ take n ?out \<and>
        (w_sent w2 = w_sent wd @ ?out \<longleftrightarrow> length ?out \<le> n)" for n
    proof -
      obtain w2 where "HandleWrite cbs (Sent n) w1 = ReleaseInLoop cbs w2" "cn_inv w2" "w_sent w2 = w_sent wd @ take n ?out"
        using h [OF sk_Send_kinds(1) [of n]] unfolding sk_Send_kinds by blast
      then show ?thesis
        using t by (intro exI [of _ w2]) simp
    qed
    have E: "\<exists>w2. HandleWrite cbs (SendErr e) w1 = ReleaseInLoop cbs w2 \<and> cn_inv w2 \<and> w_sent w2 = w_sent wd"
      if "would_block e" for e
      using h [OF sk_Send_kinds(2) [OF that]] unfolding sk_Send_kinds by simp
    have wr: "Writeable (po_chans (w_poll w1) (cn_channel (w_conn w1)))"
      using w1(3,5) by simp
    show ?thesis
      unfolding if_not_P [OF False] by (rule exI [of _ w1]) (intro conjI allI impI s w1(2-4) wr S E)
  qed
qed

text \<open>An application that answers with what it reads.\<close>

definition echo :: "world \<Rightarrow> world res" where
  "echo w = rbind (ReadStringAndPop (cn_in (w_conn w)) (ReadableSize (cn_in (w_conn w)))) (\<lambda>(s, b).
     SendInLoop s (set_conn w ((w_conn w)\<lparr>cn_in := b\<rparr>)))"

lemma shutdown_flushes_witness:
  "\<exists>w w1 w2 w3. content (cn_in (w_conn w)) = ''GET'' \<and> ShutDownInLoop (no_cbs\<lparr>mess_cb := Some echo\<rparr>) w = Inr w1 \<and>
     HandleWrite (no_cbs\<lparr>mess_cb := Some echo\<rparr>) (Sent 3) w1 = ReleaseInLoop (no_cbs\<lparr>mess_cb := Some echo\<rparr>) w2 \<and>
     w_sent w2 = ''GET'' \<and>
     HandleWrite (no_cbs\<lparr>mess_cb := Some echo\<rparr>) (Sent 1) w1 = ReleaseInLoop (no_cbs\<lparr>mess_cb := Some echo\<rparr>) w3 \<and>
     w_sent w3 = ''G''"
proof -
  let ?cbs = "no_cbs\<lparr>mess_cb := Some echo\<rparr>"
  have "room bf_new (length ''GET'')"
    by (simp add: room_def bf_new_def default_size_def)
  moreover have "cn_in (w_conn w_demo) = bf_new" "cn_out (w_conn w_demo) = bf_new" "w_sent w_demo = []"
    by (simp_all add: w_demo_def new_conn_def)
  ultimately obtain b where b: "bf_inv b" "content b = ''GET''"
    using bs.app_ok [OF cn_invD(1) [OF w_demo_inv(1)], of "''GET''"] w_demo_inv(4) by auto
  let ?w = "set_conn w_demo ((w_conn w_demo)\<lparr>cn_in := b\<rparr>)"
  have w: "cn_inv ?w" "cn_status (w_conn ?w) = CONNECTED"
    using w_demo_inv b(1) by (simp_all add: cn_inv_def conn_open_def)
  let ?d = "set_conn ?w ((w_conn ?w)\<lparr>cn_status := DISCONNECTING\<rparr>)"
  have u: "0 < ReadableSize b" "unat (ReadableSize b) = 3"
    using ReadableSize_pos [OF b(1)] ReadableSize_content [OF b(1)] b(2) by simp_all
  obtain b' where b': "ReadStringAndPop b (ReadableSize b) = Inr (''GET'', b')" "bf_inv b'"
    using bs.pop_ok [OF b(1), of "ReadableSize b"] u b(2) by auto
  let ?e = "set_conn ?d ((w_conn ?d)\<lparr>cn_in := b'\<rparr>)"
  have "cn_inv ?e"
    using w_demo_inv b'(2) by (simp add: cn_inv_def conn_open_def)
  moreover have "room (cn_out (w_conn ?e)) (length ''GET'')"
    by (simp add: w_demo_def new_conn_def room_def bf_new_def default_size_def)
  ultimately obtain wd where wd: "SendInLoop ''GET'' ?e = Inr wd" "cn_inv wd" "w_sent wd = w_sent ?e"
      "content (cn_out (w_conn wd)) = content (cn_out (w_conn ?e)) @ ''GET''" "cn_status (w_conn wd) = cn_status (w_conn ?e)"
    using SendInLoop_ok [of ?e "''GET''"] by auto
  have dl: "deliver ?cbs ?d = Inr wd"
    using u(1) b'(1) wd(1) by (simp add: deliver_def call_cb_def echo_def)
  have o: "content (cn_out (w_conn wd)) = ''GET''" "w_sent wd = []" "cn_status (w_conn wd) = DISCONNECTING"
    using wd(3-5) w_demo_inv(3) by (simp_all add: w_demo_def)
  then have ne: "content (cn_out (w_conn wd)) \<noteq> []"
    by simp
  have st: "cn_status (w_conn ?w) \<noteq> DISCONNECTED"
    using w(2) by simp
  obtain w1 where w1: "ShutDownInLoop ?cbs ?w = Inr w1"
    and n: "\<forall>n. \<exists>w2. HandleWrite ?cbs (Sent n) w1 = ReleaseInLoop ?cbs w2 \<and> cn_inv w2 \<and>
      w_sent w2 = w_sent wd @ take n (content (cn_out (w_conn wd))) \<and>
      (w_sent w2 = w_sent wd @ content (cn_out (w_conn wd)) \<longleftrightarrow> length (content (cn_out (w_conn wd))) \<le> n)"
    using shutdown_flushes [OF w(1) st dl wd(2) o(3)] unfolding if_not_P [OF ne] by (elim exE conjE) 
  obtain w2 where w2: "HandleWrite ?cbs (Sent 3) w1 = ReleaseInLoop ?cbs w2" "w_sent w2 = ''GET''"
    using spec [OF n, of 3] unfolding o by auto
  obtain w3 where w3: "HandleWrite ?cbs (Sent 1) w1 = ReleaseInLoop ?cbs w3" "w_sent w3 = ''G''"
    using spec [OF n, of 1] unfolding o by auto
  have "content (cn_in (w_conn ?w)) = ''GET''"
    using b(2) by simp
  then show ?thesis
    using w1 w2 w3 by blast
qed

text \<open>Releasing a connection that is not disconnected removes its channel from the poller, closes
  its descriptor exactly once, cancels its timer and keeps the invariant, whatever its state; on
  a disconnected one the descriptor is not closed again.\<close>

theorem release_closes_once:
  assumes "cn_inv w"
  shows "cn_status (w_conn (release_state w)) = DISCONNECTED \<and>
    (cn_status (w_conn w) \<noteq> DISCONNECTED \<longrightarrow>
       cn_inv (release_state w) \<and> sk_fd (cn_socket (w_conn (release_state w))) = - 1 \<and>
       \<not> po_open (w_poll (release_state w)) (sk_fd (cn_socket (w_conn w))) \<and>
       po_care (w_poll (release_state w)) (sk_fd (cn_socket (w_conn w))) = None \<and>
       \<not> IfExists (w_wheel (release_state w)) (cn_timer_id (w_conn w))) \<and>
    po_open (w_poll (release_state (release_state w))) = po_open (w_poll (release_state w))"
proof -
  have s: "sk_fd (cn_socket (w_conn (release_state w))) \<le> 0"
    by (simp add: release_state_fields sk_Close_def)
  have "po_open (w_poll (release_state (release_state w))) = po_open (w_poll (release_state w))"
    using s unfolding release_state_fields(8) [of "release_state w"]
    by (simp add: sk_Close_def ch_Remove_def RemoveEvent_def set_events_def Let_def)
  then show ?thesis
    using release_state_ok [OF assms] release_state_fields(1) by blast
qed

lemma release_closes_once_witness:
  "sk_fd (cn_socket (w_conn (release_state w_demo))) = - 1 \<and> \<not> po_open (w_poll (release_state w_demo)) 5"
  using release_closes_once [OF w_demo_inv(1)] w_demo_inv(2) by (simp add: w_demo_def new_conn_def)

text \<open>\<open>HandleWrite\<close> forgets what the kernel does not take: the buffer is emptied before the send,
  so after a send of fewer bytes than were pending the rest is in no buffer, the output buffer is
  empty and the descriptor is not watched for writing any more.\<close>

theorem partial_write_loses_bytes:
  assumes "cn_inv w" "cn_status (w_conn w) = CONNECTED" "n < length (content (cn_out (w_conn w)))"
  shows "\<exists>w1. HandleWrite cbs (Sent n) w = Inr w1 \<and> w_sent w1 = w_sent w @ take n (content (cn_out (w_conn w))) \<and>
    w_sent w1 \<noteq> w_sent w @ content (cn_out (w_conn w)) \<and> content (cn_out (w_conn w1)) = []"
proof -
  have "content (cn_out (w_conn w)) \<noteq> []"
    using assms(3) by auto
  then obtain w1 where w1: "w_sent w1 = w_sent w @ take n (content (cn_out (w_conn w)))"
      "content (cn_out (w_conn w1)) = []" "HandleWrite cbs (Sent n) w = Inr w1"
    using HandleWrite_all [OF assms(1), of n cbs] assms(2) by auto
  moreover have "take n (content (cn_out (w_conn w))) \<noteq> content (cn_out (w_conn w))"
    using assms(3) by (metis length_take min_less_iff_conj order_less_irrefl)
  ultimately show ?thesis by auto
qed

lemma partial_write_loses_bytes_witness:
  "\<exists>w w1. SendAll [''abc''] w_demo = Inr w \<and> HandleWrite no_cbs (Sent 1) w = Inr w1 \<and> w_sent w1 = ''a'' \<and>
     content (cn_out (w_conn w1)) = []"
proof -
  obtain w where w: "SendAll [''abc''] w_demo = Inr w" "cn_inv w" "content (cn_out (w_conn w)) = ''abc''"
      "cn_status (w_conn w) = CONNECTED" "w_sent w = []"
    using w_demo_sent by blast
  from partial_write_loses_bytes [OF w(2,4), of 1 no_cbs] show ?thesis
    using w by auto
qed

text \<open>A write error ends the whole process: after \<open>ReleaseInLoop\<close> has closed the descriptor,
  \<open>HandleWrite\<close> goes on to \<open>DisableWrite\<close>, whose \<open>epoll_ctl\<close> adds the closed descriptor, fails and
  calls \<open>exit(-1)\<close>.\<close>

theorem write_error_exits:
  assumes "cn_inv w" "cn_status (w_conn w) \<noteq> DISCONNECTED" "content (cn_out (w_conn w)) \<noteq> []"
    and "content (cn_in (w_conn w)) = []" "quiet (closed_cb cbs)" "quiet (server_close_cb cbs)"
    and "\<not> would_block e"
  shows "HandleWrite cbs (SendErr e) w = Inl ExitProcess"
proof -
  note d = cn_invD [OF assms(1)]
  let ?out = "cn_out (w_conn w)"
  have u: "unat (ReadableSize ?out) = length (content ?out)"
    by (rule ReadableSize_content [OF d(2)])
  obtain b where b: "ReadStringAndPop ?out (ReadableSize ?out) = Inr (content ?out, b)" "bf_inv b" "content b = []"
    using bs.pop_ok [OF d(2), of "ReadableSize ?out"] u assms(3) by auto
  let ?w = "(set_conn w ((w_conn w)\<lparr>cn_out := b\<rparr>))\<lparr>w_sent := w_sent w @ []\<rparr>"
  have i: "cn_inv ?w"
    unfolding set_sent_inv by (rule set_out_inv [OF assms(1) b(2)])
  have dl: "deliver cbs ?w = Inr ?w"
    using d(1) assms(4) by (intro deliver_empty) simp_all
  obtain w1 where w1: "ReleaseInLoop cbs ?w = Inr w1" "w_poll w1 = w_poll (release_state ?w)"
      "w_conn w1 = w_conn (release_state ?w)"
    using ReleaseInLoop_quiet [OF assms(5,6)] by blast
  let ?c = "cn_channel (w_conn w)" and ?p = "w_poll (release_state ?w)"
  have "conn_open w"
    using d(5) assms(2) by simp
  then have f: "0 < sk_fd (cn_socket (w_conn w))" "ch_fd (po_chans (w_poll w) ?c) = sk_fd (cn_socket (w_conn w))"
    by (simp_all add: conn_open_def)
  have cl: "\<not> po_open ?p (ch_fd (po_chans ?p ?c))"
    using f by (simp add: release_state_fields sk_Close_def kernel_close_def remove_fields [OF d(3)])
  then have "set_poll w1 (DisableWrite (w_poll w1) (cn_channel (w_conn w1))) = Inl ExitProcess"
    using update_closed [OF cl] w1(2,3) by (simp add: DisableWrite_def set_poll_def release_state_fields)
  moreover have "ReadableSize (cn_out (w_conn w1)) = 0"
    using w1(3) ReadableSize_0 [OF b(2)] b(3) by (simp add: release_state_fields)
  ultimately show ?thesis
    using b(1) dl w1(1) assms(7) by (simp add: HandleWrite_def kernel_took_def sk_SendNonBlock_def sk_Send_def)
qed

lemma write_error_exits_witness:
  "\<exists>w. SendAll [''abc''] w_demo = Inr w \<and> HandleWrite no_cbs (SendErr OtherErr) w = Inl ExitProcess"
proof -
  obtain w where w: "SendAll [''abc''] w_demo = Inr w" "cn_inv w" "content (cn_out (w_conn w)) = ''abc''"
      "cn_status (w_conn w) = CONNECTED"
    using w_demo_sent by blast
  have "room (cn_out (w_conn w_demo)) (length ''abc'')"
    by (simp add: room_def w_demo_def new_conn_def bf_new_def default_size_def)
  from SendInLoop_ok [OF w_demo_inv(1) _ this] have "content (cn_in (w_conn w)) = []"
    using w(1) w_demo_inv(2,4) by auto
  moreover have "quiet (closed_cb no_cbs)" "quiet (server_close_cb no_cbs)"
    by (simp_all add: no_cbs_def quiet_None)
  ultimately have "HandleWrite no_cbs (SendErr OtherErr) w = Inl ExitProcess"
    using w by (intro write_error_exits) (simp_all add: would_block_def)
  then show ?thesis
    using w(1) by blast
qed

text \<open>C20: a read event appends exactly the bytes received to the input buffer and then calls the message
  callback, unless the kernel returns a full array of 65536 bytes: then the terminating zero is
  written past the array's end.\<close>

theorem HandleRead_spec:
  assumes "cn_inv w" "cn_status (w_conn w) \<noteq> DISCONNECTED" "xs \<noteq> []" "length xs \<le> 65536"
    and "room (cn_in (w_conn w)) 65536"
  shows "if length xs = 65536 then HandleRead cbs (Got xs) w = Inl OutOfBounds
    else \<exists>w1. cn_inv w1 \<and> content (cn_in (w_conn w1)) = content (cn_in (w_conn w)) @ xs \<and>
      w_poll w1 = w_poll w \<and> cn_status (w_conn w1) = cn_status (w_conn w) \<and>
      HandleRead cbs (Got xs) w = call_cb (mess_cb cbs) w1"
proof (cases "length xs = 65536")
  case True
  then show ?thesis
    using assms(2,3) by (simp add: HandleRead_def sk_RecvNonBlock_def sk_Recv_def)
next
  case False
  note d = cn_invD [OF assms(1)]
  have "room (cn_in (w_conn w)) (length xs)"
    using assms(4,5) by (simp add: room_def)
  then obtain b where b: "WriteAndPush (cn_in (w_conn w)) xs = Inr b" "bf_inv b"
      "content b = content (cn_in (w_conn w)) @ xs"
    using bs.app_ok [OF d(1)] by blast
  let ?w = "set_conn w ((w_conn w)\<lparr>cn_in := b\<rparr>)"
  have "cn_inv ?w"
    using d b(2) by (simp add: cn_inv_def conn_open_def)
  moreover have "0 < ReadableSize b"
    using ReadableSize_pos [OF b(2)] b(3) assms(3) by simp
  then have "HandleRead cbs (Got xs) w = call_cb (mess_cb cbs) ?w"
    using assms(2-4) False b(1) by (simp add: HandleRead_def sk_RecvNonBlock_def sk_Recv_def deliver_def)
  ultimately show ?thesis
    using b(3) False by (intro if_not_P [THEN iffD2] exI [of _ ?w]) simp_all
qed

lemma HandleRead_spec_witness:
  "\<exists>w1. HandleRead no_cbs (Got ''GET'') w_demo = Inr w1 \<and> content (cn_in (w_conn w1)) = ''GET''"
proof -
  have "room (cn_in (w_conn w_demo)) 65536"
    by (simp add: room_def w_demo_def new_conn_def bf_new_def default_size_def)
  then have "\<exists>w1. content (cn_in (w_conn w1)) = content (cn_in (w_conn w_demo)) @ ''GET'' \<and>
      HandleRead no_cbs (Got ''GET'') w_demo = call_cb (mess_cb no_cbs) w1"
    using HandleRead_spec [OF w_demo_inv(1), of "''GET''" no_cbs] w_demo_inv(2) by auto
  then show ?thesis
    using w_demo_inv(4) by (auto simp: no_cbs_def call_cb_def)
qed

end
