(* ===== verification/Any_Value.thy ===== *)
theory Any_Value
  imports Prelude
begin

text \<open>
  \<open>Any\<close> of \<open>muduo/server.hpp\<close>, the context of a connection: a value of any type behind a pointer to a
  holder made by \<open>new\<close>. A holder is a value with the type it was made for (\<open>typeid\<close>), the heap says which holders
  are alive, and an object of the class is its pointer. The contract is that the objects behave as values: a copy
  is independent of what it was copied from, an assignment replaces the value, every holder is deleted exactly
  once, and \<open>GetValAddr\<close> answers a pointer exactly for the type that is stored. The addresses that \<open>new\<close> returns
  are arguments.
\<close>

section \<open>Holders\<close>

type_synonym ('t, 'v) holders = "addr \<Rightarrow> ('t \<times> 'v) option"

text \<open>\<open>new PlaceHolder<T>(val)\<close>, \<open>Clone\<close> and \<open>delete\<close>. A holder that is not alive must not be used.\<close>

definition PlaceHolder :: "addr \<Rightarrow> 't \<Rightarrow> 'v \<Rightarrow> ('t, 'v) holders \<Rightarrow> addr \<times> ('t, 'v) holders" where
  "PlaceHolder a t v m = (a, m(a \<mapsto> (t, v)))"

definition GetType :: "('t, 'v) holders \<Rightarrow> addr \<Rightarrow> 't res" where
  "GetType m h = (case m h of None \<Rightarrow> Inl NullDeref | Some (t, v) \<Rightarrow> Inr t)"

definition Clone :: "addr \<Rightarrow> ('t, 'v) holders \<Rightarrow> addr \<Rightarrow> (addr \<times> ('t, 'v) holders) res" where
  "Clone a m h = (case m h of None \<Rightarrow> Inl NullDeref | Some (t, v) \<Rightarrow> Inr (PlaceHolder a t v m))"

definition delete_holder :: "('t, 'v) holders \<Rightarrow> addr \<Rightarrow> ('t, 'v) holders res" where
  "delete_holder m h =
     (if h = nullptr then Inr m
      else case m h of None \<Rightarrow> Inl NullDeref | Some _ \<Rightarrow> Inr (m(h := None)))"

section \<open>Objects\<close>

text \<open>The objects that are alive, by name, and the holders. A parameter passed by value and a temporary are objects
  that the operation makes and destroys.\<close>

record ('n, 't, 'v) anys =
  an_holder :: "'n \<Rightarrow> addr option"
  an_mem :: "('t, 'v) holders"

abbreviation an_set :: "('n, 't, 'v) anys \<Rightarrow> 'n \<Rightarrow> addr option \<Rightarrow> ('t, 'v) holders \<Rightarrow> ('n, 't, 'v) anys" where
  "an_set s x h m \<equiv> s\<lparr>an_holder := (an_holder s)(x := h), an_mem := m\<rparr>"

definition an_new :: "('n, 't, 'v) anys" where
  "an_new = \<lparr>an_holder = (\<lambda>_. None), an_mem = (\<lambda>_. None)\<rparr>"

definition any_default :: "('n, 't, 'v) anys \<Rightarrow> 'n \<Rightarrow> ('n, 't, 'v) anys" where
  "any_default s x = an_set s x (Some nullptr) (an_mem s)"

definition any_from :: "addr \<Rightarrow> ('n, 't, 'v) anys \<Rightarrow> 'n \<Rightarrow> 't \<Rightarrow> 'v \<Rightarrow> ('n, 't, 'v) anys" where
  "any_from a s x t v = (case PlaceHolder a t v (an_mem s) of (h, m) \<Rightarrow> an_set s x (Some h) m)"

text \<open>The copy constructor, as a function of the pointer it copies.\<close>

definition copy_holder :: "addr \<Rightarrow> ('t, 'v) holders \<Rightarrow> addr \<Rightarrow> (addr \<times> ('t, 'v) holders) res" where
  "copy_holder a m other = (if other = nullptr then Inr (nullptr, m) else Clone a m other)"

definition holder_of :: "('n, 't, 'v) anys \<Rightarrow> 'n \<Rightarrow> addr res" where
  "holder_of s x = (case an_holder s x of None \<Rightarrow> Inl NullDeref | Some h \<Rightarrow> Inr h)"

definition any_copy :: "addr \<Rightarrow> ('n, 't, 'v) anys \<Rightarrow> 'n \<Rightarrow> 'n \<Rightarrow> ('n, 't, 'v) anys res" where
  "any_copy a s x y =
     rbind (holder_of s y) (\<lambda>other.
     rbind (copy_holder a (an_mem s) other) (\<lambda>(h, m). Inr (an_set s x (Some h) m)))"

text \<open>Both assignments swap the new pointer into the object; the temporary, or the parameter, is destroyed with the
  old one.\<close>

definition any_Swap :: "addr \<times> addr \<Rightarrow> addr \<times> addr" where
  "any_Swap p = (snd p, fst p)"

definition swap_in :: "('n, 't, 'v) anys \<Rightarrow> 'n \<Rightarrow> addr \<Rightarrow> addr \<Rightarrow> ('t, 'v) holders \<Rightarrow> ('n, 't, 'v) anys res" where
  "swap_in s x this temp m =
     (case any_Swap (temp, this) of (temp', this') \<Rightarrow>
        rbind (delete_holder m temp') (\<lambda>m'. Inr (an_set s x (Some this') m')))"

definition any_assign_val :: "addr \<Rightarrow> ('n, 't, 'v) anys \<Rightarrow> 'n \<Rightarrow> 't \<Rightarrow> 'v \<Rightarrow> ('n, 't, 'v) anys res" where
  "any_assign_val a s x t v =
     rbind (holder_of s x) (\<lambda>this.
       case PlaceHolder a t v (an_mem s) of (temp, m) \<Rightarrow> swap_in s x this temp m)"

definition any_assign :: "addr \<Rightarrow> ('n, 't, 'v) anys \<Rightarrow> 'n \<Rightarrow> 'n \<Rightarrow> ('n, 't, 'v) anys res" where
  "any_assign a s x y =
     rbind (holder_of s x) (\<lambda>this.
     rbind (holder_of s y) (\<lambda>other.
     rbind (copy_holder a (an_mem s) other) (\<lambda>(temp, m). swap_in s x this temp m)))"

definition any_destroy :: "('n, 't, 'v) anys \<Rightarrow> 'n \<Rightarrow> ('n, 't, 'v) anys res" where
  "any_destroy s x =
     rbind (holder_of s x) (\<lambda>h. rbind (delete_holder (an_mem s) h) (\<lambda>m. Inr (an_set s x None m)))"

text \<open>\<open>GetValAddr<T>\<close>: the address of the value stands for the address of its holder.\<close>

definition GetValAddr :: "('n, 't, 'v) anys \<Rightarrow> 'n \<Rightarrow> 't \<Rightarrow> addr res" where
  "GetValAddr s x t =
     rbind (holder_of s x) (\<lambda>h.
       if h = nullptr then Inr nullptr
       else rbind (GetType (an_mem s) h) (\<lambda>t'. Inr (if t = t' then h else nullptr)))"

text \<open>Writing a value of the type \<open>t\<close> through the pointer.\<close>

definition write_val :: "('n, 't, 'v) anys \<Rightarrow> addr \<Rightarrow> 't \<Rightarrow> 'v \<Rightarrow> ('n, 't, 'v) anys res" where
  "write_val s p t v = (if an_mem s p = None then Inl NullDeref else Inr (s\<lparr>an_mem := (an_mem s)(p \<mapsto> (t, v))\<rparr>))"

section \<open>Runs of operations\<close>

datatype ('n, 't, 'v) any_op =
    Make 'n
  | MakeFrom 'n 't 'v
  | MakeCopy 'n 'n
  | AssignVal 'n 't 'v
  | Assign 'n 'n
  | SetThrough 'n 't 'v
  | Destroy 'n

fun any_step :: "('n, 't, 'v) anys \<Rightarrow> ('n, 't, 'v) any_op \<Rightarrow> addr \<Rightarrow> ('n, 't, 'v) anys res" where
  "any_step s (Make x) a = Inr (any_default s x)"
| "any_step s (MakeFrom x t v) a = Inr (any_from a s x t v)"
| "any_step s (MakeCopy x y) a = any_copy a s x y"
| "any_step s (AssignVal x t v) a = any_assign_val a s x t v"
| "any_step s (Assign x y) a = any_assign a s x y"
| "any_step s (SetThrough x t v) a = rbind (GetValAddr s x t) (\<lambda>p. write_val s p t v)"
| "any_step s (Destroy x) a = any_destroy s x"

primrec any_run :: "(('n, 't, 'v) any_op \<times> addr) list \<Rightarrow> ('n, 't, 'v) anys \<Rightarrow> ('n, 't, 'v) anys res" where
  "any_run [] s = Inr s"
| "any_run (e # es) s = rbind (any_step s (fst e) (snd e)) (any_run es)"

text \<open>What is asked of \<open>new\<close>: it returns an address that is not null and holds no live holder.\<close>

primrec news_ok :: "(('n, 't, 'v) any_op \<times> addr) list \<Rightarrow> ('n, 't, 'v) anys \<Rightarrow> bool" where
  "news_ok [] s = True"
| "news_ok (e # es) s = (snd e \<noteq> nullptr \<and> an_mem s (snd e) = None \<and>
     (case any_step s (fst e) (snd e) of Inl _ \<Rightarrow> True | Inr s' \<Rightarrow> news_ok es s'))"

text \<open>Values: a name is dead, or stands for nothing or for a value with its type. A program is well formed where it
  makes dead names, uses live ones and writes through pointers of the stored type.\<close>

type_synonym ('n, 't, 'v) env = "'n \<Rightarrow> ('t \<times> 'v) option option"

fun val_step :: "('n, 't, 'v) env \<Rightarrow> ('n, 't, 'v) any_op \<Rightarrow> ('n, 't, 'v) env option" where
  "val_step A (Make x) = (if A x = None then Some (A(x \<mapsto> None)) else None)"
| "val_step A (MakeFrom x t v) = (if A x = None then Some (A(x \<mapsto> Some (t, v))) else None)"
| "val_step A (MakeCopy x y) = (if A x = None \<and> A y \<noteq> None then Some (A(x := A y)) else None)"
| "val_step A (AssignVal x t v) = (if A x \<noteq> None then Some (A(x \<mapsto> Some (t, v))) else None)"
| "val_step A (Assign x y) = (if A x \<noteq> None \<and> A y \<noteq> None then Some (A(x := A y)) else None)"
| "val_step A (SetThrough x t v) =
     (if \<exists>w. A x = Some (Some (t, w)) then Some (A(x \<mapsto> Some (t, v))) else None)"
| "val_step A (Destroy x) = (if A x \<noteq> None then Some (A(x := None)) else None)"

primrec val_run :: "('n, 't, 'v) any_op list \<Rightarrow> ('n, 't, 'v) env \<Rightarrow> ('n, 't, 'v) env option" where
  "val_run [] A = Some A"
| "val_run (e # es) A = (case val_step A e of None \<Rightarrow> None | Some A' \<Rightarrow> val_run es A')"

definition val_of :: "('n, 't, 'v) anys \<Rightarrow> ('n, 't, 'v) env" where
  "val_of s x = (case an_holder s x of None \<Rightarrow> None | Some h \<Rightarrow> Some (if h = nullptr then None else an_mem s h))"

section \<open>Every holder has one owner\<close>

definition an_inv :: "('n, 't, 'v) anys \<Rightarrow> bool" where
  "an_inv s \<longleftrightarrow> an_mem s nullptr = None \<and>
     (\<forall>h. an_mem s h \<noteq> None \<longrightarrow> (\<exists>x. an_holder s x = Some h)) \<and>
     (\<forall>x h. an_holder s x = Some h \<longrightarrow> h \<noteq> nullptr \<longrightarrow> an_mem s h \<noteq> None) \<and>
     (\<forall>x y h. an_holder s x = Some h \<longrightarrow> an_holder s y = Some h \<longrightarrow> h \<noteq> nullptr \<longrightarrow> x = y)"

lemma an_invD:
  assumes "an_inv s"
  shows "an_mem s nullptr = None" "an_mem s h = Some tv \<Longrightarrow> \<exists>x. an_holder s x = Some h"
    "an_holder s x = Some h \<Longrightarrow> h \<noteq> nullptr \<Longrightarrow> \<exists>t v. an_mem s h = Some (t, v)"
    "an_holder s x = Some h \<Longrightarrow> an_holder s y = Some h \<Longrightarrow> h \<noteq> nullptr \<Longrightarrow> x = y"
  using assms unfolding an_inv_def by auto

lemma an_invI [inv_intros]:
  assumes "an_mem s nullptr = None" "\<And>h tv. an_mem s h = Some tv \<Longrightarrow> \<exists>x. an_holder s x = Some h"
    and "\<And>x h. an_holder s x = Some h \<Longrightarrow> h \<noteq> nullptr \<Longrightarrow> an_mem s h \<noteq> None"
    and "\<And>x y h. an_holder s x = Some h \<Longrightarrow> an_holder s y = Some h \<Longrightarrow> h \<noteq> nullptr \<Longrightarrow> x = y"
  shows "an_inv s"
  using assms unfolding an_inv_def by blast

lemma val_of_cong:
  assumes "\<And>y. y \<noteq> x \<Longrightarrow> an_holder s' y = an_holder s y"
    and "\<And>y h. y \<noteq> x \<Longrightarrow> an_holder s y = Some h \<Longrightarrow> h \<noteq> nullptr \<Longrightarrow> an_mem s' h = an_mem s h"
  shows "val_of s' = (val_of s)(x := val_of s' x)"
  using assms by (auto simp: val_of_def split: option.split intro!: ext)

text \<open>The changes of the state: a dead name gets a pointer that is null or a fresh holder, a name dies and its
  holder with it, a holder gets another value.\<close>

lemma gain_null:
  assumes "an_inv s" "an_holder s x = None"
  shows "an_inv (an_set s x (Some nullptr) (an_mem s)) \<and>
    val_of (an_set s x (Some nullptr) (an_mem s)) = (val_of s)(x \<mapsto> None)"
proof
  let ?s = "an_set s x (Some nullptr) (an_mem s)"
  have "\<exists>y. an_holder ?s y = Some h" if m: "an_mem s h = Some tv" for h tv
  proof -
    obtain y where "an_holder s y = Some h"
      using an_invD(2) [OF assms(1) m] by blast
    then show ?thesis
      using assms(2) by (intro exI [of _ y]) auto
  qed
  then show "an_inv ?s"
    using an_invD [OF assms(1)] by (intro an_invI) (auto split: if_splits)
  have "val_of ?s x = Some None"
    by (simp add: val_of_def)
  then show "val_of ?s = (val_of s)(x \<mapsto> None)"
    using val_of_cong [of x ?s s] by simp
qed

lemma gain_holder:
  assumes "an_inv s" "an_holder s x = None" "a \<noteq> nullptr" "an_mem s a = None"
  shows "an_inv (an_set s x (Some a) ((an_mem s)(a \<mapsto> tv))) \<and>
    val_of (an_set s x (Some a) ((an_mem s)(a \<mapsto> tv))) = (val_of s)(x \<mapsto> Some tv)"
proof
  let ?s = "an_set s x (Some a) ((an_mem s)(a \<mapsto> tv))"
  have fresh: "an_holder s y \<noteq> Some a" for y
    using an_invD(3) [OF assms(1), of y a] assms(3,4) by auto
  show "an_inv ?s"
  proof (rule an_invI)
    fix h w
    assume h: "an_mem ?s h = Some w"
    show "\<exists>y. an_holder ?s y = Some h"
    proof (cases "h = a")
      case False
      then obtain y where "an_holder s y = Some h"
        using an_invD(2) [OF assms(1), of h w] h by auto
      then show ?thesis
        using assms(2) by (intro exI [of _ y]) auto
    qed auto
  qed (use an_invD(1,3,4) [OF assms(1)] assms(3) fresh in \<open>auto split: if_splits\<close>)
  have "val_of ?s x = Some (Some tv)"
    using assms(3) by (simp add: val_of_def)
  then show "val_of ?s = (val_of s)(x \<mapsto> Some tv)"
    using val_of_cong [of x ?s s] fresh by fastforce
qed

lemma lose_holder:
  assumes "an_inv s" "an_holder s x = Some h"
  shows "\<exists>m. delete_holder (an_mem s) h = Inr m \<and> m = (an_mem s)(h := None) \<and> an_inv (an_set s x None m) \<and>
    val_of (an_set s x None m) = (val_of s)(x := None)"
proof -
  let ?s = "an_set s x None ((an_mem s)(h := None))"
  have "delete_holder (an_mem s) h = Inr ((an_mem s)(h := None))"
    using an_invD(1) [OF assms(1)] an_invD(3) [OF assms] by (cases "h = nullptr") (auto simp: delete_holder_def fun_upd_idem)
  moreover have "an_inv ?s"
  proof (rule an_invI)
    fix h' tv
    assume "an_mem ?s h' = Some tv"
    then have m: "h' \<noteq> h" "an_mem s h' = Some tv"
      by (auto split: if_splits)
    obtain y where y: "an_holder s y = Some h'"
      using an_invD(2) [OF assms(1) m(2)] by blast
    then have "y \<noteq> x"
      using m(1) assms(2) by auto
    then show "\<exists>y. an_holder ?s y = Some h'"
      using y by (intro exI [of _ y]) simp
  next
    fix y h'
    assume "an_holder ?s y = Some h'" "h' \<noteq> nullptr"
    then show "an_mem ?s h' \<noteq> None"
      using an_invD(3,4) [OF assms(1)] assms(2) by (auto split: if_splits)
  qed (use an_invD(1,4) [OF assms(1)] in \<open>auto split: if_splits\<close>)
  moreover have "val_of ?s = (val_of s)(x := val_of ?s x)"
    using an_invD(4) [OF assms] by (intro val_of_cong) auto
  ultimately show ?thesis
    by (simp add: val_of_def [of ?s])
qed

lemma rewrite_holder:
  assumes "an_inv s" "an_holder s x = Some h" "an_mem s h = Some tv"
  shows "an_inv (s\<lparr>an_mem := (an_mem s)(h \<mapsto> tv')\<rparr>) \<and>
    val_of (s\<lparr>an_mem := (an_mem s)(h \<mapsto> tv')\<rparr>) = (val_of s)(x \<mapsto> Some tv')"
proof
  let ?s = "s\<lparr>an_mem := (an_mem s)(h \<mapsto> tv')\<rparr>"
  have h: "h \<noteq> nullptr"
    using an_invD(1) [OF assms(1)] assms(3) by auto
  show "an_inv ?s"
    using an_invD [OF assms(1)] assms(2) h by (intro an_invI) (auto split: if_splits)
  have "val_of ?s = (val_of s)(x := val_of ?s x)"
    using an_invD(4) [OF assms(1,2)] h by (intro val_of_cong) auto
  then show "val_of ?s = (val_of s)(x \<mapsto> Some tv')"
    using assms(2) h by (simp add: val_of_def [of ?s])
qed

text \<open>The copy constructor's pointer is null or fresh, and stands for the value copied.\<close>

lemma swap_in_ok:
  assumes "an_inv s" "an_holder s x = Some h" "a \<noteq> nullptr" "an_mem s a = None"
  shows "\<exists>s'. swap_in s x h nullptr (an_mem s) = Inr s' \<and> an_inv s' \<and> val_of s' = (val_of s)(x \<mapsto> None)"
    "\<exists>s'. swap_in s x h a ((an_mem s)(a \<mapsto> tv)) = Inr s' \<and> an_inv s' \<and> val_of s' = (val_of s)(x \<mapsto> Some tv)"
proof -
  obtain m where m: "delete_holder (an_mem s) h = Inr m" "m = (an_mem s)(h := None)" "an_inv (an_set s x None m)"
      "val_of (an_set s x None m) = (val_of s)(x := None)"
    using lose_holder [OF assms(1,2)] by blast
  have "swap_in s x h nullptr (an_mem s) = Inr (an_set (an_set s x None m) x (Some nullptr) m)"
    using m(1) by (simp add: swap_in_def any_Swap_def)
  then show "\<exists>s'. swap_in s x h nullptr (an_mem s) = Inr s' \<and> an_inv s' \<and> val_of s' = (val_of s)(x \<mapsto> None)"
    using gain_null [OF m(3), of x] m(4) by simp
  have "h \<noteq> a"
    using an_invD(3) [OF assms(1,2)] assms(3,4) by auto
  then have "delete_holder ((an_mem s)(a \<mapsto> tv)) h = Inr (m(a \<mapsto> tv))"
    using m(1) an_invD(1) [OF assms(1)] unfolding m(2) delete_holder_def
    by (auto split: option.splits if_splits simp: fun_upd_twist)
  then have "swap_in s x h a ((an_mem s)(a \<mapsto> tv)) = Inr (an_set (an_set s x None m) x (Some a) (m(a \<mapsto> tv)))"
    by (simp add: swap_in_def any_Swap_def)
  moreover have "m a = None"
    using assms(4) by (simp add: m(2))
  ultimately show "\<exists>s'. swap_in s x h a ((an_mem s)(a \<mapsto> tv)) = Inr s' \<and> an_inv s' \<and> val_of s' = (val_of s)(x \<mapsto> Some tv)"
    using gain_holder [OF m(3), of x a tv] assms(3) m(4) by simp
qed

lemma copy_cases:
  assumes "an_inv s" "val_of s y = Some w"
  obtains h where "holder_of s y = Inr h" "w = None" "copy_holder a (an_mem s) h = Inr (nullptr, an_mem s)"
  | h tv where "holder_of s y = Inr h" "w = Some tv" "copy_holder a (an_mem s) h = Inr (a, (an_mem s)(a \<mapsto> tv))"
proof -
  obtain h where h: "an_holder s y = Some h" "w = (if h = nullptr then None else an_mem s h)"
    using assms(2) unfolding val_of_def by (auto split: option.splits)
  show thesis
  proof (cases "h = nullptr")
    case True
    then show thesis
      using that(1) h by (simp add: holder_of_def copy_holder_def)
  next
    case False
    obtain t v where "an_mem s h = Some (t, v)"
      using an_invD(3) [OF assms(1) h(1) False] by blast
    then show thesis
      using that(2) [of h "(t, v)"] h False by (simp add: holder_of_def copy_holder_def Clone_def PlaceHolder_def)
  qed
qed

lemma val_of_alive: "val_of s x \<noteq> None \<longleftrightarrow> (\<exists>h. an_holder s x = Some h)"
  by (auto simp: val_of_def split: option.splits)

lemma GetValAddr_iff:
  assumes "an_inv s" "val_of s x = Some w"
  shows "\<exists>p. GetValAddr s x t = Inr p \<and> (p \<noteq> nullptr \<longleftrightarrow> (\<exists>v. w = Some (t, v))) \<and>
    (p \<noteq> nullptr \<longrightarrow> an_holder s x = Some p \<and> an_mem s p = w)"
proof -
  obtain h where h: "an_holder s x = Some h" "w = (if h = nullptr then None else an_mem s h)"
    using assms(2) unfolding val_of_def by (auto split: option.splits)
  then show ?thesis
    using an_invD(3) [OF assms(1) h(1)]
    by (cases "h = nullptr") (auto simp: GetValAddr_def holder_of_def GetType_def)
qed

lemma any_step_ok:
  assumes "an_inv s" "val_step (val_of s) e = Some A" "a \<noteq> nullptr" "an_mem s a = None"
  shows "\<exists>s'. any_step s e a = Inr s' \<and> an_inv s' \<and> val_of s' = A"
proof (cases e)
  case (Make x)
  then show ?thesis
    using gain_null [OF assms(1), of x] assms(2) val_of_alive [of s x] by (auto simp: any_default_def split: if_splits)
next
  case (MakeFrom x t v)
  then show ?thesis
    using gain_holder [OF assms(1) _ assms(3,4), of x "(t, v)"] assms(2) val_of_alive [of s x]
    by (auto simp: any_from_def PlaceHolder_def split: if_splits)
next
  case (MakeCopy x y)
  then obtain w where w: "val_of s y = Some w" "an_holder s x = None" "A = (val_of s)(x \<mapsto> w)"
    using assms(2) val_of_alive [of s x] by (auto split: if_splits)
  from assms(1) w(1) show ?thesis
    by (rule copy_cases [where a = a])
      (use gain_null [OF assms(1) w(2)] gain_holder [OF assms(1) w(2) assms(3,4)] w(3) MakeCopy in
        \<open>simp_all add: any_copy_def\<close>)
next
  case (AssignVal x t v)
  then obtain h where "an_holder s x = Some h" "A = (val_of s)(x \<mapsto> Some (t, v))"
    using assms(2) val_of_alive [of s x] by (auto split: if_splits)
  then show ?thesis
    using swap_in_ok(2) [OF assms(1) _ assms(3,4), of x h "(t, v)"] AssignVal
    by (simp add: any_assign_val_def holder_of_def PlaceHolder_def)
next
  case (Assign x y)
  then obtain w h where w: "val_of s y = Some w" "an_holder s x = Some h" "A = (val_of s)(x \<mapsto> w)"
    using assms(2) val_of_alive [of s x] by (auto split: if_splits)
  from assms(1) w(1) show ?thesis
    by (rule copy_cases [where a = a])
      (use swap_in_ok [OF assms(1) w(2) assms(3,4)] w(2,3) Assign in \<open>simp_all add: any_assign_def holder_of_def [of s x]\<close>)
next
  case (SetThrough x t v)
  then obtain w where w: "val_of s x = Some (Some (t, w))" "A = (val_of s)(x \<mapsto> Some (t, v))"
    using assms(2) by (auto split: if_splits)
  then show ?thesis
    using GetValAddr_iff [OF assms(1) w(1), of t] rewrite_holder [OF assms(1), of x _ "(t, w)" "(t, v)"] SetThrough
    by (auto simp: write_val_def)
next
  case (Destroy x)
  then obtain h where "an_holder s x = Some h" "A = (val_of s)(x := None)"
    using assms(2) val_of_alive [of s x] by (auto split: if_splits)
  then show ?thesis
    using lose_holder [OF assms(1), of x h] Destroy by (auto simp: any_destroy_def holder_of_def)
qed

lemma any_run_ok:
  assumes "an_inv s" "val_run (map fst es) (val_of s) = Some A" "news_ok es s"
  shows "\<exists>s'. any_run es s = Inr s' \<and> an_inv s' \<and> val_of s' = A"
  using assms
proof (induction es arbitrary: s)
  case (Cons e es)
  then obtain A1 where A1: "val_step (val_of s) (fst e) = Some A1" "val_run (map fst es) A1 = Some A"
    by (auto split: option.splits)
  obtain s1 where "any_step s (fst e) (snd e) = Inr s1" "an_inv s1" "val_of s1 = A1"
    using any_step_ok [OF Cons.prems(1) A1(1), of "snd e"] Cons.prems(3) by auto
  then show ?case
    using Cons.IH [of s1] A1(2) Cons.prems(3) by simp
qed simp

lemma an_new_inv: "an_inv an_new" "val_of an_new = (\<lambda>_. None)"
  by (auto simp: an_inv_def an_new_def val_of_def)

section \<open>Property\<close>

text \<open>C33: objects of \<open>Any\<close> are values. Every well formed program of constructions, copies, assignments, writes
  through \<open>GetValAddr\<close> and destructions runs without touching a dead holder or deleting one twice, and
  leaves every object with the value that plain variables would have; \<open>GetValAddr\<close> is not null exactly for the
  type stored, and then points to that value; and when every object is destroyed no holder is left.\<close>

theorem Any_is_value:
  assumes "an_inv s" "val_run (map fst es) (val_of s) = Some A" "news_ok es s"
  shows "\<exists>s'. any_run es s = Inr s' \<and> an_inv s' \<and> val_of s' = A \<and>
    (\<forall>x w t. A x = Some w \<longrightarrow> (\<exists>p. GetValAddr s' x t = Inr p \<and> (p \<noteq> nullptr \<longleftrightarrow> (\<exists>v. w = Some (t, v))) \<and>
      (p \<noteq> nullptr \<longrightarrow> an_mem s' p = w))) \<and>
    ((\<forall>x. A x = None) \<longrightarrow> an_mem s' = (\<lambda>_. None))"
proof -
  obtain s' where s': "any_run es s = Inr s'" "an_inv s'" "val_of s' = A"
    using any_run_ok [OF assms] by blast
  have e: "an_mem s' = (\<lambda>_. None)" if none: "\<forall>x. A x = None"
  proof
    fix h
    show "an_mem s' h = None"
    proof (cases "an_mem s' h")
      case (Some w)
      then obtain x where "an_holder s' x = Some h"
        using an_invD(2) [OF s'(2)] by blast
      then have "A x \<noteq> None"
        using val_of_alive [of s' x] s'(3) by simp
      then show ?thesis
        using none by simp
    qed
  qed
  have g: "\<exists>p. GetValAddr s' x t = Inr p \<and> (p \<noteq> nullptr \<longleftrightarrow> (\<exists>v. w = Some (t, v))) \<and> (p \<noteq> nullptr \<longrightarrow> an_mem s' p = w)"
    if w: "A x = Some w" for x w t
    using GetValAddr_iff [OF s'(2), of x w t] w s'(3) by auto
  show ?thesis
    by (rule exI [of _ s']) (use s' e g in simp)
qed

definition any_demo :: "((nat, nat, string) any_op \<times> addr) list" where
  "any_demo = [(MakeFrom 0 7 ''ab'', 8), (MakeCopy 1 0, 16), (SetThrough 0 7 ''cd'', 24), (Make 2, 24),
     (Assign 2 1, 24), (AssignVal 2 9 ''z'', 32), (Assign 1 1, 24), (Destroy 0, 40), (Destroy 2, 40)]"

lemma Any_is_value_witness:
  "\<exists>s'. any_run any_demo an_new = Inr s' \<and> val_of s' = [1 \<mapsto> Some (7, ''ab'')] \<and>
    (\<exists>p. GetValAddr s' 1 7 = Inr p \<and> p \<noteq> nullptr) \<and> GetValAddr s' 1 9 = Inr nullptr"
proof -
  have v: "val_run (map fst any_demo) (val_of an_new) = Some [1 \<mapsto> Some (7, ''ab'')]"
    by (auto simp: any_demo_def an_new_inv(2) intro!: ext)
  have n: "news_ok any_demo an_new"
    by (simp add: any_demo_def an_new_def any_from_def PlaceHolder_def any_copy_def holder_of_def copy_holder_def Clone_def
        GetValAddr_def GetType_def write_val_def any_default_def any_assign_def any_assign_val_def swap_in_def any_Swap_def
        delete_holder_def any_destroy_def)
  obtain s' where s': "any_run any_demo an_new = Inr s'" "val_of s' = [1 \<mapsto> Some (7, ''ab'')]"
      "\<forall>x w t. [1 \<mapsto> Some (7, ''ab'')] x = Some w \<longrightarrow> (\<exists>p. GetValAddr s' x t = Inr p \<and>
        (p \<noteq> nullptr \<longleftrightarrow> (\<exists>v. w = Some (t, v))) \<and> (p \<noteq> nullptr \<longrightarrow> an_mem s' p = w))"
    using Any_is_value [OF an_new_inv(1) v n] by blast
  have "\<exists>p. GetValAddr s' 1 7 = Inr p \<and> p \<noteq> nullptr" "GetValAddr s' 1 9 = Inr nullptr"
    using s'(3) [rule_format, of 1 "Some (7, ''ab'')" 7] s'(3) [rule_format, of 1 "Some (7, ''ab'')" 9] by auto
  then show ?thesis
    using s'(1,2) by blast
qed

end
