(* ===== verification/Conn_Calls.thy ===== *)
theory Conn_Calls
  imports Connection Any_Value
begin

text \<open>
  What other threads call on a connection of \<open>muduo/server.hpp\<close>: each call is a task for the connection's loop, which
  runs it as the handler of the same name of \<open>Connection\<close>. A task is the number of its connection with the call.
  The task of \<open>Send\<close> keeps the caller's pointer and the length, not the bytes: they are read when the loop runs it.
  The last part is the context of a connection and \<open>Upgrade\<close>, which replaces the context and the callbacks.
\<close>

section \<open>Calls as tasks of the loop\<close>

text \<open>The bytes other threads' objects hold at a moment; a byte no object holds any more is \<open>None\<close>, and reading
  it is a fault.\<close>

type_synonym memory = "addr \<Rightarrow> char option"

primrec bytes_at :: "memory \<Rightarrow> addr \<Rightarrow> nat \<Rightarrow> string option" where
  "bytes_at mem p 0 = Some []"
| "bytes_at mem p (Suc n) =
     (case mem p of None \<Rightarrow> None | Some c \<Rightarrow> map_option (\<lambda>s. c # s) (bytes_at mem (p + 1) n))"

lemma length_bytes_at: "bytes_at mem p n = Some s \<Longrightarrow> length s = n"
  by (induction n arbitrary: p s) (auto split: option.splits)

datatype conn_call = EstablishedCall | SendCall addr nat | ShutDownCall | EnableReleaseCall u32 | CancelReleaseCall

type_synonym conn_loop = "(nat \<times> conn_call) wakeup"

definition Established :: "bool \<Rightarrow> nat \<Rightarrow> conn_loop \<Rightarrow> conn_loop" where
  "Established in_loop k = RunInLoop in_loop (k, EstablishedCall)"

definition cn_Send :: "bool \<Rightarrow> nat \<Rightarrow> addr \<Rightarrow> nat \<Rightarrow> conn_loop \<Rightarrow> conn_loop" where
  "cn_Send in_loop k message len = RunInLoop in_loop (k, SendCall message len)"

definition ShutDown :: "bool \<Rightarrow> nat \<Rightarrow> conn_loop \<Rightarrow> conn_loop" where
  "ShutDown in_loop k = RunInLoop in_loop (k, ShutDownCall)"

definition cn_EnableInactiveRelease :: "bool \<Rightarrow> nat \<Rightarrow> u32 \<Rightarrow> conn_loop \<Rightarrow> conn_loop" where
  "cn_EnableInactiveRelease in_loop k sec = RunInLoop in_loop (k, EnableReleaseCall sec)"

definition CancelInactiveRelease :: "bool \<Rightarrow> nat \<Rightarrow> conn_loop \<Rightarrow> conn_loop" where
  "CancelInactiveRelease in_loop k = RunInLoop in_loop (k, CancelReleaseCall)"

text \<open>A call with the memory at the moment the loop runs it. \<open>SendInLoop\<close> looks at the bytes only where the
  connection is not disconnected.\<close>

fun run_call :: "conn_cbs \<Rightarrow> memory \<Rightarrow> conn_call \<Rightarrow> world \<Rightarrow> world res" where
  "run_call cbs mem EstablishedCall w = EstablishedInLoop cbs w"
| "run_call cbs mem (SendCall message len) w =
     (if cn_status (w_conn w) = DISCONNECTED then Inr w
      else case bytes_at mem message len of None \<Rightarrow> Inl OutOfBounds | Some msg \<Rightarrow> SendInLoop msg w)"
| "run_call cbs mem ShutDownCall w = ShutDownInLoop cbs w"
| "run_call cbs mem (EnableReleaseCall sec) w = Inr (EnableInactiveReleaseInLoop sec w)"
| "run_call cbs mem CancelReleaseCall w = Inr (CancelInactiveReleaseInLoop w)"

primrec run_calls :: "conn_cbs \<Rightarrow> (memory \<times> conn_call) list \<Rightarrow> world \<Rightarrow> world res" where
  "run_calls cbs [] w = Inr w"
| "run_calls cbs (c # cs) w = rbind (run_call cbs (fst c) (snd c) w) (run_calls cbs cs)"

definition calls_of :: "nat \<Rightarrow> (nat \<times> conn_call) list \<Rightarrow> conn_call list" where
  "calls_of k ts = map snd (filter (\<lambda>t. fst t = k) ts)"

text \<open>A call from another thread is the two steps of its thread in the step relation of the loop.\<close>

lemma call_steps:
  "wk_run s [t] (RunInLoop False t s)"
proof -
  let ?s = "(QueueInLoop t s)\<lparr>wk_wakers := wk_wakers s + 1\<rparr>"
  have "wk_run s [t] ?s"
    using wk_run.step [OF wk_run.refl wk_step.queue] by simp
  then have "wk_run s ([t] @ []) ((WakeUpEpollToDoPending ?s)\<lparr>wk_wakers := wk_wakers ?s - 1\<rparr>)"
    by (rule wk_run.step) (rule wk_step.wake, simp)
  then show ?thesis
    by (simp add: RunInLoop_def QueueInLoop_def WakeUpEpollToDoPending_def)
qed

text \<open>What the messages of the calls are when the loop comes to them, in order; \<open>None\<close> where some bytes
  are gone.\<close>

primrec messages :: "(memory \<times> addr \<times> nat) list \<Rightarrow> string list option" where
  "messages [] = Some []"
| "messages (x # xs) =
     (case bytes_at (fst x) (fst (snd x)) (snd (snd x)) of
        None \<Rightarrow> None
      | Some m \<Rightarrow> map_option (\<lambda>ms. m # ms) (messages xs))"

definition send_call :: "memory \<times> addr \<times> nat \<Rightarrow> memory \<times> conn_call" where
  "send_call x = (fst x, SendCall (fst (snd x)) (snd (snd x)))"

lemma messages_lengths: "messages xs = Some ms \<Longrightarrow> map length ms = map (\<lambda>x. snd (snd x)) xs"
  by (induction xs arbitrary: ms) (auto dest: length_bytes_at split: option.splits)

lemma run_sends:
  assumes "cn_inv w" "cn_status (w_conn w) = CONNECTED" "fits_lens (map (\<lambda>x. snd (snd x)) xs) (length (bf_data (cn_out (w_conn w))))"
  shows "run_calls cbs (map send_call xs) w =
    (case messages xs of None \<Rightarrow> Inl OutOfBounds | Some ms \<Rightarrow> SendAll ms w)"
  using assms
proof (induction xs arbitrary: w)
  case (Cons x xs)
  show ?case
  proof (cases "bytes_at (fst x) (fst (snd x)) (snd (snd x))")
    case None
    then show ?thesis
      using Cons.prems(2) by (simp add: send_call_def)
  next
    case (Some m)
    have l: "length m = snd (snd x)"
      by (rule length_bytes_at [OF Some])
    have rm: "room (cn_out (w_conn w)) (length m)"
      using Cons.prems(3) l by (simp add: room_def)
    obtain w1 where w1: "SendInLoop m w = Inr w1" "cn_inv w1" "cn_status (w_conn w1) = CONNECTED"
      using SendInLoop_ok [OF Cons.prems(1) _ rm] Cons.prems(2) by auto
    have "fits_lens (map (\<lambda>x. snd (snd x)) xs) (length (bf_data (cn_out (w_conn w1))))"
      using SendInLoop_cap [OF Cons.prems(1) rm w1(1)] Cons.prems(2,3) l fits_lens_mono by simp blast
    from Cons.IH [OF w1(2,3) this] show ?thesis
      using Some w1(1) Cons.prems(2) by (cases "messages xs") (simp_all add: send_call_def)
  qed
qed simp

section \<open>The context\<close>

text \<open>\<open>SetContext\<close> takes its argument by value: the parameter is an object the caller makes and destroys.\<close>

definition SetContext :: "addr \<Rightarrow> 'n \<Rightarrow> 'n \<Rightarrow> ('n, 't, 'v) anys \<Rightarrow> ('n, 't, 'v) anys res" where
  "SetContext a ctx param s = any_assign a s ctx param"

definition UpgradeInLoop :: "addr \<Rightarrow> 'n \<Rightarrow> 'n \<Rightarrow> conn_cbs \<Rightarrow> conn_cbs \<times> ('n, 't, 'v) anys \<Rightarrow>
    (conn_cbs \<times> ('n, 't, 'v) anys) res" where
  "UpgradeInLoop a ctx context new cs =
     rbind (any_assign a (snd cs) ctx context) (\<lambda>s.
       Inr ((fst cs)\<lparr>conn_cb := conn_cb new, mess_cb := mess_cb new, any_cb := any_cb new,
              closed_cb := closed_cb new\<rparr>, s))"

text \<open>The task captures a copy of the context, which is destroyed with it; the assertion makes \<open>RunInLoop\<close> run it at
  once.\<close>

definition Upgrade :: "bool \<Rightarrow> addr \<times> addr \<Rightarrow> 'n \<Rightarrow> 'n \<Rightarrow> 'n \<Rightarrow> conn_cbs \<Rightarrow> conn_cbs \<times> ('n, 't, 'v) anys \<Rightarrow>
    (conn_cbs \<times> ('n, 't, 'v) anys) res" where
  "Upgrade in_loop as ctx context captured new cs =
     (if \<not> in_loop then Inl AssertFailed
      else
        rbind (any_copy (fst as) (snd cs) captured context) (\<lambda>s1.
        rbind (UpgradeInLoop (snd as) ctx captured new (fst cs, s1)) (\<lambda>(cbs, s2).
        rbind (any_destroy s2 captured) (\<lambda>s3. Inr (cbs, s3)))))"

text \<open>An upgrade gives the connection a copy of the new context, leaves every other object as it was and replaces all
  callbacks but the server's.\<close>

lemma Upgrade_ok:
  assumes inv: "an_inv s" and v: "val_of s context = Some w" "val_of s ctx \<noteq> None" "val_of s captured = None"
    and a: "a1 \<noteq> nullptr" "an_mem s a1 = None" "a2 \<noteq> nullptr" "an_mem s a2 = None" "a1 \<noteq> a2"
  shows "\<exists>s'. Upgrade True (a1, a2) ctx context captured new (cbs, s) =
      Inr (new\<lparr>server_close_cb := server_close_cb cbs\<rparr>, s') \<and> an_inv s' \<and> val_of s' = (val_of s)(ctx \<mapsto> w)"
proof -
  let ?es = "[(MakeCopy captured context, a1), (Assign ctx captured, a2), (Destroy captured, a2)]"
  have ne: "ctx \<noteq> captured" "context \<noteq> captured"
    using v by auto
  have e1: "val_step (val_of s) (MakeCopy captured context) = Some ((val_of s)(captured \<mapsto> w))"
    using v by simp
  obtain s1 where s1: "any_copy a1 s captured context = Inr s1" "an_inv s1" "val_of s1 = (val_of s)(captured \<mapsto> w)"
    using any_step_ok [OF inv e1 a(1,2)] by auto
  have m1: "an_mem s1 a2 = None"
    using s1(1) a(4,5) by (auto simp: any_copy_def rbind_eq_Inr copy_holder_def Clone_def PlaceHolder_def split: if_splits option.splits)
  have e2: "val_step (val_of s1) (Assign ctx captured) = Some ((val_of s1)(ctx \<mapsto> w))"
    using v ne by (auto simp: s1(3))
  obtain s2 where s2: "any_assign a2 s1 ctx captured = Inr s2" "an_inv s2" "val_of s2 = (val_of s1)(ctx \<mapsto> w)"
    using any_step_ok [OF s1(2) e2 a(3) m1] by auto
  obtain h where "an_holder s2 captured = Some h"
    using val_of_alive [of s2 captured] s2(3) s1(3) ne by auto
  then obtain s3 where s3: "any_destroy s2 captured = Inr s3" "an_inv s3" "val_of s3 = (val_of s2)(captured := None)"
    using lose_holder [OF s2(2)] by (auto simp: any_destroy_def holder_of_def)
  have "val_of s3 = (val_of s)(ctx \<mapsto> w)"
    using s3(3) s2(3) s1(3) v(3) ne by (auto intro!: ext)
  then show ?thesis
    using s1(1) s2(1) s3(1,2) by (simp add: Upgrade_def UpgradeInLoop_def)
qed

section \<open>Property\<close>

text \<open>C34: what threads send on a connection leaves in the order of the calls, if the bytes are still there. However
  the calls of the threads interleave with the loop, and whatever they call on other connections, from every state
  in which the loop waits its next round runs all calls. Where all calls on this connection, connected, are sends,
  they append the bytes that the callers' memory holds at the moment the loop runs each call; a call whose bytes are gone by
  then is a fault. The next write event at which \<open>send\<close> does not fail then empties the buffer and has sent what the
  kernel took of it, and no more.\<close>

theorem threads_sends_arrive:
  assumes "wk_run wk_init ts s" "wk_phase s = Waiting" "calls_of k ts = map (\<lambda>x. SendCall (fst (snd x)) (snd (snd x))) xs"
    and "cn_inv w" "cn_status (w_conn w) = CONNECTED"
    and "fits_lens (map (\<lambda>x. snd (snd x)) xs) (length (bf_data (cn_out (w_conn w))))"
  shows "\<exists>s'. wk_run wk_init ts s' \<and> wk_phase s' = Waiting \<and> wk_queue s' = [] \<and>
    (case messages xs of
       None \<Rightarrow> run_calls cbs (zip (map fst xs) (calls_of k (wk_ran s'))) w = Inl OutOfBounds
     | Some ms \<Rightarrow>
         \<exists>w1. run_calls cbs (zip (map fst xs) (calls_of k (wk_ran s'))) w = Inr w1 \<and> cn_inv w1 \<and>
           w_sent w1 = w_sent w \<and> content (cn_out (w_conn w1)) = content (cn_out (w_conn w)) @ concat ms \<and>
           (content (cn_out (w_conn w1)) \<noteq> [] \<longrightarrow>
              (\<forall>r. sk_SendNonBlock r \<noteq> - 1 \<longrightarrow>
                 (\<exists>w2. HandleWrite cbs r w1 = Inr w2 \<and> cn_inv w2 \<and> content (cn_out (w_conn w2)) = [] \<and>
                    w_sent w2 = w_sent w @ kernel_took r (content (cn_out (w_conn w)) @ concat ms)))))"
proof -
  let ?s = "s\<lparr>wk_event := 0, wk_queue := [], wk_ran := wk_ran s @ wk_queue s\<rparr>"
  have r: "wk_run wk_init ts ?s"
    using wk_run_trans [OF one_round [OF assms(2)] assms(1)] by simp
  have "announced (wk_init :: conn_loop)"
    by (simp add: announced_def wk_init_def)
  from wk_run_ok [OF r this] have "wk_ran ?s = ts"
    using assms(2) by (simp add: in_round_def wk_init_def)
  moreover have "zip (map fst xs) (map (\<lambda>x. SendCall (fst (snd x)) (snd (snd x))) xs) = map send_call xs"
    by (induction xs) (simp_all add: send_call_def)
  ultimately have run: "run_calls cbs (zip (map fst xs) (calls_of k (wk_ran ?s))) w =
      (case messages xs of None \<Rightarrow> Inl OutOfBounds | Some ms \<Rightarrow> SendAll ms w)"
    using run_sends [OF assms(4-6)] assms(3) by simp
  have "case messages xs of None \<Rightarrow> True
    | Some ms \<Rightarrow> \<exists>w1. SendAll ms w = Inr w1 \<and> cn_inv w1 \<and>
           w_sent w1 = w_sent w \<and> content (cn_out (w_conn w1)) = content (cn_out (w_conn w)) @ concat ms \<and>
           (content (cn_out (w_conn w1)) \<noteq> [] \<longrightarrow>
              (\<forall>r. sk_SendNonBlock r \<noteq> - 1 \<longrightarrow>
                 (\<exists>w2. HandleWrite cbs r w1 = Inr w2 \<and> cn_inv w2 \<and> content (cn_out (w_conn w2)) = [] \<and>
                    w_sent w2 = w_sent w @ kernel_took r (content (cn_out (w_conn w)) @ concat ms))))"
  proof (cases "messages xs")
    case (Some ms)
    have "fits_all ms (length (bf_data (cn_out (w_conn w))))"
      unfolding fits_all_lens messages_lengths [OF Some] by (rule assms(6))
    then obtain w1 where w1: "SendAll ms w = Inr w1" "cn_inv w1" "w_sent w1 = w_sent w"
        "content (cn_out (w_conn w1)) = content (cn_out (w_conn w)) @ concat ms" "cn_status (w_conn w1) = CONNECTED"
      using SendAll_ok [OF assms(4)] assms(5) by auto
    have "\<exists>w2. HandleWrite cbs r w1 = Inr w2 \<and> cn_inv w2 \<and> content (cn_out (w_conn w2)) = [] \<and>
        w_sent w2 = w_sent w @ kernel_took r (content (cn_out (w_conn w)) @ concat ms)"
      if "content (cn_out (w_conn w1)) \<noteq> []" "sk_SendNonBlock r \<noteq> - 1" for r
      using HandleWrite_took [OF w1(2) _ that] w1(3-5) by auto
    then show ?thesis
      using Some w1 by simp
  qed simp
  then show ?thesis
    using r assms(2) run by (intro exI [of _ ?s]) (simp add: option.case_eq_if)
qed

text \<open>Two threads send, one of them from memory that is gone: it faults. While it is still there, its bytes arrive;
  a kernel that takes two of the three bytes leaves the third behind for good.\<close>

lemma threads_sends_arrive_witness:
  "let mem = [4096 \<mapsto> CHR ''a'', 4097 \<mapsto> CHR ''b'', 8192 \<mapsto> CHR ''c''];
       calls = [(1, SendCall 4096 2), (2, ShutDownCall), (1, SendCall 8192 1)] in
   (\<exists>s' w1 w2. wk_run wk_init calls s' \<and> wk_queue s' = [] \<and>
      run_calls no_cbs (zip [mem, mem] (calls_of 1 (wk_ran s'))) w_demo = Inr w1 \<and>
      HandleWrite no_cbs (Sent 2) w1 = Inr w2 \<and> w_sent w2 = ''ab'' \<and> content (cn_out (w_conn w2)) = []) \<and>
   (\<exists>s'. wk_run wk_init calls s' \<and>
      run_calls no_cbs (zip [mem, mem(8192 := None)] (calls_of 1 (wk_ran s'))) w_demo = Inl OutOfBounds)"
proof -
  let ?mem = "[4096 \<mapsto> CHR ''a'', 4097 \<mapsto> CHR ''b'', 8192 \<mapsto> CHR ''c''] :: memory"
  let ?calls = "[(1, SendCall 4096 2), (2, ShutDownCall), (1, SendCall 8192 1)]"
  let ?s = "cn_Send False 1 8192 1 (ShutDown False 2 (cn_Send False 1 4096 2 wk_init))"
  have "wk_run wk_init ((([] @ [(1, SendCall 4096 2)]) @ [(2, ShutDownCall)]) @ [(1, SendCall 8192 1)]) ?s"
    unfolding cn_Send_def ShutDown_def by (rule wk_run_trans [OF call_steps])+ (rule wk_run.refl)
  then have r: "wk_run wk_init ?calls ?s"
    by simp
  have p: "wk_phase ?s = Waiting"
    by (simp add: cn_Send_def ShutDown_def RunInLoop_def QueueInLoop_def WakeUpEpollToDoPending_def wk_init_def)
  let ?xs = "[(?mem, 4096, 2), (?mem, 8192, 1)]" and ?ys = "[(?mem, 4096, 2), (?mem(8192 := None), 8192, 1)]"
  have c: "calls_of 1 ?calls = map (\<lambda>x. SendCall (fst (snd x)) (snd (snd x))) ?xs"
    "calls_of 1 ?calls = map (\<lambda>x. SendCall (fst (snd x)) (snd (snd x))) ?ys"
    by (simp_all add: calls_of_def)
  have f: "fits_lens (map (\<lambda>x. snd (snd x)) ?xs) (length (bf_data (cn_out (w_conn w_demo))))"
    "fits_lens (map (\<lambda>x. snd (snd x)) ?ys) (length (bf_data (cn_out (w_conn w_demo))))"
    by (simp_all add: w_demo_def new_conn_def bf_new_def default_size_def)
  have two: "bytes_at mem q 2 = (case mem q of None \<Rightarrow> None | Some a \<Rightarrow>
      (case mem (q + 1) of None \<Rightarrow> None | Some b \<Rightarrow> Some [a, b]))" for mem q
    by (simp add: numeral_2_eq_2 split: option.split)
  have m: "messages ?xs = Some [''ab'', ''c'']" "messages ?ys = None"
    by (simp_all add: two)
  have k: "sk_SendNonBlock (Sent 2) \<noteq> - 1" "w_sent w_demo = []"
    by (simp_all add: sk_Send_kinds w_demo_def)
  have A: "\<exists>s' w1 w2. wk_run wk_init ?calls s' \<and> wk_queue s' = [] \<and>
      run_calls no_cbs (zip [?mem, ?mem] (calls_of 1 (wk_ran s'))) w_demo = Inr w1 \<and>
      HandleWrite no_cbs (Sent 2) w1 = Inr w2 \<and> w_sent w2 = ''ab'' \<and> content (cn_out (w_conn w2)) = []"
  proof -
    obtain s' w1 where w1: "wk_run wk_init ?calls s'" "wk_queue s' = []"
      "run_calls no_cbs (zip [?mem, ?mem] (calls_of 1 (wk_ran s'))) w_demo = Inr w1"
      "content (cn_out (w_conn w1)) = content (cn_out (w_conn w_demo)) @ concat [''ab'', ''c'']"
      and h: "content (cn_out (w_conn w1)) \<noteq> [] \<longrightarrow> (\<forall>r. sk_SendNonBlock r \<noteq> - 1 \<longrightarrow>
         (\<exists>w2. HandleWrite no_cbs r w1 = Inr w2 \<and> cn_inv w2 \<and> content (cn_out (w_conn w2)) = [] \<and>
            w_sent w2 = w_sent w_demo @ kernel_took r (content (cn_out (w_conn w_demo)) @ concat [''ab'', ''c''])))"
      using threads_sends_arrive [OF r p c(1) w_demo_inv(1,2) f(1), of no_cbs] unfolding m option.case list.map fst_conv
      by (elim exE conjE)
    have "content (cn_out (w_conn w1)) \<noteq> []"
      using w1(4) by simp
    then obtain w2 where "HandleWrite no_cbs (Sent 2) w1 = Inr w2" "content (cn_out (w_conn w2)) = []"
        "w_sent w2 = w_sent w_demo @ kernel_took (Sent 2) (content (cn_out (w_conn w_demo)) @ concat [''ab'', ''c''])"
      using h k(1) by blast
    then show ?thesis
      using w1 k(2) w_demo_inv(3) by (intro exI [of _ s'] exI [of _ w1] exI [of _ w2]) (simp add: sk_Send_kinds)
  qed
  have B: "\<exists>s'. wk_run wk_init ?calls s' \<and>
      run_calls no_cbs (zip [?mem, ?mem(8192 := None)] (calls_of 1 (wk_ran s'))) w_demo = Inl OutOfBounds"
    using threads_sends_arrive [OF r p c(2) w_demo_inv(1,2) f(2), of no_cbs] unfolding m by auto
  show ?thesis
    using A B by (simp only: Let_def)
qed

end
