(* ===== verification/Tcp_Server.thy ===== *)
theory Tcp_Server
  imports Connection
begin

text \<open>
  \<open>Acceptor\<close>, \<open>LoopThreadPool\<close> and \<open>TcpServer\<close> of \<open>muduo/server.hpp\<close>: new descriptors become
  connections with fresh ids, are given to the loops in turn, and are kept in a map until they close.
  The members run in the thread of the main loop. What a new connection does in its own loop is the
  theory \<open>Connection\<close>; here it is the record of its constructor and the tasks given to its loop.
  The counters are \<open>int\<close>, and an id is the counter converted to \<open>uint64_t\<close>.
  A server without loop threads runs the tasks of a new connection at once, in the middle of
  \<open>AcceptCallback\<close>: the connections its callbacks close then are an argument.
\<close>

section \<open>The acceptor\<close>

datatype accept_step = NoClient | NewClient int

definition HandleListenRead :: "accept_result \<Rightarrow> accept_step res" where
  "HandleListenRead r =
     (let io_fd = sk_Accept r in
      if io_fd = - 2 then Inr NoClient
      else if io_fd < 0 then Inl ExitProcess
      else Inr (NewClient io_fd))"

section \<open>The pool of loops\<close>

record loop_pool =
  lp_threads_size :: nat
  lp_thread_index :: nat
  lp_loops :: "nat list"

definition lp_new :: loop_pool where
  "lp_new = \<lparr>lp_threads_size = 0, lp_thread_index = 0, lp_loops = []\<rparr>"

definition SetThreadSize :: "loop_pool \<Rightarrow> nat \<Rightarrow> loop_pool" where
  "SetThreadSize p n = p\<lparr>lp_threads_size := n\<rparr>"

text \<open>\<open>InitPool\<close> starts a thread per loop; the \<open>i\<close>-th \<open>GetLoopPtr()\<close> is the loop \<open>i\<close>.\<close>

definition InitPool :: "loop_pool \<Rightarrow> loop_pool" where
  "InitPool p =
     (if lp_threads_size p > 0 then p\<lparr>lp_loops := lp_loops p @ [0..<lp_threads_size p]\<rparr> else p)"

text \<open>\<open>None\<close> is the base loop.\<close>

definition GetNextLoopThread :: "loop_pool \<Rightarrow> (nat option \<times> loop_pool) res" where
  "GetNextLoopThread p =
     (if lp_threads_size p > 0 then
        let i = (lp_thread_index p + 1) mod lp_threads_size p in
        if i < length (lp_loops p) then Inr (Some (lp_loops p ! i), p\<lparr>lp_thread_index := i\<rparr>)
        else Inl OutOfBounds
      else Inr (None, p))"

section \<open>The server\<close>

record server =
  sv_conns :: "u64 \<Rightarrow> (conn \<times> nat option) option"
  sv_pool :: loop_pool
  sv_conn_id :: i32
  sv_timer_id :: i32
  sv_enable_release :: bool
  sv_timeout :: i32

definition sv_new :: server where
  "sv_new = \<lparr>sv_conns = Map.empty, sv_pool = lp_new, sv_conn_id = 0, sv_timer_id = 0,
     sv_enable_release = False, sv_timeout = 0\<rparr>"

definition SetThreadCountAndInit :: "server \<Rightarrow> nat \<Rightarrow> server" where
  "SetThreadCountAndInit s nums = s\<lparr>sv_pool := InitPool (SetThreadSize (sv_pool s) nums)\<rparr>"

definition EnableInactiveRelease :: "server \<Rightarrow> i32 \<Rightarrow> server" where
  "EnableInactiveRelease s timeout = s\<lparr>sv_enable_release := True, sv_timeout := timeout\<rparr>"

text \<open>The tasks given to the loop of a new connection, in order.\<close>

datatype conn_task = EstablishedTask | EnableReleaseTask i32

definition RemoveFromServer :: "u64 \<Rightarrow> server \<Rightarrow> server" where
  "RemoveFromServer i s = (if sv_conns s i \<noteq> None then s\<lparr>sv_conns := (sv_conns s)(i := None)\<rparr> else s)"

text \<open>\<open>Established\<close> and \<open>EnableInactiveRelease\<close> come before the insertion into the map. On the base loop they
  run the tasks, and with them the application's callbacks: \<open>during\<close> are the ids of the connections
  these release, in order, each a call of \<open>RemoveFromServer\<close>. A loop of a thread only gets the tasks
  queued, and what its connections release is queued for the main loop in turn.\<close>

definition AcceptCallback :: "server \<Rightarrow> int \<Rightarrow> nat \<Rightarrow> u64 list \<Rightarrow> (nat option \<times> conn_task list \<times> server) res" where
  "AcceptCallback s io_fd ch during =
     (let cid = sv_conn_id s + 1; tid = sv_timer_id s + 1 in
      rbind (GetNextLoopThread (sv_pool s)) (\<lambda>(loop, pool).
        let c = new_conn (scast cid) (scast tid) io_fd ch;
            tasks = [EstablishedTask] @ (if sv_enable_release s then [EnableReleaseTask (sv_timeout s)] else []);
            s1 = s\<lparr>sv_conn_id := cid, sv_timer_id := tid, sv_pool := pool\<rparr>;
            s2 = (if loop = None then fold RemoveFromServer during s1 else s1)
        in Inr (loop, tasks, s2\<lparr>sv_conns := (sv_conns s2)(scast cid := Some (c, loop))\<rparr>)))"

section \<open>The loops take turns\<close>

definition lp_ok :: "loop_pool \<Rightarrow> bool" where
  "lp_ok p \<longleftrightarrow> lp_loops p = [0..<lp_threads_size p] \<and> (0 < lp_threads_size p \<longrightarrow> lp_thread_index p < lp_threads_size p)"

lemma InitPool_ok: "lp_ok (InitPool (SetThreadSize lp_new n))"
  by (simp add: lp_ok_def InitPool_def SetThreadSize_def lp_new_def)

primrec next_loops :: "nat \<Rightarrow> loop_pool \<Rightarrow> (nat option list \<times> loop_pool) res" where
  "next_loops 0 p = Inr ([], p)"
| "next_loops (Suc n) p =
     rbind (GetNextLoopThread p) (\<lambda>(l, p1). rbind (next_loops n p1) (\<lambda>(ls, p2). Inr (l # ls, p2)))"

lemma GetNext_ok:
  assumes "lp_ok p" "0 < lp_threads_size p"
  shows "GetNextLoopThread p = Inr (Some ((lp_thread_index p + 1) mod lp_threads_size p),
      p\<lparr>lp_thread_index := (lp_thread_index p + 1) mod lp_threads_size p\<rparr>)"
    and "lp_ok (p\<lparr>lp_thread_index := (lp_thread_index p + 1) mod lp_threads_size p\<rparr>)"
  using assms by (simp_all add: lp_ok_def GetNextLoopThread_def Let_def)

lemma next_loops_ok:
  assumes "lp_ok p" "0 < lp_threads_size p"
  shows "\<exists>p'. next_loops n p =
    Inr (map (\<lambda>j. Some ((lp_thread_index p + 1 + j) mod lp_threads_size p)) [0..<n], p') \<and> lp_ok p' \<and>
    lp_threads_size p' = lp_threads_size p"
  using assms
proof (induction n arbitrary: p)
  case (Suc n)
  let ?k = "lp_threads_size p" and ?i = "lp_thread_index p"
  let ?p = "p\<lparr>lp_thread_index := (?i + 1) mod ?k\<rparr>"
  obtain p' where p': "next_loops n ?p =
      Inr (map (\<lambda>j. Some ((lp_thread_index ?p + 1 + j) mod ?k)) [0..<n], p')" "lp_ok p'" "lp_threads_size p' = ?k"
    using Suc.IH [OF GetNext_ok(2) [OF Suc.prems]] Suc.prems by auto
  have "((?i + 1) mod ?k + 1 + j) mod ?k = (?i + 1 + Suc j) mod ?k" for j
    using mod_add_left_eq [of "?i + 1" ?k "1 + j"] by (simp add: ac_simps)
  then have "map (\<lambda>j. Some ((lp_thread_index ?p + 1 + j) mod ?k)) [0..<n] =
      map (\<lambda>j. Some ((?i + 1 + Suc j) mod ?k)) [0..<n]"
    by simp
  moreover have "map (\<lambda>j. Some ((?i + 1 + j) mod ?k)) [0..<Suc n] =
      Some ((?i + 1) mod ?k) # map (\<lambda>j. Some ((?i + 1 + Suc j) mod ?k)) [0..<n]"
    by (simp only: upt_conv_Cons [OF zero_less_Suc] map_Suc_upt [symmetric]) simp
  ultimately show ?case
    using p' GetNext_ok(1) [OF Suc.prems] by simp
qed simp

lemma rotation:
  assumes "0 < k"
  shows "distinct (map (\<lambda>j. (i + j) mod k) [0..<k])" "set (map (\<lambda>j. (i + j) mod k) [0..<k]) = {..<k :: nat}"
proof -
  have inj: "inj_on (\<lambda>j. (i + j) mod k) {0..<k}"
  proof (rule inj_onI)
    fix a b
    assume ab: "a \<in> {0..<k}" "b \<in> {0..<k}" "(i + a) mod k = (i + b) mod k"
    have "a mod k = b mod k"
      using ab(3) by (simp only: mod_eq_iff_dvd_symdiff_nat of_nat_add add_diff_cancel_left)
    then show "a = b"
      using ab(1,2) by simp
  qed
  then show "distinct (map (\<lambda>j. (i + j) mod k) [0..<k])"
    by (simp add: distinct_map)
  have "(\<lambda>j. (i + j) mod k) ` {0..<k} \<subseteq> {..<k}"
    using assms by auto
  moreover have "card ((\<lambda>j. (i + j) mod k) ` {0..<k}) = card {..<k}"
    using card_image [OF inj] by simp
  ultimately show "set (map (\<lambda>j. (i + j) mod k) [0..<k]) = {..<k}"
    using card_subset_eq [of "{..<k}"] by simp
qed

section \<open>The map of connections\<close>

text \<open>What the server has been told: descriptors accepted, with what is released in the middle of it, and
  connections that closed at another time.\<close>

datatype server_event = Accept int nat "u64 list" | Closed u64

definition server_step :: "server \<Rightarrow> server_event \<Rightarrow> server res" where
  "server_step s e =
     (case e of
        Accept fd ch during \<Rightarrow> rbind (AcceptCallback s fd ch during) (\<lambda>(_, _, s'). Inr s')
      | Closed i \<Rightarrow> Inr (RemoveFromServer i s))"

primrec server_run :: "server_event list \<Rightarrow> server \<Rightarrow> server res" where
  "server_run [] s = Inr s"
| "server_run (e # es) s = rbind (server_step s e) (server_run es)"

definition accepts :: "server_event list \<Rightarrow> nat" where
  "accepts es = length (filter (\<lambda>e. case e of Accept _ _ _ \<Rightarrow> True | Closed _ \<Rightarrow> False) es)"

definition sv_inv :: "server \<Rightarrow> nat \<Rightarrow> bool" where
  "sv_inv s n \<longleftrightarrow> lp_ok (sv_pool s) \<and> sv_conn_id s = of_nat n \<and> sv_timer_id s = of_nat n \<and>
     (\<forall>i c l. sv_conns s i = Some (c, l) \<longrightarrow> 0 < unat i \<and> unat i \<le> n \<and> cn_id c = i \<and> cn_timer_id c = i)"

lemma id_of_count:
  assumes "n < 2147483648"
  shows "unat (scast (of_nat n :: i32) :: u64) = n"
proof -
  have "(of_nat n :: i32) = ucast (of_nat n :: u64)"
    using assms by (simp add: unsigned_of_nat take_bit_nat_eq_self)
  then have "(scast (of_nat n :: i32) :: u64) = scast (ucast (of_nat n :: u64) :: i32)"
    by simp
  moreover have "unat (of_nat n :: u64) = n"
    using assms by (intro unat_of_nat_small) simp
  ultimately show ?thesis
    using unat_scast_ucast_i32 [of "of_nat n"] assms by simp
qed

lemma RemoveFromServer_fields:
  "sv_conns (RemoveFromServer i s) = (sv_conns s)(i := None)"
  "sv_pool (RemoveFromServer i s) = sv_pool s" "sv_conn_id (RemoveFromServer i s) = sv_conn_id s"
  "sv_timer_id (RemoveFromServer i s) = sv_timer_id s"
  by (cases "sv_conns s i"; simp add: RemoveFromServer_def fun_upd_idem)+

lemma RemoveFromServer_inv: "sv_inv s n \<Longrightarrow> sv_inv (RemoveFromServer i s) n"
  unfolding sv_inv_def RemoveFromServer_fields by (auto split: if_splits)

lemma fold_Remove:
  "sv_conns (fold RemoveFromServer is s) = (\<lambda>i. if i \<in> set is then None else sv_conns s i)"
  "sv_pool (fold RemoveFromServer is s) = sv_pool s" "sv_conn_id (fold RemoveFromServer is s) = sv_conn_id s"
  "sv_timer_id (fold RemoveFromServer is s) = sv_timer_id s"
  by (induction "is" arbitrary: s) (auto simp: RemoveFromServer_fields fun_eq_iff)

lemma GetNext_pool:
  assumes "lp_ok p"
  obtains loop pool where "GetNextLoopThread p = Inr (loop, pool)" "lp_ok pool"
    "lp_threads_size pool = lp_threads_size p" "loop = None \<longleftrightarrow> lp_threads_size p = 0"
proof (cases "0 < lp_threads_size p")
  case True
  then show ?thesis using GetNext_ok [OF assms] that by fastforce
next
  case False
  then show ?thesis using assms that by (simp add: GetNextLoopThread_def)
qed

text \<open>The ids open after a run, and those closed that the map still has, from the events alone: a connection
  that the base loop releases while it is being accepted.\<close>

definition released :: "bool \<Rightarrow> u64 list \<Rightarrow> u64 set" where
  "released base during = (if base then set during else {})"

fun open_ids :: "bool \<Rightarrow> server_event list \<Rightarrow> nat \<Rightarrow> u64 set \<Rightarrow> u64 set" where
  "open_ids base [] n S = S"
| "open_ids base (Accept fd ch during # es) n S =
     open_ids base es (Suc n) (insert (of_nat (Suc n)) S - released base during)"
| "open_ids base (Closed i # es) n S = open_ids base es n (S - {i})"

fun stale_ids :: "bool \<Rightarrow> server_event list \<Rightarrow> nat \<Rightarrow> u64 set \<Rightarrow> u64 set" where
  "stale_ids base [] n T = T"
| "stale_ids base (Accept fd ch during # es) n T =
     stale_ids base es (Suc n) ((T - released base during) \<union> ({of_nat (Suc n)} \<inter> released base during))"
| "stale_ids base (Closed i # es) n T = stale_ids base es n (T - {i})"

lemma no_stale: "stale_ids False es n {} = {}"
  by (induction "False" es n "{} :: u64 set" rule: stale_ids.induct) (simp_all add: released_def)

lemma AcceptCallback_ok:
  assumes inv: "sv_inv s n" and n: "Suc n < 2147483648"
  shows "\<exists>loop tasks s'. AcceptCallback s fd ch during = Inr (loop, tasks, s') \<and> sv_inv s' (Suc n) \<and>
    of_nat (Suc n) \<notin> dom (sv_conns s) \<and> lp_threads_size (sv_pool s') = lp_threads_size (sv_pool s) \<and>
    dom (sv_conns s') = insert (of_nat (Suc n)) (dom (sv_conns s) - released (lp_threads_size (sv_pool s) = 0) during)"
proof -
  have d: "lp_ok (sv_pool s)" "sv_conn_id s = of_nat n" "sv_timer_id s = of_nat n"
    "\<And>i c l. sv_conns s i = Some (c, l) \<Longrightarrow> 0 < unat i \<and> unat i \<le> n \<and> cn_id c = i \<and> cn_timer_id c = i"
    using inv unfolding sv_inv_def by blast+
  obtain loop pool where g: "GetNextLoopThread (sv_pool s) = Inr (loop, pool)" "lp_ok pool"
      "lp_threads_size pool = lp_threads_size (sv_pool s)" "loop = None \<longleftrightarrow> lp_threads_size (sv_pool s) = 0"
    using GetNext_pool [OF d(1)] by blast
  have u: "unat (of_nat (Suc n) :: u64) = Suc n"
    using n by (intro unat_of_nat_small) simp
  have "unat (scast (of_nat (Suc n) :: i32) :: u64) = unat (of_nat (Suc n) :: u64)"
    unfolding u by (rule id_of_count [OF n])
  then have i: "(scast (of_nat (Suc n) :: i32) :: u64) = of_nat (Suc n)"
    by (rule unat_inj_u64)
  have s1: "(of_nat n + 1 :: i32) = of_nat (Suc n)"
    by (simp add: ac_simps)
  have f: "of_nat (Suc n) \<notin> dom (sv_conns s)"
    using d(4) [of "of_nat (Suc n)"] u by force
  let ?c = "new_conn (of_nat (Suc n)) (of_nat (Suc n)) fd ch"
  let ?s1 = "s\<lparr>sv_conn_id := of_nat (Suc n), sv_timer_id := of_nat (Suc n), sv_pool := pool\<rparr>"
  let ?s2 = "if loop = None then fold RemoveFromServer during ?s1 else ?s1"
  let ?s = "?s2\<lparr>sv_conns := (sv_conns ?s2)(of_nat (Suc n) := Some (?c, loop))\<rparr>"
  have r: "\<exists>tasks. AcceptCallback s fd ch during = Inr (loop, tasks, ?s)"
    unfolding AcceptCallback_def d(2,3) s1 i Let_def g(1) by simp
  have c2: "sv_conns ?s2 = (\<lambda>i. if i \<in> released (lp_threads_size (sv_pool s) = 0) during then None else sv_conns s i)"
    using g(4) by (auto simp: released_def fold_Remove fun_eq_iff)
  have p2: "sv_pool ?s2 = pool" "sv_conn_id ?s2 = of_nat (Suc n)" "sv_timer_id ?s2 = of_nat (Suc n)"
    by (simp_all add: fold_Remove del: of_nat_Suc)
  have "0 < unat j \<and> unat j \<le> Suc n \<and> cn_id c = j \<and> cn_timer_id c = j"
    if j: "sv_conns ?s j = Some (c, l)" for j c l
  proof (cases "j = of_nat (Suc n)")
    case True
    then show ?thesis
      using j u by (auto simp: new_conn_def simp del: of_nat_Suc)
  next
    case False
    then have "sv_conns ?s2 j = Some (c, l)"
      using j by (simp del: of_nat_Suc)
    then have "sv_conns s j = Some (c, l)"
      unfolding c2 by (simp split: if_splits)
    then show ?thesis
      using d(4) [of j c l] by simp
  qed
  then have "sv_inv ?s (Suc n)"
    using g(2) p2 unfolding sv_inv_def by (simp del: of_nat_Suc)
  moreover have d2: "dom (sv_conns ?s2) = dom (sv_conns s) - released (lp_threads_size (sv_pool s) = 0) during"
    unfolding c2 by (auto split: if_splits)
  have "dom (sv_conns ?s) =
      insert (of_nat (Suc n)) (dom (sv_conns s) - released (lp_threads_size (sv_pool s) = 0) during)"
    unfolding d2 [symmetric] by (simp del: of_nat_Suc)
  moreover have "lp_threads_size (sv_pool ?s) = lp_threads_size (sv_pool s)"
    using p2(1) g(3) by simp
  ultimately show ?thesis
    using r f by blast
qed

text \<open>The map is the open ids and the stale ones.\<close>

lemma server_run_ok:
  assumes "sv_inv s n" "n + accepts es < 2147483648" "dom (sv_conns s) = S \<union> T" "S \<inter> T = {}"
    and "lp_threads_size (sv_pool s) = 0 \<longleftrightarrow> base"
  shows "\<exists>s'. server_run es s = Inr s' \<and> sv_inv s' (n + accepts es) \<and>
    dom (sv_conns s') = open_ids base es n S \<union> stale_ids base es n T \<and>
    open_ids base es n S \<inter> stale_ids base es n T = {}"
  using assms
proof (induction es arbitrary: s n S T)
  case (Cons e es)
  show ?case
  proof (cases e)
    case (Accept fd ch during)
    then have n: "Suc n + accepts es < 2147483648"
      using Cons.prems(2) by (simp add: accepts_def)
    obtain loop tasks s1 where s1: "AcceptCallback s fd ch during = Inr (loop, tasks, s1)" "sv_inv s1 (Suc n)"
        "of_nat (Suc n) \<notin> dom (sv_conns s)" "lp_threads_size (sv_pool s1) = lp_threads_size (sv_pool s)"
        "dom (sv_conns s1) = insert (of_nat (Suc n)) (dom (sv_conns s) - released base during)"
      using AcceptCallback_ok [OF Cons.prems(1), of fd ch during] n Cons.prems(5) by auto
    let ?S = "insert (of_nat (Suc n)) S - released base during"
    let ?T = "(T - released base during) \<union> ({of_nat (Suc n)} \<inter> released base during)"
    have "dom (sv_conns s1) = ?S \<union> ?T" "?S \<inter> ?T = {}"
      using s1(3,5) Cons.prems(3,4) by (auto simp del: of_nat_Suc)
    from Cons.IH [OF s1(2) n this] show ?thesis
      using s1(1,4) Accept Cons.prems(5) by (simp add: server_step_def accepts_def del: of_nat_Suc)
  next
    case (Closed i)
    let ?s = "RemoveFromServer i s"
    have "dom (sv_conns ?s) = (S - {i}) \<union> (T - {i})"
      using Cons.prems(3) by (auto simp: RemoveFromServer_fields)
    from Cons.IH [OF RemoveFromServer_inv [OF Cons.prems(1)] _ this] show ?thesis
      using Closed Cons.prems(2,4,5)
      by (fastforce simp: server_step_def accepts_def RemoveFromServer_fields)
  qed
qed (simp add: accepts_def)

lemma sv_new_inv: "sv_inv (SetThreadCountAndInit sv_new k) 0"
  using InitPool_ok [of k] by (simp add: sv_inv_def SetThreadCountAndInit_def sv_new_def)

section \<open>Properties\<close>

text \<open>The loops are used in turn: among any \<open>k\<close> consecutive connections of a server with \<open>k\<close> loop
  threads every loop gets exactly one, and no index is out of range.\<close>

theorem round_robin:
  assumes "lp_ok p" "0 < lp_threads_size p"
  shows "\<exists>ls p'. next_loops (lp_threads_size p) p = Inr (map Some ls, p') \<and> lp_ok p' \<and>
    distinct ls \<and> set ls = {..<lp_threads_size p}"
proof -
  let ?ls = "map (\<lambda>j. (lp_thread_index p + 1 + j) mod lp_threads_size p) [0..<lp_threads_size p]"
  have "map (\<lambda>j. Some ((lp_thread_index p + 1 + j) mod lp_threads_size p)) [0..<lp_threads_size p] = map Some ?ls"
    by simp
  then show ?thesis
    using next_loops_ok [OF assms, of "lp_threads_size p"] rotation [OF assms(2), of "lp_thread_index p + 1"]
    by metis
qed

lemma round_robin_witness:
  "\<exists>ls p'. next_loops 3 (InitPool (SetThreadSize lp_new 3)) = Inr (map Some ls, p') \<and> set ls = {..<3}"
proof -
  have "lp_threads_size (InitPool (SetThreadSize lp_new 3)) = 3"
    by (simp add: InitPool_def SetThreadSize_def)
  with round_robin [OF InitPool_ok, of 3] show ?thesis
    by auto
qed

text \<open>C17: the server's map holds the connections that were accepted and have not closed, each under the id it
  carries, and an id is never given twice, in any order of accepts and closes with fewer than 2147483648
  accepts. With loop threads it holds nothing else. Without them it also keeps, until they are
  reported closed again, the connections that were released by their own connected callback: the
  callback runs before the insertion, which then puts the closed connection into the map.\<close>

theorem server_tracks_connections:
  assumes "accepts es < 2147483648"
  shows "\<exists>s'. server_run es (SetThreadCountAndInit sv_new k) = Inr s' \<and>
    dom (sv_conns s') = open_ids (k = 0) es 0 {} \<union> stale_ids (k = 0) es 0 {} \<and>
    open_ids (k = 0) es 0 {} \<inter> stale_ids (k = 0) es 0 {} = {} \<and>
    (0 < k \<longrightarrow> stale_ids (k = 0) es 0 {} = {}) \<and>
    (\<forall>i c l. sv_conns s' i = Some (c, l) \<longrightarrow> cn_id c = i \<and> unat i \<le> accepts es)"
proof -
  have d: "dom (sv_conns (SetThreadCountAndInit sv_new k)) = {} \<union> {}"
    by (simp add: SetThreadCountAndInit_def sv_new_def)
  have l: "lp_threads_size (sv_pool (SetThreadCountAndInit sv_new k)) = 0 \<longleftrightarrow> (k = 0)"
    by (simp add: SetThreadCountAndInit_def InitPool_def SetThreadSize_def)
  have "0 + accepts es < 2147483648"
    using assms by simp
  from server_run_ok [OF sv_new_inv this d Int_empty_left l] obtain s' where
    "server_run es (SetThreadCountAndInit sv_new k) = Inr s'" "sv_inv s' (0 + accepts es)"
      "dom (sv_conns s') = open_ids (k = 0) es 0 {} \<union> stale_ids (k = 0) es 0 {}"
      "open_ids (k = 0) es 0 {} \<inter> stale_ids (k = 0) es 0 {} = {}"
    by blast
  then show ?thesis
    using no_stale unfolding sv_inv_def by auto
qed

text \<open>With two loop threads the third connection is gone and the first two are there; without any, the second,
  closed by its own callback, stays.\<close>

lemma server_tracks_connections_witness:
  "(\<exists>s'. server_run [Accept 5 0 [], Accept 6 1 [2], Accept 7 2 [], Closed 3] (SetThreadCountAndInit sv_new 2) = Inr s' \<and>
      dom (sv_conns s') = {1, 2}) \<and>
   open_ids True [Accept 5 0 [], Accept 6 1 [2], Accept 7 2 [], Closed 3] 0 {} = {1} \<and>
   (\<exists>s'. server_run [Accept 5 0 [], Accept 6 1 [2], Accept 7 2 [], Closed 3] (SetThreadCountAndInit sv_new 0) = Inr s' \<and>
      dom (sv_conns s') = {1, 2})"
  using server_tracks_connections [of "[Accept 5 0 [], Accept 6 1 [2], Accept 7 2 [], Closed 3]" 2]
    server_tracks_connections [of "[Accept 5 0 [], Accept 6 1 [2], Accept 7 2 [], Closed 3]" 0]
  by (auto simp: accepts_def released_def)

end
