(* ===== verification/Loop_Round.thy ===== *)
theory Loop_Round
  imports Event_Loop Timer_Wheel
begin

text \<open>
  \<open>EventLoop\<close> of \<open>muduo/server.hpp\<close> as a whole: its constructor, the reading of the timer descriptor, the timer
  calls of other threads and of handlers, and a round of \<open>Loop()\<close>, which polls, runs the handlers of the active
  channels and then the pending tasks. Channel 0 is the one of the event descriptor, channel 1 the one of the timer
  descriptor. Of the other channels' handlers and of the pending tasks only their calls on the timers matter here;
  how threads wake the loop is the step relation of \<open>Event_Loop\<close>.
\<close>

section \<open>The code\<close>

datatype read_result = ReadVal u64 | ReadErr errno

datatype timer_call = AddCall u64 u32 | RefreshCall u64 | RemoveCall u64

record eloop =
  el_poll :: poller
  el_pending :: "timer_call list"
  el_wheel :: wheel

text \<open>The constructor, with the results of \<open>epoll_create\<close>, \<open>eventfd\<close> and \<open>timerfd_create\<close> and the descriptors that
  were open before.\<close>

definition Poll_new :: "int \<Rightarrow> (int \<Rightarrow> bool) \<Rightarrow> poller res" where
  "Poll_new epfd opened =
     (if epfd < 0 then Inl ExitProcess
      else Inr \<lparr>po_chans = (\<lambda>_. ch_new (- 1)), po_care = Map.empty, po_open = opened, po_watch = Map.empty\<rparr>)"

definition CreateEventFd :: "int \<Rightarrow> int res" where
  "CreateEventFd ret = (if ret < 0 then Inl ExitProcess else Inr ret)"

definition CreateTimerFd :: "int \<Rightarrow> int res" where
  "CreateTimerFd ret = (if ret < 0 then Inl ExitProcess else Inr ret)"

definition add_chan :: "nat \<Rightarrow> int \<Rightarrow> poller \<Rightarrow> poller" where
  "add_chan c fd p = p\<lparr>po_chans := (po_chans p)(c := ch_new fd), po_open := (po_open p)(fd := True)\<rparr>"

definition EventLoop_new :: "int \<Rightarrow> int \<Rightarrow> int \<Rightarrow> (int \<Rightarrow> bool) \<Rightarrow> eloop res" where
  "EventLoop_new epfd eventfd timerfd opened =
     rbind (Poll_new epfd opened) (\<lambda>p.
     rbind (CreateEventFd eventfd) (\<lambda>event_fd.
     rbind (CreateTimerFd timerfd) (\<lambda>timer_fd.
     rbind (EnableRead (add_chan 1 timer_fd (add_chan 0 event_fd p)) 0) (\<lambda>p.
     rbind (UpdateEvent p 0) (\<lambda>p.
     rbind (EnableRead p 1) (\<lambda>p.
     rbind (UpdateEvent p 1) (\<lambda>p.
       Inr \<lparr>el_poll = p, el_pending = [], el_wheel = tw_new\<rparr>)))))))"

text \<open>The two read handlers; \<open>Tick\<close> takes the 64-bit count of expirations as an \<open>int\<close>.\<close>

definition el_EventRead :: "read_result \<Rightarrow> eloop \<Rightarrow> eloop res" where
  "el_EventRead r el =
     (case r of ReadVal _ \<Rightarrow> Inr el | ReadErr e \<Rightarrow> if would_block e then Inr el else Inl ExitProcess)"

definition TimerReadCb :: "read_result \<Rightarrow> eloop \<Rightarrow> eloop res" where
  "TimerReadCb r el =
     (case r of
        ReadVal num \<Rightarrow> rbind (Tick (ucast num) (el_wheel el)) (\<lambda>w. Inr (el\<lparr>el_wheel := w\<rparr>))
      | ReadErr e \<Rightarrow> if would_block e then Inr el else Inl ExitProcess)"

fun run_timer_call :: "timer_call \<Rightarrow> wheel \<Rightarrow> wheel" where
  "run_timer_call (AddCall i timeout) w = SetTimerTask w i timeout"
| "run_timer_call (RefreshCall i) w = RefreshTimerTask w i"
| "run_timer_call (RemoveCall i) w = RemoveTimerTask w i"

definition run_timer_calls :: "timer_call list \<Rightarrow> eloop \<Rightarrow> eloop" where
  "run_timer_calls cs el = el\<lparr>el_wheel := fold run_timer_call cs (el_wheel el)\<rparr>"

definition el_RunInLoop :: "bool \<Rightarrow> timer_call \<Rightarrow> eloop \<Rightarrow> eloop" where
  "el_RunInLoop in_loop c el =
     (if in_loop then run_timer_calls [c] el else el\<lparr>el_pending := el_pending el @ [c]\<rparr>)"

definition AddTimerTask :: "bool \<Rightarrow> u64 \<Rightarrow> u32 \<Rightarrow> eloop \<Rightarrow> eloop" where
  "AddTimerTask in_loop i timeout = el_RunInLoop in_loop (AddCall i timeout)"

definition el_RefreshTimerTask :: "bool \<Rightarrow> u64 \<Rightarrow> eloop \<Rightarrow> eloop" where
  "el_RefreshTimerTask in_loop i = el_RunInLoop in_loop (RefreshCall i)"

definition el_RemoveTimerTask :: "bool \<Rightarrow> u64 \<Rightarrow> eloop \<Rightarrow> eloop" where
  "el_RemoveTimerTask in_loop i = el_RunInLoop in_loop (RemoveCall i)"

definition DoPendingTask :: "eloop \<Rightarrow> eloop" where
  "DoPendingTask el = run_timer_calls (el_pending el) (el\<lparr>el_pending := []\<rparr>)"

text \<open>What a round meets: the result of \<open>epoll_wait\<close>, of reading the two descriptors, the timer calls of the other
  channels' handlers, and those that other threads queue before the pending tasks are taken.\<close>

record round_in =
  rd_wait :: wait_result
  rd_event :: read_result
  rd_timer :: read_result
  rd_calls :: "nat \<Rightarrow> timer_call list"
  rd_queued :: "timer_call list"

definition only_read :: "(eloop \<Rightarrow> eloop res) \<Rightarrow> eloop callbacks" where
  "only_read f = \<lparr>read_cb = Some f, write_cb = None, error_cb = None, any_event_cb = None, close_cb = None\<rparr>"

definition loop_handlers :: "round_in \<Rightarrow> nat \<Rightarrow> eloop callbacks" where
  "loop_handlers r c =
     (if c = 0 then only_read (el_EventRead (rd_event r))
      else if c = 1 then only_read (TimerReadCb (rd_timer r))
      else \<lparr>read_cb = None, write_cb = None, error_cb = None,
            any_event_cb = Some (\<lambda>el. Inr (run_timer_calls (rd_calls r c) el)), close_cb = None\<rparr>)"

primrec handle_active :: "round_in \<Rightarrow> nat list \<Rightarrow> eloop \<Rightarrow> eloop res" where
  "handle_active r [] el = Inr el"
| "handle_active r (c # cs) el =
     rbind (HandleEvents (ch_revents (po_chans (el_poll el) c)) (loop_handlers r c) el) (handle_active r cs)"

definition Loop_round :: "round_in \<Rightarrow> eloop \<Rightarrow> eloop res" where
  "Loop_round r el =
     rbind (Polling (rd_wait r) (el_poll el)) (\<lambda>(active, p).
     rbind (handle_active r active (el\<lparr>el_poll := p\<rparr>)) (\<lambda>el.
       Inr (DoPendingTask (el\<lparr>el_pending := el_pending el @ rd_queued r\<rparr>))))"

primrec loop_rounds :: "round_in list \<Rightarrow> eloop \<Rightarrow> eloop res" where
  "loop_rounds [] el = Inr el"
| "loop_rounds (r # rs) el = rbind (Loop_round r el) (loop_rounds rs)"

section \<open>What a change of the wheel does to the timers of one id\<close>

text \<open>\<open>counts i n w w'\<close>: from \<open>w\<close> to \<open>w'\<close> the live timers of the id \<open>i\<close> have counted down \<open>n\<close> ticks.\<close>

definition fired_since :: "wheel \<Rightarrow> wheel \<Rightarrow> u64 list \<Rightarrow> bool" where
  "fired_since w w' xs \<longleftrightarrow> tw_fired w' = tw_fired w @ xs"

definition counts :: "u64 \<Rightarrow> nat \<Rightarrow> wheel \<Rightarrow> wheel \<Rightarrow> bool" where
  "counts i n w w' \<longleftrightarrow> tw_inv w' \<and> tw_next w \<le> tw_next w' \<and> (\<exists>xs. fired_since w w' xs) \<and>
     (\<not> IfExists w i \<longrightarrow> \<not> IfExists w' i) \<and> (\<forall>h < tw_next w. tw_tasks w h = None \<longrightarrow> tw_tasks w' h = None) \<and>
     (\<forall>h t d. tw_abs w h = Some (t, d) \<longrightarrow> tt_id t = i \<longrightarrow> \<not> tt_cancel t \<longrightarrow>
        (if n < d then tw_abs w' h = Some (t, d - n)
         else tw_tasks w' h = None \<and> (\<exists>xs. fired_since w w' xs \<and> i \<in> set xs)))"

lemma countsD:
  assumes "counts i n w w'"
  shows "tw_inv w'" "tw_next w \<le> tw_next w'" "\<exists>xs. fired_since w w' xs" "\<not> IfExists w i \<Longrightarrow> \<not> IfExists w' i"
    "h < tw_next w \<Longrightarrow> tw_tasks w h = None \<Longrightarrow> tw_tasks w' h = None"
    "tw_abs w h = Some (t, d) \<Longrightarrow> tt_id t = i \<Longrightarrow> \<not> tt_cancel t \<Longrightarrow>
      (if n < d then tw_abs w' h = Some (t, d - n)
       else tw_tasks w' h = None \<and> (\<exists>xs. fired_since w w' xs \<and> i \<in> set xs))"
  using assms unfolding counts_def by blast+

lemma fired_since_trans: "fired_since w w1 xs \<Longrightarrow> fired_since w1 w2 ys \<Longrightarrow> fired_since w w2 (xs @ ys)"
  by (simp add: fired_since_def)

lemma counts_refl: "tw_inv w \<Longrightarrow> counts i 0 w w"
  using ticks_left_pos [of w] by (force simp: counts_def fired_since_def tw_abs_def)

lemma counts_trans:
  assumes inv: "tw_inv w" and c: "counts i m w w1" "counts i n w1 w2"
  shows "counts i (m + n) w w2"
proof -
  obtain ys where ys: "fired_since w1 w2 ys"
    using countsD(3) [OF c(2)] by blast
  have old: "tw_tasks w2 h = None" if "h < tw_next w" "tw_tasks w1 h = None" for h
    using countsD(2) [OF c(1)] countsD(5) [OF c(2), of h] that by simp
  have last: "if m + n < d then tw_abs w2 h = Some (t, d - (m + n))
      else tw_tasks w2 h = None \<and> (\<exists>xs. fired_since w w2 xs \<and> i \<in> set xs)"
    if a: "tw_abs w h = Some (t, d)" "tt_id t = i" "\<not> tt_cancel t" for h t d
  proof (cases "m < d")
    case True
    then have a1: "tw_abs w1 h = Some (t, d - m)"
      using countsD(6) [OF c(1) a] by simp
    obtain xs where "fired_since w w1 xs"
      using countsD(3) [OF c(1)] by blast
    then show ?thesis
      using countsD(6) [OF c(2) a1 a(2,3)] True by (auto dest: fired_since_trans split: if_splits)
  next
    case False
    then obtain xs where xs: "tw_tasks w1 h = None" "fired_since w w1 xs" "i \<in> set xs"
      using countsD(6) [OF c(1) a] by auto
    have "h < tw_next w"
      using tw_invD(4) [OF inv, of h] a(1) by (auto simp: tw_abs_def)
    then show ?thesis
      using old xs(1) fired_since_trans [OF xs(2) ys] xs(3) False by auto
  qed
  have "\<exists>xs. fired_since w w2 xs"
    using countsD(3) [OF c(1)] ys fired_since_trans by blast
  moreover have "\<forall>h < tw_next w. tw_tasks w h = None \<longrightarrow> tw_tasks w2 h = None"
    using countsD(5) [OF c(1)] old by blast
  ultimately show ?thesis
    unfolding counts_def using countsD(1,2,4) [OF c(1)] countsD(1,2,4) [OF c(2)] last by auto
qed

lemma counts_tick:
  assumes inv: "tw_inv w"
  shows "counts i 1 w (Tick1 w)"
proof -
  have "\<exists>xs. fired_since w (Tick1 w) xs"
    using Tick1_fired by (auto simp: fired_since_def)
  moreover have "tw_record w i = Some h" if "tw_record (Tick1 w) i = Some h" for h
    using fold_destroy_record [OF due_now_distinct, of w "cleared w" i h] that
    unfolding Tick1_fold by (simp add: cleared_def)
  then have "\<not> IfExists w i \<longrightarrow> \<not> IfExists (Tick1 w) i"
    by (cases "tw_record (Tick1 w) i") (auto simp: IfExists_def)
  moreover have "tw_abs w h = Some (t, d) \<longrightarrow> tt_id t = i \<longrightarrow> \<not> tt_cancel t \<longrightarrow>
      (if 1 < d then tw_abs (Tick1 w) h = Some (t, d - 1)
       else tw_tasks (Tick1 w) h = None \<and> (\<exists>xs. fired_since w (Tick1 w) xs \<and> i \<in> set xs))" for h t d
    using Tick1_abs [OF inv] fires_at [OF inv, of h t] ticks_left_pos [OF inv, of h t]
    by (auto simp: spec_tick_def fired_since_def tw_abs_def)
  moreover have "tw_next (Tick1 w) = tw_next w" "tw_tasks w h = None \<longrightarrow> tw_tasks (Tick1 w) h = None" for h
    by (simp_all add: Tick1_fold fold_destroy) (simp_all add: cleared_def)
  ultimately show ?thesis
    unfolding counts_def using Tick1_inv [OF inv] by simp
qed

lemma counts_ticks:
  assumes inv: "tw_inv w"
  shows "counts i n w ((Tick1 ^^ n) w)"
proof (induction n)
  case (Suc n)
  then show ?case
    using counts_trans [OF inv Suc counts_tick [OF Tick1_pow_inv [OF inv]]] by simp
qed (simp add: counts_refl [OF inv])

lemma ticks_left_push_other: "h' \<noteq> h \<Longrightarrow> ticks_left (push_slot w k h) h' = ticks_left w h'"
proof -
  assume "h' \<noteq> h"
  then have "in_slot (push_slot w k h) h' d = in_slot w h' d" for d
    by (cases "k < length (tw_wheels w)") (auto simp: in_slot_def push_slot_def nth_list_update list_update_beyond)
  then show ?thesis
    by (simp add: ticks_left_def)
qed

primrec call_id :: "timer_call \<Rightarrow> u64" where
  "call_id (AddCall i timeout) = i"
| "call_id (RefreshCall i) = i"
| "call_id (RemoveCall i) = i"

lemma run_timer_call_inv: "tw_inv w \<Longrightarrow> tw_inv (run_timer_call c w)"
  by (cases c) (simp_all add: SetTimerTask_inv RefreshTimerTask_inv RemoveTimerTask_inv)

lemma counts_0I:
  assumes inv: "tw_inv w" "tw_inv w'" and f: "tw_fired w' = tw_fired w" and n: "tw_next w \<le> tw_next w'"
    and r: "tw_record w' i = tw_record w i"
    and h: "\<And>h. h < tw_next w \<Longrightarrow> tw_tasks w h = None \<Longrightarrow> tw_tasks w' h = None"
    and a: "\<And>h t. tw_tasks w h = Some t \<Longrightarrow> tt_id t = i \<Longrightarrow> tw_tasks w' h = Some t \<and> ticks_left w' h = ticks_left w h"
  shows "counts i 0 w w'"
proof -
  have "0 < d \<and> tw_abs w' h = Some (t, d)" if "tw_abs w h = Some (t, d)" "tt_id t = i" for h t d
  proof -
    have t: "tw_tasks w h = Some t" "d = ticks_left w h"
      using that(1) by (auto simp: tw_abs_def)
    then show ?thesis
      using a [OF t(1) that(2)] ticks_left_pos [OF inv(1) t(1)] by (simp add: tw_abs_def)
  qed
  then show ?thesis
    using inv(2) f n r h unfolding counts_def fired_since_def IfExists_def by force
qed

lemma counts_call:
  assumes inv: "tw_inv w" and i: "call_id c \<noteq> i"
  shows "counts i 0 w (run_timer_call c w)"
proof -
  note v = run_timer_call_inv [OF inv, of c]
  show ?thesis
  proof (cases c)
    case (AddCall j timeout)
    have "h \<noteq> tw_next w" if "tw_tasks w h = Some t" for h t
      using tw_invD(4) [OF inv, of h] that by auto
    then have l: "ticks_left (SetTimerTask w j timeout) h = ticks_left w h" if "tw_tasks w h = Some t" for h t
      using that ticks_left_push_other [of h "tw_next w" w] by (auto simp: SetTimerTask_def Let_def ticks_left_def in_slot_def push_slot_def)
    show ?thesis
      using l AddCall i v tw_invD(4) [OF inv]
      by (intro counts_0I [OF inv]) (auto simp: SetTimerTask_def Let_def push_slot_def)
  next
    case (RefreshCall j)
    have "h' \<noteq> h" if "tw_record w j = Some h'" "tw_tasks w h = Some t" "tt_id t = i" for h h' t
      using tw_invD(5) [OF inv that(1)] that i RefreshCall by auto
    then have l: "ticks_left (RefreshTimerTask w j) h = ticks_left w h" if "tw_tasks w h = Some t" "tt_id t = i" for h t
      using that by (auto simp: RefreshTimerTask_def intro!: ticks_left_push_other split: option.split)
    show ?thesis
      using RefreshCall v l
      by (intro counts_0I [OF inv]) (auto simp: RefreshTimerTask_def push_slot_def split: option.split)
  next
    case (RemoveCall j)
    have "h' \<noteq> h" if "tw_record w j = Some h'" "tw_tasks w h = Some t" "tt_id t = i" for h h' t
      using tw_invD(5) [OF inv that(1)] that i RemoveCall by auto
    then show ?thesis
      using RemoveCall v i
      by (intro counts_0I [OF inv]) (auto simp: RemoveTimerTask_def ticks_left_def in_slot_def split: option.splits)
  qed
qed

lemma counts_calls:
  assumes "tw_inv w" "\<And>c. c \<in> set cs \<Longrightarrow> call_id c \<noteq> i"
  shows "counts i 0 w (fold run_timer_call cs w)"
  using assms
proof (induction cs arbitrary: w)
  case (Cons c cs)
  have "counts i 0 (run_timer_call c w) (fold run_timer_call (c # cs) w)"
    using Cons.IH [OF run_timer_call_inv [OF Cons.prems(1)]] Cons.prems(2) by simp
  then show ?case
    using counts_trans [OF Cons.prems(1) counts_call [OF Cons.prems(1), of c i]] Cons.prems(2) by fastforce
qed (simp add: counts_refl)

section \<open>A round\<close>

text \<open>\<open>epoll_wait\<close> reports a descriptor at most once and is at most interrupted; the two descriptors are read or would
  block, and fewer than \<open>2 ^ 31\<close> seconds pass between two rounds.\<close>

definition read_ok :: "read_result \<Rightarrow> bool" where
  "read_ok r = (case r of ReadVal v \<Rightarrow> unat v < 2147483648 | ReadErr e \<Rightarrow> would_block e)"

definition ticks_read :: "read_result \<Rightarrow> nat" where
  "ticks_read r = (case r of ReadVal v \<Rightarrow> unat v | ReadErr e \<Rightarrow> 0)"

definition wait_ok :: "wait_result \<Rightarrow> bool" where
  "wait_ok r = (case r of Ready evs \<Rightarrow> distinct (map fst evs) | WaitErr e \<Rightarrow> e = EINTR)"

definition round_ok :: "u64 \<Rightarrow> round_in \<Rightarrow> bool" where
  "round_ok i r \<longleftrightarrow> wait_ok (rd_wait r) \<and> read_ok (rd_event r) \<and> read_ok (rd_timer r) \<and>
     (\<forall>c. \<forall>x \<in> set (rd_calls r c). call_id x \<noteq> i) \<and> (\<forall>x \<in> set (rd_queued r). call_id x \<noteq> i)"

definition reads_in :: "u32 \<Rightarrow> bool" where
  "reads_in ev \<longleftrightarrow> ev AND EPOLLHUP = 0 \<and> ev AND EPOLLERR = 0 \<and> ev AND (EPOLLIN OR EPOLLPRI) \<noteq> 0"

text \<open>The seconds that a round takes from the timer descriptor.\<close>

definition ticks_of :: "int \<Rightarrow> round_in \<Rightarrow> nat" where
  "ticks_of fd r =
     (case rd_wait r of
        WaitErr e \<Rightarrow> 0
      | Ready evs \<Rightarrow> (case map_of evs fd of
          None \<Rightarrow> 0
        | Some ev \<Rightarrow> if reads_in ev then ticks_read (rd_timer r) else 0))"

definition el_inv :: "int \<Rightarrow> eloop \<Rightarrow> bool" where
  "el_inv fd el \<longleftrightarrow> po_inv (el_poll el) \<and> tw_inv (el_wheel el) \<and> po_care (el_poll el) fd = Some 1"

lemma HandleEvents_only_read:
  "HandleEvents ev (only_read f) el = (if reads_in ev then f el else Inr el)"
  by (simp add: HandleEvents_def only_read_def call_cb_def reads_in_def)

lemma TimerReadCb_ok:
  assumes "tw_inv (el_wheel el)" "read_ok r"
  shows "\<exists>w. TimerReadCb r el = Inr (el\<lparr>el_wheel := w\<rparr>) \<and> counts i (ticks_read r) (el_wheel el) w"
proof (cases r)
  case (ReadVal v)
  have "sint (ucast v :: i32) = int (unat v)"
    by (rule sint_ucast_i32) (use assms(2) ReadVal in \<open>simp add: read_ok_def\<close>)
  then show ?thesis
    using counts_ticks [OF assms(1), of i "unat v"] ReadVal
    by (intro exI [of _ "(Tick1 ^^ unat v) (el_wheel el)"]) (simp add: TimerReadCb_def Tick_def ticks_read_def)
next
  case (ReadErr e)
  then show ?thesis
    using assms counts_refl by (intro exI [of _ "el_wheel el"]) (simp add: TimerReadCb_def read_ok_def ticks_read_def)
qed

definition chan_ticks :: "round_in \<Rightarrow> poller \<Rightarrow> nat" where
  "chan_ticks r p = (if reads_in (ch_revents (po_chans p 1)) then ticks_read (rd_timer r) else 0)"

definition active_ticks :: "round_in \<Rightarrow> nat list \<Rightarrow> poller \<Rightarrow> nat" where
  "active_ticks r cs p = (if 1 \<in> set cs then chan_ticks r p else 0)"

lemma active_ticks_simps [simp]:
  "active_ticks r [] p = 0" "active_ticks r [1] p = chan_ticks r p" "c \<noteq> 1 \<Longrightarrow> active_ticks r [c] p = 0"
  "c \<notin> set cs \<Longrightarrow> cs \<noteq> [] \<Longrightarrow> active_ticks r (c # cs) p = active_ticks r [c] p + active_ticks r cs p"
  by (auto simp: active_ticks_def)

lemma handle_one:
  assumes "tw_inv (el_wheel el)" "round_ok i r"
  shows "\<exists>w. HandleEvents (ch_revents (po_chans (el_poll el) c)) (loop_handlers r c) el = Inr (el\<lparr>el_wheel := w\<rparr>) \<and>
    counts i (active_ticks r [c] (el_poll el)) (el_wheel el) w"
proof -
  consider "c = 0" | "c = 1" | "c \<noteq> 0" "c \<noteq> 1"
    by blast
  then show ?thesis
  proof cases
    case 1
    then have "HandleEvents (ch_revents (po_chans (el_poll el) c)) (loop_handlers r c) el = Inr el"
      using assms(2) by (auto simp: loop_handlers_def HandleEvents_only_read el_EventRead_def round_ok_def read_ok_def
          split: read_result.splits)
    then show ?thesis
      using 1 counts_refl [OF assms(1)] by (intro exI [of _ "el_wheel el"]) simp
  next
    case 2
    have "read_ok (rd_timer r)"
      using assms(2) by (simp add: round_ok_def)
    from TimerReadCb_ok [OF assms(1) this, of i]
    obtain w where w: "TimerReadCb (rd_timer r) el = Inr (el\<lparr>el_wheel := w\<rparr>)"
        "counts i (ticks_read (rd_timer r)) (el_wheel el) w"
      by blast
    have h: "loop_handlers r c = only_read (TimerReadCb (rd_timer r))"
      using 2 by (simp add: loop_handlers_def)
    show ?thesis
    proof (cases "reads_in (ch_revents (po_chans (el_poll el) 1))")
      case True
      then show ?thesis
        using w 2 unfolding h HandleEvents_only_read by (intro exI [of _ w]) (simp add: active_ticks_def chan_ticks_def)
    next
      case False
      then show ?thesis
        using counts_refl [OF assms(1)] 2 unfolding h HandleEvents_only_read
        by (intro exI [of _ "el_wheel el"]) (simp add: active_ticks_def chan_ticks_def)
    qed
  next
    case 3
    have "counts i 0 (el_wheel el) (fold run_timer_call (rd_calls r c) (el_wheel el))"
      using assms by (intro counts_calls) (auto simp: round_ok_def)
    then show ?thesis
      using 3 by (auto simp: loop_handlers_def HandleEvents_def call_cb_def run_timer_calls_def)
  qed
qed

lemma handle_active_ok:
  assumes "tw_inv (el_wheel el)" "round_ok i r" "distinct cs"
  shows "\<exists>w. handle_active r cs el = Inr (el\<lparr>el_wheel := w\<rparr>) \<and>
    counts i (active_ticks r cs (el_poll el)) (el_wheel el) w"
  using assms(1,3)
proof (induction cs arbitrary: el)
  case Nil
  then show ?case
    using counts_refl by (intro exI [of _ "el_wheel el"]) simp
next
  case (Cons c cs)
  obtain w1 where w1: "HandleEvents (ch_revents (po_chans (el_poll el) c)) (loop_handlers r c) el = Inr (el\<lparr>el_wheel := w1\<rparr>)"
      "counts i (active_ticks r [c] (el_poll el)) (el_wheel el) w1"
    using handle_one [OF Cons.prems(1) assms(2)] by blast
  have "tw_inv (el_wheel (el\<lparr>el_wheel := w1\<rparr>))" "distinct cs"
    using countsD(1) [OF w1(2)] Cons.prems(2) by simp_all
  from Cons.IH [OF this] obtain w2 where w2: "handle_active r cs (el\<lparr>el_wheel := w1\<rparr>) = Inr (el\<lparr>el_wheel := w1, el_wheel := w2\<rparr>)"
      "counts i (active_ticks r cs (el_poll (el\<lparr>el_wheel := w1\<rparr>))) (el_wheel (el\<lparr>el_wheel := w1\<rparr>)) w2"
    by blast
  have "handle_active r (c # cs) el = Inr (el\<lparr>el_wheel := w2\<rparr>)"
    using w1(1) w2(1) by simp
  moreover have "active_ticks r (c # cs) (el_poll el) = active_ticks r [c] (el_poll el) + active_ticks r cs (el_poll el)"
    using Cons.prems(2) by (auto simp: active_ticks_def)
  ultimately show ?case
    using counts_trans [OF Cons.prems(1) w1(2)] w2(2) by (intro exI [of _ w2]) simp
qed

text \<open>After a poll the revents of an active channel are those its descriptor was reported with.\<close>

lemma collect_revents:
  assumes "po_inv p" "distinct (map fst evs)" "po_care p fd = Some c" "collect evs p = (cs, p')"
  shows "ch_revents (po_chans p' c) = (case map_of evs fd of Some ev \<Rightarrow> ev | None \<Rightarrow> ch_revents (po_chans p c))"
  using assms
proof (induction evs arbitrary: p cs)
  case (Cons e evs)
  have fd: "ch_fd (po_chans p c) = fd"
    using po_inv_Some [OF Cons.prems(1,3)] by simp
  show ?case
  proof (cases "po_care p (fst e)")
    case None
    then have "fst e \<noteq> fd" "collect evs p = (cs, p')"
      using Cons.prems(3,4) by auto
    then show ?thesis
      using Cons.IH [OF Cons.prems(1) _ Cons.prems(3)] Cons.prems(2) by simp
  next
    case (Some d)
    let ?p = "p\<lparr>po_chans := (po_chans p)(d := SetRevents (po_chans p d) (snd e))\<rparr>"
    obtain cs2 where c2: "collect evs ?p = (cs2, p')"
      using Cons.prems(4) Some by (auto split: prod.splits)
    have "ch_fd (po_chans p d) = fst e"
      using po_inv_Some [OF Cons.prems(1) Some] by simp
    then have "d = c \<longleftrightarrow> fst e = fd"
      by (metis fd Some Cons.prems(3) option.inject)
    moreover have "po_care ?p fd = Some c" "distinct (map fst evs)"
      using Cons.prems(2,3) by simp_all
    note ih = Cons.IH [OF SetRevents_inv [OF Cons.prems(1)] this(2,1) c2]
    show ?thesis
    proof (cases "fst e = fd")
      case True
      then have "map_of evs fd = None"
        using Cons.prems(2) by (auto simp: map_of_eq_None_iff)
      then show ?thesis
        using ih True calculation by (simp add: SetRevents_def)
    next
      case False
      then have "ch_revents (po_chans ?p c) = ch_revents (po_chans p c)"
        using calculation by simp
      then show ?thesis
        using ih False by (auto split: option.splits)
    qed
  qed
qed simp

lemma set_map_filter: "set (List.map_filter f xs) = {y. \<exists>x \<in> set xs. f x = Some y}"
  by (induction xs) (auto simp: map_filter_simps split: option.split)

lemma active_distinct:
  assumes "po_inv p" "distinct (map fst evs)"
  shows "distinct (List.map_filter (\<lambda>ev. po_care p (fst ev)) evs)"
  using assms(2)
proof (induction evs)
  case (Cons e evs)
  have ih: "distinct (List.map_filter (\<lambda>ev. po_care p (fst ev)) evs)"
    using Cons by simp
  show ?case
  proof (cases "po_care p (fst e)")
    case (Some c)
    have "fd = fst e" if "po_care p fd = Some c" for fd
      using po_inv_Some [OF assms(1) Some] po_inv_Some [OF assms(1) that] by simp
    moreover have "fst e' \<noteq> fst e" if "e' \<in> set evs" for e'
      using Cons.prems that by (auto simp: rev_image_eqI)
    ultimately have "po_care p (fst e') \<noteq> Some c" if "e' \<in> set evs" for e'
      using that by blast
    then have "c \<notin> set (List.map_filter (\<lambda>ev. po_care p (fst ev)) evs)"
      by (auto simp: set_map_filter)
    then show ?thesis
      using ih Some by (simp add: map_filter_simps)
  qed (use ih in \<open>simp add: map_filter_simps\<close>)
qed (simp add: map_filter_simps)

lemma active_iff:
  assumes "po_inv p" "po_care p fd = Some c"
  shows "c \<in> set (List.map_filter (\<lambda>ev. po_care p (fst ev)) evs) \<longleftrightarrow> map_of evs fd \<noteq> None"
proof -
  have "po_care p (fst e) = Some c \<longleftrightarrow> fst e = fd" for e :: "int \<times> u32"
    using po_inv_Some [OF assms(1), of "fst e" c] po_inv_Some [OF assms] assms(2) by auto
  then show ?thesis
    unfolding set_map_filter map_of_eq_None_iff by (auto intro: rev_image_eqI) (metis fst_conv)
qed

lemma Polling_ok:
  assumes "po_inv p" "wait_ok w" "po_care p fd = Some 1"
  obtains cs p' where "Polling w p = Inr (cs, p')" "po_inv p'" "po_care p' = po_care p" "distinct cs"
    "rd_wait r = w \<Longrightarrow> active_ticks r cs p' = ticks_of fd r"
proof (cases w)
  case (Ready evs)
  obtain cs p' where c: "collect evs p = (cs, p')"
    by (cases "collect evs p")
  note ok = collect_ok [OF assms(1) c]
  have d: "distinct (map fst evs)"
    using assms(2) Ready by (simp add: wait_ok_def)
  have t: "active_ticks r cs p' = ticks_of fd r" if "rd_wait r = w"
    using active_iff [OF assms(1,3), of evs] ok collect_revents [OF assms(1) d assms(3) c] that Ready
    by (auto simp: ticks_of_def active_ticks_def chan_ticks_def split: option.splits)
  show thesis
  proof (rule that)
    show "Polling w p = Inr (cs, p')"
      using Ready c by (simp add: Polling_def)
    show "distinct cs"
      using active_distinct [OF assms(1) d] ok by simp
  qed (use ok t in simp_all)
next
  case (WaitErr e)
  show thesis
    by (rule that [of "[]" p]) (use WaitErr assms in \<open>simp_all add: Polling_def wait_ok_def ticks_of_def\<close>)
qed

lemma Loop_round_handled:
  assumes inv: "el_inv fd el" and ok: "round_ok i r"
  obtains p w where "Loop_round r el =
      Inr (DoPendingTask \<lparr>el_poll = p, el_pending = el_pending el @ rd_queued r, el_wheel = w\<rparr>)"
    "po_inv p" "po_care p fd = Some 1" "counts i (ticks_of fd r) (el_wheel el) w"
proof -
  have v: "po_inv (el_poll el)" "tw_inv (el_wheel el)" "po_care (el_poll el) fd = Some 1"
    using inv by (simp_all add: el_inv_def)
  have "wait_ok (rd_wait r)"
    using ok by (simp add: round_ok_def)
  from v(1) this v(3) obtain cs p where p: "Polling (rd_wait r) (el_poll el) = Inr (cs, p)" "po_inv p"
      "po_care p = po_care (el_poll el)" "distinct cs" "active_ticks r cs p = ticks_of fd r"
    by (rule Polling_ok [where r = r]) blast
  have "tw_inv (el_wheel (el\<lparr>el_poll := p\<rparr>))"
    using v(2) by simp
  from handle_active_ok [OF this ok p(4)]
  obtain w where w: "handle_active r cs (el\<lparr>el_poll := p\<rparr>) = Inr (el\<lparr>el_poll := p, el_wheel := w\<rparr>)"
      "counts i (ticks_of fd r) (el_wheel el) w"
    using p(5) by auto
  have e: "el\<lparr>el_poll := p, el_wheel := w, el_pending := el_pending el @ rd_queued r\<rparr> =
      \<lparr>el_poll = p, el_pending = el_pending el @ rd_queued r, el_wheel = w\<rparr>"
    by (cases el) simp
  have "Loop_round r el =
      Inr (DoPendingTask \<lparr>el_poll = p, el_pending = el_pending el @ rd_queued r, el_wheel = w\<rparr>)"
    unfolding e [symmetric] using p(1) w(1) by (simp add: Loop_round_def)
  then show thesis
    using that p(2,3) v(3) w(2) by simp
qed

lemma Loop_round_ok:
  assumes inv: "el_inv fd el" and ok: "round_ok i r" and pe: "el_pending el = []"
  shows "\<exists>el'. Loop_round r el = Inr el' \<and> el_inv fd el' \<and> el_pending el' = [] \<and>
    counts i (ticks_of fd r) (el_wheel el) (el_wheel el')"
proof -
  obtain p w where w: "Loop_round r el =
      Inr (DoPendingTask \<lparr>el_poll = p, el_pending = el_pending el @ rd_queued r, el_wheel = w\<rparr>)"
    "po_inv p" "po_care p fd = Some 1" "counts i (ticks_of fd r) (el_wheel el) w"
    using Loop_round_handled [OF inv ok] .
  have "counts i 0 w (fold run_timer_call (rd_queued r) w)"
    using ok by (intro counts_calls countsD(1) [OF w(4)]) (simp add: round_ok_def)
  then show ?thesis
    using counts_trans [OF _ w(4)] countsD(1) inv w(1-3) pe
    by (fastforce simp: DoPendingTask_def run_timer_calls_def el_inv_def)
qed

lemma loop_rounds_ok:
  assumes "el_inv fd el" "\<And>r. r \<in> set rs \<Longrightarrow> round_ok i r" "el_pending el = []"
  shows "\<exists>el'. loop_rounds rs el = Inr el' \<and> el_inv fd el' \<and>
    counts i (sum_list (map (ticks_of fd) rs)) (el_wheel el) (el_wheel el')"
  using assms
proof (induction rs arbitrary: el)
  case Nil
  then show ?case
    using counts_refl by (simp add: el_inv_def)
next
  case (Cons r rs)
  obtain el1 where el1: "Loop_round r el = Inr el1" "el_inv fd el1" "el_pending el1 = []"
      "counts i (ticks_of fd r) (el_wheel el) (el_wheel el1)"
    using Loop_round_ok [OF Cons.prems(1) _ Cons.prems(3), of i r] Cons.prems(2) by auto
  obtain el2 where el2: "loop_rounds rs el1 = Inr el2" "el_inv fd el2"
      "counts i (sum_list (map (ticks_of fd) rs)) (el_wheel el1) (el_wheel el2)"
    using Cons.IH [OF el1(2) _ el1(3)] Cons.prems(2) by auto
  have "tw_inv (el_wheel el)"
    using Cons.prems(1) by (simp add: el_inv_def)
  from counts_trans [OF this el1(4) el2(3)] show ?case
    using el1(1) el2(1,2) by simp
qed

section \<open>The constructor\<close>

text \<open>A new loop watches its two descriptors for reading, and nothing else.\<close>

lemma EventLoop_new_ok:
  assumes "0 \<le> epfd" "0 \<le> efd" "0 \<le> tfd" "efd \<noteq> tfd"
  shows "\<exists>el. EventLoop_new epfd efd tfd opened = Inr el \<and> el_inv tfd el \<and> el_pending el = [] \<and> el_wheel el = tw_new \<and>
    po_watch (el_poll el) = [efd \<mapsto> EPOLLIN, tfd \<mapsto> EPOLLIN] \<and> po_care (el_poll el) = [efd \<mapsto> 0, tfd \<mapsto> 1]"
proof -
  let ?p0 = "\<lparr>po_chans = (\<lambda>_. ch_new (- 1)), po_care = Map.empty, po_open = opened, po_watch = Map.empty\<rparr>"
  let ?p = "add_chan 1 tfd (add_chan 0 efd ?p0)"
  let ?ch = "\<lambda>fd. (ch_new fd)\<lparr>ch_events := EPOLLIN\<rparr>"
  let ?q = "?p\<lparr>po_chans := (po_chans ?p)(0 := ?ch efd, 1 := ?ch tfd), po_watch := [efd \<mapsto> EPOLLIN, tfd \<mapsto> EPOLLIN],
    po_care := [efd \<mapsto> 0, tfd \<mapsto> 1]\<rparr>"
  let ?r = "?p\<lparr>po_chans := (po_chans ?p)(0 := ?ch efd), po_watch := [efd \<mapsto> EPOLLIN], po_care := [efd \<mapsto> 0]\<rparr>"
  note defs = EnableRead_def UpdateEvent_def UpdateMonitor_def epoll_ctl_def IfExist_def set_events_def add_chan_def ch_new_def Let_def
  have s: "EnableRead ?p 0 = Inr ?r" "UpdateEvent ?r 0 = Inr ?r" "EnableRead ?r 1 = Inr ?q" "UpdateEvent ?q 1 = Inr ?q"
    using assms(4) by (simp_all add: defs fun_upd_idem fun_upd_twist)
  have "po_inv ?q"
    using assms(4) by (intro po_invI) (auto simp: add_chan_def ch_new_def split: if_splits)
  then show ?thesis
    using s assms tw_new_inv by (simp add: EventLoop_new_def Poll_new_def CreateEventFd_def CreateTimerFd_def el_inv_def)
qed

section \<open>Property\<close>


definition quiet_round :: "wait_result \<Rightarrow> u64 \<Rightarrow> round_in" where
  "quiet_round wait n = \<lparr>rd_wait = wait, rd_event = ReadVal 1, rd_timer = ReadVal n, rd_calls = (\<lambda>_. []), rd_queued = []\<rparr>"


end
