(* ===== verification/Loop_Thread.thy ===== *)
theory Loop_Thread
  imports Event_Loop
begin

text \<open>
  \<open>LoopThread\<close> of \<open>muduo/server.hpp\<close>: a thread that makes its own event loop, and \<open>GetLoopPtr\<close>, which waits
  for it. A step is one initialisation of a member, one operation on the mutex or the condition variable, or one
  access to \<open>_loop\<close>. The members are initialised in the order of their declarations, so the thread runs before the
  mutex and the condition variable exist; using either before it exists is undefined and ends a run in \<open>lt_early\<close>.
\<close>

section \<open>The code\<close>

text \<open>The thread that makes the object and then calls \<open>GetLoopPtr\<close>: where it is in the constructor or in the call.\<close>

datatype owner_pc =
    InitLoop | InitThread | InitMtx | InitCond
  | GetLock | GetTest | GetAsleep | GetRelock | GetUnlock | GetReturn | GotLoop addr

text \<open>The thread of the loop: where it is in \<open>ThreadEntry\<close>.\<close>

datatype entry_pc = NotStarted | MakeLoop | EntryLock | EntrySet | EntryNotify | EntryUnlock | EntryLoop

datatype lt_holder = ByOwner | ByEntry

record loop_thread =
  lt_loop :: addr
  lt_mtx :: "lt_holder option"
  lt_mtx_made :: bool
  lt_cond_made :: bool
  lt_owner :: owner_pc
  lt_entry :: entry_pc
  lt_early :: bool

definition lt_start :: loop_thread where
  "lt_start = \<lparr>lt_loop = nullptr, lt_mtx = None, lt_mtx_made = False, lt_cond_made = False,
     lt_owner = InitLoop, lt_entry = NotStarted, lt_early = False\<rparr>"

text \<open>\<open>a\<close> is the address of the thread's \<open>EventLoop\<close> variable.\<close>

inductive owner_step :: "loop_thread \<Rightarrow> loop_thread \<Rightarrow> bool" where
  init_loop: "lt_owner s = InitLoop \<Longrightarrow> owner_step s (s\<lparr>lt_loop := nullptr, lt_owner := InitThread\<rparr>)"
| init_thread: "lt_owner s = InitThread \<Longrightarrow> owner_step s (s\<lparr>lt_entry := MakeLoop, lt_owner := InitMtx\<rparr>)"
| init_mtx: "lt_owner s = InitMtx \<Longrightarrow> owner_step s (s\<lparr>lt_mtx := None, lt_mtx_made := True, lt_owner := InitCond\<rparr>)"
| init_cond: "lt_owner s = InitCond \<Longrightarrow> owner_step s (s\<lparr>lt_cond_made := True, lt_owner := GetLock\<rparr>)"
| get_lock: "lt_owner s = GetLock \<Longrightarrow> lt_mtx s = None \<Longrightarrow>
    owner_step s (s\<lparr>lt_mtx := Some ByOwner, lt_owner := GetTest\<rparr>)"
| get_test: "lt_owner s = GetTest \<Longrightarrow> lt_loop s \<noteq> nullptr \<Longrightarrow> owner_step s (s\<lparr>lt_owner := GetUnlock\<rparr>)"
| get_wait: "lt_owner s = GetTest \<Longrightarrow> lt_loop s = nullptr \<Longrightarrow>
    owner_step s (s\<lparr>lt_mtx := None, lt_owner := GetAsleep\<rparr>)"
| get_relock: "lt_owner s = GetRelock \<Longrightarrow> lt_mtx s = None \<Longrightarrow>
    owner_step s (s\<lparr>lt_mtx := Some ByOwner, lt_owner := GetTest\<rparr>)"
| get_unlock: "lt_owner s = GetUnlock \<Longrightarrow> owner_step s (s\<lparr>lt_mtx := None, lt_owner := GetReturn\<rparr>)"
| get_return: "lt_owner s = GetReturn \<Longrightarrow> owner_step s (s\<lparr>lt_owner := GotLoop (lt_loop s)\<rparr>)"

inductive entry_step :: "addr \<Rightarrow> loop_thread \<Rightarrow> loop_thread \<Rightarrow> bool" for a where
  make_loop: "lt_entry s = MakeLoop \<Longrightarrow> entry_step a s (s\<lparr>lt_entry := EntryLock\<rparr>)"
| entry_lock: "lt_entry s = EntryLock \<Longrightarrow> lt_mtx_made s \<Longrightarrow> lt_mtx s = None \<Longrightarrow>
    entry_step a s (s\<lparr>lt_mtx := Some ByEntry, lt_entry := EntrySet\<rparr>)"
| early_lock: "lt_entry s = EntryLock \<Longrightarrow> \<not> lt_mtx_made s \<Longrightarrow> entry_step a s (s\<lparr>lt_early := True\<rparr>)"
| entry_set: "lt_entry s = EntrySet \<Longrightarrow> entry_step a s (s\<lparr>lt_loop := a, lt_entry := EntryNotify\<rparr>)"
| entry_notify: "lt_entry s = EntryNotify \<Longrightarrow> lt_cond_made s \<Longrightarrow>
    entry_step a s (s\<lparr>lt_owner := (if lt_owner s = GetAsleep then GetRelock else lt_owner s), lt_entry := EntryUnlock\<rparr>)"
| early_notify: "lt_entry s = EntryNotify \<Longrightarrow> \<not> lt_cond_made s \<Longrightarrow> entry_step a s (s\<lparr>lt_early := True\<rparr>)"
| entry_unlock: "lt_entry s = EntryUnlock \<Longrightarrow> entry_step a s (s\<lparr>lt_mtx := None, lt_entry := EntryLoop\<rparr>)"

text \<open>A run of both threads, in which a waiting thread may also wake without being notified.\<close>

inductive lt_step :: "addr \<Rightarrow> loop_thread \<Rightarrow> loop_thread \<Rightarrow> bool" for a where
  owner: "\<not> lt_early s \<Longrightarrow> owner_step s s' \<Longrightarrow> lt_step a s s'"
| entry: "\<not> lt_early s \<Longrightarrow> entry_step a s s' \<Longrightarrow> lt_step a s s'"

definition spurious :: "loop_thread \<Rightarrow> loop_thread" where
  "spurious s = (if lt_owner s = GetAsleep then s\<lparr>lt_owner := GetRelock\<rparr> else s)"

inductive lt_run :: "addr \<Rightarrow> loop_thread \<Rightarrow> bool" for a where
  start: "lt_run a lt_start"
| step: "lt_run a s \<Longrightarrow> lt_step a s s' \<Longrightarrow> lt_run a s'"
| wake: "lt_run a s \<Longrightarrow> lt_run a (spurious s)"

inductive_cases owner_stepE: "owner_step s s'"
inductive_cases entry_stepE: "entry_step a s s'"
inductive_cases lt_stepE: "lt_step a s s'"

section \<open>The invariant\<close>

definition owner_holds :: "owner_pc \<Rightarrow> bool" where
  "owner_holds pc \<longleftrightarrow> pc = GetTest \<or> pc = GetUnlock"

definition entry_holds :: "entry_pc \<Rightarrow> bool" where
  "entry_holds pc \<longleftrightarrow> pc = EntrySet \<or> pc = EntryNotify \<or> pc = EntryUnlock"

definition building :: "owner_pc \<Rightarrow> bool" where
  "building pc \<longleftrightarrow> pc = InitLoop \<or> pc = InitThread \<or> pc = InitMtx \<or> pc = InitCond"

definition has_set :: "entry_pc \<Rightarrow> bool" where
  "has_set pc \<longleftrightarrow> pc = EntryNotify \<or> pc = EntryUnlock \<or> pc = EntryLoop"

definition lt_inv :: "addr \<Rightarrow> loop_thread \<Rightarrow> bool" where
  "lt_inv a s \<longleftrightarrow>
     (lt_mtx s = Some ByOwner \<longleftrightarrow> owner_holds (lt_owner s)) \<and> (lt_mtx s = Some ByEntry \<longleftrightarrow> entry_holds (lt_entry s)) \<and>
     (lt_mtx_made s \<longleftrightarrow> lt_owner s \<noteq> InitLoop \<and> lt_owner s \<noteq> InitThread \<and> lt_owner s \<noteq> InitMtx) \<and>
     (lt_cond_made s \<longleftrightarrow> \<not> building (lt_owner s)) \<and>
     (lt_entry s = NotStarted \<longleftrightarrow> lt_owner s = InitLoop \<or> lt_owner s = InitThread) \<and>
     (entry_holds (lt_entry s) \<or> lt_entry s = EntryLoop \<longrightarrow> lt_mtx_made s) \<and>
     (lt_entry s = EntryUnlock \<or> lt_entry s = EntryLoop \<longrightarrow> lt_cond_made s) \<and>
     lt_loop s = (if has_set (lt_entry s) then a else nullptr) \<and>
     (lt_owner s = GetAsleep \<longrightarrow> \<not> (lt_entry s = EntryUnlock \<or> lt_entry s = EntryLoop)) \<and>
     (lt_owner s = GetUnlock \<or> lt_owner s = GetReturn \<longrightarrow> has_set (lt_entry s)) \<and>
     (\<forall>p. lt_owner s = GotLoop p \<longrightarrow> p = a \<and> has_set (lt_entry s))"

lemmas lt_defs = lt_inv_def owner_holds_def entry_holds_def building_def has_set_def

lemma owner_step_inv:
  assumes "owner_step s s'" "lt_inv a s" "a \<noteq> nullptr"
  shows "lt_inv a s'"
  using assms by (elim owner_stepE) (cases "lt_entry s"; auto simp: lt_defs split: if_splits)+

lemma entry_step_inv:
  assumes "entry_step a s s'" "lt_inv a s" "a \<noteq> nullptr"
  shows "lt_inv a s'"
  using assms by (elim entry_stepE) (cases "lt_owner s"; auto simp: lt_defs split: if_splits)+

lemma lt_run_inv:
  assumes "lt_run a s" "a \<noteq> nullptr"
  shows "lt_inv a s"
  using assms(1)
proof induction
  case start
  show ?case
    by (simp add: lt_defs lt_start_def)
next
  case (step s s')
  then show ?case
    using owner_step_inv entry_step_inv assms(2) by (auto elim: lt_stepE)
next
  case (wake s)
  then show ?case
    by (cases "lt_owner s") (auto simp: lt_defs spurious_def)
qed

section \<open>Every run ends\<close>

primrec owner_left :: "owner_pc \<Rightarrow> nat" where
  "owner_left InitLoop = 10"
| "owner_left InitThread = 9"
| "owner_left InitMtx = 8"
| "owner_left InitCond = 7"
| "owner_left GetLock = 6"
| "owner_left GetRelock = 6"
| "owner_left GetTest = 5"
| "owner_left GetAsleep = 4"
| "owner_left GetUnlock = 3"
| "owner_left GetReturn = 2"
| "owner_left (GotLoop p) = 0"

primrec entry_left :: "entry_pc \<Rightarrow> nat" where
  "entry_left NotStarted = 6"
| "entry_left MakeLoop = 5"
| "entry_left EntryLock = 4"
| "entry_left EntrySet = 3"
| "entry_left EntryNotify = 2"
| "entry_left EntryUnlock = 1"
| "entry_left EntryLoop = 0"

definition lt_left :: "loop_thread \<Rightarrow> nat" where
  "lt_left s = owner_left (lt_owner s) + 3 * entry_left (lt_entry s)"

lemma lt_left_le: "lt_left s \<le> 28"
  by (cases "lt_owner s"; cases "lt_entry s") (simp_all add: lt_left_def)

definition handed_over :: "addr \<Rightarrow> loop_thread \<Rightarrow> bool" where
  "handed_over a s \<longleftrightarrow> lt_owner s = GotLoop a \<and> lt_entry s = EntryLoop \<and> lt_mtx s = None"

lemma lt_step_less:
  assumes "lt_step a s s'" "lt_inv a s" "\<not> lt_early s'"
  shows "lt_left s' < lt_left s"
proof -
  have start: "lt_owner s = InitThread \<Longrightarrow> lt_entry s = NotStarted"
    using assms(2) by (simp add: lt_inv_def)
  from assms(1) show ?thesis
  proof (cases rule: lt_step.cases)
    case owner
    from owner(2) show ?thesis
      by (cases rule: owner_step.cases) (use start in \<open>simp_all add: lt_left_def\<close>)
  next
    case entry
    from entry(2) show ?thesis
      by (cases rule: entry_step.cases) (use assms(3) in \<open>simp_all add: lt_left_def\<close>)
  qed
qed

text \<open>Neither thread is stuck: who holds the mutex can go on, and while the owner sleeps the other will notify.\<close>

lemma mtx_cases: "lt_mtx s = None \<or> lt_mtx s = Some ByOwner \<or> lt_mtx s = Some ByEntry"
  by (metis lt_holder.exhaust option.exhaust)

lemma owner_can_step:
  assumes "lt_inv a s" "lt_mtx s \<noteq> Some ByEntry" "lt_owner s \<noteq> GetAsleep" "\<And>p. lt_owner s \<noteq> GotLoop p"
  shows "\<exists>s'. owner_step s s'"
proof (cases "lt_owner s")
  case GetLock
  then have "lt_mtx s = None"
    using assms(1,2) mtx_cases [of s] by (auto simp: lt_inv_def owner_holds_def entry_holds_def)
  then show ?thesis
    using owner_step.get_lock [OF GetLock] by blast
next
  case GetRelock
  then have "lt_mtx s = None"
    using assms(1,2) mtx_cases [of s] by (auto simp: lt_inv_def owner_holds_def entry_holds_def)
  then show ?thesis
    using owner_step.get_relock [OF GetRelock] by blast
next
  case GetTest
  then show ?thesis
    using owner_step.get_test [OF GetTest] owner_step.get_wait [OF GetTest] by blast
qed (use assms(3,4) in \<open>auto intro: owner_step.intros\<close>)

lemma entry_can_step:
  assumes "lt_inv a s" "lt_mtx s \<noteq> Some ByOwner" "lt_entry s \<noteq> NotStarted" "lt_entry s \<noteq> EntryLoop"
  shows "\<exists>s'. entry_step a s s'"
proof (cases "lt_entry s")
  case EntryLock
  then have "lt_mtx s = None"
    using assms(1,2) mtx_cases [of s] by (auto simp: lt_inv_def owner_holds_def entry_holds_def)
  then show ?thesis
    using entry_step.entry_lock [OF EntryLock] entry_step.early_lock [OF EntryLock] by blast
next
  case EntryNotify
  then show ?thesis
    using entry_step.entry_notify [OF EntryNotify] entry_step.early_notify [OF EntryNotify] by blast
qed (use assms(3,4) in \<open>auto intro: entry_step.intros\<close>)

lemma lt_inv_waiting:
  assumes "lt_inv a s" "lt_owner s = GetAsleep \<or> lt_owner s = GotLoop p"
  shows "lt_mtx s \<noteq> Some ByOwner" "lt_entry s \<noteq> NotStarted"
    "lt_owner s = GetAsleep \<Longrightarrow> lt_entry s \<noteq> EntryLoop" "lt_owner s = GotLoop p \<Longrightarrow> p = a"
  using assms by (elim disjE; simp add: lt_inv_def owner_holds_def)+

lemma lt_progress:
  assumes inv: "lt_inv a s" and e: "\<not> lt_early s" and n: "\<not> handed_over a s"
  shows "\<exists>s'. lt_step a s s'"
proof (cases "lt_mtx s = Some ByEntry")
  case True
  then have "entry_holds (lt_entry s)"
    using inv by (simp add: lt_inv_def)
  then have "lt_entry s \<noteq> NotStarted" "lt_entry s \<noteq> EntryLoop"
    by (auto simp: entry_holds_def)
  then show ?thesis
    using entry_can_step [OF inv] True lt_step.entry [OF e] by auto
next
  case f: False
  show ?thesis
  proof (cases "lt_owner s = GetAsleep \<or> (\<exists>p. lt_owner s = GotLoop p)")
    case False
    then show ?thesis
      using owner_can_step [OF inv f] lt_step.owner [OF e] by blast
  next
    case True
    then obtain p where p: "lt_owner s = GetAsleep \<or> lt_owner s = GotLoop p"
      by blast
    note m = lt_inv_waiting [OF inv p]
    have "lt_mtx s = None"
      using f m(1) mtx_cases [of s] by blast
    then have "lt_entry s \<noteq> EntryLoop"
      using p m(3,4) n by (auto simp: handed_over_def)
    then show ?thesis
      using entry_can_step [OF inv m(1,2)] lt_step.entry [OF e] by blast
  qed
qed

lemma lt_steps_bound:
  assumes "(lt_step a ^^ n) s s'" "lt_inv a s" "a \<noteq> nullptr" "\<not> lt_early s'"
  shows "n + lt_left s' \<le> lt_left s \<and> lt_inv a s'"
  using assms(1,4)
proof (induction n arbitrary: s')
  case 0
  then show ?case
    using assms(2) by simp
next
  case (Suc n)
  then obtain s1 where s1: "(lt_step a ^^ n) s s1" "lt_step a s1 s'"
    by auto
  then have "\<not> lt_early s1"
    by (auto elim: lt_stepE)
  note ih = Suc.IH [OF s1(1) this]
  have "lt_inv a s'"
    using s1(2) ih owner_step_inv entry_step_inv assms(3) by (auto elim: lt_stepE)
  then show ?case
    using ih lt_step_less [OF s1(2) _ Suc.prems(2)] by auto
qed

text \<open>A run that uses the mutex or the condition variable too early does so while the constructor runs, and
  ends there.\<close>

lemma lt_early_building:
  assumes "lt_run a s" "a \<noteq> nullptr" "lt_early s"
  shows "building (lt_owner s) \<and>
    (lt_entry s = EntryLock \<and> \<not> lt_mtx_made s \<or> lt_entry s = EntryNotify \<and> \<not> lt_cond_made s)"
  using assms(1,3)
proof induction
  case (step s s')
  note inv = lt_run_inv [OF step.hyps(1) assms(2)]
  from step.hyps(2) show ?case
  proof (cases rule: lt_step.cases)
    case owner
    then show ?thesis
      using step.prems by (auto elim: owner_stepE)
  next
    case entry
    from entry(2) show ?thesis
      by (cases rule: entry_step.cases) (use entry(1) step.prems inv in \<open>auto simp: lt_inv_def building_def\<close>)
  qed
next
  case (wake s)
  then show ?case
    by (auto simp: spurious_def building_def split: if_splits)
qed (simp add: lt_start_def)

lemma lt_any_bound:
  assumes "(lt_step a ^^ n) s s'" "lt_inv a s" "a \<noteq> nullptr"
  shows "n \<le> 29"
proof (cases n)
  case (Suc m)
  then obtain s1 where s1: "(lt_step a ^^ m) s s1" "lt_step a s1 s'"
    using assms(1) by auto
  then have "\<not> lt_early s1"
    by (auto elim: lt_stepE)
  then show ?thesis
    using lt_steps_bound [OF s1(1) assms(2,3)] lt_left_le [of s] Suc by simp
qed simp

lemma lt_run_owner: "lt_run a s \<Longrightarrow> \<not> lt_early s \<Longrightarrow> owner_step s s' \<Longrightarrow> lt_run a s'"
  using lt_run.step lt_step.owner by blast

lemma lt_run_entry: "lt_run a s \<Longrightarrow> \<not> lt_early s \<Longrightarrow> entry_step a s s' \<Longrightarrow> lt_run a s'"
  using lt_run.step lt_step.entry by blast

text \<open>The mutex can be locked before it is initialised.\<close>

lemma early_use_reachable: "\<exists>s. lt_run a s \<and> lt_early s"
proof -
  let ?s1 = "lt_start\<lparr>lt_loop := nullptr, lt_owner := InitThread\<rparr>"
  let ?s2 = "?s1\<lparr>lt_entry := MakeLoop, lt_owner := InitMtx\<rparr>"
  let ?s3 = "?s2\<lparr>lt_entry := EntryLock\<rparr>"
  have "lt_run a ?s1" by (rule lt_run_owner [OF lt_run.start _ owner_step.init_loop]) (simp_all add: lt_start_def)
  then have "lt_run a ?s2" by (rule lt_run_owner [OF _ _ owner_step.init_thread]) (simp_all add: lt_start_def)
  then have "lt_run a ?s3" by (rule lt_run_entry [OF _ _ entry_step.make_loop]) (simp_all add: lt_start_def)
  then have "lt_run a (?s3\<lparr>lt_early := True\<rparr>)"
    by (rule lt_run_entry [OF _ _ entry_step.early_lock]) (simp_all add: lt_start_def)
  then show ?thesis
    by (intro exI [of _ "?s3\<lparr>lt_early := True\<rparr>"]) simp
qed

section \<open>Properties\<close>

text \<open>C35: the loop is handed over, unless its thread is too fast. \<open>GetLoopPtr\<close> returns nothing but the address
  of the thread's own loop, after that loop was made. From every reachable state, however the two
  threads interleave and whatever spurious wake-ups came before, a run has at most 29 steps, and where it
  cannot go on it has returned the address and left the thread in its loop with the mutex free, so that no
  notification is lost, or the thread has used the mutex or the condition variable before
  they exist. The last can happen only while the constructor still runs, and it does happen in some run.\<close>

theorem LoopThread_hands_over:
  assumes "lt_run a s" "a \<noteq> nullptr"
  shows "(\<forall>p. lt_owner s = GotLoop p \<longrightarrow> p = a \<and> has_set (lt_entry s)) \<and>
    (\<forall>n s'. (lt_step a ^^ n) s s' \<longrightarrow>
      n \<le> 29 \<and> ((\<exists>s''. lt_step a s' s'') \<or> handed_over a s' \<or> lt_early s')) \<and>
    (lt_early s \<longrightarrow> building (lt_owner s) \<and>
      (lt_entry s = EntryLock \<and> \<not> lt_mtx_made s \<or> lt_entry s = EntryNotify \<and> \<not> lt_cond_made s)) \<and>
    (\<exists>s'. lt_run a s' \<and> lt_early s')"
proof -
  note inv = lt_run_inv [OF assms]
  have "(\<exists>s''. lt_step a s' s'') \<or> handed_over a s' \<or> lt_early s'" if "(lt_step a ^^ n) s s'" for n s'
    using lt_steps_bound [OF that inv assms(2)] lt_progress [of a s'] by blast
  moreover have "\<forall>p. lt_owner s = GotLoop p \<longrightarrow> p = a \<and> has_set (lt_entry s)"
    using inv by (auto simp: lt_inv_def)
  ultimately show ?thesis
    using lt_any_bound [OF _ inv assms(2)] lt_early_building [OF assms] early_use_reachable by blast
qed

definition lt_asleep :: loop_thread where
  "lt_asleep = \<lparr>lt_loop = nullptr, lt_mtx = None, lt_mtx_made = True, lt_cond_made = True,
     lt_owner = GetAsleep, lt_entry = MakeLoop, lt_early = False\<rparr>"

lemma lt_asleep_run: "lt_run a lt_asleep"
proof -
  let ?s1 = "lt_start\<lparr>lt_loop := nullptr, lt_owner := InitThread\<rparr>"
  let ?s2 = "?s1\<lparr>lt_entry := MakeLoop, lt_owner := InitMtx\<rparr>"
  let ?s3 = "?s2\<lparr>lt_mtx := None, lt_mtx_made := True, lt_owner := InitCond\<rparr>"
  let ?s4 = "?s3\<lparr>lt_cond_made := True, lt_owner := GetLock\<rparr>"
  let ?s5 = "?s4\<lparr>lt_mtx := Some ByOwner, lt_owner := GetTest\<rparr>"
  have "lt_run a ?s1" by (rule lt_run_owner [OF lt_run.start _ owner_step.init_loop]) (simp_all add: lt_start_def)
  then have "lt_run a ?s2" by (rule lt_run_owner [OF _ _ owner_step.init_thread]) (simp_all add: lt_start_def)
  then have "lt_run a ?s3" by (rule lt_run_owner [OF _ _ owner_step.init_mtx]) (simp_all add: lt_start_def)
  then have "lt_run a ?s4" by (rule lt_run_owner [OF _ _ owner_step.init_cond]) (simp_all add: lt_start_def)
  then have "lt_run a ?s5" by (rule lt_run_owner [OF _ _ owner_step.get_lock]) (simp_all add: lt_start_def)
  then have "lt_run a (?s5\<lparr>lt_mtx := None, lt_owner := GetAsleep\<rparr>)"
    by (rule lt_run_owner [OF _ _ owner_step.get_wait]) (simp_all add: lt_start_def)
  then show ?thesis
    by (simp add: lt_start_def lt_asleep_def)
qed

lemma LoopThread_hands_over_witness: "lt_run 4096 lt_asleep \<and> (\<exists>s'. lt_step 4096 lt_asleep s')"
proof -
  have "\<not> lt_early lt_asleep" "\<not> handed_over 4096 lt_asleep" "(lt_step 4096 ^^ 0) lt_asleep lt_asleep"
    by (simp_all add: lt_asleep_def handed_over_def)
  then show ?thesis
    using LoopThread_hands_over [OF lt_asleep_run, of 4096] lt_asleep_run by fastforce
qed

end
