(* ===== verification/Server_Start.thy ===== *)
theory Server_Start
  imports Tcp_Server Loop_Round Loop_Thread
begin

text \<open>
  The constructors of \<open>Acceptor\<close> and \<open>TcpServer\<close> of \<open>muduo/server.hpp\<close>: the server makes its main loop, a
  listening socket, and the channel (number 2) that waits for clients. The results of \<open>socket\<close>, \<open>bind\<close> and \<open>listen\<close>
  are arguments.
\<close>

section \<open>The code\<close>

definition CreateListenSocket :: "int \<Rightarrow> int \<Rightarrow> int \<Rightarrow> int" where
  "CreateListenSocket sock_ret bind_ret listen_ret = sk_fd (snd (sk_CreateTcpSocket sock_ret bind_ret listen_ret))"

text \<open>The channel of the acceptor; the kernel has opened its descriptor where \<open>socket\<close> succeeded.\<close>

definition Acceptor_new :: "int \<Rightarrow> int \<Rightarrow> int \<Rightarrow> poller \<Rightarrow> poller" where
  "Acceptor_new sock_ret bind_ret listen_ret p =
     (let fd = CreateListenSocket sock_ret bind_ret listen_ret in
      p\<lparr>po_chans := (po_chans p)(2 := ch_new fd), po_open := (if 0 \<le> sock_ret then (po_open p)(fd := True) else po_open p)\<rparr>)"

definition ac_Listen :: "poller \<Rightarrow> poller res" where
  "ac_Listen p = EnableRead p 2"

definition TcpServer_new :: "int \<Rightarrow> int \<Rightarrow> int \<Rightarrow> int \<Rightarrow> int \<Rightarrow> int \<Rightarrow> (int \<Rightarrow> bool) \<Rightarrow> (eloop \<times> server) res" where
  "TcpServer_new epfd efd tfd sock_ret bind_ret listen_ret opened =
     rbind (EventLoop_new epfd efd tfd opened) (\<lambda>el.
     rbind (ac_Listen (Acceptor_new sock_ret bind_ret listen_ret (el_poll el))) (\<lambda>p.
       Inr (el\<lparr>el_poll := p\<rparr>, sv_new)))"

section \<open>Starting a server\<close>

lemma CreateListenSocket_fd: "CreateListenSocket sock_ret bind_ret listen_ret = sock_ret"
  by (simp add: CreateListenSocket_def sk_CreateTcpSocket_def sk_CreateSocket_def)

lemma TcpServer_new_ok:
  assumes fds: "0 \<le> epfd" "0 \<le> efd" "0 \<le> tfd" "0 \<le> sock_ret" "distinct [efd, tfd, sock_ret]"
  shows "\<exists>el. TcpServer_new epfd efd tfd sock_ret bind_ret listen_ret opened = Inr (el, sv_new) \<and> el_inv tfd el \<and>
    el_pending el = [] \<and> po_watch (el_poll el) = [efd \<mapsto> EPOLLIN, tfd \<mapsto> EPOLLIN, sock_ret \<mapsto> EPOLLIN] \<and>
    po_care (el_poll el) = [efd \<mapsto> 0, tfd \<mapsto> 1, sock_ret \<mapsto> 2]"
proof -
  obtain el where el: "EventLoop_new epfd efd tfd opened = Inr el" "el_inv tfd el" "el_pending el = []"
      "po_watch (el_poll el) = [efd \<mapsto> EPOLLIN, tfd \<mapsto> EPOLLIN]" "po_care (el_poll el) = [efd \<mapsto> 0, tfd \<mapsto> 1]"
    using EventLoop_new_ok [OF fds(1-3), of opened] fds(5) by auto
  let ?p = "Acceptor_new sock_ret bind_ret listen_ret (el_poll el)"
  let ?q = "?p\<lparr>po_chans := (po_chans ?p)(2 := (ch_new sock_ret)\<lparr>ch_events := EPOLLIN\<rparr>),
    po_watch := (po_watch (el_poll el))(sock_ret \<mapsto> EPOLLIN), po_care := (po_care (el_poll el))(sock_ret \<mapsto> 2)\<rparr>"
  have p: "ac_Listen ?p = Inr ?q"
    using fds(4,5) el(4,5)
    by (simp add: ac_Listen_def Acceptor_new_def CreateListenSocket_fd EnableRead_def UpdateEvent_def UpdateMonitor_def
        epoll_ctl_def IfExist_def set_events_def ch_new_def Let_def)
  have old: "po_inv (el_poll el)"
    using el(2) by (simp add: el_inv_def)
  have "po_inv ?q"
  proof (rule po_invI)
    fix fd
    assume "po_care ?q fd = None"
    then show "po_watch ?q fd = None"
      using po_inv_None [OF old, of fd] by (simp split: if_splits)
  next
    fix fd c
    assume c: "po_care ?q fd = Some c"
    show "po_open ?q fd \<and> ch_fd (po_chans ?q c) = fd \<and> po_watch ?q fd = Some (ch_events (po_chans ?q c))"
    proof (cases "fd = sock_ret")
      case True
      then show ?thesis
        using c fds(4) by (simp add: Acceptor_new_def CreateListenSocket_fd ch_new_def Let_def)
    next
      case False
      then have c': "po_care (el_poll el) fd = Some c" "c \<noteq> 2"
        using c el(5) by (auto split: if_splits)
      then show ?thesis
        using po_inv_Some [OF old c'(1)] False by (simp add: Acceptor_new_def CreateListenSocket_fd Let_def)
    qed
  qed
  then show ?thesis
    using el p fds(5) by (simp add: TcpServer_new_def el_inv_def)
qed

text \<open>The result of \<open>CreateTcpSocket\<close> is not looked at: a failed \<open>bind\<close> or \<open>listen\<close>, as of a port in use, gives the
  same server as a successful one. A failed \<open>socket\<close> ends the process when the channel is enabled.\<close>

theorem bind_failure_ignored:
  "TcpServer_new epfd efd tfd sock_ret (- 1) listen_ret opened = TcpServer_new epfd efd tfd sock_ret 0 0 opened"
  by (simp add: TcpServer_new_def Acceptor_new_def CreateListenSocket_fd)

end
