(* ===== verification/Http_Util.thy ===== *)
theory Http_Util
  imports Prelude "HOL-Library.Char_ord"
begin

text \<open>
  The tables and the class \<open>Util\<close> of \<open>muduo/http/httpserver.hpp\<close>: splitting, URL encoding and
  decoding, status texts, MIME types and the path check. Strings are lists of characters, read as
  bytes through \<open>of_char\<close>; \<open>isalnum\<close> is that of the C locale. What \<open>stat\<close> and the file streams
  return is a parameter, the record \<open>file_system\<close>.
\<close>

section \<open>The tables\<close>

definition kHttpStatusText :: "(int \<times> string) list" where
  "kHttpStatusText = [
    (100, ''Continue''), (101, ''Switching Protocols''), (102, ''Processing''), (103, ''Early Hints''),
    (200, ''OK''), (201, ''Created''), (202, ''Accepted''), (203, ''Non-Authoritative Information''),
    (204, ''No Content''), (205, ''Reset Content''), (206, ''Partial Content''),
    (207, ''Multi-Status''), (208, ''Already Reported''), (226, ''IM Used''),
    (300, ''Multiple Choices''), (301, ''Moved Permanently''), (302, ''Found''), (303, ''See Other''),
    (304, ''Not Modified''), (305, ''Use Proxy''), (307, ''Temporary Redirect''),
    (308, ''Permanent Redirect''), (400, ''Bad Request''), (401, ''Unauthorized''),
    (402, ''Payment Required''), (403, ''Forbidden''), (404, ''Not Found''),
    (405, ''Method Not Allowed''), (406, ''Not Acceptable''), (407, ''Proxy Authentication Required''),
    (408, ''Request Timeout''), (409, ''Conflict''), (410, ''Gone''), (411, ''Length Required''),
    (412, ''Precondition Failed''), (413, ''Payload Too Large''), (414, ''URI Too Long''),
    (415, ''Unsupported Media Type''), (416, ''Range Not Satisfiable''), (417, ''Expectation Failed''),
    (418, ''I'm a Teapot''), (421, ''Misdirected Request''), (422, ''Unprocessable Entity''),
    (423, ''Locked''), (424, ''Failed Dependency''), (425, ''Too Early''), (426, ''Upgrade Required''),
    (428, ''Precondition Required''), (429, ''Too Many Requests''),
    (431, ''Request Header Fields Too Large''), (451, ''Unavailable For Legal Reasons''),
    (500, ''Internal Server Error''), (501, ''Not Implemented''), (502, ''Bad Gateway''),
    (503, ''Service Unavailable''), (504, ''Gateway Timeout''), (505, ''HTTP Version Not Supported''),
    (506, ''Variant Also Negotiates''), (507, ''Insufficient Storage''), (508, ''Loop Detected''),
    (510, ''Not Extended''), (511, ''Network Authentication Required'')]"

definition kMimeTypes :: "(string \<times> string) list" where
  "kMimeTypes = [
    (''.html'', ''text/html; charset=utf-8''), (''.htm'', ''text/html; charset=utf-8''),
    (''.css'', ''text/css; charset=utf-8''), (''.js'', ''application/javascript; charset=utf-8''),
    (''.mjs'', ''application/javascript; charset=utf-8''), (''.txt'', ''text/plain; charset=utf-8''),
    (''.csv'', ''text/csv; charset=utf-8''), (''.xml'', ''application/xml; charset=utf-8''),
    (''.json'', ''application/json; charset=utf-8''), (''.md'', ''text/markdown; charset=utf-8''),
    (''.png'', ''image/png''), (''.jpg'', ''image/jpeg''), (''.jpeg'', ''image/jpeg''),
    (''.gif'', ''image/gif''), (''.bmp'', ''image/bmp''), (''.webp'', ''image/webp''),
    (''.svg'', ''image/svg+xml''), (''.ico'', ''image/x-icon''), (''.woff'', ''font/woff''),
    (''.woff2'', ''font/woff2''), (''.ttf'', ''font/ttf''), (''.otf'', ''font/otf''),
    (''.mp3'', ''audio/mpeg''), (''.wav'', ''audio/wav''), (''.ogg'', ''audio/ogg''),
    (''.flac'', ''audio/flac''), (''.aac'', ''audio/aac''), (''.mp4'', ''video/mp4''),
    (''.webm'', ''video/webm''), (''.avi'', ''video/x-msvideo''), (''.mov'', ''video/quicktime''),
    (''.mkv'', ''video/x-matroska''), (''.zip'', ''application/zip''),
    (''.tar'', ''application/x-tar''), (''.gz'', ''application/gzip''),
    (''.7z'', ''application/x-7z-compressed''), (''.rar'', ''application/vnd.rar''),
    (''.pdf'', ''application/pdf''), (''.wasm'', ''application/wasm''),
    (''.bin'', ''application/octet-stream''), (''.exe'', ''application/octet-stream'')]"

section \<open>Searching and splitting\<close>

definition begins :: "string \<Rightarrow> string \<Rightarrow> bool" where
  "begins p xs \<longleftrightarrow> take (length p) xs = p"

text \<open>\<open>std::string::find\<close>: the first position of a substring.\<close>

primrec find_sub :: "string \<Rightarrow> string \<Rightarrow> nat option" where
  "find_sub p [] = (if p = [] then Some 0 else None)"
| "find_sub p (x # xs) = (if begins p (x # xs) then Some 0 else map_option Suc (find_sub p xs))"

text \<open>\<open>find\<close> and \<open>rfind\<close> of a character.\<close>

primrec find_char :: "char \<Rightarrow> string \<Rightarrow> nat option" where
  "find_char c [] = None"
| "find_char c (x # xs) = (if x = c then Some 0 else map_option Suc (find_char c xs))"

primrec rfind_char :: "char \<Rightarrow> string \<Rightarrow> nat option" where
  "rfind_char c [] = None"
| "rfind_char c (x # xs) =
     (case rfind_char c xs of Some n \<Rightarrow> Some (Suc n) | None \<Rightarrow> if x = c then Some 0 else None)"

text \<open>The loop of \<open>Split\<close> on the rest of the string from \<open>offset\<close> on. With an empty separator it
  does not advance and does not end; not ending is the value \<open>None\<close>.\<close>

partial_function (option) Split_loop :: "string \<Rightarrow> string \<Rightarrow> string list option" where
  "Split_loop sep src =
     (if src = [] then Some []
      else case find_sub sep src of
        Some pos \<Rightarrow> Option.bind (Split_loop sep (drop (pos + length sep) src)) (\<lambda>arr. Some (take pos src # arr))
      | None \<Rightarrow> Some [src])"

definition Split :: "string \<Rightarrow> string \<Rightarrow> string list option" where
  "Split src sep = (if src = [] then Some [] else Split_loop sep src)"

section \<open>URL encoding\<close>

definition isalnum :: "nat \<Rightarrow> bool" where
  "isalnum ch \<longleftrightarrow> 48 \<le> ch \<and> ch \<le> 57 \<or> 65 \<le> ch \<and> ch \<le> 90 \<or> 97 \<le> ch \<and> ch \<le> 122"

definition hex_digit :: "nat \<Rightarrow> char" where
  "hex_digit n = (if n < 10 then char_of (48 + n) else char_of (55 + n))"

definition encode_char :: "bool \<Rightarrow> char \<Rightarrow> string" where
  "encode_char space_to_plus ch =
     (let v = of_char ch :: nat in
      if ch = CHR ''.'' \<or> ch = CHR ''-'' \<or> ch = CHR ''_'' \<or> ch = CHR ''~'' \<or> isalnum v then [ch]
      else if ch = CHR '' '' \<and> space_to_plus then [CHR ''+'']
      else [CHR ''%'', hex_digit (v div 16), hex_digit (v mod 16)])"

definition UrlEncode :: "string \<Rightarrow> bool \<Rightarrow> string" where
  "UrlEncode url space_to_plus = concat (map (encode_char space_to_plus) url)"

definition HexToDecimal :: "char \<Rightarrow> int" where
  "HexToDecimal hex =
     (let v = of_char hex :: int in
      if 48 \<le> v \<and> v \<le> 57 then v - 48
      else if 65 \<le> v \<and> v \<le> 70 then v - 65 + 10
      else if 97 \<le> v \<and> v \<le> 102 then v - 97 + 10
      else - 1)"

definition plain_char :: "bool \<Rightarrow> char \<Rightarrow> char" where
  "plain_char plus_to_space c = (if c = CHR ''+'' \<and> plus_to_space then CHR '' '' else c)"

fun UrlDecode :: "string \<Rightarrow> bool \<Rightarrow> string" where
  "UrlDecode (c # a # b # url) p =
     (if c = CHR ''%'' \<and> 0 \<le> HexToDecimal a \<and> 0 \<le> HexToDecimal b
      then char_of (push_bit 4 (HexToDecimal a) + HexToDecimal b) # UrlDecode url p
      else plain_char p c # UrlDecode (a # b # url) p)"
| "UrlDecode [a, b] p = [plain_char p a, plain_char p b]"
| "UrlDecode [a] p = [plain_char p a]"
| "UrlDecode [] p = []"

section \<open>Status texts, MIME types and files\<close>

definition GetStatusDesc :: "int \<Rightarrow> string" where
  "GetStatusDesc code = (case map_of kHttpStatusText code of None \<Rightarrow> ''Unknown Code'' | Some s \<Rightarrow> s)"

definition GetMime :: "string \<Rightarrow> string" where
  "GetMime filename =
     (case rfind_char (CHR ''.'') filename of
        None \<Rightarrow> ''application/octet-stream''
      | Some pos \<Rightarrow> (case map_of kMimeTypes (drop pos filename) of
          None \<Rightarrow> ''application/octet-stream''
        | Some s \<Rightarrow> s))"

datatype file_kind = Dir | Reg | OtherKind

record file_system =
  fs_stat :: "string \<Rightarrow> file_kind option"
  fs_open :: "string \<Rightarrow> string option"

definition IsDirectory :: "file_system \<Rightarrow> string \<Rightarrow> bool" where
  "IsDirectory fs filename = (fs_stat fs filename = Some Dir)"

definition IsRegular :: "file_system \<Rightarrow> string \<Rightarrow> bool" where
  "IsRegular fs filename = (fs_stat fs filename = Some Reg)"

text \<open>\<open>None\<close> is the result \<open>false\<close>: the file could not be opened or read.\<close>

definition ReadFile :: "file_system \<Rightarrow> string \<Rightarrow> string option" where
  "ReadFile fs filename = fs_open fs filename"

section \<open>The path check\<close>

primrec valid_levels :: "string list \<Rightarrow> int \<Rightarrow> bool" where
  "valid_levels [] level = True"
| "valid_levels (e # es) level =
     (if e = [] \<or> e = ''.'' then valid_levels es level
      else if e = ''..'' then (if level - 1 < 0 then False else valid_levels es (level - 1))
      else valid_levels es (level + 1))"

definition IsValidPath :: "string \<Rightarrow> bool" where
  "IsValidPath path = (case Split path ''/'' of None \<Rightarrow> False | Some subdir \<Rightarrow> valid_levels subdir 0)"

section \<open>Splitting ends and loses nothing\<close>

lemma find_sub_bound: "find_sub p xs = Some n \<Longrightarrow> n \<le> length xs \<and> begins p (drop n xs)"
proof (induction xs arbitrary: n)
  case Nil
  then show ?case by (simp add: begins_def split: if_splits)
next
  case (Cons x xs)
  then show ?case by (cases n) (auto split: if_splits)
qed

lemma begins_split: "begins p xs \<Longrightarrow> xs = p @ drop (length p) xs"
  unfolding begins_def by (metis append_take_drop_id)

lemma find_sub_split:
  assumes "find_sub p xs = Some n"
  shows "xs = take n xs @ p @ drop (n + length p) xs"
proof -
  have "drop n xs = p @ drop (length p) (drop n xs)"
    using find_sub_bound [OF assms] by (intro begins_split) simp
  then have "take n xs @ drop n xs = take n xs @ p @ drop (n + length p) xs"
    by (simp add: add.commute)
  then show ?thesis by simp
qed

primrec join :: "string \<Rightarrow> string list \<Rightarrow> string" where
  "join sep [] = []"
| "join sep (s # ss) = (if ss = [] then s else s @ sep @ join sep ss)"

lemma Split_loop_ok:
  assumes "sep \<noteq> []"
  shows "\<exists>ss. Split_loop sep src = Some ss \<and> (src = join sep ss \<or> src = join sep ss @ sep \<and> ss \<noteq> [])"
proof (induction src rule: length_induct)
  case (1 src)
  show ?case
  proof (cases "src = []")
    case True
    then show ?thesis
      by (subst Split_loop.simps) simp
  next
    case False
    show ?thesis
    proof (cases "find_sub sep src")
      case None
      then show ?thesis
        using False by (subst Split_loop.simps) (simp add: exI [of _ "[src]"])
    next
      case (Some n)
      let ?r = "drop (n + length sep) src"
      note s = find_sub_split [OF Some]
      have "length ?r < length src"
        using False assms by (cases src) simp_all
      then obtain ss where ss: "Split_loop sep ?r = Some ss" "?r = join sep ss \<or> ?r = join sep ss @ sep \<and> ss \<noteq> []"
        using 1 by blast
      have "Split_loop sep src = Some (take n src # ss)"
        using False Some ss(1) by (subst Split_loop.simps) simp
      moreover have "src = join sep (take n src # ss) \<or> src = join sep (take n src # ss) @ sep"
        using ss(2) s by (cases "ss = []") auto
      ultimately show ?thesis by blast
    qed
  qed
qed

lemma Split_ok:
  assumes "sep \<noteq> []"
  shows "\<exists>ss. Split src sep = Some ss \<and> (src = join sep ss \<or> src = join sep ss @ sep)"
  using Split_loop_ok [OF assms, of src] by (auto simp: Split_def)

section \<open>Encoding and decoding\<close>

lemma HexToDecimal_digit:
  assumes "n < 16"
  shows "HexToDecimal (hex_digit n) = int n"
proof -
  have "hex_digit n = char_of (int (if n < 10 then 48 + n else 55 + n))"
    unfolding char_of_nat by (simp add: hex_digit_def)
  then have "(of_char (hex_digit n) :: int) = int (if n < 10 then 48 + n else 55 + n)"
    using assms by (simp only: of_char_of) (simp split: if_split)
  then show ?thesis
    using assms by (simp add: HexToDecimal_def)
qed

lemma UrlDecode_plain: "c \<noteq> CHR ''%'' \<Longrightarrow> UrlDecode (c # r) p = plain_char p c # UrlDecode r p"
  by (cases r rule: list.exhaust; cases "tl r") auto

lemma UrlDecode_hex:
  "UrlDecode (CHR ''%'' # hex_digit (of_char ch div 16) # hex_digit (of_char ch mod 16) # r) p = ch # UrlDecode r p"
proof -
  let ?v = "of_char ch :: nat"
  have v: "?v < 256" by simp
  have h: "HexToDecimal (hex_digit (?v div 16)) = int (?v div 16)" "HexToDecimal (hex_digit (?v mod 16)) = int (?v mod 16)"
    using v by (simp_all add: HexToDecimal_digit less_mult_imp_div_less)
  have "push_bit 4 (int (?v div 16)) + int (?v mod 16) = int (?v div 16 * 16 + ?v mod 16)"
    unfolding push_bit_eq_mult of_nat_add of_nat_mult by simp
  also have "?v div 16 * 16 + ?v mod 16 = ?v"
    by (rule div_mult_mod_eq)
  finally have "char_of (push_bit 4 (int (?v div 16)) + int (?v mod 16)) = ch"
    by (simp only: char_of_nat char_of_char)
  then show ?thesis
    by (simp only: UrlDecode.simps h) simp
qed

lemma UrlDecode_encode_char: "UrlDecode (encode_char p ch @ r) p = ch # UrlDecode r p"
proof -
  consider (plain) "ch = CHR ''.'' \<or> ch = CHR ''-'' \<or> ch = CHR ''_'' \<or> ch = CHR ''~'' \<or> isalnum (of_char ch)"
    | (space) "\<not> (ch = CHR ''.'' \<or> ch = CHR ''-'' \<or> ch = CHR ''_'' \<or> ch = CHR ''~'' \<or> isalnum (of_char ch))"
        "ch = CHR '' '' \<and> p"
    | (hex) "\<not> (ch = CHR ''.'' \<or> ch = CHR ''-'' \<or> ch = CHR ''_'' \<or> ch = CHR ''~'' \<or> isalnum (of_char ch))"
        "\<not> (ch = CHR '' '' \<and> p)"
    by blast
  then show ?thesis
  proof cases
    case plain
    then have e: "encode_char p ch = [ch]"
      by (simp add: encode_char_def Let_def)
    have "ch \<noteq> CHR ''%''" "ch \<noteq> CHR ''+''"
      using plain by (auto simp: isalnum_def)
    then show ?thesis
      using e UrlDecode_plain [of ch r p] by (simp add: plain_char_def)
  next
    case space
    then have "encode_char p ch = [CHR ''+'']"
      by (simp add: encode_char_def Let_def)
    then show ?thesis
      using space UrlDecode_plain [of "CHR ''+''" r p] by (simp add: plain_char_def)
  next
    case hex
    then have "encode_char p ch = [CHR ''%'', hex_digit (of_char ch div 16), hex_digit (of_char ch mod 16)]"
      unfolding encode_char_def Let_def by (simp only: if_False)
    then show ?thesis
      using UrlDecode_hex [of ch r p] by simp
  qed
qed

section \<open>The path check\<close>

text \<open>Walking a list of segments from the base directory; the stack is the directories entered, and
  \<open>None\<close> is a step above the base.\<close>

primrec walk :: "string list \<Rightarrow> string list \<Rightarrow> string list option" where
  "walk [] st = Some st"
| "walk (e # es) st =
     (if e = [] \<or> e = ''.'' then walk es st
      else if e = ''..'' then (case st of [] \<Rightarrow> None | _ # st' \<Rightarrow> walk es st')
      else walk es (e # st))"

lemma valid_levels_walk: "valid_levels es (int (length st)) \<longleftrightarrow> walk es st \<noteq> None"
proof (induction es arbitrary: st)
  case (Cons e es)
  consider "e = [] \<or> e = ''.''" | (up) "e = ''..''" | (down) "e \<noteq> []" "e \<noteq> ''.''" "e \<noteq> ''..''"
    by blast
  then show ?case
  proof cases
    case up
    then show ?thesis
      using Cons.IH [of "tl st"] by (cases st) auto
  next
    case down
    then show ?thesis
      using Cons.IH [of "e # st"] by (simp add: add.commute)
  qed (use Cons.IH in auto)
qed simp

section \<open>Properties\<close>

text \<open>C18: URL decoding undoes URL encoding, for every byte string and both treatments of spaces.\<close>

theorem UrlDecode_UrlEncode: "UrlDecode (UrlEncode url b) b = url"
proof (induction url)
  case (Cons ch url)
  then show ?case
    using UrlDecode_encode_char [of b ch "UrlEncode url b"] by (simp add: UrlEncode_def)
qed (simp add: UrlEncode_def)

text \<open>\<open>Split\<close> with a separator that is not empty returns, and the pieces joined by the separator
  give the string back, up to one separator at its end.\<close>

theorem Split_join:
  assumes "sep \<noteq> []"
  shows "\<exists>ss. Split src sep = Some ss \<and> (src = join sep ss \<or> src = join sep ss @ sep)"
  using assms by (rule Split_ok)

lemma Split_join_witness: "\<exists>ss. Split ''/a/b'' ''/'' = Some ss \<and> (''/a/b'' = join ''/'' ss \<or> ''/a/b'' = join ''/'' ss @ ''/'')"
  using Split_join [of "''/''" "''/a/b''"] by simp

text \<open>C19: the path check accepts exactly the paths that, walked segment by segment from the base
  directory, never step above it; where they end up is then a directory below the base.\<close>

theorem IsValidPath_iff:
  "\<exists>segs. Split path ''/'' = Some segs \<and> (path = join ''/'' segs \<or> path = join ''/'' segs @ ''/'') \<and>
     (IsValidPath path \<longleftrightarrow> (\<exists>dirs. walk segs [] = Some dirs))"
proof -
  obtain segs where s: "Split path ''/'' = Some segs" "path = join ''/'' segs \<or> path = join ''/'' segs @ ''/''"
    using Split_ok [of "''/''" path] by auto
  have "IsValidPath path \<longleftrightarrow> (\<exists>dirs. walk segs [] = Some dirs)"
    using valid_levels_walk [of segs "[]"] s(1) by (simp add: IsValidPath_def)
  then show ?thesis
    using s by blast
qed

end
