(* ===== verification/Http_Context.thy ===== *)
theory Http_Context
  imports Byte_Buffer Http_Util
begin

text \<open>
  \<open>HttpRequest\<close> and the incremental parser \<open>HttpContext\<close> of \<open>muduo/http/httpserver.hpp\<close>. The hash
  maps of a request are maps. \<open>std::stoi\<close> throws for a value that is no number or out of the range of
  \<open>int\<close>; nothing catches that. A body never exceeds its announced length, an \<open>int\<close>, so its own length
  is an integer without wrap-around.
  The parser of a string, \<open>spec_recv\<close>, is the reference: the parser on the buffer refines it, and it
  does not depend on how the bytes arrive.
\<close>

section \<open>Requests\<close>

record request =
  rq_method :: string
  rq_uri :: string
  rq_path :: string
  rq_query_string :: string
  rq_http_version :: string
  rq_body :: string
  rq_params :: "string \<Rightarrow> string option"
  rq_path_params :: "string \<Rightarrow> string option"
  rq_headers :: "string \<Rightarrow> string option"

definition rq_empty :: request where
  "rq_empty = \<lparr>rq_method = [], rq_uri = [], rq_path = [], rq_query_string = [], rq_http_version = [], rq_body = [],
     rq_params = Map.empty, rq_path_params = Map.empty, rq_headers = Map.empty\<rparr>"

definition SetHeaders :: "request \<Rightarrow> string \<Rightarrow> string \<Rightarrow> request" where
  "SetHeaders r key val = r\<lparr>rq_headers := (rq_headers r)(key \<mapsto> val)\<rparr>"

definition HasHeaders :: "request \<Rightarrow> string \<Rightarrow> bool" where
  "HasHeaders r key = (rq_headers r key \<noteq> None)"

definition GetHeaders :: "request \<Rightarrow> string \<Rightarrow> string" where
  "GetHeaders r key = (case rq_headers r key of None \<Rightarrow> [] | Some v \<Rightarrow> v)"

definition SetParams :: "request \<Rightarrow> string \<Rightarrow> string \<Rightarrow> request" where
  "SetParams r key val = r\<lparr>rq_params := (rq_params r)(key \<mapsto> val)\<rparr>"

definition HasParams :: "request \<Rightarrow> string \<Rightarrow> bool" where
  "HasParams r key = (rq_params r key \<noteq> None)"

definition GetParams :: "request \<Rightarrow> string \<Rightarrow> string" where
  "GetParams r key = (case rq_params r key of None \<Rightarrow> [] | Some v \<Rightarrow> v)"

definition SetPathParam :: "request \<Rightarrow> string \<Rightarrow> string \<Rightarrow> request" where
  "SetPathParam r key val = r\<lparr>rq_path_params := (rq_path_params r)(key \<mapsto> val)\<rparr>"

definition HasPathParam :: "request \<Rightarrow> string \<Rightarrow> bool" where
  "HasPathParam r key = (rq_path_params r key \<noteq> None)"

definition GetPathParam :: "request \<Rightarrow> string \<Rightarrow> string" where
  "GetPathParam r key = (case rq_path_params r key of None \<Rightarrow> [] | Some v \<Rightarrow> v)"

text \<open>\<open>std::stoi\<close>: white space, a sign, digits; what follows is ignored.\<close>

definition isspace :: "char \<Rightarrow> bool" where
  "isspace c \<longleftrightarrow> (let v = of_char c :: nat in 9 \<le> v \<and> v \<le> 13 \<or> v = 32)"

definition isdigit :: "char \<Rightarrow> bool" where
  "isdigit c \<longleftrightarrow> (let v = of_char c :: nat in 48 \<le> v \<and> v \<le> 57)"

definition digits_value :: "string \<Rightarrow> int" where
  "digits_value ds = foldl (\<lambda>n c. n * 10 + (of_char c - 48)) 0 ds"

definition stoi :: "string \<Rightarrow> int res" where
  "stoi s =
     (let s1 = dropWhile isspace s;
          (neg, s2) = (case s1 of
             [] \<Rightarrow> (False, [])
           | c # cs \<Rightarrow> if c = CHR ''-'' then (True, cs) else if c = CHR ''+'' then (False, cs) else (False, s1));
          ds = takeWhile isdigit s2;
          v = (if neg then - digits_value ds else digits_value ds)
      in if ds = [] then Inl StdException
         else if v < - 2147483648 \<or> 2147483647 < v then Inl StdException
         else Inr v)"

definition ContentLength :: "request \<Rightarrow> int res" where
  "ContentLength r =
     (if \<not> HasHeaders r ''Content-Length'' then Inr 0 else stoi (GetHeaders r ''Content-Length''))"

definition IsKeepAlive :: "request \<Rightarrow> bool" where
  "IsKeepAlive r =
     (if HasHeaders r ''Connection'' then GetHeaders r ''Connection'' = ''keep-alive''
      else rq_http_version r = ''HTTP/1.1'')"

definition rq_Reset :: "request \<Rightarrow> request" where
  "rq_Reset r = r\<lparr>rq_method := [], rq_uri := [], rq_path := [], rq_query_string := [], rq_http_version := [],
     rq_body := [], rq_params := Map.empty, rq_path_params := Map.empty, rq_headers := Map.empty\<rparr>"

section \<open>The parser\<close>

definition MaxLine :: nat where
  "MaxLine = 8192"

datatype recv_status = RECV_REQ_LINE | RECV_REQ_HEAD | RECV_REQ_BODY | RECV_REQ_OVER | RECV_REQ_ERROR

record http_context =
  cx_code :: int
  cx_status :: recv_status
  cx_req :: request

definition cx_new :: http_context where
  "cx_new = \<lparr>cx_code = 200, cx_status = RECV_REQ_LINE, cx_req = rq_empty\<rparr>"

definition cx_Reset :: "http_context \<Rightarrow> http_context" where
  "cx_Reset cx = cx\<lparr>cx_code := 200, cx_status := RECV_REQ_LINE, cx_req := rq_Reset (cx_req cx)\<rparr>"

definition cx_fail :: "int \<Rightarrow> http_context \<Rightarrow> http_context" where
  "cx_fail code cx = cx\<lparr>cx_code := code, cx_status := RECV_REQ_ERROR\<rparr>"

definition pop_if :: "char \<Rightarrow> string \<Rightarrow> string" where
  "pop_if c s = (if s \<noteq> [] \<and> last s = c then butlast s else s)"

definition chomp :: "string \<Rightarrow> string" where
  "chomp s = pop_if (CHR 0x0D) (pop_if (CHR 0x0A) s)"

definition add_param :: "string \<Rightarrow> request \<Rightarrow> request" where
  "add_param kv r =
     (if kv = [] then r
      else case find_char (CHR ''='') kv of
        Some eq_pos \<Rightarrow> SetParams r (UrlDecode (take eq_pos kv) True) (UrlDecode (drop (Suc eq_pos) kv) True)
      | None \<Rightarrow> SetParams r (UrlDecode kv True) [])"

lemma find_char_less: "find_char c xs = Some n \<Longrightarrow> n < length xs"
  by (induction xs arbitrary: n) (auto split: if_splits)

text \<open>The loop of \<open>ParseQueryString\<close> on the rest from \<open>start\<close> on.\<close>

function query_loop :: "string \<Rightarrow> request \<Rightarrow> request" where
  "query_loop rest r =
     (case find_char (CHR ''&'') rest of
        None \<Rightarrow> add_param rest r
      | Some e \<Rightarrow> query_loop (drop (Suc e) rest) (add_param (take e rest) r))"
  by pat_completeness auto
termination
  by (relation "measure (\<lambda>(rest, r). length rest)") (auto dest: find_char_less)

declare query_loop.simps [simp del]

definition ParseQueryString :: "request \<Rightarrow> request" where
  "ParseQueryString r = query_loop (rq_query_string r) r"

definition ParseReqLine :: "string \<Rightarrow> request \<Rightarrow> bool \<times> request" where
  "ParseReqLine line r =
     (let req_line = chomp line in
      case find_char (CHR '' '') req_line of
        None \<Rightarrow> (False, r)
      | Some pos1 \<Rightarrow> (case find_char (CHR '' '') (drop (Suc pos1) req_line) of
          None \<Rightarrow> (False, r)
        | Some n \<Rightarrow>
            let pos2 = Suc pos1 + n;
                r1 = r\<lparr>rq_method := take pos1 req_line,
                       rq_uri := take (pos2 - pos1 - 1) (drop (Suc pos1) req_line),
                       rq_http_version := drop (Suc pos2) req_line\<rparr>
            in if rq_method r1 = [] \<or> rq_uri r1 = [] \<or> rq_http_version r1 = [] then (False, r1)
               else case find_char (CHR ''?'') (rq_uri r1) of
                 None \<Rightarrow> (True, r1\<lparr>rq_path := rq_uri r1, rq_query_string := []\<rparr>)
               | Some q \<Rightarrow> (True, ParseQueryString
                   (r1\<lparr>rq_path := take q (rq_uri r1), rq_query_string := drop (Suc q) (rq_uri r1)\<rparr>))))"

definition ParseHttpHead :: "string \<Rightarrow> request \<Rightarrow> bool \<times> request" where
  "ParseHttpHead line r =
     (let head = chomp line in
      case find_sub '': '' head of
        None \<Rightarrow> (False, r)
      | Some pos \<Rightarrow> (True, SetHeaders r (take pos head) (drop (pos + 2) head)))"

definition RecvReqLine :: "http_context \<Rightarrow> buffer \<Rightarrow> (bool \<times> http_context \<times> buffer) res" where
  "RecvReqLine cx buf =
     (if cx_status cx \<noteq> RECV_REQ_LINE then Inr (False, cx, buf)
      else rbind (FindCRLF buf) (\<lambda>crlf.
        if crlf = None then
          if unat (ReadableSize buf) > MaxLine then Inr (False, cx_fail 414 cx, buf) else Inr (True, cx, buf)
        else rbind (GetLineAndPop buf) (\<lambda>(req_line, buf).
          if length req_line > MaxLine then Inr (False, cx_fail 414 cx, buf)
          else case ParseReqLine req_line (cx_req cx) of (ok, r) \<Rightarrow>
            let cx1 = cx\<lparr>cx_req := r\<rparr> in
            if \<not> ok then Inr (False, cx_fail 400 cx1, buf)
            else Inr (True, cx1\<lparr>cx_status := RECV_REQ_HEAD\<rparr>, buf))))"

primrec head_loop :: "nat \<Rightarrow> http_context \<Rightarrow> buffer \<Rightarrow> (bool \<times> http_context \<times> buffer) res" where
  "head_loop 0 cx buf = Inl NoFuel"
| "head_loop (Suc fuel) cx buf =
     rbind (FindCRLF buf) (\<lambda>crlf.
       if crlf = None then
         if unat (ReadableSize buf) > MaxLine then Inr (False, cx_fail 414 cx, buf) else Inr (True, cx, buf)
       else rbind (GetLineAndPop buf) (\<lambda>(line, buf).
         if length line > MaxLine then Inr (False, cx_fail 414 cx, buf)
         else if line = [CHR 0x0D, CHR 0x0A] \<or> line = [CHR 0x0A] then Inr (True, cx\<lparr>cx_status := RECV_REQ_BODY\<rparr>, buf)
         else case ParseHttpHead line (cx_req cx) of (ok, r) \<Rightarrow>
           let cx1 = cx\<lparr>cx_req := r\<rparr> in
           if \<not> ok then Inr (False, cx_fail 400 cx1, buf) else head_loop fuel cx1 buf))"

definition RecvReqHead :: "http_context \<Rightarrow> buffer \<Rightarrow> (bool \<times> http_context \<times> buffer) res" where
  "RecvReqHead cx buf =
     (if cx_status cx \<noteq> RECV_REQ_HEAD then Inr (False, cx, buf) else head_loop walk_fuel cx buf)"

definition add_body :: "string \<Rightarrow> http_context \<Rightarrow> http_context" where
  "add_body s cx = cx\<lparr>cx_req := (cx_req cx)\<lparr>rq_body := rq_body (cx_req cx) @ s\<rparr>\<rparr>"

definition RecvHttpBody :: "http_context \<Rightarrow> buffer \<Rightarrow> (bool \<times> http_context \<times> buffer) res" where
  "RecvHttpBody cx buf =
     (if cx_status cx \<noteq> RECV_REQ_BODY then Inr (False, cx, buf)
      else rbind (ContentLength (cx_req cx)) (\<lambda>content_length.
        if content_length = 0 then Inr (True, cx\<lparr>cx_status := RECV_REQ_OVER\<rparr>, buf)
        else
          let need_length = content_length - int (length (rq_body (cx_req cx))) in
          if need_length \<le> 0 then Inr (True, cx\<lparr>cx_status := RECV_REQ_OVER\<rparr>, buf)
          else
            let readable = ReadableSize buf in
            if (of_int need_length :: u64) \<le> readable then
              rbind (ReadStringAndPop buf (of_int need_length)) (\<lambda>(s, buf).
                Inr (True, (add_body s cx)\<lparr>cx_status := RECV_REQ_OVER\<rparr>, buf))
            else if readable > 0 then
              rbind (ReadStringAndPop buf readable) (\<lambda>(s, buf). Inr (True, add_body s cx, buf))
            else Inr (True, cx, buf)))"

text \<open>The cases of the \<open>switch\<close> fall through; the result of the last is ignored.\<close>

definition ignore_result :: "(bool \<times> http_context \<times> buffer) res \<Rightarrow> (http_context \<times> buffer) res" where
  "ignore_result r = rbind r (\<lambda>(_, cx, buf). Inr (cx, buf))"

definition RecvHttpRequest :: "http_context \<Rightarrow> buffer \<Rightarrow> (http_context \<times> buffer) res" where
  "RecvHttpRequest cx buf =
     (let body = (\<lambda>cx buf. ignore_result (RecvHttpBody cx buf));
          head = (\<lambda>cx buf. rbind (RecvReqHead cx buf) (\<lambda>(ok, cx, buf). if \<not> ok then Inr (cx, buf) else body cx buf));
          line = (\<lambda>cx buf. rbind (RecvReqLine cx buf) (\<lambda>(ok, cx, buf). if \<not> ok then Inr (cx, buf) else head cx buf))
      in case cx_status cx of
           RECV_REQ_LINE \<Rightarrow> line cx buf
         | RECV_REQ_HEAD \<Rightarrow> head cx buf
         | RECV_REQ_BODY \<Rightarrow> body cx buf
         | _ \<Rightarrow> Inr (cx, buf))"

section \<open>The reference parser\<close>

definition cut_line :: "string \<Rightarrow> (string \<times> string) option" where
  "cut_line s = map_option (\<lambda>n. (take (Suc n) s, drop (Suc n) s)) (memchr (CHR 0x0A) s)"

definition spec_line :: "http_context \<Rightarrow> string \<Rightarrow> bool \<times> http_context \<times> string" where
  "spec_line cx s =
     (if cx_status cx \<noteq> RECV_REQ_LINE then (False, cx, s)
      else case cut_line s of
        None \<Rightarrow> if length s > MaxLine then (False, cx_fail 414 cx, s) else (True, cx, s)
      | Some (l, s') \<Rightarrow>
          if length l > MaxLine then (False, cx_fail 414 cx, s')
          else case ParseReqLine l (cx_req cx) of (ok, r) \<Rightarrow>
            if \<not> ok then (False, cx_fail 400 (cx\<lparr>cx_req := r\<rparr>), s')
            else (True, cx\<lparr>cx_req := r, cx_status := RECV_REQ_HEAD\<rparr>, s'))"

lemma cut_line_less: "cut_line s = Some (l, s') \<Longrightarrow> length s' < length s"
  by (auto simp: cut_line_def memchr_Some)

function spec_head :: "http_context \<Rightarrow> string \<Rightarrow> bool \<times> http_context \<times> string" where
  "spec_head cx s =
     (case cut_line s of
        None \<Rightarrow> if length s > MaxLine then (False, cx_fail 414 cx, s) else (True, cx, s)
      | Some (l, s') \<Rightarrow>
          if length l > MaxLine then (False, cx_fail 414 cx, s')
          else if l = [CHR 0x0D, CHR 0x0A] \<or> l = [CHR 0x0A] then (True, cx\<lparr>cx_status := RECV_REQ_BODY\<rparr>, s')
          else if \<not> fst (ParseHttpHead l (cx_req cx)) then
            (False, cx_fail 400 (cx\<lparr>cx_req := snd (ParseHttpHead l (cx_req cx))\<rparr>), s')
          else spec_head (cx\<lparr>cx_req := snd (ParseHttpHead l (cx_req cx))\<rparr>) s')"
  by pat_completeness auto
termination
  by (relation "measure (\<lambda>(cx, s). length s)") (auto dest: cut_line_less)

declare spec_head.simps [simp del]

definition spec_body :: "http_context \<Rightarrow> string \<Rightarrow> (http_context \<times> string) res" where
  "spec_body cx s =
     (if cx_status cx \<noteq> RECV_REQ_BODY then Inr (cx, s)
      else rbind (ContentLength (cx_req cx)) (\<lambda>n.
        let need = n - int (length (rq_body (cx_req cx))) in
        if n = 0 \<or> need \<le> 0 then Inr (cx\<lparr>cx_status := RECV_REQ_OVER\<rparr>, s)
        else if need \<le> int (length s) then
          Inr ((add_body (take (nat need) s) cx)\<lparr>cx_status := RECV_REQ_OVER\<rparr>, drop (nat need) s)
        else Inr (add_body s cx, [])))"

definition spec_from_head :: "http_context \<Rightarrow> string \<Rightarrow> (http_context \<times> string) res" where
  "spec_from_head cx s =
     (if cx_status cx \<noteq> RECV_REQ_HEAD then Inr (cx, s)
      else case spec_head cx s of (ok, cx1, s1) \<Rightarrow> if \<not> ok then Inr (cx1, s1) else spec_body cx1 s1)"

definition spec_recv :: "http_context \<Rightarrow> string \<Rightarrow> (http_context \<times> string) res" where
  "spec_recv cx s =
     (case cx_status cx of
        RECV_REQ_LINE \<Rightarrow> (case spec_line cx s of (ok, cx1, s1) \<Rightarrow> if \<not> ok then Inr (cx1, s1) else spec_from_head cx1 s1)
      | RECV_REQ_HEAD \<Rightarrow> spec_from_head cx s
      | RECV_REQ_BODY \<Rightarrow> spec_body cx s
      | _ \<Rightarrow> Inr (cx, s))"

section \<open>The parser on the buffer refines the reference\<close>

definition refines :: "('a \<times> buffer) res \<Rightarrow> ('a \<times> string) res \<Rightarrow> bool" where
  "refines r s \<longleftrightarrow>
     (case s of
        Inl e \<Rightarrow> r = Inl e
      | Inr (x, c) \<Rightarrow> \<exists>b. r = Inr (x, b) \<and> bf_inv b \<and> content b = c)"

definition refines3 :: "(bool \<times> http_context \<times> buffer) res \<Rightarrow> bool \<times> http_context \<times> string \<Rightarrow> bool" where
  "refines3 r s \<longleftrightarrow> (\<exists>b. r = Inr (fst s, fst (snd s), b) \<and> bf_inv b \<and> content b = snd (snd s))"

lemma FindCRLF_ok: "bf_inv b \<Longrightarrow> FindCRLF b = Inr (memchr (CHR 0x0A) (content b))"
  using peek_ok [of b "ReadableSize b"] ReadableSize_content [of b] by (simp add: FindCRLF_def)

lemma GetLineAndPop_cut:
  assumes inv: "bf_inv b" and c: "cut_line (content b) = Some (l, s)"
  shows "\<exists>b'. GetLineAndPop b = Inr (l, b') \<and> bf_inv b' \<and> content b' = s"
proof -
  obtain n where n: "memchr (CHR 0x0A) (content b) = Some n" "l = take (Suc n) (content b)" "s = drop (Suc n) (content b)"
    using c by (auto simp: cut_line_def)
  have nl: "CHR 0x0A \<in> set (content b)"
    using n(1) memchr_None [of "CHR 0x0A" "content b"] by auto
  have f: "first_line (content b) = l"
    using n by (simp add: first_line_def)
  have "length l = Suc n"
    using n by (simp add: memchr_Some min_def)
  then show ?thesis
    using GetLineAndPop_ok [OF inv nl] f n(3) by auto
qed

lemma cut_line_None: "cut_line s = None \<longleftrightarrow> memchr (CHR 0x0A) s = None"
  by (simp add: cut_line_def)

lemma RecvReqLine_ok:
  assumes inv: "bf_inv b"
  shows "refines3 (RecvReqLine cx b) (spec_line cx (content b))"
proof (cases "cut_line (content b)")
  case None
  then have "memchr (CHR 0x0A) (content b) = None"
    by (simp add: cut_line_None)
  with None show ?thesis
    using inv by (simp add: refines3_def RecvReqLine_def spec_line_def FindCRLF_ok ReadableSize_content)
next
  case (Some ls)
  obtain l s where ls: "ls = (l, s)"
    by (cases ls)
  obtain b' where b': "GetLineAndPop b = Inr (l, b')" "bf_inv b'" "content b' = s"
    using GetLineAndPop_cut [OF inv] Some ls by blast
  have "memchr (CHR 0x0A) (content b) \<noteq> None"
    using Some by (auto simp: cut_line_def)
  then show ?thesis
    using inv b' Some ls
    by (auto simp: refines3_def RecvReqLine_def spec_line_def FindCRLF_ok Let_def split: prod.split)
qed

lemma head_loop_ok:
  "bf_inv b \<Longrightarrow> length (content b) < fuel \<Longrightarrow> refines3 (head_loop fuel cx b) (spec_head cx (content b))"
proof (induction fuel arbitrary: cx b)
  case (Suc fuel)
  note inv = Suc.prems(1)
  show ?case
  proof (cases "cut_line (content b)")
    case None
    then have "memchr (CHR 0x0A) (content b) = None"
      by (simp add: cut_line_None)
    with None show ?thesis
      using inv by (subst spec_head.simps) (simp add: refines3_def FindCRLF_ok ReadableSize_content)
  next
    case (Some ls)
    obtain l s where ls: "ls = (l, s)"
      by (cases ls)
    obtain b' where b': "GetLineAndPop b = Inr (l, b')" "bf_inv b'" "content b' = s"
      using GetLineAndPop_cut [OF inv] Some ls by blast
    obtain k where m: "memchr (CHR 0x0A) (content b) = Some k"
      using Some by (auto simp: cut_line_def)
    have len: "length (content b') < fuel"
      using cut_line_less Some ls b'(3) Suc.prems(2) by fastforce
    let ?p = "ParseHttpHead l (cx_req cx)"
    have IH: "refines3 (head_loop fuel (cx\<lparr>cx_req := snd ?p\<rparr>) b') (spec_head (cx\<lparr>cx_req := snd ?p\<rparr>) s)"
      using Suc.IH [OF b'(2) len, of "cx\<lparr>cx_req := snd ?p\<rparr>"] b'(3) by simp
    have c: "head_loop (Suc fuel) cx b =
        (if length l > MaxLine then Inr (False, cx_fail 414 cx, b')
         else if l = [CHR 0x0D, CHR 0x0A] \<or> l = [CHR 0x0A] then Inr (True, cx\<lparr>cx_status := RECV_REQ_BODY\<rparr>, b')
         else if \<not> fst ?p then Inr (False, cx_fail 400 (cx\<lparr>cx_req := snd ?p\<rparr>), b')
         else head_loop fuel (cx\<lparr>cx_req := snd ?p\<rparr>) b')"
      using m b'(1) by (simp add: FindCRLF_ok [OF inv] Let_def split: prod.split)
    have s: "spec_head cx (content b) =
        (if length l > MaxLine then (False, cx_fail 414 cx, s)
         else if l = [CHR 0x0D, CHR 0x0A] \<or> l = [CHR 0x0A] then (True, cx\<lparr>cx_status := RECV_REQ_BODY\<rparr>, s)
         else if \<not> fst ?p then (False, cx_fail 400 (cx\<lparr>cx_req := snd ?p\<rparr>), s)
         else spec_head (cx\<lparr>cx_req := snd ?p\<rparr>) s)"
      using Some ls by (subst spec_head.simps) simp
    show ?thesis
      unfolding c s using IH b' by (simp add: refines3_def)
  qed
qed simp

lemma RecvReqHead_ok:
  assumes inv: "bf_inv b" and st: "cx_status cx = RECV_REQ_HEAD"
  shows "refines3 (RecvReqHead cx b) (spec_head cx (content b))"
proof -
  have "length (content b) < walk_fuel"
    using bf_invD(2,3,7) [OF inv] by (simp add: walk_fuel_def)
  then show ?thesis
    using head_loop_ok [OF inv] st by (simp add: RecvReqHead_def)
qed

lemma stoi_le: "stoi s = Inr v \<Longrightarrow> v \<le> 2147483647"
  by (auto simp: stoi_def Let_def split: prod.splits if_splits)

lemma ContentLength_le: "ContentLength r = Inr v \<Longrightarrow> v \<le> 2147483647"
  by (auto simp: ContentLength_def stoi_le split: if_splits)

lemma unat_of_int_small:
  assumes "0 \<le> k" "k < 9223372036854775808"
  shows "unat (of_int k :: u64) = nat k"
proof -
  have "(of_int k :: u64) = of_nat (nat k)"
    using assms(1) by simp
  then show ?thesis
    using assms by (simp only: unat_of_nat_small)
qed

lemma refines_simps:
  "refines (Inl e) (Inl e')  \<longleftrightarrow> e = e'"
  "refines (Inr (x, b)) (Inr (x', c)) \<longleftrightarrow> x = x' \<and> bf_inv b \<and> content b = c"
  by (auto simp: refines_def)

lemma RecvHttpBody_ok:
  assumes inv: "bf_inv b"
  shows "refines (ignore_result (RecvHttpBody cx b)) (spec_body cx (content b))"
proof (cases "cx_status cx = RECV_REQ_BODY")
  case True
  show ?thesis
  proof (cases "ContentLength (cx_req cx)")
    case (Inl e)
    then show ?thesis
      using True by (simp add: RecvHttpBody_def ignore_result_def spec_body_def refines_simps)
  next
    case (Inr n)
    define need where "need = n - int (length (rq_body (cx_req cx)))"
    have le: "need \<le> 2147483647"
      using ContentLength_le [OF Inr] by (simp add: need_def)
    let ?r = "ReadableSize b"
    note r = ReadableSize_content [OF inv]
    consider (over) "n = 0 \<or> need \<le> 0"
      | (all) "n \<noteq> 0" "0 < need" "need \<le> int (length (content b))"
      | (part) "n \<noteq> 0" "0 < need" "int (length (content b)) < need" "content b \<noteq> []"
      | (idle) "n \<noteq> 0" "0 < need" "int (length (content b)) < need" "content b = []"
      by linarith
    then show ?thesis
    proof cases
      case over
      then show ?thesis
        using True Inr inv by (auto simp: RecvHttpBody_def ignore_result_def spec_body_def Let_def need_def refines_simps)
    next
      case all
      have u: "unat (of_int need :: u64) = nat need"
        using all(2) le by (intro unat_of_int_small) linarith+
      have c: "(of_int need :: u64) \<le> ?r"
        using u r all by (simp add: word_le_nat_alt)
      obtain b' where b': "ReadStringAndPop b (of_int need) = Inr (take (nat need) (content b), b')" "bf_inv b'"
          "content b' = drop (nat need) (content b)"
        using bs.pop_ok [OF inv, of "of_int need"] u all nat_le_iff [of need "length (content b)"] by auto
      show ?thesis
        using True Inr all c b' unfolding need_def
        by (simp add: RecvHttpBody_def ignore_result_def spec_body_def Let_def refines_simps)
    next
      case part
      have u: "unat (of_int need :: u64) = nat need"
        using part(2) le by (intro unat_of_int_small) linarith+
      have c: "\<not> (of_int need :: u64) \<le> ?r" "0 < ?r"
        using u r part by (simp_all add: word_le_nat_alt word_less_nat_alt)
      obtain b' where b': "ReadStringAndPop b ?r = Inr (content b, b')" "bf_inv b'" "content b' = []"
        using bs.pop_ok [OF inv, of ?r] r part(4) by auto
      show ?thesis
        using True Inr part c b' unfolding need_def
        by (simp add: RecvHttpBody_def ignore_result_def spec_body_def Let_def refines_simps)
    next
      case idle
      have u: "unat (of_int need :: u64) = nat need"
        using idle(2) le by (intro unat_of_int_small) linarith+
      have c: "\<not> (of_int need :: u64) \<le> ?r" "\<not> 0 < ?r"
        using u r idle by (simp_all add: word_le_nat_alt word_less_nat_alt)
      show ?thesis
        using True Inr idle c inv unfolding need_def
        by (simp add: RecvHttpBody_def ignore_result_def spec_body_def Let_def refines_simps add_body_def)
    qed
  qed
next
  case False
  then show ?thesis
    using inv by (simp add: RecvHttpBody_def ignore_result_def spec_body_def refines_simps)
qed

lemma from_head_ok:
  assumes inv: "bf_inv b"
  shows "refines (rbind (RecvReqHead cx b) (\<lambda>(ok, cx, buf). if \<not> ok then Inr (cx, buf)
      else ignore_result (RecvHttpBody cx buf))) (spec_from_head cx (content b))"
proof (cases "cx_status cx = RECV_REQ_HEAD")
  case True
  obtain ok cx1 s1 where s: "spec_head cx (content b) = (ok, cx1, s1)"
    by (cases "spec_head cx (content b)")
  obtain b1 where b1: "RecvReqHead cx b = Inr (ok, cx1, b1)" "bf_inv b1" "content b1 = s1"
    using RecvReqHead_ok [OF inv True] s by (auto simp: refines3_def)
  show ?thesis
    using True s b1 RecvHttpBody_ok [OF b1(2), of cx1] by (simp add: spec_from_head_def refines_simps)
next
  case False
  then show ?thesis
    using inv by (simp add: RecvReqHead_def spec_from_head_def refines_simps)
qed

lemma RecvHttpRequest_ok:
  assumes inv: "bf_inv b"
  shows "refines (RecvHttpRequest cx b) (spec_recv cx (content b))"
proof (cases "cx_status cx")
  case RECV_REQ_LINE
  obtain ok cx1 s1 where s: "spec_line cx (content b) = (ok, cx1, s1)"
    by (cases "spec_line cx (content b)")
  obtain b1 where b1: "RecvReqLine cx b = Inr (ok, cx1, b1)" "bf_inv b1" "content b1 = s1"
    using RecvReqLine_ok [OF inv, of cx] s by (auto simp: refines3_def)
  show ?thesis
    using RECV_REQ_LINE s b1 from_head_ok [OF b1(2), of cx1]
    by (simp add: RecvHttpRequest_def spec_recv_def Let_def refines_simps)
qed (use from_head_ok [OF inv, of cx] RecvHttpBody_ok [OF inv, of cx] inv in
  \<open>simp_all add: RecvHttpRequest_def spec_recv_def Let_def refines_simps\<close>)

section \<open>The reference does not depend on how the bytes arrive\<close>

lemma memchr_append_Some: "memchr c xs = Some n \<Longrightarrow> memchr c (xs @ ys) = Some n"
  by (induction xs arbitrary: n) (auto split: if_splits)

lemma memchr_append_None: "memchr c xs = None \<Longrightarrow> memchr c (xs @ ys) = Some n \<Longrightarrow> length xs \<le> n"
  by (induction xs arbitrary: n) (auto split: if_splits)

lemma cut_line_append:
  assumes "cut_line s = Some (l, s')"
  shows "cut_line (s @ t) = Some (l, s' @ t)"
proof -
  obtain n where n: "memchr (CHR 0x0A) s = Some n" "l = take (Suc n) s" "s' = drop (Suc n) s"
    using assms by (auto simp: cut_line_def)
  then have "n < length s"
    by (simp add: memchr_Some)
  then show ?thesis
    using n memchr_append_Some [OF n(1), of t] by (simp add: cut_line_def)
qed

text \<open>A line that ends beyond \<open>s\<close> is longer than \<open>s\<close>.\<close>

lemma cut_line_long: "cut_line s = None \<Longrightarrow> cut_line (s @ t) = Some (l, s') \<Longrightarrow> length s < length l"
  using memchr_append_None [of "CHR 0x0A" s t]
  by (fastforce simp: cut_line_def memchr_Some [of _ "s @ t"])

lemma too_long:
  assumes "cut_line s = None" "MaxLine < length s"
  shows "case cut_line (s @ t) of None \<Rightarrow> MaxLine < length (s @ t) | Some (l, s') \<Rightarrow> MaxLine < length l"
  using assms cut_line_long [OF assms(1), of t] by (cases "cut_line (s @ t)") fastforce+

definition same_as_joined :: "http_context \<Rightarrow> string \<Rightarrow> string \<Rightarrow> bool" where
  "same_as_joined cx s t \<longleftrightarrow>
     (case spec_recv cx s of
        Inl e \<Rightarrow> spec_recv cx (s @ t) = Inl e
      | Inr (cx1, s1) \<Rightarrow>
          if cx_status cx1 = RECV_REQ_ERROR then \<exists>s2. spec_recv cx (s @ t) = Inr (cx1, s2)
          else spec_recv cx (s @ t) = spec_recv cx1 (s1 @ t))"

lemma add_body_add: "add_body t (add_body s cx) = add_body (s @ t) cx"
  by (simp add: add_body_def)

lemma ContentLength_add_body [simp]: "ContentLength (cx_req (add_body s cx)) = ContentLength (cx_req cx)"
  by (simp add: add_body_def ContentLength_def HasHeaders_def GetHeaders_def)

lemma add_body_simps [simp]:
  "cx_status (add_body s cx) = cx_status cx" "rq_body (cx_req (add_body s cx)) = rq_body (cx_req cx) @ s"
  by (simp_all add: add_body_def)

lemma body_joined:
  assumes "cx_status cx = RECV_REQ_BODY"
  shows "case spec_body cx s of Inl e \<Rightarrow> spec_body cx (s @ t) = Inl e
    | Inr (cx1, s1) \<Rightarrow> cx_status cx1 \<noteq> RECV_REQ_ERROR \<and> cx_status cx1 \<noteq> RECV_REQ_LINE \<and> cx_status cx1 \<noteq> RECV_REQ_HEAD \<and>
        spec_body cx (s @ t) = spec_body cx1 (s1 @ t)"
proof (cases "ContentLength (cx_req cx)")
  case (Inl e)
  then show ?thesis
    using assms by (simp add: spec_body_def)
next
  case (Inr n)
  define need where "need = n - int (length (rq_body (cx_req cx)))"
  consider (over) "n = 0 \<or> need \<le> 0"
    | (all) "n \<noteq> 0" "0 < need" "need \<le> int (length s)"
    | (part) "n \<noteq> 0" "0 < need" "int (length s) < need"
    by linarith
  then show ?thesis
  proof cases
    case over
    then show ?thesis
      using assms Inr by (auto simp: spec_body_def Let_def need_def)
  next
    case all
    then show ?thesis
      using assms Inr unfolding need_def by (simp add: spec_body_def Let_def)
  next
    case part
    have one: "spec_body cx s = Inr (add_body s cx, [])"
      using assms Inr part unfolding need_def by (simp add: spec_body_def Let_def)
    have "spec_body (add_body s cx) t = spec_body cx (s @ t)"
    proof (cases "need \<le> int (length (s @ t))")
      case True
      have k: "nat (need - int (length s)) = nat need - length s" "length s \<le> nat need"
        using part by simp_all
      have "spec_body (add_body s cx) t = Inr ((add_body (take (nat need - length s) t) (add_body s cx))
          \<lparr>cx_status := RECV_REQ_OVER\<rparr>, drop (nat need - length s) t)"
        using assms Inr part True k unfolding need_def by (simp add: spec_body_def Let_def algebra_simps)
      moreover have "spec_body cx (s @ t) = Inr ((add_body (take (nat need) (s @ t)) cx)
          \<lparr>cx_status := RECV_REQ_OVER\<rparr>, drop (nat need) (s @ t))"
        using assms Inr part True unfolding need_def by (simp add: spec_body_def Let_def)
      ultimately show ?thesis
        using k by (simp add: add_body_add)
    next
      case False
      then show ?thesis
        using assms Inr part unfolding need_def by (simp add: spec_body_def Let_def add_body_add)
    qed
    then show ?thesis
      using one assms by simp
  qed
qed

lemma head_joined:
  "case spec_head cx s of (ok, cx1, s1) \<Rightarrow>
     if \<not> ok then cx_status cx1 = RECV_REQ_ERROR \<and> (\<exists>s2. spec_head cx (s @ t) = (False, cx1, s2))
     else cx_status cx1 = RECV_REQ_BODY \<and> spec_head cx (s @ t) = (True, cx1, s1 @ t) \<or>
       cx_status cx1 = cx_status cx \<and> spec_head cx (s @ t) = spec_head cx1 (s1 @ t)"
proof (induction cx s rule: spec_head.induct)
  case (1 cx s)
  show ?case
  proof (cases "cut_line s")
    case None
    note n = None
    have e: "spec_head cx s = (if length s > MaxLine then (False, cx_fail 414 cx, s) else (True, cx, s))"
      using None by (subst spec_head.simps) simp
    show ?thesis
    proof (cases "length s > MaxLine")
      case True
      have "\<exists>s2. spec_head cx (s @ t) = (False, cx_fail 414 cx, s2)"
        using too_long [OF None True, of t] by (subst spec_head.simps) (auto split: option.splits)
      then show ?thesis
        using e True by (simp add: cx_fail_def)
    next
      case False
      then show ?thesis
        using e by simp
    qed
  next
    case (Some ls)
    obtain l s' where ls: "ls = (l, s')"
      by (cases ls)
    note c = Some [unfolded ls] cut_line_append [OF Some [unfolded ls], of t]
    let ?p = "ParseHttpHead l (cx_req cx)"
    have f: "spec_head cx x =
        (if length l > MaxLine then (False, cx_fail 414 cx, x')
         else if l = [CHR 0x0D, CHR 0x0A] \<or> l = [CHR 0x0A] then (True, cx\<lparr>cx_status := RECV_REQ_BODY\<rparr>, x')
         else if \<not> fst ?p then (False, cx_fail 400 (cx\<lparr>cx_req := snd ?p\<rparr>), x')
         else spec_head (cx\<lparr>cx_req := snd ?p\<rparr>) x')" if "cut_line x = Some (l, x')" for x x'
      using that by (subst spec_head.simps) simp
    show ?thesis
    proof (cases "length l > MaxLine \<or> l = [CHR 0x0D, CHR 0x0A] \<or> l = [CHR 0x0A] \<or> \<not> fst ?p")
      case True
      then show ?thesis
        unfolding f [OF c(1)] f [OF c(2)] by (auto simp: cx_fail_def)
    next
      case False
      have "spec_head cx s = spec_head (cx\<lparr>cx_req := snd ?p\<rparr>) s'"
          "spec_head cx (s @ t) = spec_head (cx\<lparr>cx_req := snd ?p\<rparr>) (s' @ t)"
        using f [OF c(1)] f [OF c(2)] False by simp_all
      moreover have "cx_status (cx\<lparr>cx_req := snd ?p\<rparr>) = cx_status cx"
        by simp
      moreover obtain ok cx1 s1 where "spec_head (cx\<lparr>cx_req := snd ?p\<rparr>) s' = (ok, cx1, s1)"
        by (cases "spec_head (cx\<lparr>cx_req := snd ?p\<rparr>) s'")
      ultimately show ?thesis
        using 1 [OF c(1) refl] False by (cases ok) auto
    qed
  qed
qed

lemma from_head_joined:
  assumes st: "cx_status cx = RECV_REQ_HEAD"
  shows "case spec_from_head cx s of
      Inl e \<Rightarrow> spec_from_head cx (s @ t) = Inl e
    | Inr (cx1, s1) \<Rightarrow>
        if cx_status cx1 = RECV_REQ_ERROR then \<exists>s2. spec_from_head cx (s @ t) = Inr (cx1, s2)
        else spec_from_head cx (s @ t) = spec_recv cx1 (s1 @ t)"
proof -
  obtain ok cx1 s1 where h: "spec_head cx s = (ok, cx1, s1)"
    by (cases "spec_head cx s")
  note j = head_joined [of cx s t, unfolded h prod.case]
  show ?thesis
  proof (cases ok)
    case False
    then obtain s2 where "spec_head cx (s @ t) = (False, cx1, s2)" "cx_status cx1 = RECV_REQ_ERROR"
      using j by auto
    then show ?thesis
      using st h False by (simp add: spec_from_head_def)
  next
    case True
    then consider (body) "cx_status cx1 = RECV_REQ_BODY" "spec_head cx (s @ t) = (True, cx1, s1 @ t)"
      | (head) "cx_status cx1 = RECV_REQ_HEAD" "spec_head cx (s @ t) = spec_head cx1 (s1 @ t)"
      using j st by auto
    then show ?thesis
    proof cases
      case body
      have e: "spec_from_head cx s = spec_body cx1 s1" "spec_from_head cx (s @ t) = spec_body cx1 (s1 @ t)"
        using st h True body(2) by (simp_all add: spec_from_head_def)
      have r: "spec_recv c x = (if cx_status c = RECV_REQ_BODY then spec_body c x else Inr (c, x))"
        if "cx_status c \<noteq> RECV_REQ_LINE" "cx_status c \<noteq> RECV_REQ_HEAD" for c x
        using that by (cases "cx_status c") (simp_all add: spec_recv_def)
      have "spec_recv c x = spec_body c x" if "cx_status c \<noteq> RECV_REQ_LINE" "cx_status c \<noteq> RECV_REQ_HEAD" for c x
        unfolding r [OF that] by (simp add: spec_body_def)
      then show ?thesis
        using body_joined [OF body(1), of s1 t] e by (cases "spec_body cx1 s1") auto
    next
      case head
      have "spec_from_head cx s = Inr (cx1, s1)"
        using st h True head(1) by (simp add: spec_from_head_def spec_body_def)
      moreover have "spec_from_head cx (s @ t) = spec_from_head cx1 (s1 @ t)"
        using st head by (simp add: spec_from_head_def)
      ultimately show ?thesis
        using head(1) by (simp add: spec_recv_def)
    qed
  qed
qed

lemma joined: "same_as_joined cx s t"
proof (cases "cx_status cx")
  case RECV_REQ_LINE
  note st = this
  show ?thesis
  proof (cases "cut_line s")
    case None
    show ?thesis
    proof (cases "length s > MaxLine")
      case True
      obtain s2 where "spec_line cx (s @ t) = (False, cx_fail 414 cx, s2)"
        using too_long [OF None True, of t] st by (auto simp: spec_line_def split: option.splits)
      then have "spec_recv cx (s @ t) = Inr (cx_fail 414 cx, s2)"
        using st by (simp add: spec_recv_def)
      moreover have "spec_recv cx s = Inr (cx_fail 414 cx, s)"
        using st None True by (simp add: spec_recv_def spec_line_def)
      moreover have "cx_status (cx_fail 414 cx) = RECV_REQ_ERROR"
        by (simp add: cx_fail_def)
      ultimately show ?thesis
        by (simp add: same_as_joined_def)
    next
      case False
      then have "spec_recv cx s = Inr (cx, s)"
        using st None by (simp add: spec_recv_def spec_line_def spec_from_head_def)
      then show ?thesis
        using st by (simp add: same_as_joined_def)
    qed
  next
    case (Some ls)
    obtain l s' where ls: "ls = (l, s')"
      by (cases ls)
    note c = Some [unfolded ls] cut_line_append [OF Some [unfolded ls], of t]
    obtain ok r where p: "ParseReqLine l (cx_req cx) = (ok, r)"
      by (cases "ParseReqLine l (cx_req cx)")
    show ?thesis
    proof (cases "length l > MaxLine \<or> \<not> ok")
      case True
      then show ?thesis
        using st c p by (auto simp: same_as_joined_def spec_recv_def spec_line_def cx_fail_def)
    next
      case False
      let ?cx = "cx\<lparr>cx_req := r, cx_status := RECV_REQ_HEAD\<rparr>"
      have e: "spec_recv cx s = spec_from_head ?cx s'" "spec_recv cx (s @ t) = spec_from_head ?cx (s' @ t)"
        using st c p False by (simp_all add: spec_recv_def spec_line_def)
      show ?thesis
        unfolding same_as_joined_def e by (rule from_head_joined) simp
    qed
  qed
next
  case RECV_REQ_HEAD
  then have e: "spec_recv cx s = spec_from_head cx s" "spec_recv cx (s @ t) = spec_from_head cx (s @ t)"
    by (simp_all add: spec_recv_def)
  show ?thesis
    unfolding same_as_joined_def e by (rule from_head_joined [OF RECV_REQ_HEAD])
next
  case RECV_REQ_BODY
  then have e: "spec_recv cx x = spec_body cx x" for x
    by (simp add: spec_recv_def)
  have "spec_recv c x = spec_body c x" if "cx_status c \<noteq> RECV_REQ_LINE" "cx_status c \<noteq> RECV_REQ_HEAD" for c x
    using that by (cases "cx_status c") (simp_all add: spec_recv_def spec_body_def)
  then show ?thesis
    using body_joined [OF RECV_REQ_BODY, of s t] e by (cases "spec_body cx s") (auto simp: same_as_joined_def)
qed (simp_all add: same_as_joined_def spec_recv_def)

section \<open>Properties\<close>

text \<open>The parser on the buffer is the parser of a string: for every state of the parser and every
  buffer the call returns, its loops end, it throws exactly where the reference does, and the
  state it reaches and the bytes it leaves are those of the reference.\<close>

theorem RecvHttpRequest_refines:
  assumes "bf_inv b"
  shows "refines (RecvHttpRequest cx b) (spec_recv cx (content b))"
  using assms by (rule RecvHttpRequest_ok)

lemma RecvHttpRequest_refines_witness: "refines (RecvHttpRequest cx_new bf_new) (Inr (cx_new, []))"
proof -
  have "spec_recv cx_new [] = Inr (cx_new, [])"
    by (simp add: spec_recv_def spec_line_def cut_line_def cx_new_def MaxLine_def spec_from_head_def)
  then show ?thesis
    using RecvHttpRequest_refines [OF bf_new_inv(1), of cx_new] by simp
qed

text \<open>C8: parsing does not depend on how the bytes arrive. Parsing what has come and then, when more has
  come, parsing on gives the same state, the same exception and the same bytes left as parsing
  everything at once; only after an error may the bytes left differ.\<close>

theorem parse_in_pieces:
  assumes "bf_inv b" "bf_inv b2" "content b2 = content b @ t"
  shows "case RecvHttpRequest cx b of
      Inl e \<Rightarrow> RecvHttpRequest cx b2 = Inl e
    | Inr (cx1, b1) \<Rightarrow>
        bf_inv b1 \<and>
        (\<forall>b3. bf_inv b3 \<and> content b3 = content b1 @ t \<longrightarrow>
          (case RecvHttpRequest cx1 b3 of
             Inl e \<Rightarrow> RecvHttpRequest cx b2 = Inl e
           | Inr (cx3, b4) \<Rightarrow> \<exists>b5. RecvHttpRequest cx b2 = Inr (cx3, b5) \<and>
               (cx_status cx1 \<noteq> RECV_REQ_ERROR \<longrightarrow> content b5 = content b4)))"
proof (cases "spec_recv cx (content b)")
  case (Inl e)
  then have "spec_recv cx (content b2) = Inl e"
    using joined [of cx "content b" t] assms(3) by (simp add: same_as_joined_def)
  then show ?thesis
    using Inl RecvHttpRequest_ok [OF assms(1), of cx] RecvHttpRequest_ok [OF assms(2), of cx] by (simp add: refines_def)
next
  case (Inr r)
  obtain cx1 s1 where r: "r = (cx1, s1)"
    by (cases r)
  obtain b1 where b1: "RecvHttpRequest cx b = Inr (cx1, b1)" "bf_inv b1" "content b1 = s1"
    using RecvHttpRequest_ok [OF assms(1), of cx] Inr r by (auto simp: refines_def)
  have main: "case RecvHttpRequest cx1 b3 of
        Inl e \<Rightarrow> RecvHttpRequest cx b2 = Inl e
      | Inr (cx3, b4) \<Rightarrow> \<exists>b5. RecvHttpRequest cx b2 = Inr (cx3, b5) \<and>
          (cx_status cx1 \<noteq> RECV_REQ_ERROR \<longrightarrow> content b5 = content b4)"
    if b3: "bf_inv b3" "content b3 = s1 @ t" for b3
  proof (cases "cx_status cx1 = RECV_REQ_ERROR")
    case True
    then obtain s2 where "spec_recv cx (content b2) = Inr (cx1, s2)"
      using joined [of cx "content b" t] Inr r assms(3) by (auto simp: same_as_joined_def)
    moreover have "spec_recv cx1 (content b3) = Inr (cx1, content b3)"
      using True by (simp add: spec_recv_def)
    ultimately show ?thesis
      using True RecvHttpRequest_ok [OF b3(1), of cx1] RecvHttpRequest_ok [OF assms(2), of cx] by (auto simp: refines_def)
  next
    case False
    then have "spec_recv cx (content b2) = spec_recv cx1 (content b3)"
      using joined [of cx "content b" t] Inr r assms(3) b3(2) by (simp add: same_as_joined_def)
    then show ?thesis
      using RecvHttpRequest_ok [OF b3(1), of cx1] RecvHttpRequest_ok [OF assms(2), of cx]
      by (cases "spec_recv cx1 (content b3)") (auto simp: refines_def)
  qed
  then show ?thesis
    using b1 by simp
qed

lemma parse_in_pieces_witness:
  "\<exists>b2. WriteAndPush bf_new ''GET'' = Inr b2 \<and>
     (case RecvHttpRequest cx_new b2 of Inl e \<Rightarrow> False | Inr (cx3, b4) \<Rightarrow> \<exists>b5. RecvHttpRequest cx_new b2 = Inr (cx3, b5))"
proof -
  have "room bf_new (length ''GET'')"
    by (simp add: room_def bf_new_def default_size_def)
  from bs.app_ok [OF bf_new_inv(1) this] obtain b2 where b2: "WriteAndPush bf_new ''GET'' = Inr b2" "bf_inv b2"
      "content b2 = content bf_new @ ''GET''"
    by auto
  have n: "spec_recv cx_new [] = Inr (cx_new, [])"
    by (simp add: spec_recv_def spec_line_def cut_line_def cx_new_def MaxLine_def spec_from_head_def)
  obtain b1 where b1: "RecvHttpRequest cx_new bf_new = Inr (cx_new, b1)" "content b1 = []"
    using RecvHttpRequest_ok [OF bf_new_inv(1), of cx_new] n by (auto simp: refines_def)
  have "spec_recv cx_new (content b2) = Inr (cx_new, ''GET'')"
    using b2(3) by (simp add: spec_recv_def spec_line_def cut_line_def cx_new_def MaxLine_def spec_from_head_def)
  then obtain b4 where "RecvHttpRequest cx_new b2 = Inr (cx_new, b4)"
    using RecvHttpRequest_ok [OF b2(2), of cx_new] by (auto simp: refines_def)
  then show ?thesis
    using parse_in_pieces [OF bf_new_inv(1) b2(2,3), of cx_new] b1 b2 by auto
qed

section \<open>Reading back a printed request\<close>

definition crlf :: string where
  "crlf = [CHR 0x0D, CHR 0x0A]"

definition print_line :: "string \<Rightarrow> string \<Rightarrow> string \<Rightarrow> string" where
  "print_line m u v = m @ '' '' @ u @ '' '' @ v @ crlf"

definition print_head :: "string \<times> string \<Rightarrow> string" where
  "print_head h = fst h @ '': '' @ snd h @ crlf"

definition print_request :: "string \<Rightarrow> string \<Rightarrow> string \<Rightarrow> (string \<times> string) list \<Rightarrow> string \<Rightarrow> string" where
  "print_request m u v hs body = print_line m u v @ concat (map print_head hs) @ crlf @ body"

definition token :: "string \<Rightarrow> bool" where
  "token s \<longleftrightarrow> s \<noteq> [] \<and> CHR '' '' \<notin> set s \<and> CHR 0x0A \<notin> set s"

definition head_ok :: "string \<times> string \<Rightarrow> bool" where
  "head_ok h \<longleftrightarrow> CHR '':'' \<notin> set (fst h) \<and> CHR 0x0A \<notin> set (fst h) \<and> CHR 0x0A \<notin> set (snd h) \<and>
     length (print_head h) \<le> MaxLine"

lemma find_char_append: "c \<notin> set xs \<Longrightarrow> find_char c (xs @ c # ys) = Some (length xs)"
  by (induction xs) auto

lemma find_char_none: "c \<notin> set xs \<Longrightarrow> find_char c xs = None"
  by (induction xs) auto

lemma find_sub_key: "CHR '':'' \<notin> set k \<Longrightarrow> find_sub '': '' (k @ '': '' @ v) = Some (length k)"
  by (induction k) (auto simp: begins_def)

lemma chomp_crlf [simp]: "chomp (s @ crlf) = s"
  by (simp add: chomp_def pop_if_def crlf_def butlast_append)

lemma cut_line_crlf:
  assumes "CHR 0x0A \<notin> set l"
  shows "cut_line (l @ crlf @ r) = Some (l @ crlf, r)"
proof -
  have "memchr (CHR 0x0A) ((l @ [CHR 0x0D]) @ CHR 0x0A # r) = Some (length (l @ [CHR 0x0D]))"
    using assms by (subst memchr_Some) (simp add: nth_append)
  then show ?thesis
    by (simp add: cut_line_def crlf_def)
qed

lemma ParseReqLine_print:
  assumes "token m" "token u" "v \<noteq> []" "CHR ''?'' \<notin> set u"
  shows "ParseReqLine (print_line m u v) r =
    (True, r\<lparr>rq_method := m, rq_uri := u, rq_http_version := v, rq_path := u, rq_query_string := []\<rparr>)"
proof -
  have c: "chomp (print_line m u v) = m @ CHR '' '' # u @ CHR '' '' # v"
    using chomp_crlf [of "m @ CHR '' '' # u @ CHR '' '' # v"] by (simp add: print_line_def)
  have f: "find_char (CHR '' '') (m @ CHR '' '' # u @ CHR '' '' # v) = Some (length m)"
      "find_char (CHR '' '') (u @ CHR '' '' # v) = Some (length u)"
    using assms by (simp_all add: token_def find_char_append)
  show ?thesis
    using assms f by (simp add: ParseReqLine_def c Let_def token_def find_char_none)
qed

lemma ParseHttpHead_print: "CHR '':'' \<notin> set (fst h) \<Longrightarrow> ParseHttpHead (print_head h) r = (True, SetHeaders r (fst h) (snd h))"
  using chomp_crlf [of "fst h @ '': '' @ snd h"] find_sub_key [of "fst h" "snd h"]
  by (simp add: ParseHttpHead_def print_head_def Let_def)

definition set_headers :: "(string \<times> string) list \<Rightarrow> request \<Rightarrow> request" where
  "set_headers hs r = foldl (\<lambda>r h. SetHeaders r (fst h) (snd h)) r hs"

lemma set_headers_eq: "set_headers hs r = r\<lparr>rq_headers := rq_headers r ++ map_of (rev hs)\<rparr>"
proof (induction hs rule: rev_induct)
  case (snoc h hs)
  then show ?case
    by (cases h) (auto simp: set_headers_def SetHeaders_def map_add_def fun_eq_iff intro!: request.equality)
qed (simp add: set_headers_def)

lemma ContentLength_cong: "rq_headers r = rq_headers r' \<Longrightarrow> ContentLength r = ContentLength r'"
  by (simp add: ContentLength_def HasHeaders_def GetHeaders_def)

lemma spec_head_print:
  "\<forall>h \<in> set hs. head_ok h \<Longrightarrow>
   spec_head cx (concat (map print_head hs) @ crlf @ r) =
     (True, cx\<lparr>cx_req := set_headers hs (cx_req cx), cx_status := RECV_REQ_BODY\<rparr>, r)"
proof (induction hs arbitrary: cx)
  case Nil
  then show ?case
    using cut_line_crlf [of "[]" r]
    by (subst spec_head.simps) (simp add: crlf_def MaxLine_def set_headers_def)
next
  case (Cons h hs)
  let ?rest = "concat (map print_head hs) @ crlf @ r"
  have h: "head_ok h"
    using Cons.prems by simp
  have c: "cut_line (print_head h @ ?rest) = Some (print_head h, ?rest)"
    using cut_line_crlf [of "fst h @ '': '' @ snd h" ?rest] h by (simp add: print_head_def head_ok_def)
  have ne: "print_head h \<noteq> [CHR 0x0D, CHR 0x0A]" "print_head h \<noteq> [CHR 0x0A]"
    by (cases "fst h"; simp add: print_head_def crlf_def; cases "tl (fst h)"; simp)+
  have "spec_head cx (print_head h @ ?rest) = spec_head (cx\<lparr>cx_req := SetHeaders (cx_req cx) (fst h) (snd h)\<rparr>) ?rest"
    using c ne h ParseHttpHead_print [of h "cx_req cx"] by (subst spec_head.simps) (simp add: head_ok_def)
  then show ?case
    using Cons by (simp add: set_headers_def)
qed

lemma parse_print_state:
  assumes "token m" "token u" "token v" "CHR ''?'' \<notin> set u" "length (print_line m u v) \<le> MaxLine"
    and "\<forall>h \<in> set hs. head_ok h"
    and "ContentLength (set_headers hs rq_empty) = Inr (int (length body))"
    and "bf_inv b" "content b = print_request m u v hs body @ rest"
  shows "\<exists>b'. RecvHttpRequest cx_new b = Inr (\<lparr>cx_code = 200, cx_status = RECV_REQ_OVER,
      cx_req = rq_empty\<lparr>rq_method := m, rq_uri := u, rq_path := u, rq_http_version := v, rq_body := body,
        rq_headers := map_of (rev hs)\<rparr>\<rparr>, b') \<and> bf_inv b' \<and> content b' = rest"
proof -
  let ?r = "rq_empty\<lparr>rq_method := m, rq_uri := u, rq_http_version := v, rq_path := u, rq_query_string := []\<rparr>"
  let ?tail = "concat (map print_head hs) @ crlf @ body @ rest"
  let ?cx = "cx_new\<lparr>cx_req := ?r, cx_status := RECV_REQ_HEAD\<rparr>"
  let ?cb = "?cx\<lparr>cx_req := set_headers hs ?r, cx_status := RECV_REQ_BODY\<rparr>"
  have "cut_line (print_line m u v @ ?tail) = Some (print_line m u v, ?tail)"
    using cut_line_crlf [of "m @ '' '' @ u @ '' '' @ v" ?tail] assms(1-3) by (simp add: print_line_def token_def)
  then have "spec_line cx_new (print_line m u v @ ?tail) = (True, ?cx, ?tail)"
    using ParseReqLine_print [of m u v rq_empty] assms(1-5) by (simp add: spec_line_def cx_new_def token_def)
  moreover have "spec_head ?cx ?tail = (True, ?cb, body @ rest)"
    using spec_head_print [OF assms(6), of ?cx "body @ rest"] by simp
  moreover have "cx_status cx_new = RECV_REQ_LINE" "cx_status ?cx = RECV_REQ_HEAD"
      "content b = print_line m u v @ ?tail"
    using assms(9) by (simp_all add: cx_new_def print_request_def)
  ultimately have s: "spec_recv cx_new (content b) = spec_body ?cb (body @ rest)"
    by (simp only: spec_recv_def spec_from_head_def recv_status.case prod.case simp_thms if_False)
  have "ContentLength (set_headers hs ?r) = Inr (int (length body))"
    unfolding assms(7) [symmetric] by (rule ContentLength_cong) (simp add: set_headers_eq)
  moreover have "rq_body (set_headers hs ?r) = []"
    by (simp add: set_headers_eq rq_empty_def)
  ultimately have "spec_body ?cb (body @ rest) = Inr ((add_body body ?cb)\<lparr>cx_status := RECV_REQ_OVER\<rparr>, rest)"
    by (cases "body = []") (simp_all add: spec_body_def Let_def add_body_def)
  then obtain b' where b': "RecvHttpRequest cx_new b = Inr ((add_body body ?cb)\<lparr>cx_status := RECV_REQ_OVER\<rparr>, b')"
      "bf_inv b'" "content b' = rest"
    using RecvHttpRequest_ok [OF assms(8), of cx_new] s by (auto simp: refines_def)
  have "(add_body body ?cb)\<lparr>cx_status := RECV_REQ_OVER\<rparr> = \<lparr>cx_code = 200, cx_status = RECV_REQ_OVER,
      cx_req = rq_empty\<lparr>rq_method := m, rq_uri := u, rq_path := u, rq_http_version := v, rq_body := body,
        rq_headers := map_of (rev hs)\<rparr>\<rparr>"
    by (simp add: add_body_def set_headers_eq cx_new_def rq_empty_def)
  then show ?thesis
    using b' by metis
qed

text \<open>C12: a request that is printed is read back. For a method, a target and a version that are tokens,
  header lines that fit a line, and a body whose length the headers announce, the parser ends in
  the state \<open>RECV_REQ_OVER\<close> with exactly that method, path, version, headers and body, and leaves
  exactly the bytes that follow the request.\<close>

theorem parse_print_request:
  assumes "token m" "token u" "token v" "CHR ''?'' \<notin> set u" "length (print_line m u v) \<le> MaxLine"
    and "\<forall>h \<in> set hs. head_ok h"
    and "ContentLength (set_headers hs rq_empty) = Inr (int (length body))"
    and "bf_inv b" "content b = print_request m u v hs body @ rest"
  shows "\<exists>b' cx. RecvHttpRequest cx_new b = Inr (cx, b') \<and> bf_inv b' \<and> content b' = rest \<and>
    cx_status cx = RECV_REQ_OVER \<and> cx_code cx = 200 \<and> rq_method (cx_req cx) = m \<and> rq_path (cx_req cx) = u \<and>
    rq_http_version (cx_req cx) = v \<and> rq_body (cx_req cx) = body \<and> rq_headers (cx_req cx) = map_of (rev hs)"
  using parse_print_state [OF assms] by (auto simp: rq_empty_def)

lemma parse_print_request_witness:
  "\<exists>b. bf_inv b \<and> content b = print_request ''GET'' ''/a'' ''HTTP/1.1'' [(''Content-Length'', ''2'')] ''hi'' @ ''X'' \<and>
     (\<exists>b' cx. RecvHttpRequest cx_new b = Inr (cx, b') \<and> content b' = ''X'' \<and> rq_body (cx_req cx) = ''hi'')"
proof -
  let ?s = "print_request ''GET'' ''/a'' ''HTTP/1.1'' [(''Content-Length'', ''2'')] ''hi'' @ ''X''"
  have len: "length ?s < 1000"
    by (simp add: print_request_def print_line_def print_head_def crlf_def)
  then have "room bf_new (length ?s)"
    by (simp add: room_def bf_new_def default_size_def)
  from bs.app_ok [OF bf_new_inv(1) this] obtain b where b: "bf_inv b" "content b = ?s"
    by auto
  have t: "token ''GET''" "token ''/a''" "token ''HTTP/1.1''"
    by (simp_all add: token_def)
  have l: "length (print_line ''GET'' ''/a'' ''HTTP/1.1'') \<le> MaxLine"
    by (simp add: print_line_def crlf_def MaxLine_def)
  have h: "\<forall>h \<in> set [(''Content-Length'', ''2'')]. head_ok h"
    by (simp add: head_ok_def print_head_def crlf_def MaxLine_def)
  have c: "ContentLength (set_headers [(''Content-Length'', ''2'')] rq_empty) = Inr (int (length ''hi''))"
    by (simp add: ContentLength_def HasHeaders_def GetHeaders_def set_headers_eq rq_empty_def stoi_def isspace_def isdigit_def
        digits_value_def)
  from parse_print_request [OF t(1,2,3) _ l h c b] show ?thesis
    using b by auto
qed

text \<open>A \<open>Content-Length\<close> that is no number in the range of \<open>int\<close> makes the parser throw, for every
  request that gets as far as its body; no caller catches the exception.\<close>

theorem bad_length_throws:
  assumes "bf_inv b" "cx_status cx = RECV_REQ_BODY" "rq_headers (cx_req cx) ''Content-Length'' = Some s"
    and "stoi s = Inl StdException"
  shows "RecvHttpRequest cx b = Inl StdException"
proof -
  have "spec_recv cx (content b) = Inl StdException"
    using assms(2-4) by (simp add: spec_recv_def spec_body_def ContentLength_def HasHeaders_def GetHeaders_def)
  then show ?thesis
    using RecvHttpRequest_ok [OF assms(1), of cx] by (simp add: refines_def)
qed

lemma bad_length_throws_witness:
  "RecvHttpRequest (cx_new\<lparr>cx_status := RECV_REQ_BODY, cx_req := SetHeaders rq_empty ''Content-Length'' ''abc''\<rparr>) bf_new =
     Inl StdException"
  by (rule bad_length_throws [OF bf_new_inv(1), of _ "''abc''"])
    (simp_all add: SetHeaders_def stoi_def isspace_def isdigit_def)

end
