(* ===== verification/Http_Server.thy ===== *)
theory Http_Server
  imports Http_Context
begin

text \<open>
  \<open>HttpResponse\<close> and \<open>HttpServer\<close> of \<open>muduo/http/httpserver.hpp\<close>: the file handler, the routes, the
  response and the message callback. Route functions are functions on responses; the file system is
  a parameter, and so is the order in which the hash map of headers is printed. What the message
  callback does with its connection is a list of actions, in order.
\<close>

section \<open>Responses\<close>

record response =
  rs_code :: int
  rs_headers :: "string \<Rightarrow> string option"
  rs_body :: string
  rs_redirect_flag :: bool
  rs_redirect_uri :: string

definition rs_new :: "int \<Rightarrow> response" where
  "rs_new code = \<lparr>rs_code = code, rs_headers = Map.empty, rs_body = [], rs_redirect_flag = False, rs_redirect_uri = []\<rparr>"

definition rs_SetHeaders :: "response \<Rightarrow> string \<Rightarrow> string \<Rightarrow> response" where
  "rs_SetHeaders r key val = r\<lparr>rs_headers := (rs_headers r)(key \<mapsto> val)\<rparr>"

definition rs_HasHeaders :: "response \<Rightarrow> string \<Rightarrow> bool" where
  "rs_HasHeaders r key = (rs_headers r key \<noteq> None)"

definition rs_GetHeaders :: "response \<Rightarrow> string \<Rightarrow> string" where
  "rs_GetHeaders r key = (case rs_headers r key of None \<Rightarrow> [] | Some v \<Rightarrow> v)"

definition SetRedirect :: "response \<Rightarrow> string \<Rightarrow> int \<Rightarrow> response" where
  "SetRedirect r uri code = r\<lparr>rs_code := code, rs_redirect_flag := True, rs_redirect_uri := uri\<rparr>"

definition SetContent :: "response \<Rightarrow> string \<Rightarrow> string \<Rightarrow> response" where
  "SetContent r body type = rs_SetHeaders (r\<lparr>rs_body := body\<rparr>) ''Content-Type'' type"

definition rs_IsKeepAlive :: "response \<Rightarrow> bool" where
  "rs_IsKeepAlive r = (rs_HasHeaders r ''Connection'' \<and> rs_GetHeaders r ''Connection'' = ''keep-alive'')"

definition rs_Reset :: "response \<Rightarrow> response" where
  "rs_Reset r = r\<lparr>rs_code := 200, rs_headers := Map.empty, rs_body := [], rs_redirect_flag := False, rs_redirect_uri := []\<rparr>"

section \<open>The server\<close>

type_synonym route_func = "request \<Rightarrow> response \<Rightarrow> response"
type_synonym route_table = "(string \<times> route_func) list"

record http_server =
  hs_base_dir :: string
  hs_get_routes :: route_table
  hs_put_routes :: route_table
  hs_post_routes :: route_table
  hs_delete_routes :: route_table

definition hs_new :: "string \<Rightarrow> http_server" where
  "hs_new base_dir =
     (let d = (if base_dir \<noteq> [] \<and> last base_dir = CHR ''/'' then butlast base_dir else base_dir) in
      \<lparr>hs_base_dir = (if d = [] then ''.'' else d), hs_get_routes = [], hs_put_routes = [],
       hs_post_routes = [], hs_delete_routes = []\<rparr>)"

definition AddRoute :: "string \<Rightarrow> route_func \<Rightarrow> route_table \<Rightarrow> route_table" where
  "AddRoute pattern cb routes = routes @ [(pattern, cb)]"

definition hs_Get :: "http_server \<Rightarrow> string \<Rightarrow> route_func \<Rightarrow> http_server" where
  "hs_Get s pattern cb = s\<lparr>hs_get_routes := AddRoute pattern cb (hs_get_routes s)\<rparr>"

definition hs_Post :: "http_server \<Rightarrow> string \<Rightarrow> route_func \<Rightarrow> http_server" where
  "hs_Post s pattern cb = s\<lparr>hs_post_routes := AddRoute pattern cb (hs_post_routes s)\<rparr>"

definition hs_Put :: "http_server \<Rightarrow> string \<Rightarrow> route_func \<Rightarrow> http_server" where
  "hs_Put s pattern cb = s\<lparr>hs_put_routes := AddRoute pattern cb (hs_put_routes s)\<rparr>"

definition hs_Delete :: "http_server \<Rightarrow> string \<Rightarrow> route_func \<Rightarrow> http_server" where
  "hs_Delete s pattern cb = s\<lparr>hs_delete_routes := AddRoute pattern cb (hs_delete_routes s)\<rparr>"

definition BuildFilePath :: "http_server \<Rightarrow> string \<Rightarrow> string" where
  "BuildFilePath s path =
     (let n1 = (if path = [] then ''/'' else path);
          n2 = (if n1 = ''/'' then ''/index.html'' else n1);
          n3 = (if last n2 = CHR ''/'' then n2 @ ''index.html'' else n2)
      in hs_base_dir s @ n3)"

text \<open>\<open>std::to_string\<close>, and \<open>operator<<\<close> of an \<open>int\<close>.\<close>

fun digits :: "nat \<Rightarrow> string" where
  "digits n = (if n < 10 then [char_of (48 + n)] else digits (n div 10) @ [char_of (48 + n mod 10)])"

declare digits.simps [simp del]

definition to_string :: "int \<Rightarrow> string" where
  "to_string n = (if n < 0 then CHR ''-'' # digits (nat (- n)) else digits (nat n))"

definition MakeResponse :: "((string \<Rightarrow> string option) \<Rightarrow> (string \<times> string) list) \<Rightarrow> request \<Rightarrow> response \<Rightarrow> response \<times> string" where
  "MakeResponse order req resp =
     (let r1 = rs_SetHeaders resp ''Connection'' (if IsKeepAlive req then ''keep-alive'' else ''close'');
          r2 = (if rs_body r1 \<noteq> [] \<and> \<not> rs_HasHeaders r1 ''Content-Length''
                  then rs_SetHeaders r1 ''Content-Length'' (to_string (int (length (rs_body r1))))
                else if rs_body r1 = [] \<and> \<not> rs_HasHeaders r1 ''Content-Length''
                  then rs_SetHeaders r1 ''Content-Length'' ''0''
                else r1);
          r3 = (if rs_body r2 \<noteq> [] \<and> \<not> rs_HasHeaders r2 ''Content-Type''
                  then rs_SetHeaders r2 ''Content-Type'' ''application/octet-stream'' else r2);
          r4 = (if rs_redirect_flag r3 then rs_SetHeaders r3 ''Location'' (rs_redirect_uri r3) else r3);
          version = (if rq_http_version req = [] then ''HTTP/1.1'' else rq_http_version req)
      in (r4, version @ '' '' @ to_string (rs_code r4) @ '' '' @ GetStatusDesc (rs_code r4) @ crlf @
              concat (map print_head (order (rs_headers r4))) @ crlf @
              (if rq_method req \<noteq> ''HEAD'' then rs_body r4 else [])))"

section \<open>Files\<close>

definition with_index :: "file_system \<Rightarrow> string \<Rightarrow> string" where
  "with_index fs real_path = (if IsDirectory fs real_path then real_path @ ''/index.html'' else real_path)"

definition IsFileHandler :: "file_system \<Rightarrow> http_server \<Rightarrow> request \<Rightarrow> bool" where
  "IsFileHandler fs s req =
     (if rq_method req \<noteq> ''GET'' \<and> rq_method req \<noteq> ''HEAD'' then False
      else if rq_path req = [] \<or> \<not> IsValidPath (rq_path req) then False
      else IsRegular fs (with_index fs (BuildFilePath s (rq_path req))))"

definition FileHandler :: "file_system \<Rightarrow> http_server \<Rightarrow> request \<Rightarrow> response \<Rightarrow> response" where
  "FileHandler fs s req resp =
     (if \<not> IsValidPath (rq_path req) then resp\<lparr>rs_code := 403\<rparr>
      else
        let real_path = with_index fs (BuildFilePath s (rq_path req)) in
        if \<not> IsRegular fs real_path then resp\<lparr>rs_code := 404\<rparr>
        else case ReadFile fs real_path of
          None \<Rightarrow> resp\<lparr>rs_code := 500\<rparr>
        | Some body \<Rightarrow> SetContent (resp\<lparr>rs_code := 200\<rparr>) body (GetMime real_path))"

section \<open>Routes\<close>

text \<open>\<open>Split\<close> with the separator \<open>/\<close> always returns.\<close>

definition segments :: "string \<Rightarrow> string list" where
  "segments s = (case Split s ''/'' of None \<Rightarrow> [] | Some ss \<Rightarrow> ss)"

fun match_segments :: "string list \<Rightarrow> string list \<Rightarrow> (string \<Rightarrow> string option) \<Rightarrow> (string \<Rightarrow> string option) option" where
  "match_segments (p # ps) (s # ss) matched =
     (if length p > 1 \<and> hd p = CHR '':'' then match_segments ps ss (matched(tl p \<mapsto> UrlDecode s False))
      else if p \<noteq> s then None
      else match_segments ps ss matched)"
| "match_segments _ _ matched = Some matched"

definition MatchRoute :: "string \<Rightarrow> string \<Rightarrow> (string \<Rightarrow> string option) option" where
  "MatchRoute pattern path =
     (if length (segments pattern) \<noteq> length (segments path) then None
      else match_segments (segments pattern) (segments path) Map.empty)"

primrec param_route :: "route_table \<Rightarrow> request \<Rightarrow> (request \<times> route_func) option" where
  "param_route [] req = None"
| "param_route (r # routes) req =
     (if find_char (CHR '':'') (fst r) = None then param_route routes req
      else case MatchRoute (fst r) (rq_path req) of
        None \<Rightarrow> param_route routes req
      | Some params \<Rightarrow> Some (req\<lparr>rq_path_params := rq_path_params req ++ params\<rparr>, snd r))"

definition Dispatcher :: "request \<Rightarrow> response \<Rightarrow> route_table \<Rightarrow> response" where
  "Dispatcher req resp routes =
     (case find (\<lambda>r. fst r = rq_path req) routes of
        Some r \<Rightarrow> snd r req resp
      | None \<Rightarrow> (case param_route routes req of
          Some (req', cb) \<Rightarrow> cb req' resp
        | None \<Rightarrow> resp\<lparr>rs_code := 404\<rparr>))"

definition Route :: "file_system \<Rightarrow> http_server \<Rightarrow> request \<Rightarrow> response \<Rightarrow> response" where
  "Route fs s req resp =
     (if rq_path req = [] then resp\<lparr>rs_code := 400\<rparr>
      else if IsFileHandler fs s req then FileHandler fs s req resp
      else if rq_method req = ''GET'' \<or> rq_method req = ''HEAD'' then Dispatcher req resp (hs_get_routes s)
      else if rq_method req = ''POST'' then Dispatcher req resp (hs_post_routes s)
      else if rq_method req = ''PUT'' then Dispatcher req resp (hs_put_routes s)
      else if rq_method req = ''DELETE'' then Dispatcher req resp (hs_delete_routes s)
      else resp\<lparr>rs_code := 405\<rparr>)"

definition ErrorHandler :: "request \<Rightarrow> response \<Rightarrow> response" where
  "ErrorHandler req resp =
     SetContent resp
       (''<!DOCTYPE html><html lang='en'><head><meta charset='UTF-8'>'' @
        ''<meta name='viewport' content='width=device-width, initial-scale=1.0'>'' @
        ''<title>Error</title></head><body>'' @ to_string (rs_code resp) @ '': '' @
        GetStatusDesc (rs_code resp) @ ''</body></html>'')
       ''text/html; charset=utf-8''"

section \<open>The message callback\<close>

datatype action = SendAct string | ShutDownAct

definition respond :: "file_system \<Rightarrow> http_server \<Rightarrow> ((string \<Rightarrow> string option) \<Rightarrow> (string \<times> string) list) \<Rightarrow>
    request \<Rightarrow> response \<times> string" where
  "respond fs s order req =
     (let r1 = Route fs s req (rs_new 200);
          r2 = (if rs_code r1 \<ge> 400 \<and> rs_body r1 = [] then ErrorHandler req r1 else r1)
      in MakeResponse order req r2)"

primrec message_loop :: "nat \<Rightarrow> file_system \<Rightarrow> http_server \<Rightarrow> ((string \<Rightarrow> string option) \<Rightarrow> (string \<times> string) list) \<Rightarrow>
    http_context \<Rightarrow> buffer \<Rightarrow> (action list \<times> http_context \<times> buffer) res" where
  "message_loop 0 fs s order cx buf = Inl NoFuel"
| "message_loop (Suc fuel) fs s order cx buf =
     rbind (RecvHttpRequest cx buf) (\<lambda>(cx, buf).
       if cx_code cx \<ge> 400 then
         let payload = snd (MakeResponse order (cx_req cx) (ErrorHandler (cx_req cx) (rs_new (cx_code cx))))
         in Inr ([SendAct payload, ShutDownAct], cx, bf_clear buf)
       else if cx_status cx \<noteq> RECV_REQ_OVER then Inr ([], cx, buf)
       else
         let (resp, payload) = respond fs s order (cx_req cx); cx' = cx_Reset cx in
         if \<not> rs_IsKeepAlive resp then Inr ([SendAct payload, ShutDownAct], cx', buf)
         else if ReadableSize buf = 0 then Inr ([SendAct payload], cx', buf)
         else rbind (message_loop fuel fs s order cx' buf) (\<lambda>(acts, cx, buf).
           Inr (SendAct payload # acts, cx, buf)))"

text \<open>The context of a connection is made when there is none.\<close>

definition OnMessage :: "file_system \<Rightarrow> http_server \<Rightarrow> ((string \<Rightarrow> string option) \<Rightarrow> (string \<times> string) list) \<Rightarrow>
    http_context option \<Rightarrow> buffer \<Rightarrow> (action list \<times> http_context \<times> buffer) res" where
  "OnMessage fs s order cx buf =
     message_loop walk_fuel fs s order (case cx of None \<Rightarrow> cx_new | Some c \<Rightarrow> c) buf"

definition OnConnect :: http_context where
  "OnConnect = cx_new"

section \<open>Printed numbers\<close>

lemma isdigit_char: "k < 10 \<Longrightarrow> isdigit (char_of (48 + k)) \<and> (of_char (char_of (48 + k)) :: int) = 48 + int k"
proof -
  assume k: "k < 10"
  have v: "(of_char (char_of (48 + k) :: char) :: nat) = 48 + k"
    using k by simp
  have "(of_char (char_of (int (48 + k)) :: char) :: int) = int (48 + k) mod 256"
    by (rule of_char_of)
  then have "(of_char (char_of (48 + k) :: char) :: int) = 48 + int k"
    using k unfolding char_of_nat by simp
  then show ?thesis
    using k v by (simp add: isdigit_def)
qed

lemma digits_all: "\<forall>c \<in> set (digits n). isdigit c" "digits n \<noteq> []"
proof (induction n rule: digits.induct)
  case (1 n)
  show "\<forall>c \<in> set (digits n). isdigit c"
    using 1 isdigit_char [of n] isdigit_char [of "n mod 10"] by (subst digits.simps) auto
  show "digits n \<noteq> []"
    by (subst digits.simps) simp
qed

lemma digits_value_snoc: "digits_value (ds @ [c]) = digits_value ds * 10 + (of_char c - 48)"
  by (simp add: digits_value_def)

lemma digits_value_digits: "digits_value (digits n) = int n"
proof (induction n rule: digits.induct)
  case (1 n)
  show ?case
  proof (cases "n < 10")
    case True
    then show ?thesis
      using isdigit_char [of n] by (subst digits.simps) (simp add: digits_value_def)
  next
    case False
    have m: "(of_char (char_of (48 + n mod 10) :: char) :: int) = 48 + int (n mod 10)"
      using isdigit_char [of "n mod 10"] by simp
    have IH: "digits_value (digits (n div 10)) = int (n div 10)"
      using 1 False by simp
    have "digits_value (digits n) = int (n div 10) * 10 + int (n mod 10)"
      using False m by (subst digits.simps) (simp add: digits_value_snoc IH del: of_char_of)
    also have "\<dots> = int n"
      using div_mult_mod_eq [of n 10] by linarith
    finally show ?thesis .
  qed
qed

lemma stoi_digits:
  assumes "n \<le> 2147483647"
  shows "stoi (digits n) = Inr (int n)"
proof -
  obtain c cs where d: "digits n = c # cs"
    using digits_all(2) by (cases "digits n") auto
  have c: "isdigit c" "\<forall>c \<in> set (digits n). isdigit c"
    using digits_all(1) [of n] d by simp_all
  then have ns: "\<not> isspace c" "c \<noteq> CHR ''-''" "c \<noteq> CHR ''+''"
    by (auto simp: isdigit_def isspace_def Let_def)
  have "takeWhile isdigit (digits n) = digits n"
    using c(2) by simp
  then show ?thesis
    using assms ns d digits_value_digits [of n] by (simp add: stoi_def)
qed

section \<open>The paths that are read\<close>

lemma find_sub_slash: "find_sub ''/'' s = find_char (CHR ''/'') s"
  by (induction s) (auto simp: begins_def)

lemma Split_loop_slash: "Split_loop ''/'' s =
    (if s = [] then Some [] else case find_char (CHR ''/'') s of
       None \<Rightarrow> Some [s]
     | Some n \<Rightarrow> Option.bind (Split_loop ''/'' (drop (Suc n) s)) (\<lambda>ss. Some (take n s # ss)))"
  by (subst Split_loop.simps) (simp add: find_sub_slash split: option.split)

lemma find_char_append_Some: "find_char c xs = Some n \<Longrightarrow> find_char c (xs @ ys) = Some n"
  by (induction xs arbitrary: n) (auto split: if_splits)

lemma Split_loop_append:
  "Split_loop ''/'' (xs @ ''/'' @ ys) =
     Option.bind (Split_loop ''/'' (xs @ ''/'')) (\<lambda>ss. Option.bind (Split_loop ''/'' ys) (\<lambda>ts. Some (ss @ ts)))"
proof (induction xs rule: length_induct)
  case (1 xs)
  show ?case
  proof (cases "find_char (CHR ''/'') xs")
    case None
    then have "CHR ''/'' \<notin> set xs"
      by (induction xs) (auto split: if_splits)
    then have f: "find_char (CHR ''/'') (xs @ ''/'' @ ys) = Some (length xs)"
        "find_char (CHR ''/'') (xs @ ''/'') = Some (length xs)"
      using find_char_append [of "CHR ''/''" xs] by simp_all
    have e: "Split_loop ''/'' [] = Some []"
      by (subst Split_loop_slash) simp
    have "Split_loop ''/'' (xs @ ''/'') = Some [xs]"
      using f(2) e by (subst Split_loop_slash) simp
    moreover have "Split_loop ''/'' (xs @ ''/'' @ ys) = Option.bind (Split_loop ''/'' ys) (\<lambda>ss. Some (xs # ss))"
      using f(1) by (subst Split_loop_slash) simp
    ultimately show ?thesis
      by (cases "Split_loop ''/'' ys") simp_all
  next
    case (Some n)
    have n: "n < length xs"
      by (rule find_char_less [OF Some])
    let ?r = "drop (Suc n) xs"
    have IH: "Split_loop ''/'' (?r @ ''/'' @ ys) =
        Option.bind (Split_loop ''/'' (?r @ ''/'')) (\<lambda>ss. Option.bind (Split_loop ''/'' ys) (\<lambda>ts. Some (ss @ ts)))"
      using 1 n by simp
    have l: "Split_loop ''/'' (xs @ zs) = Option.bind (Split_loop ''/'' (?r @ zs)) (\<lambda>ss. Some (take n xs # ss))" for zs
      using find_char_append_Some [OF Some, of zs] n by (subst Split_loop_slash) auto
    show ?thesis
      unfolding l [of "''/'' @ ys"] l [of "''/''"] IH
      by (cases "Split_loop ''/'' (?r @ ''/'')"; cases "Split_loop ''/'' ys") simp_all
  qed
qed

lemma Split_total: "\<exists>ss. Split s ''/'' = Some ss"
  using Split_ok [of "''/''" s] by auto

lemma Split_slash: "Split s ''/'' = Split_loop ''/'' s"
  by (simp add: Split_def) (subst Split_loop_slash, simp)

lemma segments_eq: "Split s ''/'' = Some (segments s)"
  using Split_total [of s] by (auto simp: segments_def)

lemma segments_append: "segments (xs @ ''/'' @ ys) = segments (xs @ ''/'') @ segments ys"
proof -
  have "Split (xs @ ''/'' @ ys) ''/'' = Some (segments (xs @ ''/'') @ segments ys)"
    using Split_loop_append [of xs ys] segments_eq [of "xs @ ''/''"] segments_eq [of ys] by (simp only: Split_slash) simp
  then show ?thesis
    by (simp add: segments_def)
qed

lemma segments_slash: "segments (xs @ ''/'') = segments xs \<or> segments (xs @ ''/'') = segments xs @ [[]]"
proof (induction xs rule: length_induct)
  case (1 xs)
  have e: "Split_loop ''/'' [] = Some []"
    by (subst Split_loop_slash) simp
  show ?case
  proof (cases "find_char (CHR ''/'') xs")
    case None
    then have n: "CHR ''/'' \<notin> set xs"
      by (induction xs) (auto split: if_splits)
    then have "find_char (CHR ''/'') (xs @ ''/'') = Some (length xs)"
      using find_char_append [of "CHR ''/''" xs] by simp
    then have "Split_loop ''/'' (xs @ ''/'') = Some [xs]"
      using e by (subst Split_loop_slash) simp
    then show ?thesis
      using None by (simp add: segments_def Split_slash) (subst (1 2) Split_loop_slash, simp)
  next
    case (Some n)
    have n: "n < length xs"
      by (rule find_char_less [OF Some])
    let ?r = "drop (Suc n) xs"
    have l: "segments (xs @ zs) = take n xs # segments (?r @ zs)" for zs
    proof -
      have "Split_loop ''/'' (xs @ zs) = Option.bind (Split_loop ''/'' (?r @ zs)) (\<lambda>ss. Some (take n xs # ss))"
        using find_char_append_Some [OF Some, of zs] n by (subst Split_loop_slash) auto
      then have "Some (segments (xs @ zs)) = Some (take n xs # segments (?r @ zs))"
        using segments_eq [of "xs @ zs"] segments_eq [of "?r @ zs"] by (simp only: Split_slash) simp
      then show ?thesis by simp
    qed
    show ?thesis
      using 1 n l [of "''/''"] l [of "[]"] by auto
  qed
qed

lemma walk_append: "walk (xs @ ys) st = Option.bind (walk xs st) (walk ys)"
  by (induction xs arbitrary: st) (auto split: list.split)

lemma IsValidPath_walk: "IsValidPath s \<longleftrightarrow> walk (segments s) [] \<noteq> None"
  using valid_levels_walk [of "segments s" "[]"] segments_eq [of s] by (simp add: IsValidPath_def)

lemma walk_index: "walk [''index.html''] st = Some (''index.html'' # st)"
  by simp

lemma segments_index: "segments ''index.html'' = [''index.html'']"
  by (simp add: segments_def Split_slash) (subst Split_loop_slash, simp)

lemma valid_slash: "IsValidPath (xs @ ''/'') = IsValidPath xs"
  using segments_slash [of xs] by (cases "walk (segments xs) []") (auto simp: IsValidPath_walk walk_append)

lemma valid_index: "IsValidPath xs \<Longrightarrow> IsValidPath (xs @ ''/index.html'')"
  using segments_append [of xs "''index.html''"] valid_slash [of xs]
  by (simp add: IsValidPath_walk walk_append segments_index split: Option.bind_split)

text \<open>The normalised path of \<open>BuildFilePath\<close>.\<close>

lemma BuildFilePath_ok:
  assumes "IsValidPath path" "path \<noteq> []"
  shows "\<exists>q. BuildFilePath s path = hs_base_dir s @ q \<and> IsValidPath q \<and> (hd path = CHR ''/'' \<longrightarrow> hd q = CHR ''/'') \<and> q \<noteq> []"
proof (cases "path = ''/''")
  case True
  have "IsValidPath ''/index.html''"
    using valid_index [of "[]"] assms by (simp add: IsValidPath_walk segments_def Split_def)
  then show ?thesis
    using True by (simp add: BuildFilePath_def Let_def)
next
  case False
  show ?thesis
  proof (cases "last path = CHR ''/''")
    case True
    then have p: "path = butlast path @ ''/''"
      using assms(2) append_butlast_last_id [of path] by simp
    then have "IsValidPath (butlast path)"
      using assms(1) valid_slash [of "butlast path"] by simp
    then have "IsValidPath (path @ ''index.html'')"
      using valid_index [of "butlast path"] p by (metis append.assoc append_Cons append_Nil)
    then show ?thesis
      using False True assms(2) by (intro exI [of _ "path @ ''index.html''"]) (simp add: BuildFilePath_def)
  next
    case f: False
    then show ?thesis
      using False assms by (intro exI [of _ path]) (simp add: BuildFilePath_def)
  qed
qed

lemma with_index_ok:
  assumes "IsValidPath path" "path \<noteq> []"
  shows "\<exists>q. with_index fs (BuildFilePath s path) = hs_base_dir s @ q \<and> IsValidPath q \<and>
    (hd path = CHR ''/'' \<longrightarrow> hd q = CHR ''/'') \<and> q \<noteq> []"
proof -
  obtain q where q: "BuildFilePath s path = hs_base_dir s @ q" "IsValidPath q" "hd path = CHR ''/'' \<longrightarrow> hd q = CHR ''/''" "q \<noteq> []"
    using BuildFilePath_ok [OF assms] by blast
  show ?thesis
  proof (cases "IsDirectory fs (hs_base_dir s @ q)")
    case True
    then show ?thesis
      using q valid_index [OF q(2)] by (intro exI [of _ "q @ ''/index.html''"]) (simp add: with_index_def)
  next
    case False
    then show ?thesis
      using q by (intro exI [of _ q]) (simp add: with_index_def)
  qed
qed

section \<open>Matching a route\<close>

definition is_param :: "string \<Rightarrow> bool" where
  "is_param p \<longleftrightarrow> length p > 1 \<and> hd p = CHR '':''"

definition bindings :: "string list \<Rightarrow> string list \<Rightarrow> (string \<times> string) list" where
  "bindings ps ss = map (\<lambda>(p, s). (tl p, UrlDecode s False)) (filter (\<lambda>(p, s). is_param p) (zip ps ss))"

lemma match_segments_eq:
  "length ps = length ss \<Longrightarrow> match_segments ps ss m =
     (if \<forall>(p, s) \<in> set (zip ps ss). is_param p \<or> p = s then Some (m ++ map_of (rev (bindings ps ss))) else None)"
proof (induction ps ss arbitrary: m rule: list_induct2)
  case (Cons p ps s ss)
  have u: "m(tl p \<mapsto> UrlDecode s False) ++ map_of (rev (bindings ps ss)) =
      m ++ map_of (rev ((tl p, UrlDecode s False) # bindings ps ss))"
    by (auto simp: map_add_def fun_eq_iff split: option.split)
  show ?case
    using Cons.IH u by (auto simp: is_param_def bindings_def)
qed (simp add: bindings_def)

lemma MatchRoute_eq:
  "MatchRoute pattern path =
     (if length (segments pattern) = length (segments path) \<and>
         (\<forall>(p, s) \<in> set (zip (segments pattern) (segments path)). is_param p \<or> p = s)
      then Some (map_of (rev (bindings (segments pattern) (segments path)))) else None)"
  by (simp add: MatchRoute_def match_segments_eq)

section \<open>One message after the other\<close>

lemma rs_SetHeaders_simps [simp]:
  "rs_headers (rs_SetHeaders r k v) key = (if key = k then Some v else rs_headers r key)"
  "rs_body (rs_SetHeaders r k v) = rs_body r" "rs_code (rs_SetHeaders r k v) = rs_code r"
  "rs_redirect_flag (rs_SetHeaders r k v) = rs_redirect_flag r"
  by (simp_all add: rs_SetHeaders_def)

lemma maybe_header [simp]:
  "rs_headers (if c then rs_SetHeaders r k v else r) key = (if c \<and> key = k then Some v else rs_headers r key)"
  "rs_body (if c then rs_SetHeaders r k v else r) = rs_body r"
  "rs_redirect_flag (if c then rs_SetHeaders r k v else r) = rs_redirect_flag r"
  by simp_all

lemma maybe_length [simp]:
  "rs_headers (if c then rs_SetHeaders r k v else if d then rs_SetHeaders r k w else r) key =
     (if key = k \<and> c then Some v else if key = k \<and> d then Some w else rs_headers r key)"
  "rs_body (if c then rs_SetHeaders r k v else if d then rs_SetHeaders r k w else r) = rs_body r"
  "rs_redirect_flag (if c then rs_SetHeaders r k v else if d then rs_SetHeaders r k w else r) = rs_redirect_flag r"
  by simp_all

lemma MakeResponse_body: "rs_body (fst (MakeResponse order req resp)) = rs_body resp"
  by (simp add: MakeResponse_def Let_def del: if_split)

lemma MakeResponse_Connection:
  "rs_headers (fst (MakeResponse order req resp)) ''Connection'' = Some (if IsKeepAlive req then ''keep-alive'' else ''close'')"
  by (simp add: MakeResponse_def Let_def del: if_split)

lemma MakeResponse_Length:
  assumes "rs_headers resp ''Content-Length'' = None"
  shows "rs_headers (fst (MakeResponse order req resp)) ''Content-Length'' =
    Some (if rs_body resp = [] then ''0'' else to_string (int (length (rs_body resp))))"
  using assms by (simp add: MakeResponse_def Let_def rs_HasHeaders_def)

lemma rs_keep_alive: "rs_IsKeepAlive (fst (MakeResponse order req resp)) = IsKeepAlive req"
  by (simp add: rs_IsKeepAlive_def rs_HasHeaders_def rs_GetHeaders_def MakeResponse_Connection)

lemma respond_keep_alive: "rs_IsKeepAlive (fst (respond fs s order req)) = IsKeepAlive req"
  by (simp add: respond_def Let_def rs_keep_alive)

record message =
  ms_method :: string
  ms_uri :: string
  ms_headers :: "(string \<times> string) list"
  ms_body :: string

definition print_message :: "message \<Rightarrow> string" where
  "print_message x = print_request (ms_method x) (ms_uri x) ''HTTP/1.1'' (ms_headers x) (ms_body x)"

definition message_ok :: "message \<Rightarrow> bool" where
  "message_ok x \<longleftrightarrow> token (ms_method x) \<and> token (ms_uri x) \<and> CHR ''?'' \<notin> set (ms_uri x) \<and>
     length (print_line (ms_method x) (ms_uri x) ''HTTP/1.1'') \<le> MaxLine \<and> (\<forall>h \<in> set (ms_headers x). head_ok h) \<and>
     ContentLength (set_headers (ms_headers x) rq_empty) = Inr (int (length (ms_body x))) \<and>
     map_of (rev (ms_headers x)) ''Connection'' = None"

definition message_request :: "message \<Rightarrow> request" where
  "message_request x = rq_empty\<lparr>rq_method := ms_method x, rq_uri := ms_uri x, rq_path := ms_uri x,
     rq_http_version := ''HTTP/1.1'', rq_body := ms_body x, rq_headers := map_of (rev (ms_headers x))\<rparr>"

lemma message_keep_alive: "message_ok x \<Longrightarrow> IsKeepAlive (message_request x)"
  by (simp add: message_ok_def IsKeepAlive_def HasHeaders_def message_request_def)

lemma recv_message:
  assumes "message_ok x" "bf_inv b" "content b = print_message x @ rest"
  shows "\<exists>b'. RecvHttpRequest cx_new b = Inr (\<lparr>cx_code = 200, cx_status = RECV_REQ_OVER, cx_req = message_request x\<rparr>, b') \<and>
    bf_inv b' \<and> content b' = rest"
proof -
  have "token ''HTTP/1.1''"
    by (simp add: token_def)
  then show ?thesis
    using parse_print_state [of "ms_method x" "ms_uri x" "''HTTP/1.1''" "ms_headers x" "ms_body x" b rest] assms
    by (auto simp: message_ok_def print_message_def message_request_def)
qed

lemma message_loop_ok:
  assumes "\<forall>x \<in> set xs. message_ok x" "xs \<noteq> []" "bf_inv b" "content b = concat (map print_message xs)" "length xs \<le> fuel"
  shows "\<exists>b'. message_loop fuel fs s order cx_new b =
    Inr (map (\<lambda>x. SendAct (snd (respond fs s order (message_request x)))) xs, cx_new, b') \<and> bf_inv b' \<and> content b' = []"
  using assms
proof (induction xs arbitrary: b fuel)
  case (Cons x xs)
  obtain fuel' where fuel: "fuel = Suc fuel'"
    using Cons.prems(5) by (cases fuel) simp_all
  let ?cx = "\<lparr>cx_code = 200, cx_status = RECV_REQ_OVER, cx_req = message_request x\<rparr>"
  obtain b1 where b1: "RecvHttpRequest cx_new b = Inr (?cx, b1)" "bf_inv b1" "content b1 = concat (map print_message xs)"
    using recv_message [of x b "concat (map print_message xs)"] Cons.prems by auto
  have r: "cx_Reset ?cx = cx_new"
    by (simp add: cx_Reset_def cx_new_def rq_Reset_def rq_empty_def message_request_def)
  obtain resp payload where p: "respond fs s order (message_request x) = (resp, payload)"
    by (cases "respond fs s order (message_request x)")
  have k: "rs_IsKeepAlive resp"
    using respond_keep_alive [of fs s order "message_request x"] message_keep_alive [of x] Cons.prems(1) p by simp
  show ?case
  proof (cases "xs = []")
    case True
    have "ReadableSize b1 = 0"
      using ReadableSize_content [OF b1(2)] b1(3) True by (simp add: unat_eq_zero)
    then show ?thesis
      using b1 r p k fuel True by simp
  next
    case False
    have "print_message (hd xs) \<noteq> []"
      by (simp add: print_message_def print_request_def crlf_def)
    then have "content b1 \<noteq> []"
      using b1(3) False by (cases xs) simp_all
    then have n: "ReadableSize b1 \<noteq> 0"
      using ReadableSize_content [OF b1(2)] by (metis length_0_conv unat_0)
    obtain b2 where "message_loop fuel' fs s order cx_new b1 =
        Inr (map (\<lambda>x. SendAct (snd (respond fs s order (message_request x)))) xs, cx_new, b2)" "bf_inv b2" "content b2 = []"
      using Cons.IH [of b1 fuel'] Cons.prems b1 False fuel by auto
    then show ?thesis
      using b1 r p k fuel n by simp
  qed
qed simp

section \<open>Properties\<close>

text \<open>C10: requests that arrive together are answered one by one: for any non-empty list of well-formed
  HTTP/1.1 requests without a \<open>Connection\<close> header in the buffer, the message callback returns, sends
  exactly the response of each request, in order, and nothing else, and leaves an empty buffer and a
  fresh parser.\<close>

theorem pipelined_requests_answered:
  assumes "\<forall>x \<in> set xs. message_ok x" "xs \<noteq> []" "bf_inv b" "content b = concat (map print_message xs)"
  shows "\<exists>b'. OnMessage fs s order None b =
    Inr (map (\<lambda>x. SendAct (snd (respond fs s order (message_request x)))) xs, cx_new, b') \<and> bf_inv b' \<and> content b' = []"
proof -
  have "length xs \<le> length (content b)"
  proof -
    have one: "1 \<le> length (print_message x)" for x
      by (simp add: print_message_def print_request_def crlf_def)
    have "length xs \<le> sum_list (map (length \<circ> print_message) xs)"
    proof (induction xs)
      case (Cons x xs)
      then show ?case
        using one [of x] by simp
    qed simp
    then show ?thesis
      using assms(4) by (simp add: length_concat comp_def)
  qed
  then have "length xs \<le> walk_fuel"
    using bf_invD(2,3,7) [OF assms(3)] by (simp add: walk_fuel_def)
  then show ?thesis
    using message_loop_ok [OF assms, of walk_fuel fs s order] by (simp add: OnMessage_def)
qed

definition demo_message :: message where
  "demo_message = \<lparr>ms_method = ''GET'', ms_uri = ''/'', ms_headers = [], ms_body = []\<rparr>"

lemma demo_message_ok: "message_ok demo_message"
  by (simp add: message_ok_def demo_message_def token_def print_line_def crlf_def MaxLine_def set_headers_def
      ContentLength_def HasHeaders_def rq_empty_def)

definition fs_demo :: file_system where
  "fs_demo = \<lparr>fs_stat = (\<lambda>f. if f = ''./index.html'' \<or> f = ''../secret'' then Some Reg else None),
     fs_open = (\<lambda>f. if f = ''../secret'' then Some ''key'' else if f = ''./index.html'' then Some ''hi'' else None)\<rparr>"

definition order_demo :: "(string \<Rightarrow> string option) \<Rightarrow> (string \<times> string) list" where
  "order_demo h = concat (map (\<lambda>k. case h k of None \<Rightarrow> [] | Some v \<Rightarrow> [(k, v)])
     [''Connection'', ''Content-Length'', ''Content-Type'', ''Location''])"

lemma pipelined_requests_answered_witness:
  "\<exists>b b' p. content b = print_message demo_message @ print_message demo_message \<and>
     OnMessage fs_demo (hs_new ''.'') order_demo None b = Inr ([SendAct p, SendAct p], cx_new, b')"
proof -
  let ?s = "print_message demo_message @ print_message demo_message"
  have "length ?s < 1000"
    by (simp add: print_message_def demo_message_def print_request_def print_line_def crlf_def)
  then have "room bf_new (length ?s)"
    by (simp add: room_def bf_new_def default_size_def)
  from bs.app_ok [OF bf_new_inv(1) this] obtain b where b: "bf_inv b" "content b = ?s"
    by auto
  have "content b = concat (map print_message [demo_message, demo_message])"
    using b(2) by simp
  from pipelined_requests_answered [OF _ _ b(1) this, of fs_demo "hs_new ''.''" order_demo] show ?thesis
    using b(2) demo_message_ok by auto
qed

lemma segments_root: "segments (CHR ''/'' # xs) = [] # segments xs"
proof -
  have "segments ''/'' = [[]]"
    by (simp add: segments_def Split_slash) (subst Split_loop_slash, simp, subst Split_loop_slash, simp)
  then show ?thesis
    using segments_append [of "[]" xs] by simp
qed

lemma segments_up: "segments (''../'' @ xs) = ''..'' # segments xs"
proof -
  have "segments ''../'' = [''..'']"
    by (simp add: segments_def Split_slash) (subst Split_loop_slash, simp, subst Split_loop_slash, simp)
  then show ?thesis
    using segments_append [of "''..''" xs] by simp
qed

text \<open>C15: no file above the base directory is opened for a path with a leading slash. Such a request counts as a
  request for a file only if the name to open is the base directory, a slash and a path that, read segment
  by segment, never steps above where it started; the handler then reads exactly that file.\<close>

theorem file_below_base:
  assumes "IsFileHandler fs s req" "hd (rq_path req) = CHR ''/''"
  shows "\<exists>q dirs. with_index fs (BuildFilePath s (rq_path req)) = hs_base_dir s @ ''/'' @ q \<and>
    walk (segments q) [] = Some dirs \<and>
    FileHandler fs s req resp = (case ReadFile fs (hs_base_dir s @ ''/'' @ q) of
       None \<Rightarrow> resp\<lparr>rs_code := 500\<rparr>
     | Some body \<Rightarrow> SetContent (resp\<lparr>rs_code := 200\<rparr>) body (GetMime (hs_base_dir s @ ''/'' @ q)))"
proof -
  have v: "IsValidPath (rq_path req)" "rq_path req \<noteq> []" "IsRegular fs (with_index fs (BuildFilePath s (rq_path req)))"
    using assms(1) by (simp_all add: IsFileHandler_def split: if_splits)
  obtain p where "with_index fs (BuildFilePath s (rq_path req)) = hs_base_dir s @ p" "IsValidPath p"
      "hd p = CHR ''/''" "p \<noteq> []"
    using with_index_ok [OF v(1,2), of fs s] assms(2) by blast
  then obtain q where q: "with_index fs (BuildFilePath s (rq_path req)) = hs_base_dir s @ ''/'' @ q"
      "IsValidPath (''/'' @ q)"
    by (cases p) auto
  then obtain dirs where "walk (segments q) [] = Some dirs"
    by (auto simp: IsValidPath_walk segments_root)
  moreover have "FileHandler fs s req resp = (case ReadFile fs (hs_base_dir s @ ''/'' @ q) of
       None \<Rightarrow> resp\<lparr>rs_code := 500\<rparr>
     | Some body \<Rightarrow> SetContent (resp\<lparr>rs_code := 200\<rparr>) body (GetMime (hs_base_dir s @ ''/'' @ q)))"
    using v(1,3) unfolding FileHandler_def Let_def q(1) by simp
  ultimately show ?thesis
    using q(1) by blast
qed

lemma file_below_base_witness:
  "\<exists>q dirs. with_index fs_demo (BuildFilePath (hs_new ''.'') ''/'') = ''.'' @ ''/'' @ q \<and> walk (segments q) [] = Some dirs \<and>
     rs_body (FileHandler fs_demo (hs_new ''.'') (message_request demo_message) (rs_new 200)) = ''hi''"
proof -
  have "IsValidPath ''/''"
    using valid_slash [of "[]"] by (simp add: IsValidPath_walk segments_def Split_def)
  then have h: "IsFileHandler fs_demo (hs_new ''.'') (message_request demo_message)"
    by (simp add: IsFileHandler_def message_request_def demo_message_def hs_new_def BuildFilePath_def with_index_def
        IsDirectory_def IsRegular_def fs_demo_def)
  have p: "rq_path (message_request demo_message) = ''/''"
    by (simp add: message_request_def demo_message_def)
  then have "hd (rq_path (message_request demo_message)) = CHR ''/''"
    by simp
  note t = file_below_base [OF h this, of "rs_new 200"]
  have b: "hs_base_dir (hs_new ''.'') = ''.''"
    by (simp add: hs_new_def)
  obtain q dirs where q: "with_index fs_demo (BuildFilePath (hs_new ''.'') ''/'') = ''.'' @ ''/'' @ q"
      "walk (segments q) [] = Some dirs"
      "FileHandler fs_demo (hs_new ''.'') (message_request demo_message) (rs_new 200) =
         (case ReadFile fs_demo (''.'' @ ''/'' @ q) of
            None \<Rightarrow> (rs_new 200)\<lparr>rs_code := 500\<rparr>
          | Some body \<Rightarrow> SetContent ((rs_new 200)\<lparr>rs_code := 200\<rparr>) body (GetMime (''.'' @ ''/'' @ q)))"
    using t unfolding p b by (elim exE conjE)
  have "with_index fs_demo (BuildFilePath (hs_new ''.'') ''/'') = ''./index.html''"
    by (simp add: hs_new_def BuildFilePath_def with_index_def IsDirectory_def fs_demo_def)
  then have "q = ''index.html''"
    using q(1) by simp
  then show ?thesis
    using q by (simp add: ReadFile_def fs_demo_def SetContent_def rs_SetHeaders_def rs_new_def)
qed

text \<open>C21: for a path without a leading slash the check does not keep the request below the base directory. The path is
  glued to the last name of the base, so that the answer is any readable file whose name begins with that of the base;
  with the base \<open>.\<close> a request for \<open>./\<close> and a path is answered with the file \<open>../\<close> and that path, which
  steps above the base directory.\<close>

theorem path_escapes_base:
  assumes "rq_method req = ''GET'' \<or> rq_method req = ''HEAD''"
    and "rq_path req \<noteq> []" "hd (rq_path req) \<noteq> CHR ''/''" "last (rq_path req) \<noteq> CHR ''/''" "IsValidPath (rq_path req)"
    and "IsRegular fs (hs_base_dir s @ rq_path req)" "\<not> IsDirectory fs (hs_base_dir s @ rq_path req)"
    and "ReadFile fs (hs_base_dir s @ rq_path req) = Some body"
  shows "Route fs s req resp = SetContent (resp\<lparr>rs_code := 200\<rparr>) body (GetMime (hs_base_dir s @ rq_path req)) \<and>
    (\<forall>q. hs_base_dir s @ rq_path req \<noteq> hs_base_dir s @ ''/'' @ q) \<and>
    (\<forall>x. hs_base_dir s = ''.'' \<and> rq_path req = ''./'' @ x \<longrightarrow>
       hs_base_dir s @ rq_path req = ''../'' @ x \<and> walk (segments (''../'' @ x)) [] = None)"
proof -
  have "rq_path req \<noteq> ''/''"
    using assms(3) by auto
  then have "BuildFilePath s (rq_path req) = hs_base_dir s @ rq_path req"
    using assms(2,4) by (simp add: BuildFilePath_def)
  then have w: "with_index fs (BuildFilePath s (rq_path req)) = hs_base_dir s @ rq_path req"
    using assms(7) by (simp add: with_index_def)
  then have "Route fs s req resp = SetContent (resp\<lparr>rs_code := 200\<rparr>) body (GetMime (hs_base_dir s @ rq_path req))"
    using assms by (auto simp: Route_def IsFileHandler_def FileHandler_def Let_def)
  moreover have "rq_path req \<noteq> ''/'' @ q" for q
    using assms(3) by auto
  ultimately show ?thesis
    by (simp only: append_same_eq same_append_eq segments_up) simp
qed

lemma path_escapes_base_witness:
  "rs_body (Route fs_demo (hs_new ''.'') ((message_request demo_message)\<lparr>rq_path := ''./secret''\<rparr>) (rs_new 200)) = ''key'' \<and>
   IsValidPath ''./secret'' \<and> walk (segments ''../secret'') [] = None"
proof -
  let ?req = "(message_request demo_message)\<lparr>rq_path := ''./secret''\<rparr>"
  have "segments ''./secret'' = [''.'', ''secret'']"
    by (simp add: segments_def Split_slash) (subst Split_loop_slash, simp, subst Split_loop_slash, simp)
  then have v: "IsValidPath ''./secret''"
    by (simp add: IsValidPath_walk)
  have b: "hs_base_dir (hs_new ''.'') = ''.''"
    by (simp add: hs_new_def)
  have "Route fs_demo (hs_new ''.'') ?req (rs_new 200) =
      SetContent ((rs_new 200)\<lparr>rs_code := 200\<rparr>) ''key'' (GetMime (hs_base_dir (hs_new ''.'') @ rq_path ?req)) \<and>
    (\<forall>q. hs_base_dir (hs_new ''.'') @ rq_path ?req \<noteq> hs_base_dir (hs_new ''.'') @ ''/'' @ q) \<and>
    (\<forall>x. hs_base_dir (hs_new ''.'') = ''.'' \<and> rq_path ?req = ''./'' @ x \<longrightarrow>
       hs_base_dir (hs_new ''.'') @ rq_path ?req = ''../'' @ x \<and> walk (segments (''../'' @ x)) [] = None)"
    using v by (intro path_escapes_base)
      (simp_all add: b message_request_def demo_message_def IsRegular_def IsDirectory_def ReadFile_def fs_demo_def)
  then show ?thesis
    using v b by (simp add: SetContent_def rs_SetHeaders_def rs_new_def)
qed

text \<open>A response announces what it carries. Unless the handler set its own \<open>Content-Length\<close>, the header
  that is sent reads back as the length of the body, and \<open>Connection\<close> says whether the request asked to
  keep the connection.\<close>

theorem response_announces_body:
  assumes "rs_headers resp ''Content-Length'' = None" "length (rs_body resp) \<le> 2147483647"
  shows "\<exists>v. rs_headers (fst (MakeResponse order req resp)) ''Content-Length'' = Some v \<and>
    stoi v = Inr (int (length (rs_body (fst (MakeResponse order req resp))))) \<and>
    rs_IsKeepAlive (fst (MakeResponse order req resp)) = IsKeepAlive req"
proof -
  have z: "stoi ''0'' = Inr 0"
    by (simp add: stoi_def isspace_def isdigit_def digits_value_def)
  show ?thesis
    using MakeResponse_Length [OF assms(1)] MakeResponse_body z stoi_digits [OF assms(2)] rs_keep_alive
    by (simp add: to_string_def)
qed

lemma response_announces_body_witness:
  "\<exists>v. rs_headers (fst (MakeResponse order rq_empty (SetContent (rs_new 200) ''hi'' ''text/plain''))) ''Content-Length'' = Some v \<and>
     stoi v = Inr 2"
proof -
  let ?r = "SetContent (rs_new 200) ''hi'' ''text/plain''"
  have "rs_headers ?r ''Content-Length'' = None" "rs_body ?r = ''hi''"
    by (simp_all add: SetContent_def rs_new_def)
  then show ?thesis
    using response_announces_body [of ?r order rq_empty] MakeResponse_body [of order rq_empty ?r] by auto
qed

text \<open>A route pattern matches a path exactly when both have the same number of segments and every
  segment of the pattern that is not a parameter equals the path's; the parameters are then bound to
  the decoded segments in their places, a later one with the same name winning.\<close>

theorem MatchRoute_reference:
  "MatchRoute pattern path =
     (if length (segments pattern) = length (segments path) \<and>
         (\<forall>(p, s) \<in> set (zip (segments pattern) (segments path)). is_param p \<or> p = s)
      then Some (map_of (rev (bindings (segments pattern) (segments path)))) else None)"
  by (rule MatchRoute_eq)

lemma MatchRoute_reference_witness: "MatchRoute ''a'' ''b'' = None"
proof -
  have "segments ''a'' = [''a'']" "segments ''b'' = [''b'']"
    by (simp_all add: segments_def Split_slash) (subst Split_loop_slash, simp)+
  then show ?thesis
    using MatchRoute_reference [of "''a''" "''b''"] by (simp add: is_param_def)
qed

end
