(* ===== verification/Bounded_Queue.thy ===== *)
theory Bounded_Queue
  imports Prelude
begin

text \<open>
  The bounded queues between producer and consumer threads: the blocking queue with a mutex and
  two condition variables (\<open>src/os/thread/BlockingQueue.h\<close>, the same code as
  \<open>src/Test_11_27_Block_CP/BlockQueue.hpp\<close>) and the ring with two semaphores and two mutexes
  (\<open>src/Test_11_28_ThreadPool_Semph/semph/Semaphore_CP.hpp\<close>).

  The threads interleave: a state keeps the place at which each thread stands in its call, and a
  step lets one thread run to the next place at which another one can act. A section under a mutex
  is one step when every access to what it touches is under the same mutex. A step carries the values it puts
  into the queue and the values it takes out, so that a run yields the history of both ends. The
  contract of the two queues is the locale \<open>fifo_queue\<close>.

  \<open>pthread_cond_signal\<close> is as POSIX documents it: it wakes at least one of the threads that wait on the
  condition variable, none if none waits, and a thread may also wake up without a signal.
  \<open>sem_wait\<close> passes when the semaphore is positive and takes one from it, \<open>sem_post\<close> adds one.
\<close>

section \<open>Runs of a queue\<close>

type_synonym tid = nat

inductive q_run :: "('s \<Rightarrow> 'v list \<Rightarrow> 'v list \<Rightarrow> 's \<Rightarrow> bool) \<Rightarrow> 's \<Rightarrow> 'v list \<Rightarrow> 'v list \<Rightarrow> 's \<Rightarrow> bool"
  for step where
  q_refl: "q_run step s [] [] s"
| q_step: "q_run step s xs ys s1 \<Longrightarrow> step s1 x y s2 \<Longrightarrow> q_run step s (xs @ x) (ys @ y) s2"

lemma q_run_step1: "step s x y s' \<Longrightarrow> q_run step s x y s'"
  using q_step [OF q_refl, of step s x y s'] by simp

lemma q_step_silent: "q_run step s xs ys s1 \<Longrightarrow> step s1 [] [] s2 \<Longrightarrow> q_run step s xs ys s2"
  using q_step [of step s xs ys s1 "[]" "[]" s2] by simp

lemma q_run_trans:
  assumes "q_run step s1 xs' ys' s2" "q_run step s xs ys s1"
  shows "q_run step s (xs @ xs') (ys @ ys') s2"
  using assms
proof (induction rule: q_run.induct)
  case (q_step s xs1 ys1 s1 x y s2)
  then show ?case
    using q_run.q_step [of step _ "xs @ xs1" "ys @ ys1" s1 x y s2] by simp
qed simp

text \<open>What a queue promises: an invariant under which no step loses, repeats or reorders a value.\<close>

locale fifo_steps =
  fixes inv :: "'s \<Rightarrow> bool"
    and step :: "'s \<Rightarrow> 'v list \<Rightarrow> 'v list \<Rightarrow> 's \<Rightarrow> bool"
    and content :: "'s \<Rightarrow> 'v list"
  assumes inv_step: "inv s \<Longrightarrow> step s x y s' \<Longrightarrow> inv s'"
    and content_step: "inv s \<Longrightarrow> step s x y s' \<Longrightarrow> y @ content s' = content s @ x"
begin

lemma run_ok:
  assumes "q_run step s xs ys s'" "inv s"
  shows "inv s' \<and> ys @ content s' = content s @ xs"
  using assms
proof (induction rule: q_run.induct)
  case (q_step s xs ys s1 x y s2)
  then have i: "inv s1" and c: "ys @ content s1 = content s @ xs"
    by simp_all
  have "(ys @ y) @ content s2 = ys @ (content s1 @ x)"
    using content_step [OF i q_step.hyps(2)] by simp
  also have "\<dots> = content s @ xs @ x"
    using c by (metis append.assoc)
  finally show ?case
    using inv_step [OF i q_step.hyps(2)] by simp
qed simp

lemma run_fifo:
  assumes "q_run step s xs ys s'" "inv s" "content s = []"
  shows "xs = ys @ content s'"
  using run_ok [OF assms(1,2)] assms(3) by simp

end

text \<open>A bounded queue also keeps a capacity and never holds more.\<close>

locale fifo_queue = fifo_steps inv step content
  for inv :: "'s \<Rightarrow> bool"
    and step :: "'s \<Rightarrow> 'v list \<Rightarrow> 'v list \<Rightarrow> 's \<Rightarrow> bool"
    and content :: "'s \<Rightarrow> 'v list" +
  fixes capacity :: "'s \<Rightarrow> nat"
  assumes capacity_step: "inv s \<Longrightarrow> step s x y s' \<Longrightarrow> capacity s' = capacity s"
    and content_fits: "inv s \<Longrightarrow> length (content s) \<le> capacity s"
begin

lemma run_capacity:
  assumes "q_run step s xs ys s'" "inv s"
  shows "capacity s' = capacity s"
  using assms
proof (induction rule: q_run.induct)
  case (q_step s xs ys s1 x y s2)
  then show ?case
    using run_ok [OF q_step.hyps(1)] capacity_step [OF _ q_step.hyps(2)] by simp
qed simp

lemma run_fits:
  assumes "q_run step s xs ys s'" "inv s"
  shows "length (content s') \<le> capacity s"
  using run_capacity [OF assms] run_ok [OF assms] content_fits [of s'] by simp

end

section \<open>Counting threads\<close>

text \<open>How many threads stand at places with a property. A run has finitely many threads in calls.\<close>

definition at :: "('p \<Rightarrow> bool) \<Rightarrow> (tid \<Rightarrow> 'p) \<Rightarrow> tid set" where
  "at P pc = {t. P (pc t)}"

lemma at_upd: "at P (pc(t := p)) = (if P p then insert t (at P pc) else at P pc - {t})"
  by (auto simp: at_def)

lemma card_at_upd:
  assumes "finite (at P pc)"
  shows "card (at P (pc(t := p))) + (if P (pc t) then 1 else 0) = card (at P pc) + (if P p then 1 else 0)"
proof (cases "P (pc t)")
  case True
  then have "t \<in> at P pc"
    by (simp add: at_def)
  then have "card (at P pc) = Suc (card (at P pc - {t}))"
    using card.remove [OF assms] by simp
  then show ?thesis
    using True \<open>t \<in> at P pc\<close> by (simp add: at_upd insert_absorb)
next
  case False
  then have "t \<notin> at P pc"
    by (simp add: at_def)
  then show ?thesis
    using False assms by (simp add: at_upd)
qed

lemma finite_at_upd [simp]: "finite (at P pc) \<Longrightarrow> finite (at P (pc(t := p)))"
  by (simp add: at_upd)

lemma at_empty_iff: "at P pc = {} \<longleftrightarrow> (\<forall>t. \<not> P (pc t))"
  by (auto simp: at_def)

text \<open>\<open>pthread_cond_signal\<close> wakes the threads \<open>W\<close> of those that wait.\<close>

definition signalled :: "tid set \<Rightarrow> tid set \<Rightarrow> bool" where
  "signalled W waiting \<longleftrightarrow> W \<subseteq> waiting \<and> (waiting \<noteq> {} \<longrightarrow> W \<noteq> {})"

section \<open>The blocking queue\<close>

text \<open>
  A thread is outside (\<open>Idle\<close>), about to take the mutex in \<open>Push\<close> or \<open>Pop\<close>, for the first time or after it
  has been woken (\<open>Pushing\<close>, \<open>Popping\<close>), or waits on \<open>_cond_p\<close> or \<open>_cond_c\<close> (\<open>PushWait\<close>, \<open>PopWait\<close>). A section
  under the mutex ends when the mutex is given back, by \<open>pthread_cond_wait\<close> or by the unlock.
\<close>

datatype 'v bq_pc = Idle | Pushing 'v | PushWait 'v | Popping | PopWait

record 'v block_queue =
  bq_items :: "'v list"
  bq_max :: nat
  bq_pc :: "tid \<Rightarrow> 'v bq_pc"

definition bq_new :: "nat \<Rightarrow> 'v block_queue" where
  "bq_new max_capacity = \<lparr>bq_items = [], bq_max = max_capacity, bq_pc = (\<lambda>_. Idle)\<rparr>"

definition IsFull :: "'v block_queue \<Rightarrow> bool" where
  "IsFull q = (length (bq_items q) = bq_max q)"

definition IsEmpty :: "'v block_queue \<Rightarrow> bool" where
  "IsEmpty q = (length (bq_items q) = 0)"

abbreviation goto :: "tid \<Rightarrow> 'v bq_pc \<Rightarrow> 'v block_queue \<Rightarrow> 'v block_queue" where
  "goto t p q \<equiv> q\<lparr>bq_pc := (bq_pc q)(t := p)\<rparr>"

primrec push_waits :: "'v bq_pc \<Rightarrow> bool" where
  "push_waits Idle = False" | "push_waits (Pushing v) = False" | "push_waits (PushWait v) = True"
| "push_waits Popping = False" | "push_waits PopWait = False"

primrec pushes :: "'v bq_pc \<Rightarrow> bool" where
  "pushes Idle = False" | "pushes (Pushing v) = True" | "pushes (PushWait v) = False"
| "pushes Popping = False" | "pushes PopWait = False"

primrec wake_up :: "'v bq_pc \<Rightarrow> 'v bq_pc" where
  "wake_up Idle = Idle" | "wake_up (Pushing v) = Pushing v" | "wake_up (PushWait v) = Pushing v"
| "wake_up Popping = Popping" | "wake_up PopWait = Popping"

definition wake :: "tid set \<Rightarrow> 'v block_queue \<Rightarrow> 'v block_queue" where
  "wake W q = q\<lparr>bq_pc := (\<lambda>t. if t \<in> W then wake_up (bq_pc q t) else bq_pc q t)\<rparr>"

text \<open>\<open>Push\<close> and \<open>Pop\<close> under the mutex: the value goes in or the thread waits. \<open>W\<close> are the threads the
  signal wakes. \<open>Pop\<close> also yields the value that is written to \<open>*task\<close>.\<close>

definition Push :: "tid \<Rightarrow> 'v \<Rightarrow> tid set \<Rightarrow> 'v block_queue \<Rightarrow> 'v block_queue" where
  "Push t task W q =
     (if IsFull q then goto t (PushWait task) q
      else goto t Idle (wake W (q\<lparr>bq_items := bq_items q @ [task]\<rparr>)))"

definition Pop :: "tid \<Rightarrow> tid set \<Rightarrow> 'v block_queue \<Rightarrow> 'v option \<times> 'v block_queue" where
  "Pop t W q =
     (if IsEmpty q then (None, goto t PopWait q)
      else (Some (hd (bq_items q)), goto t Idle (wake W (q\<lparr>bq_items := tl (bq_items q)\<rparr>))))"

definition consumers :: "'v block_queue \<Rightarrow> tid set" where
  "consumers q = at (\<lambda>p. p = PopWait) (bq_pc q)"

definition producers :: "'v block_queue \<Rightarrow> tid set" where
  "producers q = at push_waits (bq_pc q)"

inductive bq_step :: "'v block_queue \<Rightarrow> 'v list \<Rightarrow> 'v list \<Rightarrow> 'v block_queue \<Rightarrow> bool" where
  call_push: "bq_pc q t = Idle \<Longrightarrow> bq_step q [] [] (goto t (Pushing v) q)"
| call_pop: "bq_pc q t = Idle \<Longrightarrow> bq_step q [] [] (goto t Popping q)"
| push: "bq_pc q t = Pushing v \<Longrightarrow> signalled W (consumers q) \<Longrightarrow>
    bq_step q (if IsFull q then [] else [v]) [] (Push t v W q)"
| pop: "bq_pc q t = Popping \<Longrightarrow> signalled W (producers q) \<Longrightarrow> Pop t W q = (r, q') \<Longrightarrow>
    bq_step q [] (case r of None \<Rightarrow> [] | Some v \<Rightarrow> [v]) q'"
| spurious: "bq_step q [] [] (wake {t} q)"

text \<open>
  The queue is within its bound, finitely many threads are in calls, and no wake-up is lost: while a
  producer waits there are at least as many producers awake as there are free places, and while a
  consumer waits at least as many consumers awake as there are values.
\<close>

definition awake_producers :: "'v block_queue \<Rightarrow> tid set" where
  "awake_producers q = at pushes (bq_pc q)"

definition awake_consumers :: "'v block_queue \<Rightarrow> tid set" where
  "awake_consumers q = at (\<lambda>p. p = Popping) (bq_pc q)"

definition bq_inv :: "'v block_queue \<Rightarrow> bool" where
  "bq_inv q \<longleftrightarrow> length (bq_items q) \<le> bq_max q \<and> finite (at (\<lambda>p. p \<noteq> Idle) (bq_pc q)) \<and>
     (producers q \<noteq> {} \<longrightarrow> bq_max q - length (bq_items q) \<le> card (awake_producers q)) \<and>
     (consumers q \<noteq> {} \<longrightarrow> length (bq_items q) \<le> card (awake_consumers q))"

lemmas thread_sets = producers_def consumers_def awake_producers_def awake_consumers_def

lemma goto_sets:
  "producers (goto t p q) = (if push_waits p then insert t (producers q) else producers q - {t})"
  "consumers (goto t p q) = (if p = PopWait then insert t (consumers q) else consumers q - {t})"
  "awake_producers (goto t p q) = (if pushes p then insert t (awake_producers q) else awake_producers q - {t})"
  "awake_consumers (goto t p q) = (if p = Popping then insert t (awake_consumers q) else awake_consumers q - {t})"
  "at (\<lambda>p. p \<noteq> Idle) (bq_pc (goto t p q)) =
     (if p \<noteq> Idle then insert t (at (\<lambda>p. p \<noteq> Idle) (bq_pc q)) else at (\<lambda>p. p \<noteq> Idle) (bq_pc q) - {t})"
  by (simp_all add: thread_sets at_upd)

lemma items_sets [simp]:
  "producers (q\<lparr>bq_items := xs\<rparr>) = producers q" "consumers (q\<lparr>bq_items := xs\<rparr>) = consumers q"
  "awake_producers (q\<lparr>bq_items := xs\<rparr>) = awake_producers q"
  "awake_consumers (q\<lparr>bq_items := xs\<rparr>) = awake_consumers q"
  by (simp_all add: thread_sets)

lemma wake_fields [simp]: "bq_items (wake W q) = bq_items q" "bq_max (wake W q) = bq_max q"
  by (simp_all add: wake_def)

lemma wake_up_kinds [simp]:
  "push_waits (wake_up p) = False" "wake_up p = PopWait \<longleftrightarrow> False" "pushes (wake_up p) \<longleftrightarrow> pushes p \<or> push_waits p"
  "wake_up p = Popping \<longleftrightarrow> p = Popping \<or> p = PopWait" "wake_up p = Idle \<longleftrightarrow> p = Idle"
  by (cases p; simp)+

lemma wake_sets:
  "producers (wake W q) = producers q - W" "consumers (wake W q) = consumers q - W"
  "awake_producers (wake W q) = awake_producers q \<union> (W \<inter> producers q)"
  "awake_consumers (wake W q) = awake_consumers q \<union> (W \<inter> consumers q)"
  "at (\<lambda>p. p \<noteq> Idle) (bq_pc (wake W q)) = at (\<lambda>p. p \<noteq> Idle) (bq_pc q)"
  by (auto simp: thread_sets at_def wake_def)

lemma push_waits_only: "push_waits p \<Longrightarrow> \<not> pushes p \<and> p \<noteq> PopWait \<and> p \<noteq> Popping \<and> p \<noteq> Idle"
  by (cases p) simp_all

lemma pushes_only: "pushes p \<Longrightarrow> p \<noteq> PopWait \<and> p \<noteq> Popping \<and> p \<noteq> Idle"
  by (cases p) simp_all

lemma kinds_disjoint:
  "producers q \<inter> consumers q = {}" "awake_producers q \<inter> producers q = {}" "awake_consumers q \<inter> consumers q = {}"
  by (auto simp: thread_sets at_def dest: push_waits_only)

lemma finite_sets:
  assumes "finite (at (\<lambda>p. p \<noteq> Idle) (bq_pc q))"
  shows "finite (producers q)" "finite (consumers q)" "finite (awake_producers q)" "finite (awake_consumers q)"
  using assms by (auto simp: thread_sets at_def dest: push_waits_only pushes_only intro!: finite_subset [OF _ assms])

text \<open>One step keeps the invariant, case by case: a thread that comes or changes its place, and a wake-up
  after a value has been put in or taken out.\<close>

lemma bq_inv_call:
  assumes "bq_inv q" "bq_pc q t = Idle" "pushes p \<or> p = Popping"
  shows "bq_inv (goto t p q)"
proof -
  have f: "finite (at (\<lambda>p. p \<noteq> Idle) (bq_pc q))"
    using assms(1) by (simp add: bq_inv_def)
  have "t \<notin> producers q" "t \<notin> consumers q" "t \<notin> awake_producers q" "t \<notin> awake_consumers q"
    using assms(2) by (simp_all add: thread_sets at_def)
  moreover have "\<not> push_waits p" "p \<noteq> PopWait"
    using assms(3) push_waits_only pushes_only by auto
  ultimately show ?thesis
    using assms(1,3) finite_sets [OF f] f by (auto simp: bq_inv_def goto_sets)
qed

lemma bq_inv_wait:
  assumes "bq_inv q"
  shows "bq_pc q t = Pushing v \<Longrightarrow> IsFull q \<Longrightarrow> bq_inv (goto t (PushWait v) q)"
    and "bq_pc q t = Popping \<Longrightarrow> IsEmpty q \<Longrightarrow> bq_inv (goto t PopWait q)"
proof -
  have f: "finite (at (\<lambda>p. p \<noteq> Idle) (bq_pc q))"
    using assms by (simp add: bq_inv_def)
  show "bq_inv (goto t (PushWait v) q)" if t: "bq_pc q t = Pushing v" "IsFull q"
  proof -
    have "t \<notin> consumers q" "t \<notin> awake_consumers q"
      using t(1) by (simp_all add: thread_sets at_def)
    then show ?thesis
      using assms t(2) f by (auto simp: bq_inv_def goto_sets IsFull_def)
  qed
  show "bq_inv (goto t PopWait q)" if t: "bq_pc q t = Popping" "IsEmpty q"
  proof -
    have "t \<notin> producers q" "t \<notin> awake_producers q"
      using t(1) by (simp_all add: thread_sets at_def)
    then show ?thesis
      using assms t(2) f by (auto simp: bq_inv_def goto_sets IsEmpty_def)
  qed
qed

lemma card_woken:
  assumes "finite A" "finite C" "A \<inter> C = {}" "signalled W C" "C - W \<noteq> {}"
  shows "Suc (card A) \<le> card (A \<union> (W \<inter> C))"
proof -
  obtain w where w: "w \<in> W \<inter> C"
    using assms(4,5) by (auto simp: signalled_def)
  have "card (insert w A) = Suc (card A)"
    using w assms(1,3) by (subst card_insert_disjoint) auto
  moreover have "card (insert w A) \<le> card (A \<union> (W \<inter> C))"
    using w assms(1,2) by (intro card_mono) auto
  ultimately show ?thesis
    by simp
qed

lemma bq_inv_Push:
  assumes i: "bq_inv q" and t: "bq_pc q t = Pushing v" and W: "signalled W (consumers q)"
  shows "bq_inv (Push t v W q)"
proof (cases "IsFull q")
  case True
  then show ?thesis
    using bq_inv_wait(1) [OF i t] by (simp add: Push_def)
next
  case False
  let ?q = "wake W (q\<lparr>bq_items := bq_items q @ [v]\<rparr>)"
  have f: "finite (at (\<lambda>p. p \<noteq> Idle) (bq_pc q))" and len: "length (bq_items q) < bq_max q"
    using i False by (simp_all add: bq_inv_def IsFull_def)
  note fin = finite_sets [OF f]
  have tp: "t \<in> awake_producers q" "t \<notin> producers q" "t \<notin> consumers q" "t \<notin> awake_consumers q"
    using t by (simp_all add: thread_sets at_def)
  have Wp: "W \<inter> producers q = {}" "t \<notin> W"
    using W kinds_disjoint(1) [of q] tp by (auto simp: signalled_def)
  have c: "consumers q - W \<noteq> {} \<Longrightarrow> Suc (length (bq_items q)) \<le> card (awake_consumers q \<union> (W \<inter> consumers q))"
    using card_woken [OF fin(4,2) kinds_disjoint(3) W] i by (auto simp: bq_inv_def)
  have p: "producers q \<noteq> {} \<Longrightarrow> bq_max q - Suc (length (bq_items q)) \<le> card (awake_producers q - {t})"
    using i tp fin by (auto simp: bq_inv_def)
  have pr: "producers (goto t Idle ?q) = producers q" "awake_producers (goto t Idle ?q) = awake_producers q - {t}"
    using Wp tp by (auto simp: goto_sets wake_sets)
  have co: "consumers (goto t Idle ?q) = consumers q - W"
    "awake_consumers (goto t Idle ?q) = awake_consumers q \<union> (W \<inter> consumers q)"
    using tp by (auto simp: goto_sets wake_sets)
  have fi: "finite (at (\<lambda>p. p \<noteq> Idle) (bq_pc (goto t Idle ?q)))"
    unfolding goto_sets wake_sets using f by simp
  have "bq_inv (goto t Idle ?q)"
    unfolding bq_inv_def pr co using len p c fi by simp
  then show ?thesis
    using False by (simp add: Push_def)
qed

lemma bq_inv_Pop:
  assumes i: "bq_inv q" and t: "bq_pc q t = Popping" and W: "signalled W (producers q)"
  shows "bq_inv (snd (Pop t W q))"
proof (cases "IsEmpty q")
  case True
  then show ?thesis
    using bq_inv_wait(2) [OF i t] by (simp add: Pop_def)
next
  case False
  let ?q = "wake W (q\<lparr>bq_items := tl (bq_items q)\<rparr>)"
  have f: "finite (at (\<lambda>p. p \<noteq> Idle) (bq_pc q))" and len: "0 < length (bq_items q)" "length (bq_items q) \<le> bq_max q"
    using i False by (simp_all add: bq_inv_def IsEmpty_def)
  note fin = finite_sets [OF f]
  have tp: "t \<in> awake_consumers q" "t \<notin> producers q" "t \<notin> consumers q" "t \<notin> awake_producers q"
    using t by (simp_all add: thread_sets at_def)
  have Wp: "W \<inter> consumers q = {}" "t \<notin> W"
    using W kinds_disjoint(1) [of q] tp by (auto simp: signalled_def)
  have p: "producers q - W \<noteq> {} \<Longrightarrow>
     bq_max q - (length (bq_items q) - 1) \<le> card (awake_producers q \<union> (W \<inter> producers q))"
    using card_woken [OF fin(3,1) kinds_disjoint(2) W] i len by (auto simp: bq_inv_def)
  have c: "consumers q \<noteq> {} \<Longrightarrow> length (bq_items q) - 1 \<le> card (awake_consumers q - {t})"
    using i tp fin by (auto simp: bq_inv_def)
  have co: "consumers (goto t Idle ?q) = consumers q" "awake_consumers (goto t Idle ?q) = awake_consumers q - {t}"
    using Wp tp by (auto simp: goto_sets wake_sets)
  have pr: "producers (goto t Idle ?q) = producers q - W"
    "awake_producers (goto t Idle ?q) = awake_producers q \<union> (W \<inter> producers q)"
    using tp by (auto simp: goto_sets wake_sets)
  have fi: "finite (at (\<lambda>p. p \<noteq> Idle) (bq_pc (goto t Idle ?q)))"
    unfolding goto_sets wake_sets using f by simp
  have "bq_inv (goto t Idle ?q)"
    unfolding bq_inv_def pr co using len p c fi by simp
  then show ?thesis
    using False by (simp add: Pop_def)
qed

lemma bq_inv_wake:
  assumes "bq_inv q"
  shows "bq_inv (wake W q)"
proof -
  have f: "finite (at (\<lambda>p. p \<noteq> Idle) (bq_pc q))"
    using assms by (simp add: bq_inv_def)
  have m: "card (awake_producers q) \<le> card (awake_producers q \<union> (W \<inter> producers q))"
    "card (awake_consumers q) \<le> card (awake_consumers q \<union> (W \<inter> consumers q))"
    using finite_sets [OF f] by (simp_all add: card_mono)
  show ?thesis
    unfolding bq_inv_def wake_sets using assms m by (auto simp: bq_inv_def)
qed

lemma bq_step_inv: "bq_step q x y q' \<Longrightarrow> bq_inv q \<Longrightarrow> bq_inv q'"
proof (induction rule: bq_step.induct)
  case (pop q t W r q')
  then show ?case
    using bq_inv_Pop [OF pop.prems pop.hyps(1,2)] by simp
qed (simp_all add: bq_inv_call bq_inv_Push bq_inv_wake)

lemma bq_step_items: "bq_step q x y q' \<Longrightarrow> y @ bq_items q' = bq_items q @ x"
proof (induction rule: bq_step.induct)
  case (pop q t W r q')
  then show ?case
    by (cases "bq_items q") (auto simp: Pop_def IsEmpty_def split: if_splits)
qed (simp_all add: Push_def)

lemma bq_step_max: "bq_step q x y q' \<Longrightarrow> bq_max q' = bq_max q"
  by (induction rule: bq_step.induct) (auto simp: Push_def Pop_def split: if_splits)

lemma bq_new_inv: "bq_inv (bq_new n)"
  by (simp add: bq_inv_def bq_new_def thread_sets at_def)

lemma bq_inv_fits: "bq_inv q \<Longrightarrow> length (bq_items q) \<le> bq_max q"
  by (simp add: bq_inv_def)

interpretation bq: fifo_queue bq_inv bq_step bq_items bq_max
  by unfold_locales (simp_all add: bq_step_inv bq_step_items bq_step_max bq_inv_fits)

lemma bq_new_fields [simp]: "bq_items (bq_new n) = []" "bq_max (bq_new n) = n" "bq_pc (bq_new n) t = Idle"
  by (simp_all add: bq_new_def)

text \<open>However producers and consumers interleave, the values leave the blocking queue in the order in
  which they went in, none is lost or repeated, and the queue never holds more than its capacity.\<close>

theorem BlockQueue_fifo:
  assumes "q_run bq_step (bq_new n) xs ys q"
  shows "xs = ys @ bq_items q \<and> length (bq_items q) \<le> n"
  using bq.run_fifo [OF assms bq_new_inv] bq.run_fits [OF assms bq_new_inv] by simp

text \<open>A producer that puts in a value and a consumer that takes it.\<close>

definition demo_put :: "nat block_queue" where
  "demo_put = goto 0 Idle (wake {} ((goto 0 (Pushing 7) (bq_new 1))\<lparr>bq_items := [7]\<rparr>))"

lemma demo_put_run: "q_run bq_step (bq_new 1) [7] [] demo_put"
proof -
  let ?q1 = "goto 0 (Pushing 7) (bq_new 1) :: nat block_queue"
  have "q_run bq_step (bq_new 1) [] [] ?q1"
    by (rule q_run_step1) (rule call_push, simp)
  moreover have "bq_step ?q1 [7] [] demo_put"
  proof -
    have "consumers ?q1 = {}"
      by (auto simp: consumers_def at_def)
    then have "signalled {} (consumers ?q1)"
      by (simp add: signalled_def)
    from push [of ?q1 0 7, OF _ this] show ?thesis
      by (simp add: IsFull_def Push_def demo_put_def)
  qed
  ultimately show ?thesis
    using q_step [of bq_step "bq_new 1" "[]" "[]" ?q1 "[7]" "[]" demo_put] by simp
qed

lemma BlockQueue_fifo_witness: "bq_items demo_put = [7] \<and> length (bq_items demo_put) \<le> 1"
  using BlockQueue_fifo [OF demo_put_run] by simp

text \<open>C25: no wake-up of the blocking queue is lost: when producers wait and none is awake the queue is full,
  when consumers wait and none is awake it is empty, so that producers and consumers never wait for each other.\<close>

theorem BlockQueue_no_lost_wakeup:
  assumes run: "q_run bq_step (bq_new n) xs ys q" and n: "0 < n"
  shows "(producers q = {} \<or> awake_producers q \<noteq> {} \<or> IsFull q) \<and>
    (consumers q = {} \<or> awake_consumers q \<noteq> {} \<or> IsEmpty q) \<and>
    (producers q = {} \<or> consumers q = {} \<or> awake_producers q \<noteq> {} \<or> awake_consumers q \<noteq> {})"
proof -
  from bq.run_ok [OF run bq_new_inv] have i: "bq_inv q"
    by simp
  from bq.run_capacity [OF run bq_new_inv] have m: "bq_max q = n"
    by simp
  from i have p: "producers q = {} \<or> awake_producers q \<noteq> {} \<or> IsFull q"
    by (auto simp: bq_inv_def IsFull_def)
  from i have c: "consumers q = {} \<or> awake_consumers q \<noteq> {} \<or> IsEmpty q"
    by (auto simp: bq_inv_def IsEmpty_def)
  show ?thesis
    using p c m n by (auto simp: IsFull_def IsEmpty_def)
qed

lemma BlockQueue_no_lost_wakeup_witness:
  "let q = goto 1 (PushWait 8) (goto 1 (Pushing 8) demo_put) in producers q = {1} \<and> IsFull q \<and> consumers q = {}"
proof -
  let ?q1 = "goto 1 (Pushing 8) demo_put"
  let ?q = "goto 1 (PushWait 8) ?q1"
  have full: "IsFull ?q1"
    by (simp add: IsFull_def demo_put_def)
  have none: "consumers demo_put = {}" "producers demo_put = {}" "awake_producers demo_put = {}"
    by (auto simp: thread_sets at_def demo_put_def wake_def bq_new_def)
  have "bq_pc demo_put 1 = Idle"
    by (simp add: demo_put_def wake_def)
  then have s1: "bq_step demo_put [] [] ?q1"
    by (rule call_push)
  have "signalled {} (consumers ?q1)"
    using none by (simp add: signalled_def goto_sets del: fun_upd_apply)
  from push [of ?q1 1 8, OF _ this] have s2: "bq_step ?q1 [] [] ?q"
    using full by (simp add: Push_def)
  have "q_run bq_step (bq_new 1) [7] [] ?q1"
    using demo_put_run s1 by (rule q_step_silent)
  then have "q_run bq_step (bq_new 1) [7] [] ?q"
    using s2 by (rule q_step_silent)
  from BlockQueue_no_lost_wakeup [OF this zero_less_one]
  have run: "producers ?q = {} \<or> awake_producers ?q \<noteq> {} \<or> IsFull ?q"
    by (rule conjunct1)
  have "bq_pc ?q = (\<lambda>t. if t = 1 then PushWait 8 else Idle)"
    by (auto simp: demo_put_def wake_def)
  then have sets: "producers ?q = {1}" "awake_producers ?q = {}" "consumers ?q = {}"
    by (simp_all only: thread_sets) (simp_all add: at_def)
  from run have "IsFull ?q"
    unfolding sets by (rule disjE) simp_all
  then show ?thesis
    unfolding Let_def using sets by (intro conjI)
qed

end
