(* ===== verification/Ring_Queue.thy ===== *)
theory Ring_Queue
  imports Bounded_Queue
begin

text \<open>
  The ring of \<open>src/Test_11_28_ThreadPool_Semph/semph/Semaphore_CP.hpp\<close>: a vector used as a circular
  buffer, a semaphore that counts free places, one that counts values, and a mutex for each end. The
  two ends run at the same time, so a call is split at every access to shared data: a step is one
  semaphore operation, the locking of a mutex, one access to the vector, or the change of an index
  together with the unlocking that follows it, as the index is only touched under its mutex.
\<close>

section \<open>State and steps\<close>

datatype 'v ring_pc = Outside
  | PushP 'v | PushLock 'v | PushStore 'v | PushStep 'v | PushV
  | PopP | PopLock | PopLoad | PopStep 'v | PopV

record 'v circular_queue =
  cq_cap :: nat
  cq_ring :: "'v list"
  cq_space :: nat
  cq_data :: nat
  cq_p :: nat
  cq_c :: nat
  cq_p_mutex :: "tid option"
  cq_c_mutex :: "tid option"
  cq_pc :: "tid \<Rightarrow> 'v ring_pc"

text \<open>The vector is filled with the default value \<open>d\<close> of the element type.\<close>

definition cq_new :: "nat \<Rightarrow> 'v \<Rightarrow> 'v circular_queue" where
  "cq_new max_capacity d =
     \<lparr>cq_cap = max_capacity, cq_ring = replicate max_capacity d, cq_space = max_capacity, cq_data = 0,
      cq_p = 0, cq_c = 0, cq_p_mutex = None, cq_c_mutex = None, cq_pc = (\<lambda>_. Outside)\<rparr>"

abbreviation cq_goto :: "tid \<Rightarrow> 'v ring_pc \<Rightarrow> 'v circular_queue \<Rightarrow> 'v circular_queue" where
  "cq_goto t p q \<equiv> q\<lparr>cq_pc := (cq_pc q)(t := p)\<rparr>"

text \<open>The next step of a thread in \<open>Push\<close> or \<open>Pop\<close>: the values it puts in and takes out with the new state,
  or \<open>None\<close> when it is blocked or in no such call.\<close>

definition Push_next :: "tid \<Rightarrow> 'v circular_queue \<Rightarrow> ('v list \<times> 'v list \<times> 'v circular_queue) option" where
  "Push_next t q =
     (case cq_pc q t of
        PushP val \<Rightarrow> if cq_space q = 0 then None
                   else Some ([], [], cq_goto t (PushLock val) (q\<lparr>cq_space := cq_space q - 1\<rparr>))
      | PushLock val \<Rightarrow> if cq_p_mutex q \<noteq> None then None
                      else Some ([], [], cq_goto t (PushStore val) (q\<lparr>cq_p_mutex := Some t\<rparr>))
      | PushStore val \<Rightarrow> Some ([], [], cq_goto t (PushStep val) (q\<lparr>cq_ring := (cq_ring q)[cq_p q := val]\<rparr>))
      | PushStep val \<Rightarrow> Some ([val], [],
          cq_goto t PushV (q\<lparr>cq_p := (cq_p q + 1) mod cq_cap q, cq_p_mutex := None\<rparr>))
      | PushV \<Rightarrow> Some ([], [], cq_goto t Outside (q\<lparr>cq_data := cq_data q + 1\<rparr>))
      | _ \<Rightarrow> None)"

definition Pop_next :: "tid \<Rightarrow> 'v circular_queue \<Rightarrow> ('v list \<times> 'v list \<times> 'v circular_queue) option" where
  "Pop_next t q =
     (case cq_pc q t of
        PopP \<Rightarrow> if cq_data q = 0 then None
               else Some ([], [], cq_goto t PopLock (q\<lparr>cq_data := cq_data q - 1\<rparr>))
      | PopLock \<Rightarrow> if cq_c_mutex q \<noteq> None then None
                  else Some ([], [], cq_goto t PopLoad (q\<lparr>cq_c_mutex := Some t\<rparr>))
      | PopLoad \<Rightarrow> Some ([], [], cq_goto t (PopStep (cq_ring q ! cq_c q)) q)
      | PopStep val \<Rightarrow> Some ([], [val],
          cq_goto t PopV (q\<lparr>cq_c := (cq_c q + 1) mod cq_cap q, cq_c_mutex := None\<rparr>))
      | PopV \<Rightarrow> Some ([], [], cq_goto t Outside (q\<lparr>cq_space := cq_space q + 1\<rparr>))
      | _ \<Rightarrow> None)"

inductive cq_step :: "'v circular_queue \<Rightarrow> 'v list \<Rightarrow> 'v list \<Rightarrow> 'v circular_queue \<Rightarrow> bool" where
  cq_call_push: "cq_pc q t = Outside \<Longrightarrow> cq_step q [] [] (cq_goto t (PushP v) q)"
| cq_call_pop: "cq_pc q t = Outside \<Longrightarrow> cq_step q [] [] (cq_goto t PopP q)"
| cq_push: "Push_next t q = Some (x, y, q') \<Longrightarrow> cq_step q x y q'"
| cq_pop: "Pop_next t q = Some (x, y, q') \<Longrightarrow> cq_step q x y q'"

section \<open>What the ring holds\<close>

text \<open>A producer between its two semaphores has a place (\<open>has_place\<close>) until it moves the index and a value to
  announce (\<open>announces\<close>) after it; a consumer has a value (\<open>has_value\<close>) and then a place to give back
  (\<open>frees\<close>).\<close>

fun has_place :: "'v ring_pc \<Rightarrow> bool" where
  "has_place (PushLock v) = True" | "has_place (PushStore v) = True" | "has_place (PushStep v) = True"
| "has_place _ = False"

fun has_value :: "'v ring_pc \<Rightarrow> bool" where
  "has_value PopLock = True" | "has_value PopLoad = True" | "has_value (PopStep v) = True"
| "has_value _ = False"

fun p_section :: "'v ring_pc \<Rightarrow> bool" where
  "p_section (PushStore v) = True" | "p_section (PushStep v) = True" | "p_section _ = False"

fun c_section :: "'v ring_pc \<Rightarrow> bool" where
  "c_section PopLoad = True" | "c_section (PopStep v) = True" | "c_section _ = False"

definition stored :: "'v circular_queue \<Rightarrow> nat" where
  "stored q = cq_data q + card (at has_value (cq_pc q)) + card (at (\<lambda>p. p = PushV) (cq_pc q))"

definition ring_range :: "nat \<Rightarrow> 'v list \<Rightarrow> nat \<Rightarrow> nat \<Rightarrow> 'v list" where
  "ring_range cap ring c n = map (\<lambda>i. ring ! ((c + i) mod cap)) [0..<n]"

definition cq_content :: "'v circular_queue \<Rightarrow> 'v list" where
  "cq_content q = ring_range (cq_cap q) (cq_ring q) (cq_c q) (stored q)"

definition cq_inv :: "'v circular_queue \<Rightarrow> bool" where
  "cq_inv q \<longleftrightarrow> 0 < cq_cap q \<and> length (cq_ring q) = cq_cap q \<and> cq_p q < cq_cap q \<and> cq_c q < cq_cap q \<and>
     finite (at (\<lambda>p. p \<noteq> Outside) (cq_pc q)) \<and>
     cq_space q + card (at has_place (cq_pc q)) + stored q + card (at (\<lambda>p. p = PopV) (cq_pc q)) = cq_cap q \<and>
     cq_p q = (cq_c q + stored q) mod cq_cap q \<and>
     (\<forall>t. p_section (cq_pc q t) \<longleftrightarrow> cq_p_mutex q = Some t) \<and>
     (\<forall>t. c_section (cq_pc q t) \<longleftrightarrow> cq_c_mutex q = Some t) \<and>
     (\<forall>t v. cq_pc q t = PushStep v \<longrightarrow> cq_ring q ! cq_p q = v) \<and>
     (\<forall>t v. cq_pc q t = PopStep v \<longrightarrow> cq_ring q ! cq_c q = v)"

lemma cq_invD:
  assumes "cq_inv q"
  shows "0 < cq_cap q" "length (cq_ring q) = cq_cap q" "cq_p q < cq_cap q" "cq_c q < cq_cap q"
    "finite (at (\<lambda>p. p \<noteq> Outside) (cq_pc q))"
    "cq_space q + card (at has_place (cq_pc q)) + stored q + card (at (\<lambda>p. p = PopV) (cq_pc q)) = cq_cap q"
    "cq_p q = (cq_c q + stored q) mod cq_cap q"
    "p_section (cq_pc q t) \<longleftrightarrow> cq_p_mutex q = Some t" "c_section (cq_pc q t) \<longleftrightarrow> cq_c_mutex q = Some t"
    "cq_pc q t = PushStep v \<Longrightarrow> cq_ring q ! cq_p q = v" "cq_pc q t = PopStep v \<Longrightarrow> cq_ring q ! cq_c q = v"
  using assms unfolding cq_inv_def by blast+

lemma ring_range_Suc: "ring_range cap ring c (Suc n) = ring_range cap ring c n @ [ring ! ((c + n) mod cap)]"
  by (simp add: ring_range_def)

lemma ring_range_hd:
  assumes "c < cap"
  shows "ring_range cap ring c (Suc n) = ring ! c # ring_range cap ring ((c + 1) mod cap) n"
proof -
  have "map (\<lambda>i. ring ! ((c + i) mod cap)) (map Suc [0..<n]) = ring_range cap ring ((c + 1) mod cap) n"
    by (simp add: ring_range_def mod_add_left_eq)
  then show ?thesis
    using assms by (simp add: ring_range_def upt_conv_Cons map_Suc_upt del: upt_Suc)
qed

lemma ring_index_differs:
  fixes c :: nat
  assumes "i < n" "n < cap"
  shows "(c + i) mod cap \<noteq> (c + n) mod cap"
proof
  assume "(c + i) mod cap = (c + n) mod cap"
  then have "cap dvd (c + n) - (c + i)"
    using assms by (intro mod_eq_dvd_iff_nat [THEN iffD1]) simp_all
  then show False
    using assms dvd_imp_le [of cap "n - i"] by simp
qed

lemma ring_range_store:
  assumes "n < cap" "length ring = cap"
  shows "ring_range cap (ring[(c + n) mod cap := v]) c n = ring_range cap ring c n"
proof -
  have "ring[(c + n) mod cap := v] ! ((c + i) mod cap) = ring ! ((c + i) mod cap)" if "i < n" for i
    using ring_index_differs [OF that assms(1), of c] by simp
  then show ?thesis
    by (simp add: ring_range_def)
qed

section \<open>Every step keeps the ring in order\<close>

lemma place_only: "has_place p \<Longrightarrow> p \<noteq> Outside" "has_value p \<Longrightarrow> p \<noteq> Outside"
  by auto

lemma cq_finite:
  assumes "finite (at (\<lambda>p. p \<noteq> Outside) pc)"
  shows "finite (at has_place pc)" "finite (at has_value pc)" "finite (at (\<lambda>p. p = PushV) pc)" "finite (at (\<lambda>p. p = PopV) pc)"
  using assms by (auto simp: at_def dest: place_only intro!: finite_subset [OF _ assms])

text \<open>The four counts after thread \<open>t\<close> goes to place \<open>p\<close>.\<close>

lemma cq_counts:
  assumes "finite (at (\<lambda>p. p \<noteq> Outside) pc)"
  shows "card (at has_place (pc(t := p))) + (if has_place (pc t) then 1 else 0) =
      card (at has_place pc) + (if has_place p then 1 else 0)"
    and "card (at has_value (pc(t := p))) + (if has_value (pc t) then 1 else 0) =
      card (at has_value pc) + (if has_value p then 1 else 0)"
    and "card (at (\<lambda>p. p = PushV) (pc(t := p))) + (if pc t = PushV then 1 else 0) =
      card (at (\<lambda>p. p = PushV) pc) + (if p = PushV then 1 else 0)"
    and "card (at (\<lambda>p. p = PopV) (pc(t := p))) + (if pc t = PopV then 1 else 0) =
      card (at (\<lambda>p. p = PopV) pc) + (if p = PopV then 1 else 0)"
  using card_at_upd [OF cq_finite(1) [OF assms]] card_at_upd [OF cq_finite(2) [OF assms]]
    card_at_upd [OF cq_finite(3) [OF assms]] card_at_upd [OF cq_finite(4) [OF assms]] by blast+

lemma at_mem_card: "finite (at P pc) \<Longrightarrow> P (pc t) \<Longrightarrow> 0 < card (at P pc)"
  by (auto simp: at_def card_gt_0_iff)

text \<open>What a step of thread \<open>t\<close> must do to keep the invariant, when it changes neither the indices nor the vector.\<close>

lemma cq_inv_quiet:
  assumes i: "cq_inv q" and q': "q' = cq_goto t p (q\<lparr>cq_space := sp, cq_data := d, cq_p_mutex := pm, cq_c_mutex := cm\<rparr>)"
    and same: "stored q' = stored q"
      "sp + card (at has_place (cq_pc q')) + card (at (\<lambda>p. p = PopV) (cq_pc q')) =
       cq_space q + card (at has_place (cq_pc q)) + card (at (\<lambda>p. p = PopV) (cq_pc q))"
    and pm: "\<forall>u. p_section (((cq_pc q)(t := p)) u) \<longleftrightarrow> pm = Some u"
    and cm: "\<forall>u. c_section (((cq_pc q)(t := p)) u) \<longleftrightarrow> cm = Some u"
    and st: "\<And>v. p = PushStep v \<Longrightarrow> cq_ring q ! cq_p q = v" "\<And>v. p = PopStep v \<Longrightarrow> cq_ring q ! cq_c q = v"
  shows "cq_inv q' \<and> cq_content q' = cq_content q"
proof -
  have c: "cq_content q' = cq_content q"
    using same(1) q' by (simp add: cq_content_def)
  note iD = cq_invD [OF i]
  have push: "\<forall>u v. cq_pc q' u = PushStep v \<longrightarrow> cq_ring q' ! cq_p q' = v"
    using iD(10) st(1) by (auto simp: q')
  have pop: "\<forall>u v. cq_pc q' u = PopStep v \<longrightarrow> cq_ring q' ! cq_c q' = v"
    using iD(11) st(2) by (auto simp: q')
  have "cq_inv q'"
    unfolding cq_inv_def
  proof (intro conjI)
    show "cq_space q' + card (at has_place (cq_pc q')) + stored q' + card (at (\<lambda>p. p = PopV) (cq_pc q')) = cq_cap q'"
      using same iD(6) by (simp add: q')
    show "cq_p q' = (cq_c q' + stored q') mod cq_cap q'"
      using same(1) iD(7) by (simp add: q')
  qed (use iD(1-5) pm cm push pop in \<open>simp_all add: q'\<close>)
  with c show ?thesis
    by simp
qed

lemma cq_inv_call:
  assumes i: "cq_inv q" and t: "cq_pc q t = Outside" and p: "p = PushP v \<or> p = PopP"
  shows "cq_inv (cq_goto t p q) \<and> cq_content (cq_goto t p q) = cq_content q"
proof (rule cq_inv_quiet [OF i, where t = t and p = p and sp = "cq_space q" and d = "cq_data q"
      and pm = "cq_p_mutex q" and cm = "cq_c_mutex q"])
  note n = cq_counts [OF cq_invD(5) [OF i], of t p]
  show "stored (cq_goto t p q) = stored q"
    using n t p by (auto simp: stored_def)
  show "cq_space q + card (at has_place (cq_pc (cq_goto t p q))) + card (at (\<lambda>p. p = PopV) (cq_pc (cq_goto t p q))) =
      cq_space q + card (at has_place (cq_pc q)) + card (at (\<lambda>p. p = PopV) (cq_pc q))"
    using n t p by auto
qed (use t p in \<open>auto simp: cq_invD(8) [OF i, symmetric] cq_invD(9) [OF i, symmetric]\<close>)

lemma cq_inv_store:
  assumes i: "cq_inv q" and t: "cq_pc q t = PushStore v"
  shows "cq_inv (cq_goto t (PushStep v) (q\<lparr>cq_ring := (cq_ring q)[cq_p q := v]\<rparr>)) \<and>
    cq_content (cq_goto t (PushStep v) (q\<lparr>cq_ring := (cq_ring q)[cq_p q := v]\<rparr>)) = cq_content q"
    (is "cq_inv ?q \<and> _")
proof -
  note iD = cq_invD [OF i]
  note n = cq_counts [OF iD(5), of t "PushStep v"]
  have "0 < card (at has_place (cq_pc q))"
    using at_mem_card [OF cq_finite(1) [OF iD(5)], of t] t by simp
  then have room: "stored q < cq_cap q"
    using iD(6) by linarith
  have st: "stored ?q = stored q"
    using n t by (simp add: stored_def)
  have ring: "ring_range (cq_cap q) (cq_ring ?q) (cq_c q) (stored q) = ring_range (cq_cap q) (cq_ring q) (cq_c q) (stored q)"
    using ring_range_store [OF room iD(2)] iD(7) by simp
  have one: "u = t" if "p_section (cq_pc q u)" for u
    using that t iD(8) [of u] iD(8) [of t] by simp
  have hd: "cq_ring ?q ! cq_c q = cq_ring q ! cq_c q" if "0 < stored q"
  proof -
    have "cq_p q \<noteq> cq_c q"
      using ring_index_differs [OF that room, of "cq_c q"] iD(4,7) by simp
    then show ?thesis
      by simp
  qed
  have pop: "cq_ring ?q ! cq_c q = w" if "cq_pc q u = PopStep w" for u w
  proof -
    have "0 < card (at has_value (cq_pc q))"
      using at_mem_card [OF cq_finite(2) [OF iD(5)], of u] that by simp
    then show ?thesis
      using hd iD(11) [OF that] by (simp add: stored_def)
  qed
  have push: "cq_ring ?q ! cq_p q = w" if u: "cq_pc ?q u = PushStep w" for u w
  proof (cases "u = t")
    case True
    then show ?thesis
      using u iD(2,3) by simp
  next
    case False
    then show ?thesis
      using u one [of u] by simp
  qed
  have "cq_inv ?q"
    unfolding cq_inv_def
  proof (intro conjI)
    show "cq_space ?q + card (at has_place (cq_pc ?q)) + stored ?q + card (at (\<lambda>p. p = PopV) (cq_pc ?q)) = cq_cap ?q"
      unfolding st using n t iD(6) by simp
    show "cq_p ?q = (cq_c ?q + stored ?q) mod cq_cap ?q"
      unfolding st using iD(7) by simp
    show "\<forall>u w. cq_pc ?q u = PushStep w \<longrightarrow> cq_ring ?q ! cq_p ?q = w"
      using push by simp
    show "\<forall>u w. cq_pc ?q u = PopStep w \<longrightarrow> cq_ring ?q ! cq_c ?q = w"
      using pop by simp
    show "\<forall>u. p_section (cq_pc ?q u) \<longleftrightarrow> cq_p_mutex ?q = Some u"
      using t by (auto simp: iD(8) [symmetric])
    show "\<forall>u. c_section (cq_pc ?q u) \<longleftrightarrow> cq_c_mutex ?q = Some u"
      using t by (auto simp: iD(9) [symmetric])
  qed (use iD in simp_all)
  then show ?thesis
    using ring unfolding cq_content_def st by simp
qed

text \<open>A producer moves its index: the value it has stored now belongs to the queue.\<close>

lemma cq_inv_advance_push:
  assumes i: "cq_inv q" and t: "cq_pc q t = PushStep v"
    and q': "q' = cq_goto t PushV (q\<lparr>cq_p := (cq_p q + 1) mod cq_cap q, cq_p_mutex := None\<rparr>)"
  shows "cq_inv q' \<and> cq_content q' = cq_content q @ [v]"
proof -
  note iD = cq_invD [OF i]
  note n = cq_counts [OF iD(5), of t PushV]
  have st: "stored q' = Suc (stored q)"
    using n t by (simp add: stored_def q')
  have none: "u = t" if "p_section (cq_pc q u)" for u
    using that t iD(8) [of u] iD(8) [of t] by simp
  have "cq_content q' = cq_content q @ [cq_ring q ! cq_p q]"
    unfolding cq_content_def st using iD(7) by (simp add: ring_range_Suc q')
  then have c: "cq_content q' = cq_content q @ [v]"
    using iD(10) [OF t] by simp
  have "cq_inv q'"
    unfolding cq_inv_def
  proof (intro conjI)
    show "cq_space q' + card (at has_place (cq_pc q')) + stored q' + card (at (\<lambda>p. p = PopV) (cq_pc q')) = cq_cap q'"
      unfolding st using n t iD(6) by (simp add: q')
    show "cq_p q' = (cq_c q' + stored q') mod cq_cap q'"
      unfolding st using iD(7) by (simp add: q' mod_Suc_eq)
    show "\<forall>u. p_section (cq_pc q' u) \<longleftrightarrow> cq_p_mutex q' = Some u"
      using none by (auto simp: q')
    show "\<forall>u w. cq_pc q' u = PushStep w \<longrightarrow> cq_ring q' ! cq_p q' = w"
    proof (intro allI impI)
      fix u w assume "cq_pc q' u = PushStep w"
      then have "u \<noteq> t" "p_section (cq_pc q u)"
        by (auto simp: q' split: if_splits)
      then show "cq_ring q' ! cq_p q' = w"
        using none [of u] by simp
    qed
    show "\<forall>u w. cq_pc q' u = PopStep w \<longrightarrow> cq_ring q' ! cq_c q' = w"
      using iD(11) by (simp add: q')
    show "\<forall>u. c_section (cq_pc q' u) \<longleftrightarrow> cq_c_mutex q' = Some u"
      using t by (auto simp: q' iD(9) [symmetric])
  qed (use iD(1-5) in \<open>simp_all add: q'\<close>)
  with c show ?thesis
    by simp
qed

lemma cq_inv_advance_pop:
  assumes i: "cq_inv q" and t: "cq_pc q t = PopStep v"
    and q': "q' = cq_goto t PopV (q\<lparr>cq_c := (cq_c q + 1) mod cq_cap q, cq_c_mutex := None\<rparr>)"
  shows "cq_inv q' \<and> v # cq_content q' = cq_content q"
proof -
  note iD = cq_invD [OF i]
  note n = cq_counts [OF iD(5), of t PopV]
  have "0 < card (at has_value (cq_pc q))"
    using at_mem_card [OF cq_finite(2) [OF iD(5)], of t] t by simp
  then have st: "stored q = Suc (stored q')"
    using n t by (simp add: stored_def q')
  have none: "u = t" if "c_section (cq_pc q u)" for u
    using that t iD(9) [of u] iD(9) [of t] by simp
  have c: "v # cq_content q' = cq_content q"
  proof -
    have "v # ring_range (cq_cap q) (cq_ring q) ((cq_c q + 1) mod cq_cap q) m =
      ring_range (cq_cap q) (cq_ring q) (cq_c q) (Suc m)" for m
      using ring_range_hd [OF iD(4), of "cq_ring q" m] iD(11) [OF t] by simp
    moreover have "cq_cap q' = cq_cap q" "cq_ring q' = cq_ring q" "cq_c q' = (cq_c q + 1) mod cq_cap q"
      by (simp_all add: q')
    ultimately show ?thesis
      unfolding cq_content_def st by simp
  qed
  have "cq_inv q'"
    unfolding cq_inv_def
  proof (intro conjI)
    show "cq_space q' + card (at has_place (cq_pc q')) + stored q' + card (at (\<lambda>p. p = PopV) (cq_pc q')) = cq_cap q'"
      using n t iD(6) unfolding st by (simp add: q')
    show "cq_p q' = (cq_c q' + stored q') mod cq_cap q'"
      using iD(7) unfolding st by (simp add: q' mod_add_left_eq)
    show "\<forall>u. c_section (cq_pc q' u) \<longleftrightarrow> cq_c_mutex q' = Some u"
      using none by (auto simp: q')
    show "\<forall>u w. cq_pc q' u = PopStep w \<longrightarrow> cq_ring q' ! cq_c q' = w"
    proof (intro allI impI)
      fix u w assume "cq_pc q' u = PopStep w"
      then have "u \<noteq> t" "c_section (cq_pc q u)"
        by (auto simp: q' split: if_splits)
      then show "cq_ring q' ! cq_c q' = w"
        using none [of u] by simp
    qed
    show "\<forall>u w. cq_pc q' u = PushStep w \<longrightarrow> cq_ring q' ! cq_p q' = w"
      using iD(10) by (simp add: q')
    show "\<forall>u. p_section (cq_pc q' u) \<longleftrightarrow> cq_p_mutex q' = Some u"
      using t by (auto simp: q' iD(8) [symmetric])
  qed (use iD(1-5) in \<open>simp_all add: q'\<close>)
  with c show ?thesis
    by simp
qed

text \<open>The steps at the semaphores and at the locks change what the threads hold, not the queue.\<close>

lemma cq_Push_next:
  assumes i: "cq_inv q" and s: "Push_next t q = Some (x, y, q')"
  shows "cq_inv q' \<and> y @ cq_content q' = cq_content q @ x"
proof -
  note iD = cq_invD [OF i]
  note n = cq_counts [OF iD(5), of t]
  note sym = iD(8) [symmetric] iD(9) [symmetric]
  consider (P) v where "cq_pc q t = PushP v" | (L) v where "cq_pc q t = PushLock v"
    | (S) v where "cq_pc q t = PushStore v" | (A) v where "cq_pc q t = PushStep v" | (W) "cq_pc q t = PushV"
    using s by (auto simp: Push_next_def split: ring_pc.splits)
  then show ?thesis
  proof cases
    case P
    then have e: "x = []" "y = []" "0 < cq_space q" and q': "q' = cq_goto t (PushLock v) (q\<lparr>cq_space := cq_space q - 1,
        cq_data := cq_data q, cq_p_mutex := cq_p_mutex q, cq_c_mutex := cq_c_mutex q\<rparr>)"
      using s by (auto simp: Push_next_def split: if_splits)
    have "cq_inv q' \<and> cq_content q' = cq_content q"
    proof (rule cq_inv_quiet [OF i q'])
      show "stored q' = stored q"
        using n [of "PushLock v"] P by (simp add: stored_def q')
      show "cq_space q - 1 + card (at has_place (cq_pc q')) + card (at (\<lambda>p. p = PopV) (cq_pc q')) =
          cq_space q + card (at has_place (cq_pc q)) + card (at (\<lambda>p. p = PopV) (cq_pc q))"
        using n [of "PushLock v"] P e(3) by (simp add: q')
    qed (use P in \<open>auto simp: sym\<close>)
    with e show ?thesis
      by simp
  next
    case L
    then have e: "x = []" "y = []" "cq_p_mutex q = None" and q': "q' = cq_goto t (PushStore v) (q\<lparr>cq_space := cq_space q,
        cq_data := cq_data q, cq_p_mutex := Some t, cq_c_mutex := cq_c_mutex q\<rparr>)"
      using s by (auto simp: Push_next_def split: if_splits)
    have "cq_inv q' \<and> cq_content q' = cq_content q"
    proof (rule cq_inv_quiet [OF i q'])
      show "stored q' = stored q"
        using n [of "PushStore v"] L by (simp add: stored_def q')
      show "cq_space q + card (at has_place (cq_pc q')) + card (at (\<lambda>p. p = PopV) (cq_pc q')) =
          cq_space q + card (at has_place (cq_pc q)) + card (at (\<lambda>p. p = PopV) (cq_pc q))"
        using n [of "PushStore v"] L by (simp add: q')
      show "\<forall>u. p_section (((cq_pc q)(t := PushStore v)) u) \<longleftrightarrow> Some t = Some u"
        using iD(8) e(3) by auto
    qed (use L in \<open>auto simp: sym\<close>)
    with e show ?thesis
      by simp
  next
    case S
    then show ?thesis
      using s cq_inv_store [OF i S] by (auto simp: Push_next_def)
  next
    case A
    then show ?thesis
      using s cq_inv_advance_push [OF i A refl] by (auto simp: Push_next_def)
  next
    case W
    then have e: "x = []" "y = []" and q': "q' = cq_goto t Outside (q\<lparr>cq_space := cq_space q,
        cq_data := cq_data q + 1, cq_p_mutex := cq_p_mutex q, cq_c_mutex := cq_c_mutex q\<rparr>)"
      using s by (auto simp: Push_next_def)
    have "cq_inv q' \<and> cq_content q' = cq_content q"
    proof (rule cq_inv_quiet [OF i q'])
      show "stored q' = stored q"
        using n [of Outside] W by (simp add: stored_def q')
      show "cq_space q + card (at has_place (cq_pc q')) + card (at (\<lambda>p. p = PopV) (cq_pc q')) =
          cq_space q + card (at has_place (cq_pc q)) + card (at (\<lambda>p. p = PopV) (cq_pc q))"
        using n [of Outside] W by (simp add: q')
    qed (use W in \<open>auto simp: sym\<close>)
    with e show ?thesis
      by simp
  qed
qed

lemma cq_Pop_next:
  assumes i: "cq_inv q" and s: "Pop_next t q = Some (x, y, q')"
  shows "cq_inv q' \<and> y @ cq_content q' = cq_content q @ x"
proof -
  note iD = cq_invD [OF i]
  note n = cq_counts [OF iD(5), of t]
  note sym = iD(8) [symmetric] iD(9) [symmetric]
  consider (P) "cq_pc q t = PopP" | (L) "cq_pc q t = PopLock"
    | (R) "cq_pc q t = PopLoad" | (A) v where "cq_pc q t = PopStep v" | (W) "cq_pc q t = PopV"
    using s by (auto simp: Pop_next_def split: ring_pc.splits)
  then show ?thesis
  proof cases
    case P
    then have e: "x = []" "y = []" "0 < cq_data q" and q': "q' = cq_goto t PopLock (q\<lparr>cq_space := cq_space q,
        cq_data := cq_data q - 1, cq_p_mutex := cq_p_mutex q, cq_c_mutex := cq_c_mutex q\<rparr>)"
      using s by (auto simp: Pop_next_def split: if_splits)
    have "cq_inv q' \<and> cq_content q' = cq_content q"
    proof (rule cq_inv_quiet [OF i q'])
      show "stored q' = stored q"
        using n [of PopLock] P e(3) by (simp add: stored_def q')
      show "cq_space q + card (at has_place (cq_pc q')) + card (at (\<lambda>p. p = PopV) (cq_pc q')) =
          cq_space q + card (at has_place (cq_pc q)) + card (at (\<lambda>p. p = PopV) (cq_pc q))"
        using n [of PopLock] P by (simp add: q')
    qed (use P in \<open>auto simp: sym\<close>)
    with e show ?thesis
      by simp
  next
    case L
    then have e: "x = []" "y = []" "cq_c_mutex q = None" and q': "q' = cq_goto t PopLoad (q\<lparr>cq_space := cq_space q,
        cq_data := cq_data q, cq_p_mutex := cq_p_mutex q, cq_c_mutex := Some t\<rparr>)"
      using s by (auto simp: Pop_next_def split: if_splits)
    have "cq_inv q' \<and> cq_content q' = cq_content q"
    proof (rule cq_inv_quiet [OF i q'])
      show "stored q' = stored q"
        using n [of PopLoad] L by (simp add: stored_def q')
      show "cq_space q + card (at has_place (cq_pc q')) + card (at (\<lambda>p. p = PopV) (cq_pc q')) =
          cq_space q + card (at has_place (cq_pc q)) + card (at (\<lambda>p. p = PopV) (cq_pc q))"
        using n [of PopLoad] L by (simp add: q')
      show "\<forall>u. c_section (((cq_pc q)(t := PopLoad)) u) \<longleftrightarrow> Some t = Some u"
        using iD(9) e(3) by auto
    qed (use L in \<open>auto simp: sym\<close>)
    with e show ?thesis
      by simp
  next
    case R
    let ?p = "PopStep (cq_ring q ! cq_c q)"
    from R have e: "x = []" "y = []" and q': "q' = cq_goto t ?p (q\<lparr>cq_space := cq_space q,
        cq_data := cq_data q, cq_p_mutex := cq_p_mutex q, cq_c_mutex := cq_c_mutex q\<rparr>)"
      using s by (auto simp: Pop_next_def)
    have "cq_inv q' \<and> cq_content q' = cq_content q"
    proof (rule cq_inv_quiet [OF i q'])
      show "stored q' = stored q"
        using n [of ?p] R by (simp add: stored_def q')
      show "cq_space q + card (at has_place (cq_pc q')) + card (at (\<lambda>p. p = PopV) (cq_pc q')) =
          cq_space q + card (at has_place (cq_pc q)) + card (at (\<lambda>p. p = PopV) (cq_pc q))"
        using n [of ?p] R by (simp add: q')
    qed (use R in \<open>auto simp: sym\<close>)
    with e show ?thesis
      by simp
  next
    case A
    then show ?thesis
      using s cq_inv_advance_pop [OF i A refl] by (auto simp: Pop_next_def)
  next
    case W
    then have e: "x = []" "y = []" and q': "q' = cq_goto t Outside (q\<lparr>cq_space := cq_space q + 1,
        cq_data := cq_data q, cq_p_mutex := cq_p_mutex q, cq_c_mutex := cq_c_mutex q\<rparr>)"
      using s by (auto simp: Pop_next_def)
    have "cq_inv q' \<and> cq_content q' = cq_content q"
    proof (rule cq_inv_quiet [OF i q'])
      show "stored q' = stored q"
        using n [of Outside] W by (simp add: stored_def q')
      show "cq_space q + 1 + card (at has_place (cq_pc q')) + card (at (\<lambda>p. p = PopV) (cq_pc q')) =
          cq_space q + card (at has_place (cq_pc q)) + card (at (\<lambda>p. p = PopV) (cq_pc q))"
        using n [of Outside] W by (simp add: q')
    qed (use W in \<open>auto simp: sym\<close>)
    with e show ?thesis
      by simp
  qed
qed

lemma cq_step_ok:
  assumes "cq_step q x y q'" "cq_inv q"
  shows "cq_inv q' \<and> y @ cq_content q' = cq_content q @ x"
  using assms
proof (induction rule: cq_step.induct)
  case (cq_call_push q t v)
  then show ?case
    using cq_inv_call [of q t "PushP v"] by simp
next
  case (cq_call_pop q t)
  then show ?case
    using cq_inv_call [of q t PopP] by simp
next
  case (cq_push t q x y q')
  then show ?case
    using cq_Push_next [of q t x y q'] by simp
next
  case (cq_pop t q x y q')
  then show ?case
    using cq_Pop_next [of q t x y q'] by simp
qed

lemma cq_step_cap: "cq_step q x y q' \<Longrightarrow> cq_cap q' = cq_cap q"
  by (induction rule: cq_step.induct)
    (auto simp: Push_next_def Pop_next_def split: ring_pc.splits if_splits)

lemma cq_new_inv: "0 < n \<Longrightarrow> cq_inv (cq_new n d)"
  by (simp add: cq_inv_def cq_new_def at_def stored_def)

lemma cq_new_content: "cq_content (cq_new n d) = []"
  by (simp add: cq_content_def cq_new_def at_def stored_def ring_range_def)

lemma cq_content_fits: "cq_inv q \<Longrightarrow> length (cq_content q) \<le> cq_cap q"
  using cq_invD(6) [of q] by (simp add: cq_content_def ring_range_def)

interpretation cq: fifo_queue cq_inv cq_step cq_content cq_cap
  by unfold_locales (use cq_step_ok cq_step_cap cq_content_fits in \<open>blast+\<close>)

definition at_rest :: "'v ring_pc \<Rightarrow> bool" where
  "at_rest p \<longleftrightarrow> \<not> has_place p \<and> \<not> has_value p \<and> p \<noteq> PushV \<and> p \<noteq> PopV"

text \<open>C24: however the two ends of the ring interleave, access by access, the values leave it in the order in
  which they went in, none is lost, repeated or overwritten, and it never holds more than its
  capacity. When no thread stands between its two semaphores, they count the free places and the values.\<close>

theorem CircularQueue_fifo:
  assumes run: "q_run cq_step (cq_new n d) xs ys q" and n: "0 < n"
  shows "xs = ys @ cq_content q \<and> length (cq_content q) \<le> n \<and>
    ((\<exists>t. \<not> at_rest (cq_pc q t)) \<or> cq_space q + length (cq_content q) = n \<and> cq_data q = length (cq_content q))"
proof -
  note new = cq_new_inv [OF n]
  from cq.run_ok [OF run new] have i: "cq_inv q"
    by simp
  from cq.run_capacity [OF run new] have cap: "cq_cap q = n"
    by (simp add: cq_new_def)
  have "cq_space q + length (cq_content q) = n \<and> cq_data q = length (cq_content q)"
    if "\<forall>t. at_rest (cq_pc q t)"
  proof -
    have "at has_place (cq_pc q) = {}" "at has_value (cq_pc q) = {}" "at (\<lambda>p. p = PushV) (cq_pc q) = {}"
      "at (\<lambda>p. p = PopV) (cq_pc q) = {}"
      using that by (simp_all add: at_empty_iff at_rest_def)
    then show ?thesis
      using cq_invD(6) [OF i] cap by (simp add: cq_content_def ring_range_def stored_def)
  qed
  then show ?thesis
    using cq.run_fifo [OF run new cq_new_content] cq.run_fits [OF run new] by (auto simp: cq_new_def)
qed

text \<open>One value put into a ring of one place.\<close>

definition one_ring :: "nat \<Rightarrow> nat \<Rightarrow> nat \<Rightarrow> tid option \<Rightarrow> nat ring_pc \<Rightarrow> nat circular_queue" where
  "one_ring x sp dt m p = \<lparr>cq_cap = 1, cq_ring = [x], cq_space = sp, cq_data = dt, cq_p = 0, cq_c = 0,
     cq_p_mutex = m, cq_c_mutex = None, cq_pc = (\<lambda>_. Outside)(0 := p)\<rparr>"

lemma one_ring_run: "q_run cq_step (cq_new 1 0) [7] [] (one_ring 7 0 1 None Outside)"
proof -
  note quiet = q_step_silent [where step = cq_step]
  have "cq_step (cq_new 1 0) [] [] (one_ring 0 1 0 None (PushP 7))"
    using cq_call_push [of "cq_new 1 0" 0 7] by (simp add: cq_new_def one_ring_def)
  then have "q_run cq_step (cq_new 1 0) [] [] (one_ring 0 1 0 None (PushP 7))"
    by (rule q_run_step1)
  moreover have "cq_step (one_ring 0 1 0 None (PushP 7)) [] [] (one_ring 0 0 0 None (PushLock 7))"
    by (rule cq_push [where t = 0]) (simp add: Push_next_def one_ring_def)
  ultimately have "q_run cq_step (cq_new 1 0) [] [] (one_ring 0 0 0 None (PushLock 7))"
    by (rule quiet)
  moreover have "cq_step (one_ring 0 0 0 None (PushLock 7)) [] [] (one_ring 0 0 0 (Some 0) (PushStore 7))"
    by (rule cq_push [where t = 0]) (simp add: Push_next_def one_ring_def)
  ultimately have "q_run cq_step (cq_new 1 0) [] [] (one_ring 0 0 0 (Some 0) (PushStore 7))"
    by (rule quiet)
  moreover have "cq_step (one_ring 0 0 0 (Some 0) (PushStore 7)) [] [] (one_ring 7 0 0 (Some 0) (PushStep 7))"
    by (rule cq_push [where t = 0]) (simp add: Push_next_def one_ring_def)
  ultimately have "q_run cq_step (cq_new 1 0) [] [] (one_ring 7 0 0 (Some 0) (PushStep 7))"
    by (rule quiet)
  moreover have "cq_step (one_ring 7 0 0 (Some 0) (PushStep 7)) [7] [] (one_ring 7 0 0 None PushV)"
    by (rule cq_push [where t = 0]) (simp add: Push_next_def one_ring_def)
  ultimately have "q_run cq_step (cq_new 1 0) ([] @ [7]) ([] @ []) (one_ring 7 0 0 None PushV)"
    by (rule q_run.q_step)
  then have "q_run cq_step (cq_new 1 0) [7] [] (one_ring 7 0 0 None PushV)"
    by (simp only: append_Nil)
  moreover have "cq_step (one_ring 7 0 0 None PushV) [] [] (one_ring 7 0 1 None Outside)"
    by (rule cq_push [where t = 0]) (simp add: Push_next_def one_ring_def)
  ultimately show ?thesis
    by (rule quiet)
qed

lemma CircularQueue_fifo_witness:
  "cq_content (one_ring 7 0 1 None Outside) = [7] \<and> cq_data (one_ring 7 0 1 None Outside) = 1"
proof -
  have "at_rest (cq_pc (one_ring 7 0 1 None Outside) t)" for t
    by (simp add: at_rest_def one_ring_def)
  then have "cq_content (one_ring 7 0 1 None Outside) = [7]"
    "cq_data (one_ring 7 0 1 None Outside) = length (cq_content (one_ring 7 0 1 None Outside))"
    using CircularQueue_fifo [OF one_ring_run zero_less_one] by (simp_all only: append_Nil) blast+
  then show ?thesis
    by simp
qed

end
