(* ===== verification/Thread_Pool.thy ===== *)
theory Thread_Pool
  imports Bounded_Queue
begin

text \<open>
  The thread pools of \<open>src/os/thread/ThreadPool.h\<close> and \<open>src/Test_11_29_pool_log/ThreadPool.hpp\<close>: a queue
  of tasks, a fixed number of workers that sleep on a condition variable while the pool runs and
  there is no task, and a \<open>Stop\<close> that lets the workers finish what has been accepted. The two differ in when
  they signal: the first always signals after it has queued a task and broadcasts at the end only
  when its counter says that a thread sleeps, the second looks at the counter before it signals and
  always broadcasts. What both rely on is the locale \<open>pool_signals\<close>. The single instance of the pool and its
  double-checked creation are the last part.
\<close>

section \<open>State and operations\<close>

text \<open>
  A worker is about to take the mutex at the top of its loop (\<open>Ready\<close>), waits on the condition variable
  (\<open>Asleep\<close>), has been woken and must take the mutex again (\<open>Woken\<close>), runs a task outside the mutex, or
  has left its loop. A thread that has been created and not yet scheduled is \<open>Ready\<close>.
\<close>

datatype 'f worker = NotStarted | Ready | Asleep | Woken | Working 'f | Exited

record 'f thread_pool =
  tp_running :: bool
  tp_tasks :: "'f list"
  tp_num :: nat
  tp_sleeping :: int
  tp_worker :: "tid \<Rightarrow> 'f worker"

definition tp_new :: "nat \<Rightarrow> 'f thread_pool" where
  "tp_new thread_num =
     \<lparr>tp_running = False, tp_tasks = [], tp_num = thread_num, tp_sleeping = 0, tp_worker = (\<lambda>_. NotStarted)\<rparr>"

definition tp_Init :: "'f thread_pool \<Rightarrow> 'f thread_pool" where
  "tp_Init s = s\<lparr>tp_running := True\<rparr>"

definition tp_Start :: "'f thread_pool \<Rightarrow> 'f thread_pool" where
  "tp_Start s = s\<lparr>tp_worker := (\<lambda>t. if t < tp_num s then Ready else NotStarted)\<rparr>"

abbreviation set_worker :: "tid \<Rightarrow> 'f worker \<Rightarrow> 'f thread_pool \<Rightarrow> 'f thread_pool" where
  "set_worker t w s \<equiv> s\<lparr>tp_worker := (tp_worker s)(t := w)\<rparr>"

definition asleep :: "'f thread_pool \<Rightarrow> tid set" where
  "asleep s = {t. tp_worker s t = Asleep}"

definition tp_wake :: "tid set \<Rightarrow> 'f thread_pool \<Rightarrow> 'f thread_pool" where
  "tp_wake W s = s\<lparr>tp_worker := (\<lambda>t. if t \<in> W \<and> tp_worker s t = Asleep then Woken else tp_worker s t)\<rparr>"

text \<open>One pass of \<open>HandlerTask\<close> under the mutex: from the top of the loop, or from the return of the wait,
  to the next wait, the exit, or the task taken.\<close>

definition handler_section :: "tid \<Rightarrow> 'f thread_pool \<Rightarrow> 'f list \<times> 'f thread_pool" where
  "handler_section t s =
     (case tp_tasks s of
        [] \<Rightarrow> if tp_running s then ([], set_worker t Asleep (s\<lparr>tp_sleeping := tp_sleeping s + 1\<rparr>))
              else ([], set_worker t Exited s)
      | task # rest \<Rightarrow> ([task], set_worker t (Working task) (s\<lparr>tp_tasks := rest\<rparr>)))"

text \<open>The next step of worker \<open>t\<close>: the task it takes, if any, with the new state; \<open>None\<close> when it cannot run.\<close>

definition HandlerTask :: "tid \<Rightarrow> 'f thread_pool \<Rightarrow> ('f list \<times> 'f thread_pool) option" where
  "HandlerTask t s =
     (case tp_worker s t of
        Ready \<Rightarrow> Some (handler_section t s)
      | Woken \<Rightarrow> Some (handler_section t (s\<lparr>tp_sleeping := tp_sleeping s - 1\<rparr>))
      | Working task \<Rightarrow> Some ([], set_worker t Ready s)
      | _ \<Rightarrow> None)"

text \<open>\<open>Enqueue\<close> and the first part of \<open>Stop\<close>, up to the joins; \<open>W\<close> are the threads the signal wakes.\<close>

definition tp_Enqueue :: "'f \<Rightarrow> tid set \<Rightarrow> 'f thread_pool \<Rightarrow> 'f thread_pool" where
  "tp_Enqueue task W s =
     (if tp_running s then tp_wake W (s\<lparr>tp_tasks := tp_tasks s @ [task]\<rparr>) else s)"

definition tp_Stop :: "'f thread_pool \<Rightarrow> 'f thread_pool" where
  "tp_Stop s =
     (let s1 = s\<lparr>tp_running := False\<rparr>
      in if tp_sleeping s1 > 0 then tp_wake (asleep s1) s1 else s1)"

definition lp_Enqueue :: "'f \<Rightarrow> tid set \<Rightarrow> 'f thread_pool \<Rightarrow> 'f thread_pool" where
  "lp_Enqueue func W s =
     (if tp_running s then
        let s1 = s\<lparr>tp_tasks := tp_tasks s @ [func]\<rparr>
        in if tp_sleeping s1 > 0 then tp_wake W s1 else s1
      else s)"

definition lp_Stop :: "'f thread_pool \<Rightarrow> 'f thread_pool" where
  "lp_Stop s = (let s1 = s\<lparr>tp_running := False\<rparr> in tp_wake (asleep s1) s1)"

inductive tp_step ::
    "('f \<Rightarrow> tid set \<Rightarrow> 'f thread_pool \<Rightarrow> 'f thread_pool) \<Rightarrow> ('f thread_pool \<Rightarrow> 'f thread_pool) \<Rightarrow>
     'f thread_pool \<Rightarrow> 'f list \<Rightarrow> 'f list \<Rightarrow> 'f thread_pool \<Rightarrow> bool"
  for enqueue stop where
  tp_enq: "signalled W (asleep s) \<Longrightarrow>
    tp_step enqueue stop s (if tp_running s then [f] else []) [] (enqueue f W s)"
| tp_stop: "tp_step enqueue stop s [] [] (stop s)"
| tp_work: "HandlerTask t s = Some (y, s') \<Longrightarrow> tp_step enqueue stop s [] y s'"
| tp_spurious: "tp_step enqueue stop s [] [] (tp_wake {t} s)"

section \<open>The invariant\<close>

abbreviation on_way :: "'f worker \<Rightarrow> bool" where
  "on_way w \<equiv> w = Ready \<or> w = Woken"

text \<open>The counter counts the workers that sleep or have not yet come back from their wait; while one sleeps
  there are at least as many workers on their way to the queue as tasks in it; none sleeps once the
  pool is stopped; a worker leaves only a stopped and empty pool.\<close>

definition tp_inv :: "'f thread_pool \<Rightarrow> bool" where
  "tp_inv s \<longleftrightarrow> (\<forall>t. tp_worker s t \<noteq> NotStarted \<longleftrightarrow> t < tp_num s) \<and>
     tp_sleeping s = int (card (asleep s)) + int (card (at (\<lambda>w. w = Woken) (tp_worker s))) \<and>
     (asleep s = {} \<or> length (tp_tasks s) \<le> card (at on_way (tp_worker s))) \<and>
     (tp_running s \<or> asleep s = {}) \<and>
     (\<forall>t. tp_worker s t = Exited \<longrightarrow> \<not> tp_running s \<and> tp_tasks s = [])"

lemma asleep_at: "asleep s = at (\<lambda>w. w = Asleep) (tp_worker s)"
  by (simp add: asleep_def at_def)

lemma tp_invD:
  assumes "tp_inv s"
  shows "tp_worker s t = NotStarted \<longleftrightarrow> \<not> t < tp_num s"
    "tp_sleeping s = int (card (asleep s)) + int (card (at (\<lambda>w. w = Woken) (tp_worker s)))"
    "asleep s = {} \<or> length (tp_tasks s) \<le> card (at on_way (tp_worker s))"
    "tp_running s \<or> asleep s = {}"
    "tp_worker s t = Exited \<Longrightarrow> \<not> tp_running s \<and> tp_tasks s = []"
  using assms unfolding tp_inv_def by blast+

lemma tp_finite:
  assumes "tp_inv s"
  shows "P NotStarted \<or> finite (at P (tp_worker s))"
proof (cases "P NotStarted")
  case False
  have "at P (tp_worker s) \<subseteq> {..<tp_num s}"
    using tp_invD(1) [OF assms] False by (auto simp: at_def) (metis)
  then show ?thesis
    using finite_subset by blast
qed simp

lemma tp_finites:
  assumes "tp_inv s"
  shows "finite (asleep s)" "finite (at (\<lambda>w. w = Woken) (tp_worker s))" "finite (at on_way (tp_worker s))"
  using tp_finite [OF assms, of "\<lambda>w. w = Asleep"] tp_finite [OF assms, of "\<lambda>w. w = Woken"]
    tp_finite [OF assms, of on_way] by (simp_all add: asleep_at)

lemma nobody_asleep:
  assumes "tp_inv s" "\<not> 0 < tp_sleeping s"
  shows "asleep s = {}"
proof -
  have "card (asleep s) = 0"
    using tp_invD(2) [OF assms(1)] assms(2) by linarith
  then show ?thesis
    using tp_finites(1) [OF assms(1)] by simp
qed

text \<open>What the two pools rely on: as far as the counter is right, their signals are as good as unconditional ones.\<close>

locale pool_signals =
  fixes enqueue :: "'f \<Rightarrow> tid set \<Rightarrow> 'f thread_pool \<Rightarrow> 'f thread_pool"
    and stop :: "'f thread_pool \<Rightarrow> 'f thread_pool"
  assumes enqueue_ok: "tp_inv s \<Longrightarrow> signalled W (asleep s) \<Longrightarrow> enqueue f W s =
      (if tp_running s then tp_wake W (s\<lparr>tp_tasks := tp_tasks s @ [f]\<rparr>) else s)"
    and stop_ok: "tp_inv s \<Longrightarrow> stop s = tp_wake (asleep s) (s\<lparr>tp_running := False\<rparr>)"

section \<open>Every step keeps the invariant\<close>

lemma tp_wake_fields [simp]:
  "tp_running (tp_wake W s) = tp_running s" "tp_tasks (tp_wake W s) = tp_tasks s" "tp_num (tp_wake W s) = tp_num s"
  "tp_sleeping (tp_wake W s) = tp_sleeping s"
  by (simp_all add: tp_wake_def)

lemma tp_wake_worker [simp]:
  "tp_worker (tp_wake W s) t = NotStarted \<longleftrightarrow> tp_worker s t = NotStarted"
  "tp_worker (tp_wake W s) t = Exited \<longleftrightarrow> tp_worker s t = Exited"
  by (auto simp: tp_wake_def)

lemma tp_wake_sets:
  "asleep (tp_wake W s) = asleep s - W"
  "at (\<lambda>w. w = Woken) (tp_worker (tp_wake W s)) = at (\<lambda>w. w = Woken) (tp_worker s) \<union> (W \<inter> asleep s)"
  "at on_way (tp_worker (tp_wake W s)) = at on_way (tp_worker s) \<union> (W \<inter> asleep s)"
  by (auto simp: asleep_def at_def tp_wake_def)

lemma asleep_fields [simp]:
  "asleep (s\<lparr>tp_tasks := xs\<rparr>) = asleep s" "asleep (s\<lparr>tp_running := b\<rparr>) = asleep s"
  by (simp_all add: asleep_def)

lemma asleep_disjoint:
  "at (\<lambda>w. w = Woken) (tp_worker s) \<inter> asleep s = {}" "at on_way (tp_worker s) \<inter> asleep s = {}"
  by (auto simp: asleep_def at_def)

lemma card_wake:
  assumes "finite A" "finite C" "C \<inter> A = {}"
  shows "card (A - W) + card (C \<union> (W \<inter> A)) = card A + card C"
proof -
  have "card (C \<union> (W \<inter> A)) = card C + card (W \<inter> A)"
    using assms by (intro card_Un_disjoint) auto
  moreover have "card A = card (A - W) + card (W \<inter> A)"
  proof -
    have "A = (A - W) \<union> (W \<inter> A)"
      by auto
    then show ?thesis
      using assms(1) card_Un_disjoint [of "A - W" "W \<inter> A"] by auto
  qed
  ultimately show ?thesis
    by simp
qed

lemma tp_wake_count:
  assumes "tp_inv s"
  shows "card (asleep (tp_wake W s)) + card (at (\<lambda>w. w = Woken) (tp_worker (tp_wake W s))) =
    card (asleep s) + card (at (\<lambda>w. w = Woken) (tp_worker s))"
  unfolding tp_wake_sets using tp_finites [OF assms] asleep_disjoint by (intro card_wake)

lemma tp_inv_wake:
  assumes i: "tp_inv s"
  shows "tp_inv (tp_wake W s)"
proof -
  note iD = tp_invD [OF i]
  have m: "card (at on_way (tp_worker s)) \<le> card (at on_way (tp_worker (tp_wake W s)))"
    unfolding tp_wake_sets using tp_finites [OF i] by (intro card_mono) auto
  show ?thesis
    unfolding tp_inv_def
  proof (intro conjI)
    show "tp_sleeping (tp_wake W s) =
        int (card (asleep (tp_wake W s))) + int (card (at (\<lambda>w. w = Woken) (tp_worker (tp_wake W s))))"
      using tp_wake_count [OF i, of W] iD(2) by simp
    show "asleep (tp_wake W s) = {} \<or> length (tp_tasks (tp_wake W s)) \<le> card (at on_way (tp_worker (tp_wake W s)))"
      using iD(3) m by (auto simp: tp_wake_sets)
    show "tp_running (tp_wake W s) \<or> asleep (tp_wake W s) = {}"
      using iD(4) by (auto simp: tp_wake_sets)
  qed (use iD in auto)
qed

lemma tp_inv_enqueue:
  assumes i: "tp_inv s" and r: "tp_running s" and W: "signalled W (asleep s)"
  shows "tp_inv (tp_wake W (s\<lparr>tp_tasks := tp_tasks s @ [f]\<rparr>))"
proof -
  let ?s = "tp_wake W (s\<lparr>tp_tasks := tp_tasks s @ [f]\<rparr>)"
  note iD = tp_invD [OF i]
  have w: "tp_worker ?s = tp_worker (tp_wake W s)" "asleep ?s = asleep (tp_wake W s)"
    by (simp_all add: tp_wake_def asleep_def cong: if_cong)
  show ?thesis
    unfolding tp_inv_def w
  proof (intro conjI)
    show "tp_sleeping ?s = int (card (asleep (tp_wake W s))) + int (card (at (\<lambda>w. w = Woken) (tp_worker (tp_wake W s))))"
      using tp_wake_count [OF i, of W] iD(2) by simp
    show "asleep (tp_wake W s) = {} \<or> length (tp_tasks ?s) \<le> card (at on_way (tp_worker (tp_wake W s)))"
    proof (cases "asleep s - W = {}")
      case False
      then show ?thesis
        unfolding tp_wake_sets
        using iD(3) card_woken [OF tp_finites(3,1) [OF i] asleep_disjoint(2) W False] by auto
    qed (simp add: tp_wake_sets)
  qed (use iD r in auto)
qed

lemma tp_inv_stop:
  assumes i: "tp_inv s"
  shows "tp_inv (tp_wake (asleep s) (s\<lparr>tp_running := False\<rparr>))"
proof -
  let ?s = "tp_wake (asleep s) (s\<lparr>tp_running := False\<rparr>)"
  note iD = tp_invD [OF i]
  have w: "tp_worker ?s = tp_worker (tp_wake (asleep s) s)" "asleep ?s = asleep (tp_wake (asleep s) s)"
    by (simp_all add: tp_wake_def asleep_def cong: if_cong)
  show ?thesis
    unfolding tp_inv_def w
  proof (intro conjI)
    show "tp_sleeping ?s = int (card (asleep (tp_wake (asleep s) s))) +
        int (card (at (\<lambda>w. w = Woken) (tp_worker (tp_wake (asleep s) s))))"
      using tp_wake_count [OF i, of "asleep s"] iD(2) by simp
  qed (use iD in \<open>auto simp: tp_wake_sets\<close>)
qed

text \<open>The counts when worker \<open>t\<close> goes from \<open>tp_worker s t\<close> to \<open>w\<close>.\<close>

lemma tp_counts:
  assumes "tp_inv s"
  shows "card (at (\<lambda>w. w = Asleep) ((tp_worker s)(t := w))) + (if tp_worker s t = Asleep then 1 else 0) =
      card (asleep s) + (if w = Asleep then 1 else 0)"
    and "card (at (\<lambda>w. w = Woken) ((tp_worker s)(t := w))) + (if tp_worker s t = Woken then 1 else 0) =
      card (at (\<lambda>w. w = Woken) (tp_worker s)) + (if w = Woken then 1 else 0)"
    and "card (at on_way ((tp_worker s)(t := w))) + (if on_way (tp_worker s t) then 1 else 0) =
      card (at on_way (tp_worker s)) + (if on_way w then 1 else 0)"
  using card_at_upd [OF tp_finites(1) [OF assms, unfolded asleep_at]] card_at_upd [OF tp_finites(2) [OF assms]]
    card_at_upd [OF tp_finites(3) [OF assms]] unfolding asleep_at by blast+

text \<open>A worker on its way reaches the queue, with the counter \<open>c\<close> it has brought up to date.\<close>

lemma tp_inv_section:
  assumes i: "tp_inv s" and t: "on_way (tp_worker s t)"
    and c: "c = (if tp_worker s t = Woken then tp_sleeping s - 1 else tp_sleeping s)"
    and h: "handler_section t (s\<lparr>tp_sleeping := c\<rparr>) = (y, s')"
  shows "tp_inv s'"
proof -
  note iD = tp_invD [OF i]
  note n = tp_counts [OF i, of t]
  have started: "t < tp_num s"
    using t iD(1) [of t] by auto
  show ?thesis
  proof (cases "tp_tasks s")
    case Nil
    show ?thesis
    proof (cases "tp_running s")
      case True
      then have s': "s' = set_worker t Asleep (s\<lparr>tp_sleeping := c + 1\<rparr>)"
        using h Nil by (simp add: handler_section_def)
      show ?thesis
        unfolding tp_inv_def
      proof (intro conjI)
        show "tp_sleeping s' = int (card (asleep s')) + int (card (at (\<lambda>w. w = Woken) (tp_worker s')))"
          using n [of Asleep] t c iD(2) by (auto simp: s' asleep_at)
      qed (use iD Nil True started in \<open>auto simp: s'\<close>)
    next
      case False
      then have s': "s' = set_worker t Exited (s\<lparr>tp_sleeping := c\<rparr>)"
        using h Nil by (simp add: handler_section_def)
      have none: "asleep s' = {}"
        using iD(4) False by (auto simp: s' asleep_def)
      show ?thesis
        unfolding tp_inv_def
      proof (intro conjI)
        show "tp_sleeping s' = int (card (asleep s')) + int (card (at (\<lambda>w. w = Woken) (tp_worker s')))"
          using n [of Exited] t c iD(2) by (auto simp: s' asleep_at)
      qed (use iD Nil False started none in \<open>auto simp: s'\<close>)
    qed
  next
    case (Cons f rest)
    then have s': "s' = set_worker t (Working f) (s\<lparr>tp_sleeping := c, tp_tasks := rest\<rparr>)"
      using h by (simp add: handler_section_def)
    have sl: "asleep s' = asleep s"
      using t by (auto simp: s' asleep_def)
    show ?thesis
      unfolding tp_inv_def
    proof (intro conjI)
      show "tp_sleeping s' = int (card (asleep s')) + int (card (at (\<lambda>w. w = Woken) (tp_worker s')))"
        using n [of "Working f"] t c iD(2) by (auto simp: sl) (auto simp: s' asleep_at)
      show "asleep s' = {} \<or> length (tp_tasks s') \<le> card (at on_way (tp_worker s'))"
        using n(3) [of "Working f"] t iD(3) Cons unfolding sl by (auto simp: s')
      show "tp_running s' \<or> asleep s' = {}"
        unfolding sl using iD(4) by (simp add: s')
      show "\<forall>u. tp_worker s' u = Exited \<longrightarrow> \<not> tp_running s' \<and> tp_tasks s' = []"
        using iD(5) Cons by (auto simp: s')
    qed (use iD started in \<open>auto simp: s'\<close>)
  qed
qed

lemma tp_inv_finish:
  assumes i: "tp_inv s" and t: "tp_worker s t = Working f"
  shows "tp_inv (set_worker t Ready s)"
proof -
  note iD = tp_invD [OF i]
  note n = tp_counts [OF i, of t Ready]
  have started: "t < tp_num s"
    using t iD(1) [of t] by auto
  have sl: "asleep (set_worker t Ready s) = asleep s"
    using t by (auto simp: asleep_def)
  show ?thesis
    unfolding tp_inv_def sl using iD started n t by (auto simp: asleep_at)
qed

lemma tp_inv_HandlerTask:
  assumes i: "tp_inv s" and h: "HandlerTask t s = Some (y, s')"
  shows "tp_inv s' \<and> y @ tp_tasks s' = tp_tasks s"
proof -
  consider (R) "tp_worker s t = Ready" | (W) "tp_worker s t = Woken" | (F) f where "tp_worker s t = Working f"
    using h by (auto simp: HandlerTask_def split: worker.splits)
  then show ?thesis
  proof cases
    case R
    then have "handler_section t (s\<lparr>tp_sleeping := tp_sleeping s\<rparr>) = (y, s')"
      using h by (simp add: HandlerTask_def)
    with tp_inv_section [OF i _ _ this] R show ?thesis
      by (auto simp: handler_section_def split: list.splits if_splits)
  next
    case W
    then have "handler_section t (s\<lparr>tp_sleeping := tp_sleeping s - 1\<rparr>) = (y, s')"
      using h by (simp add: HandlerTask_def)
    with tp_inv_section [OF i _ _ this] W show ?thesis
      by (auto simp: handler_section_def split: list.splits if_splits)
  next
    case F
    then show ?thesis
      using h tp_inv_finish [OF i F] by (auto simp: HandlerTask_def)
  qed
qed

section \<open>What every pool with such signals does\<close>

text \<open>What is left to do for the workers of a stopped pool: take and run the tasks, and leave.\<close>

primrec weight :: "'f worker \<Rightarrow> nat" where
  "weight NotStarted = 0" | "weight Ready = 1" | "weight Asleep = 0" | "weight Woken = 1"
| "weight (Working f) = 2" | "weight Exited = 0"

definition work_left :: "'f thread_pool \<Rightarrow> nat" where
  "work_left s = 3 * length (tp_tasks s) + (\<Sum>t < tp_num s. weight (tp_worker s t))"

lemma sum_weight_upd:
  fixes n :: nat
  assumes "t < n"
  shows "(\<Sum>u < n. weight ((f(t := w)) u)) + weight (f t) = (\<Sum>u < n. weight (f u)) + weight w"
proof -
  have "(\<Sum>u \<in> {..<n} - {t}. weight ((f(t := w)) u)) = (\<Sum>u \<in> {..<n} - {t}. weight (f u))"
    by (intro sum.cong) auto
  then show ?thesis
    using assms sum.remove [of "{..<n}" t "\<lambda>u. weight ((f(t := w)) u)", OF finite_lessThan]
      sum.remove [of "{..<n}" t "\<lambda>u. weight (f u)", OF finite_lessThan]
    by simp
qed

lemma work_decreases:
  assumes i: "tp_inv s" and stopped: "\<not> tp_running s" and h: "HandlerTask t s = Some (y, s')"
  shows "\<not> tp_running s' \<and> work_left s' < work_left s"
proof -
  have t: "t < tp_num s"
    using h tp_invD(1) [OF i, of t] by (auto simp: HandlerTask_def)
  note sum = sum_weight_upd [OF t, of "tp_worker s"]
  show ?thesis
    using h stopped sum [of Exited] sum [of Ready] sum [of "Working f" for f]
    by (cases "tp_worker s t"; cases "tp_tasks s")
      (auto simp: HandlerTask_def handler_section_def work_left_def simp del: fun_upd_apply)
qed

lemma all_gone:
  assumes i: "tp_inv s" and stopped: "\<not> tp_running s" and n: "0 < tp_num s"
    and stuck: "\<forall>t. HandlerTask t s = None"
  shows "(\<forall>t < tp_num s. tp_worker s t = Exited) \<and> tp_tasks s = []"
proof -
  have e: "tp_worker s t = Exited" if "t < tp_num s" for t
  proof -
    have "tp_worker s t \<noteq> NotStarted" "tp_worker s t \<noteq> Asleep"
      using that tp_invD(1) [OF i, of t] tp_invD(4) [OF i] stopped by (auto simp: asleep_def)
    then show ?thesis
      using spec [OF stuck, of t] by (cases "tp_worker s t") (auto simp: HandlerTask_def)
  qed
  then show ?thesis
    using tp_invD(5) [OF i e [OF n]] by blast
qed

context pool_signals
begin

lemma step_ok:
  assumes "tp_step enqueue stop s x y s'" "tp_inv s"
  shows "tp_inv s' \<and> y @ tp_tasks s' = tp_tasks s @ x \<and> tp_num s' = tp_num s"
  using assms
proof (induction rule: tp_step.induct)
  case (tp_enq W s f)
  then show ?case
    using enqueue_ok [OF tp_enq.prems tp_enq.hyps] tp_inv_enqueue [OF tp_enq.prems _ tp_enq.hyps] by auto
next
  case (tp_stop s)
  then show ?case
    using stop_ok [OF tp_stop] tp_inv_stop [OF tp_stop] by simp
next
  case (tp_work t s y s')
  have "tp_num s' = tp_num s"
    using tp_work.hyps by (auto simp: HandlerTask_def handler_section_def split: worker.splits list.splits if_splits)
  then show ?case
    using tp_inv_HandlerTask [OF tp_work.prems tp_work.hyps] by simp
next
  case (tp_spurious t s)
  then show ?case
    by (simp add: tp_inv_wake)
qed

end

text \<open>The tasks of such a pool pass through a queue: the contract of the queues holds for them.\<close>

sublocale pool_signals \<subseteq> fifo_steps tp_inv "tp_step enqueue stop" tp_tasks
  by unfold_locales (use step_ok in blast)+

context pool_signals
begin

lemma run_num: "q_run (tp_step enqueue stop) s xs ys s' \<Longrightarrow> tp_inv s \<Longrightarrow> tp_num s' = tp_num s"
proof (induction rule: q_run.induct)
  case (q_step s xs ys s1 x y s2)
  then show ?case
    using step_ok [OF q_step.hyps(2)] run_ok [OF q_step.hyps(1)] by simp
qed simp

end

interpretation tp: pool_signals tp_Enqueue tp_Stop
proof unfold_locales
  fix s :: "'f thread_pool"
  assume i: "tp_inv s"
  show "tp_Stop s = tp_wake (asleep s) (s\<lparr>tp_running := False\<rparr>)"
  proof (cases "tp_sleeping s > 0")
    case False
    then have "asleep s = {}"
      by (rule nobody_asleep [OF i])
    then show ?thesis
      using False by (simp add: tp_Stop_def tp_wake_def)
  qed (simp add: tp_Stop_def)
qed (simp add: tp_Enqueue_def)

interpretation lp: pool_signals lp_Enqueue lp_Stop
proof unfold_locales
  fix s :: "'f thread_pool" and W f
  assume i: "tp_inv s" and W: "signalled W (asleep s)"
  show "lp_Enqueue f W s = (if tp_running s then tp_wake W (s\<lparr>tp_tasks := tp_tasks s @ [f]\<rparr>) else s)"
  proof (cases "tp_sleeping s > 0")
    case False
    then have "W = {}"
      using nobody_asleep [OF i] W by (simp add: signalled_def)
    then show ?thesis
      using False by (simp add: lp_Enqueue_def tp_wake_def)
  qed (simp add: lp_Enqueue_def)
qed (simp add: lp_Stop_def Let_def)

lemma tp_start_inv: "tp_inv (tp_Start (tp_Init (tp_new n)))"
proof -
  have sets: "asleep (tp_Start (tp_Init (tp_new n))) = {}" "at (\<lambda>w. w = Woken) (tp_worker (tp_Start (tp_Init (tp_new n)))) = {}"
    by (auto simp: asleep_def at_def tp_Start_def tp_Init_def tp_new_def split: if_splits)
  show ?thesis
    unfolding tp_inv_def sets by (auto simp: tp_Start_def tp_Init_def tp_new_def)
qed

lemma tp_start_fields [simp]:
  "tp_tasks (tp_Start (tp_Init (tp_new n))) = []" "tp_num (tp_Start (tp_Init (tp_new n))) = n"
  by (simp_all add: tp_Start_def tp_Init_def tp_new_def)

section \<open>The two pools\<close>

text \<open>C22: the pool starts its tasks in the order in which it has accepted them, each once, and loses no wake-up: as
  long as a task waits, some worker is on its way to the queue or running a task.\<close>

theorem ThreadPool_no_lost_task:
  assumes run: "q_run (tp_step tp_Enqueue tp_Stop) (tp_Start (tp_Init (tp_new n))) xs ys s" and n: "0 < n"
  shows "xs = ys @ tp_tasks s \<and>
    (tp_tasks s = [] \<or> (\<exists>t < n. tp_worker s t = Ready \<or> tp_worker s t = Woken \<or> (\<exists>f. tp_worker s t = Working f)))"
proof -
  from tp.run_ok [OF run tp_start_inv] have i: "tp_inv s"
    by simp
  from tp.run_num [OF run tp_start_inv] have num: "tp_num s = n"
    by simp
  have "\<exists>t < n. tp_worker s t = Ready \<or> tp_worker s t = Woken \<or> (\<exists>f. tp_worker s t = Working f)" if ne: "tp_tasks s \<noteq> []"
  proof (cases "asleep s = {}")
    case True
    then have "tp_worker s 0 \<noteq> Asleep" "tp_worker s 0 \<noteq> Exited" "tp_worker s 0 \<noteq> NotStarted"
      using tp_invD(1) [OF i, of 0] tp_invD(5) [OF i, of 0] ne n num by (auto simp: asleep_def)
    then show ?thesis
      using n by (cases "tp_worker s 0") auto
  next
    case False
    then have "at on_way (tp_worker s) \<noteq> {}"
      using tp_invD(3) [OF i] ne by auto
    then obtain t where t: "on_way (tp_worker s t)"
      by (auto simp: at_def)
    then have "t < n"
      using tp_invD(1) [OF i, of t] num by auto
    with t show ?thesis
      by auto
  qed
  then show ?thesis
    using tp.run_fifo [OF run tp_start_inv] by auto
qed

text \<open>One worker that has gone to sleep, and a task that wakes it.\<close>

definition one_worker :: "nat worker \<Rightarrow> int \<Rightarrow> nat list \<Rightarrow> nat thread_pool" where
  "one_worker w c xs = \<lparr>tp_running = True, tp_tasks = xs, tp_num = 1, tp_sleeping = c,
     tp_worker = (\<lambda>t. if t = 0 then w else NotStarted)\<rparr>"

lemma one_worker_start: "tp_Start (tp_Init (tp_new 1)) = one_worker Ready 0 []"
  by (auto simp: one_worker_def tp_Start_def tp_Init_def tp_new_def)

lemma one_worker_run: "q_run (tp_step tp_Enqueue tp_Stop) (tp_Start (tp_Init (tp_new 1))) [5] [] (one_worker Woken 1 [5])"
proof -
  have "HandlerTask 0 (one_worker Ready 0 []) = Some ([], one_worker Asleep 1 [])"
    by (auto simp: HandlerTask_def handler_section_def one_worker_def)
  then have "q_run (tp_step tp_Enqueue tp_Stop) (one_worker Ready 0 []) [] [] (one_worker Asleep 1 [])"
    by (intro q_run_step1 tp_work)
  moreover have "tp_step tp_Enqueue tp_Stop (one_worker Asleep 1 []) [5] [] (one_worker Woken 1 [5])"
  proof -
    have "signalled {0} (asleep (one_worker Asleep 1 []))"
      by (auto simp: signalled_def asleep_def one_worker_def)
    moreover have "tp_Enqueue 5 {0} (one_worker Asleep 1 []) = one_worker Woken 1 [5]"
      by (auto simp: tp_Enqueue_def tp_wake_def one_worker_def)
    ultimately show ?thesis
      using tp_enq [of "{0}" "one_worker Asleep 1 []" tp_Enqueue tp_Stop 5] by (simp add: one_worker_def)
  qed
  ultimately have "q_run (tp_step tp_Enqueue tp_Stop) (one_worker Ready 0 []) ([] @ [5]) ([] @ []) (one_worker Woken 1 [5])"
    by (rule q_run.q_step)
  then show ?thesis
    by (simp only: one_worker_start append_Nil)
qed

lemma ThreadPool_no_lost_task_witness:
  "tp_tasks (one_worker Woken 1 [5]) = [5] \<and> (\<exists>t < 1. tp_worker (one_worker Woken 1 [5]) t = Ready \<or>
     tp_worker (one_worker Woken 1 [5]) t = Woken \<or> (\<exists>f. tp_worker (one_worker Woken 1 [5]) t = Working f))"
  using ThreadPool_no_lost_task [OF one_worker_run zero_less_one] by (auto simp: one_worker_def)

text \<open>C23: after \<open>Stop\<close> every step of a worker brings the pool nearer to its end, and where no worker can go on
  every worker has left, so that the joins return, and every task that was accepted has been run.\<close>

theorem Stop_drains:
  assumes run: "q_run (tp_step lp_Enqueue lp_Stop) (tp_Start (tp_Init (tp_new n))) xs ys s" and n: "0 < n"
    and stopped: "\<not> tp_running s"
  shows "(\<forall>t y s'. HandlerTask t s = Some (y, s') \<longrightarrow> \<not> tp_running s' \<and> work_left s' < work_left s) \<and>
    ((\<forall>t. HandlerTask t s = None) \<longrightarrow> (\<forall>t < n. tp_worker s t = Exited) \<and> tp_tasks s = [] \<and> xs = ys)"
proof -
  from lp.run_ok [OF run tp_start_inv] have i: "tp_inv s" and c: "ys @ tp_tasks s = xs"
    by simp_all
  from lp.run_num [OF run tp_start_inv] have num: "tp_num s = n"
    by simp
  show ?thesis
    using work_decreases [OF i stopped] all_gone [OF i stopped] n c by (auto simp: num)
qed

lemma Stop_drains_witness:
  "\<not> tp_running (lp_Stop (one_worker Ready 0 [])) \<and>
   work_left (snd (the (HandlerTask 0 (lp_Stop (one_worker Ready 0 []))))) < work_left (lp_Stop (one_worker Ready 0 []))"
proof -
  let ?s = "lp_Stop (one_worker Ready 0 [])"
  have "tp_step lp_Enqueue lp_Stop (tp_Start (tp_Init (tp_new 1))) [] [] ?s"
    unfolding one_worker_start by (rule tp_stop)
  then have run: "q_run (tp_step lp_Enqueue lp_Stop) (tp_Start (tp_Init (tp_new 1))) [] [] ?s"
    by (rule q_run_step1)
  have st: "\<not> tp_running ?s"
    by (simp add: lp_Stop_def one_worker_def Let_def)
  obtain y s' where "HandlerTask 0 ?s = Some (y, s')"
    by (auto simp: HandlerTask_def handler_section_def lp_Stop_def one_worker_def tp_wake_def Let_def)
  then show ?thesis
    using Stop_drains [OF run zero_less_one st] st by auto
qed

section \<open>The single instance\<close>

text \<open>
  \<open>ThreadPoolSinglton\<close> and \<open>GetSingleInstance\<close>: the pointer is read, and if it is null it is read again under the
  lock before a pool is made. \<open>si_made\<close> counts the pools that have been made; the pool number \<open>k\<close> has
  the address \<open>k\<close>. Reads and writes of the pointer are taken as atomic and in order, which the plain pointer
  of the code does not promise.
\<close>

datatype single_pc = Calling | WantLock | Recheck | Unlock | Return | Got "nat option"

record singleton =
  si_instance :: "nat option"
  si_lock :: "tid option"
  si_made :: nat
  si_pc :: "tid \<Rightarrow> single_pc"

definition si_init :: singleton where
  "si_init = \<lparr>si_instance = None, si_lock = None, si_made = 0, si_pc = (\<lambda>_. Calling)\<rparr>"

definition GetSingleInstance :: "tid \<Rightarrow> singleton \<Rightarrow> singleton option" where
  "GetSingleInstance t s =
     (let go = (\<lambda>p s. Some (s\<lparr>si_pc := (si_pc s)(t := p)\<rparr>))
      in case si_pc s t of
        Calling \<Rightarrow> go (if si_instance s = None then WantLock else Return) s
      | WantLock \<Rightarrow> if si_lock s = None then go Recheck (s\<lparr>si_lock := Some t\<rparr>) else None
      | Recheck \<Rightarrow> if si_instance s = None
                  then go Unlock (s\<lparr>si_instance := Some (si_made s), si_made := si_made s + 1\<rparr>)
                  else go Unlock s
      | Unlock \<Rightarrow> go Return (s\<lparr>si_lock := None\<rparr>)
      | Return \<Rightarrow> go (Got (si_instance s)) s
      | Got p \<Rightarrow> None)"

inductive si_run :: "singleton \<Rightarrow> bool" where
  si_start: "si_run si_init"
| si_next: "si_run s \<Longrightarrow> GetSingleInstance t s = Some s' \<Longrightarrow> si_run s'"

definition si_inv :: "singleton \<Rightarrow> bool" where
  "si_inv s \<longleftrightarrow> (si_instance s = None \<and> si_made s = 0 \<or> si_instance s = Some 0 \<and> si_made s = 1) \<and>
     (\<forall>t. si_pc s t = Recheck \<or> si_pc s t = Unlock \<longleftrightarrow> si_lock s = Some t) \<and>
     (\<forall>t. si_pc s t = Unlock \<or> si_pc s t = Return \<longrightarrow> si_instance s \<noteq> None) \<and>
     (\<forall>t p. si_pc s t = Got p \<longrightarrow> p = Some 0 \<and> si_instance s \<noteq> None)"

lemma si_inv_step:
  assumes "si_inv s" "GetSingleInstance t s = Some s'"
  shows "si_inv s'"
proof (cases "si_pc s t = Unlock")
  case True
  have "u \<noteq> t \<Longrightarrow> si_pc s u \<noteq> Recheck" "u \<noteq> t \<Longrightarrow> si_pc s u \<noteq> Unlock" for u
    using assms(1) True unfolding si_inv_def by (metis option.inject)+
  then show ?thesis
    using assms True by (auto simp: GetSingleInstance_def si_inv_def Let_def split: if_splits)
next
  case False
  then show ?thesis
    using assms by (cases "si_pc s t") (auto simp: GetSingleInstance_def si_inv_def Let_def split: if_splits)
qed

text \<open>Whatever the threads that ask for the pool do at the same time, one pool is made at most, and every thread
  that returns has got that pool, never a null pointer.\<close>

theorem one_instance:
  assumes "si_run s"
  shows "si_made s \<le> 1 \<and> (\<forall>t p. si_pc s t = Got p \<longrightarrow> p = Some 0 \<and> si_instance s = Some 0)"
proof -
  from assms have "si_inv s"
  proof (induction rule: si_run.induct)
    case si_start
    show ?case
      by (simp add: si_inv_def si_init_def)
  next
    case (si_next s t s')
    then show ?case
      using si_inv_step by blast
  qed
  then show ?thesis
    by (auto simp: si_inv_def)
qed

lemma one_instance_witness:
  "si_made (the (GetSingleInstance 0 si_init)) \<le> 1"
proof -
  have "GetSingleInstance 0 si_init = Some (the (GetSingleInstance 0 si_init))"
    by (simp add: GetSingleInstance_def si_init_def)
  from one_instance [OF si_next [OF si_start this]] show ?thesis
    by (rule conjunct1)
qed

end
