(* ===== verification/C_String.thy ===== *)
theory C_String
  imports Prelude
begin

text \<open>
  Strings of C in an array of bytes: what a pointer into the array reads up to the null byte, the scans
  \<open>while (...) ++p;\<close> that the programs and \<open>strspn\<close>, \<open>strcspn\<close> run, the functions of the C library that the shell
  calls (\<open>strtok\<close>, \<open>strcpy\<close>), and the exercises on strings of \<open>src/Test_10_23_str_func/str_func.cc\<close>: three
  versions of \<open>strlen\<close>, which agree, \<open>my_strcpy\<close> and \<open>my_strcat\<close>. An access outside the array is
  \<open>OutOfBounds\<close>.
\<close>

section \<open>Arrays of bytes\<close>

type_synonym cbuf = "char list"

abbreviation NUL :: char where
  "NUL \<equiv> CHR 0x00"

definition rd :: "cbuf \<Rightarrow> nat \<Rightarrow> char res" where
  "rd m p = (if p < length m then Inr (m ! p) else Inl OutOfBounds)"

definition wr :: "cbuf \<Rightarrow> nat \<Rightarrow> char \<Rightarrow> cbuf res" where
  "wr m p c = (if p < length m then Inr (m[p := c]) else Inl OutOfBounds)"

text \<open>The string a pointer reads, and that it ends inside the array.\<close>

definition cstr :: "cbuf \<Rightarrow> nat \<Rightarrow> string" where
  "cstr m p = takeWhile (\<lambda>c. c \<noteq> NUL) (drop p m)"

definition ends_in :: "cbuf \<Rightarrow> nat \<Rightarrow> bool" where
  "ends_in m p \<longleftrightarrow> NUL \<in> set (drop p m)"

text \<open>\<open>while (P(*p)) ++p;\<close>\<close>

function scan :: "(char \<Rightarrow> bool) \<Rightarrow> cbuf \<Rightarrow> nat \<Rightarrow> nat res" where
  "scan P m p = (if p < length m then if P (m ! p) then scan P m (Suc p) else Inr p else Inl OutOfBounds)"
  by pat_completeness auto

termination
  by (relation "measure (\<lambda>(P, m, p). length m - p)") auto

declare scan.simps [simp del]

section \<open>What a pointer reads\<close>

lemma rd_Inr: "p < length m \<Longrightarrow> rd m p = Inr (m ! p)"
  by (simp add: rd_def)

lemma ends_in_less: "ends_in m p \<Longrightarrow> p < length m"
  unfolding ends_in_def by (cases "p < length m") auto

lemma cstr_step:
  assumes "p < length m"
  shows "cstr m p = (if m ! p = NUL then [] else m ! p # cstr m (Suc p))"
  using Cons_nth_drop_Suc [OF assms] by (simp add: cstr_def flip: Cons_nth_drop_Suc [OF assms])

lemma ends_in_step:
  assumes "p < length m"
  shows "ends_in m p \<longleftrightarrow> m ! p = NUL \<or> ends_in m (Suc p)"
  by (auto simp add: ends_in_def simp flip: Cons_nth_drop_Suc [OF assms])

lemma cstr_Nil_iff: "ends_in m p \<Longrightarrow> cstr m p = [] \<longleftrightarrow> m ! p = NUL"
  using cstr_step [OF ends_in_less] by simp

lemma NUL_notin_cstr: "NUL \<notin> set (cstr m p)"
  by (auto simp: cstr_def dest: set_takeWhileD)

lemma ends_in_iff: "ends_in m p \<longleftrightarrow> (\<exists>e. p \<le> e \<and> e < length m \<and> m ! e = NUL)"
proof
  assume "ends_in m p"
  then obtain i where "i < length (drop p m)" "drop p m ! i = NUL"
    unfolding ends_in_def by (auto simp: in_set_conv_nth)
  then show "\<exists>e. p \<le> e \<and> e < length m \<and> m ! e = NUL"
    by (intro exI [of _ "p + i"]) auto
next
  assume "\<exists>e. p \<le> e \<and> e < length m \<and> m ! e = NUL"
  then obtain e where "p \<le> e" "e < length m" "m ! e = NUL"
    by auto
  then have "drop p m ! (e - p) = NUL" "e - p < length (drop p m)"
    by auto
  then show "ends_in m p"
    unfolding ends_in_def by (metis nth_mem)
qed

lemma ends_in_later: "ends_in m q \<Longrightarrow> p \<le> q \<Longrightarrow> ends_in m p"
  using ends_in_iff le_trans by metis

text \<open>The string at \<open>p\<close> is known from its bytes and the null byte after them.\<close>

lemma cstrI:
  assumes "p + length s < length m" "\<And>i. i < length s \<Longrightarrow> m ! (p + i) = s ! i" "NUL \<notin> set s"
    "m ! (p + length s) = NUL"
  shows "cstr m p = s"
  using assms
proof (induction s arbitrary: p)
  case Nil
  then show ?case
    by (simp add: cstr_step)
next
  case (Cons c s)
  have c: "m ! p = c"
    using Cons.prems(2) [of 0] by simp
  moreover have "cstr m (Suc p) = s"
  proof (rule Cons.IH)
    show "m ! (Suc p + i) = s ! i" if "i < length s" for i
      using Cons.prems(2) [of "Suc i"] that by simp
  qed (use Cons.prems in auto)
  ultimately show ?case
    using Cons.prems by (auto simp: cstr_step [of p m])
qed

lemma takeWhile_shorter: "NUL \<in> set xs \<Longrightarrow> length (takeWhile (\<lambda>c. c \<noteq> NUL) xs) < length xs"
  by (induction xs) auto

lemma cstr_nth:
  assumes "ends_in m p"
  shows "p + length (cstr m p) < length m" "m ! (p + length (cstr m p)) = NUL"
    "i < length (cstr m p) \<Longrightarrow> m ! (p + i) = cstr m p ! i"
proof -
  let ?n = "length (cstr m p)"
  have "?n < length (drop p m)"
    unfolding cstr_def by (rule takeWhile_shorter) (use assms in \<open>simp add: ends_in_def\<close>)
  then show l: "p + ?n < length m"
    by simp
  have "drop p m ! ?n = NUL"
    using nth_length_takeWhile [of "\<lambda>c. c \<noteq> NUL" "drop p m"] \<open>?n < length (drop p m)\<close>
    unfolding cstr_def by auto
  then show "m ! (p + ?n) = NUL"
    using l by simp
  show "m ! (p + i) = cstr m p ! i" if "i < ?n"
    using that l takeWhile_nth [of i "\<lambda>c. c \<noteq> NUL" "drop p m"] unfolding cstr_def by simp
qed

lemma cstr_terminated: "NUL \<notin> set l \<Longrightarrow> cstr (l @ [NUL]) 0 = l"
  by (simp add: cstr_def) (subst takeWhile_append2, auto)

text \<open>Arrays that agree on a string read the same string.\<close>

lemma cstr_cong:
  assumes "ends_in m p" "length m' = length m" "\<And>i. p \<le> i \<Longrightarrow> i \<le> p + length (cstr m p) \<Longrightarrow> m' ! i = m ! i"
  shows "cstr m' p = cstr m p"
proof (rule cstrI)
  show "p + length (cstr m p) < length m'"
    using cstr_nth(1) [OF assms(1)] assms(2) by simp
  show "m' ! (p + i) = cstr m p ! i" if "i < length (cstr m p)" for i
    using assms(3) [of "p + i"] that cstr_nth(3) [OF assms(1) that] by simp
  show "m' ! (p + length (cstr m p)) = NUL"
    using assms(3) cstr_nth(2) [OF assms(1)] by simp
qed (rule NUL_notin_cstr)

lemma cstr_later:
  assumes "ends_in m p" "k \<le> length (cstr m p)"
  shows "ends_in m (p + k)" "cstr m (p + k) = drop k (cstr m p)"
proof -
  show e: "ends_in m (p + k)"
    using cstr_nth(1,2) [OF assms(1)] assms(2) ends_in_iff by (metis add_le_mono1 le_add_same_cancel1 add_left_mono)
  show "cstr m (p + k) = drop k (cstr m p)"
  proof (rule cstrI)
    show "m ! (p + k + i) = drop k (cstr m p) ! i" if "i < length (drop k (cstr m p))" for i
      using cstr_nth(3) [OF assms(1), of "k + i"] that by (simp add: add.assoc)
    show "NUL \<notin> set (drop k (cstr m p))"
      using NUL_notin_cstr set_drop_subset by (metis subsetD)
  qed (use cstr_nth(1,2) [OF assms(1)] assms(2) in simp_all)
qed

text \<open>Writing a null byte into a string cuts it, writing behind it changes nothing.\<close>

lemma cstr_cut:
  assumes "ends_in m p" "k \<le> length (cstr m p)"
  shows "cstr (m[p + k := NUL]) p = take k (cstr m p)" "ends_in (m[p + k := NUL]) p"
proof -
  have l: "p + k < length m"
    using assms cstr_nth(1) [OF assms(1)] by simp
  then show "ends_in (m[p + k := NUL]) p"
    by (auto simp: ends_in_iff intro: exI [of _ "p + k"])
  show "cstr (m[p + k := NUL]) p = take k (cstr m p)"
  proof (rule cstrI)
    show "m[p + k := NUL] ! (p + i) = take k (cstr m p) ! i" if "i < length (take k (cstr m p))" for i
      using cstr_nth(3) [OF assms(1), of i] that by simp
    show "NUL \<notin> set (take k (cstr m p))"
      using NUL_notin_cstr set_take_subset by (metis subsetD)
  qed (use l assms(2) in simp_all)
qed

lemma cstr_upd_other:
  assumes "ends_in m p" "j < p \<or> p + length (cstr m p) < j"
  shows "cstr (m[j := c]) p = cstr m p" "ends_in (m[j := c]) p"
proof -
  show "cstr (m[j := c]) p = cstr m p"
    by (rule cstr_cong [OF assms(1)]) (use assms(2) in auto)
  show "ends_in (m[j := c]) p"
    unfolding ends_in_iff using cstr_nth(1,2) [OF assms(1)] assms(2)
    by (intro exI [of _ "p + length (cstr m p)"]) auto
qed

text \<open>A scan that stops at the null byte stays inside the string.\<close>

lemma scan_ok:
  assumes "ends_in m p" "\<not> P NUL"
  shows "scan P m p = Inr (p + length (takeWhile P (cstr m p)))"
  using assms
proof (induction "length m - p" arbitrary: p)
  case 0
  then show ?case
    using ends_in_less by fastforce
next
  case (Suc n)
  have l: "p < length m"
    using Suc.prems ends_in_less by blast
  show ?case
  proof (cases "P (m ! p)")
    case True
    then have "m ! p \<noteq> NUL"
      using Suc.prems by metis
    then have "ends_in m (Suc p)"
      using Suc.prems ends_in_step [OF l] by simp
    then have "scan P m (Suc p) = Inr (Suc p + length (takeWhile P (cstr m (Suc p))))"
      using Suc by (intro Suc.hyps(1)) auto
    then show ?thesis
      using True \<open>m ! p \<noteq> NUL\<close> by (subst scan.simps) (simp add: l cstr_step)
  next
    case False
    then show ?thesis
      by (subst scan.simps) (auto simp: l cstr_step)
  qed
qed

lemma scan_to_end:
  assumes "ends_in m p"
  shows "scan (\<lambda>c. c \<noteq> NUL) m p = Inr (p + length (cstr m p))"
proof -
  have "takeWhile (\<lambda>c. c \<noteq> NUL) (cstr m p) = cstr m p"
    using NUL_notin_cstr by (simp add: takeWhile_eq_all_conv) metis
  then show ?thesis
    using scan_ok [OF assms, of "\<lambda>c. c \<noteq> NUL"] by (metis (full_types))
qed

section \<open>The C library\<close>

text \<open>\<open>strcpy(dest, src)\<close> between different arrays, and \<open>strtok\<close> with the pointer it saves between calls:
  it skips delimiters, ends the token at the next delimiter with a null byte and saves the place behind it.\<close>

definition overwrite :: "cbuf \<Rightarrow> nat \<Rightarrow> string \<Rightarrow> cbuf" where
  "overwrite m q s = take q m @ s @ drop (q + length s) m"

definition strcpy :: "cbuf \<Rightarrow> nat \<Rightarrow> cbuf \<Rightarrow> nat \<Rightarrow> cbuf res" where
  "strcpy md q ms p =
    (if ends_in ms p \<and> q + length (cstr ms p) < length md then Inr (overwrite md q (cstr ms p @ [NUL]))
     else Inl OutOfBounds)"

definition strtok :: "string \<Rightarrow> cbuf \<Rightarrow> nat \<Rightarrow> (nat option \<times> nat \<times> cbuf) res" where
  "strtok delim m p =
    rbind (scan (\<lambda>c. c \<in> set delim) m p) (\<lambda>s.
      if m ! s = NUL then Inr (None, s, m)
      else rbind (scan (\<lambda>c. c \<notin> set delim \<and> c \<noteq> NUL) m s) (\<lambda>e.
        if m ! e = NUL then Inr (Some s, e, m) else Inr (Some s, Suc e, m[e := NUL])))"

lemma length_overwrite: "q + length s \<le> length m \<Longrightarrow> length (overwrite m q s) = length m"
  by (simp add: overwrite_def)

lemma nth_overwrite:
  assumes "q + length s \<le> length m" "i < length m"
  shows "overwrite m q s ! i = (if q \<le> i \<and> i < q + length s then s ! (i - q) else m ! i)"
  using assms by (auto simp: overwrite_def nth_append)

lemma cstr_overwrite:
  assumes "q + length s < length m" "NUL \<notin> set s"
  shows "cstr (overwrite m q (s @ [NUL])) q = s" "ends_in (overwrite m q (s @ [NUL])) q"
proof -
  let ?m = "overwrite m q (s @ [NUL])"
  have l: "length ?m = length m"
    using assms by (simp add: length_overwrite)
  have n: "?m ! i = (s @ [NUL]) ! (i - q)" if "q \<le> i" "i \<le> q + length s" for i
    using assms that by (subst nth_overwrite) auto
  have e: "?m ! (q + length s) = NUL"
    using n [of "q + length s"] by simp
  show "cstr ?m q = s"
  proof (rule cstrI)
    show "?m ! (q + i) = s ! i" if "i < length s" for i
      using n [of "q + i"] that by (simp add: nth_append)
  qed (use assms l e in auto)
  show "ends_in ?m q"
    using assms l e by (auto simp: ends_in_iff intro: exI [of _ "q + length s"])
qed

lemma strcpy_ok:
  assumes "ends_in ms p" "q + length (cstr ms p) < length md"
  obtains md' where "strcpy md q ms p = Inr md'" "cstr md' q = cstr ms p" "ends_in md' q" "length md' = length md"
  using assms cstr_overwrite [of q "cstr ms p" md] NUL_notin_cstr [of ms p]
  by (auto simp: strcpy_def length_overwrite)

section \<open>The exercises\<close>

fun lower_to_upper :: "cbuf \<Rightarrow> nat \<Rightarrow> nat \<Rightarrow> cbuf res" where
  "lower_to_upper str i 0 = Inr str"
| "lower_to_upper str i (Suc n) =
    rbind (rd str i) (\<lambda>c.
      lower_to_upper (if of_char CHR ''a'' \<le> (of_char c :: nat) \<and> of_char c \<le> (of_char CHR ''z'' :: nat)
                      then str[i := char_of (of_char c - 32 :: nat)] else str) (Suc i) n)"

function my_strlen1_loop :: "cbuf \<Rightarrow> nat \<Rightarrow> i32 \<Rightarrow> i32 res" where
  "my_strlen1_loop str ch num =
    (if ch < length str then if str ! ch \<noteq> NUL then my_strlen1_loop str (Suc ch) (num + 1) else Inr num
     else Inl OutOfBounds)"
  by pat_completeness auto

termination
  by (relation "measure (\<lambda>(str, ch, num). length str - ch)") auto

definition my_strlen1 :: "cbuf \<Rightarrow> nat \<Rightarrow> i32 res" where
  "my_strlen1 str p = my_strlen1_loop str p 0"

function my_strlen2 :: "cbuf \<Rightarrow> nat \<Rightarrow> i32 res" where
  "my_strlen2 str p =
    (if p < length str then if str ! p = NUL then Inr 0 else rbind (my_strlen2 str (Suc p)) (\<lambda>n. Inr (1 + n))
     else Inl OutOfBounds)"
  by pat_completeness auto

termination
  by (relation "measure (\<lambda>(str, p). length str - p)") auto

definition my_strlen3 :: "cbuf \<Rightarrow> nat \<Rightarrow> i32 res" where
  "my_strlen3 str p = rbind (scan (\<lambda>c. c \<noteq> NUL) str p) (\<lambda>ch. Inr (word_of_int (int ch - int p)))"

function my_strcpy_loop :: "cbuf \<Rightarrow> nat \<Rightarrow> cbuf \<Rightarrow> nat \<Rightarrow> cbuf res" where
  "my_strcpy_loop ms src md dest =
    (if src < length ms
     then if ms ! src \<noteq> NUL
          then rbind (wr md dest (ms ! src)) (\<lambda>md. my_strcpy_loop ms (Suc src) md (Suc dest))
          else wr md dest NUL
     else Inl OutOfBounds)"
  by pat_completeness auto

termination
  by (relation "measure (\<lambda>(ms, src, md, dest). length ms - src)") auto

definition my_strcpy :: "cbuf \<Rightarrow> nat \<Rightarrow> cbuf \<Rightarrow> nat \<Rightarrow> (nat \<times> cbuf) res" where
  "my_strcpy ms src md dest = rbind (my_strcpy_loop ms src md dest) (\<lambda>md. Inr (dest, md))"

function my_strcat_loop :: "cbuf \<Rightarrow> nat \<Rightarrow> cbuf \<Rightarrow> nat \<Rightarrow> cbuf res" where
  "my_strcat_loop md dest ms src =
    (if src < length ms
     then rbind (wr md dest (ms ! src)) (\<lambda>md.
            if ms ! src \<noteq> NUL then my_strcat_loop md (Suc dest) ms (Suc src) else Inr md)
     else Inl OutOfBounds)"
  by pat_completeness auto

termination
  by (relation "measure (\<lambda>(md, dest, ms, src). length ms - src)") auto

definition my_strcat :: "cbuf \<Rightarrow> nat option \<Rightarrow> cbuf \<Rightarrow> nat option \<Rightarrow> (nat \<times> cbuf) res" where
  "my_strcat md dest ms src =
    (case dest of None \<Rightarrow> Inl AssertFailed | Some d \<Rightarrow>
     case src of None \<Rightarrow> Inl AssertFailed | Some s \<Rightarrow>
       rbind (scan (\<lambda>c. c \<noteq> NUL) md d) (\<lambda>e. rbind (my_strcat_loop md e ms s) (\<lambda>md. Inr (d, md))))"

declare my_strlen1_loop.simps [simp del] my_strlen2.simps [simp del] my_strcpy_loop.simps [simp del]
  my_strcat_loop.simps [simp del]

text \<open>Induction along a string.\<close>

lemma cstr_induct [consumes 1, case_names nul step]:
  assumes "ends_in m p"
    and "\<And>p. p < length m \<Longrightarrow> m ! p = NUL \<Longrightarrow> cstr m p = [] \<Longrightarrow> P p"
    and "\<And>p. p < length m \<Longrightarrow> m ! p \<noteq> NUL \<Longrightarrow> ends_in m (Suc p) \<Longrightarrow> cstr m p = m ! p # cstr m (Suc p) \<Longrightarrow> P (Suc p) \<Longrightarrow> P p"
  shows "P p"
  using assms(1)
proof (induction "length (cstr m p)" arbitrary: p)
  case 0
  then show ?case
    using assms(2) [of p] cstr_Nil_iff [of m p] ends_in_less by simp
next
  case (Suc n)
  have l: "p < length m"
    using Suc.prems ends_in_less by blast
  have n: "m ! p \<noteq> NUL"
    using Suc.hyps(2) cstr_step [OF l] by auto
  then have s: "cstr m p = m ! p # cstr m (Suc p)" "ends_in m (Suc p)"
    using cstr_step [OF l] ends_in_step [OF l] Suc.prems by simp_all
  show ?case
    by (rule assms(3) [OF l n s(2,1)]) (rule Suc.hyps(1), use s Suc.hyps(2) in simp_all)
qed

lemma my_strlen1_loop_ok:
  assumes "ends_in m p"
  shows "my_strlen1_loop m p num = Inr (num + of_nat (length (cstr m p)))"
  using assms
proof (induction arbitrary: num rule: cstr_induct)
  case (nul p)
  then show ?case
    by (subst my_strlen1_loop.simps) simp
next
  case (step p)
  then show ?case
    by (subst my_strlen1_loop.simps) (simp add: algebra_simps)
qed

lemma my_strlen2_ok:
  assumes "ends_in m p"
  shows "my_strlen2 m p = Inr (of_nat (length (cstr m p)))"
  using assms
proof (induction rule: cstr_induct)
  case (nul p)
  then show ?case
    by (subst my_strlen2.simps) simp
next
  case (step p)
  then show ?case
    by (subst my_strlen2.simps) simp
qed

lemma my_strlen3_ok:
  assumes "ends_in m p"
  shows "my_strlen3 m p = Inr (of_nat (length (cstr m p)))"
  using scan_to_end [OF assms] by (simp add: my_strlen3_def)

text \<open>The loop of \<open>my_strcpy\<close> and the one of \<open>my_strcat\<close> are the same copy.\<close>

lemma my_strcat_loop_eq: "my_strcat_loop md d ms s = my_strcpy_loop ms s md d"
proof (induction ms s md d rule: my_strcpy_loop.induct)
  case (1 ms src md dest)
  show ?case
  proof (cases "src < length ms \<and> dest < length md")
    case True
    show ?thesis
    proof (cases "ms ! src = NUL")
      case True
      with \<open>_ \<and> _\<close> show ?thesis
        by (subst my_strcat_loop.simps, subst my_strcpy_loop.simps) (simp add: wr_def)
    next
      case False
      then have "my_strcat_loop (md[dest := ms ! src]) (Suc dest) ms (Suc src) = my_strcpy_loop ms (Suc src) (md[dest := ms ! src]) (Suc dest)"
        using True by (intro "1.IH") simp_all
      then show ?thesis
        using True False by (subst my_strcat_loop.simps, subst my_strcpy_loop.simps) (simp add: wr_def)
    qed
  next
    case False
    then show ?thesis
      by (subst my_strcat_loop.simps, subst my_strcpy_loop.simps) (auto simp: wr_def)
  qed
qed

lemma overwrite_Cons:
  assumes "q < length m"
  shows "overwrite (m[q := c]) (Suc q) s = overwrite m q (c # s)"
  using assms by (simp add: overwrite_def take_Suc_conv_app_nth)

lemma overwrite_one: "q < length m \<Longrightarrow> overwrite m q [c] = m[q := c]"
  by (simp add: overwrite_def upd_conv_take_nth_drop)

lemma my_strcpy_loop_fits:
  assumes "ends_in ms p" "q + length (cstr ms p) < length md"
  shows "my_strcpy_loop ms p md q = Inr (overwrite md q (cstr ms p @ [NUL]))"
  using assms
proof (induction arbitrary: md q rule: cstr_induct)
  case (nul p)
  then show ?case
    by (subst my_strcpy_loop.simps) (simp add: wr_def overwrite_one)
next
  case (step p)
  then have "my_strcpy_loop ms (Suc p) (md[q := ms ! p]) (Suc q) =
      Inr (overwrite (md[q := ms ! p]) (Suc q) (cstr ms (Suc p) @ [NUL]))"
    by (intro step.IH) simp
  then show ?case
    using step by (subst my_strcpy_loop.simps) (simp add: wr_def overwrite_Cons)
qed

lemma my_strcpy_loop_bad:
  assumes "\<not> (ends_in ms p \<and> q + length (cstr ms p) < length md)"
  shows "my_strcpy_loop ms p md q = Inl OutOfBounds"
  using assms
proof (induction ms p md q rule: my_strcpy_loop.induct)
  case (1 ms src md dest)
  show ?case
  proof (cases "src < length ms \<and> ms ! src \<noteq> NUL \<and> dest < length md")
    case True
    then have l: "src < length ms" and n: "ms ! src \<noteq> NUL"
      by auto
    have "\<not> (ends_in ms (Suc src) \<and> Suc dest + length (cstr ms (Suc src)) < length (md[dest := ms ! src]))"
      using "1.prems" n by (auto simp: ends_in_step [OF l] cstr_step [OF l])
    then have "my_strcpy_loop ms (Suc src) (md[dest := ms ! src]) (Suc dest) = Inl OutOfBounds"
      using "1.IH" [OF l n] by simp
    then show ?thesis
      using True by (subst my_strcpy_loop.simps) (simp add: wr_def)
  next
    case False
    then show ?thesis
      using "1.prems" by (subst my_strcpy_loop.simps) (auto simp: wr_def ends_in_step cstr_step)
  qed
qed

lemma my_strcpy_loop_eq: "my_strcpy_loop ms p md q = strcpy md q ms p"
  using my_strcpy_loop_fits my_strcpy_loop_bad by (auto simp: strcpy_def)

lemma my_strcat_append:
  assumes "ends_in md d" "ends_in ms s" "d + length (cstr md d) + length (cstr ms s) < length md"
  obtains md' where "my_strcat md (Some d) ms (Some s) = Inr (d, md')" "cstr md' d = cstr md d @ cstr ms s"
    "length md' = length md"
proof -
  let ?e = "d + length (cstr md d)"
  let ?md = "overwrite md ?e (cstr ms s @ [NUL])"
  have l: "length ?md = length md"
    using assms(3) by (simp add: length_overwrite)
  have n: "?md ! i = (if ?e \<le> i \<and> i \<le> ?e + length (cstr ms s) then (cstr ms s @ [NUL]) ! (i - ?e) else md ! i)"
    if "i < length md" for i
    using that assms(3) by (subst nth_overwrite) auto
  have "cstr ?md d = cstr md d @ cstr ms s"
  proof (rule cstrI)
    show "?md ! (d + i) = (cstr md d @ cstr ms s) ! i" if "i < length (cstr md d @ cstr ms s)" for i
      using that assms(3) n [of "d + i"] cstr_nth(3) [OF assms(1), of i] by (auto simp: nth_append)
    show "?md ! (d + length (cstr md d @ cstr ms s)) = NUL"
      using assms(3) n [of "?e + length (cstr ms s)"] by (simp add: add.assoc)
    show "NUL \<notin> set (cstr md d @ cstr ms s)"
      using NUL_notin_cstr by simp
  qed (use assms(3) l in simp)
  moreover have "my_strcat md (Some d) ms (Some s) = Inr (d, ?md)"
    using scan_to_end [OF assms(1)] my_strcpy_loop_fits [OF assms(2), of ?e md] assms(3)
    by (simp add: my_strcat_def my_strcat_loop_eq)
  ultimately show ?thesis
    using l that by blast
qed

text \<open>The three versions of \<open>strlen\<close> agree on every string of fewer than \<open>2 ^ 31\<close> bytes and return its
  length; \<open>my_strcpy\<close> is the library's \<open>strcpy\<close>, faults included, and returns its destination.\<close>

theorem my_strlens_agree:
  assumes "ends_in m p" "length (cstr m p) < 2147483648"
  shows "\<exists>n. my_strlen1 m p = Inr n \<and> my_strlen2 m p = Inr n \<and> my_strlen3 m p = Inr n \<and> sint n = int (length (cstr m p))"
  using assms my_strlen1_loop_ok [OF assms(1), of 0] my_strlen2_ok [OF assms(1)] my_strlen3_ok [OF assms(1)]
  by (simp add: my_strlen1_def sint_of_nat_i32)

theorem my_strcpy_is_strcpy: "my_strcpy m p md d = rbind (strcpy md d m p) (\<lambda>md. Inr (d, md))"
  by (simp add: my_strcpy_def my_strcpy_loop_eq)

section \<open>The tokens of a string\<close>

lemma length_dropWhile_less: "dropWhile P xs = y # ys \<Longrightarrow> length (dropWhile Q ys) < length xs"
  using length_dropWhile_le [of P xs] length_dropWhile_le [of Q ys] by simp

text \<open>What \<open>strtok\<close> is meant to deliver: the maximal pieces without a delimiter.\<close>

function tokens :: "string \<Rightarrow> string \<Rightarrow> string list" where
  "tokens delim s =
    (case dropWhile (\<lambda>c. c \<in> set delim) s of [] \<Rightarrow> []
     | c # r \<Rightarrow> (c # takeWhile (\<lambda>c. c \<notin> set delim) r) # tokens delim (dropWhile (\<lambda>c. c \<notin> set delim) r))"
  by pat_completeness auto

termination
  by (relation "measure (\<lambda>(delim, s). length s)") (auto dest: length_dropWhile_less)

declare tokens.simps [simp del]

lemma tokens_skip: "d \<in> set delim \<Longrightarrow> tokens delim (d # s) = tokens delim s"
  by (subst (1 2) tokens.simps) simp

lemma tokens_Nil: "tokens delim [] = []"
  by (subst tokens.simps) simp

lemma tokens_none: "dropWhile (\<lambda>c. c \<in> set delim) s = [] \<Longrightarrow> tokens delim s = []"
  by (subst tokens.simps) (simp only: list.case)

lemma tokens_some:
  assumes "dropWhile (\<lambda>c. c \<in> set delim) s = c # r"
  shows "tokens delim s =
    (c # takeWhile (\<lambda>c. c \<notin> set delim) r) # tokens delim (dropWhile (\<lambda>c. c \<notin> set delim) r)"
  by (subst tokens.simps) (simp only: assms list.case)

lemma length_tokens: "length (tokens delim s) \<le> length s"
proof (induction "length s" arbitrary: s rule: less_induct)
  case less
  show ?case
  proof (cases "dropWhile (\<lambda>c. c \<in> set delim) s")
    case Nil
    then show ?thesis
      by (simp only: tokens_none) simp
  next
    case (Cons c r)
    have "length (dropWhile (\<lambda>c. c \<notin> set delim) r) < length s"
      by (rule length_dropWhile_less [OF Cons])
    then show ?thesis
      using less [of "dropWhile (\<lambda>c. c \<notin> set delim) r"] tokens_some [OF Cons] by simp
  qed
qed

lemma strtok_None:
  assumes "ends_in m p" "NUL \<notin> set delim" "dropWhile (\<lambda>c. c \<in> set delim) (cstr m p) = []"
  shows "strtok delim m p = Inr (None, p + length (cstr m p), m)"
proof -
  have "takeWhile (\<lambda>c. c \<in> set delim) (cstr m p) = cstr m p"
    using assms(3) by (metis append_Nil2 takeWhile_dropWhile_id)
  then have "scan (\<lambda>c. c \<in> set delim) m p = Inr (p + length (cstr m p))"
    using scan_ok [OF assms(1), of "\<lambda>c. c \<in> set delim"] assms(2) by (simp only: simp_thms)
  then show ?thesis
    using cstr_nth(2) [OF assms(1)] by (simp add: strtok_def)
qed

lemma strtok_Some:
  assumes "ends_in m p" "NUL \<notin> set delim" "dropWhile (\<lambda>c. c \<in> set delim) (cstr m p) = c # r"
  obtains s q m' where "strtok delim m p = Inr (Some s, q, m')" "length m' = length m" "p \<le> s" "s < q"
    "\<forall>i < s. m' ! i = m ! i" "cstr m' s = c # takeWhile (\<lambda>c. c \<notin> set delim) r"
    "s + length (cstr m' s) \<le> q" "s + length (cstr m' s) < length m" "m' ! (s + length (cstr m' s)) = NUL"
        "ends_in m' q" "tokens delim (cstr m' q) = tokens delim (dropWhile (\<lambda>c. c \<notin> set delim) r)"
    "\<forall>i. m' ! i = m ! i \<or> m' ! i = NUL"
proof -
  let ?S = "cstr m p" and ?D = "set delim"
  define a where "a = length (takeWhile (\<lambda>c. c \<in> ?D) ?S)"
  define s where "s = p + a"
  define t where "t = takeWhile (\<lambda>c. c \<notin> ?D) (c # r)"
  define e where "e = s + length t"
  have c: "c \<notin> ?D"
    using assms(3) hd_dropWhile [of "\<lambda>c. c \<in> ?D" ?S] by auto
  have al: "a \<le> length ?S"
    by (simp add: a_def length_takeWhile_le)
  have d: "drop a ?S = c # r"
    using assms(3) by (simp add: a_def dropWhile_eq_drop)
  have es: "ends_in m s" and cs: "cstr m s = c # r"
    using cstr_later [OF assms(1) al] d by (simp_all add: s_def)
  have cn: "m ! s \<noteq> NUL"
    using cstr_step [OF ends_in_less [OF es]] cs by auto
  have nr: "NUL \<notin> set (c # r)"
    using NUL_notin_cstr [of m s] cs by simp
  have tw: "takeWhile (\<lambda>c. c \<notin> ?D \<and> c \<noteq> NUL) (c # r) = t"
    unfolding t_def by (rule takeWhile_cong) (use nr in auto)
  have tl: "length t \<le> length (cstr m s)"
    unfolding cs t_def by (rule length_takeWhile_le)
  have ee: "ends_in m e" and ce: "cstr m e = dropWhile (\<lambda>c. c \<notin> ?D) (c # r)"
    using cstr_later [OF es tl] cs by (simp_all add: e_def t_def dropWhile_eq_drop)
  have el: "e < length m"
    using ee ends_in_less by blast
  have t: "t = c # takeWhile (\<lambda>c. c \<notin> ?D) r"
    using c by (simp add: t_def)
  have st: "strtok delim m p = (if m ! e = NUL then Inr (Some s, e, m) else Inr (Some s, Suc e, m[e := NUL]))"
  proof -
    have "scan (\<lambda>c. c \<in> ?D) m p = Inr s"
      using scan_ok [OF assms(1), of "\<lambda>c. c \<in> ?D"] assms(2) by (simp add: s_def a_def)
    moreover have "scan (\<lambda>c. c \<notin> ?D \<and> c \<noteq> NUL) m s = Inr e"
      using scan_ok [OF es, of "\<lambda>c. c \<notin> ?D \<and> c \<noteq> NUL"] unfolding cs tw e_def by simp
    ultimately show ?thesis
      using cn by (simp add: strtok_def)
  qed
  have ct: "cstr m' s = t" if "m' = m[e := NUL] \<or> m' = m \<and> m ! e = NUL" for m'
  proof (rule cstrI)
    show "m' ! (s + i) = t ! i" if "i < length t" for i
    proof -
      have "m' ! (s + i) = m ! (s + i)"
        using that \<open>m' = _ \<or> _\<close> by (auto simp: e_def)
      also have "\<dots> = (c # r) ! i"
        using cstr_nth(3) [OF es, of i] that tl cs by simp
      also have "\<dots> = t ! i"
        using that takeWhile_nth [of i "\<lambda>c. c \<notin> ?D" "c # r"] by (simp add: t_def)
      finally show ?thesis .
    qed
    show "NUL \<notin> set t"
      using nr by (auto simp: t_def dest: set_takeWhileD)
  qed (use that el in \<open>auto simp: e_def\<close>)
  show ?thesis
  proof (cases "m ! e = NUL")
    case True
    then have "cstr m e = []"
      using cstr_Nil_iff [OF ee] by simp
    then have "tokens delim (cstr m e) = tokens delim (dropWhile (\<lambda>c. c \<notin> ?D) r)"
      using ce c by simp
    then show ?thesis
      using that [of s e m] True st ct [of m] t el ee by (simp add: s_def e_def)
  next
    case False
    have en: "cstr m e = m ! e # cstr m (Suc e)" and ee': "ends_in m (Suc e)"
      using False cstr_step [OF el] ends_in_step [OF el] ee by simp_all
    have "m ! e \<in> ?D"
      using en ce hd_dropWhile [of "\<lambda>c. c \<notin> ?D" "c # r"] by (metis list.distinct(1) list.sel(1))
    have k: "cstr (m[e := NUL]) (Suc e) = cstr m (Suc e)" "ends_in (m[e := NUL]) (Suc e)"
    proof -
      show "cstr (m[e := NUL]) (Suc e) = cstr m (Suc e)"
        by (rule cstr_cong [OF ee']) auto
      show "ends_in (m[e := NUL]) (Suc e)"
        using ee' unfolding ends_in_def by simp
    qed
    have "tokens delim (cstr m (Suc e)) = tokens delim (dropWhile (\<lambda>c. c \<notin> ?D) r)"
      using ce c en tokens_skip [OF \<open>m ! e \<in> ?D\<close>, of "cstr m (Suc e)"] by simp
    then show ?thesis
      using that [of s "Suc e" "m[e := NUL]"] False st ct [of "m[e := NUL]"] t el k
      by (simp add: s_def e_def nth_list_update)
  qed
qed

end
