(* ===== verification/Shell.thy ===== *)
theory Shell
  imports C_String
begin

text \<open>
  The shell of \<open>src/Test_11_9_file_redir/myshell/myshell.cc\<close>: its global arrays, the reading and cutting of a
  line, redirection, the built-in commands and the bookkeeping of the parent around \<open>fork\<close> and \<open>waitpid\<close>.

  The state holds the globals and, of the process, its environment and what is left of its standard input.
  Pointers of \<open>argv\<close> point into \<open>command\<close> and are places in it; a string of the environment ends with a null byte
  and is modelled without it. What the kernel answers in one round of the loop (the array after \<open>getcwd\<close>, the
  results of \<open>fork\<close>, \<open>open\<close> and \<open>waitpid\<close> and the status of the child) is a record of inputs, and what a round
  does to the outside is a list of actions. \<open>malloc\<close> is taken to succeed.
\<close>

section \<open>State\<close>

datatype redirection = NONEREDIR | INPUTREDIR | OTPUTREDIR | APPENDREDIR

record shell =
  argv :: "nat option list"
  command :: cbuf
  env :: "string option list"
  lastcode :: i32
  filename :: cbuf
  redirtype :: redirection
  environ :: "string list"
  stdin :: string

definition SIZE :: nat where
  "SIZE = 512"

definition DELIM :: string where
  "DELIM = '' ''"

text \<open>The process at its start: the globals are zeroed, the memory behind \<open>filename\<close> comes from \<open>malloc\<close>.\<close>

definition shell_init :: "cbuf \<Rightarrow> string list \<Rightarrow> string \<Rightarrow> shell" where
  "shell_init fname es inp =
    \<lparr>argv = replicate SIZE None, command = replicate SIZE NUL, env = replicate (SIZE * 4) None, lastcode = 0,
     filename = fname, redirtype = NONEREDIR, environ = es, stdin = inp\<rparr>"

record round_in =
  cwd_buf :: cbuf
  fork_ret :: i32
  open_ret :: i32
  wait_ret :: i32
  wait_status :: i32

datatype call =
    Open redirection string
  | Dup2 i32 i32
  | Close i32
  | Execvp string "string list"
  | Cerr string

datatype action =
    Out string
  | OutCode i32
  | OutError string i32
  | Chdir "string option"
  | Child "call list"

section \<open>The environment\<close>

text \<open>\<open>getenv\<close> and \<open>putenv\<close> of the C library, on the strings \<open>NAME=value\<close> of the process.\<close>

definition names_env :: "string \<Rightarrow> string \<Rightarrow> bool" where
  "names_env name e \<longleftrightarrow> take (Suc (length name)) e = name @ ''=''"

definition getenv :: "string list \<Rightarrow> string \<Rightarrow> string option" where
  "getenv es name = map_option (drop (Suc (length name))) (find (names_env name) es)"

fun putenv :: "string \<Rightarrow> string \<Rightarrow> string list \<Rightarrow> string list" where
  "putenv name e [] = [e]"
| "putenv name e (x # es) = (if names_env name x then e # es else x # putenv name e es)"

definition put_at :: "'a list \<Rightarrow> nat \<Rightarrow> 'a \<Rightarrow> 'a list res" where
  "put_at xs i x = (if i < length xs then Inr (xs[i := x]) else Inl OutOfBounds)"

fun LoadEnv_loop :: "nat \<Rightarrow> string list \<Rightarrow> string option list \<Rightarrow> string option list res" where
  "LoadEnv_loop i [] e = put_at e i None"
| "LoadEnv_loop i (x # xs) e = rbind (put_at e i (Some x)) (LoadEnv_loop (Suc i) xs)"

definition LoadEnv :: "shell \<Rightarrow> shell res" where
  "LoadEnv s = rbind (LoadEnv_loop 0 (environ s) (env s)) (\<lambda>e. Inr (s\<lparr>env := e\<rparr>))"

section \<open>The prompt\<close>

fun back_to :: "char \<Rightarrow> cbuf \<Rightarrow> nat \<Rightarrow> nat res" where
  "back_to c m 0 = (if m ! 0 = c then Inr 0 else Inl OutOfBounds)"
| "back_to c m (Suc p) = (if m ! Suc p = c then Inr (Suc p) else back_to c m p)"

definition SplitPath :: "cbuf \<Rightarrow> nat res" where
  "SplitPath cwd = rbind (scan (\<lambda>c. c \<noteq> NUL) cwd 0) (\<lambda>tail. back_to CHR ''/'' cwd tail)"

definition GetUser :: "shell \<Rightarrow> string option" where
  "GetUser s = getenv (environ s) ''USER''"

definition GetHostName :: string where
  "GetHostName = ''ali-cloud''"

definition GetCWD :: "shell \<Rightarrow> string option" where
  "GetCWD s = getenv (environ s) ''PWD''"

definition GetHome :: "shell \<Rightarrow> string option" where
  "GetHome s = getenv (environ s) ''HOME''"

text \<open>\<open>snprintf\<close> keeps at most \<open>SIZE - 1\<close> bytes; a null pointer for \<open>%s\<close> is undefined.\<close>

definition GetCommandLineRemind :: "shell \<Rightarrow> string res" where
  "GetCommandLineRemind s =
    (case GetCWD s of None \<Rightarrow> Inl NullDeref | Some cwd \<Rightarrow>
      rbind (SplitPath (cwd @ [NUL])) (\<lambda>split.
        let dir = (if length (drop split cwd) = 1 then ''/'' else drop (Suc split) cwd) in
        case GetUser s of None \<Rightarrow> Inl NullDeref | Some user \<Rightarrow>
          Inr (take (SIZE - 1) (''['' @ user @ ''@'' @ GetHostName @ '':'' @ dir @ '']$ ''))))"

section \<open>Reading a line\<close>

abbreviation newline :: char where
  "newline \<equiv> CHR 0x0A"

text \<open>\<open>fgets\<close> takes at most \<open>n\<close> bytes, and none behind a newline.\<close>

fun fgets :: "nat \<Rightarrow> string \<Rightarrow> string \<times> string" where
  "fgets 0 inp = ([], inp)"
| "fgets (Suc n) [] = ([], [])"
| "fgets (Suc n) (c # inp) =
    (if c = newline then ([c], inp) else (let (l, rest) = fgets n inp in (c # l, rest)))"

definition GetUserCommand :: "shell \<Rightarrow> shell res" where
  "GetUserCommand s =
    (let (l, rest) = fgets (SIZE - 1) (stdin s);
         cmd = (if l = [] then command s else overwrite (command s) 0 (l @ [NUL])) in
     rbind (scan (\<lambda>c. c \<noteq> NUL) cmd 0) (\<lambda>len.
       case len of 0 \<Rightarrow> Inl OutOfBounds
       | Suc k \<Rightarrow> rbind (wr cmd k NUL) (\<lambda>cmd. Inr (s\<lparr>command := cmd, stdin := rest\<rparr>))))"

section \<open>Redirection\<close>

definition take_filename :: "redirection \<Rightarrow> shell \<Rightarrow> nat \<Rightarrow> shell res" where
  "take_filename t s redir =
    rbind (scan (\<lambda>c. c = CHR '' '') (command s) redir) (\<lambda>redir.
      rbind (strcpy (filename s) 0 (command s) redir) (\<lambda>f. Inr (s\<lparr>filename := f, redirtype := t\<rparr>)))"

function CheckRedir_loop :: "shell \<Rightarrow> nat \<Rightarrow> shell res" where
  "CheckRedir_loop s redir =
    (if redir < length (command s) then
       let c = command s ! redir in
       if c = NUL then Inr s
       else if c = CHR ''<'' then
         take_filename INPUTREDIR (s\<lparr>command := (command s)[redir := NUL]\<rparr>) (Suc redir)
       else if c = CHR ''>'' then
         rbind (rd (command s) (Suc redir)) (\<lambda>c'.
           if c' = CHR ''>'' then
             take_filename APPENDREDIR (s\<lparr>command := (command s)[redir := NUL, Suc redir := NUL]\<rparr>) (Suc (Suc redir))
           else take_filename OTPUTREDIR (s\<lparr>command := (command s)[redir := NUL]\<rparr>) (Suc redir))
       else CheckRedir_loop s (Suc redir)
     else Inl OutOfBounds)"
  by pat_completeness auto

termination
  by (relation "measure (\<lambda>(s, redir). length (command s) - redir)") auto

definition CheckRedir :: "shell \<Rightarrow> shell res" where
  "CheckRedir s = CheckRedir_loop s 0"

section \<open>Arguments\<close>

function SplitCommand_loop :: "nat \<Rightarrow> nat option list \<Rightarrow> cbuf \<Rightarrow> nat \<Rightarrow> (nat option list \<times> cbuf) res" where
  "SplitCommand_loop index av m save =
    (if index < length av
     then rbind (strtok DELIM m save) (\<lambda>(t, save, m).
       if t = None then Inr (av[index := t], m) else SplitCommand_loop (Suc index) (av[index := t]) m save)
     else Inl OutOfBounds)"
  by pat_completeness auto

termination
  by (relation "measure (\<lambda>(index, av, m, save). length av - index)") auto

definition SplitCommand :: "shell \<Rightarrow> shell res" where
  "SplitCommand s =
    rbind (strtok DELIM (command s) 0) (\<lambda>(t, save, m).
      rbind (put_at (argv s) 0 t) (\<lambda>av.
        rbind (SplitCommand_loop 1 av m save) (\<lambda>(av, m). Inr (s\<lparr>argv := av, command := m\<rparr>))))"

declare CheckRedir_loop.simps [simp del] SplitCommand_loop.simps [simp del]

text \<open>The string an entry of \<open>argv\<close> points to.\<close>

definition arg :: "shell \<Rightarrow> nat \<Rightarrow> string res" where
  "arg s i =
    (if i < length (argv s) then
       case argv s ! i of None \<Rightarrow> Inl NullDeref
       | Some p \<Rightarrow> if ends_in (command s) p then Inr (cstr (command s) p) else Inl OutOfBounds
     else Inl OutOfBounds)"

section \<open>Built-in commands\<close>

definition InnerCd :: "round_in \<Rightarrow> shell \<Rightarrow> (shell \<times> action list) res" where
  "InnerCd w s =
    rbind (if argv s ! 1 = None then Inr (GetHome s) else rbind (arg s 1) (\<lambda>a. Inr (Some a))) (\<lambda>path.
      if ends_in (cwd_buf w) 0
      then Inr (s\<lparr>environ := putenv ''PWD'' (take (SIZE - 1) (''PWD='' @ cstr (cwd_buf w) 0)) (environ s)\<rparr>, [Chdir path])
      else Inl OutOfBounds)"

fun echo_env :: "string \<Rightarrow> string option list \<Rightarrow> action list res" where
  "echo_env name [] = Inl OutOfBounds"
| "echo_env name (None # es) = Inr [Out ''this env is illegal'']"
| "echo_env name (Some e # es) =
    (let prestr = takeWhile (\<lambda>c. c \<noteq> CHR ''='') e in
     if CHR ''='' \<notin> set e \<or> SIZE \<le> length prestr then Inl OutOfBounds
     else if prestr = name then Inr [Out e]
     else echo_env name es)"

definition InnerEcho :: "shell \<Rightarrow> (shell \<times> action list) res" where
  "InnerEcho s =
    rbind (arg s 1) (\<lambda>a.
      case a of
        c # r \<Rightarrow>
          if c = CHR ''$'' then
            (case r of
               c' # _ \<Rightarrow> if c' = CHR ''?'' then Inr (s\<lparr>lastcode := 0\<rparr>, [OutCode (lastcode s)])
                         else rbind (echo_env (take (SIZE - 1) r) (env s)) (\<lambda>out. Inr (s, out))
             | [] \<Rightarrow> rbind (echo_env [] (env s)) (\<lambda>out. Inr (s, out)))
          else Inr (s, [Out ''please input [echo $env]''])
      | [] \<Rightarrow> Inr (s, [Out ''please input [echo $env]'']))"

definition CheckBuiltin :: "round_in \<Rightarrow> shell \<Rightarrow> (bool \<times> shell \<times> action list) res" where
  "CheckBuiltin w s =
    rbind (arg s 0) (\<lambda>a.
      if a = ''cd'' then
        (if argv s ! 2 = None then rbind (InnerCd w s) (\<lambda>(s, out). Inr (True, s, out))
         else Inr (True, s, [Out ''unkonwn command'']))
      else if a = ''echo'' then rbind (InnerEcho s) (\<lambda>(s, out). Inr (True, s, out))
      else Inr (False, s, []))"

section \<open>External commands\<close>

text \<open>\<open>WIFEXITED\<close> and \<open>WEXITSTATUS\<close> of the status word.\<close>

definition WIFEXITED :: "i32 \<Rightarrow> bool" where
  "WIFEXITED status \<longleftrightarrow> status AND 0x7f = 0"

definition WEXITSTATUS :: "i32 \<Rightarrow> i32" where
  "WEXITSTATUS status = drop_bit 8 (status AND 0xff00)"

text \<open>The arguments \<open>execvp\<close> reads: the strings up to the first null pointer.\<close>

fun exec_args :: "cbuf \<Rightarrow> nat option list \<Rightarrow> string list res" where
  "exec_args m [] = Inl OutOfBounds"
| "exec_args m (None # av) = Inr []"
| "exec_args m (Some p # av) =
    (if ends_in m p then rbind (exec_args m av) (\<lambda>as. Inr (cstr m p # as)) else Inl OutOfBounds)"

definition redirect_calls :: "i32 \<Rightarrow> shell \<Rightarrow> call list" where
  "redirect_calls fd s =
    (if redirtype s = NONEREDIR then []
     else [Open (redirtype s) (cstr (filename s) 0)] @ (if sint fd < 0 then [Cerr ''open error''] else [])
       @ [Dup2 fd (if redirtype s = INPUTREDIR then 0 else 1), Close fd])"

definition child_calls :: "i32 \<Rightarrow> shell \<Rightarrow> call list res" where
  "child_calls fd s =
    rbind (arg s 0) (\<lambda>prog. rbind (exec_args (command s) (argv s)) (\<lambda>as.
      Inr (redirect_calls fd s @ [Execvp prog as])))"

definition ExcuteCommand :: "round_in \<Rightarrow> shell \<Rightarrow> (shell \<times> action list) res" where
  "ExcuteCommand w s =
    rbind (if 0 < sint (fork_ret w) then rbind (child_calls (open_ret w) s) (\<lambda>cs. Inr [Child cs]) else Inr []) (\<lambda>ch.
      let s1 = s\<lparr>redirtype := NONEREDIR\<rparr> in
      if 0 < sint (wait_ret w) \<and> \<not> WIFEXITED (wait_status w) then
        let s2 = s1\<lparr>lastcode := WEXITSTATUS (wait_status w)\<rparr> in
        if lastcode s2 \<noteq> 0 then rbind (arg s2 0) (\<lambda>a. Inr (s2, ch @ [OutError a (lastcode s2)]))
        else Inr (s2, ch)
      else Inr (s1, ch))"

section \<open>The loop\<close>

definition shell_round :: "round_in \<Rightarrow> shell \<Rightarrow> (shell \<times> action list) res" where
  "shell_round w s =
    rbind (LoadEnv s) (\<lambda>s.
    rbind (GetCommandLineRemind s) (\<lambda>prompt.
    rbind (GetUserCommand s) (\<lambda>s.
    rbind (CheckRedir s) (\<lambda>s.
    rbind (SplitCommand s) (\<lambda>s.
    rbind (CheckBuiltin w s) (\<lambda>(ret, s, out).
      if ret then Inr (s, Out prompt # out)
      else rbind (ExcuteCommand w s) (\<lambda>(s, out). Inr (s, Out prompt # out))))))))"

fun shell_main :: "round_in list \<Rightarrow> shell \<Rightarrow> (shell \<times> action list) res" where
  "shell_main [] s = Inr (s, [])"
| "shell_main (w # ws) s =
    rbind (shell_round w s) (\<lambda>(s, out). rbind (shell_main ws s) (\<lambda>(s, out'). Inr (s, out @ out')))"

section \<open>What a line means\<close>

text \<open>The command of a line stands before its first \<open><\<close> or \<open>>\<close>, and the rest of the line after it, less
  leading spaces, is the name of the file.\<close>

definition redir_char :: "char \<Rightarrow> bool" where
  "redir_char c \<longleftrightarrow> c = CHR ''<'' \<or> c = CHR ''>''"

definition line_cmd :: "string \<Rightarrow> string" where
  "line_cmd l = takeWhile (\<lambda>c. \<not> redir_char c) l"

definition skip_space :: "string \<Rightarrow> string" where
  "skip_space l = dropWhile (\<lambda>c. c = CHR '' '') l"

definition line_redir :: "string \<Rightarrow> (redirection \<times> string) option" where
  "line_redir l =
    (case dropWhile (\<lambda>c. \<not> redir_char c) l of [] \<Rightarrow> None
     | c # r \<Rightarrow>
         if c = CHR ''<'' then Some (INPUTREDIR, skip_space r)
         else (case r of c' # r' \<Rightarrow>
                 if c' = CHR ''>'' then Some (APPENDREDIR, skip_space r') else Some (OTPUTREDIR, skip_space r)
               | [] \<Rightarrow> Some (OTPUTREDIR, [])))"

definition line_args :: "string \<Rightarrow> string list" where
  "line_args l = tokens DELIM (line_cmd l)"

section \<open>The state is well formed\<close>

definition env_ok :: "string list \<Rightarrow> bool" where
  "env_ok es \<longleftrightarrow> length es < SIZE * 4 \<and>
    (\<forall>e\<in>set es. NUL \<notin> set e \<and> CHR ''='' \<in> set e \<and> length (takeWhile (\<lambda>c. c \<noteq> CHR ''='') e) < SIZE) \<and>
    (\<exists>cwd. getenv es ''PWD'' = Some cwd \<and> CHR ''/'' \<in> set cwd) \<and> getenv es ''USER'' \<noteq> None"

definition shell_ok :: "shell \<Rightarrow> bool" where
  "shell_ok s \<longleftrightarrow> length (argv s) = SIZE \<and> length (command s) = SIZE \<and> command s ! 511 = NUL \<and>
    length (env s) = SIZE * 4 \<and> length (filename s) = SIZE \<and> (\<forall>p. Some p \<in> set (argv s) \<longrightarrow> p < SIZE) \<and>
    (redirtype s \<noteq> NONEREDIR \<longrightarrow> ends_in (filename s) 0) \<and> env_ok (environ s)"

lemma shell_okD:
  assumes "shell_ok s"
  shows "length (argv s) = 512" "length (command s) = 512" "command s ! 511 = NUL" "length (env s) = 2048"
    "length (filename s) = 512" "env_ok (environ s)" "Some p \<in> set (argv s) \<Longrightarrow> p < 512"
  using assms by (auto simp: shell_ok_def SIZE_def)

lemma ends_in_512: "length m = 512 \<Longrightarrow> m ! 511 = NUL \<Longrightarrow> p < 512 \<Longrightarrow> ends_in m p"
  by (auto simp: ends_in_iff intro: exI [of _ 511])

section \<open>Each step on a well-formed state\<close>

lemma LoadEnv_loop_ok:
  assumes "i + length xs < length e"
  shows "LoadEnv_loop i xs e = Inr (take i e @ map Some xs @ None # drop (Suc (i + length xs)) e)"
  using assms
proof (induction xs arbitrary: i e)
  case Nil
  then show ?case
    by (simp add: put_at_def upd_conv_take_nth_drop)
next
  case (Cons x xs)
  then show ?case
    by (simp add: put_at_def take_Suc_conv_app_nth)
qed

lemma LoadEnv_ok:
  assumes "shell_ok s"
  obtains e where "LoadEnv s = Inr (s\<lparr>env := e\<rparr>)" "shell_ok (s\<lparr>env := e\<rparr>)"
    "e = map Some (environ s) @ None # drop (Suc (length (environ s))) (env s)"
proof
  let ?e = "map Some (environ s) @ None # drop (Suc (length (environ s))) (env s)"
  have "length (environ s) < length (env s)"
    using shell_okD(4,6) [OF assms] by (simp add: env_ok_def SIZE_def)
  then show "LoadEnv s = Inr (s\<lparr>env := ?e\<rparr>)" "shell_ok (s\<lparr>env := ?e\<rparr>)"
    using assms LoadEnv_loop_ok [of 0 "environ s" "env s"] by (simp_all add: LoadEnv_def shell_ok_def)
qed simp

text \<open>The prompt shows what follows the last slash of the working directory.\<close>

lemma back_to_ok:
  assumes "q < length m" "q \<le> p" "m ! q = c" "\<And>i. q < i \<Longrightarrow> i \<le> p \<Longrightarrow> m ! i \<noteq> c"
  shows "back_to c m p = Inr q"
  using assms(2,4)
proof (induction p)
  case 0
  then show ?case
    using assms(3) by simp
next
  case (Suc p)
  then show ?case
    using assms(3) by (cases "q = Suc p") auto
qed

lemma SplitPath_ok:
  assumes "NUL \<notin> set (d @ CHR ''/'' # f)" "CHR ''/'' \<notin> set f"
  shows "SplitPath ((d @ CHR ''/'' # f) @ [NUL]) = Inr (length d)"
proof -
  let ?l = "d @ CHR ''/'' # f"
  have e: "ends_in (?l @ [NUL]) 0"
    by (simp add: ends_in_def)
  have "cstr (?l @ [NUL]) 0 = ?l"
    using assms(1) by (rule cstr_terminated)
  then have "scan (\<lambda>c. c \<noteq> NUL) (?l @ [NUL]) 0 = Inr (length ?l)"
    using scan_to_end [OF e] by simp
  moreover have "back_to CHR ''/'' (?l @ [NUL]) (length ?l) = Inr (length d)"
  proof (rule back_to_ok)
    show "(?l @ [NUL]) ! i \<noteq> CHR ''/''" if i: "length d < i" "i \<le> length ?l" for i
    proof (cases "i = length ?l")
      case False
      obtain j where j: "i = Suc (length d + j)"
        using less_imp_Suc_add [OF i(1)] by blast
      then have "(?l @ [NUL]) ! i = f ! j" "j < length f"
        using i(2) False by (auto simp: nth_append)
      then show ?thesis
        using assms(2) nth_mem by metis
    qed (simp add: nth_append)
  qed (simp_all add: nth_append)
  ultimately show ?thesis
    by (simp add: SplitPath_def)
qed

lemma getenv_mem: "getenv es n = Some v \<Longrightarrow> \<exists>e\<in>set es. v = drop (Suc (length n)) e"
  by (auto simp: getenv_def find_Some_iff)

lemma GetCommandLineRemind_ok:
  assumes "env_ok (environ s)"
  obtains p user d f where "GetCommandLineRemind s = Inr p" "getenv (environ s) ''USER'' = Some user"
    "getenv (environ s) ''PWD'' = Some (d @ CHR ''/'' # f)" "CHR ''/'' \<notin> set f"
    "p = take 511 (''['' @ user @ ''@ali-cloud:'' @ (if f = [] then ''/'' else f) @ '']$ '')"
proof -
  obtain cwd user where c: "getenv (environ s) ''PWD'' = Some cwd" "CHR ''/'' \<in> set cwd"
    and u: "getenv (environ s) ''USER'' = Some user"
    using assms unfolding env_ok_def by blast
  obtain e where "e \<in> set (environ s)" "cwd = drop (Suc (length ''PWD'')) e"
    using getenv_mem [OF c(1)] by blast
  then have "NUL \<notin> set cwd"
    using assms set_drop_subset unfolding env_ok_def by (metis subsetD)
  obtain d f where df: "cwd = d @ CHR ''/'' # f" "CHR ''/'' \<notin> set f"
    using c(2) by (meson split_list_last)
  have "SplitPath (cwd @ [NUL]) = Inr (length d)"
    using SplitPath_ok [of d f] df \<open>NUL \<notin> set cwd\<close> by simp
  then have "GetCommandLineRemind s = Inr (take 511 (''['' @ user @ ''@ali-cloud:'' @ (if f = [] then ''/'' else f) @ '']$ ''))"
    using c u df(1)
    by (simp add: GetCommandLineRemind_def GetCWD_def GetUser_def GetHostName_def SIZE_def Let_def)
  then show ?thesis
    using that u c df by blast
qed

text \<open>Reading a line that ends with a newline.\<close>

lemma fgets_line:
  assumes "newline \<notin> set l" "length l < n"
  shows "fgets n (l @ newline # rest) = (l @ [newline], rest)"
  using assms
proof (induction l arbitrary: n)
  case Nil
  then show ?case
    by (cases n) auto
next
  case (Cons c l)
  then show ?case
    by (cases n) auto
qed

lemma GetUserCommand_ok:
  assumes "shell_ok s" "stdin s = l @ newline # rest" "newline \<notin> set l" "NUL \<notin> set l" "length l < 511"
  obtains cmd where "GetUserCommand s = Inr (s\<lparr>command := cmd, stdin := rest\<rparr>)" "cstr cmd 0 = l"
    "shell_ok (s\<lparr>command := cmd, stdin := rest\<rparr>)"
proof -
  let ?l = "l @ [newline]"
  let ?m = "overwrite (command s) 0 (?l @ [NUL])"
  have cl: "length (command s) = 512" "command s ! 511 = NUL"
    using shell_okD [OF assms(1)] by auto
  have f: "fgets (SIZE - 1) (stdin s) = (?l, rest)"
    using assms fgets_line by (simp add: SIZE_def)
  have m: "cstr ?m 0 = ?l" "ends_in ?m 0" "length ?m = 512"
    using cstr_overwrite [of 0 ?l "command s"] assms(4,5) cl by (simp_all add: length_overwrite)
  have m511: "?m ! 511 = NUL"
    using assms(5) cl by (subst nth_overwrite) (auto simp: nth_append)
  have sc: "scan (\<lambda>c. c \<noteq> NUL) ?m 0 = Inr (Suc (length l))"
    using scan_to_end [OF m(2)] m(1) by simp
  have c: "cstr (?m[length l := NUL]) 0 = l"
    using cstr_cut(1) [OF m(2), of "length l"] m(1) by simp
  have "GetUserCommand s = Inr (s\<lparr>command := ?m[length l := NUL], stdin := rest\<rparr>)"
    using f sc m(3) assms(5) by (simp add: GetUserCommand_def wr_def)
  moreover have "shell_ok (s\<lparr>command := ?m[length l := NUL], stdin := rest\<rparr>)"
    using assms(1,5) m(3) m511 by (simp add: shell_ok_def SIZE_def)
  ultimately show ?thesis
    using that c by blast
qed

text \<open>Redirection.\<close>

lemma take_filename_ok:
  assumes "ends_in (command s) q" "length (command s) = 512" "length (filename s) = 512"
  obtains fn where "take_filename t s q = Inr (s\<lparr>filename := fn, redirtype := t\<rparr>)"
    "cstr fn 0 = skip_space (cstr (command s) q)" "ends_in fn 0" "length fn = 512"
proof -
  let ?k = "length (takeWhile (\<lambda>c. c = CHR '' '') (cstr (command s) q))"
  have k: "?k \<le> length (cstr (command s) q)"
    by (rule length_takeWhile_le)
  have sc: "scan (\<lambda>c. c = CHR '' '') (command s) q = Inr (q + ?k)"
    by (rule scan_ok [OF assms(1)]) simp
  have e: "ends_in (command s) (q + ?k)"
    and c: "cstr (command s) (q + ?k) = skip_space (cstr (command s) q)"
    using cstr_later [OF assms(1) k] by (simp_all add: skip_space_def dropWhile_eq_drop)
  have "length (cstr (command s) (q + ?k)) < length (filename s)"
    using cstr_nth(1) [OF e] assms(2,3) by simp
  then obtain fn where "strcpy (filename s) 0 (command s) (q + ?k) = Inr fn"
      "cstr fn 0 = cstr (command s) (q + ?k)" "ends_in fn 0" "length fn = length (filename s)"
    using strcpy_ok [OF e, of 0 "filename s"] by auto
  then show ?thesis
    using that [of fn] sc c assms(3) by (simp add: take_filename_def)
qed

lemma CheckRedir_skip:
  assumes "ends_in (command s) p"
  shows "CheckRedir_loop s p = CheckRedir_loop s (p + length (line_cmd (cstr (command s) p)))"
  using assms
proof (induction rule: cstr_induct)
  case (nul p)
  then show ?case
    by (simp add: line_cmd_def)
next
  case (step p)
  show ?case
  proof (cases "redir_char (command s ! p)")
    case True
    then show ?thesis
      using step by (simp add: line_cmd_def)
  next
    case False
    then have "CheckRedir_loop s p = CheckRedir_loop s (Suc p)"
      using step by (subst CheckRedir_loop.simps) (simp add: redir_char_def Let_def)
    then show ?thesis
      using step False by (simp add: line_cmd_def)
  qed
qed

lemma CheckRedir_none:
  assumes "ends_in (command s) 0" "line_redir (cstr (command s) 0) = None"
  shows "CheckRedir s = Inr s" "line_cmd (cstr (command s) 0) = cstr (command s) 0"
proof -
  let ?l = "cstr (command s) 0"
  have "dropWhile (\<lambda>c. \<not> redir_char c) ?l = []"
    using assms(2) unfolding line_redir_def by (auto split: list.splits if_splits)
  then show c: "line_cmd ?l = ?l"
    unfolding line_cmd_def by (metis append_Nil2 takeWhile_dropWhile_id)
  show "CheckRedir s = Inr s"
    using CheckRedir_skip [OF assms(1)] cstr_nth(1,2) [OF assms(1)]
    unfolding CheckRedir_def c by (subst (asm) (2) CheckRedir_loop.simps) simp
qed

text \<open>What stands at the first redirection of a line.\<close>

lemma at_redir:
  assumes "ends_in m 0" "dropWhile (\<lambda>c. \<not> redir_char c) (cstr m 0) = c # r" "e = length (line_cmd (cstr m 0))"
  shows "m ! e = c" "c \<noteq> NUL" "redir_char c" "e < length m" "ends_in m (Suc e)" "cstr m (Suc e) = r"
    "cstr (m[e := NUL]) 0 = line_cmd (cstr m 0)" "ends_in (m[e := NUL]) 0" "e < length (cstr m 0)"
proof -
  let ?l = "cstr m 0"
  have el: "e \<le> length ?l"
    unfolding assms(3) by (simp add: line_cmd_def length_takeWhile_le)
  have d: "drop e ?l = c # r" "take e ?l = line_cmd ?l"
    using assms(2,3) unfolding line_cmd_def by (simp_all add: dropWhile_eq_drop takeWhile_eq_take [symmetric])
  then show "e < length ?l"
    using el by (metis drop_all le_neq_implies_less list.distinct(1) order_refl)
  show rc: "redir_char c"
    using hd_dropWhile [of "\<lambda>c. \<not> redir_char c" ?l] assms(2) by simp
  then show n: "c \<noteq> NUL"
    by (auto simp: redir_char_def)
  have ee: "ends_in m e" "cstr m e = c # r"
    using cstr_later [OF assms(1) el] d by simp_all
  show ltl: "e < length m"
    using ends_in_less [OF ee(1)] .
  show "m ! e = c" "cstr m (Suc e) = r" "ends_in m (Suc e)"
    using cstr_step [OF ltl] ends_in_step [OF ltl] ee by (auto split: if_splits)
  show "cstr (m[e := NUL]) 0 = line_cmd ?l" "ends_in (m[e := NUL]) 0"
    using cstr_cut [OF assms(1) el] d by simp_all
qed

lemma CheckRedir_some:
  assumes "shell_ok s" "line_redir (cstr (command s) 0) = Some (t, f)"
  obtains cmd fn where "CheckRedir s = Inr (s\<lparr>command := cmd, filename := fn, redirtype := t\<rparr>)"
    "cstr cmd 0 = line_cmd (cstr (command s) 0)" "cstr fn 0 = f" "length cmd = 512" "cmd ! 511 = NUL"
    "ends_in fn 0" "length fn = 512"
proof -
  let ?m = "command s"
  let ?l = "cstr ?m 0"
  let ?e = "length (line_cmd ?l)"
  note ok = shell_okD [OF assms(1)] and result = that
  have e0: "ends_in ?m 0"
    using ends_in_512 ok by simp
  obtain c r where cr: "dropWhile (\<lambda>c. \<not> redir_char c) ?l = c # r"
    using assms(2) unfolding line_redir_def by (cases "dropWhile (\<lambda>c. \<not> redir_char c) ?l") auto
  note at = at_redir [OF e0 cr refl]
  have ltl: "?e < 512" and mc: "?m ! ?e = c" and e1: "ends_in ?m (Suc ?e)" and c1: "cstr ?m (Suc ?e) = r"
    and cut: "cstr (?m[?e := NUL]) 0 = line_cmd ?l" "ends_in (?m[?e := NUL]) 0"
    using at ok(2) by simp_all
  have lt1: "Suc ?e < 512"
    using ends_in_less [OF e1] ok by simp
  have start: "CheckRedir s = CheckRedir_loop s ?e"
    using CheckRedir_skip [OF e0] by (simp add: CheckRedir_def)
  have one: thesis
    if st: "CheckRedir_loop s ?e = take_filename t (s\<lparr>command := ?m[?e := NUL]\<rparr>) (Suc ?e)" and f: "f = skip_space r"
  proof -
    have "cstr (?m[?e := NUL]) (Suc ?e) = r" "ends_in (?m[?e := NUL]) (Suc ?e)"
      using cstr_upd_other [OF e1, of ?e NUL] c1 by simp_all
    then obtain fn where "take_filename t (s\<lparr>command := ?m[?e := NUL]\<rparr>) (Suc ?e)
        = Inr (s\<lparr>command := ?m[?e := NUL]\<rparr>\<lparr>filename := fn, redirtype := t\<rparr>)" "cstr fn 0 = f" "ends_in fn 0" "length fn = 512"
      using take_filename_ok [of "s\<lparr>command := ?m[?e := NUL]\<rparr>" "Suc ?e" t] ok f by auto
    then show thesis
      using result [of fn "?m[?e := NUL]"] st start cut lt1 ok by simp
  qed
  show thesis
  proof (cases "c = CHR ''<''")
    case True
    have "CheckRedir_loop s ?e = take_filename INPUTREDIR (s\<lparr>command := ?m[?e := NUL]\<rparr>) (Suc ?e)"
      using ltl ok mc True by (subst CheckRedir_loop.simps) simp
    moreover have "t = INPUTREDIR" "f = skip_space r"
      using assms(2) cr True by (simp_all add: line_redir_def)
    ultimately show thesis
      using one by simp
  next
    case False
    then have gt: "c = CHR ''>''"
      using at(3) by (simp add: redir_char_def)
    show thesis
    proof (cases "?m ! Suc ?e = CHR ''>''")
      case False
      have "CheckRedir_loop s ?e = take_filename OTPUTREDIR (s\<lparr>command := ?m[?e := NUL]\<rparr>) (Suc ?e)"
        using ltl lt1 ok mc gt False by (subst CheckRedir_loop.simps) (simp add: rd_def)
      moreover have "t = OTPUTREDIR \<and> f = skip_space r"
        using assms(2) cr gt False c1 cstr_step [of "Suc ?e" ?m] lt1 ok(2)
        by (auto simp: line_redir_def skip_space_def split: list.splits if_splits)
      ultimately show thesis
        using one by simp
    next
      case True
      let ?m2 = "?m[?e := NUL, Suc ?e := NUL]"
      obtain r' where r: "r = CHR ''>'' # r'"
        using c1 True cstr_step [of "Suc ?e" ?m] lt1 ok(2) by auto
      have e2: "ends_in ?m (Suc (Suc ?e))" and c2: "cstr ?m (Suc (Suc ?e)) = r'"
        using cstr_step [of "Suc ?e" ?m] ends_in_step [of "Suc ?e" ?m] c1 r e1 lt1 ok(2) True by auto
      have lt2: "Suc (Suc ?e) < 512"
        using ends_in_less [OF e2] ok by simp
      have m2: "cstr ?m2 (Suc (Suc ?e)) = r'" "ends_in ?m2 (Suc (Suc ?e))"
        using cstr_upd_other [of "?m[?e := NUL]" "Suc (Suc ?e)" "Suc ?e" NUL] cstr_upd_other [OF e2, of ?e NUL] c2 by simp_all
      have c0: "cstr ?m2 0 = line_cmd ?l"
        using cstr_upd_other(1) [OF cut(2), of "Suc ?e" NUL] cut(1) by simp
      have "t = APPENDREDIR" "f = skip_space r'"
        using assms(2) cr gt r by (simp_all add: line_redir_def)
      then obtain fn where "take_filename APPENDREDIR (s\<lparr>command := ?m2\<rparr>) (Suc (Suc ?e))
          = Inr (s\<lparr>command := ?m2\<rparr>\<lparr>filename := fn, redirtype := t\<rparr>)" "cstr fn 0 = f" "ends_in fn 0" "length fn = 512"
        using take_filename_ok [of "s\<lparr>command := ?m2\<rparr>" "Suc (Suc ?e)" t] ok m2 by auto
      moreover have "CheckRedir_loop s ?e = take_filename APPENDREDIR (s\<lparr>command := ?m2\<rparr>) (Suc (Suc ?e))"
        using ltl lt1 ok mc gt True by (subst CheckRedir_loop.simps) (simp add: rd_def)
      ultimately show thesis
        using result [of fn ?m2] start c0 lt2 ok by simp
    qed
  qed
qed

text \<open>Cutting the command into arguments.\<close>

lemma NUL_DELIM: "NUL \<notin> set DELIM"
  by (simp add: DELIM_def)

lemma SplitCommand_loop_ok:
  assumes "ends_in m save" "index + length (tokens DELIM (cstr m save)) < length av"
  shows "\<exists>ps m'. SplitCommand_loop index av m save =
      Inr (take index av @ map Some ps @ None # drop (Suc (index + length ps)) av, m') \<and>
    map (cstr m') ps = tokens DELIM (cstr m save) \<and> length m' = length m \<and> (\<forall>i < save. m' ! i = m ! i) \<and>
    (\<forall>i. m' ! i = m ! i \<or> m' ! i = NUL) \<and> (\<forall>p\<in>set ps. save \<le> p \<and> p < length m)"
  using assms
proof (induction index av m save rule: SplitCommand_loop.induct)
  case (1 index av m save)
  have il: "index < length av"
    using "1.prems"(2) by simp
  show ?case
  proof (cases "dropWhile (\<lambda>c. c \<in> set DELIM) (cstr m save)")
    case Nil
    have "SplitCommand_loop index av m save = Inr (av[index := None], m)"
      using strtok_None [OF "1.prems"(1) NUL_DELIM Nil] il by (subst SplitCommand_loop.simps) simp
    then show ?thesis
      using il tokens_none [OF Nil] by (intro exI [of _ "[]"] exI [of _ m]) (simp add: upd_conv_take_nth_drop)
  next
    case (Cons c r)
    obtain s q m1 where st: "strtok DELIM m save = Inr (Some s, q, m1)" "length m1 = length m" "save \<le> s" "s < q"
      "\<forall>i < s. m1 ! i = m ! i" "cstr m1 s = c # takeWhile (\<lambda>c. c \<notin> set DELIM) r"
      "s + length (cstr m1 s) \<le> q" "s + length (cstr m1 s) < length m" "m1 ! (s + length (cstr m1 s)) = NUL"
      "ends_in m1 q"
      "tokens DELIM (cstr m1 q) = tokens DELIM (dropWhile (\<lambda>c. c \<notin> set DELIM) r)"
      "\<forall>i. m1 ! i = m ! i \<or> m1 ! i = NUL"
      by (rule strtok_Some [OF "1.prems"(1) NUL_DELIM Cons])
    have tk: "tokens DELIM (cstr m save) = cstr m1 s # tokens DELIM (cstr m1 q)"
      using tokens_some [OF Cons] st(6,11) by simp
    let ?av = "av[index := Some s]"
    have "\<exists>ps m'. SplitCommand_loop (Suc index) ?av m1 q =
        Inr (take (Suc index) ?av @ map Some ps @ None # drop (Suc (Suc index + length ps)) ?av, m') \<and>
      map (cstr m') ps = tokens DELIM (cstr m1 q) \<and> length m' = length m1 \<and> (\<forall>i < q. m' ! i = m1 ! i) \<and>
      (\<forall>i. m' ! i = m1 ! i \<or> m' ! i = NUL) \<and> (\<forall>p\<in>set ps. q \<le> p \<and> p < length m1)"
      by (rule "1.IH") (use il "1.prems"(2) st(10) tk in simp_all)
    then obtain ps m' where ps: "SplitCommand_loop (Suc index) ?av m1 q =
        Inr (take (Suc index) ?av @ map Some ps @ None # drop (Suc (Suc index + length ps)) ?av, m')"
      "map (cstr m') ps = tokens DELIM (cstr m1 q)" "length m' = length m1" "\<And>i. i < q \<Longrightarrow> m' ! i = m1 ! i"
      "\<And>i. m' ! i = m1 ! i \<or> m' ! i = NUL" "\<And>p. p \<in> set ps \<Longrightarrow> q \<le> p \<and> p < length m1"
      by metis
    have es: "ends_in m1 s"
      unfolding ends_in_iff using st(2,8,9) by (metis le_add1)
    have "cstr m' s = cstr m1 s"
    proof (rule cstr_cong [OF es ps(3)])
      show "m' ! i = m1 ! i" if "s \<le> i" "i \<le> s + length (cstr m1 s)" for i
      proof (cases "i < q")
        case False
        then have "i = s + length (cstr m1 s)"
          using that st(7) by simp
        then show ?thesis
          using ps(5) [of i] st(9) by auto
      qed (rule ps(4))
    qed
    moreover have "SplitCommand_loop index av m save = SplitCommand_loop (Suc index) ?av m1 q"
      using st(1) il by (subst SplitCommand_loop.simps) simp
    moreover have "m' ! i = m ! i" if "i < save" for i
      using ps(4) [of i] st(3,4,5) that by simp
    moreover have "m' ! i = m ! i \<or> m' ! i = NUL" for i
      using ps(5) [of i] st(12) by auto
    ultimately show ?thesis
      using il tk ps(1,2,3) ps(6) st(2,3,4,8)
      by (intro exI [of _ "s # ps"] exI [of _ m'])
        (auto simp: take_Suc_conv_app_nth dest: ps(6))
  qed
qed

text \<open>The strings \<open>argv\<close> holds up to its first null pointer.\<close>

definition holds_args :: "shell \<Rightarrow> string list \<Rightarrow> bool" where
  "holds_args s as \<longleftrightarrow>
    (\<exists>ps. argv s = map Some ps @ None # drop (Suc (length ps)) (argv s) \<and> map (cstr (command s)) ps = as)"

lemma exec_args_ok: "\<forall>p\<in>set ps. ends_in m p \<Longrightarrow> exec_args m (map Some ps @ None # xs) = Inr (map (cstr m) ps)"
  by (induction ps) simp_all

lemma holds_argsD:
  assumes "holds_args s as" "shell_ok s"
  shows "i < length as \<Longrightarrow> arg s i = Inr (as ! i)" "arg s (length as) = Inl NullDeref"
    "i < length as \<Longrightarrow> argv s ! i \<noteq> None" "argv s ! length as = None" "length as < 512"
    "exec_args (command s) (argv s) = Inr as"
proof -
  obtain ps where ps: "argv s = map Some ps @ None # drop (Suc (length ps)) (argv s)" "map (cstr (command s)) ps = as"
    using assms(1) unfolding holds_args_def by blast
  have l: "length as = length ps" "length (argv s) = 512"
    using ps(2) shell_okD [OF assms(2)] by auto
  show "length as < 512"
    using arg_cong [OF ps(1), of length] l by simp
  have n: "argv s ! i = Some (ps ! i)" if "i < length ps" for i
    using that by (subst ps(1)) (simp add: nth_append)
  then show "argv s ! i \<noteq> None" if "i < length as"
    using that l by simp
  show n0: "argv s ! length as = None"
    unfolding l(1) by (subst ps(1)) (simp add: nth_append)
  have e: "ends_in (command s) (ps ! i)" if "i < length ps" for i
  proof (rule ends_in_512)
    have "Some (ps ! i) \<in> set (argv s)"
      using that by (subst ps(1)) simp
    then show "ps ! i < 512"
      by (rule shell_okD(7) [OF assms(2)])
  qed (use shell_okD [OF assms(2)] in simp_all)
  show "arg s i = Inr (as ! i)" if "i < length as"
    using that n [of i] e [of i] l \<open>length as < 512\<close> ps(2) by (auto simp: arg_def)
  show "arg s (length as) = Inl NullDeref"
    using n0 l \<open>length as < 512\<close> by (simp add: arg_def)
  have "\<forall>q\<in>set ps. ends_in (command s) q"
    using e by (auto simp: in_set_conv_nth)
  then show "exec_args (command s) (argv s) = Inr as"
    using ps exec_args_ok by metis
qed

lemma SplitCommand_none:
  assumes "shell_ok s" "tokens DELIM (cstr (command s) 0) = []"
  obtains s' where "SplitCommand s = Inr s'" "arg s' 0 = Inl NullDeref"
proof -
  note ok = shell_okD [OF assms(1)]
  have e: "ends_in (command s) 0"
    using ends_in_512 ok by simp
  have d: "dropWhile (\<lambda>c. c \<in> set DELIM) (cstr (command s) 0) = []"
    using assms(2) tokens_some by (cases "dropWhile (\<lambda>c. c \<in> set DELIM) (cstr (command s) 0)") auto
  let ?n = "length (cstr (command s) 0)"
  have t: "strtok DELIM (command s) 0 = Inr (None, ?n, command s)"
    using strtok_None [OF e NUL_DELIM d] by simp
  have en: "ends_in (command s) ?n" "cstr (command s) ?n = []"
    using cstr_later [OF e, of ?n] by simp_all
  have "SplitCommand_loop 1 ((argv s)[0 := None]) (command s) ?n = Inr ((argv s)[0 := None, 1 := None], command s)"
    using strtok_None [OF en(1) NUL_DELIM] en(2) ok by (subst SplitCommand_loop.simps) simp
  then have "SplitCommand s = Inr (s\<lparr>argv := (argv s)[0 := None, 1 := None], command := command s\<rparr>)"
    using t ok by (simp add: SplitCommand_def put_at_def)
  moreover have "arg (s\<lparr>argv := (argv s)[0 := None, 1 := None], command := command s\<rparr>) 0 = Inl NullDeref"
    using ok(1) by (simp add: arg_def)
  ultimately show ?thesis
    by (rule that)
qed

lemma SplitCommand_some:
  assumes "shell_ok s" "tokens DELIM (cstr (command s) 0) \<noteq> []"
  obtains av m where "SplitCommand s = Inr (s\<lparr>argv := av, command := m\<rparr>)" "shell_ok (s\<lparr>argv := av, command := m\<rparr>)"
    "holds_args (s\<lparr>argv := av, command := m\<rparr>) (tokens DELIM (cstr (command s) 0))"
    "\<forall>i. length (tokens DELIM (cstr (command s) 0)) < i \<and> i < 512 \<longrightarrow> av ! i = argv s ! i"
proof -
  note ok = shell_okD [OF assms(1)]
  let ?ts = "tokens DELIM (cstr (command s) 0)"
  have e: "ends_in (command s) 0"
    using ends_in_512 ok by simp
  have tl: "length ?ts < length (argv s)"
    using length_tokens [of DELIM "cstr (command s) 0"] cstr_nth(1) [OF e] ok by simp
  obtain ps m where ps: "SplitCommand_loop 0 (argv s) (command s) 0 =
      Inr (map Some ps @ None # drop (Suc (length ps)) (argv s), m)"
    "map (cstr m) ps = ?ts" "length m = length (command s)" "\<forall>i. m ! i = command s ! i \<or> m ! i = NUL"
    "\<forall>p\<in>set ps. p < length (command s)"
    using SplitCommand_loop_ok [OF e, of 0 "argv s"] tl by auto
  let ?av = "map Some ps @ None # drop (Suc (length ps)) (argv s)"
  let ?s = "s\<lparr>argv := ?av, command := m\<rparr>"
  obtain c r where cr: "dropWhile (\<lambda>c. c \<in> set DELIM) (cstr (command s) 0) = c # r"
    using assms(2) tokens_none by (cases "dropWhile (\<lambda>c. c \<in> set DELIM) (cstr (command s) 0)") auto
  have "SplitCommand s = Inr ?s"
  proof (rule strtok_Some [OF e NUL_DELIM cr])
    fix t q m1
    assume "strtok DELIM (command s) 0 = Inr (Some t, q, m1)"
    then show ?thesis
      using ps(1) ok(1) by (subst (asm) SplitCommand_loop.simps) (simp add: SplitCommand_def put_at_def)
  qed
  moreover have lp: "length ps = length ?ts"
    using arg_cong [OF ps(2), of length] by simp
  moreover have "shell_ok ?s"
  proof -
    have "m ! 511 = NUL"
      using ps(4) ok(3) by metis
    moreover have "p < 512" if "Some p \<in> set ?av" for p
      using that ps(5) ok(2,7) by (auto dest: in_set_dropD)
    ultimately show ?thesis
      using assms(1) lp tl ps(3) by (auto simp: shell_ok_def SIZE_def)
  qed
  moreover have "holds_args ?s ?ts"
    using ps(2) by (auto simp: holds_args_def intro!: exI [of _ ps])
  moreover have "\<forall>i. length ?ts < i \<and> i < 512 \<longrightarrow> ?av ! i = argv s ! i"
  proof (intro allI impI)
    fix i
    assume i: "length ?ts < i \<and> i < 512"
    then obtain j where "i = Suc (length ps + j)"
      using lp less_imp_Suc_add by metis
    then show "?av ! i = argv s ! i"
      using i ok(1) by (simp add: nth_append)
  qed
  ultimately show ?thesis
    using that by blast
qed

text \<open>The line is read, its redirection noted and its words cut.\<close>

definition redir_of :: "shell \<Rightarrow> (redirection \<times> string) option" where
  "redir_of s = (if redirtype s = NONEREDIR then None else Some (redirtype s, cstr (filename s) 0))"

definition pending :: "shell \<Rightarrow> string \<Rightarrow> (redirection \<times> string) option" where
  "pending s l = (case line_redir l of None \<Rightarrow> redir_of s | Some tf \<Rightarrow> Some tf)"

lemma redir_of_args: "redir_of (s\<lparr>argv := av, command := m\<rparr>) = redir_of s"
  by (simp add: redir_of_def cong: if_cong)

lemma pending_cong: "redirtype s' = redirtype s \<Longrightarrow> filename s' = filename s \<Longrightarrow> pending s' l = pending s l"
  by (simp add: pending_def redir_of_def split: option.split)

text \<open>The lines the theorems are about: they fit the array and end with a newline.\<close>

definition next_line :: "shell \<Rightarrow> string \<Rightarrow> string \<Rightarrow> bool" where
  "next_line s l rest \<longleftrightarrow> stdin s = l @ newline # rest \<and> newline \<notin> set l \<and> NUL \<notin> set l \<and> length l < 511"

lemma line_redir_type: "line_redir l = Some (t, f) \<Longrightarrow> t \<noteq> NONEREDIR"
  by (auto simp: line_redir_def split: list.splits if_splits)

lemma CheckRedir_ok:
  assumes "shell_ok s"
  obtains s' where "CheckRedir s = Inr s'" "shell_ok s'" "cstr (command s') 0 = line_cmd (cstr (command s) 0)"
    "redir_of s' = pending s (cstr (command s) 0)" "argv s' = argv s" "env s' = env s" "lastcode s' = lastcode s"
    "environ s' = environ s" "stdin s' = stdin s"
proof (cases "line_redir (cstr (command s) 0)")
  case None
  have "ends_in (command s) 0"
    using shell_okD [OF assms] by (simp add: ends_in_512)
  then show ?thesis
    using that [of s] CheckRedir_none [of s] None assms by (simp add: pending_def redir_of_def)
next
  case (Some tf)
  obtain t f where tf: "tf = (t, f)"
    by fastforce
  obtain cmd fn where c: "CheckRedir s = Inr (s\<lparr>command := cmd, filename := fn, redirtype := t\<rparr>)"
    "cstr cmd 0 = line_cmd (cstr (command s) 0)" "cstr fn 0 = f" "length cmd = 512" "cmd ! 511 = NUL"
    "ends_in fn 0" "length fn = 512"
    by (rule CheckRedir_some [OF assms Some [unfolded tf]])
  have "shell_ok (s\<lparr>command := cmd, filename := fn, redirtype := t\<rparr>)"
    using assms c by (simp add: shell_ok_def SIZE_def)
  then show ?thesis
    using that [OF c(1)] c line_redir_type [OF Some [unfolded tf]] Some
    by (simp add: pending_def redir_of_def tf)
qed

lemma read_command:
  assumes "shell_ok s" "next_line s l rest"
  obtains prompt s1 where "shell_ok s1" "cstr (command s1) 0 = line_cmd l" "redir_of s1 = pending s l"
    "argv s1 = argv s" "env s1 = map Some (environ s) @ None # drop (Suc (length (environ s))) (env s)"
    "lastcode s1 = lastcode s" "environ s1 = environ s" "stdin s1 = rest"
    "GetCommandLineRemind s = Inr prompt"
    "\<And>w. shell_round w s = rbind (SplitCommand s1) (\<lambda>s. rbind (CheckBuiltin w s) (\<lambda>(ret, s, out).
        if ret then Inr (s, Out prompt # out)
        else rbind (ExcuteCommand w s) (\<lambda>(s, out). Inr (s, Out prompt # out))))"
proof -
  obtain e where e: "LoadEnv s = Inr (s\<lparr>env := e\<rparr>)" "shell_ok (s\<lparr>env := e\<rparr>)"
    "e = map Some (environ s) @ None # drop (Suc (length (environ s))) (env s)"
    by (rule LoadEnv_ok [OF assms(1)])
  obtain prompt where p: "GetCommandLineRemind s = Inr prompt"
    using GetCommandLineRemind_ok shell_okD(6) [OF assms(1)] by metis
  have en: "environ (s\<lparr>env := e\<rparr>) = environ s"
    by simp
  have p': "GetCommandLineRemind (s\<lparr>env := e\<rparr>) = Inr prompt"
    using p unfolding GetCommandLineRemind_def GetCWD_def GetUser_def en .
  have nl: "stdin (s\<lparr>env := e\<rparr>) = l @ newline # rest" "newline \<notin> set l" "NUL \<notin> set l" "length l < 511"
    using assms(2) by (simp_all add: next_line_def)
  obtain cmd where c: "GetUserCommand (s\<lparr>env := e\<rparr>) = Inr (s\<lparr>env := e\<rparr>\<lparr>command := cmd, stdin := rest\<rparr>)"
    "cstr cmd 0 = l" "shell_ok (s\<lparr>env := e\<rparr>\<lparr>command := cmd, stdin := rest\<rparr>)"
    by (rule GetUserCommand_ok [OF e(2) nl])
  have pe: "pending (s\<lparr>env := e\<rparr>\<lparr>command := cmd, stdin := rest\<rparr>) l = pending s l"
    by (rule pending_cong) simp_all
  show ?thesis
    by (rule CheckRedir_ok [OF c(3)])
      (rule that [of _ prompt], use e p p' c pe in \<open>simp_all add: shell_round_def\<close>)
qed

section \<open>Built-in commands\<close>

text \<open>\<open>getcwd\<close> answers with an absolute path.\<close>

definition world_ok :: "round_in \<Rightarrow> bool" where
  "world_ok w \<longleftrightarrow> ends_in (cwd_buf w) 0 \<and> (\<exists>p. cstr (cwd_buf w) 0 = CHR ''/'' # p)"

lemma getenv_putenv:
  assumes "names_env n e"
  shows "getenv (putenv n e es) n = Some (drop (Suc (length n)) e)"
  using assms by (induction es) (auto simp: getenv_def)

lemma names_env_other: "names_env n e \<Longrightarrow> names_env n' e \<Longrightarrow> CHR ''='' \<notin> set n \<Longrightarrow> CHR ''='' \<notin> set n' \<Longrightarrow> n = n'"
proof -
  assume a: "names_env n e" "names_env n' e" "CHR ''='' \<notin> set n" "CHR ''='' \<notin> set n'"
  have "takeWhile (\<lambda>c. c \<noteq> CHR ''='') e = k" if "names_env k e" "CHR ''='' \<notin> set k" for k
  proof -
    have "e = (k @ ''='') @ drop (Suc (length k)) e"
      using that(1) unfolding names_env_def by (metis append_take_drop_id)
    then have "takeWhile (\<lambda>c. c \<noteq> CHR ''='') e = takeWhile (\<lambda>c. c \<noteq> CHR ''='') (k @ ''='' @ drop (Suc (length k)) e)"
      by simp
    also have "\<dots> = k"
      using that(2) by (subst takeWhile_append2) auto
    finally show ?thesis .
  qed
  then show "n = n'"
    using a by metis
qed

lemma getenv_putenv_other:
  assumes "names_env n e" "n' \<noteq> n" "CHR ''='' \<notin> set n" "CHR ''='' \<notin> set n'"
  shows "getenv (putenv n e es) n' = getenv es n'"
  using assms names_env_other by (induction es) (auto simp: getenv_def)

lemma set_putenv: "set (putenv n e es) \<subseteq> insert e (set es)"
  by (induction es) auto

lemma length_putenv: "getenv es n \<noteq> None \<Longrightarrow> length (putenv n e es) = length es"
  by (induction es) (auto simp: getenv_def)

lemma env_ok_putenv:
  assumes "env_ok es" "NUL \<notin> set p"
  shows "env_ok (putenv ''PWD'' (take 511 (''PWD='' @ CHR ''/'' # p)) es)"
proof -
  let ?e = "''PWD=/'' @ take 506 p"
  have e: "take 511 (''PWD='' @ CHR ''/'' # p) = ?e"
    by (simp add: take_Cons')
  have n: "names_env ''PWD'' ?e"
    by (simp add: names_env_def)
  have "NUL \<notin> set ?e"
    using assms(2) set_take_subset [of 506 p] by auto
  moreover have "getenv (putenv ''PWD'' ?e es) ''PWD'' = Some (CHR ''/'' # take 506 p)"
    using getenv_putenv [OF n] by simp
  moreover have "getenv (putenv ''PWD'' ?e es) ''USER'' = getenv es ''USER''"
    by (rule getenv_putenv_other [OF n]) simp_all
  ultimately show ?thesis
    unfolding e using assms(1) set_putenv [of "''PWD''" ?e es] length_putenv [of es "''PWD''" ?e]
    unfolding env_ok_def by (auto simp: SIZE_def)
qed

text \<open>\<open>echo $NAME\<close> prints the first entry of the environment whose name is \<open>NAME\<close>.\<close>

definition env_entry :: "string list \<Rightarrow> string \<Rightarrow> string" where
  "env_entry es name =
    (case find (\<lambda>e. takeWhile (\<lambda>c. c \<noteq> CHR ''='') e = name) es of Some e \<Rightarrow> e | None \<Rightarrow> ''this env is illegal'')"

lemma echo_env_ok:
  assumes "\<forall>e\<in>set es. CHR ''='' \<in> set e \<and> length (takeWhile (\<lambda>c. c \<noteq> CHR ''='') e) < SIZE"
  shows "echo_env name (map Some es @ None # xs) = Inr [Out (env_entry es name)]"
  using assms by (induction es) (auto simp: env_entry_def)

lemma InnerEcho_ok:
  assumes "arg s 1 = Inr a" "env s = map Some es @ None # xs" "env_ok es"
  shows "InnerEcho s =
    (if \<exists>r. a = ''$?'' @ r then Inr (s\<lparr>lastcode := 0\<rparr>, [OutCode (lastcode s)])
     else if \<exists>r. a = CHR ''$'' # r then Inr (s, [Out (env_entry es (take 511 (tl a)))])
     else Inr (s, [Out ''please input [echo $env]'']))"
proof -
  have "\<forall>e\<in>set es. CHR ''='' \<in> set e \<and> length (takeWhile (\<lambda>c. c \<noteq> CHR ''='') e) < SIZE"
    using assms(3) unfolding env_ok_def by blast
  then have e: "echo_env name (env s) = Inr [Out (env_entry es name)]" for name
    using echo_env_ok assms(2) by simp
  show ?thesis
    unfolding InnerEcho_def assms(1) by (auto simp: e SIZE_def split: list.splits)
qed

lemma InnerCd_ok:
  assumes "shell_ok s" "world_ok w" "argv s ! 1 \<noteq> None \<longrightarrow> (\<exists>a. arg s 1 = Inr a)"
  obtains e path where "InnerCd w s = Inr (s\<lparr>environ := e\<rparr>, [Chdir path])" "shell_ok (s\<lparr>environ := e\<rparr>)"
    "getenv e ''PWD'' = Some (take 507 (cstr (cwd_buf w) 0))"
proof -
  obtain p where p: "cstr (cwd_buf w) 0 = CHR ''/'' # p" "ends_in (cwd_buf w) 0"
    using assms(2) unfolding world_ok_def by blast
  let ?e = "putenv ''PWD'' (take 511 (''PWD='' @ CHR ''/'' # p)) (environ s)"
  have np: "NUL \<notin> set p"
    using NUL_notin_cstr [of "cwd_buf w" 0] p(1) by simp
  have "env_ok ?e"
    by (rule env_ok_putenv [OF shell_okD(6) [OF assms(1)] np])
  then have "shell_ok (s\<lparr>environ := ?e\<rparr>)"
    using assms(1) by (simp add: shell_ok_def)
  moreover have "names_env ''PWD'' (take 511 (''PWD='' @ CHR ''/'' # p))"
    by (simp add: names_env_def take_Cons')
  then have "getenv ?e ''PWD'' = Some (take 507 (CHR ''/'' # p))"
    using getenv_putenv by (simp add: take_Cons')
  moreover have "\<exists>path. InnerCd w s = Inr (s\<lparr>environ := ?e\<rparr>, [Chdir path])"
    using assms(3) p by (cases "argv s ! 1") (auto simp: InnerCd_def SIZE_def)
  ultimately show ?thesis
    using that p(1) by auto
qed

definition builtin :: "string \<Rightarrow> bool" where
  "builtin a \<longleftrightarrow> a = ''cd'' \<or> a = ''echo''"

lemma CheckBuiltin_external:
  assumes "arg s 0 = Inr a" "\<not> builtin a"
  shows "CheckBuiltin w s = Inr (False, s, [])"
  using assms by (simp add: CheckBuiltin_def builtin_def)

lemma CheckBuiltin_ok:
  assumes "shell_ok s" "holds_args s (a # as)" "world_ok w" "builtin a" "a = ''echo'' \<longrightarrow> as \<noteq> []"
    "env s = map Some (environ s) @ None # xs"
  obtains s' out where "CheckBuiltin w s = Inr (True, s', out)" "shell_ok s'" "redir_of s' = redir_of s"
    "stdin s' = stdin s"
proof (cases "a = ''cd''")
  case True
  have a0: "arg s 0 = Inr a"
    using holds_argsD(1) [OF assms(2,1), of 0] by simp
  show ?thesis
  proof (cases "argv s ! 2 = None")
    case False
    then obtain y where "argv s ! 2 = Some y"
      by blast
    then show ?thesis
      using that [of s "[Out ''unkonwn command'']"] True a0 assms(1) by (simp add: CheckBuiltin_def)
  next
    case cd: True
    have "argv s ! 1 \<noteq> None \<longrightarrow> (\<exists>a. arg s 1 = Inr a)"
      using holds_argsD(1) [OF assms(2,1), of 1] holds_argsD(4) [OF assms(2,1)] by (cases as) auto
    then obtain e path where "InnerCd w s = Inr (s\<lparr>environ := e\<rparr>, [Chdir path])" "shell_ok (s\<lparr>environ := e\<rparr>)"
      using InnerCd_ok [OF assms(1,3)] by blast
    then show ?thesis
      using that [of "s\<lparr>environ := e\<rparr>" "[Chdir path]"] True a0 cd by (simp add: CheckBuiltin_def redir_of_def)
  qed
next
  case False
  then have e: "a = ''echo''" "as \<noteq> []"
    using assms(4,5) by (auto simp: builtin_def)
  have a0: "arg s 0 = Inr a"
    using holds_argsD(1) [OF assms(2,1), of 0] by simp
  have a1: "arg s 1 = Inr (hd as)"
    using holds_argsD(1) [OF assms(2,1), of 1] e(2) by (cases as) auto
  obtain s' out where "InnerEcho s = Inr (s', out)" "s' = s \<or> s' = s\<lparr>lastcode := 0\<rparr>"
    using InnerEcho_ok [OF a1 assms(6) shell_okD(6) [OF assms(1)]] by (metis (no_types, lifting))
  then show ?thesis
    using that [of s' out] e(1) a0 assms(1) by (auto simp: CheckBuiltin_def redir_of_def shell_ok_def)
qed

section \<open>External commands\<close>

definition opens :: "i32 \<Rightarrow> (redirection \<times> string) option \<Rightarrow> call list" where
  "opens fd r =
    (case r of None \<Rightarrow> []
     | Some (t, f) \<Rightarrow> [Open t f] @ (if sint fd < 0 then [Cerr ''open error''] else [])
         @ [Dup2 fd (if t = INPUTREDIR then 0 else 1), Close fd])"

lemma child_calls_ok:
  assumes "shell_ok s" "holds_args s (a # as)"
  shows "child_calls fd s = Inr (opens fd (redir_of s) @ [Execvp a (a # as)])"
  using holds_argsD(1) [OF assms(2,1), of 0] holds_argsD(6) [OF assms(2,1)]
  by (simp add: child_calls_def redirect_calls_def redir_of_def opens_def)

lemma ExcuteCommand_ok:
  assumes "shell_ok s" "holds_args s (a # as)"
  obtains s' err where "ExcuteCommand w s =
      Inr (s', (if 0 < sint (fork_ret w) then [Child (opens (open_ret w) (redir_of s) @ [Execvp a (a # as)])] else []) @ err)"
    "shell_ok s'" "redir_of s' = None" "stdin s' = stdin s" "environ s' = environ s"
    "\<forall>x\<in>set err. \<exists>c. x = OutError a c"
proof -
  let ?s1 = "s\<lparr>redirtype := NONEREDIR\<rparr>"
  let ?s2 = "?s1\<lparr>lastcode := WEXITSTATUS (wait_status w)\<rparr>"
  have ok: "shell_ok ?s1" "shell_ok ?s2"
    using assms(1) by (simp_all add: shell_ok_def)
  have "holds_args ?s2 (a # as)"
    using assms(2) by (simp add: holds_args_def)
  then have a2: "arg ?s2 0 = Inr a"
    using holds_argsD(1) [OF _ ok(2), of "a # as" 0] by simp
  have r: "redir_of ?s1 = None" "redir_of ?s2 = None"
    by (simp_all add: redir_of_def)
  show ?thesis
  proof (cases "0 < sint (wait_ret w) \<and> \<not> WIFEXITED (wait_status w)")
    case True
    then show ?thesis
      using that [of ?s2 "if WEXITSTATUS (wait_status w) \<noteq> 0 then [OutError a (WEXITSTATUS (wait_status w))] else []"]
        child_calls_ok [OF assms] ok r a2 by (simp add: ExcuteCommand_def Let_def)
  next
    case False
    then show ?thesis
      using that [of ?s1 "[]"] child_calls_ok [OF assms] ok r by (auto simp: ExcuteCommand_def Let_def)
  qed
qed

section \<open>A round of the shell\<close>

lemma shell_round_builtin:
  assumes "shell_ok s" "next_line s l rest" "world_ok w" "line_args l = a # as" "builtin a" "a = ''echo'' \<longrightarrow> as \<noteq> []"
  obtains s' out where "shell_round w s = Inr (s', out)" "shell_ok s'" "stdin s' = rest" "redir_of s' = pending s l"
proof -
  obtain prompt s1 where s1: "shell_ok s1" "cstr (command s1) 0 = line_cmd l" "redir_of s1 = pending s l"
    "argv s1 = argv s" "env s1 = map Some (environ s) @ None # drop (Suc (length (environ s))) (env s)"
    "lastcode s1 = lastcode s" "environ s1 = environ s" "stdin s1 = rest"
    "GetCommandLineRemind s = Inr prompt"
    "\<And>w. shell_round w s = rbind (SplitCommand s1) (\<lambda>s. rbind (CheckBuiltin w s) (\<lambda>(ret, s, out).
        if ret then Inr (s, Out prompt # out)
        else rbind (ExcuteCommand w s) (\<lambda>(s, out). Inr (s, Out prompt # out))))"
    by (rule read_command [OF assms(1,2)]) (rule that)
  have tk: "tokens DELIM (cstr (command s1) 0) = a # as"
    using assms(4) s1(2) by (simp add: line_args_def)
  obtain av m where av: "SplitCommand s1 = Inr (s1\<lparr>argv := av, command := m\<rparr>)" "shell_ok (s1\<lparr>argv := av, command := m\<rparr>)"
    "holds_args (s1\<lparr>argv := av, command := m\<rparr>) (a # as)"
    using SplitCommand_some [OF s1(1)] tk by (metis list.distinct(1))
  have "env (s1\<lparr>argv := av, command := m\<rparr>) =
      map Some (environ (s1\<lparr>argv := av, command := m\<rparr>)) @ None # drop (Suc (length (environ s))) (env s)"
    using s1 by simp
  then obtain s' out where "CheckBuiltin w (s1\<lparr>argv := av, command := m\<rparr>) = Inr (True, s', out)" "shell_ok s'"
    "redir_of s' = redir_of (s1\<lparr>argv := av, command := m\<rparr>)" "stdin s' = stdin (s1\<lparr>argv := av, command := m\<rparr>)"
    using CheckBuiltin_ok [OF av(2,3) assms(3,5,6)] by metis
  then show ?thesis
    using that [of s' "Out prompt # out"] av(1) s1 by (simp add: redir_of_args)
qed

lemma shell_round_external:
  assumes "shell_ok s" "next_line s l rest" "line_args l = a # as" "\<not> builtin a"
  obtains s' prompt err where "shell_round w s = Inr (s', Out prompt #
      (if 0 < sint (fork_ret w) then [Child (opens (open_ret w) (pending s l) @ [Execvp a (a # as)])] else []) @ err)"
    "shell_ok s'" "redir_of s' = None" "stdin s' = rest" "\<forall>x\<in>set err. \<exists>c. x = OutError a c"
    "GetCommandLineRemind s = Inr prompt"
proof -
  obtain prompt s1 where s1: "shell_ok s1" "cstr (command s1) 0 = line_cmd l" "redir_of s1 = pending s l"
    "argv s1 = argv s" "env s1 = map Some (environ s) @ None # drop (Suc (length (environ s))) (env s)"
    "lastcode s1 = lastcode s" "environ s1 = environ s" "stdin s1 = rest"
    "GetCommandLineRemind s = Inr prompt"
    "\<And>w. shell_round w s = rbind (SplitCommand s1) (\<lambda>s. rbind (CheckBuiltin w s) (\<lambda>(ret, s, out).
        if ret then Inr (s, Out prompt # out)
        else rbind (ExcuteCommand w s) (\<lambda>(s, out). Inr (s, Out prompt # out))))"
    by (rule read_command [OF assms(1,2)]) (rule that)
  have tk: "tokens DELIM (cstr (command s1) 0) = a # as"
    using assms(3) s1(2) by (simp add: line_args_def)
  obtain av m where av: "SplitCommand s1 = Inr (s1\<lparr>argv := av, command := m\<rparr>)" "shell_ok (s1\<lparr>argv := av, command := m\<rparr>)"
    "holds_args (s1\<lparr>argv := av, command := m\<rparr>) (a # as)"
    using SplitCommand_some [OF s1(1)] tk by (metis list.distinct(1))
  let ?s = "s1\<lparr>argv := av, command := m\<rparr>"
  have "arg ?s 0 = Inr a"
    using holds_argsD(1) [OF av(3,2), of 0] by simp
  then have b: "CheckBuiltin w ?s = Inr (False, ?s, [])"
    using assms(4) by (rule CheckBuiltin_external)
  have r: "redir_of ?s = pending s l"
    using s1(3) by (simp add: redir_of_args)
  show ?thesis
    by (rule ExcuteCommand_ok [OF av(2,3), of w]) (rule that, use s1 av(1) b r in simp_all)
qed

text \<open>A line without a word, and \<open>echo\<close> without an argument, make the shell read through a null pointer.\<close>

definition runnable :: "string \<Rightarrow> bool" where
  "runnable l \<longleftrightarrow> line_args l \<noteq> [] \<and> line_args l \<noteq> [''echo'']"

lemma shell_round_faults:
  assumes "shell_ok s" "next_line s l rest" "\<not> runnable l"
  shows "shell_round w s = Inl NullDeref"
proof -
  obtain prompt s1 where s1: "shell_ok s1" "cstr (command s1) 0 = line_cmd l" "redir_of s1 = pending s l"
    "argv s1 = argv s" "env s1 = map Some (environ s) @ None # drop (Suc (length (environ s))) (env s)"
    "lastcode s1 = lastcode s" "environ s1 = environ s" "stdin s1 = rest"
    "GetCommandLineRemind s = Inr prompt"
    "\<And>w. shell_round w s = rbind (SplitCommand s1) (\<lambda>s. rbind (CheckBuiltin w s) (\<lambda>(ret, s, out).
        if ret then Inr (s, Out prompt # out)
        else rbind (ExcuteCommand w s) (\<lambda>(s, out). Inr (s, Out prompt # out))))"
    by (rule read_command [OF assms(1,2)]) (rule that)
  have tk: "tokens DELIM (cstr (command s1) 0) = line_args l"
    using s1(2) by (simp add: line_args_def)
  show ?thesis
  proof (cases "line_args l = []")
    case True
    then have "tokens DELIM (cstr (command s1) 0) = []"
      using tk by simp
    then obtain s' where "SplitCommand s1 = Inr s'" "arg s' 0 = Inl NullDeref"
      using SplitCommand_none [OF s1(1)] by blast
    then show ?thesis
      using s1(10) by (simp add: CheckBuiltin_def)
  next
    case False
    then have e: "line_args l = [''echo'']"
      using assms(3) by (simp add: runnable_def)
    obtain av m where av: "SplitCommand s1 = Inr (s1\<lparr>argv := av, command := m\<rparr>)" "shell_ok (s1\<lparr>argv := av, command := m\<rparr>)"
      "holds_args (s1\<lparr>argv := av, command := m\<rparr>) [''echo'']"
      using SplitCommand_some [OF s1(1)] tk e by (metis list.distinct(1))
    have "CheckBuiltin w (s1\<lparr>argv := av, command := m\<rparr>) = Inl NullDeref"
      using holds_argsD(1) [OF av(3,2), of 0] holds_argsD(2) [OF av(3,2)]
      by (simp add: CheckBuiltin_def InnerEcho_def)
    then show ?thesis
      using s1(10) av(1) by simp
  qed
qed

lemma shell_round_runnable:
  assumes "shell_ok s" "next_line s l rest" "world_ok w" "runnable l"
  obtains s' out where "shell_round w s = Inr (s', out)" "shell_ok s'" "stdin s' = rest"
proof -
  obtain a as where a: "line_args l = a # as" "a = ''echo'' \<longrightarrow> as \<noteq> []"
    using assms(4) by (cases "line_args l") (auto simp: runnable_def)
  show ?thesis
  proof (cases "builtin a")
    case True
    show ?thesis
      by (rule shell_round_builtin [OF assms(1-3) a(1) True a(2)]) (rule that)
  next
    case False
    show ?thesis
      by (rule shell_round_external [OF assms(1,2) a(1) False, of w]) (rule that)
  qed
qed

text \<open>The lines of a session.\<close>

definition text_line :: "string \<Rightarrow> bool" where
  "text_line l \<longleftrightarrow> newline \<notin> set l \<and> NUL \<notin> set l \<and> length l < 511"

definition typed :: "string list \<Rightarrow> string" where
  "typed ls = concat (map (\<lambda>l. l @ [newline]) ls)"

lemma shell_ok_init:
  assumes "length f = 512" "env_ok es"
  shows "shell_ok (shell_init f es inp)"
  using assms by (simp add: shell_ok_def shell_init_def SIZE_def)

text \<open>C32: A session of text lines keeps the state well formed and reads them all, unless one of the
  lines has no word or is a bare \<open>echo\<close>: then, and only then, the shell dereferences a null pointer.\<close>

theorem shell_session:
  assumes "shell_ok s" "stdin s = typed ls @ rest" "\<forall>l\<in>set ls. text_line l" "length ws = length ls"
    "\<forall>w\<in>set ws. world_ok w"
  shows "if \<forall>l\<in>set ls. runnable l
    then \<exists>s' out. shell_main ws s = Inr (s', out) \<and> shell_ok s' \<and> stdin s' = rest
    else shell_main ws s = Inl NullDeref"
  using assms(4,1,2,3,5)
proof (induction ws ls arbitrary: s rule: list_induct2)
  case Nil
  then show ?case
    by (simp add: typed_def)
next
  case (Cons w ws l ls)
  have n: "next_line s l (typed ls @ rest)"
    using Cons.prems by (simp add: next_line_def typed_def text_line_def)
  show ?case
  proof (cases "runnable l")
    case True
    obtain s' out where r: "shell_round w s = Inr (s', out)" "shell_ok s'" "stdin s' = typed ls @ rest"
      using shell_round_runnable [OF Cons.prems(1) n _ True, of w] Cons.prems(4) by auto
    have "if \<forall>l\<in>set ls. runnable l
      then \<exists>s'' out'. shell_main ws s' = Inr (s'', out') \<and> shell_ok s'' \<and> stdin s'' = rest
      else shell_main ws s' = Inl NullDeref"
      by (rule Cons.IH [OF r(2,3)]) (use Cons.prems in auto)
    then show ?thesis
      using r(1) True by (auto split: if_splits)
  next
    case False
    then show ?thesis
      using shell_round_faults [OF Cons.prems(1) n False] by simp
  qed
qed

text \<open>A line whose first word is not built in runs exactly its words, split at spaces, with its
  input or output redirected to the file the line names; without a redirection of its own it takes the one that
  is pending, and leaves none.\<close>

theorem shell_runs_line:
  assumes "shell_ok s" "stdin s = l @ newline # rest" "text_line l" "line_args l = a # as" "\<not> builtin a"
    "0 < sint (fork_ret w)"
  shows "\<exists>s' prompt err. shell_round w s =
      Inr (s', Out prompt # Child (opens (open_ret w) (pending s l) @ [Execvp a (a # as)]) # err) \<and>
    shell_ok s' \<and> redir_of s' = None \<and> stdin s' = rest"
proof -
  have "next_line s l rest"
    using assms(2,3) by (simp add: next_line_def text_line_def)
  then obtain s' prompt err where "shell_round w s = Inr (s', Out prompt #
      (if 0 < sint (fork_ret w) then [Child (opens (open_ret w) (pending s l) @ [Execvp a (a # as)])] else []) @ err)"
    "shell_ok s'" "redir_of s' = None" "stdin s' = rest"
    using shell_round_external [OF assms(1) _ assms(4,5), of rest w] by blast
  then show ?thesis
    using assms(6) by (intro exI [of _ s'] exI [of _ prompt] exI [of _ err]) simp
qed

text \<open>The redirection of a built-in command is not forgotten: the next external command runs with it.\<close>

theorem redirection_leaks:
  assumes "shell_ok s" "stdin s = typed [l1, l2] @ rest" "text_line l1" "text_line l2"
    "line_args l1 = a1 # as1" "builtin a1" "a1 = ''echo'' \<longrightarrow> as1 \<noteq> []" "line_redir l1 = Some (t, f)"
    "line_args l2 = a # as" "\<not> builtin a" "line_redir l2 = None" "world_ok w1" "0 < sint (fork_ret w2)"
  shows "\<exists>s' out prompt err. shell_main [w1, w2] s =
    Inr (s', out @ Out prompt # Child (opens (open_ret w2) (Some (t, f)) @ [Execvp a (a # as)]) # err)"
proof -
  have n1: "next_line s l1 (l2 @ newline # rest)"
    using assms(2,3) by (simp add: next_line_def text_line_def typed_def)
  have p: "pending s l1 = Some (t, f)"
    using assms(8) by (simp add: pending_def)
  obtain s1 out where s1: "shell_round w1 s = Inr (s1, out)" "shell_ok s1" "stdin s1 = l2 @ newline # rest"
    "redir_of s1 = Some (t, f)"
    by (rule shell_round_builtin [OF assms(1) n1 assms(12,5,6,7), unfolded p])
  have n2: "next_line s1 l2 rest"
    using s1(3) assms(4) by (simp add: next_line_def text_line_def)
  obtain s' prompt err where "shell_round w2 s1 = Inr (s', Out prompt #
      (if 0 < sint (fork_ret w2) then [Child (opens (open_ret w2) (pending s1 l2) @ [Execvp a (a # as)])] else []) @ err)"
    by (rule shell_round_external [OF s1(2) n2 assms(9,10), of w2]) (rule that)
  moreover have "pending s1 l2 = Some (t, f)"
    using s1(4) assms(11) by (simp add: pending_def)
  ultimately show ?thesis
    using s1(1) assms(13) by (intro exI [of _ s'] exI [of _ out] exI [of _ prompt] exI [of _ err]) simp
qed

text \<open>\<open>echo $?\<close> never shows an exit code: \<open>lastcode\<close> is only set when the child did not exit by itself, and the
  status of a child a signal ended has no exit code.\<close>

definition kernel_status :: "i32 \<Rightarrow> bool" where
  "kernel_status st \<longleftrightarrow> (\<exists>code :: 8 word. st = push_bit 8 (ucast code)) \<or> (\<exists>sig :: 8 word. st = ucast sig)"

definition zero_code :: "action \<Rightarrow> bool" where
  "zero_code x \<longleftrightarrow> (case x of OutCode c \<Rightarrow> c = 0 | OutError _ _ \<Rightarrow> False | _ \<Rightarrow> True)"

lemma kernel_status_code:
  assumes "kernel_status st" "\<not> WIFEXITED st"
  shows "WEXITSTATUS st = 0"
proof -
  have m: "(0x7f :: i32) = mask 7"
    by (simp add: mask_eq_exp_minus_1)
  have e: "push_bit 8 (ucast code) AND (0x7f :: i32) = 0" for code :: "8 word"
    unfolding m by (rule bit_word_eqI) (auto simp: bit_simps)
  have s: "drop_bit 8 (ucast sig AND (0xff00 :: i32)) = 0" for sig :: "8 word"
    by (rule bit_word_eqI) (auto simp: bit_simps dest: bit_imp_le_length)
  show ?thesis
    using assms e s unfolding kernel_status_def WIFEXITED_def WEXITSTATUS_def by auto
qed

text \<open>Operations that leave the code alone.\<close>

lemma rbind_InrE: "rbind r f = Inr y \<Longrightarrow> (\<And>x. r = Inr x \<Longrightarrow> f x = Inr y \<Longrightarrow> thesis) \<Longrightarrow> thesis"
  by (cases r) auto

lemma take_filename_code: "take_filename t s q = Inr s' \<Longrightarrow> lastcode s' = lastcode s"
  by (auto simp: take_filename_def elim!: rbind_InrE)

lemma CheckRedir_loop_code: "CheckRedir_loop s q = Inr s' \<Longrightarrow> lastcode s' = lastcode s"
proof (induction s q rule: CheckRedir_loop.induct)
  case (1 s q)
  then show ?case
    by (subst (asm) (2) CheckRedir_loop.simps)
      (auto simp: Let_def split: if_splits elim!: rbind_InrE dest!: take_filename_code)
qed

lemma reading_code:
  "LoadEnv s = Inr s' \<Longrightarrow> lastcode s' = lastcode s"
  "GetUserCommand s = Inr s' \<Longrightarrow> lastcode s' = lastcode s"
  "CheckRedir s = Inr s' \<Longrightarrow> lastcode s' = lastcode s"
  "SplitCommand s = Inr s' \<Longrightarrow> lastcode s' = lastcode s"
  by (auto simp: LoadEnv_def GetUserCommand_def CheckRedir_def SplitCommand_def Let_def
      split: nat.splits prod.splits elim!: rbind_InrE dest!: CheckRedir_loop_code)

lemma echo_env_code: "echo_env name es = Inr out \<Longrightarrow> \<forall>x\<in>set out. zero_code x"
  by (induction name es rule: echo_env.induct) (auto simp: zero_code_def Let_def split: if_splits)

lemma InnerEcho_code:
  assumes "InnerEcho s = Inr (s', out)" "lastcode s = 0"
  shows "lastcode s' = 0 \<and> (\<forall>x\<in>set out. zero_code x)"
  using assms echo_env_code
  by (auto simp: InnerEcho_def zero_code_def split: list.splits if_splits elim!: rbind_InrE)

lemma CheckBuiltin_code:
  assumes "CheckBuiltin w s = Inr (b, s', out)" "lastcode s = 0"
  shows "lastcode s' = 0 \<and> (\<forall>x\<in>set out. zero_code x)"
  using assms InnerEcho_code
  by (auto simp: CheckBuiltin_def InnerCd_def zero_code_def split: if_splits elim!: rbind_InrE)

lemma ExcuteCommand_code:
  assumes "ExcuteCommand w s = Inr (s', out)" "lastcode s = 0" "kernel_status (wait_status w)"
  shows "lastcode s' = 0 \<and> (\<forall>x\<in>set out. zero_code x)"
  using assms kernel_status_code [OF assms(3)]
  by (auto simp: ExcuteCommand_def zero_code_def Let_def split: if_splits elim!: rbind_InrE)

lemma shell_round_code:
  assumes "shell_round w s = Inr (s', out)" "lastcode s = 0" "kernel_status (wait_status w)"
  shows "lastcode s' = 0 \<and> (\<forall>x\<in>set out. zero_code x)"
  using assms(1) unfolding shell_round_def
proof (elim rbind_InrE)
  fix s1 prompt s2 s3 s4 bso
  assume r: "LoadEnv s = Inr s1" "GetUserCommand s1 = Inr s2" "CheckRedir s2 = Inr s3" "SplitCommand s3 = Inr s4"
    "CheckBuiltin w s4 = Inr bso"
    "(case bso of (ret, s, out) \<Rightarrow>
      if ret then Inr (s, Out prompt # out) else rbind (ExcuteCommand w s) (\<lambda>(s, out). Inr (s, Out prompt # out))) = Inr (s', out)"
  obtain b s5 o5 where b: "bso = (b, s5, o5)"
    using prod_cases3 by blast
  have "lastcode s4 = 0"
    using reading_code(1) [OF r(1)] reading_code(2) [OF r(2)] reading_code(3) [OF r(3)] reading_code(4) [OF r(4)]
      assms(2) by simp
  then have c: "lastcode s5 = 0 \<and> (\<forall>x\<in>set o5. zero_code x)"
    using CheckBuiltin_code r(5) b by blast
  have p: "zero_code (Out prompt)"
    by (simp add: zero_code_def)
  show ?thesis
    using r(6) b c p ExcuteCommand_code [OF _ _ assms(3), of s5]
    by (auto split: if_splits elim!: rbind_InrE)
qed

text \<open>No session ever shows an exit code other than zero, whatever its commands exit with.\<close>

theorem exit_code_never_shown:
  assumes "shell_main ws s = Inr (s', out)" "lastcode s = 0" "\<forall>w\<in>set ws. kernel_status (wait_status w)"
  shows "lastcode s' = 0 \<and> (\<forall>x\<in>set out. zero_code x)"
  using assms
proof (induction ws arbitrary: s out)
  case (Cons w ws)
  then obtain s1 o1 o2 where r: "shell_round w s = Inr (s1, o1)" "shell_main ws s1 = Inr (s', o2)" "out = o1 @ o2"
    by (auto elim!: rbind_InrE)
  have c: "lastcode s1 = 0 \<and> (\<forall>x\<in>set o1. zero_code x)"
    using shell_round_code [OF r(1) Cons.prems(2)] Cons.prems(3) by simp
  then have "lastcode s' = 0 \<and> (\<forall>x\<in>set o2. zero_code x)"
    using Cons.IH [OF r(2)] Cons.prems(3) by simp
  then show ?case
    using c r(3) by auto
qed simp

text \<open>The entries of \<open>argv\<close> behind the null pointer are those of earlier lines, and \<open>cd\<close> looks at one of them: after a
  line of three words a \<open>cd\<close> without argument is refused.\<close>

lemma cd_refused:
  assumes "shell_ok s" "next_line s l rest" "line_args l = [''cd'']" "argv s ! 2 \<noteq> None"
  shows "\<exists>s' prompt. shell_round w s = Inr (s', [Out prompt, Out ''unkonwn command'']) \<and> environ s' = environ s"
proof -
  obtain prompt s1 where s1: "shell_ok s1" "cstr (command s1) 0 = line_cmd l" "redir_of s1 = pending s l"
    "argv s1 = argv s" "env s1 = map Some (environ s) @ None # drop (Suc (length (environ s))) (env s)"
    "lastcode s1 = lastcode s" "environ s1 = environ s" "stdin s1 = rest"
    "GetCommandLineRemind s = Inr prompt"
    "\<And>w. shell_round w s = rbind (SplitCommand s1) (\<lambda>s. rbind (CheckBuiltin w s) (\<lambda>(ret, s, out).
        if ret then Inr (s, Out prompt # out)
        else rbind (ExcuteCommand w s) (\<lambda>(s, out). Inr (s, Out prompt # out))))"
    by (rule read_command [OF assms(1,2)]) (rule that)
  have tk: "tokens DELIM (cstr (command s1) 0) = [''cd'']"
    using assms(3) s1(2) by (simp add: line_args_def)
  obtain av m where av: "SplitCommand s1 = Inr (s1\<lparr>argv := av, command := m\<rparr>)" "shell_ok (s1\<lparr>argv := av, command := m\<rparr>)"
    "holds_args (s1\<lparr>argv := av, command := m\<rparr>) [''cd'']" "av ! 2 = argv s ! 2"
    by (rule SplitCommand_some [OF s1(1)]) (use tk s1(4) in simp_all)
  have "arg (s1\<lparr>argv := av, command := m\<rparr>) 0 = Inr ''cd''"
    using holds_argsD(1) [OF av(3,2), of 0] by simp
  moreover obtain y where "av ! 2 = Some y"
    using av(4) assms(4) by auto
  ultimately show ?thesis
    using s1(7,10) av(1) by (simp add: CheckBuiltin_def)
qed

section \<open>A session\<close>

definition demo_shell :: "string list \<Rightarrow> shell" where
  "demo_shell ls = shell_init (replicate 512 NUL) [''PWD=/root'', ''USER=me''] (typed ls)"

definition demo_in :: round_in where
  "demo_in = \<lparr>cwd_buf = ''/root'' @ [NUL], fork_ret = 7, open_ret = 3, wait_ret = 7, wait_status = push_bit 8 1\<rparr>"

lemma demo_shell_ok: "shell_ok (demo_shell ls)"
  unfolding demo_shell_def
  by (rule shell_ok_init) (simp_all add: env_ok_def SIZE_def getenv_def names_env_def)

lemma demo_fields:
  "stdin (demo_shell ls) = typed ls" "lastcode (demo_shell ls) = 0" "redir_of (demo_shell ls) = None"
  "world_ok demo_in" "fork_ret demo_in = 7" "open_ret demo_in = 3" "kernel_status (wait_status demo_in)"
proof -
  have "push_bit 8 1 = push_bit 8 (ucast (1 :: 8 word) :: i32)"
    by simp
  then show "kernel_status (wait_status demo_in)"
    unfolding kernel_status_def demo_in_def by (metis round_in.select_convs(5))
  show "world_ok demo_in"
    by (simp add: world_ok_def demo_in_def cstr_def ends_in_def)
qed (simp_all add: demo_shell_def shell_init_def redir_of_def demo_in_def)

lemmas line_defs = line_args_def line_cmd_def line_redir_def skip_space_def redir_char_def text_line_def
  DELIM_def builtin_def runnable_def

lemma demo_lines:
  "text_line ''ls -l'' \<and> line_args ''ls -l'' = [''ls'', ''-l''] \<and> line_redir ''ls -l'' = None"
  "text_line ''ls >> f'' \<and> line_args ''ls >> f'' = [''ls''] \<and> line_redir ''ls >> f'' = Some (APPENDREDIR, ''f'')"
  "text_line ''echo $? > f'' \<and> line_args ''echo $? > f'' = [''echo'', ''$?''] \<and>
    line_redir ''echo $? > f'' = Some (OTPUTREDIR, ''f'')"
  "text_line ''echo'' \<and> line_args ''echo'' = [''echo'']"
  by (simp_all add: line_defs tokens.simps)

theorem shell_session_witness:
  "(\<exists>s' out. shell_main [demo_in, demo_in] (demo_shell [''echo $? > f'', ''ls -l'']) = Inr (s', out) \<and>
      shell_ok s' \<and> stdin s' = []) \<and>
   shell_main [demo_in] (demo_shell [''echo'']) = Inl NullDeref"
  using shell_session [of "demo_shell [''echo $? > f'', ''ls -l'']" "[''echo $? > f'', ''ls -l'']" "[]" "[demo_in, demo_in]"]
    shell_session [of "demo_shell [''echo'']" "[''echo'']" "[]" "[demo_in]"]
  by (simp add: demo_shell_ok demo_fields demo_lines runnable_def)

theorem shell_runs_line_witness:
  "\<exists>s' prompt err. shell_round demo_in (demo_shell [''ls >> f'']) =
      Inr (s', Out prompt # Child [Open APPENDREDIR ''f'', Dup2 3 1, Close 3, Execvp ''ls'' [''ls'']] # err) \<and>
    shell_ok s' \<and> redir_of s' = None \<and> stdin s' = []"
  using shell_runs_line [of "demo_shell [''ls >> f'']" "''ls >> f''" "[]" "''ls''" "[]" demo_in]
  by (simp add: demo_shell_ok demo_fields demo_lines builtin_def typed_def pending_def opens_def)

theorem redirection_leaks_witness:
  "\<exists>s' out prompt err. shell_main [demo_in, demo_in] (demo_shell [''echo $? > f'', ''ls -l'']) =
    Inr (s', out @ Out prompt # Child [Open OTPUTREDIR ''f'', Dup2 3 1, Close 3, Execvp ''ls'' [''ls'', ''-l'']] # err)"
  using redirection_leaks [of "demo_shell [''echo $? > f'', ''ls -l'']" "''echo $? > f''" "''ls -l''" "[]" "''echo''"
      "[''$?'']" OTPUTREDIR "''f''" "''ls''" "[''-l'']" demo_in demo_in]
  by (simp add: demo_shell_ok demo_fields demo_lines builtin_def opens_def)

theorem exit_code_never_shown_witness:
  "\<exists>s' out. shell_main [demo_in] (demo_shell [''ls -l'']) = Inr (s', out) \<and> lastcode s' = 0 \<and> (\<forall>x\<in>set out. zero_code x)"
proof -
  have "next_line (demo_shell [''ls -l'']) ''ls -l'' []" "runnable ''ls -l''"
    using demo_lines(1) by (simp_all add: next_line_def text_line_def demo_fields typed_def runnable_def)
  then obtain s' out where "shell_round demo_in (demo_shell [''ls -l'']) = Inr (s', out)"
    using shell_round_runnable [OF demo_shell_ok _ demo_fields(4)] by metis
  then show ?thesis
    using exit_code_never_shown [of "[demo_in]" "demo_shell [''ls -l'']" s' out] demo_fields(2,7) by simp
qed

end
