(* ===== verification/Std_Shell.thy ===== *)
theory Std_Shell
  imports Shell
begin

text \<open>
  The earlier shell of \<open>src/Test_11_6_proc_substitute/myshell/standard/myshell.cc\<close>: its tables of 32 entries, the
  reading of a line into 128 bytes, redirection by a pointer into that line, the built-in commands and the parent's
  bookkeeping. It is a program of its own: a line clears the redirection and the arguments of the line before, the
  built-in commands differ, and the child gets the environment of a table that nothing fills.

  As in Shell.thy, pointers of \<open>gargv\<close> and \<open>filename\<close> are places in \<open>command_line\<close>, the kernel's answers of a round
  are the record \<open>round_in\<close>, and what a round does to the outside is a list of actions. \<open>putenv\<close> keeps the pointer to
  \<open>cwd\<close>; the array only changes just before the next \<open>putenv\<close>, so the environment holds its content. \<open>gargc\<close> counts at
  most 32 and is a number. \<open>malloc\<close> is taken to succeed.
\<close>

section \<open>State\<close>

datatype redir_kind = NoneRedir | InputRedir | AppRedir | OutputRedir

record std_shell =
  gargv :: "nat option list"
  gargc :: nat
  genv :: "string option list"
  genvc :: nat
  cwd :: cbuf
  sh_lastcode :: i32
  redir_type :: redir_kind
  redir_file :: "nat option"
  command_line :: cbuf
  sh_environ :: "string list"
  sh_stdin :: string

definition MAXSIZE :: nat where
  "MAXSIZE = 128"

definition MAXARGS :: nat where
  "MAXARGS = 32"

definition gsep :: string where
  "gsep = '' ''"

definition std_init :: "string list \<Rightarrow> string \<Rightarrow> std_shell" where
  "std_init es inp =
    \<lparr>gargv = replicate MAXARGS None, gargc = 0, genv = replicate MAXARGS None, genvc = 0, cwd = replicate MAXSIZE NUL,
     sh_lastcode = 0, redir_type = NoneRedir, redir_file = None, command_line = replicate MAXSIZE NUL,
     sh_environ = es, sh_stdin = inp\<rparr>"

datatype std_call =
    OpenFor redir_kind string
  | DupTo i32 i32
  | Execvpe string "string list" "string list"
  | Exit i32

datatype std_action =
    Print string
  | PrintEnv nat string
  | PrintCode i32
  | ChangeDir string
  | Fork "std_call list"

section \<open>The environment\<close>

text \<open>\<open>LoadEnv\<close>, whose call in \<open>main\<close> is commented out: each copy has room for 4096 bytes.\<close>

fun std_LoadEnv_loop :: "nat \<Rightarrow> string list \<Rightarrow> string option list \<Rightarrow> (nat \<times> string option list) res" where
  "std_LoadEnv_loop i [] ge = rbind (put_at ge i None) (\<lambda>ge. Inr (i, ge))"
| "std_LoadEnv_loop i (x # xs) ge =
    rbind (put_at ge i (Some x)) (\<lambda>ge.
      if length x < 4096 then std_LoadEnv_loop (Suc i) xs ge else Inl OutOfBounds)"

fun print_env :: "nat \<Rightarrow> string option list \<Rightarrow> std_action list" where
  "print_env i (Some e # ge) = PrintEnv i e # print_env (Suc i) ge"
| "print_env i _ = []"

definition std_LoadEnv :: "std_shell \<Rightarrow> (std_shell \<times> std_action list) res" where
  "std_LoadEnv s =
    rbind (std_LoadEnv_loop (genvc s) (drop (genvc s) (sh_environ s)) (genv s)) (\<lambda>(n, ge).
      Inr (s\<lparr>genv := ge, genvc := n\<rparr>, Print ''Load env: '' # print_env 0 ge))"

section \<open>The prompt\<close>

definition rfind :: "char \<Rightarrow> string \<Rightarrow> nat option" where
  "rfind c p = (if c \<in> set p then Some (length p - Suc (length (takeWhile (\<lambda>x. x \<noteq> c) (rev p)))) else None)"

definition rfindDir :: "string \<Rightarrow> string" where
  "rfindDir p =
    (if p = ''/'' then p
     else case rfind CHR ''/'' p of None \<Rightarrow> [] | Some pos \<Rightarrow> drop (pos + 1) p)"

definition std_GetUserName :: "string list \<Rightarrow> string" where
  "std_GetUserName es = (case getenv es ''USER'' of None \<Rightarrow> ''None'' | Some name \<Rightarrow> name)"

definition std_GetHostName :: "string list \<Rightarrow> string" where
  "std_GetHostName es = (case getenv es ''HOSTNAME'' of None \<Rightarrow> ''None'' | Some name \<Rightarrow> name)"

definition GetPwd :: "string list \<Rightarrow> string" where
  "GetPwd es = (case getenv es ''PWD'' of None \<Rightarrow> ''None'' | Some pwd \<Rightarrow> pwd)"

definition PrintCommandLine :: "string list \<Rightarrow> std_action" where
  "PrintCommandLine es =
    Print (''['' @ std_GetUserName es @ ''@'' @ std_GetHostName es @ '' '' @ rfindDir (GetPwd es) @ '']# '')"

section \<open>Reading and cutting a line\<close>

definition GetCommand :: "std_shell \<Rightarrow> (nat \<times> std_shell) res" where
  "GetCommand s =
    (let (l, rest) = fgets (MAXSIZE - 1) (sh_stdin s) in
     if l = [] then Inr (0, s\<lparr>sh_stdin := rest\<rparr>)
     else let cmd = overwrite (command_line s) 0 (l @ [NUL]) in
       rbind (scan (\<lambda>c. c \<noteq> NUL) cmd 0) (\<lambda>len.
         case len of 0 \<Rightarrow> Inl OutOfBounds
         | Suc k \<Rightarrow> rbind (wr cmd k NUL) (\<lambda>cmd. rbind (scan (\<lambda>c. c \<noteq> NUL) cmd 0) (\<lambda>len.
             Inr (len, s\<lparr>command_line := cmd, sh_stdin := rest\<rparr>)))))"

text \<open>\<open>isspace\<close> in the C locale, and the macro \<open>TrimSpace\<close>.\<close>

definition isspace :: "char \<Rightarrow> bool" where
  "isspace c \<longleftrightarrow> c \<in> set [CHR '' '', CHR 0x09, CHR 0x0A, CHR 0x0B, CHR 0x0C, CHR 0x0D]"

definition TrimSpace :: "cbuf \<Rightarrow> nat \<Rightarrow> nat res" where
  "TrimSpace m start = scan isspace m start"

definition set_redir :: "redir_kind \<Rightarrow> std_shell \<Rightarrow> nat \<Rightarrow> std_shell res" where
  "set_redir t s start =
    rbind (TrimSpace (command_line s) start) (\<lambda>start. Inr (s\<lparr>redir_type := t, redir_file := Some start\<rparr>))"

function ParseRedir_loop :: "std_shell \<Rightarrow> nat \<Rightarrow> nat \<Rightarrow> std_shell res" where
  "ParseRedir_loop s start stop =
    (if start < stop then
       rbind (rd (command_line s) start) (\<lambda>c.
         if c = CHR ''>'' then
           rbind (rd (command_line s) (start + 1)) (\<lambda>c'.
             if c' = CHR ''>'' then
               set_redir AppRedir (s\<lparr>command_line := (command_line s)[start := NUL, start + 1 := NUL]\<rparr>) (start + 2)
             else set_redir OutputRedir (s\<lparr>command_line := (command_line s)[start := NUL]\<rparr>) (start + 1))
         else if c = CHR ''<'' then
           set_redir InputRedir (s\<lparr>command_line := (command_line s)[start := NUL]\<rparr>) (start + 1)
         else ParseRedir_loop s (start + 1) stop)
     else Inr s)"
  by pat_completeness auto

termination
  by (relation "measure (\<lambda>(s, start, stop). stop - start)") auto

definition ParseRedir :: "std_shell \<Rightarrow> std_shell res" where
  "ParseRedir s =
    (let s = s\<lparr>redir_type := NoneRedir, redir_file := None\<rparr> in
     rbind (scan (\<lambda>c. c \<noteq> NUL) (command_line s) 0) (\<lambda>stop. ParseRedir_loop s 0 stop))"

function ParseCommand_loop :: "nat \<Rightarrow> nat option list \<Rightarrow> cbuf \<Rightarrow> nat \<Rightarrow> (nat \<times> nat option list \<times> cbuf) res" where
  "ParseCommand_loop argc av m save =
    (if argc + 1 < length av
     then rbind (strtok gsep m save) (\<lambda>(t, save, m).
       if t = None then Inr (argc + 1, av[argc + 1 := t], m)
       else ParseCommand_loop (argc + 1) (av[argc + 1 := t]) m save)
     else Inl OutOfBounds)"
  by pat_completeness auto

termination
  by (relation "measure (\<lambda>(argc, av, m, save). length av - argc)") auto

definition ParseCommand :: "std_shell \<Rightarrow> (nat \<times> std_shell) res" where
  "ParseCommand s =
    rbind (strtok gsep (command_line s) 0) (\<lambda>(t, save, m).
      rbind (put_at (replicate (length (gargv s)) None) 0 t) (\<lambda>av.
        rbind (ParseCommand_loop 0 av m save) (\<lambda>(n, av, m).
          Inr (n, s\<lparr>gargc := n, gargv := av, command_line := m\<rparr>))))"

declare ParseRedir_loop.simps [simp del] ParseCommand_loop.simps [simp del]

text \<open>The string an entry of \<open>gargv\<close> points to.\<close>

definition str_at :: "cbuf \<Rightarrow> nat option \<Rightarrow> string res" where
  "str_at m p =
    (case p of None \<Rightarrow> Inl NullDeref | Some p \<Rightarrow> if ends_in m p then Inr (cstr m p) else Inl OutOfBounds)"

definition garg :: "std_shell \<Rightarrow> nat \<Rightarrow> string res" where
  "garg s i = (if i < length (gargv s) then str_at (command_line s) (gargv s ! i) else Inl OutOfBounds)"

section \<open>Running a command\<close>

definition std_cd :: "round_in \<Rightarrow> std_shell \<Rightarrow> (std_shell \<times> std_action list) res" where
  "std_cd w s =
    rbind (garg s 1) (\<lambda>dir.
      if ends_in (cwd_buf w) 0
      then let c = overwrite (cwd s) 0 (take (MAXSIZE - 1) (''PWD='' @ cstr (cwd_buf w) 0) @ [NUL]) in
        Inr (s\<lparr>cwd := c, sh_environ := putenv ''PWD'' (cstr c 0) (sh_environ s), sh_lastcode := 0\<rparr>, [ChangeDir dir])
      else Inl OutOfBounds)"

definition std_echo :: "std_shell \<Rightarrow> (std_shell \<times> std_action list) res" where
  "std_echo s =
    rbind (garg s 1) (\<lambda>a.
      case a of [] \<Rightarrow> Inr (s, [])
      | c # name \<Rightarrow>
          if c = CHR ''$'' then
            rbind (if name = ''?'' then Inr [PrintCode (sh_lastcode s)]
                   else if name = ''PATH'' then
                     (case getenv (sh_environ s) ''PATH'' of None \<Rightarrow> Inl NullDeref | Some v \<Rightarrow> Inr [Print v])
                   else Inr [])
              (\<lambda>out. Inr (s\<lparr>sh_lastcode := 0\<rparr>, out))
          else Inr (s, []))"

definition CheckBuiltinExecute :: "round_in \<Rightarrow> std_shell \<Rightarrow> (bool \<times> std_shell \<times> std_action list) res" where
  "CheckBuiltinExecute w s =
    rbind (garg s 0) (\<lambda>a.
      if a = ''cd'' then
        (if gargc s = 2 then rbind (std_cd w s) (\<lambda>(s, out). Inr (True, s, out)) else Inr (True, s, []))
      else if a = ''echo'' \<and> gargc s = 2 then rbind (std_echo s) (\<lambda>(s, out). Inr (True, s, out))
      else Inr (False, s, []))"

text \<open>The redirection in the child. \<open>open\<close>'s result goes to \<open>dup2\<close> unchecked.\<close>

definition std_redirect :: "i32 \<Rightarrow> std_shell \<Rightarrow> std_call list res" where
  "std_redirect fd s =
    (if redir_type s = NoneRedir then Inr []
     else rbind (str_at (command_line s) (redir_file s)) (\<lambda>f.
       Inr [OpenFor (redir_type s) f, DupTo fd (if redir_type s = InputRedir then 0 else 1)]))"

text \<open>\<open>execvpe\<close> reads both tables up to a null pointer; the child only goes on to \<open>exit\<close> when it fails.\<close>

fun exec_env :: "string option list \<Rightarrow> string list res" where
  "exec_env [] = Inl OutOfBounds"
| "exec_env (None # ge) = Inr []"
| "exec_env (Some e # ge) = rbind (exec_env ge) (\<lambda>es. Inr (e # es))"

definition std_child :: "i32 \<Rightarrow> std_shell \<Rightarrow> std_call list res" where
  "std_child fd s =
    rbind (std_redirect fd s) (\<lambda>cs.
    rbind (garg s 0) (\<lambda>prog.
    rbind (exec_args (command_line s) (gargv s)) (\<lambda>as.
    rbind (exec_env (genv s)) (\<lambda>es. Inr (cs @ [Execvpe prog as es, Exit 1])))))"

definition ExecuteCommand :: "round_in \<Rightarrow> std_shell \<Rightarrow> (std_shell \<times> std_action list) res" where
  "ExecuteCommand w s =
    (if sint (fork_ret w) < 0 then Inr (s, [])
     else rbind (std_child (open_ret w) s) (\<lambda>cs.
       Inr (if 0 < sint (wait_ret w) then s\<lparr>sh_lastcode := WEXITSTATUS (wait_status w)\<rparr> else s, [Fork cs])))"

definition std_round :: "round_in \<Rightarrow> std_shell \<Rightarrow> (std_shell \<times> std_action list) res" where
  "std_round w s =
    (let prompt = PrintCommandLine (sh_environ s) in
     rbind (GetCommand s) (\<lambda>(n, s).
       if n = 0 then Inr (s, [prompt])
       else rbind (ParseRedir s) (\<lambda>s.
         rbind (ParseCommand s) (\<lambda>(_, s).
           rbind (CheckBuiltinExecute w s) (\<lambda>(ret, s, out).
             if ret then Inr (s, prompt # out)
             else rbind (ExecuteCommand w s) (\<lambda>(s, out). Inr (s, prompt # out)))))))"

fun std_main :: "round_in list \<Rightarrow> std_shell \<Rightarrow> (std_shell \<times> std_action list) res" where
  "std_main [] s = Inr (s, [])"
| "std_main (w # ws) s =
    rbind (std_round w s) (\<lambda>(s, out). rbind (std_main ws s) (\<lambda>(s, out'). Inr (s, out @ out')))"

section \<open>What a line means\<close>

text \<open>The reference reads strings and words: its state is the environment, the exit code \<open>echo $?\<close> shows and the
  input that is left. A line never sees the redirection or the arguments of another.\<close>

type_synonym abs_shell = "string list \<times> i32 \<times> string"

definition skip_blank :: "string \<Rightarrow> string" where
  "skip_blank l = dropWhile isspace l"

definition std_line_redir :: "string \<Rightarrow> (redir_kind \<times> string) option" where
  "std_line_redir l =
    (case dropWhile (\<lambda>c. \<not> redir_char c) l of [] \<Rightarrow> None
     | c # r \<Rightarrow>
         if c = CHR ''<'' then Some (InputRedir, skip_blank r)
         else (case r of c' # r' \<Rightarrow>
                 if c' = CHR ''>'' then Some (AppRedir, skip_blank r') else Some (OutputRedir, skip_blank r)
               | [] \<Rightarrow> Some (OutputRedir, [])))"

definition std_opens :: "i32 \<Rightarrow> (redir_kind \<times> string) option \<Rightarrow> std_call list" where
  "std_opens fd r =
    (case r of None \<Rightarrow> [] | Some (t, f) \<Rightarrow> [OpenFor t f, DupTo fd (if t = InputRedir then 0 else 1)])"

definition abs_cd :: "round_in \<Rightarrow> string list \<Rightarrow> string \<Rightarrow> (string list \<times> i32 \<times> std_action list) res" where
  "abs_cd w es dir =
    (if ends_in (cwd_buf w) 0
     then Inr (putenv ''PWD'' (take 127 (''PWD='' @ cstr (cwd_buf w) 0)) es, 0, [ChangeDir dir])
     else Inl OutOfBounds)"

definition abs_echo :: "string list \<Rightarrow> i32 \<Rightarrow> string \<Rightarrow> (string list \<times> i32 \<times> std_action list) res" where
  "abs_echo es code a =
    (if a = ''$?'' then Inr (es, 0, [PrintCode code])
     else if a = ''$PATH'' then
       (case getenv es ''PATH'' of None \<Rightarrow> Inl NullDeref | Some v \<Rightarrow> Inr (es, 0, [Print v]))
     else if \<exists>n. a = CHR ''$'' # n then Inr (es, 0, []) else Inr (es, code, []))"

definition abs_run ::
    "round_in \<Rightarrow> string list \<Rightarrow> i32 \<Rightarrow> (redir_kind \<times> string) option \<Rightarrow> string list \<Rightarrow> (string list \<times> i32 \<times> std_action list) res" where
  "abs_run w es code r ws =
    (if sint (fork_ret w) < 0 then Inr (es, code, [])
     else Inr (es, if 0 < sint (wait_ret w) then WEXITSTATUS (wait_status w) else code,
       [Fork (std_opens (open_ret w) r @ [Execvpe (hd ws) ws [], Exit 1])]))"

definition abs_line :: "round_in \<Rightarrow> string list \<Rightarrow> i32 \<Rightarrow> string \<Rightarrow> (string list \<times> i32 \<times> std_action list) res" where
  "abs_line w es code l =
    (let ws = tokens '' '' (line_cmd l) in
     if 32 \<le> length ws then Inl OutOfBounds
     else if ws = [] then Inl NullDeref
     else if hd ws = ''cd'' then (if length ws = 2 then abs_cd w es (ws ! 1) else Inr (es, code, []))
     else if hd ws = ''echo'' \<and> length ws = 2 then abs_echo es code (ws ! 1)
     else abs_run w es code (std_line_redir l) ws)"

definition abs_round :: "round_in \<Rightarrow> abs_shell \<Rightarrow> (abs_shell \<times> std_action list) res" where
  "abs_round w a =
    (case a of (es, code, inp) \<Rightarrow>
     let (l, rest) = fgets 127 inp; t = butlast (takeWhile (\<lambda>c. c \<noteq> NUL) l) in
     if l \<noteq> [] \<and> hd l = NUL then Inl OutOfBounds
     else if t = [] then Inr ((es, code, rest), [PrintCommandLine es])
     else rbind (abs_line w es code t) (\<lambda>(es', code', out). Inr ((es', code', rest), PrintCommandLine es # out)))"

fun abs_main :: "round_in list \<Rightarrow> abs_shell \<Rightarrow> (abs_shell \<times> std_action list) res" where
  "abs_main [] a = Inr (a, [])"
| "abs_main (w # ws) a =
    rbind (abs_round w a) (\<lambda>(a, out). rbind (abs_main ws a) (\<lambda>(a, out'). Inr (a, out @ out')))"

section \<open>The state is well formed\<close>

definition std_ok :: "std_shell \<Rightarrow> bool" where
  "std_ok s \<longleftrightarrow> length (gargv s) = 32 \<and> length (command_line s) = 128 \<and> command_line s ! 127 = NUL \<and>
    length (cwd s) = 128 \<and> genv s = replicate 32 None"

lemma std_okD:
  assumes "std_ok s"
  shows "length (gargv s) = 32" "length (command_line s) = 128" "command_line s ! 127 = NUL" "length (cwd s) = 128"
    "genv s = replicate 32 None"
  using assms by (simp_all add: std_ok_def)

lemma ends_in_128: "length m = 128 \<Longrightarrow> m ! 127 = NUL \<Longrightarrow> p < 128 \<Longrightarrow> ends_in m p"
  by (auto simp: ends_in_iff intro: exI [of _ 127])

lemma std_ok_init: "std_ok (std_init es inp)"
  by (simp add: std_ok_def std_init_def MAXARGS_def MAXSIZE_def)

definition sh_abs :: "std_shell \<Rightarrow> abs_shell" where
  "sh_abs s = (sh_environ s, sh_lastcode s, sh_stdin s)"

text \<open>A step of the shell and one of the reference end alike.\<close>

definition agrees :: "(std_shell \<times> std_action list) res \<Rightarrow> (abs_shell \<times> std_action list) res \<Rightarrow> bool" where
  "agrees r a \<longleftrightarrow>
    (case r of Inl e \<Rightarrow> a = Inl e | Inr (s, out) \<Rightarrow> std_ok s \<and> a = Inr (sh_abs s, out))"

lemma agreesI:
  "a = Inl e \<Longrightarrow> agrees (Inl e) a" "std_ok s \<Longrightarrow> a = Inr (sh_abs s, out) \<Longrightarrow> agrees (Inr (s, out)) a"
  by (simp_all add: agrees_def)

section \<open>Reading a line\<close>

lemma length_fgets: "length (fst (fgets n inp)) \<le> n"
  by (induction n inp rule: fgets.induct) (auto simp: split_beta)

lemma cstr_overwrite_all:
  assumes "length l < length m"
  shows "cstr (overwrite m 0 (l @ [NUL])) 0 = takeWhile (\<lambda>c. c \<noteq> NUL) l"
    "ends_in (overwrite m 0 (l @ [NUL])) 0"
proof -
  have "takeWhile (\<lambda>c. c \<noteq> NUL) (l @ NUL # xs) = takeWhile (\<lambda>c. c \<noteq> NUL) l" for xs
    by (induction l) auto
  then show "cstr (overwrite m 0 (l @ [NUL])) 0 = takeWhile (\<lambda>c. c \<noteq> NUL) l"
    by (simp add: cstr_def overwrite_def)
qed (simp add: ends_in_def overwrite_def)

lemma GetCommand_ok:
  assumes "std_ok s" "fgets 127 (sh_stdin s) = (l, rest)" "l \<noteq> []" "hd l \<noteq> NUL"
  obtains cmd where
    "GetCommand s = Inr (length (butlast (takeWhile (\<lambda>c. c \<noteq> NUL) l)), s\<lparr>command_line := cmd, sh_stdin := rest\<rparr>)"
    "cstr cmd 0 = butlast (takeWhile (\<lambda>c. c \<noteq> NUL) l)" "std_ok (s\<lparr>command_line := cmd, sh_stdin := rest\<rparr>)"
proof -
  let ?m = "overwrite (command_line s) 0 (l @ [NUL])"
  let ?t = "takeWhile (\<lambda>c. c \<noteq> NUL) l"
  note ok = std_okD [OF assms(1)]
  have ll: "length l \<le> 127"
    using length_fgets [of 127 "sh_stdin s"] assms(2) by simp
  have m: "cstr ?m 0 = ?t" "ends_in ?m 0" "length ?m = 128"
    using cstr_overwrite_all [of l "command_line s"] ll ok by (simp_all add: length_overwrite)
  have m127: "?m ! 127 = NUL"
    using ll ok by (subst nth_overwrite) (auto simp: nth_append)
  obtain k where k: "length ?t = Suc k"
    using assms(3,4) by (cases l) auto
  have sc: "scan (\<lambda>c. c \<noteq> NUL) ?m 0 = Inr (Suc k)"
    using scan_to_end [OF m(2)] m(1) k by simp
  have kl: "k < 127"
    using k ll length_takeWhile_le [of "\<lambda>c. c \<noteq> NUL" l] by linarith
  have c: "cstr (?m[k := NUL]) 0 = butlast ?t" "ends_in (?m[k := NUL]) 0"
    using cstr_cut [OF m(2), of k] m(1) k by (simp_all add: butlast_conv_take)
  have "scan (\<lambda>c. c \<noteq> NUL) (?m[k := NUL]) 0 = Inr (length (butlast ?t))"
    using scan_to_end [OF c(2)] c(1) by simp
  then have "GetCommand s = Inr (length (butlast ?t), s\<lparr>command_line := ?m[k := NUL], sh_stdin := rest\<rparr>)"
    using assms(2,3) sc m(3) kl by (simp add: GetCommand_def MAXSIZE_def wr_def)
  moreover have "std_ok (s\<lparr>command_line := ?m[k := NUL], sh_stdin := rest\<rparr>)"
    using assms(1) m(3) m127 kl by (simp add: std_ok_def)
  ultimately show ?thesis
    using that c(1) by blast
qed

lemma GetCommand_NUL:
  assumes "std_ok s" "fgets 127 (sh_stdin s) = (l, rest)" "l \<noteq> []" "hd l = NUL"
  shows "GetCommand s = Inl OutOfBounds"
proof -
  let ?m = "overwrite (command_line s) 0 (l @ [NUL])"
  have "length l \<le> 127"
    using length_fgets [of 127 "sh_stdin s"] assms(2) by simp
  then have "cstr ?m 0 = []" "ends_in ?m 0"
    using cstr_overwrite_all [of l "command_line s"] std_okD [OF assms(1)] assms(3,4) by (cases l; simp)+
  then have "scan (\<lambda>c. c \<noteq> NUL) ?m 0 = Inr 0"
    using scan_to_end by fastforce
  then show ?thesis
    using assms(2,3) by (simp add: GetCommand_def MAXSIZE_def)
qed

section \<open>Redirection\<close>

definition redir_as :: "std_shell \<Rightarrow> (redir_kind \<times> string) option \<Rightarrow> bool" where
  "redir_as s r \<longleftrightarrow>
    (case r of None \<Rightarrow> redir_type s = NoneRedir
     | Some (t, f) \<Rightarrow> redir_type s = t \<and> t \<noteq> NoneRedir \<and>
         (\<exists>q. redir_file s = Some q \<and> ends_in (command_line s) q \<and> cstr (command_line s) q = f \<and>
           length (cstr (command_line s) 0) < q))"

lemma ParseRedir_skip:
  assumes "ends_in (command_line s) p" "stop = p + length (cstr (command_line s) p)"
  shows "ParseRedir_loop s p stop = ParseRedir_loop s (p + length (line_cmd (cstr (command_line s) p))) stop"
  using assms
proof (induction rule: cstr_induct)
  case (nul p)
  then show ?case
    by (simp add: line_cmd_def)
next
  case (step p)
  show ?case
  proof (cases "redir_char (command_line s ! p)")
    case True
    then show ?thesis
      using step by (simp add: line_cmd_def)
  next
    case False
    then have "ParseRedir_loop s p stop = ParseRedir_loop s (Suc p) stop"
      using step by (subst ParseRedir_loop.simps) (simp add: redir_char_def rd_def)
    then show ?thesis
      using step False by (simp add: line_cmd_def)
  qed
qed

lemma set_redir_ok:
  assumes "ends_in (command_line s) p" "t \<noteq> NoneRedir" "length (cstr (command_line s) 0) < p"
  obtains q where "set_redir t s p = Inr (s\<lparr>redir_type := t, redir_file := Some q\<rparr>)"
    "redir_as (s\<lparr>redir_type := t, redir_file := Some q\<rparr>) (Some (t, skip_blank (cstr (command_line s) p)))"
proof -
  let ?k = "length (takeWhile isspace (cstr (command_line s) p))"
  have k: "?k \<le> length (cstr (command_line s) p)"
    by (rule length_takeWhile_le)
  have sc: "scan isspace (command_line s) p = Inr (p + ?k)"
    by (rule scan_ok [OF assms(1)]) (simp add: isspace_def)
  have "ends_in (command_line s) (p + ?k)" "cstr (command_line s) (p + ?k) = skip_blank (cstr (command_line s) p)"
    using cstr_later [OF assms(1) k] by (simp_all add: skip_blank_def dropWhile_eq_drop)
  then show ?thesis
    using that [of "p + ?k"] sc assms(2,3) by (simp add: set_redir_def TrimSpace_def redir_as_def)
qed

text \<open>The loop stopped at a character of redirection.\<close>

lemma ParseRedir_loop_at:
  fixes s :: std_shell
  defines "m \<equiv> command_line s" and "l \<equiv> cstr (command_line s) 0" and "e \<equiv> length (line_cmd (cstr (command_line s) 0))"
  assumes "std_ok s" "dropWhile (\<lambda>c. \<not> redir_char c) l = c # r"
  obtains cmd t q where
    "ParseRedir_loop s e (length l) = Inr (s\<lparr>command_line := cmd, redir_type := t, redir_file := Some q\<rparr>)"
    "cstr cmd 0 = line_cmd l" "length cmd = 128" "cmd ! 127 = NUL"
    "redir_as (s\<lparr>command_line := cmd, redir_type := t, redir_file := Some q\<rparr>) (std_line_redir l)"
proof -
  note ok = std_okD [OF assms(4)] and result = that
  have m: "length m = 128" "m ! 127 = NUL" "ends_in m 0" "cstr m 0 = l" "e = length (line_cmd l)"
    using ok ends_in_128 by (simp_all add: m_def l_def e_def)
  note at = at_redir [OF m(3) assms(5) [folded m(4)] m(5) [folded m(4)], unfolded m(4)]
  have lt: "Suc e < 128"
    using ends_in_less [OF at(5)] m(1) by simp
  have one: thesis
    if st: "ParseRedir_loop s e (length l) = set_redir t (s\<lparr>command_line := m[e := NUL]\<rparr>) (Suc e)"
      and t: "t \<noteq> NoneRedir" "std_line_redir l = Some (t, skip_blank r)" for t
  proof -
    let ?s = "s\<lparr>command_line := m[e := NUL]\<rparr>"
    have "ends_in (m[e := NUL]) (Suc e)" "cstr (m[e := NUL]) (Suc e) = r"
      using cstr_upd_other [OF at(5), of e NUL] at(6) by simp_all
    then obtain q where "set_redir t ?s (Suc e) = Inr (?s\<lparr>redir_type := t, redir_file := Some q\<rparr>)"
      "redir_as (?s\<lparr>redir_type := t, redir_file := Some q\<rparr>) (Some (t, skip_blank r))"
      using set_redir_ok [of ?s "Suc e" t] t(1) at(7) m(5) by auto
    then show thesis
      using result [of q t "m[e := NUL]"] st t(2) at(7) m lt by simp
  qed
  show thesis
  proof (cases "c = CHR ''<''")
    case True
    have "ParseRedir_loop s e (length l) = set_redir InputRedir (s\<lparr>command_line := m[e := NUL]\<rparr>) (Suc e)"
      using at True m_def by (subst ParseRedir_loop.simps) (simp add: rd_def)
    then show thesis
      using one assms(5) True by (simp add: std_line_redir_def)
  next
    case False
    then have gt: "c = CHR ''>''"
      using at(3) by (simp add: redir_char_def)
    show thesis
    proof (cases "m ! Suc e = CHR ''>''")
      case False
      have "ParseRedir_loop s e (length l) = set_redir OutputRedir (s\<lparr>command_line := m[e := NUL]\<rparr>) (Suc e)"
        using at gt False m_def m(1) lt by (subst ParseRedir_loop.simps) (simp add: rd_def)
      moreover have "std_line_redir l = Some (OutputRedir, skip_blank r)"
        using assms(5) gt False at(6) cstr_step [of "Suc e" m] lt m(1)
        by (auto simp: std_line_redir_def skip_blank_def split: list.splits if_splits)
      ultimately show thesis
        using one by simp
    next
      case True
      let ?m2 = "m[e := NUL, Suc e := NUL]" and ?t = AppRedir
      let ?s = "s\<lparr>command_line := ?m2\<rparr>"
      obtain r' where r: "r = CHR ''>'' # r'"
        using at(6) True cstr_step [of "Suc e" m] lt m(1) by auto
      have e2: "ends_in m (Suc (Suc e))" and c2: "cstr m (Suc (Suc e)) = r'"
        using cstr_step [of "Suc e" m] ends_in_step [of "Suc e" m] at(5,6) r lt m(1) True by auto
      have m2: "cstr ?m2 (Suc (Suc e)) = r'" "ends_in ?m2 (Suc (Suc e))"
        using cstr_upd_other [of "m[e := NUL]" "Suc (Suc e)" "Suc e" NUL] cstr_upd_other [OF e2, of e NUL] c2
        by simp_all
      have c0: "cstr ?m2 0 = line_cmd l"
        using cstr_upd_other(1) [OF at(8), of "Suc e" NUL] at(7) m(5) by simp
      obtain q where "set_redir ?t ?s (Suc (Suc e)) = Inr (?s\<lparr>redir_type := ?t, redir_file := Some q\<rparr>)"
        "redir_as (?s\<lparr>redir_type := ?t, redir_file := Some q\<rparr>) (Some (?t, skip_blank r'))"
        using set_redir_ok [of ?s "Suc (Suc e)" ?t] m2 c0 m(5) by auto
      moreover have "ParseRedir_loop s e (length l) = set_redir ?t ?s (Suc (Suc e))"
        using at gt True m_def m(1) lt by (subst ParseRedir_loop.simps) (simp add: rd_def)
      moreover have "std_line_redir l = Some (?t, skip_blank r')"
        using assms(5) gt r by (simp add: std_line_redir_def)
      moreover have "?m2 ! 127 = NUL"
        using m(1,2) lt by (cases "Suc e = 127") simp_all
      ultimately show thesis
        using result [of q ?t ?m2] c0 m(1) by simp
    qed
  qed
qed

lemma ParseRedir_ok:
  assumes "std_ok s"
  obtains cmd t q where "ParseRedir s = Inr (s\<lparr>command_line := cmd, redir_type := t, redir_file := q\<rparr>)"
    "cstr cmd 0 = line_cmd (cstr (command_line s) 0)" "std_ok (s\<lparr>command_line := cmd, redir_type := t, redir_file := q\<rparr>)"
    "redir_as (s\<lparr>command_line := cmd, redir_type := t, redir_file := q\<rparr>) (std_line_redir (cstr (command_line s) 0))"
proof -
  let ?s = "s\<lparr>redir_type := NoneRedir, redir_file := None\<rparr>"
  let ?l = "cstr (command_line s) 0"
  have ok: "std_ok ?s"
    using assms by (simp add: std_ok_def)
  have e: "ends_in (command_line s) 0"
    using ends_in_128 std_okD [OF assms] by simp
  have p: "ParseRedir s = ParseRedir_loop ?s (length (line_cmd ?l)) (length ?l)"
    using scan_to_end [OF e] ParseRedir_skip [of ?s 0 "length ?l"] e by (simp add: ParseRedir_def)
  show ?thesis
  proof (cases "dropWhile (\<lambda>c. \<not> redir_char c) ?l")
    case Nil
    then have "line_cmd ?l = ?l"
      unfolding line_cmd_def by (metis append_Nil2 takeWhile_dropWhile_id)
    then show ?thesis
      using that [of None NoneRedir "command_line s"] p ok Nil
      by (simp add: ParseRedir_loop.simps redir_as_def std_line_redir_def)
  next
    case (Cons c r)
    then have c: "dropWhile (\<lambda>c. \<not> redir_char c) (cstr (command_line ?s) 0) = c # r"
      by simp
    show ?thesis
      by (rule ParseRedir_loop_at [OF ok c])
        (rule that, use p ok in \<open>simp_all add: std_ok_def\<close>)
  qed
qed

section \<open>Arguments\<close>

lemma gsep_DELIM: "gsep = DELIM"
  by (simp add: gsep_def DELIM_def)

text \<open>The loop is the one of the other shell and counts as it goes.\<close>

lemma ParseCommand_loop_eq:
  "rbind (ParseCommand_loop argc av m save) (\<lambda>(n, av, m). Inr (av, m)) = SplitCommand_loop (argc + 1) av m save"
proof (induction argc av m save rule: ParseCommand_loop.induct)
  case (1 argc av m save)
  show ?case
  proof (cases "argc + 1 < length av \<and> (\<exists>t save' m'. strtok DELIM m save = Inr (Some t, save', m'))")
    case True
    then obtain t save' m' where "strtok DELIM m save = Inr (Some t, save', m')" "argc + 1 < length av"
      by blast
    then show ?thesis
      using "1.IH" by (subst ParseCommand_loop.simps, subst SplitCommand_loop.simps) (simp add: gsep_DELIM)
  next
    case False
    then show ?thesis
      by (subst ParseCommand_loop.simps, subst SplitCommand_loop.simps) (cases "strtok DELIM m save"; auto simp: gsep_DELIM)
  qed
qed

lemma ParseCommand_loop_first:
  assumes "ParseCommand_loop argc av m save = Inr (n, av', m')"
  shows "argc < n \<and> n < length av' \<and> av' ! n = None \<and> (\<forall>i. argc < i \<and> i < n \<longrightarrow> av' ! i \<noteq> None) \<and>
    (\<forall>i \<le> argc. av' ! i = av ! i)"
  using assms
proof (induction argc av m save rule: ParseCommand_loop.induct)
  case (1 argc av m save)
  obtain t q m1 where t: "argc + 1 < length av" "strtok gsep m save = Inr (t, q, m1)"
    using "1.prems" by (subst (asm) ParseCommand_loop.simps) (auto split: if_splits elim!: rbind_InrE)
  show ?case
  proof (cases t)
    case None
    then show ?thesis
      using "1.prems" t by (subst (asm) ParseCommand_loop.simps) auto
  next
    case (Some p)
    have "ParseCommand_loop (argc + 1) (av[argc + 1 := t]) m1 q = Inr (n, av', m')"
      using "1.prems" t Some by (subst (asm) ParseCommand_loop.simps) simp
    then have IH: "argc + 1 < n" "n < length av'" "av' ! n = None" "\<forall>i. argc + 1 < i \<and> i < n \<longrightarrow> av' ! i \<noteq> None"
      "\<forall>i \<le> argc + 1. av' ! i = av[argc + 1 := t] ! i"
      using "1.IH" [OF t(1), of t m1 q] Some by auto
    have "av' ! i \<noteq> None" if "argc < i" "i < n" for i
      using that IH(4,5) t(1) Some by (cases "i = argc + 1") auto
    then show ?thesis
      using IH t(1) by (auto simp: nth_list_update)
  qed
qed

text \<open>Too many words for the table.\<close>

lemma SplitCommand_loop_bad:
  assumes "ends_in m save" "length av \<le> index + length (tokens DELIM (cstr m save))"
  shows "SplitCommand_loop index av m save = Inl OutOfBounds"
  using assms
proof (induction index av m save rule: SplitCommand_loop.induct)
  case (1 index av m save)
  show ?case
  proof (cases "index < length av")
    case False
    then show ?thesis
      by (subst SplitCommand_loop.simps) simp
  next
    case il: True
    show ?thesis
    proof (cases "dropWhile (\<lambda>c. c \<in> set DELIM) (cstr m save)")
      case Nil
      then show ?thesis
        using "1.prems"(2) il tokens_none [OF Nil] by simp
    next
      case (Cons c r)
      obtain s q m1 where st: "strtok DELIM m save = Inr (Some s, q, m1)" "cstr m1 s = c # takeWhile (\<lambda>c. c \<notin> set DELIM) r"
        "ends_in m1 q" "tokens DELIM (cstr m1 q) = tokens DELIM (dropWhile (\<lambda>c. c \<notin> set DELIM) r)"
        by (rule strtok_Some [OF "1.prems"(1) NUL_DELIM Cons])
      have "SplitCommand_loop (Suc index) (av[index := Some s]) m1 q = Inl OutOfBounds"
        by (rule "1.IH") (use il "1.prems"(2) st tokens_some [OF Cons] in simp_all)
      then show ?thesis
        using st(1) il by (subst SplitCommand_loop.simps) simp
    qed
  qed
qed

text \<open>\<open>strtok\<close> writes inside the string it cuts, so what lies behind the string stays.\<close>

lemma strtok_stays:
  assumes "ends_in m p" "NUL \<notin> set delim" "strtok delim m p = Inr (t, q, m')"
  shows "\<forall>i \<ge> p + length (cstr m p). m' ! i = m ! i" "length m' = length m" "ends_in m' q"
    "q + length (cstr m' q) = p + length (cstr m p)"
proof -
  let ?L = "length (cstr m p)"
  let ?a = "length (takeWhile (\<lambda>c. c \<in> set delim) (cstr m p))"
  have a: "?a \<le> ?L"
    by (rule length_takeWhile_le)
  have s: "scan (\<lambda>c. c \<in> set delim) m p = Inr (p + ?a)"
    by (rule scan_ok [OF assms(1)]) (use assms(2) in simp)
  have es: "ends_in m (p + ?a)" "length (cstr m (p + ?a)) = ?L - ?a"
    using cstr_later [OF assms(1) a] by simp_all
  have "(\<forall>i \<ge> p + ?L. m' ! i = m ! i) \<and> length m' = length m \<and> ends_in m' q \<and> q + length (cstr m' q) = p + ?L"
  proof (cases "m ! (p + ?a) = NUL")
    case True
    then show ?thesis
      using assms(3) s es a by (auto simp: strtok_def)
  next
    case False
    let ?b = "length (takeWhile (\<lambda>c. c \<notin> set delim \<and> c \<noteq> NUL) (cstr m (p + ?a)))"
    let ?e = "p + ?a + ?b"
    have b: "?b \<le> length (cstr m (p + ?a))"
      by (rule length_takeWhile_le)
    have e: "scan (\<lambda>c. c \<notin> set delim \<and> c \<noteq> NUL) m (p + ?a) = Inr ?e"
      by (rule scan_ok [OF es(1)]) simp
    have ee: "ends_in m ?e" "length (cstr m ?e) = ?L - ?a - ?b"
      using cstr_later [OF es(1) b] es(2) by simp_all
    show ?thesis
    proof (cases "m ! ?e = NUL")
      case True
      then show ?thesis
        using assms(3) s False e ee es(2) a b by (auto simp: strtok_def)
    next
      case n: False
      have lt: "?e < length m"
        using ends_in_less [OF ee(1)] .
      have e1: "ends_in m (Suc ?e)" "length (cstr m ?e) = Suc (length (cstr m (Suc ?e)))"
        using ends_in_step [OF lt] cstr_step [OF lt] ee(1) n by simp_all
      have "cstr (m[?e := NUL]) (Suc ?e) = cstr m (Suc ?e)" "ends_in (m[?e := NUL]) (Suc ?e)"
        using cstr_upd_other [OF e1(1), of ?e NUL] by simp_all
      then show ?thesis
        using assms(3) s False e n ee(2) e1(2) by (auto simp: strtok_def)
    qed
  qed
  then show "\<forall>i \<ge> p + ?L. m' ! i = m ! i" "length m' = length m" "ends_in m' q" "q + length (cstr m' q) = p + ?L"
    by simp_all
qed

lemma SplitCommand_loop_stays:
  assumes "SplitCommand_loop index av m save = Inr (av', m')" "ends_in m save"
  shows "\<forall>i \<ge> save + length (cstr m save). m' ! i = m ! i"
  using assms
proof (induction index av m save rule: SplitCommand_loop.induct)
  case (1 index av m save)
  obtain t q m1 where t: "index < length av" "strtok DELIM m save = Inr (t, q, m1)"
    using "1.prems"(1) by (subst (asm) SplitCommand_loop.simps) (auto split: if_splits elim!: rbind_InrE)
  note st = strtok_stays [OF "1.prems"(2) NUL_DELIM t(2)]
  show ?case
  proof (cases t)
    case None
    then show ?thesis
      using "1.prems"(1) t st(1) by (subst (asm) SplitCommand_loop.simps) simp
  next
    case (Some p)
    have "SplitCommand_loop (Suc index) (av[index := t]) m1 q = Inr (av', m')"
      using "1.prems"(1) t Some by (subst (asm) SplitCommand_loop.simps) simp
    then have "\<forall>i \<ge> q + length (cstr m1 q). m' ! i = m1 ! i"
      using "1.IH" [OF t(1), of t m1 q] Some st(3) by simp
    then show ?thesis
      using st(1,4) by simp
  qed
qed

text \<open>\<open>gargv\<close> holds the words and \<open>gargc\<close> counts them.\<close>

definition std_holds :: "std_shell \<Rightarrow> string list \<Rightarrow> bool" where
  "std_holds s ws \<longleftrightarrow> gargc s = length ws \<and>
    (\<exists>ps xs. gargv s = map Some ps @ None # xs \<and> map (cstr (command_line s)) ps = ws \<and>
      (\<forall>p\<in>set ps. ends_in (command_line s) p))"

lemma std_holdsD:
  assumes "std_holds s ws"
  shows "gargc s = length ws" "i < length ws \<Longrightarrow> garg s i = Inr (ws ! i)"
    "exec_args (command_line s) (gargv s) = Inr ws"
proof -
  obtain ps xs where ps: "gargv s = map Some ps @ None # xs" "map (cstr (command_line s)) ps = ws"
    "\<forall>p\<in>set ps. ends_in (command_line s) p"
    using assms unfolding std_holds_def by blast
  show "gargc s = length ws"
    using assms by (simp add: std_holds_def)
  show "garg s i = Inr (ws ! i)" if "i < length ws"
    using that ps by (auto simp: garg_def str_at_def nth_append)
  show "exec_args (command_line s) (gargv s) = Inr ws"
    using exec_args_ok [OF ps(3)] ps(1,2) by simp
qed

text \<open>When there is a word, the first call of \<open>strtok\<close> and the loop are the whole loop of the other shell.\<close>

lemma ParseCommand_loop_whole:
  assumes "std_ok s" "tokens gsep (cstr (command_line s) 0) \<noteq> []"
  obtains t q m where "strtok gsep (command_line s) 0 = Inr (Some t, q, m)"
    "rbind (ParseCommand_loop 0 ((replicate 32 None)[0 := Some t]) m q) (\<lambda>(n, av, m). Inr (av, m)) =
      SplitCommand_loop 0 (replicate 32 None) (command_line s) 0"
proof -
  have e: "ends_in (command_line s) 0"
    using ends_in_128 std_okD [OF assms(1)] by simp
  obtain c r where cr: "dropWhile (\<lambda>c. c \<in> set DELIM) (cstr (command_line s) 0) = c # r"
    using assms(2) tokens_none gsep_DELIM by (cases "dropWhile (\<lambda>c. c \<in> set DELIM) (cstr (command_line s) 0)") auto
  obtain t q m where t: "strtok DELIM (command_line s) 0 = Inr (Some t, q, m)"
    by (rule strtok_Some [OF e NUL_DELIM cr])
  then have "SplitCommand_loop 0 (replicate 32 None) (command_line s) 0 =
      SplitCommand_loop 1 ((replicate 32 None)[0 := Some t]) m q"
    by (subst SplitCommand_loop.simps) simp
  then show ?thesis
    using that t ParseCommand_loop_eq [of 0 "(replicate 32 None)[0 := Some t]" m q] by (simp add: gsep_DELIM)
qed

lemma cstr_ends_before:
  assumes "e < length m" "m ! e = NUL"
  shows "length (cstr m 0) \<le> e"
proof (rule ccontr)
  assume "\<not> length (cstr m 0) \<le> e"
  moreover have "ends_in m 0"
    using assms by (auto simp: ends_in_iff)
  ultimately have "m ! e = cstr m 0 ! e" "e < length (cstr m 0)"
    using cstr_nth(3) [of m 0 e] by simp_all
  then show False
    using assms(2) NUL_notin_cstr [of m 0] nth_mem by metis
qed

lemma redir_as_cong:
  assumes "redir_as s r" "ends_in (command_line s) 0" "length m = length (command_line s)"
    "\<forall>i \<ge> length (cstr (command_line s) 0). m ! i = command_line s ! i"
  shows "redir_as (s\<lparr>gargc := n, gargv := av, command_line := m\<rparr>) r"
proof (cases r)
  case None
  then show ?thesis
    using assms(1) by (simp add: redir_as_def)
next
  case (Some tf)
  let ?c = "command_line s"
  obtain t f q where r: "r = Some (t, f)" "redir_type s = t" "t \<noteq> NoneRedir" "redir_file s = Some q" "ends_in ?c q"
    "cstr ?c q = f" "length (cstr ?c 0) < q"
    using assms(1) Some by (cases tf) (auto simp: redir_as_def)
  have "cstr m q = f"
    using cstr_cong [OF r(5) assms(3)] assms(4) r(6,7) by simp
  moreover have "ends_in m q"
    using r(5,7) assms(3,4) unfolding ends_in_iff by (metis dual_order.strict_iff_order le_trans)
  moreover have "length (cstr m 0) \<le> length (cstr ?c 0)"
    using cstr_nth(1,2) [OF assms(2)] assms(3,4) by (intro cstr_ends_before) simp_all
  ultimately show ?thesis
    using r by (simp add: redir_as_def)
qed

lemma ParseCommand_ok:
  assumes "std_ok s" "tokens gsep (cstr (command_line s) 0) = ws" "ws \<noteq> []" "length ws < 32" "redir_as s r"
  obtains n av m where "ParseCommand s = Inr (n, s\<lparr>gargc := n, gargv := av, command_line := m\<rparr>)"
    "std_ok (s\<lparr>gargc := n, gargv := av, command_line := m\<rparr>)" "std_holds (s\<lparr>gargc := n, gargv := av, command_line := m\<rparr>) ws"
    "redir_as (s\<lparr>gargc := n, gargv := av, command_line := m\<rparr>) r"
proof -
  note ok = std_okD [OF assms(1)]
  have e: "ends_in (command_line s) 0"
    using ends_in_128 ok by simp
  have ne: "tokens gsep (cstr (command_line s) 0) \<noteq> []"
    using assms(2,3) by simp
  obtain t q m1 where t: "strtok gsep (command_line s) 0 = Inr (Some t, q, m1)"
    "rbind (ParseCommand_loop 0 ((replicate 32 None)[0 := Some t]) m1 q) (\<lambda>(n, av, m). Inr (av, m)) =
      SplitCommand_loop 0 (replicate 32 None) (command_line s) 0"
    by (rule ParseCommand_loop_whole [OF assms(1) ne])
  obtain ps m where ps: "SplitCommand_loop 0 (replicate 32 None) (command_line s) 0 =
      Inr (map Some ps @ None # drop (Suc (length ps)) (replicate 32 None), m)"
    "map (cstr m) ps = ws" "length m = length (command_line s)" "\<forall>i. m ! i = command_line s ! i \<or> m ! i = NUL"
    "\<forall>p\<in>set ps. p < length (command_line s)"
    using SplitCommand_loop_ok [OF e, of 0 "replicate 32 None"] assms(2,4) by (auto simp: gsep_DELIM)
  let ?av = "map Some ps @ None # drop (Suc (length ps)) (replicate 32 None)"
  obtain n where n: "ParseCommand_loop 0 ((replicate 32 None)[0 := Some t]) m1 q = Inr (n, ?av, m)"
    using t(2) ps(1) by (auto elim!: rbind_InrE)
  have lp: "length ps = length ws"
    using arg_cong [OF ps(2), of length] by simp
  have "?av ! i \<noteq> None" if "i < length ps" for i
    using that by (simp add: nth_append)
  moreover have "?av ! length ps = None" "0 < length ps"
    using assms(3) lp by (simp_all add: nth_append)
  ultimately have nl: "n = length ps"
    using ParseCommand_loop_first [OF n] by (metis linorder_neqE_nat)
  let ?s = "s\<lparr>gargc := n, gargv := ?av, command_line := m\<rparr>"
  have m127: "m ! 127 = NUL"
    using ps(4) ok(3) by metis
  have "ParseCommand s = Inr (n, ?s)"
    using t(1) n ok(1) by (simp add: ParseCommand_def put_at_def)
  moreover have "std_ok ?s"
    using assms(1,4) lp ps(3) m127 by (simp add: std_ok_def)
  moreover have "\<forall>p\<in>set ps. ends_in m p"
    using ps(3,5) m127 ok(2) by (auto intro: ends_in_128)
  then have "std_holds ?s ws"
    unfolding std_holds_def using nl lp ps(2) by (intro conjI exI [of _ ps] exI) simp_all
  moreover have "redir_as ?s r"
    by (rule redir_as_cong [OF assms(5) e ps(3)]) (use SplitCommand_loop_stays [OF ps(1) e] in simp)
  ultimately show ?thesis
    using that by blast
qed

lemma ParseCommand_bad:
  assumes "std_ok s" "32 \<le> length (tokens gsep (cstr (command_line s) 0))"
  shows "ParseCommand s = Inl OutOfBounds"
proof -
  have e: "ends_in (command_line s) 0"
    using ends_in_128 std_okD [OF assms(1)] by simp
  have ne: "tokens gsep (cstr (command_line s) 0) \<noteq> []"
    using assms(2) by auto
  obtain t q m where t: "strtok gsep (command_line s) 0 = Inr (Some t, q, m)"
    "rbind (ParseCommand_loop 0 ((replicate 32 None)[0 := Some t]) m q) (\<lambda>(n, av, m). Inr (av, m)) =
      SplitCommand_loop 0 (replicate 32 None) (command_line s) 0"
    by (rule ParseCommand_loop_whole [OF assms(1) ne])
  have "SplitCommand_loop 0 (replicate 32 None) (command_line s) 0 = Inl OutOfBounds"
    by (rule SplitCommand_loop_bad [OF e]) (use assms(2) in \<open>simp add: gsep_DELIM\<close>)
  then have "ParseCommand_loop 0 ((replicate 32 None)[0 := Some t]) m q = Inl OutOfBounds"
    using t(2) by (cases "ParseCommand_loop 0 ((replicate 32 None)[0 := Some t]) m q") auto
  then show ?thesis
    using t(1) std_okD(1) [OF assms(1)] by (simp add: ParseCommand_def put_at_def)
qed

lemma ParseCommand_none:
  assumes "std_ok s" "tokens gsep (cstr (command_line s) 0) = []"
  obtains s' where "ParseCommand s = Inr (1, s')" "garg s' 0 = Inl NullDeref"
proof -
  let ?n = "length (cstr (command_line s) 0)"
  have e: "ends_in (command_line s) 0"
    using ends_in_128 std_okD [OF assms(1)] by simp
  have d: "dropWhile (\<lambda>c. c \<in> set DELIM) (cstr (command_line s) 0) = []"
    using assms(2) tokens_some gsep_DELIM
    by (cases "dropWhile (\<lambda>c. c \<in> set DELIM) (cstr (command_line s) 0)") auto
  have t: "strtok gsep (command_line s) 0 = Inr (None, ?n, command_line s)"
    using strtok_None [OF e NUL_DELIM d] by (simp add: gsep_DELIM)
  have en: "ends_in (command_line s) ?n" "cstr (command_line s) ?n = []"
    using cstr_later [OF e, of ?n] by simp_all
  have "strtok gsep (command_line s) ?n = Inr (None, ?n, command_line s)"
    using strtok_None [OF en(1) NUL_DELIM] en(2) by (simp add: gsep_DELIM)
  then have "ParseCommand s = Inr (1, s\<lparr>gargc := 1, gargv := replicate 32 None\<rparr>)"
    using t std_okD(1) [OF assms(1)] by (simp add: ParseCommand_def put_at_def ParseCommand_loop.simps numeral_eq_Suc)
  moreover have "garg (s\<lparr>gargc := 1, gargv := replicate 32 None\<rparr>) 0 = Inl NullDeref"
    by (simp add: garg_def str_at_def)
  ultimately show ?thesis
    by (rule that)
qed

section \<open>Running a command\<close>

text \<open>What a step does beside the arguments and the line.\<close>

lemma std_cd_ok:
  assumes "std_ok s" "std_holds s ws" "length ws = 2"
  shows "case std_cd w s of
      Inl e \<Rightarrow> abs_cd w (sh_environ s) (ws ! 1) = Inl e
    | Inr (s', out) \<Rightarrow> std_ok s' \<and> sh_stdin s' = sh_stdin s \<and>
        abs_cd w (sh_environ s) (ws ! 1) = Inr (sh_environ s', sh_lastcode s', out)"
proof (cases "ends_in (cwd_buf w) 0")
  case True
  let ?l = "take 127 (''PWD='' @ cstr (cwd_buf w) 0)"
  let ?c = "overwrite (cwd s) 0 (?l @ [NUL])"
  have n: "NUL \<notin> set ?l"
    using NUL_notin_cstr [of "cwd_buf w" 0] by (auto dest!: in_set_takeD)
  have c: "cstr ?c 0 = ?l" "length ?c = 128"
    using cstr_overwrite(1) [of 0 ?l "cwd s"] n std_okD(4) [OF assms(1)] by (simp_all add: length_overwrite)
  have "garg s 1 = Inr (ws ! 1)"
    using std_holdsD(2) [OF assms(2), of 1] assms(3) by simp
  then show ?thesis
    using True c assms(1) unfolding std_cd_def abs_cd_def MAXSIZE_def by (simp add: std_ok_def Let_def)
next
  case False
  have "garg s 1 = Inr (ws ! 1)"
    using std_holdsD(2) [OF assms(2), of 1] assms(3) by simp
  then show ?thesis
    using False by (simp add: std_cd_def abs_cd_def)
qed

lemma std_echo_ok:
  assumes "std_ok s" "std_holds s ws" "length ws = 2"
  shows "case std_echo s of
      Inl e \<Rightarrow> abs_echo (sh_environ s) (sh_lastcode s) (ws ! 1) = Inl e
    | Inr (s', out) \<Rightarrow> std_ok s' \<and> sh_stdin s' = sh_stdin s \<and>
        abs_echo (sh_environ s) (sh_lastcode s) (ws ! 1) = Inr (sh_environ s', sh_lastcode s', out)"
proof -
  have "garg s 1 = Inr (ws ! 1)"
    using std_holdsD(2) [OF assms(2), of 1] assms(3) by simp
  then show ?thesis
    using assms(1)
    by (auto simp: std_echo_def abs_echo_def std_ok_def split: list.split option.split if_splits)
qed

lemma exec_env_none: "0 < n \<Longrightarrow> exec_env (replicate n None) = Inr []"
  by (cases n) simp_all

lemma std_child_ok:
  assumes "std_ok s" "std_holds s ws" "ws \<noteq> []" "redir_as s r"
  shows "std_child fd s = Inr (std_opens fd r @ [Execvpe (hd ws) ws [], Exit 1])"
proof -
  have "std_redirect fd s = Inr (std_opens fd r)"
    using assms(4) by (auto simp: std_redirect_def std_opens_def redir_as_def str_at_def split: option.splits)
  moreover have "garg s 0 = Inr (hd ws)"
    using std_holdsD(2) [OF assms(2), of 0] assms(3) by (simp add: hd_conv_nth)
  ultimately show ?thesis
    using std_holdsD(3) [OF assms(2)] std_okD(5) [OF assms(1)] exec_env_none by (simp add: std_child_def)
qed

lemma ExecuteCommand_ok:
  assumes "std_ok s" "std_holds s ws" "ws \<noteq> []" "redir_as s r"
  obtains s' out where "ExecuteCommand w s = Inr (s', out)" "std_ok s'" "sh_stdin s' = sh_stdin s"
    "abs_run w (sh_environ s) (sh_lastcode s) r ws = Inr (sh_environ s', sh_lastcode s', out)"
proof (cases "sint (fork_ret w) < 0")
  case True
  then show ?thesis
    using that [of s "[]"] assms(1) by (simp add: ExecuteCommand_def abs_run_def)
next
  case False
  let ?s = "if 0 < sint (wait_ret w) then s\<lparr>sh_lastcode := WEXITSTATUS (wait_status w)\<rparr> else s"
  have "std_ok ?s"
    using assms(1) by (simp add: std_ok_def)
  then show ?thesis
    using that [of ?s "[Fork (std_opens (open_ret w) r @ [Execvpe (hd ws) ws [], Exit 1])]"] False
    by (simp add: ExecuteCommand_def abs_run_def std_child_ok [OF assms])
qed

text \<open>The rest of a round once the line is cut into words.\<close>

definition std_act :: "round_in \<Rightarrow> std_shell \<Rightarrow> (std_shell \<times> std_action list) res" where
  "std_act w s =
    rbind (CheckBuiltinExecute w s) (\<lambda>(ret, s, out). if ret then Inr (s, out) else ExecuteCommand w s)"

definition abs_act ::
    "round_in \<Rightarrow> string list \<Rightarrow> i32 \<Rightarrow> (redir_kind \<times> string) option \<Rightarrow> string list \<Rightarrow> (string list \<times> i32 \<times> std_action list) res" where
  "abs_act w es code r ws =
    (if hd ws = ''cd'' then (if length ws = 2 then abs_cd w es (ws ! 1) else Inr (es, code, []))
     else if hd ws = ''echo'' \<and> length ws = 2 then abs_echo es code (ws ! 1)
     else abs_run w es code r ws)"

lemma std_act_ok:
  assumes "std_ok s" "std_holds s ws" "ws \<noteq> []" "redir_as s r"
  shows "case std_act w s of
      Inl e \<Rightarrow> abs_act w (sh_environ s) (sh_lastcode s) r ws = Inl e
    | Inr (s', out) \<Rightarrow> std_ok s' \<and> sh_stdin s' = sh_stdin s \<and>
        abs_act w (sh_environ s) (sh_lastcode s) r ws = Inr (sh_environ s', sh_lastcode s', out)"
proof -
  have h: "garg s 0 = Inr (hd ws)" "gargc s = length ws"
    using std_holdsD(1,2) [OF assms(2)] assms(3) by (simp_all add: hd_conv_nth)
  consider (cd) "hd ws = ''cd''" "length ws = 2" | (bad_cd) "hd ws = ''cd''" "length ws \<noteq> 2"
    | (echo) "hd ws = ''echo''" "length ws = 2"
    | (run) "hd ws \<noteq> ''cd''" "\<not> (hd ws = ''echo'' \<and> length ws = 2)"
    by blast
  then show ?thesis
  proof cases
    case cd
    then show ?thesis
      using std_cd_ok [OF assms(1,2), of w] h by (cases "std_cd w s") (auto simp: std_act_def abs_act_def CheckBuiltinExecute_def)
  next
    case bad_cd
    then show ?thesis
      using h assms(1) by (simp add: std_act_def abs_act_def CheckBuiltinExecute_def)
  next
    case echo
    then show ?thesis
      using std_echo_ok [OF assms(1,2)] h by (cases "std_echo s") (auto simp: std_act_def abs_act_def CheckBuiltinExecute_def)
  next
    case run
    have c: "CheckBuiltinExecute w s = Inr (False, s, [])"
      using run h by (auto simp: CheckBuiltinExecute_def)
    have a: "abs_act w es code r ws = abs_run w es code r ws" for es code
      using run by (auto simp: abs_act_def)
    obtain s' out where "ExecuteCommand w s = Inr (s', out)" "std_ok s'" "sh_stdin s' = sh_stdin s"
      "abs_run w (sh_environ s) (sh_lastcode s) r ws = Inr (sh_environ s', sh_lastcode s', out)"
      by (rule ExecuteCommand_ok [OF assms])
    then show ?thesis
      using c a by (simp add: std_act_def)
  qed
qed

lemma abs_line_act:
  "abs_line w es code l =
    (let ws = tokens gsep (line_cmd l) in
     if 32 \<le> length ws then Inl OutOfBounds else if ws = [] then Inl NullDeref
     else abs_act w es code (std_line_redir l) ws)"
  by (simp add: abs_line_def abs_act_def gsep_def Let_def)

section \<open>A round\<close>

lemma std_round_cut:
  "std_round w s =
    rbind (GetCommand s) (\<lambda>(n, s1).
      if n = 0 then Inr (s1, [PrintCommandLine (sh_environ s)])
      else rbind (ParseRedir s1) (\<lambda>s2. rbind (ParseCommand s2) (\<lambda>(_, s3).
        rbind (std_act w s3) (\<lambda>(s4, out). Inr (s4, PrintCommandLine (sh_environ s) # out)))))"
proof -
  have act: "rbind (CheckBuiltinExecute w s3) (\<lambda>(ret, s4, out).
      if ret then Inr (s4, p # out) else rbind (ExecuteCommand w s4) (\<lambda>(s5, out). Inr (s5, p # out))) =
    rbind (std_act w s3) (\<lambda>(s5, out). Inr (s5, p # out))" for s3 p
    unfolding std_act_def by (cases "CheckBuiltinExecute w s3") auto
  show ?thesis
    unfolding std_round_def Let_def act ..
qed

lemma std_round_line:
  assumes "std_ok s1" "cstr (command_line s1) 0 = l"
  shows "case rbind (ParseRedir s1) (\<lambda>s2. rbind (ParseCommand s2) (\<lambda>(_, s3). std_act w s3)) of
      Inl e \<Rightarrow> abs_line w (sh_environ s1) (sh_lastcode s1) l = Inl e
    | Inr (s', out) \<Rightarrow> std_ok s' \<and> sh_stdin s' = sh_stdin s1 \<and>
        abs_line w (sh_environ s1) (sh_lastcode s1) l = Inr (sh_environ s', sh_lastcode s', out)"
proof -
  obtain s2 where s2: "ParseRedir s1 = Inr s2" "cstr (command_line s2) 0 = line_cmd l" "std_ok s2"
    "redir_as s2 (std_line_redir l)" "sh_environ s2 = sh_environ s1" "sh_lastcode s2 = sh_lastcode s1"
    "sh_stdin s2 = sh_stdin s1"
    by (rule ParseRedir_ok [OF assms(1), unfolded assms(2)]) (use that in simp)
  let ?ws = "tokens gsep (line_cmd l)"
  consider (many) "32 \<le> length ?ws" | (none) "?ws = []" | (some) "?ws \<noteq> []" "length ?ws < 32"
    by (meson leI)
  then show ?thesis
  proof cases
    case many
    then show ?thesis
      using ParseCommand_bad [OF s2(3)] s2(1,2) by (simp add: abs_line_act)
  next
    case none
    then obtain s3 where "ParseCommand s2 = Inr (1, s3)" "garg s3 0 = Inl NullDeref"
      using ParseCommand_none [OF s2(3)] s2(2) by metis
    then show ?thesis
      using s2(1) none by (simp add: abs_line_act std_act_def CheckBuiltinExecute_def)
  next
    case some
    obtain n s3 where s3: "ParseCommand s2 = Inr (n, s3)" "std_ok s3" "std_holds s3 ?ws"
      "redir_as s3 (std_line_redir l)" "sh_environ s3 = sh_environ s1" "sh_lastcode s3 = sh_lastcode s1"
      "sh_stdin s3 = sh_stdin s1"
      by (rule ParseCommand_ok [OF s2(3) arg_cong [OF s2(2)] some s2(4)]) (use that s2 in simp)
    then show ?thesis
      using std_act_ok [OF s3(2,3) some(1) s3(4), of w] s2(1) some
      by (cases "std_act w s3") (auto simp: abs_line_act Let_def)
  qed
qed

lemma rbind_assoc: "rbind (rbind r f) g = rbind r (\<lambda>x. rbind (f x) g)"
  by (cases r) simp_all

lemma std_round_ok:
  assumes "std_ok s"
  shows "agrees (std_round w s) (abs_round w (sh_abs s))"
proof -
  obtain l rest where f: "fgets 127 (sh_stdin s) = (l, rest)"
    by fastforce
  let ?t = "butlast (takeWhile (\<lambda>c. c \<noteq> NUL) l)"
  consider (eof) "l = []" | (nul) "l \<noteq> []" "hd l = NUL" | (line) "l \<noteq> []" "hd l \<noteq> NUL"
    by blast
  then show ?thesis
  proof cases
    case eof
    have "std_ok (s\<lparr>sh_stdin := rest\<rparr>)"
      using assms by (simp add: std_ok_def)
    then show ?thesis
      using eof f by (simp add: std_round_def GetCommand_def MAXSIZE_def agrees_def abs_round_def sh_abs_def)
  next
    case nul
    then show ?thesis
      using GetCommand_NUL [OF assms f nul] f by (simp add: std_round_def agrees_def abs_round_def sh_abs_def)
  next
    case line
    obtain cmd where c: "GetCommand s = Inr (length ?t, s\<lparr>command_line := cmd, sh_stdin := rest\<rparr>)" "cstr cmd 0 = ?t"
      "std_ok (s\<lparr>command_line := cmd, sh_stdin := rest\<rparr>)"
      by (rule GetCommand_ok [OF assms f line])
    let ?s = "s\<lparr>command_line := cmd, sh_stdin := rest\<rparr>"
    show ?thesis
    proof (cases "?t = []")
      case True
      then show ?thesis
        using c f line by (simp add: std_round_def agrees_def abs_round_def sh_abs_def)
    next
      case False
      then have n: "length ?t \<noteq> 0"
        by (simp only: length_0_conv not_False_eq_True)
      let ?r = "rbind (ParseRedir ?s) (\<lambda>s2. rbind (ParseCommand s2) (\<lambda>(_, s3). std_act w s3))"
      have "std_round w s = rbind ?r (\<lambda>(s', out). Inr (s', PrintCommandLine (sh_environ s) # out))"
        unfolding std_round_cut c(1) rbind_Inr prod.case if_not_P [OF n] by (simp add: rbind_assoc case_prod_unfold)
      then show ?thesis
        using std_round_line [OF c(3), of ?t w] c(2) f line False
        by (cases ?r) (auto simp: agrees_def abs_round_def sh_abs_def Let_def)
    qed
  qed
qed

text \<open>What the reference says of a session is what the shell does.\<close>

lemma agreesD:
  "agrees r (Inr (a, out)) \<Longrightarrow> \<exists>s. r = Inr (s, out) \<and> std_ok s \<and> sh_abs s = a"
  "agrees r (Inl e) \<Longrightarrow> r = Inl e"
  by (auto simp: agrees_def split: sum.splits)

lemma std_main_agrees:
  assumes "std_ok s"
  shows "agrees (std_main ws s) (abs_main ws (sh_abs s))"
  using assms
proof (induction ws arbitrary: s)
  case Nil
  then show ?case
    by (simp add: agrees_def)
next
  case (Cons w ws)
  note r = std_round_ok [OF Cons.prems, of w]
  show ?case
  proof (cases "std_round w s")
    case (Inl e)
    then show ?thesis
      using r by (simp add: agrees_def)
  next
    case (Inr x)
    obtain s' out where x: "x = (s', out)"
      by fastforce
    have s': "std_ok s'" "abs_round w (sh_abs s) = Inr (sh_abs s', out)"
      using r Inr x by (simp_all add: agrees_def)
    show ?thesis
      using Cons.IH [OF s'(1)] s'(2) Inr x by (cases "std_main ws s'") (auto simp: agrees_def)
  qed
qed

lemma abs_round_line:
  assumes "newline \<notin> set l" "NUL \<notin> set l" "l \<noteq> []" "length l < 127"
  shows "abs_round w (es, code, l @ newline # rest) =
    rbind (abs_line w es code l) (\<lambda>(es', code', out). Inr ((es', code', rest), PrintCommandLine es # out))"
proof -
  have "fgets 127 (l @ newline # rest) = (l @ [newline], rest)"
    by (rule fgets_line [OF assms(1,4)])
  moreover have "takeWhile (\<lambda>c. c \<noteq> NUL) (l @ [newline]) = l @ [newline]"
    using assms(2) by (subst takeWhile_append2) auto
  moreover have "hd (l @ [newline]) \<noteq> NUL"
    using assms(2,3) by (cases l) auto
  ultimately show ?thesis
    using assms(3) by (simp add: abs_round_def)
qed

text \<open>A line of 32 words writes its null pointer behind the table.\<close>

theorem std_words_overflow:
  assumes "std_ok s" "sh_stdin s = l @ newline # rest" "newline \<notin> set l" "NUL \<notin> set l" "length l < 127"
    "32 \<le> length (tokens '' '' (line_cmd l))"
  shows "std_round w s = Inl OutOfBounds"
proof -
  have "l \<noteq> []"
    using assms(6) by (auto simp: line_cmd_def tokens_Nil)
  then have "abs_round w (sh_abs s) = Inl OutOfBounds"
    using abs_round_line [OF assms(3,4) _ assms(5), of w "sh_environ s" "sh_lastcode s" rest] assms(2,6)
    by (simp add: sh_abs_def abs_line_def)
  then show ?thesis
    using std_round_ok [OF assms(1), of w] agreesD(2) by metis
qed

text \<open>At the end of its input the shell does not end: it prints its prompt for ever.\<close>

theorem std_spins_at_eof:
  assumes "sh_stdin s = []"
  shows "std_main ws s = Inr (s, replicate (length ws) (PrintCommandLine (sh_environ s)))"
proof (induction ws)
  case (Cons w ws)
  have "fgets 127 [] = ([], [])"
    by (simp add: numeral_eq_Suc)
  moreover have "s\<lparr>sh_stdin := []\<rparr> = s"
    using assms by (cases s) simp
  ultimately have "std_round w s = Inr (s, [PrintCommandLine (sh_environ s)])"
    using assms by (simp add: std_round_def GetCommand_def MAXSIZE_def)
  then show ?case
    using Cons.IH assms by simp
qed simp

text \<open>\<open>LoadEnv\<close> has room for 31 variables of less than 4096 bytes.\<close>

lemma std_LoadEnv_loop_iff:
  "(\<exists>r. std_LoadEnv_loop i es ge = Inr r) \<longleftrightarrow> i + length es < length ge \<and> (\<forall>e\<in>set es. length e < 4096)"
  by (induction i es ge rule: std_LoadEnv_loop.induct) (auto simp: put_at_def)

theorem std_LoadEnv_fits:
  "(\<exists>r. std_LoadEnv (std_init es inp) = Inr r) \<longleftrightarrow> length es < 32 \<and> (\<forall>e\<in>set es. length e < 4096)"
proof -
  have "(\<exists>r. std_LoadEnv (std_init es inp) = Inr r) \<longleftrightarrow> (\<exists>r. std_LoadEnv_loop 0 es (replicate 32 None) = Inr r)"
    by (cases "std_LoadEnv_loop 0 es (replicate 32 None)") (auto simp: std_LoadEnv_def std_init_def MAXARGS_def)
  then show ?thesis
    using std_LoadEnv_loop_iff [of 0 es "replicate 32 None"] by simp
qed

text \<open>Unlike the other shell, this one shows the exit code of the last command.\<close>

lemma exit_status_code: "WEXITSTATUS (push_bit 8 (ucast (code :: 8 word))) = ucast code"
proof -
  have m: "(255 :: i32) = mask 8"
    by (simp add: mask_eq_exp_minus_1)
  have "bit (255 :: i32) n" if "n < 8" for n
    unfolding m using that by (simp only: bit_mask_iff) simp
  then show ?thesis
    unfolding WEXITSTATUS_def by (intro bit_word_eqI) (auto simp: bit_simps dest: bit_imp_le_length)
qed

theorem std_shows_exit_code:
  fixes code :: "8 word"
  assumes "std_ok s" "sh_stdin s = l @ newline # ''echo $?'' @ newline # rest" "newline \<notin> set l" "NUL \<notin> set l"
    "length l < 127" "tokens '' '' (line_cmd l) = a # as" "length as < 31" "a \<noteq> ''cd''" "a \<noteq> ''echo''"
    "0 \<le> sint (fork_ret w1)" "0 < sint (wait_ret w1)" "wait_status w1 = push_bit 8 (ucast code)"
  shows "\<exists>s' out. std_main [w1, w2] s = Inr (s', out @ [PrintCode (ucast code)]) \<and> sh_lastcode s' = 0"
proof -
  let ?es = "sh_environ s"
  have "l \<noteq> []"
    using assms(6) by (auto simp: line_cmd_def tokens_Nil)
  then have 1: "\<exists>out. abs_round w1 (sh_abs s) = Inr ((?es, ucast code, ''echo $?'' @ newline # rest), out)"
    using abs_round_line [OF assms(3,4) _ assms(5)] assms(2,6-12) exit_status_code
    by (simp add: sh_abs_def abs_line_def abs_run_def)
  have t: "tokens '' '' (line_cmd ''echo $?'') = [''echo'', ''$?'']"
    by (simp add: line_cmd_def redir_char_def tokens.simps)
  have "abs_round w2 (?es, ucast code, ''echo $?'' @ newline # rest)
      = rbind (abs_line w2 ?es (ucast code) ''echo $?'') (\<lambda>(es', code', out). Inr ((es', code', rest), PrintCommandLine ?es # out))"
    by (rule abs_round_line) simp_all
  also have "\<dots> = Inr ((?es, 0, rest), [PrintCommandLine ?es, PrintCode (ucast code)])"
    by (simp add: abs_line_def t abs_echo_def)
  finally obtain out where "abs_main [w1, w2] (sh_abs s) =
      Inr ((?es, 0, rest), (out @ [PrintCommandLine ?es]) @ [PrintCode (ucast code)])"
    using 1 by auto
  then show ?thesis
    using std_main_agrees [OF assms(1), of "[w1, w2]"] agreesD(1) unfolding sh_abs_def by (metis prod.inject)
qed

text \<open>C40: A session of any number of lines, of any bytes, does exactly what the reference says of the
  strings typed: the same prompts, outputs and child processes with their arguments and redirections, the same
  environment and exit code, and the same fault at the same line, if any.\<close>

theorem std_shell_refines:
  assumes "std_ok s"
  shows "case abs_main ws (sh_abs s) of Inl e \<Rightarrow> std_main ws s = Inl e
    | Inr (a, out) \<Rightarrow> \<exists>s'. std_main ws s = Inr (s', out) \<and> sh_abs s' = a \<and> std_ok s'"
  using std_main_agrees [OF assms, of ws] agreesD(2)
  by (cases "abs_main ws (sh_abs s)") (auto dest!: agreesD(1))

definition answers :: round_in where
  "answers = \<lparr>cwd_buf = ''/home/u'' @ [NUL], fork_ret = 7, open_ret = 3, wait_ret = 7, wait_status = 0x200\<rparr>"

theorem std_shell_refines_witness:
  "\<exists>s'. std_main [answers, answers] (std_init [''PWD=/home/u''] (typed [''ls -l >> log'', ''echo $?''])) =
    Inr (s', [Print ''[None@None u]# '',
      Fork [OpenFor AppRedir ''log'', DupTo 3 1, Execvpe ''ls'' [''ls'', ''-l''] [], Exit 1],
      Print ''[None@None u]# '', PrintCode 2])"
proof -
  let ?es = "[''PWD=/home/u'']"
  have p: "PrintCommandLine ?es = Print ''[None@None u]# ''"
    by (simp add: PrintCommandLine_def std_GetUserName_def std_GetHostName_def GetPwd_def getenv_def names_env_def
        rfindDir_def rfind_def)
  have t: "tokens '' '' (line_cmd ''ls -l >> log'') = [''ls'', ''-l'']" "tokens '' '' (line_cmd ''echo $?'') = [''echo'', ''$?'']"
    by (simp_all add: line_cmd_def redir_char_def tokens.simps)
  have r: "std_line_redir ''ls -l >> log'' = Some (AppRedir, ''log'')"
    by (simp add: std_line_redir_def redir_char_def skip_blank_def isspace_def)
  have "abs_round answers (?es, 0, ''ls -l >> log'' @ newline # ''echo $?'' @ newline # []) =
    rbind (abs_line answers ?es 0 ''ls -l >> log'')
      (\<lambda>(es', code', out). Inr ((es', code', ''echo $?'' @ newline # []), PrintCommandLine ?es # out))"
    by (rule abs_round_line) simp_all
  also have "\<dots> = Inr ((?es, 2, ''echo $?'' @ newline # []), [PrintCommandLine ?es,
      Fork [OpenFor AppRedir ''log'', DupTo 3 1, Execvpe ''ls'' [''ls'', ''-l''] [], Exit 1]])"
    by (simp add: abs_line_def t r abs_run_def std_opens_def answers_def WEXITSTATUS_def)
  finally have 1: "abs_round answers (?es, 0, ''ls -l >> log'' @ newline # ''echo $?'' @ newline # []) = \<dots>" .
  have "abs_round answers (?es, 2, ''echo $?'' @ newline # []) =
    rbind (abs_line answers ?es 2 ''echo $?'') (\<lambda>(es', code', out). Inr ((es', code', []), PrintCommandLine ?es # out))"
    by (rule abs_round_line) simp_all
  also have "\<dots> = Inr ((?es, 0, []), [PrintCommandLine ?es, PrintCode 2])"
    by (simp add: abs_line_def t abs_echo_def)
  finally have 2: "abs_round answers (?es, 2, ''echo $?'' @ newline # []) = \<dots>" .
  show ?thesis
    using std_shell_refines [OF std_ok_init, of "[answers, answers]" ?es "typed [''ls -l >> log'', ''echo $?'']"] 1 2 p
    by (auto simp: sh_abs_def std_init_def typed_def)
qed

end
