(* ===== verification/Buffered_File.thy ===== *)
theory Buffered_File
  imports C_String
begin

text \<open>
  The buffered file of \<open>src/Test_11_9_file_redir/mystdio/\<close> (\<open>myfile.h\<close>, \<open>myfile.cc\<close>; the copy under
  \<open>src/Test_11_12_link_and_repo/\<close> is the same): opening, writing through a buffer of 1024 bytes, flushing and closing.
  The result of \<open>open\<close> and the memory of \<open>malloc\<close> are arguments; the calls of the kernel are a list. Every
  flush writes the whole buffer, and every write puts its bytes at the start of it, so that the file is right
  exactly for messages of 1024 bytes.
\<close>

section \<open>Data\<close>

datatype flush_mode = LINEFLUSH | FULLFLUSH

record myfile =
  fileno :: i32
  flush_mod :: flush_mode
  buf :: cbuf
  capacity :: i32
  pos :: i32

datatype open_mode = RdOnly | WrTrunc | WrAppend

datatype io_call = OpenFile string open_mode | WriteTo i32 string | CloseFd i32 | OpenError | Note string

definition BUFSIZE :: nat where
  "BUFSIZE = 1024"

section \<open>Operations\<close>

text \<open>Flags other than the three leave the descriptor at -1 and open nothing.\<close>

definition myopen :: "string \<Rightarrow> string \<Rightarrow> i32 \<Rightarrow> cbuf \<Rightarrow> myfile \<times> io_call list" where
  "myopen path flags opened mem =
    (let mode = (if flags = ''r'' then Some RdOnly else if flags = ''w'' then Some WrTrunc
                 else if flags = ''a'' then Some WrAppend else None);
         fd = (if mode = None then -1 else opened);
         calls = (case mode of None \<Rightarrow> [] | Some m \<Rightarrow> OpenFile path m # (if sint fd < 0 then [OpenError] else [])) in
     (\<lparr>fileno = fd, flush_mod = (if fd = 1 \<or> fd = 2 then LINEFLUSH else FULLFLUSH), buf = mem,
       capacity = of_nat BUFSIZE, pos = 0\<rparr>, calls))"

definition myflush :: "myfile \<Rightarrow> myfile \<times> io_call list" where
  "myflush f = (if pos f \<noteq> 0 then (f\<lparr>pos := 0\<rparr>, [WriteTo (fileno f) (take BUFSIZE (buf f))]) else (f, []))"

definition mywrite :: "myfile \<Rightarrow> string \<Rightarrow> (myfile \<times> io_call list) res" where
  "mywrite f data =
    (if BUFSIZE < length data then Inl OutOfBounds
     else
       let f1 = f\<lparr>buf := overwrite (buf f) 0 data, pos := pos f + of_nat (length data)\<rparr>;
           i = sint (pos f1 - 1) in
       if i < 0 \<or> int BUFSIZE \<le> i then Inl OutOfBounds
       else if buf f1 ! nat i = CHR 0x0A \<and> flush_mod f1 = LINEFLUSH then
         (let (f2, out) = myflush f1 in Inr (f2, out @ [Note ''LINEFLUSH'']))
       else if pos f1 = capacity f1 \<and> flush_mod f1 = FULLFLUSH then
         (let (f2, out) = myflush f1 in Inr (f2, out @ [Note ''FULLFLUSH'']))
       else Inr (f1, []))"

definition myfclose :: "myfile \<Rightarrow> io_call list" where
  "myfclose f = (let (f, out) = myflush f in out @ [CloseFd (fileno f)])"

text \<open>A program that writes messages to a file and closes it.\<close>

fun mywrites :: "myfile \<Rightarrow> string list \<Rightarrow> (myfile \<times> io_call list) res" where
  "mywrites f [] = Inr (f, [])"
| "mywrites f (m # ms) =
    rbind (mywrite f m) (\<lambda>(f, out). rbind (mywrites f ms) (\<lambda>(f, out'). Inr (f, out @ out')))"

definition write_and_close :: "myfile \<Rightarrow> string list \<Rightarrow> io_call list res" where
  "write_and_close f ms = rbind (mywrites f ms) (\<lambda>(f, out). Inr (out @ myfclose f))"

text \<open>The bytes that reach the file.\<close>

definition written :: "io_call list \<Rightarrow> string" where
  "written cs = concat (map (\<lambda>c. case c of WriteTo fd s \<Rightarrow> s | _ \<Rightarrow> []) cs)"

section \<open>Well-formed files\<close>

definition file_ok :: "myfile \<Rightarrow> bool" where
  "file_ok f \<longleftrightarrow> length (buf f) = 1024 \<and> capacity f = 1024 \<and> flush_mod f = FULLFLUSH"

lemma myopen_ok:
  assumes "length mem = 1024" "opened \<noteq> 1" "opened \<noteq> 2"
  shows "file_ok (fst (myopen path flags opened mem))" "pos (fst (myopen path flags opened mem)) = 0"
  using assms by (auto simp: myopen_def file_ok_def BUFSIZE_def Let_def)

lemma mywrite_fault_iff:
  assumes "file_ok f" "pos f = of_nat p" "p \<le> 1024"
  shows "(\<exists>e. mywrite f m = Inl e) \<longleftrightarrow> 1024 < length m \<or> p + length m = 0 \<or> 1024 < p + length m"
proof (cases "length m \<le> 1024")
  case True
  have i: "sint (pos f + of_nat (length m) - 1 :: i32) = int (p + length m) - 1"
    using sint_of_int_i32 [of "int (p + length m) - 1"] True assms(2,3) by simp
  have "int p + int (length m) < 1 \<longleftrightarrow> p + length m = 0"
    by linarith
  then show ?thesis
    using True i by (auto simp: mywrite_def BUFSIZE_def Let_def split: prod.splits if_splits)
qed (simp add: mywrite_def BUFSIZE_def)

lemma mywrite_room:
  assumes "file_ok f" "pos f = of_nat p" "0 < p + length m" "p + length m < 1024"
  shows "mywrite f m = Inr (f\<lparr>buf := overwrite (buf f) 0 m, pos := of_nat (p + length m)\<rparr>, [])"
proof -
  obtain k where k: "p + length m = Suc k"
    using assms(3) by (cases "p + length m") auto
  have "(of_nat p + of_nat (length m) :: i32) = of_nat (Suc k)"
    using k by (metis of_nat_add)
  then have i: "sint (of_nat p + of_nat (length m) - 1 :: i32) = int k"
    using sint_of_nat_i32 [of k] k assms(4) by simp
  have "sint (of_nat p + of_nat (length m) :: i32) = int (p + length m)"
    using sint_of_nat_i32 [of "p + length m"] assms(4) by simp
  moreover have "sint (1024 :: i32) = 1024"
    by simp
  ultimately have "(of_nat p + of_nat (length m) :: i32) \<noteq> 1024"
    using assms(4) by auto
  moreover have "int k < 1024"
    using assms(4) k by linarith
  ultimately show ?thesis
    using assms i by (simp add: mywrite_def BUFSIZE_def Let_def file_ok_def)
qed

lemma mywrite_block:
  assumes "file_ok f" "pos f = 0" "length m = 1024"
  shows "mywrite f m = Inr (f\<lparr>buf := m\<rparr>, [WriteTo (fileno f) m, Note ''FULLFLUSH''])"
proof -
  have "overwrite (buf f) 0 m = m"
    using assms by (simp add: overwrite_def file_ok_def)
  then show ?thesis
    using assms by (simp add: mywrite_def BUFSIZE_def Let_def file_ok_def myflush_def)
qed

section \<open>What reaches the file\<close>

lemma mywrites_room:
  assumes "file_ok f" "pos f = of_nat p" "\<forall>m\<in>set ms. m \<noteq> []" "p + length (concat ms) < 1024"
  shows "mywrites f ms =
    Inr (f\<lparr>buf := foldl (\<lambda>b m. overwrite b 0 m) (buf f) ms, pos := of_nat (p + length (concat ms))\<rparr>, [])"
  using assms
proof (induction ms arbitrary: f p)
  case (Cons m ms)
  let ?f = "f\<lparr>buf := overwrite (buf f) 0 m, pos := of_nat (p + length m)\<rparr>"
  have w: "mywrite f m = Inr (?f, [])"
    by (rule mywrite_room) (use Cons.prems in auto)
  have "file_ok ?f"
    using Cons.prems by (simp add: file_ok_def length_overwrite)
  then have "mywrites ?f ms =
      Inr (?f\<lparr>buf := foldl (\<lambda>b m. overwrite b 0 m) (buf ?f) ms, pos := of_nat (p + length m + length (concat ms))\<rparr>, [])"
    by (intro Cons.IH) (use Cons.prems in auto)
  then show ?case
    using w by (simp add: add.assoc)
qed simp

lemma laid_over:
  assumes "length b = 1024" "\<forall>x\<in>set ms. length x \<le> length m" "length m \<le> 1024"
  shows "overwrite (foldl (\<lambda>b m. overwrite b 0 m) b ms) 0 m = m @ drop (length m) b"
  using assms(1,2)
proof (induction ms arbitrary: b)
  case (Cons x ms)
  have "drop (length m) (overwrite b 0 x) = drop (length m) b"
    using Cons.prems by (simp add: overwrite_def)
  then show ?case
    using Cons.IH [of "overwrite b 0 x"] Cons.prems assms(3) by (simp add: length_overwrite)
qed (simp add: overwrite_def)

text \<open>Messages that fit into the buffer together: closing the file writes all 1024 bytes of the buffer, and these
  are the last message followed by what the memory held, nothing of the earlier messages, if none of them is longer.\<close>

theorem only_last_message_written:
  assumes "file_ok f" "pos f = 0" "\<forall>x\<in>set (ms @ [m]). x \<noteq> []" "length (concat (ms @ [m])) < 1024"
    "\<forall>x\<in>set ms. length x \<le> length m"
  shows "\<exists>cs. write_and_close f (ms @ [m]) = Inr cs \<and> written cs = m @ drop (length m) (buf f) \<and>
    length (written cs) = 1024"
proof -
  let ?n = "length (concat (ms @ [m]))"
  let ?b = "overwrite (foldl (\<lambda>b m. overwrite b 0 m) (buf f) ms) 0 m"
  have b: "?b = m @ drop (length m) (buf f)"
    by (rule laid_over) (use assms in \<open>auto simp: file_ok_def\<close>)
  have l: "length ?b = 1024"
    using assms(1,4) unfolding b by (simp add: file_ok_def)
  have w: "mywrites f (ms @ [m]) = Inr (f\<lparr>buf := ?b, pos := of_nat ?n\<rparr>, [])"
    using mywrites_room [OF assms(1), of 0 "ms @ [m]"] assms(2-4) by simp
  have "sint (of_nat ?n :: i32) = int ?n"
    by (rule sint_of_nat_i32) (use assms(4) in simp)
  moreover have "0 < ?n"
    using assms(3) by simp
  ultimately have "(of_nat ?n :: i32) \<noteq> 0"
    by (metis of_nat_0_less_iff order_less_irrefl signed_0)
  then have "write_and_close f (ms @ [m]) = Inr [WriteTo (fileno f) ?b, CloseFd (fileno f)]"
    using w l by (simp add: write_and_close_def myfclose_def myflush_def BUFSIZE_def del: length_concat concat_append)
  then show ?thesis
    using b l by (simp add: written_def)
qed

text \<open>Messages of exactly 1024 bytes reach the file complete and in order.\<close>

theorem blocks_written_in_order:
  assumes "file_ok f" "pos f = 0" "\<forall>m\<in>set ms. length m = 1024"
  shows "\<exists>cs. write_and_close f ms = Inr cs \<and> written cs = concat ms"
proof -
  have "\<exists>f' cs. mywrites f ms = Inr (f', cs) \<and> written cs = concat ms \<and> pos f' = 0"
    using assms
  proof (induction ms arbitrary: f)
    case (Cons m ms)
    have w: "mywrite f m = Inr (f\<lparr>buf := m\<rparr>, [WriteTo (fileno f) m, Note ''FULLFLUSH''])"
      by (rule mywrite_block) (use Cons.prems in auto)
    have "\<exists>f' cs. mywrites (f\<lparr>buf := m\<rparr>) ms = Inr (f', cs) \<and> written cs = concat ms \<and> pos f' = 0"
      by (rule Cons.IH) (use Cons.prems in \<open>auto simp: file_ok_def\<close>)
    then show ?case
      using w by (auto simp: written_def)
  qed (simp add: written_def)
  then show ?thesis
    by (auto simp: write_and_close_def myfclose_def myflush_def written_def)
qed

text \<open>The program of \<open>test.cc\<close>: one line is followed in \<open>log.txt\<close> by the rest of the buffer.\<close>

definition demo_file :: myfile where
  "demo_file = fst (myopen ''./log.txt'' ''a'' 3 (replicate 1024 CHR ''z''))"

lemma demo_file_ok: "file_ok demo_file" "pos demo_file = 0" "buf demo_file = replicate 1024 CHR ''z''"
  unfolding demo_file_def by (rule myopen_ok, simp_all) (simp_all add: myopen_def Let_def)

theorem only_last_message_written_witness:
  "\<exists>cs. write_and_close demo_file [''first line'', ''hello world'' @ [CHR 0x0A]] = Inr cs \<and>
    written cs = ''hello world'' @ [CHR 0x0A] @ replicate 1012 CHR ''z'' \<and> length (written cs) = 1024"
  using only_last_message_written [OF demo_file_ok(1,2), of "[''first line'']" "''hello world'' @ [CHR 0x0A]"]
  by (simp add: demo_file_ok(3))

theorem blocks_written_in_order_witness:
  "\<exists>cs. write_and_close demo_file [replicate 1024 CHR ''a'', replicate 1024 CHR ''b''] = Inr cs \<and>
    written cs = replicate 1024 CHR ''a'' @ replicate 1024 CHR ''b''"
  using blocks_written_in_order [OF demo_file_ok(1,2), of "[replicate 1024 CHR ''a'', replicate 1024 CHR ''b'']"] by simp

end
