(* ===== verification/Process_Pool.thy ===== *)
theory Process_Pool
  imports Prelude
begin

text \<open>
  The process pool of \<open>src/Test_11_14_proc_pool/\<close> (\<open>process_pool.hpp\<close>, \<open>myproc_pool.cc\<close>): a parent with one pipe per
  child hands out tasks in turn, then closes its write ends and waits for the children.

  A child inherits the write ends the parent holds when it is forked, those of the pipes before its own, and keeps
  them open: so a pipe reports its end only when the parent and every later child have let go of it. The
  theorem shows that the order of \<open>CompleteAndQuit\<close>, all closes before the first wait, still ends.

  The state is that of the kernel and the parent: who holds which write end, the task numbers in the pipes, which
  children run, and where the parent stands. A step is one call of the parent or one round of a child's loop;
  \<open>None\<close> is a call that blocks. A pipe holds at most \<open>cap\<close> task numbers. \<open>pipe\<close> and \<open>fork\<close> are taken to
  succeed. The fields \<open>sent\<close> and \<open>ran\<close> keep the history: the tasks handed out, and who ran which task.
\<close>

section \<open>State\<close>

datatype proc = Parent | Child nat

datatype parent_pc = AllocT "nat option" | CloseAll nat | WaitAll nat | Quit

record pool =
  channels :: "(nat \<times> nat) list"
  index :: nat
  wends :: "proc \<Rightarrow> nat list"
  pipe_data :: "nat \<Rightarrow> i32 list"
  living :: "nat \<Rightarrow> bool"
  pc :: parent_pc
  sent :: "i32 list"
  ran :: "(nat \<times> i32) list"

definition TASK_SIZE :: nat where
  "TASK_SIZE = 3"

definition pool_empty :: pool where
  "pool_empty = \<lparr>channels = [], index = 0, wends = (\<lambda>_. []), pipe_data = (\<lambda>_. []), living = (\<lambda>_. False),
    pc = AllocT None, sent = [], ran = []\<rparr>"

section \<open>The parent\<close>

text \<open>\<open>CreateChannel\<close>: the child gets a copy of the parent's descriptors and closes the write end of its own pipe.
  A channel is the pipe it writes to and the child, which carry the same number.\<close>

definition create_one :: "pool \<Rightarrow> pool" where
  "create_one s =
    (let i = length (channels s); held = i # wends s Parent in
     s\<lparr>wends := (wends s)(Parent := held, Child i := filter (\<lambda>j. j \<noteq> i) held),
       pipe_data := (pipe_data s)(i := []), living := (living s)(i := True), channels := channels s @ [(i, i)]\<rparr>)"

fun CreateChannel :: "nat \<Rightarrow> pool \<Rightarrow> pool" where
  "CreateChannel 0 s = s"
| "CreateChannel (Suc k) s = CreateChannel k (create_one s)"

text \<open>\<open>AllocTask\<close> runs \<open>times\<close> times when \<open>times\<close> is positive and for ever otherwise.\<close>

definition AllocTask :: "int \<Rightarrow> pool \<Rightarrow> pool" where
  "AllocTask tms s = s\<lparr>pc := AllocT (if tms > 0 then Some (nat tms) else None)\<rparr>"

definition AllocTaskOnce :: "nat \<Rightarrow> nat \<Rightarrow> pool \<Rightarrow> pool option res" where
  "AllocTaskOnce cap rnd s =
    (let taskid = of_nat (rnd mod TASK_SIZE) in
     if index s < length (channels s) then
       let w = fst (channels s ! index s) in
       if \<not> living s w then Inl ExitProcess
       else if length (pipe_data s w) < cap then
         Inr (Some (s\<lparr>pipe_data := (pipe_data s)(w := pipe_data s w @ [taskid]),
                      index := (index s + 1) mod length (channels s), sent := sent s @ [taskid]\<rparr>))
       else Inr None
     else Inl OutOfBounds)"

text \<open>\<open>CloseWfd\<close> and \<open>WaitChild\<close> of one channel, in the two loops of \<open>CompleteAndQuit\<close>.\<close>

definition CloseWfd :: "nat \<Rightarrow> pool \<Rightarrow> pool" where
  "CloseWfd k s = s\<lparr>wends := (wends s)(Parent := filter (\<lambda>j. j \<noteq> fst (channels s ! k)) (wends s Parent))\<rparr>"

definition parent_step :: "nat \<Rightarrow> nat \<Rightarrow> pool \<Rightarrow> pool option res" where
  "parent_step cap rnd s =
    (case pc s of
       AllocT None \<Rightarrow> AllocTaskOnce cap rnd s
     | AllocT (Some 0) \<Rightarrow> Inr (Some (s\<lparr>pc := CloseAll 0\<rparr>))
     | AllocT (Some (Suc k)) \<Rightarrow>
         rbind (AllocTaskOnce cap rnd s) (\<lambda>r. Inr (map_option (\<lambda>s. s\<lparr>pc := AllocT (Some k)\<rparr>) r))
     | CloseAll k \<Rightarrow>
         if k < length (channels s) then Inr (Some ((CloseWfd k s)\<lparr>pc := CloseAll (Suc k)\<rparr>))
         else Inr (Some (s\<lparr>pc := WaitAll 0\<rparr>))
     | WaitAll k \<Rightarrow>
         if k < length (channels s) then
           if living s (snd (channels s ! k)) then Inr None else Inr (Some (s\<lparr>pc := WaitAll (Suc k)\<rparr>))
         else Inr (Some (s\<lparr>pc := Quit\<rparr>))
     | Quit \<Rightarrow> Inr None)"

section \<open>A child\<close>

definition holds_write_end :: "pool \<Rightarrow> nat \<Rightarrow> bool" where
  "holds_write_end s i \<longleftrightarrow> list_ex (\<lambda>p. i \<in> set (wends s p)) (Parent # map Child [0..<length (channels s)])"

text \<open>\<open>GetFuncIdAndExcute\<close>: read a task number and run it; leave the loop, and exit, at the end of the pipe.\<close>

definition child_step :: "nat \<Rightarrow> pool \<Rightarrow> pool option res" where
  "child_step i s =
    (if \<not> living s i then Inr None
     else case pipe_data s i of
       taskid # q \<Rightarrow>
         if 0 \<le> sint taskid \<and> sint taskid < int TASK_SIZE
         then Inr (Some (s\<lparr>pipe_data := (pipe_data s)(i := q), ran := ran s @ [(i, taskid)]\<rparr>))
         else Inl OutOfBounds
     | [] \<Rightarrow>
         if holds_write_end s i then Inr None
         else Inr (Some (s\<lparr>living := (living s)(i := False), wends := (wends s)(Child i := [])\<rparr>)))"

inductive pp_step :: "nat \<Rightarrow> pool \<Rightarrow> pool \<Rightarrow> bool" for cap where
  by_parent: "parent_step cap rnd s = Inr (Some s') \<Longrightarrow> pp_step cap s s'"
| by_child: "i < length (channels s) \<Longrightarrow> child_step i s = Inr (Some s') \<Longrightarrow> pp_step cap s s'"

definition pool_start :: "nat \<Rightarrow> int \<Rightarrow> pool" where
  "pool_start n tms = AllocTask tms (CreateChannel n pool_empty)"

text \<open>\<open>main\<close> calls \<open>AllocTask\<close> without a count: the default is \<open>-1\<close>.\<close>

definition proc_main :: "nat \<Rightarrow> pool" where
  "proc_main num = AllocTask (- 1) (CreateChannel num pool_empty)"

section \<open>The invariant\<close>

text \<open>With \<open>n\<close> children: who holds what, by the place of the parent; nobody is gone before the last write end of the
  parent is closed; and of the tasks every child has run, and finds in its pipe, the ones that fell to it in turn.\<close>

definition parent_ends :: "nat \<Rightarrow> parent_pc \<Rightarrow> nat set" where
  "parent_ends n p = (case p of AllocT _ \<Rightarrow> {0..<n} | CloseAll k \<Rightarrow> {k..<n} | _ \<Rightarrow> {})"

definition all_stay :: "nat \<Rightarrow> parent_pc \<Rightarrow> bool" where
  "all_stay n p \<longleftrightarrow> (case p of AllocT _ \<Rightarrow> True | CloseAll k \<Rightarrow> k < n | _ \<Rightarrow> False)"

definition waited :: "nat \<Rightarrow> parent_pc \<Rightarrow> nat set" where
  "waited n p = (case p of WaitAll k \<Rightarrow> {0..<k} | Quit \<Rightarrow> {0..<n} | _ \<Rightarrow> {})"

definition pc_ok :: "nat \<Rightarrow> parent_pc \<Rightarrow> bool" where
  "pc_ok n p \<longleftrightarrow> (case p of CloseAll k \<Rightarrow> k \<le> n | WaitAll k \<Rightarrow> k \<le> n | _ \<Rightarrow> True)"

definition share :: "nat \<Rightarrow> nat \<Rightarrow> 'a list \<Rightarrow> 'a list" where
  "share n i ts = nths ts {j. j mod n = i}"

definition ran_by :: "nat \<Rightarrow> (nat \<times> 'a) list \<Rightarrow> 'a list" where
  "ran_by i rs = map snd (filter (\<lambda>r. fst r = i) rs)"

definition pp_inv :: "nat \<Rightarrow> pool \<Rightarrow> bool" where
  "pp_inv n s \<longleftrightarrow> channels s = map (\<lambda>i. (i, i)) [0..<n] \<and> pc_ok n (pc s) \<and>
    set (wends s Parent) = parent_ends n (pc s) \<and>
    (\<forall>i<n. set (wends s (Child i)) = (if living s i then {0..<i} else {})) \<and>
    (all_stay n (pc s) \<longrightarrow> (\<forall>i<n. living s i)) \<and>
    (\<forall>i<n. \<not> living s i \<longrightarrow> pipe_data s i = []) \<and>
    (\<forall>i\<in>waited n (pc s). \<not> living s i) \<and>
    index s = length (sent s) mod n \<and>
    (\<forall>i<n. \<forall>t\<in>set (pipe_data s i). 0 \<le> sint t \<and> sint t < int TASK_SIZE) \<and>
    (\<forall>i<n. ran_by i (ran s) @ pipe_data s i = share n i (sent s))"

lemma pp_invD:
  assumes "pp_inv n s"
  shows "channels s = map (\<lambda>i. (i, i)) [0..<n]" "length (channels s) = n" "pc_ok n (pc s)"
    "set (wends s Parent) = parent_ends n (pc s)"
    "i < n \<Longrightarrow> set (wends s (Child i)) = (if living s i then {0..<i} else {})"
    "all_stay n (pc s) \<Longrightarrow> i < n \<Longrightarrow> living s i" "i < n \<Longrightarrow> \<not> living s i \<Longrightarrow> pipe_data s i = []"
    "i \<in> waited n (pc s) \<Longrightarrow> \<not> living s i" "index s = length (sent s) mod n"
    "i < n \<Longrightarrow> t \<in> set (pipe_data s i) \<Longrightarrow> 0 \<le> sint t \<and> sint t < int TASK_SIZE"
    "i < n \<Longrightarrow> ran_by i (ran s) @ pipe_data s i = share n i (sent s)"
  using assms unfolding pp_inv_def by (simp_all split: if_splits)

lemmas pc_sets = parent_ends_def all_stay_def waited_def pc_ok_def

lemma share_snoc: "share n i (ts @ [t]) = share n i ts @ (if length ts mod n = i then [t] else [])"
  by (simp add: share_def nths_append nths_singleton)

lemma ran_by_snoc: "ran_by i (rs @ [(j, t)]) = ran_by i rs @ (if j = i then [t] else [])"
  by (simp add: ran_by_def)

text \<open>Nobody holds the write end of pipe \<open>i\<close> just when the parent has closed it and the later children are gone.\<close>

lemma holds_write_end_iff:
  assumes "pp_inv n s" "i < n"
  shows "holds_write_end s i \<longleftrightarrow> i \<in> parent_ends n (pc s) \<or> (\<exists>j<n. i < j \<and> living s j)"
proof -
  have "i \<in> set (wends s (Child j)) \<longleftrightarrow> i < j \<and> living s j" if "j < n" for j
    using pp_invD(5) [OF assms(1) that] by auto
  then show ?thesis
    using pp_invD(2,4) [OF assms(1)] by (auto simp: holds_write_end_def list_ex_iff)
qed

section \<open>Every step keeps the invariant\<close>

lemma create_one_inv:
  assumes "pp_inv m s" "pc s = AllocT x" "sent s = []" "ran s = []" "\<forall>i\<ge>m. \<not> living s i"
  shows "pp_inv (Suc m) (create_one s) \<and> pc (create_one s) = AllocT x \<and> sent (create_one s) = [] \<and>
    ran (create_one s) = [] \<and> (\<forall>i\<ge>Suc m. \<not> living (create_one s) i)"
proof -
  have l: "length (channels s) = m" and p: "set (wends s Parent) = {0..<m}"
    using pp_invD(2,4) [OF assms(1)] assms(2) by (simp_all add: pc_sets)
  have f: "{j \<in> set (wends s Parent). j \<noteq> m} = {0..<m}"
    unfolding p by auto
  have "pp_inv (Suc m) (create_one s)"
    unfolding pp_inv_def
  proof (intro conjI)
    show "\<forall>i<Suc m. set (wends (create_one s) (Child i)) = (if living (create_one s) i then {0..<i} else {})"
      using pp_invD(5) [OF assms(1)] f l by (auto simp: create_one_def Let_def less_Suc_eq)
    show "\<forall>i<Suc m. ran_by i (ran (create_one s)) @ pipe_data (create_one s) i = share (Suc m) i (sent (create_one s))"
      using pp_invD(11) [OF assms(1)] assms(3,4) l by (auto simp: create_one_def Let_def less_Suc_eq share_def ran_by_def)
    show "all_stay (Suc m) (pc (create_one s)) \<longrightarrow> (\<forall>i<Suc m. living (create_one s) i)"
      using pp_invD(6) [OF assms(1)] assms(2) l by (auto simp: create_one_def Let_def less_Suc_eq pc_sets)
  qed (use pp_invD [OF assms(1)] assms l p in \<open>auto simp: create_one_def Let_def less_Suc_eq pc_sets\<close>)
  then show ?thesis
    using assms l by (auto simp: create_one_def Let_def)
qed

lemma CreateChannel_inv:
  assumes "pp_inv m s" "pc s = AllocT x" "sent s = []" "ran s = []" "\<forall>i\<ge>m. \<not> living s i"
  shows "pp_inv (m + k) (CreateChannel k s) \<and> pc (CreateChannel k s) = AllocT x \<and> sent (CreateChannel k s) = []"
  using assms
proof (induction k arbitrary: m s)
  case (Suc k)
  then show ?case
    using create_one_inv [OF Suc.prems] Suc.IH [of "Suc m" "create_one s"] by simp
qed simp

lemma pool_start_inv:
  "pp_inv n (pool_start n tms)" "sent (pool_start n tms) = []"
  "pc (pool_start n tms) = AllocT (if tms > 0 then Some (nat tms) else None)"
proof -
  have "pp_inv 0 pool_empty" "pc pool_empty = AllocT None" "sent pool_empty = []" "ran pool_empty = []"
    "\<forall>i\<ge>0. \<not> living pool_empty i"
    by (simp_all add: pool_empty_def pp_inv_def pc_sets)
  then have "pp_inv n (CreateChannel n pool_empty) \<and> pc (CreateChannel n pool_empty) = AllocT None \<and>
      sent (CreateChannel n pool_empty) = []"
    using CreateChannel_inv [of 0 pool_empty None n] by simp
  then show "pp_inv n (pool_start n tms)" "sent (pool_start n tms) = []"
      "pc (pool_start n tms) = AllocT (if tms > 0 then Some (nat tms) else None)"
    by (auto simp: pool_start_def AllocTask_def pp_inv_def pc_sets)
qed

text \<open>Handing out a task.\<close>

lemma task_number: "0 \<le> sint (of_nat (r mod TASK_SIZE) :: i32) \<and> sint (of_nat (r mod TASK_SIZE) :: i32) < int TASK_SIZE"
  by (simp add: TASK_SIZE_def sint_of_nat_i32)

lemma AllocTaskOnce_inv:
  assumes "pp_inv n s" "0 < n" "pc s = AllocT x"
  shows "AllocTaskOnce cap r s = Inr None \<and> cap \<le> length (pipe_data s (index s)) \<and> index s < n \<or>
    (\<exists>s'. AllocTaskOnce cap r s = Inr (Some s') \<and> pp_inv n s' \<and> pc s' = pc s \<and> channels s' = channels s \<and>
      living s' = living s \<and> sent s' = sent s @ [of_nat (r mod TASK_SIZE)] \<and> ran s' = ran s \<and>
      pipe_data s' = (pipe_data s)(index s := pipe_data s (index s) @ [of_nat (r mod TASK_SIZE)]) \<and> index s < n)"
proof -
  let ?t = "of_nat (r mod TASK_SIZE) :: i32"
  let ?s = "s\<lparr>pipe_data := (pipe_data s)(index s := pipe_data s (index s) @ [?t]), index := (index s + 1) mod n,
    sent := sent s @ [?t]\<rparr>"
  have i: "index s < n"
    using pp_invD(9) [OF assms(1)] assms(2) by simp
  have l: "length (channels s) = n" "fst (channels s ! index s) = index s"
    using pp_invD(1,2) [OF assms(1)] i by simp_all
  have lv: "living s (index s)"
    using pp_invD(6) [OF assms(1) _ i] assms(3) by (simp add: pc_sets)
  have "pp_inv n ?s"
    unfolding pp_inv_def
  proof (intro conjI)
    show "index ?s = length (sent ?s) mod n"
      using pp_invD(9) [OF assms(1)] by (simp add: mod_Suc_eq)
    show "\<forall>i<n. \<forall>t\<in>set (pipe_data ?s i). 0 \<le> sint t \<and> sint t < int TASK_SIZE"
      using pp_invD(10) [OF assms(1)] task_number by auto
    show "\<forall>i<n. ran_by i (ran ?s) @ pipe_data ?s i = share n i (sent ?s)"
    proof (intro allI impI)
      fix i
      assume "i < n"
      then show "ran_by i (ran ?s) @ pipe_data ?s i = share n i (sent ?s)"
        using pp_invD(11) [OF assms(1), of i] pp_invD(9) [OF assms(1)] by (auto simp: share_snoc simp flip: append_assoc)
    qed
    show "\<forall>i<n. \<not> living ?s i \<longrightarrow> pipe_data ?s i = []"
      using pp_invD(7) [OF assms(1)] lv by auto
  qed (use pp_invD [OF assms(1)] in \<open>auto split: if_splits\<close>)
  then show ?thesis
    using i l lv by (auto simp: AllocTaskOnce_def Let_def)
qed

text \<open>Where the parent goes on without a task.\<close>

lemma pp_inv_pc:
  assumes "pp_inv n s" "pc_ok n p" "parent_ends n p = set w" "\<And>i. all_stay n p \<Longrightarrow> i < n \<Longrightarrow> living s i"
    "\<And>i. i \<in> waited n p \<Longrightarrow> \<not> living s i"
  shows "pp_inv n (s\<lparr>wends := (wends s)(Parent := w), pc := p\<rparr>)"
  using assms unfolding pp_inv_def by simp

lemma parent_step_inv:
  assumes "pp_inv n s" "0 < n"
  shows "(\<exists>s'. parent_step cap r s = Inr (Some s') \<and> pp_inv n s' \<and> channels s' = channels s) \<or> parent_step cap r s = Inr None"
proof (cases "pc s")
  case (AllocT x)
  note once = AllocTaskOnce_inv [OF assms AllocT, of cap r]
  show ?thesis
  proof (cases x)
    case None
    then show ?thesis
      using once AllocT by (auto simp: parent_step_def)
  next
    case (Some k)
    show ?thesis
    proof (cases k)
      case 0
      have "pp_inv n (s\<lparr>wends := (wends s)(Parent := wends s Parent), pc := CloseAll 0\<rparr>)"
        by (rule pp_inv_pc [OF assms(1)]) (use pp_invD [OF assms(1)] AllocT assms(2) in \<open>auto simp: pc_sets\<close>)
      then show ?thesis
        using AllocT Some 0 by (simp add: parent_step_def)
    next
      case (Suc j)
      have "pp_inv n (s'\<lparr>pc := AllocT (Some j)\<rparr>)" if "pp_inv n s'" "pc s' = AllocT x" for s'
        using that unfolding pp_inv_def by (auto simp: pc_sets)
      then show ?thesis
        using once AllocT Some Suc by (auto simp: parent_step_def)
    qed
  qed
next
  case (CloseAll k)
  show ?thesis
  proof (cases "k < n")
    case True
    let ?w = "filter (\<lambda>j. j \<noteq> k) (wends s Parent)"
    have "pp_inv n (s\<lparr>wends := (wends s)(Parent := ?w), pc := CloseAll (Suc k)\<rparr>)"
      by (rule pp_inv_pc [OF assms(1)]) (use pp_invD [OF assms(1)] CloseAll True in \<open>auto simp: pc_sets\<close>)
    then show ?thesis
      using CloseAll True pp_invD(1) [OF assms(1)] by (simp add: parent_step_def CloseWfd_def)
  next
    case False
    have "pp_inv n (s\<lparr>wends := (wends s)(Parent := wends s Parent), pc := WaitAll 0\<rparr>)"
      by (rule pp_inv_pc [OF assms(1)]) (use pp_invD [OF assms(1)] CloseAll False in \<open>auto simp: pc_sets\<close>)
    then show ?thesis
      using CloseAll False pp_invD(2) [OF assms(1)] by (simp add: parent_step_def)
  qed
next
  case (WaitAll k)
  show ?thesis
  proof (cases "k < n")
    case True
    have "pp_inv n (s\<lparr>wends := (wends s)(Parent := wends s Parent), pc := WaitAll (Suc k)\<rparr>)" if "\<not> living s k"
      by (rule pp_inv_pc [OF assms(1)])
        (use pp_invD [OF assms(1)] WaitAll True that in \<open>auto simp: pc_sets less_Suc_eq\<close>)
    then show ?thesis
      using WaitAll True pp_invD(1) [OF assms(1)] by (simp add: parent_step_def)
  next
    case False
    have "pp_inv n (s\<lparr>wends := (wends s)(Parent := wends s Parent), pc := Quit\<rparr>)"
      by (rule pp_inv_pc [OF assms(1)]) (use pp_invD [OF assms(1)] WaitAll False in \<open>auto simp: pc_sets\<close>)
    then show ?thesis
      using WaitAll False pp_invD(2) [OF assms(1)] by (simp add: parent_step_def)
  qed
qed (simp add: parent_step_def)

text \<open>A round of a child: it runs the next task, or waits, or leaves.\<close>

lemma child_leaves_after_close:
  assumes "pp_inv n s" "i < n" "\<not> holds_write_end s i"
  shows "\<not> all_stay n (pc s)"
proof
  assume a: "all_stay n (pc s)"
  then have last: "n - 1 \<in> parent_ends n (pc s)"
    using assms(2) by (auto simp: pc_sets split: parent_pc.splits)
  have "i = n - 1 \<or> i < n - 1 \<and> living s (n - 1)"
    using assms(2) pp_invD(6) [OF assms(1) a, of "n - 1"] by auto
  then show False
    using assms(2,3) last holds_write_end_iff [OF assms(1,2)] by auto
qed

lemma child_step_inv:
  assumes "pp_inv n s" "i < n"
  shows "(\<exists>s'. child_step i s = Inr (Some s') \<and> pp_inv n s' \<and> channels s' = channels s) \<or> child_step i s = Inr None"
proof (cases "living s i")
  case True
  show ?thesis
  proof (cases "pipe_data s i")
    case (Cons t q)
    let ?s = "s\<lparr>pipe_data := (pipe_data s)(i := q), ran := ran s @ [(i, t)]\<rparr>"
    have t: "0 \<le> sint t \<and> sint t < int TASK_SIZE"
      using pp_invD(10) [OF assms, of t] Cons by simp
    have "pp_inv n ?s"
      unfolding pp_inv_def
    proof (intro conjI)
      show "\<forall>j<n. ran_by j (ran ?s) @ pipe_data ?s j = share n j (sent ?s)"
        using pp_invD(11) [OF assms(1)] pp_invD(11) [OF assms] Cons by (auto simp: ran_by_snoc)
      show "\<forall>j<n. \<forall>t\<in>set (pipe_data ?s j). 0 \<le> sint t \<and> sint t < int TASK_SIZE"
        using pp_invD(10) [OF assms(1)] Cons by auto
    qed (use pp_invD [OF assms(1)] True in \<open>auto split: if_splits\<close>)
    then show ?thesis
      using True Cons t by (simp add: child_step_def)
  next
    case Nil
    show ?thesis
    proof (cases "holds_write_end s i")
      case False
      have "\<not> all_stay n (pc s)"
        by (rule child_leaves_after_close [OF assms False])
      then have "pp_inv n (s\<lparr>living := (living s)(i := False), wends := (wends s)(Child i := [])\<rparr>)"
        using assms(1) Nil unfolding pp_inv_def by auto
      then show ?thesis
        using True Nil False by (simp add: child_step_def)
    qed (use True Nil in \<open>simp add: child_step_def\<close>)
  qed
qed (simp add: child_step_def)

lemma pp_step_inv:
  assumes "pp_step cap s s'" "pp_inv n s" "0 < n"
  shows "pp_inv n s'"
  using assms
proof cases
  case (by_parent r)
  then show ?thesis
    using parent_step_inv [OF assms(2,3), of cap r] by auto
next
  case (by_child i)
  then show ?thesis
    using child_step_inv [OF assms(2), of i] pp_invD(2) [OF assms(2)] by auto
qed

section \<open>No deadlock\<close>

text \<open>A child with a task runs it, and the last living child leaves once the parent has closed its ends.\<close>

lemma child_moves:
  assumes "pp_inv n s" "i < n" "living s i" "pipe_data s i \<noteq> [] \<or> \<not> holds_write_end s i"
  shows "\<exists>s'. pp_step cap s s'"
proof -
  have "\<exists>s'. child_step i s = Inr (Some s')"
    using child_step_inv [OF assms(1,2)] assms(3,4) by (auto simp: child_step_def split: list.splits if_splits)
  then show ?thesis
    using by_child pp_invD(2) [OF assms(1)] assms(2) by blast
qed

lemma last_child_moves:
  assumes "pp_inv n s" "k < n" "living s k" "parent_ends n (pc s) = {}"
  shows "\<exists>s'. pp_step cap s s'"
proof -
  define m where "m = Max {i. i < n \<and> living s i}"
  have f: "finite {i. i < n \<and> living s i}"
    by simp
  have "m \<in> {i. i < n \<and> living s i}"
    unfolding m_def by (rule Max_in [OF f]) (use assms(2,3) in auto)
  then have m: "m < n" "living s m"
    by auto
  have "\<not> (\<exists>j<n. m < j \<and> living s j)"
    using Max_ge [OF f] unfolding m_def by (auto simp: not_less)
  then have "\<not> holds_write_end s m"
    using holds_write_end_iff [OF assms(1) m(1)] assms(4) by simp
  then show ?thesis
    using child_moves [OF assms(1) m] by blast
qed

lemma pp_progress:
  assumes "pp_inv n s" "0 < n" "0 < cap" "pc s \<noteq> Quit"
  shows "\<exists>s'. pp_step cap s s'"
proof (cases "parent_step cap 0 s = Inr None")
  case False
  then show ?thesis
    using parent_step_inv [OF assms(1,2), of cap 0] by_parent by blast
next
  case True
  show ?thesis
  proof (cases "pc s")
    case (AllocT x)
    have "cap \<le> length (pipe_data s (index s)) \<and> index s < n"
      using AllocTaskOnce_inv [OF assms(1,2) AllocT, of cap 0] True AllocT
      by (auto simp: parent_step_def split: option.splits nat.splits)
    moreover have "living s i" if "i < n" for i
      using pp_invD(6) [OF assms(1) _ that] AllocT by (simp add: pc_sets)
    ultimately show ?thesis
      using child_moves [OF assms(1), of "index s"] assms(3) by fastforce
  next
    case (WaitAll k)
    then have "k < n" "living s k"
      using True pp_invD(1) [OF assms(1)] by (auto simp: parent_step_def split: if_splits)
    then show ?thesis
      using last_child_moves [OF assms(1)] WaitAll by (simp add: pc_sets)
  qed (use True assms(4) in \<open>auto simp: parent_step_def split: if_splits\<close>)
qed

section \<open>Every run ends\<close>

definition pc_left :: "nat \<Rightarrow> parent_pc \<Rightarrow> nat" where
  "pc_left n p = (case p of AllocT None \<Rightarrow> 0 | AllocT (Some k) \<Rightarrow> 2 * k + 2 * n + 3 | CloseAll k \<Rightarrow> (n - k) + n + 2
    | WaitAll k \<Rightarrow> (n - k) + 1 | Quit \<Rightarrow> 0)"

definition work :: "nat \<Rightarrow> pool \<Rightarrow> nat" where
  "work n s = pc_left n (pc s) + (\<Sum>i<n. length (pipe_data s i)) + card {i. i < n \<and> living s i}"

definition unsent :: "parent_pc \<Rightarrow> nat" where
  "unsent p = (case p of AllocT (Some k) \<Rightarrow> k | _ \<Rightarrow> 0)"

lemma sum_upd:
  fixes i n :: nat
  assumes "i < n"
  shows "(\<Sum>j<n. length ((f(i := x)) j)) + length (f i) = (\<Sum>j<n. length (f j)) + length x"
proof -
  have "(\<Sum>j<n. length ((f(i := x)) j)) = length x + (\<Sum>j\<in>{..<n} - {i}. length (f j))"
    using assms by (subst sum.remove [of _ i]) auto
  moreover have "(\<Sum>j<n. length (f j)) = length (f i) + (\<Sum>j\<in>{..<n} - {i}. length (f j))"
    using assms by (subst sum.remove [of _ i]) auto
  ultimately show ?thesis
    by simp
qed

lemma parent_step_work:
  assumes "parent_step cap r s = Inr (Some s')" "pp_inv n s" "0 < n" "pc s \<noteq> AllocT None"
  shows "work n s' < work n s \<and> pc s' \<noteq> AllocT None \<and> length (sent s') + unsent (pc s') = length (sent s) + unsent (pc s)"
proof (cases "pc s")
  case (AllocT x)
  then obtain k where x: "x = Some k"
    using assms(4) by (cases x) auto
  show ?thesis
  proof (cases k)
    case 0
    then show ?thesis
      using assms(1) AllocT x by (auto simp: parent_step_def work_def pc_left_def unsent_def)
  next
    case (Suc j)
    let ?t = "of_nat (r mod TASK_SIZE) :: i32"
    obtain s1 where s1: "s' = s1\<lparr>pc := AllocT (Some j)\<rparr>" "living s1 = living s" "sent s1 = sent s @ [?t]"
      "pipe_data s1 = (pipe_data s)(index s := pipe_data s (index s) @ [?t])" "index s < n"
      using AllocTaskOnce_inv [OF assms(2,3) AllocT, of cap r] assms(1) AllocT x Suc
      by (auto simp: parent_step_def)
    have "(\<Sum>i<n. length (pipe_data s1 i)) = (\<Sum>i<n. length (pipe_data s i)) + 1"
      using sum_upd [OF s1(5), of "pipe_data s" "pipe_data s (index s) @ [?t]"] unfolding s1(4) by simp
    then show ?thesis
      using s1(1,2,3) AllocT x Suc by (simp add: work_def pc_left_def unsent_def)
  qed
next
  case (CloseAll k)
  then show ?thesis
    using assms(1) pp_invD(2,3) [OF assms(2)]
    by (auto simp: parent_step_def work_def pc_left_def unsent_def CloseWfd_def split: if_splits)
next
  case (WaitAll k)
  then show ?thesis
    using assms(1) pp_invD(2) [OF assms(2)]
    by (auto simp: parent_step_def work_def pc_left_def unsent_def split: if_splits)
qed (use assms in \<open>simp add: parent_step_def\<close>)

lemma child_step_work:
  assumes "child_step i s = Inr (Some s')" "i < n"
  shows "work n s' < work n s \<and> pc s' = pc s \<and> sent s' = sent s"
proof -
  have lv: "living s i"
    using assms(1) by (auto simp: child_step_def split: if_splits)
  show ?thesis
  proof (cases "pipe_data s i")
    case (Cons t q)
    have "(\<Sum>j<n. length (((pipe_data s)(i := q)) j)) + 1 = (\<Sum>j<n. length (pipe_data s j))"
      using sum_upd [OF assms(2), of "pipe_data s" q] Cons by simp
    then show ?thesis
      using assms(1) lv Cons by (auto simp: child_step_def work_def split: if_splits)
  next
    case Nil
    then have s': "s' = s\<lparr>living := (living s)(i := False), wends := (wends s)(Child i := [])\<rparr>"
      using assms(1) lv by (auto simp: child_step_def split: if_splits)
    have "{j. j < n \<and> living s' j} \<subset> {j. j < n \<and> living s j}"
      using s' lv assms(2) by auto
    then have "card {j. j < n \<and> living s' j} < card {j. j < n \<and> living s j}"
      by (intro psubset_card_mono) auto
    then show ?thesis
      using s' by (simp add: work_def)
  qed
qed

lemma pp_step_work:
  assumes "pp_step cap s s'" "pp_inv n s" "0 < n" "pc s \<noteq> AllocT None"
  shows "work n s' < work n s \<and> pc s' \<noteq> AllocT None \<and> length (sent s') + unsent (pc s') = length (sent s) + unsent (pc s)"
  using assms
proof cases
  case (by_parent r)
  then show ?thesis
    using parent_step_work [OF _ assms(2-4)] by blast
next
  case (by_child i)
  then show ?thesis
    using child_step_work [of i s s' n] pp_invD(2) [OF assms(2)] assms(4) by simp
qed

lemma pp_run:
  assumes "(pp_step cap ^^ m) s s'" "pp_inv n s" "0 < n" "pc s \<noteq> AllocT None"
  shows "pp_inv n s' \<and> pc s' \<noteq> AllocT None \<and> work n s' + m \<le> work n s \<and>
    length (sent s') + unsent (pc s') = length (sent s) + unsent (pc s)"
  using assms(1)
proof (induction m arbitrary: s')
  case (Suc m)
  then obtain s1 where s1: "(pp_step cap ^^ m) s s1" "pp_step cap s1 s'"
    by auto
  then show ?case
    using Suc.IH [OF s1(1)] pp_step_inv [OF s1(2) _ assms(3)] pp_step_work [OF s1(2) _ assms(3)] by fastforce
qed (use assms in auto)

lemma work_start: "0 < tms \<Longrightarrow> work n (pool_start n tms) = 2 * nat tms + 3 * n + 3"
proof -
  assume t: "0 < tms"
  have "pipe_data (pool_start n tms) i = []" if "i < n" for i
    using pp_invD(11) [OF pool_start_inv(1) that] pool_start_inv(2) by (simp add: share_def)
  moreover have "living (pool_start n tms) i" if "i < n" for i
    using pp_invD(6) [OF pool_start_inv(1) _ that] pool_start_inv(3) by (simp add: pc_sets)
  then have "{i. i < n \<and> living (pool_start n tms) i} = {..<n}"
    by auto
  ultimately show "work n (pool_start n tms) = 2 * nat tms + 3 * n + 3"
    using t pool_start_inv(3) by (simp add: work_def pc_left_def)
qed

section \<open>Results\<close>

lemma completes:
  assumes "0 < n" "0 < cap" "0 < tms" "(pp_step cap ^^ m) (pool_start n tms) s"
  shows "pp_inv n s \<and> m \<le> 2 * nat tms + 3 * n + 3 \<and>
    ((\<forall>s'. \<not> pp_step cap s s') \<longrightarrow>
      pc s = Quit \<and> length (sent s) = nat tms \<and> (\<forall>i<n. \<not> living s i \<and> pipe_data s i = []))"
proof -
  have start: "pc (pool_start n tms) = AllocT (Some (nat tms))"
    using pool_start_inv(3) assms(3) by simp
  have run: "pp_inv n s" "work n s + m \<le> 2 * nat tms + 3 * n + 3" "length (sent s) + unsent (pc s) = nat tms"
    using pp_run [OF assms(4) pool_start_inv(1) assms(1)] start work_start [OF assms(3), of n] pool_start_inv(2)
    by (simp_all add: unsent_def)
  moreover have "pc s = Quit \<and> length (sent s) = nat tms \<and> (\<forall>i<n. \<not> living s i \<and> pipe_data s i = [])"
    if "\<forall>s'. \<not> pp_step cap s s'"
  proof -
    have q: "pc s = Quit"
      using pp_progress [OF run(1) assms(1,2)] that by blast
    then show ?thesis
      using pp_invD(7,8) [OF run(1)] run(3) by (auto simp: unsent_def pc_sets)
  qed
  ultimately show ?thesis
    by auto
qed

text \<open>Without a positive count the parent never comes to \<open>CompleteAndQuit\<close>.\<close>

lemma never_quits:
  assumes "0 < n" "tms \<le> 0" "(pp_step cap ^^ m) (pool_start n tms) s"
  shows "pp_inv n s \<and> pc s = AllocT None"
  using assms(3)
proof (induction m arbitrary: s)
  case 0
  then show ?case
    using pool_start_inv [of n tms] assms(2) by auto
next
  case (Suc m)
  then obtain s1 where s1: "pp_inv n s1" "pc s1 = AllocT None" "pp_step cap s1 s"
    by auto
  have "pc s = AllocT None"
    using s1(3)
  proof cases
    case (by_parent r)
    then show ?thesis
      using AllocTaskOnce_inv [OF s1(1) assms(1) s1(2), of cap r] s1(2) by (auto simp: parent_step_def)
  next
    case (by_child i)
    then show ?thesis
      using s1(2) by (auto simp: child_step_def split: if_splits list.splits)
  qed
  then show ?case
    using pp_step_inv [OF s1(3,1) assms(1)] by simp
qed

text \<open>C31: every run of a pool of \<open>n\<close> children, at least one, whatever the order in which the processes move. No step faults, some
  process can always move until the parent has quit, and what child \<open>i\<close> has run followed by what waits in its pipe are
  the tasks number \<open>i\<close>, \<open>i + n\<close>, \<open>i + 2 n\<close> and so on, in their order. With a positive count of tasks a run has at most
  \<open>2 * times + 3 * n + 3\<close> steps, and where no process can move the parent has quit, every child is gone with an
  empty pipe, and all tasks were handed out. Without one, as in \<open>main\<close>, which calls \<open>AllocTask\<close> with \<open>-1\<close>, the
  parent hands out tasks for ever: no state of a run has left that loop, and no child ever ends.\<close>

theorem process_pool_completes:
  assumes "0 < n" "0 < cap" "(pp_step cap ^^ m) (pool_start n tms) s"
  shows "proc_main n = pool_start n (- 1) \<and>
    (\<forall>r e. parent_step cap r s \<noteq> Inl e) \<and> (\<forall>i<n. \<forall>e. child_step i s \<noteq> Inl e) \<and>
    (pc s \<noteq> Quit \<longrightarrow> (\<exists>s'. pp_step cap s s')) \<and>
    (\<forall>i<n. ran_by i (ran s) @ pipe_data s i = share n i (sent s)) \<and>
    (if 0 < tms then m \<le> 2 * nat tms + 3 * n + 3 \<and>
       ((\<forall>s'. \<not> pp_step cap s s') \<longrightarrow>
         pc s = Quit \<and> length (sent s) = nat tms \<and> (\<forall>i<n. \<not> living s i \<and> pipe_data s i = []))
     else pc s = AllocT None \<and> (\<forall>i<n. living s i))"
proof -
  have inv: "pp_inv n s"
    using completes [OF assms(1,2) _ assms(3)] never_quits [OF assms(1) _ assms(3)] by linarith
  have "proc_main n = pool_start n (- 1)"
    by (simp add: proc_main_def pool_start_def)
  moreover have "parent_step cap r s \<noteq> Inl e" for r e
    using parent_step_inv [OF inv assms(1), of cap r] by auto
  moreover have "child_step i s \<noteq> Inl e" if "i < n" for i e
    using child_step_inv [OF inv that] by auto
  moreover have "pc s \<noteq> Quit \<longrightarrow> (\<exists>s'. pp_step cap s s')"
    using pp_progress [OF inv assms(1,2)] by blast
  moreover have "ran_by i (ran s) @ pipe_data s i = share n i (sent s)" if "i < n" for i
    using pp_invD(11) [OF inv that] .
  moreover have "if 0 < tms then m \<le> 2 * nat tms + 3 * n + 3 \<and>
       ((\<forall>s'. \<not> pp_step cap s s') \<longrightarrow>
         pc s = Quit \<and> length (sent s) = nat tms \<and> (\<forall>i<n. \<not> living s i \<and> pipe_data s i = []))
     else pc s = AllocT None \<and> (\<forall>i<n. living s i)"
  proof (cases "0 < tms")
    case True
    then show ?thesis
      using completes [OF assms(1,2) True assms(3)] by simp
  next
    case False
    then show ?thesis
      using never_quits [OF assms(1) _ assms(3)] pp_invD(6) [OF inv] by (simp add: pc_sets)
  qed
  ultimately show ?thesis
    by blast
qed

text \<open>Without children the first task already indexes an empty vector.\<close>

lemma no_children_faults: "AllocTaskOnce cap r (pool_start 0 tms) = Inl OutOfBounds"
  by (simp add: AllocTaskOnce_def pool_start_def AllocTask_def pool_empty_def)

text \<open>Two children and one task: a run comes to its end within eleven steps. The start of \<open>main\<close> with two children
  does not.\<close>

theorem process_pool_completes_witness:
  "(\<exists>m s. (pp_step 1 ^^ m) (pool_start 2 1) s \<and> m \<le> 11 \<and> pc s = Quit \<and> (\<forall>i<2. \<not> living s i) \<and>
    length (sent s) = 1) \<and> (\<exists>s'. pp_step 1 (proc_main 2) s')"
proof -
  have "\<exists>m s. (pp_step 1 ^^ m) (pool_start 2 1) s \<and> (\<forall>s'. \<not> pp_step 1 s s')"
  proof (rule ccontr)
    assume n: "\<not> (\<exists>m s. (pp_step 1 ^^ m) (pool_start 2 1) s \<and> (\<forall>s'. \<not> pp_step 1 s s'))"
    have "\<exists>s. (pp_step 1 ^^ m) (pool_start 2 1) s" for m
    proof (induction m)
      case (Suc m)
      then show ?case
        using n by (auto simp: relcompp_apply) blast
    qed auto
    then obtain s where "(pp_step 1 ^^ 20) (pool_start 2 1) s"
      by blast
    then show False
      using pp_run [of 20 1 "pool_start 2 1" s 2] pool_start_inv [of 2 1] work_start [of 1 2] by simp
  qed
  then obtain m s where s: "(pp_step 1 ^^ m) (pool_start 2 1) s" "\<forall>s'. \<not> pp_step 1 s s'"
    by blast
  have "(pp_step 1 ^^ 0) (pool_start 2 (- 1)) (pool_start 2 (- 1))"
    by simp
  from process_pool_completes [OF _ _ this] have "\<exists>s'. pp_step 1 (proc_main 2) s'"
    by simp
  moreover have "m \<le> 11 \<and> pc s = Quit \<and> (\<forall>i<2. \<not> living s i) \<and> length (sent s) = 1"
    using process_pool_completes [OF _ _ s(1)] s(2) by simp
  ultimately show ?thesis
    using s(1) by blast
qed

end
