(* ===== verification/Shared_Ptr.thy ===== *)
theory Shared_Ptr
  imports Prelude
begin

text \<open>
  \<open>my_shared_ptr\<close> of \<open>src/Test_10_26_shared_ptr/shared_ptr.cc\<close>: handles that share an object, a count and a mutex. A
  step is one operation under the mutex, or the copying of the three pointers before it, so that the threads that
  copy and drop handles interleave as lists of steps. A control block is alive while its count is there; using the
  count or the object after their deletion is a fault. The objects and handles are numbers.
\<close>

section \<open>The code\<close>

record shared_ptrs =
  sp_cnt :: "nat \<Rightarrow> int option"
  sp_ptr :: "nat \<Rightarrow> nat option"
  sp_copying :: "nat \<Rightarrow> nat option"
  sp_deleted :: "nat list"

definition sp_start :: shared_ptrs where
  "sp_start = \<lparr>sp_cnt = (\<lambda>_. None), sp_ptr = (\<lambda>_. None), sp_copying = (\<lambda>_. None), sp_deleted = []\<rparr>"

text \<open>\<open>my_shared_ptr(T* ptr)\<close> makes a count of one and a mutex for the object \<open>b\<close>.\<close>

definition sp_make :: "nat \<Rightarrow> nat \<Rightarrow> shared_ptrs \<Rightarrow> shared_ptrs" where
  "sp_make h b s = s\<lparr>sp_cnt := (sp_cnt s)(b \<mapsto> 1), sp_ptr := (sp_ptr s)(h \<mapsto> b)\<rparr>"

text \<open>The copy constructor: it takes the pointers of the other handle, and then counts itself under the mutex.\<close>

definition sp_copy_pointers :: "nat \<Rightarrow> nat \<Rightarrow> shared_ptrs \<Rightarrow> shared_ptrs res" where
  "sp_copy_pointers h g s =
     (case sp_ptr s g of None \<Rightarrow> Inl NullDeref | Some b \<Rightarrow> Inr (s\<lparr>sp_copying := (sp_copying s)(h \<mapsto> g)\<rparr>))"

definition sp_copy_count :: "nat \<Rightarrow> shared_ptrs \<Rightarrow> shared_ptrs res" where
  "sp_copy_count h s =
     (case Option.bind (sp_copying s h) (sp_ptr s) of
        None \<Rightarrow> Inl NullDeref
      | Some b \<Rightarrow> (case sp_cnt s b of
          None \<Rightarrow> Inl NullDeref
        | Some n \<Rightarrow> Inr (s\<lparr>sp_cnt := (sp_cnt s)(b \<mapsto> n + 1), sp_ptr := (sp_ptr s)(h \<mapsto> b),
                            sp_copying := (sp_copying s)(h := None)\<rparr>)))"

text \<open>\<open>release\<close>, which the destructor calls.\<close>

definition sp_release :: "nat \<Rightarrow> shared_ptrs \<Rightarrow> shared_ptrs res" where
  "sp_release h s =
     (case sp_ptr s h of
        None \<Rightarrow> Inl NullDeref
      | Some b \<Rightarrow> (case sp_cnt s b of
          None \<Rightarrow> Inl NullDeref
        | Some n \<Rightarrow>
            let s1 = s\<lparr>sp_ptr := (sp_ptr s)(h := None)\<rparr> in
            if n > 1 then Inr (s1\<lparr>sp_cnt := (sp_cnt s)(b \<mapsto> n - 1)\<rparr>)
            else Inr (s1\<lparr>sp_cnt := (sp_cnt s)(b := None), sp_deleted := sp_deleted s @ [b]\<rparr>)))"

definition sp_size :: "nat \<Rightarrow> shared_ptrs \<Rightarrow> int res" where
  "sp_size h s =
     (case Option.bind (sp_ptr s h) (sp_cnt s) of None \<Rightarrow> Inl NullDeref | Some n \<Rightarrow> Inr n)"

text \<open>\<open>operator->\<close>: the object, which must not have been deleted.\<close>

definition sp_arrow :: "nat \<Rightarrow> shared_ptrs \<Rightarrow> nat res" where
  "sp_arrow h s =
     (case sp_ptr s h of
        None \<Rightarrow> Inl NullDeref
      | Some b \<Rightarrow> if b \<in> set (sp_deleted s) then Inl NullDeref else Inr b)"

section \<open>Runs of any threads\<close>

datatype sp_op = SpMake nat nat | SpPointers nat nat | SpCount nat | SpRelease nat

fun sp_step :: "sp_op \<Rightarrow> shared_ptrs \<Rightarrow> shared_ptrs res" where
  "sp_step (SpMake h b) s = Inr (sp_make h b s)"
| "sp_step (SpPointers h g) s = sp_copy_pointers h g s"
| "sp_step (SpCount h) s = sp_copy_count h s"
| "sp_step (SpRelease h) s = sp_release h s"

primrec sp_run :: "sp_op list \<Rightarrow> shared_ptrs \<Rightarrow> shared_ptrs res" where
  "sp_run [] s = Inr s"
| "sp_run (e # es) s = rbind (sp_step e s) (sp_run es)"

text \<open>What the language asks of a program: objects come from \<open>new\<close> once, constructors run on storage that holds no
  handle, a handle is not destroyed while it is being copied, and there are fewer handles than an \<open>int\<close> counts.\<close>

definition sp_free_name :: "nat \<Rightarrow> shared_ptrs \<Rightarrow> bool" where
  "sp_free_name h s \<longleftrightarrow> sp_ptr s h = None \<and> sp_copying s h = None"

fun sp_legal :: "sp_op \<Rightarrow> shared_ptrs \<Rightarrow> bool" where
  "sp_legal (SpMake h b) s \<longleftrightarrow> sp_free_name h s \<and> sp_cnt s b = None \<and> b \<notin> set (sp_deleted s)"
| "sp_legal (SpPointers h g) s \<longleftrightarrow> sp_free_name h s \<and> sp_ptr s g \<noteq> None"
| "sp_legal (SpCount h) s \<longleftrightarrow> sp_copying s h \<noteq> None \<and> (\<forall>b n. sp_cnt s b = Some n \<longrightarrow> n < 2147483647)"
| "sp_legal (SpRelease h) s \<longleftrightarrow> sp_ptr s h \<noteq> None \<and> (\<forall>k. sp_copying s k \<noteq> Some h)"

primrec sp_program :: "sp_op list \<Rightarrow> shared_ptrs \<Rightarrow> bool" where
  "sp_program [] s = True"
| "sp_program (e # es) s \<longleftrightarrow> sp_legal e s \<and> (case sp_step e s of Inl _ \<Rightarrow> True | Inr s' \<Rightarrow> sp_program es s')"

section \<open>The count is the number of handles\<close>

definition handles :: "shared_ptrs \<Rightarrow> nat \<Rightarrow> nat set" where
  "handles s b = {h. sp_ptr s h = Some b}"

definition sp_inv :: "shared_ptrs \<Rightarrow> bool" where
  "sp_inv s \<longleftrightarrow>
     (\<forall>b. finite (handles s b)) \<and>
     (\<forall>b. sp_cnt s b = (if handles s b = {} then None else Some (int (card (handles s b))))) \<and>
     distinct (sp_deleted s) \<and> (\<forall>b \<in> set (sp_deleted s). sp_cnt s b = None) \<and>
     (\<forall>h g. sp_copying s h = Some g \<longrightarrow> sp_ptr s g \<noteq> None \<and> sp_ptr s h = None)"

lemma sp_invD:
  assumes "sp_inv s"
  shows "finite (handles s b)" "sp_cnt s b = (if handles s b = {} then None else Some (int (card (handles s b))))"
    "distinct (sp_deleted s)" "b \<in> set (sp_deleted s) \<Longrightarrow> sp_cnt s b = None"
    "sp_copying s h = Some g \<Longrightarrow> sp_ptr s g \<noteq> None \<and> sp_ptr s h = None"
  using assms unfolding sp_inv_def by blast+

lemma sp_invI [inv_intros]:
  assumes "\<And>b. finite (handles s b)"
    and "\<And>b. handles s b = {} \<Longrightarrow> sp_cnt s b = None"
    and "\<And>b. handles s b \<noteq> {} \<Longrightarrow> sp_cnt s b = Some (int (card (handles s b)))"
    and "distinct (sp_deleted s)" "\<And>b. b \<in> set (sp_deleted s) \<Longrightarrow> sp_cnt s b = None"
    and "\<And>h g. sp_copying s h = Some g \<Longrightarrow> sp_ptr s g \<noteq> None \<and> sp_ptr s h = None"
  shows "sp_inv s"
  unfolding sp_inv_def using assms by (intro conjI allI ballI impI) auto

lemma sp_cnt_cases:
  assumes "sp_inv s"
  shows "handles s b = {} \<Longrightarrow> sp_cnt s b = None" "handles s b \<noteq> {} \<Longrightarrow> sp_cnt s b = Some (int (card (handles s b)))"
  using sp_invD(2) [OF assms, of b] by simp_all

lemma handles_other [simp]:
  "handles (s\<lparr>sp_copying := c\<rparr>) = handles s" "handles (s\<lparr>sp_cnt := n\<rparr>) = handles s"
  "handles (s\<lparr>sp_deleted := d\<rparr>) = handles s"
  by (simp_all add: handles_def fun_eq_iff)

lemma handles_gain:
  assumes "sp_ptr s h = None"
  shows "{k. ((sp_ptr s)(h \<mapsto> b)) k = Some c} = (if c = b then insert h (handles s b) else handles s c)"
  using assms by (auto simp: handles_def)

lemma sp_live:
  assumes "sp_inv s" "sp_ptr s h = Some b"
  shows "sp_cnt s b = Some (int (card (handles s b)))" "h \<in> handles s b" "b \<notin> set (sp_deleted s)" "0 < card (handles s b)"
proof -
  show h: "h \<in> handles s b"
    using assms(2) by (simp add: handles_def)
  then show c: "sp_cnt s b = Some (int (card (handles s b)))"
    using sp_invD(2) [OF assms(1), of b] by (auto split: if_splits)
  show "b \<notin> set (sp_deleted s)"
    using c sp_invD(4) [OF assms(1), of b] by auto
  show "0 < card (handles s b)"
    using h sp_invD(1) [OF assms(1)] by (auto simp: card_gt_0_iff)
qed

lemma sp_gain_inv:
  assumes inv: "sp_inv s" and h: "sp_ptr s h = None" and b: "b \<notin> set (sp_deleted s)"
    and cp: "\<And>k g. cp k = Some g \<Longrightarrow> sp_copying s k = Some g \<and> k \<noteq> h"
  shows "sp_inv (s\<lparr>sp_cnt := (sp_cnt s)(b \<mapsto> int (card (handles s b)) + 1), sp_ptr := (sp_ptr s)(h \<mapsto> b), sp_copying := cp\<rparr>)"
proof -
  let ?s = "s\<lparr>sp_cnt := (sp_cnt s)(b \<mapsto> int (card (handles s b)) + 1), sp_ptr := (sp_ptr s)(h \<mapsto> b), sp_copying := cp\<rparr>"
  have hs: "handles ?s c = (if c = b then insert h (handles s b) else handles s c)" for c
    using handles_gain [OF h, of b c] by (simp add: handles_def)
  have "h \<notin> handles s b"
    using h by (simp add: handles_def)
  then have card: "card (insert h (handles s b)) = Suc (card (handles s b))"
    using sp_invD(1) [OF inv] by simp
  show ?thesis
  proof (rule sp_invI)
    show "finite (handles ?s c)" for c
      unfolding hs using sp_invD(1) [OF inv] by simp
    show "sp_cnt ?s c = None" if "handles ?s c = {}" for c
      using that sp_cnt_cases(1) [OF inv, of c] unfolding hs by (auto split: if_splits)
    show "sp_cnt ?s c = Some (int (card (handles ?s c)))" if "handles ?s c \<noteq> {}" for c
      using that sp_cnt_cases(2) [OF inv, of c] card unfolding hs by (cases "c = b") auto
    show "sp_cnt ?s c = None" if "c \<in> set (sp_deleted ?s)" for c
      using that sp_invD(4) [OF inv, of c] b by auto
    show "sp_ptr ?s g \<noteq> None \<and> sp_ptr ?s k = None" if "sp_copying ?s k = Some g" for k g
      using cp [of k g] sp_invD(5) [OF inv, of k g] that by auto
  qed (use sp_invD(3) [OF inv] in simp)
qed

lemma sp_step_ok:
  assumes inv: "sp_inv s" and ok: "sp_legal e s"
  shows "\<exists>s'. sp_step e s = Inr s' \<and> sp_inv s'"
proof (cases e)
  case (SpMake h b)
  then have l: "sp_ptr s h = None" "sp_copying s h = None" "sp_cnt s b = None" "b \<notin> set (sp_deleted s)"
    using ok by (simp_all add: sp_free_name_def)
  then have "handles s b = {}"
    using sp_invD(2) [OF inv, of b] by (auto split: if_splits)
  then show ?thesis
    using sp_gain_inv [OF inv l(1,4), of "sp_copying s"] l(2) SpMake by (fastforce simp: sp_make_def)
next
  case (SpPointers h g)
  then have "sp_inv (s\<lparr>sp_copying := (sp_copying s)(h \<mapsto> g)\<rparr>)"
    using sp_invD(1,3,4,5) [OF inv] sp_cnt_cases [OF inv] ok
    by (intro sp_invI) (auto simp: sp_free_name_def split: if_splits)
  then show ?thesis
    using ok SpPointers by (auto simp: sp_copy_pointers_def)
next
  case (SpCount h)
  then obtain g0 where g0: "sp_copying s h = Some g0"
    using ok by auto
  then obtain g b where g: "sp_copying s h = Some g" "sp_ptr s g = Some b" "sp_ptr s h = None"
    using sp_invD(5) [OF inv g0] by auto
  note live = sp_live [OF inv g(2)]
  have "sp_inv (s\<lparr>sp_cnt := (sp_cnt s)(b \<mapsto> int (card (handles s b)) + 1), sp_ptr := (sp_ptr s)(h \<mapsto> b),
      sp_copying := (sp_copying s)(h := None)\<rparr>)"
    by (rule sp_gain_inv [OF inv g(3) live(3)]) (simp split: if_splits)
  then show ?thesis
    using g live(1) SpCount by (simp add: sp_copy_count_def)
next
  case (SpRelease h)
  then obtain b where b: "sp_ptr s h = Some b" and nc: "\<And>k. sp_copying s k \<noteq> Some h"
    using ok by auto
  note live = sp_live [OF inv b]
  let ?n = "card (handles s b)"
  let ?s1 = "s\<lparr>sp_ptr := (sp_ptr s)(h := None)\<rparr>"
  let ?s' = "if int ?n > 1 then ?s1\<lparr>sp_cnt := (sp_cnt s)(b \<mapsto> int ?n - 1)\<rparr>
    else ?s1\<lparr>sp_cnt := (sp_cnt s)(b := None), sp_deleted := sp_deleted s @ [b]\<rparr>"
  have hs: "handles ?s' c = (if c = b then handles s b - {h} else handles s c)" for c
    using b by (auto simp: handles_def)
  have card: "card (handles s b - {h}) = ?n - 1"
    using live(2) sp_invD(1) [OF inv] by simp
  have empty: "handles s b - {h} = {} \<longleftrightarrow> ?n = 1"
    using card live(4) sp_invD(1) [OF inv, of b] by (metis Suc_pred One_nat_def card_0_eq finite_Diff nat.inject)
  have "sp_inv ?s'"
  proof (rule sp_invI)
    show "finite (handles ?s' c)" for c
      unfolding hs using sp_invD(1) [OF inv] by simp
    show "sp_cnt ?s' c = None" if "handles ?s' c = {}" for c
      using that sp_cnt_cases(1) [OF inv, of c] empty unfolding hs by (auto split: if_splits)
    show "sp_cnt ?s' c = Some (int (card (handles ?s' c)))" if "handles ?s' c \<noteq> {}" for c
      using that sp_cnt_cases(2) [OF inv, of c] card empty live(4) unfolding hs by (cases "c = b") auto
    show "sp_cnt ?s' c = None" if "c \<in> set (sp_deleted ?s')" for c
      using that sp_invD(4) [OF inv, of c] live(3) by (auto split: if_splits)
    show "sp_ptr ?s' g \<noteq> None \<and> sp_ptr ?s' k = None" if "sp_copying ?s' k = Some g" for k g
      using sp_invD(5) [OF inv, of k g] nc [of k] that by (auto split: if_splits)
  qed (use sp_invD(3) [OF inv] live(3) in simp)
  then show ?thesis
    using b live(1) SpRelease by (auto simp: sp_release_def Let_def)
qed

lemma sp_run_ok:
  assumes "sp_inv s" "sp_program es s"
  shows "\<exists>s'. sp_run es s = Inr s' \<and> sp_inv s'"
  using assms
proof (induction es arbitrary: s)
  case (Cons e es)
  then obtain s1 where "sp_step e s = Inr s1" "sp_inv s1"
    using sp_step_ok [of s e] by auto
  then show ?case
    using Cons.IH [of s1] Cons.prems(2) by simp
qed simp

lemma sp_start_inv: "sp_inv sp_start"
  by (simp add: sp_inv_def sp_start_def handles_def)

text \<open>Every object that was made is in use or has been deleted.\<close>

definition sp_made :: "sp_op list \<Rightarrow> nat set" where
  "sp_made es = {b. \<exists>h. SpMake h b \<in> set es}"

lemma sp_made_Cons: "sp_made (e # es) = (case e of SpMake h b \<Rightarrow> {b} | _ \<Rightarrow> {}) \<union> sp_made es"
  by (auto simp: sp_made_def split: sp_op.splits)

lemma sp_step_blocks:
  assumes "sp_step e s = Inr s'" "sp_legal e s"
  shows "dom (sp_cnt s') \<union> set (sp_deleted s') =
    dom (sp_cnt s) \<union> set (sp_deleted s) \<union> (case e of SpMake h b \<Rightarrow> {b} | _ \<Rightarrow> {})"
  using assms by (cases e) (auto simp: sp_make_def sp_copy_pointers_def sp_copy_count_def sp_release_def Let_def
      split: option.splits if_splits)

lemma sp_run_blocks:
  assumes "sp_run es s = Inr s'" "sp_program es s"
  shows "dom (sp_cnt s') \<union> set (sp_deleted s') = dom (sp_cnt s) \<union> set (sp_deleted s) \<union> sp_made es"
  using assms
proof (induction es arbitrary: s)
  case Nil
  then show ?case
    by (simp add: sp_made_def)
next
  case (Cons e es)
  then obtain s1 where s1: "sp_step e s = Inr s1" "sp_run es s1 = Inr s'"
    by (auto simp: rbind_eq_Inr)
  then show ?case
    using Cons.IH [OF s1(2)] Cons.prems(2) sp_step_blocks [OF s1(1)] by (auto simp: sp_made_Cons)
qed

section \<open>Property\<close>

text \<open>C39: shared objects live exactly as long as a handle. However the threads of a legal program interleave, no
  step touches a deleted count or object; in the state it ends in, \<open>size()\<close> of a handle is the number of handles of its
  object and \<open>operator->\<close> gives the object, which is not deleted; an object is deleted exactly when no handle is left,
  once, and with no handle left at all every object that was made has been deleted.\<close>

theorem shared_objects_live:
  assumes "sp_program es sp_start"
  shows "\<exists>s. sp_run es sp_start = Inr s \<and>
    (\<forall>h b. sp_ptr s h = Some b \<longrightarrow> sp_size h s = Inr (int (card (handles s b))) \<and> sp_arrow h s = Inr b) \<and>
    distinct (sp_deleted s) \<and> set (sp_deleted s) = {b \<in> sp_made es. handles s b = {}}"
proof -
  obtain s where s: "sp_run es sp_start = Inr s" "sp_inv s"
    using sp_run_ok [OF sp_start_inv assms] by blast
  have "dom (sp_cnt s) \<union> set (sp_deleted s) = sp_made es"
    using sp_run_blocks [OF s(1) assms] by (simp add: sp_start_def)
  moreover have "b \<in> dom (sp_cnt s) \<longleftrightarrow> handles s b \<noteq> {}" for b
    using sp_cnt_cases [OF s(2), of b] by auto
  ultimately have "set (sp_deleted s) = {b \<in> sp_made es. handles s b = {}}"
    using sp_invD(4) [OF s(2)] by blast
  then show ?thesis
    using s sp_invD(3) [OF s(2)] sp_live [OF s(2)]
    by (intro exI [of _ s]) (auto simp: sp_size_def sp_arrow_def)
qed

definition sp_demo :: "sp_op list" where
  "sp_demo = [SpMake 0 5, SpPointers 1 0, SpPointers 2 0, SpCount 2, SpCount 1, SpRelease 0, SpMake 0 6, SpRelease 2, SpRelease 1]"

lemma shared_objects_live_witness:
  "\<exists>s. sp_run sp_demo sp_start = Inr s \<and> sp_deleted s = [5] \<and> sp_size 0 s = Inr 1"
proof -
  have r: "sp_program sp_demo sp_start" "\<exists>s. sp_run sp_demo sp_start = Inr s \<and> sp_deleted s = [5] \<and> sp_ptr s 0 = Some 6 \<and>
      handles s 6 = {0}"
    by (auto simp: sp_demo_def sp_start_def sp_free_name_def sp_make_def sp_copy_pointers_def sp_copy_count_def sp_release_def
        Let_def handles_def)
  from shared_objects_live [OF r(1)] r(2) show ?thesis
    by auto
qed

end
