(* ===== verification/Spec2Isabelle.thy ===== *)
theory Spec2Isabelle
  imports Concurrent_Programs Pool_Programs Pool_Pages_Shared Conn_Calls Server_Start Http_Server Ring_Queue Thread_Pool
    Shell Std_Shell Buffered_File Process_Pool Shared_Ptr
begin

text \<open>
  A model of the C++ programs of the repository, with the theorems that make them correct. The theories
  read from the data of a component to its operations, its invariant and its properties; faults of the code
  (a failed \<open>assert\<close>, \<open>bad_alloc\<close>, an exception, \<open>exit\<close>, an undefined access) are the left values of
  the type \<open>res\<close> of \<open>Prelude\<close>.

  \<^bold>\<open>The memory pool of three levels\<close> (\<open>src/ConcurrentMemoryPool/\<close>). A thread takes blocks from its
  own cache, the cache takes chains of blocks from the central cache, the central cache cuts spans of pages
  into blocks, and the page cache splits and merges spans, which it finds through the page map.
  \<^item> \<open>Size_Class\<close>: \<open>SizeClass\<close> of \<open>Common.h\<close>; the rounding and the index as arithmetic.
  \<^item> \<open>Page_Map\<close>: \<open>PageMap.h\<close>, the radix tree as nested tables.
  \<^item> \<open>Object_Pool\<close>: \<open>FixedMemoryPool.h\<close> and \<open>src/Fixed_Memory_Pool/FixedSizePool.h\<close>; the results
    of \<open>malloc\<close> are a list the run consumes.
  \<^item> \<open>Span_List\<close>, \<open>Free_List\<close>: \<open>Span\<close>, \<open>SpanList\<close> and \<open>FreeList\<close> of \<open>Common.h\<close> over an
    explicit heap: one function from addresses per field, and the link words of the blocks.
  \<^item> \<open>Page_Cache\<close> (definitions), \<open>Page_Cache_Inv\<close> (the invariant and \<open>NewSpan\<close>),
    \<open>Page_Cache_Release\<close> (\<open>ReleaseSpanToPageCache\<close>): \<open>PageCache.cpp\<close>.
  \<^item> \<open>Central_Cache\<close>, \<open>Central_Inv\<close>: \<open>CentralCache.cpp\<close>, with what the cutting loop writes (\<open>carve_inside_iff\<close>).
  \<^item> \<open>Thread_Cache\<close>: \<open>ThreadCache.cc\<close> and \<open>ConCurrent.h\<close>. \<open>Concurrent_Pool\<close>: the invariant of the
    whole pool with any number of threads, and the contract of \<open>ConcurrentMalloc\<close> and \<open>ConcurrentDelete\<close>.

  \<^bold>\<open>The second allocator\<close> (\<open>src/Pool/\<close>), of the same three levels, written apart from the first: \<open>int\<close>
  sizes and other indices of the classes, lists that pop at the back, a radix tree in place of the page map, and
  counts that are not reset when a span is handed out.
  \<^item> \<open>Pool_Size\<close>: \<open>SizeClass\<close> of \<open>Common.h\<close>. \<open>Pool_Lists\<close>, \<open>Pool_Free_List\<close>: its \<open>SpanList\<close> and
    \<open>FreeList\<close>. \<open>Radix_Tree\<close>: \<open>RadixTree.h\<close> and the two helpers of \<open>PageCache.cpp\<close> that map spans.
    \<open>Pool_Object\<close>: \<open>ObjectPool.h\<close>.
  \<^item> \<open>Pool_Page_Cache\<close> (\<open>GetNewSpan\<close>, \<open>AddrToSpan\<close>, \<open>ReleaseSpan\<close> of \<open>PageCache.cpp\<close>), \<open>Pool_Page_Inv\<close> (the
    invariant, kept by \<open>GetNewSpan\<close>), \<open>Pool_Page_Release\<close> (kept by \<open>ReleaseSpan\<close>, which merges).
  \<^item> \<open>Pool_Central\<close>: \<open>CentralCache.cpp\<close>, \<open>ThreadCache.cpp\<close> and \<open>Concurrent.h\<close>, from \<open>GetOneSpan\<close> to
    \<open>Alloc\<close> and \<open>Free\<close>. \<open>Pool_Central_Inv\<close>, \<open>Pool_Thread\<close>: the invariants of the central cache and of a thread's
    lists. \<open>Pool_Alloc\<close>: the contract of \<open>Alloc\<close> and \<open>Free\<close>, and the requests they answer with a fault.
  \<^item> \<open>Pool_Pages_Shared\<close>: threads inside the page cache at the same time, as a step relation with its mutex; the
    parts of \<open>GetNewSpan\<close> and each round of the merging loops of \<open>ReleaseSpan\<close> are steps of their own.

  \<^bold>\<open>What the two allocators share\<close>. \<open>Block_Owner\<close>: who owns a block (its span's chain, or somebody outside), and
    how that changes when a batch leaves, a block comes back, a span joins or leaves. \<open>Thread_Lists\<close>: the lists of
    the threads over the central cache; the contract \<open>thread_lists\<close> has one interpretation per allocator.
    \<open>Allocator_Client\<close>: programs of several threads over an allocator, their calls served one after the other in
    any order, and the contract \<open>allocator\<close> under which every program that is proper on the classes of its blocks runs; \<open>Concurrent_Programs\<close> and \<open>Pool_Programs\<close>
    interpret it and run the tests of the repository (\<open>ConcurrentMemoryPool/unit_test.cpp\<close>, \<open>Pool/unitest.cpp\<close>).

  \<^bold>\<open>The network library\<close> (\<open>src/muduo/server.hpp\<close>). A poller per loop turns kernel events into calls of
  a channel's handlers; connections own buffers, a channel and a timer; other threads reach a loop only
  through its task queue.
  \<^item> \<open>Byte_Buffer\<close>: \<open>Buffer\<close>. \<open>Timer_Wheel\<close>: \<open>TimerTask\<close>, \<open>TimerWheel\<close>, which refines a table of timers by name.
  \<^item> \<open>Event_Loop\<close>: \<open>Socket\<close>, \<open>Channel\<close>, \<open>Poll\<close> and the task queue of \<open>EventLoop\<close>; the
    interleavings of the loop and the threads that queue tasks are the step relation \<open>wk_step\<close>.
  \<^item> \<open>Loop_Round\<close>: the constructor of \<open>EventLoop\<close> and whole rounds of \<open>Loop()\<close>, with the timer descriptor and the timer
    calls of other threads. \<open>Loop_Thread\<close>: \<open>LoopThread\<close>, the hand-over of a thread's loop, as a step relation.
  \<^item> \<open>Connection\<close>: \<open>Connection\<close> in its loop; \<open>Conn_Calls\<close>: the calls of other threads on it, its context and
    \<open>Upgrade\<close>; \<open>Send\<close> queues the caller's address, and the bytes are those in the memory when the loop runs.
    \<open>Any_Value\<close>: \<open>Any\<close>, the type of the context, as values behind owned holders.
  \<^item> \<open>Tcp_Server\<close>: \<open>Acceptor\<close>, \<open>LoopThreadPool\<close>, \<open>TcpServer\<close>, where connections may close before they are in the
    table; \<open>Server_Start\<close>: their constructors.

  \<^bold>\<open>The web server\<close> (\<open>src/muduo/http/httpserver.hpp\<close>): \<open>Http_Util\<close> (the tables and \<open>Util\<close>),
  \<open>Http_Context\<close> (\<open>HttpRequest\<close> and the incremental parser \<open>HttpContext\<close>), \<open>Http_Server\<close>
  (\<open>HttpResponse\<close>, \<open>HttpServer\<close>: files, routes, and the loop over the requests in a buffer).

  \<^bold>\<open>Queues and thread pools\<close>: \<open>Bounded_Queue\<close> (\<open>src/os/thread/BlockingQueue.h\<close>), \<open>Ring_Queue\<close>
  (\<open>src/Test_11_28_ThreadPool_Semph/semph/Semaphore_CP.hpp\<close>) and \<open>Thread_Pool\<close>
  (\<open>src/os/thread/ThreadPool.h\<close>, \<open>src/Test_11_29_pool_log/ThreadPool.hpp\<close>), all as step relations: a step
  is what one thread does under one lock, or one access to shared data where the code holds none.

  \<^bold>\<open>Programs around processes\<close>. \<open>C_String\<close>: strings in an array of bytes, what the shell uses of the C
  library, and the exercises of \<open>src/Test_10_23_str_func/str_func.cc\<close>. \<open>Shell\<close>
  (\<open>src/Test_11_9_file_redir/myshell/myshell.cc\<close>) and \<open>Std_Shell\<close>
  (\<open>src/Test_11_6_proc_substitute/myshell/standard/myshell.cc\<close>): the globals and one round of the loop as
  functions, the second with a reference on strings and words that it refines.
  \<open>Buffered_File\<close> (\<open>src/Test_11_9_file_redir/mystdio/\<close>). \<open>Process_Pool\<close> (\<open>src/Test_11_14_proc_pool/\<close>): parent,
  children and pipes as a step relation, with the write ends each process holds. \<open>Shared_Ptr\<close>
  (\<open>src/Test_10_26_shared_ptr/shared_ptr.cc\<close>): handles of any threads over counted objects.

  \<^bold>\<open>Interfaces\<close>. Where components rely on each other the contract is a locale, interpreted on the
  model of each provider: \<open>size_class\<close> (both allocators), \<open>page_table\<close> and
  \<open>erasable_page_table\<close> (both radix trees), \<open>thread_lists\<close> (the threads of both
  allocators), \<open>allocator\<close> (both allocators, over all their layers), \<open>object_pool\<close> (all
  three pools), \<open>free_list\<close> and \<open>intrusive_list\<close> (the block and span lists of both
  allocators), \<open>byte_stream\<close> (the buffer), \<open>fifo_steps\<close> and \<open>fifo_queue\<close>
  (the queues) and \<open>pool_signals\<close> (both thread pools, by \<open>sublocale\<close> an instance of
  \<open>fifo_steps\<close>).

  \<^bold>\<open>What the lemmas show\<close>. Invariants and their preservation by every operation (the page cache, the central
  cache, the whole pool, the poller, the server's table, the queues); refinement of abstract objects (a wheel
  of timers is a table of countdowns, a buffer a stream, a ring a queue, a radix tree a map); round trips (URL
  encoding, printing and parsing of requests); equivalences (parsing in pieces and at once, the path check and
  its meaning); liveness as bounded statements (queued tasks run in the next round, timers fire at their tick,
  stopping a pool drains it, a process pool given a number of tasks comes to its end); and the faults the code can run into, each with the input that reaches it.

  \<^bold>\<open>Bounds\<close>. Loops over lists and blocks in the heap carry the fuel \<open>walk_fuel\<close> = \<open>2 ^ 64\<close>, more than
  there are addresses: the invariants bound the lists by distinct addresses, so that the theorems state a
  result and never \<open>NoFuel\<close>. Machine integers keep their width; sizes of \<open>Pool_Size\<close> are integers because
  every intermediate value lies far below \<open>2 ^ 31\<close>.

  \<^bold>\<open>Parameters\<close>. The results of \<open>malloc\<close>, \<open>mmap\<close>, \<open>accept\<close>, \<open>recv\<close>, \<open>send\<close>, \<open>epoll_ctl\<close>, \<open>fork\<close>, \<open>waitpid\<close>, the file
  system and the handlers of the user are arguments of the definitions, or lists that a run consumes.

  \<^bold>\<open>Not modelled\<close>. The memory ordering of C++ below the level of locks; the calls that start and join threads;
  the printing of logs; signals, shared memory, named pipes and the demonstrations around them, which only
  forward to the kernel; build output. In both allocators a call of \<open>ConcurrentMalloc\<close>, \<open>ConcurrentDelete\<close>, \<open>Alloc\<close> or
  \<open>Free\<close> is one function of the state: that the lock of a bucket is dropped around the calls of the page cache, and
  what other threads do meanwhile, is modelled for the page cache of the second allocator only. In the first, a new span
  is mapped but not yet marked as used when the page mutex is given back, so that such a model would show it merged
  away. The construction of the singletons on their first use is left out; that of the second \<open>CentralCache\<close>
  overruns its block (\<open>Pool_Object\<close>).
\<close>

end
